(* ===== verification/Prelude.thy ===== *)
theory Prelude
  imports Main "HOL-Library.Word"
begin

text \<open>
  Shared vocabulary of the development: the C integer types as fixed-width words, the errno
  values and limits the sources use, C arrays as total maps from an index to a value, and the
  lemmas on masks, modular indices and array updates that the components share.

  Collections: \<open>ring_defs\<close> unfolds the ring operations, \<open>idx_simps\<close> turns masked word
  indices into \<open>mod\<close> arithmetic on naturals.
\<close>

unbundle bit_operations_syntax

named_theorems ring_defs "definitions of the ring operations"
named_theorems idx_simps "masked indices as modular arithmetic"

section \<open>C types\<close>

type_synonym u8 = "8 word"
type_synonym u16 = "16 word"
type_synonym u32 = "32 word"
type_synonym u64 = "64 word"

text \<open>
  A C array (or the memory behind a pointer) whose bounds the code does not check: every index
  has a cell, so that a write past the end is visible in the model.
\<close>

type_synonym 'a carray = "u32 \<Rightarrow> 'a"

text \<open>
  \<open>for (i = 0; i < n; i++) body\<close> with a 32-bit counter that the body does not change.
\<close>

definition for_n :: "u32 \<Rightarrow> (u32 \<Rightarrow> 's \<Rightarrow> 's) \<Rightarrow> 's \<Rightarrow> 's" where
  "for_n n body s = fold (\<lambda>k. body (of_nat k)) [0..<unat n] s"

text \<open>\<open>&a[k]\<close> passed as a table, and the array after the callee wrote to that table.\<close>

definition arr_from :: "'a carray \<Rightarrow> u32 \<Rightarrow> 'a carray" where
  "arr_from a k = (\<lambda>i. a (k + i))"

definition arr_back :: "'a carray \<Rightarrow> u32 \<Rightarrow> 'a carray" where
  "arr_back tbl k = (\<lambda>j. tbl (j - k))"

section \<open>Errno values (Linux, asm-generic) and configuration\<close>

definition ENOENT :: int where "ENOENT = 2"
definition ENOMEM :: int where "ENOMEM = 12"
definition EEXIST :: int where "EEXIST = 17"
definition EINVAL :: int where "EINVAL = 22"
definition ENOSPC :: int where "ENOSPC = 28"
definition ENOBUFS :: int where "ENOBUFS = 105"
definition EDQUOT :: int where "EDQUOT = 122"

lemmas errno_defs =
  ENOENT_def ENOMEM_def EEXIST_def EINVAL_def ENOSPC_def ENOBUFS_def EDQUOT_def

definition RTE_MAX_LCORE :: u32 where "RTE_MAX_LCORE = 128"

text \<open>\<open>RTE_ALIGN_FLOOR\<close> and \<open>RTE_ALIGN_CEIL\<close> of \<open>rte_common.h\<close>, at any width.\<close>

definition RTE_ALIGN_FLOOR :: "'a::len word \<Rightarrow> 'a word \<Rightarrow> 'a word" where
  "RTE_ALIGN_FLOOR val align = val AND NOT (align - 1)"

definition RTE_ALIGN_CEIL :: "'a::len word \<Rightarrow> 'a word \<Rightarrow> 'a word" where
  "RTE_ALIGN_CEIL val align = RTE_ALIGN_FLOOR (val + (align - 1)) align"

lemma for_n_inv:
  assumes "P 0 s" and "\<And>k s. k < unat n \<Longrightarrow> P k s \<Longrightarrow> P (Suc k) (body (of_nat k) s)"
  shows "P (unat n) (for_n n body s)"
proof -
  have "P m (fold (\<lambda>k. body (of_nat k)) [0..<m] s)" if "m \<le> unat n" for m
    using that by (induction m) (auto intro: assms)
  then show ?thesis by (simp add: for_n_def)
qed

lemma for_n_0 [simp]: "for_n 0 body s = s"
  by (simp add: for_n_def)

lemma arr_back_from [simp]: "arr_back (arr_from a k) k = a"
  by (simp add: arr_back_def arr_from_def)

section \<open>Powers of two, masks and modular indices\<close>

text \<open>\<open>pow2_size sz\<close>: a ring or table size, a power of two below \<open>2 ^ 32\<close>.\<close>

definition pow2_size :: "u32 \<Rightarrow> bool" where
  "pow2_size sz \<longleftrightarrow> (\<exists>b<32. sz = 2 ^ b)"

lemma unat_2p: "b < 32 \<Longrightarrow> unat ((2 :: u32) ^ b) = 2 ^ b"
proof -
  assume "b < 32"
  then have "(2::nat) ^ b < 2 ^ LENGTH(32)" by (intro power_strict_increasing) simp_all
  then have "unat (word_of_nat (2 ^ b) :: u32) = 2 ^ b" by (simp only: unat_of_nat mod_less)
  then show ?thesis by simp
qed

lemma pow2_sizeE:
  assumes "pow2_size sz"
  obtains b where "b < 32" and "sz = 2 ^ b" and "unat sz = 2 ^ b" and "sz - 1 = mask b"
proof -
  from assms obtain b where b: "b < 32" "sz = 2 ^ b" by (auto simp: pow2_size_def)
  moreover have "unat sz = 2 ^ b" using b by (simp add: unat_2p)
  moreover have "sz - 1 = mask b" using b by (simp add: mask_eq_decr_exp)
  ultimately show thesis by (rule that)
qed

lemma unat_and_mask: "unat (x AND mask b :: u32) = unat x mod 2 ^ b"
  by (simp add: take_bit_eq_mask [symmetric] unsigned_take_bit_eq flip: take_bit_eq_mod)

lemma unat_pow2_pos: "pow2_size sz \<Longrightarrow> 0 < unat sz"
  by (erule pow2_sizeE) simp

lemma unat_and_pow2 [idx_simps]:
  assumes "pow2_size sz"
  shows "unat (x AND (sz - 1)) = unat x mod unat sz"
  using assms by (elim pow2_sizeE) (simp add: unat_and_mask)

lemma and_pow2_less: "pow2_size sz \<Longrightarrow> x AND (sz - 1) < sz"
  by (simp add: word_less_nat_alt unat_and_pow2 unat_pow2_pos)

text \<open>The size divides the modulus of the index type, so wrap-around is invisible to the mask.\<close>

lemma pow2_dvd: "pow2_size sz \<Longrightarrow> unat sz dvd 2 ^ 32"
  by (erule pow2_sizeE) (simp add: le_imp_power_dvd del: power_numeral)

lemma unat_add_mod [idx_simps]:
  assumes "pow2_size sz"
  shows "unat (x + y :: u32) mod unat sz = (unat x + unat y) mod unat sz"
  using pow2_dvd [OF assms] by (simp add: unat_word_ariths mod_mod_cancel)

lemma unat_less_2p32 [simp]: "unat (x :: u32) < 4294967296"
  using unsigned_less [of x, where ?'a = nat] by simp

lemma unat_Suc_of_less:
  fixes c d :: u32
  assumes "c < d"
  shows "unat (c + 1) = Suc (unat c)"
proof -
  have "unat c < unat d" using assms by (simp add: word_less_nat_alt)
  with unat_less_2p32 [of d] show ?thesis by (simp add: unat_word_ariths del: unat_less_2p32)
qed

lemma unat_pow2_size_pred: "pow2_size sz \<Longrightarrow> unat (sz - 1) = unat sz - 1"
  by (metis unat_minus_one unat_pow2_pos less_numeral_extra(3) unat_0)

lemma mod_inj_on_window:
  fixes h :: nat
  assumes "(h + i) mod n = (h + j) mod n" and "i < n" and "j < n"
  shows "i = j"
proof -
  have *: "i = j" if "(h + i) mod n = (h + j) mod n" "i \<le> j" "j < n" for i j :: nat
  proof -
    from that have "n dvd (h + j) - (h + i)" by (metis mod_eq_dvd_iff_nat add_le_mono order_refl)
    then have "n dvd j - i" by simp
    with that show ?thesis by (auto dest!: dvd_imp_le)
  qed
  from assms * [of i j] * [of j i] show ?thesis by (cases "i \<le> j") auto
qed

lemma unat_sub_le: "b \<le> a \<Longrightarrow> unat (a - b :: 'a::len word) = unat a - unat b"
  by (simp add: unat_sub_if' word_le_nat_alt)

lemma unat_add_less: "unat a + unat b < 2 ^ 32 \<Longrightarrow> unat (a + b :: u32) = unat a + unat b"
  by (simp add: unat_word_ariths)

lemma unat_of_nat_less: "k < 2 ^ 32 \<Longrightarrow> unat (of_nat k :: u32) = k"
  by (simp add: unat_of_nat)

text \<open>Masking an operand before a masked subtraction changes nothing.\<close>

lemma masked_sub [idx_simps]:
  assumes sz: "pow2_size sz"
  shows "((x AND (sz - 1)) - y) AND (sz - 1) = (x - y) AND (sz - 1)"
proof -
  let ?S = "unat sz"
  have "(unat y + unat (z - y)) mod ?S = unat z mod ?S" for z
    using unat_add_mod [OF sz, of y "z - y"] by simp
  then have "(unat y + unat (x - y) mod ?S) mod ?S
      = (unat y + unat ((x AND (sz - 1)) - y) mod ?S) mod ?S"
    by (simp add: mod_add_right_eq unat_and_pow2 [OF sz])
  then have "unat (x - y) mod ?S = unat ((x AND (sz - 1)) - y) mod ?S"
    by (rule mod_inj_on_window) (simp_all add: unat_pow2_pos [OF sz])
  then show ?thesis by (simp add: word_unat_eq_iff unat_and_pow2 [OF sz])
qed

text \<open>Widening casts keep the value.\<close>

lemma unat_ucast_up [simp]:
  "unat (ucast (a :: u32) :: u64) = unat a" "unat (ucast (b :: u16) :: u64) = unat b"
  "unat (ucast (b :: u16) :: u32) = unat b" "unat (ucast (c :: u8) :: u64) = unat c"
  "unat (ucast (c :: u8) :: u32) = unat c" "unat (ucast (c :: u8) :: u16) = unat c"
  using unsigned_less [of a, where ?'a = nat] unsigned_less [of b, where ?'a = nat]
    unsigned_less [of c, where ?'a = nat]
  by (simp_all add: unsigned_ucast_eq take_bit_nat_eq_self del: unat_less_2p32)

text \<open>A counter that runs to a bound by single steps ends, whatever it starts from.\<close>

lemma word_diff_decrease: "(a :: 'a::len word) \<noteq> b \<Longrightarrow> unat (b - (a + 1)) < unat (b - a)"
proof -
  assume "a \<noteq> b"
  then have "b - a \<noteq> 0" by simp
  then have "unat (b - a - 1) < unat (b - a)" by (simp add: unat_minus_one unat_gt_0)
  then show ?thesis by (simp add: diff_diff_eq)
qed

section \<open>Signed readings\<close>

lemma sint_u32: "sint (w::u32) = (int (unat w) + 2 ^ 31) mod 2 ^ 32 - 2 ^ 31"
  by (simp add: sint_uint signed_take_bit_eq_take_bit_shift take_bit_eq_mod)

lemma sint_small: "unat (m::u32) < 2 ^ 31 \<Longrightarrow> sint m = int (unat m)"
  unfolding sint_u32 by (simp del: of_nat_unat)

lemma sint_small64: "unat (m::u64) < 2 ^ 63 \<Longrightarrow> sint m = int (unat m)"
proof -
  assume "unat m < 2 ^ 63"
  moreover have "sint m = (int (unat m) + 2 ^ 63) mod 2 ^ 64 - 2 ^ 63"
    by (simp add: sint_uint signed_take_bit_eq_take_bit_shift take_bit_eq_mod)
  ultimately show ?thesis by (simp del: of_nat_unat)
qed

lemma not_bit_31: "unat (m::u32) < 2 ^ 31 \<Longrightarrow> \<not> bit m 31"
  by (simp add: bit_iff_odd_drop_bit drop_bit_eq_div word_less_nat_alt div_word_less)

lemma unat_or_top:
  assumes "unat (m::u32) < 2 ^ 31"
  shows "unat (m OR push_bit 31 1) = unat m + 2 ^ 31"
proof -
  have "m AND push_bit 31 1 = 0"
    using not_bit_31 [OF assms] by (simp only: push_bit_of_1 and_exp_eq_0_iff_not_bit not_False_eq_True)
  then have "m OR push_bit 31 1 = m + push_bit 31 1" by (simp only: disjunctive_add_eq_or)
  then show ?thesis using assms by (simp add: unat_word_ariths)
qed

lemma sint_or_top: "unat (m::u32) < 2 ^ 31 \<Longrightarrow> sint (m OR push_bit 31 1) = int (unat m) - 2^31"
  unfolding sint_u32 unat_or_top by (simp del: of_nat_unat)

end
