(* ===== verification/Ring.thy ===== *)
theory Ring
  imports Prelude
begin

text \<open>
  The lockless ring of \<open>dpdk-2.0.0/lib/librte_ring\<close>: \<open>rte_ring.c\<close> (size check, initialisation,
  creation, lookup, water mark) and \<open>rte_ring.h\<close> (the single- and multi-producer enqueue, the
  single- and multi-consumer dequeue, their bulk, burst and one-object wrappers, and the
  occupancy queries). The ring memory is a total map from an index to an object, so that a write
  outside the ring would be visible. \<open>ring_ok\<close> is the invariant of a quiescent ring and
  \<open>ring_items\<close> the first-in first-out list it stands for.

  The build configuration (\<open>config/common_linuxapp\<close>) sets \<open>CONFIG_RTE_LIBRTE_RING_DEBUG=y\<close>, so
  the per-lcore statistics are part of the structure; \<open>lcore\<close> is the value of
  \<open>rte_lcore_id()\<close>. Interleavings of several producers and consumers are in
  \<open>Ring_Concurrent\<close>.
\<close>

section \<open>The structure\<close>

datatype rte_ring_queue_behavior = RTE_RING_QUEUE_FIXED | RTE_RING_QUEUE_VARIABLE

record rte_ring_debug_stats =
  enq_success_bulk :: u64
  enq_success_objs :: u64
  enq_quota_bulk :: u64
  enq_quota_objs :: u64
  enq_fail_bulk :: u64
  enq_fail_objs :: u64
  deq_success_bulk :: u64
  deq_success_objs :: u64
  deq_fail_bulk :: u64
  deq_fail_objs :: u64

record ring_prod =
  prod_watermark :: u32
  prod_sp_enqueue :: u32
  prod_size :: u32
  prod_mask :: u32
  prod_head :: u32
  prod_tail :: u32

record ring_cons =
  cons_sc_dequeue :: u32
  cons_size :: u32
  cons_mask :: u32
  cons_head :: u32
  cons_tail :: u32

record 'a rte_ring =
  r_name :: string
  r_flags :: u32
  r_prod :: ring_prod
  r_cons :: ring_cons
  r_stats :: "u32 \<Rightarrow> rte_ring_debug_stats"
  r_ring :: "'a carray"

definition RING_F_SP_ENQ :: u32 where "RING_F_SP_ENQ = 0x0001"
definition RING_F_SC_DEQ :: u32 where "RING_F_SC_DEQ = 0x0002"
definition RTE_RING_QUOT_EXCEED :: u32 where "RTE_RING_QUOT_EXCEED = push_bit 31 1"
definition RTE_RING_SZ_MASK :: u32 where "RTE_RING_SZ_MASK = 0x0fffffff"
definition RTE_RING_NAMESIZE :: nat where "RTE_RING_NAMESIZE = 32"
definition RTE_MEMZONE_NAMESIZE :: nat where "RTE_MEMZONE_NAMESIZE = 32"
definition RTE_RING_MZ_PREFIX :: string where "RTE_RING_MZ_PREFIX = ''RG_''"

lemmas ring_consts = RING_F_SP_ENQ_def RING_F_SC_DEQ_def RTE_RING_QUOT_EXCEED_def
  RTE_RING_SZ_MASK_def RTE_RING_NAMESIZE_def RTE_MEMZONE_NAMESIZE_def RTE_RING_MZ_PREFIX_def

section \<open>rte_ring.c\<close>

definition POWEROF2 :: "u32 \<Rightarrow> bool" where
  "POWEROF2 x \<longleftrightarrow> (x - 1) AND x = 0"

text \<open>
  \<open>sizeof(struct rte_ring)\<close> on x86-64 with 64-byte cache lines: name and flags (36 bytes), the
  producer at 64, the consumer at 88, 128 statistics blocks of 128 bytes at 128, the objects
  at 16512.
\<close>

definition sizeof_rte_ring :: u64 where "sizeof_rte_ring = 16512"
definition RTE_CACHE_LINE_SIZE :: u64 where "RTE_CACHE_LINE_SIZE = 64"

definition RTE_ALIGN :: "u64 \<Rightarrow> u64 \<Rightarrow> u64" where
  "RTE_ALIGN val align = (val + (align - 1)) AND NOT (align - 1)"

definition rte_ring_get_memsize :: "u32 \<Rightarrow> int" where
  "rte_ring_get_memsize count =
     (if \<not> POWEROF2 count \<or> count > RTE_RING_SZ_MASK then - EINVAL
      else sint (RTE_ALIGN (sizeof_rte_ring + ucast count * 8) RTE_CACHE_LINE_SIZE))"

definition zero_stats :: rte_ring_debug_stats where
  "zero_stats = \<lparr>enq_success_bulk = 0, enq_success_objs = 0, enq_quota_bulk = 0,
     enq_quota_objs = 0, enq_fail_bulk = 0, enq_fail_objs = 0, deq_success_bulk = 0,
     deq_success_objs = 0, deq_fail_bulk = 0, deq_fail_objs = 0\<rparr>"

text \<open>\<open>memset\<close> clears the structure but not the object table behind it.\<close>

definition rte_ring_init ::
  "'a rte_ring \<Rightarrow> string \<Rightarrow> u32 \<Rightarrow> u32 \<Rightarrow> int \<times> 'a rte_ring" where
  "rte_ring_init r name count flags =
     (0, r\<lparr>r_name := take (RTE_RING_NAMESIZE - 1) name,
           r_flags := flags,
           r_prod := \<lparr>prod_watermark = count,
                      prod_sp_enqueue = (if flags AND RING_F_SP_ENQ \<noteq> 0 then 1 else 0),
                      prod_size = count, prod_mask = count - 1,
                      prod_head = 0, prod_tail = 0\<rparr>,
           r_cons := \<lparr>cons_sc_dequeue = (if flags AND RING_F_SC_DEQ \<noteq> 0 then 1 else 0),
                      cons_size = count, cons_mask = count - 1,
                      cons_head = 0, cons_tail = 0\<rparr>,
           r_stats := (\<lambda>_. zero_stats)\<rparr>)"

text \<open>
  Creation under the tailq lock. \<open>zmalloc_ok\<close> says whether \<open>rte_zmalloc\<close> gave the list entry;
  \<open>reserve\<close> is \<open>rte_memzone_reserve\<close>: the zone's memory seen as a ring, or the errno it set.
  \<open>Inl e\<close> is the NULL result with \<open>rte_errno = e\<close>.
\<close>

definition rte_ring_create ::
  "bool \<Rightarrow> (string \<Rightarrow> int \<Rightarrow> int \<Rightarrow> u32 \<Rightarrow> int + 'a rte_ring) \<Rightarrow> 'a rte_ring list \<Rightarrow>
   string \<Rightarrow> u32 \<Rightarrow> int \<Rightarrow> u32 \<Rightarrow> (int + 'a rte_ring) \<times> 'a rte_ring list" where
  "rte_ring_create zmalloc_ok reserve ring_list name count socket_id flags =
     (let ring_size = rte_ring_get_memsize count in
      if ring_size < 0 then (Inl ring_size, ring_list)
      else if \<not> zmalloc_ok then (Inl ENOMEM, ring_list)
      else (case reserve (take (RTE_MEMZONE_NAMESIZE - 1) (RTE_RING_MZ_PREFIX @ name))
                   ring_size socket_id 0 of
              Inl e \<Rightarrow> (Inl e, ring_list)
            | Inr mem \<Rightarrow> (let r = snd (rte_ring_init mem name count flags)
                          in (Inr r, ring_list @ [r]))))"

definition rte_ring_set_water_mark :: "'a rte_ring \<Rightarrow> u32 \<Rightarrow> int \<times> 'a rte_ring" where
  "rte_ring_set_water_mark r count =
     (if count \<ge> prod_size (r_prod r) then (- EINVAL, r)
      else (0, r\<lparr>r_prod := (r_prod r)\<lparr>prod_watermark :=
                  (if count = 0 then prod_size (r_prod r) else count)\<rparr>\<rparr>))"

definition strncmp_eq :: "string \<Rightarrow> string \<Rightarrow> nat \<Rightarrow> bool" where
  "strncmp_eq a b n \<longleftrightarrow> take n a = take n b"

fun rte_ring_lookup :: "'a rte_ring list \<Rightarrow> string \<Rightarrow> int + 'a rte_ring" where
  "rte_ring_lookup [] name = Inl ENOENT"
| "rte_ring_lookup (r # rs) name =
     (if strncmp_eq name (r_name r) RTE_RING_NAMESIZE then Inr r else rte_ring_lookup rs name)"

section \<open>rte_ring.h: statistics and the copy loops\<close>

datatype stat_name = enq_success | enq_quota | enq_fail | deq_success | deq_fail

fun stat_bump :: "stat_name \<Rightarrow> u64 \<Rightarrow> rte_ring_debug_stats \<Rightarrow> rte_ring_debug_stats" where
  "stat_bump enq_success n s = s\<lparr>enq_success_objs := enq_success_objs s + n,
                                 enq_success_bulk := enq_success_bulk s + 1\<rparr>"
| "stat_bump enq_quota n s = s\<lparr>enq_quota_objs := enq_quota_objs s + n,
                               enq_quota_bulk := enq_quota_bulk s + 1\<rparr>"
| "stat_bump enq_fail n s = s\<lparr>enq_fail_objs := enq_fail_objs s + n,
                              enq_fail_bulk := enq_fail_bulk s + 1\<rparr>"
| "stat_bump deq_success n s = s\<lparr>deq_success_objs := deq_success_objs s + n,
                                 deq_success_bulk := deq_success_bulk s + 1\<rparr>"
| "stat_bump deq_fail n s = s\<lparr>deq_fail_objs := deq_fail_objs s + n,
                              deq_fail_bulk := deq_fail_bulk s + 1\<rparr>"

definition RING_STAT_ADD :: "u32 \<Rightarrow> stat_name \<Rightarrow> u32 \<Rightarrow> 'a rte_ring \<Rightarrow> 'a rte_ring" where
  "RING_STAT_ADD lcore name n r =
     (if lcore < RTE_MAX_LCORE
      then r\<lparr>r_stats := (r_stats r)(lcore := stat_bump name (ucast n) (r_stats r lcore))\<rparr>
      else r)"

text \<open>
  The copy of \<open>n\<close> pointers (\<open>ENQUEUE_PTRS\<close>, \<open>DEQUEUE_PTRS\<close>): both are a copy of consecutive
  cells of \<open>src\<close> to consecutive cells of \<open>dst\<close>, four at a time with the remainder in a
  fall-through switch, or one at a time when the ring's end is reached.
\<close>

lemma unrolled_no_wrap:
  fixes i n :: u32
  assumes "i < n AND NOT 3"
  shows "unat (i + 4) = unat i + 4" and "unat i < unat (n AND NOT 3)"
proof -
  have "n AND NOT 3 \<le> (NOT 3 :: u32)" by (simp add: word_and_le1)
  then have "unat (n AND NOT 3) \<le> 2 ^ 32 - 4" by (simp add: word_le_nat_alt)
  moreover show less: "unat i < unat (n AND NOT 3)" using assms by (simp add: word_less_nat_alt)
  ultimately show "unat (i + 4) = unat i + 4" by (simp add: unat_word_ariths)
qed

function copy_by_4 ::
  "u32 \<Rightarrow> u32 \<Rightarrow> u32 \<Rightarrow> u32 \<Rightarrow> 'a carray \<Rightarrow> 'a carray \<Rightarrow> u32 \<times> u32 \<times> 'a carray" where
  "copy_by_4 n i d s src dst =
     (if i < n AND NOT 3
      then copy_by_4 n (i + 4) (d + 4) (s + 4) src
             (dst(d := src s, d + 1 := src (s + 1), d + 2 := src (s + 2), d + 3 := src (s + 3)))
      else (d, s, dst))"
  by pat_completeness auto
termination
proof (relation "measure (\<lambda>(n, i, _). unat (n AND NOT 3) - unat i)", goal_cases)
  case (2 n i d s src dst)
  with unrolled_no_wrap [OF 2] show ?case by simp
qed simp

text \<open>The remaining \<open>n & 3\<close> pointers: the cases of the switch fall through.\<close>

definition copy_rest :: "u32 \<Rightarrow> u32 \<Rightarrow> u32 \<Rightarrow> 'a carray \<Rightarrow> 'a carray \<Rightarrow> 'a carray" where
  "copy_rest n d s src dst =
     (if n AND 3 = 3 then dst(d := src s, d + 1 := src (s + 1), d + 2 := src (s + 2))
      else if n AND 3 = 2 then dst(d := src s, d + 1 := src (s + 1))
      else if n AND 3 = 1 then dst(d := src s)
      else dst)"

text \<open>One object per iteration, while the counter \<open>c\<close> is below \<open>lim\<close>.\<close>

function copy_until ::
  "u32 \<Rightarrow> u32 \<Rightarrow> u32 \<Rightarrow> u32 \<Rightarrow> 'a carray \<Rightarrow> 'a carray \<Rightarrow> u32 \<times> u32 \<times> 'a carray" where
  "copy_until lim c d s src dst =
     (if c < lim then copy_until lim (c + 1) (d + 1) (s + 1) src (dst(d := src s))
      else (d, s, dst))"
  by pat_completeness auto
termination
  by (relation "measure (\<lambda>(lim, c, _). unat lim - unat c)")
    (auto simp: unat_Suc_of_less word_less_nat_alt)

declare copy_by_4.simps [simp del] copy_until.simps [simp del]

definition ENQUEUE_PTRS ::
  "u32 \<Rightarrow> u32 \<Rightarrow> u32 \<Rightarrow> u32 \<Rightarrow> 'a carray \<Rightarrow> 'a carray \<Rightarrow> 'a carray" where
  "ENQUEUE_PTRS sz msk head n obj_table ring =
     (let idx = head AND msk in
      if idx + n < sz then
        (case copy_by_4 n 0 idx 0 obj_table ring of
           (idx, i, ring) \<Rightarrow> copy_rest n idx i obj_table ring)
      else
        (case copy_until sz idx idx 0 obj_table ring of
           (_, i, ring) \<Rightarrow> (case copy_until n i 0 i obj_table ring of (_, _, ring) \<Rightarrow> ring)))"

definition DEQUEUE_PTRS ::
  "u32 \<Rightarrow> u32 \<Rightarrow> u32 \<Rightarrow> u32 \<Rightarrow> 'a carray \<Rightarrow> 'a carray \<Rightarrow> 'a carray" where
  "DEQUEUE_PTRS sz msk head n ring obj_table =
     (let idx = head AND msk in
      if idx + n < sz then
        (case copy_by_4 n 0 0 idx ring obj_table of
           (i, idx, obj_table) \<Rightarrow> copy_rest n i idx ring obj_table)
      else
        (case copy_until sz idx 0 idx ring obj_table of
           (i, _, obj_table) \<Rightarrow>
             (case copy_until n i i 0 ring obj_table of (_, _, obj_table) \<Rightarrow> obj_table)))"

section \<open>rte_ring.h: enqueue\<close>

text \<open>
  The room check shared by the two enqueue functions: \<open>Inl\<close> the early return value, or the
  number of objects to enqueue together with \<open>free_entries\<close>. The subtraction is modulo
  \<open>2 ^ 32\<close>.
\<close>

definition enq_room ::
  "u32 \<Rightarrow> u32 \<Rightarrow> u32 \<Rightarrow> u32 \<Rightarrow> rte_ring_queue_behavior \<Rightarrow> int + u32 \<times> u32" where
  "enq_room msk ph ct n behavior =
     (let free_entries = msk + ct - ph in
      if n > free_entries then
        (if behavior = RTE_RING_QUEUE_FIXED then Inl (- ENOBUFS)
         else if free_entries = 0 then Inl 0
         else Inr (free_entries, free_entries))
      else Inr (n, free_entries))"

text \<open>The water mark test: the return value and the statistics counter it selects.\<close>

definition enq_ret ::
  "u32 \<Rightarrow> u32 \<Rightarrow> u32 \<Rightarrow> u32 \<Rightarrow> rte_ring_queue_behavior \<Rightarrow> int \<times> stat_name" where
  "enq_ret watermark msk free_entries n behavior =
     (if (msk + 1) - free_entries + n > watermark
      then (if behavior = RTE_RING_QUEUE_FIXED then - EDQUOT
            else sint (n OR RTE_RING_QUOT_EXCEED), enq_quota)
      else (if behavior = RTE_RING_QUEUE_FIXED then 0 else sint n, enq_success))"

definition set_prod_head :: "u32 \<Rightarrow> 'a rte_ring \<Rightarrow> 'a rte_ring" where
  "set_prod_head x r = r\<lparr>r_prod := (r_prod r)\<lparr>prod_head := x\<rparr>\<rparr>"
definition set_prod_tail :: "u32 \<Rightarrow> 'a rte_ring \<Rightarrow> 'a rte_ring" where
  "set_prod_tail x r = r\<lparr>r_prod := (r_prod r)\<lparr>prod_tail := x\<rparr>\<rparr>"
definition set_cons_head :: "u32 \<Rightarrow> 'a rte_ring \<Rightarrow> 'a rte_ring" where
  "set_cons_head x r = r\<lparr>r_cons := (r_cons r)\<lparr>cons_head := x\<rparr>\<rparr>"
definition set_cons_tail :: "u32 \<Rightarrow> 'a rte_ring \<Rightarrow> 'a rte_ring" where
  "set_cons_tail x r = r\<lparr>r_cons := (r_cons r)\<lparr>cons_tail := x\<rparr>\<rparr>"

lemmas set_defs = set_prod_head_def set_prod_tail_def set_cons_head_def set_cons_tail_def

definition rte_ring_sp_do_enqueue ::
  "u32 \<Rightarrow> 'a rte_ring \<Rightarrow> 'a carray \<Rightarrow> u32 \<Rightarrow> rte_ring_queue_behavior \<Rightarrow> int \<times> 'a rte_ring" where
  "rte_ring_sp_do_enqueue lcore r obj_table n behavior =
     (let msk = prod_mask (r_prod r);
          ph = prod_head (r_prod r);
          ct = cons_tail (r_cons r) in
      case enq_room msk ph ct n behavior of
        Inl ret \<Rightarrow> (ret, RING_STAT_ADD lcore enq_fail n r)
      | Inr (n, free_entries) \<Rightarrow>
          (let prod_next = ph + n;
               r = set_prod_head prod_next r;
               r = r\<lparr>r_ring := ENQUEUE_PTRS (prod_size (r_prod r)) msk ph n obj_table (r_ring r)\<rparr>;
               (ret, stat) = enq_ret (prod_watermark (r_prod r)) msk free_entries n behavior;
               r = RING_STAT_ADD lcore stat n r
           in (ret, set_prod_tail prod_next r)))"

text \<open>
  The multi-producer enqueue run without interference. \<open>None\<close> is a loop that spins for ever;
  \<open>rte_atomic32_cmpset\<close> on \<open>prod.head\<close> returns whether the exchange was made.
\<close>

definition cmpset_prod_head :: "u32 \<Rightarrow> u32 \<Rightarrow> 'a rte_ring \<Rightarrow> bool \<times> 'a rte_ring" where
  "cmpset_prod_head exp src r =
     (if prod_head (r_prod r) = exp then (True, set_prod_head src r) else (False, r))"

partial_function (option) mp_move_head ::
  "'a rte_ring \<Rightarrow> u32 \<Rightarrow> u32 \<Rightarrow> rte_ring_queue_behavior \<Rightarrow>
   ((int + u32 \<times> u32 \<times> u32) \<times> 'a rte_ring) option" where
  "mp_move_head r msk n behavior =
     (let ph = prod_head (r_prod r); ct = cons_tail (r_cons r) in
      case enq_room msk ph ct n behavior of
        Inl ret \<Rightarrow> Some (Inl ret, r)
      | Inr (n', free_entries) \<Rightarrow>
          (case cmpset_prod_head ph (ph + n') r of
             (success, r') \<Rightarrow> if success then Some (Inr (ph, n', free_entries), r')
                             else mp_move_head r' msk n behavior))"

partial_function (option) wait_prod_tail :: "'a rte_ring \<Rightarrow> u32 \<Rightarrow> unit option" where
  "wait_prod_tail r ph = (if prod_tail (r_prod r) \<noteq> ph then wait_prod_tail r ph else Some ())"

definition rte_ring_mp_do_enqueue ::
  "u32 \<Rightarrow> 'a rte_ring \<Rightarrow> 'a carray \<Rightarrow> u32 \<Rightarrow> rte_ring_queue_behavior \<Rightarrow>
   (int \<times> 'a rte_ring) option" where
  "rte_ring_mp_do_enqueue lcore r obj_table n behavior =
     (let msk = prod_mask (r_prod r) in
      case mp_move_head r msk n behavior of
        None \<Rightarrow> None
      | Some (Inl ret, r) \<Rightarrow> Some (ret, RING_STAT_ADD lcore enq_fail n r)
      | Some (Inr (ph, n, free_entries), r) \<Rightarrow>
          (let r = r\<lparr>r_ring := ENQUEUE_PTRS (prod_size (r_prod r)) msk ph n obj_table (r_ring r)\<rparr>;
               (ret, stat) = enq_ret (prod_watermark (r_prod r)) msk free_entries n behavior;
               r = RING_STAT_ADD lcore stat n r
           in (case wait_prod_tail r ph of
                 None \<Rightarrow> None
               | Some _ \<Rightarrow> Some (ret, set_prod_tail (ph + n) r))))"

section \<open>rte_ring.h: dequeue\<close>

definition deq_avail ::
  "u32 \<Rightarrow> u32 \<Rightarrow> u32 \<Rightarrow> rte_ring_queue_behavior \<Rightarrow> int + u32" where
  "deq_avail ch pt n behavior =
     (let entries = pt - ch in
      if n > entries then
        (if behavior = RTE_RING_QUEUE_FIXED then Inl (- ENOENT)
         else if entries = 0 then Inl 0
         else Inr entries)
      else Inr n)"

definition deq_ret :: "u32 \<Rightarrow> rte_ring_queue_behavior \<Rightarrow> int" where
  "deq_ret n behavior = (if behavior = RTE_RING_QUEUE_FIXED then 0 else sint n)"

text \<open>A dequeue returns its value, the filled object table and the ring.\<close>

definition rte_ring_sc_do_dequeue ::
  "u32 \<Rightarrow> 'a rte_ring \<Rightarrow> 'a carray \<Rightarrow> u32 \<Rightarrow> rte_ring_queue_behavior \<Rightarrow>
   int \<times> 'a carray \<times> 'a rte_ring" where
  "rte_ring_sc_do_dequeue lcore r obj_table n behavior =
     (let msk = prod_mask (r_prod r);
          ch = cons_head (r_cons r);
          pt = prod_tail (r_prod r) in
      case deq_avail ch pt n behavior of
        Inl ret \<Rightarrow> (ret, obj_table, RING_STAT_ADD lcore deq_fail n r)
      | Inr n \<Rightarrow>
          (let cons_next = ch + n;
               r = set_cons_head cons_next r;
               obj_table = DEQUEUE_PTRS (cons_size (r_cons r)) msk ch n (r_ring r) obj_table;
               r = RING_STAT_ADD lcore deq_success n r
           in (deq_ret n behavior, obj_table, set_cons_tail cons_next r)))"

definition cmpset_cons_head :: "u32 \<Rightarrow> u32 \<Rightarrow> 'a rte_ring \<Rightarrow> bool \<times> 'a rte_ring" where
  "cmpset_cons_head exp src r =
     (if cons_head (r_cons r) = exp then (True, set_cons_head src r) else (False, r))"

partial_function (option) mc_move_head ::
  "'a rte_ring \<Rightarrow> u32 \<Rightarrow> rte_ring_queue_behavior \<Rightarrow> ((int + u32 \<times> u32) \<times> 'a rte_ring) option" where
  "mc_move_head r n behavior =
     (let ch = cons_head (r_cons r); pt = prod_tail (r_prod r) in
      case deq_avail ch pt n behavior of
        Inl ret \<Rightarrow> Some (Inl ret, r)
      | Inr n' \<Rightarrow>
          (case cmpset_cons_head ch (ch + n') r of
             (success, r') \<Rightarrow> if success then Some (Inr (ch, n'), r')
                             else mc_move_head r' n behavior))"

partial_function (option) wait_cons_tail :: "'a rte_ring \<Rightarrow> u32 \<Rightarrow> unit option" where
  "wait_cons_tail r ch = (if cons_tail (r_cons r) \<noteq> ch then wait_cons_tail r ch else Some ())"

definition rte_ring_mc_do_dequeue ::
  "u32 \<Rightarrow> 'a rte_ring \<Rightarrow> 'a carray \<Rightarrow> u32 \<Rightarrow> rte_ring_queue_behavior \<Rightarrow>
   (int \<times> 'a carray \<times> 'a rte_ring) option" where
  "rte_ring_mc_do_dequeue lcore r obj_table n behavior =
     (let msk = prod_mask (r_prod r) in
      case mc_move_head r n behavior of
        None \<Rightarrow> None
      | Some (Inl ret, r) \<Rightarrow> Some (ret, obj_table, RING_STAT_ADD lcore deq_fail n r)
      | Some (Inr (ch, n), r) \<Rightarrow>
          (let obj_table = DEQUEUE_PTRS (cons_size (r_cons r)) msk ch n (r_ring r) obj_table
           in (case wait_cons_tail r ch of
                 None \<Rightarrow> None
               | Some _ \<Rightarrow>
                   Some (deq_ret n behavior, obj_table,
                         set_cons_tail (ch + n) (RING_STAT_ADD lcore deq_success n r)))))"

section \<open>rte_ring.h: the public wrappers\<close>

text \<open>
  The wrappers choose the single or multi variant by the flag of the ring; the one-object
  calls pass a table that holds the object at index 0, and the burst calls return the \<open>int\<close>
  as \<open>unsigned\<close>.
\<close>

definition rte_ring_mp_enqueue_bulk ::
  "u32 \<Rightarrow> 'a rte_ring \<Rightarrow> 'a carray \<Rightarrow> u32 \<Rightarrow> (int \<times> 'a rte_ring) option" where
  "rte_ring_mp_enqueue_bulk lcore r obj_table n =
     rte_ring_mp_do_enqueue lcore r obj_table n RTE_RING_QUEUE_FIXED"

definition rte_ring_sp_enqueue_bulk ::
  "u32 \<Rightarrow> 'a rte_ring \<Rightarrow> 'a carray \<Rightarrow> u32 \<Rightarrow> int \<times> 'a rte_ring" where
  "rte_ring_sp_enqueue_bulk lcore r obj_table n =
     rte_ring_sp_do_enqueue lcore r obj_table n RTE_RING_QUEUE_FIXED"

definition rte_ring_enqueue_bulk ::
  "u32 \<Rightarrow> 'a rte_ring \<Rightarrow> 'a carray \<Rightarrow> u32 \<Rightarrow> (int \<times> 'a rte_ring) option" where
  "rte_ring_enqueue_bulk lcore r obj_table n =
     (if prod_sp_enqueue (r_prod r) \<noteq> 0 then Some (rte_ring_sp_enqueue_bulk lcore r obj_table n)
      else rte_ring_mp_enqueue_bulk lcore r obj_table n)"

definition rte_ring_mp_enqueue :: "u32 \<Rightarrow> 'a rte_ring \<Rightarrow> 'a \<Rightarrow> (int \<times> 'a rte_ring) option" where
  "rte_ring_mp_enqueue lcore r obj = rte_ring_mp_enqueue_bulk lcore r (\<lambda>_. obj) 1"

definition rte_ring_sp_enqueue :: "u32 \<Rightarrow> 'a rte_ring \<Rightarrow> 'a \<Rightarrow> int \<times> 'a rte_ring" where
  "rte_ring_sp_enqueue lcore r obj = rte_ring_sp_enqueue_bulk lcore r (\<lambda>_. obj) 1"

definition rte_ring_enqueue :: "u32 \<Rightarrow> 'a rte_ring \<Rightarrow> 'a \<Rightarrow> (int \<times> 'a rte_ring) option" where
  "rte_ring_enqueue lcore r obj =
     (if prod_sp_enqueue (r_prod r) \<noteq> 0 then Some (rte_ring_sp_enqueue lcore r obj)
      else rte_ring_mp_enqueue lcore r obj)"

definition rte_ring_mc_dequeue_bulk ::
  "u32 \<Rightarrow> 'a rte_ring \<Rightarrow> 'a carray \<Rightarrow> u32 \<Rightarrow> (int \<times> 'a carray \<times> 'a rte_ring) option" where
  "rte_ring_mc_dequeue_bulk lcore r obj_table n =
     rte_ring_mc_do_dequeue lcore r obj_table n RTE_RING_QUEUE_FIXED"

definition rte_ring_sc_dequeue_bulk ::
  "u32 \<Rightarrow> 'a rte_ring \<Rightarrow> 'a carray \<Rightarrow> u32 \<Rightarrow> int \<times> 'a carray \<times> 'a rte_ring" where
  "rte_ring_sc_dequeue_bulk lcore r obj_table n =
     rte_ring_sc_do_dequeue lcore r obj_table n RTE_RING_QUEUE_FIXED"

definition rte_ring_dequeue_bulk ::
  "u32 \<Rightarrow> 'a rte_ring \<Rightarrow> 'a carray \<Rightarrow> u32 \<Rightarrow> (int \<times> 'a carray \<times> 'a rte_ring) option" where
  "rte_ring_dequeue_bulk lcore r obj_table n =
     (if cons_sc_dequeue (r_cons r) \<noteq> 0 then Some (rte_ring_sc_dequeue_bulk lcore r obj_table n)
      else rte_ring_mc_dequeue_bulk lcore r obj_table n)"

definition rte_ring_mc_dequeue ::
  "u32 \<Rightarrow> 'a rte_ring \<Rightarrow> 'a carray \<Rightarrow> (int \<times> 'a carray \<times> 'a rte_ring) option" where
  "rte_ring_mc_dequeue lcore r obj_p = rte_ring_mc_dequeue_bulk lcore r obj_p 1"

definition rte_ring_sc_dequeue ::
  "u32 \<Rightarrow> 'a rte_ring \<Rightarrow> 'a carray \<Rightarrow> int \<times> 'a carray \<times> 'a rte_ring" where
  "rte_ring_sc_dequeue lcore r obj_p = rte_ring_sc_dequeue_bulk lcore r obj_p 1"

definition rte_ring_dequeue ::
  "u32 \<Rightarrow> 'a rte_ring \<Rightarrow> 'a carray \<Rightarrow> (int \<times> 'a carray \<times> 'a rte_ring) option" where
  "rte_ring_dequeue lcore r obj_p =
     (if cons_sc_dequeue (r_cons r) \<noteq> 0 then Some (rte_ring_sc_dequeue lcore r obj_p)
      else rte_ring_mc_dequeue lcore r obj_p)"

definition rte_ring_full :: "'a rte_ring \<Rightarrow> bool" where
  "rte_ring_full r \<longleftrightarrow>
     (cons_tail (r_cons r) - prod_tail (r_prod r) - 1) AND prod_mask (r_prod r) = 0"

definition rte_ring_empty :: "'a rte_ring \<Rightarrow> bool" where
  "rte_ring_empty r \<longleftrightarrow> cons_tail (r_cons r) = prod_tail (r_prod r)"

definition rte_ring_count :: "'a rte_ring \<Rightarrow> u32" where
  "rte_ring_count r = (prod_tail (r_prod r) - cons_tail (r_cons r)) AND prod_mask (r_prod r)"

definition rte_ring_free_count :: "'a rte_ring \<Rightarrow> u32" where
  "rte_ring_free_count r =
     (cons_tail (r_cons r) - prod_tail (r_prod r) - 1) AND prod_mask (r_prod r)"

definition rte_ring_mp_enqueue_burst ::
  "u32 \<Rightarrow> 'a rte_ring \<Rightarrow> 'a carray \<Rightarrow> u32 \<Rightarrow> (u32 \<times> 'a rte_ring) option" where
  "rte_ring_mp_enqueue_burst lcore r obj_table n =
     map_option (map_prod word_of_int id)
       (rte_ring_mp_do_enqueue lcore r obj_table n RTE_RING_QUEUE_VARIABLE)"

definition rte_ring_sp_enqueue_burst ::
  "u32 \<Rightarrow> 'a rte_ring \<Rightarrow> 'a carray \<Rightarrow> u32 \<Rightarrow> u32 \<times> 'a rte_ring" where
  "rte_ring_sp_enqueue_burst lcore r obj_table n =
     map_prod word_of_int id
       (rte_ring_sp_do_enqueue lcore r obj_table n RTE_RING_QUEUE_VARIABLE)"

definition rte_ring_enqueue_burst ::
  "u32 \<Rightarrow> 'a rte_ring \<Rightarrow> 'a carray \<Rightarrow> u32 \<Rightarrow> (u32 \<times> 'a rte_ring) option" where
  "rte_ring_enqueue_burst lcore r obj_table n =
     (if prod_sp_enqueue (r_prod r) \<noteq> 0 then Some (rte_ring_sp_enqueue_burst lcore r obj_table n)
      else rte_ring_mp_enqueue_burst lcore r obj_table n)"

definition rte_ring_mc_dequeue_burst ::
  "u32 \<Rightarrow> 'a rte_ring \<Rightarrow> 'a carray \<Rightarrow> u32 \<Rightarrow> (u32 \<times> 'a carray \<times> 'a rte_ring) option" where
  "rte_ring_mc_dequeue_burst lcore r obj_table n =
     map_option (map_prod word_of_int id)
       (rte_ring_mc_do_dequeue lcore r obj_table n RTE_RING_QUEUE_VARIABLE)"

definition rte_ring_sc_dequeue_burst ::
  "u32 \<Rightarrow> 'a rte_ring \<Rightarrow> 'a carray \<Rightarrow> u32 \<Rightarrow> u32 \<times> 'a carray \<times> 'a rte_ring" where
  "rte_ring_sc_dequeue_burst lcore r obj_table n =
     map_prod word_of_int id
       (rte_ring_sc_do_dequeue lcore r obj_table n RTE_RING_QUEUE_VARIABLE)"

definition rte_ring_dequeue_burst ::
  "u32 \<Rightarrow> 'a rte_ring \<Rightarrow> 'a carray \<Rightarrow> u32 \<Rightarrow> (u32 \<times> 'a carray \<times> 'a rte_ring) option" where
  "rte_ring_dequeue_burst lcore r obj_table n =
     (if cons_sc_dequeue (r_cons r) \<noteq> 0 then Some (rte_ring_sc_dequeue_burst lcore r obj_table n)
      else rte_ring_mc_dequeue_burst lcore r obj_table n)"

end
