(* ===== verification/Queue_Spec.thy ===== *)
theory Queue_Spec
  imports Prelude
begin

text \<open>
  The interface a bulk queue offers its clients: all-or-nothing enqueue and dequeue of a table of
  objects, with the contents as a list. \<open>queue_run\<close> runs a sequence of operations and collects
  what was accepted and what came out; the locale proves once that this is first-in first-out.
  The ring provides it (\<open>Ring_Queue\<close>) and the memory pool relies on it (\<open>Mempool\<close>).
\<close>

definition table_list :: "'a carray \<Rightarrow> nat \<Rightarrow> 'a list" where
  "table_list tbl n = map (\<lambda>k. tbl (of_nat k)) [0..<n]"

definition list_table :: "'a list \<Rightarrow> 'a carray" where
  "list_table xs i = xs ! unat i"

lemma length_table_list [simp]: "length (table_list tbl n) = n"
  by (simp add: table_list_def)

lemma nth_table_list [simp]: "k < n \<Longrightarrow> table_list tbl n ! k = tbl (of_nat k)"
  by (simp add: table_list_def)

lemma table_list_list_table [simp]:
  "length xs < 2 ^ 32 \<Longrightarrow> table_list (list_table xs) (length xs) = xs"
  by (rule nth_equalityI) (simp_all add: list_table_def unat_of_nat)

datatype 'a qop = Enq "'a list" | Deq nat

fun qop_fits :: "'a qop \<Rightarrow> bool" where
  "qop_fits (Enq xs) = (length xs < 2 ^ 32)"
| "qop_fits (Deq n) = (n < 2 ^ 32)"

fun queue_run ::
  "('q \<Rightarrow> 'a carray \<Rightarrow> u32 \<Rightarrow> (int \<times> 'q) option) \<Rightarrow>
   ('q \<Rightarrow> 'a carray \<Rightarrow> u32 \<Rightarrow> (int \<times> 'a carray \<times> 'q) option) \<Rightarrow> 'a carray \<Rightarrow>
   'q \<Rightarrow> 'a qop list \<Rightarrow> ('a list \<times> 'a list \<times> 'q) option" where
  "queue_run enq deq tbl q [] = Some ([], [], q)"
| "queue_run enq deq tbl q (Enq xs # ops) =
     (case enq q (list_table xs) (of_nat (length xs)) of
        None \<Rightarrow> None
      | Some (ret, q') \<Rightarrow>
          map_option (\<lambda>(ins, outs, q''). (if ret = - ENOBUFS then ins else xs @ ins, outs, q''))
            (queue_run enq deq tbl q' ops))"
| "queue_run enq deq tbl q (Deq n # ops) =
     (case deq q tbl (of_nat n) of
        None \<Rightarrow> None
      | Some (ret, tbl', q') \<Rightarrow>
          map_option (\<lambda>(ins, outs, q''). (ins, if ret = - ENOENT then outs
                                               else table_list tbl' n @ outs, q''))
            (queue_run enq deq tbl q' ops))"

locale bulk_queue =
  fixes invar :: "'q \<Rightarrow> bool"
    and items :: "'q \<Rightarrow> 'a list"
    and cap :: "'q \<Rightarrow> nat"
    and enq :: "'q \<Rightarrow> 'a carray \<Rightarrow> u32 \<Rightarrow> (int \<times> 'q) option"
    and deq :: "'q \<Rightarrow> 'a carray \<Rightarrow> u32 \<Rightarrow> (int \<times> 'a carray \<times> 'q) option"
  assumes items_bound: "invar q \<Longrightarrow> length (items q) \<le> cap q"
    and enq_fits: "invar q \<Longrightarrow> length (items q) + unat n \<le> cap q \<Longrightarrow>
      \<exists>ret q'. enq q tbl n = Some (ret, q') \<and> ret \<in> {0, - EDQUOT} \<and> invar q' \<and> cap q' = cap q \<and>
        items q' = items q @ table_list tbl (unat n)"
    and enq_full: "invar q \<Longrightarrow> length (items q) + unat n > cap q \<Longrightarrow>
      \<exists>q'. enq q tbl n = Some (- ENOBUFS, q') \<and> invar q' \<and> cap q' = cap q \<and> items q' = items q"
    and deq_fits: "invar q \<Longrightarrow> unat n \<le> length (items q) \<Longrightarrow>
      \<exists>tbl' q'. deq q tbl n = Some (0, tbl', q') \<and> invar q' \<and> cap q' = cap q \<and>
        table_list tbl' (unat n) = take (unat n) (items q) \<and> (\<forall>i. n \<le> i \<longrightarrow> tbl' i = tbl i) \<and>
        items q' = drop (unat n) (items q)"
    and deq_short: "invar q \<Longrightarrow> unat n > length (items q) \<Longrightarrow>
      \<exists>q'. deq q tbl n = Some (- ENOENT, tbl, q') \<and> invar q' \<and> cap q' = cap q \<and> items q' = items q"
begin

lemma enq_cases:
  assumes "invar q"
  obtains (fits) ret q' where "enq q tbl n = Some (ret, q')" "ret \<noteq> - ENOBUFS" "invar q'"
      "cap q' = cap q" "items q' = items q @ table_list tbl (unat n)"
    | (full) q' where "enq q tbl n = Some (- ENOBUFS, q')" "invar q'" "cap q' = cap q"
      "items q' = items q" "length (items q) + unat n > cap q"
proof (cases "length (items q) + unat n \<le> cap q")
  case True
  from enq_fits [OF assms True, of tbl] show thesis
    by (auto intro: fits simp: errno_defs)
next
  case False
  then have gt: "length (items q) + unat n > cap q" by simp
  from enq_full [OF assms gt, of tbl] gt show thesis by (auto intro: full)
qed

lemma deq_cases:
  assumes "invar q"
  obtains (fits) tbl' q' where "deq q tbl n = Some (0, tbl', q')" "invar q'" "cap q' = cap q"
      "items q = table_list tbl' (unat n) @ items q'" "\<forall>i. n \<le> i \<longrightarrow> tbl' i = tbl i"
    | (short) q' where "deq q tbl n = Some (- ENOENT, tbl, q')" "invar q'" "cap q' = cap q"
      "items q' = items q" "unat n > length (items q)"
proof (cases "unat n \<le> length (items q)")
  case True
  from deq_fits [OF assms True, of tbl] show thesis
    by (elim exE conjE) (rule fits, assumption+, simp)
next
  case False
  then have gt: "unat n > length (items q)" by simp
  from deq_short [OF assms gt, of tbl] gt show thesis by (auto intro: short)
qed

lemma run_fifo:
  assumes "invar q" and "list_all qop_fits ops"
  shows "\<exists>ins outs q'. queue_run enq deq tbl q ops = Some (ins, outs, q') \<and> invar q' \<and>
           cap q' = cap q \<and> items q @ ins = outs @ items q'"
  using assms
proof (induction ops arbitrary: q)
  case Nil
  then show ?case by simp
next
  case (Cons op ops)
  show ?case
  proof (cases op)
    case (Enq xs)
    with Cons.prems have len: "unat (of_nat (length xs) :: u32) = length xs" "length xs < 2 ^ 32"
      by (simp_all add: unat_of_nat)
    from \<open>invar q\<close> show ?thesis
    proof (cases rule: enq_cases [where tbl = "list_table xs" and n = "of_nat (length xs)"])
      case (fits ret q1)
      with Cons.IH [of q1] Cons.prems Enq len show ?thesis by auto
    next
      case (full q1)
      with Cons.IH [of q1] Cons.prems Enq show ?thesis by auto
    qed
  next
    case (Deq n)
    with Cons.prems have n: "unat (of_nat n :: u32) = n" by (simp add: unat_of_nat)
    from \<open>invar q\<close> show ?thesis
    proof (cases rule: deq_cases [where tbl = tbl and n = "of_nat n"])
      case (fits tbl' q1)
      with Cons.IH [of q1] Cons.prems Deq n show ?thesis by (auto simp: errno_defs)
    next
      case (short q1)
      with Cons.IH [of q1] Cons.prems Deq show ?thesis by auto
    qed
  qed
qed

end

text \<open>Operations that agree wherever the invariant holds offer the same interface.\<close>

lemma bulk_queue_cong:
  assumes q: "bulk_queue invar items cap enq deq"
    and e: "\<And>q tbl n. invar q \<Longrightarrow> enq' q tbl n = enq q tbl n"
    and d: "\<And>q tbl n. invar q \<Longrightarrow> deq' q tbl n = deq q tbl n"
  shows "bulk_queue invar items cap enq' deq'"
  by (rule bulk_queue.intro)
    (simp_all add: e d bulk_queue.items_bound [OF q] bulk_queue.enq_fits [OF q, simplified]
      bulk_queue.enq_full [OF q] bulk_queue.deq_fits [OF q] bulk_queue.deq_short [OF q])

end
