(* ===== verification/Ring_Spec.thy ===== *)
theory Ring_Spec
  imports Ring Queue_Spec
begin

text \<open>
  What the ring operations do: the unrolled copy loops write consecutive cells of the ring,
  \<open>ring_ok\<close> is kept by every operation, and the ring is a bounded first-in first-out queue
  (\<open>ring_items\<close>) whatever the wrap-around of its 32-bit indices.
\<close>

section \<open>The copy loops write consecutive cells\<close>

definition put_block :: "nat \<Rightarrow> u32 \<Rightarrow> u32 \<Rightarrow> 'a carray \<Rightarrow> 'a carray \<Rightarrow> 'a carray" where
  "put_block k d s src dst = (\<lambda>j. if unat (j - d) < k then src (s + (j - d)) else dst j)"

lemma put_block_0 [simp]: "put_block 0 d s src dst = dst"
  by (simp add: put_block_def)

lemma put_block_1: "put_block (Suc 0) d s src dst = dst(d := src s)"
  by (auto simp: put_block_def fun_eq_iff unat_eq_zero)

lemma unat_diff_of_nat:
  fixes x :: u32
  assumes "a < 2 ^ 32"
  shows "unat (x - of_nat a) = (if a \<le> unat x then unat x - a else unat x + 2 ^ 32 - a)"
proof -
  have "unat (of_nat a :: u32) = a" using assms by (simp add: unat_of_nat)
  then show ?thesis by (simp add: unat_sub_if' word_le_nat_alt)
qed

lemma put_block_add:
  assumes "a + b \<le> 2 ^ 32" "0 < b"
  shows "put_block b (d + of_nat a) (s + of_nat a) src (put_block a d s src dst)
         = put_block (a + b) d s src dst" (is "?l = ?r")
proof
  fix j
  have a: "a < 2 ^ 32" using assms by simp
  have eq: "j - (d + of_nat a) = (j - d) - of_nat a" by (simp add: algebra_simps)
  have lt: "unat (j - d) < 2 ^ 32" by simp
  have "unat (j - (d + of_nat a)) < b \<longleftrightarrow> a \<le> unat (j - d) \<and> unat (j - d) < a + b"
    unfolding eq unat_diff_of_nat [OF a] using assms lt by auto
  moreover have "s + of_nat a + (j - (d + of_nat a)) = s + (j - d)" by simp
  ultimately show "?l j = ?r j" by (auto simp: put_block_def)
qed

lemma put_block_Suc:
  assumes "Suc k \<le> 2 ^ 32"
  shows "put_block k (d + 1) (s + 1) src (dst(d := src s)) = put_block (Suc k) d s src dst"
  using put_block_add [of 1 k d s src dst] assms
  by (cases "k = 0") (simp_all add: put_block_1)

lemma put_block_snoc:
  assumes "k < 2 ^ 32"
  shows "put_block (Suc k) d s src dst
         = (put_block k d s src dst)(d + of_nat k := src (s + of_nat k))"
  using put_block_add [of k 1 d s src dst] assms by (simp add: put_block_1)

lemma put_block_2: "put_block 2 d s src dst = dst(d := src s, d + 1 := src (s + 1))"
proof -
  have "put_block 2 d s src dst = put_block (Suc (Suc 0)) d s src dst"
    by (simp only: numeral_2_eq_2)
  then show ?thesis using put_block_snoc [of "Suc 0" d s src dst] by (simp add: put_block_1)
qed

lemma put_block_4:
  "dst(d := src s, d + 1 := src (s + 1), d + 2 := src (s + 2), d + 3 := src (s + 3))
   = put_block 4 d s src dst"
  using put_block_snoc [of 2 d s src dst] put_block_snoc [of 3 d s src dst]
  by (simp add: put_block_2)

lemma copy_until_eq:
  assumes "c \<le> lim"
  shows "copy_until lim c d s src dst
         = (d + (lim - c), s + (lim - c), put_block (unat (lim - c)) d s src dst)"
  using assms
proof (induction lim c d s src dst rule: copy_until.induct)
  case (1 lim c d s src dst)
  show ?case
  proof (cases "c < lim")
    case True
    have "unat (lim - (c + 1)) = unat (lim - c) - 1" "unat (lim - c) > 0" "c + 1 \<le> lim"
      using True unat_Suc_of_less [OF True]
      by (simp_all add: word_less_nat_alt word_le_nat_alt unat_sub_if')
    then show ?thesis
      using True "1.IH" put_block_Suc [of "unat (lim - c) - 1" d s src dst]
        unat_less_2p32 [of "lim - c"]
      by (simp add: copy_until.simps [of lim c] fun_upd_def)
  next
    case False
    with "1.prems" show ?thesis by (subst copy_until.simps) simp
  qed
qed

lemma copy_rest_eq: "copy_rest n d s src dst = put_block (unat (n AND 3)) d s src dst"
proof -
  have "unat (n AND 3) = unat n mod 4" using unat_and_mask [of n 2] by (simp add: mask_eq_decr_exp)
  then have "unat (n AND 3) < 4" by simp
  then have "unat (n AND 3) = unat (0::u32) \<or> unat (n AND 3) = unat (1::u32)
      \<or> unat (n AND 3) = unat (2::u32) \<or> unat (n AND 3) = unat (3::u32)" by auto
  then have "n AND 3 = 0 \<or> n AND 3 = 1 \<or> n AND 3 = 2 \<or> n AND 3 = 3"
    by (simp only: word_unat_eq_iff)
  then show ?thesis
    using put_block_snoc [of 2 d s src dst]
    by (elim disjE) (simp_all add: copy_rest_def put_block_1 put_block_2)
qed

lemma copy_by_4_eq:
  assumes "i \<le> n AND NOT 3" and "4 dvd unat i"
  shows "copy_by_4 n i d s src dst
         = (d + (n AND NOT 3) - i, s + (n AND NOT 3) - i,
            put_block (unat ((n AND NOT 3) - i)) d s src dst)"
  using assms
proof (induction n i d s src dst rule: copy_by_4.induct)
  case (1 n i d s src dst)
  let ?m = "n AND NOT 3"
  show ?case
  proof (cases "i < ?m")
    case True
    note nw = unrolled_no_wrap [OF True]
    have "?m AND 3 = 0" by (simp add: and.assoc)
    then have "4 dvd unat ?m" using unat_and_mask [of ?m 2] by (simp add: mask_eq_decr_exp dvd_eq_mod_eq_0)
    with "1.prems"(2) nw have ge: "unat i + 4 \<le> unat ?m" by (auto elim!: dvdE)
    then have "unat (?m - (i + 4)) = unat (?m - i) - 4" "unat (?m - i) \<ge> 4" "i + 4 \<le> ?m"
      using nw by (simp_all add: word_le_nat_alt unat_sub_if')
    moreover have "4 dvd unat (i + 4)" using nw "1.prems"(2) by simp
    ultimately have "copy_by_4 n i d s src dst = (d + 4 + ?m - (i + 4), s + 4 + ?m - (i + 4),
        put_block (unat (?m - i) - 4) (d + 4) (s + 4) src (put_block 4 d s src dst))"
      using True "1.IH" by (simp add: copy_by_4.simps [of n i] put_block_4 del: fun_upd_apply)
    moreover have "put_block (unat (?m - i) - 4) (d + 4) (s + 4) src (put_block 4 d s src dst)
        = put_block (unat (?m - i)) d s src dst"
      using put_block_add [of 4 "unat (?m - i) - 4" d s src dst] \<open>unat (?m - i) \<ge> 4\<close>
        unat_less_2p32 [of "?m - i"]
      by (cases "unat (?m - i) = 4") (simp_all del: unat_less_2p32)
    ultimately show ?thesis by simp
  next
    case False
    with "1.prems" have "i = ?m" by simp
    then show ?thesis by (subst copy_by_4.simps) simp
  qed
qed

text \<open>
  Position of cell \<open>j\<close> relative to the masked index \<open>h\<close>, walking up and wrapping at the end.
\<close>

lemma unat_ring_dist:
  assumes sz: "pow2_size sz" and j: "j < sz"
  shows "unat ((j - h) AND (sz - 1)) =
    (if unat (h AND (sz - 1)) \<le> unat j then unat j - unat (h AND (sz - 1))
     else unat j + unat sz - unat (h AND (sz - 1)))"
proof -
  let ?S = "unat sz" and ?D = "unat ((j - h) AND (sz - 1))" and ?I = "unat (h AND (sz - 1))"
  have "?D < ?S" "?I < ?S" "unat j < ?S"
    using and_pow2_less [OF sz] j by (simp_all add: word_less_nat_alt)
  moreover have "(?D + ?I) mod ?S = unat j"
    using unat_add_mod [OF sz, of "j - h" h] \<open>unat j < ?S\<close>
    by (simp add: unat_and_pow2 [OF sz] mod_add_eq)
  ultimately show ?thesis
    by (cases "?D + ?I < ?S") (auto simp: le_mod_geq split: if_splits)
qed

lemma and_not_add_and: "(n AND NOT m) + (n AND m) = (n :: 'a::len word)"
  by (subst disjunctive_add_eq_or) (auto simp: bit_eq_iff bit_simps)

text \<open>Four at a time and the rest: together all \<open>n\<close> objects.\<close>

lemma copy_split:
  "(case copy_by_4 n 0 d s src dst of (d, s, dst) \<Rightarrow> copy_rest n d s src dst)
   = put_block (unat n) d s src dst"
proof -
  let ?m = "n AND NOT 3"
  have "unat n = unat ?m + unat (n AND 3)"
  proof -
    have "?m \<le> n" by (rule word_and_le2)
    moreover have "n AND 3 = n - ?m" using and_not_add_and [of n 3] by (simp add: algebra_simps)
    ultimately show ?thesis by (simp add: unat_sub_if' word_le_nat_alt)
  qed
  then show ?thesis
    using put_block_add [of "unat ?m" "unat (n AND 3)" d s src dst]
      unat_less_2p32 [of n]
    by (cases "unat (n AND 3) = 0") (simp_all add: copy_by_4_eq copy_rest_eq del: unat_less_2p32)
qed

lemma ENQUEUE_PTRS_eq:
  assumes sz: "pow2_size sz" and n: "n \<le> sz - 1"
  shows "ENQUEUE_PTRS sz (sz - 1) h n tbl ring j =
    (if j < sz \<and> (j - h) AND (sz - 1) < n then tbl ((j - h) AND (sz - 1)) else ring j)"
proof -
  let ?idx = "h AND (sz - 1)" and ?D = "(j - h) AND (sz - 1)"
  have S: "unat sz \<le> 2 ^ 31"
    using sz by (elim pow2_sizeE) (simp add: power_increasing del: power_numeral)
  have lt: "unat ?idx < unat sz" "unat n < unat sz"
    using and_pow2_less [OF sz] n unat_pow2_pos [OF sz]
    by (simp_all add: word_less_nat_alt word_le_nat_alt unat_pow2_size_pred [OF sz])
  have sum: "unat (?idx + n) = unat ?idx + unat n"
    using lt S by (simp add: unat_word_ariths)
  have D: "unat ?D = (if unat ?idx \<le> unat j then unat j - unat ?idx
      else unat j + unat sz - unat ?idx)" if "j < sz"
    by (rule unat_ring_dist [OF sz that])
  show ?thesis
  proof (cases "?idx + n < sz")
    case True
    then have bound: "unat ?idx + unat n < unat sz" by (simp add: word_less_nat_alt sum)
    have "ENQUEUE_PTRS sz (sz - 1) h n tbl ring = put_block (unat n) ?idx 0 tbl ring"
      using True by (simp add: ENQUEUE_PTRS_def copy_split)
    moreover have "unat (j - ?idx) < unat n \<longleftrightarrow> j < sz \<and> unat ?D < unat n"
      using D bound S by (auto simp: unat_sub_if' word_less_nat_alt word_le_nat_alt)
    moreover have "j - ?idx = ?D" if "unat (j - ?idx) < unat n"
      using that D bound S
      by (auto simp: word_unat_eq_iff unat_sub_if' word_less_nat_alt word_le_nat_alt)
    ultimately show ?thesis by (auto simp: put_block_def word_less_nat_alt)
  next
    case False
    then have bound: "unat sz \<le> unat ?idx + unat n" by (simp add: word_less_nat_alt sum)
    have sub: "unat (sz - ?idx) = unat sz - unat ?idx"
      using lt by (simp add: unat_sub_if')
    have "sz - ?idx \<le> n" using bound sub by (simp add: word_le_nat_alt)
    then have "ENQUEUE_PTRS sz (sz - 1) h n tbl ring
        = put_block (unat (n - (sz - ?idx))) 0 (sz - ?idx) tbl
            (put_block (unat (sz - ?idx)) ?idx 0 tbl ring)"
      using False lt by (simp add: ENQUEUE_PTRS_def copy_until_eq word_le_nat_alt Let_def)
    moreover have "unat (n - (sz - ?idx)) = unat n - (unat sz - unat ?idx)"
      using \<open>sz - ?idx \<le> n\<close> sub by (simp add: unat_sub_if' word_le_nat_alt)
    moreover have "unat j < unat n - (unat sz - unat ?idx) \<or>
        unat (j - ?idx) < unat sz - unat ?idx \<longleftrightarrow> j < sz \<and> unat ?D < unat n"
      using D bound S lt by (auto simp: unat_sub_if' word_less_nat_alt word_le_nat_alt)
    moreover have "sz - ?idx + j = ?D" if "unat j < unat n - (unat sz - unat ?idx)"
      using that D sub bound S lt
      by (auto simp: word_unat_eq_iff unat_word_ariths word_less_nat_alt word_le_nat_alt)
    moreover have "j - ?idx = ?D"
      if "\<not> unat j < unat n - (unat sz - unat ?idx)" "unat (j - ?idx) < unat sz - unat ?idx"
      using that D bound S lt
      by (auto simp: word_unat_eq_iff unat_sub_if' word_less_nat_alt word_le_nat_alt)
    ultimately show ?thesis using sub by (auto simp: put_block_def word_less_nat_alt)
  qed
qed


lemma DEQUEUE_PTRS_eq:
  assumes sz: "pow2_size sz" and n: "n \<le> sz - 1"
  shows "DEQUEUE_PTRS sz (sz - 1) h n ring tbl i =
    (if i < n then ring ((h + i) AND (sz - 1)) else tbl i)"
proof -
  let ?idx = "h AND (sz - 1)"
  have S: "unat sz \<le> 2 ^ 31"
    using sz by (elim pow2_sizeE) (simp add: power_increasing del: power_numeral)
  have lt: "unat ?idx < unat sz" "unat n < unat sz"
    using and_pow2_less [OF sz] n unat_pow2_pos [OF sz]
    by (simp_all add: word_less_nat_alt word_le_nat_alt unat_pow2_size_pred [OF sz])
  have sum: "unat (?idx + n) = unat ?idx + unat n"
    using lt S by (simp add: unat_word_ariths)
  have sub: "unat (sz - ?idx) = unat sz - unat ?idx"
    using lt by (simp add: unat_sub_if')
  have slot: "unat ((h + i) AND (sz - 1)) = (if unat ?idx + unat i < unat sz then unat ?idx + unat i
      else unat ?idx + unat i - unat sz)" if "unat i < unat sz"
  proof -
    have "unat ((h + i) AND (sz - 1)) = (unat ?idx + unat i) mod unat sz"
      by (simp add: unat_and_pow2 [OF sz] unat_add_mod [OF sz] mod_add_left_eq)
    with that lt(1) show ?thesis by (simp add: le_mod_geq)
  qed
  show ?thesis
  proof (cases "?idx + n < sz")
    case True
    then have bound: "unat ?idx + unat n < unat sz" by (simp add: word_less_nat_alt sum)
    have "DEQUEUE_PTRS sz (sz - 1) h n ring tbl = put_block (unat n) 0 ?idx ring tbl"
      using True copy_split [where d = 0 and s = ?idx and src = ring and dst = tbl] by (simp add: DEQUEUE_PTRS_def)
    moreover have "?idx + i = (h + i) AND (sz - 1)" if "i < n"
      using that slot bound lt S by (simp add: word_unat_eq_iff unat_word_ariths word_less_nat_alt)
    ultimately show ?thesis by (simp add: put_block_def word_less_nat_alt)
  next
    case False
    then have bound: "unat sz \<le> unat ?idx + unat n" by (simp add: word_less_nat_alt sum)
    then have le: "sz - ?idx \<le> n" using sub by (simp add: word_le_nat_alt)
    have "DEQUEUE_PTRS sz (sz - 1) h n ring tbl
        = put_block (unat (n - (sz - ?idx))) (sz - ?idx) 0 ring
            (put_block (unat (sz - ?idx)) 0 ?idx ring tbl)"
      using False lt le by (simp add: DEQUEUE_PTRS_def copy_until_eq word_le_nat_alt Let_def)
    moreover have "unat (n - (sz - ?idx)) = unat n - (unat sz - unat ?idx)"
      using le sub by (simp add: unat_sub_if' word_le_nat_alt)
    moreover have "unat (i - (sz - ?idx)) < unat n - (unat sz - unat ?idx) \<longleftrightarrow>
        i < n \<and> unat sz - unat ?idx \<le> unat i"
      using sub bound S lt unat_less_2p32 [of i]
      by (auto simp: unat_sub_if' word_less_nat_alt word_le_nat_alt)
    moreover have "i - (sz - ?idx) = (h + i) AND (sz - 1)"
      if "i < n" "unat sz - unat ?idx \<le> unat i"
      using that slot sub lt by (auto simp: word_unat_eq_iff unat_sub_if' word_less_nat_alt word_le_nat_alt)
    moreover have "?idx + i = (h + i) AND (sz - 1)" if "unat i < unat sz - unat ?idx"
      using that slot lt S by (simp add: word_unat_eq_iff unat_word_ariths)
    ultimately show ?thesis using sub bound by (auto simp: put_block_def word_less_nat_alt)
  qed
qed

section \<open>The ring as a bounded queue\<close>

definition ring_cap :: "'a rte_ring \<Rightarrow> nat" where
  "ring_cap r = unat (prod_size (r_prod r)) - 1"

definition ring_used :: "'a rte_ring \<Rightarrow> nat" where
  "ring_used r = unat (prod_tail (r_prod r) - cons_tail (r_cons r))"

definition ring_items :: "'a rte_ring \<Rightarrow> 'a list" where
  "ring_items r =
     map (\<lambda>k. r_ring r ((cons_tail (r_cons r) + of_nat k) AND prod_mask (r_prod r))) [0..<ring_used r]"

definition ring_ok :: "'a rte_ring \<Rightarrow> bool" where
  "ring_ok r \<longleftrightarrow>
     pow2_size (prod_size (r_prod r)) \<and> prod_size (r_prod r) \<le> RTE_RING_SZ_MASK \<and>
     prod_mask (r_prod r) = prod_size (r_prod r) - 1 \<and>
     cons_size (r_cons r) = prod_size (r_prod r) \<and>
     cons_mask (r_cons r) = prod_size (r_prod r) - 1 \<and>
     prod_head (r_prod r) = prod_tail (r_prod r) \<and>
     cons_head (r_cons r) = cons_tail (r_cons r) \<and>
     ring_used r \<le> ring_cap r \<and>
     prod_watermark (r_prod r) \<le> prod_size (r_prod r)"

text \<open>How many objects a request for \<open>n\<close> moves when \<open>avail\<close> can be moved.\<close>

definition moved :: "nat \<Rightarrow> nat \<Rightarrow> rte_ring_queue_behavior \<Rightarrow> nat" where
  "moved avail n behavior =
     (if n \<le> avail then n else if behavior = RTE_RING_QUEUE_FIXED then 0 else avail)"

lemma length_ring_items [simp]: "length (ring_items r) = ring_used r"
  by (simp add: ring_items_def)

lemma ring_okD:
  assumes "ring_ok r"
  shows "pow2_size (prod_size (r_prod r))" "prod_size (r_prod r) \<le> RTE_RING_SZ_MASK"
    "prod_mask (r_prod r) = prod_size (r_prod r) - 1"
    "cons_size (r_cons r) = prod_size (r_prod r)" "cons_mask (r_cons r) = prod_size (r_prod r) - 1"
    "prod_head (r_prod r) = prod_tail (r_prod r)" "cons_head (r_cons r) = cons_tail (r_cons r)"
    "ring_used r \<le> ring_cap r" "prod_watermark (r_prod r) \<le> prod_size (r_prod r)"
    "unat (prod_size (r_prod r) - 1) = ring_cap r" "ring_cap r < unat (prod_size (r_prod r))"
    "ring_cap r < 2 ^ 28"
proof -
  show *: "pow2_size (prod_size (r_prod r))" "prod_size (r_prod r) \<le> RTE_RING_SZ_MASK"
    "prod_mask (r_prod r) = prod_size (r_prod r) - 1"
    "cons_size (r_cons r) = prod_size (r_prod r)" "cons_mask (r_cons r) = prod_size (r_prod r) - 1"
    "prod_head (r_prod r) = prod_tail (r_prod r)" "cons_head (r_cons r) = cons_tail (r_cons r)"
    "ring_used r \<le> ring_cap r" "prod_watermark (r_prod r) \<le> prod_size (r_prod r)"
    using assms by (simp_all add: ring_ok_def)
  show "unat (prod_size (r_prod r) - 1) = ring_cap r" "ring_cap r < unat (prod_size (r_prod r))"
    using *(1) unat_pow2_pos by (auto simp: ring_cap_def unat_pow2_size_pred)
  show "ring_cap r < 2 ^ 28"
    using *(2) by (auto simp: ring_cap_def word_le_nat_alt RTE_RING_SZ_MASK_def)
qed

lemma free_entries_eq:
  assumes "ring_ok r"
  shows "unat (prod_mask (r_prod r) + cons_tail (r_cons r) - prod_head (r_prod r))
         = ring_cap r - ring_used r"
proof -
  note ok = ring_okD [OF assms]
  have "prod_mask (r_prod r) + cons_tail (r_cons r) - prod_head (r_prod r)
      = (prod_size (r_prod r) - 1) - (prod_tail (r_prod r) - cons_tail (r_cons r))"
    using ok by (simp add: algebra_simps)
  moreover have "prod_tail (r_prod r) - cons_tail (r_cons r) \<le> prod_size (r_prod r) - 1"
    using ok(8,10) by (simp add: word_le_nat_alt ring_used_def)
  ultimately show ?thesis
    using ok(10) by (simp only: unat_sub_le) (simp add: ring_used_def)
qed

lemma RING_STAT_ADD_fields [simp]:
  "r_prod (RING_STAT_ADD l s n r) = r_prod r" "r_cons (RING_STAT_ADD l s n r) = r_cons r"
  "r_ring (RING_STAT_ADD l s n r) = r_ring r" "r_name (RING_STAT_ADD l s n r) = r_name r"
  "r_flags (RING_STAT_ADD l s n r) = r_flags r"
  by (simp_all add: RING_STAT_ADD_def)

lemma ring_abs_stat [simp]:
  "ring_items (RING_STAT_ADD l s n r) = ring_items r"
  "ring_ok (RING_STAT_ADD l s n r) = ring_ok r"
  "ring_cap (RING_STAT_ADD l s n r) = ring_cap r"
  "ring_used (RING_STAT_ADD l s n r) = ring_used r"
  by (simp_all add: ring_items_def ring_ok_def ring_cap_def ring_used_def)

text \<open>Writing \<open>m\<close> objects behind the tail and moving the producer appends them.\<close>

definition produce :: "u32 \<Rightarrow> 'a carray \<Rightarrow> 'a rte_ring \<Rightarrow> 'a rte_ring" where
  "produce m tbl r = set_prod_tail (prod_tail (r_prod r) + m)
     ((set_prod_head (prod_tail (r_prod r) + m) r)
        \<lparr>r_ring := ENQUEUE_PTRS (prod_size (r_prod r)) (prod_mask (r_prod r))
                    (prod_tail (r_prod r)) m tbl (r_ring r)\<rparr>)"

lemma used_plus:
  assumes "ring_ok r" "unat m \<le> ring_cap r - ring_used r"
  shows "unat (prod_tail (r_prod r) + m - cons_tail (r_cons r)) = ring_used r + unat m"
proof -
  note ok = ring_okD [OF assms(1)]
  have "prod_tail (r_prod r) + m - cons_tail (r_cons r)
      = (prod_tail (r_prod r) - cons_tail (r_cons r)) + m" by (simp add: algebra_simps)
  moreover have "unat (prod_tail (r_prod r) - cons_tail (r_cons r)) + unat m < 2 ^ 32"
    using ok(8,12) assms(2) by (simp add: ring_used_def)
  ultimately show ?thesis by (simp only: unat_add_less ring_used_def)
qed

lemma produce_ok:
  assumes ok: "ring_ok r" and m: "unat m \<le> ring_cap r - ring_used r"
  shows "ring_ok (produce m tbl r)"
    and "ring_items (produce m tbl r) = ring_items r @ table_list tbl (unat m)"
    and "ring_cap (produce m tbl r) = ring_cap r"
proof -
  let ?sz = "prod_size (r_prod r)" and ?ct = "cons_tail (r_cons r)" and ?pt = "prod_tail (r_prod r)"
  note okD = ring_okD [OF ok]
  have used: "ring_used (produce m tbl r) = ring_used r + unat m"
    using used_plus [OF ok m] by (simp add: ring_used_def produce_def set_defs)
  show "ring_cap (produce m tbl r) = ring_cap r"
    by (simp add: ring_cap_def produce_def set_defs)
  then show "ring_ok (produce m tbl r)"
    using ok used m okD(8) by (simp add: ring_ok_def) (simp add: produce_def set_defs)
  have msz: "m \<le> ?sz - 1" using m okD(10) by (simp add: word_le_nat_alt)
  have cell: "r_ring (produce m tbl r) ((?ct + of_nat k) AND (?sz - 1)) =
      (if k < ring_used r then r_ring r ((?ct + of_nat k) AND (?sz - 1))
       else tbl (of_nat (k - ring_used r)))"
    if "k < ring_used r + unat m" for k
  proof -
    let ?j = "(?ct + of_nat k) AND (?sz - 1)" and ?D = "((?ct + of_nat k) AND (?sz - 1)) - ?pt AND (?sz - 1)"
    have kS: "k < unat ?sz" "k < 2 ^ 32" using that m okD(8,11,12) by simp_all
    have jl: "?j < ?sz" by (rule and_pow2_less [OF okD(1)])
    have pt: "?pt = ?ct + of_nat (ring_used r)" by (simp add: ring_used_def)
    have D: "?D = (of_nat k - of_nat (ring_used r)) AND (?sz - 1)"
      unfolding masked_sub [OF okD(1)] by (simp add: pt)
    have uD: "unat ?D = (if ring_used r \<le> k then k - ring_used r else k + unat ?sz - ring_used r)"
      using unat_ring_dist [OF okD(1), of "of_nat k" "of_nat (ring_used r)"] kS okD(8,11,12)
      unfolding D by (simp add: word_less_nat_alt unat_of_nat unat_and_pow2 [OF okD(1)])
    have "?D < m \<longleftrightarrow> ring_used r \<le> k"
      using uD that m okD(8,11) by (auto simp: word_less_nat_alt)
    moreover have "?D = of_nat (k - ring_used r)" if "ring_used r \<le> k"
      using uD that kS by (simp add: word_unat_eq_iff unat_of_nat del: of_nat_diff)
    ultimately show ?thesis
      using jl okD(3) by (auto simp: produce_def set_defs ENQUEUE_PTRS_eq [OF okD(1) msz])
  qed
  show "ring_items (produce m tbl r) = ring_items r @ table_list tbl (unat m)"
  proof (rule nth_equalityI)
    fix k assume "k < length (ring_items (produce m tbl r))"
    then have k: "k < ring_used r + unat m" by (simp add: used)
    then show "ring_items (produce m tbl r) ! k = (ring_items r @ table_list tbl (unat m)) ! k"
      using cell [OF k] okD(3)
      by (auto simp: ring_items_def used nth_append table_list_def)
         (simp_all add: produce_def set_defs)
  qed (simp add: used)
qed

text \<open>Moving the consumer drops objects from the front; the table receives them in order.\<close>

definition consume :: "u32 \<Rightarrow> 'a rte_ring \<Rightarrow> 'a rte_ring" where
  "consume m r = set_cons_tail (cons_tail (r_cons r) + m)
     (set_cons_head (cons_tail (r_cons r) + m) r)"

lemma consume_ok:
  assumes ok: "ring_ok r" and m: "unat m \<le> ring_used r"
  shows "ring_ok (consume m r)"
    and "ring_items (consume m r) = drop (unat m) (ring_items r)"
    and "ring_cap (consume m r) = ring_cap r"
proof -
  note okD = ring_okD [OF ok]
  have "prod_tail (r_prod r) - (cons_tail (r_cons r) + m)
      = (prod_tail (r_prod r) - cons_tail (r_cons r)) - m" by (simp add: algebra_simps)
  moreover have "m \<le> prod_tail (r_prod r) - cons_tail (r_cons r)"
    using m by (simp add: ring_used_def word_le_nat_alt)
  ultimately have "unat (prod_tail (r_prod r) - (cons_tail (r_cons r) + m))
      = unat (prod_tail (r_prod r) - cons_tail (r_cons r)) - unat m" by (simp only: unat_sub_le)
  then have used: "ring_used (consume m r) = ring_used r - unat m"
    by (simp add: ring_used_def consume_def set_defs)
  show "ring_cap (consume m r) = ring_cap r"
    by (simp add: ring_cap_def consume_def set_defs)
  then show "ring_ok (consume m r)"
    using ok used okD(8) by (simp add: ring_ok_def) (simp add: consume_def set_defs)
  show "ring_items (consume m r) = drop (unat m) (ring_items r)"
    by (rule nth_equalityI)
      (simp_all add: used, simp add: ring_items_def used,
       simp add: consume_def set_defs algebra_simps)
qed

lemma dequeued_table:
  assumes ok: "ring_ok r" and m: "unat m \<le> ring_used r"
  shows "table_list (DEQUEUE_PTRS (prod_size (r_prod r)) (prod_size (r_prod r) - 1)
           (cons_tail (r_cons r)) m (r_ring r) tbl) (unat m) = take (unat m) (ring_items r)"
proof (rule nth_equalityI)
  note okD = ring_okD [OF ok]
  have msz: "m \<le> prod_size (r_prod r) - 1" using m okD(8,10) by (simp add: word_le_nat_alt)
  fix k assume "k < length (table_list (DEQUEUE_PTRS (prod_size (r_prod r)) (prod_size (r_prod r) - 1)
           (cons_tail (r_cons r)) m (r_ring r) tbl) (unat m))"
  then have k: "k < unat m" by simp
  then have "(of_nat k :: u32) < m"
    using unat_less_2p32 [of m] by (simp add: word_less_nat_alt unat_of_nat del: unat_less_2p32)
  with k m okD(3) show "table_list (DEQUEUE_PTRS (prod_size (r_prod r)) (prod_size (r_prod r) - 1)
           (cons_tail (r_cons r)) m (r_ring r) tbl) (unat m) ! k = take (unat m) (ring_items r) ! k"
    by (simp add: DEQUEUE_PTRS_eq [OF okD(1) msz] ring_items_def)
qed (use m in simp)

section \<open>Single producer, single consumer\<close>

definition enq_result ::
  "nat \<Rightarrow> nat \<Rightarrow> nat \<Rightarrow> nat \<Rightarrow> rte_ring_queue_behavior \<Rightarrow> int" where
  "enq_result cap used wm n behavior =
     (if n > cap - used \<and> behavior = RTE_RING_QUEUE_FIXED then - ENOBUFS
      else if n > cap - used \<and> cap = used then 0
      else let m = moved (cap - used) n behavior in
        if used + m \<ge> wm
        then (if behavior = RTE_RING_QUEUE_FIXED then - EDQUOT else int m - 2 ^ 31)
        else (if behavior = RTE_RING_QUEUE_FIXED then 0 else int m))"

lemma enq_room_eq:
  assumes "ring_ok r"
  shows "enq_room (prod_mask (r_prod r)) (prod_head (r_prod r)) (cons_tail (r_cons r)) n behavior =
    (if unat n > ring_cap r - ring_used r \<and> behavior = RTE_RING_QUEUE_FIXED then Inl (- ENOBUFS)
     else if unat n > ring_cap r - ring_used r \<and> ring_cap r = ring_used r then Inl 0
     else Inr (of_nat (moved (ring_cap r - ring_used r) (unat n) behavior),
               of_nat (ring_cap r - ring_used r)))"
proof -
  let ?free = "prod_mask (r_prod r) + cons_tail (r_cons r) - prod_head (r_prod r)"
  note free = free_entries_eq [OF assms]
  have "?free = of_nat (ring_cap r - ring_used r)"
    unfolding free [symmetric] by simp
  moreover have "?free = 0 \<longleftrightarrow> ring_cap r = ring_used r"
    using free ring_okD(8) [OF assms] by (metis diff_is_0_eq' diff_diff_cancel diff_zero unat_eq_zero order_refl)
  ultimately show ?thesis
    using free by (auto simp: enq_room_def moved_def word_less_nat_alt Let_def)
qed


lemma set_prod_tail_stat:
  "set_prod_tail x (RING_STAT_ADD l s n r) = RING_STAT_ADD l s n (set_prod_tail x r)"
  by (simp add: set_defs RING_STAT_ADD_def)

lemma set_cons_tail_stat:
  "set_cons_tail x (RING_STAT_ADD l s n r) = RING_STAT_ADD l s n (set_cons_tail x r)"
  by (simp add: set_defs RING_STAT_ADD_def)

lemma moved_le: "moved avail n b \<le> avail" "moved avail n b \<le> n"
  by (auto simp: moved_def)

lemma enq_ret_eq:
  assumes ok: "ring_ok r" and m: "m \<le> ring_cap r - ring_used r"
  shows "enq_ret (prod_watermark (r_prod r)) (prod_mask (r_prod r))
            (of_nat (ring_cap r - ring_used r)) (of_nat m) behavior =
    (if ring_used r + m \<ge> unat (prod_watermark (r_prod r))
     then (if behavior = RTE_RING_QUEUE_FIXED then - EDQUOT else int m - 2 ^ 31, enq_quota)
     else (if behavior = RTE_RING_QUEUE_FIXED then 0 else int m, enq_success))"
proof -
  note okD = ring_okD [OF ok]
  have um: "unat (of_nat m :: u32) = m" "m < 2 ^ 31"
    using m okD(12) by (simp_all add: unat_of_nat)
  have "(of_nat (ring_cap r - ring_used r) :: u32) \<le> prod_size (r_prod r)"
    using okD(11,12) by (simp add: word_le_nat_alt unat_of_nat del: of_nat_diff)
  then have "unat (prod_size (r_prod r) - of_nat (ring_cap r - ring_used r)) = ring_used r + 1"
    using okD(8,11,12) by (simp add: unat_sub_le unat_of_nat ring_cap_def del: of_nat_diff)
  then have "unat (prod_size (r_prod r) - of_nat (ring_cap r - ring_used r) + of_nat m)
      = ring_used r + 1 + m"
    using um okD(8,12) m by (simp add: unat_word_ariths del: of_nat_diff)
  then show ?thesis
    using okD(3) um sint_or_top [of "of_nat m"] sint_small [of "of_nat m"]
    by (simp add: enq_ret_def word_less_nat_alt RTE_RING_QUOT_EXCEED_def del: of_nat_diff)
qed

definition enq_fails :: "'a rte_ring \<Rightarrow> nat \<Rightarrow> rte_ring_queue_behavior \<Rightarrow> bool" where
  "enq_fails r n behavior \<longleftrightarrow> n > ring_cap r - ring_used r \<and>
     (behavior = RTE_RING_QUEUE_FIXED \<or> ring_cap r = ring_used r)"

text \<open>The statistics counter an enqueue increments, and the ring it leaves.\<close>

definition enq_stat :: "'a rte_ring \<Rightarrow> nat \<Rightarrow> rte_ring_queue_behavior \<Rightarrow> stat_name" where
  "enq_stat r n behavior =
     (if enq_fails r n behavior then enq_fail
      else if ring_used r + moved (ring_cap r - ring_used r) n behavior
                \<ge> unat (prod_watermark (r_prod r)) then enq_quota
      else enq_success)"

lemma sp_do_enqueue_eq:
  assumes ok: "ring_ok r"
  shows "rte_ring_sp_do_enqueue lcore r tbl n behavior =
    (let m = of_nat (moved (ring_cap r - ring_used r) (unat n) behavior) in
     (enq_result (ring_cap r) (ring_used r) (unat (prod_watermark (r_prod r))) (unat n) behavior,
      if enq_fails r (unat n) behavior then RING_STAT_ADD lcore enq_fail n r
      else RING_STAT_ADD lcore (enq_stat r (unat n) behavior) m (produce m tbl r)))"
proof (cases "enq_fails r (unat n) behavior")
  case True
  then show ?thesis
    by (auto simp: rte_ring_sp_do_enqueue_def enq_room_eq [OF ok] enq_fails_def enq_result_def Let_def)
next
  case False
  define M F :: u32
    where M: "M = of_nat (moved (ring_cap r - ring_used r) (unat n) behavior)"
      and F: "F = of_nat (ring_cap r - ring_used r)"
  have room: "enq_room (prod_mask (r_prod r)) (prod_head (r_prod r)) (cons_tail (r_cons r)) n behavior
      = Inr (M, F)"
    using False by (auto simp: enq_room_eq [OF ok] enq_fails_def M F)
  have ret: "enq_ret (prod_watermark (r_prod r)) (prod_mask (r_prod r)) F M behavior
      = (enq_result (ring_cap r) (ring_used r) (unat (prod_watermark (r_prod r))) (unat n) behavior,
         enq_stat r (unat n) behavior)"
    unfolding M F enq_ret_eq [OF ok moved_le(1)] using False
    by (auto simp: enq_result_def enq_stat_def enq_fails_def Let_def)
  have "rte_ring_sp_do_enqueue lcore r tbl n behavior =
      (enq_result (ring_cap r) (ring_used r) (unat (prod_watermark (r_prod r))) (unat n) behavior,
       RING_STAT_ADD lcore (enq_stat r (unat n) behavior) M (produce M tbl r))"
    using ret ring_okD(6) [OF ok] unfolding rte_ring_sp_do_enqueue_def Let_def room
    by (simp add: set_defs produce_def RING_STAT_ADD_def)
  with False show ?thesis by (simp add: M Let_def)
qed

definition deq_fails :: "'a rte_ring \<Rightarrow> nat \<Rightarrow> rte_ring_queue_behavior \<Rightarrow> bool" where
  "deq_fails r n behavior \<longleftrightarrow> n > ring_used r \<and>
     (behavior = RTE_RING_QUEUE_FIXED \<or> ring_used r = 0)"

definition deq_result :: "nat \<Rightarrow> nat \<Rightarrow> rte_ring_queue_behavior \<Rightarrow> int" where
  "deq_result used n behavior =
     (if behavior = RTE_RING_QUEUE_FIXED then (if n > used then - ENOENT else 0)
      else int (min n used))"

lemma deq_avail_eq:
  assumes "ring_ok r"
  shows "deq_avail (cons_head (r_cons r)) (prod_tail (r_prod r)) n behavior =
    (if deq_fails r (unat n) behavior
     then Inl (if behavior = RTE_RING_QUEUE_FIXED then - ENOENT else 0)
     else Inr (of_nat (moved (ring_used r) (unat n) behavior)))"
proof -
  let ?e = "prod_tail (r_prod r) - cons_tail (r_cons r)"
  have "?e = 0 \<longleftrightarrow> ring_used r = 0" by (simp add: ring_used_def unat_eq_zero)
  moreover have "?e = of_nat (ring_used r)" by (simp add: ring_used_def)
  moreover have "n > ?e \<longleftrightarrow> unat n > ring_used r" by (simp add: ring_used_def word_less_nat_alt)
  ultimately show ?thesis
    using ring_okD(7) [OF assms] by (auto simp: deq_avail_def deq_fails_def moved_def Let_def)
qed

lemma sc_do_dequeue_eq:
  assumes ok: "ring_ok r"
  shows "rte_ring_sc_do_dequeue lcore r tbl n behavior =
    (let m = of_nat (moved (ring_used r) (unat n) behavior) in
     (deq_result (ring_used r) (unat n) behavior,
      if deq_fails r (unat n) behavior then (tbl, RING_STAT_ADD lcore deq_fail n r)
      else (DEQUEUE_PTRS (prod_size (r_prod r)) (prod_size (r_prod r) - 1)
              (cons_tail (r_cons r)) m (r_ring r) tbl,
            RING_STAT_ADD lcore deq_success m (consume m r))))"
proof (cases "deq_fails r (unat n) behavior")
  case True
  then show ?thesis
    by (auto simp: rte_ring_sc_do_dequeue_def deq_avail_eq [OF ok] deq_fails_def deq_result_def Let_def)
next
  case False
  note okD = ring_okD [OF ok]
  define M :: u32 where M: "M = of_nat (moved (ring_used r) (unat n) behavior)"
  have av: "deq_avail (cons_head (r_cons r)) (prod_tail (r_prod r)) n behavior = Inr M"
    using False by (simp add: deq_avail_eq [OF ok] M)
  have "unat M = moved (ring_used r) (unat n) behavior" "unat M < 2 ^ 31"
    using moved_le(1) [of "ring_used r" "unat n" behavior] okD(8,12) by (simp_all add: M unat_of_nat)
  then have "deq_ret M behavior = deq_result (ring_used r) (unat n) behavior"
    using False sint_small [of M] by (auto simp: deq_ret_def deq_result_def deq_fails_def moved_def)
  then have "rte_ring_sc_do_dequeue lcore r tbl n behavior =
      (deq_result (ring_used r) (unat n) behavior,
       DEQUEUE_PTRS (prod_size (r_prod r)) (prod_size (r_prod r) - 1)
         (cons_tail (r_cons r)) M (r_ring r) tbl,
       RING_STAT_ADD lcore deq_success M (consume M r))"
    using okD(3,4,7) unfolding rte_ring_sc_do_dequeue_def Let_def av
    by (simp add: set_defs consume_def RING_STAT_ADD_def)
  with False show ?thesis by (simp add: M Let_def)
qed

section \<open>Without interference the multi variants are the single ones\<close>

lemma mp_move_head_quiet:
  "mp_move_head r msk n behavior =
     (let ph = prod_head (r_prod r) in
      case enq_room msk ph (cons_tail (r_cons r)) n behavior of
        Inl ret \<Rightarrow> Some (Inl ret, r)
      | Inr (n', free_entries) \<Rightarrow> Some (Inr (ph, n', free_entries), set_prod_head (ph + n') r))"
  by (subst mp_move_head.simps) (simp add: cmpset_prod_head_def Let_def split: sum.split)

lemma mc_move_head_quiet:
  "mc_move_head r n behavior =
     (let ch = cons_head (r_cons r) in
      case deq_avail ch (prod_tail (r_prod r)) n behavior of
        Inl ret \<Rightarrow> Some (Inl ret, r)
      | Inr n' \<Rightarrow> Some (Inr (ch, n'), set_cons_head (ch + n') r))"
  by (subst mc_move_head.simps) (simp add: cmpset_cons_head_def Let_def split: sum.split)

lemma wait_prod_tail_done: "prod_tail (r_prod r) = ph \<Longrightarrow> wait_prod_tail r ph = Some ()"
  by (subst wait_prod_tail.simps) simp

lemma wait_cons_tail_done: "cons_tail (r_cons r) = ch \<Longrightarrow> wait_cons_tail r ch = Some ()"
  by (subst wait_cons_tail.simps) simp

lemma mp_do_enqueue_eq_sp:
  assumes "prod_tail (r_prod r) = prod_head (r_prod r)"
  shows "rte_ring_mp_do_enqueue lcore r tbl n behavior
         = Some (rte_ring_sp_do_enqueue lcore r tbl n behavior)"
proof (cases "enq_room (prod_mask (r_prod r)) (prod_head (r_prod r)) (cons_tail (r_cons r)) n behavior")
  case (Inl ret)
  then show ?thesis
    by (simp add: rte_ring_mp_do_enqueue_def rte_ring_sp_do_enqueue_def mp_move_head_quiet Let_def)
next
  case (Inr p)
  then show ?thesis
    using assms
    by (cases p) (simp add: rte_ring_mp_do_enqueue_def rte_ring_sp_do_enqueue_def
        mp_move_head_quiet wait_prod_tail_done set_defs Let_def split: prod.split)
qed

lemma mc_do_dequeue_eq_sc:
  assumes "cons_tail (r_cons r) = cons_head (r_cons r)"
  shows "rte_ring_mc_do_dequeue lcore r tbl n behavior
         = Some (rte_ring_sc_do_dequeue lcore r tbl n behavior)"
proof (cases "deq_avail (cons_head (r_cons r)) (prod_tail (r_prod r)) n behavior")
  case (Inl ret)
  then show ?thesis
    by (simp add: rte_ring_mc_do_dequeue_def rte_ring_sc_do_dequeue_def mc_move_head_quiet Let_def)
next
  case (Inr p)
  then show ?thesis
    using assms
    by (simp add: rte_ring_mc_do_dequeue_def rte_ring_sc_do_dequeue_def
        mc_move_head_quiet wait_cons_tail_done set_defs Let_def)
qed


end
