(* ===== verification/Ring_Concurrent.thy ===== *)
theory Ring_Concurrent
  imports Ring_Spec
begin

text \<open>
  Interleavings of the multi-producer enqueue and the multi-consumer dequeue of \<open>rte_ring.h\<close>. Each lcore runs at most
  one call; its program counter holds the local variables of the call. A step of an lcore is one access to
  the shared ring: a read of a head or a tail, a compare-and-set, the copy of one object, one store of a tail.
  The accesses of all lcores are interleaved in any order (the memory order of x86, which the
  compiler barriers of the code rely on, keeps the stores of an lcore in order).

  The state also has auxiliary variables that no step reads to decide what the code does: the log of completed
  transfers, the four indices of the ring as unbounded numbers, the object at each position of the
  stream, and the position at which an lcore last read a head.
\<close>

section \<open>The machine\<close>

datatype 'a pc =
    Ret int "'a list"
  | Enq_read "'a list" rte_ring_queue_behavior
  | Enq_check "'a list" rte_ring_queue_behavior u32
  | Enq_cas "'a list" rte_ring_queue_behavior u32 u32 u32
  | Enq_copy "'a list" rte_ring_queue_behavior u32 u32 u32 nat
  | Enq_wait "'a list" u32 u32 int
  | Deq_read u32 rte_ring_queue_behavior
  | Deq_check u32 rte_ring_queue_behavior u32
  | Deq_cas u32 rte_ring_queue_behavior u32 u32
  | Deq_copy rte_ring_queue_behavior u32 u32 "'a list"
  | Deq_wait rte_ring_queue_behavior u32 u32 "'a list"

datatype 'a transfer = Enqueued u32 "'a list" | Dequeued u32 "'a list"

record 'a ghost =
  g_prod_head :: nat
  g_prod_tail :: nat
  g_cons_head :: nat
  g_cons_tail :: nat
  g_obj :: "nat \<Rightarrow> 'a"

record 'a conc =
  c_ring :: "'a rte_ring"
  c_pc :: "u32 \<Rightarrow> 'a pc"
  c_log :: "'a transfer list"
  c_ghost :: "'a ghost"
  c_seen :: "u32 \<Rightarrow> nat"

definition upd_ring :: "('a rte_ring \<Rightarrow> 'a rte_ring) \<Rightarrow> 'a conc \<Rightarrow> 'a conc" where
  "upd_ring f s = s\<lparr>c_ring := f (c_ring s)\<rparr>"

definition goto :: "u32 \<Rightarrow> 'a pc \<Rightarrow> 'a conc \<Rightarrow> 'a conc" where
  "goto l p s = s\<lparr>c_pc := (c_pc s)(l := p)\<rparr>"

definition write_cell :: "u32 \<Rightarrow> 'a \<Rightarrow> 'a rte_ring \<Rightarrow> 'a rte_ring" where
  "write_cell i x r = r\<lparr>r_ring := (r_ring r)(i := x)\<rparr>"

text \<open>The objects in the ring, from \<open>cons.head\<close> to \<open>prod.tail\<close>: what the next dequeue sees.\<close>

definition conc_items :: "'a rte_ring \<Rightarrow> 'a list" where
  "conc_items r = map (\<lambda>k. r_ring r ((cons_head (r_cons r) + of_nat k) AND prod_mask (r_prod r)))
     [0..<unat (prod_tail (r_prod r) - cons_head (r_cons r))]"

section \<open>Steps of \<open>__rte_ring_mp_do_enqueue\<close> and \<open>__rte_ring_mc_do_dequeue\<close>\<close>

definition step_enq_read :: "u32 \<Rightarrow> 'a list \<Rightarrow> rte_ring_queue_behavior \<Rightarrow> 'a conc \<Rightarrow> 'a conc" where
  "step_enq_read l objs b s = goto l (Enq_check objs b (prod_head (r_prod (c_ring s))))
     (s\<lparr>c_seen := (c_seen s)(l := g_prod_head (c_ghost s))\<rparr>)"

definition step_enq_check :: "u32 \<Rightarrow> 'a list \<Rightarrow> rte_ring_queue_behavior \<Rightarrow> u32 \<Rightarrow> 'a conc \<Rightarrow> 'a conc" where
  "step_enq_check l objs b ph s =
     (let r = c_ring s; n = of_nat (length objs) in
      case enq_room (prod_mask (r_prod r)) ph (cons_tail (r_cons r)) n b of
        Inl ret \<Rightarrow> goto l (Ret ret []) (upd_ring (RING_STAT_ADD l enq_fail n) s)
      | Inr (n, free_entries) \<Rightarrow> goto l (Enq_cas objs b ph n free_entries) s)"

definition step_enq_cas :: "u32 \<Rightarrow> 'a list \<Rightarrow> rte_ring_queue_behavior \<Rightarrow> u32 \<Rightarrow> u32 \<Rightarrow> u32 \<Rightarrow> 'a conc \<Rightarrow> 'a conc" where
  "step_enq_cas l objs b ph n free_entries s =
     (case cmpset_prod_head ph (ph + n) (c_ring s) of
        (success, r) \<Rightarrow>
          if success
          then (let g = c_ghost s; p = g_prod_head g in
                goto l (Enq_copy objs b ph n free_entries 0) (s\<lparr>c_ring := r,
                  c_ghost := g\<lparr>g_prod_head := p + unat n,
                    g_obj := (\<lambda>i. if p \<le> i then objs ! (i - p) else g_obj g i)\<rparr>\<rparr>))
          else goto l (Enq_read objs b) s)"

definition step_enq_copy ::
  "u32 \<Rightarrow> 'a list \<Rightarrow> rte_ring_queue_behavior \<Rightarrow> u32 \<Rightarrow> u32 \<Rightarrow> u32 \<Rightarrow> nat \<Rightarrow> 'a conc \<Rightarrow> 'a conc" where
  "step_enq_copy l objs b ph n free_entries i s =
     (let p = r_prod (c_ring s) in
      if i < unat n
      then goto l (Enq_copy objs b ph n free_entries (Suc i))
             (upd_ring (write_cell ((ph + of_nat i) AND prod_mask p) (objs ! i)) s)
      else (case enq_ret (prod_watermark p) (prod_mask p) free_entries n b of
              (ret, stat) \<Rightarrow> goto l (Enq_wait objs ph n ret) (upd_ring (RING_STAT_ADD l stat n) s)))"

definition step_enq_wait :: "u32 \<Rightarrow> 'a list \<Rightarrow> u32 \<Rightarrow> u32 \<Rightarrow> int \<Rightarrow> 'a conc \<Rightarrow> 'a conc" where
  "step_enq_wait l objs ph n ret s =
     (if prod_tail (r_prod (c_ring s)) \<noteq> ph then s
      else goto l (Ret ret []) ((upd_ring (set_prod_tail (ph + n)) s)\<lparr>
             c_log := c_log s @ [Enqueued l (take (unat n) objs)],
             c_ghost := (c_ghost s)\<lparr>g_prod_tail := g_prod_tail (c_ghost s) + unat n\<rparr>\<rparr>))"

definition step_deq_read :: "u32 \<Rightarrow> u32 \<Rightarrow> rte_ring_queue_behavior \<Rightarrow> 'a conc \<Rightarrow> 'a conc" where
  "step_deq_read l n b s = goto l (Deq_check n b (cons_head (r_cons (c_ring s))))
     (s\<lparr>c_seen := (c_seen s)(l := g_cons_head (c_ghost s))\<rparr>)"

definition step_deq_check :: "u32 \<Rightarrow> u32 \<Rightarrow> rte_ring_queue_behavior \<Rightarrow> u32 \<Rightarrow> 'a conc \<Rightarrow> 'a conc" where
  "step_deq_check l m b ch s =
     (case deq_avail ch (prod_tail (r_prod (c_ring s))) m b of
        Inl ret \<Rightarrow> goto l (Ret ret []) (upd_ring (RING_STAT_ADD l deq_fail m) s)
      | Inr n \<Rightarrow> goto l (Deq_cas m b ch n) s)"

definition step_deq_cas :: "u32 \<Rightarrow> u32 \<Rightarrow> rte_ring_queue_behavior \<Rightarrow> u32 \<Rightarrow> u32 \<Rightarrow> 'a conc \<Rightarrow> 'a conc" where
  "step_deq_cas l m b ch n s =
     (case cmpset_cons_head ch (ch + n) (c_ring s) of
        (success, r) \<Rightarrow>
          if success
          then goto l (Deq_copy b ch n []) (s\<lparr>c_ring := r,
                 c_log := c_log s @ [Dequeued l (take (unat n) (conc_items (c_ring s)))],
                 c_ghost := (c_ghost s)\<lparr>g_cons_head := g_cons_head (c_ghost s) + unat n\<rparr>\<rparr>)
          else goto l (Deq_read m b) s)"

definition step_deq_copy :: "u32 \<Rightarrow> rte_ring_queue_behavior \<Rightarrow> u32 \<Rightarrow> u32 \<Rightarrow> 'a list \<Rightarrow> 'a conc \<Rightarrow> 'a conc" where
  "step_deq_copy l b ch n got s =
     (let r = c_ring s in
      if length got < unat n
      then goto l (Deq_copy b ch n (got @ [r_ring r ((ch + of_nat (length got)) AND prod_mask (r_prod r))])) s
      else goto l (Deq_wait b ch n got) s)"

definition step_deq_wait :: "u32 \<Rightarrow> rte_ring_queue_behavior \<Rightarrow> u32 \<Rightarrow> u32 \<Rightarrow> 'a list \<Rightarrow> 'a conc \<Rightarrow> 'a conc" where
  "step_deq_wait l b ch n got s =
     (if cons_tail (r_cons (c_ring s)) \<noteq> ch then s
      else goto l (Ret (deq_ret n b) got) ((upd_ring (\<lambda>r. set_cons_tail (ch + n) (RING_STAT_ADD l deq_success n r)) s)\<lparr>
             c_ghost := (c_ghost s)\<lparr>g_cons_tail := g_cons_tail (c_ghost s) + unat n\<rparr>\<rparr>))"

definition step :: "u32 \<Rightarrow> 'a conc \<Rightarrow> 'a conc" where
  "step l s = (case c_pc s l of
     Ret ret got \<Rightarrow> s
   | Enq_read objs b \<Rightarrow> step_enq_read l objs b s
   | Enq_check objs b ph \<Rightarrow> step_enq_check l objs b ph s
   | Enq_cas objs b ph n free_entries \<Rightarrow> step_enq_cas l objs b ph n free_entries s
   | Enq_copy objs b ph n free_entries i \<Rightarrow> step_enq_copy l objs b ph n free_entries i s
   | Enq_wait objs ph n ret \<Rightarrow> step_enq_wait l objs ph n ret s
   | Deq_read n b \<Rightarrow> step_deq_read l n b s
   | Deq_check n b ch \<Rightarrow> step_deq_check l n b ch s
   | Deq_cas m b ch n \<Rightarrow> step_deq_cas l m b ch n s
   | Deq_copy b ch n got \<Rightarrow> step_deq_copy l b ch n got s
   | Deq_wait b ch n got \<Rightarrow> step_deq_wait l b ch n got s)"

text \<open>What can happen next: an lcore calls one of the two functions, or makes a step of its call.\<close>

datatype 'a action = Call_enqueue u32 "'a list" rte_ring_queue_behavior | Call_dequeue u32 u32 rte_ring_queue_behavior | Step u32

fun exec :: "'a action \<Rightarrow> 'a conc \<Rightarrow> 'a conc" where
  "exec (Call_enqueue l objs b) s = goto l (Enq_read objs b) s"
| "exec (Call_dequeue l n b) s = goto l (Deq_read n b) s"
| "exec (Step l) s = step l s"

definition returned :: "'a pc \<Rightarrow> bool" where
  "returned p = (case p of Ret _ _ \<Rightarrow> True | _ \<Rightarrow> False)"

text \<open>A call is made by an lcore that is not in another call, for at least one object.\<close>

fun allowed :: "'a conc \<Rightarrow> 'a action \<Rightarrow> bool" where
  "allowed s (Call_enqueue l objs b) \<longleftrightarrow> returned (c_pc s l) \<and> objs \<noteq> [] \<and> length objs < 2 ^ 32"
| "allowed s (Call_dequeue l n b) \<longleftrightarrow> returned (c_pc s l) \<and> n \<noteq> 0"
| "allowed s (Step l) \<longleftrightarrow> True"

text \<open>
  Between the read of a head and the compare-and-set fewer than \<open>2 ^ 32\<close> objects pass through the ring: the
  32-bit index does not come back to the value that was read.
\<close>

fun timely_pc :: "'a ghost \<Rightarrow> nat \<Rightarrow> 'a pc \<Rightarrow> bool" where
  "timely_pc g seen (Enq_check _ _ _) \<longleftrightarrow> g_prod_head g < seen + 2 ^ 32"
| "timely_pc g seen (Enq_cas _ _ _ _ _) \<longleftrightarrow> g_prod_head g < seen + 2 ^ 32"
| "timely_pc g seen (Deq_check _ _ _) \<longleftrightarrow> g_cons_head g < seen + 2 ^ 32"
| "timely_pc g seen (Deq_cas _ _ _ _) \<longleftrightarrow> g_cons_head g < seen + 2 ^ 32"
| "timely_pc g seen _ \<longleftrightarrow> True"

definition timely :: "'a conc \<Rightarrow> bool" where
  "timely s \<longleftrightarrow> (\<forall>l. timely_pc (c_ghost s) (c_seen s l) (c_pc s l))"

text \<open>The start: a ring at rest, its contents at the positions that the indices name.\<close>

definition start :: "'a rte_ring \<Rightarrow> 'a conc" where
  "start r = (let c = unat (cons_tail (r_cons r)); p = c + ring_used r in
     \<lparr>c_ring = r, c_pc = (\<lambda>_. Ret 0 []), c_log = [],
      c_ghost = \<lparr>g_prod_head = p, g_prod_tail = p, g_cons_head = c, g_cons_tail = c,
        g_obj = (\<lambda>i. r_ring r (of_nat i AND prod_mask (r_prod r)))\<rparr>,
      c_seen = (\<lambda>_. 0)\<rparr>)"

inductive reachable :: "'a rte_ring \<Rightarrow> 'a conc \<Rightarrow> bool" for r where
  reach_start: "reachable r (start r)"
| reach_step: "reachable r s \<Longrightarrow> allowed s a \<Longrightarrow> timely (exec a s) \<Longrightarrow> reachable r (exec a s)"

section \<open>Tilings\<close>

text \<open>
  The claims of the lcores on one side of the ring, as intervals that are disjoint and
  cover the positions between tail and head.
\<close>

definition tiles :: "nat \<Rightarrow> nat \<Rightarrow> ('l \<Rightarrow> (nat \<times> nat) option) \<Rightarrow> bool" where
  "tiles lo hi claim \<longleftrightarrow>
     (\<forall>l s n. claim l = Some (s, n) \<longrightarrow> lo \<le> s \<and> s + n \<le> hi \<and> 0 < n) \<and>
     (\<forall>l l' s n s' n'. claim l = Some (s, n) \<longrightarrow> claim l' = Some (s', n') \<longrightarrow> l \<noteq> l' \<longrightarrow> s + n \<le> s' \<or> s' + n' \<le> s) \<and>
     (\<forall>i. lo \<le> i \<longrightarrow> i < hi \<longrightarrow> (\<exists>l s n. claim l = Some (s, n) \<and> s \<le> i \<and> i < s + n))"

lemma tilesD:
  assumes "tiles lo hi claim" and "claim l = Some (s, n)"
  shows "lo \<le> s" "s + n \<le> hi" "0 < n"
  using assms by (auto simp: tiles_def)

lemma tiles_disjoint:
  "tiles lo hi claim \<Longrightarrow> claim l = Some (s, n) \<Longrightarrow> claim l' = Some (s', n') \<Longrightarrow> l \<noteq> l' \<Longrightarrow> s + n \<le> s' \<or> s' + n' \<le> s"
  by (auto simp: tiles_def)

lemma tiles_empty: "tiles lo lo (\<lambda>_. None)"
  by (simp add: tiles_def)

lemma tiles_first:
  assumes "tiles lo hi claim" and "lo < hi"
  shows "\<exists>l n. claim l = Some (lo, n)"
proof -
  obtain l s n where "claim l = Some (s, n)" "s \<le> lo" "lo < s + n"
    using assms unfolding tiles_def by blast
  moreover have "lo \<le> s" using tilesD(1) [OF assms(1) \<open>claim l = _\<close>] .
  ultimately show ?thesis by auto
qed

lemma tiles_claim:
  assumes t: "tiles lo hi claim" and "claim l = None" and "0 < n" and "lo \<le> hi"
  shows "tiles lo (hi + n) (claim(l := Some (hi, n)))"
proof -
  have "\<exists>k s m. (claim(l := Some (hi, n))) k = Some (s, m) \<and> s \<le> i \<and> i < s + m" if i: "lo \<le> i" "i < hi + n" for i
  proof (cases "i < hi")
    case True
    then obtain k s m where "claim k = Some (s, m)" "s \<le> i" "i < s + m" using t i unfolding tiles_def by blast
    then show ?thesis using assms(2) by (intro exI [of _ k]) auto
  next
    case False
    then show ?thesis using i by (intro exI [of _ l]) auto
  qed
  moreover have "(claim(l := Some (hi, n))) k = Some (s, m) \<Longrightarrow> lo \<le> s \<and> s + m \<le> hi + n \<and> 0 < m" for k s m
    using tilesD [OF t, of k s m] assms(3,4) by (auto split: if_splits)
  moreover have "s + m \<le> s' \<or> s' + m' \<le> s" if "(claim(l := Some (hi, n))) k = Some (s, m)"
      "(claim(l := Some (hi, n))) k' = Some (s', m')" "k \<noteq> k'" for k k' s m s' m'
    using that tilesD(2) [OF t, of k s m] tilesD(2) [OF t, of k' s' m'] tiles_disjoint [OF t, of k s m k' s' m']
    by (auto split: if_splits)
  ultimately show ?thesis unfolding tiles_def by blast
qed

lemma tiles_finish:
  assumes t: "tiles lo hi claim" and l: "claim l = Some (lo, n)"
  shows "tiles (lo + n) hi (claim(l := None))"
proof -
  have "lo + n \<le> s \<and> s + m \<le> hi \<and> 0 < m" if "(claim(l := None)) k = Some (s, m)" for k s m
    using that tilesD [OF t, of k s m] tiles_disjoint [OF t l, of k s m] by (auto split: if_splits)
  moreover have "\<exists>k s m. (claim(l := None)) k = Some (s, m) \<and> s \<le> i \<and> i < s + m" if i: "lo + n \<le> i" "i < hi" for i
  proof -
    obtain k s m where k: "claim k = Some (s, m)" "s \<le> i" "i < s + m"
      using t i unfolding tiles_def by (meson add_leD1)
    then have "k \<noteq> l" using l i by auto
    with k show ?thesis by (intro exI [of _ k]) auto
  qed
  moreover have "s + m \<le> s' \<or> s' + m' \<le> s" if "(claim(l := None)) k = Some (s, m)"
      "(claim(l := None)) k' = Some (s', m')" "k \<noteq> k'" for k k' s m s' m'
    using that tiles_disjoint [OF t, of k s m k' s' m'] by (auto split: if_splits)
  ultimately show ?thesis unfolding tiles_def by blast
qed

end
