(* ===== verification/Ring_Queue.thy ===== *)
theory Ring_Queue
  imports Ring_Spec
begin

text \<open>
  The ring implements the bulk queue interface, in each of its variants, and the properties of
  the ring: first-in first-out behaviour over any sequence of operations, the exact results of
  enqueue and dequeue, the occupancy queries, initialisation and the water mark.
\<close>

section \<open>Bulk operations keep the invariant and move the right objects\<close>

lemma sp_enqueue_moves:
  assumes ok: "ring_ok r" and run: "rte_ring_sp_do_enqueue lcore r tbl n behavior = (ret, r')"
  shows "ring_ok r'" "ring_cap r' = ring_cap r"
    "ring_items r' = ring_items r @ table_list tbl
       (if enq_fails r (unat n) behavior then 0
        else moved (ring_cap r - ring_used r) (unat n) behavior)"
    "ret = enq_result (ring_cap r) (ring_used r) (unat (prod_watermark (r_prod r))) (unat n) behavior"
proof -
  let ?m = "moved (ring_cap r - ring_used r) (unat n) behavior"
  have um: "unat (of_nat ?m :: u32) = ?m" "?m \<le> ring_cap r - ring_used r"
    using moved_le(1) [of "ring_cap r - ring_used r" "unat n" behavior] ring_okD(12) [OF ok]
    by (simp_all add: unat_of_nat)
  have p: "ring_ok (produce (of_nat ?m) tbl r)" "ring_cap (produce (of_nat ?m) tbl r) = ring_cap r"
    "ring_items (produce (of_nat ?m) tbl r) = ring_items r @ table_list tbl ?m"
    using produce_ok [OF ok, of "of_nat ?m" tbl] um by simp_all
  show "ring_ok r'" "ring_cap r' = ring_cap r"
    using run ok p by (auto simp: sp_do_enqueue_eq [OF ok] Let_def split: if_splits)
  show "ring_items r' = ring_items r @ table_list tbl
       (if enq_fails r (unat n) behavior then 0 else ?m)"
    using run p by (auto simp: sp_do_enqueue_eq [OF ok] Let_def table_list_def split: if_splits)
  show "ret = enq_result (ring_cap r) (ring_used r) (unat (prod_watermark (r_prod r))) (unat n) behavior"
    using run by (auto simp: sp_do_enqueue_eq [OF ok] Let_def)
qed

lemma sc_dequeue_moves:
  assumes ok: "ring_ok r" and run: "rte_ring_sc_do_dequeue lcore r tbl n behavior = (ret, tbl', r')"
  defines "m \<equiv> (if deq_fails r (unat n) behavior then 0 else moved (ring_used r) (unat n) behavior)"
  shows "ring_ok r'" "ring_cap r' = ring_cap r"
    "ring_items r' = drop m (ring_items r)" "table_list tbl' m = take m (ring_items r)"
    "deq_fails r (unat n) behavior \<Longrightarrow> tbl' = tbl"
    "ret = deq_result (ring_used r) (unat n) behavior"
proof -
  let ?m = "moved (ring_used r) (unat n) behavior"
  have um: "unat (of_nat ?m :: u32) = ?m" "?m \<le> ring_used r"
    using moved_le(1) [of "ring_used r" "unat n" behavior] ring_okD(8,12) [OF ok]
    by (simp_all add: unat_of_nat)
  note c = consume_ok [OF ok, of "of_nat ?m", unfolded um, OF um(2)]
    and t = dequeued_table [OF ok, of "of_nat ?m", unfolded um, OF um(2)]
  show "ring_ok r'" "ring_cap r' = ring_cap r"
    using run ok c by (auto simp: sc_do_dequeue_eq [OF ok] Let_def split: if_splits)
  show "ring_items r' = drop m (ring_items r)"
    using run c by (auto simp: sc_do_dequeue_eq [OF ok] Let_def m_def split: if_splits)
  show "table_list tbl' m = take m (ring_items r)"
    using run t by (auto simp: sc_do_dequeue_eq [OF ok] Let_def m_def table_list_def split: if_splits)
  show "deq_fails r (unat n) behavior \<Longrightarrow> tbl' = tbl"
    using run by (auto simp: sc_do_dequeue_eq [OF ok] Let_def)
  show "ret = deq_result (ring_used r) (unat n) behavior"
    using run by (auto simp: sc_do_dequeue_eq [OF ok] Let_def)
qed

lemma sc_dequeue_frame:
  assumes ok: "ring_ok r" and run: "rte_ring_sc_do_dequeue lcore r tbl n behavior = (ret, tbl', r')"
    and i: "of_nat (moved (ring_used r) (unat n) behavior) \<le> i"
  shows "tbl' i = tbl i"
proof -
  have "(of_nat (moved (ring_used r) (unat n) behavior) :: u32) \<le> prod_size (r_prod r) - 1"
    using moved_le(1) [of "ring_used r" "unat n" behavior] ring_okD(8,10,12) [OF ok]
    by (simp add: word_le_nat_alt unat_of_nat)
  then show ?thesis
    using ok run i ring_okD(1,3) [OF ok]
    by (auto simp: sc_do_dequeue_eq Let_def DEQUEUE_PTRS_eq split: if_splits)
qed

section \<open>The ring is a bulk queue\<close>

lemma sp_bulk_fits:
  assumes ok: "ring_ok r" and n: "ring_used r + unat n \<le> ring_cap r"
  shows "\<exists>ret r'. rte_ring_sp_enqueue_bulk lcore r tbl n = (ret, r') \<and> ret \<in> {0, - EDQUOT} \<and>
    ring_ok r' \<and> ring_cap r' = ring_cap r \<and> ring_items r' = ring_items r @ table_list tbl (unat n)"
proof -
  obtain ret r' where run: "rte_ring_sp_do_enqueue lcore r tbl n RTE_RING_QUEUE_FIXED = (ret, r')"
    by force
  from sp_enqueue_moves [OF ok run] n show ?thesis
    by (auto simp: rte_ring_sp_enqueue_bulk_def run enq_fails_def moved_def enq_result_def Let_def)
qed

lemma sp_bulk_full:
  assumes ok: "ring_ok r" and n: "ring_used r + unat n > ring_cap r"
  shows "\<exists>r'. rte_ring_sp_enqueue_bulk lcore r tbl n = (- ENOBUFS, r') \<and>
    ring_ok r' \<and> ring_cap r' = ring_cap r \<and> ring_items r' = ring_items r"
proof -
  obtain ret r' where run: "rte_ring_sp_do_enqueue lcore r tbl n RTE_RING_QUEUE_FIXED = (ret, r')"
    by force
  from sp_enqueue_moves [OF ok run] n ring_okD(8) [OF ok] show ?thesis
    by (auto simp: rte_ring_sp_enqueue_bulk_def run enq_fails_def enq_result_def table_list_def)
qed

lemma sc_bulk_fits:
  assumes ok: "ring_ok r" and n: "unat n \<le> ring_used r"
  shows "\<exists>tbl' r'. rte_ring_sc_dequeue_bulk lcore r tbl n = (0, tbl', r') \<and>
    ring_ok r' \<and> ring_cap r' = ring_cap r \<and>
    table_list tbl' (unat n) = take (unat n) (ring_items r) \<and> (\<forall>i. n \<le> i \<longrightarrow> tbl' i = tbl i) \<and>
    ring_items r' = drop (unat n) (ring_items r)"
proof -
  obtain ret tbl' r' where run:
    "rte_ring_sc_do_dequeue lcore r tbl n RTE_RING_QUEUE_FIXED = (ret, tbl', r')"
    using prod_cases3 by blast
  from sc_dequeue_moves [OF ok run] sc_dequeue_frame [OF ok run] n show ?thesis
    by (auto simp: rte_ring_sc_dequeue_bulk_def run deq_fails_def moved_def deq_result_def)
qed

lemma sc_bulk_short:
  assumes ok: "ring_ok r" and n: "unat n > ring_used r"
  shows "\<exists>r'. rte_ring_sc_dequeue_bulk lcore r tbl n = (- ENOENT, tbl, r') \<and>
    ring_ok r' \<and> ring_cap r' = ring_cap r \<and> ring_items r' = ring_items r"
proof -
  obtain ret tbl' r' where run:
    "rte_ring_sc_do_dequeue lcore r tbl n RTE_RING_QUEUE_FIXED = (ret, tbl', r')"
    using prod_cases3 by blast
  from sc_dequeue_moves [OF ok run] n show ?thesis
    by (auto simp: rte_ring_sc_dequeue_bulk_def run deq_fails_def deq_result_def)
qed

interpretation sring: bulk_queue ring_ok ring_items ring_cap
  "\<lambda>r tbl n. Some (rte_ring_sp_enqueue_bulk lcore r tbl n)"
  "\<lambda>r tbl n. Some (rte_ring_sc_dequeue_bulk lcore r tbl n)" for lcore
proof (unfold_locales, goal_cases)
  case (1 q) then show ?case by (simp add: ring_okD(8))
next
  case (2 q n tbl) then show ?case using sp_bulk_fits [of q n lcore tbl] by simp
next
  case (3 q n tbl) then show ?case using sp_bulk_full [of q n lcore tbl] by simp
next
  case (4 q n tbl) then show ?case using sc_bulk_fits [of q n lcore tbl] by simp
next
  case (5 q n tbl) then show ?case using sc_bulk_short [of q n lcore tbl] by simp
qed

lemma bulk_variants_eq:
  assumes "ring_ok r"
  shows "rte_ring_mp_enqueue_bulk lcore r tbl n = Some (rte_ring_sp_enqueue_bulk lcore r tbl n)"
    "rte_ring_mc_dequeue_bulk lcore r tbl n = Some (rte_ring_sc_dequeue_bulk lcore r tbl n)"
    "rte_ring_enqueue_bulk lcore r tbl n = Some (rte_ring_sp_enqueue_bulk lcore r tbl n)"
    "rte_ring_dequeue_bulk lcore r tbl n = Some (rte_ring_sc_dequeue_bulk lcore r tbl n)"
  using ring_okD(6,7) [OF assms]
  by (simp_all add: rte_ring_enqueue_bulk_def rte_ring_mp_enqueue_bulk_def rte_ring_dequeue_bulk_def
      rte_ring_mc_dequeue_bulk_def rte_ring_sp_enqueue_bulk_def rte_ring_sc_dequeue_bulk_def
      mp_do_enqueue_eq_sp mc_do_dequeue_eq_sc)

interpretation mring: bulk_queue ring_ok ring_items ring_cap
  "rte_ring_mp_enqueue_bulk lcore" "rte_ring_mc_dequeue_bulk lcore" for lcore
  by (rule bulk_queue_cong [OF sring.bulk_queue_axioms [of lcore]]) (simp_all add: bulk_variants_eq)

interpretation dring: bulk_queue ring_ok ring_items ring_cap
  "rte_ring_enqueue_bulk lcore" "rte_ring_dequeue_bulk lcore" for lcore
  by (rule bulk_queue_cong [OF sring.bulk_queue_axioms [of lcore]]) (simp_all add: bulk_variants_eq)

section \<open>Sizes and initialisation\<close>

lemma POWEROF2_pow2: "b < 32 \<Longrightarrow> POWEROF2 (2 ^ b)"
  unfolding POWEROF2_def
  by (simp add: and_exp_eq_0_iff_not_bit flip: mask_eq_decr_exp) (simp add: bit_mask_iff)

lemma POWEROF2_iff: "POWEROF2 x \<longleftrightarrow> x = 0 \<or> pow2_size x"
proof
  assume p: "POWEROF2 x"
  show "x = 0 \<or> pow2_size x"
  proof (rule ccontr)
    assume "\<not> (x = 0 \<or> pow2_size x)"
    then have x: "x \<noteq> 0" "\<not> pow2_size x" by auto
    then have pos: "0 < unat x" by (simp add: unat_gt_0)
    then obtain b where le: "2 ^ b \<le> unat x" "unat x < 2 * 2 ^ b"
      using ex_power_ivl1 [of 2 "unat x"] by auto
    have b: "b < 32"
    proof (rule ccontr)
      assume "\<not> b < 32"
      then have "(2::nat) ^ 32 \<le> 2 ^ b" by (intro power_increasing) simp_all
      with le(1) unat_less_2p32 [of x] show False by (simp del: unat_less_2p32)
    qed
    have "unat x \<noteq> 2 ^ b"
    proof
      assume "unat x = 2 ^ b"
      then have "x = 2 ^ b" by (metis of_nat_unat ucast_id of_nat_power of_nat_numeral)
      with b x(2) show False by (auto simp: pow2_size_def)
    qed
    with le have lt: "2 ^ b \<le> unat (x - 1)" "unat (x - 1) < 2 * 2 ^ b"
      using x(1) by (simp_all add: unat_minus_one)
    have bitI: "bit y b" if "2 ^ b \<le> unat y" "unat y < 2 * 2 ^ b" for y :: u32
    proof -
      have "unat y div 2 ^ b = 1" using that by (simp add: div_nat_eqI)
      then show ?thesis using bit_unsigned_iff [of y b, where ?'a = nat] b by (simp add: bit_iff_odd)
    qed
    have "bit ((x - 1) AND x) b" using bitI [OF lt] bitI [OF le] by (simp add: bit_and_iff)
    with p show False by (simp add: POWEROF2_def)
  qed
next
  assume "x = 0 \<or> pow2_size x"
  then show "POWEROF2 x" by (auto simp: pow2_size_def POWEROF2_pow2) (simp add: POWEROF2_def)
qed

lemma pow2_size_code: "pow2_size x \<longleftrightarrow> x \<noteq> 0 \<and> POWEROF2 x"
  by (auto simp: POWEROF2_iff dest: unat_pow2_pos)


lemma pow2_size_numerals [simp]: "pow2_size 1" "pow2_size 2" "pow2_size 4" "pow2_size 8"
  by (simp_all add: pow2_size_code POWEROF2_def)

lemma ring_count_used:
  assumes "ring_ok r"
  shows "unat (rte_ring_count r) = ring_used r"
proof -
  note ok = ring_okD [OF assms]
  show ?thesis
    using ok(8,11) by (simp add: rte_ring_count_def ok(3) unat_and_pow2 [OF ok(1)] ring_used_def)
qed

lemma ring_init_ok:
  assumes "0 \<le> rte_ring_get_memsize count" and "count \<noteq> 0"
  shows "(\<exists>b<28. unat count = 2 ^ b) \<and>
    (case rte_ring_init mem name count flags of
       (ret, r) \<Rightarrow> ret = 0 \<and> ring_ok r \<and> ring_items r = [] \<and> ring_cap r = unat count - 1 \<and>
         prod_watermark (r_prod r) = count)"
proof -
  have c: "POWEROF2 count" "count \<le> RTE_RING_SZ_MASK"
    using assms(1) by (auto simp: rte_ring_get_memsize_def errno_defs split: if_splits)
  with assms(2) have p: "pow2_size count" by (simp add: POWEROF2_iff)
  then obtain b where b: "b < 32" "unat count = 2 ^ b" by (rule pow2_sizeE)
  have "(2::nat) ^ b < 2 ^ 28" using c(2) b(2) by (simp add: word_le_nat_alt RTE_RING_SZ_MASK_def)
  then have "b < 28" by (simp add: power_strict_increasing_iff del: power_numeral)
  with b c p show ?thesis
    by (auto simp: rte_ring_init_def ring_ok_def ring_items_def ring_used_def ring_cap_def)
qed

section \<open>Properties\<close>

text \<open>C1: Over any sequence of bulk enqueues and dequeues on a quiescent ring the calls return (no
  loop spins) and the ring is first-in first-out: what it held, followed by what the enqueues
  accepted, is what came out, followed by what it still holds. Nothing is lost, duplicated or
  reordered, also when the 32-bit indices wrap.\<close>
theorem ring_fifo:
  assumes "ring_ok r" and "list_all qop_fits ops"
  shows "\<exists>ins outs r'. queue_run (rte_ring_enqueue_bulk lcore) (rte_ring_dequeue_bulk lcore) tbl r ops
      = Some (ins, outs, r') \<and> ring_ok r' \<and> ring_items r @ ins = outs @ ring_items r'"
  using dring.run_fifo [OF assms, of lcore tbl] by blast

definition sample_ring :: "nat rte_ring" where
  "sample_ring = \<lparr>r_name = ''r'', r_flags = 0,
     r_prod = \<lparr>prod_watermark = 4, prod_sp_enqueue = 0, prod_size = 4, prod_mask = 3,
               prod_head = 0, prod_tail = 0\<rparr>,
     r_cons = \<lparr>cons_sc_dequeue = 0, cons_size = 4, cons_mask = 3,
               cons_head = 0xFFFFFFFE, cons_tail = 0xFFFFFFFE\<rparr>,
     r_stats = (\<lambda>_. zero_stats), r_ring = (\<lambda>i. 10 * unat i)\<rparr>"

lemma sample_ring_ok: "ring_ok sample_ring" "ring_items sample_ring = [20, 30]"
  "ring_cap sample_ring = 3" "ring_used sample_ring = 2"
  by (simp_all add: ring_ok_def ring_items_def ring_cap_def ring_used_def sample_ring_def
      RTE_RING_SZ_MASK_def upt_rec)

theorem ring_fifo_witness:
  "\<exists>ins outs r'. queue_run (rte_ring_enqueue_bulk 0) (rte_ring_dequeue_bulk 0) (\<lambda>_. 0) sample_ring
      [Enq [7], Deq 2, Enq [8, 9]] = Some (ins, outs, r') \<and> ring_ok r' \<and>
      ring_items sample_ring @ ins = outs @ ring_items r'"
  by (rule ring_fifo) (simp_all add: sample_ring_ok)

lemma moved_none: "moved 0 n behavior = 0"
  by (simp add: moved_def)

lemma ring_cap_small: "ring_ok r \<Longrightarrow> ring_cap r < 2 ^ 28"
  using ring_okD(8,10) [of r] by (auto simp: ring_ok_def ring_cap_def word_le_nat_alt word_less_nat_alt RTE_RING_SZ_MASK_def)

lemma quota_bits:
  assumes "m < 2 ^ 28"
  shows "unat ((word_of_int (int m) :: u32) AND RTE_RING_SZ_MASK) = m"
    "unat ((word_of_int (int m - 2 ^ 31) :: u32) AND RTE_RING_SZ_MASK) = m"
proof -
  have k: "RTE_RING_SZ_MASK = mask 28" by (simp add: RTE_RING_SZ_MASK_def mask_eq_exp_minus_1)
  have b: "unat ((word_of_int x :: u32) AND RTE_RING_SZ_MASK) = nat (take_bit 28 x)" for x
  proof -
    have "uint (take_bit 28 (word_of_int x :: u32)) = take_bit 28 (take_bit 32 x)"
      by (simp only: unsigned_take_bit_eq uint_word_of_int_eq) simp
    then show ?thesis unfolding k take_bit_eq_mask [symmetric] by (simp add: unat_eq_nat_uint)
  qed
  have "(int m - 2 ^ 31) mod 2 ^ 28 = int m mod 2 ^ 28" using mod_mult_self1 [of "int m" "-8" "2 ^ 28"] by simp
  with assms show "unat ((word_of_int (int m - 2 ^ 31) :: u32) AND RTE_RING_SZ_MASK) = m" "unat ((word_of_int (int m) :: u32) AND RTE_RING_SZ_MASK) = m"
    unfolding b take_bit_eq_mod by simp_all
qed

text \<open>C2: The single-producer enqueue of \<open>n\<close> objects on a quiescent ring: with \<open>free\<close> unused slots it appends the first
  \<open>n\<close> objects of the table if they fit, otherwise none (fixed) or the first \<open>free\<close> ones (variable); it keeps the invariant and
  never writes a cell outside the ring. The value returned: in fixed mode \<open>-ENOBUFS\<close> when the objects do not fit, otherwise
  \<open>-EDQUOT\<close> as soon as the ring then holds as many objects as the water mark says, and 0 below it; in variable mode the number of
  objects appended, less \<open>2 ^ 31\<close> (the bit \<open>RTE_RING_QUOT_EXCEED\<close>) as soon as the ring then holds as many objects as
  the water mark says, except on a full ring asked for more than nothing, where it is 0; its low bits, under
  \<open>RTE_RING_SZ_MASK\<close>, are always the number appended. The comments of \<open>rte_ring.h\<close> differ: they announce \<open>-EDQUOT\<close> for a mark that
  is exceeded, and in variable mode the plain number.\<close>
theorem ring_sp_enqueue_exact:
  assumes "ring_ok r" and "rte_ring_sp_do_enqueue lcore r tbl n behavior = (ret, r')"
    and "used = length (ring_items r)" and "free = ring_cap r - used" and "mark = unat (prod_watermark (r_prod r))"
    and "m = (if unat n \<le> free then unat n else if behavior = RTE_RING_QUEUE_FIXED then 0 else free)"
  shows "ring_ok r' \<and> ring_items r' = ring_items r @ table_list tbl m \<and>
    (\<forall>j. prod_size (r_prod r) \<le> j \<longrightarrow> r_ring r' j = r_ring r j) \<and>
    (behavior = RTE_RING_QUEUE_FIXED \<longrightarrow>
       ret = (if unat n > free then - ENOBUFS else if used + m \<ge> mark then - EDQUOT else 0)) \<and>
    (behavior = RTE_RING_QUEUE_VARIABLE \<longrightarrow>
       ret = (if unat n > free \<and> free = 0 then 0 else if used + m \<ge> mark then int m - 2 ^ 31 else int m) \<and>
       unat ((word_of_int ret :: u32) AND RTE_RING_SZ_MASK) = m)"
proof -
  have "enq_fails r (unat n) behavior \<Longrightarrow> moved (ring_cap r - ring_used r) (unat n) behavior = 0"
    by (auto simp: enq_fails_def moved_def)
  moreover have "r_ring r' j = r_ring r j" if "prod_size (r_prod r) \<le> j" for j
  proof -
    let ?m = "of_nat (moved (ring_cap r - ring_used r) (unat n) behavior) :: u32"
    have "?m \<le> prod_size (r_prod r) - 1"
      using moved_le(1) [of "ring_cap r - ring_used r" "unat n" behavior] ring_okD(10,12) [OF assms(1)]
      by (simp add: word_le_nat_alt unat_of_nat)
    then show ?thesis
      using assms that ring_okD(1,3) [OF assms(1)]
      by (auto simp: sp_do_enqueue_eq Let_def produce_def set_defs ENQUEUE_PTRS_eq split: if_splits)
  qed
  moreover have "m = moved (ring_cap r - ring_used r) (unat n) behavior" using assms(3-) by (simp add: moved_def)
  moreover have "m < 2 ^ 28" using assms(6) ring_cap_small [OF assms(1)] assms(4) by auto
  moreover have "ring_used r = used" "used \<le> ring_cap r" using assms(3) ring_okD(8) [OF assms(1)] by simp_all
  ultimately show ?thesis
    using sp_enqueue_moves [OF assms(1,2)] quota_bits [of m] assms(4,5) by (auto simp: enq_result_def moved_none Let_def)
qed

theorem ring_sp_enqueue_exact_witness:
  "ring_items (snd (rte_ring_sp_do_enqueue 0 sample_ring (\<lambda>i. unat i) 3 RTE_RING_QUEUE_VARIABLE))
     = [20, 30, 0]
   \<and> fst (rte_ring_sp_do_enqueue 0 sample_ring (\<lambda>i. unat i) 3 RTE_RING_QUEUE_VARIABLE) = 1"
  using ring_sp_enqueue_exact [OF sample_ring_ok(1) prod.collapse [symmetric] refl refl refl refl,
      of 0 "\<lambda>i. unat i" 3 RTE_RING_QUEUE_VARIABLE]
  by (simp add: sample_ring_ok table_list_def) (simp add: sample_ring_def)

text \<open>The single-consumer dequeue of \<open>n\<close> objects on a quiescent ring removes the oldest
  objects: \<open>n\<close> of them if the ring holds as many, otherwise none (fixed, \<open>-ENOENT\<close>) or all of
  them (variable); the table receives exactly the removed objects in order and keeps every other
  cell; the ring keeps its invariant.\<close>
theorem ring_sc_dequeue_exact:
  assumes "ring_ok r" and "rte_ring_sc_do_dequeue lcore r tbl n behavior = (ret, tbl', r')"
    and "m = moved (length (ring_items r)) (unat n) behavior"
  shows "ring_ok r' \<and> ring_items r' = drop m (ring_items r) \<and>
    table_list tbl' m = take m (ring_items r) \<and> (\<forall>i. of_nat m \<le> i \<longrightarrow> tbl' i = tbl i) \<and>
    ret = (if behavior = RTE_RING_QUEUE_FIXED then (if unat n > length (ring_items r) then - ENOENT else 0)
           else int m)"
proof -
  have f: "deq_fails r (unat n) behavior \<Longrightarrow> m = 0"
    using assms(3) by (auto simp: deq_fails_def moved_def)
  have "tbl' i = tbl i" if "of_nat m \<le> i" for i
    using sc_dequeue_frame [OF assms(1,2)] assms(3) that by simp
  moreover have "ret = (if behavior = RTE_RING_QUEUE_FIXED
      then (if unat n > length (ring_items r) then - ENOENT else 0) else int m)"
    using sc_dequeue_moves(6) [OF assms(1,2)] assms(3) by (auto simp: deq_result_def moved_def)
  ultimately show ?thesis
    using sc_dequeue_moves [OF assms(1,2)] f assms(3) by (auto split: if_splits)
qed

theorem ring_sc_dequeue_exact_witness:
  "ring_items (snd (snd (rte_ring_sc_do_dequeue 0 sample_ring (\<lambda>_. 0) 1 RTE_RING_QUEUE_FIXED))) = [30]
   \<and> table_list (fst (snd (rte_ring_sc_do_dequeue 0 sample_ring (\<lambda>_. 0) 1 RTE_RING_QUEUE_FIXED))) 1 = [20]"
proof -
  have "rte_ring_sc_do_dequeue 0 sample_ring (\<lambda>_. 0) 1 RTE_RING_QUEUE_FIXED =
    (fst (rte_ring_sc_do_dequeue 0 sample_ring (\<lambda>_. 0) 1 RTE_RING_QUEUE_FIXED),
     fst (snd (rte_ring_sc_do_dequeue 0 sample_ring (\<lambda>_. 0) 1 RTE_RING_QUEUE_FIXED)),
     snd (snd (rte_ring_sc_do_dequeue 0 sample_ring (\<lambda>_. 0) 1 RTE_RING_QUEUE_FIXED)))" by simp
  from ring_sc_dequeue_exact [OF sample_ring_ok(1) this, of 1] show ?thesis
    by (simp add: sample_ring_ok moved_def)
qed

text \<open>C3: On a quiescent ring the compare-and-set loops and the waits of the multi-producer
  enqueue and the multi-consumer dequeue end, and both compute exactly what the single variants
  compute, for either behaviour.\<close>
theorem ring_multi_eq_single:
  assumes "ring_ok r"
  shows "rte_ring_mp_do_enqueue lcore r tbl n behavior
           = Some (rte_ring_sp_do_enqueue lcore r tbl n behavior) \<and>
         rte_ring_mc_do_dequeue lcore r tbl n behavior
           = Some (rte_ring_sc_do_dequeue lcore r tbl n behavior)"
  using ring_okD(6,7) [OF assms] by (simp add: mp_do_enqueue_eq_sp mc_do_dequeue_eq_sc)

theorem ring_multi_eq_single_witness:
  "rte_ring_mp_do_enqueue 3 sample_ring (\<lambda>_. 0) 9 RTE_RING_QUEUE_VARIABLE
     = Some (rte_ring_sp_do_enqueue 3 sample_ring (\<lambda>_. 0) 9 RTE_RING_QUEUE_VARIABLE)"
  using ring_multi_eq_single [OF sample_ring_ok(1)] by blast

text \<open>The occupancy queries agree with the contents: \<open>rte_ring_count\<close> is their number,
  \<open>rte_ring_free_count\<close> what is left of the size minus one, and the full and empty tests hold
  exactly when nothing more fits and when nothing is held.\<close>
theorem ring_occupancy:
  assumes "ring_ok r"
  shows "unat (rte_ring_count r) = length (ring_items r) \<and>
    unat (rte_ring_free_count r) = ring_cap r - length (ring_items r) \<and>
    (rte_ring_full r \<longleftrightarrow> length (ring_items r) = ring_cap r) \<and>
    (rte_ring_empty r \<longleftrightarrow> ring_items r = [])"
proof -
  note ok = ring_okD [OF assms]
  let ?sz = "prod_size (r_prod r)" and ?u = "prod_tail (r_prod r) - cons_tail (r_cons r)"
  note c = ring_count_used [OF assms]
  have "(cons_tail (r_cons r) - prod_tail (r_prod r) - 1) AND (?sz - 1)
      = ((?sz - 1) - ?u) AND (?sz - 1)"
  proof -
    have "?sz AND (?sz - 1) = 0" by (simp add: word_unat_eq_iff unat_and_pow2 [OF ok(1)])
    with masked_sub [OF ok(1), of ?sz "1 + ?u"] show ?thesis by (simp add: algebra_simps)
  qed
  moreover have "unat ((?sz - 1) - ?u) = ring_cap r - ring_used r"
    using ok(8,10) by (simp only: unat_sub_le word_le_nat_alt ring_used_def)
  ultimately have f: "unat (rte_ring_free_count r) = ring_cap r - ring_used r"
    using ok(11) by (simp add: rte_ring_free_count_def ok(3) unat_and_pow2 [OF ok(1)])
  have "rte_ring_full r \<longleftrightarrow> rte_ring_free_count r = 0"
    by (simp add: rte_ring_full_def rte_ring_free_count_def)
  then have "rte_ring_full r \<longleftrightarrow> ring_used r = ring_cap r"
    using f ok(8) by (auto simp: unat_eq_zero [symmetric] simp del: unat_eq_zero)
  moreover have "rte_ring_empty r \<longleftrightarrow> ring_items r = []"
    unfolding length_0_conv [symmetric] length_ring_items
    by (auto simp: rte_ring_empty_def ring_used_def unat_eq_zero)
  ultimately show ?thesis using c f by simp
qed

theorem ring_occupancy_witness:
  "unat (rte_ring_count sample_ring) = 2 \<and> unat (rte_ring_free_count sample_ring) = 1"
  using ring_occupancy [OF sample_ring_ok(1)] by (simp add: sample_ring_ok)

text \<open>C4: \<open>rte_ring_get_memsize\<close> refuses exactly the counts that are neither 0 nor a power of two
  or that exceed the size mask, and a ring initialised with an accepted non-zero count is a
  well-formed empty ring of capacity \<open>count - 1\<close> with its water mark disabled.\<close>
theorem ring_init_sound:
  assumes "0 \<le> rte_ring_get_memsize count" and "count \<noteq> 0"
  shows "(\<exists>b<28. unat count = 2 ^ b) \<and>
    (case rte_ring_init mem name count flags of
       (ret, r) \<Rightarrow> ret = 0 \<and> ring_ok r \<and> ring_items r = [] \<and> ring_cap r = unat count - 1 \<and>
         prod_watermark (r_prod r) = count)"
  by (rule ring_init_ok [OF assms])

theorem ring_init_sound_witness:
  "ring_ok (snd (rte_ring_init sample_ring ''x'' 8 3)) \<and> 0 \<le> rte_ring_get_memsize 8"
proof -
  have h: "0 \<le> rte_ring_get_memsize 8"
    by (simp add: rte_ring_get_memsize_def POWEROF2_def RTE_RING_SZ_MASK_def RTE_ALIGN_def
        sizeof_rte_ring_def RTE_CACHE_LINE_SIZE_def)
  from ring_init_sound [OF h] show ?thesis using h by (auto simp: case_prod_beta)
qed

text \<open>A count of zero passes the size check (zero is no power of two, but the test
  \<open>POWEROF2\<close> accepts it). The mask of that ring is \<open>2 ^ 32 - 1\<close>, so an enqueue of one object
  reports success and writes cell 0 of an object table that has no cells.\<close>
theorem ring_zero_count_unsafe:
  "0 \<le> rte_ring_get_memsize 0 \<and>
   (case rte_ring_init mem name 0 RING_F_SP_ENQ of
      (_, r) \<Rightarrow> prod_size (r_prod r) = 0 \<and> prod_mask (r_prod r) = 2 ^ 32 - 1 \<and>
        (case rte_ring_sp_do_enqueue lcore r (\<lambda>_. x) 1 RTE_RING_QUEUE_VARIABLE of
           (ret, r') \<Rightarrow> r_ring r' 0 = x \<and> prod_tail (r_prod r') = 1))"
proof -
  have "0 \<le> rte_ring_get_memsize 0"
    by (simp add: rte_ring_get_memsize_def POWEROF2_def RTE_RING_SZ_MASK_def RTE_ALIGN_def
        sizeof_rte_ring_def RTE_CACHE_LINE_SIZE_def)
  moreover have "(case rte_ring_init mem name 0 RING_F_SP_ENQ of
      (_, r) \<Rightarrow> prod_size (r_prod r) = 0 \<and> prod_mask (r_prod r) = 2 ^ 32 - 1 \<and>
        (case rte_ring_sp_do_enqueue lcore r (\<lambda>_. x) 1 RTE_RING_QUEUE_VARIABLE of
           (ret, r') \<Rightarrow> r_ring r' 0 = x \<and> prod_tail (r_prod r') = 1))"
    by (simp add: rte_ring_init_def rte_ring_sp_do_enqueue_def enq_room_def enq_ret_def
        ENQUEUE_PTRS_def set_defs copy_until.simps [of 0 0] copy_until.simps [of 1 0]
        copy_until.simps [of 1 1] Let_def)
  ultimately show ?thesis by simp
qed

text \<open>A water mark \<open>w\<close> that \<open>rte_ring_set_water_mark\<close> accepts makes a fixed enqueue that
  fits return \<open>-EDQUOT\<close> exactly when the ring holds at least \<open>w\<close> objects afterwards (reaching
  the mark counts as exceeding it), and 0 switches the mark off.\<close>
theorem ring_water_mark:
  assumes "ring_ok r" and "rte_ring_set_water_mark r w = (0, r1)"
    and "rte_ring_sp_enqueue_bulk lcore r1 tbl n = (ret, r2)" and "ret \<noteq> - ENOBUFS"
  shows "ring_ok r1 \<and> ring_items r1 = ring_items r \<and>
    (ret = - EDQUOT \<longleftrightarrow> w \<noteq> 0 \<and> unat w \<le> length (ring_items r2))"
proof -
  note ok = ring_okD [OF assms(1)]
  have w: "w < prod_size (r_prod r)" "r1 = r\<lparr>r_prod := (r_prod r)\<lparr>prod_watermark :=
                  (if w = 0 then prod_size (r_prod r) else w)\<rparr>\<rparr>"
    using assms(2) by (auto simp: rte_ring_set_water_mark_def errno_defs split: if_splits)
  then have ok1: "ring_ok r1" "ring_items r1 = ring_items r" "ring_used r1 = ring_used r"
      "ring_cap r1 = ring_cap r"
    using assms(1) by (auto simp: ring_ok_def ring_items_def ring_used_def ring_cap_def)
  have run: "rte_ring_sp_do_enqueue lcore r1 tbl n RTE_RING_QUEUE_FIXED = (ret, r2)"
    using assms(3) by (simp add: rte_ring_sp_enqueue_bulk_def)
  note mv = sp_enqueue_moves [OF ok1(1) run]
  have fit: "unat n \<le> ring_cap r - ring_used r"
    using mv(4) assms(4) ok1 by (auto simp: enq_result_def split: if_splits)
  have "unat (prod_watermark (r_prod r1)) = (if w = 0 then unat (prod_size (r_prod r)) else unat w)"
    using w by simp
  moreover have "ring_used r + unat n < unat (prod_size (r_prod r))" using fit ok(8,11) by simp
  moreover have "length (ring_items r2) = ring_used r + unat n"
    using mv(3) fit ok1 by (simp add: enq_fails_def moved_def)
  ultimately show ?thesis
    using mv(4) fit ok1 by (auto simp: enq_result_def moved_def Let_def errno_defs)
qed

theorem ring_water_mark_witness:
  "fst (rte_ring_sp_enqueue_bulk 0 (snd (rte_ring_set_water_mark sample_ring 3)) (\<lambda>_. 1) 1) = - EDQUOT
   \<and> 3 \<le> length (ring_items
        (snd (rte_ring_sp_enqueue_bulk 0 (snd (rte_ring_set_water_mark sample_ring 3)) (\<lambda>_. 1) 1)))"
proof -
  let ?r = "snd (rte_ring_set_water_mark sample_ring 3)"
  have s: "rte_ring_set_water_mark sample_ring 3 = (0, ?r)"
    by (simp add: rte_ring_set_water_mark_def sample_ring_def)
  have ok: "ring_ok ?r" "ring_used ?r = 2" "ring_cap ?r = 3" "prod_watermark (r_prod ?r) = 3"
    by (simp_all add: ring_ok_def ring_cap_def ring_used_def sample_ring_def
      RTE_RING_SZ_MASK_def rte_ring_set_water_mark_def)
  have ret: "fst (rte_ring_sp_enqueue_bulk 0 ?r (\<lambda>_. 1) 1) = - EDQUOT"
    using sp_enqueue_moves(4) [OF ok(1) prod.collapse [symmetric], of 0 "\<lambda>_. 1" 1 RTE_RING_QUEUE_FIXED] ok
    by (simp add: rte_ring_sp_enqueue_bulk_def enq_result_def moved_def)
  then show ?thesis
    using ring_water_mark [OF sample_ring_ok(1) s prod.collapse [symmetric], of 0 "\<lambda>_. 1" 1]
    by (simp add: errno_defs)
qed


end
