(* ===== verification/Ring_Concurrent_Spec.thy ===== *)
theory Ring_Concurrent_Spec
  imports Ring_Concurrent Ring_Queue
begin

text \<open>
  What holds in every interleaving: the claims of the producers tile the positions from \<open>prod.tail\<close> to
  \<open>prod.head\<close>, those of the consumers the positions from \<open>cons.tail\<close> to \<open>cons.head\<close>, and
  every cell in use holds the object of its position. From this follow that the ring is a queue with
  atomic transfers, that no two lcores touch the same cell at the same time, and that some lcore can always finish.
\<close>

section \<open>Positions and cells\<close>

definition cell :: "'a rte_ring \<Rightarrow> nat \<Rightarrow> 'a" where
  "cell r i = r_ring r (of_nat i AND prod_mask (r_prod r))"

definition shape :: "'a rte_ring \<Rightarrow> bool" where
  "shape r \<longleftrightarrow> pow2_size (prod_size (r_prod r)) \<and> prod_size (r_prod r) \<le> RTE_RING_SZ_MASK \<and>
     prod_mask (r_prod r) = prod_size (r_prod r) - 1"

lemma shapeD:
  assumes "shape r"
  shows "unat (prod_mask (r_prod r)) = ring_cap r" "ring_cap r < unat (prod_size (r_prod r))" "ring_cap r < 2 ^ 28"
proof -
  have *: "pow2_size (prod_size (r_prod r))" "prod_size (r_prod r) \<le> RTE_RING_SZ_MASK"
    "prod_mask (r_prod r) = prod_size (r_prod r) - 1" using assms by (simp_all add: shape_def)
  then show "unat (prod_mask (r_prod r)) = ring_cap r" "ring_cap r < unat (prod_size (r_prod r))"
    using unat_pow2_pos [OF *(1)] by (auto simp: ring_cap_def unat_pow2_size_pred)
  show "ring_cap r < 2 ^ 28" using *(2) by (auto simp: ring_cap_def word_le_nat_alt RTE_RING_SZ_MASK_def)
qed

lemma of_nat_window:
  assumes "(of_nat a :: u32) = of_nat b" and "a \<le> b" and "b < a + 2 ^ 32"
  shows "a = b"
proof -
  have "a mod 2 ^ 32 = b mod 2 ^ 32" using arg_cong [OF assms(1), of unat] by (simp add: unat_of_nat)
  then have "(a + 0) mod 2 ^ 32 = (a + (b - a)) mod 2 ^ 32" using assms(2) by simp
  then have "0 = b - a" by (rule mod_inj_on_window) (use assms in auto)
  with assms(2) show ?thesis by simp
qed

lemma unat_of_nat_diff:
  assumes "b \<le> a" and "a - b < 2 ^ 32"
  shows "unat (of_nat a - of_nat b :: u32) = a - b"
proof -
  have "(of_nat a :: u32) = of_nat b + of_nat (a - b)" using assms(1) by (simp flip: of_nat_add)
  then show ?thesis using assms(2) by (simp add: unat_of_nat_less)
qed

lemma cell_index_inj:
  assumes "shape r" and "c \<le> i" "i \<le> c + ring_cap r" "c \<le> j" "j \<le> c + ring_cap r"
    and "of_nat i AND prod_mask (r_prod r) = of_nat j AND prod_mask (r_prod r)"
  shows "i = j"
proof -
  let ?n = "unat (prod_size (r_prod r))"
  have p: "pow2_size (prod_size (r_prod r))" "prod_mask (r_prod r) = prod_size (r_prod r) - 1"
    using assms(1) by (simp_all add: shape_def)
  have u: "unat (of_nat k AND prod_mask (r_prod r)) = k mod ?n" for k
    unfolding p(2) unat_and_pow2 [OF p(1)] unat_of_nat using mod_mod_cancel [OF pow2_dvd [OF p(1)]] by simp
  have "i mod ?n = j mod ?n" using arg_cong [OF assms(6), of unat] unfolding u .
  then have "(c + (i - c)) mod ?n = (c + (j - c)) mod ?n" using assms(2,4) by simp
  then have "i - c = j - c"
    by (rule mod_inj_on_window) (use assms(2-5) shapeD(2) [OF assms(1)] in linarith)+
  with assms(2,4) show ?thesis by simp
qed

section \<open>The invariant\<close>

fun pclaim :: "nat \<Rightarrow> 'a pc \<Rightarrow> (nat \<times> nat) option" where
  "pclaim seen (Enq_copy _ _ _ n _ _) = Some (seen, unat n)"
| "pclaim seen (Enq_wait _ _ n _) = Some (seen, unat n)"
| "pclaim seen _ = None"

fun cclaim :: "nat \<Rightarrow> 'a pc \<Rightarrow> (nat \<times> nat) option" where
  "cclaim seen (Deq_copy _ _ n _) = Some (seen, unat n)"
| "cclaim seen (Deq_wait _ _ n _) = Some (seen, unat n)"
| "cclaim seen _ = None"

definition pclaims :: "'a conc \<Rightarrow> u32 \<Rightarrow> (nat \<times> nat) option" where
  "pclaims s l = pclaim (c_seen s l) (c_pc s l)"

definition cclaims :: "'a conc \<Rightarrow> u32 \<Rightarrow> (nat \<times> nat) option" where
  "cclaims s l = cclaim (c_seen s l) (c_pc s l)"

text \<open>The objects that an lcore took last.\<close>

definition last_out :: "u32 \<Rightarrow> 'a transfer list \<Rightarrow> 'a list" where
  "last_out l = foldl (\<lambda>out t. case t of Enqueued _ _ \<Rightarrow> out | Dequeued k xs \<Rightarrow> if k = l then xs else out) []"

lemma last_out_append [simp]:
  "last_out l (log @ [Enqueued k xs]) = last_out l log"
  "last_out l (log @ [Dequeued k xs]) = (if k = l then xs else last_out l log)"
  by (simp_all add: last_out_def)

definition objs_at :: "'a ghost \<Rightarrow> nat \<Rightarrow> nat \<Rightarrow> 'a list" where
  "objs_at g s n = map (g_obj g) [s..<s + n]"

text \<open>What holds of the local variables of a call.\<close>

fun pc_ok :: "'a rte_ring \<Rightarrow> 'a ghost \<Rightarrow> 'a list \<Rightarrow> nat \<Rightarrow> 'a pc \<Rightarrow> bool" where
  "pc_ok r g out seen (Ret _ _) \<longleftrightarrow> True"
| "pc_ok r g out seen (Enq_read objs b) \<longleftrightarrow> objs \<noteq> [] \<and> length objs < 2 ^ 32"
| "pc_ok r g out seen (Enq_check objs b ph) \<longleftrightarrow> objs \<noteq> [] \<and> length objs < 2 ^ 32 \<and> ph = of_nat seen \<and> seen \<le> g_prod_head g"
| "pc_ok r g out seen (Enq_cas objs b ph n _) \<longleftrightarrow> objs \<noteq> [] \<and> length objs < 2 ^ 32 \<and> ph = of_nat seen \<and> seen \<le> g_prod_head g \<and>
     n \<noteq> 0 \<and> unat n \<le> length objs \<and> (seen = g_prod_head g \<longrightarrow> seen + unat n \<le> g_cons_tail g + ring_cap r)"
| "pc_ok r g out seen (Enq_copy objs b ph n _ i) \<longleftrightarrow> ph = of_nat seen \<and> unat n \<le> length objs \<and> i \<le> unat n \<and>
     objs_at g seen (unat n) = take (unat n) objs \<and> (\<forall>j<i. cell r (seen + j) = objs ! j)"
| "pc_ok r g out seen (Enq_wait objs ph n ret) \<longleftrightarrow> ph = of_nat seen \<and> unat n \<le> length objs \<and>
     objs_at g seen (unat n) = take (unat n) objs \<and> (\<forall>j<unat n. cell r (seen + j) = objs ! j)"
| "pc_ok r g out seen (Deq_read n b) \<longleftrightarrow> n \<noteq> 0"
| "pc_ok r g out seen (Deq_check n b ch) \<longleftrightarrow> n \<noteq> 0 \<and> ch = of_nat seen \<and> seen \<le> g_cons_head g"
| "pc_ok r g out seen (Deq_cas m b ch n) \<longleftrightarrow> m \<noteq> 0 \<and> ch = of_nat seen \<and> seen \<le> g_cons_head g \<and> n \<noteq> 0 \<and>
     (seen = g_cons_head g \<longrightarrow> seen + unat n \<le> g_prod_tail g)"
| "pc_ok r g out seen (Deq_copy b ch n got) \<longleftrightarrow> ch = of_nat seen \<and> length got \<le> unat n \<and>
     out = objs_at g seen (unat n) \<and> got = take (length got) out"
| "pc_ok r g out seen (Deq_wait b ch n got) \<longleftrightarrow> ch = of_nat seen \<and> got = out \<and> out = objs_at g seen (unat n)"

definition geom :: "'a rte_ring \<Rightarrow> 'a ghost \<Rightarrow> bool" where
  "geom r g \<longleftrightarrow> shape r \<and>
     prod_head (r_prod r) = of_nat (g_prod_head g) \<and> prod_tail (r_prod r) = of_nat (g_prod_tail g) \<and>
     cons_head (r_cons r) = of_nat (g_cons_head g) \<and> cons_tail (r_cons r) = of_nat (g_cons_tail g) \<and>
     g_cons_tail g \<le> g_cons_head g \<and> g_cons_head g \<le> g_prod_tail g \<and> g_prod_tail g \<le> g_prod_head g \<and>
     g_prod_head g \<le> g_cons_tail g + ring_cap r"

definition live :: "'a rte_ring \<Rightarrow> 'a ghost \<Rightarrow> bool" where
  "live r g \<longleftrightarrow> (\<forall>i. g_cons_tail g \<le> i \<longrightarrow> i < g_prod_tail g \<longrightarrow> cell r i = g_obj g i)"

definition conc_inv :: "'a conc \<Rightarrow> bool" where
  "conc_inv s \<longleftrightarrow> geom (c_ring s) (c_ghost s) \<and> live (c_ring s) (c_ghost s) \<and>
     tiles (g_prod_tail (c_ghost s)) (g_prod_head (c_ghost s)) (pclaims s) \<and>
     tiles (g_cons_tail (c_ghost s)) (g_cons_head (c_ghost s)) (cclaims s) \<and>
     (\<forall>l. pc_ok (c_ring s) (c_ghost s) (last_out l (c_log s)) (c_seen s l) (c_pc s l))"

lemma conc_invD:
  assumes "conc_inv s"
  shows "geom (c_ring s) (c_ghost s)" "live (c_ring s) (c_ghost s)"
    "tiles (g_prod_tail (c_ghost s)) (g_prod_head (c_ghost s)) (pclaims s)"
    "tiles (g_cons_tail (c_ghost s)) (g_cons_head (c_ghost s)) (cclaims s)"
    "pc_ok (c_ring s) (c_ghost s) (last_out l (c_log s)) (c_seen s l) (c_pc s l)"
  using assms by (simp_all add: conc_inv_def)

lemma geomD:
  assumes "geom r g"
  shows "shape r" "prod_head (r_prod r) = of_nat (g_prod_head g)" "prod_tail (r_prod r) = of_nat (g_prod_tail g)"
    "cons_head (r_cons r) = of_nat (g_cons_head g)" "cons_tail (r_cons r) = of_nat (g_cons_tail g)"
    "g_cons_tail g \<le> g_cons_head g" "g_cons_head g \<le> g_prod_tail g" "g_prod_tail g \<le> g_prod_head g"
    "g_prod_head g \<le> g_cons_tail g + ring_cap r" "ring_cap r < 2 ^ 28"
  using assms shapeD(3) by (auto simp: geom_def)

lemma conc_items_eq:
  assumes "geom r g" and "live r g"
  shows "conc_items r = objs_at g (g_cons_head g) (g_prod_tail g - g_cons_head g)"
proof -
  note g = geomD [OF assms(1)]
  have "unat (of_nat (g_prod_tail g) - of_nat (g_cons_head g) :: u32) = g_prod_tail g - g_cons_head g"
    by (rule unat_of_nat_diff) (use g(6-10) in simp_all)
  moreover have "r_ring r ((of_nat (g_cons_head g) + of_nat k) AND prod_mask (r_prod r)) = g_obj g (g_cons_head g + k)"
    if "k < g_prod_tail g - g_cons_head g" for k
    using that assms(2) g(6) by (simp add: live_def cell_def flip: of_nat_add)
  ultimately show ?thesis
    unfolding conc_items_def g(3,4) by (intro nth_equalityI) (simp_all add: objs_at_def)
qed

section \<open>Preservation\<close>

text \<open>A step of another lcore: the indices grow, the cells and the objects of this lcore's claims stay.\<close>

definition grows :: "'a ghost \<Rightarrow> 'a ghost \<Rightarrow> bool" where
  "grows g g' \<longleftrightarrow> g_prod_head g \<le> g_prod_head g' \<and> g_prod_tail g \<le> g_prod_tail g' \<and>
     g_cons_head g \<le> g_cons_head g' \<and> g_cons_tail g \<le> g_cons_tail g'"

lemma grows_refl [simp]: "grows g g" by (simp add: grows_def)

lemma objs_at_cong: "(\<And>i. s \<le> i \<Longrightarrow> i < s + n \<Longrightarrow> g_obj g' i = g_obj g i) \<Longrightarrow> objs_at g' s n = objs_at g s n"
  by (simp add: objs_at_def)

lemma pc_ok_frame:
  assumes "pc_ok r g out seen p" and "ring_cap r' = ring_cap r" and "grows g g'"
    and prod: "\<And>s n i. pclaim seen p = Some (s, n) \<Longrightarrow> s \<le> i \<Longrightarrow> i < s + n \<Longrightarrow> g_obj g' i = g_obj g i \<and> cell r' i = cell r i"
    and cons: "\<And>s n i. cclaim seen p = Some (s, n) \<Longrightarrow> s \<le> i \<Longrightarrow> i < s + n \<Longrightarrow> g_obj g' i = g_obj g i"
  shows "pc_ok r' g' out seen p"
proof (cases p)
  case (Enq_copy objs b ph n f i)
  then have "objs_at g' seen (unat n) = objs_at g seen (unat n)" using prod by (auto intro: objs_at_cong)
  then show ?thesis using assms(1) prod Enq_copy by auto
next
  case (Enq_wait objs ph n ret)
  then have "objs_at g' seen (unat n) = objs_at g seen (unat n)" using prod by (auto intro: objs_at_cong)
  then show ?thesis using assms(1) prod Enq_wait by auto
next
  case (Deq_copy b ch n got)
  then have "objs_at g' seen (unat n) = objs_at g seen (unat n)" using cons by (auto intro: objs_at_cong)
  then show ?thesis using assms(1) Deq_copy by auto
next
  case (Deq_wait b ch n got)
  then have "objs_at g' seen (unat n) = objs_at g seen (unat n)" using cons by (auto intro: objs_at_cong)
  then show ?thesis using assms(1) Deq_wait by auto
qed (use assms(1-3) in \<open>auto simp: grows_def\<close>)

lemma conc_inv_step:
  assumes inv: "conc_inv s"
    and pcs: "c_pc s' = (c_pc s)(l := p)" and seen: "\<And>k. k \<noteq> l \<Longrightarrow> c_seen s' k = c_seen s k"
    and out: "\<And>k. k \<noteq> l \<Longrightarrow> last_out k (c_log s') = last_out k (c_log s)"
    and parts: "geom (c_ring s') (c_ghost s')" "live (c_ring s') (c_ghost s')"
      "tiles (g_prod_tail (c_ghost s')) (g_prod_head (c_ghost s')) ((pclaims s)(l := pclaim (c_seen s' l) p))"
      "tiles (g_cons_tail (c_ghost s')) (g_cons_head (c_ghost s')) ((cclaims s)(l := cclaim (c_seen s' l) p))"
    and own: "pc_ok (c_ring s') (c_ghost s') (last_out l (c_log s')) (c_seen s' l) p"
    and frame: "ring_cap (c_ring s') = ring_cap (c_ring s)" "grows (c_ghost s) (c_ghost s')"
      "\<And>k st n i. k \<noteq> l \<Longrightarrow> pclaims s k = Some (st, n) \<Longrightarrow> st \<le> i \<Longrightarrow> i < st + n \<Longrightarrow>
         g_obj (c_ghost s') i = g_obj (c_ghost s) i \<and> cell (c_ring s') i = cell (c_ring s) i"
      "\<And>k st n i. k \<noteq> l \<Longrightarrow> cclaims s k = Some (st, n) \<Longrightarrow> st \<le> i \<Longrightarrow> i < st + n \<Longrightarrow>
         g_obj (c_ghost s') i = g_obj (c_ghost s) i"
  shows "conc_inv s'"
proof -
  have "pclaims s' = (pclaims s)(l := pclaim (c_seen s' l) p)" "cclaims s' = (cclaims s)(l := cclaim (c_seen s' l) p)"
    by (auto simp: pclaims_def cclaims_def pcs seen)
  moreover have "pc_ok (c_ring s') (c_ghost s') (last_out k (c_log s')) (c_seen s' k) (c_pc s' k)" for k
  proof (cases "k = l")
    case False
    have "pc_ok (c_ring s') (c_ghost s') (last_out k (c_log s)) (c_seen s k) (c_pc s k)"
      using frame(3,4) [OF False] by (intro pc_ok_frame [OF conc_invD(5) [OF inv] frame(1,2)]) (auto simp: pclaims_def cclaims_def)
    then show ?thesis using False by (simp add: pcs seen out)
  qed (simp add: own pcs)
  ultimately show ?thesis using parts by (simp add: conc_inv_def)
qed

text \<open>Steps that change neither the indices nor the cells.\<close>

definition same_ring :: "'a rte_ring \<Rightarrow> 'a rte_ring \<Rightarrow> bool" where
  "same_ring r r' \<longleftrightarrow> r_prod r' = r_prod r \<and> r_cons r' = r_cons r \<and> r_ring r' = r_ring r"

lemma same_ring_simps:
  assumes "same_ring r r'"
  shows "ring_cap r' = ring_cap r" "cell r' = cell r" "geom r' g = geom r g" "live r' g = live r g"
    "conc_items r' = conc_items r"
  using assms by (auto simp: same_ring_def ring_cap_def cell_def geom_def shape_def live_def conc_items_def fun_eq_iff)

lemma same_ring_refl [simp]: "same_ring r r" by (simp add: same_ring_def)

lemma same_ring_stat [simp]: "same_ring r (RING_STAT_ADD l stat n r)" by (simp add: same_ring_def)

lemma local_step:
  assumes inv: "conc_inv s"
    and pcs: "c_pc s' = (c_pc s)(l := p)" and seen: "\<And>k. k \<noteq> l \<Longrightarrow> c_seen s' k = c_seen s k"
    and same: "same_ring (c_ring s) (c_ring s')" "c_ghost s' = c_ghost s" "c_log s' = c_log s"
    and claims: "pclaims s l = pclaim (c_seen s' l) p" "cclaims s l = cclaim (c_seen s' l) p"
    and own: "pc_ok (c_ring s) (c_ghost s) (last_out l (c_log s)) (c_seen s' l) p"
  shows "conc_inv s'"
proof (rule conc_inv_step [OF inv pcs seen])
  note i = conc_invD [OF inv] and r = same_ring_simps [OF same(1)]
  show "geom (c_ring s') (c_ghost s')" "live (c_ring s') (c_ghost s')" using i(1,2) r same(2) by simp_all
  show "tiles (g_prod_tail (c_ghost s')) (g_prod_head (c_ghost s')) ((pclaims s)(l := pclaim (c_seen s' l) p))"
    "tiles (g_cons_tail (c_ghost s')) (g_cons_head (c_ghost s')) ((cclaims s)(l := cclaim (c_seen s' l) p))"
    using i(3,4) same(2) by (simp_all flip: claims)
  show "pc_ok (c_ring s') (c_ghost s') (last_out l (c_log s')) (c_seen s' l) p"
    using pc_ok_frame [OF own, of "c_ring s'" "c_ghost s'"] r(1,2) same(2,3) by simp
qed (use same_ring_simps [OF same(1)] same in auto)

lemmas conc_simps = goto_def upd_ring_def write_cell_def set_defs

lemma enq_read_inv:
  assumes "conc_inv s" and "c_pc s l = Enq_read objs b"
  shows "conc_inv (step_enq_read l objs b s)"
proof (rule local_step [OF assms(1)])
  show "c_pc (step_enq_read l objs b s) = (c_pc s)(l := Enq_check objs b (prod_head (r_prod (c_ring s))))"
    by (simp add: step_enq_read_def conc_simps)
qed (use conc_invD(1) [OF assms(1)] conc_invD(5) [OF assms(1), of l] assms(2) in \<open>auto simp: step_enq_read_def conc_simps pclaims_def cclaims_def geom_def\<close>)

lemma deq_read_inv:
  assumes "conc_inv s" and "c_pc s l = Deq_read n b"
  shows "conc_inv (step_deq_read l n b s)"
proof (rule local_step [OF assms(1)])
  show "c_pc (step_deq_read l n b s) = (c_pc s)(l := Deq_check n b (cons_head (r_cons (c_ring s))))"
    by (simp add: step_deq_read_def conc_simps)
qed (use conc_invD(1) [OF assms(1)] conc_invD(5) [OF assms(1), of l] assms(2) in \<open>auto simp: step_deq_read_def conc_simps pclaims_def cclaims_def geom_def\<close>)

lemma return_inv:
  assumes "conc_inv s" and "pclaims s l = None" "cclaims s l = None" and "same_ring (c_ring s) (f (c_ring s))"
  shows "conc_inv (goto l (Ret ret got) (upd_ring f s))"
  by (rule local_step [OF assms(1), where p = "Ret ret got"]) (use assms in \<open>simp_all add: conc_simps\<close>)

lemma enq_room_claim:
  assumes g: "geom r g" and "seen \<le> g_prod_head g" and len: "0 < len" "len < 2 ^ 32"
    and room: "enq_room (prod_mask (r_prod r)) (of_nat seen) (cons_tail (r_cons r)) (of_nat len) b = Inr (n, f)"
  shows "n \<noteq> 0" "unat n \<le> len" "seen = g_prod_head g \<Longrightarrow> seen + unat n \<le> g_cons_tail g + ring_cap r"
proof -
  note d = geomD [OF g]
  let ?free = "prod_mask (r_prod r) + cons_tail (r_cons r) - of_nat seen"
  have u: "unat (of_nat len :: u32) = len" using len(2) by (rule unat_of_nat_less)
  have n: "n = (if of_nat len > ?free then ?free else of_nat len)" "n \<noteq> 0"
    using room len u by (auto simp: enq_room_def Let_def unat_eq_zero split: if_splits)
  then show "n \<noteq> 0" "unat n \<le> len" using u by (auto simp: word_less_nat_alt split: if_splits)
  assume s: "seen = g_prod_head g"
  have "prod_mask (r_prod r) = of_nat (ring_cap r)" using shapeD(1) [OF d(1)] d(10) by (simp add: word_unat_eq_iff unat_of_nat_less)
  then have "?free = of_nat (ring_cap r + g_cons_tail g) - of_nat seen" by (simp add: d(5))
  then have "unat ?free = ring_cap r + g_cons_tail g - seen"
    using unat_of_nat_diff [of seen "ring_cap r + g_cons_tail g"] d(6-10) s by simp
  moreover have "unat n \<le> unat ?free" using n u by (auto simp: word_less_nat_alt not_less split: if_splits)
  ultimately show "seen + unat n \<le> g_cons_tail g + ring_cap r" using d(9) s by simp
qed

lemma deq_avail_claim:
  assumes g: "geom r g" and "seen \<le> g_cons_head g" and m: "m \<noteq> 0"
    and avail: "deq_avail (of_nat seen) (prod_tail (r_prod r)) m b = Inr n"
  shows "n \<noteq> 0" "seen = g_cons_head g \<Longrightarrow> seen + unat n \<le> g_prod_tail g"
proof -
  note d = geomD [OF g]
  let ?entries = "prod_tail (r_prod r) - of_nat seen"
  have n: "n = (if m > ?entries then ?entries else m)" "n \<noteq> 0"
    using avail m by (auto simp: deq_avail_def Let_def split: if_splits)
  then show "n \<noteq> 0" by simp
  assume s: "seen = g_cons_head g"
  have "unat ?entries = g_prod_tail g - seen" unfolding d(3) using unat_of_nat_diff [of seen "g_prod_tail g"] d(6-10) s by simp
  moreover have "unat n \<le> unat ?entries" using n by (auto simp: word_less_nat_alt not_less split: if_splits)
  ultimately show "seen + unat n \<le> g_prod_tail g" using d(7) s by simp
qed

lemma enq_check_inv:
  assumes inv: "conc_inv s" and pc: "c_pc s l = Enq_check objs b ph"
  shows "conc_inv (step_enq_check l objs b ph s)"
proof -
  have ok: "objs \<noteq> []" "length objs < 2 ^ 32" "ph = of_nat (c_seen s l)" "c_seen s l \<le> g_prod_head (c_ghost s)"
    using conc_invD(5) [OF inv, of l] pc by simp_all
  have none: "pclaims s l = None" "cclaims s l = None" using pc by (simp_all add: pclaims_def cclaims_def)
  show ?thesis
  proof (cases "enq_room (prod_mask (r_prod (c_ring s))) ph (cons_tail (r_cons (c_ring s))) (of_nat (length objs)) b")
    case (Inl ret)
    then show ?thesis using return_inv [OF inv none] by (simp add: step_enq_check_def Let_def)
  next
    case (Inr nf)
    obtain n f where nf: "nf = (n, f)" by fastforce
    note claim = enq_room_claim [OF conc_invD(1) [OF inv] ok(4) _ ok(2) Inr [unfolded nf ok(3)]]
    have "conc_inv (goto l (Enq_cas objs b ph n f) s)"
      by (rule local_step [OF inv, where p = "Enq_cas objs b ph n f"]) (use none ok claim in \<open>auto simp: conc_simps\<close>)
    then show ?thesis using Inr nf by (simp add: step_enq_check_def Let_def)
  qed
qed

lemma deq_check_inv:
  assumes inv: "conc_inv s" and pc: "c_pc s l = Deq_check m b ch"
  shows "conc_inv (step_deq_check l m b ch s)"
proof -
  have ok: "m \<noteq> 0" "ch = of_nat (c_seen s l)" "c_seen s l \<le> g_cons_head (c_ghost s)"
    using conc_invD(5) [OF inv, of l] pc by simp_all
  have none: "pclaims s l = None" "cclaims s l = None" using pc by (simp_all add: pclaims_def cclaims_def)
  show ?thesis
  proof (cases "deq_avail ch (prod_tail (r_prod (c_ring s))) m b")
    case (Inl ret)
    then show ?thesis using return_inv [OF inv none] by (simp add: step_deq_check_def)
  next
    case (Inr n)
    note claim = deq_avail_claim [OF conc_invD(1) [OF inv] ok(3,1) Inr [unfolded ok(2)]]
    have "conc_inv (goto l (Deq_cas m b ch n) s)"
      by (rule local_step [OF inv, where p = "Deq_cas m b ch n"]) (use none ok claim in \<open>auto simp: conc_simps\<close>)
    then show ?thesis using Inr by (simp add: step_deq_check_def)
  qed
qed

text \<open>The compare-and-set claims the positions behind the head.\<close>

lemma enq_cas_inv:
  assumes inv: "conc_inv s" and pc: "c_pc s l = Enq_cas objs b ph n f" and time: "timely s"
  shows "conc_inv (step_enq_cas l objs b ph n f s)"
proof -
  let ?g = "c_ghost s" and ?r = "c_ring s"
  let ?P = "g_prod_head ?g"
  note i = conc_invD [OF inv] and d = geomD [OF conc_invD(1) [OF inv]]
  have ok: "objs \<noteq> []" "length objs < 2 ^ 32" "ph = of_nat (c_seen s l)" "c_seen s l \<le> ?P" "n \<noteq> 0" "unat n \<le> length objs"
      "c_seen s l = ?P \<Longrightarrow> ?P + unat n \<le> g_cons_tail ?g + ring_cap ?r"
    using i(5) [of l] pc by auto
  have none: "pclaims s l = None" "cclaims s l = None" using pc by (simp_all add: pclaims_def cclaims_def)
  show ?thesis
  proof (cases "prod_head (r_prod ?r) = ph")
    case False
    have "conc_inv (goto l (Enq_read objs b) s)"
      by (rule local_step [OF inv, where p = "Enq_read objs b"]) (use none ok in \<open>simp_all add: conc_simps\<close>)
    with False show ?thesis by (simp add: step_enq_cas_def cmpset_prod_head_def)
  next
    case True
    have "timely_pc ?g (c_seen s l) (c_pc s l)" using time by (simp add: timely_def)
    then have seen: "c_seen s l = ?P" using of_nat_window [of "c_seen s l" ?P] True d(2) ok(3,4) pc by simp
    define r' where "r' = set_prod_head (ph + n) ?r"
    define g' where "g' = ?g\<lparr>g_prod_head := ?P + unat n, g_obj := (\<lambda>i. if ?P \<le> i then objs ! (i - ?P) else g_obj ?g i)\<rparr>"
    have s': "step_enq_cas l objs b ph n f s = goto l (Enq_copy objs b ph n f 0) (s\<lparr>c_ring := r', c_ghost := g'\<rparr>)"
      using True by (simp add: step_enq_cas_def cmpset_prod_head_def r'_def g'_def Let_def)
    have r': "shape r' = shape ?r" "ring_cap r' = ring_cap ?r" "cell r' = cell ?r"
      by (auto simp: r'_def conc_simps shape_def ring_cap_def cell_def fun_eq_iff)
    have below: "g_obj g' i = g_obj ?g i" if "i < ?P" for i using that by (simp add: g'_def)
    have "geom r' g'"
      using d ok(3,7) seen unfolding geom_def r'(1,2) by (auto simp: r'_def g'_def conc_simps)
    moreover have "live r' g'"
      using i(2) d(8) below unfolding live_def r'(3) by (auto simp: g'_def)
    moreover have "objs_at g' ?P (unat n) = take (unat n) objs"
      using ok(6) by (intro nth_equalityI) (simp_all add: objs_at_def g'_def)
    moreover have "tiles (g_prod_tail g') (g_prod_head g') ((pclaims s)(l := Some (?P, unat n)))"
      using tiles_claim [OF i(3) none(1) _ d(8), of "unat n"] ok(5) by (simp add: g'_def word_gt_0 unat_gt_0)
    moreover have "tiles (g_cons_tail g') (g_cons_head g') ((cclaims s)(l := None))"
      using i(4) none(2) by (simp add: g'_def fun_upd_idem)
    moreover have "g_obj g' i = g_obj ?g i" if "pclaims s k = Some (st, m)" "i < st + m" for k st m i
      using that tilesD(2) [OF i(3) that(1)] by (intro below) simp
    moreover have "g_obj g' i = g_obj ?g i" if "cclaims s k = Some (st, m)" "i < st + m" for k st m i
      using that tilesD(2) [OF i(4) that(1)] d(7,8) by (intro below) simp
    moreover have "grows ?g g'" by (simp add: grows_def g'_def)
    ultimately show ?thesis
      unfolding s' using ok(3,6) seen r'
      by (intro conc_inv_step [OF inv, where p = "Enq_copy objs b ph n f 0" and l = l]) (auto simp: conc_simps)
  qed
qed

lemma deq_cas_inv:
  assumes inv: "conc_inv s" and pc: "c_pc s l = Deq_cas m b ch n" and time: "timely s"
  shows "conc_inv (step_deq_cas l m b ch n s)"
proof -
  let ?g = "c_ghost s" and ?r = "c_ring s"
  let ?H = "g_cons_head ?g"
  note i = conc_invD [OF inv] and d = geomD [OF conc_invD(1) [OF inv]]
  have ok: "m \<noteq> 0" "ch = of_nat (c_seen s l)" "c_seen s l \<le> ?H" "n \<noteq> 0" "c_seen s l = ?H \<longrightarrow> ?H + unat n \<le> g_prod_tail ?g"
    using i(5) [of l] pc by auto
  have none: "pclaims s l = None" "cclaims s l = None" using pc by (simp_all add: pclaims_def cclaims_def)
  show ?thesis
  proof (cases "cons_head (r_cons ?r) = ch")
    case False
    have "conc_inv (goto l (Deq_read m b) s)"
      by (rule local_step [OF inv, where p = "Deq_read m b"]) (use none ok in \<open>simp_all add: conc_simps\<close>)
    with False show ?thesis by (simp add: step_deq_cas_def cmpset_cons_head_def)
  next
    case True
    have "timely_pc ?g (c_seen s l) (c_pc s l)" using time by (simp add: timely_def)
    then have seen: "c_seen s l = ?H" using of_nat_window [of "c_seen s l" ?H] True d(4) ok(2,3) pc by simp
    define r' where "r' = set_cons_head (ch + n) ?r"
    define g' where "g' = ?g\<lparr>g_cons_head := ?H + unat n\<rparr>"
    let ?out = "take (unat n) (conc_items ?r)"
    have s': "step_deq_cas l m b ch n s =
        goto l (Deq_copy b ch n []) (s\<lparr>c_ring := r', c_log := c_log s @ [Dequeued l ?out], c_ghost := g'\<rparr>)"
      using True by (simp add: step_deq_cas_def cmpset_cons_head_def r'_def g'_def Let_def)
    have r': "shape r' = shape ?r" "ring_cap r' = ring_cap ?r" "cell r' = cell ?r"
      by (auto simp: r'_def conc_simps shape_def ring_cap_def cell_def fun_eq_iff)
    have "geom r' g'"
      using d ok(2,5) seen unfolding geom_def r'(1,2) by (auto simp: r'_def g'_def conc_simps)
    moreover have "live r' g'" using i(2) unfolding live_def r'(3) by (simp add: g'_def)
    moreover have "?out = objs_at g' ?H (unat n)"
      unfolding conc_items_eq [OF i(1,2)] using ok(5) seen by (simp add: objs_at_def g'_def take_map)
    moreover have "tiles (g_cons_tail g') (g_cons_head g') ((cclaims s)(l := Some (?H, unat n)))"
      using tiles_claim [OF i(4) none(2) _ d(6), of "unat n"] ok(4) by (simp add: g'_def word_gt_0 unat_gt_0)
    moreover have "tiles (g_prod_tail g') (g_prod_head g') ((pclaims s)(l := None))"
      using i(3) none(1) by (simp add: g'_def fun_upd_idem)
    moreover have "grows ?g g'" "g_obj g' = g_obj ?g" by (simp_all add: grows_def g'_def)
    ultimately show ?thesis
      unfolding s' using ok(2) seen r'
      by (intro conc_inv_step [OF inv, where p = "Deq_copy b ch n []" and l = l]) (auto simp: conc_simps)
  qed
qed

text \<open>The copies: a producer writes only cells that no other lcore uses.\<close>

lemma cell_write:
  assumes "geom r g" and "g_cons_tail g \<le> i" "i < g_prod_head g" "g_cons_tail g \<le> j" "j < g_prod_head g"
  shows "cell (write_cell (of_nat j AND prod_mask (r_prod r)) x r) i = (if i = j then x else cell r i)"
proof -
  note d = geomD [OF assms(1)]
  have "of_nat i AND prod_mask (r_prod r) \<noteq> of_nat j AND prod_mask (r_prod r)" if "i \<noteq> j"
    using cell_index_inj [OF d(1), of "g_cons_tail g" i j] that assms(2-5) d(9) by linarith
  then show ?thesis by (auto simp: cell_def write_cell_def)
qed

lemma enq_copy_inv:
  assumes inv: "conc_inv s" and pc: "c_pc s l = Enq_copy objs b ph n f j"
  shows "conc_inv (step_enq_copy l objs b ph n f j s)"
proof -
  let ?g = "c_ghost s" and ?r = "c_ring s" and ?st = "c_seen s l"
  note i = conc_invD [OF inv] and d = geomD [OF conc_invD(1) [OF inv]]
  have ok: "ph = of_nat ?st" "unat n \<le> length objs" "j \<le> unat n" "objs_at ?g ?st (unat n) = take (unat n) objs"
      "\<forall>k<j. cell ?r (?st + k) = objs ! k"
    using i(5) [of l] pc by auto
  have claim: "pclaims s l = Some (?st, unat n)" "cclaims s l = None" using pc by (simp_all add: pclaims_def cclaims_def)
  show ?thesis
  proof (cases "j < unat n")
    case False
    obtain ret stat where e: "enq_ret (prod_watermark (r_prod ?r)) (prod_mask (r_prod ?r)) f n b = (ret, stat)" by fastforce
    have "conc_inv (goto l (Enq_wait objs ph n ret) (upd_ring (RING_STAT_ADD l stat n) s))"
      by (rule local_step [OF inv, where p = "Enq_wait objs ph n ret"]) (use False claim ok in \<open>simp_all add: conc_simps\<close>)
    with False e show ?thesis by (simp add: step_enq_copy_def Let_def)
  next
    case True
    define r' where "r' = write_cell (of_nat (?st + j) AND prod_mask (r_prod ?r)) (objs ! j) ?r"
    have s': "step_enq_copy l objs b ph n f j s = goto l (Enq_copy objs b ph n f (Suc j)) (s\<lparr>c_ring := r'\<rparr>)"
      using True ok(1) by (simp add: step_enq_copy_def Let_def upd_ring_def r'_def)
    have at: "g_prod_tail ?g \<le> ?st" "?st + unat n \<le> g_prod_head ?g" using tilesD [OF i(3) claim(1)] by simp_all
    have r': "ring_cap r' = ring_cap ?r" "geom r' ?g"
      using i(1) by (auto simp: r'_def conc_simps geom_def shape_def ring_cap_def)
    have cell: "cell r' k = (if k = ?st + j then objs ! j else cell ?r k)" if "g_cons_tail ?g \<le> k" "k < g_prod_head ?g" for k
      unfolding r'_def by (rule cell_write [OF i(1)]) (use that at True d(6,7) in linarith)+
    have "live r' ?g" using i(2) cell at d(8) True unfolding live_def by auto
    moreover have "\<forall>k<Suc j. cell r' (?st + k) = objs ! k"
      using ok(5) cell at d(6,7) True by (auto simp: less_Suc_eq)
    moreover have "cell r' k = cell ?r k" if "k' \<noteq> l" "pclaims s k' = Some (st, m)" "st \<le> k" "k < st + m" for k k' st m
    proof -
      have "g_prod_tail ?g \<le> st" "st + m \<le> g_prod_head ?g" using tilesD [OF i(3) that(2)] by simp_all
      moreover have "?st + unat n \<le> st \<or> st + m \<le> ?st" using tiles_disjoint [OF i(3) claim(1) that(2)] that(1) by auto
      ultimately show ?thesis using cell [of k] that(3,4) d(6,7) True by auto
    qed
    ultimately show ?thesis
      unfolding s' using ok(1,2,4) True r' i(3,4) claim
      by (intro conc_inv_step [OF inv, where p = "Enq_copy objs b ph n f (Suc j)" and l = l])
         (auto simp: conc_simps fun_upd_idem)
  qed
qed

lemma deq_copy_inv:
  assumes inv: "conc_inv s" and pc: "c_pc s l = Deq_copy b ch n got"
  shows "conc_inv (step_deq_copy l b ch n got s)"
proof -
  let ?g = "c_ghost s" and ?r = "c_ring s" and ?st = "c_seen s l" and ?out = "last_out l (c_log s)"
  note i = conc_invD [OF inv] and d = geomD [OF conc_invD(1) [OF inv]]
  have ok: "ch = of_nat ?st" "length got \<le> unat n" "?out = objs_at ?g ?st (unat n)" "got = take (length got) ?out"
    using i(5) [of l] pc by auto
  have claim: "cclaims s l = Some (?st, unat n)" "pclaims s l = None" using pc by (simp_all add: pclaims_def cclaims_def)
  have len: "length ?out = unat n" using ok(3) by (simp add: objs_at_def)
  show ?thesis
  proof (cases "length got < unat n")
    case False
    then have "got = ?out" using ok(2,4) len by simp
    have "conc_inv (goto l (Deq_wait b ch n got) s)"
      by (rule local_step [OF inv, where p = "Deq_wait b ch n got"]) (use claim ok(1,3) \<open>got = ?out\<close> in \<open>auto simp: conc_simps\<close>)
    with False show ?thesis by (simp add: step_deq_copy_def Let_def)
  next
    case True
    let ?k = "length got"
    let ?x = "r_ring ?r ((ch + of_nat ?k) AND prod_mask (r_prod ?r))"
    have "?st + unat n \<le> g_cons_head ?g" "g_cons_tail ?g \<le> ?st" using tilesD [OF i(4) claim(1)] by simp_all
    then have "cell ?r (?st + ?k) = g_obj ?g (?st + ?k)" using i(2) d(7) True by (simp add: live_def)
    then have "?x = ?out ! ?k" using True ok(1,3) by (simp add: cell_def objs_at_def)
    then have "got @ [?x] = take (Suc ?k) ?out" using ok(4) len True by (simp add: take_Suc_conv_app_nth)
    then have "conc_inv (goto l (Deq_copy b ch n (got @ [?x])) s)"
      by (intro local_step [OF inv, where p = "Deq_copy b ch n (got @ [?x])" and l = l])
         (use claim ok(1-3) len True in \<open>simp_all add: conc_simps\<close>)
    with True show ?thesis by (simp add: step_deq_copy_def Let_def)
  qed
qed

text \<open>The store of a tail by the lcore whose claim begins there.\<close>

lemma enq_wait_inv:
  assumes inv: "conc_inv s" and pc: "c_pc s l = Enq_wait objs ph n ret"
  shows "conc_inv (step_enq_wait l objs ph n ret s)"
proof (cases "prod_tail (r_prod (c_ring s)) = ph")
  case True
  let ?g = "c_ghost s" and ?r = "c_ring s" and ?st = "c_seen s l"
  note i = conc_invD [OF inv] and d = geomD [OF conc_invD(1) [OF inv]]
  have ok: "ph = of_nat ?st" "unat n \<le> length objs" "objs_at ?g ?st (unat n) = take (unat n) objs"
      "\<forall>k<unat n. cell ?r (?st + k) = objs ! k"
    using i(5) [of l] pc by auto
  have claim: "pclaims s l = Some (?st, unat n)" "cclaims s l = None" using pc by (simp_all add: pclaims_def cclaims_def)
  have at: "g_prod_tail ?g \<le> ?st" "?st + unat n \<le> g_prod_head ?g" using tilesD [OF i(3) claim(1)] by simp_all
  have st: "?st = g_prod_tail ?g" using of_nat_window [of "g_prod_tail ?g" ?st] True d(3,6-10) ok(1) at by simp
  define r' where "r' = set_prod_tail (ph + n) ?r"
  define g' where "g' = ?g\<lparr>g_prod_tail := g_prod_tail ?g + unat n\<rparr>"
  have s': "step_enq_wait l objs ph n ret s = goto l (Ret ret [])
      (s\<lparr>c_ring := r', c_log := c_log s @ [Enqueued l (take (unat n) objs)], c_ghost := g'\<rparr>)"
    using True by (simp add: step_enq_wait_def upd_ring_def r'_def g'_def)
  have r': "shape r' = shape ?r" "ring_cap r' = ring_cap ?r" "cell r' = cell ?r"
    by (auto simp: r'_def conc_simps shape_def ring_cap_def cell_def fun_eq_iff)
  have "geom r' g'"
    using d at(2) ok(1) st unfolding geom_def r'(1,2) by (auto simp: r'_def g'_def conc_simps)
  moreover have "cell ?r k = g_obj ?g k" if "?st \<le> k" "k < ?st + unat n" for k
  proof -
    have "g_obj ?g k = objs_at ?g ?st (unat n) ! (k - ?st)" using that by (simp add: objs_at_def)
    then show ?thesis using ok(2-4) that by (metis le_add_diff_inverse less_diff_conv2 nth_take add.commute)
  qed
  then have "live r' g'" using i(2) st unfolding live_def r'(3) by (auto simp: g'_def not_less)
  moreover have "tiles (g_prod_tail g') (g_prod_head g') ((pclaims s)(l := None))"
    using tiles_finish [OF i(3), of l "unat n"] claim(1) st by (simp add: g'_def)
  moreover have "tiles (g_cons_tail g') (g_cons_head g') ((cclaims s)(l := None))"
    using i(4) claim(2) by (simp add: g'_def fun_upd_idem)
  moreover have "grows ?g g'" "g_obj g' = g_obj ?g" by (simp_all add: grows_def g'_def)
  ultimately show ?thesis
    unfolding s' using r'
    by (intro conc_inv_step [OF inv, where p = "Ret ret []" and l = l]) (auto simp: conc_simps)
qed (simp add: step_enq_wait_def inv)

lemma deq_wait_inv:
  assumes inv: "conc_inv s" and pc: "c_pc s l = Deq_wait b ch n got"
  shows "conc_inv (step_deq_wait l b ch n got s)"
proof (cases "cons_tail (r_cons (c_ring s)) = ch")
  case True
  let ?g = "c_ghost s" and ?r = "c_ring s" and ?st = "c_seen s l"
  note i = conc_invD [OF inv] and d = geomD [OF conc_invD(1) [OF inv]]
  have ok: "ch = of_nat ?st" using i(5) [of l] pc by auto
  have claim: "cclaims s l = Some (?st, unat n)" "pclaims s l = None" using pc by (simp_all add: pclaims_def cclaims_def)
  have at: "g_cons_tail ?g \<le> ?st" "?st + unat n \<le> g_cons_head ?g" using tilesD [OF i(4) claim(1)] by simp_all
  have st: "?st = g_cons_tail ?g" using of_nat_window [of "g_cons_tail ?g" ?st] True d(5-10) ok at by simp
  define r' where "r' = set_cons_tail (ch + n) (RING_STAT_ADD l deq_success n ?r)"
  define g' where "g' = ?g\<lparr>g_cons_tail := g_cons_tail ?g + unat n\<rparr>"
  have s': "step_deq_wait l b ch n got s = goto l (Ret (deq_ret n b) got) (s\<lparr>c_ring := r', c_ghost := g'\<rparr>)"
    using True by (simp add: step_deq_wait_def upd_ring_def r'_def g'_def)
  have r': "shape r' = shape ?r" "ring_cap r' = ring_cap ?r" "cell r' = cell ?r"
    by (auto simp: r'_def conc_simps shape_def ring_cap_def cell_def fun_eq_iff)
  have "geom r' g'"
    using d at(2) ok st unfolding geom_def r'(1,2) by (auto simp: r'_def g'_def conc_simps)
  moreover have "live r' g'" using i(2) unfolding live_def r'(3) by (simp add: g'_def)
  moreover have "tiles (g_cons_tail g') (g_cons_head g') ((cclaims s)(l := None))"
    using tiles_finish [OF i(4), of l "unat n"] claim(1) st by (simp add: g'_def)
  moreover have "tiles (g_prod_tail g') (g_prod_head g') ((pclaims s)(l := None))"
    using i(3) claim(2) by (simp add: g'_def fun_upd_idem)
  moreover have "grows ?g g'" "g_obj g' = g_obj ?g" by (simp_all add: grows_def g'_def)
  ultimately show ?thesis
    unfolding s' using r'
    by (intro conc_inv_step [OF inv, where p = "Ret (deq_ret n b) got" and l = l]) (auto simp: conc_simps)
qed (simp add: step_deq_wait_def inv)

lemma step_inv: "conc_inv s \<Longrightarrow> timely s \<Longrightarrow> conc_inv (step l s)"
  by (auto simp: step_def split: pc.split intro: enq_read_inv enq_check_inv enq_cas_inv enq_copy_inv enq_wait_inv
      deq_read_inv deq_check_inv deq_cas_inv deq_copy_inv deq_wait_inv)

lemma call_inv:
  assumes "conc_inv s" and "returned (c_pc s l)" and "pclaim 0 p = None" "cclaim 0 p = None"
    and "pc_ok (c_ring s) (c_ghost s) (last_out l (c_log s)) (c_seen s l) p"
    and "\<And>i. pclaim i p = pclaim 0 p" "\<And>i. cclaim i p = cclaim 0 p"
  shows "conc_inv (goto l p s)"
  by (rule local_step [OF assms(1), where p = p and l = l])
     (use assms(2-5) assms(6,7) [of "c_seen s l"] in \<open>auto simp: conc_simps returned_def pclaims_def cclaims_def split: pc.splits\<close>)

lemma exec_inv:
  assumes "conc_inv s" and "timely s" and "allowed s a"
  shows "conc_inv (exec a s)"
proof (cases a)
  case (Call_enqueue l objs b)
  then show ?thesis using assms call_inv [of s l "Enq_read objs b"] by simp
next
  case (Call_dequeue l n b)
  then show ?thesis using assms call_inv [of s l "Deq_read n b"] by simp
qed (use assms step_inv in simp)

lemma start_inv:
  assumes "ring_ok r"
  shows "conc_inv (start r)" "timely (start r)" "conc_items r = ring_items r"
proof -
  note ok = ring_okD [OF assms]
  let ?c = "unat (cons_tail (r_cons r))"
  have pt: "of_nat (?c + ring_used r) = prod_tail (r_prod r)"
    by (simp add: ring_used_def)
  have "pclaims (start r) = (\<lambda>_. None)" "cclaims (start r) = (\<lambda>_. None)"
    by (simp_all add: fun_eq_iff pclaims_def cclaims_def start_def Let_def)
  then show "conc_inv (start r)"
    using assms ok pt tiles_empty
    by (auto simp: conc_inv_def start_def Let_def geom_def shape_def live_def cell_def ring_ok_def simp flip: pt)
  show "timely (start r)" by (simp add: timely_def start_def Let_def)
  show "conc_items r = ring_items r"
    using assms by (simp add: conc_items_def ring_items_def ring_used_def ring_ok_def)
qed

lemma reachable_inv:
  assumes "reachable r s" and "ring_ok r"
  shows "conc_inv s" "timely s"
proof -
  have "conc_inv s \<and> timely s"
    using assms by induction (auto simp: start_inv intro: exec_inv)
  then show "conc_inv s" "timely s" by simp_all
qed

section \<open>Transfers\<close>

text \<open>The specification: a queue of bounded length on which each transfer is one atomic step.\<close>

fun transfer :: "nat \<Rightarrow> 'a list \<Rightarrow> 'a transfer \<Rightarrow> 'a list option" where
  "transfer cap q (Enqueued l xs) = (if length q + length xs \<le> cap then Some (q @ xs) else None)"
| "transfer cap q (Dequeued l xs) = (if take (length xs) q = xs then Some (drop (length xs) q) else None)"

fun replay :: "nat \<Rightarrow> 'a list \<Rightarrow> 'a transfer list \<Rightarrow> 'a list option" where
  "replay cap q [] = Some q"
| "replay cap q (t # ts) = (case transfer cap q t of None \<Rightarrow> None | Some q' \<Rightarrow> replay cap q' ts)"

lemma replay_append: "replay cap q (ts @ us) = (case replay cap q ts of None \<Rightarrow> None | Some q' \<Rightarrow> replay cap q' us)"
  by (induction ts arbitrary: q) (auto split: option.split)

lemma objs_at_append: "objs_at g s (m + n) = objs_at g s m @ objs_at g (s + m) n"
  using upt_add_eq_append [of s "s + m" n] by (simp add: objs_at_def add.assoc flip: map_append)

lemma objs_at_drop: "n \<le> m \<Longrightarrow> drop n (objs_at g s m) = objs_at g (s + n) (m - n)"
  by (simp add: objs_at_def drop_map)

lemma length_objs_at [simp]: "length (objs_at g s n) = n" by (simp add: objs_at_def)

text \<open>A step is no transfer when it leaves \<open>cons.head\<close>, \<open>prod.tail\<close> and the objects between them.\<close>

lemma quiet_items:
  assumes "conc_inv s" "conc_inv s'" and "g_cons_head (c_ghost s') = g_cons_head (c_ghost s)"
    and "g_prod_tail (c_ghost s') = g_prod_tail (c_ghost s)"
    and "\<And>i. i < g_prod_tail (c_ghost s) \<Longrightarrow> g_obj (c_ghost s') i = g_obj (c_ghost s) i"
  shows "conc_items (c_ring s') = conc_items (c_ring s)"
  unfolding conc_items_eq [OF conc_invD(1,2) [OF assms(1)]] conc_items_eq [OF conc_invD(1,2) [OF assms(2)]] assms(3,4)
  using geomD(7) [OF conc_invD(1) [OF assms(1)]] by (intro objs_at_cong) (simp add: assms(5))

definition transfers :: "'a conc \<Rightarrow> 'a conc \<Rightarrow> 'a transfer list \<Rightarrow> bool" where
  "transfers s s' ts \<longleftrightarrow> c_log s' = c_log s @ ts \<and> ring_cap (c_ring s') = ring_cap (c_ring s) \<and>
     replay (ring_cap (c_ring s)) (conc_items (c_ring s)) ts = Some (conc_items (c_ring s'))"

lemma enq_wait_transfers:
  assumes inv: "conc_inv s" and pc: "c_pc s l = Enq_wait objs ph n ret" and t: "prod_tail (r_prod (c_ring s)) = ph"
  shows "transfers s (step_enq_wait l objs ph n ret s) [Enqueued l (take (unat n) objs)]"
proof -
  let ?g = "c_ghost s" and ?s' = "step_enq_wait l objs ph n ret s"
  let ?H = "g_cons_head ?g" and ?T = "g_prod_tail ?g"
  note i = conc_invD [OF inv] and d = geomD [OF conc_invD(1) [OF inv]] and i' = conc_invD [OF enq_wait_inv [OF inv pc]]
  have ok: "ph = of_nat (c_seen s l)" "unat n \<le> length objs" "objs_at ?g (c_seen s l) (unat n) = take (unat n) objs"
    using i(5) [of l] pc by auto
  have claim: "pclaims s l = Some (c_seen s l, unat n)" using pc by (simp add: pclaims_def)
  have at: "?T \<le> c_seen s l" "c_seen s l + unat n \<le> g_prod_head ?g" using tilesD [OF i(3) claim] by simp_all
  have st: "c_seen s l = ?T" using of_nat_window [of ?T "c_seen s l"] t d(3,6-10) ok(1) at by simp
  have g': "c_ghost ?s' = ?g\<lparr>g_prod_tail := ?T + unat n\<rparr>" and cap: "ring_cap (c_ring ?s') = ring_cap (c_ring s)"
    and log: "c_log ?s' = c_log s @ [Enqueued l (take (unat n) objs)]"
    using t by (simp_all add: step_enq_wait_def conc_simps ring_cap_def)
  have "conc_items (c_ring ?s') = objs_at ?g ?H (?T - ?H + unat n)"
    unfolding conc_items_eq [OF i'(1,2)] using d(7) by (simp add: g' objs_at_def)
  also have "\<dots> = conc_items (c_ring s) @ take (unat n) objs"
    unfolding objs_at_append conc_items_eq [OF i(1,2)] using ok(3) st d(7) by simp
  finally have "conc_items (c_ring ?s') = conc_items (c_ring s) @ take (unat n) objs" .
  moreover have "length (conc_items (c_ring s)) + unat n \<le> ring_cap (c_ring s)"
    unfolding conc_items_eq [OF i(1,2)] using d(6-9) at st by simp
  ultimately show ?thesis using ok(2) cap log by (simp add: transfers_def)
qed

lemma deq_cas_transfers:
  assumes inv: "conc_inv s" and pc: "c_pc s l = Deq_cas m b ch n" and time: "timely s" and h: "cons_head (r_cons (c_ring s)) = ch"
  shows "transfers s (step_deq_cas l m b ch n s) [Dequeued l (take (unat n) (conc_items (c_ring s)))]"
proof -
  let ?g = "c_ghost s" and ?s' = "step_deq_cas l m b ch n s"
  let ?H = "g_cons_head ?g" and ?T = "g_prod_tail ?g"
  note i = conc_invD [OF inv] and d = geomD [OF conc_invD(1) [OF inv]] and i' = conc_invD [OF deq_cas_inv [OF inv pc time]]
  have g': "c_ghost ?s' = ?g\<lparr>g_cons_head := ?H + unat n\<rparr>" and cap: "ring_cap (c_ring ?s') = ring_cap (c_ring s)"
    and log: "c_log ?s' = c_log s @ [Dequeued l (take (unat n) (conc_items (c_ring s)))]"
    using h by (simp_all add: step_deq_cas_def cmpset_cons_head_def conc_simps ring_cap_def)
  have "?H + unat n \<le> ?T" using geomD(7) [OF i'(1)] by (simp add: g')
  then have "conc_items (c_ring ?s') = drop (unat n) (conc_items (c_ring s))"
    unfolding conc_items_eq [OF i'(1,2)] conc_items_eq [OF i(1,2)] by (simp add: g' objs_at_drop) (simp add: objs_at_def)
  moreover have "unat n \<le> length (conc_items (c_ring s))"
    unfolding conc_items_eq [OF i(1,2)] using \<open>?H + unat n \<le> ?T\<close> by simp
  ultimately show ?thesis using cap log by (simp add: transfers_def)
qed

lemma quiet_transfers:
  assumes "conc_inv s" "conc_inv s'" and "c_log s' = c_log s" and "ring_cap (c_ring s') = ring_cap (c_ring s)"
    and "g_cons_head (c_ghost s') = g_cons_head (c_ghost s)" and "g_prod_tail (c_ghost s') = g_prod_tail (c_ghost s)"
    and "\<And>i. i < g_prod_tail (c_ghost s) \<Longrightarrow> g_obj (c_ghost s') i = g_obj (c_ghost s) i"
  shows "\<exists>ts. transfers s s' ts"
  using assms quiet_items [OF assms(1,2,5-7)] by (auto simp: transfers_def intro: exI [of _ "[]"])

lemma cap_stat [simp]: "ring_cap (RING_STAT_ADD l stat n r) = ring_cap r" by (simp add: ring_cap_def)

lemma step_transfers:
  assumes inv: "conc_inv s" and time: "timely s"
  shows "\<exists>ts. transfers s (step l s) ts"
proof -
  note inv' = step_inv [OF inv time, of l] and le = geomD(8) [OF conc_invD(1) [OF inv]]
  show ?thesis
  proof (cases "c_pc s l")
    case (Enq_wait objs ph n ret)
    show ?thesis
    proof (cases "prod_tail (r_prod (c_ring s)) = ph")
      case True
      then show ?thesis using enq_wait_transfers [OF inv Enq_wait] by (auto simp: step_def Enq_wait)
    qed (use inv inv' in \<open>auto intro!: quiet_transfers simp: step_def Enq_wait step_enq_wait_def\<close>)
  next
    case (Deq_cas m b ch n)
    show ?thesis
    proof (cases "cons_head (r_cons (c_ring s)) = ch")
      case True
      then show ?thesis using deq_cas_transfers [OF inv Deq_cas time] by (auto simp: step_def Deq_cas)
    qed (use inv inv' in \<open>auto intro!: quiet_transfers simp: step_def Deq_cas step_deq_cas_def cmpset_cons_head_def conc_simps\<close>)
  qed (use inv inv' le in \<open>auto intro!: quiet_transfers simp: step_def step_enq_read_def step_enq_check_def step_enq_cas_def
        step_enq_copy_def step_deq_read_def step_deq_check_def step_deq_copy_def step_deq_wait_def cmpset_prod_head_def
        Let_def conc_simps ring_cap_def split: sum.splits prod.splits if_splits\<close>)
qed

lemma exec_transfers:
  assumes "conc_inv s" and "timely s" and "allowed s a"
  shows "\<exists>ts. transfers s (exec a s) ts"
proof (cases a)
  case (Step l)
  then show ?thesis using step_transfers [OF assms(1,2)] by simp
qed (use assms exec_inv [OF assms] in \<open>auto intro!: quiet_transfers simp: conc_simps\<close>)

lemma reachable_replay:
  assumes "reachable r s" and "ring_ok r"
  shows "ring_cap (c_ring s) = ring_cap r \<and> replay (ring_cap r) (ring_items r) (c_log s) = Some (conc_items (c_ring s))"
  using assms
proof induction
  case reach_start
  then show ?case using start_inv(3) [OF \<open>ring_ok r\<close>] by (simp add: start_def Let_def)
next
  case (reach_step s a)
  obtain ts where "transfers s (exec a s) ts"
    using exec_transfers reachable_inv [OF reach_step.hyps(1) reach_step.prems] reach_step.hyps(2) by blast
  then show ?case using reach_step.IH [OF reach_step.prems] by (simp add: transfers_def replay_append)
qed


text \<open>C5: In every interleaving of enqueues and dequeues by any number of lcores, each of at least one object and with fewer
  than \<open>2 ^ 32\<close> objects passing between a read of a head and the compare-and-set, the ring behaves as one
  queue: the log of transfers is a legal run of a queue of the ring's capacity that starts with the
  ring's contents and ends with its present contents, and an lcore that is about to return
  from a dequeue has in its table exactly the objects of its last transfer.\<close>
theorem ring_linearizable:
  assumes "ring_ok r" and "reachable r s"
  shows "replay (ring_cap r) (ring_items r) (c_log s) = Some (conc_items (c_ring s)) \<and>
    (\<forall>l b ch n got. c_pc s l = Deq_wait b ch n got \<longrightarrow> got = last_out l (c_log s) \<and> length got = unat n)"
proof -
  have "got = last_out l (c_log s) \<and> length got = unat n" if "c_pc s l = Deq_wait b ch n got" for l b ch n got
    using conc_invD(5) [OF reachable_inv(1) [OF assms(2,1)], of l] that by auto
  then show ?thesis using reachable_replay [OF assms(2,1)] by blast
qed

section \<open>No interference, progress\<close>

text \<open>The cell that the next step of a call reads or writes.\<close>

fun touches :: "u32 \<Rightarrow> 'a pc \<Rightarrow> u32 option" where
  "touches msk (Enq_copy objs b ph n f i) = (if i < unat n then Some ((ph + of_nat i) AND msk) else None)"
| "touches msk (Deq_copy b ch n got) = (if length got < unat n then Some ((ch + of_nat (length got)) AND msk) else None)"
| "touches msk _ = None"

definition writing :: "'a pc \<Rightarrow> bool" where
  "writing p = (case p of Enq_copy _ _ _ _ _ _ \<Rightarrow> True | _ \<Rightarrow> False)"

lemma touches_claim:
  assumes inv: "conc_inv s" and "touches (prod_mask (r_prod (c_ring s))) (c_pc s l) = Some c"
  shows "\<exists>i st n. c = of_nat i AND prod_mask (r_prod (c_ring s)) \<and> st \<le> i \<and> i < st + n \<and>
    (if writing (c_pc s l) then pclaims s l = Some (st, n) else cclaims s l = Some (st, n))"
proof (cases "c_pc s l")
  case (Enq_copy objs b ph n f i)
  then show ?thesis using assms(2) conc_invD(5) [OF inv, of l]
    by (intro exI [of _ "c_seen s l + i"] exI [of _ "c_seen s l"] exI [of _ "unat n"])
       (auto simp: pclaims_def writing_def split: if_splits)
next
  case (Deq_copy b ch n got)
  then show ?thesis using assms(2) conc_invD(5) [OF inv, of l]
    by (intro exI [of _ "c_seen s l + length got"] exI [of _ "c_seen s l"] exI [of _ "unat n"])
       (auto simp: cclaims_def writing_def split: if_splits)
qed (use assms(2) in simp_all)

text \<open>C6: In every interleaving, a cell that an lcore is about to write is not the cell that another lcore is about to read or write:
  the copies of the enqueues and dequeues never race.\<close>
theorem ring_no_race:
  assumes "ring_ok r" and "reachable r s" and "l \<noteq> k" and "writing (c_pc s l)"
    and "touches (prod_mask (r_prod (c_ring s))) (c_pc s l) = Some c"
    and "touches (prod_mask (r_prod (c_ring s))) (c_pc s k) = Some c'"
  shows "c \<noteq> c'"
proof -
  note inv = reachable_inv(1) [OF assms(2,1)]
  note i = conc_invD [OF inv] and d = geomD [OF conc_invD(1) [OF inv]]
  obtain x st n where x: "c = of_nat x AND prod_mask (r_prod (c_ring s))" "st \<le> x" "x < st + n" "pclaims s l = Some (st, n)"
    using touches_claim [OF inv assms(5)] assms(4) by auto
  obtain y st' n' where y: "c' = of_nat y AND prod_mask (r_prod (c_ring s))" "st' \<le> y" "y < st' + n'"
      "if writing (c_pc s k) then pclaims s k = Some (st', n') else cclaims s k = Some (st', n')"
    using touches_claim [OF inv assms(6)] by blast
  have lo: "g_prod_tail (c_ghost s) \<le> st" "st + n \<le> g_prod_head (c_ghost s)" using tilesD [OF i(3) x(4)] by simp_all
  have hi: "g_cons_tail (c_ghost s) \<le> y" "y < g_prod_head (c_ghost s)" "x \<noteq> y"
    using y x(2,3) lo d(6-8) tilesD [OF i(3), of k st' n'] tilesD [OF i(4), of k st' n']
      tiles_disjoint [OF i(3) x(4), of k st' n'] assms(3) by (auto split: if_splits)
  then show ?thesis
    using cell_index_inj [OF d(1), of "g_cons_tail (c_ghost s)" x y] x y(1) lo d(6-9) by auto
qed

lemma enq_alone:
  assumes "c_pc s l = Enq_copy objs b ph n f i" and "prod_tail (r_prod (c_ring s)) = ph" and "i \<le> unat n"
  shows "returned (c_pc ((step l ^^ (unat n - i + 2)) s) l)"
  using assms
proof (induction "unat n - i" arbitrary: s i)
  case 0
  obtain ret stat where "enq_ret (prod_watermark (r_prod (c_ring s))) (prod_mask (r_prod (c_ring s))) f n b = (ret, stat)"
    by fastforce
  with 0 show ?case
    by (simp add: funpow_Suc_right numeral_2_eq_2 step_def step_enq_copy_def step_enq_wait_def Let_def conc_simps returned_def
        del: funpow.simps)
next
  case (Suc d)
  let ?s = "step l s"
  have "c_pc ?s l = Enq_copy objs b ph n f (Suc i)" "prod_tail (r_prod (c_ring ?s)) = ph"
    using Suc.prems Suc.hyps(2) by (auto simp: step_def step_enq_copy_def Let_def conc_simps)
  then have "returned (c_pc ((step l ^^ (unat n - Suc i + 2)) ?s) l)"
    using Suc.hyps by (intro Suc.hyps(1)) auto
  moreover have "unat n - i + 2 = Suc (unat n - Suc i + 2)" using Suc.hyps(2) by simp
  ultimately show ?case by (simp only: funpow_Suc_right comp_apply)
qed

lemma enq_wait_alone:
  "c_pc s l = Enq_wait objs ph n ret \<Longrightarrow> prod_tail (r_prod (c_ring s)) = ph \<Longrightarrow> returned (c_pc ((step l ^^ 1) s) l)"
  by (simp add: step_def step_enq_wait_def conc_simps returned_def)

lemma deq_alone:
  assumes "c_pc s l = Deq_copy b ch n got" and "cons_tail (r_cons (c_ring s)) = ch" and "length got \<le> unat n"
  shows "returned (c_pc ((step l ^^ (unat n - length got + 2)) s) l)"
  using assms
proof (induction "unat n - length got" arbitrary: s got)
  case 0
  then show ?case
    by (simp add: funpow_Suc_right numeral_2_eq_2 step_def step_deq_copy_def step_deq_wait_def Let_def conc_simps returned_def
        del: funpow.simps)
next
  case (Suc d)
  let ?s = "step l s" and ?got = "got @ [r_ring (c_ring s) ((ch + of_nat (length got)) AND prod_mask (r_prod (c_ring s)))]"
  have "c_pc ?s l = Deq_copy b ch n ?got" "cons_tail (r_cons (c_ring ?s)) = ch"
    using Suc.prems Suc.hyps(2) by (auto simp: step_def step_deq_copy_def Let_def conc_simps)
  then have "returned (c_pc ((step l ^^ (unat n - length ?got + 2)) ?s) l)"
    using Suc.hyps by (intro Suc.hyps(1)) auto
  moreover have "unat n - length got + 2 = Suc (unat n - length ?got + 2)" using Suc.hyps(2) by simp
  ultimately show ?case by (simp only: funpow_Suc_right comp_apply)
qed

lemma deq_wait_alone:
  "c_pc s l = Deq_wait b ch n got \<Longrightarrow> cons_tail (r_cons (c_ring s)) = ch \<Longrightarrow> returned (c_pc ((step l ^^ 1) s) l)"
  by (simp add: step_def step_deq_wait_def conc_simps returned_def)

lemma first_producer:
  assumes inv: "conc_inv s" and "pclaims s l = Some (g_prod_tail (c_ghost s), m)"
  shows "\<exists>k \<le> ring_cap (c_ring s) + 2. returned (c_pc ((step l ^^ k) s) l)"
proof -
  note i = conc_invD [OF inv] and d = geomD [OF conc_invD(1) [OF inv]]
  have m: "m \<le> ring_cap (c_ring s)" using tilesD(2) [OF i(3) assms(2)] d(6-9) by simp
  show ?thesis
  proof (cases "c_pc s l")
    case (Enq_copy objs b ph n f j)
    then have "prod_tail (r_prod (c_ring s)) = ph" "j \<le> unat n" "unat n = m"
      using i(5) [of l] assms(2) d(3) by (auto simp: pclaims_def)
    then show ?thesis using enq_alone [OF Enq_copy] m by (intro exI [of _ "unat n - j + 2"]) simp
  next
    case (Enq_wait objs ph n ret)
    then have "prod_tail (r_prod (c_ring s)) = ph" using i(5) [of l] assms(2) d(3) by (auto simp: pclaims_def)
    then show ?thesis using enq_wait_alone [OF Enq_wait] by (intro exI [of _ 1]) simp
  qed (use assms(2) in \<open>simp_all add: pclaims_def\<close>)
qed

lemma first_consumer:
  assumes inv: "conc_inv s" and "cclaims s l = Some (g_cons_tail (c_ghost s), m)"
  shows "\<exists>k \<le> ring_cap (c_ring s) + 2. returned (c_pc ((step l ^^ k) s) l)"
proof -
  note i = conc_invD [OF inv] and d = geomD [OF conc_invD(1) [OF inv]]
  have m: "m \<le> ring_cap (c_ring s)" using tilesD(2) [OF i(4) assms(2)] d(6-9) by simp
  show ?thesis
  proof (cases "c_pc s l")
    case (Deq_copy b ch n got)
    then have "cons_tail (r_cons (c_ring s)) = ch" "length got \<le> unat n" "unat n = m"
      using i(5) [of l] assms(2) d(5) by (auto simp: cclaims_def)
    then show ?thesis using deq_alone [OF Deq_copy] m by (intro exI [of _ "unat n - length got + 2"]) simp
  next
    case (Deq_wait b ch n got)
    then have "cons_tail (r_cons (c_ring s)) = ch" using i(5) [of l] assms(2) d(5) by (auto simp: cclaims_def)
    then show ?thesis using deq_wait_alone [OF Deq_wait] by (intro exI [of _ 1]) simp
  qed (use assms(2) in \<open>simp_all add: cclaims_def\<close>)
qed

text \<open>A call that has moved a head and has not yet stored its tail.\<close>

definition claiming :: "'a pc \<Rightarrow> bool" where
  "claiming p = (case p of Enq_copy _ _ _ _ _ _ \<Rightarrow> True | Enq_wait _ _ _ _ \<Rightarrow> True | Deq_copy _ _ _ _ \<Rightarrow> True
     | Deq_wait _ _ _ _ \<Rightarrow> True | _ \<Rightarrow> False)"

text \<open>C7: The waiting loops never block each other for ever: in every interleaving, as long as some call has moved a head and not
  stored its tail, there is such a call that returns within the capacity of the ring plus two steps of
  its lcore, whatever the others wait for.\<close>
theorem ring_progress:
  assumes "ring_ok r" and "reachable r s" and "claiming (c_pc s k)"
  shows "\<exists>l m. claiming (c_pc s l) \<and> m \<le> ring_cap r + 2 \<and> returned (c_pc ((step l ^^ m) s) l)"
proof -
  note inv = reachable_inv(1) [OF assms(2,1)]
  note i = conc_invD [OF inv]
  have cap: "ring_cap (c_ring s) = ring_cap r" using reachable_replay [OF assms(2,1)] by simp
  have p: "claiming (c_pc s l)" if "pclaims s l \<noteq> None \<or> cclaims s l \<noteq> None" for l
    using that by (auto simp: claiming_def pclaims_def cclaims_def split: pc.splits)
  obtain x n where "pclaims s k = Some (x, n) \<or> cclaims s k = Some (x, n)"
    using assms(3) by (auto simp: claiming_def pclaims_def cclaims_def split: pc.splits)
  then show ?thesis
  proof
    assume "pclaims s k = Some (x, n)"
    then obtain l m where l: "pclaims s l = Some (g_prod_tail (c_ghost s), m)"
      using tiles_first [OF i(3)] tilesD [OF i(3)] by fastforce
    then show ?thesis using first_producer [OF inv l] p [of l] cap by auto
  next
    assume "cclaims s k = Some (x, n)"
    then obtain l m where l: "cclaims s l = Some (g_cons_tail (c_ghost s), m)"
      using tiles_first [OF i(4)] tilesD [OF i(4)] by fastforce
    then show ?thesis using first_consumer [OF inv l] p [of l] cap by auto
  qed
qed

section \<open>Schedules\<close>

definition run :: "'a conc \<Rightarrow> 'a action list \<Rightarrow> 'a conc" where
  "run s acts = foldl (\<lambda>s a. exec a s) s acts"

lemma run_simps [simp]: "run s [] = s" "run s (a # acts) = run (exec a s) acts" by (simp_all add: run_def)

primrec legal :: "'a conc \<Rightarrow> 'a action list \<Rightarrow> bool" where
  "legal s [] \<longleftrightarrow> True"
| "legal s (a # acts) \<longleftrightarrow> allowed s a \<and> timely (exec a s) \<and> legal (exec a s) acts"

lemma legal_reachable: "reachable r s \<Longrightarrow> legal s acts \<Longrightarrow> reachable r (run s acts)"
  by (induction acts arbitrary: s) (auto intro: reach_step)

text \<open>An enqueue on lcore 0 and a dequeue on lcore 1, both with their heads moved and no object copied yet.\<close>

definition sample_schedule :: "nat action list" where
  "sample_schedule = [Call_enqueue 0 [7] RTE_RING_QUEUE_FIXED, Call_dequeue 1 1 RTE_RING_QUEUE_FIXED,
     Step 0, Step 1, Step 0, Step 1, Step 0, Step 1]"

lemmas step_defs = step_def step_enq_read_def step_enq_check_def step_enq_cas_def step_enq_copy_def step_enq_wait_def
  step_deq_read_def step_deq_check_def step_deq_cas_def step_deq_copy_def step_deq_wait_def enq_room_def deq_avail_def
  cmpset_prod_head_def cmpset_cons_head_def Let_def conc_simps

lemma sample_legal: "legal (start sample_ring) sample_schedule"
  by (simp add: sample_schedule_def start_def sample_ring_def ring_used_def step_defs returned_def timely_def)

lemma sample_pcs:
  "c_pc (run (start sample_ring) sample_schedule) 0 = Enq_copy [7] RTE_RING_QUEUE_FIXED 0 1 1 0"
  "c_pc (run (start sample_ring) sample_schedule) 1 = Deq_copy RTE_RING_QUEUE_FIXED 0xFFFFFFFE 1 []"
  by (simp_all add: sample_schedule_def start_def sample_ring_def ring_used_def step_defs)


lemmas sample_reachable = legal_reachable [OF reach_start sample_legal]

theorem ring_linearizable_witness:
  "\<exists>s. reachable sample_ring s \<and> claiming (c_pc s 1) \<and>
     replay (ring_cap sample_ring) (ring_items sample_ring) (c_log s) = Some (conc_items (c_ring s))"
  using ring_linearizable [OF sample_ring_ok(1) sample_reachable] sample_reachable sample_pcs
  by (auto simp: claiming_def intro!: exI [of _ "run (start sample_ring) sample_schedule"])

theorem ring_no_race_witness:
  "writing (c_pc (run (start sample_ring) sample_schedule) 0) \<and> (0 AND 3 :: u32) \<noteq> 0xFFFFFFFE AND 3"
proof -
  let ?s = "run (start sample_ring) sample_schedule"
  have w: "writing (c_pc ?s 0)" by (simp add: sample_pcs writing_def)
  have m: "prod_mask (r_prod (c_ring ?s)) = 3"
    by (simp add: sample_schedule_def start_def sample_ring_def ring_used_def step_defs)
  have t: "touches (prod_mask (r_prod (c_ring ?s))) (c_pc ?s 0) = Some (0 AND 3)"
    "touches (prod_mask (r_prod (c_ring ?s))) (c_pc ?s 1) = Some (0xFFFFFFFE AND 3)"
    unfolding m sample_pcs by simp_all
  show ?thesis using ring_no_race [OF sample_ring_ok(1) sample_reachable _ w t] w by simp
qed

theorem ring_progress_witness:
  "\<exists>l m. m \<le> ring_cap sample_ring + 2 \<and>
     returned (c_pc ((step l ^^ m) (run (start sample_ring) sample_schedule)) l)"
proof -
  have "claiming (c_pc (run (start sample_ring) sample_schedule) 0)" by (simp add: sample_pcs claiming_def)
  from ring_progress [OF sample_ring_ok(1) sample_reachable this] show ?thesis by blast
qed

text \<open>The restriction to calls of at least one object is needed.\<close>

lemma wait_forever:
  assumes "c_pc s l = Enq_wait objs ph n ret" and "prod_tail (r_prod (c_ring s)) \<noteq> ph"
  shows "(step l ^^ k) s = s"
proof (induction k)
  case (Suc k)
  then show ?case using assms by (simp add: step_def step_enq_wait_def)
qed simp

text \<open>C8: A multi-producer enqueue of zero objects can wait for ever: lcore 0 moves the head by nothing, then lcore 1 enqueues an
  object and returns; the tail has passed the position that lcore 0 waits for, and however many steps
  lcore 0 makes, it does not return.\<close>
theorem ring_zero_enqueue_waits:
  fixes x :: 'a
  assumes "ring_ok r" and "ring_used r < ring_cap r"
  defines "s \<equiv> run (start r) ([Call_enqueue 0 [] RTE_RING_QUEUE_FIXED, Step 0, Step 0, Step 0,
     Call_enqueue 1 [x] RTE_RING_QUEUE_FIXED, Step 1, Step 1, Step 1, Step 1, Step 1, Step 1])"
  shows "returned (c_pc s 1) \<and> (\<forall>k. \<not> returned (c_pc ((step 0 ^^ k) s) 0))"
proof -
  note ok = ring_okD [OF assms(1)]
  let ?ph = "prod_head (r_prod r)" and ?free = "prod_mask (r_prod r) + cons_tail (r_cons r) - prod_head (r_prod r)"
  have "unat ?free = ring_cap r - ring_used r" by (rule free_entries_eq [OF assms(1)])
  then have free: "\<not> ?free < 1" using assms(2) by (simp add: word_less_nat_alt)
  have tail: "prod_tail (r_prod r) = ?ph" using assms(1) by (simp add: ring_ok_def)
  obtain ret stat where e: "enq_ret (prod_watermark (r_prod r)) (prod_mask (r_prod r)) ?free 1 RTE_RING_QUEUE_FIXED = (ret, stat)"
    by fastforce
  have s: "returned (c_pc s 1)" "c_pc s 0 = Enq_copy [] RTE_RING_QUEUE_FIXED ?ph 0 ?free 0"
    "prod_tail (r_prod (c_ring s)) = ?ph + 1"
    using free e tail unfolding assms(3) by (simp_all add: start_def step_defs returned_def)
  have "\<not> returned (c_pc ((step 0 ^^ k) s) 0)" for k
  proof (cases k)
    case 0
    then show ?thesis using s(2) by (simp add: returned_def)
  next
    case (Suc j)
    obtain r0 stat0 where e0: "enq_ret (prod_watermark (r_prod (c_ring s))) (prod_mask (r_prod (c_ring s))) ?free 0
        RTE_RING_QUEUE_FIXED = (r0, stat0)" by fastforce
    have w: "c_pc (step 0 s) 0 = Enq_wait [] ?ph 0 r0" "prod_tail (r_prod (c_ring (step 0 s))) = ?ph + 1"
      using s(2,3) e0 by (simp_all add: step_def step_enq_copy_def Let_def conc_simps)
    then have "(step 0 ^^ j) (step 0 s) = step 0 s" by (intro wait_forever [OF w(1)]) simp
    then have "(step 0 ^^ k) s = step 0 s" unfolding Suc funpow_Suc_right by simp
    then show ?thesis using w(1) by (simp add: returned_def)
  qed
  with s(1) show ?thesis by simp
qed

theorem ring_zero_enqueue_waits_witness:
  "\<not> returned (c_pc ((step 0 ^^ 1000) (run (start sample_ring) [Call_enqueue 0 [] RTE_RING_QUEUE_FIXED, Step 0, Step 0, Step 0,
     Call_enqueue 1 [5] RTE_RING_QUEUE_FIXED, Step 1, Step 1, Step 1, Step 1, Step 1, Step 1])) 0)"
proof -
  have "ring_used sample_ring < ring_cap sample_ring" by (simp add: sample_ring_ok)
  from ring_zero_enqueue_waits [OF sample_ring_ok(1) this, of 5] show ?thesis by blast
qed

end
