(* ===== verification/Mempool.thy ===== *)
theory Mempool
  imports Ring_Queue "HOL-Library.Multiset"
begin

text \<open>
  The object pool of \<open>dpdk-2.0.0/lib/librte_mempool\<close> (\<open>rte_mempool.c\<close>, \<open>rte_mempool.h\<close>): sizing of
  objects, placement of objects in (possibly scattered) memory, creation of a pool, and the get and
  put operations with their per-lcore caches in front of the ring. Objects are addresses. The
  build has \<open>RTE_LIBRTE_MEMPOOL_DEBUG\<close> off (no cookies, no statistics), no Xen support, and
  \<open>RTE_MEMPOOL_CACHE_MAX_SIZE\<close> 512.
\<close>

section \<open>The structures\<close>

definition RTE_MEMPOOL_CACHE_MAX_SIZE :: u32 where "RTE_MEMPOOL_CACHE_MAX_SIZE = 512"
definition RTE_MEMPOOL_NAMESIZE :: nat where "RTE_MEMPOOL_NAMESIZE = 32"
definition RTE_MEMPOOL_MZ_PREFIX :: string where "RTE_MEMPOOL_MZ_PREFIX = ''MP_''"
definition MEMPOOL_PG_SHIFT_MAX :: u32 where "MEMPOOL_PG_SHIFT_MAX = 63"
definition MEMPOOL_PG_NUM_DEFAULT :: u32 where "MEMPOOL_PG_NUM_DEFAULT = 1"
definition MEMPOOL_F_NO_SPREAD :: u32 where "MEMPOOL_F_NO_SPREAD = 0x0001"
definition MEMPOOL_F_NO_CACHE_ALIGN :: u32 where "MEMPOOL_F_NO_CACHE_ALIGN = 0x0002"
definition MEMPOOL_F_SP_PUT :: u32 where "MEMPOOL_F_SP_PUT = 0x0004"
definition MEMPOOL_F_SC_GET :: u32 where "MEMPOOL_F_SC_GET = 0x0008"

lemmas mempool_consts = RTE_MEMPOOL_CACHE_MAX_SIZE_def RTE_MEMPOOL_NAMESIZE_def
  RTE_MEMPOOL_MZ_PREFIX_def MEMPOOL_PG_SHIFT_MAX_def MEMPOOL_PG_NUM_DEFAULT_def
  MEMPOOL_F_NO_SPREAD_def MEMPOOL_F_NO_CACHE_ALIGN_def MEMPOOL_F_SP_PUT_def MEMPOOL_F_SC_GET_def

record rte_mempool_cache =
  cache_len :: u32
  cache_objs :: "u64 carray"

record rte_mempool_objsz =
  sz_elt_size :: u32
  sz_header_size :: u32
  sz_trailer_size :: u32
  sz_total_size :: u32

record rte_mempool =
  mp_name :: string
  mp_ring :: "u64 rte_ring"
  mp_phys_addr :: u64
  mp_flags :: u32
  mp_size :: u32
  mp_cache_size :: u32
  mp_cache_flushthresh :: u32
  mp_elt_size :: u32
  mp_header_size :: u32
  mp_trailer_size :: u32
  mp_private_data_size :: u32
  mp_local_cache :: "u32 \<Rightarrow> rte_mempool_cache"
  mp_pg_num :: u32
  mp_pg_shift :: u32
  mp_pg_mask :: u64
  mp_elt_va_start :: u64
  mp_elt_va_end :: u64
  mp_elt_pa :: "nat \<Rightarrow> u64"

text \<open>What the pool reads of the environment: hugepage support, the page size, the memory
  channels and ranks and the page-table lookup.\<close>

record mem_env =
  has_hugepages :: bool
  page_size :: u32
  nchannel :: u32
  nrank :: u32
  mem_virt2phy :: "u64 \<Rightarrow> u64"

section \<open>Object sizes\<close>

function gcd_loop :: "u32 \<Rightarrow> u32 \<Rightarrow> u32" where
  "gcd_loop a b = (if b \<noteq> 0 then gcd_loop b (a mod b) else a)"
  by pat_completeness auto
termination
  by (relation "measure (\<lambda>(a, b). unat b)") (auto simp: unat_mod unat_gt_0)

declare gcd_loop.simps [simp del]

definition get_gcd :: "u32 \<Rightarrow> u32 \<Rightarrow> u32" where
  "get_gcd a b =
     (if a = 0 then b else if b = 0 then a
      else if a < b then gcd_loop b a else gcd_loop a b)"

text \<open>The counter reaches 1 at the latest after wrapping around, so the loop always ends.\<close>

lemma gcd_loop_1: "gcd_loop a 1 = 1"
  by (simp add: gcd_loop.simps [of a 1] gcd_loop.simps [of 1 0])

lemma get_gcd_1: "get_gcd 1 m = 1"
proof -
  have "gcd_loop 1 m = 1" if "\<not> 1 < m" "m \<noteq> 0"
  proof -
    have "unat m = 1" using that by (auto simp: word_less_nat_alt le_Suc_eq not_less unsigned_eq_0_iff)
    then have "m = 1" by (metis unat_1 word_unat_eq_iff)
    then show ?thesis by (simp add: gcd_loop_1)
  qed
  then show ?thesis by (simp add: get_gcd_def gcd_loop_1)
qed

function coprime_from :: "u32 \<Rightarrow> u32 \<Rightarrow> u32" where
  "coprime_from m sz = (if get_gcd sz m \<noteq> 1 then coprime_from m (sz + 1) else sz)"
  by pat_completeness auto
termination
  by (relation "measure (\<lambda>(m, sz). unat (1 - sz))")
    (use get_gcd_1 in \<open>auto simp only: in_measure prod.case intro!: word_diff_decrease\<close>)

declare coprime_from.simps [simp del]

definition optimize_object_size :: "mem_env \<Rightarrow> u32 \<Rightarrow> u32" where
  "optimize_object_size env obj_size =
     (let nchan = (if nchannel env = 0 then 1 else nchannel env);
          nrnk = (if nrank env = 0 then 1 else nrank env);
          new_obj_size = (obj_size + 63) div 64
      in coprime_from (nrnk * nchan) new_obj_size * 64)"

text \<open>Returns the total size, or 0 when objects cannot fit a page without hugepages.\<close>

definition rte_mempool_calc_obj_size ::
  "mem_env \<Rightarrow> u32 \<Rightarrow> u32 \<Rightarrow> u32 \<times> rte_mempool_objsz" where
  "rte_mempool_calc_obj_size env elt_size flags =
     (let header_size = (if flags AND MEMPOOL_F_NO_CACHE_ALIGN = 0 then RTE_ALIGN_CEIL 8 64 else 8);
          elt_size = RTE_ALIGN_CEIL elt_size 8;
          trailer_size = (if flags AND MEMPOOL_F_NO_CACHE_ALIGN = 0
                          then (64 - ((header_size + elt_size + 0) AND 63)) AND 63 else 0);
          trailer_size = (if flags AND MEMPOOL_F_NO_SPREAD = 0
                          then optimize_object_size env (header_size + elt_size + trailer_size)
                                 - header_size - elt_size
                          else trailer_size);
          new_size = page_size env - header_size - elt_size
      in if \<not> has_hugepages env \<and> (sint new_size < 0 \<or> new_size < trailer_size)
         then (0, \<lparr>sz_elt_size = elt_size, sz_header_size = header_size,
                  sz_trailer_size = trailer_size,
                  sz_total_size = (if flags AND MEMPOOL_F_NO_CACHE_ALIGN = 0
                                   then header_size + elt_size else 0)\<rparr>)
         else (let trailer_size = (if has_hugepages env then trailer_size else new_size);
                   total_size = header_size + elt_size + trailer_size
               in (total_size, \<lparr>sz_elt_size = elt_size, sz_header_size = header_size,
                                sz_trailer_size = trailer_size, sz_total_size = total_size\<rparr>)))"

section \<open>Placement of the objects\<close>

text \<open>How far from page \<open>k\<close> towards page \<open>pgn\<close> the physical pages are contiguous.\<close>

function contig_until :: "(nat \<Rightarrow> u64) \<Rightarrow> u64 \<Rightarrow> u32 \<Rightarrow> u32 \<Rightarrow> u32" where
  "contig_until paddr pg_sz pgn k =
     (if k \<noteq> pgn \<and> paddr (unat k) + pg_sz = paddr (unat (k + 1))
      then contig_until paddr pg_sz pgn (k + 1) else k)"
  by pat_completeness auto
termination
  by (relation "measure (\<lambda>(paddr, pg_sz, pgn, k). unat (pgn - k))")
    (auto simp: word_diff_decrease)

declare contig_until.simps [simp del]

text \<open>\<open>obj_iter start end i s\<close> is the callback with its argument as the state \<open>s\<close>.\<close>

function obj_iter_loop ::
  "u32 \<Rightarrow> u64 \<Rightarrow> u64 \<Rightarrow> (nat \<Rightarrow> u64) \<Rightarrow> u32 \<Rightarrow> u32 \<Rightarrow> (u64 \<Rightarrow> u64 \<Rightarrow> u32 \<Rightarrow> 's \<Rightarrow> 's) \<Rightarrow>
   u32 \<Rightarrow> u32 \<Rightarrow> u64 \<Rightarrow> 's \<Rightarrow> u32 \<times> 's" where
  "obj_iter_loop elt_num elt_sz align paddr pg_num pg_shift obj_iter i j va s =
     (if i \<noteq> elt_num \<and> j \<noteq> pg_num then
        (let pg_sz = push_bit (unat pg_shift) 1;
             start = RTE_ALIGN_CEIL va align;
             end' = start + elt_sz;
             pgn = ucast (drop_bit (unat pg_shift) end' - drop_bit (unat pg_shift) start) + j
         in if pgn \<ge> pg_num then (i, s)
            else if contig_until paddr pg_sz pgn j = pgn
            then obj_iter_loop elt_num elt_sz align paddr pg_num pg_shift obj_iter
                   (i + 1) pgn end' (obj_iter start end' i s)
            else obj_iter_loop elt_num elt_sz align paddr pg_num pg_shift obj_iter
                   i (j + 1) (RTE_ALIGN_CEIL (va + 1) pg_sz) s)
      else (i, s))"
  by pat_completeness auto
termination
  by (relation "measures [\<lambda>(elt_num, _, _, _, _, _, _, i, _). unat (elt_num - i),
      \<lambda>(_, _, _, _, pg_num, _, _, _, j, _). unat (pg_num - j)]")
    (auto simp: word_diff_decrease)

declare obj_iter_loop.simps [simp del]

definition rte_mempool_obj_iter ::
  "u64 \<Rightarrow> u32 \<Rightarrow> u64 \<Rightarrow> u64 \<Rightarrow> (nat \<Rightarrow> u64) \<Rightarrow> u32 \<Rightarrow> u32 \<Rightarrow>
   (u64 \<Rightarrow> u64 \<Rightarrow> u32 \<Rightarrow> 's \<Rightarrow> 's) \<Rightarrow> 's \<Rightarrow> u32 \<times> 's" where
  "rte_mempool_obj_iter vaddr elt_num elt_sz align paddr pg_num pg_shift obj_iter s =
     obj_iter_loop elt_num elt_sz align paddr pg_num pg_shift obj_iter 0 0 vaddr s"

definition rte_mempool_xmem_size :: "u32 \<Rightarrow> u64 \<Rightarrow> u32 \<Rightarrow> u64" where
  "rte_mempool_xmem_size elt_num elt_sz pg_shift =
     (let pg_sz = push_bit (unat pg_shift) 1; n = pg_sz div elt_sz in
      if n > 0 then push_bit (unat pg_shift) ((ucast elt_num + n - 1) div n)
      else RTE_ALIGN_CEIL elt_sz pg_sz * ucast elt_num)"

definition mempool_lelem_iter :: "u64 \<Rightarrow> u64 \<Rightarrow> u32 \<Rightarrow> u64 \<Rightarrow> u64" where
  "mempool_lelem_iter start end' idx arg = end'"

text \<open>The result has type \<open>ssize_t\<close>; \<open>-n\<close> is computed in 32 bits before the conversion.\<close>

definition rte_mempool_xmem_usage ::
  "u64 \<Rightarrow> u32 \<Rightarrow> u64 \<Rightarrow> (nat \<Rightarrow> u64) \<Rightarrow> u32 \<Rightarrow> u32 \<Rightarrow> int" where
  "rte_mempool_xmem_usage vaddr elt_num elt_sz paddr pg_num pg_shift =
     (let pg_sz = push_bit (unat pg_shift) 1;
          (n, uv) = rte_mempool_obj_iter vaddr elt_num elt_sz 1 paddr pg_num pg_shift
                      mempool_lelem_iter vaddr
      in if n \<noteq> elt_num then sint (ucast (- n) :: u64)
         else sint (RTE_ALIGN_CEIL uv pg_sz - vaddr))"

section \<open>Putting objects back\<close>

definition set_cache :: "u32 \<Rightarrow> rte_mempool_cache \<Rightarrow> rte_mempool \<Rightarrow> rte_mempool" where
  "set_cache lcore c mp = mp\<lparr>mp_local_cache := (mp_local_cache mp)(lcore := c)\<rparr>"

text \<open>The label \<open>ring_enqueue\<close>: the ring's result is ignored.\<close>

definition put_ring_enqueue ::
  "u32 \<Rightarrow> rte_mempool \<Rightarrow> u64 carray \<Rightarrow> u32 \<Rightarrow> bool \<Rightarrow> rte_mempool option" where
  "put_ring_enqueue lcore mp obj_table n is_mp =
     (if is_mp
      then map_option (\<lambda>(ret, r). mp\<lparr>mp_ring := r\<rparr>)
             (rte_ring_mp_enqueue_bulk lcore (mp_ring mp) obj_table n)
      else Some (mp\<lparr>mp_ring := snd (rte_ring_sp_enqueue_bulk lcore (mp_ring mp) obj_table n)\<rparr>))"

definition mempool_put_bulk ::
  "u32 \<Rightarrow> rte_mempool \<Rightarrow> u64 carray \<Rightarrow> u32 \<Rightarrow> bool \<Rightarrow> rte_mempool option" where
  "mempool_put_bulk lcore mp obj_table n is_mp =
     (let cache_size = mp_cache_size mp; flushthresh = mp_cache_flushthresh mp in
      if cache_size = 0 \<or> \<not> is_mp \<or> lcore \<ge> RTE_MAX_LCORE
      then put_ring_enqueue lcore mp obj_table n is_mp
      else if n > RTE_MEMPOOL_CACHE_MAX_SIZE
      then put_ring_enqueue lcore mp obj_table n is_mp
      else
        (let cache = mp_local_cache mp lcore;
             objs = for_n n (\<lambda>index objs. objs(cache_len cache + index := obj_table index))
                      (cache_objs cache);
             len = cache_len cache + n
         in if len \<ge> flushthresh
            then map_option
                   (\<lambda>(ret, r). set_cache lcore \<lparr>cache_len = cache_size, cache_objs = objs\<rparr>
                                 (mp\<lparr>mp_ring := r\<rparr>))
                   (rte_ring_mp_enqueue_bulk lcore (mp_ring mp) (arr_from objs cache_size)
                     (len - cache_size))
            else Some (set_cache lcore \<lparr>cache_len = len, cache_objs = objs\<rparr> mp)))"

definition rte_mempool_mp_put_bulk ::
  "u32 \<Rightarrow> rte_mempool \<Rightarrow> u64 carray \<Rightarrow> u32 \<Rightarrow> rte_mempool option" where
  "rte_mempool_mp_put_bulk lcore mp obj_table n = mempool_put_bulk lcore mp obj_table n True"

definition rte_mempool_sp_put_bulk ::
  "u32 \<Rightarrow> rte_mempool \<Rightarrow> u64 carray \<Rightarrow> u32 \<Rightarrow> rte_mempool option" where
  "rte_mempool_sp_put_bulk lcore mp obj_table n = mempool_put_bulk lcore mp obj_table n False"

definition rte_mempool_put_bulk ::
  "u32 \<Rightarrow> rte_mempool \<Rightarrow> u64 carray \<Rightarrow> u32 \<Rightarrow> rte_mempool option" where
  "rte_mempool_put_bulk lcore mp obj_table n =
     mempool_put_bulk lcore mp obj_table n (mp_flags mp AND MEMPOOL_F_SP_PUT = 0)"

definition rte_mempool_mp_put :: "u32 \<Rightarrow> rte_mempool \<Rightarrow> u64 \<Rightarrow> rte_mempool option" where
  "rte_mempool_mp_put lcore mp obj = rte_mempool_mp_put_bulk lcore mp (\<lambda>_. obj) 1"

definition rte_mempool_sp_put :: "u32 \<Rightarrow> rte_mempool \<Rightarrow> u64 \<Rightarrow> rte_mempool option" where
  "rte_mempool_sp_put lcore mp obj = rte_mempool_sp_put_bulk lcore mp (\<lambda>_. obj) 1"

definition rte_mempool_put :: "u32 \<Rightarrow> rte_mempool \<Rightarrow> u64 \<Rightarrow> rte_mempool option" where
  "rte_mempool_put lcore mp obj = rte_mempool_put_bulk lcore mp (\<lambda>_. obj) 1"

section \<open>Getting objects\<close>

text \<open>The label \<open>ring_dequeue\<close>.\<close>

definition get_ring_dequeue ::
  "u32 \<Rightarrow> rte_mempool \<Rightarrow> u64 carray \<Rightarrow> u32 \<Rightarrow> bool \<Rightarrow> (int \<times> u64 carray \<times> rte_mempool) option" where
  "get_ring_dequeue lcore mp obj_table n is_mc =
     map_option (\<lambda>(ret, tbl, r). (ret, tbl, mp\<lparr>mp_ring := r\<rparr>))
       (if is_mc then rte_ring_mc_dequeue_bulk lcore (mp_ring mp) obj_table n
        else Some (rte_ring_sc_dequeue_bulk lcore (mp_ring mp) obj_table n))"

text \<open>
  The end of the cached path: the answer is taken from the top of the cache, newest object first.
\<close>

definition get_from_cache ::
  "u32 \<Rightarrow> rte_mempool \<Rightarrow> u64 carray \<Rightarrow> u32 \<Rightarrow> int \<times> u64 carray \<times> rte_mempool" where
  "get_from_cache lcore mp obj_table n =
     (let cache = mp_local_cache mp lcore;
          tbl = for_n n (\<lambda>index tbl. tbl(index := cache_objs cache (cache_len cache - 1 - index)))
                  obj_table
      in (0, tbl, set_cache lcore (cache\<lparr>cache_len := cache_len cache - n\<rparr>) mp))"

definition mempool_get_bulk ::
  "u32 \<Rightarrow> rte_mempool \<Rightarrow> u64 carray \<Rightarrow> u32 \<Rightarrow> bool \<Rightarrow> (int \<times> u64 carray \<times> rte_mempool) option" where
  "mempool_get_bulk lcore mp obj_table n is_mc =
     (let cache_size = mp_cache_size mp in
      if cache_size = 0 \<or> \<not> is_mc \<or> n \<ge> cache_size \<or> lcore \<ge> RTE_MAX_LCORE
      then get_ring_dequeue lcore mp obj_table n is_mc
      else
        (let cache = mp_local_cache mp lcore in
         if cache_len cache < n then
           (let req = n + (cache_size - cache_len cache) in
            case rte_ring_mc_dequeue_bulk lcore (mp_ring mp)
                   (arr_from (cache_objs cache) (cache_len cache)) req of
              None \<Rightarrow> None
            | Some (ret, tbl, r) \<Rightarrow>
                (let mp = set_cache lcore (cache\<lparr>cache_objs := arr_back tbl (cache_len cache)\<rparr>)
                            (mp\<lparr>mp_ring := r\<rparr>)
                 in if ret < 0 then get_ring_dequeue lcore mp obj_table n is_mc
                    else Some (get_from_cache lcore
                           (set_cache lcore
                             \<lparr>cache_len = cache_len cache + req,
                              cache_objs = arr_back tbl (cache_len cache)\<rparr> mp) obj_table n)))
         else Some (get_from_cache lcore mp obj_table n)))"

definition rte_mempool_mc_get_bulk ::
  "u32 \<Rightarrow> rte_mempool \<Rightarrow> u64 carray \<Rightarrow> u32 \<Rightarrow> (int \<times> u64 carray \<times> rte_mempool) option" where
  "rte_mempool_mc_get_bulk lcore mp obj_table n = mempool_get_bulk lcore mp obj_table n True"

definition rte_mempool_sc_get_bulk ::
  "u32 \<Rightarrow> rte_mempool \<Rightarrow> u64 carray \<Rightarrow> u32 \<Rightarrow> (int \<times> u64 carray \<times> rte_mempool) option" where
  "rte_mempool_sc_get_bulk lcore mp obj_table n = mempool_get_bulk lcore mp obj_table n False"

definition rte_mempool_get_bulk ::
  "u32 \<Rightarrow> rte_mempool \<Rightarrow> u64 carray \<Rightarrow> u32 \<Rightarrow> (int \<times> u64 carray \<times> rte_mempool) option" where
  "rte_mempool_get_bulk lcore mp obj_table n =
     mempool_get_bulk lcore mp obj_table n (mp_flags mp AND MEMPOOL_F_SC_GET = 0)"

definition rte_mempool_mc_get ::
  "u32 \<Rightarrow> rte_mempool \<Rightarrow> u64 carray \<Rightarrow> (int \<times> u64 carray \<times> rte_mempool) option" where
  "rte_mempool_mc_get lcore mp obj_p = rte_mempool_mc_get_bulk lcore mp obj_p 1"

definition rte_mempool_sc_get ::
  "u32 \<Rightarrow> rte_mempool \<Rightarrow> u64 carray \<Rightarrow> (int \<times> u64 carray \<times> rte_mempool) option" where
  "rte_mempool_sc_get lcore mp obj_p = rte_mempool_sc_get_bulk lcore mp obj_p 1"

definition rte_mempool_get ::
  "u32 \<Rightarrow> rte_mempool \<Rightarrow> u64 carray \<Rightarrow> (int \<times> u64 carray \<times> rte_mempool) option" where
  "rte_mempool_get lcore mp obj_p = rte_mempool_get_bulk lcore mp obj_p 1"

section \<open>Queries\<close>

definition rte_mempool_count :: "rte_mempool \<Rightarrow> u32" where
  "rte_mempool_count mp =
     (let count = rte_ring_count (mp_ring mp) in
      if mp_cache_size mp = 0 then count
      else (let count = for_n RTE_MAX_LCORE
                  (\<lambda>lcore count. count + cache_len (mp_local_cache mp lcore)) count
            in if count > mp_size mp then mp_size mp else count))"

definition rte_mempool_free_count :: "rte_mempool \<Rightarrow> u32" where
  "rte_mempool_free_count mp = mp_size mp - rte_mempool_count mp"

definition rte_mempool_full :: "rte_mempool \<Rightarrow> bool" where
  "rte_mempool_full mp \<longleftrightarrow> rte_mempool_count mp = mp_size mp"

definition rte_mempool_empty :: "rte_mempool \<Rightarrow> bool" where
  "rte_mempool_empty mp \<longleftrightarrow> rte_mempool_count mp = 0"

definition rte_mempool_virt2phy :: "mem_env \<Rightarrow> rte_mempool \<Rightarrow> u64 \<Rightarrow> u64" where
  "rte_mempool_virt2phy env mp elt =
     (if has_hugepages env
      then (let off = elt - mp_elt_va_start mp
            in mp_elt_pa mp (unat (drop_bit (unat (mp_pg_shift mp)) off)) + (off AND mp_pg_mask mp))
      else mem_virt2phy env elt)"

text \<open>\<open>Inl lcore\<close> is the panic "invalid cache len" for that lcore's cache.\<close>

definition mempool_audit_cache :: "rte_mempool \<Rightarrow> u32 + unit" where
  "mempool_audit_cache mp =
     for_n RTE_MAX_LCORE
       (\<lambda>lcore res. case res of
            Inl l \<Rightarrow> Inl l
          | Inr _ \<Rightarrow> if cache_len (mp_local_cache mp lcore) > mp_cache_flushthresh mp then Inl lcore
                     else Inr ())
       (Inr ())"

definition rte_mempool_audit :: "rte_mempool \<Rightarrow> u32 + unit" where
  "rte_mempool_audit mp = mempool_audit_cache mp"

section \<open>Creation\<close>

text \<open>
  \<open>w_pools\<close> holds the pool at each address, \<open>w_list\<close> the addresses on the tail queue, \<open>w_rings\<close>
  the rings' tail queue, \<open>w_owner\<close> the pool pointer stored in front of each object, \<open>w_errno\<close>
  \<open>rte_errno\<close> and \<open>w_user\<close> whatever the callbacks \<open>mp_init\<close> and \<open>obj_init\<close> write.
\<close>

record 'w mp_world =
  w_pools :: "u64 \<Rightarrow> rte_mempool"
  w_list :: "u64 list"
  w_rings :: "u64 rte_ring list"
  w_owner :: "u64 \<Rightarrow> u64"
  w_errno :: int
  w_user :: 'w

record memzone =
  mz_addr :: u64
  mz_phys_addr :: u64

text \<open>The allocator the creation calls: ring zone, pool zone, and the two list entries.\<close>

record alloc_env =
  ring_zmalloc_ok :: bool
  ring_reserve :: "string \<Rightarrow> int \<Rightarrow> int \<Rightarrow> u32 \<Rightarrow> int + u64 rte_ring"
  pool_zmalloc_ok :: bool
  pool_reserve :: "string \<Rightarrow> u64 \<Rightarrow> int \<Rightarrow> u32 \<Rightarrow> int + memzone"

definition sizeof_rte_mempool :: u64 where "sizeof_rte_mempool = 1581248"

definition MEMPOOL_HEADER_SIZE :: "u32 \<Rightarrow> u64" where
  "MEMPOOL_HEADER_SIZE pgn = sizeof_rte_mempool + RTE_ALIGN_CEIL ((ucast pgn - 1) * 8) 64"

definition rte_mempool_get_priv :: "u64 \<Rightarrow> rte_mempool \<Rightarrow> u64" where
  "rte_mempool_get_priv mp_addr mp = mp_addr + MEMPOOL_HEADER_SIZE (mp_pg_num mp)"

definition mempool_from_obj :: "u64 \<Rightarrow> u64" where
  "mempool_from_obj obj = obj - 8"

definition rte_mempool_from_obj :: "'w mp_world \<Rightarrow> u64 \<Rightarrow> u64" where
  "rte_mempool_from_obj w obj = w_owner w (mempool_from_obj obj)"

definition rte_align32pow2 :: "u32 \<Rightarrow> u32" where
  "rte_align32pow2 x =
     (let x = x - 1;
          x = x OR drop_bit 1 x;
          x = x OR drop_bit 2 x;
          x = x OR drop_bit 4 x;
          x = x OR drop_bit 8 x;
          x = x OR drop_bit 16 x
      in x + 1)"

text \<open>\<open>RTE_LEN2MASK(ln, uintptr_t)\<close>.\<close>

definition RTE_LEN2MASK64 :: "u32 \<Rightarrow> u64" where
  "RTE_LEN2MASK64 ln = drop_bit (64 - unat ln) (- 1)"

text \<open>A constructor callback: the pool, the object, its index and the callbacks' memory.\<close>

type_synonym 'w obj_ctor = "u64 \<Rightarrow> rte_mempool \<Rightarrow> u64 \<Rightarrow> u32 \<Rightarrow> 'w \<Rightarrow> 'w"

definition mempool_add_elem ::
  "u32 \<Rightarrow> u64 \<Rightarrow> 'w obj_ctor option \<Rightarrow> u64 \<Rightarrow> u32 \<Rightarrow> 'w mp_world \<Rightarrow> 'w mp_world" where
  "mempool_add_elem lcore mp_addr obj_init obj obj_idx w =
     (let mp = w_pools w mp_addr;
          obj = obj + ucast (mp_header_size mp);
          w = w\<lparr>w_owner := (w_owner w)(mempool_from_obj obj := mp_addr)\<rparr>;
          w = (case obj_init of None \<Rightarrow> w
               | Some f \<Rightarrow> w\<lparr>w_user := f mp_addr mp obj obj_idx (w_user w)\<rparr>)
      in w\<lparr>w_pools := (w_pools w)(mp_addr :=
            mp\<lparr>mp_ring := snd (rte_ring_sp_enqueue lcore (mp_ring mp) obj)\<rparr>)\<rparr>)"

definition mempool_obj_populate ::
  "u32 \<Rightarrow> u64 \<Rightarrow> 'w obj_ctor option \<Rightarrow> u64 \<Rightarrow> u64 \<Rightarrow> u32 \<Rightarrow> 'w mp_world \<Rightarrow> 'w mp_world" where
  "mempool_obj_populate lcore mp_addr obj_init start end' idx w =
     (let w = mempool_add_elem lcore mp_addr obj_init start idx w
      in w\<lparr>w_pools := (w_pools w)(mp_addr := (w_pools w mp_addr)\<lparr>mp_elt_va_end := end'\<rparr>)\<rparr>)"

definition mempool_populate ::
  "u32 \<Rightarrow> u64 \<Rightarrow> u32 \<Rightarrow> u64 \<Rightarrow> 'w obj_ctor option \<Rightarrow> 'w mp_world \<Rightarrow> 'w mp_world" where
  "mempool_populate lcore mp_addr num align obj_init w =
     (let mp = w_pools w mp_addr;
          elt_sz = mp_elt_size mp + mp_header_size mp + mp_trailer_size mp;
          (n, w) = rte_mempool_obj_iter (mp_elt_va_start mp) num (ucast elt_sz) align
                     (mp_elt_pa mp) (mp_pg_num mp) (mp_pg_shift mp)
                     (mempool_obj_populate lcore mp_addr obj_init) w
      in w\<lparr>w_pools := (w_pools w)(mp_addr := (w_pools w mp_addr)\<lparr>mp_size := n\<rparr>)\<rparr>)"

definition empty_cache :: rte_mempool_cache where
  "empty_cache = \<lparr>cache_len = 0, cache_objs = (\<lambda>_. 0)\<rparr>"

text \<open>
  \<open>RTE_MEMZONE_1GB | RTE_MEMZONE_SIZE_HINT_ONLY\<close>; the checks before any lock is taken, the ring,
  the list entry, the zone, the structure, the objects. The result is the pool's address, or
  \<open>None\<close> for NULL with the reason in \<open>w_errno\<close>. A NULL \<open>vaddr\<close> is \<open>None\<close>.
\<close>

definition pool_zone_flags :: u32 where "pool_zone_flags = 0x2 OR 0x4"

definition align_up_page :: "mem_env \<Rightarrow> u64 \<Rightarrow> u64" where
  "align_up_page env addr =
     (if addr AND (ucast (page_size env) - 1) \<noteq> 0
      then (addr + ucast (page_size env)) AND NOT (ucast (page_size env) - 1) else addr)"

definition priv_size :: "mem_env \<Rightarrow> u32 \<Rightarrow> u32" where
  "priv_size env private_data_size =
     (let p = (private_data_size + 63) AND NOT 63;
          new_size = (p + ucast sizeof_rte_mempool) mod page_size env
      in if \<not> has_hugepages env \<and> new_size \<noteq> 0 then p + (page_size env - new_size) else p)"

definition pool_struct ::
  "string \<Rightarrow> u64 rte_ring \<Rightarrow> memzone \<Rightarrow> u64 \<Rightarrow> u32 \<Rightarrow> u32 \<Rightarrow> u32 \<Rightarrow> rte_mempool_objsz \<Rightarrow> u32 \<Rightarrow>
   u64 option \<Rightarrow> (nat \<Rightarrow> u64) option \<Rightarrow> u32 \<Rightarrow> u32 \<Rightarrow> rte_mempool" where
  "pool_struct name r mz mp_addr flags n cache_size objsz private_data_size vaddr paddr pg_num pg_shift =
     (let obj = mp_addr + MEMPOOL_HEADER_SIZE pg_num + ucast private_data_size;
          start = (case vaddr of None \<Rightarrow> obj | Some v \<Rightarrow> v)
      in \<lparr>mp_name = take (RTE_MEMPOOL_NAMESIZE - 1) name, mp_ring = r,
          mp_phys_addr = mz_phys_addr mz, mp_flags = flags, mp_size = n,
          mp_cache_size = cache_size, mp_cache_flushthresh = cache_size * 3 div 2,
          mp_elt_size = sz_elt_size objsz, mp_header_size = sz_header_size objsz,
          mp_trailer_size = sz_trailer_size objsz, mp_private_data_size = private_data_size,
          mp_local_cache = (\<lambda>_. empty_cache), mp_pg_num = pg_num, mp_pg_shift = pg_shift,
          mp_pg_mask = RTE_LEN2MASK64 pg_shift, mp_elt_va_start = start, mp_elt_va_end = start,
          mp_elt_pa = (case vaddr of
              None \<Rightarrow> (\<lambda>_. 0)(0 := mz_phys_addr mz + (obj - mp_addr))
            | Some _ \<Rightarrow> (case paddr of None \<Rightarrow> (\<lambda>_. 0) | Some p \<Rightarrow> p))\<rparr>)"

definition pool_finish ::
  "u32 \<Rightarrow> u64 \<Rightarrow> rte_mempool \<Rightarrow> u32 \<Rightarrow> (u64 \<Rightarrow> rte_mempool \<Rightarrow> 'w \<Rightarrow> 'w) option \<Rightarrow> 'w obj_ctor option \<Rightarrow>
   'w mp_world \<Rightarrow> u64 option \<times> 'w mp_world" where
  "pool_finish lcore mp_addr mp n mp_init obj_init w =
     (let w = w\<lparr>w_pools := (w_pools w)(mp_addr := mp)\<rparr>;
          w = (case mp_init of None \<Rightarrow> w
               | Some f \<Rightarrow> w\<lparr>w_user := f mp_addr mp (w_user w)\<rparr>);
          w = mempool_populate lcore mp_addr n 1 obj_init w
      in (Some mp_addr, w\<lparr>w_list := w_list w @ [mp_addr]\<rparr>))"

definition rte_mempool_xmem_create ::
  "mem_env \<Rightarrow> alloc_env \<Rightarrow> u32 \<Rightarrow> string \<Rightarrow> u32 \<Rightarrow> u32 \<Rightarrow> u32 \<Rightarrow> u32 \<Rightarrow>
   (u64 \<Rightarrow> rte_mempool \<Rightarrow> 'w \<Rightarrow> 'w) option \<Rightarrow> 'w obj_ctor option \<Rightarrow> int \<Rightarrow> u32 \<Rightarrow>
   u64 option \<Rightarrow> (nat \<Rightarrow> u64) option \<Rightarrow> u32 \<Rightarrow> u32 \<Rightarrow> 'w mp_world \<Rightarrow> u64 option \<times> 'w mp_world" where
  "rte_mempool_xmem_create env al lcore name n elt_size cache_size private_data_size
     mp_init obj_init socket_id flags vaddr paddr pg_num pg_shift w =
     (if cache_size > RTE_MEMPOOL_CACHE_MAX_SIZE then (None, w\<lparr>w_errno := EINVAL\<rparr>)
      else if vaddr \<noteq> None \<and> paddr = None then (None, w\<lparr>w_errno := EINVAL\<rparr>)
      else if pg_num < 1 \<or> pg_shift > MEMPOOL_PG_SHIFT_MAX then (None, w\<lparr>w_errno := EINVAL\<rparr>)
      else
        (let flags = (if flags AND MEMPOOL_F_NO_CACHE_ALIGN \<noteq> 0
                      then flags OR MEMPOOL_F_NO_SPREAD else flags);
             rg_flags = (if flags AND MEMPOOL_F_SP_PUT \<noteq> 0 then RING_F_SP_ENQ else 0) OR
                        (if flags AND MEMPOOL_F_SC_GET \<noteq> 0 then RING_F_SC_DEQ else 0);
             (tsz, objsz) = rte_mempool_calc_obj_size env elt_size flags
         in if tsz = 0 then (None, w\<lparr>w_errno := EINVAL\<rparr>)
            else
              (case rte_ring_create (ring_zmalloc_ok al) (ring_reserve al) (w_rings w)
                      (take (RTE_RING_NAMESIZE - 1) (RTE_MEMPOOL_MZ_PREFIX @ name))
                      (rte_align32pow2 (n + 1)) socket_id rg_flags of
                 (Inl e, _) \<Rightarrow> (None, w\<lparr>w_errno := e\<rparr>)
               | (Inr r, rings) \<Rightarrow>
                   (let w = w\<lparr>w_rings := rings\<rparr>;
                        private_data_size = priv_size env private_data_size
                    in if \<not> pool_zmalloc_ok al then (None, w)
                       else
                         (let mempool_size = MEMPOOL_HEADER_SIZE pg_num + ucast private_data_size +
                                (if vaddr = None then ucast (sz_total_size objsz) * ucast n else 0) +
                                (if has_hugepages env then 0 else ucast (page_size env))
                          in case pool_reserve al
                                    (take (RTE_MEMZONE_NAMESIZE - 1) (RTE_MEMPOOL_MZ_PREFIX @ name))
                                    mempool_size socket_id pool_zone_flags of
                               Inl e \<Rightarrow> (None, w\<lparr>w_errno := e\<rparr>)
                             | Inr mz \<Rightarrow>
                                 (let mp_addr = (if has_hugepages env then mz_addr mz
                                                 else align_up_page env (mz_addr mz));
                                      mp = pool_struct name r mz mp_addr flags n cache_size objsz
                                             private_data_size vaddr paddr pg_num pg_shift
                                  in pool_finish lcore mp_addr mp n mp_init obj_init w))))))"

definition rte_mempool_create ::
  "mem_env \<Rightarrow> alloc_env \<Rightarrow> u32 \<Rightarrow> string \<Rightarrow> u32 \<Rightarrow> u32 \<Rightarrow> u32 \<Rightarrow> u32 \<Rightarrow>
   (u64 \<Rightarrow> rte_mempool \<Rightarrow> 'w \<Rightarrow> 'w) option \<Rightarrow> 'w obj_ctor option \<Rightarrow> int \<Rightarrow> u32 \<Rightarrow>
   'w mp_world \<Rightarrow> u64 option \<times> 'w mp_world" where
  "rte_mempool_create env al lcore name n elt_size cache_size private_data_size
     mp_init obj_init socket_id flags w =
     rte_mempool_xmem_create env al lcore name n elt_size cache_size private_data_size
       mp_init obj_init socket_id flags None None MEMPOOL_PG_NUM_DEFAULT MEMPOOL_PG_SHIFT_MAX w"

fun rte_mempool_lookup :: "'w mp_world \<Rightarrow> string \<Rightarrow> int + u64" where
  "rte_mempool_lookup w name =
     (case filter (\<lambda>a. strncmp_eq name (mp_name (w_pools w a)) RTE_MEMPOOL_NAMESIZE) (w_list w) of
        [] \<Rightarrow> Inl ENOENT
      | a # _ \<Rightarrow> Inr a)"

end
