(* ===== verification/Mempool_Spec.thy ===== *)
theory Mempool_Spec
  imports Mempool
begin

text \<open>
  What a memory pool promises: \<open>pool_free\<close> is the multiset of objects it can still give out (the
  ring and all caches), \<open>mempool_ok\<close> its invariant. Putting adds exactly the given objects, getting
  removes exactly the returned ones or fails without effect.
\<close>

section \<open>The invariant and the free objects\<close>

definition cache_items :: "rte_mempool_cache \<Rightarrow> u64 list" where
  "cache_items c = table_list (cache_objs c) (unat (cache_len c))"

definition pool_free :: "rte_mempool \<Rightarrow> u64 multiset" where
  "pool_free mp = mset (ring_items (mp_ring mp)) +
     (\<Sum>l \<in> {l. l < RTE_MAX_LCORE}. mset (cache_items (mp_local_cache mp l)))"

definition mempool_ok :: "rte_mempool \<Rightarrow> bool" where
  "mempool_ok mp \<longleftrightarrow> ring_ok (mp_ring mp) \<and> mp_cache_size mp \<le> RTE_MEMPOOL_CACHE_MAX_SIZE \<and>
     mp_cache_flushthresh mp = mp_cache_size mp * 3 div 2 \<and>
     (\<forall>l < RTE_MAX_LCORE. cache_len (mp_local_cache mp l) \<le> mp_cache_flushthresh mp) \<and>
     unat (mp_size mp) \<le> ring_cap (mp_ring mp) \<and> size (pool_free mp) \<le> unat (mp_size mp)"

text \<open>What the operations never change of a pool.\<close>

definition pool_desc :: "rte_mempool \<Rightarrow> u32 \<times> u32 \<times> u64 \<times> u32 \<times> u64 \<times> (nat \<Rightarrow> u64)" where
  "pool_desc mp = (mp_flags mp, mp_elt_size mp, mp_elt_va_start mp, mp_pg_shift mp, mp_pg_mask mp, mp_elt_pa mp)"

lemma pool_desc_ring [simp]: "pool_desc (mp\<lparr>mp_ring := r\<rparr>) = pool_desc mp"
  by (simp add: pool_desc_def)

lemma mempool_okD:
  assumes "mempool_ok mp"
  shows "ring_ok (mp_ring mp)" "unat (mp_cache_size mp) \<le> 512"
    "unat (mp_cache_flushthresh mp) = unat (mp_cache_size mp) * 3 div 2"
    "l < RTE_MAX_LCORE \<Longrightarrow> unat (cache_len (mp_local_cache mp l)) \<le> unat (mp_cache_flushthresh mp)"
    "unat (mp_size mp) \<le> ring_cap (mp_ring mp)" "size (pool_free mp) \<le> unat (mp_size mp)"
proof -
  have le: "unat (mp_cache_size mp) \<le> 512"
    using assms by (simp add: mempool_ok_def mempool_consts word_le_nat_alt)
  then show "unat (mp_cache_size mp) \<le> 512" .
  show "unat (mp_cache_flushthresh mp) = unat (mp_cache_size mp) * 3 div 2"
    using assms le by (simp add: mempool_ok_def unat_div unat_word_ariths)
qed (use assms in \<open>auto simp: mempool_ok_def word_le_nat_alt\<close>)

lemma finite_lcores [simp]: "finite {l. l < RTE_MAX_LCORE}"
  by simp

lemma pool_free_split:
  assumes "l < RTE_MAX_LCORE"
  shows "pool_free mp = mset (ring_items (mp_ring mp)) + mset (cache_items (mp_local_cache mp l)) +
    (\<Sum>l \<in> {l. l < RTE_MAX_LCORE} - {l}. mset (cache_items (mp_local_cache mp l)))"
  using assms by (simp add: pool_free_def sum.remove [of _ l] ac_simps)

lemma pool_free_set_cache:
  assumes "l < RTE_MAX_LCORE"
  shows "pool_free (set_cache l c mp) + mset (cache_items (mp_local_cache mp l)) =
    pool_free mp + mset (cache_items c)"
  using assms by (simp add: pool_free_split [OF assms] set_cache_def ac_simps)

lemma pool_free_set_ring:
  "pool_free (mp\<lparr>mp_ring := r\<rparr>) + mset (ring_items (mp_ring mp)) = pool_free mp + mset (ring_items r)"
  by (simp add: pool_free_def)

lemma set_cache_fields [simp]:
  "mp_ring (set_cache l c mp) = mp_ring mp" "mp_cache_size (set_cache l c mp) = mp_cache_size mp"
  "mp_cache_flushthresh (set_cache l c mp) = mp_cache_flushthresh mp"
  "mp_size (set_cache l c mp) = mp_size mp" "mp_flags (set_cache l c mp) = mp_flags mp"
  "mp_local_cache (set_cache l c mp) = (mp_local_cache mp)(l := c)"
  "pool_desc (set_cache l c mp) = pool_desc mp"
  by (simp_all add: set_cache_def pool_desc_def)

section \<open>Tables\<close>

lemma table_list_0 [simp]: "table_list a 0 = []"
  by (simp add: table_list_def)

lemma table_list_split:
  "table_list a (i + k) = table_list a i @ table_list (arr_from a (of_nat i)) k"
  by (rule nth_equalityI) (auto simp: nth_append arr_from_def simp flip: of_nat_add)

lemma table_list_cong: "(\<And>j. j < n \<Longrightarrow> a (of_nat j) = b (of_nat j)) \<Longrightarrow> table_list a n = table_list b n"
  by (simp add: table_list_def)

lemma for_n_put: "for_n n (\<lambda>index objs. objs(d + index := tbl index)) objs
    = put_block (unat n) d 0 tbl objs"
  by (rule for_n_inv [where P = "\<lambda>k s. s = put_block k d 0 tbl objs"])
    (use unat_less_2p32 [of n] in \<open>simp_all add: put_block_snoc del: unat_less_2p32\<close>)

lemma table_list_put_block:
  assumes "unat len + n < 2 ^ 32"
  shows "table_list (put_block n len 0 tbl objs) (unat len + n) = table_list objs (unat len) @ table_list tbl n"
proof -
  have "unat (of_nat j - len) \<ge> n" if "j < unat len" for j
    using that assms unat_diff_of_nat [of "unat len" "of_nat j"]
    by (simp add: unat_of_nat del: of_nat_diff)
  then have 1: "table_list (put_block n len 0 tbl objs) (unat len) = table_list objs (unat len)"
    by (intro table_list_cong) (simp add: put_block_def linorder_not_le [symmetric])
  have "arr_from (put_block n len 0 tbl objs) len (of_nat j) = tbl (of_nat j)" if "j < n" for j
    using that assms by (simp add: arr_from_def put_block_def unat_of_nat)
  then have 2: "table_list (arr_from (put_block n len 0 tbl objs) len) n = table_list tbl n"
    by (intro table_list_cong)
  from 1 2 show ?thesis by (simp add: table_list_split)
qed

section \<open>Putting\<close>

definition pool_puts :: "rte_mempool \<Rightarrow> rte_mempool \<Rightarrow> u64 list \<Rightarrow> bool" where
  "pool_puts mp mp' xs \<longleftrightarrow> mempool_ok mp' \<and> mp_size mp' = mp_size mp \<and> pool_desc mp' = pool_desc mp \<and>
     pool_free mp' = pool_free mp + mset xs \<and>
     (\<forall>l i. 3 * RTE_MEMPOOL_CACHE_MAX_SIZE \<le> i \<longrightarrow>
        cache_objs (mp_local_cache mp' l) i = cache_objs (mp_local_cache mp l) i)"

lemma mempool_ok_set_ring:
  assumes "mempool_ok mp" and "ring_ok r" and "ring_cap r = ring_cap (mp_ring mp)"
    and "size (pool_free (mp\<lparr>mp_ring := r\<rparr>)) \<le> unat (mp_size mp)"
  shows "mempool_ok (mp\<lparr>mp_ring := r\<rparr>)"
  using assms by (auto simp: mempool_ok_def)

lemma mempool_ok_set_cache:
  assumes "mempool_ok mp" and "unat (cache_len c) \<le> unat (mp_cache_flushthresh mp)"
    and "size (pool_free (set_cache l c mp)) \<le> unat (mp_size mp)"
  shows "mempool_ok (set_cache l c mp)"
  using assms by (auto simp: mempool_ok_def word_le_nat_alt)

lemma ring_used_le_free: "ring_used (mp_ring mp) \<le> size (pool_free mp)"
  by (simp add: pool_free_def)

lemma put_ring_enqueue_ok:
  assumes ok: "mempool_ok mp" and room: "size (pool_free mp) + unat n \<le> unat (mp_size mp)"
  shows "\<exists>mp'. put_ring_enqueue lcore mp tbl n is_mp = Some mp' \<and>
    pool_puts mp mp' (table_list tbl (unat n))"
proof -
  note ring = mempool_okD(1) [OF ok]
  have fits: "length (ring_items (mp_ring mp)) + unat n \<le> ring_cap (mp_ring mp)"
    using room mempool_okD(5) [OF ok] ring_used_le_free [of mp] by simp
  from mring.enq_fits [OF ring fits, of lcore tbl] obtain ret r where
    e: "rte_ring_mp_enqueue_bulk lcore (mp_ring mp) tbl n = Some (ret, r)" and
    r: "ring_ok r" "ring_cap r = ring_cap (mp_ring mp)"
       "ring_items r = ring_items (mp_ring mp) @ table_list tbl (unat n)" by blast
  have "rte_ring_sp_enqueue_bulk lcore (mp_ring mp) tbl n = (ret, r)"
    using e by (simp add: bulk_variants_eq [OF ring])
  then have res: "put_ring_enqueue lcore mp tbl n is_mp = Some (mp\<lparr>mp_ring := r\<rparr>)"
    using e by (simp add: put_ring_enqueue_def)
  have free: "pool_free (mp\<lparr>mp_ring := r\<rparr>) = pool_free mp + mset (table_list tbl (unat n))"
    by (simp add: pool_free_def r ac_simps)
  have "mempool_ok (mp\<lparr>mp_ring := r\<rparr>)"
    by (rule mempool_ok_set_ring [OF ok]) (use r room in \<open>simp_all add: free\<close>)
  with res free show ?thesis by (simp add: pool_puts_def)
qed

lemma cache_len_le_free:
  assumes "l < RTE_MAX_LCORE"
  shows "ring_used (mp_ring mp) + unat (cache_len (mp_local_cache mp l)) \<le> size (pool_free mp)"
  using assms by (simp add: pool_free_split [OF assms] cache_items_def)

text \<open>The cache after the copy loop, before the flush.\<close>

lemma put_cache_items:
  fixes tbl :: "u64 carray"
  assumes ok: "mempool_ok mp" and l: "l < RTE_MAX_LCORE" and n: "unat n \<le> 512"
  defines "c \<equiv> mp_local_cache mp l"
  defines "objs \<equiv> for_n n (\<lambda>index objs. objs(cache_len c + index := tbl index)) (cache_objs c)"
  shows "unat (cache_len c + n) = unat (cache_len c) + unat n"
    "table_list objs (unat (cache_len c) + unat n) = cache_items c @ table_list tbl (unat n)"
    "3 * RTE_MEMPOOL_CACHE_MAX_SIZE \<le> i \<Longrightarrow> objs i = cache_objs c i"
proof -
  have len: "unat (cache_len c) \<le> 768"
    using mempool_okD(2-4) [OF ok] l by (fastforce simp: c_def)
  show "unat (cache_len c + n) = unat (cache_len c) + unat n"
    using len n by (simp add: unat_word_ariths)
  show "table_list objs (unat (cache_len c) + unat n) = cache_items c @ table_list tbl (unat n)"
    using len n by (simp add: objs_def for_n_put table_list_put_block cache_items_def)
  assume "3 * RTE_MEMPOOL_CACHE_MAX_SIZE \<le> i"
  then have i: "1536 \<le> unat i" by (simp add: mempool_consts word_le_nat_alt)
  with len have "cache_len c \<le> i" by (simp add: word_le_nat_alt)
  with i len n have "\<not> unat (i - cache_len c) < unat n" by (simp add: unat_sub_le)
  then show "objs i = cache_objs c i"
    by (simp add: objs_def for_n_put put_block_def)
qed

lemma put_keep_ok:
  assumes ok: "mempool_ok mp" and room: "size (pool_free mp) + k \<le> unat (mp_size mp)"
    and l: "l < RTE_MAX_LCORE" and k: "length ys = k"
    and items: "cache_items c = cache_items (mp_local_cache mp l) @ ys"
    and len: "unat (cache_len c) \<le> unat (mp_cache_flushthresh mp)"
    and frame: "\<And>i. 3 * RTE_MEMPOOL_CACHE_MAX_SIZE \<le> i \<Longrightarrow>
      cache_objs c i = cache_objs (mp_local_cache mp l) i"
  shows "pool_puts mp (set_cache l c mp) ys"
proof -
  have free: "pool_free (set_cache l c mp) = pool_free mp + mset ys"
    using pool_free_set_cache [OF l, of c mp] by (simp add: items)
  have "mempool_ok (set_cache l c mp)"
    by (rule mempool_ok_set_cache [OF ok len]) (use free room k in simp)
  with free frame show ?thesis by (simp add: pool_puts_def)
qed

lemma put_flush_ok:
  assumes ok: "mempool_ok mp" and room: "size (pool_free mp) + unat n \<le> unat (mp_size mp)"
    and l: "l < RTE_MAX_LCORE" and cs: "mp_cache_size mp \<noteq> 0"
    and items: "table_list objs (unat (cache_len (mp_local_cache mp l)) + unat n)
      = cache_items (mp_local_cache mp l) @ table_list tbl (unat n)"
    and len: "unat len = unat (cache_len (mp_local_cache mp l)) + unat n"
      "unat (mp_cache_flushthresh mp) \<le> unat len"
    and frame: "\<And>i. 3 * RTE_MEMPOOL_CACHE_MAX_SIZE \<le> i \<Longrightarrow>
      objs i = cache_objs (mp_local_cache mp l) i"
  shows "\<exists>ret r. rte_ring_mp_enqueue_bulk l (mp_ring mp) (arr_from objs (mp_cache_size mp))
      (len - mp_cache_size mp) = Some (ret, r) \<and>
    pool_puts mp (set_cache l \<lparr>cache_len = mp_cache_size mp, cache_objs = objs\<rparr> (mp\<lparr>mp_ring := r\<rparr>))
      (table_list tbl (unat n))"
proof -
  let ?cs = "mp_cache_size mp" and ?c = "mp_local_cache mp l"
  have le: "unat ?cs \<le> unat len" using len(2) mempool_okD(3) [OF ok] by simp
  then have diff: "unat (len - ?cs) = unat len - unat ?cs"
    by (simp add: unat_sub_le word_le_nat_alt)
  have fits: "length (ring_items (mp_ring mp)) + unat (len - ?cs) \<le> ring_cap (mp_ring mp)"
    using diff len(1) room mempool_okD(5) [OF ok] cache_len_le_free [OF l, of mp] by simp
  from mring.enq_fits [OF mempool_okD(1) [OF ok] fits, of l "arr_from objs ?cs"] obtain ret r where
    e: "rte_ring_mp_enqueue_bulk l (mp_ring mp) (arr_from objs ?cs) (len - ?cs) = Some (ret, r)" and
    r: "ring_ok r" "ring_cap r = ring_cap (mp_ring mp)"
       "ring_items r = ring_items (mp_ring mp) @ table_list (arr_from objs ?cs) (unat len - unat ?cs)"
    unfolding diff by blast
  let ?c' = "\<lparr>cache_len = ?cs, cache_objs = objs\<rparr>"
  let ?mp = "set_cache l ?c' (mp\<lparr>mp_ring := r\<rparr>)"
  have "cache_items ?c' @ table_list (arr_from objs ?cs) (unat len - unat ?cs)
      = cache_items ?c @ table_list tbl (unat n)"
    using table_list_split [of objs "unat ?cs" "unat len - unat ?cs"] le len(1) items
    by (simp add: cache_items_def)
  then have "mset (cache_items ?c') + mset (table_list (arr_from objs ?cs) (unat len - unat ?cs))
      = mset (cache_items ?c) + mset (table_list tbl (unat n))" by (metis mset_append)
  then have free: "pool_free ?mp = pool_free mp + mset (table_list tbl (unat n))"
    by (simp add: pool_free_split [OF l] r ac_simps)
  have "mempool_ok ?mp"
    using ok r room mempool_okD(3) [OF ok] by (auto simp: mempool_ok_def free word_le_nat_alt)
  with e free frame show ?thesis by (simp add: pool_puts_def)
qed

lemma mempool_put_bulk_ok:
  assumes ok: "mempool_ok mp" and room: "size (pool_free mp) + unat n \<le> unat (mp_size mp)"
  shows "\<exists>mp'. mempool_put_bulk lcore mp tbl n is_mp = Some mp' \<and>
    pool_puts mp mp' (table_list tbl (unat n))"
proof (cases "mp_cache_size mp = 0 \<or> \<not> is_mp \<or> lcore \<ge> RTE_MAX_LCORE \<or> n > RTE_MEMPOOL_CACHE_MAX_SIZE")
  case True
  then show ?thesis
    using put_ring_enqueue_ok [OF assms, of lcore tbl is_mp] by (auto simp: mempool_put_bulk_def Let_def)
next
  case False
  then have l: "lcore < RTE_MAX_LCORE" and n: "unat n \<le> 512"
    by (simp_all add: mempool_consts word_le_nat_alt word_less_nat_alt not_less not_le)
  note c = put_cache_items(1) [OF ok l n] put_cache_items(2,3) [OF ok l n, where tbl = tbl]
  let ?c = "mp_local_cache mp lcore"
  let ?objs = "for_n n (\<lambda>index objs. objs(cache_len ?c + index := tbl index)) (cache_objs ?c)"
  show ?thesis
  proof (cases "cache_len ?c + n \<ge> mp_cache_flushthresh mp")
    case flush: True
    from put_flush_ok [OF ok room l, of ?objs tbl "cache_len ?c + n"] flush False c
    show ?thesis by (auto simp: mempool_put_bulk_def Let_def word_le_nat_alt)
  next
    case keep: False
    from put_keep_ok [OF ok room l, of "table_list tbl (unat n)" "\<lparr>cache_len = cache_len ?c + n, cache_objs = ?objs\<rparr>"]
      keep False c show ?thesis
      by (auto simp: mempool_put_bulk_def Let_def word_le_nat_alt cache_items_def)
  qed
qed

section \<open>Getting\<close>

definition pool_gets :: "rte_mempool \<Rightarrow> rte_mempool \<Rightarrow> u64 list \<Rightarrow> bool" where
  "pool_gets mp mp' xs \<longleftrightarrow> mempool_ok mp' \<and> mp_size mp' = mp_size mp \<and> pool_desc mp' = pool_desc mp \<and>
     pool_free mp = pool_free mp' + mset xs \<and>
     (\<forall>l i. 3 * RTE_MEMPOOL_CACHE_MAX_SIZE \<le> i \<longrightarrow>
        cache_objs (mp_local_cache mp' l) i = cache_objs (mp_local_cache mp l) i)"

text \<open>The two outcomes of a request for \<open>n\<close> objects.\<close>

definition get_outcome ::
  "rte_mempool \<Rightarrow> u64 carray \<Rightarrow> u32 \<Rightarrow> (int \<times> u64 carray \<times> rte_mempool) option \<Rightarrow> bool" where
  "get_outcome mp tbl n res \<longleftrightarrow> (\<exists>ret tbl' mp'. res = Some (ret, tbl', mp') \<and>
     (ret = 0 \<and> pool_gets mp mp' (table_list tbl' (unat n)) \<and> (\<forall>i. n \<le> i \<longrightarrow> tbl' i = tbl i) \<or>
      ret = - ENOENT \<and> tbl' = tbl \<and> pool_gets mp mp' [] \<and> ring_used (mp_ring mp) < unat n))"

lemma get_ring_dequeue_ok:
  assumes ok: "mempool_ok mp"
  shows "get_outcome mp tbl n (get_ring_dequeue lcore mp tbl n is_mc)"
proof -
  note ring = mempool_okD(1) [OF ok]
  have eq: "get_ring_dequeue lcore mp tbl n is_mc =
      map_option (\<lambda>(ret, tbl, r). (ret, tbl, mp\<lparr>mp_ring := r\<rparr>))
        (rte_ring_mc_dequeue_bulk lcore (mp_ring mp) tbl n)"
    by (simp only: get_ring_dequeue_def bulk_variants_eq [OF ring] if_cancel)
  have keep: "pool_gets mp (mp\<lparr>mp_ring := r\<rparr>) xs"
    if "ring_ok r" "ring_cap r = ring_cap (mp_ring mp)" "ring_items (mp_ring mp) = xs @ ring_items r"
    for r xs
  proof -
    have free: "pool_free mp = pool_free (mp\<lparr>mp_ring := r\<rparr>) + mset xs"
      by (simp add: pool_free_def that ac_simps)
    have "mempool_ok (mp\<lparr>mp_ring := r\<rparr>)"
      by (rule mempool_ok_set_ring [OF ok that(1,2)]) (use free mempool_okD(6) [OF ok] in simp)
    with free show ?thesis by (simp add: pool_gets_def)
  qed
  from ring show ?thesis
  proof (cases rule: mring.deq_cases [where lcore = lcore and tbl = tbl and n = n])
    case (fits tbl' r)
    with keep [of r "table_list tbl' (unat n)"] show ?thesis by (simp add: get_outcome_def eq)
  next
    case (short r)
    with keep [of r "[]"] show ?thesis by (simp add: get_outcome_def eq)
  qed
qed

lemma for_n_fill: "for_n n (\<lambda>index t. t(index := f index)) tbl = put_block (unat n) 0 0 f tbl"
  using for_n_put [of n 0 f tbl] by simp

lemma table_list_fill:
  fixes n :: u32
  shows "table_list (put_block (unat n) 0 0 f tbl) (unat n) = table_list f (unat n)"
proof (rule table_list_cong)
  fix j assume "j < unat n"
  then have "unat (of_nat j :: u32) < unat n"
    using unat_less_2p32 [of n] by (simp add: unat_of_nat del: unat_less_2p32)
  then show "put_block (unat n) 0 0 f tbl (of_nat j) = f (of_nat j)" by (simp add: put_block_def)
qed

lemma table_list_down:
  assumes "unat n \<le> unat len"
  shows "table_list (\<lambda>i. objs (len - 1 - i)) (unat n)
    = rev (drop (unat len - unat n) (table_list objs (unat len)))"
proof (rule nth_equalityI)
  fix j assume "j < length (table_list (\<lambda>i. objs (len - 1 - i)) (unat n))"
  then have j: "j < unat n" by simp
  have "of_nat (unat len - 1 - j) = len - 1 - of_nat j"
    using j assms by (simp add: of_nat_diff)
  with j assms show "table_list (\<lambda>i. objs (len - 1 - i)) (unat n) ! j
      = rev (drop (unat len - unat n) (table_list objs (unat len))) ! j"
    by (simp add: rev_nth del: of_nat_diff)
qed (use assms in simp)

lemma get_from_cache_eq:
  assumes n: "unat n \<le> unat (cache_len (mp_local_cache mp l))"
  obtains tbl' where "get_from_cache l mp tbl n = (0, tbl',
      set_cache l ((mp_local_cache mp l)\<lparr>cache_len := cache_len (mp_local_cache mp l) - n\<rparr>) mp)"
    and "cache_items (mp_local_cache mp l) =
      cache_items ((mp_local_cache mp l)\<lparr>cache_len := cache_len (mp_local_cache mp l) - n\<rparr>) @
        rev (table_list tbl' (unat n))"
    and "\<forall>i. n \<le> i \<longrightarrow> tbl' i = tbl i"
proof
  let ?c = "mp_local_cache mp l"
  let ?f = "\<lambda>index. cache_objs ?c (cache_len ?c - 1 - index)"
  let ?tbl = "put_block (unat n) 0 0 ?f tbl"
  have len: "unat (cache_len ?c - n) = unat (cache_len ?c) - unat n"
    using n by (simp add: unat_sub_le word_le_nat_alt)
  show "get_from_cache l mp tbl n = (0, ?tbl, set_cache l (?c\<lparr>cache_len := cache_len ?c - n\<rparr>) mp)"
    by (simp add: get_from_cache_def Let_def for_n_fill)
  have "take (unat (cache_len ?c) - unat n) (cache_items ?c)
      = table_list (cache_objs ?c) (unat (cache_len ?c) - unat n)"
    by (rule nth_equalityI) (auto simp: cache_items_def)
  then show "cache_items ?c = cache_items (?c\<lparr>cache_len := cache_len ?c - n\<rparr>) @
      rev (table_list ?tbl (unat n))"
    unfolding table_list_fill table_list_down [OF n] rev_rev_ident
    using append_take_drop_id [of "unat (cache_len ?c) - unat n" "cache_items ?c"]
    by (simp add: cache_items_def len)
  show "\<forall>i. n \<le> i \<longrightarrow> ?tbl i = tbl i"
    by (simp add: put_block_def word_le_nat_alt)
qed

lemma get_cached_ok:
  assumes ok: "mempool_ok mp" and l: "l < RTE_MAX_LCORE"
    and n: "unat n \<le> unat (cache_len (mp_local_cache mp l))"
  shows "get_outcome mp tbl n (Some (get_from_cache l mp tbl n))"
proof -
  let ?c = "mp_local_cache mp l"
  let ?c' = "?c\<lparr>cache_len := cache_len ?c - n\<rparr>"
  from n obtain tbl' where e: "get_from_cache l mp tbl n = (0, tbl', set_cache l ?c' mp)"
    and items: "cache_items ?c = cache_items ?c' @ rev (table_list tbl' (unat n))"
    and frame: "\<forall>i. n \<le> i \<longrightarrow> tbl' i = tbl i" by (rule get_from_cache_eq)
  have free: "pool_free mp = pool_free (set_cache l ?c' mp) + mset (table_list tbl' (unat n))"
    using pool_free_set_cache [OF l, of ?c' mp] by (simp add: items)
  have "mempool_ok (set_cache l ?c' mp)"
    by (rule mempool_ok_set_cache [OF ok])
      (use n mempool_okD(4) [OF ok l] mempool_okD(6) [OF ok] in
        \<open>simp_all add: free unat_sub_le word_le_nat_alt\<close>)
  then show ?thesis using free frame by (simp add: get_outcome_def e pool_gets_def)
qed

text \<open>Refilling the cache from the ring, and then answering from it.\<close>

lemma backfill_items:
  fixes len req :: u32
  assumes "\<forall>i. req \<le> i \<longrightarrow> tbl i = arr_from objs len i" and "unat len + unat req \<le> 1536"
  shows "table_list (arr_back tbl len) (unat len + unat req)
      = table_list objs (unat len) @ table_list tbl (unat req)"
    and "1536 \<le> unat i \<Longrightarrow> arr_back tbl len i = objs i"
proof -
  have same: "arr_back tbl len i = objs i" if "unat req \<le> unat (i - len)" for i
    using assms(1) that by (simp add: arr_back_def arr_from_def word_le_nat_alt)
  have "unat req \<le> unat (of_nat j - len)" if "j < unat len" for j
    using that assms(2) unat_diff_of_nat [of "unat len" "of_nat j"]
    by (simp add: unat_of_nat del: of_nat_diff)
  then have "table_list (arr_back tbl len) (unat len) = table_list objs (unat len)"
    by (intro table_list_cong) (simp add: same)
  moreover have "arr_from (arr_back tbl len) len = tbl"
    by (simp add: arr_from_def arr_back_def)
  ultimately show "table_list (arr_back tbl len) (unat len + unat req)
      = table_list objs (unat len) @ table_list tbl (unat req)"
    by (simp add: table_list_split)
  show "arr_back tbl len i = objs i" if "1536 \<le> unat i"
    by (rule same) (use that assms(2) in \<open>simp add: unat_sub_le word_le_nat_alt\<close>)
qed

lemma backfill_ok:
  assumes ok: "mempool_ok mp" and l: "l < RTE_MAX_LCORE"
    and n: "unat n < unat (mp_cache_size mp)" "unat (cache_len (mp_local_cache mp l)) < unat n"
    and r: "ring_ok r" "ring_cap r = ring_cap (mp_ring mp)"
      "ring_items (mp_ring mp) = table_list tbl1 (unat req) @ ring_items r"
      "\<forall>i. req \<le> i \<longrightarrow> tbl1 i = arr_from (cache_objs (mp_local_cache mp l))
         (cache_len (mp_local_cache mp l)) i"
    and req: "req = n + (mp_cache_size mp - cache_len (mp_local_cache mp l))"
  defines "c \<equiv> \<lparr>cache_len = cache_len (mp_local_cache mp l) + req,
                cache_objs = arr_back tbl1 (cache_len (mp_local_cache mp l))\<rparr>"
  shows "get_outcome mp tbl n (Some (get_from_cache l (set_cache l c (mp\<lparr>mp_ring := r\<rparr>)) tbl n))"
proof -
  let ?len = "cache_len (mp_local_cache mp l)" and ?objs = "cache_objs (mp_local_cache mp l)"
  note cs = mempool_okD(2,3) [OF ok]
  have ureq: "unat req = unat n + (unat (mp_cache_size mp) - unat ?len)"
    using n cs by (simp add: req unat_word_ariths unat_sub_le word_le_nat_alt)
  have clen: "unat (cache_len c) = unat ?len + unat req"
    using n cs by (simp add: c_def unat_word_ariths ureq)
  note bf = backfill_items [OF r(4)]
  have le: "unat ?len + unat req \<le> 1536" using ureq n cs by simp
  have items: "cache_items c = cache_items (mp_local_cache mp l) @ table_list tbl1 (unat req)"
    using bf(1) [OF le] by (simp add: cache_items_def clen) (simp add: c_def)
  let ?mp1 = "set_cache l c (mp\<lparr>mp_ring := r\<rparr>)"
  have free1: "pool_free ?mp1 = pool_free mp"
    by (simp add: pool_free_split [OF l] items r(3) ac_simps)
  have len: "unat n \<le> unat (cache_len (mp_local_cache ?mp1 l))" using clen ureq by simp
  let ?c2 = "(mp_local_cache ?mp1 l)\<lparr>cache_len := cache_len (mp_local_cache ?mp1 l) - n\<rparr>"
  from len obtain tbl' where e: "get_from_cache l ?mp1 tbl n = (0, tbl', set_cache l ?c2 ?mp1)"
    and items2: "cache_items (mp_local_cache ?mp1 l) = cache_items ?c2 @ rev (table_list tbl' (unat n))"
    and frame: "\<forall>i. n \<le> i \<longrightarrow> tbl' i = tbl i" by (rule get_from_cache_eq)
  let ?mp2 = "set_cache l ?c2 ?mp1"
  have free: "pool_free mp = pool_free ?mp2 + mset (table_list tbl' (unat n))"
    using pool_free_set_cache [OF l, of ?c2 ?mp1] by (simp add: items2 free1 del: set_cache_fields)
  have "unat (cache_len c - n) = unat (mp_cache_size mp)"
    using clen ureq n by (simp add: unat_sub_le word_le_nat_alt)
  then have "mempool_ok ?mp2"
    using ok r(1,2) free cs mempool_okD(6) [OF ok] by (auto simp: mempool_ok_def word_le_nat_alt)
  moreover have "cache_objs (mp_local_cache ?mp2 l') i = cache_objs (mp_local_cache mp l') i"
    if "3 * RTE_MEMPOOL_CACHE_MAX_SIZE \<le> i" for l' i
    using that bf(2) [OF le] by (simp add: mempool_consts word_le_nat_alt c_def)
  ultimately show ?thesis using free frame by (simp add: get_outcome_def e pool_gets_def)
qed

lemma get_outcome_cong:
  assumes "get_outcome mp1 tbl n res" and "pool_free mp1 = pool_free mp" and "mp_size mp1 = mp_size mp"
    and "pool_desc mp1 = pool_desc mp" and "mp_local_cache mp1 = mp_local_cache mp"
    and "ring_used (mp_ring mp1) = ring_used (mp_ring mp)"
  shows "get_outcome mp tbl n res"
  using assms by (simp add: get_outcome_def pool_gets_def)

lemma mempool_get_bulk_ok:
  assumes ok: "mempool_ok mp"
  shows "get_outcome mp tbl n (mempool_get_bulk lcore mp tbl n is_mc)"
proof (cases "mp_cache_size mp = 0 \<or> \<not> is_mc \<or> n \<ge> mp_cache_size mp \<or> lcore \<ge> RTE_MAX_LCORE")
  case True
  then show ?thesis
    using get_ring_dequeue_ok [OF ok, of tbl n lcore is_mc] by (simp add: mempool_get_bulk_def Let_def)
next
  case direct: False
  then have l: "lcore < RTE_MAX_LCORE" and n: "unat n < unat (mp_cache_size mp)"
    by (simp_all add: word_less_nat_alt not_le)
  let ?c = "mp_local_cache mp lcore"
  show ?thesis
  proof (cases "cache_len ?c < n")
    case False
    then have "unat n \<le> unat (cache_len ?c)" by (simp add: word_less_nat_alt)
    from get_cached_ok [OF ok l this, of tbl] False direct show ?thesis
      by (simp add: mempool_get_bulk_def Let_def)
  next
    case short: True
    let ?req = "n + (mp_cache_size mp - cache_len ?c)"
    let ?from = "arr_from (cache_objs ?c) (cache_len ?c)"
    from mempool_okD(1) [OF ok] show ?thesis
    proof (cases rule: mring.deq_cases [where lcore = lcore and tbl = ?from and n = ?req])
      case (fits tbl1 r)
      from backfill_ok [OF ok l n _ fits(2,3,4,5) refl, of tbl] fits(1) short direct show ?thesis
        by (simp add: mempool_get_bulk_def Let_def word_less_nat_alt) (simp add: set_cache_def)
    next
      case fail: (short r)
      let ?mp = "mp\<lparr>mp_ring := r\<rparr>"
      have free: "pool_free ?mp = pool_free mp" using fail(4) by (simp add: pool_free_def)
      have "mempool_ok ?mp"
        by (rule mempool_ok_set_ring [OF ok fail(2,3)]) (use free mempool_okD(6) [OF ok] in simp)
      from get_ring_dequeue_ok [OF this, of tbl n lcore is_mc]
      have "get_outcome mp tbl n (get_ring_dequeue lcore ?mp tbl n is_mc)"
        by (rule get_outcome_cong)
          (use free arg_cong [OF fail(4), of length] in simp_all)
      moreover have "set_cache lcore ?c ?mp = ?mp" by (simp add: set_cache_def)
      ultimately show ?thesis
        using fail(1) short direct by (simp add: mempool_get_bulk_def Let_def errno_defs)
    qed
  qed
qed

section \<open>The pool interface\<close>

datatype ('l, 'a) pool_op = Get 'l nat | Put 'l "'a list"

fun pool_op_fits :: "('l, 'a) pool_op \<Rightarrow> bool" where
  "pool_op_fits (Get l n) = (n < 2 ^ 32)"
| "pool_op_fits (Put l xs) = (length xs < 2 ^ 32)"

text \<open>
  A client of the pool: it holds the objects it got and puts back only objects it holds (a put of
  anything else is not issued).
\<close>

fun pool_run ::
  "('l \<Rightarrow> 'p \<Rightarrow> 'a carray \<Rightarrow> u32 \<Rightarrow> (int \<times> 'a carray \<times> 'p) option) \<Rightarrow>
   ('l \<Rightarrow> 'p \<Rightarrow> 'a carray \<Rightarrow> u32 \<Rightarrow> 'p option) \<Rightarrow> 'a carray \<Rightarrow>
   'p \<Rightarrow> 'a multiset \<Rightarrow> ('l, 'a) pool_op list \<Rightarrow> ('p \<times> 'a multiset) option" where
  "pool_run get put tbl p held [] = Some (p, held)"
| "pool_run get put tbl p held (Get l n # ops) =
     (case get l p tbl (of_nat n) of
        None \<Rightarrow> None
      | Some (ret, tbl', p') \<Rightarrow>
          pool_run get put tbl p' (if ret = 0 then held + mset (table_list tbl' n) else held) ops)"
| "pool_run get put tbl p held (Put l xs # ops) =
     (if mset xs \<subseteq># held
      then (case put l p (list_table xs) (of_nat (length xs)) of
              None \<Rightarrow> None
            | Some p' \<Rightarrow> pool_run get put tbl p' (held - mset xs) ops)
      else pool_run get put tbl p held ops)"

locale object_pool =
  fixes invar :: "'p \<Rightarrow> bool"
    and free :: "'p \<Rightarrow> 'a multiset"
    and cap :: "'p \<Rightarrow> nat"
    and desc :: "'p \<Rightarrow> 'd"
    and get :: "'l \<Rightarrow> 'p \<Rightarrow> 'a carray \<Rightarrow> u32 \<Rightarrow> (int \<times> 'a carray \<times> 'p) option"
    and put :: "'l \<Rightarrow> 'p \<Rightarrow> 'a carray \<Rightarrow> u32 \<Rightarrow> 'p option"
  assumes put_adds: "invar p \<Longrightarrow> size (free p) + unat n \<le> cap p \<Longrightarrow>
      \<exists>p'. put l p tbl n = Some p' \<and> invar p' \<and> cap p' = cap p \<and> desc p' = desc p \<and>
        free p' = free p + mset (table_list tbl (unat n))"
    and get_removes: "invar p \<Longrightarrow>
      \<exists>ret tbl' p'. get l p tbl n = Some (ret, tbl', p') \<and> invar p' \<and> cap p' = cap p \<and> desc p' = desc p \<and>
        (ret = 0 \<and> free p = free p' + mset (table_list tbl' (unat n)) \<or>
         ret = - ENOENT \<and> tbl' = tbl \<and> free p' = free p)"
begin

lemma put_one:
  assumes "invar p" and "size (free p) < cap p"
  shows "\<exists>p'. put l p (\<lambda>_. x) 1 = Some p' \<and> invar p' \<and> cap p' = cap p \<and> desc p' = desc p \<and>
    free p' = add_mset x (free p)"
  using put_adds [OF assms(1), of 1 l "\<lambda>_. x"] assms(2) by (simp add: table_list_def)

lemma get_one:
  assumes "invar p"
  obtains (got) tbl' p' where "get l p tbl 1 = Some (0, tbl', p')" "invar p'" "cap p' = cap p"
      "desc p' = desc p" "free p = add_mset (tbl' 0) (free p')"
    | (none) p' where "get l p tbl 1 = Some (- ENOENT, tbl, p')" "invar p'" "cap p' = cap p"
      "desc p' = desc p" "free p' = free p"
proof -
  from get_removes [OF assms, of l tbl 1] obtain ret tbl' p' where
    g: "get l p tbl 1 = Some (ret, tbl', p')" "invar p'" "cap p' = cap p" "desc p' = desc p"
      "ret = 0 \<and> free p = add_mset (tbl' 0) (free p') \<or> ret = - ENOENT \<and> tbl' = tbl \<and> free p' = free p"
    by (auto simp: table_list_def)
  from g(5) show thesis
  proof
    assume "ret = 0 \<and> free p = add_mset (tbl' 0) (free p')"
    with g show thesis by (intro got) auto
  next
    assume "ret = - ENOENT \<and> tbl' = tbl \<and> free p' = free p"
    with g show thesis by (intro none [of p']) auto
  qed
qed

lemma run_conserves:
  assumes "invar p" and "size (free p + held) \<le> cap p" and "list_all pool_op_fits ops"
  shows "\<exists>p' held'. pool_run get put tbl p held ops = Some (p', held') \<and> invar p' \<and>
    cap p' = cap p \<and> free p' + held' = free p + held"
  using assms
proof (induction ops arbitrary: p held)
  case Nil
  then show ?case by simp
next
  case (Cons op ops)
  show ?case
  proof (cases op)
    case (Get l n)
    with Cons.prems have n: "unat (of_nat n :: u32) = n" by (simp add: unat_of_nat)
    from get_removes [OF Cons.prems(1), of l tbl "of_nat n"] obtain ret tbl' p1 where
      p1: "get l p tbl (of_nat n) = Some (ret, tbl', p1)" "invar p1" "cap p1 = cap p"
        "ret = 0 \<and> free p = free p1 + mset (table_list tbl' n) \<or>
         ret = - ENOENT \<and> tbl' = tbl \<and> free p1 = free p" unfolding n by blast
    let ?held = "if ret = 0 then held + mset (table_list tbl' n) else held"
    have eq: "free p1 + ?held = free p + held" using p1(4) by (auto simp: errno_defs ac_simps)
    from Cons.IH [OF p1(2), of ?held] Cons.prems(2,3) Get p1 eq show ?thesis by simp
  next
    case (Put l xs)
    show ?thesis
    proof (cases "mset xs \<subseteq># held")
      case True
      from Cons.prems Put have n: "unat (of_nat (length xs) :: u32) = length xs" "length xs < 2 ^ 32"
        by (simp_all add: unat_of_nat)
      have "size (free p) + length xs \<le> cap p"
        using Cons.prems(2) size_mset_mono [OF True] by simp
      from put_adds [OF Cons.prems(1), of "of_nat (length xs)" l "list_table xs"] this n
      obtain p1 where p1: "put l p (list_table xs) (of_nat (length xs)) = Some p1" "invar p1"
        "cap p1 = cap p" "free p1 = free p + mset xs" by auto
      have eq: "free p1 + (held - mset xs) = free p + held" 
        using p1(4) True by (simp add: add.assoc subset_mset.add_diff_inverse)
      from Cons.IH [OF p1(2), of "held - mset xs"] Cons.prems(2,3) Put True p1(1,3) eq
      show ?thesis by simp
    next
      case False
      with Cons Put show ?thesis by simp
    qed
  qed
qed

end

interpretation mpool: object_pool mempool_ok pool_free "\<lambda>mp. unat (mp_size mp)" pool_desc
  rte_mempool_get_bulk rte_mempool_put_bulk
proof (unfold_locales, goal_cases)
  case (1 mp n l tbl)
  from mempool_put_bulk_ok [OF this] show ?case
    by (fastforce simp: rte_mempool_put_bulk_def pool_puts_def)
next
  case (2 mp l tbl n)
  from mempool_get_bulk_ok [OF this] show ?case
    unfolding rte_mempool_get_bulk_def get_outcome_def pool_gets_def by fastforce
qed

end
