(* ===== verification/Mempool_Props.thy ===== *)
theory Mempool_Props
  imports Mempool_Spec
begin

text \<open>
  The properties of the memory pool: conservation of objects over any sequence of requests, exact
  effects of put and get, the occupancy queries and the audit, and the object sizes.
\<close>

section \<open>Counting\<close>

lemma lcore_sum: "(\<Sum>l \<in> {l. l < RTE_MAX_LCORE}. f l) = (\<Sum>k<128. f (of_nat k))"
proof (rule sum.reindex_bij_witness [where i = "of_nat" and j = unat])
  fix l assume "l \<in> {l. l < RTE_MAX_LCORE}"
  then show "unat l \<in> {..<128}" by (simp add: RTE_MAX_LCORE_def word_less_nat_alt)
next
  fix k :: nat assume "k \<in> {..<128}"
  then show "of_nat k \<in> {l. l < RTE_MAX_LCORE}" "unat (of_nat k :: u32) = k"
    by (simp_all add: RTE_MAX_LCORE_def word_less_nat_alt unat_of_nat)
qed simp_all

lemma size_pool_free:
  "size (pool_free mp) = ring_used (mp_ring mp) + (\<Sum>k<128. unat (cache_len (mp_local_cache mp (of_nat k))))"
  by (simp add: pool_free_def lcore_sum cache_items_def size_multiset_sum)

lemma for_n_sum:
  "for_n n (\<lambda>l count. count + f l) c = c + (\<Sum>k<unat n. f (of_nat k))"
  by (rule for_n_inv [where P = "\<lambda>k s. s = c + (\<Sum>k<k. f (of_nat k))"]) (simp_all add: add.assoc)

lemma unat_sum_le:
  fixes f :: "nat \<Rightarrow> u32"
  assumes "unat c + (\<Sum>k<m. unat (f k)) < 2 ^ 32"
  shows "unat (c + (\<Sum>k<m. f k)) = unat c + (\<Sum>k<m. unat (f k))"
  using assms
proof (induction m)
  case (Suc m)
  then have "unat (c + (\<Sum>k<m. f k)) = unat c + (\<Sum>k<m. unat (f k))" by simp
  with Suc.prems show ?case
    using unat_add_less [of "c + (\<Sum>k<m. f k)" "f m"] by (simp add: add.assoc)
qed simp

section \<open>Sample pool\<close>

definition sample_uring :: "u64 rte_ring" where
  "sample_uring = \<lparr>r_name = ''MP_p'', r_flags = 0,
     r_prod = \<lparr>prod_watermark = 8, prod_sp_enqueue = 0, prod_size = 8, prod_mask = 7,
               prod_head = 5, prod_tail = 5\<rparr>,
     r_cons = \<lparr>cons_sc_dequeue = 0, cons_size = 8, cons_mask = 7, cons_head = 0, cons_tail = 0\<rparr>,
     r_stats = (\<lambda>_. zero_stats), r_ring = (\<lambda>i. 0x1000 + ucast i * 0x100)\<rparr>"

definition sample_pool :: rte_mempool where
  "sample_pool = \<lparr>mp_name = ''p'', mp_ring = sample_uring, mp_phys_addr = 0x1000, mp_flags = 0,
     mp_size = 7, mp_cache_size = 2, mp_cache_flushthresh = 3, mp_elt_size = 192,
     mp_header_size = 64, mp_trailer_size = 0, mp_private_data_size = 0,
     mp_local_cache = (\<lambda>_. empty_cache), mp_pg_num = 1, mp_pg_shift = 63,
     mp_pg_mask = RTE_LEN2MASK64 63, mp_elt_va_start = 0x1000, mp_elt_va_end = 0x1500,
     mp_elt_pa = (\<lambda>_. 0x1000)\<rparr>"

lemma sample_uring_ok: "ring_ok sample_uring" "ring_items sample_uring = [0x1000, 0x1100, 0x1200, 0x1300, 0x1400]"
  "ring_cap sample_uring = 7" "ring_used sample_uring = 5"
  by (simp_all add: ring_ok_def ring_items_def ring_cap_def ring_used_def sample_uring_def
      RTE_RING_SZ_MASK_def upt_rec)

lemma sample_pool_fields: "mp_size sample_pool = 7" "mp_ring sample_pool = sample_uring"
  by (simp_all add: sample_pool_def)

lemma sample_pool_free: "pool_free sample_pool = {#0x1000, 0x1100, 0x1200, 0x1300, 0x1400#}"
  by (simp add: pool_free_def sample_pool_def sample_uring_ok cache_items_def empty_cache_def)

lemma sample_pool_ok: "mempool_ok sample_pool"
  by (simp add: mempool_ok_def sample_pool_free)
    (simp add: sample_pool_def sample_uring_ok empty_cache_def mempool_consts)

section \<open>Properties\<close>

text \<open>C10: Objects are conserved. Whatever sequence of gets and puts several lcores issue on a
  well-formed pool, each putting back only objects it holds, every call returns, the pool stays
  well-formed, and the free objects together with the held ones are exactly those of the start: no
  object is lost, and none is handed out twice while it is held.\<close>
theorem mempool_conservation:
  assumes "mempool_ok mp" and "size (pool_free mp + held) \<le> unat (mp_size mp)"
    and "list_all pool_op_fits ops"
  shows "\<exists>mp' held'. pool_run rte_mempool_get_bulk rte_mempool_put_bulk tbl mp held ops = Some (mp', held') \<and>
    mempool_ok mp' \<and> pool_free mp' + held' = pool_free mp + held"
  using mpool.run_conserves [OF assms] by blast

theorem mempool_conservation_witness:
  "\<exists>mp' held'. pool_run rte_mempool_get_bulk rte_mempool_put_bulk (\<lambda>_. 0) sample_pool {#0x2000#}
      [Get 0 1, Get 1 3, Put 0 [0x2000], Get 0 1] = Some (mp', held') \<and>
    mempool_ok mp' \<and> pool_free mp' + held' = pool_free sample_pool + {#0x2000#}"
  by (rule mempool_conservation [OF sample_pool_ok]) (simp_all add: sample_pool_free sample_pool_fields)

text \<open>C11: Putting \<open>n\<close> objects for which the pool has room always succeeds, through the cache, by
  flushing the cache, or directly to the ring: the free objects grow by exactly the objects of the
  table, the cache lengths stay within the flush threshold, and no cell beyond the cache array of
  \<open>3 * RTE_MEMPOOL_CACHE_MAX_SIZE\<close> entries is written.\<close>
theorem mempool_put_exact:
  assumes "mempool_ok mp" and "size (pool_free mp) + unat n \<le> unat (mp_size mp)"
  shows "\<exists>mp'. mempool_put_bulk lcore mp tbl n is_mp = Some mp' \<and> mempool_ok mp' \<and>
    pool_free mp' = pool_free mp + mset (table_list tbl (unat n)) \<and>
    (\<forall>l i. 3 * RTE_MEMPOOL_CACHE_MAX_SIZE \<le> i \<longrightarrow>
       cache_objs (mp_local_cache mp' l) i = cache_objs (mp_local_cache mp l) i)"
  using mempool_put_bulk_ok [OF assms] unfolding pool_puts_def by blast

theorem mempool_put_exact_witness:
  "\<exists>mp'. mempool_put_bulk 0 sample_pool (\<lambda>_. 0x2000) 2 True = Some mp' \<and> mempool_ok mp' \<and>
    pool_free mp' = pool_free sample_pool + {#0x2000, 0x2000#}"
proof -
  have room: "size (pool_free sample_pool) + unat (2 :: u32) \<le> unat (mp_size sample_pool)"
    by (simp add: sample_pool_free sample_pool_fields)
  have tbl: "table_list (\<lambda>_. 0x2000 :: u64) (unat (2 :: u32)) = [0x2000, 0x2000]"
    by (simp add: table_list_def upt_rec)
  from mempool_put_exact [OF sample_pool_ok room, of 0 "\<lambda>_. 0x2000" True] show ?thesis
    unfolding tbl by auto
qed

text \<open>C12: Getting \<open>n\<close> objects either succeeds with result 0: the table receives \<open>n\<close> objects (and
  no other cell of it changes) and the free objects shrink by exactly those; or fails with
  \<open>-ENOENT\<close>, changing neither the table nor the free objects, and only when the ring holds fewer
  than \<open>n\<close> objects. The cache invariant is kept in both cases.\<close>
theorem mempool_get_exact:
  assumes "mempool_ok mp"
  shows "\<exists>ret tbl' mp'. mempool_get_bulk lcore mp tbl n is_mc = Some (ret, tbl', mp') \<and> mempool_ok mp' \<and>
    (ret = 0 \<and> pool_free mp = pool_free mp' + mset (table_list tbl' (unat n)) \<and>
       (\<forall>i. n \<le> i \<longrightarrow> tbl' i = tbl i) \<or>
     ret = - ENOENT \<and> tbl' = tbl \<and> pool_free mp' = pool_free mp \<and>
       unat n > length (ring_items (mp_ring mp))) \<and>
    (\<forall>l i. 3 * RTE_MEMPOOL_CACHE_MAX_SIZE \<le> i \<longrightarrow>
       cache_objs (mp_local_cache mp' l) i = cache_objs (mp_local_cache mp l) i)"
  using mempool_get_bulk_ok [OF assms, of tbl n lcore is_mc] unfolding get_outcome_def pool_gets_def
  by fastforce

theorem mempool_get_exact_witness:
  "\<exists>ret tbl' mp'. mempool_get_bulk 0 sample_pool (\<lambda>_. 0) 1 True = Some (ret, tbl', mp') \<and> mempool_ok mp' \<and>
    ret = 0 \<and> pool_free sample_pool = pool_free mp' + {#tbl' 0#}"
  using mempool_get_exact [OF sample_pool_ok, of 0 "\<lambda>_. 0" 1 True]
  by (auto simp: table_list_def errno_defs sample_pool_fields sample_uring_ok)

text \<open>The occupancy queries of a quiescent pool are exact: \<open>rte_mempool_count\<close> is the number
  of free objects in the ring and in all caches, \<open>rte_mempool_free_count\<close> the rest of the size, and
  the audit of the caches does not panic.\<close>
theorem mempool_count_exact:
  assumes "mempool_ok mp"
  shows "unat (rte_mempool_count mp) = size (pool_free mp) \<and>
    unat (rte_mempool_free_count mp) = unat (mp_size mp) - size (pool_free mp) \<and>
    (rte_mempool_empty mp \<longleftrightarrow> pool_free mp = {#}) \<and>
    (rte_mempool_full mp \<longleftrightarrow> size (pool_free mp) = unat (mp_size mp)) \<and>
    rte_mempool_audit mp = Inr ()"
proof -
  note ok = mempool_okD [OF assms]
  let ?len = "\<lambda>k. cache_len (mp_local_cache mp (of_nat k))"
  have rc: "unat (rte_ring_count (mp_ring mp)) = ring_used (mp_ring mp)"
    using ring_count_used [OF ok(1)] .
  have le: "size (pool_free mp) \<le> unat (mp_size mp)" by (rule ok(6))
  have "unat (rte_mempool_count mp) = size (pool_free mp)"
  proof (cases "mp_cache_size mp = 0")
    case True
    have "unat (?len k) = 0" if "k < 128" for k
      using ok(4) [of "of_nat k"] ok(3) True that
      by (simp add: RTE_MAX_LCORE_def word_less_nat_alt unat_of_nat)
    then show ?thesis using True rc by (simp add: rte_mempool_count_def size_pool_free)
  next
    case False
    have 128: "unat RTE_MAX_LCORE = 128" by (simp add: RTE_MAX_LCORE_def)
    have "unat (rte_ring_count (mp_ring mp) + (\<Sum>k<128. ?len k)) = size (pool_free mp)"
      using unat_sum_le [of "rte_ring_count (mp_ring mp)" ?len 128] le unat_less_2p32 [of "mp_size mp"]
      by (simp add: rc size_pool_free del: unat_less_2p32)
    with False le show ?thesis
      by (simp add: rte_mempool_count_def Let_def for_n_sum 128 word_less_nat_alt)
  qed
  moreover have "rte_mempool_audit mp = Inr ()"
    unfolding rte_mempool_audit_def mempool_audit_cache_def
    by (rule for_n_inv [where P = "\<lambda>k s. s = Inr ()"])
      (use ok(4) in \<open>auto simp: RTE_MAX_LCORE_def word_less_nat_alt unat_of_nat not_less\<close>)
  ultimately show ?thesis using le
    by (auto simp: rte_mempool_free_count_def rte_mempool_empty_def rte_mempool_full_def unat_sub_le
        word_le_nat_alt word_unat_eq_iff)
qed

theorem mempool_count_exact_witness:
  "unat (rte_mempool_count sample_pool) = 5 \<and> unat (rte_mempool_free_count sample_pool) = 2 \<and>
   rte_mempool_audit sample_pool = Inr ()"
  using mempool_count_exact [OF sample_pool_ok] by (simp add: sample_pool_free sample_pool_fields)

end
