(* ===== verification/Mempool_Create.thy ===== *)
theory Mempool_Create
  imports Mempool_Props
begin

text \<open>
  Sizing and creation of memory pools: the greatest common divisor and the object size that
  spreads objects over the memory channels, rounding up to a power of two, the placement of
  objects in memory, and that \<open>rte_mempool_create\<close> yields a full, well-formed pool.
\<close>

section \<open>Object sizes\<close>

lemma gcd_loop_eq: "unat (gcd_loop a b) = gcd (unat a) (unat b)"
proof (induction a b rule: gcd_loop.induct)
  case (1 a b)
  show ?case
  proof (cases "b = 0")
    case True
    then show ?thesis by (simp add: gcd_loop.simps)
  next
    case False
    with 1 show ?thesis by (simp add: gcd_loop.simps [of a b] unat_mod gcd.commute [of "unat b"] flip: gcd_red_nat)
  qed
qed

lemma get_gcd_eq: "unat (get_gcd a b) = gcd (unat a) (unat b)"
  by (simp add: get_gcd_def gcd_loop_eq gcd.commute)

lemma get_gcd_coprime: "get_gcd a b = 1 \<longleftrightarrow> coprime (unat a) (unat b)"
  by (simp add: word_unat_eq_iff get_gcd_eq coprime_iff_gcd_eq_1)

lemma coprime_next:
  fixes m :: nat
  assumes m: "0 < m"
  shows "\<exists>k. s \<le> k \<and> k < s + m \<and> coprime k m"
proof -
  let ?d = "(m - s mod m + 1) mod m"
  have "(s + ?d) mod m = (s mod m + (m - s mod m + 1)) mod m"
    by (simp only: mod_add_left_eq mod_add_right_eq)
  also have "s mod m + (m - s mod m + 1) = m + 1" using mod_less_divisor [OF m, of s] by simp
  finally have "(s + ?d) mod m = 1 mod m" by (simp only: mod_add_self1)
  then have "coprime (s + ?d) m" by (metis coprime_1_left coprime_mod_left_iff m bot_nat_0.not_eq_extremum)
  moreover have "?d < m" using m by simp
  ultimately show ?thesis by (intro exI [of _ "s + ?d"]) simp
qed

lemma coprime_from_eq:
  assumes "unat s \<le> k" and "k < 2 ^ 32" and "coprime k (unat m)"
    and "\<forall>j. unat s \<le> j \<and> j < k \<longrightarrow> \<not> coprime j (unat m)"
  shows "unat (coprime_from m s) = k"
  using assms
proof (induction "k - unat s" arbitrary: s)
  case 0
  then show ?case by (simp add: coprime_from.simps [of m s] get_gcd_coprime)
next
  case (Suc d)
  then have s: "unat s < k" by simp
  then have "unat (s + 1) = Suc (unat s)" using Suc.prems(2) by (simp add: unat_word_ariths)
  moreover have "get_gcd s m \<noteq> 1" using Suc.prems(4) s by (simp add: get_gcd_coprime)
  ultimately show ?case
    using Suc.hyps(1) [of "s + 1"] Suc.hyps(2) Suc.prems s by (simp add: coprime_from.simps [of m s])
qed

text \<open>C13: The object size chosen to spread objects over channels and ranks is the smallest
  multiple of the cache line, at least the given size, whose number of lines is coprime to
  channels times ranks; the search loop and the gcd loop end.\<close>
theorem optimize_object_size_least:
  assumes "unat obj_size + 64 * chans < 2 ^ 32"
    and "chans = unat (max 1 (nrank env)) * unat (max 1 (nchannel env))"
  shows "\<exists>k. unat (optimize_object_size env obj_size) = 64 * k \<and> unat obj_size \<le> 64 * k \<and> coprime k chans \<and>
    (\<forall>j. unat obj_size \<le> 64 * j \<and> coprime j chans \<longrightarrow> k \<le> j)"
proof -
  let ?m = "(if nrank env = 0 then 1 else nrank env) * (if nchannel env = 0 then 1 else nchannel env)"
  have max1: "max 1 (x :: u32) = (if x = 0 then 1 else x)" for x
    by (cases "x = 0") (auto simp: max_def word_le_nat_alt Suc_le_eq unat_gt_0)
  have "chans < 2 ^ 32" using assms(1) by simp
  then have m: "unat ?m = chans" using assms(2) by (simp add: unat_word_ariths max1)
  have pos: "0 < chans" using assms(2) by (simp add: max1 unat_gt_0)
  define lo where "lo = (unat obj_size + 63) div 64"
  let ?s = "(obj_size + 63) div 64"
  have "unat (obj_size + 63) = unat obj_size + 63" using assms(1) pos by (simp add: unat_word_ariths)
  then have s: "unat ?s = lo" by (simp add: unat_div lo_def)
  have lo: "unat obj_size \<le> 64 * j \<longleftrightarrow> lo \<le> j" for j by (auto simp: lo_def)
  define k where "k = (LEAST k. lo \<le> k \<and> coprime k chans)"
  from coprime_next [OF pos, of lo] obtain k' where k': "lo \<le> k'" "k' < lo + chans" "coprime k' chans"
    by blast
  then have k: "lo \<le> k" "coprime k chans" "k \<le> k'"
    unfolding k_def by (metis (mono_tags, lifting) LeastI, metis (mono_tags, lifting) LeastI, simp add: Least_le)
  have min: "k \<le> j" if "lo \<le> j" "coprime j chans" for j
    unfolding k_def using that by (simp add: Least_le)
  have bound: "64 * k < 2 ^ 32" using k(3) k'(2) assms(1) pos by (simp add: lo_def)
  have "unat (coprime_from ?m ?s) = k"
    by (rule coprime_from_eq) (use k bound min m s in \<open>auto simp: not_le [symmetric]\<close>)
  then have "unat (optimize_object_size env obj_size) = 64 * k"
    using bound by (simp add: optimize_object_size_def Let_def unat_word_ariths mult.commute)
  with k lo min show ?thesis by blast
qed

definition sample_env :: mem_env where
  "sample_env = \<lparr>has_hugepages = True, page_size = 4096, nchannel = 4, nrank = 1, mem_virt2phy = id\<rparr>"

lemma sample_env_fields [simp]: "has_hugepages sample_env" "nchannel sample_env = 4" "nrank sample_env = 1"
  by (simp_all add: sample_env_def)

theorem optimize_object_size_least_witness:
  "\<exists>k. unat (optimize_object_size sample_env 256) = 64 * k \<and> 256 \<le> 64 * k \<and> coprime k (4 :: nat)"
proof -
  have "unat (256 :: u32) + 64 * 4 < 2 ^ 32" by simp
  moreover have "4 = unat (max 1 (nrank sample_env)) * unat (max 1 (nchannel sample_env))"
    by (simp add: max_def)
  ultimately have "\<exists>k. unat (optimize_object_size sample_env 256) = 64 * k \<and> unat (256 :: u32) \<le> 64 * k \<and>
      coprime k (4 :: nat) \<and> (\<forall>j. unat (256 :: u32) \<le> 64 * j \<and> coprime j 4 \<longrightarrow> k \<le> j)"
    by (rule optimize_object_size_least)
  then show ?thesis by (elim exE conjE) (intro exI conjI, assumption, simp_all)
qed

section \<open>The next power of two\<close>

lemma smear_step:
  fixes a y :: u32
  assumes "\<And>i. bit a i \<longleftrightarrow> (\<exists>d<k. bit y (i + d))"
  shows "bit (a OR drop_bit k a) i \<longleftrightarrow> (\<exists>d<k + k. bit y (i + d))"
proof -
  have "(\<exists>d<k. bit y (k + i + d)) \<longleftrightarrow> (\<exists>d. k \<le> d \<and> d < k + k \<and> bit y (i + d))"
  proof
    assume "\<exists>d<k. bit y (k + i + d)"
    then obtain d where "d < k" "bit y (k + i + d)" by blast
    then show "\<exists>d. k \<le> d \<and> d < k + k \<and> bit y (i + d)"
      by (intro exI [of _ "k + d"]) (simp add: ac_simps)
  next
    assume "\<exists>d. k \<le> d \<and> d < k + k \<and> bit y (i + d)"
    then obtain d where "k \<le> d" "d < k + k" "bit y (i + d)" by blast
    then show "\<exists>d<k. bit y (k + i + d)"
      by (intro exI [of _ "d - k"]) (simp add: ac_simps)
  qed
  moreover have "bit (a OR drop_bit k a) i \<longleftrightarrow> (\<exists>d<k. bit y (i + d)) \<or> (\<exists>d<k. bit y (k + i + d))"
    by (simp add: bit_or_iff bit_drop_bit_eq assms)
  ultimately show ?thesis by (metis less_or_eq_imp_le linorder_not_le trans_less_add1)
qed

definition smear :: "nat \<Rightarrow> u32 \<Rightarrow> u32" where
  "smear k a = a OR drop_bit k a"

lemma smear_bits:
  "bit (smear 16 (smear 8 (smear 4 (smear 2 (smear 1 y))))) i \<longleftrightarrow> (\<exists>d<32. bit y (i + d))"
proof -
  have step: "\<forall>i. bit (smear k a) i \<longleftrightarrow> (\<exists>d<j. bit y (i + d))"
    if "j = k + k" "\<forall>i. bit a i \<longleftrightarrow> (\<exists>d<k. bit y (i + d))" for j k a
    using smear_step [of a k y] that by (simp add: smear_def)
  have 1: "\<forall>i. bit y i \<longleftrightarrow> (\<exists>d<1. bit y (i + d))" by simp
  have 2: "\<forall>i. bit (smear 1 y) i \<longleftrightarrow> (\<exists>d<2. bit y (i + d))" by (rule step [OF _ 1]) simp
  have 4: "\<forall>i. bit (smear 2 (smear 1 y)) i \<longleftrightarrow> (\<exists>d<4. bit y (i + d))"
    by (rule step [OF _ 2]) simp
  have 8: "\<forall>i. bit (smear 4 (smear 2 (smear 1 y))) i \<longleftrightarrow> (\<exists>d<8. bit y (i + d))"
    by (rule step [OF _ 4]) simp
  have 16: "\<forall>i. bit (smear 8 (smear 4 (smear 2 (smear 1 y)))) i \<longleftrightarrow> (\<exists>d<16. bit y (i + d))"
    by (rule step [OF _ 8]) simp
  have "\<forall>i. bit (smear 16 (smear 8 (smear 4 (smear 2 (smear 1 y))))) i \<longleftrightarrow> (\<exists>d<32. bit y (i + d))"
    by (rule step [OF _ 16]) simp
  then show ?thesis by blast
qed

lemma align32pow2_smear:
  "rte_align32pow2 x = smear 16 (smear 8 (smear 4 (smear 2 (smear 1 (x - 1))))) + 1"
  by (simp only: rte_align32pow2_def Let_def smear_def)

lemma align32pow2_ok:
  assumes "x \<noteq> 0" and "unat x \<le> 2 ^ 31"
  obtains b where "b \<le> 31" and "rte_align32pow2 x = 2 ^ b" and "unat x \<le> 2 ^ b"
    and "\<forall>c. unat x \<le> 2 ^ c \<longrightarrow> b \<le> c"
proof (cases "x = 1")
  case True
  then show thesis by (intro that [of 0]) (simp_all add: rte_align32pow2_def)
next
  case False
  let ?y = "x - 1"
  have uy: "unat ?y = unat x - 1" using assms(1) by (simp add: unat_minus_one)
  have "unat x \<noteq> 1" using False by (metis unat_1 word_unat_eq_iff)
  then have "0 < unat ?y" using assms(1) uy by (simp add: unat_gt_0 [symmetric])
  then obtain b where b: "2 ^ b \<le> unat ?y" "unat ?y < 2 * 2 ^ b"
    using ex_power_ivl1 [of 2 "unat ?y"] by auto
  have "(2 :: nat) ^ b < 2 ^ 31" using b(1) uy assms by (simp add: unat_gt_0 [symmetric])
  then have b31: "b < 31" by (simp add: power_strict_increasing_iff del: power_numeral)
  have bits: "bit ?y n \<longleftrightarrow> odd (unat ?y div 2 ^ n)" for n
    using bit_unsigned_iff [of ?y n, where ?'a = nat] bit_imp_le_length [of ?y n] by (auto simp: bit_iff_odd)
  have "unat ?y div 2 ^ b = 1" using b by (simp add: div_nat_eqI)
  then have top: "bit ?y b" by (simp add: bits)
  have above: "n \<le> b" if "bit ?y n" for n
  proof (rule ccontr)
    assume "\<not> n \<le> b"
    then have "(2 :: nat) ^ Suc b \<le> 2 ^ n" by (intro power_increasing) simp_all
    with b(2) have "unat ?y div 2 ^ n = 0" by simp
    with that show False by (simp add: bits)
  qed
  have "(\<exists>d<32. bit ?y (i + d)) \<longleftrightarrow> i < Suc b" for i
  proof
    assume "\<exists>d<32. bit ?y (i + d)"
    then show "i < Suc b" using above by fastforce
  next
    assume "i < Suc b"
    then show "\<exists>d<32. bit ?y (i + d)" using top b31 by (intro exI [of _ "b - i"]) simp
  qed
  then have "rte_align32pow2 x = mask (Suc b) + 1"
    unfolding align32pow2_smear
    by (intro arg_cong [where f = "\<lambda>z. z + 1"] bit_word_eqI) (simp only: smear_bits, simp add: bit_mask_iff)
  then have eq: "rte_align32pow2 x = 2 ^ Suc b" by (simp add: mask_eq_decr_exp)
  have "Suc b \<le> c" if "unat x \<le> 2 ^ c" for c
  proof -
    have "0 < unat x" using assms(1) by (simp add: unat_gt_0)
    with that b(1) uy have "(2 :: nat) ^ b < 2 ^ c" by linarith
    then show ?thesis by (simp add: power_strict_increasing_iff Suc_le_eq)
  qed
  with b b31 eq uy show thesis by (intro that [of "Suc b"]) simp_all
qed

text \<open>\<open>rte_align32pow2\<close> of a number between 1 and \<open>2 ^ 31\<close> is the smallest power of two that
  is at least the number.\<close>
theorem align32pow2_least:
  assumes "0 < unat x" and "unat x \<le> 2 ^ 31"
  shows "pow2_size (rte_align32pow2 x) \<and> x \<le> rte_align32pow2 x \<and>
    (\<forall>p. pow2_size p \<and> x \<le> p \<longrightarrow> rte_align32pow2 x \<le> p)"
proof -
  have "x \<noteq> 0" using assms(1) by (simp add: unat_gt_0)
  from this assms(2) obtain b where b: "b \<le> 31" "rte_align32pow2 x = 2 ^ b" "unat x \<le> 2 ^ b"
    and least: "\<forall>c. unat x \<le> 2 ^ c \<longrightarrow> b \<le> c" by (rule align32pow2_ok)
  have p: "pow2_size (rte_align32pow2 x)" using b(1,2) by (auto simp: pow2_size_def less_Suc_eq_le intro!: exI [of _ b])
  have u: "unat (rte_align32pow2 x) = 2 ^ b" using b(1,2) by (simp add: unat_2p)
  have "rte_align32pow2 x \<le> p" if "pow2_size p" "x \<le> p" for p
    using that by (elim pow2_sizeE) (simp add: word_le_nat_alt u least)
  with p b(3) u show ?thesis by (simp add: word_le_nat_alt)
qed

theorem align32pow2_least_witness:
  "pow2_size (rte_align32pow2 5) \<and> 5 \<le> rte_align32pow2 5 \<and> rte_align32pow2 5 \<le> 8"
  using align32pow2_least [of 5] by simp

section \<open>Placement in contiguous memory\<close>

definition obj_at :: "u64 \<Rightarrow> u64 \<Rightarrow> nat \<Rightarrow> u64" where
  "obj_at va sz k = va + of_nat k * sz"

lemma unat_obj_at:
  assumes "unat va + n * unat sz < 2 ^ 63" and "k \<le> n"
  shows "unat (obj_at va sz k) = unat va + k * unat sz"
proof -
  have kn: "k * unat sz \<le> n * unat sz" using assms(2) by simp
  have "of_nat k * sz = of_nat (k * unat sz)" by simp
  moreover have "unat (of_nat (k * unat sz) :: u64) = k * unat sz"
  proof -
    have "k * unat sz < 2 ^ 63" using assms(1) kn by linarith
    then show ?thesis by (simp add: unat_of_nat del: of_nat_mult)
  qed
  ultimately have u: "unat (of_nat k * sz) = k * unat sz" by (simp only:)
  have "unat va + k * unat sz < 2 ^ 63" using assms(1) kn by linarith
  then show ?thesis unfolding obj_at_def unat_word_ariths(1) u by simp
qed

lemma drop_bit_63: "unat (x :: u64) < 2 ^ 63 \<Longrightarrow> drop_bit 63 x = 0"
  by (simp add: word_unat_eq_iff drop_bit_eq_div unat_div)

lemma contig_until_refl [simp]: "contig_until paddr pg_sz k k = k"
  by (simp add: contig_until.simps)

lemma RTE_ALIGN_CEIL_1 [simp]: "RTE_ALIGN_CEIL x 1 = x"
  by (simp add: RTE_ALIGN_CEIL_def RTE_ALIGN_FLOOR_def)

lemma obj_iter_contig_from:
  assumes "unat va + unat n * unat sz < 2 ^ 63" and "i \<le> n"
  shows "obj_iter_loop n sz 1 paddr 1 63 f i 0 (obj_at va sz (unat i)) s =
    (n, fold (\<lambda>k. f (obj_at va sz k) (obj_at va sz (Suc k)) (of_nat k)) [unat i..<unat n] s)"
  using assms(2)
proof (induction "unat n - unat i" arbitrary: i s)
  case 0
  then have "i = n" by (simp add: word_le_nat_alt word_unat_eq_iff)
  then show ?case by (simp add: obj_iter_loop.simps)
next
  case (Suc d)
  then have lt: "unat i < unat n" by simp
  then have ne: "i \<noteq> n" by auto
  have si: "unat (i + 1) = Suc (unat i)" using lt by (simp add: unat_Suc_of_less [of i n] word_less_nat_alt)
  have nxt: "obj_at va sz (unat i) + sz = obj_at va sz (Suc (unat i))"
    by (simp add: obj_at_def algebra_simps)
  have "unat (obj_at va sz k) < 2 ^ 63" if "k \<le> unat n" for k
  proof -
    have "k * unat sz \<le> unat n * unat sz" using that by simp
    with unat_obj_at [OF assms(1) that] assms(1) show ?thesis by linarith
  qed
  then have z: "drop_bit 63 (obj_at va sz (unat i)) = 0" "drop_bit 63 (obj_at va sz (Suc (unat i))) = 0"
    using lt by (simp_all add: drop_bit_63 del: power_numeral)
  have upt: "[unat i..<unat n] = unat i # [unat (i + 1)..<unat n]"
    using lt by (simp add: si upt_conv_Cons)
  have "obj_iter_loop n sz 1 paddr 1 63 f i 0 (obj_at va sz (unat i)) s =
      obj_iter_loop n sz 1 paddr 1 63 f (i + 1) 0 (obj_at va sz (unat (i + 1)))
        (f (obj_at va sz (unat i)) (obj_at va sz (Suc (unat i))) i s)"
    by (subst obj_iter_loop.simps) (simp add: ne nxt z si Let_def)
  also have "\<dots> = (n, fold (\<lambda>k. f (obj_at va sz k) (obj_at va sz (Suc k)) (of_nat k)) [unat (i + 1)..<unat n]
      (f (obj_at va sz (unat i)) (obj_at va sz (Suc (unat i))) i s))"
    by (rule Suc.hyps(1)) (use Suc.hyps(2) si lt in \<open>simp_all add: word_le_nat_alt\<close>)
  finally show ?case by (simp add: upt)
qed

lemma obj_iter_contig:
  assumes "unat va + unat n * unat sz < 2 ^ 63"
  shows "rte_mempool_obj_iter va n sz 1 paddr 1 63 f s =
    (n, fold (\<lambda>k. f (obj_at va sz k) (obj_at va sz (Suc k)) (of_nat k)) [0..<unat n] s)"
  using obj_iter_contig_from [OF assms, of 0] by (simp add: rte_mempool_obj_iter_def obj_at_def)

section \<open>Populating a pool\<close>

lemma populate_step:
  assumes ring: "ring_ok (mp_ring (w_pools w a))" and used: "ring_used (mp_ring (w_pools w a)) < ring_cap (mp_ring (w_pools w a))"
    and w'_def: "w' = mempool_obj_populate lcore a ctor start end' idx w"
  shows "\<exists>r. w_pools w' a = (w_pools w a)\<lparr>mp_ring := r, mp_elt_va_end := end'\<rparr> \<and> ring_ok r \<and>
      ring_cap r = ring_cap (mp_ring (w_pools w a)) \<and>
      ring_items r = ring_items (mp_ring (w_pools w a)) @ [start + ucast (mp_header_size (w_pools w a))]"
    and "w_owner w' = (w_owner w)(start + ucast (mp_header_size (w_pools w a)) - 8 := a)"
    and "w_list w' = w_list w"
proof -
  let ?mp = "w_pools w a"
  let ?obj = "start + ucast (mp_header_size ?mp)"
  have "ring_used (mp_ring ?mp) + unat (1 :: u32) \<le> ring_cap (mp_ring ?mp)" using used by simp
  from sp_bulk_fits [OF ring this, of lcore "\<lambda>_. ?obj"] obtain ret r where
    e: "rte_ring_sp_enqueue lcore (mp_ring ?mp) ?obj = (ret, r)" and
    r: "ring_ok r" "ring_cap r = ring_cap (mp_ring ?mp)" "ring_items r = ring_items (mp_ring ?mp) @ [?obj]"
    by (auto simp: rte_ring_sp_enqueue_def table_list_def)
  show "\<exists>r. w_pools w' a = ?mp\<lparr>mp_ring := r, mp_elt_va_end := end'\<rparr> \<and> ring_ok r \<and>
      ring_cap r = ring_cap (mp_ring ?mp) \<and> ring_items r = ring_items (mp_ring ?mp) @ [?obj]"
    using r by (intro exI [of _ r])
      (simp add: w'_def mempool_obj_populate_def mempool_add_elem_def Let_def e split: option.split)
  show "w_owner w' = (w_owner w)(?obj - 8 := a)" "w_list w' = w_list w"
    by (simp add: w'_def mempool_obj_populate_def mempool_add_elem_def Let_def mempool_from_obj_def split: option.split)+
qed

text \<open>After \<open>k\<close> objects: the ring holds them in order and each has its pool pointer in front.\<close>

definition populated ::
  "u64 \<Rightarrow> rte_mempool \<Rightarrow> u64 list \<Rightarrow> (nat \<Rightarrow> u64) \<Rightarrow> nat \<Rightarrow> 'w mp_world \<Rightarrow> bool" where
  "populated a mp pools objs k w \<longleftrightarrow> w_list w = pools \<and>
     (\<exists>r e. w_pools w a = mp\<lparr>mp_ring := r, mp_elt_va_end := e\<rparr> \<and> ring_ok r \<and>
        ring_cap r = ring_cap (mp_ring mp) \<and> ring_items r = map objs [0..<k]) \<and>
     (\<forall>j<k. rte_mempool_from_obj w (objs j) = a)"

lemma populate_fold:
  assumes w: "w_pools w a = mp" and ring: "ring_ok (mp_ring mp)" "ring_items (mp_ring mp) = []"
    and n: "n \<le> ring_cap (mp_ring mp)"
    and objs: "\<And>k. k < n \<Longrightarrow> objs k = starts k + ucast (mp_header_size mp)"
  shows "populated a mp (w_list w) objs n (fold (\<lambda>k. mempool_obj_populate lcore a ctor (starts k) (ends k) (of_nat k)) [0..<n] w)"
  using n objs
proof (induction n)
  case 0
  show ?case using w ring unfolding populated_def
    by (intro conjI exI [of _ "mp_ring mp"] exI [of _ "mp_elt_va_end mp"]) simp_all
next
  case (Suc n)
  let ?w = "fold (\<lambda>k. mempool_obj_populate lcore a ctor (starts k) (ends k) (of_nat k)) [0..<n] w"
  let ?w' = "mempool_obj_populate lcore a ctor (starts n) (ends n) (of_nat n) ?w"
  from Suc have p: "populated a mp (w_list w) objs n ?w" by simp
  then obtain r e where r: "w_pools ?w a = mp\<lparr>mp_ring := r, mp_elt_va_end := e\<rparr>" "ring_ok r"
    "ring_cap r = ring_cap (mp_ring mp)" "ring_items r = map objs [0..<n]"
    and lst: "w_list ?w = w_list w"
    unfolding populated_def by blast
  have used: "ring_used r = n" using arg_cong [OF r(4), of length] by simp
  have "ring_ok (mp_ring (w_pools ?w a))" "ring_used (mp_ring (w_pools ?w a)) < ring_cap (mp_ring (w_pools ?w a))"
    using r used Suc.prems(1) by simp_all
  note step = populate_step [OF this refl, of lcore ctor "starts n" "ends n" "of_nat n"]
  have obj: "starts n + ucast (mp_header_size mp) = objs n" using Suc.prems(2) by simp
  from step(1) obtain r' where "w_pools ?w' a = mp\<lparr>mp_ring := r', mp_elt_va_end := ends n\<rparr>" "ring_ok r'"
      "ring_cap r' = ring_cap (mp_ring mp)" "ring_items r' = map objs [0..<Suc n]"
    by (auto simp: r(1,3,4) obj)
  moreover have "\<forall>j<Suc n. rte_mempool_from_obj ?w' (objs j) = a"
    using p step(2) by (auto simp: populated_def rte_mempool_from_obj_def mempool_from_obj_def r(1) obj less_Suc_eq)
  ultimately show ?case unfolding populated_def using step(3) lst by auto
qed

lemma populate_contig:
  assumes w: "w_pools w a = mp" and ring: "ring_ok (mp_ring mp)" "ring_items (mp_ring mp) = []"
    and n: "unat n \<le> ring_cap (mp_ring mp)" and pg: "mp_pg_num mp = 1" "mp_pg_shift mp = 63"
    and sz: "sz = ucast (mp_elt_size mp + mp_header_size mp + mp_trailer_size mp)"
    and room: "unat (mp_elt_va_start mp) + unat n * unat sz < 2 ^ 63"
  defines "objs \<equiv> \<lambda>k. obj_at (mp_elt_va_start mp) sz k + ucast (mp_header_size mp)"
  shows "\<exists>r e. w_pools (mempool_populate lcore a n 1 ctor w) a
        = mp\<lparr>mp_ring := r, mp_elt_va_end := e, mp_size := n\<rparr> \<and> ring_ok r \<and>
      ring_cap r = ring_cap (mp_ring mp) \<and> ring_items r = map objs [0..<unat n]"
    and "\<forall>j < unat n. rte_mempool_from_obj (mempool_populate lcore a n 1 ctor w) (objs j) = a"
    and "w_list (mempool_populate lcore a n 1 ctor w) = w_list w"
proof -
  let ?w = "fold (\<lambda>k. mempool_obj_populate lcore a ctor (obj_at (mp_elt_va_start mp) sz k)
    (obj_at (mp_elt_va_start mp) sz (Suc k)) (of_nat k)) [0..<unat n] w"
  have e: "mempool_populate lcore a n 1 ctor w =
      ?w\<lparr>w_pools := (w_pools ?w)(a := (w_pools ?w a)\<lparr>mp_size := n\<rparr>)\<rparr>"
    by (simp add: mempool_populate_def Let_def w pg sz [symmetric] obj_iter_contig [OF room])
  have "populated a mp (w_list w) objs (unat n) ?w"
    by (rule populate_fold [OF w ring n]) (simp add: objs_def)
  then obtain r e' where r: "w_pools ?w a = mp\<lparr>mp_ring := r, mp_elt_va_end := e'\<rparr>" "ring_ok r"
      "ring_cap r = ring_cap (mp_ring mp)" "ring_items r = map objs [0..<unat n]"
    and lst: "w_list ?w = w_list w" and own: "\<forall>j < unat n. rte_mempool_from_obj ?w (objs j) = a"
    unfolding populated_def by blast
  show "\<exists>r e. w_pools (mempool_populate lcore a n 1 ctor w) a
        = mp\<lparr>mp_ring := r, mp_elt_va_end := e, mp_size := n\<rparr> \<and> ring_ok r \<and>
      ring_cap r = ring_cap (mp_ring mp) \<and> ring_items r = map objs [0..<unat n]"
    by (intro exI [of _ r] exI [of _ e']) (simp add: e r)
  show "\<forall>j < unat n. rte_mempool_from_obj (mempool_populate lcore a n 1 ctor w) (objs j) = a"
    using own by (simp add: e rte_mempool_from_obj_def)
  show "w_list (mempool_populate lcore a n 1 ctor w) = w_list w" by (simp add: e lst)
qed

section \<open>Creation\<close>

lemma ring_memsize_nonneg:
  assumes "pow2_size c" and "c \<le> RTE_RING_SZ_MASK"
  shows "0 \<le> rte_ring_get_memsize c"
proof -
  let ?x = "sizeof_rte_ring + ucast c * 8 + (RTE_CACHE_LINE_SIZE - 1)"
  have c: "unat c \<le> 268435455" using assms(2) by (simp add: word_le_nat_alt ring_consts)
  have "unat ?x \<le> 2 ^ 40"
    using c by (simp add: sizeof_rte_ring_def RTE_CACHE_LINE_SIZE_def unat_word_ariths)
  moreover have "?x AND NOT (RTE_CACHE_LINE_SIZE - 1) \<le> ?x" by (rule word_and_le2)
  ultimately have "unat (RTE_ALIGN (sizeof_rte_ring + ucast c * 8) RTE_CACHE_LINE_SIZE) < 2 ^ 63"
    by (simp add: RTE_ALIGN_def word_le_nat_alt)
  then show ?thesis
    using assms by (auto simp: rte_ring_get_memsize_def POWEROF2_iff sint_small64 simp del: power_numeral)
qed

lemma mempool_ring_created:
  assumes n: "unat n < 2 ^ 27" and mem: "ring_reserve al name' sz socket_id 0 = Inr mem"
    and "ring_zmalloc_ok al" and "sz = rte_ring_get_memsize (rte_align32pow2 (n + 1))"
    and "name' = take (RTE_MEMZONE_NAMESIZE - 1) (RTE_RING_MZ_PREFIX @ name)"
  shows "\<exists>r. rte_ring_create (ring_zmalloc_ok al) (ring_reserve al) rings name
      (rte_align32pow2 (n + 1)) socket_id rg_flags = (Inr r, rings @ [r]) \<and>
    ring_ok r \<and> ring_items r = [] \<and> unat n \<le> ring_cap r"
proof -
  have n1: "unat (n + 1) = unat n + 1" using n by (simp add: unat_word_ariths)
  have ne: "n + 1 \<noteq> 0" using n1 by (metis Suc_eq_plus1 nat.distinct(1) unat_0)
  have "unat (n + 1) \<le> 2 ^ 31" using n1 n by simp
  with ne obtain b where b: "b \<le> 31" "rte_align32pow2 (n + 1) = 2 ^ b" "unat (n + 1) \<le> 2 ^ b"
    and least: "\<forall>c. unat (n + 1) \<le> 2 ^ c \<longrightarrow> b \<le> c" by (rule align32pow2_ok)
  let ?c = "rte_align32pow2 (n + 1)"
  have "b \<le> 27" using least n n1 by simp
  then have uc: "unat ?c = 2 ^ b" "(2 :: nat) ^ b \<le> 2 ^ 27"
    using b(1,2) by (simp add: unat_2p, intro power_increasing) simp_all
  have p: "pow2_size ?c" using b(1,2) by (auto simp: pow2_size_def intro!: exI [of _ b])
  have "?c \<le> RTE_RING_SZ_MASK" using uc by (simp add: word_le_nat_alt ring_consts)
  from ring_memsize_nonneg [OF p this] have m: "0 \<le> rte_ring_get_memsize ?c" .
  have c0: "?c \<noteq> 0" using unat_pow2_pos [OF p] by auto
  from ring_init_ok [OF m c0, of mem name rg_flags] have
    "ring_ok (snd (rte_ring_init mem name ?c rg_flags))"
    "ring_items (snd (rte_ring_init mem name ?c rg_flags)) = []"
    "ring_cap (snd (rte_ring_init mem name ?c rg_flags)) = unat ?c - 1" by (auto simp: case_prod_beta)
  moreover have "unat n \<le> unat ?c - 1" using uc b(3) n1 by simp
  ultimately show ?thesis using assms m by (simp add: rte_ring_create_def Let_def)
qed

lemma calc_obj_size_total:
  assumes "rte_mempool_calc_obj_size env elt_size flags = (tsz, objsz)" and "tsz \<noteq> 0"
  shows "tsz = sz_header_size objsz + sz_elt_size objsz + sz_trailer_size objsz"
    and "sz_total_size objsz = tsz"
  using assms by (auto simp: rte_mempool_calc_obj_size_def Let_def split: if_splits)

lemma distinct_obj_at:
  assumes "unat va + n * unat sz < 2 ^ 63" and "sz \<noteq> 0"
  shows "distinct (map (\<lambda>k. obj_at va sz k + h) [0..<n])"
proof -
  have "i = j" if "i < n" "j < n" "obj_at va sz i + h = obj_at va sz j + h" for i j
  proof -
    from that(3) have "unat (obj_at va sz i) = unat (obj_at va sz j)" by simp
    with that(1,2) assms(2) show ?thesis by (simp add: unat_obj_at [OF assms(1)] unsigned_eq_0_iff)
  qed
  then show ?thesis by (auto simp: distinct_map inj_on_def)
qed

lemma fresh_pool_ok:
  assumes "ring_ok r" and "unat n \<le> ring_cap r" and "ring_items r = xs" and "length xs = unat n"
    and "cache_size \<le> RTE_MEMPOOL_CACHE_MAX_SIZE"
    and "mp_ring mp = r" "mp_size mp = n" "mp_cache_size mp = cache_size"
      "mp_cache_flushthresh mp = cache_size * 3 div 2" "mp_local_cache mp = (\<lambda>_. empty_cache)"
  shows "mempool_ok mp" and "pool_free mp = mset xs"
proof -
  show free: "pool_free mp = mset xs"
    using assms by (simp add: pool_free_def cache_items_def empty_cache_def)
  show "mempool_ok mp"
    using assms free by (simp add: mempool_ok_def empty_cache_def)
qed

text \<open>C14: With hugepages, valid parameters, fewer than \<open>2 ^ 27\<close> objects, granted allocations and
  a zone that does not reach the upper half of the address space, \<open>rte_mempool_create\<close> returns a
  well-formed pool of size \<open>n\<close> whose free objects are exactly \<open>n\<close> distinct addresses, one object
  size apart after the pool header and private data; the pool pointer in front of each object
  leads back to the pool, and the pool is appended to the pool list.\<close>
theorem mempool_create_full:
  assumes env: "has_hugepages env" and cache: "cache_size \<le> RTE_MEMPOOL_CACHE_MAX_SIZE"
    and n: "unat n < 2 ^ 27"
    and sz: "rte_mempool_calc_obj_size env elt_size (if flags AND MEMPOOL_F_NO_CACHE_ALIGN \<noteq> 0
        then flags OR MEMPOOL_F_NO_SPREAD else flags) = (tsz, objsz)" "tsz \<noteq> 0"
    and al: "ring_zmalloc_ok al" "pool_zmalloc_ok al"
      "\<forall>nm s so fl. ring_reserve al nm s so fl = Inr mem" "\<forall>nm s so fl. pool_reserve al nm s so fl = Inr mz"
    and first: "first = mz_addr mz + MEMPOOL_HEADER_SIZE 1 + ucast (priv_size env private_data_size)"
    and room: "unat first + unat n * unat tsz < 2 ^ 63"
  shows "\<exists>w'. rte_mempool_create env al lcore name n elt_size cache_size private_data_size mp_init obj_init
        socket_id flags w = (Some (mz_addr mz), w') \<and>
      mempool_ok (w_pools w' (mz_addr mz)) \<and> mp_size (w_pools w' (mz_addr mz)) = n \<and>
      pool_free (w_pools w' (mz_addr mz)) =
        mset (map (\<lambda>k. obj_at first (ucast tsz) k + ucast (sz_header_size objsz)) [0..<unat n]) \<and>
      distinct (map (\<lambda>k. obj_at first (ucast tsz) k + ucast (sz_header_size objsz)) [0..<unat n]) \<and>
      (\<forall>k < unat n. rte_mempool_from_obj w' (obj_at first (ucast tsz) k + ucast (sz_header_size objsz)) = mz_addr mz) \<and>
      w_list w' = w_list w @ [mz_addr mz]"
proof -
  let ?flags = "if flags AND MEMPOOL_F_NO_CACHE_ALIGN \<noteq> 0 then flags OR MEMPOOL_F_NO_SPREAD else flags"
  let ?rg = "(if ?flags AND MEMPOOL_F_SP_PUT \<noteq> 0 then RING_F_SP_ENQ else 0) OR
             (if ?flags AND MEMPOOL_F_SC_GET \<noteq> 0 then RING_F_SC_DEQ else 0)"
  let ?nm = "take (RTE_RING_NAMESIZE - 1) (RTE_MEMPOOL_MZ_PREFIX @ name)"
  let ?a = "mz_addr mz" and ?priv = "priv_size env private_data_size"
  from mempool_ring_created [OF n al(3) [rule_format] al(1) refl refl, of "w_rings w" ?nm socket_id ?rg] obtain r
    where r: "rte_ring_create (ring_zmalloc_ok al) (ring_reserve al) (w_rings w) ?nm
        (rte_align32pow2 (n + 1)) socket_id ?rg = (Inr r, w_rings w @ [r])"
      "ring_ok r" "ring_items r = []" "unat n \<le> ring_cap r" by blast
  define mp where
    "mp = pool_struct name r mz ?a ?flags n cache_size objsz ?priv None None 1 63"
  define w1 where "w1 = w\<lparr>w_rings := w_rings w @ [r], w_pools := (w_pools w)(?a := mp)\<rparr>"
  define w2 where "w2 = (case mp_init of None \<Rightarrow> w1 | Some f \<Rightarrow> w1\<lparr>w_user := f ?a mp (w_user w1)\<rparr>)"
  define w3 where "w3 = mempool_populate lcore ?a n 1 obj_init w2"
  have "rte_mempool_create env al lcore name n elt_size cache_size private_data_size mp_init obj_init
        socket_id flags w = pool_finish lcore ?a mp n mp_init obj_init (w\<lparr>w_rings := w_rings w @ [r]\<rparr>)"
    unfolding rte_mempool_create_def rte_mempool_xmem_create_def
    using env cache [unfolded not_less [symmetric]] sz al(2) r(1)
    by (simp add: Let_def al(4) MEMPOOL_PG_NUM_DEFAULT_def MEMPOOL_PG_SHIFT_MAX_def mp_def)
  then have run: "rte_mempool_create env al lcore name n elt_size cache_size private_data_size mp_init obj_init
        socket_id flags w = (Some ?a, w3\<lparr>w_list := w_list w3 @ [?a]\<rparr>)"
    unfolding pool_finish_def w3_def w2_def w1_def Let_def by (simp cong: option.case_cong)
  have f: "mp_ring mp = r" "mp_pg_num mp = 1" "mp_pg_shift mp = 63" "mp_elt_va_start mp = first"
    "mp_header_size mp = sz_header_size objsz" "mp_cache_size mp = cache_size"
    "mp_cache_flushthresh mp = cache_size * 3 div 2" "mp_local_cache mp = (\<lambda>_. empty_cache)"
    by (simp_all add: mp_def pool_struct_def Let_def first)
  have pop: "ucast tsz = (ucast (mp_elt_size mp + mp_header_size mp + mp_trailer_size mp) :: u64)"
    using calc_obj_size_total(1) [OF sz] by (simp add: mp_def pool_struct_def Let_def ac_simps)
  have w2: "w_pools w2 ?a = mp" "w_list w2 = w_list w"
    by (simp_all add: w2_def w1_def split: option.split)
  have room': "unat (mp_elt_va_start mp) + unat n * unat (ucast tsz :: u64) < 2 ^ 63"
    using room by (simp add: f)
  note p = populate_contig [OF w2(1), unfolded f, OF r(2-4) refl refl pop [unfolded f] room' [unfolded f],
      of lcore obj_init, folded w3_def]
  from p(1) obtain r' e where w3: "w_pools w3 ?a = mp\<lparr>mp_ring := r', mp_elt_va_end := e, mp_size := n\<rparr>"
    and r': "ring_ok r'" "ring_cap r' = ring_cap r"
      "ring_items r' = map (\<lambda>k. obj_at first (ucast tsz) k + ucast (sz_header_size objsz)) [0..<unat n]"
    by blast
  note ok = fresh_pool_ok [OF r'(1) _ r'(3) _ cache, of n "w_pools w3 ?a"]
  have "mempool_ok (w_pools w3 ?a)" "pool_free (w_pools w3 ?a)
      = mset (map (\<lambda>k. obj_at first (ucast tsz) k + ucast (sz_header_size objsz)) [0..<unat n])"
    using ok r(4) r'(2) by (simp_all add: w3 f)
  moreover have "distinct (map (\<lambda>k. obj_at first (ucast tsz) k + ucast (sz_header_size objsz)) [0..<unat n])"
    by (rule distinct_obj_at) (use room sz(2) in \<open>simp_all add: word_unat_eq_iff\<close>)
  ultimately show ?thesis
    using run p(2,3) w2(2) by (simp add: w3 rte_mempool_from_obj_def)
qed

definition sample_alloc :: alloc_env where
  "sample_alloc = \<lparr>ring_zmalloc_ok = True, ring_reserve = (\<lambda>_ _ _ _. Inr sample_uring),
     pool_zmalloc_ok = True, pool_reserve = (\<lambda>_ _ _ _. Inr \<lparr>mz_addr = 0x10000, mz_phys_addr = 0x50000\<rparr>)\<rparr>"

definition sample_objsz :: rte_mempool_objsz where
  "sample_objsz = \<lparr>sz_elt_size = 192, sz_header_size = 8, sz_trailer_size = 0, sz_total_size = 200\<rparr>"

definition no_pools :: "unit mp_world" where
  "no_pools = \<lparr>w_pools = (\<lambda>_. sample_pool), w_list = [], w_rings = [], w_owner = (\<lambda>_. 0), w_errno = 0,
     w_user = ()\<rparr>"

theorem mempool_create_full_witness:
  "\<exists>w'. rte_mempool_create sample_env sample_alloc 0 ''p'' 3 190 2 0 None None 0 MEMPOOL_F_NO_CACHE_ALIGN no_pools
       = (Some 0x10000, w') \<and> mempool_ok (w_pools w' 0x10000) \<and> mp_size (w_pools w' 0x10000) = 3"
proof -
  have sz: "rte_mempool_calc_obj_size sample_env 190 (if MEMPOOL_F_NO_CACHE_ALIGN AND MEMPOOL_F_NO_CACHE_ALIGN \<noteq> 0
        then MEMPOOL_F_NO_CACHE_ALIGN OR MEMPOOL_F_NO_SPREAD else MEMPOOL_F_NO_CACHE_ALIGN) = (200, sample_objsz)"
    by (simp add: rte_mempool_calc_obj_size_def mempool_consts RTE_ALIGN_CEIL_def RTE_ALIGN_FLOOR_def
        sample_objsz_def Let_def)
  have room: "unat (0x10000 + MEMPOOL_HEADER_SIZE 1 + ucast (priv_size sample_env 0)) + unat (3 :: u32) * unat (200 :: u32) < 2 ^ 63"
    by (simp add: MEMPOOL_HEADER_SIZE_def sizeof_rte_mempool_def RTE_ALIGN_CEIL_def RTE_ALIGN_FLOOR_def priv_size_def)
  from mempool_create_full [OF sample_env_fields(1) _ _ sz, of 2 3 sample_alloc sample_uring
      "\<lparr>mz_addr = 0x10000, mz_phys_addr = 0x50000\<rparr>" "0x10000 + MEMPOOL_HEADER_SIZE 1 + ucast (priv_size sample_env 0)" 0 0
      "''p''" None None 0 no_pools] room
  show ?thesis by (auto simp: sample_alloc_def mempool_consts)
qed

text \<open>When the given pages cannot hold all elements, \<open>rte_mempool_xmem_usage\<close> returns the
  32-bit negation of the number of elements that fit, read as a 64-bit value: 0 or a large
  positive number, never the documented negative one.\<close>
theorem xmem_usage_shortage_positive:
  assumes "rte_mempool_obj_iter vaddr elt_num elt_sz 1 paddr pg_num pg_shift mempool_lelem_iter vaddr = (k, uv)"
    and "k \<noteq> elt_num"
  shows "rte_mempool_xmem_usage vaddr elt_num elt_sz paddr pg_num pg_shift
      = (if k = 0 then 0 else 2 ^ 32 - int (unat k))"
proof -
  have "unat (- k) = (if k = 0 then 0 else 2 ^ 32 - unat k)" 
    using unat_sub_if' [of 0 k] by (auto simp: word_le_nat_alt unsigned_eq_0_iff)
  moreover have "sint (ucast (- k) :: u64) = int (unat (- k))"
    using sint_small64 [of "ucast (- k)"] unat_less_2p32 [of "- k"] by (simp del: unat_less_2p32 of_nat_unat)
  ultimately have "sint (ucast (- k) :: u64) = (if k = 0 then 0 else 2 ^ 32 - int (unat k))"
    using unat_less_2p32 [of k] by (simp add: of_nat_diff del: unat_less_2p32 of_nat_unat)
  then show ?thesis using assms by (simp add: rte_mempool_xmem_usage_def)
qed

theorem xmem_usage_shortage_positive_witness:
  "rte_mempool_xmem_usage 0 3 4096 (\<lambda>k. of_nat k * 4096) 2 12 = 2 ^ 32 - 1"
proof -
  have "rte_mempool_obj_iter 0 3 4096 1 (\<lambda>k. of_nat k * 4096) 2 12 mempool_lelem_iter 0 = (1, 4096)"
    by (simp add: rte_mempool_obj_iter_def obj_iter_loop.simps contig_until.simps mempool_lelem_iter_def Let_def
        word_le_nat_alt)
  from xmem_usage_shortage_positive [OF this] show ?thesis by simp
qed

end
