(* ===== verification/Mbuf.thy ===== *)
theory Mbuf
  imports Mempool_Create
begin

text \<open>
  Packet buffers, \<open>dpdk-2.0.0/lib/librte_mbuf\<close> (\<open>rte_mbuf.h\<close>, \<open>rte_mbuf.c\<close>): the mbuf structure,
  its constructors, allocation from and release to the memory pool, reference counts, attachment
  of indirect mbufs, cloning, and the operations on the data area. A pointer is a 64-bit address,
  NULL is 0; mbufs live in a heap, which is the user part of the pool world of \<open>Mempool\<close>.
  \<open>RTE_LIBRTE_MBUF_DEBUG\<close> is off, so the sanity checks and asserts inside the operations are
  empty; reference counts are the atomic ones. Walks along \<open>next\<close> pointers may meet a cycle, so
  they are partial functions.
\<close>

section \<open>The structure\<close>

record rte_mbuf =
  m_buf_addr :: u64
  m_buf_physaddr :: u64
  m_buf_len :: u16
  m_data_off :: u16
  m_refcnt :: u16
  m_nb_segs :: u8
  m_port :: u8
  m_ol_flags :: u64
  m_packet_type :: u16
  m_data_len :: u16
  m_pkt_len :: u32
  m_vlan_tci :: u16
  m_reserved :: u16
  m_hash :: u64
  m_seqn :: u32
  m_userdata :: u64
  m_pool :: u64
  m_next :: u64
  m_tx_offload :: u64

text \<open>\<open>mm_room\<close> is \<open>mbuf_data_room_size\<close> in the private area of a packet pool.\<close>

record mbuf_mem =
  mm_mbufs :: "u64 \<Rightarrow> rte_mbuf"
  mm_room :: "u64 \<Rightarrow> u16"

type_synonym mbuf_world = "mbuf_mem mp_world"

definition sizeof_rte_mbuf :: nat where "sizeof_rte_mbuf = 128"
definition RTE_PKTMBUF_HEADROOM :: u16 where "RTE_PKTMBUF_HEADROOM = 128"
definition IND_ATTACHED_MBUF :: u64 where "IND_ATTACHED_MBUF = push_bit 62 1"
definition CTRL_MBUF_FLAG :: u64 where "CTRL_MBUF_FLAG = push_bit 63 1"

lemmas mbuf_consts = sizeof_rte_mbuf_def RTE_PKTMBUF_HEADROOM_def IND_ATTACHED_MBUF_def
  CTRL_MBUF_FLAG_def

definition mb :: "mbuf_world \<Rightarrow> u64 \<Rightarrow> rte_mbuf" where
  "mb w m = mm_mbufs (w_user w) m"

definition put_mb :: "u64 \<Rightarrow> rte_mbuf \<Rightarrow> mbuf_world \<Rightarrow> mbuf_world" where
  "put_mb m x w = w\<lparr>w_user := (w_user w)\<lparr>mm_mbufs := (mm_mbufs (w_user w))(m := x)\<rparr>\<rparr>"

definition upd_mb :: "u64 \<Rightarrow> (rte_mbuf \<Rightarrow> rte_mbuf) \<Rightarrow> mbuf_world \<Rightarrow> mbuf_world" where
  "upd_mb m f w = put_mb m (f (mb w m)) w"

definition set_pool :: "u64 \<Rightarrow> rte_mempool \<Rightarrow> mbuf_world \<Rightarrow> mbuf_world" where
  "set_pool p mp w = w\<lparr>w_pools := (w_pools w)(p := mp)\<rparr>"

definition RTE_MBUF_FROM_BADDR :: "u64 \<Rightarrow> u64" where
  "RTE_MBUF_FROM_BADDR ba = ba - of_nat sizeof_rte_mbuf"

definition RTE_MBUF_TO_BADDR :: "u64 \<Rightarrow> u64" where
  "RTE_MBUF_TO_BADDR m = m + of_nat sizeof_rte_mbuf"

definition RTE_MBUF_INDIRECT :: "rte_mbuf \<Rightarrow> bool" where
  "RTE_MBUF_INDIRECT x \<longleftrightarrow> m_ol_flags x AND IND_ATTACHED_MBUF \<noteq> 0"

definition RTE_MBUF_DIRECT :: "rte_mbuf \<Rightarrow> bool" where
  "RTE_MBUF_DIRECT x \<longleftrightarrow> \<not> RTE_MBUF_INDIRECT x"

definition rte_is_ctrlmbuf :: "mbuf_world \<Rightarrow> u64 \<Rightarrow> bool" where
  "rte_is_ctrlmbuf w m \<longleftrightarrow> m_ol_flags (mb w m) AND CTRL_MBUF_FLAG \<noteq> 0"

section \<open>Constructors\<close>

definition zero_mbuf :: rte_mbuf where
  "zero_mbuf = \<lparr>m_buf_addr = 0, m_buf_physaddr = 0, m_buf_len = 0, m_data_off = 0, m_refcnt = 0,
     m_nb_segs = 0, m_port = 0, m_ol_flags = 0, m_packet_type = 0, m_data_len = 0, m_pkt_len = 0,
     m_vlan_tci = 0, m_reserved = 0, m_hash = 0, m_seqn = 0, m_userdata = 0, m_pool = 0,
     m_next = 0, m_tx_offload = 0\<rparr>"

definition rte_pktmbuf_init :: "mem_env \<Rightarrow> mbuf_mem obj_ctor" where
  "rte_pktmbuf_init env mp_addr mp m i mem =
     (let buf_len = mp_elt_size mp - of_nat sizeof_rte_mbuf;
          x = zero_mbuf\<lparr>m_buf_addr := m + of_nat sizeof_rte_mbuf,
                m_buf_physaddr := rte_mempool_virt2phy env mp m + of_nat sizeof_rte_mbuf,
                m_buf_len := ucast buf_len,
                m_data_off := min RTE_PKTMBUF_HEADROOM (ucast buf_len),
                m_pool := mp_addr, m_nb_segs := 1, m_port := 0xff\<rparr>
      in mem\<lparr>mm_mbufs := (mm_mbufs mem)(m := x)\<rparr>)"

definition rte_ctrlmbuf_init :: "mem_env \<Rightarrow> mbuf_mem obj_ctor" where
  "rte_ctrlmbuf_init env mp_addr mp m i mem =
     (let mem = rte_pktmbuf_init env mp_addr mp m i mem;
          x = mm_mbufs mem m
      in mem\<lparr>mm_mbufs := (mm_mbufs mem)(m := x\<lparr>m_ol_flags := m_ol_flags x OR CTRL_MBUF_FLAG\<rparr>)\<rparr>)"

definition rte_pktmbuf_pool_init :: "u64 \<Rightarrow> u64 \<Rightarrow> rte_mempool \<Rightarrow> mbuf_mem \<Rightarrow> mbuf_mem" where
  "rte_pktmbuf_pool_init opaque_arg mp_addr mp mem =
     (let roomsz = ucast opaque_arg;
          roomsz = (if roomsz = 0 then 2048 + RTE_PKTMBUF_HEADROOM else roomsz)
      in mem\<lparr>mm_room := (mm_room mem)(rte_mempool_get_priv mp_addr mp := roomsz)\<rparr>)"

section \<open>Sanity check\<close>

datatype mbuf_panic = Mbuf_is_NULL | Bad_mbuf_pool | Bad_phys_addr | Bad_virt_addr | Bad_ref_cnt
  | Bad_nb_segs

text \<open>The walk over at most \<open>nb_segs\<close> segments; the result is what is left of the counter.\<close>

fun sanity_walk :: "mbuf_world \<Rightarrow> u64 \<Rightarrow> nat \<Rightarrow> nat" where
  "sanity_walk w m_seg 0 = 0"
| "sanity_walk w m_seg (Suc n) =
     (if m_seg \<noteq> 0 then sanity_walk w (m_next (mb w m_seg)) n else Suc n)"

definition rte_mbuf_sanity_check :: "mbuf_world \<Rightarrow> u64 \<Rightarrow> bool \<Rightarrow> mbuf_panic + unit" where
  "rte_mbuf_sanity_check w m is_header =
     (if m = 0 then Inl Mbuf_is_NULL
      else if m_pool (mb w m) = 0 then Inl Bad_mbuf_pool
      else if m_buf_physaddr (mb w m) = 0 then Inl Bad_phys_addr
      else if m_buf_addr (mb w m) = 0 then Inl Bad_virt_addr
      else if m_refcnt (mb w m) = 0 \<or> m_refcnt (mb w m) = 0xFFFF then Inl Bad_ref_cnt
      else if \<not> is_header then Inr ()
      else if sanity_walk w m (unat (m_nb_segs (mb w m))) \<noteq> 0 then Inl Bad_nb_segs
      else Inr ())"

section \<open>Reference counts, allocation\<close>

text \<open>\<open>value\<close> is the \<open>int16_t\<close> argument, as a 16-bit word.\<close>

definition rte_mbuf_refcnt_update :: "u64 \<Rightarrow> u16 \<Rightarrow> mbuf_world \<Rightarrow> u16 \<times> mbuf_world" where
  "rte_mbuf_refcnt_update m value w =
     (let w = upd_mb m (\<lambda>x. x\<lparr>m_refcnt := m_refcnt x + value\<rparr>) w in (m_refcnt (mb w m), w))"

definition rte_mbuf_refcnt_read :: "mbuf_world \<Rightarrow> u64 \<Rightarrow> u16" where
  "rte_mbuf_refcnt_read w m = m_refcnt (mb w m)"

definition rte_mbuf_refcnt_set :: "u64 \<Rightarrow> u16 \<Rightarrow> mbuf_world \<Rightarrow> mbuf_world" where
  "rte_mbuf_refcnt_set m new_value w = upd_mb m (\<lambda>x. x\<lparr>m_refcnt := new_value\<rparr>) w"

text \<open>NULL is the address 0; \<open>None\<close> would be a call that does not return.\<close>

definition rte_mbuf_raw_alloc :: "u32 \<Rightarrow> u64 \<Rightarrow> mbuf_world \<Rightarrow> (u64 \<times> mbuf_world) option" where
  "rte_mbuf_raw_alloc lcore mp w =
     (case rte_mempool_get lcore (w_pools w mp) (\<lambda>_. 0) of
        None \<Rightarrow> None
      | Some (ret, obj_p, p) \<Rightarrow>
          (let w = set_pool mp p w in
           if ret < 0 then Some (0, w)
           else (let m = obj_p 0 in Some (m, rte_mbuf_refcnt_set m 1 w))))"

definition rte_mbuf_raw_free :: "u32 \<Rightarrow> u64 \<Rightarrow> mbuf_world \<Rightarrow> mbuf_world option" where
  "rte_mbuf_raw_free lcore m w =
     map_option (\<lambda>p. set_pool (m_pool (mb w m)) p w)
       (rte_mempool_put lcore (w_pools w (m_pool (mb w m))) m)"

definition default_data_off :: "u16 \<Rightarrow> u16" where
  "default_data_off buf_len = (if RTE_PKTMBUF_HEADROOM \<le> buf_len then RTE_PKTMBUF_HEADROOM else buf_len)"

definition rte_pktmbuf_reset :: "u64 \<Rightarrow> mbuf_world \<Rightarrow> mbuf_world" where
  "rte_pktmbuf_reset m w =
     upd_mb m (\<lambda>x. x\<lparr>m_next := 0, m_pkt_len := 0, m_tx_offload := 0, m_vlan_tci := 0, m_nb_segs := 1,
       m_port := 0xff, m_ol_flags := 0, m_packet_type := 0,
       m_data_off := default_data_off (m_buf_len x), m_data_len := 0\<rparr>) w"

definition rte_pktmbuf_alloc :: "u32 \<Rightarrow> u64 \<Rightarrow> mbuf_world \<Rightarrow> (u64 \<times> mbuf_world) option" where
  "rte_pktmbuf_alloc lcore mp w =
     map_option (\<lambda>(m, w). if m \<noteq> 0 then (m, rte_pktmbuf_reset m w) else (m, w))
       (rte_mbuf_raw_alloc lcore mp w)"

section \<open>Indirect mbufs\<close>

definition rte_pktmbuf_attach :: "u64 \<Rightarrow> u64 \<Rightarrow> mbuf_world \<Rightarrow> mbuf_world" where
  "rte_pktmbuf_attach mi md w =
     (let w = snd (rte_mbuf_refcnt_update md 1 w);
          d = mb w md
      in upd_mb mi (\<lambda>x. x\<lparr>m_buf_physaddr := m_buf_physaddr d, m_buf_addr := m_buf_addr d,
           m_buf_len := m_buf_len d, m_data_off := m_data_off d, m_data_len := m_data_len d,
           m_port := m_port d, m_vlan_tci := m_vlan_tci d, m_tx_offload := m_tx_offload d,
           m_hash := m_hash d, m_next := 0, m_pkt_len := ucast (m_data_len d), m_nb_segs := 1,
           m_ol_flags := m_ol_flags d OR IND_ATTACHED_MBUF, m_packet_type := m_packet_type d\<rparr>) w)"

definition rte_pktmbuf_detach :: "mem_env \<Rightarrow> u64 \<Rightarrow> mbuf_world \<Rightarrow> mbuf_world" where
  "rte_pktmbuf_detach env m w =
     (let mp = w_pools w (m_pool (mb w m));
          buf_len = mp_elt_size mp - of_nat sizeof_rte_mbuf
      in upd_mb m (\<lambda>x. x\<lparr>m_buf_physaddr := rte_mempool_virt2phy env mp m + of_nat sizeof_rte_mbuf,
           m_buf_addr := RTE_MBUF_TO_BADDR m, m_buf_len := ucast buf_len,
           m_data_off := default_data_off (ucast buf_len), m_data_len := 0, m_ol_flags := 0\<rparr>) w)"

definition rte_pktmbuf_prefree_seg ::
  "mem_env \<Rightarrow> u32 \<Rightarrow> u64 \<Rightarrow> mbuf_world \<Rightarrow> (u64 \<times> mbuf_world) option" where
  "rte_pktmbuf_prefree_seg env lcore m w =
     (let (last, w) = (if rte_mbuf_refcnt_read w m = 1 then (True, w)
                       else (let (c, w) = rte_mbuf_refcnt_update m (- 1) w in (c = 0, w)))
      in if last
         then (let w = rte_mbuf_refcnt_set m 0 w in
               if RTE_MBUF_INDIRECT (mb w m)
               then (let md = RTE_MBUF_FROM_BADDR (m_buf_addr (mb w m));
                         w = rte_pktmbuf_detach env m w;
                         (c, w) = rte_mbuf_refcnt_update md (- 1) w
                     in if c = 0 then map_option (\<lambda>w. (m, w)) (rte_mbuf_raw_free lcore md w)
                        else Some (m, w))
               else Some (m, w))
         else Some (0, w))"

definition rte_pktmbuf_free_seg :: "mem_env \<Rightarrow> u32 \<Rightarrow> u64 \<Rightarrow> mbuf_world \<Rightarrow> mbuf_world option" where
  "rte_pktmbuf_free_seg env lcore m w =
     Option.bind (rte_pktmbuf_prefree_seg env lcore m w)
       (\<lambda>(m, w). if m \<noteq> 0 then rte_mbuf_raw_free lcore m (upd_mb m (\<lambda>x. x\<lparr>m_next := 0\<rparr>) w) else Some w)"

partial_function (option) rte_pktmbuf_free ::
  "mem_env \<Rightarrow> u32 \<Rightarrow> u64 \<Rightarrow> mbuf_world \<Rightarrow> mbuf_world option" where
  "rte_pktmbuf_free env lcore m w =
     (if m \<noteq> 0
      then (let m_next' = m_next (mb w m)
            in Option.bind (rte_pktmbuf_free_seg env lcore m w)
                 (\<lambda>w. rte_pktmbuf_free env lcore m_next' w))
      else Some w)"

text \<open>The do-while loop of the clone; \<open>prev\<close> is the mbuf whose \<open>next\<close> field is written.\<close>

partial_function (option) clone_loop ::
  "u32 \<Rightarrow> u64 \<Rightarrow> u64 \<Rightarrow> u64 \<Rightarrow> u8 \<Rightarrow> u64 \<Rightarrow> mbuf_world \<Rightarrow> (u64 \<times> u64 \<times> u8 \<times> mbuf_world) option" where
  "clone_loop lcore mp mi prev nseg md w =
     (let nseg = nseg + 1;
          w = rte_pktmbuf_attach mi md w;
          w = upd_mb prev (\<lambda>x. x\<lparr>m_next := mi\<rparr>) w;
          prev = mi;
          md = m_next (mb w md)
      in if md \<noteq> 0
         then Option.bind (rte_pktmbuf_alloc lcore mp w)
                (\<lambda>(mi, w). if mi \<noteq> 0 then clone_loop lcore mp mi prev nseg md w
                           else Some (mi, prev, nseg, w))
         else Some (mi, prev, nseg, w))"

definition rte_pktmbuf_clone ::
  "mem_env \<Rightarrow> u32 \<Rightarrow> u64 \<Rightarrow> u64 \<Rightarrow> mbuf_world \<Rightarrow> (u64 \<times> mbuf_world) option" where
  "rte_pktmbuf_clone env lcore md mp w =
     Option.bind (rte_pktmbuf_alloc lcore mp w)
       (\<lambda>(mc, w).
          if mc = 0 then Some (0, w)
          else (let pktlen = m_pkt_len (mb w md)
                in Option.bind (clone_loop lcore mp mc mc 0 md w)
                     (\<lambda>(mi, prev, nseg, w).
                        (let w = upd_mb prev (\<lambda>x. x\<lparr>m_next := 0\<rparr>) w;
                             w = upd_mb mc (\<lambda>x. x\<lparr>m_nb_segs := nseg, m_pkt_len := pktlen\<rparr>) w
                         in if mi = 0
                            then map_option (\<lambda>w. (0, w)) (rte_pktmbuf_free env lcore mc w)
                            else Some (mc, w)))))"

partial_function (option) rte_pktmbuf_refcnt_update ::
  "u64 \<Rightarrow> u16 \<Rightarrow> mbuf_world \<Rightarrow> mbuf_world option" where
  "rte_pktmbuf_refcnt_update m v w =
     (let w = snd (rte_mbuf_refcnt_update m v w);
          m' = m_next (mb w m)
      in if m' \<noteq> 0 then rte_pktmbuf_refcnt_update m' v w else Some w)"

section \<open>The data area\<close>

definition rte_pktmbuf_headroom :: "rte_mbuf \<Rightarrow> u16" where
  "rte_pktmbuf_headroom x = m_data_off x"

definition rte_pktmbuf_tailroom :: "rte_mbuf \<Rightarrow> u16" where
  "rte_pktmbuf_tailroom x = m_buf_len x - rte_pktmbuf_headroom x - m_data_len x"

partial_function (option) rte_pktmbuf_lastseg :: "mbuf_world \<Rightarrow> u64 \<Rightarrow> u64 option" where
  "rte_pktmbuf_lastseg w m =
     (if m_next (mb w m) \<noteq> 0 then rte_pktmbuf_lastseg w (m_next (mb w m)) else Some m)"

definition rte_pktmbuf_mtod :: "rte_mbuf \<Rightarrow> u64" where
  "rte_pktmbuf_mtod x = m_buf_addr x + ucast (m_data_off x)"

definition rte_pktmbuf_prepend :: "u64 \<Rightarrow> u16 \<Rightarrow> mbuf_world \<Rightarrow> u64 \<times> mbuf_world" where
  "rte_pktmbuf_prepend m len w =
     (if len > rte_pktmbuf_headroom (mb w m) then (0, w)
      else (let w = upd_mb m (\<lambda>x. x\<lparr>m_data_off := m_data_off x - len, m_data_len := m_data_len x + len,
                                m_pkt_len := m_pkt_len x + ucast len\<rparr>) w
            in (rte_pktmbuf_mtod (mb w m), w)))"

definition rte_pktmbuf_append :: "u64 \<Rightarrow> u16 \<Rightarrow> mbuf_world \<Rightarrow> (u64 \<times> mbuf_world) option" where
  "rte_pktmbuf_append m len w =
     map_option
       (\<lambda>m_last. if len > rte_pktmbuf_tailroom (mb w m_last) then (0, w)
          else (let tail = rte_pktmbuf_mtod (mb w m_last) + ucast (m_data_len (mb w m_last));
                    w = upd_mb m_last (\<lambda>x. x\<lparr>m_data_len := m_data_len x + len\<rparr>) w;
                    w = upd_mb m (\<lambda>x. x\<lparr>m_pkt_len := m_pkt_len x + ucast len\<rparr>) w
                in (tail, w)))
       (rte_pktmbuf_lastseg w m)"

definition rte_pktmbuf_adj :: "u64 \<Rightarrow> u16 \<Rightarrow> mbuf_world \<Rightarrow> u64 \<times> mbuf_world" where
  "rte_pktmbuf_adj m len w =
     (if len > m_data_len (mb w m) then (0, w)
      else (let w = upd_mb m (\<lambda>x. x\<lparr>m_data_len := m_data_len x - len, m_data_off := m_data_off x + len,
                                m_pkt_len := m_pkt_len x - ucast len\<rparr>) w
            in (rte_pktmbuf_mtod (mb w m), w)))"

definition rte_pktmbuf_trim :: "u64 \<Rightarrow> u16 \<Rightarrow> mbuf_world \<Rightarrow> (int \<times> mbuf_world) option" where
  "rte_pktmbuf_trim m len w =
     map_option
       (\<lambda>m_last. if len > m_data_len (mb w m_last) then (- 1, w)
          else (let w = upd_mb m_last (\<lambda>x. x\<lparr>m_data_len := m_data_len x - len\<rparr>) w;
                    w = upd_mb m (\<lambda>x. x\<lparr>m_pkt_len := m_pkt_len x - ucast len\<rparr>) w
                in (0, w)))
       (rte_pktmbuf_lastseg w m)"

definition rte_pktmbuf_is_contiguous :: "rte_mbuf \<Rightarrow> bool" where
  "rte_pktmbuf_is_contiguous x \<longleftrightarrow> m_nb_segs x = 1"

end
