(* ===== verification/Mbuf_Spec.thy ===== *)
theory Mbuf_Spec
  imports Mbuf
begin

text \<open>
  Properties of packet buffers: the data area operations undo each other (\<open>Mbuf_Data\<close> has their exact effect),
  allocation takes exactly one object from the pool and initialises it, and freeing a chain returns
  every segment whose last reference goes, once, to its pool.
\<close>

section \<open>The heap\<close>

lemma mb_put_mb [simp]: "mb (put_mb m x w) a = (if a = m then x else mb w a)"
  by (simp add: mb_def put_mb_def)

lemma mb_upd_mb [simp]: "mb (upd_mb m f w) a = (if a = m then f (mb w m) else mb w a)"
  by (simp add: upd_mb_def)

lemma mb_set_pool [simp]: "mb (set_pool p mp w) a = mb w a"
  by (simp add: mb_def set_pool_def)

lemma w_pools_upd [simp]: "w_pools (put_mb m x w) = w_pools w" "w_pools (upd_mb m f w) = w_pools w"
  by (simp_all add: put_mb_def upd_mb_def)

lemma w_pools_set_pool [simp]: "w_pools (set_pool p mp w) = (w_pools w)(p := mp)"
  by (simp add: set_pool_def)

lemma w_pools_refcnt_set [simp]: "w_pools (rte_mbuf_refcnt_set m c w) = w_pools w"
  by (simp add: rte_mbuf_refcnt_set_def)

lemma mb_refcnt_set [simp]:
  "mb (rte_mbuf_refcnt_set m c w) a = (if a = m then (mb w m)\<lparr>m_refcnt := c\<rparr> else mb w a)"
  by (simp add: rte_mbuf_refcnt_set_def)

lemma put_mb_twice [simp]: "put_mb m x (put_mb m y w) = put_mb m x w"
  by (simp add: put_mb_def)

lemma put_mb_same [simp]: "put_mb m (mb w m) w = w"
  by (simp add: put_mb_def mb_def)

lemma upd_mb_twice: "upd_mb m f (upd_mb m g w) = upd_mb m (\<lambda>x. f (g x)) w"
  by (simp add: upd_mb_def)

lemma upd_mb_id: "f (mb w m) = mb w m \<Longrightarrow> upd_mb m f w = w"
  by (simp add: upd_mb_def)

lemma upd_mb_commute: "a \<noteq> b \<Longrightarrow> upd_mb a f (upd_mb b g w) = upd_mb b g (upd_mb a f w)"
  by (simp add: upd_mb_def put_mb_def mb_def fun_upd_twist)

section \<open>Chains of segments\<close>

fun chain :: "mbuf_world \<Rightarrow> u64 \<Rightarrow> u64 list \<Rightarrow> bool" where
  "chain w m [] = (m = 0)"
| "chain w m (a # as) = (m = a \<and> a \<noteq> 0 \<and> chain w (m_next (mb w a)) as)"

lemma chain_cong:
  "(\<And>a. a \<in> set as \<Longrightarrow> m_next (mb w' a) = m_next (mb w a)) \<Longrightarrow> chain w' m as = chain w m as"
  by (induction as arbitrary: m) auto

lemma lastseg_chain:
  assumes "chain w m as" and "as \<noteq> []"
  shows "rte_pktmbuf_lastseg w m = Some (last as)"
  using assms
proof (induction as arbitrary: m)
  case (Cons a as)
  then show ?case
    by (cases as) (auto simp: rte_pktmbuf_lastseg.simps [of w a])
qed simp

section \<open>The data area\<close>

definition mbuf_ok :: "rte_mbuf \<Rightarrow> bool" where
  "mbuf_ok x \<longleftrightarrow> unat (m_data_off x) + unat (m_data_len x) \<le> unat (m_buf_len x)"

lemma unat_less_2p16 [simp]: "unat (x :: u16) < 65536"
  using unsigned_less [of x, where ?'a = nat] by simp

lemma unat_plus16: "unat (a :: u16) + unat b < 65536 \<Longrightarrow> unat (a + b) = unat a + unat b"
  by (simp add: unat_word_ariths)

lemma mbuf_okD:
  assumes "mbuf_ok x"
  shows "unat (m_data_off x) + unat (m_data_len x) < 65536"
    "unat (rte_pktmbuf_tailroom x) = unat (m_buf_len x) - unat (m_data_off x) - unat (m_data_len x)"
proof -
  show "unat (m_data_off x) + unat (m_data_len x) < 65536"
    using assms unat_less_2p16 [of "m_buf_len x"] unfolding mbuf_ok_def by linarith
  have "m_data_off x \<le> m_buf_len x" using assms by (simp add: mbuf_ok_def word_le_nat_alt)
  moreover from this have "m_data_len x \<le> m_buf_len x - m_data_off x"
    using assms by (simp add: mbuf_ok_def word_le_nat_alt unat_sub_le)
  ultimately show "unat (rte_pktmbuf_tailroom x) = unat (m_buf_len x) - unat (m_data_off x) - unat (m_data_len x)"
    by (simp add: rte_pktmbuf_tailroom_def rte_pktmbuf_headroom_def unat_sub_le)
qed

text \<open>Prepending up to the headroom and then removing the same number of bytes at the front
  gives back exactly the same state, and the other way round for bytes of the segment's data; the
  pointers returned are the new start of the data.\<close>
theorem prepend_adj_roundtrip:
  assumes "mbuf_ok (mb w m)"
  shows "(len \<le> m_data_off (mb w m) \<longrightarrow>
      rte_pktmbuf_adj m len (snd (rte_pktmbuf_prepend m len w)) = (rte_pktmbuf_mtod (mb w m), w) \<and>
      fst (rte_pktmbuf_prepend m len w) = rte_pktmbuf_mtod (mb w m) - ucast len) \<and>
    (len \<le> m_data_len (mb w m) \<longrightarrow>
      rte_pktmbuf_prepend m len (snd (rte_pktmbuf_adj m len w)) = (rte_pktmbuf_mtod (mb w m), w) \<and>
      fst (rte_pktmbuf_adj m len w) = rte_pktmbuf_mtod (mb w m) + ucast len)"
proof -
  let ?x = "mb w m"
  note lt = mbuf_okD(1) [OF assms]
  have off: "ucast (m_data_off ?x - len) = (ucast (m_data_off ?x) - ucast len :: u64)" if "len \<le> m_data_off ?x"
    using that by (simp add: word_unat_eq_iff unat_sub_le word_le_nat_alt)
  have off': "ucast (m_data_off ?x + len) = (ucast (m_data_off ?x) + ucast len :: u64)" if "len \<le> m_data_len ?x"
  proof -
    have "unat (m_data_off ?x) + unat len < 65536" using that lt by (simp add: word_le_nat_alt)
    then show ?thesis by (simp add: word_unat_eq_iff unat_plus16 unat_word_ariths)
  qed
  have ge: "len \<le> m_data_len ?x + len" if "len \<le> m_data_off ?x"
    using that lt by (simp add: word_le_nat_alt unat_plus16)
  have ge': "len \<le> m_data_off ?x + len" if "len \<le> m_data_len ?x"
    using that lt by (simp add: word_le_nat_alt unat_plus16)
  show ?thesis
    using ge ge' by (auto simp: rte_pktmbuf_adj_def rte_pktmbuf_prepend_def rte_pktmbuf_headroom_def Let_def
        rte_pktmbuf_mtod_def off off' not_less upd_mb_twice intro!: upd_mb_id)
qed

definition sample_mbuf :: rte_mbuf where
  "sample_mbuf = zero_mbuf\<lparr>m_buf_addr := 0x1080, m_buf_physaddr := 0x9080, m_buf_len := 2048, m_data_off := 128,
     m_data_len := 60, m_pkt_len := 60, m_refcnt := 1, m_nb_segs := 1, m_pool := 0x100\<rparr>"

definition sample_world :: mbuf_world where
  "sample_world = \<lparr>w_pools = (\<lambda>_. sample_pool), w_list = [0x100], w_rings = [], w_owner = (\<lambda>_. 0x100),
     w_errno = 0, w_user = \<lparr>mm_mbufs = (\<lambda>_. sample_mbuf), mm_room = (\<lambda>_. 2176)\<rparr>\<rparr>"

lemma sample_world_mb [simp]: "mb sample_world m = sample_mbuf"
  by (simp add: mb_def sample_world_def)

lemma sample_mbuf_fields: "m_buf_addr sample_mbuf = 0x1080" "m_buf_len sample_mbuf = 2048"
  "m_data_off sample_mbuf = 128" "m_data_len sample_mbuf = 60" "m_pkt_len sample_mbuf = 60"
  "m_refcnt sample_mbuf = 1" "m_next sample_mbuf = 0" "m_pool sample_mbuf = 0x100" "m_ol_flags sample_mbuf = 0"
  by (simp_all add: sample_mbuf_def zero_mbuf_def)

lemma sample_mbuf_ok [simp]: "mbuf_ok sample_mbuf"
  by (simp add: mbuf_ok_def sample_mbuf_def)

theorem prepend_adj_roundtrip_witness:
  "rte_pktmbuf_adj 0x1000 14 (snd (rte_pktmbuf_prepend 0x1000 14 sample_world)) = (0x1100, sample_world) \<and>
   rte_pktmbuf_prepend 0x1000 14 (snd (rte_pktmbuf_adj 0x1000 14 sample_world)) = (0x1100, sample_world)"
  using prepend_adj_roundtrip [of sample_world "0x1000" 14]
  by (simp add: rte_pktmbuf_mtod_def) (simp add: sample_mbuf_def)

text \<open>On a packet of any number of segments, appending \<open>len\<close> bytes succeeds exactly when the
  last segment has the tailroom, writes nothing otherwise, and trimming the same number of bytes
  afterwards gives back exactly the same state.\<close>
theorem append_trim_roundtrip:
  assumes "chain w m as" and "as \<noteq> []" and "mbuf_ok (mb w (last as))"
  shows "\<exists>p w'. rte_pktmbuf_append m len w = Some (p, w') \<and>
    (if unat (m_data_off (mb w (last as))) + unat (m_data_len (mb w (last as))) + unat len
         \<le> unat (m_buf_len (mb w (last as)))
     then p = rte_pktmbuf_mtod (mb w (last as)) + ucast (m_data_len (mb w (last as))) \<and>
       mbuf_ok (mb w' (last as)) \<and> m_pkt_len (mb w' m) = m_pkt_len (mb w m) + ucast len \<and>
       rte_pktmbuf_trim m len w' = Some (0, w)
     else p = 0 \<and> w' = w)"
proof -
  let ?l = "last as" and ?x = "mb w (last as)"
  note seg = lastseg_chain [OF assms(1,2)] and tail = mbuf_okD(2) [OF assms(3)]
  have room: "len > rte_pktmbuf_tailroom ?x \<longleftrightarrow>
      \<not> unat (m_data_off ?x) + unat (m_data_len ?x) + unat len \<le> unat (m_buf_len ?x)"
    using assms(3) by (auto simp: mbuf_ok_def word_less_nat_alt tail)
  show ?thesis
  proof (cases "len > rte_pktmbuf_tailroom ?x")
    case True
    with room seg show ?thesis by (simp add: rte_pktmbuf_append_def)
  next
    case False
    let ?w = "upd_mb m (\<lambda>x. x\<lparr>m_pkt_len := m_pkt_len x + ucast len\<rparr>)
      (upd_mb ?l (\<lambda>x. x\<lparr>m_data_len := m_data_len x + len\<rparr>) w)"
    have fit: "unat (m_data_off ?x) + unat (m_data_len ?x) + unat len \<le> unat (m_buf_len ?x)"
      using room False by simp
    have sum: "unat (m_data_len ?x + len) = unat (m_data_len ?x) + unat len"
      using fit unat_less_2p16 [of "m_buf_len ?x"] by (intro unat_plus16) (simp del: unat_less_2p16)
    have "chain ?w m as" using assms(1) by (subst chain_cong [where w = w]) auto
    from lastseg_chain [OF this assms(2)]
    have "rte_pktmbuf_trim m len ?w = Some (0, w)"
      using sum by (auto simp: rte_pktmbuf_trim_def Let_def word_less_nat_alt upd_mb_def put_mb_def mb_def fun_upd_twist)
    moreover have "mbuf_ok (mb ?w ?l)" using fit sum by (auto simp: mbuf_ok_def)
    ultimately show ?thesis
      using False fit seg by (simp add: rte_pktmbuf_append_def Let_def)
  qed
qed

theorem append_trim_roundtrip_witness:
  "\<exists>p w'. rte_pktmbuf_append 0x1000 100 sample_world = Some (p, w') \<and> p = 0x113C \<and>
     rte_pktmbuf_trim 0x1000 100 w' = Some (0, sample_world)"
proof -
  have "chain sample_world 0x1000 [0x1000]" by (simp add: sample_mbuf_def zero_mbuf_def)
  from append_trim_roundtrip [OF this, of 100] show ?thesis
    by (auto simp: rte_pktmbuf_mtod_def sample_mbuf_fields)
qed

section \<open>Allocation\<close>

lemma raw_alloc_cases:
  assumes ok: "mempool_ok (w_pools w p)"
  obtains (got) m mp where "rte_mbuf_raw_alloc lcore p w
        = Some (m, rte_mbuf_refcnt_set m 1 (set_pool p mp w))"
      "mempool_ok mp" "mp_size mp = mp_size (w_pools w p)" "pool_desc mp = pool_desc (w_pools w p)"
      "pool_free (w_pools w p) = add_mset m (pool_free mp)"
    | (none) mp where "rte_mbuf_raw_alloc lcore p w = Some (0, set_pool p mp w)"
      "mempool_ok mp" "mp_size mp = mp_size (w_pools w p)" "pool_desc mp = pool_desc (w_pools w p)"
      "pool_free mp = pool_free (w_pools w p)"
proof -
  from ok show thesis
  proof (cases rule: mpool.get_one [where l = lcore and tbl = "\<lambda>_. 0"])
    case (got tbl' mp)
    then show thesis
      by (intro that(1) [of "tbl' 0" mp])
        (simp_all add: rte_mbuf_raw_alloc_def rte_mempool_get_def Let_def word_unat_eq_iff)
  next
    case (none mp)
    then show thesis
      by (intro that(2) [of mp])
        (simp_all add: rte_mbuf_raw_alloc_def rte_mempool_get_def Let_def errno_defs word_unat_eq_iff)
  qed
qed

text \<open>Allocating a packet mbuf from a well-formed pool (whose objects are not the NULL pointer)
  returns; it either yields one of the free objects, which leaves the pool, and whose fields are
  reset (one reference, no data, one segment, headroom of 128 bytes or the whole buffer), touching no
  other mbuf; or it yields NULL, leaving the free objects and all mbufs as they were.\<close>
theorem pktmbuf_alloc_exact:
  assumes "mempool_ok (w_pools w p)" and "0 \<notin># pool_free (w_pools w p)"
  shows "\<exists>m w'. rte_pktmbuf_alloc lcore p w = Some (m, w') \<and> mempool_ok (w_pools w' p) \<and>
    (\<forall>q. q \<noteq> p \<longrightarrow> w_pools w' q = w_pools w q) \<and> (\<forall>a. a \<noteq> m \<longrightarrow> mb w' a = mb w a) \<and>
    (if m = 0 then pool_free (w_pools w' p) = pool_free (w_pools w p) \<and> mb w' 0 = mb w 0
     else pool_free (w_pools w p) = add_mset m (pool_free (w_pools w' p)) \<and>
       mb w' m = (mb w m)\<lparr>m_refcnt := 1, m_next := 0, m_pkt_len := 0, m_tx_offload := 0, m_vlan_tci := 0,
         m_nb_segs := 1, m_port := 0xff, m_ol_flags := 0, m_packet_type := 0,
         m_data_off := min 128 (m_buf_len (mb w m)), m_data_len := 0\<rparr>)"
  using assms(1)
proof (cases rule: raw_alloc_cases [where lcore = lcore])
  case (got m mp)
  with assms(2) have "m \<noteq> 0" by auto
  with got show ?thesis
    by (simp add: rte_pktmbuf_alloc_def rte_pktmbuf_reset_def rte_mbuf_refcnt_set_def default_data_off_def
        RTE_PKTMBUF_HEADROOM_def min_def)
next
  case (none mp)
  then show ?thesis by (simp add: rte_pktmbuf_alloc_def)
qed

theorem pktmbuf_alloc_exact_witness:
  "\<exists>m w'. rte_pktmbuf_alloc 0 0x100 sample_world = Some (m, w') \<and> mempool_ok (w_pools w' 0x100) \<and>
     (m \<noteq> 0 \<longrightarrow> m \<in># pool_free sample_pool \<and> m_refcnt (mb w' m) = 1 \<and> m_data_off (mb w' m) = 128)"
proof -
  have p: "w_pools sample_world 0x100 = sample_pool" by (simp add: sample_world_def)
  have "mempool_ok (w_pools sample_world 0x100)" "0 \<notin># pool_free (w_pools sample_world 0x100)"
    by (simp_all add: p sample_pool_ok sample_pool_free)
  from pktmbuf_alloc_exact [OF this, of 0] obtain m w' where
    r: "rte_pktmbuf_alloc 0 0x100 sample_world = Some (m, w')" "mempool_ok (w_pools w' 0x100)"
      "m \<noteq> 0 \<Longrightarrow> pool_free sample_pool = add_mset m (pool_free (w_pools w' 0x100))"
      "m \<noteq> 0 \<Longrightarrow> m_refcnt (mb w' m) = 1 \<and> m_data_off (mb w' m) = 128"
    by (auto simp: p sample_mbuf_fields min_def split: if_splits)
  then show ?thesis by (intro exI conjI impI) auto
qed

section \<open>Freeing\<close>

lemma raw_free_ok:
  assumes "mempool_ok (w_pools w (m_pool (mb w m)))"
    and "size (pool_free (w_pools w (m_pool (mb w m)))) < unat (mp_size (w_pools w (m_pool (mb w m))))"
  shows "\<exists>mp. rte_mbuf_raw_free lcore m w = Some (set_pool (m_pool (mb w m)) mp w) \<and> mempool_ok mp \<and>
    mp_size mp = mp_size (w_pools w (m_pool (mb w m))) \<and> pool_desc mp = pool_desc (w_pools w (m_pool (mb w m))) \<and>
    pool_free mp = add_mset m (pool_free (w_pools w (m_pool (mb w m))))"
  using mpool.put_one [OF assms, of lcore m]
  by (auto simp: rte_mbuf_raw_free_def rte_mempool_put_def word_unat_eq_iff)

text \<open>
  The heap after a segment's release: a direct segment loses one reference, and its \<open>next\<close> pointer
  when that was the last one.
\<close>

definition released :: "rte_mbuf \<Rightarrow> rte_mbuf" where
  "released x = (if m_refcnt x = 1 then x\<lparr>m_refcnt := 0, m_next := 0\<rparr> else x\<lparr>m_refcnt := m_refcnt x - 1\<rparr>)"

definition pools_ok :: "mbuf_world \<Rightarrow> bool" where
  "pools_ok w \<longleftrightarrow> (\<forall>p. mempool_ok (w_pools w p))"

text \<open>The segments of a list that are on their last reference and belong to pool \<open>p\<close>.\<close>

definition last_refs :: "mbuf_world \<Rightarrow> u64 \<Rightarrow> u64 list \<Rightarrow> u64 multiset" where
  "last_refs w p as = mset (filter (\<lambda>a. m_refcnt (mb w a) = 1 \<and> m_pool (mb w a) = p) as)"

lemma free_seg_direct:
  assumes "RTE_MBUF_DIRECT (mb w m)" and "m_refcnt (mb w m) \<noteq> 0" and "m \<noteq> 0" and "pools_ok w"
    and room: "\<And>p. size (pool_free (w_pools w p)) + size (last_refs w p [m]) \<le> unat (mp_size (w_pools w p))"
  shows "\<exists>w'. rte_pktmbuf_free_seg env lcore m w = Some w' \<and> pools_ok w' \<and>
    (\<forall>p. pool_free (w_pools w' p) = pool_free (w_pools w p) + last_refs w p [m]) \<and>
    (\<forall>p. mp_size (w_pools w' p) = mp_size (w_pools w p)) \<and>
    (\<forall>a. mb w' a = (if a = m then released (mb w m) else mb w a))"
proof (cases "m_refcnt (mb w m) = 1")
  case False
  then have "m_refcnt (mb w m) + - 1 \<noteq> 0" by simp
  with False assms show ?thesis
    by (simp add: rte_pktmbuf_free_seg_def rte_pktmbuf_prefree_seg_def rte_mbuf_refcnt_read_def
        rte_mbuf_refcnt_update_def Let_def last_refs_def released_def pools_ok_def)
next
  case True
  let ?w = "upd_mb m (\<lambda>x. x\<lparr>m_next := 0\<rparr>) (rte_mbuf_refcnt_set m 0 w)"
  let ?p = "m_pool (mb w m)"
  have mb: "mb ?w m = (mb w m)\<lparr>m_refcnt := 0, m_next := 0\<rparr>" by (simp add: rte_mbuf_refcnt_set_def)
  have pools: "w_pools ?w = w_pools w" by (simp add: rte_mbuf_refcnt_set_def)
  have step: "rte_pktmbuf_free_seg env lcore m w = rte_mbuf_raw_free lcore m ?w"
    using True assms(1,3) by (simp add: rte_pktmbuf_free_seg_def rte_pktmbuf_prefree_seg_def
        rte_mbuf_refcnt_read_def RTE_MBUF_DIRECT_def RTE_MBUF_INDIRECT_def rte_mbuf_refcnt_set_def)
  have "mempool_ok (w_pools ?w (m_pool (mb ?w m)))" using assms(4) by (simp add: pools_ok_def)
  moreover have "size (pool_free (w_pools ?w (m_pool (mb ?w m)))) < unat (mp_size (w_pools ?w (m_pool (mb ?w m))))"
    using room [of ?p] True by (simp add: last_refs_def)
  ultimately obtain mp where mp: "rte_mbuf_raw_free lcore m ?w = Some (set_pool ?p mp ?w)" "mempool_ok mp"
      "mp_size mp = mp_size (w_pools w ?p)" "pool_free mp = add_mset m (pool_free (w_pools w ?p))"
    using raw_free_ok [of ?w m lcore] by (auto simp: pools mb)
  from mp True assms(4) show ?thesis
    by (simp add: step last_refs_def released_def pools_ok_def rte_mbuf_refcnt_set_def)
qed

lemma pktmbuf_free_direct:
  assumes "chain w m as" and "distinct as" and "\<forall>a\<in>set as. RTE_MBUF_DIRECT (mb w a) \<and> m_refcnt (mb w a) \<noteq> 0"
    and "pools_ok w"
    and "\<And>p. size (pool_free (w_pools w p)) + size (last_refs w p as) \<le> unat (mp_size (w_pools w p))"
  shows "\<exists>w'. rte_pktmbuf_free env lcore m w = Some w' \<and> pools_ok w' \<and>
    (\<forall>p. pool_free (w_pools w' p) = pool_free (w_pools w p) + last_refs w p as) \<and>
    (\<forall>p. mp_size (w_pools w' p) = mp_size (w_pools w p)) \<and>
    (\<forall>a. mb w' a = (if a \<in> set as then released (mb w a) else mb w a))"
  using assms
proof (induction as arbitrary: m w)
  case Nil
  then show ?case by (simp add: rte_pktmbuf_free.simps last_refs_def)
next
  case (Cons a as)
  have split: "last_refs w p (a # as) = last_refs w p [a] + last_refs w p as" for p
    by (simp add: last_refs_def)
  have "size (pool_free (w_pools w p)) + size (last_refs w p [a]) \<le> unat (mp_size (w_pools w p))" for p
    using Cons.prems(5) [of p] split [of p] by simp
  from free_seg_direct [OF _ _ _ Cons.prems(4) this, of env lcore] Cons.prems obtain w1 where
    seg: "rte_pktmbuf_free_seg env lcore a w = Some w1" "pools_ok w1" and
    pools: "\<And>p. pool_free (w_pools w1 p) = pool_free (w_pools w p) + last_refs w p [a]"
      "\<And>p. mp_size (w_pools w1 p) = mp_size (w_pools w p)" and
    heap: "\<And>b. mb w1 b = (if b = a then released (mb w a) else mb w b)" by auto
  have same: "mb w1 b = mb w b" if "b \<in> set as" for b using that Cons.prems(2) by (auto simp: heap)
  then have refs: "last_refs w1 p as = last_refs w p as" for p
    unfolding last_refs_def by (intro arg_cong [where f = mset] filter_cong) simp_all
  have "chain w1 (m_next (mb w a)) as"
    using Cons.prems(1) same by (subst chain_cong [where w = w]) auto
  moreover have "\<forall>b\<in>set as. RTE_MBUF_DIRECT (mb w1 b) \<and> m_refcnt (mb w1 b) \<noteq> 0"
    using Cons.prems(3) same by simp
  moreover have "size (pool_free (w_pools w1 p)) + size (last_refs w1 p as) \<le> unat (mp_size (w_pools w1 p))" for p
    using Cons.prems(5) [of p] split [of p] by (simp add: pools refs)
  ultimately obtain w2 where w2: "rte_pktmbuf_free env lcore (m_next (mb w a)) w1 = Some w2" "pools_ok w2"
      "\<forall>p. pool_free (w_pools w2 p) = pool_free (w_pools w1 p) + last_refs w1 p as"
      "\<forall>b. mb w2 b = (if b \<in> set as then released (mb w1 b) else mb w1 b)"
      "\<forall>p. mp_size (w_pools w2 p) = mp_size (w_pools w1 p)"
    using Cons.IH [of w1 "m_next (mb w a)"] seg(2) Cons.prems(2) by auto
  have "rte_pktmbuf_free env lcore m w = Some w2"
    using Cons.prems(1) seg(1) w2(1) by (subst rte_pktmbuf_free.simps) simp
  moreover have "\<forall>p. pool_free (w_pools w2 p) = pool_free (w_pools w p) + last_refs w p (a # as)"
    by (simp add: w2(3) pools(1) refs split [symmetric] add.assoc)
  moreover have "\<forall>b. mb w2 b = (if b \<in> set (a # as) then released (mb w b) else mb w b)"
    using w2(4) Cons.prems(2) by (auto simp: heap)
  moreover have "\<forall>p. mp_size (w_pools w2 p) = mp_size (w_pools w p)" by (simp add: w2(5) pools(2))
  ultimately show ?case using w2(2) by blast
qed

lemma last_refs_append: "last_refs w p (as @ bs) = last_refs w p as + last_refs w p bs"
  by (simp add: last_refs_def)

lemma last_refs_cong: "(\<And>a. a \<in> set as \<Longrightarrow> mb w' a = mb w a) \<Longrightarrow> last_refs w' p as = last_refs w p as"
  unfolding last_refs_def by (intro arg_cong [where f = mset] filter_cong) simp_all

text \<open>Freeing several packets one after the other.\<close>

fun free_all :: "mem_env \<Rightarrow> u32 \<Rightarrow> u64 list \<Rightarrow> mbuf_world \<Rightarrow> mbuf_world option" where
  "free_all env lcore [] w = Some w"
| "free_all env lcore (p # ps) w = Option.bind (rte_pktmbuf_free env lcore p w) (free_all env lcore ps)"

lemma free_all_ok:
  assumes "list_all2 (chain w) ps css" and "distinct (List.concat css)"
    and "\<forall>a\<in>set (List.concat css). RTE_MBUF_DIRECT (mb w a) \<and> m_refcnt (mb w a) \<noteq> 0" and "pools_ok w"
    and "\<And>p. size (pool_free (w_pools w p)) + size (last_refs w p (List.concat css)) \<le> unat (mp_size (w_pools w p))"
  shows "\<exists>w'. free_all env lcore ps w = Some w' \<and> pools_ok w' \<and>
    (\<forall>p. pool_free (w_pools w' p) = pool_free (w_pools w p) + last_refs w p (List.concat css)) \<and>
    (\<forall>a. mb w' a = (if a \<in> set (List.concat css) then released (mb w a) else mb w a))"
  using assms
proof (induction ps arbitrary: css w)
  case Nil
  then show ?case by (simp add: last_refs_def)
next
  case (Cons a ps)
  from Cons.prems(1) obtain cs rest where css: "css = cs # rest" "chain w a cs"
    "list_all2 (chain w) ps rest" by (auto simp: list_all2_Cons1)
  have "size (pool_free (w_pools w p)) + size (last_refs w p cs) \<le> unat (mp_size (w_pools w p))" for p
    using Cons.prems(5) [of p] by (simp add: css(1) last_refs_append)
  from pktmbuf_free_direct [OF css(2) _ _ Cons.prems(4) this, of env lcore] Cons.prems(2,3) css(1) obtain w1 where
    w1: "rte_pktmbuf_free env lcore a w = Some w1" "pools_ok w1"
      "\<forall>p. pool_free (w_pools w1 p) = pool_free (w_pools w p) + last_refs w p cs"
      "\<forall>p. mp_size (w_pools w1 p) = mp_size (w_pools w p)"
      "\<forall>a. mb w1 a = (if a \<in> set cs then released (mb w a) else mb w a)" by auto
  have same: "mb w1 a = mb w a" if "a \<in> set (List.concat rest)" for a
    using that Cons.prems(2) w1(5) by (auto simp: css(1))
  have refs: "last_refs w1 p (List.concat rest) = last_refs w p (List.concat rest)" for p
    by (rule last_refs_cong [OF same])
  have "list_all2 (chain w1) ps rest"
  proof -
    have "chain w1 x cs' = chain w x cs'" if "cs' \<in> set rest" for x cs'
    proof (rule chain_cong)
      fix a assume "a \<in> set cs'"
      with that have "a \<in> set (List.concat rest)" by auto
      then show "m_next (mb w1 a) = m_next (mb w a)" by (simp add: same)
    qed
    then show ?thesis using css(3) by (simp add: list_all2_conv_all_nth)
  qed
  moreover have "\<forall>a\<in>set (List.concat rest). RTE_MBUF_DIRECT (mb w1 a) \<and> m_refcnt (mb w1 a) \<noteq> 0"
    using Cons.prems(3) same by (auto simp: css(1))
  moreover have "size (pool_free (w_pools w1 p)) + size (last_refs w1 p (List.concat rest)) \<le> unat (mp_size (w_pools w1 p))" for p
    using Cons.prems(5) [of p] by (simp add: css(1) last_refs_append w1(3,4) refs)
  ultimately obtain w2 where w2: "free_all env lcore ps w1 = Some w2" "pools_ok w2"
      "\<forall>p. pool_free (w_pools w2 p) = pool_free (w_pools w1 p) + last_refs w1 p (List.concat rest)"
      "\<forall>a. mb w2 a = (if a \<in> set (List.concat rest) then released (mb w1 a) else mb w1 a)"
    using Cons.IH [of w1 rest] w1(2) Cons.prems(2) css(1) by auto
  have "\<forall>a. mb w2 a = (if a \<in> set (List.concat css) then released (mb w a) else mb w a)"
    using w2(4) w1(5) Cons.prems(2) by (auto simp: css(1))
  moreover have "\<forall>p. pool_free (w_pools w2 p) = pool_free (w_pools w p) + last_refs w p (List.concat css)"
    by (simp add: w2(3) w1(3) refs css(1) last_refs_append add.assoc)
  ultimately show ?case using w1(1) w2(1,2) by auto
qed

text \<open>C16: Freeing a packet of direct segments ends; each segment on its last reference goes back,
  exactly once, to the pool it came from, with its count at 0 and its link cleared; every other
  segment only loses one reference; no other mbuf changes and all pools stay well-formed.\<close>
theorem pktmbuf_free_exact:
  assumes "chain w m as" and "distinct as" and "\<forall>a\<in>set as. RTE_MBUF_DIRECT (mb w a) \<and> m_refcnt (mb w a) \<noteq> 0"
    and "pools_ok w"
    and "\<forall>p. size (pool_free (w_pools w p)) + size (last_refs w p as) \<le> unat (mp_size (w_pools w p))"
  shows "\<exists>w'. rte_pktmbuf_free env lcore m w = Some w' \<and> pools_ok w' \<and>
    (\<forall>p. pool_free (w_pools w' p) = pool_free (w_pools w p) + last_refs w p as) \<and>
    (\<forall>a. mb w' a = (if a \<in> set as then released (mb w a) else mb w a))"
  using pktmbuf_free_direct [OF assms(1-4), of env lcore] assms(5) by auto

theorem pktmbuf_free_exact_witness:
  "\<exists>w'. rte_pktmbuf_free sample_env 0 0x1500 sample_world = Some w' \<and>
    pool_free (w_pools w' 0x100) = add_mset 0x1500 (pool_free sample_pool) \<and> m_refcnt (mb w' 0x1500) = 0"
proof -
  have p: "w_pools sample_world q = sample_pool" for q by (simp add: sample_world_def)
  have refs: "last_refs sample_world q [0x1500] = (if q = 0x100 then {#0x1500#} else {#})" for q
    by (simp add: last_refs_def sample_mbuf_fields)
  have "\<exists>w'. rte_pktmbuf_free sample_env 0 0x1500 sample_world = Some w' \<and> pools_ok w' \<and>
    (\<forall>p. pool_free (w_pools w' p) = pool_free (w_pools sample_world p) + last_refs sample_world p [0x1500]) \<and>
    (\<forall>a. mb w' a = (if a \<in> set [0x1500] then released (mb sample_world a) else mb sample_world a))"
    by (rule pktmbuf_free_exact) (simp_all add: sample_mbuf_fields RTE_MBUF_DIRECT_def RTE_MBUF_INDIRECT_def pools_ok_def
        p sample_pool_ok refs sample_pool_free sample_pool_fields)
  then show ?thesis by (auto simp: p refs released_def sample_mbuf_fields)
qed

section \<open>Indirect mbufs\<close>

lemma indirect_or: "(f OR IND_ATTACHED_MBUF) AND IND_ATTACHED_MBUF \<noteq> 0"
proof -
  have "(f OR IND_ATTACHED_MBUF) AND IND_ATTACHED_MBUF = IND_ATTACHED_MBUF" by (simp add: and.commute)
  then show ?thesis by (simp add: IND_ATTACHED_MBUF_def)
qed

lemma mb_refcnt_update [simp]:
  "rte_mbuf_refcnt_update m v w = (m_refcnt (mb w m) + v, upd_mb m (\<lambda>x. x\<lparr>m_refcnt := m_refcnt x + v\<rparr>) w)"
  by (simp add: rte_mbuf_refcnt_update_def)

text \<open>What a pool gains when the indirect \<open>mi\<close>, attached to \<open>md\<close>, is released.\<close>

definition indirect_gain :: "mbuf_world \<Rightarrow> u64 \<Rightarrow> u64 \<Rightarrow> u64 \<Rightarrow> u64 multiset" where
  "indirect_gain w mi md p =
     (if m_pool (mb w mi) = p then {#mi#} else {#}) +
     (if m_refcnt (mb w md) = 1 \<and> m_pool (mb w md) = p then {#md#} else {#})"

definition detached :: "mem_env \<Rightarrow> mbuf_world \<Rightarrow> u64 \<Rightarrow> rte_mbuf \<Rightarrow> rte_mbuf" where
  "detached env w m x =
     (let mp = w_pools w (m_pool x); len = ucast (mp_elt_size mp - 128)
      in x\<lparr>m_buf_physaddr := rte_mempool_virt2phy env mp m + 128, m_buf_addr := m + 128, m_buf_len := len,
           m_data_off := default_data_off len, m_data_len := 0, m_ol_flags := 0, m_refcnt := 0, m_next := 0\<rparr>)"

lemma free_seg_indirect:
  assumes ind: "RTE_MBUF_INDIRECT (mb w mi)" "m_refcnt (mb w mi) = 1" "mi \<noteq> 0"
    and md: "RTE_MBUF_FROM_BADDR (m_buf_addr (mb w mi)) = md" "md \<noteq> mi"
    and ok: "pools_ok w"
    and room: "\<And>p. size (pool_free (w_pools w p)) + size (indirect_gain w mi md p) \<le> unat (mp_size (w_pools w p))"
  shows "\<exists>w'. rte_pktmbuf_free_seg env lcore mi w = Some w' \<and> pools_ok w' \<and>
    (\<forall>p. pool_free (w_pools w' p) = pool_free (w_pools w p) + indirect_gain w mi md p) \<and>
    (\<forall>a. mb w' a = (if a = mi then detached env w mi (mb w mi)
      else if a = md then (mb w md)\<lparr>m_refcnt := m_refcnt (mb w md) - 1\<rparr> else mb w a))"
proof -
  define w1 where "w1 = upd_mb md (\<lambda>x. x\<lparr>m_refcnt := m_refcnt x - 1\<rparr>)
    (rte_pktmbuf_detach env mi (rte_mbuf_refcnt_set mi 0 w))"
  have w1: "w_pools w1 = w_pools w" "mb w1 md = (mb w md)\<lparr>m_refcnt := m_refcnt (mb w md) - 1\<rparr>"
    "\<And>a. a \<noteq> md \<Longrightarrow> a \<noteq> mi \<Longrightarrow> mb w1 a = mb w a" "m_pool (mb w1 mi) = m_pool (mb w mi)"
    "(mb w1 mi)\<lparr>m_next := 0\<rparr> = detached env w mi (mb w mi)"
    using md by (simp_all add: w1_def rte_pktmbuf_detach_def Let_def detached_def RTE_MBUF_TO_BADDR_def
        sizeof_rte_mbuf_def)
  have pre: "rte_pktmbuf_prefree_seg env lcore mi w = (if m_refcnt (mb w md) = 1
      then map_option (\<lambda>w. (mi, w)) (rte_mbuf_raw_free lcore md w1) else Some (mi, w1))"
    using ind md by (simp add: rte_pktmbuf_prefree_seg_def rte_mbuf_refcnt_read_def RTE_MBUF_INDIRECT_def Let_def
        w1_def [symmetric]) (simp add: rte_pktmbuf_detach_def Let_def)
  obtain w2 where w2: "rte_pktmbuf_prefree_seg env lcore mi w = Some (mi, w2)" "pools_ok w2" "\<And>a. mb w2 a = mb w1 a"
      "\<And>p. mp_size (w_pools w2 p) = mp_size (w_pools w p)"
      "\<And>p. pool_free (w_pools w2 p) = pool_free (w_pools w p) +
         (if m_refcnt (mb w md) = 1 \<and> m_pool (mb w md) = p then {#md#} else {#})"
  proof (cases "m_refcnt (mb w md) = 1")
    case False
    with that [of w1] pre ok w1(1) show thesis by (simp add: pools_ok_def)
  next
    case True
    have "mempool_ok (w_pools w1 (m_pool (mb w1 md)))"
      "size (pool_free (w_pools w1 (m_pool (mb w1 md)))) < unat (mp_size (w_pools w1 (m_pool (mb w1 md))))"
      using ok room [of "m_pool (mb w md)"] True
      by (auto simp: w1 pools_ok_def indirect_gain_def split: if_splits)
    from raw_free_ok [OF this, of lcore] obtain mp where
      "rte_mbuf_raw_free lcore md w1 = Some (set_pool (m_pool (mb w md)) mp w1)" "mempool_ok mp"
      "mp_size mp = mp_size (w_pools w (m_pool (mb w md)))" "pool_free mp = add_mset md (pool_free (w_pools w (m_pool (mb w md))))"
      by (auto simp: w1)
    with that [of "set_pool (m_pool (mb w md)) mp w1"] True pre ok show thesis by (simp add: w1 pools_ok_def)
  qed
  let ?w3 = "upd_mb mi (\<lambda>x. x\<lparr>m_next := 0\<rparr>) w2" and ?p = "m_pool (mb w mi)"
  have p3: "m_pool (mb ?w3 mi) = ?p" by (simp add: w2(3) w1(4))
  have "mempool_ok (w_pools ?w3 (m_pool (mb ?w3 mi)))"
    "size (pool_free (w_pools ?w3 (m_pool (mb ?w3 mi)))) < unat (mp_size (w_pools ?w3 (m_pool (mb ?w3 mi))))"
    using w2(2) room [of ?p] unfolding p3 by (auto simp: pools_ok_def w2(4,5) indirect_gain_def)
  from raw_free_ok [OF this, of lcore, unfolded p3] obtain mp where
    fin: "rte_mbuf_raw_free lcore mi ?w3 = Some (set_pool ?p mp ?w3)" "mempool_ok mp"
      "pool_free mp = add_mset mi (pool_free (w_pools w2 ?p))" by auto
  have "rte_pktmbuf_free_seg env lcore mi w = Some (set_pool ?p mp ?w3)"
    using ind(3) fin(1) by (simp add: rte_pktmbuf_free_seg_def w2(1))
  moreover have "pools_ok (set_pool ?p mp ?w3)" using w2(2) fin(2) by (simp add: pools_ok_def)
  moreover have "\<forall>p. pool_free (w_pools (set_pool ?p mp ?w3) p) = pool_free (w_pools w p) + indirect_gain w mi md p"
    by (simp add: fin(3) w2(5) indirect_gain_def)
  moreover have "\<forall>a. mb (set_pool ?p mp ?w3) a = (if a = mi then detached env w mi (mb w mi)
      else if a = md then (mb w md)\<lparr>m_refcnt := m_refcnt (mb w md) - 1\<rparr> else mb w a)"
    using md(2) by (simp add: w2(3) w1)
  ultimately show ?thesis by blast
qed

lemma attach_fields:
  assumes "mi \<noteq> md"
  shows "m_refcnt (mb (rte_pktmbuf_attach mi md w) md) = m_refcnt (mb w md) + 1"
    "mb (rte_pktmbuf_attach mi md w) md = (mb w md)\<lparr>m_refcnt := m_refcnt (mb w md) + 1\<rparr>"
    "m_buf_addr (mb (rte_pktmbuf_attach mi md w) mi) = m_buf_addr (mb w md)"
    "m_data_off (mb (rte_pktmbuf_attach mi md w) mi) = m_data_off (mb w md)"
    "m_data_len (mb (rte_pktmbuf_attach mi md w) mi) = m_data_len (mb w md)"
    "m_refcnt (mb (rte_pktmbuf_attach mi md w) mi) = m_refcnt (mb w mi)"
    "m_pool (mb (rte_pktmbuf_attach mi md w) mi) = m_pool (mb w mi)"
    "RTE_MBUF_INDIRECT (mb (rte_pktmbuf_attach mi md w) mi)"
    "\<And>a. a \<noteq> mi \<Longrightarrow> a \<noteq> md \<Longrightarrow> mb (rte_pktmbuf_attach mi md w) a = mb w a"
    "w_pools (rte_pktmbuf_attach mi md w) = w_pools w"
  using assms by (simp_all add: rte_pktmbuf_attach_def Let_def RTE_MBUF_INDIRECT_def indirect_or IND_ATTACHED_MBUF_def)

text \<open>C17: Attaching \<open>mi\<close> to a direct mbuf \<open>md\<close> gives it the same data and takes one reference on
  \<open>md\<close>. Releasing \<open>mi\<close> afterwards returns it to its pool as a direct mbuf with its own buffer and
  leaves \<open>md\<close> exactly as before the attachment. If \<open>md\<close>, held once, is released first, it stays out
  of its pool until \<open>mi\<close> goes, and then both are returned, each once.\<close>
theorem attach_release:
  assumes "mi \<noteq> md" "mi \<noteq> 0" "md \<noteq> 0" "m_refcnt (mb w mi) = 1" "m_refcnt (mb w md) = 1" "RTE_MBUF_DIRECT (mb w md)"
    and "RTE_MBUF_FROM_BADDR (m_buf_addr (mb w md)) = md" and "pools_ok w"
    and "\<forall>p. size (pool_free (w_pools w p)) + 2 \<le> unat (mp_size (w_pools w p))"
  shows "rte_pktmbuf_mtod (mb (rte_pktmbuf_attach mi md w) mi) = rte_pktmbuf_mtod (mb w md) \<and>
    m_data_len (mb (rte_pktmbuf_attach mi md w) mi) = m_data_len (mb w md) \<and>
    (\<exists>w2. rte_pktmbuf_free_seg env lcore mi (rte_pktmbuf_attach mi md w) = Some w2 \<and> mb w2 md = mb w md \<and>
      RTE_MBUF_DIRECT (mb w2 mi) \<and> m_buf_addr (mb w2 mi) = mi + 128 \<and>
      (\<forall>p. pool_free (w_pools w2 p) = pool_free (w_pools w p) + (if m_pool (mb w mi) = p then {#mi#} else {#}))) \<and>
    (\<exists>w2 w3. rte_pktmbuf_free_seg env lcore md (rte_pktmbuf_attach mi md w) = Some w2 \<and>
      (\<forall>p. pool_free (w_pools w2 p) = pool_free (w_pools w p)) \<and>
      rte_pktmbuf_free_seg env lcore mi w2 = Some w3 \<and>
      (\<forall>p. pool_free (w_pools w3 p) = pool_free (w_pools w p) + (if m_pool (mb w mi) = p then {#mi#} else {#}) +
         (if m_pool (mb w md) = p then {#md#} else {#})))"
proof (intro conjI)
  let ?w1 = "rte_pktmbuf_attach mi md w"
  note f = attach_fields [OF assms(1), where w = w]
  have ok1: "pools_ok ?w1" using assms(8) by (simp add: pools_ok_def f)
  have gain1: "indirect_gain ?w1 mi md p = (if m_pool (mb w mi) = p then {#mi#} else {#})" for p
    by (simp add: indirect_gain_def f assms(5))
  have room1: "size (pool_free (w_pools ?w1 p)) + size (indirect_gain ?w1 mi md p) \<le> unat (mp_size (w_pools ?w1 p))" for p
    using assms(9) [rule_format, of p] by (simp add: gain1 f)
  show "rte_pktmbuf_mtod (mb ?w1 mi) = rte_pktmbuf_mtod (mb w md)" "m_data_len (mb ?w1 mi) = m_data_len (mb w md)"
    by (simp_all add: rte_pktmbuf_mtod_def f)
  from free_seg_indirect [OF f(8) _ assms(2) _ assms(1) [symmetric] ok1 room1, of env lcore] obtain w2 where
    "rte_pktmbuf_free_seg env lcore mi ?w1 = Some w2" and
    "\<And>p. pool_free (w_pools w2 p) = pool_free (w_pools ?w1 p) + indirect_gain ?w1 mi md p" and
    "\<And>a. mb w2 a = (if a = mi then detached env ?w1 mi (mb ?w1 mi)
      else if a = md then (mb ?w1 md)\<lparr>m_refcnt := m_refcnt (mb ?w1 md) - 1\<rparr> else mb ?w1 a)"
    using assms(4,7) by (auto simp: f)
  then show "\<exists>w2. rte_pktmbuf_free_seg env lcore mi ?w1 = Some w2 \<and> mb w2 md = mb w md \<and>
      RTE_MBUF_DIRECT (mb w2 mi) \<and> m_buf_addr (mb w2 mi) = mi + 128 \<and>
      (\<forall>p. pool_free (w_pools w2 p) = pool_free (w_pools w p) + (if m_pool (mb w mi) = p then {#mi#} else {#}))"
    using assms(1) by (intro exI [of _ w2])
      (simp add: gain1 f detached_def Let_def RTE_MBUF_DIRECT_def RTE_MBUF_INDIRECT_def)
  have d1: "RTE_MBUF_DIRECT (mb ?w1 md)" using assms(6) by (simp add: f RTE_MBUF_DIRECT_def RTE_MBUF_INDIRECT_def)
  have refs: "last_refs ?w1 p [md] = {#}" for p by (simp add: last_refs_def f assms(5))
  have "size (pool_free (w_pools w p)) \<le> unat (mp_size (w_pools w p))" for p
    using assms(9) [rule_format, of p] by simp
  with free_seg_direct [OF d1 _ assms(3) ok1, of env lcore] assms(5) obtain w2 where
    w2: "rte_pktmbuf_free_seg env lcore md ?w1 = Some w2" "pools_ok w2" "\<And>p. pool_free (w_pools w2 p) = pool_free (w_pools w p)"
      "\<And>p. mp_size (w_pools w2 p) = mp_size (w_pools w p)"
      "\<And>a. mb w2 a = (if a = md then released (mb ?w1 md) else mb ?w1 a)"
    by (auto simp: f refs)
  have m2: "mb w2 mi = mb ?w1 mi" "m_refcnt (mb w2 md) = 1" "m_pool (mb w2 md) = m_pool (mb w md)"
    using assms(1,5) by (simp_all add: w2(5) released_def f)
  have gain2: "indirect_gain w2 mi md p = (if m_pool (mb w mi) = p then {#mi#} else {#}) +
      (if m_pool (mb w md) = p then {#md#} else {#})" for p
    by (simp add: indirect_gain_def m2 f)
  have room2: "size (pool_free (w_pools w2 p)) + size (indirect_gain w2 mi md p) \<le> unat (mp_size (w_pools w2 p))" for p
    using assms(9) [rule_format, of p] by (simp add: gain2 w2)
  from free_seg_indirect [OF _ _ assms(2) _ assms(1) [symmetric] w2(2) room2, of env lcore] obtain w3 where
    "rte_pktmbuf_free_seg env lcore mi w2 = Some w3" "\<And>p. pool_free (w_pools w3 p) = pool_free (w_pools w2 p) + indirect_gain w2 mi md p"
    using assms(4,7) by (auto simp: m2 f)
  with w2 show "\<exists>w2 w3. rte_pktmbuf_free_seg env lcore md ?w1 = Some w2 \<and>
      (\<forall>p. pool_free (w_pools w2 p) = pool_free (w_pools w p)) \<and>
      rte_pktmbuf_free_seg env lcore mi w2 = Some w3 \<and>
      (\<forall>p. pool_free (w_pools w3 p) = pool_free (w_pools w p) + (if m_pool (mb w mi) = p then {#mi#} else {#}) +
         (if m_pool (mb w md) = p then {#md#} else {#}))"
    by (intro exI [of _ w2] exI [of _ w3]) (simp add: gain2 add.assoc)
qed

definition sample_pair :: mbuf_world where
  "sample_pair = put_mb 0x1500 (sample_mbuf\<lparr>m_buf_addr := 0x1580\<rparr>) sample_world"

theorem attach_release_witness:
  "\<exists>w2. rte_pktmbuf_free_seg sample_env 0 0x1600 (rte_pktmbuf_attach 0x1600 0x1500 sample_pair) = Some w2 \<and>
     mb w2 0x1500 = mb sample_pair 0x1500 \<and>
     pool_free (w_pools w2 0x100) = pool_free (w_pools sample_pair 0x100) + {#0x1600#}"
proof -
  have p: "w_pools sample_pair q = sample_pool" for q by (simp add: sample_pair_def sample_world_def)
  have m: "m_refcnt (mb sample_pair 0x1600) = 1" "m_refcnt (mb sample_pair 0x1500) = 1"
    "RTE_MBUF_DIRECT (mb sample_pair 0x1500)" "RTE_MBUF_FROM_BADDR (m_buf_addr (mb sample_pair 0x1500)) = 0x1500"
    "m_pool (mb sample_pair 0x1600) = 0x100"
    by (simp_all add: sample_pair_def sample_mbuf_fields RTE_MBUF_DIRECT_def RTE_MBUF_INDIRECT_def
        RTE_MBUF_FROM_BADDR_def sizeof_rte_mbuf_def)
  have ok: "pools_ok sample_pair" by (simp add: pools_ok_def p sample_pool_ok)
  have room: "\<forall>q. size (pool_free (w_pools sample_pair q)) + 2 \<le> unat (mp_size (w_pools sample_pair q))"
    by (simp add: p sample_pool_free sample_pool_fields)
  from attach_release [OF _ _ _ m(1-4) ok room, of sample_env 0] show ?thesis by (auto simp: m(5))
qed

end
