(* ===== verification/Mem_Utils.thy ===== *)
theory Mem_Utils
  imports Prelude
begin

text \<open>
  \<open>apps/DpdkJava/src/Utils.c\<close>: reading and writing 8 to 64-bit values, least significant byte
  first, in the memory the JNI layer shares with the Java side. The memory is a map from byte
  addresses to bytes; a C access \<open>pointer[position + k]\<close> is the address
  \<open>pointer + position + k\<close>. The identical file exists in \<open>apps/DpdkJava-R/src\<close> and
  \<open>benchmarks/data_access\<close>.
\<close>

type_synonym memory = "u64 \<Rightarrow> u8"

definition at :: "u64 \<Rightarrow> int \<Rightarrow> u64" where
  "at pointer position = pointer + word_of_int position"

section \<open>Reads\<close>

definition get8 :: "memory \<Rightarrow> u64 \<Rightarrow> int \<Rightarrow> u8" where
  "get8 m pointer position = m (at pointer position)"

definition get16 :: "memory \<Rightarrow> u64 \<Rightarrow> int \<Rightarrow> u16" where
  "get16 m pointer position =
     (let value = push_bit 8 (ucast (m (at pointer (position + 1))));
          value = value + ucast (m (at pointer position))
      in value)"

definition get32 :: "memory \<Rightarrow> u64 \<Rightarrow> int \<Rightarrow> u32" where
  "get32 m pointer position =
     (let value = push_bit 24 (ucast (m (at pointer (position + 3))));
          value = value + push_bit 16 (ucast (m (at pointer (position + 2))));
          value = value + push_bit 8 (ucast (m (at pointer (position + 1))));
          value = value + ucast (m (at pointer position))
      in value)"

definition get64 :: "memory \<Rightarrow> u64 \<Rightarrow> int \<Rightarrow> u64" where
  "get64 m pointer position =
     (let value = push_bit 56 (ucast (m (at pointer (position + 7))));
          value = value + push_bit 48 (ucast (m (at pointer (position + 6))));
          value = value + push_bit 40 (ucast (m (at pointer (position + 5))));
          value = value + push_bit 32 (ucast (m (at pointer (position + 4))));
          value = value + push_bit 24 (ucast (m (at pointer (position + 3))));
          value = value + push_bit 16 (ucast (m (at pointer (position + 2))));
          value = value + push_bit 8 (ucast (m (at pointer (position + 1))));
          value = value + ucast (m (at pointer position))
      in value)"

section \<open>Writes, in the order of the source\<close>

definition insert8 :: "u64 \<Rightarrow> int \<Rightarrow> u8 \<Rightarrow> memory \<Rightarrow> memory" where
  "insert8 pointer position value m = m(at pointer position := value)"

definition insert16 :: "u64 \<Rightarrow> int \<Rightarrow> u16 \<Rightarrow> memory \<Rightarrow> memory" where
  "insert16 pointer position value m =
     (m(at pointer (position + 1) := ucast (drop_bit 8 value AND 0xFF)))
       (at pointer position := ucast (value AND 0xFF))"

definition insert32 :: "u64 \<Rightarrow> int \<Rightarrow> u32 \<Rightarrow> memory \<Rightarrow> memory" where
  "insert32 pointer position value m =
     m(at pointer (position + 3) := ucast (drop_bit 24 value AND 0xFF),
       at pointer (position + 2) := ucast (drop_bit 16 value AND 0xFF),
       at pointer (position + 1) := ucast (drop_bit 8 value AND 0xFF),
       at pointer position := ucast (value AND 0xFF))"

definition insert64 :: "u64 \<Rightarrow> int \<Rightarrow> u64 \<Rightarrow> memory \<Rightarrow> memory" where
  "insert64 pointer position value m =
     m(at pointer (position + 7) := ucast (drop_bit 56 value AND 0xFF),
       at pointer (position + 6) := ucast (drop_bit 48 value AND 0xFF),
       at pointer (position + 5) := ucast (drop_bit 40 value AND 0xFF),
       at pointer (position + 4) := ucast (drop_bit 32 value AND 0xFF),
       at pointer (position + 3) := ucast (drop_bit 24 value AND 0xFF),
       at pointer (position + 2) := ucast (drop_bit 16 value AND 0xFF),
       at pointer (position + 1) := ucast (drop_bit 8 value AND 0xFF),
       at pointer position := ucast (value AND 0xFF))"

section \<open>Bytes of a value\<close>

lemma at_add: "at p (pos + k) = at p pos + word_of_int k"
  by (simp add: at_def)

text \<open>\<open>join n f\<close> is the value whose \<open>i\<close>-th byte is \<open>f i\<close>; \<open>byte_of v i\<close> the \<open>i\<close>-th byte.\<close>

definition byte_of :: "'a::len word \<Rightarrow> nat \<Rightarrow> u8" where
  "byte_of v i = ucast (drop_bit (8 * i) v AND 0xFF)"

fun join :: "nat \<Rightarrow> (nat \<Rightarrow> u8) \<Rightarrow> 'a::len word" where
  "join 0 f = 0"
| "join (Suc n) f = push_bit (8 * n) (ucast (f n)) + join n f"

lemma bit_join:
  "bit (join n f :: 'a::len word) k \<longleftrightarrow> k < LENGTH('a) \<and> k < 8 * n \<and> bit (f (k div 8)) (k mod 8)"
proof (induction n arbitrary: k)
  case (Suc n)
  have "push_bit (8 * n) (ucast (f n)) AND (join n f :: 'a word) = 0"
    by (rule bit_eqI) (auto simp: bit_and_iff bit_push_bit_iff Suc.IH)
  then have eq: "(join (Suc n) f :: 'a word) = push_bit (8 * n) (ucast (f n)) OR join n f"
    by (simp add: disjunctive_add_eq_or)
  show ?case
  proof (cases "k < 8 * n")
    case True
    then show ?thesis unfolding eq by (simp add: bit_or_iff bit_push_bit_iff Suc.IH)
  next
    case False
    then have "bit (join (Suc n) f :: 'a word) k \<longleftrightarrow> k < LENGTH('a) \<and> bit (f n) (k - 8 * n)"
      unfolding eq by (auto simp: bit_or_iff bit_push_bit_iff Suc.IH bit_ucast_iff)
    moreover have "k div 8 = n \<and> k mod 8 = k - 8 * n" if "k - 8 * n < 8"
    proof -
      from False obtain j where "k = 8 * n + j" by (metis le_Suc_ex not_less)
      with that show ?thesis by simp
    qed
    moreover have "bit (f n) (k - 8 * n) \<Longrightarrow> k - 8 * n < 8" by (auto dest: bit_imp_le_length)
    ultimately show ?thesis using False by auto
  qed
qed simp

lemma bit_byte_of: "bit (byte_of v i) k \<longleftrightarrow> k < 8 \<and> bit v (8 * i + k)"
proof -
  have "(0xFF :: 'a word) = mask 8" by (simp add: mask_eq_decr_exp)
  then have "bit (drop_bit (8 * i) v AND 0xFF) k \<longleftrightarrow> k < 8 \<and> bit v (8 * i + k)"
    by (simp only: bit_and_iff bit_mask_iff bit_drop_bit_eq comp_def) (auto dest: bit_imp_le_length)
  then show ?thesis
    by (simp add: byte_of_def bit_ucast_iff)
qed

lemma byte_of_join: "i < n \<Longrightarrow> 8 * n \<le> LENGTH('a) \<Longrightarrow> byte_of (join n f :: 'a::len word) i = f i"
  by (rule bit_word_eqI) (auto simp: bit_byte_of bit_join)

lemma join_byte_of:
  assumes "LENGTH('a) = 8 * n" and "\<And>i. i < n \<Longrightarrow> f i = byte_of v i"
  shows "join n f = (v :: 'a::len word)"
proof (rule bit_word_eqI)
  fix k assume k: "k < LENGTH('a)"
  then have "f (k div 8) = byte_of v (k div 8)" using assms by auto
  with k assms(1) show "bit (join n f :: 'a word) k = bit v k" by (simp add: bit_join bit_byte_of)
qed

section \<open>Reads join bytes, writes store them\<close>

definition put_bytes :: "nat \<Rightarrow> u64 \<Rightarrow> int \<Rightarrow> (nat \<Rightarrow> u8) \<Rightarrow> memory \<Rightarrow> memory" where
  "put_bytes n pointer position f m =
     (\<lambda>a. let d = unat (a - at pointer position) in if d < n then f d else m a)"

lemma join_numeral [simp]:
  "join (numeral k) f = push_bit (8 * pred_numeral k) (ucast (f (pred_numeral k))) + join (pred_numeral k) f"
  by (simp add: numeral_eq_Suc)

lemma get_join:
  "get8 m p pos = join 1 (\<lambda>i. m (at p (pos + int i)))"
  "get16 m p pos = join 2 (\<lambda>i. m (at p (pos + int i)))"
  "get32 m p pos = join 4 (\<lambda>i. m (at p (pos + int i)))"
  "get64 m p pos = join 8 (\<lambda>i. m (at p (pos + int i)))"
  by (simp_all add: get8_def get16_def get32_def get64_def)

lemma at_eq_iff: "a = at p (pos + k) \<longleftrightarrow> a - at p pos = word_of_int k"
  by (auto simp: at_def algebra_simps)

lemma unat_less_8_cases:
  fixes d :: u64
  shows "unat d < 8 \<longleftrightarrow> d = 0 \<or> d = 1 \<or> d = 2 \<or> d = 3 \<or> d = 4 \<or> d = 5 \<or> d = 6 \<or> d = 7"
  by (auto simp: word_unat_eq_iff)

lemma insert8_put: "insert8 p pos v m = put_bytes 1 p pos (byte_of v) m"
proof
  fix a
  have "byte_of v 0 = v" by (rule bit_word_eqI) (simp add: bit_byte_of)
  then show "insert8 p pos v m a = put_bytes 1 p pos (byte_of v) m a"
    using at_eq_iff [of a p pos 0]
    by (auto simp: insert8_def put_bytes_def Let_def unat_eq_zero)
qed

lemma insert16_put: "insert16 p pos v m = put_bytes 2 p pos (byte_of v) m"
proof
  fix a
  have "unat d < 2 \<longleftrightarrow> d = 0 \<or> d = 1" for d :: u64 by (auto simp: word_unat_eq_iff)
  then show "insert16 p pos v m a = put_bytes 2 p pos (byte_of v) m a"
    using at_eq_iff [of a p pos 0]
    by (auto simp: insert16_def put_bytes_def Let_def at_eq_iff byte_of_def)
qed

lemma insert32_put: "insert32 p pos v m = put_bytes 4 p pos (byte_of v) m"
proof
  fix a
  have "unat d < 4 \<longleftrightarrow> d = 0 \<or> d = 1 \<or> d = 2 \<or> d = 3" for d :: u64
    by (auto simp: word_unat_eq_iff)
  then show "insert32 p pos v m a = put_bytes 4 p pos (byte_of v) m a"
    using at_eq_iff [of a p pos 0]
    by (auto simp: insert32_def put_bytes_def Let_def at_eq_iff byte_of_def)
qed

lemma insert64_put: "insert64 p pos v m = put_bytes 8 p pos (byte_of v) m"
proof
  fix a
  show "insert64 p pos v m a = put_bytes 8 p pos (byte_of v) m a"
    using at_eq_iff [of a p pos 0]
    by (auto simp: insert64_def put_bytes_def Let_def at_eq_iff unat_less_8_cases byte_of_def)
qed

lemmas insert_put = insert8_put insert16_put insert32_put insert64_put

lemma at_diff: "at p (pos + k) - at p pos = word_of_int k"
  by (simp add: at_def)

lemma put_bytes_same:
  "i < n \<Longrightarrow> n < 2 ^ 64 \<Longrightarrow> put_bytes n p pos f m (at p (pos + int i)) = f i"
  by (simp add: put_bytes_def at_diff unat_of_nat)

text \<open>Accesses that share no address do not interfere.\<close>

definition apart :: "int \<Rightarrow> nat \<Rightarrow> int \<Rightarrow> nat \<Rightarrow> bool" where
  "apart pos n pos' n' \<longleftrightarrow>
     (pos + int n \<le> pos' \<and> pos' + int n' \<le> pos + 2 ^ 64) \<or>
     (pos' + int n' \<le> pos \<and> pos + int n \<le> pos' + 2 ^ 64)"

lemma put_bytes_apart:
  assumes "apart pos n pos' n'" and "i < n'"
  shows "put_bytes n p pos f m (at p (pos' + int i)) = m (at p (pos' + int i))"
proof -
  let ?d = "pos' + int i - pos"
  have "at p (pos' + int i) - at p pos = word_of_int ?d" by (simp add: at_def)
  then have "int (unat (at p (pos' + int i) - at p pos)) = ?d mod 2 ^ 64"
    by (simp only: of_nat_unat uint_word_of_int) simp
  moreover have "int n \<le> ?d mod 2 ^ 64"
  proof (cases "0 \<le> ?d")
    case True
    with assms show ?thesis by (auto simp: apart_def)
  next
    case False
    with assms have d: "0 \<le> ?d + 2 ^ 64" "?d + 2 ^ 64 < 2 ^ 64" "int n \<le> ?d + 2 ^ 64"
      by (auto simp: apart_def)
    have "?d mod 2 ^ 64 = (?d + 2 ^ 64) mod 2 ^ 64" by (simp only: mod_add_self2)
    also have "\<dots> = ?d + 2 ^ 64" using d by (simp only: mod_pos_pos_trivial)
    finally show ?thesis using d(3) by simp
  qed
  ultimately have "n \<le> unat (at p (pos' + int i) - at p pos)" by linarith
  then show ?thesis by (simp add: put_bytes_def Let_def)
qed

lemma join_cong: "(\<And>i. i < n \<Longrightarrow> f i = g i) \<Longrightarrow> join n f = join n g"
  by (induction n) simp_all

lemma get_insert_same:
  "get16 (insert16 p pos v16 m) p pos = v16" "get32 (insert32 p pos v32 m) p pos = v32"
  "get64 (insert64 p pos v64 m) p pos = v64"
  by (simp only: get_join insert_put, rule join_byte_of, simp_all add: put_bytes_same)+

lemma get_insert_apart:
  "apart pos 8 pos' 8 \<Longrightarrow> get64 (insert64 p pos v m) p pos' = get64 m p pos'"
  "apart pos 2 pos' 8 \<Longrightarrow> get64 (insert16 p pos v2 m) p pos' = get64 m p pos'"
  "apart pos 8 pos' 2 \<Longrightarrow> get16 (insert64 p pos v m) p pos' = get16 m p pos'"
  by (simp_all only: get_join insert_put) (rule join_cong; simp add: put_bytes_apart)+

section \<open>Properties\<close>

text \<open>C9: Reading back what was written gives the value, for every width, pointer and position.\<close>
theorem insert_get_roundtrip:
  "get8 (insert8 p pos v8 m) p pos = v8 \<and> get16 (insert16 p pos v16 m) p pos = v16 \<and>
   get32 (insert32 p pos v32 m) p pos = v32 \<and> get64 (insert64 p pos v64 m) p pos = v64"
  by (simp add: get_insert_same get8_def insert8_def)

text \<open>Writing back a value that was read leaves the memory unchanged, for every width.\<close>
theorem get_insert_roundtrip:
  "insert16 p pos (get16 m p pos) m = m \<and> insert32 p pos (get32 m p pos) m = m \<and>
   insert64 p pos (get64 m p pos) m = m"
proof -
  have *: "put_bytes n p pos (byte_of (join n (\<lambda>i. m (at p (pos + int i))) :: 'a::len word)) m = m"
    if "8 * n \<le> LENGTH('a)" for n
  proof
    fix a
    have "at p (pos + int (unat (a - at p pos))) = a" by (simp add: at_def)
    then show "put_bytes n p pos (byte_of (join n (\<lambda>i. m (at p (pos + int i))) :: 'a word)) m a = m a"
      using that by (simp add: put_bytes_def Let_def byte_of_join)
  qed
  show ?thesis by (simp only: get_join insert_put, intro conjI; rule *) simp_all
qed

text \<open>A write changes no value that lies wholly outside the bytes it covers: 16 and 64-bit
  fields at positions apart from each other are independent.\<close>
theorem insert_get_apart:
  assumes "apart pos 8 pos' 8" and "apart pos2 2 pos' 8" and "apart pos 8 pos2' 2"
  shows "get64 (insert64 p pos v m) p pos' = get64 m p pos' \<and>
    get64 (insert16 p pos2 v2 m) p pos' = get64 m p pos' \<and>
    get16 (insert64 p pos v m) p pos2' = get16 m p pos2'"
  using assms by (simp add: get_insert_apart)

theorem insert_get_apart_witness:
  "get64 (insert64 0x1000 2 0xABCD (\<lambda>_. 0)) 0x1000 10 = get64 (\<lambda>_. 0) 0x1000 10"
  using insert_get_apart [of 2 10 0 0 "0x1000" "0xABCD" "\<lambda>_. 0"] by (simp add: apart_def)

end
