(* ===== verification/Eth_Types.thy ===== *)
theory Eth_Types
  imports Prelude
begin

text \<open>
  Types shared by the Ethernet device layer and its users: link state and statistics of
  \<open>librte_ether/rte_ethdev.h\<close>, and the error values of the model. An error value stands for behaviour
  that C leaves undefined (an access through NULL or outside a buffer), for a panic, or for a call that
  does not return.
\<close>

section \<open>Errors and their propagation\<close>

datatype c_error = Null_pointer | Heap_overflow nat nat | Stack_overflow nat nat | Panic string | No_return

definition bnd :: "'e + 'a \<Rightarrow> ('a \<Rightarrow> 'e + 'b) \<Rightarrow> 'e + 'b" where
  "bnd r f = (case r of Inl e \<Rightarrow> Inl e | Inr x \<Rightarrow> f x)"

lemma bnd_simps [simp]: "bnd (Inl e) f = Inl e" "bnd (Inr x) f = f x"
  by (simp_all add: bnd_def)

lemma bnd_Inr_iff: "bnd r f = Inr y \<longleftrightarrow> (\<exists>x. r = Inr x \<and> f x = Inr y)"
  by (cases r) simp_all

section \<open>Printing\<close>

text \<open>\<open>%d\<close> and \<open>%u\<close>.\<close>

fun dec :: "nat \<Rightarrow> string" where
  "dec n = (if n < 10 then [char_of (48 + n)] else dec (n div 10) @ [char_of (48 + n mod 10)])"

declare dec.simps [simp del]

section \<open>Links and statistics\<close>

definition ETH_LINK_FULL_DUPLEX :: u16 where "ETH_LINK_FULL_DUPLEX = 2"

record rte_eth_link =
  link_speed :: u16
  link_duplex :: u16
  link_status :: bool

text \<open>The counters that are read or written by the modelled code.\<close>

record rte_eth_stats =
  st_ipackets :: u64
  st_opackets :: u64
  st_ibytes :: u64
  st_obytes :: u64
  st_imissed :: u64
  st_ierrors :: u64
  st_oerrors :: u64
  st_rx_nombuf :: u64
  st_q_ipackets :: "nat \<Rightarrow> u64"
  st_q_opackets :: "nat \<Rightarrow> u64"
  st_q_errors :: "nat \<Rightarrow> u64"

definition zero_eth_stats :: rte_eth_stats where
  "zero_eth_stats = \<lparr>st_ipackets = 0, st_opackets = 0, st_ibytes = 0, st_obytes = 0, st_imissed = 0,
     st_ierrors = 0, st_oerrors = 0, st_rx_nombuf = 0, st_q_ipackets = (\<lambda>_. 0), st_q_opackets = (\<lambda>_. 0),
     st_q_errors = (\<lambda>_. 0)\<rparr>"

end
