(* ===== verification/Dpdk_Access.thy ===== *)
theory Dpdk_Access
  imports Mbuf_Spec Mem_Utils Eth_Types
begin

text \<open>
  The JNI layer, \<open>apps/DpdkJava/src/DpdkAccess.c\<close>: the native methods by which the Java framework
  initialises DPDK, receives, frees and sends bursts of packets through shared memory and reads
  port information. \<open>jni\<close> holds the file's global variables, the byte memory shared with the Java
  side, the packet buffers and pools of \<open>Mbuf\<close> and the state of the network devices. The Ethernet
  device functions, which end in the drivers, are the fields of \<open>ethdev_api\<close>; the EAL start-up is an
  argument. A C string is the list of its characters without the terminator. A write or read that the
  C code does outside its buffer is the error value \<open>Inl\<close>.
\<close>

section \<open>Environment and state\<close>

text \<open>\<open>'n\<close> is the state of the devices. Bursts take and give back packet buffers.\<close>

record 'n ethdev_api =
  eth_dev_count :: "'n \<Rightarrow> u8"
  eth_dev_configure :: "u8 \<Rightarrow> u16 \<Rightarrow> u16 \<Rightarrow> 'n \<Rightarrow> int \<times> 'n"
  eth_rx_queue_setup :: "u8 \<Rightarrow> u16 \<Rightarrow> u16 \<Rightarrow> u32 \<Rightarrow> u64 \<Rightarrow> 'n \<Rightarrow> int \<times> 'n"
  eth_tx_queue_setup :: "u8 \<Rightarrow> u16 \<Rightarrow> u16 \<Rightarrow> u32 \<Rightarrow> 'n \<Rightarrow> int \<times> 'n"
  eth_dev_start :: "u8 \<Rightarrow> 'n \<Rightarrow> int \<times> 'n"
  eth_link_get :: "u8 \<Rightarrow> 'n \<Rightarrow> rte_eth_link \<times> 'n"
  eth_link_get_nowait :: "u8 \<Rightarrow> 'n \<Rightarrow> rte_eth_link \<times> 'n"
  eth_rx_burst :: "u8 \<Rightarrow> u16 \<Rightarrow> u16 \<Rightarrow> 'n \<times> mbuf_world \<Rightarrow> u64 list \<times> 'n \<times> mbuf_world"
  eth_tx_burst :: "u8 \<Rightarrow> u16 \<Rightarrow> u64 list \<Rightarrow> 'n \<times> mbuf_world \<Rightarrow> u16 \<times> 'n \<times> mbuf_world"
  eth_macaddr_get :: "u8 \<Rightarrow> 'n \<Rightarrow> u8 list"
  eth_promiscuous_enable :: "u8 \<Rightarrow> 'n \<Rightarrow> 'n"
  eth_stats_get :: "u8 \<Rightarrow> 'n \<Rightarrow> rte_eth_stats \<times> 'n"
  delay_ms :: "nat \<Rightarrow> 'n \<Rightarrow> 'n"

record 'n jni =
  j_world :: mbuf_world
  j_nic :: 'n
  j_mem :: memory
  j_pktmbuf_pool :: u64
  j_num_ports :: nat
  j_socketid :: u32
  j_program_name :: "string option"
  j_memory_channels :: "string option"
  j_memory :: "string option"
  j_program_id :: "string option"
  j_blacklist :: "string list"
  j_get_burst :: int
  j_pre_ibytes :: u64
  j_pre_ipackets :: u64
  j_pre_imissed :: u64
  j_pre_ierrors :: u64
  j_pre_opackets :: u64

definition ERROR :: int where "ERROR = - 1"
definition SUCCESS :: int where "SUCCESS = 1"
definition MBUF_SIZE :: u32 where "MBUF_SIZE = 2048 + 128 + 128"
definition MAX_CHECK_TIME :: nat where "MAX_CHECK_TIME = 90"
definition CHECK_INTERVAL :: nat where "CHECK_INTERVAL = 100"

text \<open>\<open>%02X\<close>.\<close>

definition hex_digit :: "nat \<Rightarrow> char" where
  "hex_digit n = char_of (if n < 10 then 48 + n else 55 + n)"

definition hex2 :: "u8 \<Rightarrow> string" where
  "hex2 b = [hex_digit (unat b div 16), hex_digit (unat b mod 16)]"

text \<open>\<open>strcpy\<close> or \<open>sprintf\<close> into a buffer of \<open>n\<close> bytes, with the terminator.\<close>

definition store_string :: "nat \<Rightarrow> string \<Rightarrow> c_error + string" where
  "store_string n s = (if length s + 1 \<le> n then Inr s else Inl (Heap_overflow n (length s + 1)))"

definition concat_str :: "string \<Rightarrow> string \<Rightarrow> string" where
  "concat_str old add = old @ add"

section \<open>Initialisation\<close>

text \<open>
  The argument vector: \<open>argc\<close> buffers of 120 bytes (uninitialised content is \<open>None\<close>), filled in
  the order of the source. A string that was never set is the NULL pointer.
\<close>

definition set_arg :: "nat \<Rightarrow> string option \<Rightarrow> string option list \<Rightarrow> c_error + string option list" where
  "set_arg i s argv =
     (case s of None \<Rightarrow> Inl Null_pointer
      | Some s \<Rightarrow> (case store_string 120 s of Inl e \<Rightarrow> Inl e | Inr s \<Rightarrow> Inr (argv[i := Some s])))"

fun set_args :: "(nat \<times> string option) list \<Rightarrow> string option list \<Rightarrow> c_error + string option list" where
  "set_args [] argv = Inr argv"
| "set_args ((i, s) # rest) argv =
     (case set_arg i s argv of Inl e \<Rightarrow> Inl e | Inr argv \<Rightarrow> set_args rest argv)"

definition blacklist_args :: "string list \<Rightarrow> (nat \<times> string option) list" where
  "blacklist_args bl =
     List.concat (map (\<lambda>i. [(9 + i * 2, Some ''-b''), (9 + (i * 2 + 1), Some (bl ! i))]) [0..<length bl])"

definition eal_argv :: "'n jni \<Rightarrow> c_error + string option list" where
  "eal_argv j =
     (let argc = 1 + 2 + 2 + 2 + 2 + 2 * length (j_blacklist j)
      in set_args
           ([(0, j_program_name j), (1, Some ''-c''), (2, Some ''0x1''), (3, Some ''-n''),
             (4, j_memory_channels j), (5, Some ''--file-prefix''), (6, j_program_id j),
             (7, Some ''-m''), (8, j_memory j)] @ blacklist_args (j_blacklist j))
           (replicate argc None))"

text \<open>\<open>eal_init argv\<close> is \<open>rte_eal_init\<close> on the vector.\<close>

definition nat_init_eal :: "(string option list \<Rightarrow> int) \<Rightarrow> 'n jni \<Rightarrow> c_error + int" where
  "nat_init_eal eal_init j =
     map_sum id (\<lambda>argv. if eal_init argv < 0 then ERROR else SUCCESS) (eal_argv j)"

text \<open>
  \<open>lcore\<close> and \<open>socket_of\<close> are \<open>rte_lcore_id\<close> and \<open>rte_lcore_to_socket_id\<close>; the size of the private
  data is that of \<open>struct rte_pktmbuf_pool_private\<close>.
\<close>

definition nat_create_mempool ::
  "mem_env \<Rightarrow> alloc_env \<Rightarrow> u32 \<Rightarrow> (u32 \<Rightarrow> u32) \<Rightarrow> string \<Rightarrow> int \<Rightarrow> int \<Rightarrow> 'n jni \<Rightarrow> int \<times> 'n jni" where
  "nat_create_mempool env al lcore socket_of name num_el cache_size j =
     (let socketid = socket_of lcore;
          (mp, w) = rte_mempool_create env al lcore name (word_of_int num_el) MBUF_SIZE
                      (word_of_int cache_size) 2 (Some (rte_pktmbuf_pool_init 0))
                      (Some (rte_pktmbuf_init env)) (sint socketid) 0 (j_world j);
          j = j\<lparr>j_socketid := socketid, j_world := w,
                j_pktmbuf_pool := (case mp of None \<Rightarrow> 0 | Some a \<Rightarrow> a)\<rparr>
      in (if mp = None then ERROR else SUCCESS, j))"

definition nat_check_ports :: "'n ethdev_api \<Rightarrow> 'n jni \<Rightarrow> int \<times> 'n jni" where
  "nat_check_ports api j =
     (let j = j\<lparr>j_num_ports := unat (eth_dev_count api (j_nic j))\<rparr>
      in (if j_num_ports j = 0 then ERROR else int (j_num_ports j), j))"

definition ret_code :: "int \<times> 'n \<Rightarrow> 'n jni \<Rightarrow> int \<times> 'n jni" where
  "ret_code r j = (if fst r < 0 then ERROR else SUCCESS, j\<lparr>j_nic := snd r\<rparr>)"

definition nat_configure_dev :: "'n ethdev_api \<Rightarrow> int \<Rightarrow> int \<Rightarrow> int \<Rightarrow> 'n jni \<Rightarrow> int \<times> 'n jni" where
  "nat_configure_dev api port_id rx_num tx_num j =
     ret_code (eth_dev_configure api (word_of_int port_id) (word_of_int rx_num) (word_of_int tx_num)
       (j_nic j)) j"

definition nat_configure_rx_queue :: "'n ethdev_api \<Rightarrow> int \<Rightarrow> int \<Rightarrow> 'n jni \<Rightarrow> int \<times> 'n jni" where
  "nat_configure_rx_queue api port_id rx_id j =
     ret_code (eth_rx_queue_setup api (word_of_int port_id) (word_of_int rx_id) 2048 (j_socketid j)
       (j_pktmbuf_pool j) (j_nic j)) j"

definition nat_configure_tx_queue :: "'n ethdev_api \<Rightarrow> int \<Rightarrow> int \<Rightarrow> 'n jni \<Rightarrow> int \<times> 'n jni" where
  "nat_configure_tx_queue api port_id tx_id j =
     ret_code (eth_tx_queue_setup api (word_of_int port_id) (word_of_int tx_id) 2048 (j_socketid j)
       (j_nic j)) j"

definition nat_dev_start :: "'n ethdev_api \<Rightarrow> int \<Rightarrow> 'n jni \<Rightarrow> int \<times> 'n jni" where
  "nat_dev_start api port_id j = ret_code (eth_dev_start api (word_of_int port_id) (j_nic j)) j"

section \<open>Link status\<close>

text \<open>The lines printed for a port, with the size of the buffer the code allocates for each.\<close>

definition NL :: string where "NL = [char_of (10 :: nat)]"

definition link_line :: "nat \<Rightarrow> rte_eth_link \<Rightarrow> nat \<times> string" where
  "link_line portid link =
     (if link_status link
      then (let s = ''Port '' @ dec portid @ '' Link Up - speed '' @ dec (unat (link_speed link)) @ '' Mbps - '' @
                      (if link_duplex link = ETH_LINK_FULL_DUPLEX then ''full-duplex'' else ''half-duplex'' @ NL) @ NL
            in (length s + 1, s))
      else (let s = ''Port '' @ dec portid @ '' Link Down'' @ NL in (length s, s)))"

text \<open>The inner loop with \<open>print_flag\<close> set: every port's line is appended.\<close>

fun print_links :: "'n ethdev_api \<Rightarrow> nat list \<Rightarrow> string \<Rightarrow> 'n \<Rightarrow> c_error + string \<times> 'n" where
  "print_links api [] out nic = Inr (out, nic)"
| "print_links api (p # ps) out nic =
     (case eth_link_get_nowait api (of_nat p) nic of
        (link, nic) \<Rightarrow>
          (case store_string (fst (link_line p link)) (snd (link_line p link)) of
             Inl e \<Rightarrow> Inl e
           | Inr s \<Rightarrow> print_links api ps (concat_str out s) nic))"

text \<open>The inner loop without it: stops at the first port that is down.\<close>

fun all_links_up :: "'n ethdev_api \<Rightarrow> nat list \<Rightarrow> 'n \<Rightarrow> bool \<times> 'n" where
  "all_links_up api [] nic = (True, nic)"
| "all_links_up api (p # ps) nic =
     (case eth_link_get_nowait api (of_nat p) nic of
        (link, nic) \<Rightarrow> if link_status link then all_links_up api ps nic else (False, nic))"

text \<open>
  The outer loop, \<open>left\<close> iterations from the end: \<open>count = MAX_CHECK_TIME - left\<close>, at most
  \<open>MAX_CHECK_TIME + 1\<close> iterations.
\<close>

fun link_loop :: "'n ethdev_api \<Rightarrow> nat \<Rightarrow> bool \<Rightarrow> nat \<Rightarrow> string \<Rightarrow> 'n \<Rightarrow> c_error + string \<times> 'n" where
  "link_loop api 0 print_flag ports out nic =
     (if print_flag then print_links api [0..<ports] out nic
      else (case all_links_up api [0..<ports] nic of
              (up, nic) \<Rightarrow> Inr (if up then (out, nic) else (concat_str out ''.'', delay_ms api CHECK_INTERVAL nic))))"
| "link_loop api (Suc left) print_flag ports out nic =
     (if print_flag then print_links api [0..<ports] out nic
      else (case all_links_up api [0..<ports] nic of
              (up, nic) \<Rightarrow>
                (let (out, nic) = (if up then (out, nic)
                                   else (concat_str out ''.'', delay_ms api CHECK_INTERVAL nic));
                     print_flag = (up \<or> MAX_CHECK_TIME - Suc left = MAX_CHECK_TIME - 1)
                 in link_loop api left print_flag ports out nic)))"

definition nat_check_ports_link_status :: "'n ethdev_api \<Rightarrow> 'n jni \<Rightarrow> c_error + string \<times> 'n jni" where
  "nat_check_ports_link_status api j =
     map_sum id (\<lambda>(s, nic). (s, j\<lparr>j_nic := nic\<rparr>))
       (link_loop api MAX_CHECK_TIME False (j_num_ports j) '''' (j_nic j))"

section \<open>Settings\<close>

definition nat_set_receive_burst :: "int \<Rightarrow> 'n jni \<Rightarrow> 'n jni" where
  "nat_set_receive_burst value j = j\<lparr>j_get_burst := value\<rparr>"

definition nat_set_program_name :: "string \<Rightarrow> 'n jni \<Rightarrow> 'n jni" where
  "nat_set_program_name value j = j\<lparr>j_program_name := Some value\<rparr>"

definition nat_set_memory_channels :: "string \<Rightarrow> 'n jni \<Rightarrow> 'n jni" where
  "nat_set_memory_channels value j = j\<lparr>j_memory_channels := Some value\<rparr>"

definition nat_set_memory :: "string \<Rightarrow> 'n jni \<Rightarrow> 'n jni" where
  "nat_set_memory value j = j\<lparr>j_memory := Some value\<rparr>"

definition nat_set_program_id :: "string \<Rightarrow> 'n jni \<Rightarrow> 'n jni" where
  "nat_set_program_id value j = j\<lparr>j_program_id := Some value\<rparr>"

definition nat_set_blacklist :: "string list \<Rightarrow> 'n jni \<Rightarrow> 'n jni" where
  "nat_set_blacklist values j = j\<lparr>j_blacklist := values\<rparr>"

section \<open>Packets\<close>

text \<open>The loop that writes the mbuf pointer and the pointer behind the Ethernet header.\<close>

fun write_packets :: "mbuf_world \<Rightarrow> u64 \<Rightarrow> int \<Rightarrow> u64 list \<Rightarrow> memory \<Rightarrow> memory" where
  "write_packets w point offset [] m = m"
| "write_packets w point offset (p # ps) m =
     (let ip = rte_pktmbuf_mtod (mb w p) + 14;
          m = insert64 point offset p m;
          offset = offset + 8;
          m = insert64 point offset ip m;
          offset = offset + 8
      in write_packets w point offset ps m)"

text \<open>The driver stores the packets it delivers in \<open>pkts_burst[512]\<close>.\<close>

definition nat_receive_burst :: "'n ethdev_api \<Rightarrow> u64 \<Rightarrow> int \<Rightarrow> int \<Rightarrow> 'n jni \<Rightarrow> c_error + 'n jni" where
  "nat_receive_burst api mem_pointer port_id rx_id j =
     (case eth_rx_burst api (word_of_int port_id) (word_of_int rx_id) (word_of_int (j_get_burst j))
             (j_nic j, j_world j) of
        (pkts, nic, w) \<Rightarrow>
          if length pkts > 512 then Inl (Stack_overflow 512 (length pkts))
          else (let packet_count = of_nat (length pkts) :: u16;
                    m = insert16 mem_pointer 0 packet_count (j_mem j);
                    m = (if packet_count > 0 then write_packets w mem_pointer 2 pkts m else m)
                in Inr (j\<lparr>j_nic := nic, j_world := w, j_mem := m\<rparr>)))"

text \<open>The pointers in memory from \<open>offset\<close> on, 8 bytes apart.\<close>

fun read_pointers :: "memory \<Rightarrow> u64 \<Rightarrow> int \<Rightarrow> nat \<Rightarrow> u64 list" where
  "read_pointers m point offset 0 = []"
| "read_pointers m point offset (Suc n) = get64 m point offset # read_pointers m point (offset + 8) n"

fun free_loop :: "mem_env \<Rightarrow> u32 \<Rightarrow> u64 \<Rightarrow> int \<Rightarrow> nat \<Rightarrow> memory \<Rightarrow> mbuf_world \<Rightarrow> mbuf_world option" where
  "free_loop env lcore point offset 0 m w = Some w"
| "free_loop env lcore point offset (Suc n) m w =
     Option.bind (rte_pktmbuf_free env lcore (get64 m point offset) w)
       (\<lambda>w. free_loop env lcore point (offset + 8) n m w)"

definition nat_free_packets :: "mem_env \<Rightarrow> u32 \<Rightarrow> u64 \<Rightarrow> 'n jni \<Rightarrow> 'n jni option" where
  "nat_free_packets env lcore mem_pointer j =
     (let packet_count = get16 (j_mem j) mem_pointer 0
      in map_option (\<lambda>w. j\<lparr>j_world := w\<rparr>)
           (free_loop env lcore mem_pointer 2 (unat packet_count) (j_mem j) (j_world j)))"

definition nat_free_packet :: "mem_env \<Rightarrow> u32 \<Rightarrow> u64 \<Rightarrow> 'n jni \<Rightarrow> 'n jni option" where
  "nat_free_packet env lcore mem_pointer j =
     map_option (\<lambda>w. j\<lparr>j_world := w\<rparr>)
       (rte_pktmbuf_free env lcore (get64 (j_mem j) mem_pointer 2) (j_world j))"

text \<open>The result of the burst, the number of packets taken by the driver, is not looked at.\<close>

definition nat_send_packets :: "'n ethdev_api \<Rightarrow> u64 \<Rightarrow> int \<Rightarrow> int \<Rightarrow> 'n jni \<Rightarrow> 'n jni" where
  "nat_send_packets api mem_pointer port_id tx_id j =
     (let packet_count = get16 (j_mem j) mem_pointer 0 in
      case eth_tx_burst api (word_of_int port_id) (word_of_int tx_id)
             (read_pointers (j_mem j) mem_pointer 2 (unat packet_count)) (j_nic j, j_world j) of
        (sent, nic, w) \<Rightarrow> j\<lparr>j_nic := nic, j_world := w\<rparr>)"

section \<open>Threads, addresses, statistics\<close>

text \<open>
  \<open>setaff\<close> and \<open>getaff\<close> are \<open>pthread_setaffinity_np\<close> and \<open>pthread_getaffinity_np\<close> on the calling
  thread: an error number, and for the latter the set read back.
\<close>

definition nat_set_thread_affinity ::
  "(nat set \<Rightarrow> 's \<Rightarrow> int \<times> 's) \<Rightarrow> ('s \<Rightarrow> int \<times> nat set) \<Rightarrow> nat \<Rightarrow> 's \<Rightarrow> int \<times> 's" where
  "nat_set_thread_affinity setaff getaff core s =
     (let cpuset = insert core {};
          (r, s) = setaff cpuset s
      in if r \<noteq> 0 then (0, s)
         else (let (r, cpuset) = getaff s in
               if r \<noteq> 0 then (0, s) else if core \<notin> cpuset then (0, s) else (1, s)))"

definition ether_format_addr :: "nat \<Rightarrow> u8 list \<Rightarrow> string" where
  "ether_format_addr sz eth =
     take (sz - 1) (hex2 (eth ! 0) @ '':'' @ hex2 (eth ! 1) @ '':'' @ hex2 (eth ! 2) @ '':'' @
       hex2 (eth ! 3) @ '':'' @ hex2 (eth ! 4) @ '':'' @ hex2 (eth ! 5))"

fun mac_loop :: "'n ethdev_api \<Rightarrow> nat list \<Rightarrow> string \<Rightarrow> 'n \<Rightarrow> c_error + string" where
  "mac_loop api [] out nic = Inr out"
| "mac_loop api (i # is) out nic =
     (let eth = eth_macaddr_get api (of_nat i) nic;
          out = concat_str out (ether_format_addr 20 eth)
      in case store_string 1 NL of
           Inl e \<Rightarrow> Inl e
         | Inr s \<Rightarrow> mac_loop api is (concat_str out s) nic)"

definition nat_get_mac_info :: "'n ethdev_api \<Rightarrow> 'n jni \<Rightarrow> c_error + string" where
  "nat_get_mac_info api j = mac_loop api [0..<j_num_ports j] '''' (j_nic j)"

definition nat_enable_pro :: "'n ethdev_api \<Rightarrow> 'n jni \<Rightarrow> 'n jni" where
  "nat_enable_pro api j =
     j\<lparr>j_nic := fold (\<lambda>i. eth_promiscuous_enable api (of_nat i)) [0..<j_num_ports j] (j_nic j)\<rparr>"

record stats_line =
  diff_bytes :: u64
  diff_packets :: u64
  diff_missed :: u64
  diff_errors :: u64
  diff_opackets :: u64

text \<open>Prints the differences to the previous call and remembers the counters.\<close>

definition do_stats :: "'n ethdev_api \<Rightarrow> 'n jni \<Rightarrow> stats_line \<times> 'n jni" where
  "do_stats api j =
     (let (stats, nic) = eth_stats_get api 0 (j_nic j)
      in (\<lparr>diff_bytes = st_ibytes stats - j_pre_ibytes j,
           diff_packets = st_ipackets stats - j_pre_ipackets j,
           diff_missed = st_imissed stats - j_pre_imissed j,
           diff_errors = st_ierrors stats - j_pre_ierrors j,
           diff_opackets = st_opackets stats - j_pre_opackets j\<rparr>,
          j\<lparr>j_nic := nic, j_pre_ibytes := st_ibytes stats, j_pre_ipackets := st_ipackets stats,
            j_pre_imissed := st_imissed stats, j_pre_ierrors := st_ierrors stats,
            j_pre_opackets := st_opackets stats\<rparr>))"

text \<open>The endless loop of \<open>nat_start_stats\<close>, its first \<open>n\<close> rounds.\<close>

fun nat_start_stats :: "'n ethdev_api \<Rightarrow> nat \<Rightarrow> 'n jni \<Rightarrow> stats_line list \<times> 'n jni" where
  "nat_start_stats api 0 j = ([], j)"
| "nat_start_stats api (Suc n) j =
     (let j = j\<lparr>j_nic := delay_ms api 1000 (j_nic j)\<rparr>;
          (l, j) = do_stats api j;
          (ls, j) = nat_start_stats api n j
      in (l # ls, j))"

end
