(* ===== verification/Dpdk_Access_Spec.thy ===== *)
theory Dpdk_Access_Spec
  imports Dpdk_Access
begin

text \<open>
  Properties of the JNI layer: the layout in shared memory of a received burst, the release of a
  burst, the argument vector of the EAL, the link report and the statistics.
\<close>

section \<open>Received bursts\<close>

lemma write_packets_before:
  assumes "apart off (16 * length ps) pos' 2"
  shows "get16 (write_packets w p off ps m) p pos' = get16 m p pos'"
  using assms
proof (induction ps arbitrary: off m)
  case (Cons a ps)
  then have "apart off 8 pos' 2" "apart (off + 8) 8 pos' 2" "apart (off + 16) (16 * length ps) pos' 2"
    by (auto simp: apart_def)
  then show ?case using Cons.IH by (simp add: Let_def get_insert_apart add.assoc)
qed simp

lemma write_packets_before64:
  assumes "apart off (16 * length ps) pos' 8"
  shows "get64 (write_packets w p off ps m) p pos' = get64 m p pos'"
  using assms
proof (induction ps arbitrary: off m)
  case (Cons a ps)
  then have "apart off 8 pos' 8" "apart (off + 8) 8 pos' 8" "apart (off + 16) (16 * length ps) pos' 8"
    by (auto simp: apart_def)
  then show ?case using Cons.IH by (simp add: Let_def get_insert_apart add.assoc)
qed simp

lemma write_packets_at:
  assumes "i < length ps" and "length ps \<le> 512"
  shows "get64 (write_packets w p off ps m) p (off + 16 * int i) = ps ! i \<and>
    get64 (write_packets w p off ps m) p (off + 16 * int i + 8) = rte_pktmbuf_mtod (mb w (ps ! i)) + 14"
  using assms
proof (induction ps arbitrary: off m i)
  case (Cons a ps)
  show ?case
  proof (cases i)
    case 0
    have "apart (off + 16) (16 * length ps) off 8" "apart (off + 16) (16 * length ps) (off + 8) 8"
      "apart (off + 8) 8 off 8"
      using Cons.prems(2) by (auto simp: apart_def)
    with 0 show ?thesis
      by (simp add: Let_def write_packets_before64 get_insert_same get_insert_apart add.assoc)
  next
    case (Suc k)
    with Cons.prems Cons.IH [of k "off + 16"] show ?thesis by (simp add: Let_def algebra_simps)
  qed
qed simp

text \<open>C28: A received burst of at most 512 packets is laid out for the Java side as the 16-bit
  packet count followed, for each packet in order, by the address of its mbuf and the address of the
  IP header (start of the data plus the 14 bytes of the Ethernet header).\<close>
theorem receive_burst_layout:
  assumes "eth_rx_burst api (word_of_int port_id) (word_of_int rx_id) (word_of_int (j_get_burst j))
      (j_nic j, j_world j) = (pkts, nic, w)" and "length pkts \<le> 512"
  shows "\<exists>j'. nat_receive_burst api ptr port_id rx_id j = Inr j' \<and> j_world j' = w \<and>
    unat (get16 (j_mem j') ptr 0) = length pkts \<and>
    (\<forall>i < length pkts. get64 (j_mem j') ptr (2 + 16 * int i) = pkts ! i \<and>
       get64 (j_mem j') ptr (2 + 16 * int i + 8) = rte_pktmbuf_mtod (mb w (pkts ! i)) + 14)"
proof -
  have n: "unat (of_nat (length pkts) :: u16) = length pkts" using assms(2) by (simp add: unat_of_nat)
  have "pkts = []" if "\<not> (0 :: u16) < of_nat (length pkts)"
    using that n by (simp add: word_less_nat_alt)
  moreover have "apart 2 (16 * length pkts) 0 2" using assms(2) by (auto simp: apart_def)
  ultimately show ?thesis
    using assms n write_packets_at [where ps = pkts and off = 2]
    by (auto simp: nat_receive_burst_def Let_def write_packets_before get_insert_same)
qed

definition sample_api :: "nat ethdev_api" where
  "sample_api = \<lparr>eth_dev_count = (\<lambda>_. 1), eth_dev_configure = (\<lambda>_ _ _ s. (0, s)),
     eth_rx_queue_setup = (\<lambda>_ _ _ _ _ s. (0, s)), eth_tx_queue_setup = (\<lambda>_ _ _ _ s. (0, s)),
     eth_dev_start = (\<lambda>_ s. (0, s)),
     eth_link_get = (\<lambda>p s. (\<lparr>link_speed = 10000, link_duplex = 2, link_status = True\<rparr>, s)),
     eth_link_get_nowait = (\<lambda>p s. (\<lparr>link_speed = 10000, link_duplex = 2, link_status = (3 \<le> s)\<rparr>, s)),
     eth_rx_burst = (\<lambda>_ _ _ (s, w). ([0x1000, 0x1100], s, w)),
     eth_tx_burst = (\<lambda>_ _ ps (s, w). (of_nat (length ps), s, w)),
     eth_macaddr_get = (\<lambda>_ _. [0, 1, 2, 3, 4, 5]), eth_promiscuous_enable = (\<lambda>_ s. s),
     eth_stats_get = (\<lambda>_ s. (zero_eth_stats\<lparr>st_ipackets := of_nat s, st_ibytes := 64 * of_nat s\<rparr>, s + 1)),
     delay_ms = (\<lambda>_ s. s + 1)\<rparr>"

definition sample_jni :: "nat jni" where
  "sample_jni = \<lparr>j_world = sample_world, j_nic = 0, j_mem = (\<lambda>_. 0), j_pktmbuf_pool = 0x100, j_num_ports = 1,
     j_socketid = 0, j_program_name = Some ''app'', j_memory_channels = Some ''4'', j_memory = Some ''1024'',
     j_program_id = Some ''id0'', j_blacklist = [''01:00.0''], j_get_burst = 32, j_pre_ibytes = 0,
     j_pre_ipackets = 0, j_pre_imissed = 0, j_pre_ierrors = 0, j_pre_opackets = 0\<rparr>"

theorem receive_burst_layout_witness:
  "\<exists>j'. nat_receive_burst sample_api 0x5000 0 0 sample_jni = Inr j' \<and> unat (get16 (j_mem j') 0x5000 0) = 2 \<and>
     get64 (j_mem j') 0x5000 18 = 0x1100"
proof -
  have "eth_rx_burst sample_api (word_of_int 0) (word_of_int 0) (word_of_int (j_get_burst sample_jni))
      (j_nic sample_jni, j_world sample_jni) = ([0x1000, 0x1100], 0, sample_world)"
    by (simp add: sample_api_def sample_jni_def)
  from receive_burst_layout [OF this, of "0x5000"] obtain j' where
    j': "nat_receive_burst sample_api 0x5000 0 0 sample_jni = Inr j'" "unat (get16 (j_mem j') 0x5000 0) = 2"
      "\<forall>i < 2. get64 (j_mem j') 0x5000 (2 + 16 * int i) = [0x1000, 0x1100] ! i"
    by auto
  from j'(3) [rule_format, of 1] j'(1,2) show ?thesis by (intro exI [of _ j']) simp
qed

section \<open>Released bursts\<close>

lemma free_loop_eq:
  "free_loop env lcore point off n m w = free_all env lcore (read_pointers m point off n) w"
proof (induction n arbitrary: off w)
  case (Suc n)
  then show ?case by (cases "rte_pktmbuf_free env lcore (get64 m point off) w") simp_all
qed simp

text \<open>Releasing a burst, as the Java side hands it over (count, then mbuf addresses), returns
  and gives every segment on its last reference of every packet back to its pool exactly once; the
  shared memory is not written.\<close>
theorem free_packets_exact:
  assumes "list_all2 (chain (j_world j)) (read_pointers (j_mem j) ptr 2 (unat (get16 (j_mem j) ptr 0))) css"
    and "distinct (List.concat css)"
    and "\<forall>a\<in>set (List.concat css). RTE_MBUF_DIRECT (mb (j_world j) a) \<and> m_refcnt (mb (j_world j) a) \<noteq> 0"
    and "pools_ok (j_world j)"
    and "\<forall>p. size (pool_free (w_pools (j_world j) p)) + size (last_refs (j_world j) p (List.concat css))
       \<le> unat (mp_size (w_pools (j_world j) p))"
  shows "\<exists>w'. nat_free_packets env lcore ptr j = Some (j\<lparr>j_world := w'\<rparr>) \<and> pools_ok w' \<and>
    (\<forall>p. pool_free (w_pools w' p) = pool_free (w_pools (j_world j) p) + last_refs (j_world j) p (List.concat css))"
  using free_all_ok [OF assms(1-4), of env lcore] assms(5)
  by (auto simp: nat_free_packets_def Let_def free_loop_eq)

theorem free_packets_exact_witness:
  "\<exists>w'. nat_free_packets sample_env 0 0x5000
       (sample_jni\<lparr>j_mem := insert64 0x5000 2 0x1500 (insert16 0x5000 0 1 (\<lambda>_. 0))\<rparr>)
     = Some (sample_jni\<lparr>j_mem := insert64 0x5000 2 0x1500 (insert16 0x5000 0 1 (\<lambda>_. 0)), j_world := w'\<rparr>) \<and>
     pool_free (w_pools w' 0x100) = add_mset 0x1500 (pool_free sample_pool)"
proof -
  let ?j = "sample_jni\<lparr>j_mem := insert64 0x5000 2 0x1500 (insert16 0x5000 0 1 (\<lambda>_. 0))\<rparr>"
  have w: "j_world ?j = sample_world" by (simp add: sample_jni_def)
  have p: "w_pools sample_world q = sample_pool" for q by (simp add: sample_world_def)
  have "get16 (j_mem ?j) 0x5000 0 = 1" "get64 (j_mem ?j) 0x5000 2 = 0x1500"
    by (simp_all add: get_insert_same get_insert_apart apart_def)
  then have ptrs: "read_pointers (j_mem ?j) 0x5000 2 (unat (get16 (j_mem ?j) 0x5000 0)) = [0x1500]"
    by simp
  have refs: "last_refs sample_world q [0x1500] = (if q = 0x100 then {#0x1500#} else {#})" for q
    by (simp add: last_refs_def sample_mbuf_fields)
  have "\<exists>w'. nat_free_packets sample_env 0 0x5000 ?j = Some (?j\<lparr>j_world := w'\<rparr>) \<and> pools_ok w' \<and>
      (\<forall>p. pool_free (w_pools w' p) = pool_free (w_pools (j_world ?j) p) +
         last_refs (j_world ?j) p (List.concat [[0x1500]]))"
    by (rule free_packets_exact, unfold ptrs w) (simp_all add: sample_mbuf_fields RTE_MBUF_DIRECT_def
        RTE_MBUF_INDIRECT_def pools_ok_def p sample_pool_ok refs sample_pool_free sample_pool_fields)
  then show ?thesis unfolding w by (auto simp: p refs)
qed

section \<open>The EAL arguments\<close>

lemma set_args_append:
  "set_args (xs @ ys) argv = (case set_args xs argv of Inl e \<Rightarrow> Inl e | Inr a \<Rightarrow> set_args ys a)"
  by (induction xs argv rule: set_args.induct) (auto split: sum.split)

lemma set_arg_fits: "length s < 120 \<Longrightarrow> set_arg i (Some s) argv = Inr (argv[i := Some s])"
  by (simp add: set_arg_def store_string_def)

definition blacklist_opts :: "string list \<Rightarrow> string list" where
  "blacklist_opts bl = List.concat (map (\<lambda>b. [''-b'', b]) bl)"

lemma length_blacklist_opts: "length (blacklist_opts bl) = 2 * length bl"
  by (induction bl) (simp_all add: blacklist_opts_def)

lemma blacklist_args_snoc:
  "blacklist_args (bl @ [b]) = blacklist_args bl @
     [(9 + length bl * 2, Some ''-b''), (9 + (length bl * 2 + 1), Some b)]"
proof -
  have "List.concat (map (\<lambda>i. [(9 + i * 2, Some ''-b''), (10 + i * 2, Some ((bl @ [b]) ! i))]) [0..<length bl]) =
      List.concat (map (\<lambda>i. [(9 + i * 2, Some ''-b''), (10 + i * 2, Some (bl ! i))]) [0..<length bl])"
    by (intro arg_cong [where f = List.concat] map_cong) (simp_all add: nth_append)
  then show ?thesis by (simp add: blacklist_args_def)
qed

lemma set_blacklist_args:
  assumes "\<forall>b\<in>set bl. length b < 120" and "length pre = 9"
  shows "set_args (blacklist_args bl) (pre @ replicate (2 * length bl) None @ post)
    = Inr (pre @ map Some (blacklist_opts bl) @ post)"
  using assms(1)
proof (induction bl arbitrary: post rule: rev_induct)
  case Nil
  then show ?case by (simp add: blacklist_args_def blacklist_opts_def)
next
  case (snoc b bl)
  let ?k = "length (map Some (blacklist_opts bl) :: string option list)"
  have k: "?k = length bl * 2" by (simp add: length_blacklist_opts)
  have "replicate (2 * length (bl @ [b])) None @ post = replicate (2 * length bl) None @ ([None, None] @ post)"
    by (simp add: replicate_app_Cons_same [symmetric] replicate_append_same [symmetric])
  with snoc.IH [of "[None, None] @ post"] snoc.prems
  have "set_args (blacklist_args bl) (pre @ replicate (2 * length (bl @ [b])) None @ post)
      = Inr (pre @ map Some (blacklist_opts bl) @ [None, None] @ post)" by simp
  then show ?case
    using snoc.prems assms(2) k
    by (simp add: blacklist_args_snoc set_args_append set_arg_fits list_update_append blacklist_opts_def)
qed

text \<open>When all settings were made and every string is shorter than 120 characters, the EAL is
  started with exactly the documented argument vector: program name, core mask, memory channels, file
  prefix, memory, and one \<open>-b\<close> pair per blacklisted port, in order, with no uninitialised entry.\<close>
theorem eal_argv_exact:
  assumes "j_program_name j = Some pn" "j_memory_channels j = Some ch" "j_program_id j = Some pid" "j_memory j = Some mem"
    and "\<forall>s \<in> {pn, ch, pid, mem} \<union> set (j_blacklist j). length s < 120"
  shows "eal_argv j = Inr (map Some ([pn, ''-c'', ''0x1'', ''-n'', ch, ''--file-prefix'', pid, ''-m'', mem] @
      List.concat (map (\<lambda>b. [''-b'', b]) (j_blacklist j))))"
proof -
  let ?pre = "[pn, ''-c'', ''0x1'', ''-n'', ch, ''--file-prefix'', pid, ''-m'', mem]"
  let ?n = "2 * length (j_blacklist j)"
  have r: "replicate (9 + ?n) (None :: string option) = replicate 9 None @ replicate ?n None"
    by (simp only: replicate_add)
  have 9: "replicate 9 (None :: string option) = [None, None, None, None, None, None, None, None, None]"
    by (simp add: numeral_eq_Suc)
  have a: "set_args [(0, Some pn), (1, Some ''-c''), (2, Some ''0x1''), (3, Some ''-n''), (4, Some ch),
      (5, Some ''--file-prefix''), (6, Some pid), (7, Some ''-m''), (8, Some mem)] (replicate 9 None @ replicate ?n None)
      = Inr (map Some ?pre @ replicate ?n None)"
    using assms(5) by (simp add: 9 set_arg_fits numeral_eq_Suc)
  have b: "set_args (blacklist_args (j_blacklist j)) (map Some ?pre @ replicate ?n None)
      = Inr (map Some ?pre @ map Some (blacklist_opts (j_blacklist j)))"
    using set_blacklist_args [of "j_blacklist j" "map Some ?pre" "[]"] assms(5) by simp
  have argc: "1 + 2 + 2 + 2 + 2 + ?n = 9 + ?n" by simp
  show ?thesis
    unfolding eal_argv_def Let_def assms(1-4) argc r set_args_append a sum.case b
    by (simp add: blacklist_opts_def)
qed

theorem eal_argv_exact_witness:
  "eal_argv sample_jni = Inr (map Some [''app'', ''-c'', ''0x1'', ''-n'', ''4'', ''--file-prefix'', ''id0'', ''-m'', ''1024'',
     ''-b'', ''01:00.0''])"
  using eal_argv_exact [of sample_jni "''app''" "''4''" "''id0''" "''1024''"] by (simp add: sample_jni_def)

section \<open>Link status and addresses\<close>

text \<open>
  The devices as the loops see them: \<open>links_now\<close> are the links a scan of all ports reads, one after the
  other, and the state afterwards.
\<close>

fun links_now :: "'n ethdev_api \<Rightarrow> nat list \<Rightarrow> 'n \<Rightarrow> rte_eth_link list \<times> 'n" where
  "links_now api [] nic = ([], nic)"
| "links_now api (p # ps) nic =
     (let (l, nic) = eth_link_get_nowait api (of_nat p) nic; (ls, nic) = links_now api ps nic in (l # ls, nic))"

lemma store_link_line:
  "store_string (fst (link_line p l)) (snd (link_line p l)) =
     (if link_status l then Inr (snd (link_line p l))
      else Inl (Heap_overflow (length (snd (link_line p l))) (length (snd (link_line p l)) + 1)))"
  by (simp add: store_string_def link_line_def Let_def)

lemma print_links_up:
  assumes "links_now api ps nic = (ls, nic')" and "\<forall>l\<in>set ls. link_status l"
  shows "print_links api ps out nic = Inr (out @ List.concat (map2 (\<lambda>p l. snd (link_line p l)) ps ls), nic')"
  using assms
proof (induction ps arbitrary: out nic ls)
  case (Cons p ps)
  obtain l nic1 where l: "eth_link_get_nowait api (of_nat p) nic = (l, nic1)" by force
  obtain rest nic2 where ls: "links_now api ps nic1 = (rest, nic2)" by force
  with l Cons.prems have "ls = l # rest" "nic' = nic2" by auto
  with Cons.IH [of nic1 rest] Cons.prems(2) l ls show ?case by (simp add: store_link_line concat_str_def)
qed simp

lemma print_links_overflow:
  assumes "\<exists>l\<in>set (fst (links_now api ps nic)). \<not> link_status l"
  shows "\<exists>n. print_links api ps out nic = Inl (Heap_overflow n (n + 1))"
  using assms
proof (induction ps arbitrary: out nic)
  case (Cons p ps)
  obtain l nic1 where l: "eth_link_get_nowait api (of_nat p) nic = (l, nic1)" by force
  with Cons.IH [of nic1 "out @ snd (link_line p l)"] Cons.prems show ?case
    by (cases "link_status l") (auto simp: store_link_line concat_str_def case_prod_beta)
qed simp

lemma links_now_down:
  assumes "\<And>nic. \<not> link_status (fst (eth_link_get_nowait api (of_nat p) nic))" and "p \<in> set ps"
  shows "\<exists>l\<in>set (fst (links_now api ps nic)). \<not> link_status l"
  using assms(2)
proof (induction ps arbitrary: nic)
  case (Cons q ps)
  obtain l nic1 where l: "eth_link_get_nowait api (of_nat q) nic = (l, nic1)" by force
  show ?case
  proof (cases "q = p")
    case True
    with assms(1) [of nic] l show ?thesis by (simp add: case_prod_beta)
  next
    case False
    with Cons.prems Cons.IH [of nic1] l show ?thesis by (auto simp: case_prod_beta)
  qed
qed simp

lemma print_links_down:
  assumes "\<And>nic. \<not> link_status (fst (eth_link_get_nowait api (of_nat p) nic))" and "p \<in> set ps"
  shows "\<exists>n. print_links api ps out nic = Inl (Heap_overflow n (n + 1))"
  by (rule print_links_overflow [OF links_now_down [OF assms]])

lemma all_links_up_down:
  assumes "\<And>nic. \<not> link_status (fst (eth_link_get_nowait api (of_nat p) nic))" and "p \<in> set ps"
  shows "\<not> fst (all_links_up api ps nic)"
  using assms(2)
proof (induction ps arbitrary: nic)
  case (Cons q ps)
  obtain l nic1 where l: "eth_link_get_nowait api (of_nat q) nic = (l, nic1)" by force
  with Cons assms(1) [of nic] show ?case by auto
qed simp

lemma link_loop_print: "link_loop api left True ports out nic = print_links api [0..<ports] out nic"
  by (cases left) simp_all

lemma link_loop_down:
  assumes "\<And>nic. \<not> link_status (fst (eth_link_get_nowait api (of_nat p) nic))" and "p < ports"
    and "0 < left"
  shows "\<exists>n. link_loop api left False ports out nic = Inl (Heap_overflow n (n + 1))"
  using assms(3)
proof (induction left arbitrary: out nic)
  case (Suc left)
  have p: "p \<in> set [0..<ports]" using assms(2) by simp
  obtain nic1 where up: "all_links_up api [0..<ports] nic = (False, nic1)"
    using all_links_up_down [OF assms(1) p, of nic] by (metis prod.collapse)
  show ?case
  proof (cases "left = 0")
    case True
    then show ?thesis using print_links_down [OF assms(1) p] up by (simp add: link_loop_print MAX_CHECK_TIME_def)
  next
    case False
    then have "MAX_CHECK_TIME - Suc left \<noteq> MAX_CHECK_TIME - 1" by (simp add: MAX_CHECK_TIME_def)
    with False show ?thesis using Suc.IH up by simp
  qed
qed simp

lemma all_links_up_up:
  assumes "\<And>p nic. link_status (fst (eth_link_get_nowait api (of_nat p) nic))"
  shows "fst (all_links_up api ps nic)" and "\<forall>l\<in>set (fst (links_now api ps nic)). link_status l"
proof (induction ps arbitrary: nic)
  case (Cons q ps)
  case 1
  from assms [of q nic] Cons(1) show ?case by (auto simp: case_prod_beta)
  case 2
  from assms [of q nic] Cons(2) show ?case by (auto simp: case_prod_beta)
qed simp_all

text \<open>The link report always ends. If all links are up it consists of one line per port, written
  within the buffers. If some port stays down, the code writes the line "Port n Link Down" with its
  terminator into a buffer that has no room for the terminator, one byte past its end.\<close>
theorem link_report:
  shows "((\<forall>p nic. link_status (fst (eth_link_get_nowait api (of_nat p) nic))) \<longrightarrow>
      (\<exists>ls nic nic'. links_now api [0..<j_num_ports j] nic = (ls, nic') \<and>
        nat_check_ports_link_status api j = Inr (List.concat (map2 (\<lambda>p l. snd (link_line p l)) [0..<j_num_ports j] ls),
          j\<lparr>j_nic := nic'\<rparr>))) \<and>
    (p < j_num_ports j \<and> (\<forall>nic. \<not> link_status (fst (eth_link_get_nowait api (of_nat p) nic))) \<longrightarrow>
      (\<exists>n. nat_check_ports_link_status api j = Inl (Heap_overflow n (n + 1))))"
proof (intro conjI impI)
  assume up: "\<forall>p nic. link_status (fst (eth_link_get_nowait api (of_nat p) nic))"
  let ?ps = "[0..<j_num_ports j]"
  obtain nic1 where n1: "all_links_up api ?ps (j_nic j) = (True, nic1)"
    using all_links_up_up(1) [of api ?ps "j_nic j"] up by (metis prod.collapse)
  obtain ls nic2 where n2: "links_now api ?ps nic1 = (ls, nic2)" by force
  have "\<forall>l\<in>set ls. link_status l" using all_links_up_up(2) [of api ?ps nic1] up n2 by simp
  from print_links_up [OF n2 this, of "[]"]
  have "print_links api ?ps [] nic1 = Inr (List.concat (map2 (\<lambda>p l. snd (link_line p l)) ?ps ls), nic2)"
    by simp
  then have "link_loop api MAX_CHECK_TIME False (j_num_ports j) [] (j_nic j)
      = Inr (List.concat (map2 (\<lambda>p l. snd (link_line p l)) ?ps ls), nic2)"
    using n1 by (simp add: MAX_CHECK_TIME_def numeral_eq_Suc link_loop_print)
  with n2 show "\<exists>ls nic nic'. links_now api ?ps nic = (ls, nic') \<and>
      nat_check_ports_link_status api j = Inr (List.concat (map2 (\<lambda>p l. snd (link_line p l)) ?ps ls), j\<lparr>j_nic := nic'\<rparr>)"
    by (auto simp: nat_check_ports_link_status_def)
next
  assume "p < j_num_ports j \<and> (\<forall>nic. \<not> link_status (fst (eth_link_get_nowait api (of_nat p) nic)))"
  then show "\<exists>n. nat_check_ports_link_status api j = Inl (Heap_overflow n (n + 1))"
    using link_loop_down [of api p "j_num_ports j" MAX_CHECK_TIME "[]" "j_nic j"]
    by (auto simp: nat_check_ports_link_status_def MAX_CHECK_TIME_def)
qed

definition down_api :: "nat ethdev_api" where
  "down_api = sample_api\<lparr>eth_link_get_nowait := (\<lambda>p s. (\<lparr>link_speed = 0, link_duplex = 1, link_status = False\<rparr>, s))\<rparr>"

theorem link_report_witness:
  "\<exists>n. nat_check_ports_link_status down_api sample_jni = Inl (Heap_overflow n (n + 1))"
  using link_report [of down_api sample_jni 0] by (simp add: down_api_def sample_jni_def)

text \<open>The MAC report stays within its buffers exactly when there is no port: for every port the
  line break and its terminator, two bytes, are copied into a buffer shrunk to one byte.\<close>
theorem mac_info_overflow:
  "nat_get_mac_info api j = (if j_num_ports j = 0 then Inr [] else Inl (Heap_overflow 1 2))"
  by (cases "j_num_ports j") (simp_all add: nat_get_mac_info_def upt_conv_Cons store_string_def NL_def
      del: upt_Suc)

section \<open>Statistics\<close>

text \<open>Whatever the counters do between the rounds, also when they wrap around, the byte and
  packet differences printed by the statistics loop add up to the change of the counters from the start
  to the last reading.\<close>
theorem stats_telescope:
  "(case nat_start_stats api n j of (ls, j') \<Rightarrow>
     sum_list (map diff_bytes ls) = j_pre_ibytes j' - j_pre_ibytes j \<and>
     sum_list (map diff_packets ls) = j_pre_ipackets j' - j_pre_ipackets j \<and>
     sum_list (map diff_missed ls) = j_pre_imissed j' - j_pre_imissed j \<and>
     sum_list (map diff_errors ls) = j_pre_ierrors j' - j_pre_ierrors j \<and>
     sum_list (map diff_opackets ls) = j_pre_opackets j' - j_pre_opackets j)"
proof (induction n arbitrary: j)
  case (Suc n)
  obtain stats nic where s: "eth_stats_get api 0 (delay_ms api 1000 (j_nic j)) = (stats, nic)" by force
  let ?j = "snd (do_stats api (j\<lparr>j_nic := delay_ms api 1000 (j_nic j)\<rparr>))"
  show ?case using Suc [of ?j] by (auto simp: Let_def do_stats_def s split: prod.splits)
qed simp

end
