(* ===== verification/Dpdk_Access_R.thy ===== *)
theory Dpdk_Access_R
  imports Dpdk_Access_Spec
begin

text \<open>
  The second version of the JNI layer, \<open>apps/DpdkJava-R/src/DpdkAccess.c\<close>, where it differs from
  \<open>Dpdk_Access\<close>: the EAL start without the memory option, the socket passed in by the Java side, and a
  receive burst of fixed size. All other functions are the same text as in \<open>Dpdk_Access\<close>.
\<close>

section \<open>Operations\<close>

text \<open>\<open>argc\<close> is lowered by two, but the blacklist entries keep their places from 9 on.\<close>

definition eal_argv_R :: "'n jni \<Rightarrow> c_error + string option list" where
  "eal_argv_R j =
     (let argc = 1 + 2 + 2 + 2 + 2 + 2 * length (j_blacklist j);
          argv = replicate argc None
      in case set_args
                ([(0, j_program_name j), (1, Some ''-c''), (2, Some ''0x1''), (3, Some ''-n''),
                  (4, j_memory_channels j), (5, Some ''--file-prefix''), (6, j_program_id j)] @
                 blacklist_args (j_blacklist j)) argv of
           Inl e \<Rightarrow> Inl e
         | Inr argv \<Rightarrow> (let argc = argc - 2 in Inr (take argc argv)))"

definition nat_init_eal_R :: "(string option list \<Rightarrow> int) \<Rightarrow> 'n jni \<Rightarrow> c_error + int" where
  "nat_init_eal_R eal_init j =
     map_sum id (\<lambda>argv. if eal_init argv < 0 then ERROR else SUCCESS) (eal_argv_R j)"

definition nat_create_mempool_R ::
  "mem_env \<Rightarrow> alloc_env \<Rightarrow> u32 \<Rightarrow> string \<Rightarrow> int \<Rightarrow> int \<Rightarrow> int \<Rightarrow> 'n jni \<Rightarrow> int \<times> 'n jni" where
  "nat_create_mempool_R env al lcore name num_el cache_size socket_id j =
     (let (mp, w) = rte_mempool_create env al lcore name (word_of_int num_el) MBUF_SIZE
                      (word_of_int cache_size) 2 (Some (rte_pktmbuf_pool_init 0))
                      (Some (rte_pktmbuf_init env)) socket_id 0 (j_world j);
          j = j\<lparr>j_world := w, j_pktmbuf_pool := (case mp of None \<Rightarrow> 0 | Some a \<Rightarrow> a)\<rparr>
      in (if mp = None then ERROR else SUCCESS, j))"

definition nat_configure_rx_queue_R :: "'n ethdev_api \<Rightarrow> int \<Rightarrow> int \<Rightarrow> int \<Rightarrow> 'n jni \<Rightarrow> int \<times> 'n jni" where
  "nat_configure_rx_queue_R api port_id rx_id socket_id j =
     ret_code (eth_rx_queue_setup api (word_of_int port_id) (word_of_int rx_id) 2048 (word_of_int socket_id)
       (j_pktmbuf_pool j) (j_nic j)) j"

definition nat_configure_tx_queue_R :: "'n ethdev_api \<Rightarrow> int \<Rightarrow> int \<Rightarrow> int \<Rightarrow> 'n jni \<Rightarrow> int \<times> 'n jni" where
  "nat_configure_tx_queue_R api port_id tx_id socket_id j =
     ret_code (eth_tx_queue_setup api (word_of_int port_id) (word_of_int tx_id) 2048 (word_of_int socket_id)
       (j_nic j)) j"

definition nat_receive_burst_R :: "'n ethdev_api \<Rightarrow> u64 \<Rightarrow> int \<Rightarrow> int \<Rightarrow> 'n jni \<Rightarrow> c_error + 'n jni" where
  "nat_receive_burst_R api mem_pointer port_id rx_id j =
     (case eth_rx_burst api (word_of_int port_id) (word_of_int rx_id) 512 (j_nic j, j_world j) of
        (pkts, nic, w) \<Rightarrow>
          if length pkts > 512 then Inl (Stack_overflow 512 (length pkts))
          else (let packet_count = of_nat (length pkts) :: u16;
                    m = insert16 mem_pointer 0 packet_count (j_mem j);
                    m = (if packet_count > 0 then write_packets w mem_pointer 2 pkts m else m)
                in Inr (j\<lparr>j_nic := nic, j_world := w, j_mem := m\<rparr>)))"

section \<open>The EAL arguments\<close>

lemma eal_argv_R_eq:
  assumes "j_program_name j = Some pn" "j_memory_channels j = Some ch" "j_program_id j = Some pid"
    and "\<forall>s \<in> {pn, ch, pid} \<union> set (j_blacklist j). length s < 120"
  shows "eal_argv_R j = Inr (take (7 + 2 * length (j_blacklist j))
      (map Some [pn, ''-c'', ''0x1'', ''-n'', ch, ''--file-prefix'', pid] @ [None, None] @
       map Some (blacklist_opts (j_blacklist j))))"
proof -
  let ?pre = "map Some [pn, ''-c'', ''0x1'', ''-n'', ch, ''--file-prefix'', pid] @ [None, None]"
  let ?n = "2 * length (j_blacklist j)"
  have r: "replicate (9 + ?n) (None :: string option) = replicate 9 None @ replicate ?n None"
    by (simp only: replicate_add)
  have 9: "replicate 9 (None :: string option) = [None, None, None, None, None, None, None, None, None]"
    by (simp add: numeral_eq_Suc)
  have a: "set_args [(0, Some pn), (1, Some ''-c''), (2, Some ''0x1''), (3, Some ''-n''), (4, Some ch),
      (5, Some ''--file-prefix''), (6, Some pid)] (replicate 9 None @ replicate ?n None) = Inr (?pre @ replicate ?n None)"
    using assms(4) by (simp add: 9 set_arg_fits numeral_eq_Suc)
  have b: "set_args (blacklist_args (j_blacklist j)) (?pre @ replicate ?n None)
      = Inr (?pre @ map Some (blacklist_opts (j_blacklist j)))"
    using set_blacklist_args [of "j_blacklist j" ?pre "[]"] assms(4) by simp
  have argc: "1 + 2 + 2 + 2 + 2 + ?n = 9 + ?n" by simp
  show ?thesis
    unfolding eal_argv_R_def Let_def assms(1-3) argc r set_args_append a sum.case b by simp
qed

text \<open>Without blacklisted ports the second version starts the EAL with a correct argument vector.
  With any, entries 7 and 8 of the vector are uninitialised memory and the last blacklisted port is
  left out: the blacklist entries are written two places too far.\<close>
theorem eal_argv_R_blacklist:
  assumes "j_program_name j = Some pn" "j_memory_channels j = Some ch" "j_program_id j = Some pid"
    and "\<forall>s \<in> {pn, ch, pid} \<union> set (j_blacklist j). length s < 120"
  shows "\<exists>argv. eal_argv_R j = Inr argv \<and>
    (j_blacklist j = [] \<longrightarrow> argv = map Some [pn, ''-c'', ''0x1'', ''-n'', ch, ''--file-prefix'', pid]) \<and>
    (j_blacklist j \<noteq> [] \<longrightarrow> argv ! 7 = None \<and> argv ! 8 = None \<and>
       drop 9 argv = map Some (List.concat (map (\<lambda>b. [''-b'', b]) (butlast (j_blacklist j)))))"
proof (cases "j_blacklist j" rule: rev_cases)
  case Nil
  with eal_argv_R_eq [OF assms] show ?thesis by simp
next
  case (snoc bl b)
  have "blacklist_opts (bl @ [b]) = blacklist_opts bl @ [''-b'', b]" by (simp add: blacklist_opts_def)
  moreover have "length (blacklist_opts bl) = 2 * length bl" by (rule length_blacklist_opts)
  ultimately show ?thesis using eal_argv_R_eq [OF assms] snoc
    by (simp add: blacklist_opts_def [symmetric] drop_take)
qed

theorem eal_argv_R_blacklist_witness:
  "\<exists>argv. eal_argv_R sample_jni = Inr argv \<and> argv ! 7 = None \<and> argv ! 8 = None \<and> drop 9 argv = []"
  using eal_argv_R_blacklist [of sample_jni "''app''" "''4''" "''id0''"] by (auto simp: sample_jni_def)

end
