(* ===== verification/Firewall.thy ===== *)
theory Firewall
  imports Dpdk_Access_Spec
begin

text \<open>
  The C firewall, \<open>apps/c_apps/firewall/main.c\<close>: packets are received in bursts, those whose IPv4
  destination address is on the blacklist are freed, the others are collected and sent in bursts of
  512, and packets the driver does not take are freed. \<open>fw\<close> holds the file's global variables, the
  packet buffers, the device state and the byte memory the packets' data is in. A result is an error
  value where the C code dereferences NULL, and \<open>None\<close> where a call does not return.
\<close>

section \<open>State\<close>

record 'n fw =
  fw_world :: mbuf_world
  fw_nic :: 'n
  fw_mem :: memory
  fw_send_len :: u32
  fw_send_list :: "u64 carray"
  fw_pre_ibytes :: u64
  fw_pre_ipackets :: u64

definition MAX_PKT_BURST :: u32 where "MAX_PKT_BURST = 512"
definition MAX_PKT_SIZE :: u32 where "MAX_PKT_SIZE = 2 * 1024 + 128 + 128"
definition NB_RX_DESC :: u16 where "NB_RX_DESC = 256"
definition NB_TX_DESC :: u16 where "NB_TX_DESC = 256"

definition blacklist :: "u32 list" where "blacklist = [0, 1]"

section \<open>Sending and freeing\<close>

definition free_packet :: "mem_env \<Rightarrow> u32 \<Rightarrow> u64 \<Rightarrow> 'n fw \<Rightarrow> 'n fw option" where
  "free_packet env lcore m s = map_option (\<lambda>w. s\<lparr>fw_world := w\<rparr>) (rte_pktmbuf_free env lcore m (fw_world s))"

text \<open>The do-while loop over the packets the driver left, from index \<open>ret\<close>.\<close>

function free_unsent :: "mem_env \<Rightarrow> u32 \<Rightarrow> u32 \<Rightarrow> 'n fw \<Rightarrow> 'n fw option" where
  "free_unsent env lcore ret s =
     (if ret < MAX_PKT_BURST
      then Option.bind (free_packet env lcore (fw_send_list s ret) s) (free_unsent env lcore (ret + 1))
      else Some s)"
  by pat_completeness auto
termination
  by (relation "measure (\<lambda>(env, lcore, ret, s). unat MAX_PKT_BURST - unat ret)")
    (auto simp: unat_Suc_of_less word_less_nat_alt)

declare free_unsent.simps [simp del]

definition send_burst :: "mem_env \<Rightarrow> 'n ethdev_api \<Rightarrow> u32 \<Rightarrow> 'n fw \<Rightarrow> 'n fw option" where
  "send_burst env api lcore s =
     (let i = (if lcore = 1 then 0 else 1) in
      case eth_tx_burst api 0 i (table_list (fw_send_list s) (unat MAX_PKT_BURST)) (fw_nic s, fw_world s) of
        (ret, nic, w) \<Rightarrow>
          (let s = s\<lparr>fw_nic := nic, fw_world := w\<rparr>
           in if ucast ret < MAX_PKT_BURST then free_unsent env lcore (ucast ret) s else Some s))"

definition send_packet :: "mem_env \<Rightarrow> 'n ethdev_api \<Rightarrow> u32 \<Rightarrow> u64 \<Rightarrow> 'n fw \<Rightarrow> 'n fw option" where
  "send_packet env api lcore m s =
     (let len = fw_send_len s;
          s = s\<lparr>fw_send_list := (fw_send_list s)(len := m)\<rparr>;
          len = len + 1
      in if len = MAX_PKT_BURST
         then map_option (\<lambda>s. s\<lparr>fw_send_len := 0\<rparr>) (send_burst env api lcore s)
         else Some (s\<lparr>fw_send_len := len\<rparr>))"

section \<open>The receive loop\<close>

text \<open>\<open>rte_be_to_cpu_32\<close> on the little-endian machine.\<close>

definition rte_be_to_cpu_32 :: "u32 \<Rightarrow> u32" where
  "rte_be_to_cpu_32 x =
     push_bit 24 (x AND 0xFF) OR push_bit 8 (x AND 0xFF00) OR (drop_bit 8 x AND 0xFF00) OR drop_bit 24 x"

text \<open>
  One packet: the Ethernet header is removed, the destination address, at offset 16 of the IPv4
  header, looked up, and the packet sent or freed.
\<close>

definition blacklisted :: "u32 \<Rightarrow> bool" where
  "blacklisted dest_addr = fold (\<lambda>a drop. if a = dest_addr then True else drop) blacklist False"

definition handle_packet ::
  "mem_env \<Rightarrow> 'n ethdev_api \<Rightarrow> u32 \<Rightarrow> u64 \<Rightarrow> 'n fw \<Rightarrow> (c_error + 'n fw) option" where
  "handle_packet env api lcore m s =
     (let (iphdr, w) = rte_pktmbuf_adj m 14 (fw_world s);
          s = s\<lparr>fw_world := w\<rparr>
      in if iphdr = 0 then Some (Inl Null_pointer)
         else (let dest_addr = rte_be_to_cpu_32 (get32 (fw_mem s) iphdr 16)
               in map_option Inr
                    (if blacklisted dest_addr then free_packet env lcore m s
                     else send_packet env api lcore m s)))"

fun handle_packets ::
  "mem_env \<Rightarrow> 'n ethdev_api \<Rightarrow> u32 \<Rightarrow> u64 list \<Rightarrow> 'n fw \<Rightarrow> (c_error + 'n fw) option" where
  "handle_packets env api lcore [] s = Some (Inr s)"
| "handle_packets env api lcore (m # ms) s =
     (case handle_packet env api lcore m s of
        Some (Inr s) \<Rightarrow> handle_packets env api lcore ms s
      | r \<Rightarrow> r)"

text \<open>
  One iteration of the endless loop. The count returned by the driver is an unsigned 16-bit number, so
  the branch for a negative count is never taken.
\<close>

definition main_round :: "mem_env \<Rightarrow> 'n ethdev_api \<Rightarrow> u32 \<Rightarrow> 'n fw \<Rightarrow> (c_error + 'n fw) option" where
  "main_round env api lcore s =
     (let b = (if lcore = 1 then 0 else 1) in
      case eth_rx_burst api 0 b (ucast MAX_PKT_BURST) (fw_nic s, fw_world s) of
        (rx_mbufs, nic, w) \<Rightarrow> handle_packets env api lcore rx_mbufs (s\<lparr>fw_nic := nic, fw_world := w\<rparr>))"

fun main_loop :: "mem_env \<Rightarrow> 'n ethdev_api \<Rightarrow> u32 \<Rightarrow> nat \<Rightarrow> 'n fw \<Rightarrow> (c_error + 'n fw) option" where
  "main_loop env api lcore 0 s = Some (Inr s)"
| "main_loop env api lcore (Suc n) s =
     (case main_round env api lcore s of
        Some (Inr s) \<Rightarrow> main_loop env api lcore n s
      | r \<Rightarrow> r)"

definition fw_do_stats :: "'n ethdev_api \<Rightarrow> 'n fw \<Rightarrow> (u64 \<times> u64) \<times> 'n fw" where
  "fw_do_stats api s =
     (let (stats, nic) = eth_stats_get api 0 (fw_nic s)
      in ((st_ibytes stats - fw_pre_ibytes s, st_ipackets stats - fw_pre_ipackets s),
          s\<lparr>fw_nic := nic, fw_pre_ibytes := st_ibytes stats, fw_pre_ipackets := st_ipackets stats\<rparr>))"

section \<open>Start-up\<close>

text \<open>
  The outcome of \<open>main\<close>: a panic, an exit with the failing step, or the main timer loop, with the
  lcores on which the receive loop was started. The calls write the buffers' world and the devices.
\<close>

datatype startup = Panic_eal | Exit_failure string | Running "u32 list"

definition launch_cores :: "u32 \<Rightarrow> (u32 \<Rightarrow> bool) \<Rightarrow> u32 list" where
  "launch_cores master enabled = filter (\<lambda>a. a \<noteq> master \<and> enabled a) (map of_nat [0..<32])"

definition start_port ::
  "'n ethdev_api \<Rightarrow> u32 \<Rightarrow> (u32 \<Rightarrow> bool) \<Rightarrow> 'n \<Rightarrow> startup \<times> 'n" where
  "start_port api master enabled nic =
     (let (ret, nic) = eth_dev_start api 0 nic in
      if ret < 0 then (Exit_failure ''rte_eth_dev_start'', nic)
      else (let (link, nic) = eth_link_get api 0 nic in
            if \<not> link_status link then (Exit_failure ''DPDK interface is down'', nic)
            else (Running (launch_cores master enabled),
                  delay_ms api 1000 (eth_promiscuous_enable api 0 nic))))"

definition setup_queues ::
  "'n ethdev_api \<Rightarrow> u64 \<Rightarrow> 'n \<Rightarrow> (string + unit) \<times> 'n" where
  "setup_queues api rx_pool nic =
     (let (ret, nic) = eth_rx_queue_setup api 0 0 NB_RX_DESC 1 rx_pool nic in
      if ret < - 1 then (Inl ''rte_eth_rx_dev_queue_setup'', nic)
      else (let (ret, nic) = eth_rx_queue_setup api 0 1 NB_RX_DESC 1 rx_pool nic in
      if ret < - 1 then (Inl ''2 probs'', nic)
      else (let (ret, nic) = eth_tx_queue_setup api 0 0 NB_TX_DESC 1 nic in
      if ret < 0 then (Inl ''rte_eth_tx_queue_setup'', nic)
      else (let (ret, nic) = eth_tx_queue_setup api 0 1 NB_TX_DESC 1 nic in
      if ret < 0 then (Inl ''rte_eth_tx_queue_setup'', nic)
      else (Inr (), nic)))))"

definition firewall_main ::
  "mem_env \<Rightarrow> alloc_env \<Rightarrow> 'n ethdev_api \<Rightarrow> int \<Rightarrow> u32 \<Rightarrow> (u32 \<Rightarrow> bool) \<Rightarrow> 'n \<times> mbuf_world \<Rightarrow>
   startup \<times> 'n \<times> mbuf_world" where
  "firewall_main env al api eal_ret master enabled st =
     (let (nic, w) = st in
      if eal_ret < 0 then (Panic_eal, nic, w)
      else (let (ret, nic) = eth_dev_configure api 0 2 2 nic in
      if ret < 0 then (Exit_failure ''Cannot configure device'', nic, w)
      else (let (rx_pool, w) = rte_mempool_create env al master ''rx_pool'' (16 * 1024) MAX_PKT_SIZE 0 2
                  (Some (rte_pktmbuf_pool_init 0)) (Some (rte_pktmbuf_init env)) 1 0 w in
      case rx_pool of
        None \<Rightarrow> (Exit_failure ''rte_mempool_create'', nic, w)
      | Some p \<Rightarrow>
          (case setup_queues api p nic of
             (Inl e, nic) \<Rightarrow> (Exit_failure e, nic, w)
           | (Inr _, nic) \<Rightarrow>
               (case start_port api master enabled nic of (r, nic) \<Rightarrow> (r, nic, w))))))"

end
