(* ===== verification/Firewall_Spec.thy ===== *)
theory Firewall_Spec
  imports Firewall
begin

text \<open>
  Properties of the C firewall: the verdict on one packet and the release of a burst the driver did not
  take whole. \<open>Firewall_Port\<close> follows the packets over any number of rounds of the receive loop.
\<close>

section \<open>Bursts\<close>

lemma blacklisted_iff: "blacklisted d \<longleftrightarrow> d = 0 \<or> d = 1"
  by (auto simp: blacklisted_def blacklist_def)

lemma free_unsent_eq:
  fixes s :: "'n fw"
  assumes "r \<le> 512"
  shows "free_unsent env lcore (of_nat r) s =
    map_option (\<lambda>w. s\<lparr>fw_world := w\<rparr>)
      (free_all env lcore (map (\<lambda>i. fw_send_list s (of_nat i)) [r..<512]) (fw_world s))"
  using assms
proof (induction "512 - r" arbitrary: r s)
  case 0
  then show ?case by (simp add: free_unsent.simps MAX_PKT_BURST_def)
next
  case (Suc k)
  then have r: "r < 512" and lt: "(of_nat r :: u32) < MAX_PKT_BURST"
    by (simp_all add: MAX_PKT_BURST_def word_less_nat_alt unat_of_nat)
  have up: "[r..<512] = r # [Suc r..<512]" using r by (simp add: upt_rec)
  have IH: "free_unsent env lcore (of_nat r + 1) t = map_option (\<lambda>w. t\<lparr>fw_world := w\<rparr>)
      (free_all env lcore (map (\<lambda>i. fw_send_list t (of_nat i)) [Suc r..<512]) (fw_world t))" for t :: "'n fw"
    using Suc.hyps(1) [of "Suc r" t] Suc.hyps(2) r by (simp add: add.commute)
  show ?case
    unfolding free_unsent.simps [of env lcore "of_nat r"] up
    by (cases "rte_pktmbuf_free env lcore (fw_send_list s (of_nat r)) (fw_world s)")
      (simp_all add: lt free_packet_def IH option.map_comp comp_def)
qed

definition pending :: "'n fw \<Rightarrow> u64 list" where
  "pending s = table_list (fw_send_list s) (unat (fw_send_len s))"

lemma drop_table_list: "drop r (table_list t n) = map (\<lambda>i. t (of_nat i)) [r..<n]"
  by (simp add: table_list_def drop_map)

text \<open>The burst handed to the driver and the packets it leaves.\<close>

lemma send_burst_eq:
  assumes "eth_tx_burst api 0 (if lcore = 1 then 0 else 1) (table_list (fw_send_list s) 512) (fw_nic s, fw_world s)
    = (ret, nic, w)"
  shows "send_burst env api lcore s = map_option (\<lambda>w'. s\<lparr>fw_nic := nic, fw_world := w'\<rparr>)
    (free_all env lcore (drop (unat ret) (table_list (fw_send_list s) 512)) w)"
proof -
  have "(ucast ret :: u32) = of_nat (unat ret)" by (simp add: unsigned_ucast_eq)
  moreover have "(ucast ret :: u32) < MAX_PKT_BURST \<longleftrightarrow> unat ret < 512"
    by (simp add: MAX_PKT_BURST_def word_less_nat_alt)
  ultimately show ?thesis
    using assms free_unsent_eq [of "unat ret" env lcore "s\<lparr>fw_nic := nic, fw_world := w\<rparr>"]
    by (simp add: send_burst_def Let_def MAX_PKT_BURST_def drop_table_list option.map_comp comp_def)
qed

lemma table_list_snoc:
  assumes "n < 2 ^ 32" shows "table_list (t(of_nat n := m)) (Suc n) = table_list t n @ [m]"
proof -
  have "(of_nat i :: u32) \<noteq> of_nat n" if "i < n" for i
  proof
    assume "(of_nat i :: u32) = of_nat n"
    then have "unat (of_nat i :: u32) = unat (of_nat n :: u32)" by simp
    with that assms show False by (simp add: unat_of_nat)
  qed
  then show ?thesis by (simp add: table_list_def)
qed


lemma table_list_take:
  assumes "k \<le> n" shows "take k (table_list t n) = table_list t k"
  using assms by (simp add: table_list_def take_map)

section \<open>The verdict\<close>

lemma send_packet_eq:
  assumes "fw_send_len s < 512"
  shows "send_packet env api lcore m s =
    (if length (pending s) < 511
     then Some (s\<lparr>fw_send_list := (fw_send_list s)(fw_send_len s := m), fw_send_len := fw_send_len s + 1\<rparr>)
     else (case eth_tx_burst api 0 (if lcore = 1 then 0 else 1) (pending s @ [m]) (fw_nic s, fw_world s) of
       (ret, nic, w) \<Rightarrow> map_option (\<lambda>w'. s\<lparr>fw_send_list := (fw_send_list s)(fw_send_len s := m),
            fw_nic := nic, fw_world := w', fw_send_len := 0\<rparr>)
          (free_all env lcore (drop (unat ret) (pending s @ [m])) w)))"
proof -
  let ?n = "unat (fw_send_len s)"
  have n: "?n < 512" using assms by (simp add: word_less_nat_alt)
  have full: "fw_send_len s + 1 = MAX_PKT_BURST \<longleftrightarrow> \<not> ?n < 511"
  proof
    assume "fw_send_len s + 1 = MAX_PKT_BURST"
    then have "fw_send_len s = 511" by (simp add: MAX_PKT_BURST_def eq_diff_eq [symmetric])
    then show "\<not> ?n < 511" by simp
  next
    assume "\<not> ?n < 511"
    with n have "?n = unat (511 :: u32)" by simp
    then have "fw_send_len s = 511" by (simp only: word_unat_eq_iff)
    then show "fw_send_len s + 1 = MAX_PKT_BURST" by (simp add: MAX_PKT_BURST_def)
  qed
  have len: "length (pending s) = ?n" by (simp add: pending_def table_list_def)
  have burst: "table_list ((fw_send_list s)(fw_send_len s := m)) 512 = pending s @ [m]" if "\<not> ?n < 511"
  proof -
    from that n have "Suc ?n = 512" by simp
    with table_list_snoc [of ?n "fw_send_list s" m] show ?thesis by (simp add: pending_def)
  qed
  show ?thesis
  proof (cases "?n < 511")
    case False
    obtain ret nic w where tx: "eth_tx_burst api 0 (if lcore = 1 then 0 else 1) (pending s @ [m])
        (fw_nic s, fw_world s) = (ret, nic, w)" by (metis prod_cases3)
    let ?s = "s\<lparr>fw_send_list := (fw_send_list s)(fw_send_len s := m)\<rparr>"
    from send_burst_eq [of api lcore ?s ret nic w env] tx burst [OF False]
    have "send_burst env api lcore ?s = map_option (\<lambda>w'. ?s\<lparr>fw_nic := nic, fw_world := w'\<rparr>)
        (free_all env lcore (drop (unat ret) (pending s @ [m])) w)" by simp
    with False tx full show ?thesis
      by (simp add: send_packet_def Let_def len option.map_comp comp_def)
  qed (simp add: send_packet_def Let_def len full)
qed


text \<open>The destination address as the four bytes of the header, most significant first.\<close>

lemma be_to_cpu_bytes:
  "rte_be_to_cpu_32 (join 4 f) = join 4 (\<lambda>i. f (3 - i))"
proof (rule bit_word_eqI)
  have m: "(0xFF :: u32) = mask 8" "(0xFF00 :: u32) = push_bit 8 (mask 8)"
    by (simp_all add: mask_eq_decr_exp push_bit_eq_mult)
  fix k assume "k < LENGTH(32)"
  then obtain q r where k: "k = 8 * q + r" "r < 8" and "q < 4"
    by (intro that [of "k div 8" "k mod 8"]) auto
  from k(2) have dm: "(24 + r) div 8 = 3" "(24 + r) mod 8 = r" "(16 + r) div 8 = 2" "(16 + r) mod 8 = r"
    "(8 + r) div 8 = 1" "(8 + r) mod 8 = r" by presburger+
  from \<open>q < 4\<close> consider "q = 0" | "q = 1" | "q = 2" | "q = 3" by linarith
  then show "bit (rte_be_to_cpu_32 (join 4 f)) k = bit (join 4 (\<lambda>i. f (3 - i)) :: u32) k"
    using k unfolding rte_be_to_cpu_32_def m
    by cases (simp_all add: bit_or_iff bit_and_iff bit_push_bit_iff bit_drop_bit_eq bit_mask_iff bit_join dm
        del: join_numeral)
qed


lemma join4_eq: "(join 4 f :: u32) = v \<longleftrightarrow> (\<forall>i < 4. f i = byte_of v i)"
proof
  assume "join 4 f = v"
  then show "\<forall>i < 4. f i = byte_of v i" using byte_of_join [of _ 4 f, where 'a = 32] by (auto simp del: join_numeral)
next
  assume "\<forall>i < 4. f i = byte_of v i"
  then show "join 4 f = v" by (intro join_byte_of) simp_all
qed

definition dest_bytes :: "memory \<Rightarrow> u64 \<Rightarrow> u8 list" where
  "dest_bytes mem ip = map (\<lambda>i. mem (ip + of_nat i)) [16, 17, 18, 19]"

lemma blacklisted_dest:
  "blacklisted (rte_be_to_cpu_32 (get32 mem ip 16)) \<longleftrightarrow> dest_bytes mem ip \<in> {[0, 0, 0, 0], [0, 0, 0, 1]}"
proof -
  have all: "(\<forall>i < 4. P i) \<longleftrightarrow> P 0 \<and> P 1 \<and> P 2 \<and> P (3 :: nat)" for P
    by (auto simp: numeral_eq_Suc less_Suc_eq)
  have "rte_be_to_cpu_32 (get32 mem ip 16) = v \<longleftrightarrow>
      map (\<lambda>i. mem (ip + of_nat i)) [16, 17, 18, 19] = [byte_of v 3, byte_of v 2, byte_of v 1, byte_of v 0]" for v
    unfolding get_join be_to_cpu_bytes join4_eq all by (auto simp: at_def)
  then show ?thesis
    by (simp add: blacklisted_iff dest_bytes_def byte_of_def)
qed

text \<open>Removing the Ethernet header.\<close>

definition strip :: "u64 \<Rightarrow> mbuf_world \<Rightarrow> mbuf_world" where
  "strip m w = upd_mb m (\<lambda>x. x\<lparr>m_data_len := m_data_len x - 14, m_data_off := m_data_off x + 14,
     m_pkt_len := m_pkt_len x - 14\<rparr>) w"

definition ip_header :: "mbuf_world \<Rightarrow> u64 \<Rightarrow> u64" where
  "ip_header w m = rte_pktmbuf_mtod (mb (strip m w) m)"

lemma strip_frame:
  "w_pools (strip m w) = w_pools w" "chain (strip m w) a cs = chain w a cs"
  "last_refs (strip m w) p as = last_refs w p as"
  "RTE_MBUF_DIRECT (mb (strip m w) a) = RTE_MBUF_DIRECT (mb w a)"
  "m_refcnt (mb (strip m w) a) = m_refcnt (mb w a)" "m_next (mb (strip m w) a) = m_next (mb w a)" "pools_ok (strip m w) = pools_ok w"
proof -
  show "chain (strip m w) a cs = chain w a cs"
    by (induction cs arbitrary: a) (auto simp: strip_def)
  show "last_refs (strip m w) p as = last_refs w p as"
    unfolding last_refs_def by (rule arg_cong [where f = mset], rule filter_cong) (auto simp: strip_def)
qed (auto simp: strip_def RTE_MBUF_DIRECT_def RTE_MBUF_INDIRECT_def pools_ok_def)

lemma handle_packet_eq:
  assumes "14 \<le> m_data_len (mb (fw_world s) m)" and "ip_header (fw_world s) m \<noteq> 0"
  shows "handle_packet env api lcore m s = map_option Inr
    (if dest_bytes (fw_mem s) (ip_header (fw_world s) m) \<in> {[0, 0, 0, 0], [0, 0, 0, 1]}
     then free_packet env lcore m (s\<lparr>fw_world := strip m (fw_world s)\<rparr>)
     else send_packet env api lcore m (s\<lparr>fw_world := strip m (fw_world s)\<rparr>))"
proof -
  have "rte_pktmbuf_adj m 14 (fw_world s) = (ip_header (fw_world s) m, strip m (fw_world s))"
    using assms(1) by (auto simp: rte_pktmbuf_adj_def ip_header_def strip_def Let_def)
  with assms(2) show ?thesis by (simp add: handle_packet_def Let_def blacklisted_dest)
qed

lemma handle_packet_short:
  "m_data_len (mb (fw_world s) m) < 14 \<Longrightarrow> handle_packet env api lcore m s = Some (Inl Null_pointer)"
  by (simp add: handle_packet_def rte_pktmbuf_adj_def)

text \<open>Packets whose segments are direct, live and fit in the pools they come from.\<close>

definition releasable :: "mbuf_world \<Rightarrow> u64 list list \<Rightarrow> bool" where
  "releasable w css \<longleftrightarrow> distinct (List.concat css) \<and>
     (\<forall>a\<in>set (List.concat css). RTE_MBUF_DIRECT (mb w a) \<and> m_refcnt (mb w a) \<noteq> 0) \<and> pools_ok w \<and>
     (\<forall>p. size (pool_free (w_pools w p)) + size (last_refs w p (List.concat css)) \<le> unat (mp_size (w_pools w p)))"

lemma free_all_releasable:
  assumes "list_all2 (chain w) ps css" and "releasable w css"
  shows "\<exists>w'. free_all env lcore ps w = Some w' \<and> pools_ok w' \<and>
    (\<forall>p. pool_free (w_pools w' p) = pool_free (w_pools w p) + last_refs w p (List.concat css))"
  using free_all_ok [OF assms(1), of env lcore] assms(2) unfolding releasable_def by auto

lemma releasable_strip: "releasable (strip m w) css = releasable w css"
  by (simp add: releasable_def strip_frame)

text \<open>C29: A packet of at least 14 bytes of data is dropped exactly when the four destination bytes of
  its IPv4 header are 0.0.0.0 or 0.0.0.1: it is freed, its segments going back to their pools, and
  the send list is unchanged. Otherwise, while the list holds fewer than 511 packets, it is appended
  to the list, its header removed, and nothing else changes. A shorter packet makes the loop
  dereference the NULL that \<open>rte_pktmbuf_adj\<close> returns.\<close>
theorem firewall_verdict:
  assumes "fw_send_len s < 511" and "ip_header (fw_world s) m \<noteq> 0"
    and "chain (fw_world s) m cs" and "releasable (fw_world s) [cs]"
  shows "if m_data_len (mb (fw_world s) m) < 14 then handle_packet env api lcore m s = Some (Inl Null_pointer)
    else \<exists>s'. handle_packet env api lcore m s = Some (Inr s') \<and>
      (if dest_bytes (fw_mem s) (ip_header (fw_world s) m) \<in> {[0, 0, 0, 0], [0, 0, 0, 1]}
       then pending s' = pending s \<and> fw_nic s' = fw_nic s \<and>
         (\<forall>p. pool_free (w_pools (fw_world s') p) = pool_free (w_pools (fw_world s) p) + last_refs (fw_world s) p cs)
       else pending s' = pending s @ [m] \<and> fw_nic s' = fw_nic s \<and> fw_world s' = strip m (fw_world s))"
proof (cases "m_data_len (mb (fw_world s) m) < 14")
  case True
  then show ?thesis by (simp add: handle_packet_short)
next
  case False
  let ?s = "s\<lparr>fw_world := strip m (fw_world s)\<rparr>"
  from False have len: "14 \<le> m_data_len (mb (fw_world s) m)" by simp
  note eq = handle_packet_eq [OF len assms(2), of env api lcore]
  have n: "unat (fw_send_len s) < 511" "fw_send_len s < 512" using assms(1) by (auto simp: word_less_nat_alt)
  have pend: "pending ?s = pending s" "length (pending s) = unat (fw_send_len s)"
    by (simp_all add: pending_def table_list_def)
  show ?thesis
  proof (cases "dest_bytes (fw_mem s) (ip_header (fw_world s) m) \<in> {[0, 0, 0, 0], [0, 0, 0, 1]}")
    case True
    have "list_all2 (chain (strip m (fw_world s))) [m] [cs]" using assms(3) by (simp add: strip_frame)
    from free_all_releasable [OF this, of env lcore] assms(4) obtain w' where
      "rte_pktmbuf_free env lcore m (strip m (fw_world s)) = Some w'"
      "\<forall>p. pool_free (w_pools w' p) = pool_free (w_pools (fw_world s) p) + last_refs (fw_world s) p cs"
      by (auto simp: releasable_strip strip_frame bind_eq_Some_conv)
    with True len show ?thesis unfolding eq by (simp add: free_packet_def pending_def)
  next
    case F: False
    have "send_packet env api lcore m ?s =
        Some (?s\<lparr>fw_send_list := (fw_send_list s)(fw_send_len s := m), fw_send_len := fw_send_len s + 1\<rparr>)"
      using send_packet_eq [of ?s env api lcore m] n pend by simp
    moreover have "unat (fw_send_len s + 1) = Suc (unat (fw_send_len s))"
      using n(1) by (simp add: unat_word_ariths)
    ultimately show ?thesis using F len n table_list_snoc [of "unat (fw_send_len s)" "fw_send_list s" m]
      unfolding eq by (simp add: pending_def)
  qed
qed

definition sample_fw :: "nat fw" where
  "sample_fw = \<lparr>fw_world = sample_world, fw_nic = 0, fw_mem = (\<lambda>_. 0), fw_send_len = 0, fw_send_list = (\<lambda>_. 0),
     fw_pre_ibytes = 0, fw_pre_ipackets = 0\<rparr>"

lemma sample_fw_fields: "fw_world sample_fw = sample_world" "fw_mem sample_fw = (\<lambda>_. 0)" "fw_send_len sample_fw = 0"
  "fw_nic sample_fw = 0" "w_pools sample_world p = sample_pool"
  by (simp_all add: sample_fw_def sample_world_def)

lemma sample_releasable: "releasable sample_world [[0x1500]]" "chain sample_world 0x1500 [0x1500]"
  by (simp_all add: releasable_def sample_mbuf_fields RTE_MBUF_DIRECT_def RTE_MBUF_INDIRECT_def pools_ok_def
      sample_world_def sample_pool_ok last_refs_def sample_pool_free sample_pool_fields mb_def)

lemma sample_ip_header: "ip_header sample_world 0x1500 = 0x110E"
  by (simp add: ip_header_def strip_def rte_pktmbuf_mtod_def sample_mbuf_fields)

theorem firewall_verdict_witness:
  "\<exists>s'. handle_packet sample_env sample_api 1 0x1500 sample_fw = Some (Inr s') \<and>
     pool_free (w_pools (fw_world s') 0x100) = add_mset 0x1500 (pool_free sample_pool)"
proof -
  have "last_refs sample_world 0x100 [0x1500] = {#0x1500#}" by (simp add: last_refs_def sample_mbuf_fields)
  then show ?thesis
    using firewall_verdict [of sample_fw "0x1500" "[0x1500]" sample_env sample_api 1] sample_releasable
    by (auto simp: sample_fw_fields sample_ip_header sample_mbuf_fields dest_bytes_def)
qed

text \<open>The packet that fills the send list makes the whole burst of 512 be offered to the driver,
  the earlier packets first; the packets after the ones the driver took are freed, their segments going back
  to their pools, and the list is empty again.\<close>
theorem firewall_flush:
  assumes "length (pending s) = 511" and "14 \<le> m_data_len (mb (fw_world s) m)"
    and "ip_header (fw_world s) m \<noteq> 0"
    and "dest_bytes (fw_mem s) (ip_header (fw_world s) m) \<notin> {[0, 0, 0, 0], [0, 0, 0, 1]}"
    and "eth_tx_burst api 0 (if lcore = 1 then 0 else 1) (pending s @ [m]) (fw_nic s, strip m (fw_world s))
      = (ret, nic, w)"
    and "list_all2 (chain w) (drop (unat ret) (pending s @ [m])) css" and "releasable w css"
  shows "\<exists>s'. handle_packet env api lcore m s = Some (Inr s') \<and> pending s' = [] \<and> fw_nic s' = nic \<and>
    pools_ok (fw_world s') \<and>
    (\<forall>p. pool_free (w_pools (fw_world s') p) = pool_free (w_pools w p) + last_refs w p (List.concat css))"
proof -
  let ?s = "s\<lparr>fw_world := strip m (fw_world s)\<rparr>"
  have len: "unat (fw_send_len s) = 511" using assms(1) by (simp add: pending_def table_list_def)
  then have lt: "fw_send_len ?s < 512" by (simp add: word_less_nat_alt)
  have p: "pending ?s = pending s" by (simp add: pending_def)
  from free_all_releasable [OF assms(6,7), of env lcore] obtain w' where
    "free_all env lcore (drop (unat ret) (pending s @ [m])) w = Some w'" "pools_ok w'"
    "\<forall>p. pool_free (w_pools w' p) = pool_free (w_pools w p) + last_refs w p (List.concat css)"
    by auto
  with assms(1,4,5) send_packet_eq [OF lt, of env api lcore m] p show ?thesis
    unfolding handle_packet_eq [OF assms(2,3)] by (simp add: pending_def table_list_def)
qed

definition slow_api :: "nat ethdev_api" where
  "slow_api = sample_api\<lparr>eth_tx_burst := (\<lambda>_ _ ps (s, w). (511, s, w))\<rparr>"

definition full_fw :: "nat fw" where
  "full_fw = sample_fw\<lparr>fw_mem := (\<lambda>_. 9), fw_send_len := 511\<rparr>"

theorem firewall_flush_witness:
  "\<exists>s'. handle_packet sample_env slow_api 1 0x1500 full_fw = Some (Inr s') \<and> pending s' = [] \<and>
     pool_free (w_pools (fw_world s') 0x100) = add_mset 0x1500 (pool_free sample_pool)"
proof -
  have len: "length (pending full_fw) = 511" by (simp add: pending_def full_fw_def table_list_def)
  then have left: "drop (unat (511 :: u16)) (pending full_fw @ [0x1500]) = [0x1500]" by simp
  have refs: "last_refs (strip 0x1500 sample_world) 0x100 [0x1500] = {#0x1500#}"
    unfolding strip_frame by (simp add: last_refs_def sample_mbuf_fields)
  have "\<exists>s'. handle_packet sample_env slow_api 1 0x1500 full_fw = Some (Inr s') \<and> pending s' = [] \<and>
      fw_nic s' = 0 \<and> pools_ok (fw_world s') \<and> (\<forall>p. pool_free (w_pools (fw_world s') p) =
        pool_free (w_pools (strip 0x1500 sample_world) p) +
        last_refs (strip 0x1500 sample_world) p (List.concat [[0x1500]]))"
    by (rule firewall_flush [where ret = 511], unfold left, rule len)
      (simp_all add: full_fw_def sample_fw_fields sample_ip_header sample_mbuf_fields dest_bytes_def slow_api_def
        sample_releasable releasable_strip strip_frame)
  with refs show ?thesis by (auto simp: strip_frame sample_fw_fields)
qed

end
