(* ===== verification/Pktcapture.thy ===== *)
theory Pktcapture
  imports Firewall_Spec
begin

text \<open>
  The C packet counter, \<open>apps/c_apps/pktcapture/main.c\<close>: every received packet is counted and freed.
  The start-up uses one receive and one transmit queue on the caller's NUMA socket; its last part, from
  \<open>rte_eth_dev_start\<close> on, is the same text as the firewall's and is modelled by \<open>start_port\<close>.
\<close>

section \<open>The receive loop\<close>

record 'n cap =
  cap_world :: mbuf_world
  cap_nic :: 'n
  cap_pktcount :: u64
  cap_pre_ibytes :: u64
  cap_pre_ipackets :: u64

fun cap_free :: "mem_env \<Rightarrow> u32 \<Rightarrow> u64 list \<Rightarrow> 'n cap \<Rightarrow> 'n cap option" where
  "cap_free env lcore [] s = Some s"
| "cap_free env lcore (m # ms) s =
     Option.bind (rte_pktmbuf_free env lcore m (cap_world s)) (\<lambda>w. cap_free env lcore ms (s\<lparr>cap_world := w\<rparr>))"

definition cap_round :: "mem_env \<Rightarrow> 'n ethdev_api \<Rightarrow> u32 \<Rightarrow> 'n cap \<Rightarrow> 'n cap option" where
  "cap_round env api lcore s =
     (case eth_rx_burst api 0 0 (ucast MAX_PKT_BURST) (cap_nic s, cap_world s) of
        (rx_mbufs, nic, w) \<Rightarrow>
          (let s = s\<lparr>cap_nic := nic, cap_world := w\<rparr>
           in if 0 < length rx_mbufs
              then cap_free env lcore rx_mbufs (s\<lparr>cap_pktcount := cap_pktcount s + of_nat (length rx_mbufs)\<rparr>)
              else Some s))"

fun cap_loop :: "mem_env \<Rightarrow> 'n ethdev_api \<Rightarrow> u32 \<Rightarrow> nat \<Rightarrow> 'n cap \<Rightarrow> 'n cap option" where
  "cap_loop env api lcore 0 s = Some s"
| "cap_loop env api lcore (Suc n) s = Option.bind (cap_round env api lcore s) (cap_loop env api lcore n)"

definition cap_do_stats :: "'n ethdev_api \<Rightarrow> 'n cap \<Rightarrow> (u64 \<times> u64) \<times> 'n cap" where
  "cap_do_stats api s =
     (let (stats, nic) = eth_stats_get api 0 (cap_nic s)
      in ((st_ibytes stats - cap_pre_ibytes s, st_ipackets stats - cap_pre_ipackets s),
          s\<lparr>cap_nic := nic, cap_pre_ibytes := st_ibytes stats, cap_pre_ipackets := st_ipackets stats\<rparr>))"

section \<open>Start-up\<close>

definition cap_main ::
  "mem_env \<Rightarrow> alloc_env \<Rightarrow> 'n ethdev_api \<Rightarrow> int \<Rightarrow> u32 \<Rightarrow> u32 \<Rightarrow> (u32 \<Rightarrow> bool) \<Rightarrow> 'n \<times> mbuf_world \<Rightarrow>
   startup \<times> 'n \<times> mbuf_world" where
  "cap_main env al api eal_ret master socketid enabled st =
     (let (nic, w) = st in
      if eal_ret < 0 then (Panic_eal, nic, w)
      else (let (ret, nic) = eth_dev_configure api 0 1 1 nic in
      if ret < 0 then (Exit_failure ''Cannot configure device'', nic, w)
      else (let (rx_pool, w) = rte_mempool_create env al master ''rx_pool'' (16 * 1024) MAX_PKT_SIZE 0 2
                  (Some (rte_pktmbuf_pool_init 0)) (Some (rte_pktmbuf_init env)) (sint socketid) 0 w in
      case rx_pool of
        None \<Rightarrow> (Exit_failure ''rte_mempool_create'', nic, w)
      | Some p \<Rightarrow>
          (let (ret, nic) = eth_rx_queue_setup api 0 0 NB_RX_DESC socketid p nic in
           if ret < - 1 then (Exit_failure ''rte_eth_rx_dev_queue_setup'', nic, w)
           else (let (ret, nic) = eth_tx_queue_setup api 0 0 NB_TX_DESC socketid nic in
           if ret < 0 then (Exit_failure ''rte_eth_tx_queue_setup'', nic, w)
           else (case start_port api master enabled nic of (r, nic) \<Rightarrow> (r, nic, w)))))))"

section \<open>Every received packet is freed\<close>

lemma cap_free_eq:
  "cap_free env lcore ms s = map_option (\<lambda>w. s\<lparr>cap_world := w\<rparr>) (free_all env lcore ms (cap_world s))"
proof (induction ms arbitrary: s)
  case (Cons m ms)
  then show ?case
    by (cases "rte_pktmbuf_free env lcore m (cap_world s)") (simp_all add: option.map_comp comp_def)
qed simp

text \<open>A round of the packet counter counts the received packets and gives every segment on its last
  reference back to the pool it came from.\<close>
theorem capture_round_exact:
  assumes "eth_rx_burst api 0 0 512 (cap_nic s, cap_world s) = (rx, nic, w)"
    and "list_all2 (chain w) rx css" and "releasable w css"
  shows "\<exists>s'. cap_round env api lcore s = Some s' \<and> cap_nic s' = nic \<and>
    cap_pktcount s' = cap_pktcount s + of_nat (length rx) \<and>
    (\<forall>p. pool_free (w_pools (cap_world s') p) = pool_free (w_pools w p) + last_refs w p (List.concat css))"
proof -
  from free_all_releasable [OF assms(2,3), of env lcore] obtain w' where
    w': "free_all env lcore rx w = Some w'"
      "\<forall>p. pool_free (w_pools w' p) = pool_free (w_pools w p) + last_refs w p (List.concat css)" by auto
  have "\<exists>s'. cap_round env api lcore s = Some s' \<and> cap_nic s' = nic \<and> cap_world s' = w' \<and>
      cap_pktcount s' = cap_pktcount s + of_nat (length rx)"
    using assms(1) w'(1) by (auto simp: cap_round_def MAX_PKT_BURST_def Let_def cap_free_eq)
  with w'(2) show ?thesis by metis
qed

theorem capture_round_exact_witness:
  "\<exists>s'. cap_round sample_env (sample_api\<lparr>eth_rx_burst := (\<lambda>_ _ _ (s, w). ([0x1500], s, w))\<rparr>) 1
       \<lparr>cap_world = sample_world, cap_nic = 0, cap_pktcount = 7, cap_pre_ibytes = 0, cap_pre_ipackets = 0\<rparr> = Some s' \<and>
     cap_pktcount s' = 8 \<and> pool_free (w_pools (cap_world s') 0x100) = add_mset 0x1500 (pool_free sample_pool)"
proof -
  let ?s = "\<lparr>cap_world = sample_world, cap_nic = (0 :: nat), cap_pktcount = 7, cap_pre_ibytes = 0, cap_pre_ipackets = 0\<rparr>"
  have refs: "last_refs sample_world 0x100 [0x1500] = {#0x1500#}" by (simp add: last_refs_def sample_mbuf_fields)
  have "\<exists>s'. cap_round sample_env (sample_api\<lparr>eth_rx_burst := (\<lambda>_ _ _ (s, w). ([0x1500], s, w))\<rparr>) 1 ?s = Some s' \<and>
      cap_nic s' = 0 \<and> cap_pktcount s' = cap_pktcount ?s + of_nat (length [0x1500 :: u64]) \<and>
      (\<forall>p. pool_free (w_pools (cap_world s') p) = pool_free (w_pools sample_world p) +
        last_refs sample_world p (List.concat [[0x1500]]))"
    using sample_releasable by (intro capture_round_exact) simp_all
  then show ?thesis using refs by (auto simp: sample_fw_fields)
qed

end
