(* ===== verification/Ethdev.thy ===== *)
theory Ethdev
  imports Eth_Types
begin

text \<open>
  The Ethernet device layer, \<open>dpdk-2.0.0/lib/librte_ether/rte_ethdev.c\<close>: the table of ports, their
  allocation and release, configuration, queue set-up, start and stop, receive modes, MAC addresses,
  link and statistics queries, packet bursts and the registration of event callbacks.

  A driver is a record of optional operations, as \<open>struct eth_dev_ops\<close>. An operation works on the
  device's data, private data included, and on the memory the drivers share, of type \<open>'w\<close>; it returns
  an error value when it accesses NULL. \<open>'p\<close> is the private data of the drivers and \<open>'q\<close> their queues;
  a NULL pointer is \<open>None\<close>. The functions return their result and the new state. The settings a driver
  receives for a queue (\<open>rte_eth_rxconf\<close>, \<open>rte_eth_txconf\<close>) are not part of the model.
\<close>

section \<open>Data\<close>

datatype rte_eth_rx_mq_mode = ETH_MQ_RX_NONE | ETH_MQ_RX_RSS | ETH_MQ_RX_DCB | ETH_MQ_RX_DCB_RSS
  | ETH_MQ_RX_VMDQ_ONLY | ETH_MQ_RX_VMDQ_RSS | ETH_MQ_RX_VMDQ_DCB | ETH_MQ_RX_VMDQ_DCB_RSS

datatype rte_eth_tx_mq_mode = ETH_MQ_TX_NONE | ETH_MQ_TX_DCB | ETH_MQ_TX_VMDQ_DCB | ETH_MQ_TX_VMDQ_ONLY

datatype rte_eth_dev_type = RTE_ETH_DEV_UNKNOWN | RTE_ETH_DEV_PCI | RTE_ETH_DEV_VIRTUAL | RTE_ETH_DEV_MAX

datatype rte_eth_event_type = RTE_ETH_EVENT_UNKNOWN | RTE_ETH_EVENT_INTR_LSC | RTE_ETH_EVENT_MAX

text \<open>
  The configuration of a port. The first words of the two members of the union \<open>tx_adv_conf\<close>,
  \<open>nb_queue_pools\<close> and \<open>nb_tcs\<close>, are one field.
\<close>

record rte_eth_conf =
  c_rx_mq_mode :: rte_eth_rx_mq_mode
  c_max_rx_pkt_len :: u32
  c_hw_vlan_filter :: bool
  c_jumbo_frame :: bool
  c_tx_mq_mode :: rte_eth_tx_mq_mode
  c_vmdq_dcb_pools :: u32
  c_dcb_rx_tcs :: u32
  c_tx_adv :: u32
  c_lsc :: u16

definition zero_eth_conf :: rte_eth_conf where
  "zero_eth_conf = \<lparr>c_rx_mq_mode = ETH_MQ_RX_NONE, c_max_rx_pkt_len = 0, c_hw_vlan_filter = False,
     c_jumbo_frame = False, c_tx_mq_mode = ETH_MQ_TX_NONE, c_vmdq_dcb_pools = 0, c_dcb_rx_tcs = 0,
     c_tx_adv = 0, c_lsc = 0\<rparr>"

record rte_eth_dev_sriov =
  sr_active :: u8
  sr_nb_q_per_pool :: u8
  sr_def_vmdq_idx :: u16
  sr_def_pool_q_idx :: u16

type_synonym ether_addr = "u8 list"

record ('p, 'q) rte_eth_dev_data =
  d_name :: string
  d_rx_queues :: "'q option list option"
  d_tx_queues :: "'q option list option"
  d_nb_rx_queues :: u16
  d_nb_tx_queues :: u16
  d_sriov :: rte_eth_dev_sriov
  d_private :: "'p option"
  d_link :: rte_eth_link
  d_conf :: rte_eth_conf
  d_mtu :: u16
  d_min_rx_buf_size :: u32
  d_rx_mbuf_alloc_failed :: u64
  d_mac_addrs :: "ether_addr list"
  d_mac_pool_sel :: "nat \<Rightarrow> u64"
  d_hash_mac_addrs :: "ether_addr list option"
  d_port_id :: u8
  d_promiscuous :: bool
  d_all_multicast :: bool
  d_started :: bool

definition zero_eth_data :: "('p, 'q) rte_eth_dev_data" where
  "zero_eth_data = \<lparr>d_name = '''', d_rx_queues = None, d_tx_queues = None, d_nb_rx_queues = 0,
     d_nb_tx_queues = 0, d_sriov = \<lparr>sr_active = 0, sr_nb_q_per_pool = 0, sr_def_vmdq_idx = 0, sr_def_pool_q_idx = 0\<rparr>,
     d_private = None, d_link = \<lparr>link_speed = 0, link_duplex = 0, link_status = False\<rparr>, d_conf = zero_eth_conf,
     d_mtu = 0, d_min_rx_buf_size = 0, d_rx_mbuf_alloc_failed = 0, d_mac_addrs = [], d_mac_pool_sel = (\<lambda>_. 0),
     d_hash_mac_addrs = None, d_port_id = 0, d_promiscuous = False, d_all_multicast = False, d_started = False\<rparr>"

record rte_eth_dev_info =
  i_min_rx_bufsize :: u32
  i_max_rx_pktlen :: u32
  i_max_rx_queues :: u16
  i_max_tx_queues :: u16
  i_max_mac_addrs :: u32
  i_max_hash_mac_addrs :: u32
  i_max_vfs :: u16

definition zero_dev_info :: rte_eth_dev_info where
  "zero_dev_info = \<lparr>i_min_rx_bufsize = 0, i_max_rx_pktlen = 0, i_max_rx_queues = 0, i_max_tx_queues = 0,
     i_max_mac_addrs = 0, i_max_hash_mac_addrs = 0, i_max_vfs = 0\<rparr>"

text \<open>The operations of a driver on its state \<open>'d\<close>, the device data and the shared memory.\<close>

type_synonym ('r, 'd) op = "'d \<Rightarrow> c_error + 'r \<times> 'd"

record ('q, 'd) eth_dev_ops =
  op_dev_configure :: "(int, 'd) op option"
  op_dev_start :: "(int, 'd) op option"
  op_dev_stop :: "(unit, 'd) op option"
  op_dev_set_link_up :: "(int, 'd) op option"
  op_dev_set_link_down :: "(int, 'd) op option"
  op_dev_close :: "(unit, 'd) op option"
  op_promiscuous_enable :: "(unit, 'd) op option"
  op_promiscuous_disable :: "(unit, 'd) op option"
  op_allmulticast_enable :: "(unit, 'd) op option"
  op_allmulticast_disable :: "(unit, 'd) op option"
  op_link_update :: "(int \<Rightarrow> (int, 'd) op) option"
  op_stats_get :: "('d \<Rightarrow> rte_eth_stats \<Rightarrow> c_error + rte_eth_stats) option"
  op_stats_reset :: "(unit, 'd) op option"
  op_queue_stats_mapping_set :: "(u16 \<Rightarrow> u8 \<Rightarrow> u8 \<Rightarrow> (int, 'd) op) option"
  op_dev_infos_get :: "('d \<Rightarrow> rte_eth_dev_info \<Rightarrow> c_error + rte_eth_dev_info) option"
  op_mtu_set :: "(u16 \<Rightarrow> (int, 'd) op) option"
  op_vlan_filter_set :: "(u16 \<Rightarrow> int \<Rightarrow> (int, 'd) op) option"
  op_rx_queue_start :: "(u16 \<Rightarrow> (int, 'd) op) option"
  op_rx_queue_stop :: "(u16 \<Rightarrow> (int, 'd) op) option"
  op_tx_queue_start :: "(u16 \<Rightarrow> (int, 'd) op) option"
  op_tx_queue_stop :: "(u16 \<Rightarrow> (int, 'd) op) option"
  op_rx_queue_setup :: "(u16 \<Rightarrow> u16 \<Rightarrow> u32 \<Rightarrow> u64 \<Rightarrow> (int, 'd) op) option"
  op_rx_queue_release :: "('q option \<Rightarrow> (unit, 'd) op) option"
  op_tx_queue_setup :: "(u16 \<Rightarrow> u16 \<Rightarrow> u32 \<Rightarrow> (int, 'd) op) option"
  op_tx_queue_release :: "('q option \<Rightarrow> (unit, 'd) op) option"
  op_mac_addr_add :: "(ether_addr \<Rightarrow> nat \<Rightarrow> u32 \<Rightarrow> (unit, 'd) op) option"
  op_mac_addr_remove :: "(nat \<Rightarrow> (unit, 'd) op) option"
  op_uc_hash_table_set :: "(ether_addr \<Rightarrow> u8 \<Rightarrow> (int, 'd) op) option"

record rte_eth_dev_callback =
  cb_fn :: u64
  cb_arg :: u64
  cb_event :: rte_eth_event_type
  cb_active :: bool

text \<open>
  \<open>e_max_vfs\<close> and \<open>e_intr_lsc\<close> are \<open>pci_dev->max_vfs\<close> and the flag \<open>RTE_PCI_DRV_INTR_LSC\<close> of the
  device's driver. A burst function gets the calling lcore, the queue and the packets or their number.
  The callbacks of the bursts are the lists of their addresses.
\<close>

record ('p, 'q, 'w) rte_eth_dev =
  e_rx_pkt_burst :: "(u32 \<Rightarrow> 'q option \<Rightarrow> u16 \<Rightarrow> (u64 list, ('p, 'q) rte_eth_dev_data \<times> 'w) op) option"
  e_tx_pkt_burst :: "(u32 \<Rightarrow> 'q option \<Rightarrow> u64 list \<Rightarrow> (u16, ('p, 'q) rte_eth_dev_data \<times> 'w) op) option"
  e_data :: "('p, 'q) rte_eth_dev_data"
  e_ops :: "('q, ('p, 'q) rte_eth_dev_data \<times> 'w) eth_dev_ops option"
  e_max_vfs :: u16
  e_intr_lsc :: bool
  e_link_intr_cbs :: "rte_eth_dev_callback list"
  e_post_rx_burst_cbs :: "u16 \<Rightarrow> u64 list"
  e_pre_tx_burst_cbs :: "u16 \<Rightarrow> u64 list"
  e_attached :: bool
  e_dev_type :: rte_eth_dev_type

record ('p, 'q, 'w) eth_state =
  s_devices :: "u8 \<Rightarrow> ('p, 'q, 'w) rte_eth_dev"
  s_nb_ports :: u8
  s_data_ready :: bool
  s_shared :: 'w

text \<open>
  The environment: whether the process is the primary one, whether an allocation of a number of bytes
  is granted, and the contents of an uninitialised variable on the stack.
\<close>

record eth_env =
  env_primary :: bool
  env_zmalloc :: "string \<Rightarrow> nat \<Rightarrow> bool"
  env_realloc :: "nat \<Rightarrow> bool"
  env_memzone :: bool
  env_stack_info :: rte_eth_dev_info

definition RTE_MAX_ETHPORTS :: u8 where "RTE_MAX_ETHPORTS = 32"
definition RTE_MAX_QUEUES_PER_PORT :: u16 where "RTE_MAX_QUEUES_PER_PORT = 256"
definition ETHER_MIN_LEN :: u32 where "ETHER_MIN_LEN = 64"
definition ETHER_MAX_LEN :: u32 where "ETHER_MAX_LEN = 1518"
definition ENODEV :: int where "ENODEV = 19"
definition EBUSY :: int where "EBUSY = 16"
definition ENOSYS :: int where "ENOSYS = 38"
definition ENOTSUP :: int where "ENOTSUP = 95"
definition EADDRINUSE :: int where "EADDRINUSE = 98"
definition EAGAIN :: int where "EAGAIN = 11"
definition E_RTE_SECONDARY :: int where "E_RTE_SECONDARY = 1002"

section \<open>Access to a device and its driver\<close>

definition dev_data :: "u8 \<Rightarrow> ('p, 'q, 'w) eth_state \<Rightarrow> ('p, 'q) rte_eth_dev_data" where
  "dev_data port s = e_data (s_devices s port)"

definition upd_dev ::
  "u8 \<Rightarrow> (('p, 'q, 'w) rte_eth_dev \<Rightarrow> ('p, 'q, 'w) rte_eth_dev) \<Rightarrow> ('p, 'q, 'w) eth_state \<Rightarrow> ('p, 'q, 'w) eth_state"
  where "upd_dev port f s = s\<lparr>s_devices := (s_devices s)(port := f (s_devices s port))\<rparr>"

definition upd_data ::
  "u8 \<Rightarrow> (('p, 'q) rte_eth_dev_data \<Rightarrow> ('p, 'q) rte_eth_dev_data) \<Rightarrow> ('p, 'q, 'w) eth_state \<Rightarrow> ('p, 'q, 'w) eth_state"
  where "upd_data port f s = upd_dev port (\<lambda>d. d\<lparr>e_data := f (e_data d)\<rparr>) s"

text \<open>A call of a driver function on the device of a port.\<close>

definition drv ::
  "u8 \<Rightarrow> ('r, ('p, 'q) rte_eth_dev_data \<times> 'w) op \<Rightarrow> ('r, ('p, 'q, 'w) eth_state) op" where
  "drv port f s =
     bnd (f (dev_data port s, s_shared s))
       (\<lambda>(r, d, w). Inr (r, upd_data port (\<lambda>_. d) (s\<lparr>s_shared := w\<rparr>)))"

text \<open>
  \<open>FUNC_PTR_OR_ERR_RET\<close>: the driver function of a device, or an early return; the table of operations
  itself is accessed without a check.
\<close>

definition with_op ::
  "u8 \<Rightarrow> (('q, ('p, 'q) rte_eth_dev_data \<times> 'w) eth_dev_ops \<Rightarrow> 'f option) \<Rightarrow> 'r \<Rightarrow>
   ('f \<Rightarrow> ('r, ('p, 'q, 'w) eth_state) op) \<Rightarrow> ('r, ('p, 'q, 'w) eth_state) op" where
  "with_op port sel retval k s =
     (case e_ops (s_devices s port) of
        None \<Rightarrow> Inl Null_pointer
      | Some ops \<Rightarrow> (case sel ops of None \<Rightarrow> Inr (retval, s) | Some f \<Rightarrow> k f s))"

definition rte_eth_dev_is_valid_port :: "u8 \<Rightarrow> ('p, 'q, 'w) eth_state \<Rightarrow> bool" where
  "rte_eth_dev_is_valid_port port_id s =
     (if port_id \<ge> RTE_MAX_ETHPORTS \<or> \<not> e_attached (s_devices s port_id) then False else True)"

section \<open>The table of ports\<close>

text \<open>The ports in the order the loops visit them.\<close>

definition all_ports :: "u8 list" where "all_ports = map of_nat [0..<32]"

definition rte_eth_dev_allocated :: "string \<Rightarrow> ('p, 'q, 'w) eth_state \<Rightarrow> u8 option" where
  "rte_eth_dev_allocated name s =
     find (\<lambda>i. e_attached (s_devices s i) \<and> d_name (dev_data i s) = name) all_ports"

definition rte_eth_dev_find_free_port :: "('p, 'q, 'w) eth_state \<Rightarrow> u8" where
  "rte_eth_dev_find_free_port s =
     (case find (\<lambda>i. \<not> e_attached (s_devices s i)) all_ports of Some i \<Rightarrow> i | None \<Rightarrow> RTE_MAX_ETHPORTS)"

text \<open>The memory zone of the array \<open>rte_eth_dev_data\<close>, which the primary process clears.\<close>

definition rte_eth_dev_data_alloc :: "eth_env \<Rightarrow> (unit, ('p, 'q, 'w) eth_state) op" where
  "rte_eth_dev_data_alloc env s =
     (if \<not> env_memzone env then Inl (Panic ''Cannot allocate memzone for ethernet port data'')
      else Inr ((), s\<lparr>s_data_ready := True\<rparr>))"

definition RTE_ETH_NAME_MAX_LEN :: nat where "RTE_ETH_NAME_MAX_LEN = 32"

text \<open>
  The data of a slot is the slot of the array \<open>rte_eth_dev_data\<close>, which keeps what an earlier device
  left there. \<open>slot_data\<close> is that array; drivers such as the ring driver replace the pointer.
\<close>

definition rte_eth_dev_allocate ::
  "eth_env \<Rightarrow> (u8 \<Rightarrow> ('p, 'q) rte_eth_dev_data) \<Rightarrow> string \<Rightarrow> rte_eth_dev_type \<Rightarrow> (u8 option, ('p, 'q, 'w) eth_state) op" where
  "rte_eth_dev_allocate env slot_data name type s =
     (let port_id = rte_eth_dev_find_free_port s in
      if port_id = RTE_MAX_ETHPORTS then Inr (None, s)
      else bnd (if \<not> s_data_ready s then rte_eth_dev_data_alloc env s else Inr ((), s))
        (\<lambda>(_, s').
           if rte_eth_dev_allocated name s' \<noteq> None then Inr (None, s')
           else (let data = (if s_data_ready s \<or> \<not> env_primary env then slot_data port_id else zero_eth_data);
                     s' = upd_dev port_id
                            (\<lambda>d. d\<lparr>e_data := data\<lparr>d_name := take (RTE_ETH_NAME_MAX_LEN - 1) name, d_port_id := port_id\<rparr>,
                                  e_attached := True, e_dev_type := type\<rparr>) s'
                 in Inr (Some port_id, s'\<lparr>s_nb_ports := s_nb_ports s' + 1\<rparr>))))"

definition rte_eth_dev_release_port :: "u8 option \<Rightarrow> ('p, 'q, 'w) eth_state \<Rightarrow> int \<times> ('p, 'q, 'w) eth_state" where
  "rte_eth_dev_release_port eth_dev s =
     (case eth_dev of
        None \<Rightarrow> (- EINVAL, s)
      | Some port \<Rightarrow> (0, (upd_dev port (\<lambda>d. d\<lparr>e_attached := False\<rparr>) s)\<lparr>s_nb_ports := s_nb_ports s - 1\<rparr>))"

definition rte_eth_dev_count :: "('p, 'q, 'w) eth_state \<Rightarrow> u8" where
  "rte_eth_dev_count s = s_nb_ports s"

section \<open>Configuration\<close>

definition rte_eth_dev_info_get :: "u8 \<Rightarrow> ('p, 'q, 'w) eth_state \<Rightarrow> c_error + rte_eth_dev_info option" where
  "rte_eth_dev_info_get port_id s =
     (if \<not> rte_eth_dev_is_valid_port port_id s then Inr None
      else (case e_ops (s_devices s port_id) of
              None \<Rightarrow> Inl Null_pointer
            | Some ops \<Rightarrow>
                (case op_dev_infos_get ops of
                   None \<Rightarrow> Inr (Some zero_dev_info)
                 | Some f \<Rightarrow> bnd (f (dev_data port_id s, s_shared s) zero_dev_info) (\<lambda>i. Inr (Some i)))))"

text \<open>The loops that release the queues \<open>is\<close> of an array.\<close>

fun release_queues ::
  "u8 \<Rightarrow> ('q option \<Rightarrow> (unit, ('p, 'q) rte_eth_dev_data \<times> 'w) op) \<Rightarrow> 'q option list \<Rightarrow> nat list \<Rightarrow>
   (unit, ('p, 'q, 'w) eth_state) op" where
  "release_queues port rel qs [] s = Inr ((), s)"
| "release_queues port rel qs (i # is) s = bnd (drv port (rel (qs ! i)) s) (\<lambda>(_, s). release_queues port rel qs is s)"

text \<open>The array after \<open>rte_realloc\<close> and the clearing of the entries that are new.\<close>

definition resize_queues :: "nat \<Rightarrow> nat \<Rightarrow> 'q option list \<Rightarrow> 'q option list" where
  "resize_queues old n qs = map (\<lambda>i. if i < old then qs ! i else None) [0..<n]"

definition rte_eth_dev_rx_queue_config :: "eth_env \<Rightarrow> u8 \<Rightarrow> u16 \<Rightarrow> (int, ('p, 'q, 'w) eth_state) op" where
  "rte_eth_dev_rx_queue_config env dev nb_queues s =
     (let old_nb_queues = d_nb_rx_queues (dev_data dev s) in
      case d_rx_queues (dev_data dev s) of
        None \<Rightarrow>
          if env_zmalloc env ''ethdev->rx_queues'' (8 * unat nb_queues)
          then Inr (0, upd_data dev (\<lambda>d. d\<lparr>d_rx_queues := Some (replicate (unat nb_queues) None),
                                         d_nb_rx_queues := nb_queues\<rparr>) s)
          else Inr (- ENOMEM, upd_data dev (\<lambda>d. d\<lparr>d_nb_rx_queues := 0\<rparr>) s)
      | Some rxq \<Rightarrow>
          with_op dev op_rx_queue_release (- ENOTSUP) (\<lambda>rel s.
            bnd (release_queues dev rel rxq [unat nb_queues..<unat old_nb_queues] s) (\<lambda>(_, s).
              if \<not> env_realloc env (8 * unat nb_queues) then Inr (- ENOMEM, s)
              else Inr (0, upd_data dev
                     (\<lambda>d. d\<lparr>d_rx_queues := Some (resize_queues (unat old_nb_queues) (unat nb_queues) rxq),
                           d_nb_rx_queues := nb_queues\<rparr>) s))) s)"

definition rte_eth_dev_tx_queue_config :: "eth_env \<Rightarrow> u8 \<Rightarrow> u16 \<Rightarrow> (int, ('p, 'q, 'w) eth_state) op" where
  "rte_eth_dev_tx_queue_config env dev nb_queues s =
     (let old_nb_queues = d_nb_tx_queues (dev_data dev s) in
      case d_tx_queues (dev_data dev s) of
        None \<Rightarrow>
          if env_zmalloc env ''ethdev->tx_queues'' (8 * unat nb_queues)
          then Inr (0, upd_data dev (\<lambda>d. d\<lparr>d_tx_queues := Some (replicate (unat nb_queues) None),
                                         d_nb_tx_queues := nb_queues\<rparr>) s)
          else Inr (- ENOMEM, upd_data dev (\<lambda>d. d\<lparr>d_nb_tx_queues := 0\<rparr>) s)
      | Some txq \<Rightarrow>
          with_op dev op_tx_queue_release (- ENOTSUP) (\<lambda>rel s.
            bnd (release_queues dev rel txq [unat nb_queues..<unat old_nb_queues] s) (\<lambda>(_, s).
              if \<not> env_realloc env (8 * unat nb_queues) then Inr (- ENOMEM, s)
              else Inr (0, upd_data dev
                     (\<lambda>d. d\<lparr>d_tx_queues := Some (resize_queues (unat old_nb_queues) (unat nb_queues) txq),
                           d_nb_tx_queues := nb_queues\<rparr>) s))) s)"

definition rte_eth_dev_check_vf_rss_rxq_num :: "u8 \<Rightarrow> u16 \<Rightarrow> ('p, 'q, 'w) eth_state \<Rightarrow> int \<times> ('p, 'q, 'w) eth_state" where
  "rte_eth_dev_check_vf_rss_rxq_num port_id nb_rx_q s =
     (let set_sriov = (\<lambda>pools. upd_data port_id (\<lambda>d. d\<lparr>d_sriov := (d_sriov d)\<lparr>sr_active := pools, sr_nb_q_per_pool := ucast nb_rx_q,
              sr_def_pool_q_idx := e_max_vfs (s_devices s port_id) * nb_rx_q\<rparr>\<rparr>) s)
      in if nb_rx_q = 1 \<or> nb_rx_q = 2 then (0, set_sriov 64)
         else if nb_rx_q = 4 then (0, set_sriov 32)
         else (- EINVAL, s))"

text \<open>The mode checks with active virtual functions, first for receive, then for transmit.\<close>

definition check_mq_sriov_rx ::
  "u8 \<Rightarrow> u16 \<Rightarrow> rte_eth_conf \<Rightarrow> ('p, 'q, 'w) eth_state \<Rightarrow> int \<times> ('p, 'q, 'w) eth_state" where
  "check_mq_sriov_rx port_id nb_rx_q dev_conf s =
     (if c_rx_mq_mode dev_conf = ETH_MQ_RX_VMDQ_DCB \<or> c_rx_mq_mode dev_conf = ETH_MQ_RX_VMDQ_DCB_RSS
      then (- EINVAL, s)
      else if c_rx_mq_mode dev_conf = ETH_MQ_RX_RSS \<or> c_rx_mq_mode dev_conf = ETH_MQ_RX_VMDQ_RSS
      then (let s = upd_data port_id (\<lambda>d. d\<lparr>d_conf := (d_conf d)\<lparr>c_rx_mq_mode := ETH_MQ_RX_VMDQ_RSS\<rparr>\<rparr>) s
            in if nb_rx_q \<le> ucast (sr_nb_q_per_pool (d_sriov (dev_data port_id s)))
               then (case rte_eth_dev_check_vf_rss_rxq_num port_id nb_rx_q s of
                       (r, s) \<Rightarrow> if r \<noteq> 0 then (- EINVAL, s) else (0, s))
               else (0, s))
      else (0, upd_data port_id (\<lambda>d. d\<lparr>d_conf := (d_conf d)\<lparr>c_rx_mq_mode := ETH_MQ_RX_VMDQ_ONLY\<rparr>,
                 d_sriov := (d_sriov d)\<lparr>sr_nb_q_per_pool :=
                   (if sr_nb_q_per_pool (d_sriov d) > 1 then 1 else sr_nb_q_per_pool (d_sriov d))\<rparr>\<rparr>) s))"

definition check_mq_sriov ::
  "u8 \<Rightarrow> u16 \<Rightarrow> u16 \<Rightarrow> rte_eth_conf \<Rightarrow> ('p, 'q, 'w) eth_state \<Rightarrow> int \<times> ('p, 'q, 'w) eth_state" where
  "check_mq_sriov port_id nb_rx_q nb_tx_q dev_conf s =
     (if c_rx_mq_mode dev_conf = ETH_MQ_RX_DCB \<or> c_rx_mq_mode dev_conf = ETH_MQ_RX_DCB_RSS \<or>
         c_tx_mq_mode dev_conf = ETH_MQ_TX_DCB
      then (- EINVAL, s)
      else (case check_mq_sriov_rx port_id nb_rx_q dev_conf s of
        (r, s) \<Rightarrow>
          if r \<noteq> 0 then (r, s)
          else if c_tx_mq_mode dev_conf = ETH_MQ_TX_VMDQ_DCB then (- EINVAL, s)
          else (let s = upd_data port_id (\<lambda>d. d\<lparr>d_conf := (d_conf d)\<lparr>c_tx_mq_mode := ETH_MQ_TX_VMDQ_ONLY\<rparr>\<rparr>) s;
                    per_pool = ucast (sr_nb_q_per_pool (d_sriov (dev_data port_id s)))
                in if nb_rx_q > per_pool \<or> nb_tx_q > per_pool then (- EINVAL, s) else (0, s))))"

definition rte_eth_dev_check_mq_mode ::
  "u8 \<Rightarrow> u16 \<Rightarrow> u16 \<Rightarrow> rte_eth_conf \<Rightarrow> ('p, 'q, 'w) eth_state \<Rightarrow> int \<times> ('p, 'q, 'w) eth_state" where
  "rte_eth_dev_check_mq_mode port_id nb_rx_q nb_tx_q dev_conf s =
     (if sr_active (d_sriov (dev_data port_id s)) \<noteq> 0
      then check_mq_sriov port_id nb_rx_q nb_tx_q dev_conf s
      else if c_rx_mq_mode dev_conf = ETH_MQ_RX_VMDQ_DCB \<and>
              (nb_rx_q \<noteq> 128 \<or> \<not> (c_vmdq_dcb_pools dev_conf = 16 \<or> c_vmdq_dcb_pools dev_conf = 32))
      then (- EINVAL, s)
      else if c_tx_mq_mode dev_conf = ETH_MQ_TX_VMDQ_DCB \<and>
              (nb_tx_q \<noteq> 128 \<or> \<not> (c_tx_adv dev_conf = 16 \<or> c_tx_adv dev_conf = 32))
      then (- EINVAL, s)
      else if c_rx_mq_mode dev_conf = ETH_MQ_RX_DCB \<and>
              (nb_rx_q \<noteq> 128 \<or> \<not> (c_dcb_rx_tcs dev_conf = 4 \<or> c_dcb_rx_tcs dev_conf = 8))
      then (- EINVAL, s)
      else if c_tx_mq_mode dev_conf = ETH_MQ_TX_DCB \<and>
              (nb_tx_q \<noteq> 128 \<or> \<not> (c_tx_adv dev_conf = 4 \<or> c_tx_adv dev_conf = 8))
      then (- EINVAL, s)
      else (0, s))"

text \<open>The last part of the configuration: queue arrays and the driver, undone on failure.\<close>

definition configure_queues :: "eth_env \<Rightarrow> u8 \<Rightarrow> u16 \<Rightarrow> u16 \<Rightarrow> (int, ('p, 'q, 'w) eth_state) op" where
  "configure_queues env port_id nb_rx_q nb_tx_q s =
     bnd (rte_eth_dev_rx_queue_config env port_id nb_rx_q s) (\<lambda>(diag, s).
     if diag \<noteq> 0 then Inr (diag, s)
     else bnd (rte_eth_dev_tx_queue_config env port_id nb_tx_q s) (\<lambda>(diag, s).
     if diag \<noteq> 0
     then bnd (rte_eth_dev_rx_queue_config env port_id 0 s) (\<lambda>(_, s). Inr (diag, s))
     else with_op port_id op_dev_configure 0 (\<lambda>f s.
       bnd (drv port_id f s) (\<lambda>(diag, s).
       if diag \<noteq> 0
       then bnd (rte_eth_dev_rx_queue_config env port_id 0 s) (\<lambda>(_, s).
            bnd (rte_eth_dev_tx_queue_config env port_id 0 s) (\<lambda>(_, s). Inr (diag, s)))
       else Inr (0, s))) s))"

text \<open>The packet length: refused, or stored with its default.\<close>

definition configure_length ::
  "u8 \<Rightarrow> rte_eth_conf \<Rightarrow> rte_eth_dev_info \<Rightarrow> ('p, 'q, 'w) eth_state \<Rightarrow> int \<times> ('p, 'q, 'w) eth_state" where
  "configure_length port_id dev_conf dev_info s =
     (if c_jumbo_frame dev_conf
      then (if c_max_rx_pkt_len dev_conf > i_max_rx_pktlen dev_info then (- EINVAL, s)
            else if c_max_rx_pkt_len dev_conf < ETHER_MIN_LEN then (- EINVAL, s)
            else (0, s))
      else if c_max_rx_pkt_len dev_conf < ETHER_MIN_LEN \<or> c_max_rx_pkt_len dev_conf > ETHER_MAX_LEN
      then (0, upd_data port_id (\<lambda>d. d\<lparr>d_conf := (d_conf d)\<lparr>c_max_rx_pkt_len := ETHER_MAX_LEN\<rparr>\<rparr>) s)
      else (0, s))"

definition rte_eth_dev_configure ::
  "eth_env \<Rightarrow> u8 \<Rightarrow> u16 \<Rightarrow> u16 \<Rightarrow> rte_eth_conf \<Rightarrow> (int, ('p, 'q, 'w) eth_state) op" where
  "rte_eth_dev_configure env port_id nb_rx_q nb_tx_q dev_conf s =
     (if \<not> env_primary env then Inr (- E_RTE_SECONDARY, s)
      else if \<not> rte_eth_dev_is_valid_port port_id s then Inr (- EINVAL, s)
      else if nb_rx_q > RTE_MAX_QUEUES_PER_PORT then Inr (- EINVAL, s)
      else if nb_tx_q > RTE_MAX_QUEUES_PER_PORT then Inr (- EINVAL, s)
      else with_op port_id op_dev_infos_get (- ENOTSUP) (\<lambda>infos_get.
           with_op port_id op_dev_configure (- ENOTSUP) (\<lambda>_ s.
        if d_started (dev_data port_id s) then Inr (- EBUSY, s)
        else bnd (infos_get (dev_data port_id s, s_shared s) (env_stack_info env)) (\<lambda>dev_info.
          if nb_rx_q > i_max_rx_queues dev_info then Inr (- EINVAL, s)
          else if nb_rx_q = 0 then Inr (- EINVAL, s)
          else if nb_tx_q > i_max_tx_queues dev_info then Inr (- EINVAL, s)
          else if nb_tx_q = 0 then Inr (- EINVAL, s)
          else (let s = upd_data port_id (\<lambda>d. d\<lparr>d_conf := dev_conf\<rparr>) s in
                if c_lsc dev_conf = 1 \<and> \<not> e_intr_lsc (s_devices s port_id) then Inr (- EINVAL, s)
                else (case configure_length port_id dev_conf dev_info s of
                  (r, s) \<Rightarrow>
                    if r \<noteq> 0 then Inr (r, s)
                    else (case rte_eth_dev_check_mq_mode port_id nb_rx_q nb_tx_q dev_conf s of
                      (diag, s) \<Rightarrow>
                        if diag \<noteq> 0 then Inr (diag, s)
                        else configure_queues env port_id nb_rx_q nb_tx_q s)))))) s)"

section \<open>Queues\<close>

definition queue_op ::
  "eth_env \<Rightarrow> (('p, 'q) rte_eth_dev_data \<Rightarrow> u16) \<Rightarrow>
   (('q, ('p, 'q) rte_eth_dev_data \<times> 'w) eth_dev_ops \<Rightarrow> (u16 \<Rightarrow> (int, ('p, 'q) rte_eth_dev_data \<times> 'w) op) option) \<Rightarrow>
   u8 \<Rightarrow> u16 \<Rightarrow> (int, ('p, 'q, 'w) eth_state) op" where
  "queue_op env nb sel port_id queue_id s =
     (if \<not> env_primary env then Inr (- E_RTE_SECONDARY, s)
      else if \<not> rte_eth_dev_is_valid_port port_id s then Inr (- EINVAL, s)
      else if queue_id \<ge> nb (dev_data port_id s) then Inr (- EINVAL, s)
      else with_op port_id sel (- ENOTSUP) (\<lambda>f. drv port_id (f queue_id)) s)"

definition rte_eth_dev_rx_queue_start :: "eth_env \<Rightarrow> u8 \<Rightarrow> u16 \<Rightarrow> (int, ('p, 'q, 'w) eth_state) op" where
  "rte_eth_dev_rx_queue_start env = queue_op env d_nb_rx_queues op_rx_queue_start"

definition rte_eth_dev_rx_queue_stop :: "eth_env \<Rightarrow> u8 \<Rightarrow> u16 \<Rightarrow> (int, ('p, 'q, 'w) eth_state) op" where
  "rte_eth_dev_rx_queue_stop env = queue_op env d_nb_rx_queues op_rx_queue_stop"

definition rte_eth_dev_tx_queue_start :: "eth_env \<Rightarrow> u8 \<Rightarrow> u16 \<Rightarrow> (int, ('p, 'q, 'w) eth_state) op" where
  "rte_eth_dev_tx_queue_start env = queue_op env d_nb_tx_queues op_tx_queue_start"

definition rte_eth_dev_tx_queue_stop :: "eth_env \<Rightarrow> u8 \<Rightarrow> u16 \<Rightarrow> (int, ('p, 'q, 'w) eth_state) op" where
  "rte_eth_dev_tx_queue_stop env = queue_op env d_nb_tx_queues op_tx_queue_stop"

text \<open>\<open>private_size\<close> and \<open>room\<close> are the fields read from the packet pool \<open>mp\<close>.\<close>

definition rte_eth_rx_queue_setup ::
  "eth_env \<Rightarrow> u8 \<Rightarrow> u16 \<Rightarrow> u16 \<Rightarrow> u32 \<Rightarrow> u64 \<Rightarrow> u32 \<Rightarrow> u16 \<Rightarrow> (int, ('p, 'q, 'w) eth_state) op" where
  "rte_eth_rx_queue_setup env port_id rx_queue_id nb_rx_desc socket_id mp private_size room s =
     (if \<not> env_primary env then Inr (- E_RTE_SECONDARY, s)
      else if \<not> rte_eth_dev_is_valid_port port_id s then Inr (- EINVAL, s)
      else if rx_queue_id \<ge> d_nb_rx_queues (dev_data port_id s) then Inr (- EINVAL, s)
      else if d_started (dev_data port_id s) then Inr (- EBUSY, s)
      else with_op port_id op_dev_infos_get (- ENOTSUP) (\<lambda>_.
           with_op port_id op_rx_queue_setup (- ENOTSUP) (\<lambda>setup s.
        bnd (rte_eth_dev_info_get port_id s) (\<lambda>info.
          (let dev_info = (case info of Some i \<Rightarrow> i | None \<Rightarrow> env_stack_info env);
               mbp_buf_size = ucast room :: u32
           in if private_size < 2 then Inr (- ENOSPC, s)
              else if mbp_buf_size - 128 < i_min_rx_bufsize dev_info then Inr (- EINVAL, s)
              else bnd (drv port_id (setup rx_queue_id nb_rx_desc socket_id mp) s) (\<lambda>(ret, s).
                     if ret = 0 \<and> (d_min_rx_buf_size (dev_data port_id s) = 0 \<or>
                                   d_min_rx_buf_size (dev_data port_id s) > mbp_buf_size)
                     then Inr (ret, upd_data port_id (\<lambda>d. d\<lparr>d_min_rx_buf_size := mbp_buf_size\<rparr>) s)
                     else Inr (ret, s)))))) s)"

definition rte_eth_tx_queue_setup :: "eth_env \<Rightarrow> u8 \<Rightarrow> u16 \<Rightarrow> u16 \<Rightarrow> u32 \<Rightarrow> (int, ('p, 'q, 'w) eth_state) op" where
  "rte_eth_tx_queue_setup env port_id tx_queue_id nb_tx_desc socket_id s =
     (if \<not> env_primary env then Inr (- E_RTE_SECONDARY, s)
      else if \<not> rte_eth_dev_is_valid_port port_id s then Inr (- EINVAL, s)
      else if tx_queue_id \<ge> d_nb_tx_queues (dev_data port_id s) then Inr (- EINVAL, s)
      else if d_started (dev_data port_id s) then Inr (- EBUSY, s)
      else with_op port_id op_dev_infos_get (- ENOTSUP) (\<lambda>_.
           with_op port_id op_tx_queue_setup (- ENOTSUP) (\<lambda>setup s.
        bnd (rte_eth_dev_info_get port_id s) (\<lambda>_. drv port_id (setup tx_queue_id nb_tx_desc socket_id) s))) s)"

section \<open>Receive modes\<close>

definition rte_eth_promiscuous_enable :: "u8 \<Rightarrow> (unit, ('p, 'q, 'w) eth_state) op" where
  "rte_eth_promiscuous_enable port_id s =
     (if \<not> rte_eth_dev_is_valid_port port_id s then Inr ((), s)
      else with_op port_id op_promiscuous_enable () (\<lambda>f s.
             bnd (drv port_id f s) (\<lambda>(_, s). Inr ((), upd_data port_id (\<lambda>d. d\<lparr>d_promiscuous := True\<rparr>) s))) s)"

definition rte_eth_promiscuous_disable :: "u8 \<Rightarrow> (unit, ('p, 'q, 'w) eth_state) op" where
  "rte_eth_promiscuous_disable port_id s =
     (if \<not> rte_eth_dev_is_valid_port port_id s then Inr ((), s)
      else with_op port_id op_promiscuous_disable () (\<lambda>f s.
             drv port_id f (upd_data port_id (\<lambda>d. d\<lparr>d_promiscuous := False\<rparr>) s)) s)"

definition rte_eth_promiscuous_get :: "u8 \<Rightarrow> ('p, 'q, 'w) eth_state \<Rightarrow> int" where
  "rte_eth_promiscuous_get port_id s =
     (if \<not> rte_eth_dev_is_valid_port port_id s then - 1
      else if d_promiscuous (dev_data port_id s) then 1 else 0)"

definition rte_eth_allmulticast_enable :: "u8 \<Rightarrow> (unit, ('p, 'q, 'w) eth_state) op" where
  "rte_eth_allmulticast_enable port_id s =
     (if \<not> rte_eth_dev_is_valid_port port_id s then Inr ((), s)
      else with_op port_id op_allmulticast_enable () (\<lambda>f s.
             bnd (drv port_id f s) (\<lambda>(_, s). Inr ((), upd_data port_id (\<lambda>d. d\<lparr>d_all_multicast := True\<rparr>) s))) s)"

definition rte_eth_allmulticast_disable :: "u8 \<Rightarrow> (unit, ('p, 'q, 'w) eth_state) op" where
  "rte_eth_allmulticast_disable port_id s =
     (if \<not> rte_eth_dev_is_valid_port port_id s then Inr ((), s)
      else with_op port_id op_allmulticast_disable () (\<lambda>f s.
             drv port_id f (upd_data port_id (\<lambda>d. d\<lparr>d_all_multicast := False\<rparr>) s)) s)"

definition rte_eth_allmulticast_get :: "u8 \<Rightarrow> ('p, 'q, 'w) eth_state \<Rightarrow> int" where
  "rte_eth_allmulticast_get port_id s =
     (if \<not> rte_eth_dev_is_valid_port port_id s then - 1
      else if d_all_multicast (dev_data port_id s) then 1 else 0)"

section \<open>Start and stop\<close>

definition is_zero_ether_addr :: "ether_addr \<Rightarrow> bool" where
  "is_zero_ether_addr ea \<longleftrightarrow> (\<forall>b \<in> set ea. b = 0)"

definition ETH_NUM_RECEIVE_MAC_ADDR :: nat where "ETH_NUM_RECEIVE_MAC_ADDR = 128"

text \<open>The loop that gives the MAC addresses \<open>is\<close> to the hardware again.\<close>

fun replay_mac :: "u8 \<Rightarrow> u32 \<Rightarrow> nat list \<Rightarrow> (unit, ('p, 'q, 'w) eth_state) op" where
  "replay_mac port pool [] s = Inr ((), s)"
| "replay_mac port pool (i # is) s =
     (let d = dev_data port s in
      if i \<ge> length (d_mac_addrs d) then Inl (Heap_overflow (length (d_mac_addrs d)) i)
      else if is_zero_ether_addr (d_mac_addrs d ! i) then replay_mac port pool is s
      else with_op port Some () (\<lambda>ops s.
        (case op_mac_addr_add ops of
           Some add \<Rightarrow>
             if i \<ge> ETH_NUM_RECEIVE_MAC_ADDR then Inl (Heap_overflow ETH_NUM_RECEIVE_MAC_ADDR i)
             else if d_mac_pool_sel d i AND push_bit (unat pool) 1 \<noteq> 0
             then bnd (drv port (add (d_mac_addrs d ! i) i pool) s) (\<lambda>(_, s). replay_mac port pool is s)
             else Inr ((), s)
         | None \<Rightarrow> Inr ((), s))) s)"

definition rte_eth_dev_config_restore :: "u8 \<Rightarrow> (unit, ('p, 'q, 'w) eth_state) op" where
  "rte_eth_dev_config_restore port_id s =
     bnd (rte_eth_dev_info_get port_id s) (\<lambda>info.
       (let dev_info = (case info of Some i \<Rightarrow> i | None \<Rightarrow> zero_dev_info);
            sriov = d_sriov (dev_data port_id s);
            pool = (if sr_active sriov \<noteq> 0 then ucast (sr_def_vmdq_idx sriov) else 0)
        in bnd (replay_mac port_id pool [0..<unat (i_max_mac_addrs dev_info)] s) (\<lambda>(_, s).
           bnd (if rte_eth_promiscuous_get port_id s = 1 then rte_eth_promiscuous_enable port_id s
                else if rte_eth_promiscuous_get port_id s = 0 then rte_eth_promiscuous_disable port_id s
                else Inr ((), s)) (\<lambda>(_, s).
           if rte_eth_allmulticast_get port_id s = 1 then rte_eth_allmulticast_enable port_id s
           else if rte_eth_allmulticast_get port_id s = 0 then rte_eth_allmulticast_disable port_id s
           else Inr ((), s)))))"

definition rte_eth_dev_start :: "eth_env \<Rightarrow> u8 \<Rightarrow> (int, ('p, 'q, 'w) eth_state) op" where
  "rte_eth_dev_start env port_id s =
     (if \<not> env_primary env then Inr (- E_RTE_SECONDARY, s)
      else if \<not> rte_eth_dev_is_valid_port port_id s then Inr (- EINVAL, s)
      else with_op port_id op_dev_start (- ENOTSUP) (\<lambda>start s.
        if d_started (dev_data port_id s) then Inr (0, s)
        else bnd (drv port_id start s) (\<lambda>(diag, s).
          if diag \<noteq> 0 then Inr (diag, s)
          else bnd (rte_eth_dev_config_restore port_id (upd_data port_id (\<lambda>d. d\<lparr>d_started := True\<rparr>) s)) (\<lambda>(_, s).
            if c_lsc (d_conf (dev_data port_id s)) \<noteq> 0
            then with_op port_id op_link_update (- ENOTSUP) (\<lambda>f s. bnd (drv port_id (f 0) s) (\<lambda>(_, s). Inr (0, s))) s
            else Inr (0, s)))) s)"

definition rte_eth_dev_stop :: "eth_env \<Rightarrow> u8 \<Rightarrow> (unit, ('p, 'q, 'w) eth_state) op" where
  "rte_eth_dev_stop env port_id s =
     (if \<not> env_primary env then Inr ((), s)
      else if \<not> rte_eth_dev_is_valid_port port_id s then Inr ((), s)
      else with_op port_id op_dev_stop () (\<lambda>f s.
        if \<not> d_started (dev_data port_id s) then Inr ((), s)
        else drv port_id f (upd_data port_id (\<lambda>d. d\<lparr>d_started := False\<rparr>) s)) s)"

definition rte_eth_dev_set_link_up :: "eth_env \<Rightarrow> u8 \<Rightarrow> (int, ('p, 'q, 'w) eth_state) op" where
  "rte_eth_dev_set_link_up env port_id s =
     (if \<not> env_primary env then Inr (- E_RTE_SECONDARY, s)
      else if \<not> rte_eth_dev_is_valid_port port_id s then Inr (- EINVAL, s)
      else with_op port_id op_dev_set_link_up (- ENOTSUP) (drv port_id) s)"

definition rte_eth_dev_set_link_down :: "eth_env \<Rightarrow> u8 \<Rightarrow> (int, ('p, 'q, 'w) eth_state) op" where
  "rte_eth_dev_set_link_down env port_id s =
     (if \<not> env_primary env then Inr (- E_RTE_SECONDARY, s)
      else if \<not> rte_eth_dev_is_valid_port port_id s then Inr (- EINVAL, s)
      else with_op port_id op_dev_set_link_down (- ENOTSUP) (drv port_id) s)"

definition rte_eth_dev_close :: "eth_env \<Rightarrow> u8 \<Rightarrow> (unit, ('p, 'q, 'w) eth_state) op" where
  "rte_eth_dev_close env port_id s =
     (if \<not> env_primary env then Inr ((), s)
      else if \<not> rte_eth_dev_is_valid_port port_id s then Inr ((), s)
      else with_op port_id op_dev_close () (\<lambda>f s.
        drv port_id f (upd_data port_id (\<lambda>d. d\<lparr>d_started := False\<rparr>) s)) s)"

section \<open>Link and statistics\<close>

text \<open>
  The link structure of the caller is written, or left as it was (\<open>old\<close>). With link interrupts the
  stored link state is read.
\<close>

definition link_get :: "int \<Rightarrow> u8 \<Rightarrow> rte_eth_link \<Rightarrow> (rte_eth_link, ('p, 'q, 'w) eth_state) op" where
  "link_get wait port_id old s =
     (if \<not> rte_eth_dev_is_valid_port port_id s then Inr (old, s)
      else if c_lsc (d_conf (dev_data port_id s)) \<noteq> 0 then Inr (d_link (dev_data port_id s), s)
      else with_op port_id op_link_update old (\<lambda>f s.
             bnd (drv port_id (f wait) s) (\<lambda>(_, s). Inr (d_link (dev_data port_id s), s))) s)"

definition rte_eth_link_get :: "u8 \<Rightarrow> rte_eth_link \<Rightarrow> (rte_eth_link, ('p, 'q, 'w) eth_state) op" where
  "rte_eth_link_get = link_get 1"

definition rte_eth_link_get_nowait :: "u8 \<Rightarrow> rte_eth_link \<Rightarrow> (rte_eth_link, ('p, 'q, 'w) eth_state) op" where
  "rte_eth_link_get_nowait = link_get 0"

definition rte_eth_stats_get ::
  "u8 \<Rightarrow> rte_eth_stats \<Rightarrow> ('p, 'q, 'w) eth_state \<Rightarrow> c_error + int \<times> rte_eth_stats" where
  "rte_eth_stats_get port_id old s =
     (if \<not> rte_eth_dev_is_valid_port port_id s then Inr (- ENODEV, old)
      else (case e_ops (s_devices s port_id) of
              None \<Rightarrow> Inl Null_pointer
            | Some ops \<Rightarrow>
                (case op_stats_get ops of
                   None \<Rightarrow> Inr (- ENOTSUP, zero_eth_stats)
                 | Some f \<Rightarrow>
                     bnd (f (dev_data port_id s, s_shared s) zero_eth_stats) (\<lambda>st.
                       Inr (0, st\<lparr>st_rx_nombuf := d_rx_mbuf_alloc_failed (dev_data port_id s)\<rparr>)))))"

definition rte_eth_stats_reset :: "u8 \<Rightarrow> (unit, ('p, 'q, 'w) eth_state) op" where
  "rte_eth_stats_reset port_id s =
     (if \<not> rte_eth_dev_is_valid_port port_id s then Inr ((), s)
      else with_op port_id op_stats_reset () (drv port_id) s)"

definition set_queue_stats_mapping :: "u8 \<Rightarrow> u16 \<Rightarrow> u8 \<Rightarrow> u8 \<Rightarrow> (int, ('p, 'q, 'w) eth_state) op" where
  "set_queue_stats_mapping port_id queue_id stat_idx is_rx s =
     (if \<not> rte_eth_dev_is_valid_port port_id s then Inr (- ENODEV, s)
      else with_op port_id op_queue_stats_mapping_set (- ENOTSUP) (\<lambda>f. drv port_id (f queue_id stat_idx is_rx)) s)"

definition rte_eth_dev_set_tx_queue_stats_mapping :: "u8 \<Rightarrow> u16 \<Rightarrow> u8 \<Rightarrow> (int, ('p, 'q, 'w) eth_state) op" where
  "rte_eth_dev_set_tx_queue_stats_mapping port_id q i = set_queue_stats_mapping port_id q i 0"

definition rte_eth_dev_set_rx_queue_stats_mapping :: "u8 \<Rightarrow> u16 \<Rightarrow> u8 \<Rightarrow> (int, ('p, 'q, 'w) eth_state) op" where
  "rte_eth_dev_set_rx_queue_stats_mapping port_id q i = set_queue_stats_mapping port_id q i 1"

section \<open>Addresses, MTU and filters\<close>

definition null_mac_addr :: ether_addr where "null_mac_addr = [0, 0, 0, 0, 0, 0]"

definition rte_eth_macaddr_get :: "u8 \<Rightarrow> ether_addr \<Rightarrow> ('p, 'q, 'w) eth_state \<Rightarrow> c_error + ether_addr" where
  "rte_eth_macaddr_get port_id old s =
     (if \<not> rte_eth_dev_is_valid_port port_id s then Inr old
      else (case d_mac_addrs (dev_data port_id s) of [] \<Rightarrow> Inl Null_pointer | a # _ \<Rightarrow> Inr a))"

text \<open>The first \<open>n\<close> entries of an address array are searched; a shorter array is an access outside it.\<close>

definition find_addr :: "ether_addr \<Rightarrow> nat \<Rightarrow> ether_addr list \<Rightarrow> c_error + nat option" where
  "find_addr addr n addrs =
     (case find (\<lambda>i. i \<ge> length addrs \<or> addrs ! i = addr) [0..<n] of
        None \<Rightarrow> Inr None
      | Some i \<Rightarrow> if i \<ge> length addrs then Inl (Heap_overflow (length addrs) i) else Inr (Some i))"

definition get_mac_addr_index :: "u8 \<Rightarrow> ether_addr \<Rightarrow> ('p, 'q, 'w) eth_state \<Rightarrow> c_error + nat option" where
  "get_mac_addr_index port_id addr s =
     bnd (rte_eth_dev_info_get port_id s) (\<lambda>info.
       find_addr addr (case info of Some i \<Rightarrow> unat (i_max_mac_addrs i) | None \<Rightarrow> 0)
         (d_mac_addrs (dev_data port_id s)))"

definition rte_eth_dev_mac_addr_add :: "u8 \<Rightarrow> ether_addr \<Rightarrow> u32 \<Rightarrow> (int, ('p, 'q, 'w) eth_state) op" where
  "rte_eth_dev_mac_addr_add port_id addr pool s =
     (if \<not> rte_eth_dev_is_valid_port port_id s then Inr (- ENODEV, s)
      else with_op port_id op_mac_addr_add (- ENOTSUP) (\<lambda>add s.
        (let store = (\<lambda>index. bnd (drv port_id (add addr index pool) s) (\<lambda>(_, s).
               Inr (0, upd_data port_id (\<lambda>d. d\<lparr>d_mac_addrs := (d_mac_addrs d)[index := addr],
                          d_mac_pool_sel := (d_mac_pool_sel d)
                            (index := d_mac_pool_sel d index OR push_bit (unat pool) 1)\<rparr>) s)))
         in if is_zero_ether_addr addr then Inr (- EINVAL, s)
            else if pool \<ge> 64 then Inr (- EINVAL, s)
            else bnd (get_mac_addr_index port_id addr s) (\<lambda>index.
              case index of
                None \<Rightarrow> bnd (get_mac_addr_index port_id null_mac_addr s) (\<lambda>index.
                          case index of None \<Rightarrow> Inr (- ENOSPC, s) | Some i \<Rightarrow> store i)
              | Some i \<Rightarrow> if d_mac_pool_sel (dev_data port_id s) i AND push_bit (unat pool) 1 \<noteq> 0
                         then Inr (0, s) else store i))) s)"

definition rte_eth_dev_mac_addr_remove :: "u8 \<Rightarrow> ether_addr \<Rightarrow> (int, ('p, 'q, 'w) eth_state) op" where
  "rte_eth_dev_mac_addr_remove port_id addr s =
     (if \<not> rte_eth_dev_is_valid_port port_id s then Inr (- ENODEV, s)
      else with_op port_id op_mac_addr_remove (- ENOTSUP) (\<lambda>remove s.
        bnd (get_mac_addr_index port_id addr s) (\<lambda>index.
          case index of
            None \<Rightarrow> Inr (0, s)
          | Some i \<Rightarrow>
              if i = 0 then Inr (- EADDRINUSE, s)
              else bnd (drv port_id (remove i) s) (\<lambda>(_, s).
                     Inr (0, upd_data port_id (\<lambda>d. d\<lparr>d_mac_addrs := (d_mac_addrs d)[i := null_mac_addr],
                                d_mac_pool_sel := (d_mac_pool_sel d)(i := 0)\<rparr>) s)))) s)"

definition get_hash_mac_addr_index :: "u8 \<Rightarrow> ether_addr \<Rightarrow> ('p, 'q, 'w) eth_state \<Rightarrow> c_error + nat option" where
  "get_hash_mac_addr_index port_id addr s =
     bnd (rte_eth_dev_info_get port_id s) (\<lambda>info.
       case d_hash_mac_addrs (dev_data port_id s) of
         None \<Rightarrow> Inr None
       | Some addrs \<Rightarrow> find_addr addr (case info of Some i \<Rightarrow> unat (i_max_hash_mac_addrs i) | None \<Rightarrow> 0) addrs)"

definition rte_eth_dev_uc_hash_table_set :: "u8 \<Rightarrow> ether_addr \<Rightarrow> u8 \<Rightarrow> (int, ('p, 'q, 'w) eth_state) op" where
  "rte_eth_dev_uc_hash_table_set port_id addr on s =
     (let set_at = (\<lambda>index. with_op port_id op_uc_hash_table_set (- ENOTSUP) (\<lambda>f s.
            bnd (drv port_id (f addr on) s) (\<lambda>(ret, s).
              if ret = 0
              then Inr (ret, upd_data port_id (\<lambda>d. d\<lparr>d_hash_mac_addrs :=
                     map_option (\<lambda>as. as[index := (if on \<noteq> 0 then addr else null_mac_addr)]) (d_hash_mac_addrs d)\<rparr>) s)
              else Inr (ret, s))) s)
      in if \<not> rte_eth_dev_is_valid_port port_id s then Inr (- ENODEV, s)
         else if is_zero_ether_addr addr then Inr (- EINVAL, s)
         else bnd (get_hash_mac_addr_index port_id addr s) (\<lambda>index.
           case index of
             Some i \<Rightarrow> if on \<noteq> 0 then Inr (0, s) else set_at i
           | None \<Rightarrow>
               if on = 0 then Inr (- EINVAL, s)
               else bnd (get_hash_mac_addr_index port_id null_mac_addr s) (\<lambda>index.
                      case index of None \<Rightarrow> Inr (- ENOSPC, s) | Some i \<Rightarrow> set_at i)))"

definition rte_eth_dev_get_mtu :: "u8 \<Rightarrow> u16 \<Rightarrow> ('p, 'q, 'w) eth_state \<Rightarrow> int \<times> u16" where
  "rte_eth_dev_get_mtu port_id old s =
     (if \<not> rte_eth_dev_is_valid_port port_id s then (- ENODEV, old) else (0, d_mtu (dev_data port_id s)))"

definition rte_eth_dev_set_mtu :: "u8 \<Rightarrow> u16 \<Rightarrow> (int, ('p, 'q, 'w) eth_state) op" where
  "rte_eth_dev_set_mtu port_id mtu s =
     (if \<not> rte_eth_dev_is_valid_port port_id s then Inr (- ENODEV, s)
      else with_op port_id op_mtu_set (- ENOTSUP) (\<lambda>f s.
        bnd (drv port_id (f mtu) s) (\<lambda>(ret, s).
          if ret = 0 then Inr (ret, upd_data port_id (\<lambda>d. d\<lparr>d_mtu := mtu\<rparr>) s) else Inr (ret, s))) s)"

definition rte_eth_dev_vlan_filter :: "u8 \<Rightarrow> u16 \<Rightarrow> int \<Rightarrow> (int, ('p, 'q, 'w) eth_state) op" where
  "rte_eth_dev_vlan_filter port_id vlan_id on s =
     (if \<not> rte_eth_dev_is_valid_port port_id s then Inr (- ENODEV, s)
      else if \<not> c_hw_vlan_filter (d_conf (dev_data port_id s)) then Inr (- ENOSYS, s)
      else if vlan_id > 4095 then Inr (- EINVAL, s)
      else with_op port_id op_vlan_filter_set (- ENOTSUP) (\<lambda>f. drv port_id (f vlan_id on)) s)"

section \<open>Bursts\<close>

text \<open>The versions compiled with \<open>RTE_LIBRTE_ETHDEV_DEBUG\<close>, as the configuration sets it.\<close>

definition rte_eth_rx_burst :: "u32 \<Rightarrow> u8 \<Rightarrow> u16 \<Rightarrow> u16 \<Rightarrow> (u64 list, ('p, 'q, 'w) eth_state) op" where
  "rte_eth_rx_burst lcore port_id queue_id nb_pkts s =
     (if \<not> rte_eth_dev_is_valid_port port_id s then Inr ([], s)
      else (case e_rx_pkt_burst (s_devices s port_id) of
              None \<Rightarrow> Inr ([], s)
            | Some rx \<Rightarrow>
                if queue_id \<ge> d_nb_rx_queues (dev_data port_id s) then Inr ([], s)
                else (case d_rx_queues (dev_data port_id s) of
                        None \<Rightarrow> Inl Null_pointer
                      | Some qs \<Rightarrow> drv port_id (rx lcore (qs ! unat queue_id) nb_pkts) s)))"

definition rte_eth_tx_burst :: "u32 \<Rightarrow> u8 \<Rightarrow> u16 \<Rightarrow> u64 list \<Rightarrow> (u16, ('p, 'q, 'w) eth_state) op" where
  "rte_eth_tx_burst lcore port_id queue_id tx_pkts s =
     (if \<not> rte_eth_dev_is_valid_port port_id s then Inr (0, s)
      else (case e_tx_pkt_burst (s_devices s port_id) of
              None \<Rightarrow> Inr (0, s)
            | Some tx \<Rightarrow>
                if queue_id \<ge> d_nb_tx_queues (dev_data port_id s) then Inr (0, s)
                else (case d_tx_queues (dev_data port_id s) of
                        None \<Rightarrow> Inl Null_pointer
                      | Some qs \<Rightarrow> drv port_id (tx lcore (qs ! unat queue_id) tx_pkts) s)))"

section \<open>Callbacks\<close>

text \<open>\<open>alloc\<close> is whether the allocation of the callback is granted.\<close>

definition rte_eth_dev_callback_register ::
  "bool \<Rightarrow> u8 \<Rightarrow> rte_eth_event_type \<Rightarrow> u64 \<Rightarrow> u64 \<Rightarrow> ('p, 'q, 'w) eth_state \<Rightarrow> int \<times> ('p, 'q, 'w) eth_state" where
  "rte_eth_dev_callback_register alloc port_id event fn arg s =
     (if fn = 0 then (- EINVAL, s)
      else if \<not> rte_eth_dev_is_valid_port port_id s then (- EINVAL, s)
      else if (\<exists>c \<in> set (e_link_intr_cbs (s_devices s port_id)). cb_fn c = fn \<and> cb_arg c = arg \<and> cb_event c = event)
      then (0, s)
      else if \<not> alloc then (- ENOMEM, s)
      else (0, upd_dev port_id (\<lambda>d. d\<lparr>e_link_intr_cbs := e_link_intr_cbs d @
                 [\<lparr>cb_fn = fn, cb_arg = arg, cb_event = event, cb_active = False\<rparr>]\<rparr>) s))"

text \<open>The callbacks that the loop of \<open>rte_eth_dev_callback_unregister\<close> does not skip.\<close>

definition cb_selected :: "rte_eth_event_type \<Rightarrow> u64 \<Rightarrow> u64 \<Rightarrow> rte_eth_dev_callback \<Rightarrow> bool" where
  "cb_selected event fn arg c \<longleftrightarrow>
     \<not> (cb_fn c \<noteq> fn \<or> cb_event c \<noteq> event \<or> (cb_arg c \<noteq> - 1 \<and> cb_arg c \<noteq> arg))"

definition rte_eth_dev_callback_unregister ::
  "u8 \<Rightarrow> rte_eth_event_type \<Rightarrow> u64 \<Rightarrow> u64 \<Rightarrow> ('p, 'q, 'w) eth_state \<Rightarrow> int \<times> ('p, 'q, 'w) eth_state" where
  "rte_eth_dev_callback_unregister port_id event fn arg s =
     (if fn = 0 then (- EINVAL, s)
      else if \<not> rte_eth_dev_is_valid_port port_id s then (- EINVAL, s)
      else (let cbs = e_link_intr_cbs (s_devices s port_id);
                ret = (if \<exists>c \<in> set cbs. cb_selected event fn arg c \<and> cb_active c then - EAGAIN else 0)
            in (ret, upd_dev port_id (\<lambda>d. d\<lparr>e_link_intr_cbs :=
                       filter (\<lambda>c. \<not> (cb_selected event fn arg c \<and> \<not> cb_active c)) cbs\<rparr>) s)))"

text \<open>\<open>cb\<close> is the address of the new callback, 0 when its allocation fails. The result is the
  pointer returned and the value of \<open>rte_errno\<close> on failure.\<close>

definition rte_eth_add_rx_callback ::
  "u64 \<Rightarrow> u8 \<Rightarrow> u16 \<Rightarrow> u64 \<Rightarrow> ('p, 'q, 'w) eth_state \<Rightarrow> (u64 \<times> int) \<times> ('p, 'q, 'w) eth_state" where
  "rte_eth_add_rx_callback cb port_id queue_id fn s =
     (if \<not> rte_eth_dev_is_valid_port port_id s \<or> fn = 0 \<or> queue_id \<ge> d_nb_rx_queues (dev_data port_id s)
      then ((0, EINVAL), s)
      else if cb = 0 then ((0, ENOMEM), s)
      else ((cb, 0), upd_dev port_id (\<lambda>d. d\<lparr>e_post_rx_burst_cbs :=
              (e_post_rx_burst_cbs d)(queue_id := cb # e_post_rx_burst_cbs d queue_id)\<rparr>) s))"

definition rte_eth_add_tx_callback ::
  "u64 \<Rightarrow> u8 \<Rightarrow> u16 \<Rightarrow> u64 \<Rightarrow> ('p, 'q, 'w) eth_state \<Rightarrow> (u64 \<times> int) \<times> ('p, 'q, 'w) eth_state" where
  "rte_eth_add_tx_callback cb port_id queue_id fn s =
     (if \<not> rte_eth_dev_is_valid_port port_id s \<or> fn = 0 \<or> queue_id \<ge> d_nb_tx_queues (dev_data port_id s)
      then ((0, EINVAL), s)
      else if cb = 0 then ((0, ENOMEM), s)
      else ((cb, 0), upd_dev port_id (\<lambda>d. d\<lparr>e_pre_tx_burst_cbs :=
              (e_pre_tx_burst_cbs d)(queue_id := cb # e_pre_tx_burst_cbs d queue_id)\<rparr>) s))"

text \<open>The walk through a list of callbacks: on an empty list the head pointer NULL is followed.\<close>

definition remove_cb :: "u64 \<Rightarrow> u64 list \<Rightarrow> c_error + int \<times> u64 list" where
  "remove_cb user_cb cbs =
     (if cbs = [] then Inl Null_pointer
      else if user_cb \<in> set cbs then Inr (0, remove1 user_cb cbs)
      else Inr (- EINVAL, cbs))"

definition rte_eth_remove_rx_callback :: "u8 \<Rightarrow> u16 \<Rightarrow> u64 \<Rightarrow> (int, ('p, 'q, 'w) eth_state) op" where
  "rte_eth_remove_rx_callback port_id queue_id user_cb s =
     (if \<not> rte_eth_dev_is_valid_port port_id s \<or> user_cb = 0 \<or> queue_id \<ge> d_nb_rx_queues (dev_data port_id s)
      then Inr (- EINVAL, s)
      else bnd (remove_cb user_cb (e_post_rx_burst_cbs (s_devices s port_id) queue_id)) (\<lambda>(r, cbs).
             Inr (r, upd_dev port_id (\<lambda>d. d\<lparr>e_post_rx_burst_cbs := (e_post_rx_burst_cbs d)(queue_id := cbs)\<rparr>) s)))"

definition rte_eth_remove_tx_callback :: "u8 \<Rightarrow> u16 \<Rightarrow> u64 \<Rightarrow> (int, ('p, 'q, 'w) eth_state) op" where
  "rte_eth_remove_tx_callback port_id queue_id user_cb s =
     (if \<not> rte_eth_dev_is_valid_port port_id s \<or> user_cb = 0 \<or> queue_id \<ge> d_nb_tx_queues (dev_data port_id s)
      then Inr (- EINVAL, s)
      else bnd (remove_cb user_cb (e_pre_tx_burst_cbs (s_devices s port_id) queue_id)) (\<lambda>(r, cbs).
             Inr (r, upd_dev port_id (\<lambda>d. d\<lparr>e_pre_tx_burst_cbs := (e_pre_tx_burst_cbs d)(queue_id := cbs)\<rparr>) s)))"

end
