(* ===== verification/Eth_Ring.thy ===== *)
theory Eth_Ring
  imports Ethdev Ring_Queue
begin

text \<open>
  The ring driver, \<open>dpdk-2.0.0/lib/librte_pmd_ring/rte_eth_ring.c\<close>: Ethernet devices whose receive and
  transmit queues are rings of \<open>Ring\<close>. The memory the drivers share is the table of rings by address.
  A queue pointer is the entry of the private data it points to. The NUMA node, which only reaches the
  PCI structure, and the command line parser \<open>rte_pmd_ring_devinit\<close> are not modelled.
\<close>

section \<open>Data\<close>

type_synonym rings = "u64 \<Rightarrow> u64 rte_ring"

record ring_queue =
  rq_rng :: u64
  rq_rx_pkts :: u64
  rq_tx_pkts :: u64
  rq_err_pkts :: u64

record pmd_internals =
  pi_nb_rx_queues :: u32
  pi_nb_tx_queues :: u32
  pi_rx_ring_queues :: "nat \<Rightarrow> ring_queue"
  pi_tx_ring_queues :: "nat \<Rightarrow> ring_queue"

datatype ring_ref = Rx_queue nat | Tx_queue nat

type_synonym ring_data = "(pmd_internals, ring_ref) rte_eth_dev_data \<times> rings"

definition RTE_PMD_RING_MAX_RX_RINGS :: nat where "RTE_PMD_RING_MAX_RX_RINGS = 16"
definition RTE_PMD_RING_MAX_TX_RINGS :: nat where "RTE_PMD_RING_MAX_TX_RINGS = 16"

definition pmd_link :: rte_eth_link where
  "pmd_link = \<lparr>link_speed = 10000, link_duplex = ETH_LINK_FULL_DUPLEX, link_status = False\<rparr>"

text \<open>Reading and writing the queue behind a pointer.\<close>

fun ref_queue :: "ring_ref \<Rightarrow> pmd_internals \<Rightarrow> ring_queue" where
  "ref_queue (Rx_queue i) p = pi_rx_ring_queues p i"
| "ref_queue (Tx_queue i) p = pi_tx_ring_queues p i"

fun put_queue :: "ring_ref \<Rightarrow> ring_queue \<Rightarrow> pmd_internals \<Rightarrow> pmd_internals" where
  "put_queue (Rx_queue i) x p = p\<lparr>pi_rx_ring_queues := (pi_rx_ring_queues p)(i := x)\<rparr>"
| "put_queue (Tx_queue i) x p = p\<lparr>pi_tx_ring_queues := (pi_tx_ring_queues p)(i := x)\<rparr>"

definition with_queue ::
  "ring_ref option \<Rightarrow> (ring_queue \<Rightarrow> rings \<Rightarrow> c_error + 'r \<times> ring_queue \<times> rings) \<Rightarrow> ('r, ring_data) op" where
  "with_queue q f d =
     (case (q, d_private (fst d)) of
        (Some r, Some p) \<Rightarrow>
          bnd (f (ref_queue r p) (snd d)) (\<lambda>(x, rq, w). Inr (x, (fst d)\<lparr>d_private := Some (put_queue r rq p)\<rparr>, w))
      | _ \<Rightarrow> Inl Null_pointer)"

section \<open>Bursts\<close>

text \<open>The counter is incremented by the same amount, atomically or not, by the flags of the ring.\<close>

definition eth_ring_rx :: "u32 \<Rightarrow> ring_ref option \<Rightarrow> u16 \<Rightarrow> (u64 list, ring_data) op" where
  "eth_ring_rx lcore q nb_bufs =
     with_queue q (\<lambda>r w.
       case rte_ring_dequeue_burst lcore (w (rq_rng r)) (\<lambda>_. 0) (ucast nb_bufs) of
         None \<Rightarrow> Inl No_return
       | Some (n, bufs, ring) \<Rightarrow>
           (let nb_rx = ucast n :: u16
            in Inr (table_list bufs (unat nb_rx), r\<lparr>rq_rx_pkts := rq_rx_pkts r + ucast nb_rx\<rparr>,
                    w(rq_rng r := ring))))"

definition eth_ring_tx :: "u32 \<Rightarrow> ring_ref option \<Rightarrow> u64 list \<Rightarrow> (u16, ring_data) op" where
  "eth_ring_tx lcore q bufs =
     with_queue q (\<lambda>r w.
       (let nb_bufs = of_nat (length bufs) :: u16 in
        case rte_ring_enqueue_burst lcore (w (rq_rng r)) (\<lambda>i. bufs ! unat i) (ucast nb_bufs) of
          None \<Rightarrow> Inl No_return
        | Some (n, ring) \<Rightarrow>
            (let nb_tx = ucast n :: u16
             in Inr (nb_tx, r\<lparr>rq_tx_pkts := rq_tx_pkts r + ucast nb_tx,
                             rq_err_pkts := rq_err_pkts r + word_of_int (sint (ucast nb_bufs - ucast nb_tx :: u32))\<rparr>,
                     w(rq_rng r := ring)))))"

section \<open>Device operations\<close>

definition set_link :: "bool \<Rightarrow> ring_data \<Rightarrow> ring_data" where
  "set_link up d = ((fst d)\<lparr>d_link := (d_link (fst d))\<lparr>link_status := up\<rparr>\<rparr>, snd d)"

definition ring_dev_configure :: "(int, ring_data) op" where "ring_dev_configure d = Inr (0, d)"
definition ring_dev_start :: "(int, ring_data) op" where "ring_dev_start d = Inr (0, set_link True d)"
definition ring_dev_stop :: "(unit, ring_data) op" where "ring_dev_stop d = Inr ((), set_link False d)"
definition ring_dev_set_link_down :: "(int, ring_data) op" where
  "ring_dev_set_link_down d = Inr (0, set_link False d)"
definition ring_dev_set_link_up :: "(int, ring_data) op" where
  "ring_dev_set_link_up d = Inr (0, set_link True d)"

definition set_entry :: "nat \<Rightarrow> 'q \<Rightarrow> 'q option list option \<Rightarrow> c_error + 'q option list option" where
  "set_entry i q queues =
     (case queues of
        None \<Rightarrow> Inl Null_pointer
      | Some qs \<Rightarrow> if i \<ge> length qs then Inl (Heap_overflow (length qs) i) else Inr (Some (qs[i := Some q])))"

definition ring_rx_queue_setup :: "u16 \<Rightarrow> u16 \<Rightarrow> u32 \<Rightarrow> u64 \<Rightarrow> (int, ring_data) op" where
  "ring_rx_queue_setup rx_queue_id nb_rx_desc socket_id mb_pool d =
     bnd (set_entry (unat rx_queue_id) (Rx_queue (unat rx_queue_id)) (d_rx_queues (fst d)))
       (\<lambda>qs. Inr (0, (fst d)\<lparr>d_rx_queues := qs\<rparr>, snd d))"

definition ring_tx_queue_setup :: "u16 \<Rightarrow> u16 \<Rightarrow> u32 \<Rightarrow> (int, ring_data) op" where
  "ring_tx_queue_setup tx_queue_id nb_tx_desc socket_id d =
     bnd (set_entry (unat tx_queue_id) (Tx_queue (unat tx_queue_id)) (d_tx_queues (fst d)))
       (\<lambda>qs. Inr (0, (fst d)\<lparr>d_tx_queues := qs\<rparr>, snd d))"

definition ring_dev_info :: "ring_data \<Rightarrow> rte_eth_dev_info \<Rightarrow> c_error + rte_eth_dev_info" where
  "ring_dev_info d info =
     (case d_private (fst d) of
        None \<Rightarrow> Inl Null_pointer
      | Some p \<Rightarrow> Inr (info\<lparr>i_max_mac_addrs := 1, i_max_rx_pktlen := - 1,
                            i_max_rx_queues := ucast (pi_nb_rx_queues p), i_max_tx_queues := ucast (pi_nb_tx_queues p),
                            i_min_rx_bufsize := 0\<rparr>))"

definition RTE_ETHDEV_QUEUE_STAT_CNTRS :: nat where "RTE_ETHDEV_QUEUE_STAT_CNTRS = 16"

definition ring_stats_get :: "ring_data \<Rightarrow> rte_eth_stats \<Rightarrow> c_error + rte_eth_stats" where
  "ring_stats_get d st =
     (case d_private (fst d) of
        None \<Rightarrow> Inl Null_pointer
      | Some p \<Rightarrow>
          (let rxs = [0..<min RTE_ETHDEV_QUEUE_STAT_CNTRS (unat (pi_nb_rx_queues p))];
               txs = [0..<min RTE_ETHDEV_QUEUE_STAT_CNTRS (unat (pi_nb_tx_queues p))];
               rx = (\<lambda>i. rq_rx_pkts (pi_rx_ring_queues p i));
               tx = (\<lambda>i. rq_tx_pkts (pi_tx_ring_queues p i));
               er = (\<lambda>i. rq_err_pkts (pi_tx_ring_queues p i))
           in Inr (st\<lparr>st_q_ipackets := (\<lambda>i. if i \<in> set rxs then rx i else st_q_ipackets st i),
                      st_q_opackets := (\<lambda>i. if i \<in> set txs then tx i else st_q_opackets st i),
                      st_q_errors := (\<lambda>i. if i \<in> set txs then er i else st_q_errors st i),
                      st_ipackets := sum_list (map rx rxs), st_opackets := sum_list (map tx txs),
                      st_oerrors := sum_list (map er txs)\<rparr>)))"

definition ring_stats_reset :: "(unit, ring_data) op" where
  "ring_stats_reset d =
     (case d_private (fst d) of
        None \<Rightarrow> Inl Null_pointer
      | Some p \<Rightarrow>
          (let p = p\<lparr>pi_rx_ring_queues := (\<lambda>i. if i < unat (pi_nb_rx_queues p)
                       then (pi_rx_ring_queues p i)\<lparr>rq_rx_pkts := 0\<rparr> else pi_rx_ring_queues p i),
                     pi_tx_ring_queues := (\<lambda>i. if i < unat (pi_nb_tx_queues p)
                       then (pi_tx_ring_queues p i)\<lparr>rq_tx_pkts := 0, rq_err_pkts := 0\<rparr> else pi_tx_ring_queues p i)\<rparr>
           in Inr ((), (fst d)\<lparr>d_private := Some p\<rparr>, snd d)))"

definition no_op :: "(unit, ring_data) op" where "no_op d = Inr ((), d)"

text \<open>The table of operations; the entries that are not set are NULL.\<close>

definition ring_ops :: "(ring_ref, ring_data) eth_dev_ops" where
  "ring_ops = \<lparr>op_dev_configure = Some ring_dev_configure, op_dev_start = Some ring_dev_start,
     op_dev_stop = Some ring_dev_stop, op_dev_set_link_up = Some ring_dev_set_link_up,
     op_dev_set_link_down = Some ring_dev_set_link_down, op_dev_close = None,
     op_promiscuous_enable = None, op_promiscuous_disable = None, op_allmulticast_enable = None,
     op_allmulticast_disable = None, op_link_update = Some (\<lambda>_ d. Inr (0, d)), op_stats_get = Some ring_stats_get,
     op_stats_reset = Some ring_stats_reset, op_queue_stats_mapping_set = None,
     op_dev_infos_get = Some ring_dev_info, op_mtu_set = None, op_vlan_filter_set = None,
     op_rx_queue_start = None, op_rx_queue_stop = None, op_tx_queue_start = None, op_tx_queue_stop = None,
     op_rx_queue_setup = Some ring_rx_queue_setup, op_rx_queue_release = Some (\<lambda>_. no_op),
     op_tx_queue_setup = Some ring_tx_queue_setup, op_tx_queue_release = Some (\<lambda>_. no_op),
     op_mac_addr_add = Some (\<lambda>_ _ _. no_op), op_mac_addr_remove = Some (\<lambda>_. no_op),
     op_uc_hash_table_set = None\<rparr>"

section \<open>Creation\<close>

type_synonym ring_eth = "(pmd_internals, ring_ref, rings) eth_state"

definition zero_ring_queue :: ring_queue where
  "zero_ring_queue = \<lparr>rq_rng = 0, rq_rx_pkts = 0, rq_tx_pkts = 0, rq_err_pkts = 0\<rparr>"

definition from_rings_internals :: "(nat \<Rightarrow> u64) \<Rightarrow> u32 \<Rightarrow> (nat \<Rightarrow> u64) \<Rightarrow> u32 \<Rightarrow> pmd_internals" where
  "from_rings_internals rxs nb_rx txs nb_tx =
     \<lparr>pi_nb_rx_queues = nb_rx, pi_nb_tx_queues = nb_tx,
      pi_rx_ring_queues = (\<lambda>i. if i < unat nb_rx then zero_ring_queue\<lparr>rq_rng := rxs i\<rparr> else zero_ring_queue),
      pi_tx_ring_queues = (\<lambda>i. if i < unat nb_tx then zero_ring_queue\<lparr>rq_rng := txs i\<rparr> else zero_ring_queue)\<rparr>"

text \<open>
  \<open>grant k\<close> is whether the \<open>k\<close>-th allocation succeeds. The new data replaces the data of the port; its
  name stays empty. The arrays of queues have room for 16 rings each.
\<close>

definition rte_eth_from_rings ::
  "eth_env \<Rightarrow> (u8 \<Rightarrow> (pmd_internals, ring_ref) rte_eth_dev_data) \<Rightarrow> (nat \<Rightarrow> bool) \<Rightarrow> string \<Rightarrow>
   (nat \<Rightarrow> u64) option \<Rightarrow> u32 \<Rightarrow> (nat \<Rightarrow> u64) option \<Rightarrow> u32 \<Rightarrow> (int, ring_eth) op" where
  "rte_eth_from_rings env slot_data grant name rx_queues nb_rx_queues tx_queues nb_tx_queues s =
     (if rx_queues = None \<and> nb_rx_queues > 0 then Inr (- 1, s)
      else if tx_queues = None \<and> nb_tx_queues > 0 then Inr (- 1, s)
      else if \<not> grant 0 \<or> \<not> grant 1 \<or> \<not> grant 2 \<or> \<not> grant 3 then Inr (- 1, s)
      else bnd (rte_eth_dev_allocate env slot_data name RTE_ETH_DEV_VIRTUAL s) (\<lambda>(port, s).
        case port of
          None \<Rightarrow> Inr (- 1, s)
        | Some port \<Rightarrow>
            if \<not> grant 4 then Inr (- 1, s)
            else if unat nb_rx_queues > RTE_PMD_RING_MAX_RX_RINGS
            then Inl (Heap_overflow RTE_PMD_RING_MAX_RX_RINGS (unat nb_rx_queues))
            else if unat nb_tx_queues > RTE_PMD_RING_MAX_TX_RINGS
            then Inl (Heap_overflow RTE_PMD_RING_MAX_TX_RINGS (unat nb_tx_queues))
            else (let internals = from_rings_internals (case rx_queues of Some f \<Rightarrow> f | None \<Rightarrow> \<lambda>_. 0) nb_rx_queues
                        (case tx_queues of Some f \<Rightarrow> f | None \<Rightarrow> \<lambda>_. 0) nb_tx_queues;
                      data = zero_eth_data\<lparr>d_private := Some internals, d_port_id := d_port_id (dev_data port s),
                        d_nb_rx_queues := ucast nb_rx_queues, d_nb_tx_queues := ucast nb_tx_queues,
                        d_link := pmd_link, d_mac_addrs := [null_mac_addr]\<rparr>
                  in Inr (0, upd_dev port (\<lambda>d. d\<lparr>e_data := data, e_ops := Some ring_ops, e_link_intr_cbs := [],
                               e_intr_lsc := False, e_rx_pkt_burst := Some eth_ring_rx,
                               e_tx_pkt_burst := Some eth_ring_tx\<rparr>) s))))"

datatype dev_action = DEV_CREATE | DEV_ATTACH

text \<open>
  \<open>get_ring action name w\<close> is the ring of 1024 entries, single producer and consumer, that
  \<open>rte_ring_create\<close> or \<open>rte_ring_lookup\<close> returns for a name.
\<close>

fun get_rings ::
  "(dev_action \<Rightarrow> string \<Rightarrow> rings \<Rightarrow> u64 option \<times> rings) \<Rightarrow> dev_action \<Rightarrow> string list \<Rightarrow> rings \<Rightarrow> u64 list option \<times> rings" where
  "get_rings get_ring action [] w = (Some [], w)"
| "get_rings get_ring action (name # names) w =
     (case get_ring action (take (RTE_RING_NAMESIZE - 1) name) w of
        (None, w) \<Rightarrow> (None, w)
      | (Some r, w) \<Rightarrow> (case get_rings get_ring action names w of
            (None, w) \<Rightarrow> (None, w) | (Some rs, w) \<Rightarrow> (Some (r # rs), w)))"

definition eth_dev_ring_create ::
  "eth_env \<Rightarrow> (u8 \<Rightarrow> (pmd_internals, ring_ref) rte_eth_dev_data) \<Rightarrow> (nat \<Rightarrow> bool) \<Rightarrow>
   (dev_action \<Rightarrow> string \<Rightarrow> rings \<Rightarrow> u64 option \<times> rings) \<Rightarrow> string \<Rightarrow> dev_action \<Rightarrow> (int, ring_eth) op" where
  "eth_dev_ring_create env slot_data grant get_ring name action s =
     (let num_rings = min RTE_PMD_RING_MAX_RX_RINGS RTE_PMD_RING_MAX_TX_RINGS in
      case get_rings get_ring action (map (\<lambda>i. ''ETH_RXTX'' @ dec i @ ''_'' @ name) [0..<num_rings]) (s_shared s) of
        (None, w) \<Rightarrow> Inr (- 1, s\<lparr>s_shared := w\<rparr>)
      | (Some rxtx, w) \<Rightarrow>
          bnd (rte_eth_from_rings env slot_data grant name (Some (\<lambda>i. rxtx ! i)) (of_nat num_rings)
                 (Some (\<lambda>i. rxtx ! i)) (of_nat num_rings) (s\<lparr>s_shared := w\<rparr>))
            (\<lambda>(r, s). Inr (if r \<noteq> 0 then - 1 else 0, s)))"

end
