(* ===== verification/Ethdev_Spec.thy ===== *)
theory Ethdev_Spec
  imports Ethdev
begin

text \<open>
  Properties of the Ethernet device layer. The contract a driver keeps towards it is the locale
  \<open>eth_driver\<close>; what the layer guarantees for every such driver is proved inside it.
\<close>

section \<open>Access to devices\<close>

lemma dev_data_upd [simp]: "dev_data i (upd_data port f s) = (if i = port then f (dev_data port s) else dev_data i s)"
  by (simp add: dev_data_def upd_data_def upd_dev_def)

lemma upd_data_frame [simp]:
  "e_ops (s_devices (upd_data port f s) i) = e_ops (s_devices s i)"
  "e_attached (s_devices (upd_data port f s) i) = e_attached (s_devices s i)"
  "e_rx_pkt_burst (s_devices (upd_data port f s) i) = e_rx_pkt_burst (s_devices s i)"
  "e_tx_pkt_burst (s_devices (upd_data port f s) i) = e_tx_pkt_burst (s_devices s i)"
  "e_intr_lsc (s_devices (upd_data port f s) i) = e_intr_lsc (s_devices s i)"
  "e_max_vfs (s_devices (upd_data port f s) i) = e_max_vfs (s_devices s i)"
  "s_shared (upd_data port f s) = s_shared s" "s_nb_ports (upd_data port f s) = s_nb_ports s"
  by (simp_all add: upd_data_def upd_dev_def)

lemma valid_port_upd [simp]:
  "rte_eth_dev_is_valid_port i (upd_data port f s) = rte_eth_dev_is_valid_port i s"
  by (simp add: rte_eth_dev_is_valid_port_def)

lemma upd_data_twice [simp]: "upd_data port f (upd_data port g s) = upd_data port (\<lambda>d. f (g d)) s"
  by (simp add: upd_data_def upd_dev_def)

lemma shared_frame [simp]:
  "dev_data i (s\<lparr>s_shared := w\<rparr>) = dev_data i s"
  "rte_eth_dev_is_valid_port i (s\<lparr>s_shared := w\<rparr>) = rte_eth_dev_is_valid_port i s"
  "upd_data port f (s\<lparr>s_shared := w\<rparr>) = (upd_data port f s)\<lparr>s_shared := w\<rparr>"
  by (simp_all add: dev_data_def rte_eth_dev_is_valid_port_def upd_data_def upd_dev_def)

lemma drv_Inr:
  "drv port f s = Inr (r, s') \<longleftrightarrow>
     (\<exists>d w. f (dev_data port s, s_shared s) = Inr (r, d, w) \<and> s' = (upd_data port (\<lambda>_. d) s)\<lparr>s_shared := w\<rparr>)"
  by (auto simp: drv_def bnd_Inr_iff)

lemma with_op_eq [simp]:
  "e_ops (s_devices s port) = Some ops \<Longrightarrow>
   with_op port sel retval k s = (case sel ops of None \<Rightarrow> Inr (retval, s) | Some f \<Rightarrow> k f s)"
  by (simp add: with_op_def)

section \<open>The contract of a driver\<close>

text \<open>
  \<open>P\<close> is what the driver keeps of its private data and of the shared memory. An operation called
  while it holds returns, keeps it, and leaves to the device layer what belongs to the device layer: the
  number of queues, the length of the queue arrays, the configuration and the state of the device.
\<close>

definition same_shape :: "('p, 'q) rte_eth_dev_data \<Rightarrow> ('p, 'q) rte_eth_dev_data \<Rightarrow> bool" where
  "same_shape d d' \<longleftrightarrow> d_nb_rx_queues d' = d_nb_rx_queues d \<and> d_nb_tx_queues d' = d_nb_tx_queues d \<and>
     map_option length (d_rx_queues d') = map_option length (d_rx_queues d) \<and>
     map_option length (d_tx_queues d') = map_option length (d_tx_queues d) \<and>
     d_started d' = d_started d \<and> d_sriov d' = d_sriov d \<and> d_conf d' = d_conf d"

lemma same_shape_refl [simp]: "same_shape d d" by (simp add: same_shape_def)

lemma same_shape_trans: "same_shape a b \<Longrightarrow> same_shape b c \<Longrightarrow> same_shape a c" by (simp add: same_shape_def)

definition arrays_ok :: "('p, 'q) rte_eth_dev_data \<Rightarrow> bool" where
  "arrays_ok d \<longleftrightarrow> map_option length (d_rx_queues d) \<in> {None, Some (unat (d_nb_rx_queues d))} \<and>
     map_option length (d_tx_queues d) \<in> {None, Some (unat (d_nb_tx_queues d))}"

lemma same_shape_arrays: "same_shape d d' \<Longrightarrow> arrays_ok d' = arrays_ok d"
  by (simp add: same_shape_def arrays_ok_def)

definition good_op :: "('p option \<Rightarrow> 'w \<Rightarrow> bool) \<Rightarrow> ('r, ('p, 'q) rte_eth_dev_data \<times> 'w) op \<Rightarrow> bool" where
  "good_op P f \<longleftrightarrow> (\<forall>d w. P (d_private d) w \<longrightarrow>
     (\<exists>r d' w'. f (d, w) = Inr (r, d', w') \<and> P (d_private d') w' \<and> same_shape d d'))"

lemma good_opD:
  "good_op P f \<Longrightarrow> P (d_private d) w \<Longrightarrow> \<exists>r d' w'. f (d, w) = Inr (r, d', w') \<and> P (d_private d') w' \<and> same_shape d d'"
  by (simp add: good_op_def)

locale eth_driver =
  fixes ops :: "('q, ('p, 'q) rte_eth_dev_data \<times> 'w) eth_dev_ops"
    and P :: "'p option \<Rightarrow> 'w \<Rightarrow> bool"
    and configure :: "(int, ('p, 'q) rte_eth_dev_data \<times> 'w) op"
    and infos_get :: "('p, 'q) rte_eth_dev_data \<times> 'w \<Rightarrow> rte_eth_dev_info \<Rightarrow> c_error + rte_eth_dev_info"
    and release_rx release_tx :: "'q option \<Rightarrow> (unit, ('p, 'q) rte_eth_dev_data \<times> 'w) op"
  assumes op_configure: "op_dev_configure ops = Some configure"
    and op_infos: "op_dev_infos_get ops = Some infos_get"
    and op_release: "op_rx_queue_release ops = Some release_rx" "op_tx_queue_release ops = Some release_tx"
    and configure: "good_op P configure"
    and infos: "P (d_private d) w \<Longrightarrow> \<exists>j. infos_get (d, w) i = Inr j"
    and release: "good_op P (release_rx q)" "good_op P (release_tx q)"
begin

definition port_ok :: "u8 \<Rightarrow> ('p, 'q, 'w) eth_state \<Rightarrow> bool" where
  "port_ok port s \<longleftrightarrow> rte_eth_dev_is_valid_port port s \<and> e_ops (s_devices s port) = Some ops \<and>
     P (d_private (dev_data port s)) (s_shared s) \<and>
     arrays_ok (dev_data port s)"

lemma port_okD:
  assumes "port_ok port s"
  shows "rte_eth_dev_is_valid_port port s" "e_ops (s_devices s port) = Some ops"
    "P (d_private (dev_data port s)) (s_shared s)"
  using assms by (simp_all add: port_ok_def)

lemma drv_good:
  assumes "port_ok port s" and "good_op P f"
  shows "\<exists>r s'. drv port f s = Inr (r, s') \<and> port_ok port s' \<and> same_shape (dev_data port s) (dev_data port s')"
proof -
  obtain r d w where f: "f (dev_data port s, s_shared s) = Inr (r, d, w)" "P (d_private d) w"
      "same_shape (dev_data port s) d"
    using good_opD [OF assms(2) port_okD(3) [OF assms(1)]] by blast
  then have "port_ok port ((upd_data port (\<lambda>_. d) s)\<lparr>s_shared := w\<rparr>)"
    using assms(1) by (auto simp: port_ok_def same_shape_arrays)
  with f show ?thesis by (auto simp: drv_def)
qed

lemma release_queues_good:
  assumes "port_ok port s" and "\<And>q. good_op P (rel q)"
  shows "\<exists>s'. release_queues port rel qs is s = Inr ((), s') \<and> port_ok port s' \<and>
    same_shape (dev_data port s) (dev_data port s')"
  using assms(1)
proof (induction "is" arbitrary: s)
  case (Cons i "is")
  from drv_good [OF Cons.prems assms(2)] obtain s1 where
    "drv port (rel (qs ! i)) s = Inr ((), s1)" "port_ok port s1" "same_shape (dev_data port s) (dev_data port s1)"
    by auto
  with Cons.IH [of s1] show ?case by (auto intro: same_shape_trans)
qed simp

text \<open>What a change of one direction's queues leaves alone.\<close>

definition keeps_rx :: "('p, 'q) rte_eth_dev_data \<Rightarrow> ('p, 'q) rte_eth_dev_data \<Rightarrow> bool" where
  "keeps_rx d d' \<longleftrightarrow> d_nb_rx_queues d' = d_nb_rx_queues d \<and>
     map_option length (d_rx_queues d') = map_option length (d_rx_queues d)"

definition keeps_tx :: "('p, 'q) rte_eth_dev_data \<Rightarrow> ('p, 'q) rte_eth_dev_data \<Rightarrow> bool" where
  "keeps_tx d d' \<longleftrightarrow> d_nb_tx_queues d' = d_nb_tx_queues d \<and>
     map_option length (d_tx_queues d') = map_option length (d_tx_queues d)"

lemma port_ok_upd:
  assumes "port_ok port s" and "d_private (f (dev_data port s)) = d_private (dev_data port s)"
    and "arrays_ok (f (dev_data port s))"
  shows "port_ok port (upd_data port f s)"
  using assms by (simp add: port_ok_def)

lemma rx_config_good:
  assumes "port_ok port s"
  shows "\<exists>r s'. rte_eth_dev_rx_queue_config env port nb s = Inr (r, s') \<and> port_ok port s' \<and> r \<in> {0, - ENOMEM} \<and>
    keeps_tx (dev_data port s) (dev_data port s') \<and> d_started (dev_data port s') = d_started (dev_data port s) \<and>
    (r = 0 \<longrightarrow> d_nb_rx_queues (dev_data port s') = nb \<and> d_rx_queues (dev_data port s') \<noteq> None)"
proof (cases "d_rx_queues (dev_data port s)")
  case None
  then show ?thesis using assms
    by (auto simp: rte_eth_dev_rx_queue_config_def Let_def keeps_tx_def arrays_ok_def intro!: port_ok_upd)
       (auto simp: port_ok_def arrays_ok_def ENOMEM_def)
next
  case (Some rxq)
  note ok = port_okD [OF assms]
  obtain s1 where s1: "release_queues port release_rx rxq [unat nb..<unat (d_nb_rx_queues (dev_data port s))] s = Inr ((), s1)"
      "port_ok port s1" "same_shape (dev_data port s) (dev_data port s1)"
    using release_queues_good [OF assms, of release_rx] release(1) by blast
  have 2: "port_ok port (upd_data port (\<lambda>d. d\<lparr>d_rx_queues := Some (resize_queues m (unat nb) rxq), d_nb_rx_queues := nb\<rparr>) s1)" for m
    using s1(2) by (intro port_ok_upd) (auto simp: arrays_ok_def resize_queues_def port_ok_def)
  show ?thesis
    using Some s1 2 ok(2) op_release
    by (simp add: rte_eth_dev_rx_queue_config_def Let_def keeps_tx_def same_shape_def ENOMEM_def)
qed

lemma tx_config_good:
  assumes "port_ok port s"
  shows "\<exists>r s'. rte_eth_dev_tx_queue_config env port nb s = Inr (r, s') \<and> port_ok port s' \<and> r \<in> {0, - ENOMEM} \<and>
    keeps_rx (dev_data port s) (dev_data port s') \<and> d_started (dev_data port s') = d_started (dev_data port s) \<and>
    (r = 0 \<longrightarrow> d_nb_tx_queues (dev_data port s') = nb \<and> d_tx_queues (dev_data port s') \<noteq> None)"
proof (cases "d_tx_queues (dev_data port s)")
  case None
  then show ?thesis using assms
    by (auto simp: rte_eth_dev_tx_queue_config_def Let_def keeps_rx_def arrays_ok_def intro!: port_ok_upd)
       (auto simp: port_ok_def arrays_ok_def ENOMEM_def)
next
  case (Some txq)
  note ok = port_okD [OF assms]
  obtain s1 where s1: "release_queues port release_tx txq [unat nb..<unat (d_nb_tx_queues (dev_data port s))] s = Inr ((), s1)"
      "port_ok port s1" "same_shape (dev_data port s) (dev_data port s1)"
    using release_queues_good [OF assms, of release_tx] release(2) by blast
  have 2: "port_ok port (upd_data port (\<lambda>d. d\<lparr>d_tx_queues := Some (resize_queues m (unat nb) txq), d_nb_tx_queues := nb\<rparr>) s1)" for m
    using s1(2) by (intro port_ok_upd) (auto simp: arrays_ok_def resize_queues_def port_ok_def)
  show ?thesis
    using Some s1 2 ok(2) op_release
    by (simp add: rte_eth_dev_tx_queue_config_def Let_def keeps_rx_def same_shape_def ENOMEM_def)
qed

text \<open>The number of queues after a successful configuration.\<close>

definition configured :: "u8 \<Rightarrow> u16 \<Rightarrow> u16 \<Rightarrow> ('p, 'q, 'w) eth_state \<Rightarrow> bool" where
  "configured port nrx ntx s \<longleftrightarrow>
     d_nb_rx_queues (dev_data port s) = nrx \<and> map_option length (d_rx_queues (dev_data port s)) = Some (unat nrx) \<and>
     d_nb_tx_queues (dev_data port s) = ntx \<and> map_option length (d_tx_queues (dev_data port s)) = Some (unat ntx)"

lemma configure_queues_good:
  assumes "port_ok port s"
  shows "\<exists>r s'. configure_queues env port nrx ntx s = Inr (r, s') \<and> port_ok port s' \<and>
    d_started (dev_data port s') = d_started (dev_data port s) \<and> (r = 0 \<longrightarrow> configured port nrx ntx s')"
proof -
  obtain r1 s1 where 1: "rte_eth_dev_rx_queue_config env port nrx s = Inr (r1, s1)" "port_ok port s1"
      "d_started (dev_data port s1) = d_started (dev_data port s)"
      "r1 = 0 \<longrightarrow> d_nb_rx_queues (dev_data port s1) = nrx \<and> d_rx_queues (dev_data port s1) \<noteq> None"
    using rx_config_good [OF assms] by blast
  obtain r2 s2 where 2: "rte_eth_dev_tx_queue_config env port ntx s1 = Inr (r2, s2)" "port_ok port s2"
      "keeps_rx (dev_data port s1) (dev_data port s2)" "d_started (dev_data port s2) = d_started (dev_data port s1)"
      "r2 = 0 \<longrightarrow> d_nb_tx_queues (dev_data port s2) = ntx \<and> d_tx_queues (dev_data port s2) \<noteq> None"
    using tx_config_good [OF 1(2)] by blast
  obtain r2' s2' where u: "rte_eth_dev_rx_queue_config env port 0 s2 = Inr (r2', s2')" "port_ok port s2'"
      "d_started (dev_data port s2') = d_started (dev_data port s2)" using rx_config_good [OF 2(2)] by blast
  obtain r3 s3 where 3: "drv port configure s2 = Inr (r3, s3)" "port_ok port s3"
      "same_shape (dev_data port s2) (dev_data port s3)" using drv_good [OF 2(2) configure] by blast
  obtain r4 s4 where 4: "rte_eth_dev_rx_queue_config env port 0 s3 = Inr (r4, s4)" "port_ok port s4"
      "d_started (dev_data port s4) = d_started (dev_data port s3)" using rx_config_good [OF 3(2)] by blast
  obtain r5 s5 where 5: "rte_eth_dev_tx_queue_config env port 0 s4 = Inr (r5, s5)" "port_ok port s5"
      "d_started (dev_data port s5) = d_started (dev_data port s4)" using tx_config_good [OF 4(2)] by blast
  have "configured port nrx ntx s3" if "r1 = 0" "r2 = 0"
    using that 1(4) 2(3,5) 3(2,3)
    by (auto simp: configured_def keeps_rx_def same_shape_def port_ok_def arrays_ok_def)
  then show ?thesis
    using 1(1-3) 2(1,2,4) u 3 4 5 port_okD(2) [OF 2(2)] op_configure
    by (auto simp: configure_queues_def same_shape_def)
qed

text \<open>The checks before the queues write at most the configuration and the virtual functions' data.\<close>

definition checks :: "u8 \<Rightarrow> ('p, 'q, 'w) eth_state \<Rightarrow> ('p, 'q, 'w) eth_state \<Rightarrow> bool" where
  "checks port s s' \<longleftrightarrow> (port_ok port s \<longrightarrow> port_ok port s') \<and>
     d_started (dev_data port s') = d_started (dev_data port s)"

lemma checks_refl [simp]: "checks port s s" by (simp add: checks_def)

lemma checks_trans: "checks port a b \<Longrightarrow> checks port b c \<Longrightarrow> checks port a c" by (auto simp: checks_def)

lemma checks_upd [simp]:
  "checks port s (upd_data port (\<lambda>d. d\<lparr>d_conf := c d\<rparr>) s)" "checks port s (upd_data port (\<lambda>d. d\<lparr>d_sriov := v d\<rparr>) s)"
  "checks port s (upd_data port (\<lambda>d. d\<lparr>d_conf := c d, d_sriov := v d\<rparr>) s)"
  by (auto simp: checks_def arrays_ok_def port_ok_def)

lemma vf_rss_checks: "rte_eth_dev_check_vf_rss_rxq_num port nrx s = (r, s') \<Longrightarrow> checks port s s'"
  by (auto simp: rte_eth_dev_check_vf_rss_rxq_num_def Let_def split: if_splits)

lemma sriov_rx_checks: "check_mq_sriov_rx port nrx c s = (r, s') \<Longrightarrow> checks port s s'"
  by (auto simp: check_mq_sriov_rx_def Let_def split: if_splits prod.splits
      intro: checks_trans [OF checks_upd(1)] dest: vf_rss_checks)

lemma sriov_checks: "check_mq_sriov port nrx ntx c s = (r, s') \<Longrightarrow> checks port s s'"
  by (auto simp: check_mq_sriov_def Let_def split: if_splits prod.splits
      intro: checks_trans [OF _ checks_upd(1)] dest: sriov_rx_checks)

lemma mq_mode_checks: "rte_eth_dev_check_mq_mode port nrx ntx c s = (r, s') \<Longrightarrow> checks port s s'"
  by (auto simp: rte_eth_dev_check_mq_mode_def dest: sriov_checks split: if_splits)

lemma length_checks: "configure_length port c i s = (r, s') \<Longrightarrow> checks port s s'"
  by (auto simp: configure_length_def split: if_splits)

lemma configure_good:
  assumes "port_ok port s" and "env_primary env"
  shows "\<exists>r s'. rte_eth_dev_configure env port nrx ntx c s = Inr (r, s') \<and> port_ok port s' \<and>
    d_started (dev_data port s') = d_started (dev_data port s) \<and>
    (d_started (dev_data port s) \<longrightarrow> r \<noteq> 0 \<and> s' = s) \<and>
    (r = 0 \<longrightarrow> 0 < nrx \<and> nrx \<le> 256 \<and> 0 < ntx \<and> ntx \<le> 256 \<and> configured port nrx ntx s')"
proof -
  note ok = port_okD [OF assms(1)]
  obtain i where i: "infos_get (dev_data port s, s_shared s) (env_stack_info env) = Inr i"
    using infos [OF ok(3)] by blast
  let ?s = "upd_data port (\<lambda>d. d\<lparr>d_conf := c\<rparr>) s"
  obtain r1 s1 where 1: "configure_length port c i ?s = (r1, s1)" by fastforce
  obtain r2 s2 where 2: "rte_eth_dev_check_mq_mode port nrx ntx c s1 = (r2, s2)" by fastforce
  have c0: "checks port s ?s" using checks_upd(1) [of port s "\<lambda>_. c"] by simp
  have c1: "checks port s s1" using length_checks [OF 1] c0 checks_trans by blast
  have c2: "checks port s s2" using mq_mode_checks [OF 2] c1 checks_trans by blast
  obtain r3 s3 where 3: "configure_queues env port nrx ntx s2 = Inr (r3, s3)" "port_ok port s3"
      "d_started (dev_data port s3) = d_started (dev_data port s2)" "r3 = 0 \<longrightarrow> configured port nrx ntx s3"
    using configure_queues_good c2 assms(1) unfolding checks_def by blast
  have "port_ok port ?s" using c0 assms(1) unfolding checks_def by blast
  then show ?thesis
    using assms ok i 1 2 3 c1 c2 op_configure op_infos
    by (auto simp: rte_eth_dev_configure_def checks_def Let_def RTE_MAX_QUEUES_PER_PORT_def EINVAL_def EBUSY_def
        word_gt_0 not_less)
qed

end

end
