(* ===== verification/Eth_Ring_Spec.thy ===== *)
theory Eth_Ring_Spec
  imports Eth_Ring Ethdev_Spec
begin

text \<open>
  Properties of devices on rings: the driver keeps the contract of \<open>Ethdev_Spec\<close>, a new port goes through
  configuration, queue set-up and start, and a started port is a queue of packets.
\<close>

section \<open>The contract\<close>

lemma same_shape_simps [simp]:
  "same_shape d (d\<lparr>d_link := l\<rparr>)" "same_shape d (d\<lparr>d_private := p\<rparr>)"
  by (simp_all add: same_shape_def)

interpretation ringdrv: eth_driver ring_ops "\<lambda>p w. p \<noteq> None" ring_dev_configure ring_dev_info "\<lambda>_. no_op" "\<lambda>_. no_op"
proof
  show "good_op (\<lambda>p w. p \<noteq> None) ring_dev_configure" "good_op (\<lambda>p w. p \<noteq> None) no_op"
    by (auto simp: good_op_def ring_dev_configure_def no_op_def)
qed (auto simp: ring_ops_def ring_dev_info_def)

section \<open>Bursts on a ring\<close>

lemma ucast_low: "ucast (word_of_int k :: u32) = (word_of_int k :: u16)"
  by (rule bit_word_eqI) (simp add: bit_ucast_iff bit_word_of_int_iff)

lemma enqueue_burst_moves:
  fixes n :: u32
  assumes ok: "ring_ok r"
  defines "m \<equiv> min (unat n) (ring_cap r - ring_used r)"
  shows "\<exists>ret r'. rte_ring_enqueue_burst lcore r tbl n = Some (ret, r') \<and> ring_ok r' \<and> ring_cap r' = ring_cap r \<and>
    ring_items r' = ring_items r @ table_list tbl m \<and> (ucast ret :: u16) = of_nat m"
proof -
  obtain ret r' where run: "rte_ring_sp_do_enqueue lcore r tbl n RTE_RING_QUEUE_VARIABLE = (ret, r')" by force
  have both: "rte_ring_enqueue_burst lcore r tbl n = Some (word_of_int ret, r')"
    using mp_do_enqueue_eq_sp [of r lcore tbl n] ring_okD(6) [OF ok] run
    by (simp add: rte_ring_enqueue_burst_def rte_ring_sp_enqueue_burst_def rte_ring_mp_enqueue_burst_def)
  note moves = sp_enqueue_moves [OF ok run]
  have m: "(if enq_fails r (unat n) RTE_RING_QUEUE_VARIABLE then 0
      else moved (ring_cap r - ring_used r) (unat n) RTE_RING_QUEUE_VARIABLE) = m"
    using ring_okD(8) [OF ok] by (auto simp: m_def enq_fails_def moved_def)
  have "ret = int m \<or> ret = int m - 2 ^ 31"
    using moves(4) ring_okD(8) [OF ok]
    by (auto simp: enq_result_def m_def moved_def Let_def split: if_splits)
  moreover have "ucast (word_of_int (int m - 2 ^ 31) :: u32) = (of_nat m :: u16)"
    unfolding ucast_low by simp
  moreover have "ucast (word_of_int (int m) :: u32) = (of_nat m :: u16)"
    unfolding ucast_low by simp
  ultimately have "(ucast (word_of_int ret :: u32) :: u16) = of_nat m"
    by metis
  with both moves(1-3) m show ?thesis by simp
qed

lemma dequeue_burst_moves:
  fixes n :: u32
  assumes ok: "ring_ok r"
  defines "m \<equiv> min (unat n) (ring_used r)"
  shows "\<exists>ret tbl' r'. rte_ring_dequeue_burst lcore r tbl n = Some (ret, tbl', r') \<and> ring_ok r' \<and> ring_cap r' = ring_cap r \<and>
    ring_items r' = drop m (ring_items r) \<and> table_list tbl' m = take m (ring_items r) \<and> (ucast ret :: u16) = of_nat m"
proof -
  obtain ret tbl' r' where run: "rte_ring_sc_do_dequeue lcore r tbl n RTE_RING_QUEUE_VARIABLE = (ret, tbl', r')"
    using prod_cases3 by blast
  have both: "rte_ring_dequeue_burst lcore r tbl n = Some (word_of_int ret, tbl', r')"
    using mc_do_dequeue_eq_sc [of r lcore tbl n] ring_okD(7) [OF ok] run
    by (simp add: rte_ring_dequeue_burst_def rte_ring_sc_dequeue_burst_def rte_ring_mc_dequeue_burst_def)
  note moves = sc_dequeue_moves [OF ok run]
  have m: "(if deq_fails r (unat n) RTE_RING_QUEUE_VARIABLE then 0
      else moved (ring_used r) (unat n) RTE_RING_QUEUE_VARIABLE) = m"
    by (auto simp: m_def deq_fails_def moved_def)
  have "ret = int m" using moves(6) by (simp add: deq_result_def m_def)
  moreover have "ucast (word_of_int (int m) :: u32) = (of_nat m :: u16)" unfolding ucast_low by simp
  ultimately show ?thesis using both moves(1-4) unfolding m by auto
qed

text \<open>The driver's burst functions on a queue whose ring is well formed.\<close>

lemma ring_tx_burst:
  assumes ok: "ring_ok (w (rq_rng (ref_queue q p)))" and p: "d_private d = Some p" and len: "length bufs < 65536"
  defines "r \<equiv> w (rq_rng (ref_queue q p))"
  defines "k \<equiv> min (length bufs) (ring_cap r - ring_used r)"
  shows "\<exists>rq r'. eth_ring_tx lcore (Some q) bufs (d, w) =
      Inr (of_nat k, d\<lparr>d_private := Some (put_queue q rq p)\<rparr>, w(rq_rng (ref_queue q p) := r')) \<and>
    rq_rng rq = rq_rng (ref_queue q p) \<and> ring_ok r' \<and> ring_cap r' = ring_cap r \<and> ring_items r' = ring_items r @ take k bufs"
proof -
  let ?n = "ucast (of_nat (length bufs) :: u16) :: u32"
  have n: "unat ?n = length bufs" using len by (simp add: unat_of_nat)
  obtain ret r' where run: "rte_ring_enqueue_burst lcore r (\<lambda>i. bufs ! unat i) ?n = Some (ret, r')" "ring_ok r'"
      "ring_cap r' = ring_cap r" "ring_items r' = ring_items r @ table_list (\<lambda>i. bufs ! unat i) k"
      "(ucast ret :: u16) = of_nat k"
    using enqueue_burst_moves [of r lcore "\<lambda>i. bufs ! unat i" ?n] ok unfolding n k_def r_def by auto
  have "k \<le> length bufs" by (simp add: k_def)
  then have "table_list (\<lambda>i. bufs ! unat i) k = take k bufs"
    using len by (auto intro!: nth_equalityI simp: unat_of_nat)
  let ?rq = "(ref_queue q p)\<lparr>rq_tx_pkts := rq_tx_pkts (ref_queue q p) + ucast (of_nat k :: u16),
    rq_err_pkts := rq_err_pkts (ref_queue q p) + word_of_int (sint (?n - ucast (of_nat k :: u16) :: u32))\<rparr>"
  have "eth_ring_tx lcore (Some q) bufs (d, w) =
      Inr (of_nat k, d\<lparr>d_private := Some (put_queue q ?rq p)\<rparr>, w(rq_rng (ref_queue q p) := r'))"
    using run(1,5) by (simp add: eth_ring_tx_def with_queue_def p Let_def r_def)
  with run(2-4) \<open>table_list _ k = _\<close> show ?thesis
    by (intro exI [of _ ?rq] exI [of _ r']) simp
qed

lemma ring_rx_burst:
  fixes nb :: u16
  assumes ok: "ring_ok (w (rq_rng (ref_queue q p)))" and p: "d_private d = Some p"
  defines "r \<equiv> w (rq_rng (ref_queue q p))"
  defines "k \<equiv> min (unat nb) (ring_used r)"
  shows "\<exists>rq r'. eth_ring_rx lcore (Some q) nb (d, w) =
      Inr (take k (ring_items r), d\<lparr>d_private := Some (put_queue q rq p)\<rparr>, w(rq_rng (ref_queue q p) := r')) \<and>
    rq_rng rq = rq_rng (ref_queue q p) \<and> ring_ok r' \<and> ring_cap r' = ring_cap r \<and> ring_items r' = drop k (ring_items r)"
proof -
  have n: "unat (ucast nb :: u32) = unat nb" by simp
  obtain ret tbl r' where run: "rte_ring_dequeue_burst lcore r (\<lambda>_. 0) (ucast nb) = Some (ret, tbl, r')" "ring_ok r'"
      "ring_cap r' = ring_cap r" "ring_items r' = drop k (ring_items r)" "table_list tbl k = take k (ring_items r)"
      "(ucast ret :: u16) = of_nat k"
    using dequeue_burst_moves [of r lcore "\<lambda>_. 0" "ucast nb"] ok unfolding n k_def r_def by auto
  have "k < 65536" using unsigned_less [of nb, where 'a = nat] by (auto simp: k_def)
  then have "unat (ucast ret :: u16) = k" using run(6) by (simp add: unat_of_nat)
  let ?rq = "(ref_queue q p)\<lparr>rq_rx_pkts := rq_rx_pkts (ref_queue q p) + ucast (ucast ret :: u16)\<rparr>"
  have "eth_ring_rx lcore (Some q) nb (d, w) =
      Inr (take k (ring_items r), d\<lparr>d_private := Some (put_queue q ?rq p)\<rparr>, w(rq_rng (ref_queue q p) := r'))"
    using run(1,5) \<open>unat _ = k\<close> by (simp add: eth_ring_rx_def with_queue_def p Let_def r_def)
  with run(2-4) show ?thesis
    by (intro exI [of _ ?rq] exI [of _ r']) simp
qed

section \<open>A started port\<close>

text \<open>Queue \<open>q\<close> of the port is set up in both directions, on the ring at address \<open>a\<close>.\<close>

definition loop_port :: "u8 \<Rightarrow> u16 \<Rightarrow> u64 \<Rightarrow> ring_eth \<Rightarrow> bool" where
  "loop_port port q a s \<longleftrightarrow> rte_eth_dev_is_valid_port port s \<and>
     e_rx_pkt_burst (s_devices s port) = Some eth_ring_rx \<and> e_tx_pkt_burst (s_devices s port) = Some eth_ring_tx \<and>
     q < d_nb_rx_queues (dev_data port s) \<and> q < d_nb_tx_queues (dev_data port s) \<and>
     map_option (\<lambda>qs. qs ! unat q) (d_rx_queues (dev_data port s)) = Some (Some (Rx_queue (unat q))) \<and>
     map_option (\<lambda>qs. qs ! unat q) (d_tx_queues (dev_data port s)) = Some (Some (Tx_queue (unat q))) \<and>
     (\<exists>p. d_private (dev_data port s) = Some p \<and> rq_rng (pi_rx_ring_queues p (unat q)) = a \<and>
        rq_rng (pi_tx_ring_queues p (unat q)) = a) \<and>
     ring_ok (s_shared s a)"

lemma loop_tx:
  assumes "loop_port port q a s" and "length pkts < 65536"
  shows "\<exists>k s'. rte_eth_tx_burst lcore port q pkts s = Inr (k, s') \<and> loop_port port q a s' \<and>
    unat k = min (length pkts) (ring_cap (s_shared s a) - ring_used (s_shared s a)) \<and>
    ring_cap (s_shared s' a) = ring_cap (s_shared s a) \<and>
    ring_items (s_shared s' a) = ring_items (s_shared s a) @ take (unat k) pkts"
proof -
  from assms(1) obtain p qs where p: "d_private (dev_data port s) = Some p" "rq_rng (pi_rx_ring_queues p (unat q)) = a"
      "rq_rng (pi_tx_ring_queues p (unat q)) = a"
    and qs: "d_tx_queues (dev_data port s) = Some qs" "qs ! unat q = Some (Tx_queue (unat q))"
    by (auto simp: loop_port_def)
  have ok: "ring_ok (s_shared s (rq_rng (ref_queue (Tx_queue (unat q)) p)))" using assms(1) p by (simp add: loop_port_def)
  let ?k = "min (length pkts) (ring_cap (s_shared s a) - ring_used (s_shared s a))"
  obtain rq r' where tx: "eth_ring_tx lcore (Some (Tx_queue (unat q))) pkts (dev_data port s, s_shared s) =
      Inr (of_nat ?k, (dev_data port s)\<lparr>d_private := Some (put_queue (Tx_queue (unat q)) rq p)\<rparr>, (s_shared s)(a := r'))"
      "rq_rng rq = a" "ring_ok r'" "ring_cap r' = ring_cap (s_shared s a)"
      "ring_items r' = ring_items (s_shared s a) @ take ?k pkts"
    using ring_tx_burst [of "s_shared s" "Tx_queue (unat q)" p, OF ok p(1) assms(2), of lcore] p(3) by auto
  have "unat (of_nat ?k :: u16) = ?k" using assms(2) by (simp add: unat_of_nat min_def)
  with assms(1) tx qs p show ?thesis
    by (auto simp: rte_eth_tx_burst_def drv_def loop_port_def)
qed

lemma loop_rx:
  assumes "loop_port port q a s"
  shows "\<exists>pkts s'. rte_eth_rx_burst lcore port q nb s = Inr (pkts, s') \<and> loop_port port q a s' \<and>
    pkts = take (unat nb) (ring_items (s_shared s a)) \<and> ring_cap (s_shared s' a) = ring_cap (s_shared s a) \<and>
    ring_items (s_shared s' a) = drop (unat nb) (ring_items (s_shared s a))"
proof -
  from assms obtain p qs where p: "d_private (dev_data port s) = Some p" "rq_rng (pi_rx_ring_queues p (unat q)) = a"
      "rq_rng (pi_tx_ring_queues p (unat q)) = a"
    and qs: "d_rx_queues (dev_data port s) = Some qs" "qs ! unat q = Some (Rx_queue (unat q))"
    by (auto simp: loop_port_def)
  have ok: "ring_ok (s_shared s (rq_rng (ref_queue (Rx_queue (unat q)) p)))" using assms p by (simp add: loop_port_def)
  let ?k = "min (unat nb) (ring_used (s_shared s a))"
  obtain rq r' where rx: "eth_ring_rx lcore (Some (Rx_queue (unat q))) nb (dev_data port s, s_shared s) =
      Inr (take ?k (ring_items (s_shared s a)),
        (dev_data port s)\<lparr>d_private := Some (put_queue (Rx_queue (unat q)) rq p)\<rparr>, (s_shared s)(a := r'))"
      "rq_rng rq = a" "ring_ok r'" "ring_cap r' = ring_cap (s_shared s a)"
      "ring_items r' = drop ?k (ring_items (s_shared s a))"
    using ring_rx_burst [of "s_shared s" "Rx_queue (unat q)" p, OF ok p(1), where lcore = lcore and nb = nb] p(2) by auto
  have "take ?k (ring_items (s_shared s a)) = take (unat nb) (ring_items (s_shared s a))"
    "drop ?k (ring_items (s_shared s a)) = drop (unat nb) (ring_items (s_shared s a))" by (auto simp: min_def)
  with assms rx qs p show ?thesis
    by (auto simp: rte_eth_rx_burst_def drv_def loop_port_def)
qed

text \<open>Sequences of bursts on a queue: the packets received and the packets the driver took.\<close>

datatype burst = Rx u16 | Tx "u64 list"

fun burst_run :: "u32 \<Rightarrow> u8 \<Rightarrow> u16 \<Rightarrow> burst list \<Rightarrow> ring_eth \<Rightarrow> c_error + (u64 list \<times> u64 list) \<times> ring_eth" where
  "burst_run lcore port q [] s = Inr (([], []), s)"
| "burst_run lcore port q (Rx n # bs) s =
     bnd (rte_eth_rx_burst lcore port q n s) (\<lambda>(pkts, s).
     bnd (burst_run lcore port q bs s) (\<lambda>((rx, tx), s). Inr ((pkts @ rx, tx), s)))"
| "burst_run lcore port q (Tx pkts # bs) s =
     bnd (rte_eth_tx_burst lcore port q pkts s) (\<lambda>(k, s).
     bnd (burst_run lcore port q bs s) (\<lambda>((rx, tx), s). Inr ((rx, take (unat k) pkts @ tx), s)))"

text \<open>C31: On a started port of the ring driver whose queue receives from the ring it sends to, any sequence of
  bursts returns without an error, and the packets come back exactly in the order the driver took them:
  what was waiting followed by what was taken is what was received followed by what is waiting.\<close>
theorem ring_port_fifo:
  assumes "loop_port port q a s" and "\<forall>pkts. Tx pkts \<in> set bs \<longrightarrow> length pkts < 65536"
  shows "\<exists>rx tx s'. burst_run lcore port q bs s = Inr ((rx, tx), s') \<and> loop_port port q a s' \<and>
    ring_items (s_shared s a) @ tx = rx @ ring_items (s_shared s' a)"
  using assms
proof (induction bs arbitrary: s)
  case (Cons b bs)
  show ?case
  proof (cases b)
    case (Rx n)
    obtain pkts s1 where 1: "rte_eth_rx_burst lcore port q n s = Inr (pkts, s1)" "loop_port port q a s1"
        "pkts = take (unat n) (ring_items (s_shared s a))"
        "ring_items (s_shared s1 a) = drop (unat n) (ring_items (s_shared s a))"
      using loop_rx [OF Cons.prems(1)] by blast
    obtain rx tx s' where "burst_run lcore port q bs s1 = Inr ((rx, tx), s')" "loop_port port q a s'"
        "ring_items (s_shared s1 a) @ tx = rx @ ring_items (s_shared s' a)"
      using Cons.IH [OF 1(2)] Cons.prems(2) by auto
    moreover have "ring_items (s_shared s a) = pkts @ ring_items (s_shared s1 a)" using 1(3,4) by simp
    ultimately show ?thesis using 1(1) Rx by simp
  next
    case (Tx pkts)
    obtain k s1 where 1: "rte_eth_tx_burst lcore port q pkts s = Inr (k, s1)" "loop_port port q a s1"
        "ring_items (s_shared s1 a) = ring_items (s_shared s a) @ take (unat k) pkts"
      using loop_tx [OF Cons.prems(1), of pkts lcore] Cons.prems(2) Tx by auto
    obtain rx tx s' where "burst_run lcore port q bs s1 = Inr ((rx, tx), s')" "loop_port port q a s'"
        "ring_items (s_shared s1 a) @ tx = rx @ ring_items (s_shared s' a)"
      using Cons.IH [OF 1(2)] Cons.prems(2) by auto
    with 1 Tx show ?thesis by auto
  qed
qed simp

section \<open>From rings to a started port\<close>

text \<open>A device's data written as a whole, a normal form for the states a sequence of calls leaves.\<close>

definition set_data :: "u8 \<Rightarrow> ('p, 'q) rte_eth_dev_data \<Rightarrow> ('p, 'q, 'w) eth_state \<Rightarrow> ('p, 'q, 'w) eth_state" where
  "set_data port d s = upd_data port (\<lambda>_. d) s"

lemma upd_set: "upd_data port f s = set_data port (f (dev_data port s)) s"
  by (simp add: set_data_def upd_data_def upd_dev_def dev_data_def)

lemma set_data_simps [simp]:
  "dev_data port (set_data port d s) = d" "set_data port d (set_data port e s) = set_data port d s"
  "s_shared (set_data port d s) = s_shared s" "(set_data port d s)\<lparr>s_shared := s_shared s\<rparr> = set_data port d s"
  "e_ops (s_devices (set_data port d s) i) = e_ops (s_devices s i)"
  "e_rx_pkt_burst (s_devices (set_data port d s) i) = e_rx_pkt_burst (s_devices s i)"
  "e_tx_pkt_burst (s_devices (set_data port d s) i) = e_tx_pkt_burst (s_devices s i)"
  "e_intr_lsc (s_devices (set_data port d s) i) = e_intr_lsc (s_devices s i)"
  "rte_eth_dev_is_valid_port i (set_data port d s) = rte_eth_dev_is_valid_port i s"
  by (simp_all add: set_data_def upd_data_def upd_dev_def dev_data_def rte_eth_dev_is_valid_port_def)

lemma drv_set: "drv port f s = bnd (f (dev_data port s, s_shared s)) (\<lambda>(r, d, w). Inr (r, (set_data port d s)\<lparr>s_shared := w\<rparr>))"
  by (simp add: drv_def set_data_def)

definition plain_conf :: "rte_eth_conf \<Rightarrow> bool" where
  "plain_conf c \<longleftrightarrow> c_rx_mq_mode c \<in> {ETH_MQ_RX_NONE, ETH_MQ_RX_RSS} \<and> c_tx_mq_mode c = ETH_MQ_TX_NONE \<and>
     \<not> c_jumbo_frame c \<and> c_lsc c = 0"

definition ring_port :: "u8 \<Rightarrow> ring_eth \<Rightarrow> bool" where
  "ring_port port s \<longleftrightarrow> rte_eth_dev_is_valid_port port s \<and> e_ops (s_devices s port) = Some ring_ops \<and>
     e_rx_pkt_burst (s_devices s port) = Some eth_ring_rx \<and> e_tx_pkt_burst (s_devices s port) = Some eth_ring_tx"

lemma ring_port_set [simp]: "ring_port port (set_data port d s) = ring_port port s"
  by (simp add: ring_port_def)

text \<open>The data of a port as \<open>rte_eth_from_rings\<close> leaves it.\<close>

definition new_data :: "pmd_internals \<Rightarrow> u8 \<Rightarrow> (pmd_internals, ring_ref) rte_eth_dev_data" where
  "new_data p port = zero_eth_data\<lparr>d_private := Some p, d_port_id := port, d_nb_rx_queues := ucast (pi_nb_rx_queues p),
     d_nb_tx_queues := ucast (pi_nb_tx_queues p), d_link := pmd_link, d_mac_addrs := [null_mac_addr]\<rparr>"

lemma ring_ops_sel [simp]:
  "op_dev_configure ring_ops = Some ring_dev_configure" "op_dev_infos_get ring_ops = Some ring_dev_info"
  "op_rx_queue_setup ring_ops = Some ring_rx_queue_setup" "op_tx_queue_setup ring_ops = Some ring_tx_queue_setup"
  "op_dev_start ring_ops = Some ring_dev_start" "op_promiscuous_disable ring_ops = None"
  "op_allmulticast_disable ring_ops = None"
  by (simp_all add: ring_ops_def)

lemma ring_configure:
  assumes port: "ring_port port s" and data: "dev_data port s = new_data p port" and c: "plain_conf c"
    and env: "env_primary env" "\<And>name n. env_zmalloc env name n"
    and n: "0 < nrx" "nrx \<le> ucast (pi_nb_rx_queues p)" "0 < ntx" "ntx \<le> ucast (pi_nb_tx_queues p)"
      "nrx \<le> 256" "ntx \<le> 256"
  shows "\<exists>c'. rte_eth_dev_configure env port nrx ntx c s = Inr (0, set_data port ((new_data p port)\<lparr>d_conf := c',
     d_rx_queues := Some (replicate (unat nrx) None), d_nb_rx_queues := nrx,
     d_tx_queues := Some (replicate (unat ntx) None), d_nb_tx_queues := ntx\<rparr>) s) \<and> c_lsc c' = 0"
proof -
  have d: "d_private (new_data p port) = Some p" "\<not> d_started (new_data p port)"
    "d_rx_queues (new_data p port) = None" "d_tx_queues (new_data p port) = None"
    "sr_active (d_sriov (new_data p port)) = 0"
    by (simp_all add: new_data_def zero_eth_data_def)
  have nz: "nrx \<noteq> 0" "ntx \<noteq> 0" "\<not> 256 < nrx" "\<not> 256 < ntx" using n by auto
  have le: "\<not> ucast (pi_nb_rx_queues p) < nrx" "\<not> ucast (pi_nb_tx_queues p) < ntx" using n by auto
  have mq: "rte_eth_dev_check_mq_mode port nrx ntx c t = (0, t)" if "sr_active (d_sriov (dev_data port t)) = 0"
    for t :: ring_eth using c that by (auto simp: rte_eth_dev_check_mq_mode_def plain_conf_def)
  have q: "configure_queues env port nrx ntx t = Inr (0, set_data port ((dev_data port t)\<lparr>
     d_rx_queues := Some (replicate (unat nrx) None), d_nb_rx_queues := nrx,
     d_tx_queues := Some (replicate (unat ntx) None), d_nb_tx_queues := ntx\<rparr>) t)"
    if "ring_port port t" "d_rx_queues (dev_data port t) = None" "d_tx_queues (dev_data port t) = None" for t
    using that env(2)
    by (simp add: configure_queues_def rte_eth_dev_rx_queue_config_def rte_eth_dev_tx_queue_config_def Let_def
        ring_port_def drv_set ring_dev_configure_def upd_set)
  define c' where "c' = c\<lparr>c_max_rx_pkt_len := (if c_max_rx_pkt_len c < ETHER_MIN_LEN \<or> c_max_rx_pkt_len c > ETHER_MAX_LEN
     then ETHER_MAX_LEN else c_max_rx_pkt_len c)\<rparr>"
  have l: "configure_length port c i (set_data port ((new_data p port)\<lparr>d_conf := c\<rparr>) s)
      = (0, set_data port ((new_data p port)\<lparr>d_conf := c'\<rparr>) s)" for i
    using c by (auto simp: configure_length_def plain_conf_def upd_set c'_def)
  have "rte_eth_dev_configure env port nrx ntx c s = Inr (0, set_data port ((new_data p port)\<lparr>d_conf := c',
     d_rx_queues := Some (replicate (unat nrx) None), d_nb_rx_queues := nrx,
     d_tx_queues := Some (replicate (unat ntx) None), d_nb_tx_queues := ntx\<rparr>) s)"
    using port data env(1) d nz le mq q l c
    by (simp add: rte_eth_dev_configure_def ring_port_def RTE_MAX_QUEUES_PER_PORT_def ring_dev_info_def Let_def
        plain_conf_def upd_set)
  moreover have "c_lsc c' = 0" using c by (simp add: c'_def plain_conf_def)
  ultimately show ?thesis by blast
qed

lemma ring_rx_setup:
  assumes port: "ring_port port s" and env: "env_primary env" and size: "2 \<le> psize"
    and d: "d_private (dev_data port s) \<noteq> None" "\<not> d_started (dev_data port s)"
      "d_rx_queues (dev_data port s) = Some qs" "unat q < length qs" "q < d_nb_rx_queues (dev_data port s)"
  shows "\<exists>m. rte_eth_rx_queue_setup env port q desc sock mp psize room s = Inr (0, set_data port ((dev_data port s)\<lparr>
     d_rx_queues := Some (qs[unat q := Some (Rx_queue (unat q))]), d_min_rx_buf_size := m\<rparr>) s)"
proof -
  obtain p where p: "d_private (dev_data port s) = Some p" using d(1) by auto
  have "\<not> psize < 2" using size by simp
  then show ?thesis
    using port env d p
    by (auto simp: rte_eth_rx_queue_setup_def ring_port_def rte_eth_dev_info_get_def ring_dev_info_def Let_def
      drv_set ring_rx_queue_setup_def set_entry_def upd_set zero_dev_info_def intro: exI [of _ "d_min_rx_buf_size (dev_data port s)"])
qed

lemma ring_tx_setup:
  assumes port: "ring_port port s" and env: "env_primary env"
    and d: "d_private (dev_data port s) \<noteq> None" "\<not> d_started (dev_data port s)"
      "d_tx_queues (dev_data port s) = Some qs" "unat q < length qs" "q < d_nb_tx_queues (dev_data port s)"
  shows "rte_eth_tx_queue_setup env port q desc sock s = Inr (0, set_data port ((dev_data port s)\<lparr>
     d_tx_queues := Some (qs[unat q := Some (Tx_queue (unat q))])\<rparr>) s)"
  using assms
  by (auto simp: rte_eth_tx_queue_setup_def ring_port_def rte_eth_dev_info_get_def ring_dev_info_def
      drv_set ring_tx_queue_setup_def set_entry_def)

lemma ring_start:
  assumes port: "ring_port port s" and env: "env_primary env"
    and d: "d_private (dev_data port s) \<noteq> None" "\<not> d_started (dev_data port s)"
      "d_mac_addrs (dev_data port s) = [null_mac_addr]" "c_lsc (d_conf (dev_data port s)) = 0"
      "\<not> d_promiscuous (dev_data port s)" "\<not> d_all_multicast (dev_data port s)"
  shows "rte_eth_dev_start env port s = Inr (0, set_data port ((dev_data port s)\<lparr>
     d_link := (d_link (dev_data port s))\<lparr>link_status := True\<rparr>, d_started := True\<rparr>) s)"
proof -
  obtain p where p: "d_private (dev_data port s) = Some p" using d(1) by auto
  have one: "unat (1 :: u32) = Suc 0" by simp
  show ?thesis
    using assms p
    by (simp add: rte_eth_dev_start_def ring_port_def drv_set ring_dev_start_def set_link_def upd_set
        rte_eth_dev_config_restore_def rte_eth_dev_info_get_def ring_dev_info_def Let_def one
        is_zero_ether_addr_def null_mac_addr_def rte_eth_promiscuous_get_def rte_eth_allmulticast_get_def
        rte_eth_promiscuous_disable_def rte_eth_allmulticast_disable_def)
qed

lemma find_Some_mem: "find P xs = Some x \<Longrightarrow> P x \<and> x \<in> set xs"
  by (induction xs) (auto split: if_splits)

lemma all_ports_small: "i \<in> set all_ports \<Longrightarrow> i < 32"
  by (auto simp: all_ports_def word_less_nat_alt unat_of_nat)

lemma from_rings_new:
  assumes free: "rte_eth_dev_find_free_port s = port" "port \<noteq> RTE_MAX_ETHPORTS"
    and name: "rte_eth_dev_allocated name s = None" and env: "env_memzone env" "\<And>k. grant k"
    and n: "unat nrx \<le> 16" "unat ntx \<le> 16"
  shows "\<exists>s'. rte_eth_from_rings env slot grant name (Some rxs) nrx (Some txs) ntx s = Inr (0, s') \<and>
    ring_port port s' \<and> dev_data port s' = new_data (from_rings_internals rxs nrx txs ntx) port \<and>
    s_shared s' = s_shared s \<and> s_nb_ports s' = s_nb_ports s + 1 \<and>
    (\<forall>i. i \<noteq> port \<longrightarrow> s_devices s' i = s_devices s i)"
proof -
  have "port < 32" using free all_ports_small find_Some_mem
    by (fastforce simp: rte_eth_dev_find_free_port_def split: option.splits)
  then have lt: "port < RTE_MAX_ETHPORTS" by (simp add: RTE_MAX_ETHPORTS_def)
  let ?ready = "if s_data_ready s then s else s\<lparr>s_data_ready := True\<rparr>"
  have alloc: "(if \<not> s_data_ready s then rte_eth_dev_data_alloc env s else Inr ((), s)) = Inr ((), ?ready)"
    using env(1) by (simp add: rte_eth_dev_data_alloc_def)
  have "rte_eth_dev_allocated name ?ready = None"
    using name by (auto simp: rte_eth_dev_allocated_def dev_data_def)
  then have "\<exists>s1. rte_eth_dev_allocate env slot name RTE_ETH_DEV_VIRTUAL s = Inr (Some port, s1) \<and>
      e_attached (s_devices s1 port) \<and> d_port_id (dev_data port s1) = port \<and> s_shared s1 = s_shared s \<and>
      s_nb_ports s1 = s_nb_ports s + 1 \<and> (\<forall>i. i \<noteq> port \<longrightarrow> s_devices s1 i = s_devices s i)"
    unfolding rte_eth_dev_allocate_def Let_def free(1) alloc using free(2)
    by (simp add: upd_dev_def dev_data_def)
  then obtain s1 where s1: "rte_eth_dev_allocate env slot name RTE_ETH_DEV_VIRTUAL s = Inr (Some port, s1)"
      "e_attached (s_devices s1 port)" "d_port_id (dev_data port s1) = port" "s_shared s1 = s_shared s"
      "s_nb_ports s1 = s_nb_ports s + 1" "\<forall>i. i \<noteq> port \<longrightarrow> s_devices s1 i = s_devices s i" by blast
  with env(2) n lt show ?thesis
    by (simp add: rte_eth_from_rings_def RTE_PMD_RING_MAX_RX_RINGS_def RTE_PMD_RING_MAX_TX_RINGS_def Let_def
        ring_port_def rte_eth_dev_is_valid_port_def upd_dev_def dev_data_def new_data_def not_le
        from_rings_internals_def)
qed

text \<open>Creation, configuration, queue set-up and start in sequence.\<close>

lemma ring_startup:
  assumes free: "rte_eth_dev_find_free_port s = port" "port \<noteq> RTE_MAX_ETHPORTS" "rte_eth_dev_allocated name s = None"
    and env: "env_primary env" "env_memzone env" "\<And>k. grant k" "\<And>what size. env_zmalloc env what size"
    and n: "unat n \<le> 16" "unat q < unat n" and c: "plain_conf c" and psize: "2 \<le> psize"
    and ring: "ring_ok (s_shared s (rs (unat q)))"
  shows "\<exists>s0 s1 s2 s3 s4. rte_eth_from_rings env slot grant name (Some rs) n (Some rs) n s = Inr (0, s0) \<and>
    rte_eth_dev_configure env port (ucast n) (ucast n) c s0 = Inr (0, s1) \<and>
    rte_eth_rx_queue_setup env port q desc sock mp psize room s1 = Inr (0, s2) \<and>
    rte_eth_tx_queue_setup env port q desc sock s2 = Inr (0, s3) \<and>
    rte_eth_dev_start env port s3 = Inr (0, s4) \<and> d_started (dev_data port s4) \<and>
    link_status (d_link (dev_data port s4)) \<and> loop_port port q (rs (unat q)) s4 \<and> s_shared s4 = s_shared s"
proof -
  let ?p = "from_rings_internals rs n rs n" and ?N = "ucast n :: u16"
  obtain s0 where s0: "rte_eth_from_rings env slot grant name (Some rs) n (Some rs) n s = Inr (0, s0)"
      "ring_port port s0" "dev_data port s0 = new_data ?p port" "s_shared s0 = s_shared s"
    using from_rings_new [where grant = grant and slot = slot and rxs = rs and txs = rs, OF free env(2,3) n(1) n(1)] by blast
  have "unat n < 2 ^ 16" using n(1) by simp
  then have N: "unat ?N = unat n" by (simp add: unsigned_ucast_eq take_bit_nat_eq_self)
  have bounds: "0 < ?N" "?N \<le> 256" "q < ?N" "?N \<le> ucast (pi_nb_rx_queues ?p)" "?N \<le> ucast (pi_nb_tx_queues ?p)"
    using n N by (auto simp: word_less_nat_alt word_le_nat_alt from_rings_internals_def)
  obtain c' where s1: "rte_eth_dev_configure env port ?N ?N c s0 = Inr (0, set_data port ((new_data ?p port)\<lparr>d_conf := c',
       d_rx_queues := Some (replicate (unat ?N) None), d_nb_rx_queues := ?N,
       d_tx_queues := Some (replicate (unat ?N) None), d_nb_tx_queues := ?N\<rparr>) s0)" (is "_ = Inr (0, ?s1)") "c_lsc c' = 0"
    using ring_configure [OF s0(2,3) c env(1,4)] bounds by blast
  have d: "d_private (new_data ?p port) = Some ?p" "\<not> d_started (new_data ?p port)"
    "d_mac_addrs (new_data ?p port) = [null_mac_addr]" "\<not> d_promiscuous (new_data ?p port)"
    "\<not> d_all_multicast (new_data ?p port)" by (simp_all add: new_data_def zero_eth_data_def)
  obtain m where s2: "rte_eth_rx_queue_setup env port q desc sock mp psize room ?s1 =
      Inr (0, set_data port ((dev_data port ?s1)\<lparr>d_rx_queues := Some ((replicate (unat ?N) None)[unat q := Some (Rx_queue (unat q))]),
         d_min_rx_buf_size := m\<rparr>) ?s1)" (is "_ = Inr (0, ?s2)")
    using ring_rx_setup [of port ?s1 env psize "replicate (unat ?N) None" q desc sock mp room] s0(2) env(1) psize d n N bounds by auto
  have s3: "rte_eth_tx_queue_setup env port q desc sock ?s2 =
      Inr (0, set_data port ((dev_data port ?s2)\<lparr>d_tx_queues := Some ((replicate (unat ?N) None)[unat q := Some (Tx_queue (unat q))])\<rparr>) ?s2)"
      (is "_ = Inr (0, ?s3)")
    using ring_tx_setup [of port ?s2 env "replicate (unat ?N) None" q desc sock] s0(2) env(1) d n N bounds by auto
  have s4: "rte_eth_dev_start env port ?s3 = Inr (0, set_data port ((dev_data port ?s3)\<lparr>
      d_link := (d_link (dev_data port ?s3))\<lparr>link_status := True\<rparr>, d_started := True\<rparr>) ?s3)" (is "_ = Inr (0, ?s4)")
    using ring_start [of port ?s3 env] s0(2) env(1) d s1(2) by auto
  have "rq_rng (pi_rx_ring_queues ?p (unat q)) = rs (unat q)" "rq_rng (pi_tx_ring_queues ?p (unat q)) = rs (unat q)"
    using n(2) by (simp_all add: from_rings_internals_def zero_ring_queue_def)
  then have "loop_port port q (rs (unat q)) ?s4"
    using s0(2,4) n N ring d bounds(3) by (simp add: loop_port_def ring_port_def)
  with s0(1,4) s1(1) s2 s3 s4 show ?thesis
    by (intro exI [of _ s0] exI [of _ ?s1] exI [of _ ?s2] exI [of _ ?s3] exI [of _ ?s4]) simp
qed


text \<open>A first port on rings of 4 entries that hold two packets.\<close>

definition empty_eth :: "rings \<Rightarrow> ring_eth" where
  "empty_eth w = \<lparr>s_devices = (\<lambda>_. \<lparr>e_rx_pkt_burst = None, e_tx_pkt_burst = None, e_data = zero_eth_data, e_ops = None,
     e_max_vfs = 0, e_intr_lsc = False, e_link_intr_cbs = [], e_post_rx_burst_cbs = (\<lambda>_. []),
     e_pre_tx_burst_cbs = (\<lambda>_. []), e_attached = False, e_dev_type = RTE_ETH_DEV_UNKNOWN\<rparr>),
     s_nb_ports = 0, s_data_ready = False, s_shared = w\<rparr>"

definition sample_eth_env :: eth_env where
  "sample_eth_env = \<lparr>env_primary = True, env_zmalloc = (\<lambda>_ _. True), env_realloc = (\<lambda>_. True), env_memzone = True,
     env_stack_info = zero_dev_info\<rparr>"

lemma empty_eth_free:
  "rte_eth_dev_find_free_port (empty_eth w) = 0" "rte_eth_dev_allocated name (empty_eth w) = None" "s_shared (empty_eth w) = w"
proof -
  have "find (\<lambda>_. True) all_ports = Some 0" by (simp add: all_ports_def upt_rec)
  then show "rte_eth_dev_find_free_port (empty_eth w) = 0"
    unfolding rte_eth_dev_find_free_port_def by (simp add: empty_eth_def)
  show "rte_eth_dev_allocated name (empty_eth w) = None"
    by (simp add: rte_eth_dev_allocated_def empty_eth_def find_None_iff)
qed (simp add: empty_eth_def)

definition sample_rings :: rings where
  "sample_rings a = \<lparr>r_name = ''r'', r_flags = 0,
     r_prod = \<lparr>prod_watermark = 4, prod_sp_enqueue = 0, prod_size = 4, prod_mask = 3, prod_head = 0, prod_tail = 0\<rparr>,
     r_cons = \<lparr>cons_sc_dequeue = 0, cons_size = 4, cons_mask = 3, cons_head = 0xFFFFFFFE, cons_tail = 0xFFFFFFFE\<rparr>,
     r_stats = (\<lambda>_. zero_stats), r_ring = (\<lambda>i. 10 * ucast i)\<rparr>"

lemma sample_rings_ok: "ring_ok (sample_rings a)"
  by (simp add: ring_ok_def ring_cap_def ring_used_def sample_rings_def POWEROF2_iff [symmetric] POWEROF2_def RTE_RING_SZ_MASK_def)

lemma plain_zero_conf: "plain_conf zero_eth_conf" by (simp add: plain_conf_def zero_eth_conf_def)

text \<open>A started port, the second queue of four.\<close>

lemma sample_hyps:
  "rte_eth_dev_find_free_port (empty_eth sample_rings) = 0" "(0 :: u8) \<noteq> RTE_MAX_ETHPORTS"
  "rte_eth_dev_allocated ''net0'' (empty_eth sample_rings) = None"
  "env_primary sample_eth_env" "env_memzone sample_eth_env" "env_zmalloc sample_eth_env what bytes"
  "unat (4 :: u32) \<le> 16" "unat (1 :: u16) < unat (4 :: u32)" "2 \<le> (2 :: u32)"
  "ring_ok (s_shared (empty_eth sample_rings) (of_nat (unat (1 :: u16))))"
  by (simp_all add: empty_eth_free sample_eth_env_def RTE_MAX_ETHPORTS_def sample_rings_ok)

lemma sample_loop_port: "\<exists>s. loop_port 0 1 1 s"
  using ring_startup [where grant = "\<lambda>_. True" and rs = of_nat, OF sample_hyps(1-5) TrueI sample_hyps(6-8) plain_zero_conf sample_hyps(9,10)]
  by fastforce

theorem ring_port_fifo_witness:
  "\<exists>s rx tx s'. loop_port 0 1 1 s \<and> burst_run 0 0 1 [Tx [7, 8], Rx 3] s = Inr ((rx, tx), s') \<and>
     ring_items (s_shared s 1) @ tx = rx @ ring_items (s_shared s' 1)"
proof -
  from sample_loop_port obtain s where s: "loop_port 0 1 1 s" by blast
  have "\<forall>pkts. Tx pkts \<in> set [Tx [7, 8], Rx 3] \<longrightarrow> length pkts < 65536" by simp
  from ring_port_fifo [OF s this, of 0] s show ?thesis by blast
qed

text \<open>A port made from \<open>n\<close> rings, at most 16, can be brought up: with the memory granted, creation,
  configuration with all queues, set-up of queue \<open>q\<close> in both directions and start all return 0; the link is
  then up, the port is started, and the queue sends to and receives from ring number \<open>q\<close>.\<close>
theorem ring_port_startup:
  assumes free: "rte_eth_dev_find_free_port s = port" "port \<noteq> RTE_MAX_ETHPORTS" "rte_eth_dev_allocated name s = None"
    and env: "env_primary env" "env_memzone env" "\<And>k. grant k" "\<And>what size. env_zmalloc env what size"
    and n: "unat n \<le> 16" "unat q < unat n" and c: "plain_conf c" and psize: "2 \<le> psize"
    and ring: "ring_ok (s_shared s (rs (unat q)))"
  shows "\<exists>s0 s1 s2 s3 s4. rte_eth_from_rings env slot grant name (Some rs) n (Some rs) n s = Inr (0, s0) \<and>
    rte_eth_dev_configure env port (ucast n) (ucast n) c s0 = Inr (0, s1) \<and>
    rte_eth_rx_queue_setup env port q desc sock mp psize room s1 = Inr (0, s2) \<and>
    rte_eth_tx_queue_setup env port q desc sock s2 = Inr (0, s3) \<and>
    rte_eth_dev_start env port s3 = Inr (0, s4) \<and> d_started (dev_data port s4) \<and>
    link_status (d_link (dev_data port s4)) \<and> loop_port port q (rs (unat q)) s4 \<and> s_shared s4 = s_shared s"
  by (rule ring_startup [where grant = grant and rs = rs, OF assms])

theorem ring_port_startup_witness:
  "\<exists>s0 s1. rte_eth_from_rings sample_eth_env (\<lambda>_. zero_eth_data) (\<lambda>_. True) ''net0'' (Some of_nat) 4 (Some of_nat) 4 (empty_eth sample_rings) = Inr (0, s0) \<and>
     rte_eth_dev_configure sample_eth_env 0 4 4 zero_eth_conf s0 = Inr (0, s1)"
  using ring_port_startup [where grant = "\<lambda>_. True" and rs = of_nat, OF sample_hyps(1-5) TrueI sample_hyps(6-8) plain_zero_conf sample_hyps(9,10)]
  by fastforce

section \<open>Any state of a port\<close>

text \<open>A valid port of this driver: it has its private data, and queue arrays of the lengths recorded.\<close>

definition ring_port_ok :: "u8 \<Rightarrow> ring_eth \<Rightarrow> bool" where
  "ring_port_ok port s \<longleftrightarrow> rte_eth_dev_is_valid_port port s \<and> e_ops (s_devices s port) = Some ring_ops \<and>
     d_private (dev_data port s) \<noteq> None \<and> arrays_ok (dev_data port s)"

lemma ring_port_ok_eq: "ringdrv.port_ok = ring_port_ok"
  by (intro ext) (simp only: ringdrv.port_ok_def ring_port_ok_def)

text \<open>C32: In the primary process, \<open>rte_eth_dev_configure\<close> on a valid ring port returns on every input, whichever
  allocations fail, and keeps the port's queue arrays at the recorded lengths; a started port is refused and left as it
  is; a return value of 0 means that the numbers of queues were within 1..256 and are now the port's, with
  both arrays allocated.\<close>
theorem ring_configure_safe:
  assumes "ring_port_ok port s" and "env_primary env"
  shows "\<exists>r s'. rte_eth_dev_configure env port nrx ntx c s = Inr (r, s') \<and> ring_port_ok port s' \<and>
    d_started (dev_data port s') = d_started (dev_data port s) \<and>
    (d_started (dev_data port s) \<longrightarrow> r \<noteq> 0 \<and> s' = s) \<and>
    (r = 0 \<longrightarrow> 0 < nrx \<and> nrx \<le> 256 \<and> 0 < ntx \<and> ntx \<le> 256 \<and>
       d_nb_rx_queues (dev_data port s') = nrx \<and> map_option length (d_rx_queues (dev_data port s')) = Some (unat nrx) \<and>
       d_nb_tx_queues (dev_data port s') = ntx \<and> map_option length (d_tx_queues (dev_data port s')) = Some (unat ntx))"
  using ringdrv.configure_good [unfolded ring_port_ok_eq ringdrv.configured_def, OF assms] by blast

lemma sample_port_ok: "\<exists>s. ring_port_ok 0 s"
proof -
  have "\<exists>s. ring_port 0 s \<and> dev_data 0 s = new_data (from_rings_internals of_nat 4 of_nat 4) 0"
    using from_rings_new [of "empty_eth sample_rings" 0 "''net0''" sample_eth_env "\<lambda>_. True" 4 4 "\<lambda>_. zero_eth_data" of_nat of_nat]
    by (auto simp: empty_eth_free sample_eth_env_def RTE_MAX_ETHPORTS_def)
  then show ?thesis by (auto simp: ring_port_def ring_port_ok_def new_data_def zero_eth_data_def arrays_ok_def)
qed

theorem ring_configure_safe_witness:
  "\<exists>s r s'. ring_port_ok 0 s \<and> rte_eth_dev_configure sample_eth_env 0 2 300 zero_eth_conf s = Inr (r, s') \<and>
     r \<noteq> 0 \<and> ring_port_ok 0 s'"
proof -
  obtain s where s: "ring_port_ok 0 s" using sample_port_ok by blast
  have e: "env_primary sample_eth_env" by (simp add: sample_eth_env_def)
  have "\<not> (300 :: u16) \<le> 256" by simp
  with ring_configure_safe [OF s e, of 2 300 zero_eth_conf] s show ?thesis by blast
qed

end
