(* ===== verification/Firewall_Port.thy ===== *)
theory Firewall_Port
  imports Firewall_Spec Eth_Ring_Spec
begin

text \<open>
  The firewall over any number of rounds on one lcore: which packets the pools, the device and the send list hold between them. What
  the loop relies on of a device is the locale \<open>packet_device\<close>; a port of the ring driver is one.
\<close>

section \<open>Holding packets\<close>

text \<open>
  The packets of a list are well-formed chains that share no segment, and \<open>S p\<close> is what is free in pool \<open>p\<close> together with the
  segments of the packets that return to \<open>p\<close> when they are freed.
\<close>

definition holding :: "mbuf_world \<Rightarrow> u64 list \<Rightarrow> (u64 \<Rightarrow> u64 multiset) \<Rightarrow> bool" where
  "holding w ps S \<longleftrightarrow> (\<exists>css. list_all2 (chain w) ps css \<and> releasable w css \<and>
     (\<forall>p. S p = pool_free (w_pools w p) + last_refs w p (List.concat css)))"

lemma last_refs_mset: "mset as = mset bs \<Longrightarrow> last_refs w p as = last_refs w p bs"
  by (simp add: last_refs_def)

lemma concat_mset: "mset css = mset dss \<Longrightarrow> mset (List.concat css) = mset (List.concat dss)"
  by (metis mset_concat mset_map sum_mset_sum_list)

lemma releasable_mset:
  assumes "mset css = mset dss" and "releasable w css"
  shows "releasable w dss"
proof -
  have m: "mset (List.concat dss) = mset (List.concat css)" using concat_mset [OF assms(1)] by simp
  have "distinct (List.concat dss) = distinct (List.concat css)" using m by (rule mset_eq_imp_distinct_iff)
  moreover have "set (List.concat dss) = set (List.concat css)" using m by (rule mset_eq_setD)
  ultimately show ?thesis using assms(2) last_refs_mset [OF m] unfolding releasable_def by presburger
qed

lemma holding_mset:
  assumes "holding w ps S" and "mset qs = mset ps"
  shows "holding w qs S"
proof -
  obtain css where c: "list_all2 (chain w) ps css" "releasable w css" "\<forall>p. S p = pool_free (w_pools w p) + last_refs w p (List.concat css)"
    using assms(1) by (auto simp: holding_def)
  obtain dss where d: "list_all2 (chain w) qs dss" "mset dss = mset css" using list_all2_reorder_left_invariance [OF c(1) assms(2)] by blast
  have "last_refs w p (List.concat dss) = last_refs w p (List.concat css)" for p using concat_mset [OF d(2)] by (rule last_refs_mset)
  then show ?thesis unfolding holding_def using d(1) releasable_mset [OF d(2) [symmetric] c(2)] c(3) by auto
qed

lemma holding_strip: "holding (strip m w) ps S = holding w ps S"
proof -
  have "chain (strip m w) = chain w" by (intro HOL.ext) (simp add: strip_frame)
  then show ?thesis by (simp add: holding_def releasable_strip strip_frame)
qed

lemma holding_free:
  assumes "holding w (m # ps) S"
  shows "\<exists>w'. rte_pktmbuf_free env lcore m w = Some w' \<and> holding w' ps S"
proof -
  obtain cs rest where c: "chain w m cs" "list_all2 (chain w) ps rest" "releasable w (cs # rest)"
    and S: "\<forall>p. S p = pool_free (w_pools w p) + last_refs w p (List.concat (cs # rest))"
    using assms by (auto simp: holding_def list_all2_Cons1)
  have r: "distinct cs" "\<forall>a\<in>set cs. RTE_MBUF_DIRECT (mb w a) \<and> m_refcnt (mb w a) \<noteq> 0" "pools_ok w"
    "\<And>p. size (pool_free (w_pools w p)) + size (last_refs w p cs) + size (last_refs w p (List.concat rest)) \<le> unat (mp_size (w_pools w p))"
    using c(3) by (auto simp: releasable_def last_refs_append add.assoc)
  have "size (pool_free (w_pools w p)) + size (last_refs w p cs) \<le> unat (mp_size (w_pools w p))" for p using r(4) [of p] by simp
  from pktmbuf_free_direct [OF c(1) r(1-3) this, of env lcore] obtain w' where w': "rte_pktmbuf_free env lcore m w = Some w'" "pools_ok w'"
    and pools: "\<forall>p. pool_free (w_pools w' p) = pool_free (w_pools w p) + last_refs w p cs" "\<forall>p. mp_size (w_pools w' p) = mp_size (w_pools w p)"
    and heap: "\<forall>a. mb w' a = (if a \<in> set cs then released (mb w a) else mb w a)" by blast
  have same: "mb w' a = mb w a" if "a \<in> set (List.concat rest)" for a
    using that c(3) heap by (auto simp: releasable_def)
  have refs: "last_refs w' p (List.concat rest) = last_refs w p (List.concat rest)" for p by (rule last_refs_cong [OF same])
  have "chain w' x ds = chain w x ds" if "ds \<in> set rest" for x ds
  proof (rule chain_cong)
    fix a assume "a \<in> set ds"
    then have "a \<in> set (List.concat rest)" using that by auto
    then show "m_next (mb w' a) = m_next (mb w a)" by (simp add: same)
  qed
  then have "list_all2 (chain w') ps rest" using c(2) by (simp add: list_all2_conv_all_nth)
  moreover have "releasable w' rest"
    using c(3) w'(2) r(4) same by (auto simp: releasable_def pools refs)
  moreover have "\<forall>p. S p = pool_free (w_pools w' p) + last_refs w' p (List.concat rest)"
    using S by (simp add: pools(1) refs last_refs_append add.assoc)
  ultimately show ?thesis using w'(1) unfolding holding_def by blast
qed

lemma holding_free_all:
  assumes "holding w (qs @ ps) S"
  shows "\<exists>w'. free_all env lcore qs w = Some w' \<and> holding w' ps S"
  using assms
proof (induction qs arbitrary: w)
  case (Cons q qs)
  obtain w1 where "rte_pktmbuf_free env lcore q w = Some w1" "holding w1 (qs @ ps) S"
    using holding_free [of w q "qs @ ps" S env lcore] Cons.prems by auto
  then show ?case using Cons.IH [of w1] by simp
qed simp

section \<open>What the loop relies on of a device\<close>

text \<open>
  A device holds packets of its own. It hands over packets it holds or takes out of the pools, and of a burst it takes a first part, which
  it then holds or frees; nothing gets lost in it.
\<close>

locale packet_device =
  fixes api :: "'n ethdev_api" and q :: u16 and held :: "'n \<Rightarrow> u64 list" and dev_ok :: "'n \<Rightarrow> bool"
  assumes rx_law: "dev_ok nic \<Longrightarrow> holding w (held nic @ ps) S \<Longrightarrow> eth_rx_burst api 0 q 512 (nic, w) = (rx, nic', w') \<Longrightarrow>
      dev_ok nic' \<and> holding w' (held nic' @ rx @ ps) S"
    and tx_law: "dev_ok nic \<Longrightarrow> holding w (held nic @ b @ ps) S \<Longrightarrow> length b = 512 \<Longrightarrow> eth_tx_burst api 0 q b (nic, w) = (ret, nic', w') \<Longrightarrow>
      dev_ok nic' \<and> unat ret \<le> length b \<and> holding w' (held nic' @ drop (unat ret) b @ ps) S"
begin

text \<open>The state between two packets; \<open>ms\<close> are the packets of the burst still to be looked at.\<close>

definition keeps :: "'n fw \<Rightarrow> u64 list \<Rightarrow> (u64 \<Rightarrow> u64 multiset) \<Rightarrow> bool" where
  "keeps s ms S \<longleftrightarrow> dev_ok (fw_nic s) \<and> fw_send_len s < 512 \<and> holding (fw_world s) (held (fw_nic s) @ ms @ pending s) S"

end

section \<open>Frames\<close>

text \<open>Every packet has an Ethernet header when its turn comes.\<close>

definition frame_ok :: "mbuf_world \<Rightarrow> u64 \<Rightarrow> bool" where
  "frame_ok w m \<longleftrightarrow> 14 \<le> m_data_len (mb w m) \<and> ip_header w m \<noteq> 0"

fun burst_frames :: "mem_env \<Rightarrow> 'n ethdev_api \<Rightarrow> u32 \<Rightarrow> u64 list \<Rightarrow> 'n fw \<Rightarrow> bool" where
  "burst_frames env api lcore [] s = True"
| "burst_frames env api lcore (m # ms) s = (frame_ok (fw_world s) m \<and>
     (case handle_packet env api lcore m s of Some (Inr s') \<Rightarrow> burst_frames env api lcore ms s' | _ \<Rightarrow> True))"

fun run_frames :: "mem_env \<Rightarrow> 'n ethdev_api \<Rightarrow> u32 \<Rightarrow> nat \<Rightarrow> 'n fw \<Rightarrow> bool" where
  "run_frames env api lcore 0 s = True"
| "run_frames env api lcore (Suc n) s =
     ((case eth_rx_burst api 0 (if lcore = 1 then 0 else 1) (ucast MAX_PKT_BURST) (fw_nic s, fw_world s) of
         (rx, nic, w) \<Rightarrow> burst_frames env api lcore rx (s\<lparr>fw_nic := nic, fw_world := w\<rparr>)) \<and>
      (case main_round env api lcore s of Some (Inr s') \<Rightarrow> run_frames env api lcore n s' | _ \<Rightarrow> True))"

section \<open>Rounds\<close>

context packet_device
begin

lemma packet_keeps:
  assumes k: "keeps s (m # ms) S" and f: "frame_ok (fw_world s) m" and q: "q = (if lcore = 1 then 0 else 1)"
  shows "\<exists>s'. handle_packet env api lcore m s = Some (Inr s') \<and> keeps s' ms S"
proof -
  let ?w = "strip m (fw_world s)" and ?nic = "fw_nic s"
  let ?s = "s\<lparr>fw_world := ?w\<rparr>"
  have ok: "dev_ok ?nic" "fw_send_len s < 512" and h: "holding ?w (held ?nic @ (m # ms) @ pending s) S"
    using k by (simp_all add: keeps_def holding_strip)
  have n: "unat (fw_send_len s) < 512" using ok(2) by (simp add: word_less_nat_alt)
  have pend: "pending ?s = pending s" "length (pending s) = unat (fw_send_len s)" by (simp_all add: pending_def table_list_def)
  note eq = handle_packet_eq [of s m env api lcore] and send = send_packet_eq [of ?s env api lcore m]
  show ?thesis
  proof (cases "dest_bytes (fw_mem s) (ip_header (fw_world s) m) \<in> {[0, 0, 0, 0], [0, 0, 0, 1]}")
    case True
    have "holding ?w (m # held ?nic @ ms @ pending s) S" by (rule holding_mset [OF h]) simp
    then obtain w' where "rte_pktmbuf_free env lcore m ?w = Some w'" "holding w' (held ?nic @ ms @ pending s) S"
      using holding_free by blast
    then show ?thesis using eq f True ok by (simp add: frame_ok_def free_packet_def keeps_def pending_def)
  next
    case False
    show ?thesis
    proof (cases "unat (fw_send_len s) < 511")
      case True
      let ?s' = "?s\<lparr>fw_send_list := (fw_send_list s)(fw_send_len s := m), fw_send_len := fw_send_len s + 1\<rparr>"
      have run: "handle_packet env api lcore m s = Some (Inr ?s')" using eq f False send ok pend True by (simp add: frame_ok_def)
      have inc: "unat (fw_send_len s + 1) = Suc (unat (fw_send_len s))" using True by (simp add: unat_word_ariths)
      have "pending ?s' = pending s @ [m]" using table_list_snoc [of "unat (fw_send_len s)" "fw_send_list s" m] n inc by (simp add: pending_def)
      moreover have "holding ?w (held ?nic @ ms @ pending s @ [m]) S" by (rule holding_mset [OF h]) simp
      moreover have "fw_send_len s + 1 < 512" using inc True by (simp add: word_less_nat_alt)
      ultimately show ?thesis using run ok by (simp add: keeps_def)
    next
      case full: False
      let ?b = "pending s @ [m]"
      obtain ret nic w where tx: "eth_tx_burst api 0 q ?b (?nic, ?w) = (ret, nic, w)" by (metis prod_cases3)
      have b: "length ?b = 512" using full n pend(2) by simp
      have "holding ?w (held ?nic @ ?b @ ms) S" by (rule holding_mset [OF h]) simp
      from tx_law [OF ok(1) this b tx] have t: "dev_ok nic" "holding w (held nic @ drop (unat ret) ?b @ ms) S" by simp_all
      have "holding w (drop (unat ret) ?b @ held nic @ ms) S" by (rule holding_mset [OF t(2)]) simp
      then obtain w' where w': "free_all env lcore (drop (unat ret) ?b) w = Some w'" "holding w' (held nic @ ms) S" using holding_free_all by blast
      have "handle_packet env api lcore m s = Some (Inr (?s\<lparr>fw_send_list := (fw_send_list s)(fw_send_len s := m),
          fw_nic := nic, fw_world := w', fw_send_len := 0\<rparr>))"
        using eq f False send ok pend full tx w'(1) q by (simp add: frame_ok_def)
      then show ?thesis using t(1) w'(2) by (simp add: keeps_def pending_def table_list_def)
    qed
  qed
qed

lemma packets_keep:
  assumes "keeps s ms S" and "burst_frames env api lcore ms s" and "q = (if lcore = 1 then 0 else 1)"
  shows "\<exists>s'. handle_packets env api lcore ms s = Some (Inr s') \<and> keeps s' [] S"
  using assms
proof (induction ms arbitrary: s)
  case (Cons m ms)
  have f: "frame_ok (fw_world s) m" using Cons.prems(2) by simp
  obtain s1 where s1: "handle_packet env api lcore m s = Some (Inr s1)" "keeps s1 ms S" using packet_keeps [OF Cons.prems(1) f Cons.prems(3)] by blast
  then show ?case using Cons.IH [of s1] Cons.prems(2,3) by simp
qed simp

lemma rounds_keep:
  assumes "keeps s [] S" and "run_frames env api lcore n s" and q: "q = (if lcore = 1 then 0 else 1)"
  shows "\<exists>s'. main_loop env api lcore n s = Some (Inr s') \<and> keeps s' [] S"
  using assms(1,2)
proof (induction n arbitrary: s)
  case (Suc n)
  obtain rx nic w where rx: "eth_rx_burst api 0 q 512 (fw_nic s, fw_world s) = (rx, nic, w)" by (metis prod_cases3)
  let ?s = "s\<lparr>fw_nic := nic, fw_world := w\<rparr>"
  have max: "(ucast MAX_PKT_BURST :: u16) = 512" by (simp add: MAX_PKT_BURST_def)
  have "keeps ?s rx S" using rx_law [of "fw_nic s" "fw_world s" "pending s" S, OF _ _ rx] Suc.prems(1) by (simp add: keeps_def pending_def)
  moreover have "burst_frames env api lcore rx ?s" using Suc.prems(2) rx q max by simp
  ultimately obtain s1 where s1: "handle_packets env api lcore rx ?s = Some (Inr s1)" "keeps s1 [] S" using packets_keep [OF _ _ q] by blast
  then have round: "main_round env api lcore s = Some (Inr s1)" using rx q max by (simp add: main_round_def)
  then have "run_frames env api lcore n s1" using Suc.prems(2) by simp
  then show ?case using Suc.IH [OF s1(2)] round by simp
qed simp

end

section \<open>A port of the ring driver\<close>

text \<open>The burst functions of the Ethernet layer on port 0; \<open>base\<close> has the other functions.\<close>

definition on_ring_port :: "ring_eth ethdev_api \<Rightarrow> u32 \<Rightarrow> ring_eth ethdev_api" where
  "on_ring_port base lcore = base\<lparr>
     eth_rx_burst := (\<lambda>port q n (s, w). case rte_eth_rx_burst lcore port q n s of Inr (pkts, s') \<Rightarrow> (pkts, s', w) | Inl _ \<Rightarrow> ([], s, w)),
     eth_tx_burst := (\<lambda>port q pkts (s, w). case rte_eth_tx_burst lcore port q pkts s of Inr (k, s') \<Rightarrow> (k, s', w) | Inl _ \<Rightarrow> (0, s, w))\<rparr>"

interpretation ringport: packet_device "on_ring_port base lcore" q "\<lambda>s. ring_items (s_shared s a)" "loop_port 0 q a" for base lcore q a
proof
  fix nic w ps S rx nic' w'
  assume nic: "loop_port 0 q a nic" and h: "holding w (ring_items (s_shared nic a) @ ps) S"
    and rx: "eth_rx_burst (on_ring_port base lcore) 0 q 512 (nic, w) = (rx, nic', w')"
  obtain pkts s' where l: "rte_eth_rx_burst lcore 0 q 512 nic = Inr (pkts, s')" "loop_port 0 q a s'"
      "pkts = take 512 (ring_items (s_shared nic a))" "ring_items (s_shared s' a) = drop 512 (ring_items (s_shared nic a))"
    using loop_rx [OF nic, of lcore 512] by auto
  have e: "rx = pkts" "nic' = s'" "w' = w" using rx l(1) by (simp_all add: on_ring_port_def)
  have "ring_items (s_shared nic a) = pkts @ ring_items (s_shared s' a)" using l(3,4) by simp
  then have "holding w (ring_items (s_shared s' a) @ pkts @ ps) S" by (intro holding_mset [OF h]) simp
  then show "loop_port 0 q a nic' \<and> holding w' (ring_items (s_shared nic' a) @ rx @ ps) S" using l(2) e by simp
next
  fix nic w b ps S ret nic' w'
  assume nic: "loop_port 0 q a nic" and h: "holding w (ring_items (s_shared nic a) @ b @ ps) S" and b: "length b = 512"
    and tx: "eth_tx_burst (on_ring_port base lcore) 0 q b (nic, w) = (ret, nic', w')"
  obtain k s' where l: "rte_eth_tx_burst lcore 0 q b nic = Inr (k, s')" "loop_port 0 q a s'" "unat k \<le> length b"
      "ring_items (s_shared s' a) = ring_items (s_shared nic a) @ take (unat k) b"
    using loop_tx [OF nic, of b lcore] b by auto
  have e: "ret = k" "nic' = s'" "w' = w" using tx l(1) by (simp_all add: on_ring_port_def)
  have "mset b = mset (take (unat k) b) + mset (drop (unat k) b)" by (metis append_take_drop_id mset_append)
  then have "holding w (ring_items (s_shared s' a) @ drop (unat k) b @ ps) S" by (intro holding_mset [OF h]) (simp add: l(4))
  then show "loop_port 0 q a nic' \<and> unat ret \<le> length b \<and> holding w' (ring_items (s_shared nic' a) @ drop (unat ret) b @ ps) S" using l(2,3) e by simp
qed

section \<open>The account\<close>

text \<open>C30: The receive loop run by one lcore, on any device that keeps the contract \<open>packet_device\<close> and hands over frames of at least 14 bytes, returns from
  any number of rounds and neither leaks nor frees twice a packet buffer: for every pool the buffers that are free, held by the device or waiting in the
  send list are the same multiset before and after. The index of the next packet stays below the 512 entries of the list. Several lcores that run
  the loop at once share the list without a lock and are not covered.\<close>
theorem firewall_accounting:
  assumes "packet_device api (if lcore = 1 then 0 else 1) held dev_ok" and "dev_ok (fw_nic s)" and "fw_send_len s < 512"
    and "holding (fw_world s) (held (fw_nic s) @ pending s) S" and "run_frames env api lcore n s"
  shows "\<exists>s'. main_loop env api lcore n s = Some (Inr s') \<and> dev_ok (fw_nic s') \<and> fw_send_len s' < 512 \<and>
    holding (fw_world s') (held (fw_nic s') @ pending s') S"
  using packet_device.rounds_keep [OF assms(1) _ assms(5)] assms(2-4) packet_device.keeps_def [OF assms(1)] by simp

text \<open>Two packets wait in the ring of a port of the ring driver; a round moves them to the send list.\<close>

definition port_fw :: "ring_eth \<Rightarrow> ring_eth fw" where
  "port_fw nic = \<lparr>fw_world = sample_world, fw_nic = nic, fw_mem = (\<lambda>_. 9), fw_send_len = 0, fw_send_list = (\<lambda>_. 0), fw_pre_ibytes = 0, fw_pre_ipackets = 0\<rparr>"

definition port_stock :: "u64 \<Rightarrow> u64 multiset" where
  "port_stock p = pool_free sample_pool + (if p = 0x100 then {#20, 30#} else {#})"

lemma sample_waiting: "ring_items (sample_rings a) = [20, 30]"
  by (simp add: sample_rings_def ring_items_def ring_used_def upt_rec)

lemma sample_port: "\<exists>nic. loop_port 0 1 1 nic \<and> s_shared nic = sample_rings"
  using ring_startup [where grant = "\<lambda>_. True" and rs = of_nat, OF sample_hyps(1-5) TrueI sample_hyps(6-8) plain_zero_conf sample_hyps(9,10)]
  by (fastforce simp: empty_eth_free)

lemma sample_holding: "holding sample_world [20, 30] port_stock"
proof -
  have "list_all2 (chain sample_world) [20, 30] [[20], [30]]" by (simp add: sample_mbuf_fields)
  moreover have refs: "last_refs sample_world p [20, 30] = (if p = 0x100 then {#20, 30#} else {#})" for p
    by (simp add: last_refs_def sample_mbuf_fields)
  moreover have "releasable sample_world [[20], [30]]"
    by (simp add: releasable_def sample_mbuf_fields RTE_MBUF_DIRECT_def RTE_MBUF_INDIRECT_def pools_ok_def refs sample_fw_fields sample_pool_ok
        sample_pool_free sample_pool_fields)
  ultimately show ?thesis unfolding holding_def
    by (intro exI [of _ "[[20], [30]]"]) (simp add: port_stock_def sample_fw_fields)
qed

lemma sample_frames:
  assumes nic: "loop_port 0 1 1 nic" "s_shared nic = sample_rings"
  shows "run_frames sample_env (on_ring_port base 0) 0 1 (port_fw nic)"
proof -
  obtain pkts s' where l: "rte_eth_rx_burst 0 0 1 512 nic = Inr (pkts, s')" "pkts = take 512 (ring_items (s_shared nic 1))"
    using loop_rx [OF nic(1), of 0 512] by auto
  have pkts: "pkts = [20, 30]" using l(2) nic(2) sample_waiting by simp
  have max: "(ucast MAX_PKT_BURST :: u16) = 512" by (simp add: MAX_PKT_BURST_def)
  have ok: "frame_ok sample_world m" "frame_ok (strip 20 sample_world) 30" for m
    by (simp_all add: frame_ok_def ip_header_def strip_def rte_pktmbuf_mtod_def sample_mbuf_fields)
  let ?s = "port_fw s'" and ?api = "on_ring_port base 0"
  have "dest_bytes (\<lambda>_. 9) x \<notin> {[0, 0, 0, 0], [0, 0, 0, 1]}" for x by (simp add: dest_bytes_def)
  then have one: "\<exists>s1. handle_packet sample_env ?api 0 20 ?s = Some (Inr s1) \<and> fw_world s1 = strip 20 sample_world"
    using ok(1) [of 20] handle_packet_eq [of ?s 20 sample_env ?api 0]
    by (simp add: port_fw_def frame_ok_def send_packet_def MAX_PKT_BURST_def)
  have "(port_fw nic)\<lparr>fw_nic := s', fw_world := sample_world\<rparr> = ?s" by (simp add: port_fw_def)
  moreover have "eth_rx_burst ?api 0 1 512 (nic, sample_world) = (pkts, s', sample_world)" using l(1) by (simp add: on_ring_port_def)
  moreover have "fw_nic (port_fw nic) = nic" "fw_world (port_fw x) = sample_world" for x by (simp_all add: port_fw_def)
  moreover have "burst_frames sample_env ?api 0 pkts ?s" using one ok by (auto simp: pkts port_fw_def split: option.splits sum.splits)
  ultimately show ?thesis by (simp add: max split: option.splits sum.splits)
qed

theorem firewall_accounting_witness:
  "\<forall>base. \<exists>nic s'. loop_port 0 1 1 nic \<and> ring_items (s_shared nic 1) = [20, 30] \<and>
     main_loop sample_env (on_ring_port base 0) 0 1 (port_fw nic) = Some (Inr s') \<and>
     holding (fw_world s') (ring_items (s_shared (fw_nic s') 1) @ pending s') port_stock"
proof
  fix base
  obtain nic where nic: "loop_port 0 1 1 nic" "s_shared nic = sample_rings" using sample_port by blast
  have "packet_device (on_ring_port base 0) (if (0 :: u32) = 1 then 0 else 1) (\<lambda>s. ring_items (s_shared s 1)) (loop_port 0 1 1)"
    using ringport.packet_device_axioms by simp
  then have "\<exists>s'. main_loop sample_env (on_ring_port base 0) 0 1 (port_fw nic) = Some (Inr s') \<and> loop_port 0 1 1 (fw_nic s') \<and> fw_send_len s' < 512 \<and>
      holding (fw_world s') (ring_items (s_shared (fw_nic s') 1) @ pending s') port_stock"
    by (rule firewall_accounting [OF _ _ _ _ sample_frames [OF nic]])
      (use nic sample_holding in \<open>simp_all add: port_fw_def sample_waiting pending_def table_list_def\<close>)
  then show "\<exists>nic s'. loop_port 0 1 1 nic \<and> ring_items (s_shared nic 1) = [20, 30] \<and>
     main_loop sample_env (on_ring_port base 0) 0 1 (port_fw nic) = Some (Inr s') \<and>
     holding (fw_world s') (ring_items (s_shared (fw_nic s') 1) @ pending s') port_stock" using nic sample_waiting by metis
qed

end
