(* ===== verification/Mbuf_Data.thy ===== *)
theory Mbuf_Data
  imports Mbuf_Spec
begin

text \<open>
  The data of a packet of any number of segments, as the list of the addresses of its bytes, and what the four operations that
  make it longer or shorter do to it.
\<close>

section \<open>The data of a packet\<close>

definition addrs :: "u64 \<Rightarrow> nat \<Rightarrow> u64 list" where
  "addrs p n = map (\<lambda>i. p + of_nat i) [0..<n]"

definition seg_data :: "rte_mbuf \<Rightarrow> u64 list" where
  "seg_data x = addrs (rte_pktmbuf_mtod x) (unat (m_data_len x))"

definition packet_data :: "mbuf_world \<Rightarrow> u64 list \<Rightarrow> u64 list" where
  "packet_data w as = List.concat (map (\<lambda>a. seg_data (mb w a)) as)"

text \<open>A packet: its segments, each inside its buffer, with the counts that the first segment keeps.\<close>

definition packet_ok :: "mbuf_world \<Rightarrow> u64 \<Rightarrow> u64 list \<Rightarrow> bool" where
  "packet_ok w m as \<longleftrightarrow> chain w m as \<and> as \<noteq> [] \<and> distinct as \<and> unat (m_nb_segs (mb w m)) = length as \<and>
     (\<forall>a\<in>set as. mbuf_ok (mb w a)) \<and> unat (m_pkt_len (mb w m)) = length (packet_data w as)"

text \<open>Only start and length of the data change, and only in segments of the packet.\<close>

definition data_frame :: "mbuf_world \<Rightarrow> mbuf_world \<Rightarrow> u64 list \<Rightarrow> bool" where
  "data_frame w w' as \<longleftrightarrow> w_pools w' = w_pools w \<and> (\<forall>a. mb w' a = (mb w a)\<lparr>m_data_off := m_data_off (mb w' a),
     m_data_len := m_data_len (mb w' a), m_pkt_len := m_pkt_len (mb w' a)\<rparr>) \<and> (\<forall>a. a \<notin> set as \<longrightarrow> mb w' a = mb w a)"

lemma length_addrs [simp]: "length (addrs p n) = n"
  by (simp add: addrs_def)

lemma addrs_add: "addrs p (a + b) = addrs p a @ addrs (p + of_nat a) b"
proof -
  have "map (\<lambda>i. p + of_nat i) [a..<a + b] = addrs (p + of_nat a) b"
    by (intro nth_equalityI) (simp_all add: addrs_def ac_simps)
  then show ?thesis by (simp add: addrs_def upt_add_eq_append [of 0 a b])
qed

lemma length_seg_data [simp]: "length (seg_data x) = unat (m_data_len x)"
  by (simp add: seg_data_def)

lemma packet_data_append: "packet_data w (as @ bs) = packet_data w as @ packet_data w bs"
  by (simp add: packet_data_def)

lemma packet_data_cong: "(\<And>a. a \<in> set as \<Longrightarrow> seg_data (mb w' a) = seg_data (mb w a)) \<Longrightarrow> packet_data w' as = packet_data w as"
  unfolding packet_data_def by (intro arg_cong [where f = List.concat] map_cong) simp_all

lemma packet_data_short: "length (packet_data w as) \<le> length as * 65535"
proof (induction as)
  case (Cons a as)
  then show ?case using unat_less_2p16 [of "m_data_len (mb w a)"] by (simp add: packet_data_def del: unat_less_2p16)
qed (simp add: packet_data_def)

lemma packet_len_small:
  assumes "packet_ok w m as"
  shows "length (packet_data w as) < 2 ^ 31"
proof -
  have "length as < 256" using assms unsigned_less [of "m_nb_segs (mb w m)", where 'a = nat] by (simp add: packet_ok_def)
  then have "length as * 65535 \<le> 255 * 65535" by (intro mult_le_mono1) simp
  then have "length (packet_data w as) \<le> 255 * 65535" using packet_data_short [of w as] by (rule order_trans [rotated])
  then show ?thesis by simp
qed

section \<open>One segment\<close>

lemma ucast_plus16: "unat (a :: u16) + unat b < 65536 \<Longrightarrow> (ucast (a + b) :: u64) = ucast a + of_nat (unat b)"
  by (simp add: word_unat_eq_iff unat_plus16 unat_word_ariths)

lemma ucast_minus16: "(b :: u16) \<le> a \<Longrightarrow> (ucast (a - b) :: u64) = ucast a - of_nat (unat b)"
  by (simp add: word_unat_eq_iff unat_sub_le word_le_nat_alt)

lemma seg_prepend:
  fixes pl :: u32
  assumes "mbuf_ok x" and "len \<le> m_data_off x"
  defines "y \<equiv> x\<lparr>m_data_off := m_data_off x - len, m_data_len := m_data_len x + len, m_pkt_len := pl\<rparr>"
  shows "mbuf_ok y" "seg_data y = addrs (rte_pktmbuf_mtod y) (unat len) @ seg_data x"
proof -
  have l: "unat (m_data_len x + len) = unat len + unat (m_data_len x)"
    using unat_plus16 [of "m_data_len x" len] mbuf_okD(1) [OF assms(1)] assms(2) by (simp add: word_le_nat_alt)
  show "mbuf_ok y" using assms(1,2) l by (simp add: y_def mbuf_ok_def unat_sub_le word_le_nat_alt)
  have "rte_pktmbuf_mtod y + of_nat (unat len) = rte_pktmbuf_mtod x"
    using ucast_minus16 [OF assms(2)] by (simp add: y_def rte_pktmbuf_mtod_def)
  then show "seg_data y = addrs (rte_pktmbuf_mtod y) (unat len) @ seg_data x"
    by (simp add: seg_data_def y_def l addrs_add del: of_nat_unat)
qed

lemma seg_adj:
  fixes pl :: u32
  assumes "mbuf_ok x" and "len \<le> m_data_len x"
  defines "y \<equiv> x\<lparr>m_data_len := m_data_len x - len, m_data_off := m_data_off x + len, m_pkt_len := pl\<rparr>"
  shows "mbuf_ok y" "seg_data y = drop (unat len) (seg_data x)"
proof -
  have s: "unat (m_data_off x) + unat len < 65536" using mbuf_okD(1) [OF assms(1)] assms(2) by (simp add: word_le_nat_alt)
  have l: "unat (m_data_len x) = unat len + unat (m_data_len x - len)" using assms(2) by (simp add: unat_sub_le word_le_nat_alt)
  show "mbuf_ok y" using assms(1,2) unat_plus16 [OF s] by (simp add: y_def mbuf_ok_def unat_sub_le word_le_nat_alt)
  have "rte_pktmbuf_mtod y = rte_pktmbuf_mtod x + of_nat (unat len)" using ucast_plus16 [OF s] by (simp add: y_def rte_pktmbuf_mtod_def)
  then show "seg_data y = drop (unat len) (seg_data x)" by (simp add: seg_data_def y_def l addrs_add del: of_nat_unat)
qed

lemma seg_data_append:
  assumes "unat (m_data_off x) + unat (m_data_len x) + unat len \<le> unat (m_buf_len x)"
  defines "y \<equiv> x\<lparr>m_data_len := m_data_len x + len\<rparr>"
  shows "mbuf_ok y" "seg_data y = seg_data x @ addrs (rte_pktmbuf_mtod x + ucast (m_data_len x)) (unat len)"
proof -
  have l: "unat (m_data_len x + len) = unat (m_data_len x) + unat len"
    using assms(1) unat_less_2p16 [of "m_buf_len x"] by (intro unat_plus16) (simp del: unat_less_2p16)
  show "mbuf_ok y" using assms(1) l by (simp add: y_def mbuf_ok_def)
  have "rte_pktmbuf_mtod y = rte_pktmbuf_mtod x" by (simp add: y_def rte_pktmbuf_mtod_def)
  then show "seg_data y = seg_data x @ addrs (rte_pktmbuf_mtod x + ucast (m_data_len x)) (unat len)"
    by (simp add: seg_data_def y_def l addrs_add)
qed

lemma seg_trim:
  assumes "mbuf_ok x" and "len \<le> m_data_len x"
  defines "y \<equiv> x\<lparr>m_data_len := m_data_len x - len\<rparr>"
  shows "mbuf_ok y" "seg_data y = take (unat (m_data_len x) - unat len) (seg_data x)"
proof -
  let ?k = "unat (m_data_len x) - unat len"
  have k: "unat (m_data_len x - len) = ?k" "unat (m_data_len x) = ?k + unat len" using assms(2) by (simp_all add: unat_sub_le word_le_nat_alt)
  show "mbuf_ok y" using assms(1) k(1) by (simp add: y_def mbuf_ok_def)
  have "take ?k (addrs p (unat (m_data_len x))) = addrs p ?k" for p by (subst k(2)) (simp add: addrs_add)
  then show "seg_data y = take ?k (seg_data x)" by (simp add: seg_data_def y_def k(1) rte_pktmbuf_mtod_def)
qed

section \<open>The packet\<close>

text \<open>A packet whose first or last segment is changed, with the length the first segment keeps.\<close>

lemma packet_first:
  assumes p: "packet_ok w m as" and "mbuf_ok y" and y: "m_next y = m_next (mb w m)" "m_nb_segs y = m_nb_segs (mb w m)"
    and d: "seg_data y @ packet_data w (tl as) = d" and "unat (m_pkt_len y) = length d"
  shows "packet_ok (put_mb m y w) m as \<and> packet_data (put_mb m y w) as = d"
proof -
  obtain rest where as: "as = m # rest" "m \<notin> set rest" using p by (cases as) (auto simp: packet_ok_def)
  have "packet_data (put_mb m y w) rest = packet_data w rest" by (rule packet_data_cong) (use as(2) in auto)
  then have data: "packet_data (put_mb m y w) as = d" using d as(1) by (simp add: packet_data_def)
  have "chain (put_mb m y w) m as" using p y(1) by (subst chain_cong [where w = w]) (auto simp: packet_ok_def)
  then show ?thesis using p assms(2,6) y(2) data by (auto simp: packet_ok_def)
qed

lemma packet_last:
  fixes w m y n as
  defines "w' \<equiv> upd_mb m (\<lambda>x. x\<lparr>m_pkt_len := n\<rparr>) (put_mb (last as) y w)"
  assumes p: "packet_ok w m as" and "mbuf_ok y" and y: "m_next y = m_next (mb w (last as))" "m_nb_segs y = m_nb_segs (mb w (last as))"
    and d: "packet_data w (butlast as) @ seg_data y = d" and "unat n = length d"
  shows "packet_ok w' m as \<and> packet_data w' as = d"
proof -
  have as: "as \<noteq> []" "distinct as" using p by (simp_all add: packet_ok_def)
  then have b: "as = butlast as @ [last as]" "last as \<notin> set (butlast as)" by (simp, metis append_butlast_last_id distinct_append disjoint_iff list.set_intros(1))
  have seg: "seg_data (mb w' a) = (if a = last as then seg_data y else seg_data (mb w a))" for a
    by (simp add: w'_def seg_data_def rte_pktmbuf_mtod_def)
  have "packet_data w' (butlast as) = packet_data w (butlast as)" by (rule packet_data_cong) (use b(2) seg in auto)
  then have data: "packet_data w' as = d" using d b(1) seg by (metis append_Nil2 concat.simps list.simps(8,9) packet_data_append packet_data_def)
  have nx: "m_next (mb w' a) = m_next (mb w a)" "m_nb_segs (mb w' a) = m_nb_segs (mb w a)" for a using y by (auto simp: w'_def)
  have "mbuf_ok (mb w' a)" if "a \<in> set as" for a using p that assms(3) by (auto simp: w'_def packet_ok_def mbuf_ok_def)
  moreover have "chain w' m as" using p nx(1) by (subst chain_cong [where w = w]) (auto simp: packet_ok_def)
  moreover have "m_pkt_len (mb w' m) = n" by (simp add: w'_def)
  ultimately show ?thesis using p assms(7) data nx(2) by (simp add: packet_ok_def)
qed

lemma pkt_len_words:
  assumes "unat (n :: u32) < 2 ^ 31"
  shows "unat (n + ucast (len :: u16)) = unat n + unat len" "unat len \<le> unat n \<Longrightarrow> unat (n - ucast len) = unat n - unat len"
proof -
  show "unat (n + ucast len) = unat n + unat len" using assms unat_less_2p16 [of len] by (simp add: unat_word_ariths del: unat_less_2p16)
  show "unat (n - ucast len) = unat n - unat len" if "unat len \<le> unat n" using that by (simp add: unat_sub word_le_nat_alt)
qed

lemma packet_split:
  assumes "packet_ok w m as"
  shows "packet_data w as = seg_data (mb w m) @ packet_data w (tl as)" "packet_data w as = packet_data w (butlast as) @ seg_data (mb w (last as))"
    "mbuf_ok (mb w m)" "mbuf_ok (mb w (last as))" "unat (m_pkt_len (mb w m)) < 2 ^ 31" "unat (m_pkt_len (mb w m)) = length (packet_data w as)"
proof -
  have as: "as = m # tl as" "as = butlast as @ [last as]" using assms by (cases as; auto simp: packet_ok_def)+
  show "packet_data w as = seg_data (mb w m) @ packet_data w (tl as)" by (subst as(1)) (simp add: packet_data_def)
  show "packet_data w as = packet_data w (butlast as) @ seg_data (mb w (last as))" by (subst as(2)) (simp add: packet_data_def)
  have "m \<in> set as" "last as \<in> set as" using as(1) by (metis list.set_intros(1), metis last_in_set list.discI)
  then show "mbuf_ok (mb w m)" "mbuf_ok (mb w (last as))" using assms by (auto simp: packet_ok_def)
  show "unat (m_pkt_len (mb w m)) = length (packet_data w as)" using assms by (simp add: packet_ok_def)
  then show "unat (m_pkt_len (mb w m)) < 2 ^ 31" using packet_len_small [OF assms] by simp
qed

lemma prepend_data:
  assumes p: "packet_ok w m as" and len: "len \<le> m_data_off (mb w m)" and r: "rte_pktmbuf_prepend m len w = (a, w')"
  shows "packet_ok w' m as \<and> packet_data w' as = addrs a (unat len) @ packet_data w as \<and> data_frame w w' as"
proof -
  let ?x = "mb w m"
  let ?y = "?x\<lparr>m_data_off := m_data_off ?x - len, m_data_len := m_data_len ?x + len, m_pkt_len := m_pkt_len ?x + ucast len\<rparr>"
  note k = packet_split [OF p] and y = seg_prepend [OF packet_split(3) [OF p] len, of "m_pkt_len ?x + ucast len"]
  have w': "w' = put_mb m ?y w" "a = rte_pktmbuf_mtod ?y" using r leD [OF len] by (auto simp: rte_pktmbuf_prepend_def rte_pktmbuf_headroom_def upd_mb_def Let_def)
  have "packet_ok w' m as \<and> packet_data w' as = addrs a (unat len) @ packet_data w as"
    unfolding w'(1) by (rule packet_first [OF p y(1)]) (use k y(2) w'(2) pkt_len_words(1) [OF k(5), of len] in simp_all)
  moreover have "m \<in> set as" using p by (cases as) (auto simp: packet_ok_def)
  ultimately show ?thesis by (auto simp: data_frame_def w'(1))
qed

lemma adj_data:
  assumes p: "packet_ok w m as" and len: "len \<le> m_data_len (mb w m)" and r: "rte_pktmbuf_adj m len w = (a, w')"
  shows "packet_ok w' m as \<and> packet_data w' as = drop (unat len) (packet_data w as) \<and> a = rte_pktmbuf_mtod (mb w' m) \<and> data_frame w w' as"
proof -
  let ?x = "mb w m"
  let ?y = "?x\<lparr>m_data_len := m_data_len ?x - len, m_data_off := m_data_off ?x + len, m_pkt_len := m_pkt_len ?x - ucast len\<rparr>"
  note k = packet_split [OF p] and y = seg_adj [OF packet_split(3) [OF p] len, of "m_pkt_len ?x - ucast len"]
  have w': "w' = put_mb m ?y w" "a = rte_pktmbuf_mtod ?y" using r leD [OF len] by (auto simp: rte_pktmbuf_adj_def upd_mb_def Let_def)
  have l: "unat len \<le> length (seg_data ?x)" using len by (simp add: word_le_nat_alt)
  then have n: "unat len \<le> unat (m_pkt_len ?x)" using k(1,6) by simp
  have "packet_ok w' m as \<and> packet_data w' as = drop (unat len) (packet_data w as)"
    unfolding w'(1) by (rule packet_first [OF p y(1)]) (use k y(2) l pkt_len_words(2) [OF k(5) n] in simp_all)
  moreover have "m \<in> set as" using p by (cases as) (auto simp: packet_ok_def)
  ultimately show ?thesis using w'(2) by (auto simp: data_frame_def w'(1))
qed

lemma append_data:
  assumes p: "packet_ok w m as"
    and len: "unat (m_data_off (mb w (last as))) + unat (m_data_len (mb w (last as))) + unat len \<le> unat (m_buf_len (mb w (last as)))"
  shows "\<exists>a w'. rte_pktmbuf_append m len w = Some (a, w') \<and> packet_ok w' m as \<and> packet_data w' as = packet_data w as @ addrs a (unat len) \<and> data_frame w w' as"
proof -
  let ?l = "last as"
  let ?x = "mb w ?l"
  let ?y = "?x\<lparr>m_data_len := m_data_len ?x + len\<rparr>" and ?a = "rte_pktmbuf_mtod ?x + ucast (m_data_len ?x)" and ?n = "m_pkt_len (mb w m) + ucast len"
  let ?w = "upd_mb m (\<lambda>x. x\<lparr>m_pkt_len := ?n\<rparr>) (put_mb ?l ?y w)"
  note k = packet_split [OF p] and y = seg_data_append [OF len]
  have seg: "rte_pktmbuf_lastseg w m = Some ?l" using p lastseg_chain by (simp add: packet_ok_def)
  have room: "\<not> len > rte_pktmbuf_tailroom ?x" using len mbuf_okD(2) [OF k(4)] by (simp add: word_less_nat_alt)
  have run: "rte_pktmbuf_append m len w = Some (?a, ?w)" using seg room by (simp add: rte_pktmbuf_append_def Let_def upd_mb_def)
  have "packet_ok ?w m as \<and> packet_data ?w as = packet_data w as @ addrs ?a (unat len)"
    by (rule packet_last [OF p y(1)]) (use k(2,6) y(2) pkt_len_words(1) [OF k(5), of len] in simp_all)
  moreover have "m \<in> set as" "?l \<in> set as" using p by (cases as; auto simp: packet_ok_def)+
  then have "data_frame w ?w as" by (auto simp: data_frame_def)
  ultimately show ?thesis using run by blast
qed

lemma trim_data:
  assumes p: "packet_ok w m as" and len: "len \<le> m_data_len (mb w (last as))"
  shows "\<exists>w'. rte_pktmbuf_trim m len w = Some (0, w') \<and> packet_ok w' m as \<and>
    packet_data w' as = take (length (packet_data w as) - unat len) (packet_data w as) \<and> data_frame w w' as"
proof -
  let ?l = "last as"
  let ?x = "mb w ?l"
  let ?y = "?x\<lparr>m_data_len := m_data_len ?x - len\<rparr>" and ?n = "m_pkt_len (mb w m) - ucast len"
  let ?w = "upd_mb m (\<lambda>x. x\<lparr>m_pkt_len := ?n\<rparr>) (put_mb ?l ?y w)"
  note k = packet_split [OF p] and y = seg_trim [OF packet_split(4) [OF p] len]
  have seg: "rte_pktmbuf_lastseg w m = Some ?l" using p lastseg_chain by (simp add: packet_ok_def)
  have run: "rte_pktmbuf_trim m len w = Some (0, ?w)" using seg leD [OF len] by (simp add: rte_pktmbuf_trim_def Let_def upd_mb_def)
  have l: "unat len \<le> length (seg_data ?x)" using len by (simp add: word_le_nat_alt)
  then have n: "unat len \<le> unat (m_pkt_len (mb w m))" using k(2,6) by simp
  have "packet_ok ?w m as \<and> packet_data ?w as = take (length (packet_data w as) - unat len) (packet_data w as)"
    by (rule packet_last [OF p y(1)]) (use k(2,6) y(2) l pkt_len_words(2) [OF k(5) n] in simp_all)
  moreover have "m \<in> set as" "?l \<in> set as" using p by (cases as; auto simp: packet_ok_def)+
  then have "data_frame w ?w as" by (auto simp: data_frame_def)
  ultimately show ?thesis using run by blast
qed

text \<open>C15: On a packet of any number of segments, each inside its buffer, prepend, append, adj and trim fail without effect exactly when the length
  exceeds the headroom of the first segment, the tailroom of the last, the data of the first and the data of the last. Otherwise the addresses of
  the packet's bytes gain or lose exactly that many at the front or at the back, new bytes start at the address returned, every segment stays
  inside its buffer, the total length is kept in step, and nothing else changes.\<close>
theorem data_area_bounds:
  assumes "packet_ok w m as"
  shows "(case rte_pktmbuf_prepend m len w of (a, w') \<Rightarrow>
      if unat len \<le> unat (m_data_off (mb w m))
      then packet_ok w' m as \<and> packet_data w' as = addrs a (unat len) @ packet_data w as \<and> data_frame w w' as
      else a = 0 \<and> w' = w) \<and>
    (case rte_pktmbuf_adj m len w of (a, w') \<Rightarrow>
      if unat len \<le> unat (m_data_len (mb w m))
      then packet_ok w' m as \<and> packet_data w' as = drop (unat len) (packet_data w as) \<and> a = rte_pktmbuf_mtod (mb w' m) \<and> data_frame w w' as
      else a = 0 \<and> w' = w) \<and>
    (\<exists>a w'. rte_pktmbuf_append m len w = Some (a, w') \<and>
      (if unat (m_data_off (mb w (last as))) + unat (m_data_len (mb w (last as))) + unat len \<le> unat (m_buf_len (mb w (last as)))
       then packet_ok w' m as \<and> packet_data w' as = packet_data w as @ addrs a (unat len) \<and> data_frame w w' as
       else a = 0 \<and> w' = w)) \<and>
    (\<exists>ret w'. rte_pktmbuf_trim m len w = Some (ret, w') \<and>
      (if unat len \<le> unat (m_data_len (mb w (last as)))
       then ret = 0 \<and> packet_ok w' m as \<and> packet_data w' as = take (length (packet_data w as) - unat len) (packet_data w as) \<and> data_frame w w' as
       else ret = - 1 \<and> w' = w))"
proof (intro conjI)
  let ?l = "last as"
  note k = packet_split [OF assms]
  have seg: "rte_pktmbuf_lastseg w m = Some ?l" using assms lastseg_chain by (simp add: packet_ok_def)
  show "case rte_pktmbuf_prepend m len w of (a, w') \<Rightarrow> if unat len \<le> unat (m_data_off (mb w m))
      then packet_ok w' m as \<and> packet_data w' as = addrs a (unat len) @ packet_data w as \<and> data_frame w w' as else a = 0 \<and> w' = w"
    using prepend_data [OF assms, of len]
    by (cases "rte_pktmbuf_prepend m len w") (auto simp: word_le_nat_alt rte_pktmbuf_prepend_def rte_pktmbuf_headroom_def word_less_nat_alt split: if_splits)
  show "case rte_pktmbuf_adj m len w of (a, w') \<Rightarrow> if unat len \<le> unat (m_data_len (mb w m))
      then packet_ok w' m as \<and> packet_data w' as = drop (unat len) (packet_data w as) \<and> a = rte_pktmbuf_mtod (mb w' m) \<and> data_frame w w' as else a = 0 \<and> w' = w"
    using adj_data [OF assms, of len]
    by (cases "rte_pktmbuf_adj m len w") (auto simp: word_le_nat_alt rte_pktmbuf_adj_def word_less_nat_alt split: if_splits)
  show "\<exists>a w'. rte_pktmbuf_append m len w = Some (a, w') \<and>
      (if unat (m_data_off (mb w ?l)) + unat (m_data_len (mb w ?l)) + unat len \<le> unat (m_buf_len (mb w ?l))
       then packet_ok w' m as \<and> packet_data w' as = packet_data w as @ addrs a (unat len) \<and> data_frame w w' as else a = 0 \<and> w' = w)"
  proof (cases "unat (m_data_off (mb w ?l)) + unat (m_data_len (mb w ?l)) + unat len \<le> unat (m_buf_len (mb w ?l))")
    case True
    then show ?thesis using append_data [OF assms] by simp
  next
    case False
    then have "len > rte_pktmbuf_tailroom (mb w ?l)" using mbuf_okD(2) [OF k(4)] k(4) by (simp add: word_less_nat_alt mbuf_ok_def)
    then show ?thesis using False seg by (simp add: rte_pktmbuf_append_def)
  qed
  show "\<exists>ret w'. rte_pktmbuf_trim m len w = Some (ret, w') \<and> (if unat len \<le> unat (m_data_len (mb w ?l))
      then ret = 0 \<and> packet_ok w' m as \<and> packet_data w' as = take (length (packet_data w as) - unat len) (packet_data w as) \<and> data_frame w w' as
      else ret = - 1 \<and> w' = w)"
    using trim_data [OF assms, of len] seg
    by (cases "len \<le> m_data_len (mb w ?l)") (auto simp: word_le_nat_alt rte_pktmbuf_trim_def word_less_nat_alt)
qed

text \<open>A packet of two segments: the one at \<open>0x1000\<close>, which counts 120 bytes, and the one at \<open>0x2000\<close>.\<close>

definition sample_packet :: mbuf_world where
  "sample_packet = put_mb 0x1000 (sample_mbuf\<lparr>m_next := 0x2000, m_nb_segs := 2, m_pkt_len := 120\<rparr>) sample_world"

theorem data_area_bounds_witness:
  "packet_ok sample_packet 0x1000 [0x1000, 0x2000] \<and>
   (\<exists>w'. rte_pktmbuf_trim 0x1000 10 sample_packet = Some (0, w') \<and> packet_ok w' 0x1000 [0x1000, 0x2000] \<and>
      packet_data w' [0x1000, 0x2000] = take 110 (packet_data sample_packet [0x1000, 0x2000])) \<and>
   rte_pktmbuf_prepend 0x1000 129 sample_packet = (0, sample_packet)"
proof -
  have f: "mb sample_packet 0x1000 = sample_mbuf\<lparr>m_next := 0x2000, m_nb_segs := 2, m_pkt_len := 120\<rparr>" "mb sample_packet 0x2000 = sample_mbuf"
    by (simp_all add: sample_packet_def)
  have len: "length (packet_data sample_packet [0x1000, 0x2000]) = 120" by (simp add: packet_data_def f sample_mbuf_fields)
  have ok: "packet_ok sample_packet 0x1000 [0x1000, 0x2000]"
    using len by (simp add: packet_ok_def f sample_mbuf_fields mbuf_ok_def)
  show ?thesis
    using data_area_bounds [OF ok, of 10] data_area_bounds [OF ok, of 129] ok len by (auto simp: f sample_mbuf_fields split: prod.splits)
qed

end
