(* ===== verification/Timer.thy ===== *)
theory Timer
  imports Eth_Types
begin

text \<open>
  The timers of \<open>dpdk-2.0.0/lib/librte_timer/rte_timer.c\<close>: one skip list of pending timers per lcore, ordered by
  the time of expiry. The nodes of the lists are timers, by their address, and one dummy head per
  lcore. A lock that is taken twice by the thread that holds it is a wait without end, so
  that a theorem that a call returns also shows that its locks are free. \<open>CONFIG_RTE_LIBRTE_TIMER_DEBUG\<close> is not
  set, so there are no statistics. The functions are those of one thread; the compare-and-set of a
  status it has just read succeeds.
\<close>

section \<open>The structures\<close>

definition RTE_TIMER_STOP :: u16 where "RTE_TIMER_STOP = 0"
definition RTE_TIMER_PENDING :: u16 where "RTE_TIMER_PENDING = 1"
definition RTE_TIMER_RUNNING :: u16 where "RTE_TIMER_RUNNING = 2"
definition RTE_TIMER_CONFIG :: u16 where "RTE_TIMER_CONFIG = 3"
definition RTE_TIMER_NO_OWNER :: u16 where "RTE_TIMER_NO_OWNER = - 2"
definition MAX_SKIPLIST_DEPTH :: nat where "MAX_SKIPLIST_DEPTH = 10"
definition LCORE_ID_ANY :: u32 where "LCORE_ID_ANY = 0xFFFFFFFF"

lemmas timer_consts = RTE_TIMER_STOP_def RTE_TIMER_PENDING_def RTE_TIMER_RUNNING_def RTE_TIMER_CONFIG_def

datatype rte_timer_type = SINGLE | PERIODICAL

text \<open>\<open>owner\<close> is the 16-bit pattern of the signed field.\<close>

record rte_timer_status =
  ts_state :: u16
  ts_owner :: u16

datatype timer_ptr = Pending_head u32 | Tim u64

record rte_timer =
  tm_expire :: u64
  tm_sl_next :: "nat \<Rightarrow> u64 option"
  tm_status :: rte_timer_status
  tm_period :: u64
  tm_f :: u64
  tm_arg :: u64

record 'w timers =
  pt_node :: "timer_ptr \<Rightarrow> rte_timer"
  pt_locked :: "u32 \<Rightarrow> bool"
  pt_updated :: "u32 \<Rightarrow> bool"
  pt_depth :: "u32 \<Rightarrow> nat"
  pt_prev_lcore :: "u32 \<Rightarrow> u32"
  pt_draws :: nat
  pt_world :: 'w

text \<open>
  The surroundings: the calling lcore, which lcores are enabled, the results of \<open>rte_rand\<close> in the order of its calls,
  and the callbacks, by the address of the function, the timer and its argument.
\<close>

record 'w timer_env =
  te_lcore :: u32
  te_enabled :: "u32 \<Rightarrow> bool"
  te_rand :: "nat \<Rightarrow> u64"
  te_call :: "u64 \<Rightarrow> u64 \<Rightarrow> u64 \<Rightarrow> 'w timers \<Rightarrow> c_error + 'w timers"

definition upd_node :: "timer_ptr \<Rightarrow> (rte_timer \<Rightarrow> rte_timer) \<Rightarrow> 'w timers \<Rightarrow> 'w timers" where
  "upd_node p f s = s\<lparr>pt_node := (pt_node s)(p := f (pt_node s p))\<rparr>"

definition nxt :: "'w timers \<Rightarrow> nat \<Rightarrow> timer_ptr \<Rightarrow> u64 option" where
  "nxt s lvl p = tm_sl_next (pt_node s p) lvl"

definition set_nxt :: "timer_ptr \<Rightarrow> nat \<Rightarrow> u64 option \<Rightarrow> 'w timers \<Rightarrow> 'w timers" where
  "set_nxt p lvl q = upd_node p (\<lambda>t. t\<lparr>tm_sl_next := (tm_sl_next t)(lvl := q)\<rparr>)"

definition set_status :: "u64 \<Rightarrow> u16 \<Rightarrow> u16 \<Rightarrow> 'w timers \<Rightarrow> 'w timers" where
  "set_status tim st owner = upd_node (Tim tim) (\<lambda>t. t\<lparr>tm_status := \<lparr>ts_state = st, ts_owner = owner\<rparr>\<rparr>)"

definition set_expire :: "timer_ptr \<Rightarrow> u64 \<Rightarrow> 'w timers \<Rightarrow> 'w timers" where
  "set_expire p e = upd_node p (\<lambda>t. t\<lparr>tm_expire := e\<rparr>)"

definition set_depth :: "u32 \<Rightarrow> nat \<Rightarrow> 'w timers \<Rightarrow> 'w timers" where
  "set_depth l d s = s\<lparr>pt_depth := (pt_depth s)(l := d)\<rparr>"

definition set_updated :: "u32 \<Rightarrow> bool \<Rightarrow> 'w timers \<Rightarrow> 'w timers" where
  "set_updated l b s = s\<lparr>pt_updated := (pt_updated s)(l := b)\<rparr>"

definition set_locked :: "u32 \<Rightarrow> bool \<Rightarrow> 'w timers \<Rightarrow> 'w timers" where
  "set_locked l b s = s\<lparr>pt_locked := (pt_locked s)(l := b)\<rparr>"

definition rte_spinlock_lock :: "u32 \<Rightarrow> 'w timers \<Rightarrow> c_error + 'w timers" where
  "rte_spinlock_lock l s = (if pt_locked s l then Inl No_return else Inr (set_locked l True s))"

definition rte_spinlock_unlock :: "u32 \<Rightarrow> 'w timers \<Rightarrow> 'w timers" where
  "rte_spinlock_unlock l s = set_locked l False s"

lemmas timer_upds = upd_node_def set_nxt_def set_status_def set_expire_def set_depth_def set_updated_def set_locked_def

section \<open>Initialisation and states\<close>

definition rte_timer_subsystem_init :: "'w timers \<Rightarrow> 'w timers" where
  "rte_timer_subsystem_init s = s\<lparr>pt_locked := (\<lambda>l. if l < 128 then False else pt_locked s l),
     pt_prev_lcore := (\<lambda>l. if l < 128 then l else pt_prev_lcore s l)\<rparr>"

definition rte_timer_init :: "u64 \<Rightarrow> 'w timers \<Rightarrow> 'w timers" where
  "rte_timer_init tim = set_status tim RTE_TIMER_STOP RTE_TIMER_NO_OWNER"

definition status :: "'w timers \<Rightarrow> u64 \<Rightarrow> rte_timer_status" where
  "status s tim = tm_status (pt_node s (Tim tim))"

text \<open>\<open>None\<close> is the result \<open>-1\<close>. The signed owner is compared with the unsigned 16 bits of the lcore.\<close>

definition timer_set_config_state :: "u32 \<Rightarrow> u64 \<Rightarrow> 'w timers \<Rightarrow> (rte_timer_status \<times> 'w timers) option" where
  "timer_set_config_state lcore tim s =
     (let prev = status s tim in
      if ts_state prev = RTE_TIMER_RUNNING \<and> sint (ts_owner prev) \<noteq> uint (ucast lcore :: u16) then None
      else if ts_state prev = RTE_TIMER_CONFIG then None
      else Some (prev, set_status tim RTE_TIMER_CONFIG (ucast lcore) s))"

definition timer_set_running_state :: "u32 \<Rightarrow> u64 \<Rightarrow> 'w timers \<Rightarrow> 'w timers option" where
  "timer_set_running_state lcore tim s =
     (if ts_state (status s tim) \<noteq> RTE_TIMER_PENDING then None
      else Some (set_status tim RTE_TIMER_RUNNING (ucast lcore) s))"

text \<open>The number of the lowest bit that is set, as \<open>__builtin_ctz\<close> of a number other than 0.\<close>

function bsf :: "u32 \<Rightarrow> nat" where
  "bsf v = (if v = 0 \<or> bit v 0 then 0 else Suc (bsf (drop_bit 1 v)))"
  by pat_completeness auto
termination
proof (relation "measure unat", goal_cases)
  case (2 v)
  then have "0 < unat v" by (simp add: unat_gt_0)
  then show ?case by (simp add: unat_drop_bit_eq drop_bit_nat_def)
qed simp

declare bsf.simps [simp del]

definition timer_get_skiplist_level :: "u64 \<Rightarrow> nat \<Rightarrow> nat" where
  "timer_get_skiplist_level rnd curr_depth =
     (let rand = ucast (rnd AND 0xFFFFFFFE) :: u32;
          level = (if rand = 0 then MAX_SKIPLIST_DEPTH else (bsf rand - 1) div 2);
          level = (if level > curr_depth then curr_depth else level)
      in if level \<ge> MAX_SKIPLIST_DEPTH then MAX_SKIPLIST_DEPTH - 1 else level)"

section \<open>Search\<close>

text \<open>The inner loop on one level. \<open>None\<close> is a loop that does not end.\<close>

partial_function (option) advance :: "'w timers \<Rightarrow> (u64 \<Rightarrow> bool) \<Rightarrow> nat \<Rightarrow> timer_ptr \<Rightarrow> timer_ptr option" where
  "advance s cond lvl p =
     (case nxt s lvl p of
        None \<Rightarrow> Some p
      | Some q \<Rightarrow> if cond q then advance s cond lvl (Tim q) else Some p)"

definition expires_by :: "'w timers \<Rightarrow> u64 \<Rightarrow> u64 \<Rightarrow> bool" where
  "expires_by s time_val q \<longleftrightarrow> tm_expire (pt_node s (Tim q)) \<le> time_val"

fun prev_levels :: "'w timers \<Rightarrow> u64 \<Rightarrow> nat \<Rightarrow> (nat \<Rightarrow> timer_ptr) \<Rightarrow> (nat \<Rightarrow> timer_ptr) option" where
  "prev_levels s time_val 0 prev = Some prev"
| "prev_levels s time_val (Suc lvl) prev =
     (case advance s (expires_by s time_val) lvl (prev (Suc lvl)) of
        None \<Rightarrow> None
      | Some p \<Rightarrow> prev_levels s time_val lvl (prev(lvl := p)))"

text \<open>The entries above the depth are not set, and not read.\<close>

definition timer_get_prev_entries :: "u64 \<Rightarrow> u32 \<Rightarrow> 'w timers \<Rightarrow> (nat \<Rightarrow> timer_ptr) option" where
  "timer_get_prev_entries time_val tim_lcore s = prev_levels s time_val (pt_depth s tim_lcore) (\<lambda>_. Pending_head tim_lcore)"

fun node_levels :: "'w timers \<Rightarrow> u64 \<Rightarrow> nat \<Rightarrow> (nat \<Rightarrow> timer_ptr) \<Rightarrow> (nat \<Rightarrow> timer_ptr) option" where
  "node_levels s tim 0 prev = Some prev"
| "node_levels s tim (Suc i) prev =
     (case advance s (\<lambda>q. q \<noteq> tim \<and> expires_by s (tm_expire (pt_node s (Tim tim))) q) i (prev i) of
        None \<Rightarrow> None
      | Some p \<Rightarrow> node_levels s tim i (prev(i := p)))"

definition timer_get_prev_entries_for_node :: "u64 \<Rightarrow> u32 \<Rightarrow> 'w timers \<Rightarrow> (nat \<Rightarrow> timer_ptr) option" where
  "timer_get_prev_entries_for_node tim tim_lcore s =
     (case timer_get_prev_entries (tm_expire (pt_node s (Tim tim)) - 1) tim_lcore s of
        None \<Rightarrow> None
      | Some prev \<Rightarrow> node_levels s tim (pt_depth s tim_lcore) prev)"

section \<open>Insertion and removal\<close>

definition locked_for :: "u32 \<Rightarrow> u32 \<Rightarrow> bool \<Rightarrow> 'w timers \<Rightarrow> ('w timers \<Rightarrow> c_error + 'w timers) \<Rightarrow> c_error + 'w timers" where
  "locked_for lcore l local_is_locked s body =
     (if l \<noteq> lcore \<or> \<not> local_is_locked
      then bnd (rte_spinlock_lock l s) (\<lambda>s. bnd (body s) (\<lambda>s. Inr (rte_spinlock_unlock l s)))
      else body s)"

definition link :: "u64 \<Rightarrow> (nat \<Rightarrow> timer_ptr) \<Rightarrow> nat \<Rightarrow> 'w timers \<Rightarrow> 'w timers" where
  "link tim prev lvl s = set_nxt (prev lvl) lvl (Some tim) (set_nxt (Tim tim) lvl (nxt s lvl (prev lvl)) s)"

fun link_levels :: "u64 \<Rightarrow> (nat \<Rightarrow> timer_ptr) \<Rightarrow> nat \<Rightarrow> 'w timers \<Rightarrow> 'w timers" where
  "link_levels tim prev 0 s = link tim prev 0 s"
| "link_levels tim prev (Suc lvl) s = link_levels tim prev lvl (link tim prev (Suc lvl) s)"

definition add_locked :: "'w timer_env \<Rightarrow> u64 \<Rightarrow> u32 \<Rightarrow> 'w timers \<Rightarrow> c_error + 'w timers" where
  "add_locked env tim tim_lcore s =
     (case timer_get_prev_entries (tm_expire (pt_node s (Tim tim))) tim_lcore s of
        None \<Rightarrow> Inl No_return
      | Some prev \<Rightarrow>
          (let tim_level = timer_get_skiplist_level (te_rand env (pt_draws s)) (pt_depth s tim_lcore);
               s = s\<lparr>pt_draws := Suc (pt_draws s)\<rparr>;
               s = (if tim_level = pt_depth s tim_lcore then set_depth tim_lcore (Suc (pt_depth s tim_lcore)) s else s);
               s = link_levels tim prev tim_level s
           in case nxt s 0 (Pending_head tim_lcore) of
                None \<Rightarrow> Inl Null_pointer
              | Some first \<Rightarrow> Inr (set_expire (Pending_head tim_lcore) (tm_expire (pt_node s (Tim first))) s)))"

definition timer_add :: "'w timer_env \<Rightarrow> u64 \<Rightarrow> u32 \<Rightarrow> bool \<Rightarrow> 'w timers \<Rightarrow> c_error + 'w timers" where
  "timer_add env tim tim_lcore local_is_locked s =
     locked_for (te_lcore env) tim_lcore local_is_locked s (add_locked env tim tim_lcore)"

fun unlink_levels :: "u64 \<Rightarrow> (nat \<Rightarrow> timer_ptr) \<Rightarrow> nat \<Rightarrow> 'w timers \<Rightarrow> 'w timers" where
  "unlink_levels tim prev 0 s = s"
| "unlink_levels tim prev (Suc i) s =
     unlink_levels tim prev i
       (if nxt s i (prev i) = Some tim then set_nxt (prev i) i (nxt s i (Tim tim)) s else s)"

fun shrink_levels :: "u32 \<Rightarrow> nat \<Rightarrow> 'w timers \<Rightarrow> 'w timers" where
  "shrink_levels l 0 s = s"
| "shrink_levels l (Suc i) s =
     (if nxt s i (Pending_head l) = None then shrink_levels l i (set_depth l (pt_depth s l - 1) s) else s)"

definition del_locked :: "u64 \<Rightarrow> u32 \<Rightarrow> 'w timers \<Rightarrow> c_error + 'w timers" where
  "del_locked tim prev_owner s =
     (let s = (if nxt s 0 (Pending_head prev_owner) = Some tim
               then set_expire (Pending_head prev_owner)
                      (case nxt s 0 (Tim tim) of None \<Rightarrow> 0 | Some q \<Rightarrow> tm_expire (pt_node s (Tim q))) s
               else s)
      in case timer_get_prev_entries_for_node tim prev_owner s of
           None \<Rightarrow> Inl No_return
         | Some prev \<Rightarrow>
             (let s = unlink_levels tim prev (pt_depth s prev_owner) s
              in Inr (shrink_levels prev_owner (pt_depth s prev_owner) s)))"

definition timer_del :: "u32 \<Rightarrow> u64 \<Rightarrow> rte_timer_status \<Rightarrow> bool \<Rightarrow> 'w timers \<Rightarrow> c_error + 'w timers" where
  "timer_del lcore tim prev_status local_is_locked s =
     (let prev_owner = scast (ts_owner prev_status) :: u32
      in locked_for lcore prev_owner local_is_locked s (del_locked tim prev_owner))"

section \<open>The interface\<close>

text \<open>\<open>rte_get_next_lcore\<close> with \<open>skip_master = 0\<close> and \<open>wrap = 1\<close>.\<close>

partial_function (option) next_lcore_from :: "(u32 \<Rightarrow> bool) \<Rightarrow> u32 \<Rightarrow> u32 option" where
  "next_lcore_from enabled i = (if i < 128 \<and> \<not> enabled i then next_lcore_from enabled ((i + 1) mod 128) else Some i)"

definition rte_get_next_lcore :: "(u32 \<Rightarrow> bool) \<Rightarrow> u32 \<Rightarrow> u32 option" where
  "rte_get_next_lcore enabled i = next_lcore_from enabled ((i + 1) mod 128)"

definition pick_lcore :: "'w timer_env \<Rightarrow> u32 \<Rightarrow> 'w timers \<Rightarrow> c_error + u32 \<times> 'w timers" where
  "pick_lcore env tim_lcore s =
     (if tim_lcore \<noteq> LCORE_ID_ANY then Inr (tim_lcore, s)
      else if te_lcore env < 128
      then (case rte_get_next_lcore (te_enabled env) (pt_prev_lcore s (te_lcore env)) of
              None \<Rightarrow> Inl No_return
            | Some l \<Rightarrow> Inr (l, s\<lparr>pt_prev_lcore := (pt_prev_lcore s)(te_lcore env := l)\<rparr>))
      else (case rte_get_next_lcore (te_enabled env) LCORE_ID_ANY of None \<Rightarrow> Inl No_return | Some l \<Rightarrow> Inr (l, s)))"

definition note_updated :: "u32 \<Rightarrow> rte_timer_status \<Rightarrow> 'w timers \<Rightarrow> 'w timers" where
  "note_updated lcore prev_status s =
     (if ts_state prev_status = RTE_TIMER_RUNNING \<and> lcore < 128 then set_updated lcore True s else s)"

definition timer_reset ::
  "'w timer_env \<Rightarrow> u64 \<Rightarrow> u64 \<Rightarrow> u64 \<Rightarrow> u32 \<Rightarrow> u64 \<Rightarrow> u64 \<Rightarrow> bool \<Rightarrow> 'w timers \<Rightarrow> c_error + int \<times> 'w timers" where
  "timer_reset env tim expire period tim_lcore fct arg local_is_locked s =
     bnd (pick_lcore env tim_lcore s) (\<lambda>(tim_lcore, s).
     case timer_set_config_state (te_lcore env) tim s of
       None \<Rightarrow> Inr (- 1, s)
     | Some (prev_status, s) \<Rightarrow>
         (let s = note_updated (te_lcore env) prev_status s in
          bnd (if ts_state prev_status = RTE_TIMER_PENDING
               then timer_del (te_lcore env) tim prev_status local_is_locked s else Inr s) (\<lambda>s.
          bnd (timer_add env tim tim_lcore local_is_locked
                 (upd_node (Tim tim) (\<lambda>t. t\<lparr>tm_period := period, tm_expire := expire, tm_f := fct, tm_arg := arg\<rparr>) s)) (\<lambda>s.
          Inr (0, set_status tim RTE_TIMER_PENDING (ucast tim_lcore) s)))))"

text \<open>\<open>now\<close> is the result of \<open>rte_get_timer_cycles\<close>.\<close>

definition rte_timer_reset ::
  "'w timer_env \<Rightarrow> u64 \<Rightarrow> u64 \<Rightarrow> u64 \<Rightarrow> rte_timer_type \<Rightarrow> u32 \<Rightarrow> u64 \<Rightarrow> u64 \<Rightarrow> 'w timers \<Rightarrow> c_error + int \<times> 'w timers" where
  "rte_timer_reset env now tim ticks typ tim_lcore fct arg s =
     (if tim_lcore \<noteq> LCORE_ID_ANY \<and> \<not> te_enabled env tim_lcore then Inr (- 1, s)
      else timer_reset env tim (now + ticks) (if typ = PERIODICAL then ticks else 0) tim_lcore fct arg False s)"

definition rte_timer_stop :: "'w timer_env \<Rightarrow> u64 \<Rightarrow> 'w timers \<Rightarrow> c_error + int \<times> 'w timers" where
  "rte_timer_stop env tim s =
     (case timer_set_config_state (te_lcore env) tim s of
        None \<Rightarrow> Inr (- 1, s)
      | Some (prev_status, s) \<Rightarrow>
          (let s = note_updated (te_lcore env) prev_status s in
           bnd (if ts_state prev_status = RTE_TIMER_PENDING
                then timer_del (te_lcore env) tim prev_status False s else Inr s) (\<lambda>s.
           Inr (0, set_status tim RTE_TIMER_STOP RTE_TIMER_NO_OWNER s))))"

text \<open>The loops that repeat a call until it succeeds; \<open>nows\<close> are the readings of the clock.\<close>

partial_function (option) rte_timer_reset_sync ::
  "'w timer_env \<Rightarrow> (nat \<Rightarrow> u64) \<Rightarrow> nat \<Rightarrow> u64 \<Rightarrow> u64 \<Rightarrow> rte_timer_type \<Rightarrow> u32 \<Rightarrow> u64 \<Rightarrow> u64 \<Rightarrow> 'w timers \<Rightarrow> (c_error + 'w timers) option" where
  "rte_timer_reset_sync env nows i tim ticks typ tim_lcore fct arg s =
     (case rte_timer_reset env (nows i) tim ticks typ tim_lcore fct arg s of
        Inl e \<Rightarrow> Some (Inl e)
      | Inr (r, s) \<Rightarrow> if r \<noteq> 0 then rte_timer_reset_sync env nows (Suc i) tim ticks typ tim_lcore fct arg s else Some (Inr s))"

partial_function (option) rte_timer_stop_sync :: "'w timer_env \<Rightarrow> u64 \<Rightarrow> 'w timers \<Rightarrow> (c_error + 'w timers) option" where
  "rte_timer_stop_sync env tim s =
     (case rte_timer_stop env tim s of
        Inl e \<Rightarrow> Some (Inl e)
      | Inr (r, s) \<Rightarrow> if r \<noteq> 0 then rte_timer_stop_sync env tim s else Some (Inr s))"

definition rte_timer_pending :: "u64 \<Rightarrow> 'w timers \<Rightarrow> bool" where
  "rte_timer_pending tim s \<longleftrightarrow> ts_state (status s tim) = RTE_TIMER_PENDING"

section \<open>Expiry\<close>

fun break_levels :: "u32 \<Rightarrow> (nat \<Rightarrow> timer_ptr) \<Rightarrow> nat \<Rightarrow> 'w timers \<Rightarrow> 'w timers" where
  "break_levels l prev 0 s = s"
| "break_levels l prev (Suc i) s =
     (let rest = nxt s i (prev i);
          s = set_nxt (Pending_head l) i rest s;
          s = (if nxt s i (prev i) = None then set_depth l (pt_depth s l - 1) s else s)
      in break_levels l prev i (set_nxt (prev i) i None s))"

definition run_timer :: "'w timer_env \<Rightarrow> u64 \<Rightarrow> u64 \<Rightarrow> 'w timers \<Rightarrow> c_error + 'w timers" where
  "run_timer env cur_time tim s =
     (let lcore = te_lcore env;
          s = set_updated lcore False (rte_spinlock_unlock lcore s);
          t = pt_node s (Tim tim)
      in bnd (te_call env (tm_f t) tim (tm_arg t) s) (\<lambda>s.
         bnd (rte_spinlock_lock lcore s) (\<lambda>s.
           let t = pt_node s (Tim tim) in
           if pt_updated s lcore then Inr s
           else if tm_period t = 0 then Inr (set_status tim RTE_TIMER_STOP RTE_TIMER_NO_OWNER s)
           else bnd (timer_reset env tim (cur_time + tm_period t) (tm_period t) lcore (tm_f t) (tm_arg t) True
                       (set_status tim RTE_TIMER_PENDING (ucast lcore) s)) (\<lambda>(_, s). Inr s))))"

partial_function (option) run_expired ::
  "'w timer_env \<Rightarrow> u64 \<Rightarrow> u64 option \<Rightarrow> 'w timers \<Rightarrow> (c_error + 'w timers) option" where
  "run_expired env cur_time p s =
     (case p of
        None \<Rightarrow> Some (Inr s)
      | Some tim \<Rightarrow>
          (let next_tim = nxt s 0 (Tim tim) in
           case timer_set_running_state (te_lcore env) tim s of
             None \<Rightarrow> run_expired env cur_time next_tim s
           | Some s \<Rightarrow> (case run_timer env cur_time tim s of
                         Inl e \<Rightarrow> Some (Inl e)
                       | Inr s \<Rightarrow> run_expired env cur_time next_tim s)))"

definition manage_locked :: "'w timer_env \<Rightarrow> u64 \<Rightarrow> 'w timers \<Rightarrow> c_error + 'w timers" where
  "manage_locked env cur_time s =
     (let l = te_lcore env in
      case nxt s 0 (Pending_head l) of
        None \<Rightarrow> Inr s
      | Some tim \<Rightarrow>
          if tm_expire (pt_node s (Tim tim)) > cur_time then Inr s
          else (case timer_get_prev_entries cur_time l s of
                  None \<Rightarrow> Inl No_return
                | Some prev \<Rightarrow>
                    (case run_expired env cur_time (Some tim) (break_levels l prev (pt_depth s l) s) of
                       None \<Rightarrow> Inl No_return
                     | Some (Inl e) \<Rightarrow> Inl e
                     | Some (Inr s) \<Rightarrow>
                         Inr (set_expire (Pending_head l)
                                (case nxt s 0 (Pending_head l) of None \<Rightarrow> 0 | Some q \<Rightarrow> tm_expire (pt_node s (Tim q))) s))))"

definition rte_timer_manage :: "'w timer_env \<Rightarrow> u64 \<Rightarrow> 'w timers \<Rightarrow> c_error + 'w timers" where
  "rte_timer_manage env cur_time s =
     (let l = te_lcore env in
      if \<not> l < 128 then Inl (Panic ''assert'')
      else if nxt s 0 (Pending_head l) = None then Inr s
      else if tm_expire (pt_node s (Pending_head l)) > cur_time then Inr s
      else bnd (rte_spinlock_lock l s) (\<lambda>s. bnd (manage_locked env cur_time s) (\<lambda>s. Inr (rte_spinlock_unlock l s))))"

end
