(* ===== verification/Timer_Spec.thy ===== *)
theory Timer_Spec
  imports Timer
begin

text \<open>
  The skip lists implement sorted lists: \<open>skiplist s l xs\<close> says that the list of lcore \<open>l\<close> is \<open>xs\<close> in the
  order of expiry, that each level holds a part of the level below, and that no level is used at or
  above the depth. The searches end, insertion and removal keep this, and the operations of the
  interface are insertion into and removal from sorted lists.
\<close>

section \<open>Chains\<close>

fun chain :: "'w timers \<Rightarrow> nat \<Rightarrow> timer_ptr \<Rightarrow> u64 list \<Rightarrow> bool" where
  "chain s i p [] \<longleftrightarrow> nxt s i p = None"
| "chain s i p (x # xs) \<longleftrightarrow> nxt s i p = Some x \<and> chain s i (Tim x) xs"

fun linked :: "'w timers \<Rightarrow> nat \<Rightarrow> timer_ptr \<Rightarrow> u64 list \<Rightarrow> bool" where
  "linked s i p [] \<longleftrightarrow> True"
| "linked s i p (x # xs) \<longleftrightarrow> nxt s i p = Some x \<and> linked s i (Tim x) xs"

definition last_ref :: "timer_ptr \<Rightarrow> u64 list \<Rightarrow> timer_ptr" where
  "last_ref p xs = (if xs = [] then p else Tim (last xs))"

lemma last_ref_simps [simp]:
  "last_ref p [] = p" "last_ref p (x # xs) = last_ref (Tim x) xs" "last_ref p (xs @ ys) = last_ref (last_ref p xs) ys"
  by (auto simp: last_ref_def)

lemma last_ref_in: "last_ref p xs \<in> insert p (Tim ` set xs)"
  by (auto simp: last_ref_def)

lemma chain_append: "chain s i p (xs @ ys) \<longleftrightarrow> linked s i p xs \<and> chain s i (last_ref p xs) ys"
  by (induction xs arbitrary: p) auto

lemma links_cong:
  "(\<And>r. r \<in> insert p (Tim ` set xs) \<Longrightarrow> nxt s' i r = nxt s i r) \<Longrightarrow> chain s' i p xs = chain s i p xs"
  by (induction xs arbitrary: p) auto

lemma linked_cong:
  "(\<And>r. r \<in> insert p (Tim ` set xs) \<Longrightarrow> r \<noteq> last_ref p xs \<Longrightarrow> nxt s' i r = nxt s i r) \<Longrightarrow>
   distinct xs \<Longrightarrow> p \<notin> Tim ` set xs \<Longrightarrow> linked s' i p xs = linked s i p xs"
proof (induction xs arbitrary: p)
  case (Cons x xs)
  have "p \<noteq> last_ref p (x # xs)" using Cons.prems(3) last_ref_in [of "Tim x" xs] by auto
  then have "nxt s' i p = nxt s i p" using Cons.prems(1) by simp
  moreover have "linked s' i (Tim x) xs = linked s i (Tim x) xs"
    using Cons.prems by (intro Cons.IH) auto
  ultimately show ?case by simp
qed simp

lemma advance_chain:
  assumes "chain s i p (xs @ ys)" and "\<forall>x \<in> set xs. cond x" and "ys = [] \<or> \<not> cond (hd ys)"
  shows "advance s cond i p = Some (last_ref p xs)"
  using assms
proof (induction xs arbitrary: p)
  case Nil
  then show ?case by (subst advance.simps, cases ys) simp_all
next
  case (Cons x xs)
  then show ?case by (subst advance.simps) simp
qed

section \<open>Levels\<close>

lemma nxt_set_nxt [simp]: "nxt (set_nxt p i q s) j r = (if r = p \<and> j = i then q else nxt s j r)"
  by (auto simp: nxt_def timer_upds)

lemma nxt_frame [simp]:
  "nxt (set_depth l d s) j r = nxt s j r" "nxt (s\<lparr>pt_draws := n\<rparr>) j r = nxt s j r"
  "nxt (set_expire p e s) j r = nxt s j r" "nxt (set_status t a c s) j r = nxt s j r"
  "nxt (set_locked l b s) j r = nxt s j r" "nxt (set_updated l b s) j r = nxt s j r"
  by (auto simp: nxt_def timer_upds)

lemma nxt_link:
  "prev i \<noteq> Tim tim \<Longrightarrow> nxt (link tim prev i s) j r =
    (if j = i then (if r = prev j then Some tim else if r = Tim tim then nxt s j (prev j) else nxt s j r) else nxt s j r)"
  by (auto simp: link_def)

lemma nxt_link_levels:
  assumes "\<And>j. prev j \<noteq> Tim tim"
  shows "nxt (link_levels tim prev t s) j r =
    (if j \<le> t then (if r = prev j then Some tim else if r = Tim tim then nxt s j (prev j) else nxt s j r) else nxt s j r)"
proof (induction t arbitrary: s)
  case (Suc t)
  show ?case unfolding link_levels.simps Suc.IH nxt_link [of prev, OF assms] by (simp add: le_Suc_eq)
qed (simp add: nxt_link assms)

lemma nxt_unlink_levels:
  "nxt (unlink_levels tim prev d s) j r =
    (if j < d \<and> nxt s j (prev j) = Some tim \<and> r = prev j then nxt s j (Tim tim) else nxt s j r)"
  by (induction d arbitrary: s) (auto simp: less_Suc_eq)

text \<open>The fields of the nodes other than the links, and the state around the nodes.\<close>

definition same_nodes :: "'w timers \<Rightarrow> 'w timers \<Rightarrow> bool" where
  "same_nodes s s' \<longleftrightarrow> (\<forall>p. tm_expire (pt_node s' p) = tm_expire (pt_node s p) \<and> tm_status (pt_node s' p) = tm_status (pt_node s p) \<and>
     tm_period (pt_node s' p) = tm_period (pt_node s p) \<and> tm_f (pt_node s' p) = tm_f (pt_node s p) \<and>
     tm_arg (pt_node s' p) = tm_arg (pt_node s p)) \<and>
     pt_locked s' = pt_locked s \<and> pt_updated s' = pt_updated s \<and> pt_prev_lcore s' = pt_prev_lcore s \<and>
     pt_draws s' = pt_draws s \<and> pt_world s' = pt_world s"

lemma same_nodes_refl [simp]: "same_nodes s s" by (simp add: same_nodes_def)

lemma same_nodes_trans: "same_nodes s t \<Longrightarrow> same_nodes t u \<Longrightarrow> same_nodes s u"
  by (simp add: same_nodes_def)

lemma same_nodes_set_nxt [simp]: "same_nodes s (set_nxt p i q s)" by (simp add: same_nodes_def timer_upds)

lemma same_nodes_set_depth [simp]: "same_nodes s (set_depth l d s)" by (simp add: same_nodes_def timer_upds)

lemma depth_set_nxt [simp]: "pt_depth (set_nxt p i q s) = pt_depth s" by (simp add: timer_upds)

lemma same_nodes_link: "same_nodes s (link tim prev t s)" "pt_depth (link tim prev t s) = pt_depth s"
  unfolding link_def by (rule same_nodes_trans [OF same_nodes_set_nxt same_nodes_set_nxt]) simp

lemma same_nodes_link_levels: "same_nodes s (link_levels tim prev t s) \<and> pt_depth (link_levels tim prev t s) = pt_depth s"
proof (induction t arbitrary: s)
  case 0
  show ?case by (simp add: same_nodes_link)
next
  case (Suc t)
  with Suc [of "link tim prev (Suc t) s"] show ?case by (auto simp: same_nodes_link intro: same_nodes_trans [OF same_nodes_link(1)])
qed

lemma same_nodes_unlink_levels:
  "same_nodes s (unlink_levels tim prev d s) \<and> pt_depth (unlink_levels tim prev d s) = pt_depth s"
proof (induction d arbitrary: s)
  case (Suc d)
  then show ?case by simp (meson same_nodes_trans same_nodes_set_nxt)
qed simp

lemma same_nodes_expire: "same_nodes s s' \<Longrightarrow> tm_expire (pt_node s' p) = tm_expire (pt_node s p)"
  by (simp add: same_nodes_def)

section \<open>The skip list of an lcore\<close>

definition expire :: "'w timers \<Rightarrow> u64 \<Rightarrow> u64" where
  "expire s x = tm_expire (pt_node s (Tim x))"

definition at_level :: "(u64 \<Rightarrow> nat) \<Rightarrow> nat \<Rightarrow> u64 list \<Rightarrow> u64 list" where
  "at_level ht i xs = filter (\<lambda>x. i \<le> ht x) xs"

lemma at_level_simps [simp]:
  "at_level ht i [] = []" "at_level ht i (xs @ ys) = at_level ht i xs @ at_level ht i ys"
  "at_level ht i (x # xs) = (if i \<le> ht x then x # at_level ht i xs else at_level ht i xs)"
  "set (at_level ht i xs) = {x \<in> set xs. i \<le> ht x}" "at_level ht 0 xs = xs"
  by (auto simp: at_level_def)

definition skip_ok :: "'w timers \<Rightarrow> u32 \<Rightarrow> u64 list \<Rightarrow> (u64 \<Rightarrow> nat) \<Rightarrow> bool" where
  "skip_ok s l xs ht \<longleftrightarrow> (\<forall>i. chain s i (Pending_head l) (at_level ht i xs)) \<and> (\<forall>x \<in> set xs. ht x < pt_depth s l) \<and>
     pt_depth s l \<le> MAX_SKIPLIST_DEPTH \<and> distinct xs \<and> sorted (map (expire s) xs)"

lemma skip_okD:
  assumes "skip_ok s l xs ht"
  shows "chain s i (Pending_head l) (at_level ht i xs)" "x \<in> set xs \<Longrightarrow> ht x < pt_depth s l"
    "pt_depth s l \<le> MAX_SKIPLIST_DEPTH" "distinct xs" "sorted (map (expire s) xs)"
  using assms by (simp_all add: skip_ok_def)

text \<open>A search that starts at the last entry of the level above finds the last entry of its own level.\<close>

lemma level_split:
  "\<exists>us vs. at_level ht i as = us @ vs \<and> last_ref p us = last_ref p (at_level ht (Suc i) as)"
proof (cases "at_level ht (Suc i) as = []")
  case False
  let ?y = "last (at_level ht (Suc i) as)"
  have "?y \<in> set (at_level ht i as)" using last_in_set [OF False] by auto
  then obtain us vs where "at_level ht i as = (us @ [?y]) @ vs" using split_list [of ?y "at_level ht i as"] by auto
  then show ?thesis using False by (intro exI [of _ "us @ [?y]"] exI [of _ vs]) (auto simp: last_ref_def)
qed (auto intro: exI [of _ "[]"])

lemma prev_levels_ok:
  assumes ch: "\<And>i. chain s i h (at_level ht i (as @ bs))" and le: "\<forall>x \<in> set as. expires_by s t x" "\<forall>x \<in> set bs. \<not> expires_by s t x"
    and top: "prev lvl = last_ref h (at_level ht lvl as)"
  shows "\<exists>prev'. prev_levels s t lvl prev = Some prev' \<and> (\<forall>i<lvl. prev' i = last_ref h (at_level ht i as)) \<and>
    (\<forall>i\<ge>lvl. prev' i = prev i)"
  using top
proof (induction lvl arbitrary: prev)
  case (Suc lvl)
  obtain us vs where uv: "at_level ht lvl as = us @ vs" "last_ref h us = last_ref h (at_level ht (Suc lvl) as)"
    using level_split by blast
  have c: "chain s lvl (last_ref h us) (vs @ at_level ht lvl bs)"
    using ch [of lvl] uv(1) by (simp add: chain_append)
  have v: "x \<in> set vs \<Longrightarrow> expires_by s t x" for x using le(1) at_level_simps(4) [of ht lvl as] unfolding uv(1) by auto
  have b: "at_level ht lvl bs = [] \<or> \<not> expires_by s t (hd (at_level ht lvl bs))"
    using le(2) hd_in_set [of "at_level ht lvl bs"] by auto
  have "advance s (expires_by s t) lvl (prev (Suc lvl)) = Some (last_ref h (at_level ht lvl as))"
    using advance_chain [OF c, of "expires_by s t"] v b uv Suc.prems by simp
  moreover obtain prev' where "prev_levels s t lvl (prev(lvl := last_ref h (at_level ht lvl as))) = Some prev'"
      "\<forall>i<lvl. prev' i = last_ref h (at_level ht i as)"
      "\<forall>i\<ge>lvl. prev' i = (prev(lvl := last_ref h (at_level ht lvl as))) i"
    using Suc.IH [of "prev(lvl := last_ref h (at_level ht lvl as))", OF fun_upd_same] by blast
  ultimately show ?case by (auto simp: less_Suc_eq)
qed simp


text \<open>The two searches on a well-formed list.\<close>

lemma sorted_split:
  assumes "sorted (map (expire s) xs)"
  shows "\<forall>x \<in> set (takeWhile (expires_by s t) xs). expires_by s t x" "\<forall>x \<in> set (dropWhile (expires_by s t) xs). \<not> expires_by s t x"
proof -
  show "\<forall>x \<in> set (takeWhile (expires_by s t) xs). expires_by s t x" by (auto dest: set_takeWhileD)
  show "\<forall>x \<in> set (dropWhile (expires_by s t) xs). \<not> expires_by s t x"
    using assms by (induction xs) (auto simp: expires_by_def expire_def intro: order_trans split: if_splits)
qed

lemma prev_entries_ok:
  assumes "skip_ok s l xs ht"
  shows "\<exists>prev. timer_get_prev_entries t l s = Some prev \<and>
    (\<forall>i<pt_depth s l. prev i = last_ref (Pending_head l) (at_level ht i (takeWhile (expires_by s t) xs))) \<and>
    (\<forall>i\<ge>pt_depth s l. prev i = Pending_head l)"
proof -
  note ok = skip_okD [OF assms] and sp = sorted_split [OF skip_okD(5) [OF assms], of t]
  let ?as = "takeWhile (expires_by s t) xs" and ?bs = "dropWhile (expires_by s t) xs"
  have "at_level ht (pt_depth s l) ?as = []"
    using ok(2) by (auto simp: at_level_def filter_empty_conv not_le dest: set_takeWhileD)
  then show ?thesis
    unfolding timer_get_prev_entries_def
    using prev_levels_ok [of s "Pending_head l" ht ?as ?bs, OF _ sp, of "\<lambda>_. Pending_head l" "pt_depth s l"] ok(1) by simp
qed

text \<open>Insertion: the entry goes behind the entries that expire at the same time.\<close>

definition insert_timer :: "(u64 \<Rightarrow> u64) \<Rightarrow> u64 \<Rightarrow> u64 list \<Rightarrow> u64 list" where
  "insert_timer e tim xs = takeWhile (\<lambda>x. e x \<le> e tim) xs @ tim # dropWhile (\<lambda>x. e x \<le> e tim) xs"

lemma set_insert_timer [simp]: "set (insert_timer e tim xs) = insert tim (set xs)"
proof -
  have "set xs = set (takeWhile (\<lambda>x. e x \<le> e tim) xs) \<union> set (dropWhile (\<lambda>x. e x \<le> e tim) xs)"
    by (metis set_append takeWhile_dropWhile_id)
  then show ?thesis by (auto simp: insert_timer_def)
qed

lemma distinct_insert_timer: "distinct xs \<Longrightarrow> tim \<notin> set xs \<Longrightarrow> distinct (insert_timer e tim xs)"
  unfolding insert_timer_def
  by (metis distinct_append distinct.simps(2) takeWhile_dropWhile_id Un_iff set_append disjoint_insert(1) list.simps(15))

lemma sorted_insert_timer: "sorted (map e xs) \<Longrightarrow> sorted (map e (insert_timer e tim xs))"
  by (induction xs) (auto simp: insert_timer_def dest: set_takeWhileD set_dropWhileD)

lemma level_bound: "timer_get_skiplist_level rnd d \<le> d" "timer_get_skiplist_level rnd d < MAX_SKIPLIST_DEPTH"
  by (auto simp: timer_get_skiplist_level_def Let_def MAX_SKIPLIST_DEPTH_def)

lemma skip_ok_link:
  assumes ok: "skip_ok s l xs ht" and new: "tim \<notin> set xs" and t: "t \<le> pt_depth s l" "t < MAX_SKIPLIST_DEPTH"
    and prev: "\<And>i. i \<le> t \<Longrightarrow> prev i = last_ref (Pending_head l) (at_level ht i (takeWhile (expires_by s (expire s tim)) xs))"
    and tim: "\<And>i. prev i \<noteq> Tim tim"
    and s': "\<And>j r. nxt s' j r = nxt (link_levels tim prev t s) j r" "\<And>x. expire s' x = expire s x"
      "pt_depth s' l = max (pt_depth s l) (Suc t)"
  shows "skip_ok s' l (insert_timer (expire s) tim xs) (ht(tim := t))"
proof -
  let ?as = "takeWhile (expires_by s (expire s tim)) xs" and ?bs = "dropWhile (expires_by s (expire s tim)) xs"
  let ?h = "Pending_head l" and ?ht = "ht(tim := t)"
  have cond: "(\<lambda>x. expire s x \<le> expire s tim) = expires_by s (expire s tim)" by (auto simp: expires_by_def expire_def)
  have xs: "xs = ?as @ ?bs" by simp
  have ins: "insert_timer (expire s) tim xs = ?as @ tim # ?bs" by (simp add: insert_timer_def cond)
  have notin: "tim \<notin> set ?as" "tim \<notin> set ?bs" using new by (auto dest: set_takeWhileD set_dropWhileD)
  then have lv: "at_level ?ht i ?as = at_level ht i ?as" "at_level ?ht i ?bs = at_level ht i ?bs" for i
    by (auto simp: at_level_def intro!: filter_cong)
  note okD = skip_okD [OF ok]
  have "chain s' i ?h (at_level ?ht i (insert_timer (expire s) tim xs))" for i
  proof -
    let ?A = "at_level ht i ?as" and ?B = "at_level ht i ?bs"
    have c: "linked s i ?h ?A" "chain s i (last_ref ?h ?A) ?B"
      using okD(1) [of i] xs by (metis at_level_simps(2) chain_append)+
    have d: "distinct (?A @ ?B)" using okD(4) xs by (metis at_level_def distinct_filter filter_append)
    show ?thesis
    proof (cases "i \<le> t")
      case True
      have n: "nxt s' i r = (if r = last_ref ?h ?A then Some tim else if r = Tim tim then nxt s i (last_ref ?h ?A) else nxt s i r)" for r
        using True prev [OF True] by (simp add: s'(1) nxt_link_levels [OF tim])
      have "linked s' i ?h ?A = linked s i ?h ?A"
        using d notin by (intro linked_cong) (auto simp: n)
      moreover have "chain s' i (Tim tim) ?B = chain s i (last_ref ?h ?A) ?B"
      proof (cases ?B)
        case Nil
        then show ?thesis using c(2) prev [OF True] tim [of i] by (simp add: n)
      next
        case (Cons b bs)
        have "tim \<notin> set ?B" using notin by simp
        moreover have "last_ref ?h ?A \<notin> Tim ` set ?B" using d last_ref_in [of ?h ?A] by auto
        ultimately have "chain s' i (Tim b) bs = chain s i (Tim b) bs"
          unfolding Cons by (intro links_cong) (metis (no_types, lifting) n imageE insertCI insertE list.set_intros list.simps(15) timer_ptr.inject(2) image_eqI)
        then show ?thesis using Cons prev [OF True] tim [of i] by (simp add: n)
      qed
      ultimately show ?thesis using c True unfolding ins by (simp add: lv chain_append n)
    next
      case False
      then have "nxt s' i r = nxt s i r" for r by (simp add: s'(1) nxt_link_levels [OF tim])
      then have "chain s' i ?h (?A @ ?B) = chain s i ?h (?A @ ?B)" by (intro links_cong)
      then show ?thesis using c False unfolding ins by (simp add: lv chain_append)
    qed
  qed
  moreover have "\<forall>x \<in> set (insert_timer (expire s) tim xs). ?ht x < pt_depth s' l"
    using okD(2) by (auto simp: s'(3) less_max_iff_disj)
  moreover have "pt_depth s' l \<le> MAX_SKIPLIST_DEPTH" using okD(3) t(2) by (simp add: s'(3))
  moreover have "sorted (map (expire s') (insert_timer (expire s) tim xs))"
    using sorted_insert_timer [OF okD(5), of tim] s'(2) by (simp cong: map_cong)
  ultimately show ?thesis using distinct_insert_timer [OF okD(4) new] by (simp add: skip_ok_def)
qed

section \<open>Frames\<close>

text \<open>A change of the nodes \<open>A\<close> and of the depth of lcore \<open>l\<close>; of the timers only the links change.\<close>

definition same_fields :: "rte_timer \<Rightarrow> rte_timer \<Rightarrow> bool" where
  "same_fields t t' \<longleftrightarrow> tm_expire t' = tm_expire t \<and> tm_status t' = tm_status t \<and> tm_period t' = tm_period t \<and>
     tm_f t' = tm_f t \<and> tm_arg t' = tm_arg t"

definition only :: "timer_ptr set \<Rightarrow> u32 \<Rightarrow> 'w timers \<Rightarrow> 'w timers \<Rightarrow> bool" where
  "only A l s s' \<longleftrightarrow> (\<forall>r. r \<notin> A \<longrightarrow> pt_node s' r = pt_node s r) \<and> (\<forall>k. k \<noteq> l \<longrightarrow> pt_depth s' k = pt_depth s k) \<and>
     (\<forall>x. same_fields (pt_node s (Tim x)) (pt_node s' (Tim x))) \<and>
     pt_locked s' = pt_locked s \<and> pt_updated s' = pt_updated s \<and> pt_prev_lcore s' = pt_prev_lcore s \<and> pt_world s' = pt_world s"

lemma only_refl [simp]: "only A l s s" by (simp add: only_def same_fields_def)

lemma only_trans: "only A l s t \<Longrightarrow> only A l t u \<Longrightarrow> only A l s u" by (simp add: only_def same_fields_def)

lemma only_set_nxt [simp]: "p \<in> A \<Longrightarrow> only A l s (set_nxt p i q s)" by (auto simp: only_def same_fields_def timer_upds)

lemma only_set_depth [simp]: "only A l s (set_depth l d s)" by (simp add: only_def same_fields_def timer_upds)

lemma only_draws [simp]: "only A l s (s\<lparr>pt_draws := n\<rparr>)" by (simp add: only_def same_fields_def)

lemma only_head_expire [simp]: "Pending_head l \<in> A \<Longrightarrow> only A l s (set_expire (Pending_head l) e s)"
  by (auto simp: only_def same_fields_def timer_upds)

lemma only_link: "Tim tim \<in> A \<Longrightarrow> prev i \<in> A \<Longrightarrow> only A l s (link tim prev i s)"
  unfolding link_def by (rule only_trans [OF only_set_nxt only_set_nxt])

lemma only_link_levels:
  "Tim tim \<in> A \<Longrightarrow> (\<And>i. i \<le> t \<Longrightarrow> prev i \<in> A) \<Longrightarrow> only A l s (link_levels tim prev t s)"
proof (induction t arbitrary: s)
  case 0
  then show ?case by (simp add: only_link)
next
  case (Suc t)
  have "only A l s (link tim prev (Suc t) s)" using Suc.prems by (simp add: only_link)
  moreover have "only A l (link tim prev (Suc t) s) (link_levels tim prev t (link tim prev (Suc t) s))"
    using Suc.prems by (intro Suc.IH) auto
  ultimately show ?case by (auto intro: only_trans)
qed

lemma only_unlink_levels: "(\<And>i. i < d \<Longrightarrow> prev i \<in> A) \<Longrightarrow> only A l s (unlink_levels tim prev d s)"
proof (induction d arbitrary: s)
  case (Suc d)
  let ?s = "if nxt s d (prev d) = Some tim then set_nxt (prev d) d (nxt s d (Tim tim)) s else s"
  have "only A l s ?s" using Suc.prems by auto
  moreover have "only A l ?s (unlink_levels tim prev d ?s)" using Suc.prems by (intro Suc.IH) auto
  ultimately show ?case unfolding unlink_levels.simps by (rule only_trans)
qed simp

lemma only_timer:
  assumes "only A l s s'"
  shows "expire s' x = expire s x" "status s' x = status s x" "tm_period (pt_node s' (Tim x)) = tm_period (pt_node s (Tim x))"
    "tm_f (pt_node s' (Tim x)) = tm_f (pt_node s (Tim x))" "tm_arg (pt_node s' (Tim x)) = tm_arg (pt_node s (Tim x))"
  using assms by (simp_all add: only_def same_fields_def expire_def status_def)

lemma skip_ok_cong:
  assumes "skip_ok s l xs ht" and "\<And>r. r \<in> insert (Pending_head l) (Tim ` set xs) \<Longrightarrow> tm_sl_next (pt_node s' r) = tm_sl_next (pt_node s r)"
    and "\<And>x. x \<in> set xs \<Longrightarrow> expire s' x = expire s x" and "pt_depth s' l = pt_depth s l"
  shows "skip_ok s' l xs ht"
proof -
  have "chain s' i (Pending_head l) (at_level ht i xs)" for i
  proof -
    have "nxt s' i r = nxt s i r" if "r \<in> insert (Pending_head l) (Tim ` set (at_level ht i xs))" for r
      using assms(2) [of r] that by (auto simp: nxt_def)
    then show ?thesis using links_cong [of "Pending_head l" "at_level ht i xs" s' i s] skip_okD(1) [OF assms(1), of i] by simp
  qed
  moreover have "map (expire s') xs = map (expire s) xs" by (rule map_cong) (simp_all add: assms(3))
  then have "sorted (map (expire s') xs)" using skip_okD(5) [OF assms(1)] by (simp only:)
  ultimately show ?thesis using assms(1,4) unfolding skip_ok_def by simp
qed

lemma skip_ok_other:
  assumes "skip_ok s k ys ht" and "only A l s s'" and "k \<noteq> l" and "A \<inter> insert (Pending_head k) (Tim ` set ys) = {}"
  shows "skip_ok s' k ys ht"
proof (rule skip_ok_cong [OF assms(1)])
  fix r
  assume "r \<in> insert (Pending_head k) (Tim ` set ys)"
  then have "r \<notin> A" using assms(4) by blast
  then show "tm_sl_next (pt_node s' r) = tm_sl_next (pt_node s r)" using assms(2) by (simp add: only_def)
qed (use assms(2,3) only_timer(1) [OF assms(2)] in \<open>simp_all add: only_def\<close>)

text \<open>The cached time of the first entry.\<close>

definition first_expire :: "'w timers \<Rightarrow> u64 list \<Rightarrow> u64" where
  "first_expire s xs = (case xs of [] \<Rightarrow> 0 | x # _ \<Rightarrow> expire s x)"

definition nodes_of :: "u32 \<Rightarrow> u64 list \<Rightarrow> timer_ptr set" where
  "nodes_of l xs = insert (Pending_head l) (Tim ` set xs)"

lemma nodes_of_simps [simp]: "Pending_head l \<in> nodes_of l xs" "Tim x \<in> nodes_of l xs \<longleftrightarrow> x \<in> set xs"
  by (auto simp: nodes_of_def)

lemma last_ref_nodes: "set ys \<subseteq> set xs \<Longrightarrow> last_ref (Pending_head l) ys \<in> nodes_of l xs"
  using last_ref_in [of "Pending_head l" ys] by (auto simp: nodes_of_def)

lemma add_locked_ok:
  assumes ok: "skip_ok s l xs ht" and new: "tim \<notin> set xs"
  shows "\<exists>s' t. add_locked env tim l s = Inr s' \<and> skip_ok s' l (insert_timer (expire s) tim xs) (ht(tim := t)) \<and>
    only (nodes_of l (tim # xs)) l s s' \<and>
    tm_expire (pt_node s' (Pending_head l)) = first_expire s (insert_timer (expire s) tim xs)"
proof -
  let ?d = "pt_depth s l" and ?e = "expire s tim" and ?xs = "insert_timer (expire s) tim xs" and ?A = "nodes_of l (tim # xs)"
  obtain prev where prev: "timer_get_prev_entries ?e l s = Some prev"
      "\<forall>i<?d. prev i = last_ref (Pending_head l) (at_level ht i (takeWhile (expires_by s ?e) xs))"
      "\<forall>i\<ge>?d. prev i = Pending_head l" using prev_entries_ok [OF ok] by blast
  define t where "t = timer_get_skiplist_level (te_rand env (pt_draws s)) ?d"
  note t = level_bound [of "te_rand env (pt_draws s)" ?d, folded t_def]
  have top: "at_level ht ?d (takeWhile (expires_by s ?e) xs) = []"
    using skip_okD(2) [OF ok] by (auto simp: at_level_def filter_empty_conv not_le dest: set_takeWhileD)
  have p: "prev i = last_ref (Pending_head l) (at_level ht i (takeWhile (expires_by s ?e) xs))" if "i \<le> t" for i
  proof (cases "i < ?d")
    case False
    then have "i = ?d" using that t(1) by simp
    then show ?thesis using prev(3) top by simp
  qed (use prev(2) in simp)
  have sub: "set (at_level ht i (takeWhile (expires_by s ?e) xs)) \<subseteq> set xs" for i by (auto dest: set_takeWhileD)
  have inA: "prev i \<in> nodes_of l xs" for i
    using last_ref_nodes [OF sub] prev(2,3) by (cases "i < ?d") auto
  then have tim: "prev i \<noteq> Tim tim" for i using new by (metis nodes_of_simps(2))
  let ?s = "s\<lparr>pt_draws := Suc (pt_draws s)\<rparr>"
  define s1 where "s1 = (if t = ?d then set_depth l (Suc ?d) ?s else ?s)"
  define s2 where "s2 = link_levels tim prev t s1"
  have s1: "only ?A l s s1" "nxt s1 = nxt s"
    by (auto simp: s1_def fun_eq_iff intro: only_trans [OF only_draws only_set_depth])
  have s2: "only ?A l s s2"
    using s1(1) only_link_levels [of tim ?A t prev l s1] inA unfolding s2_def
    by (metis only_trans insert_iff nodes_of_def list.simps(15) image_insert insert_commute)
  have n2: "nxt s2 j r = nxt (link_levels tim prev t s) j r" for j r
    unfolding s2_def nxt_link_levels [OF tim] s1(2) ..
  have d2: "pt_depth s2 l = max ?d (Suc t)"
    using t(1) same_nodes_link_levels [of s1 tim prev t] by (auto simp: s2_def s1_def set_depth_def)
  have ok2: "skip_ok s2 l ?xs (ht(tim := t))"
    by (rule skip_ok_link [OF ok new t p tim n2 only_timer(1) [OF s2] d2])
  obtain x ys where x: "?xs = x # ys" by (cases ?xs) (auto simp: insert_timer_def)
  have "nxt s2 0 (Pending_head l) = Some x" using skip_okD(1) [OF ok2, of 0] x by simp
  moreover have "add_locked env tim l s = (case nxt s2 0 (Pending_head l) of None \<Rightarrow> Inl Null_pointer
      | Some first \<Rightarrow> Inr (set_expire (Pending_head l) (expire s2 first) s2))"
    using prev(1) unfolding add_locked_def s2_def s1_def t_def expire_def by (simp add: Let_def cong: option.case_cong)
  ultimately have run: "add_locked env tim l s = Inr (set_expire (Pending_head l) (expire s2 x) s2)" by simp
  let ?s' = "set_expire (Pending_head l) (expire s2 x) s2"
  have "skip_ok ?s' l ?xs (ht(tim := t))"
    by (rule skip_ok_cong [OF ok2]) (auto simp: timer_upds expire_def)
  moreover have "only ?A l s ?s'" using s2 by (rule only_trans) simp
  moreover have "tm_expire (pt_node ?s' (Pending_head l)) = first_expire s ?xs"
    using x only_timer(1) [OF s2] by (simp add: timer_upds first_expire_def)
  ultimately show ?thesis using run by blast
qed

section \<open>Removal\<close>

lemma filter_absent [simp]: "x \<notin> set xs \<Longrightarrow> filter (\<lambda>y. y \<noteq> x) xs = xs"
  by (induction xs) auto

lemma node_levels_ok:
  assumes ok: "skip_ok s l xs ht" and old: "\<forall>x \<in> set (takeWhile (expires_by s t) xs). x \<noteq> tim"
    and prev: "\<And>i. i < d \<Longrightarrow> prev i = last_ref (Pending_head l) (at_level ht i (takeWhile (expires_by s t) xs))"
  shows "\<exists>prev'. node_levels s tim d prev = Some prev' \<and> (\<forall>i<d. \<exists>us vs. at_level ht i xs = us @ vs \<and>
     prev' i = last_ref (Pending_head l) us \<and> tim \<notin> set us \<and> (vs = [] \<or> hd vs = tim \<or> expire s tim < expire s (hd vs))) \<and>
     (\<forall>i\<ge>d. prev' i = prev i)"
  using prev
proof (induction d arbitrary: prev)
  case (Suc d)
  let ?C = "\<lambda>q. q \<noteq> tim \<and> expires_by s (tm_expire (pt_node s (Tim tim))) q"
  let ?A = "at_level ht d (takeWhile (expires_by s t) xs)" and ?R = "at_level ht d (dropWhile (expires_by s t) xs)"
  let ?us = "?A @ takeWhile ?C ?R" and ?vs = "dropWhile ?C ?R" and ?h = "Pending_head l"
  have L: "at_level ht d xs = ?A @ ?R" by (metis at_level_simps(2) takeWhile_dropWhile_id)
  have "chain s d (last_ref ?h ?A) (takeWhile ?C ?R @ ?vs)"
    using skip_okD(1) [OF ok, of d] unfolding L by (simp add: chain_append)
  moreover have stop: "?vs = [] \<or> \<not> ?C (hd ?vs)" using hd_dropWhile by blast
  moreover have "\<forall>x \<in> set (takeWhile ?C ?R). ?C x" using set_takeWhileD by fast
  ultimately have "advance s ?C d (last_ref ?h ?A) = Some (last_ref (last_ref ?h ?A) (takeWhile ?C ?R))"
    by (intro advance_chain)
  then have adv: "advance s ?C d (prev d) = Some (last_ref ?h ?us)"
    unfolding Suc.prems [OF lessI] last_ref_simps(3) .
  have here: "at_level ht d xs = ?us @ ?vs" "tim \<notin> set ?us" "?vs = [] \<or> hd ?vs = tim \<or> expire s tim < expire s (hd ?vs)"
    using L stop old by (auto simp: expires_by_def expire_def not_le dest: set_takeWhileD)
  let ?prev = "prev(d := last_ref ?h ?us)"
  have "?prev i = last_ref ?h (at_level ht i (takeWhile (expires_by s t) xs))" if "i < d" for i using Suc.prems [of i] that by simp
  from Suc.IH [of ?prev, OF this] obtain prev' where p: "node_levels s tim d ?prev = Some prev'"
    "\<forall>i<d. \<exists>us vs. at_level ht i xs = us @ vs \<and> prev' i = last_ref ?h us \<and> tim \<notin> set us \<and>
       (vs = [] \<or> hd vs = tim \<or> expire s tim < expire s (hd vs))" "\<forall>i\<ge>d. prev' i = ?prev i"
    by blast
  have "\<exists>us vs. at_level ht d xs = us @ vs \<and> prev' d = last_ref ?h us \<and> tim \<notin> set us \<and>
       (vs = [] \<or> hd vs = tim \<or> expire s tim < expire s (hd vs))"
    using here p(3) by (intro exI [of _ ?us] exI [of _ ?vs]) simp
  with p adv show ?case by (auto simp: less_Suc_eq)
qed simp

lemma chain_remove:
  assumes "chain s i h (us @ tim # vs)" and "distinct (us @ tim # vs)" and "h \<notin> Tim ` set (us @ tim # vs)"
    and "\<And>r. nxt s' i r = (if r = last_ref h us then nxt s i (Tim tim) else nxt s i r)"
  shows "chain s' i h (us @ vs)"
proof -
  have c: "linked s i h us" "chain s i (Tim tim) vs" using assms(1) by (auto simp: chain_append)
  have "linked s' i h us = linked s i h us" using assms(2-4) by (intro linked_cong) auto
  moreover have "chain s' i (last_ref h us) vs"
  proof (cases vs)
    case (Cons v ws)
    have "last_ref h us \<notin> Tim ` set vs" using assms(2,3) last_ref_in [of h us] by auto
    then have "chain s' i (Tim v) ws = chain s i (Tim v) ws"
      unfolding Cons by (intro links_cong) (metis (no_types, lifting) assms(4) insert_iff list.simps(15) image_insert)
    then show ?thesis using c(2) Cons by (simp add: assms(4))
  qed (use c(2) in \<open>simp add: assms(4)\<close>)
  ultimately show ?thesis using c(1) by (simp add: chain_append)
qed

lemma shrink_levels_ok:
  "pt_depth s l = d \<Longrightarrow>
   \<exists>d'\<le>d. shrink_levels l d s = set_depth l d' s \<and> (\<forall>i. d' \<le> i \<longrightarrow> i < d \<longrightarrow> nxt s i (Pending_head l) = None)"
proof (induction d arbitrary: s)
  case 0
  then show ?case by (simp add: set_depth_def fun_upd_idem)
next
  case (Suc d)
  show ?case
  proof (cases "nxt s d (Pending_head l) = None")
    case True
    let ?s = "set_depth l d s"
    obtain d' where "d' \<le> d" "shrink_levels l d ?s = set_depth l d' ?s"
        "\<forall>i. d' \<le> i \<longrightarrow> i < d \<longrightarrow> nxt ?s i (Pending_head l) = None"
      using Suc.IH [of ?s] by (auto simp: set_depth_def)
    then show ?thesis using True Suc.prems
      by (intro exI [of _ d']) (auto simp: less_Suc_eq set_depth_def nxt_def)
  next
    case False
    then show ?thesis using Suc.prems by (intro exI [of _ "Suc d"]) (auto simp: set_depth_def fun_upd_idem)
  qed
qed

lemma skip_ok_shrink:
  assumes chains: "\<And>i. chain s i (Pending_head l) (at_level ht i xs)" and ht: "\<forall>x \<in> set xs. ht x < pt_depth s l"
    and rest: "pt_depth s l \<le> MAX_SKIPLIST_DEPTH" "distinct xs" "sorted (map (expire s) xs)"
  shows "skip_ok (shrink_levels l (pt_depth s l) s) l xs ht \<and> only A l s (shrink_levels l (pt_depth s l) s) \<and>
    pt_node (shrink_levels l (pt_depth s l) s) = pt_node s"
proof -
  obtain d' where d': "d' \<le> pt_depth s l" "shrink_levels l (pt_depth s l) s = set_depth l d' s"
      "\<forall>i. d' \<le> i \<longrightarrow> i < pt_depth s l \<longrightarrow> nxt s i (Pending_head l) = None"
    using shrink_levels_ok [OF refl] by blast
  have "ht x < d'" if "x \<in> set xs" for x
  proof (rule ccontr)
    assume "\<not> ht x < d'"
    then have "nxt s (ht x) (Pending_head l) = None" using d'(3) ht that by simp
    then have "at_level ht (ht x) xs = []" using chains [of "ht x"] by (cases "at_level ht (ht x) xs") auto
    then show False using that by (auto simp: at_level_def filter_empty_conv)
  qed
  moreover have "chain (set_depth l d' s) i (Pending_head l) (at_level ht i xs)" for i
    using chains [of i] links_cong [of "Pending_head l" "at_level ht i xs" "set_depth l d' s" i s] by simp
  moreover have "expire (set_depth l d' s) = expire s" "pt_depth (set_depth l d' s) l = d'" "pt_node (set_depth l d' s) = pt_node s"
    by (simp_all add: fun_eq_iff expire_def set_depth_def)
  ultimately show ?thesis using d'(1) rest unfolding d'(2) skip_ok_def by simp
qed

lemma at_level_remove: "at_level ht i (filter P xs) = filter P (at_level ht i xs)"
  by (auto simp: at_level_def intro: filter_cong)

lemma del_locked_ok:
  assumes ok: "skip_ok s l xs ht" and pos: "tim \<in> set xs \<Longrightarrow> expire s tim \<noteq> 0"
  shows "\<exists>s'. del_locked tim l s = Inr s' \<and> skip_ok s' l (filter (\<lambda>x. x \<noteq> tim) xs) ht \<and> only (nodes_of l xs) l s s' \<and>
    (tm_expire (pt_node s (Pending_head l)) = first_expire s xs \<longrightarrow>
     tm_expire (pt_node s' (Pending_head l)) = first_expire s (filter (\<lambda>x. x \<noteq> tim) xs))"
proof -
  let ?h = "Pending_head l" and ?ys = "filter (\<lambda>x. x \<noteq> tim) xs"
  define s1 where "s1 = (if nxt s 0 ?h = Some tim then set_expire ?h
     (case nxt s 0 (Tim tim) of None \<Rightarrow> 0 | Some q \<Rightarrow> tm_expire (pt_node s (Tim q))) s else s)"
  have s1: "only (nodes_of l xs) l s s1" "nxt s1 = nxt s" "pt_depth s1 = pt_depth s"
    by (auto simp: s1_def fun_eq_iff) (simp_all add: timer_upds)
  have ok1: "skip_ok s1 l xs ht"
    by (rule skip_ok_cong [OF ok]) (use only_timer(1) [OF s1(1)] in \<open>auto simp: s1_def timer_upds\<close>)
  let ?d = "pt_depth s1 l" and ?t = "tm_expire (pt_node s1 (Tim tim)) - 1"
  obtain prev where prev: "timer_get_prev_entries ?t l s1 = Some prev"
      "\<And>i. i < ?d \<Longrightarrow> prev i = last_ref ?h (at_level ht i (takeWhile (expires_by s1 ?t) xs))"
    using prev_entries_ok [OF ok1, of ?t] by blast
  have old: "\<forall>x \<in> set (takeWhile (expires_by s1 ?t) xs). x \<noteq> tim"
  proof
    fix x
    assume "x \<in> set (takeWhile (expires_by s1 ?t) xs)"
    then have x: "x \<in> set xs" "expire s1 x \<le> expire s1 tim - 1" by (auto simp: expires_by_def expire_def dest: set_takeWhileD)
    show "x \<noteq> tim"
    proof
      assume "x = tim"
      then have "expire s1 tim \<noteq> 0" using pos x(1) only_timer(1) [OF s1(1)] by simp
      then have "0 < unat (expire s1 tim)" by (simp add: unat_gt_0)
      then show False using x(2) \<open>x = tim\<close> \<open>expire s1 tim \<noteq> 0\<close> by (simp add: word_le_nat_alt unat_minus_one)
    qed
  qed
  obtain prev' where p: "node_levels s1 tim ?d prev = Some prev'"
    "\<And>i. i < ?d \<Longrightarrow> \<exists>us vs. at_level ht i xs = us @ vs \<and> prev' i = last_ref ?h us \<and> tim \<notin> set us \<and>
       (vs = [] \<or> hd vs = tim \<or> expire s1 tim < expire s1 (hd vs))"
    using node_levels_ok [OF ok1 old prev(2), of ?d] by auto
  define s2 where "s2 = unlink_levels tim prev' ?d s1"
  have nd: "prev' i \<in> nodes_of l xs" if i: "i < ?d" for i
  proof -
    obtain us vs where "at_level ht i xs = us @ vs" "prev' i = last_ref ?h us" using p(2) [OF i] by blast
    moreover have "set us \<subseteq> set xs" using \<open>at_level ht i xs = us @ vs\<close> at_level_simps(4) [of ht i xs] by auto
    ultimately show ?thesis using last_ref_nodes by metis
  qed
  have s2: "only (nodes_of l xs) l s s2" "pt_depth s2 = pt_depth s1"
    using only_trans [OF s1(1)] only_unlink_levels [of ?d prev' "nodes_of l xs" l s1 tim] nd
      same_nodes_unlink_levels [of s1 tim prev' ?d] by (simp_all add: s2_def)
  have chains: "chain s2 i ?h (at_level ht i ?ys)" for i
    unfolding at_level_remove
  proof (cases "tim \<in> set (at_level ht i xs)")
    case False
    have "nxt s1 i (prev' i) \<noteq> Some tim" if i: "i < ?d"
    proof -
      obtain us vs where uv: "at_level ht i xs = us @ vs" "prev' i = last_ref ?h us" using p(2) [OF i] by blast
      then have "chain s1 i (prev' i) vs" "tim \<notin> set vs"
        using skip_okD(1) [OF ok1, of i] False unfolding uv(1) by (simp_all add: chain_append)
      then show ?thesis by (cases vs) auto
    qed
    then have "nxt s2 i r = nxt s1 i r" for r by (auto simp: s2_def nxt_unlink_levels)
    moreover have "filter (\<lambda>x. x \<noteq> tim) (at_level ht i xs) = at_level ht i xs" using False by (auto simp: filter_id_conv)
    ultimately show "chain s2 i ?h (filter (\<lambda>x. x \<noteq> tim) (at_level ht i xs))"
      using links_cong [of ?h "at_level ht i xs" s2 i s1] skip_okD(1) [OF ok1, of i] by simp
  next
    case True
    then have "i < ?d" using skip_okD(2) [OF ok1, of tim] by simp
    then obtain us vs where uv: "at_level ht i xs = us @ vs" "prev' i = last_ref ?h us" "tim \<notin> set us"
        "vs = [] \<or> hd vs = tim \<or> expire s1 tim < expire s1 (hd vs)" using p(2) by blast
    have "sorted (map (expire s1) (us @ vs))"
      using skip_okD(5) [OF ok1] unfolding uv(1) [symmetric] at_level_def by (rule sorted_filter)
    then have "\<not> expire s1 tim < expire s1 (hd vs)" if "vs \<noteq> []"
      using True uv(1,3) that by (cases vs) (auto simp: sorted_append)
    then obtain ws where ws: "vs = tim # ws" using True uv by (cases vs) auto
    have d: "distinct (us @ tim # ws)"
      using skip_okD(4) [OF ok1] uv(1) ws by (metis at_level_def distinct_filter)
    have c: "chain s1 i ?h (us @ tim # ws)" using skip_okD(1) [OF ok1, of i] uv(1) ws by simp
    then have "nxt s1 i (last_ref ?h us) = Some tim" by (simp add: chain_append)
    then have "chain s2 i ?h (us @ ws)"
      using \<open>i < ?d\<close> uv(2) by (intro chain_remove [OF c d]) (auto simp: s2_def nxt_unlink_levels)
    moreover have "filter (\<lambda>x. x \<noteq> tim) (us @ tim # ws) = us @ ws" using d by simp
    ultimately show "chain s2 i ?h (filter (\<lambda>x. x \<noteq> tim) (at_level ht i xs))" using uv(1) ws by simp
  qed
  have "skip_ok (shrink_levels l (pt_depth s2 l) s2) l ?ys ht \<and> only (nodes_of l xs) l s2 (shrink_levels l (pt_depth s2 l) s2) \<and>
      pt_node (shrink_levels l (pt_depth s2 l) s2) = pt_node s2"
  proof (rule skip_ok_shrink [OF chains])
    show "sorted (map (expire s2) ?ys)"
    proof -
      have "map (expire s2) ?ys = map (expire s) ?ys" using only_timer(1) [OF s2(1)] by simp
      then show ?thesis using sorted_filter [OF skip_okD(5) [OF ok]] by (simp only:)
    qed
  qed (use skip_okD(2-4) [OF ok1] s2(2) in auto)
  moreover have "del_locked tim l s = Inr (shrink_levels l (pt_depth s2 l) s2)"
    using prev(1) p(1) unfolding del_locked_def timer_get_prev_entries_for_node_def s2_def s1_def [symmetric] by (simp add: Let_def)
  moreover have "tm_expire (pt_node s2 ?h) = tm_expire (pt_node s1 ?h)"
    using same_nodes_unlink_levels [of s1 tim prev' ?d] by (simp add: s2_def same_nodes_def)
  moreover have "tm_expire (pt_node s1 ?h) = first_expire s ?ys" if "tm_expire (pt_node s ?h) = first_expire s xs"
  proof (cases xs)
    case Nil
    then show ?thesis using that skip_okD(1) [OF ok, of 0] by (simp add: s1_def)
  next
    case (Cons x zs)
    have c: "nxt s 0 ?h = Some x" "chain s 0 (Tim x) zs" using skip_okD(1) [OF ok, of 0] Cons by simp_all
    show ?thesis
    proof (cases "x = tim")
      case True
      then have "?ys = zs" using Cons skip_okD(4) [OF ok] by (auto simp: filter_id_conv)
      then show ?thesis using c True by (cases zs) (simp_all add: s1_def timer_upds first_expire_def expire_def)
    qed (use that Cons c in \<open>simp add: s1_def first_expire_def\<close>)
  qed
  ultimately show ?thesis using s2(1) by (auto intro: only_trans)
qed

section \<open>The lists of all lcores\<close>

definition lists_ok :: "'w timers \<Rightarrow> (u32 \<Rightarrow> u64 list) \<Rightarrow> bool" where
  "lists_ok s pend \<longleftrightarrow> (\<forall>l. \<exists>ht. skip_ok s l (pend l) ht) \<and> (\<forall>l k. l \<noteq> k \<longrightarrow> set (pend l) \<inter> set (pend k) = {}) \<and>
     (\<forall>l x. x \<in> set (pend l) \<longrightarrow> expire s x \<noteq> 0)"

lemma lists_okD:
  assumes "lists_ok s pend"
  shows "\<exists>ht. skip_ok s l (pend l) ht" "l \<noteq> k \<Longrightarrow> set (pend l) \<inter> set (pend k) = {}" "x \<in> set (pend l) \<Longrightarrow> expire s x \<noteq> 0"
  using assms unfolding lists_ok_def by blast+

lemma lists_ok_cong:
  assumes "lists_ok s pend" and "\<And>r. tm_sl_next (pt_node s' r) = tm_sl_next (pt_node s r)"
    and "\<And>l x. x \<in> set (pend l) \<Longrightarrow> expire s' x = expire s x" and "pt_depth s' = pt_depth s"
  shows "lists_ok s' pend"
proof -
  have "\<exists>ht. skip_ok s' l (pend l) ht" for l
    using lists_okD(1) [OF assms(1), of l] skip_ok_cong [of s l "pend l" _ s'] assms(2-4) by metis
  then show ?thesis using assms(1,3) unfolding lists_ok_def by metis
qed

lemma lists_ok_set_locked [simp]: "lists_ok s pend \<Longrightarrow> lists_ok (set_locked l b s) pend"
  by (erule lists_ok_cong) (simp_all add: timer_upds expire_def)

text \<open>A change of the list of one lcore.\<close>

lemma lists_ok_step:
  assumes "lists_ok s pend" and "skip_ok s' l ys ht" and "only (nodes_of l (tim # pend l)) l s s'"
    and "set ys \<subseteq> insert tim (set (pend l))" and "\<And>k. k \<noteq> l \<Longrightarrow> tim \<notin> set (pend k)" and "tim \<in> set ys \<Longrightarrow> expire s tim \<noteq> 0"
  shows "lists_ok s' (pend(l := ys))"
proof -
  have "\<exists>ht. skip_ok s' k ((pend(l := ys)) k) ht" for k
  proof (cases "k = l")
    case False
    obtain ht where "skip_ok s k (pend k) ht" using lists_okD(1) [OF assms(1)] by blast
    moreover have "nodes_of l (tim # pend l) \<inter> insert (Pending_head k) (Tim ` set (pend k)) = {}"
      using False lists_okD(2) [OF assms(1), of l k] assms(5) [OF False] by (auto simp: nodes_of_def)
    ultimately show ?thesis using skip_ok_other [OF _ assms(3) False] False by auto
  qed (use assms(2) in auto)
  moreover have "expire s' x \<noteq> 0" if "x \<in> set ((pend(l := ys)) k)" for x k
    using that assms(4,6) lists_okD(3) [OF assms(1)] only_timer(1) [OF assms(3)] by (auto split: if_splits)
  moreover have "set ((pend(l := ys)) i) \<inter> set ((pend(l := ys)) k) = {}" if "i \<noteq> k" for i k
    using that assms(4,5) lists_okD(2) [OF assms(1)] by (auto split: if_splits) blast+
  ultimately show ?thesis unfolding lists_ok_def by blast
qed

lemma only_mono: "only A l s s' \<Longrightarrow> A \<subseteq> B \<Longrightarrow> only B l s s'"
  unfolding only_def by blast

lemma nodes_of_Cons: "nodes_of l xs \<subseteq> nodes_of l (x # xs)" by (auto simp: nodes_of_def)

text \<open>What a timer operation on lists keeps: the contents of the timers, the locks and the caches of the other lcores.\<close>

definition keeps :: "'w timers \<Rightarrow> 'w timers \<Rightarrow> bool" where
  "keeps s s' \<longleftrightarrow> (\<forall>x. same_fields (pt_node s (Tim x)) (pt_node s' (Tim x))) \<and>
     pt_locked s' = pt_locked s \<and> pt_updated s' = pt_updated s \<and> pt_world s' = pt_world s"

lemma only_keeps: "only A l s s' \<Longrightarrow> keeps s s'" by (simp add: only_def keeps_def)

definition cached :: "'w timers \<Rightarrow> (u32 \<Rightarrow> u64 list) \<Rightarrow> u32 \<Rightarrow> bool" where
  "cached s pend l \<longleftrightarrow> tm_expire (pt_node s (Pending_head l)) = first_expire s (pend l)"

lemma first_expire_cong: "(\<And>x. x \<in> set xs \<Longrightarrow> expire s' x = expire s x) \<Longrightarrow> first_expire s' xs = first_expire s xs"
  by (cases xs) (simp_all add: first_expire_def)

definition untouched :: "u64 \<Rightarrow> (u32 \<Rightarrow> u64 list) \<Rightarrow> 'w timers \<Rightarrow> 'w timers \<Rightarrow> bool" where
  "untouched tim pend s s' \<longleftrightarrow> (\<forall>x. x \<noteq> tim \<longrightarrow> (\<forall>k. x \<notin> set (pend k)) \<longrightarrow> pt_node s' (Tim x) = pt_node s (Tim x))"

lemma untouched_trans: "untouched tim pend s t \<Longrightarrow> untouched tim pend t u \<Longrightarrow> untouched tim pend s u"
  by (simp add: untouched_def)

lemma only_untouched: "only (nodes_of l (tim # pend l)) l s s' \<Longrightarrow> untouched tim pend s s'"
  by (auto simp: only_def untouched_def nodes_of_def)

lemma only_locked:
  assumes "only A l (set_locked l True s) s'" and "\<not> pt_locked s l"
  shows "only A l s (set_locked l False s')"
proof -
  have "(pt_locked s)(l := False) = pt_locked s" using assms(2) by (intro ext) simp
  then show ?thesis using assms(1) by (simp add: only_def set_locked_def same_fields_def)
qed

lemma only_cached:
  assumes "only A l s s'" and "cached s pend k" and "k \<noteq> l" and "Pending_head k \<notin> A"
  shows "cached s' (pend(l := ys)) k"
  using assms only_timer(1) [OF assms(1)] by (simp add: cached_def only_def first_expire_cong [of _ s' s])

lemma del_ok:
  assumes ok: "lists_ok s pend" and own: "\<And>k. k \<noteq> l \<Longrightarrow> tim \<notin> set (pend k)"
    and free: "l \<noteq> lcore \<or> \<not> b \<Longrightarrow> \<not> pt_locked s l"
  shows "\<exists>s'. locked_for lcore l b s (del_locked tim l) = Inr s' \<and> lists_ok s' (pend(l := filter (\<lambda>x. x \<noteq> tim) (pend l))) \<and>
    keeps s s' \<and> untouched tim pend s s' \<and>
    (\<forall>k. cached s pend k \<longrightarrow> cached s' (pend(l := filter (\<lambda>x. x \<noteq> tim) (pend l))) k)"
proof -
  let ?ys = "filter (\<lambda>x. x \<noteq> tim) (pend l)"
  define t where "t = (if l \<noteq> lcore \<or> \<not> b then set_locked l True s else s)"
  have okt: "lists_ok t pend" using ok by (simp add: t_def)
  obtain ht where sk: "skip_ok t l (pend l) ht" using lists_okD(1) [OF okt] by blast
  obtain s1 where s1: "del_locked tim l t = Inr s1" "skip_ok s1 l ?ys ht" "only (nodes_of l (pend l)) l t s1"
      "tm_expire (pt_node t (Pending_head l)) = first_expire t (pend l) \<longrightarrow>
       tm_expire (pt_node s1 (Pending_head l)) = first_expire t ?ys"
    using del_locked_ok [OF sk] lists_okD(3) [OF okt] by blast
  define s' where "s' = (if l \<noteq> lcore \<or> \<not> b then set_locked l False s1 else s1)"
  have run: "locked_for lcore l b s (del_locked tim l) = Inr s'"
    using s1(1) free by (auto simp: locked_for_def rte_spinlock_lock_def rte_spinlock_unlock_def t_def s'_def)
  have "only (nodes_of l (pend l)) l s s'"
    using s1(3) only_locked [of "nodes_of l (pend l)" l s s1] free by (auto simp: t_def s'_def)
  then have o: "only (nodes_of l (tim # pend l)) l s s'" by (rule only_mono) (rule nodes_of_Cons)
  have "skip_ok s' l ?ys ht"
    by (rule skip_ok_cong [OF s1(2)]) (auto simp: s'_def set_locked_def expire_def)
  then have "lists_ok s' (pend(l := ?ys))"
    by (rule lists_ok_step [OF ok _ o _ own]) auto
  moreover have "cached s' (pend(l := ?ys)) k" if "cached s pend k" for k
  proof (cases "k = l")
    case True
    have "first_expire s' ?ys = first_expire t ?ys" "first_expire t (pend l) = first_expire s (pend l)"
      using only_timer(1) [OF o] by (auto intro!: first_expire_cong simp: t_def expire_def set_locked_def)
    moreover have "pt_node s' = pt_node s1" "pt_node t = pt_node s" by (simp_all add: s'_def t_def set_locked_def)
    ultimately show ?thesis using that s1(4) True by (simp add: cached_def)
  next
    case False
    show ?thesis by (rule only_cached [OF o that False]) (auto simp: nodes_of_def False)
  qed
  ultimately show ?thesis using run only_keeps [OF o] only_untouched [where pend = pend, OF o] by blast
qed

lemma add_ok:
  assumes ok: "lists_ok s pend" and new: "\<And>k. tim \<notin> set (pend k)" and e: "expire s tim \<noteq> 0"
    and free: "l \<noteq> te_lcore env \<or> \<not> b \<Longrightarrow> \<not> pt_locked s l"
  shows "\<exists>s'. timer_add env tim l b s = Inr s' \<and> lists_ok s' (pend(l := insert_timer (expire s) tim (pend l))) \<and>
    keeps s s' \<and> untouched tim pend s s' \<and> cached s' (pend(l := insert_timer (expire s) tim (pend l))) l \<and>
    (\<forall>k. cached s pend k \<longrightarrow> cached s' (pend(l := insert_timer (expire s) tim (pend l))) k)"
proof -
  let ?ys = "insert_timer (expire s) tim (pend l)"
  define t where "t = (if l \<noteq> te_lcore env \<or> \<not> b then set_locked l True s else s)"
  have et: "expire t = expire s" by (simp add: t_def fun_eq_iff expire_def set_locked_def)
  have okt: "lists_ok t pend" using ok by (simp add: t_def)
  obtain ht where sk: "skip_ok t l (pend l) ht" using lists_okD(1) [OF okt] by blast
  obtain s1 lv where s1: "add_locked env tim l t = Inr s1" "skip_ok s1 l ?ys (ht(tim := lv))"
      "only (nodes_of l (tim # pend l)) l t s1" "tm_expire (pt_node s1 (Pending_head l)) = first_expire t ?ys"
    using add_locked_ok [OF sk new, of env] unfolding et by blast
  define s' where "s' = (if l \<noteq> te_lcore env \<or> \<not> b then set_locked l False s1 else s1)"
  have run: "timer_add env tim l b s = Inr s'"
    using s1(1) free by (auto simp: timer_add_def locked_for_def rte_spinlock_lock_def rte_spinlock_unlock_def t_def s'_def)
  have o: "only (nodes_of l (tim # pend l)) l s s'"
    using s1(3) only_locked [of "nodes_of l (tim # pend l)" l s s1] free by (auto simp: t_def s'_def)
  have "skip_ok s' l ?ys (ht(tim := lv))"
    by (rule skip_ok_cong [OF s1(2)]) (auto simp: s'_def set_locked_def expire_def)
  then have "lists_ok s' (pend(l := ?ys))"
    by (rule lists_ok_step [OF ok _ o _ new]) (auto simp: e)
  moreover have c: "cached s' (pend(l := ?ys)) l"
  proof -
    have "first_expire s' ?ys = first_expire t ?ys"
      using only_timer(1) [OF o] et by (intro first_expire_cong) simp
    moreover have "pt_node s' = pt_node s1" by (simp add: s'_def set_locked_def)
    ultimately show ?thesis using s1(4) by (simp add: cached_def)
  qed
  moreover have "cached s' (pend(l := ?ys)) k" if "cached s pend k" for k
  proof (cases "k = l")
    case False
    show ?thesis by (rule only_cached [OF o that False]) (auto simp: nodes_of_def False)
  qed (use c in simp)
  ultimately show ?thesis using run only_keeps [OF o] only_untouched [where pend = pend, OF o] by blast
qed

section \<open>Start and stop\<close>

text \<open>The contents of a timer: time of expiry, status, period, function and argument.\<close>

definition info :: "'w timers \<Rightarrow> u64 \<Rightarrow> u64 \<times> rte_timer_status \<times> u64 \<times> u64 \<times> u64" where
  "info s x = (let t = pt_node s (Tim x) in (tm_expire t, tm_status t, tm_period t, tm_f t, tm_arg t))"

definition frame :: "'w timers \<Rightarrow> (u32 \<Rightarrow> bool) \<times> (u32 \<Rightarrow> bool) \<times> 'w" where
  "frame s = (pt_locked s, pt_updated s, pt_world s)"

lemma keeps_info: "keeps s s' \<Longrightarrow> info s' = info s \<and> frame s' = frame s"
  by (simp add: keeps_def info_def frame_def same_fields_def fun_eq_iff Let_def)

lemma expire_info: "expire s x = fst (info s x)" by (simp add: expire_def info_def Let_def)
lemma status_info: "status s x = fst (snd (info s x))" by (simp add: status_def info_def Let_def)

lemma info_expire: "info s' = info s \<Longrightarrow> expire s' = expire s" by (simp add: fun_eq_iff expire_info)

definition removed :: "u64 \<Rightarrow> (u32 \<Rightarrow> u64 list) \<Rightarrow> u32 \<Rightarrow> u64 list" where
  "removed tim pend k = filter (\<lambda>x. x \<noteq> tim) (pend k)"

definition scheduled :: "(u64 \<Rightarrow> u64) \<Rightarrow> u64 \<Rightarrow> u32 \<Rightarrow> (u32 \<Rightarrow> u64 list) \<Rightarrow> u32 \<Rightarrow> u64 list" where
  "scheduled e tim l pend = (removed tim pend)(l := insert_timer e tim (removed tim pend l))"

lemma removed_not_in [simp]: "tim \<notin> set (removed tim pend k)" by (simp add: removed_def)

lemma removed_owner: "(\<And>k. k \<noteq> l \<Longrightarrow> tim \<notin> set (pend k)) \<Longrightarrow> pend(l := filter (\<lambda>x. x \<noteq> tim) (pend l)) = removed tim pend"
  by (auto simp: fun_eq_iff removed_def)

lemma removed_absent: "(\<And>k. tim \<notin> set (pend k)) \<Longrightarrow> removed tim pend = pend"
  by (auto simp: fun_eq_iff removed_def)

lemma lists_ok_upd:
  assumes "lists_ok s pend" and "\<And>t. tm_sl_next (f t) = tm_sl_next t" and "(\<forall>k. tim \<notin> set (pend k)) \<or> (\<forall>t. tm_expire (f t) = tm_expire t)"
  shows "lists_ok (upd_node (Tim tim) f s) pend" "cached (upd_node (Tim tim) f s) pend k = cached s pend k"
proof -
  have e: "expire (upd_node (Tim tim) f s) x = expire s x" if "x \<in> set (pend l)" for x l
    using assms(3) that by (auto simp: upd_node_def expire_def)
  show "lists_ok (upd_node (Tim tim) f s) pend"
    by (rule lists_ok_cong [OF assms(1)]) (use e assms(2) in \<open>auto simp: upd_node_def\<close>)
  show "cached (upd_node (Tim tim) f s) pend k = cached s pend k"
    using first_expire_cong [where xs = "pend k", OF e] by (simp add: cached_def upd_node_def)
qed

lemma lists_ok_status:
  assumes "lists_ok s pend"
  shows "lists_ok (set_status tim st ow s) pend" "cached (set_status tim st ow s) pend k = cached s pend k"
  unfolding set_status_def by (rule lists_ok_upd [OF assms]; simp)+

lemma info_status: "info (set_status tim st ow s) = (info s)(tim := (expire s tim, \<lparr>ts_state = st, ts_owner = ow\<rparr>, snd (snd (info s tim))))"
  by (auto simp: fun_eq_iff info_def set_status_def upd_node_def Let_def expire_def)

lemma frame_upd [simp]: "frame (set_status tim st ow s) = frame s" "frame (upd_node p f s) = frame s"
  by (simp_all add: frame_def set_status_def upd_node_def)

lemma owner_cast: "l < 128 \<Longrightarrow> scast (ucast l :: u16) = (l :: u32)"
proof -
  assume "l < 128"
  then have "uint l < 128" by (simp add: word_less_def)
  then have "uint (ucast l :: u16) = uint l" "uint l < 128"
    by (simp_all add: unsigned_ucast_eq take_bit_int_eq_self)
  then have "sint (ucast l :: u16) = uint l"
    using signed_take_bit_int_eq_self [of 15 "uint l"] uint_ge_0 [of l] by (simp add: sint_uint)
  then show ?thesis by (simp add: word_uint_eq_iff scast_eq)
qed

text \<open>The timer is where its status says: in the list of its owner when it is pending, in no list otherwise.\<close>

definition placed :: "'w timers \<Rightarrow> (u32 \<Rightarrow> u64 list) \<Rightarrow> u64 \<Rightarrow> bool" where
  "placed s pend tim \<longleftrightarrow> (if ts_state (status s tim) = RTE_TIMER_PENDING
     then (\<exists>l<128. ts_owner (status s tim) = ucast l \<and> (\<forall>k. k \<noteq> l \<longrightarrow> tim \<notin> set (pend k)))
     else (\<forall>k. tim \<notin> set (pend k)))"

text \<open>The removal that starting and stopping share.\<close>

lemma take_out:
  assumes ok: "lists_ok s pend" and st: "placed s0 pend tim" "status s0 tim = prev"
    and free: "\<And>k. pt_locked s k \<Longrightarrow> b \<and> k = lcore"
  shows "\<exists>s'. (if ts_state prev = RTE_TIMER_PENDING then timer_del lcore tim prev b s else Inr s) = Inr s' \<and>
    lists_ok s' (removed tim pend) \<and> info s' = info s \<and> frame s' = frame s \<and> untouched tim pend s s' \<and> (\<forall>k. cached s pend k \<longrightarrow> cached s' (removed tim pend) k)"
proof (cases "ts_state prev = RTE_TIMER_PENDING")
  case True
  then obtain l where l: "l < 128" "ts_owner prev = ucast l" "\<And>k. k \<noteq> l \<Longrightarrow> tim \<notin> set (pend k)"
    using st unfolding placed_def by auto
  have r: "pend(l := filter (\<lambda>x. x \<noteq> tim) (pend l)) = removed tim pend" using l(3) by (rule removed_owner)
  have "\<not> pt_locked s l" if "l \<noteq> lcore \<or> \<not> b" using free [of l] that by auto
  then obtain s' where s': "locked_for lcore l b s (del_locked tim l) = Inr s'" "lists_ok s' (removed tim pend)" "keeps s s'" "untouched tim pend s s'"
      "\<forall>k. cached s pend k \<longrightarrow> cached s' (removed tim pend) k"
    using del_ok [where l = l and lcore = lcore and b = b, OF ok l(3)] unfolding r by auto
  moreover have "timer_del lcore tim prev b s = Inr s'"
    using s'(1) owner_cast [OF l(1)] l(2) by (simp add: timer_del_def)
  ultimately show ?thesis using True keeps_info [OF s'(3)] by auto
next
  case False
  then have "removed tim pend = pend" using st by (intro removed_absent) (auto simp: placed_def)
  then show ?thesis using False ok by (simp add: untouched_def)
qed

lemma reset_ok:
  assumes ok: "lists_ok s pend" and st: "placed s pend tim" "ts_state (status s tim) \<in> {RTE_TIMER_STOP, RTE_TIMER_PENDING}"
    and free: "\<And>k. pt_locked s k \<Longrightarrow> b \<and> k = te_lcore env" and e: "ex \<noteq> 0" and l: "l \<noteq> LCORE_ID_ANY"
  defines "pend' \<equiv> scheduled ((expire s)(tim := ex)) tim l pend"
  shows "\<exists>s'. timer_reset env tim ex per l f a b s = Inr (0, s') \<and> lists_ok s' pend' \<and>
    info s' = (info s)(tim := (ex, \<lparr>ts_state = RTE_TIMER_PENDING, ts_owner = ucast l\<rparr>, per, f, a)) \<and> frame s' = frame s \<and>
    untouched tim pend s s' \<and> cached s' pend' l \<and> (\<forall>k. cached s pend k \<longrightarrow> cached s' pend' k)"
proof -
  let ?prev = "status s tim"
  define s1 where "s1 = set_status tim RTE_TIMER_CONFIG (ucast (te_lcore env)) s"
  have config: "timer_set_config_state (te_lcore env) tim s = Some (?prev, s1)" "note_updated (te_lcore env) ?prev s1 = s1"
    using st(2) by (auto simp: timer_set_config_state_def s1_def note_updated_def timer_consts)
  have ok1: "lists_ok s1 pend" "\<And>k. cached s1 pend k = cached s pend k" "frame s1 = frame s"
    using lists_ok_status [OF ok] by (simp_all add: s1_def)
  have free1: "b \<and> k = te_lcore env" if "pt_locked s1 k" for k using free that ok1(3) by (simp add: frame_def)
  obtain s2 where s2: "(if ts_state ?prev = RTE_TIMER_PENDING then timer_del (te_lcore env) tim ?prev b s1 else Inr s1) = Inr s2"
      "lists_ok s2 (removed tim pend)" "info s2 = info s1" "frame s2 = frame s1" "untouched tim pend s1 s2"
      "\<forall>k. cached s1 pend k \<longrightarrow> cached s2 (removed tim pend) k"
    using take_out [OF ok1(1) st(1) refl free1] by blast
  let ?upd = "\<lambda>t. t\<lparr>tm_period := per, tm_expire := ex, tm_f := f, tm_arg := a\<rparr>"
  define s3 where "s3 = upd_node (Tim tim) ?upd s2"
  have ok3: "lists_ok s3 (removed tim pend)" "\<And>k. cached s3 (removed tim pend) k = cached s2 (removed tim pend) k"
    unfolding s3_def by (rule lists_ok_upd [OF s2(2)]; simp)+
  have e3: "expire s3 = (expire s)(tim := ex)"
    using s2(3) by (auto simp: s3_def fun_eq_iff upd_node_def expire_info info_def s1_def set_status_def Let_def)
  have et: "expire s3 tim \<noteq> 0" using e by (simp add: e3)
  have free3: "\<not> pt_locked s3 l" if "l \<noteq> te_lcore env \<or> \<not> b"
    using free1 [of l] that s2(4) by (auto simp: s3_def upd_node_def frame_def)
  obtain s4 where s4: "timer_add env tim l b s3 = Inr s4" "lists_ok s4 pend'" "keeps s3 s4" "untouched tim (removed tim pend) s3 s4" "cached s4 pend' l"
      "\<forall>k. cached s3 (removed tim pend) k \<longrightarrow> cached s4 pend' k"
    using add_ok [OF ok3(1) removed_not_in et free3] unfolding pend'_def scheduled_def e3 by blast
  define s5 where "s5 = set_status tim RTE_TIMER_PENDING (ucast l) s4"
  have run: "timer_reset env tim ex per l f a b s = Inr (0, s5)"
    using l config s2(1) s4(1) unfolding timer_reset_def pick_lcore_def s3_def s5_def by (simp add: Let_def split: if_splits)
  have "info s3 = (info s1)(tim := (ex, status s1 tim, per, f, a))"
    unfolding s2(3) [symmetric] by (auto simp: s3_def fun_eq_iff info_def upd_node_def Let_def status_def)
       (metis info_def s2(3) Pair_inject)
  then have "info s5 = (info s)(tim := (ex, \<lparr>ts_state = RTE_TIMER_PENDING, ts_owner = ucast l\<rparr>, per, f, a))"
    using keeps_info [OF s4(3)] by (simp add: s5_def info_status expire_info) (simp add: s1_def info_status)
  moreover have "frame s5 = frame s"
    using keeps_info [OF s4(3)] s2(4) ok1(3) by (simp add: s5_def s3_def)
  moreover have "untouched tim pend s s5"
    using s2(5) s4(4) by (auto simp: untouched_def s1_def s3_def s5_def timer_upds removed_def)
  ultimately show ?thesis
    using run lists_ok_status [OF s4(2)] s4(5,6) ok3(2) s2(6) ok1(2) by (auto simp: s5_def)
qed

lemma stop_ok:
  assumes ok: "lists_ok s pend" and st: "placed s pend tim" "ts_state (status s tim) \<in> {RTE_TIMER_STOP, RTE_TIMER_PENDING}"
    and free: "\<And>k. \<not> pt_locked s k"
  shows "\<exists>s'. rte_timer_stop env tim s = Inr (0, s') \<and> lists_ok s' (removed tim pend) \<and>
    info s' = (info s)(tim := (expire s tim, \<lparr>ts_state = RTE_TIMER_STOP, ts_owner = RTE_TIMER_NO_OWNER\<rparr>, snd (snd (info s tim)))) \<and>
    frame s' = frame s \<and> (\<forall>k. cached s pend k \<longrightarrow> cached s' (removed tim pend) k)"
proof -
  let ?prev = "status s tim"
  define s1 where "s1 = set_status tim RTE_TIMER_CONFIG (ucast (te_lcore env)) s"
  have config: "timer_set_config_state (te_lcore env) tim s = Some (?prev, s1)" "note_updated (te_lcore env) ?prev s1 = s1"
    using st(2) by (auto simp: timer_set_config_state_def s1_def note_updated_def timer_consts)
  have ok1: "lists_ok s1 pend" "\<And>k. cached s1 pend k = cached s pend k" "frame s1 = frame s"
    using lists_ok_status [OF ok] by (simp_all add: s1_def)
  have free1: "False \<and> k = te_lcore env" if "pt_locked s1 k" for k using free that ok1(3) by (simp add: frame_def)
  obtain s2 where s2: "(if ts_state ?prev = RTE_TIMER_PENDING then timer_del (te_lcore env) tim ?prev False s1 else Inr s1) = Inr s2"
      "lists_ok s2 (removed tim pend)" "info s2 = info s1" "frame s2 = frame s1" "untouched tim pend s1 s2"
      "\<forall>k. cached s1 pend k \<longrightarrow> cached s2 (removed tim pend) k"
    using take_out [OF ok1(1) st(1) refl free1] by blast
  let ?s = "set_status tim RTE_TIMER_STOP RTE_TIMER_NO_OWNER s2"
  have run: "rte_timer_stop env tim s = Inr (0, ?s)"
    using config s2(1) unfolding rte_timer_stop_def by (simp add: Let_def split: if_splits)
  moreover have "info ?s = (info s)(tim := (expire s tim, \<lparr>ts_state = RTE_TIMER_STOP, ts_owner = RTE_TIMER_NO_OWNER\<rparr>, snd (snd (info s tim))))"
    using s2(3) by (simp add: info_status expire_info) (simp add: s1_def info_status expire_info)
  ultimately show ?thesis
    using lists_ok_status [OF s2(2)] s2(4,6) ok1(2,3) by auto
qed

text \<open>The state between the calls of the interface, with the pending timers of each lcore in the order of their expiry.\<close>

definition timers_ok :: "'w timers \<Rightarrow> (u32 \<Rightarrow> u64 list) \<Rightarrow> bool" where
  "timers_ok s pend \<longleftrightarrow> lists_ok s pend \<and> (\<forall>k. cached s pend k \<and> \<not> pt_locked s k) \<and>
     (\<forall>l x. x \<in> set (pend l) \<longrightarrow> l < 128 \<and> status s x = \<lparr>ts_state = RTE_TIMER_PENDING, ts_owner = ucast l\<rparr>) \<and>
     (\<forall>x. ts_state (status s x) = RTE_TIMER_PENDING \<longrightarrow> (\<exists>l. x \<in> set (pend l)))"

lemma timers_okD:
  assumes "timers_ok s pend"
  shows "lists_ok s pend" "cached s pend k" "\<not> pt_locked s k" "x \<in> set (pend l) \<Longrightarrow> l < 128"
    "x \<in> set (pend l) \<Longrightarrow> status s x = \<lparr>ts_state = RTE_TIMER_PENDING, ts_owner = ucast l\<rparr>"
    "ts_state (status s x) = RTE_TIMER_PENDING \<Longrightarrow> \<exists>l. x \<in> set (pend l)"
  using assms unfolding timers_ok_def by blast+

lemma timers_ok_placed:
  assumes "timers_ok s pend"
  shows "placed s pend x"
proof (cases "ts_state (status s x) = RTE_TIMER_PENDING")
  case True
  then obtain l where l: "x \<in> set (pend l)" using timers_okD(6) [OF assms] by blast
  moreover have "x \<notin> set (pend k)" if "k \<noteq> l" for k using lists_okD(2) [OF timers_okD(1) [OF assms] that] l by blast
  ultimately show ?thesis using timers_okD(4,5) [OF assms l] True by (auto simp: placed_def)
next
  case False
  then show ?thesis using timers_okD(5) [OF assms] by (fastforce simp: placed_def)
qed

lemma scheduled_iff: "x \<in> set (scheduled e tim l pend k) \<longleftrightarrow> (if x = tim then k = l else x \<in> set (pend k))"
  by (auto simp: scheduled_def removed_def)

lemma timers_ok_scheduled:
  assumes "timers_ok s pend" and "l < 128" and "lists_ok s' (scheduled e tim l pend)"
    and "\<And>x. status s' x = (if x = tim then \<lparr>ts_state = RTE_TIMER_PENDING, ts_owner = ucast l\<rparr> else status s x)"
    and "\<And>k. cached s' (scheduled e tim l pend) k" and "\<And>k. \<not> pt_locked s' k"
  shows "timers_ok s' (scheduled e tim l pend)"
  using assms timers_okD(4-6) [OF assms(1)] unfolding timers_ok_def by (auto simp: scheduled_iff split: if_splits)

lemma sorted_pending: "lists_ok s pend \<Longrightarrow> sorted (map (expire s) (pend l))"
  using lists_okD(1) skip_okD(5) by blast

text \<open>Starting a timer that is stopped or pending returns 0 and leaves the timer pending on the given lcore: the lists of
  pending timers are those before with the timer taken out wherever it was and inserted by its new time
  of expiry, behind the timers of the same time; every list stays sorted and well formed, and all locks are released.\<close>
theorem timer_reset_exact:
  assumes "timers_ok s pend" and "ts_state (status s tim) \<in> {RTE_TIMER_STOP, RTE_TIMER_PENDING}"
    and "te_enabled env l" and "l < 128" and "now + ticks \<noteq> 0"
  shows "\<exists>s'. rte_timer_reset env now tim ticks ty l f a s = Inr (0, s') \<and>
    timers_ok s' (scheduled ((expire s)(tim := now + ticks)) tim l pend) \<and> rte_timer_pending tim s' \<and>
    expire s' = (expire s)(tim := now + ticks) \<and> (\<forall>k. sorted (map (expire s') (scheduled ((expire s)(tim := now + ticks)) tim l pend k)))"
proof -
  note ok = timers_okD [OF assms(1)]
  have any: "l \<noteq> LCORE_ID_ANY" using assms(4) by (auto simp: LCORE_ID_ANY_def)
  let ?pend = "scheduled ((expire s)(tim := now + ticks)) tim l pend" and ?per = "if ty = PERIODICAL then ticks else 0"
  have free: "False \<and> k = te_lcore env" if "pt_locked s k" for k using ok(3) that by blast
  obtain s' where s': "timer_reset env tim (now + ticks) ?per l f a False s = Inr (0, s')" "lists_ok s' ?pend"
      "info s' = (info s)(tim := (now + ticks, \<lparr>ts_state = RTE_TIMER_PENDING, ts_owner = ucast l\<rparr>, ?per, f, a))"
      "frame s' = frame s" "\<And>k. cached s' ?pend k"
    using reset_ok [OF ok(1) timers_ok_placed [OF assms(1)] assms(2) free assms(5) any] ok(2) by blast
  have st: "status s' x = (if x = tim then \<lparr>ts_state = RTE_TIMER_PENDING, ts_owner = ucast l\<rparr> else status s x)" for x
    by (simp add: status_info s'(3))
  have e: "expire s' = (expire s)(tim := now + ticks)" by (auto simp: fun_eq_iff expire_info s'(3))
  have "timers_ok s' ?pend"
    using s'(4) ok(3) by (intro timers_ok_scheduled [OF assms(1,4) s'(2) st s'(5)]) (simp add: frame_def)
  then show ?thesis
    using s'(1) assms(3) st e sorted_pending [OF s'(2)] by (auto simp: rte_timer_reset_def rte_timer_pending_def)
qed

text \<open>Stopping a timer that is stopped or pending returns 0 and leaves it in no list; the other pending timers keep their
  order, and all locks are released; the loop \<open>rte_timer_stop_sync\<close> ends at its first try.\<close>
theorem timer_stop_exact:
  assumes "timers_ok s pend" and "ts_state (status s tim) \<in> {RTE_TIMER_STOP, RTE_TIMER_PENDING}"
  shows "\<exists>s'. rte_timer_stop env tim s = Inr (0, s') \<and> timers_ok s' (removed tim pend) \<and> \<not> rte_timer_pending tim s' \<and>
    expire s' = expire s \<and> rte_timer_stop_sync env tim s = Some (Inr s')"
proof -
  note ok = timers_okD [OF assms(1)]
  obtain s' where s': "rte_timer_stop env tim s = Inr (0, s')" "lists_ok s' (removed tim pend)"
      "info s' = (info s)(tim := (expire s tim, \<lparr>ts_state = RTE_TIMER_STOP, ts_owner = RTE_TIMER_NO_OWNER\<rparr>, snd (snd (info s tim))))"
      "frame s' = frame s" "\<And>k. cached s' (removed tim pend) k"
    using stop_ok [OF ok(1) timers_ok_placed [OF assms(1)] assms(2) ok(3)] ok(2) by blast
  have st: "status s' x = (if x = tim then \<lparr>ts_state = RTE_TIMER_STOP, ts_owner = RTE_TIMER_NO_OWNER\<rparr> else status s x)" for x
    by (simp add: status_info s'(3))
  have "timers_ok s' (removed tim pend)"
    using s'(2,4,5) st ok(3-6) unfolding timers_ok_def by (auto simp: frame_def removed_def timer_consts split: if_splits)
  moreover have "expire s' = expire s" by (auto simp: fun_eq_iff expire_info s'(3))
  ultimately show ?thesis using s'(1) st by (auto simp: rte_timer_pending_def timer_consts rte_timer_stop_sync.simps [of env tim s])
qed

section \<open>A concrete state\<close>

text \<open>One periodic timer, of 100 cycles, is pending on lcore 1 at 150; its callback counts.\<close>

definition one_timer :: "nat timers" where
  "one_timer = \<lparr>pt_node = (\<lambda>p. \<lparr>tm_expire = (if p = Pending_head 1 \<or> p = Tim 0x1000 then 150 else 0),
       tm_sl_next = (\<lambda>i. if p = Pending_head 1 \<and> i = 0 then Some 0x1000 else None),
       tm_status = (if p = Tim 0x1000 then \<lparr>ts_state = RTE_TIMER_PENDING, ts_owner = 1\<rparr>
                    else \<lparr>ts_state = RTE_TIMER_STOP, ts_owner = RTE_TIMER_NO_OWNER\<rparr>),
       tm_period = 100, tm_f = 7, tm_arg = 9\<rparr>),
     pt_locked = (\<lambda>_. False), pt_updated = (\<lambda>_. False), pt_depth = (\<lambda>l. if l = 1 then 1 else 0),
     pt_prev_lcore = (\<lambda>l. l), pt_draws = 0, pt_world = 0\<rparr>"

definition one_env :: "nat timer_env" where
  "one_env = \<lparr>te_lcore = 1, te_enabled = (\<lambda>l. l < 4), te_rand = (\<lambda>_. 4),
     te_call = (\<lambda>f t a s. Inr (s\<lparr>pt_world := Suc (pt_world s)\<rparr>))\<rparr>"

definition one_pend :: "u32 \<Rightarrow> u64 list" where
  "one_pend l = (if l = 1 then [0x1000] else [])"

lemma one_timer_simps [simp]:
  "nxt one_timer i p = (if p = Pending_head 1 \<and> i = 0 then Some 0x1000 else None)"
  "expire one_timer x = (if x = 0x1000 then 150 else 0)"
  "status one_timer x = (if x = 0x1000 then \<lparr>ts_state = RTE_TIMER_PENDING, ts_owner = 1\<rparr>
     else \<lparr>ts_state = RTE_TIMER_STOP, ts_owner = RTE_TIMER_NO_OWNER\<rparr>)"
  "pt_depth one_timer l = (if l = 1 then 1 else 0)" "tm_expire (pt_node one_timer (Pending_head l)) = (if l = 1 then 150 else 0)"
  "pt_locked one_timer l = False" "tm_period (pt_node one_timer p) = 100" "tm_expire (pt_node one_timer (Tim x)) = (if x = 0x1000 then 150 else 0)"
  by (simp_all add: one_timer_def nxt_def expire_def status_def)

lemma one_timer_ok: "timers_ok one_timer one_pend"
proof -
  have "skip_ok one_timer l (one_pend l) (\<lambda>_. 0)" for l
    by (auto simp: skip_ok_def one_pend_def MAX_SKIPLIST_DEPTH_def at_level_def)
  then have "\<forall>l. \<exists>ht. skip_ok one_timer l (one_pend l) ht" by blast
  moreover have "set (one_pend l) \<inter> set (one_pend k) = {}" if "l \<noteq> k" for l k using that by (auto simp: one_pend_def)
  moreover have "expire one_timer x \<noteq> 0" if "x \<in> set (one_pend l)" for l x using that by (simp add: one_pend_def split: if_splits)
  ultimately have "lists_ok one_timer one_pend" unfolding lists_ok_def by blast
  moreover have "cached one_timer one_pend k" for k by (simp add: cached_def one_pend_def first_expire_def)
  ultimately show ?thesis by (auto simp: timers_ok_def one_pend_def timer_consts split: if_splits)
qed

lemma one_env_simps [simp]:
  "te_lcore one_env = 1" "te_enabled one_env l = (l < 4)" "te_call one_env f t a s = Inr (s\<lparr>pt_world := Suc (pt_world s)\<rparr>)"
  by (simp_all add: one_env_def)

text \<open>A second timer, and the pending one moved to another lcore.\<close>
theorem timer_reset_exact_witness:
  "(\<exists>s'. rte_timer_reset one_env 120 0x2000 20 SINGLE 1 7 9 one_timer = Inr (0, s') \<and>
     timers_ok s' (one_pend(1 := [0x2000, 0x1000])) \<and> rte_timer_pending 0x2000 s') \<and>
   (\<exists>s'. rte_timer_reset one_env 120 0x1000 20 SINGLE 2 7 9 one_timer = Inr (0, s') \<and>
     timers_ok s' ((\<lambda>_. [])(2 := [0x1000])) \<and> rte_timer_pending 0x1000 s')"
proof (rule conjI)
  have "scheduled ((expire one_timer)(0x2000 := 140)) 0x2000 1 one_pend = one_pend(1 := [0x2000, 0x1000])"
    by (auto simp: fun_eq_iff scheduled_def removed_def one_pend_def insert_timer_def)
  then show "\<exists>s'. rte_timer_reset one_env 120 0x2000 20 SINGLE 1 7 9 one_timer = Inr (0, s') \<and>
      timers_ok s' (one_pend(1 := [0x2000, 0x1000])) \<and> rte_timer_pending 0x2000 s'"
    using timer_reset_exact [where tim = "0x2000" and env = one_env and l = 1 and now = 120 and ticks = 20 and ty = SINGLE and f = 7 and a = 9, OF one_timer_ok] by (auto simp: timer_consts)
  have "scheduled ((expire one_timer)(0x1000 := 140)) 0x1000 2 one_pend = (\<lambda>_. [])(2 := [0x1000])"
    by (auto simp: fun_eq_iff scheduled_def removed_def one_pend_def insert_timer_def)
  then show "\<exists>s'. rte_timer_reset one_env 120 0x1000 20 SINGLE 2 7 9 one_timer = Inr (0, s') \<and>
      timers_ok s' ((\<lambda>_. [])(2 := [0x1000])) \<and> rte_timer_pending 0x1000 s'"
    using timer_reset_exact [where tim = "0x1000" and env = one_env and l = 2 and now = 120 and ticks = 20 and ty = SINGLE and f = 7 and a = 9, OF one_timer_ok] by (auto simp: timer_consts)
qed

theorem timer_stop_exact_witness:
  "\<exists>s'. rte_timer_stop one_env 0x1000 one_timer = Inr (0, s') \<and> timers_ok s' (\<lambda>_. []) \<and> \<not> rte_timer_pending 0x1000 s'"
proof -
  have "removed 0x1000 one_pend = (\<lambda>_. [])" by (simp add: fun_eq_iff removed_def one_pend_def)
  then show ?thesis using timer_stop_exact [where tim = "0x1000" and env = one_env, OF one_timer_ok] by (auto simp: timer_consts)
qed

end
