(* ===== verification/Timer_Manage.thy ===== *)
theory Timer_Manage
  imports Timer_Spec
begin

text \<open>
  \<open>rte_timer_manage\<close>: the list is cut at the current time, and the timers in front of the cut run in the order of
  their expiry. The callbacks here are those that change the world outside the timers only, as
  the statistics callbacks of the C applications do.
\<close>

section \<open>The cut\<close>

lemma nxt_break_levels:
  "nxt (break_levels l prev d s) j r =
    (if j < d then (if r = prev j then None else if r = Pending_head l then nxt s j (prev j) else nxt s j r) else nxt s j r)"
  by (induction d arbitrary: s) (auto simp: Let_def less_Suc_eq)

lemma depth_break_levels:
  "pt_depth (break_levels l prev d s) l = pt_depth s l - card {i. i < d \<and> nxt s i (prev i) = None}"
proof (induction d arbitrary: s)
  case (Suc d)
  let ?rest = "nxt s d (prev d)"
  let ?s1 = "set_nxt (Pending_head l) d ?rest s"
  let ?s2 = "if nxt ?s1 d (prev d) = None then set_depth l (pt_depth ?s1 l - 1) ?s1 else ?s1"
  let ?s3 = "set_nxt (prev d) d None ?s2"
  have n: "i < d \<Longrightarrow> nxt ?s3 i r = nxt s i r" for i r by auto
  have e: "{i. i < d \<and> nxt ?s3 i (prev i) = None} = {i. i < d \<and> nxt s i (prev i) = None}" using n by auto
  have f: "finite {i. i < d \<and> nxt s i (prev i) = None}" by simp
  have "{i. i < Suc d \<and> nxt s i (prev i) = None} =
      (if ?rest = None then insert d {i. i < d \<and> nxt s i (prev i) = None} else {i. i < d \<and> nxt s i (prev i) = None})"
    by (auto simp: less_Suc_eq)
  moreover have "pt_depth ?s3 l = (if ?rest = None then pt_depth s l - 1 else pt_depth s l)"
    by (auto simp: set_depth_def)
  ultimately show ?case using Suc.IH [of ?s3] e f by (simp add: Let_def)
qed simp

lemma only_break_levels:
  "Pending_head l \<in> A \<Longrightarrow> (\<And>i. i < d \<Longrightarrow> prev i \<in> A) \<Longrightarrow> only A l s (break_levels l prev d s)"
proof (induction d arbitrary: s)
  case (Suc d)
  let ?s1 = "set_nxt (Pending_head l) d (nxt s d (prev d)) s"
  let ?s2 = "if nxt ?s1 d (prev d) = None then set_depth l (pt_depth ?s1 l - 1) ?s1 else ?s1"
  have "only A l s ?s1" using Suc.prems by simp
  moreover have "only A l ?s1 ?s2" by simp
  moreover have "only A l ?s2 (set_nxt (prev d) d None ?s2)" using Suc.prems by simp
  moreover have "only A l (set_nxt (prev d) d None ?s2) (break_levels l prev d (set_nxt (prev d) d None ?s2))"
    using Suc.prems by (intro Suc.IH) auto
  ultimately show ?case unfolding break_levels.simps Let_def by (meson only_trans)
qed simp

text \<open>
  After the cut the head keeps the timers that are not due. A level on which no timer was due has lost its
  link from the head: the height of an entry is cut to the highest level of a timer that was due.
\<close>

lemma break_ok:
  assumes ok: "skip_ok s l (es @ rs) ht" and es: "es \<noteq> []"
    and prev: "\<And>i. i < pt_depth s l \<Longrightarrow> prev i = last_ref (Pending_head l) (at_level ht i es)"
  defines "s' \<equiv> break_levels l prev (pt_depth s l) s"
  shows "\<exists>ht'. skip_ok s' l rs ht'" "chain s' 0 (Tim (hd es)) (tl es)" "only (nodes_of l es) l s s'"
proof -
  let ?h = "Pending_head l" and ?d = "pt_depth s l"
  define M where "M = Max (ht ` set es)"
  note okD = skip_okD [OF ok]
  have M: "at_level ht i es = [] \<longleftrightarrow> M < i" for i
  proof -
    have "M < i \<longleftrightarrow> (\<forall>x \<in> set es. ht x < i)" using es by (simp add: M_def)
    then show ?thesis by (auto simp: at_level_def filter_empty_conv not_le)
  qed
  have Md: "M < ?d" using es okD(2) by (simp add: M_def)
  have prev_d: "prev i = last_ref ?h (at_level ht i es)" if "i < ?d" for i using prev that by simp
  have c: "linked s i ?h (at_level ht i es)" "chain s i (last_ref ?h (at_level ht i es)) (at_level ht i rs)" for i
    using okD(1) [of i] by (simp_all add: chain_append)
  have dis: "set es \<inter> set rs = {}" "distinct es" "distinct rs" using okD(4) by auto
  show o: "only (nodes_of l es) l s s'"
    unfolding s'_def using prev last_ref_nodes [of "at_level ht i es" es l for i] by (intro only_break_levels) auto
  let ?ht = "\<lambda>x. min (ht x) M"
  have chains: "chain s' i ?h (at_level ?ht i rs)" for i
  proof (cases "i \<le> M")
    case True
    have lv: "at_level ?ht i rs = at_level ht i rs" using True by (simp add: at_level_def)
    have ne: "at_level ht i es \<noteq> []" using True M [of i] by simp
    have id: "i < ?d" using True Md by simp
    have p: "prev i = Tim (last (at_level ht i es))" using prev_d [OF id] ne by (simp add: last_ref_def)
    have n: "nxt s' i r = (if r = prev i then None else if r = ?h then nxt s i (prev i) else nxt s i r)" for r
      using id by (simp add: s'_def nxt_break_levels)
    have "prev i \<notin> Tim ` set rs" using p last_in_set [OF ne] dis(1) by auto
    then have out: "prev i \<notin> Tim ` set (at_level ht i rs)" by auto
    have ch: "chain s i (prev i) (at_level ht i rs)" using c(2) [of i] prev_d [OF id] by simp
    show ?thesis
    proof (cases "at_level ht i rs")
      case (Cons a as)
      have "nxt s' i r = nxt s i r" if "r \<in> insert (Tim a) (Tim ` set as)" for r
      proof -
        have "r \<in> Tim ` set (at_level ht i rs)" using that unfolding Cons by simp
        then have "r \<noteq> prev i" "r \<noteq> ?h" using out by blast+
        then show ?thesis by (simp add: n)
      qed
      then have "chain s' i (Tim a) as = chain s i (Tim a) as" by (rule links_cong)
      then show ?thesis using ch p n unfolding lv Cons by simp
    qed (use ch p n lv in simp)
  next
    case False
    then have nil: "at_level ?ht i rs = []" by (simp add: at_level_def filter_empty_conv)
    have "nxt s' i ?h = None"
    proof (cases "i < ?d")
      case True
      then have "prev i = ?h" using prev_d M [of i] False by simp
      then show ?thesis using True by (simp add: s'_def nxt_break_levels)
    next
      case False
      then have "at_level ht i (es @ rs) = []" using okD(2) by (fastforce simp: at_level_def filter_empty_conv)
      then show ?thesis using okD(1) [of i] False by (simp add: s'_def nxt_break_levels)
    qed
    then show ?thesis by (simp add: nil)
  qed
  have depth: "pt_depth s' l = ?d - card {i. i < ?d \<and> at_level ht i rs = []}"
  proof -
    have "nxt s i (prev i) = None \<longleftrightarrow> at_level ht i rs = []" if "i < ?d" for i
      using c(2) [of i] prev_d [OF that] by (cases "at_level ht i rs") auto
    then have "{i. i < ?d \<and> nxt s i (prev i) = None} = {i. i < ?d \<and> at_level ht i rs = []}" by auto
    then show ?thesis by (simp add: s'_def depth_break_levels)
  qed
  have "?ht x < pt_depth s' l" if "x \<in> set rs" for x
  proof -
    have "{i. i < ?d \<and> at_level ht i rs = []} \<subseteq> {Suc (ht x)..<?d}"
      using that by (auto simp: at_level_def filter_empty_conv not_le Suc_le_eq)
    then have "card {i. i < ?d \<and> at_level ht i rs = []} \<le> ?d - Suc (ht x)"
      using card_mono [of "{Suc (ht x)..<?d}"] by fastforce
    moreover have "ht x < ?d" using okD(2) that by simp
    ultimately show ?thesis by (simp add: depth)
  qed
  moreover have "sorted (map (expire s') rs)"
  proof -
    have "map (expire s') rs = map (expire s) rs" using only_timer(1) [OF o] by simp
    then show ?thesis using okD(5) by (simp only: sorted_append map_append)
  qed
  moreover have "pt_depth s' l \<le> MAX_SKIPLIST_DEPTH" using okD(3) by (simp add: depth)
  ultimately show "\<exists>ht'. skip_ok s' l rs ht'" using chains dis(3) unfolding skip_ok_def by blast
  show "chain s' 0 (Tim (hd es)) (tl es)"
  proof -
    have "0 < ?d" using Md by simp
    then have p: "prev 0 = Tim (last es)" using prev_d [of 0] es by (simp add: last_ref_def)
    have n: "nxt s' 0 (Tim x) = (if x = last es then None else nxt s 0 (Tim x))" for x
      using \<open>0 < ?d\<close> p by (simp add: s'_def nxt_break_levels)
    obtain e fs where e: "es = e # fs" using es by (cases es) auto
    have "linked s 0 (Tim e) fs" using c(1) [of 0] e by simp
    moreover have "nxt s' 0 r = nxt s 0 r" if r: "r \<in> insert (Tim e) (Tim ` set fs)" "r \<noteq> last_ref (Tim e) fs" for r
    proof -
      obtain x where "r = Tim x" using r(1) by blast
      then show ?thesis using r(2) n [of x] e by (auto simp: last_ref_def split: if_splits)
    qed
    then have "linked s' 0 (Tim e) fs = linked s 0 (Tim e) fs"
      by (rule linked_cong) (use dis(2) e in auto)
    ultimately have "linked s' 0 (Tim e) fs" by simp
    moreover have "chain s' 0 (last_ref (Tim e) fs) []" using e n by (auto simp: last_ref_def)
    ultimately have "chain s' 0 (Tim e) (fs @ [])" unfolding chain_append by blast
    then show ?thesis by (simp add: e)
  qed
qed

section \<open>Running one timer\<close>

text \<open>The effect of one expiry on the contents of the timers and on the lists.\<close>

definition fire ::
  "u64 \<Rightarrow> u32 \<Rightarrow> u64 \<Rightarrow> (u64 \<Rightarrow> u64 \<times> rte_timer_status \<times> u64 \<times> u64 \<times> u64) \<times> (u32 \<Rightarrow> u64 list) \<Rightarrow>
   (u64 \<Rightarrow> u64 \<times> rte_timer_status \<times> u64 \<times> u64 \<times> u64) \<times> (u32 \<Rightarrow> u64 list)" where
  "fire now l tim = (\<lambda>(i, pend). case i tim of (e, st, per, f, a) \<Rightarrow>
     if per = 0 then (i(tim := (e, \<lparr>ts_state = RTE_TIMER_STOP, ts_owner = RTE_TIMER_NO_OWNER\<rparr>, per, f, a)), pend)
     else (i(tim := (now + per, \<lparr>ts_state = RTE_TIMER_PENDING, ts_owner = ucast l\<rparr>, per, f, a)),
           scheduled ((\<lambda>x. fst (i x))(tim := now + per)) tim l pend))"

definition call_of :: "(u64 \<Rightarrow> u64 \<Rightarrow> u64 \<Rightarrow> 'w \<Rightarrow> 'w) \<Rightarrow> 'w timers \<Rightarrow> u64 \<Rightarrow> 'w \<Rightarrow> 'w" where
  "call_of g s tim = g (tm_f (pt_node s (Tim tim))) tim (tm_arg (pt_node s (Tim tim)))"

lemma call_of_info: "call_of g s tim = (case info s tim of (e, st, per, f, a) \<Rightarrow> g f tim a)"
  by (simp add: call_of_def info_def Let_def)

lemma run_timer_ok:
  assumes ok: "lists_ok s pend" and out: "\<And>k. tim \<notin> set (pend k)"
    and st: "status s tim = \<lparr>ts_state = RTE_TIMER_PENDING, ts_owner = ucast l\<rparr>"
    and l: "te_lcore env = l" "l < 128" and lock: "\<And>k. pt_locked s k \<longleftrightarrow> k = l"
    and call: "\<And>f t a s. te_call env f t a s = Inr (s\<lparr>pt_world := g f t a (pt_world s)\<rparr>)"
    and per: "tm_period (pt_node s (Tim tim)) = 0 \<or> now + tm_period (pt_node s (Tim tim)) \<noteq> 0"
    and f: "fire now l tim (info s, pend) = (i', pend')"
  shows "\<exists>s0 s'. timer_set_running_state l tim s = Some s0 \<and> run_timer env now tim s0 = Inr s' \<and> lists_ok s' pend' \<and>
    info s' = i' \<and> pt_locked s' = pt_locked s \<and> pt_world s' = call_of g s tim (pt_world s) \<and>
    untouched tim pend s s' \<and> (\<forall>k. cached s pend k \<longrightarrow> cached s' pend' k)"
proof -
  let ?t = "pt_node s (Tim tim)"
  define s0 where "s0 = set_status tim RTE_TIMER_RUNNING (ucast l) s"
  define s2 where "s2 = set_locked l True ((set_updated l False (set_locked l False s0))\<lparr>pt_world := call_of g s tim (pt_world s)\<rparr>)"
  have run0: "timer_set_running_state l tim s = Some s0" using st by (simp add: timer_set_running_state_def s0_def)
  have nodes2: "pt_node s2 = pt_node s0" "pt_depth s2 = pt_depth s" "pt_world s2 = call_of g s tim (pt_world s)" "\<not> pt_updated s2 l"
    by (simp_all add: s2_def s0_def timer_upds)
  have lock2: "pt_locked s2 = pt_locked s" using lock by (intro ext) (simp add: s2_def s0_def timer_upds)
  have ok0: "lists_ok s0 pend" "\<And>k. cached s0 pend k = cached s pend k" using lists_ok_status [OF ok] by (simp_all add: s0_def)
  have ok2: "lists_ok s2 pend" by (rule lists_ok_cong [OF ok0(1)]) (simp_all add: nodes2 expire_def, simp add: s0_def timer_upds)
  have ca2: "cached s2 pend k = cached s pend k" for k
    using ok0(2) [of k] first_expire_cong [of "pend k" s2 s0] by (simp add: cached_def nodes2 expire_def)
  have info2: "info s2 = info s0" by (simp add: fun_eq_iff info_def nodes2)
  have t2: "pt_node s2 (Tim tim) = ?t\<lparr>tm_status := \<lparr>ts_state = RTE_TIMER_RUNNING, ts_owner = ucast l\<rparr>\<rparr>"
    by (simp add: nodes2 s0_def timer_upds)
  have t0: "tm_f (pt_node s0 (Tim tim)) = tm_f ?t" "tm_arg (pt_node s0 (Tim tim)) = tm_arg ?t"
    by (simp_all add: s0_def timer_upds)
  have run: "run_timer env now tim s0 =
      (if tm_period ?t = 0 then Inr (set_status tim RTE_TIMER_STOP RTE_TIMER_NO_OWNER s2)
       else bnd (timer_reset env tim (now + tm_period ?t) (tm_period ?t) l (tm_f ?t) (tm_arg ?t) True
              (set_status tim RTE_TIMER_PENDING (ucast l) s2)) (\<lambda>(_, s). Inr s))"
  proof -
    let ?s1 = "set_updated l False (set_locked l False s0)"
    have "te_call env (tm_f ?t) tim (tm_arg ?t) ?s1 = Inr (?s1\<lparr>pt_world := call_of g s tim (pt_world s)\<rparr>)"
      by (simp add: call call_of_def s0_def timer_upds)
    moreover have "rte_spinlock_lock l (?s1\<lparr>pt_world := call_of g s tim (pt_world s)\<rparr>) = Inr s2"
      by (simp add: rte_spinlock_lock_def s2_def) (simp add: timer_upds)
    moreover have "pt_node ?s1 = pt_node s0" by (simp add: timer_upds)
    ultimately show ?thesis
      unfolding run_timer_def Let_def l(1) rte_spinlock_unlock_def by (simp add: t0 t2 nodes2(4))
  qed
  have info_s: "info s tim = (expire s tim, status s tim, tm_period ?t, tm_f ?t, tm_arg ?t)"
    by (simp add: info_def expire_def status_def Let_def)
  have un: "untouched tim pend s s2" by (simp add: untouched_def nodes2 s0_def timer_upds)
  have e2: "expire s2 = expire s" by (simp add: fun_eq_iff expire_def nodes2 s0_def timer_upds)
  show ?thesis
  proof (cases "tm_period ?t = 0")
    case True
    let ?s' = "set_status tim RTE_TIMER_STOP RTE_TIMER_NO_OWNER s2"
    have i': "i' = (info s)(tim := (expire s tim, \<lparr>ts_state = RTE_TIMER_STOP, ts_owner = RTE_TIMER_NO_OWNER\<rparr>, snd (snd (info s tim))))"
        "pend' = pend"
      using f True by (simp_all add: fire_def info_s)
    have "info ?s' = i'" unfolding i' info_status info2 e2 by (simp add: s0_def info_status)
    moreover have "untouched tim pend s ?s'" using un by (simp add: untouched_def timer_upds)
    moreover have "pt_locked ?s' = pt_locked s" "pt_world ?s' = call_of g s tim (pt_world s)"
      by (simp_all add: set_status_def upd_node_def lock2 nodes2(3))
    ultimately show ?thesis
      using run0 run True i'(2) lists_ok_status [OF ok2] ca2 by auto
  next
    case False
    let ?s3 = "set_status tim RTE_TIMER_PENDING (ucast l) s2"
    let ?ex = "now + tm_period ?t"
    have st3: "status ?s3 tim = \<lparr>ts_state = RTE_TIMER_PENDING, ts_owner = ucast l\<rparr>" by (simp add: status_def timer_upds)
    then have pl: "placed ?s3 pend tim" using out l(2) by (auto simp: placed_def)
    have free: "True \<and> k = te_lcore env" if "pt_locked ?s3 k" for k
      using that lock lock2 l(1) by (simp add: set_status_def upd_node_def)
    have any: "l \<noteq> LCORE_ID_ANY" using l(2) by (auto simp: LCORE_ID_ANY_def)
    have e3: "expire ?s3 = expire s" using e2 by (simp add: fun_eq_iff expire_def timer_upds)
    have i': "i' = (info s)(tim := (?ex, \<lparr>ts_state = RTE_TIMER_PENDING, ts_owner = ucast l\<rparr>, tm_period ?t, tm_f ?t, tm_arg ?t))"
        "pend' = scheduled ((expire ?s3)(tim := ?ex)) tim l pend"
      unfolding e3 using f False by (simp_all add: fire_def info_s) (simp add: expire_info [abs_def])
    obtain s' where s': "timer_reset env tim ?ex (tm_period ?t) l (tm_f ?t) (tm_arg ?t) True ?s3 = Inr (0, s')"
        "lists_ok s' pend'" "info s' = (info ?s3)(tim := (?ex, \<lparr>ts_state = RTE_TIMER_PENDING, ts_owner = ucast l\<rparr>, tm_period ?t, tm_f ?t, tm_arg ?t))"
        "frame s' = frame ?s3" "untouched tim pend ?s3 s'" "\<forall>k. cached ?s3 pend k \<longrightarrow> cached s' pend' k"
      using reset_ok [OF lists_ok_status(1) [OF ok2] pl _ free _ any, of ?ex "tm_period ?t" "tm_f ?t" "tm_arg ?t"] st3 per False
      unfolding i'(2) by auto
    have "info s' = i'" unfolding s'(3) i'(1) info_status info2 by (simp add: s0_def info_status)
    moreover have "untouched tim pend s s'"
      using un s'(5) by (auto simp: untouched_def timer_upds)
    moreover have "pt_locked s' = pt_locked s" "pt_world s' = call_of g s tim (pt_world s)"
      using s'(4) by (simp_all add: frame_def lock2 nodes2(3) set_status_def upd_node_def)
    ultimately show ?thesis
      using run0 run False s'(1,2,6) lists_ok_status(2) [OF ok2] ca2 by auto
  qed
qed

section \<open>The loop over the timers that are due\<close>

text \<open>The state inside the loop: \<open>rs\<close> are the timers still to run, which are in no list any more.\<close>

definition run_inv :: "'w timers \<Rightarrow> (u32 \<Rightarrow> u64 list) \<Rightarrow> u32 \<Rightarrow> u64 list \<Rightarrow> bool" where
  "run_inv s pend l rs \<longleftrightarrow> lists_ok s pend \<and> (\<forall>k. pt_locked s k \<longleftrightarrow> k = l) \<and> (\<forall>k. k \<noteq> l \<longrightarrow> cached s pend k) \<and>
     (\<forall>k x. x \<in> set (pend k) \<longrightarrow> k < 128 \<and> status s x = \<lparr>ts_state = RTE_TIMER_PENDING, ts_owner = ucast k\<rparr>) \<and>
     (\<forall>x. ts_state (status s x) = RTE_TIMER_PENDING \<longrightarrow> (\<exists>k. x \<in> set (pend k)) \<or> x \<in> set rs) \<and>
     (\<forall>x \<in> set rs. status s x = \<lparr>ts_state = RTE_TIMER_PENDING, ts_owner = ucast l\<rparr> \<and> (\<forall>k. x \<notin> set (pend k))) \<and> distinct rs"

lemma run_invD:
  assumes "run_inv s pend l rs"
  shows "lists_ok s pend" "pt_locked s k \<longleftrightarrow> k = l" "k \<noteq> l \<Longrightarrow> cached s pend k" "x \<in> set (pend k) \<Longrightarrow> k < 128"
    "x \<in> set (pend k) \<Longrightarrow> status s x = \<lparr>ts_state = RTE_TIMER_PENDING, ts_owner = ucast k\<rparr>"
    "ts_state (status s x) = RTE_TIMER_PENDING \<Longrightarrow> (\<exists>k. x \<in> set (pend k)) \<or> x \<in> set rs"
    "x \<in> set rs \<Longrightarrow> status s x = \<lparr>ts_state = RTE_TIMER_PENDING, ts_owner = ucast l\<rparr>" "x \<in> set rs \<Longrightarrow> x \<notin> set (pend k)" "distinct rs"
  using assms unfolding run_inv_def by blast+

lemma run_inv_fire:
  assumes inv: "run_inv s pend l (tim # rs)" and l: "l < 128" and f: "fire now l tim (info s, pend) = (i', pend')"
    and s': "lists_ok s' pend'" "info s' = i'" "pt_locked s' = pt_locked s" "\<forall>k. cached s pend k \<longrightarrow> cached s' pend' k"
  shows "run_inv s' pend' l rs"
proof -
  obtain per fn a where i: "info s tim = (expire s tim, status s tim, per, fn, a)"
    by (simp add: info_def expire_def status_def Let_def)
  note D = run_invD [OF inv]
  have out: "tim \<notin> set (pend k)" for k using D(8) by simp
  have st: "status s' x = (if x = tim then (if per = 0 then \<lparr>ts_state = RTE_TIMER_STOP, ts_owner = RTE_TIMER_NO_OWNER\<rparr>
      else \<lparr>ts_state = RTE_TIMER_PENDING, ts_owner = ucast l\<rparr>) else status s x)" for x
    using f unfolding status_info s'(2) by (auto simp: fire_def i split: if_splits)
  have mem: "x \<in> set (pend' k) \<longleftrightarrow> (if x = tim then k = l \<and> per \<noteq> 0 else x \<in> set (pend k))" for x k
    using f out by (auto simp: fire_def i scheduled_iff split: if_splits)
  have ca: "k \<noteq> l \<Longrightarrow> cached s' pend' k" for k using s'(4) D(3) by blast
  have "x \<in> set (pend' k) \<Longrightarrow> k < 128 \<and> status s' x = \<lparr>ts_state = RTE_TIMER_PENDING, ts_owner = ucast k\<rparr>" for x k
    using D(4,5) l by (auto simp: mem st split: if_splits)
  moreover have "ts_state (status s' x) = RTE_TIMER_PENDING \<Longrightarrow> (\<exists>k. x \<in> set (pend' k)) \<or> x \<in> set rs" for x
    using D(6) [of x] by (auto simp: mem st timer_consts split: if_splits)
  moreover have "x \<in> set rs \<Longrightarrow> status s' x = \<lparr>ts_state = RTE_TIMER_PENDING, ts_owner = ucast l\<rparr> \<and> (\<forall>k. x \<notin> set (pend' k))" for x
    using D(7,8) [of x] D(9) by (auto simp: mem st)
  ultimately show ?thesis using s'(1,3) ca D(2,9) unfolding run_inv_def by auto
qed

lemma fire_others:
  assumes "fire now l tim (i, pend) = (i', pend')" and "x \<noteq> tim"
  shows "i' x = i x"
  using assms by (auto simp: fire_def split: prod.splits if_splits)

fun starts :: "'w timers \<Rightarrow> u64 option \<Rightarrow> u64 list \<Rightarrow> bool" where
  "starts s p [] \<longleftrightarrow> p = None"
| "starts s p (x # xs) \<longleftrightarrow> p = Some x \<and> chain s 0 (Tim x) xs"

lemma chain_starts: "chain s 0 r xs \<longleftrightarrow> starts s (nxt s 0 r) xs" by (cases xs) auto

lemma starts_cong: "(\<And>x. x \<in> set xs \<Longrightarrow> pt_node s' (Tim x) = pt_node s (Tim x)) \<Longrightarrow> starts s' p xs = starts s p xs"
proof (cases xs)
  case (Cons x ys)
  assume "\<And>x. x \<in> set xs \<Longrightarrow> pt_node s' (Tim x) = pt_node s (Tim x)"
  then have "chain s' 0 (Tim x) ys = chain s 0 (Tim x) ys" unfolding Cons by (intro links_cong) (auto simp: nxt_def)
  then show ?thesis by (simp add: Cons)
qed simp

lemma run_expired_ok:
  assumes "te_lcore env = l" and "l < 128" and "\<And>f t a s. te_call env f t a s = Inr (s\<lparr>pt_world := g f t a (pt_world s)\<rparr>)"
    and "run_inv s pend l rs" and "starts s p rs"
    and "\<forall>x \<in> set rs. tm_period (pt_node s (Tim x)) = 0 \<or> now + tm_period (pt_node s (Tim x)) \<noteq> 0"
  shows "\<exists>s'. run_expired env now p s = Some (Inr s') \<and>
    run_inv s' (snd (fold (fire now l) rs (info s, pend))) l [] \<and> info s' = fst (fold (fire now l) rs (info s, pend)) \<and>
    pt_world s' = fold (call_of g s) rs (pt_world s)"
  using assms(4-)
proof (induction rs arbitrary: s pend p)
  case Nil
  then show ?case by (subst run_expired.simps) simp
next
  case (Cons tim rs)
  note D = run_invD [OF Cons.prems(1)]
  obtain i' pend' where f: "fire now l tim (info s, pend) = (i', pend')" by (cases "fire now l tim (info s, pend)") auto
  have per: "tm_period (pt_node s (Tim tim)) = 0 \<or> now + tm_period (pt_node s (Tim tim)) \<noteq> 0" using Cons.prems(3) by simp
  obtain s0 s1 where s1: "timer_set_running_state l tim s = Some s0" "run_timer env now tim s0 = Inr s1" "lists_ok s1 pend'"
      "info s1 = i'" "pt_locked s1 = pt_locked s" "pt_world s1 = call_of g s tim (pt_world s)" "untouched tim pend s s1"
      "\<forall>k. cached s pend k \<longrightarrow> cached s1 pend' k"
    using run_timer_ok [OF D(1) _ _ assms(1,2) D(2) assms(3) per f] D(7,8) by auto
  have inv: "run_inv s1 pend' l rs" by (rule run_inv_fire [OF Cons.prems(1) assms(2) f s1(3-5,8)])
  have same: "pt_node s1 (Tim x) = pt_node s (Tim x)" if "x \<in> set rs" for x
  proof -
    have "x \<noteq> tim" "\<forall>k. x \<notin> set (pend k)" using D(8) [of x] D(9) that by auto
    then show ?thesis using s1(7) by (simp add: untouched_def)
  qed
  let ?p = "nxt s 0 (Tim tim)"
  have "starts s1 ?p rs" using Cons.prems(2) starts_cong [OF same] by (simp add: chain_starts)
  moreover have "\<forall>x \<in> set rs. tm_period (pt_node s1 (Tim x)) = 0 \<or> now + tm_period (pt_node s1 (Tim x)) \<noteq> 0"
    using Cons.prems(3) same by simp
  ultimately obtain s' where s': "run_expired env now ?p s1 = Some (Inr s')"
      "run_inv s' (snd (fold (fire now l) rs (i', pend'))) l []" "info s' = fst (fold (fire now l) rs (i', pend'))"
      "pt_world s' = fold (call_of g s1) rs (pt_world s1)"
    using Cons.IH [OF inv] unfolding s1(4) by blast
  have "fold (call_of g s1) rs w = fold (call_of g s) rs w" for w
    using same by (intro fold_cong) (auto simp: call_of_def)
  moreover have "run_expired env now p s = Some (Inr s')"
    using Cons.prems(2) s1(1,2) s'(1) assms(1) by (subst run_expired.simps) simp
  ultimately show ?case using s'(2-4) s1(6) f by auto
qed

section \<open>The whole call\<close>

text \<open>From the state under the lock to the state in the loop.\<close>

lemma break_run_inv:
  assumes ok: "timers_ok s pend" and p: "pend l = es @ rs" and es: "es \<noteq> []" and sk: "skip_ok (set_locked l True s) l (es @ rs) ht"
    and prev: "\<And>i. i < pt_depth s l \<Longrightarrow> prev i = last_ref (Pending_head l) (at_level ht i es)"
  defines "s' \<equiv> break_levels l prev (pt_depth s l) (set_locked l True s)"
  shows "run_inv s' (pend(l := rs)) l es" "starts s' (Some (hd es)) es" "info s' = info s" "pt_world s' = pt_world s"
    "\<And>x. same_fields (pt_node s (Tim x)) (pt_node s' (Tim x))"
proof -
  let ?t = "set_locked l True s"
  note D = timers_okD [OF ok]
  have "pt_depth ?t l = pt_depth s l" by (simp add: set_locked_def)
  then obtain ht' where b: "skip_ok s' l rs ht'" "chain s' 0 (Tim (hd es)) (tl es)" "only (nodes_of l es) l ?t s'"
    using break_ok [OF sk es, of prev] prev unfolding s'_def by auto
  let ?e = "hd es"
  have e: "?e \<in> set (pend l)" using es p by simp
  have o: "only (nodes_of l (?e # pend l)) l ?t s'"
    by (rule only_mono [OF b(3)]) (auto simp: nodes_of_def p)
  have dis: "distinct (pend l)" using lists_okD(1) [OF D(1)] skip_okD(4) by blast
  have new: "?e \<notin> set rs" using dis p hd_in_set [OF es] by auto
  have oth: "?e \<notin> set (pend k)" if "k \<noteq> l" for k using lists_okD(2) [OF D(1) that] e by blast
  have lo: "lists_ok s' (pend(l := rs))"
    by (rule lists_ok_step [OF lists_ok_set_locked [OF D(1)] b(1) o _ oth]) (use p new in auto)
  have k: "keeps ?t s'" by (rule only_keeps [OF o])
  show i: "info s' = info s" "pt_world s' = pt_world s"
    using keeps_info [OF k] by (auto simp: frame_def info_def set_locked_def fun_eq_iff)
  show "same_fields (pt_node s (Tim x)) (pt_node s' (Tim x))" for x using k by (simp add: keeps_def set_locked_def)
  have st: "status s' x = status s x" for x by (simp add: status_info i(1))
  have lock: "pt_locked s' k \<longleftrightarrow> k = l" for k using k D(3) [of k] by (auto simp: keeps_def set_locked_def)
  have ca: "cached s' (pend(l := rs)) k" if "k \<noteq> l" for k
  proof -
    have "cached ?t pend k" using D(2) [of k] first_expire_cong [of "pend k" ?t s] by (simp add: cached_def set_locked_def expire_def)
    then show ?thesis by (rule only_cached [OF o _ that]) (auto simp: nodes_of_def that)
  qed
  have "\<exists>k. x \<in> set ((pend(l := rs)) k)" if "ts_state (status s x) = RTE_TIMER_PENDING" "x \<notin> set es" for x
    using D(6) [OF that(1)] that(2) p by (metis Un_iff fun_upd_other fun_upd_same set_append)
  moreover have "x \<notin> set ((pend(l := rs)) k)" if "x \<in> set es" for x k
    using that dis p lists_okD(2) [OF D(1), of k l] by auto
  moreover have "k < 128 \<and> status s x = \<lparr>ts_state = RTE_TIMER_PENDING, ts_owner = ucast k\<rparr>" if "x \<in> set ((pend(l := rs)) k)" for x k
    using that D(4,5) [of x k] p by (auto split: if_splits)
  moreover have "status s x = \<lparr>ts_state = RTE_TIMER_PENDING, ts_owner = ucast l\<rparr>" if "x \<in> set es" for x
    using that D(5) [of x l] p by simp
  ultimately show "run_inv s' (pend(l := rs)) l es"
    using lo lock ca dis p unfolding run_inv_def st by (metis distinct_append)
  show "starts s' (Some ?e) es" using b(2) es by (cases es) auto
qed

text \<open>From the end of the loop to the state between calls.\<close>

lemma run_inv_finish:
  assumes inv: "run_inv s pend l []"
  defines "s' \<equiv> rte_spinlock_unlock l (set_expire (Pending_head l)
     (case nxt s 0 (Pending_head l) of None \<Rightarrow> 0 | Some q \<Rightarrow> tm_expire (pt_node s (Tim q))) s)"
  shows "timers_ok s' pend" "info s' = info s" "pt_world s' = pt_world s"
proof -
  note D = run_invD [OF inv]
  have n: "pt_node s' = (pt_node s)(Pending_head l := (pt_node s (Pending_head l))\<lparr>tm_expire := first_expire s (pend l)\<rparr>)"
  proof -
    have "(case nxt s 0 (Pending_head l) of None \<Rightarrow> 0 | Some q \<Rightarrow> tm_expire (pt_node s (Tim q))) = first_expire s (pend l)"
    proof -
      obtain ht where "skip_ok s l (pend l) ht" using lists_okD(1) [OF D(1)] by blast
      from skip_okD(1) [OF this, of 0] show ?thesis by (cases "pend l") (simp_all add: first_expire_def expire_def)
    qed
    then show ?thesis by (simp add: s'_def rte_spinlock_unlock_def timer_upds)
  qed
  show i: "info s' = info s" by (simp add: fun_eq_iff info_def n)
  show "pt_world s' = pt_world s" by (simp add: s'_def rte_spinlock_unlock_def timer_upds)
  have e: "expire s' = expire s" by (rule info_expire [OF i])
  have lo: "lists_ok s' pend"
    by (rule lists_ok_cong [OF D(1)]) (auto simp: n e, simp add: s'_def rte_spinlock_unlock_def timer_upds)
  have fe: "first_expire s' xs = first_expire s xs" for xs by (rule first_expire_cong) (simp add: e)
  have ca: "cached s' pend k" for k using D(3) [of k] by (cases "k = l") (simp_all add: cached_def n fe)
  have lock: "\<not> pt_locked s' k" for k using D(2) [of k] by (auto simp: s'_def rte_spinlock_unlock_def timer_upds)
  have st: "status s' x = status s x" for x by (simp add: status_info i)
  show "timers_ok s' pend" using lo ca lock D(4-6) unfolding timers_ok_def st by auto
qed

text \<open>C18: \<open>rte_timer_manage\<close> on an lcore returns. It runs the callbacks of exactly the pending timers of this lcore that are due,
  in the order of their expiry; a timer without period is then stopped, one with a period is pending
  again by its new time of expiry, and the timers that are not due stay. All lists stay sorted and well
  formed, the cached time of expiry is right, and all locks are released. The callbacks are any that do not
  change the timers themselves.\<close>
theorem timer_manage_exact:
  assumes ok: "timers_ok s pend" and l: "te_lcore env = l" "l < 128"
    and call: "\<And>f t a s. te_call env f t a s = Inr (s\<lparr>pt_world := g f t a (pt_world s)\<rparr>)"
    and per: "\<forall>x \<in> set (takeWhile (expires_by s now) (pend l)).
      tm_period (pt_node s (Tim x)) = 0 \<or> now + tm_period (pt_node s (Tim x)) \<noteq> 0"
  shows "\<exists>s' pend'. rte_timer_manage env now s = Inr s' \<and> timers_ok s' pend' \<and>
    (info s', pend') = fold (fire now l) (takeWhile (expires_by s now) (pend l)) (info s, pend(l := dropWhile (expires_by s now) (pend l))) \<and>
    pt_world s' = fold (call_of g s) (takeWhile (expires_by s now) (pend l)) (pt_world s)"
proof -
  let ?es = "takeWhile (expires_by s now) (pend l)" and ?rs = "dropWhile (expires_by s now) (pend l)" and ?h = "Pending_head l"
  let ?t = "set_locked l True s"
  note D = timers_okD [OF ok]
  obtain ht where sk: "skip_ok s l (pend l) ht" using lists_okD(1) [OF D(1)] by blast
  have c0: "chain s 0 ?h (pend l)" using skip_okD(1) [OF sk, of 0] by simp
  have he: "tm_expire (pt_node s ?h) = first_expire s (pend l)" using D(2) [of l] by (simp add: cached_def)
  show ?thesis
  proof (cases "?es = []")
    case True
    then have "?rs = pend l" by (metis append_Nil takeWhile_dropWhile_id)
    moreover have "rte_timer_manage env now s = Inr s"
    proof (cases "pend l")
      case Nil
      then show ?thesis using c0 l by (simp add: rte_timer_manage_def Let_def)
    next
      case (Cons x xs)
      then have "\<not> expires_by s now x" using True by (simp split: if_splits)
      then show ?thesis using c0 l he Cons by (simp add: rte_timer_manage_def Let_def expires_by_def first_expire_def expire_def not_le)
    qed
    ultimately show ?thesis using True ok by simp
  next
    case False
    then obtain x xs where x: "pend l = x # xs" "expires_by s now x" by (cases "pend l") (auto split: if_splits)
    have skt: "skip_ok ?t l (?es @ ?rs) ht"
      by (rule skip_ok_cong) (use sk in \<open>auto simp: set_locked_def expire_def\<close>)
    have same: "expires_by ?t now = expires_by s now" "pt_depth ?t = pt_depth s" "nxt ?t = nxt s" "pt_node ?t = pt_node s"
      by (auto simp: fun_eq_iff expires_by_def set_locked_def nxt_def)
    obtain prev where prev: "timer_get_prev_entries now l ?t = Some prev"
        "\<And>i. i < pt_depth s l \<Longrightarrow> prev i = last_ref ?h (at_level ht i ?es)"
      using prev_entries_ok [OF skt, of now] same by auto
    let ?s1 = "break_levels l prev (pt_depth s l) ?t"
    have b: "run_inv ?s1 (pend(l := ?rs)) l ?es" "starts ?s1 (Some (hd ?es)) ?es" "info ?s1 = info s" "pt_world ?s1 = pt_world s"
        "\<And>x. same_fields (pt_node s (Tim x)) (pt_node ?s1 (Tim x))"
      using break_run_inv [OF ok _ False skt prev(2)] by simp_all
    have calls: "call_of g ?s1 = call_of g s" by (simp add: fun_eq_iff call_of_info b(3))
    have "\<forall>x \<in> set ?es. tm_period (pt_node ?s1 (Tim x)) = 0 \<or> now + tm_period (pt_node ?s1 (Tim x)) \<noteq> 0"
      using per b(5) by (simp add: same_fields_def)
    then obtain s2 where s2: "run_expired env now (Some (hd ?es)) ?s1 = Some (Inr s2)"
        "run_inv s2 (snd (fold (fire now l) ?es (info s, pend(l := ?rs)))) l []"
        "info s2 = fst (fold (fire now l) ?es (info s, pend(l := ?rs)))" "pt_world s2 = fold (call_of g s) ?es (pt_world s)"
      using run_expired_ok [OF l call b(1,2)] unfolding b(3,4) calls by blast
    let ?s3 = "rte_spinlock_unlock l (set_expire ?h (case nxt s2 0 ?h of None \<Rightarrow> 0 | Some q \<Rightarrow> tm_expire (pt_node s2 (Tim q))) s2)"
    have "manage_locked env now ?t = Inr (set_expire ?h (case nxt s2 0 ?h of None \<Rightarrow> 0 | Some q \<Rightarrow> tm_expire (pt_node s2 (Tim q))) s2)"
      using c0 x prev(1) s2(1) l(1) same by (simp add: manage_locked_def Let_def expires_by_def)
    then have "rte_timer_manage env now s = Inr ?s3"
      using c0 x he l D(3) [of l] by (simp add: rte_timer_manage_def Let_def expires_by_def first_expire_def expire_def rte_spinlock_lock_def)
    moreover note run_inv_finish [OF s2(2)]
    ultimately show ?thesis using s2(3,4) by (intro exI [of _ ?s3] exI conjI) auto
  qed
qed

text \<open>The periodic timer is due at 200: its callback runs once and the timer is pending again at 300.\<close>
theorem timer_manage_exact_witness:
  "\<exists>s' pend'. rte_timer_manage one_env 200 one_timer = Inr s' \<and> timers_ok s' pend' \<and> pend' 1 = [0x1000] \<and>
     expire s' 0x1000 = 300 \<and> pt_world s' = 1"
proof -
  have es: "takeWhile (expires_by one_timer 200) (one_pend 1) = [0x1000]" "dropWhile (expires_by one_timer 200) (one_pend 1) = []"
    by (simp_all add: one_pend_def expires_by_def)
  have i: "info one_timer 0x1000 = (150, \<lparr>ts_state = RTE_TIMER_PENDING, ts_owner = 1\<rparr>, 100, 7, 9)"
    by (simp add: info_def one_timer_def)
  have "call_of (\<lambda>_ _ _. Suc) one_timer 0x1000 (pt_world one_timer) = 1" by (simp add: call_of_def one_timer_def)
  then obtain s' pend' where s': "rte_timer_manage one_env 200 one_timer = Inr s'" "timers_ok s' pend'" "pt_world s' = 1"
      "(info s', pend') = fire 200 1 0x1000 (info one_timer, one_pend(1 := []))"
    using timer_manage_exact [OF one_timer_ok, of one_env 1 "\<lambda>_ _ _. Suc" 200] unfolding es by auto
  have "pend' 1 = [0x1000]" "info s' 0x1000 = (300, \<lparr>ts_state = RTE_TIMER_PENDING, ts_owner = 1\<rparr>, 100, 7, 9)"
    using s'(4) by (simp_all add: fire_def i scheduled_def removed_def insert_timer_def)
  then show ?thesis using s'(1-3) by (auto simp: expire_info)
qed

end
