(* ===== verification/Memzone.thy ===== *)
theory Memzone
  imports Eth_Types Ring
begin

text \<open>
  Memory zones, \<open>dpdk-2.0.0/lib/librte_eal/common/eal_common_memzone.c\<close>: named pieces of the physical memory segments, which
  are cut off the front of a segment and never given back. The heap of \<open>librte_malloc\<close> takes its memory from here.
  A pointer to a zone is its index in the table; the locks around the functions are left out.
\<close>

section \<open>The configuration\<close>

definition RTE_MAX_MEMSEG :: nat where "RTE_MAX_MEMSEG = 256"
definition RTE_MAX_MEMZONE :: nat where "RTE_MAX_MEMZONE = 2560"
definition RTE_MEMZONE_2MB :: u32 where "RTE_MEMZONE_2MB = 0x00000001"
definition RTE_MEMZONE_1GB :: u32 where "RTE_MEMZONE_1GB = 0x00000002"
definition RTE_MEMZONE_16MB :: u32 where "RTE_MEMZONE_16MB = 0x00000100"
definition RTE_MEMZONE_16GB :: u32 where "RTE_MEMZONE_16GB = 0x00000200"
definition RTE_MEMZONE_SIZE_HINT_ONLY :: u32 where "RTE_MEMZONE_SIZE_HINT_ONLY = 0x00000004"
definition RTE_PGSIZE_2M :: u64 where "RTE_PGSIZE_2M = push_bit 21 1"
definition RTE_PGSIZE_1G :: u64 where "RTE_PGSIZE_1G = push_bit 30 1"
definition RTE_PGSIZE_16M :: u64 where "RTE_PGSIZE_16M = push_bit 24 1"
definition RTE_PGSIZE_16G :: u64 where "RTE_PGSIZE_16G = push_bit 34 1"
definition SOCKET_ID_ANY :: int where "SOCKET_ID_ANY = - 1"
definition RTE_CACHE_LINE_MASK :: u64 where "RTE_CACHE_LINE_MASK = 63"

record rte_memseg =
  sg_phys_addr :: u64
  sg_addr :: u64
  sg_len :: u64
  sg_hugepage_sz :: u64
  sg_socket_id :: int

record rte_memzone =
  zn_name :: string
  zn_phys_addr :: u64
  zn_addr :: u64
  zn_len :: u64
  zn_hugepage_sz :: u64
  zn_socket_id :: int
  zn_flags :: u32
  zn_memseg_id :: nat

text \<open>\<open>mc_memseg\<close> is the layout of the physical memory, \<open>mc_free_memseg\<close> what is left of each segment.\<close>

record mem_config =
  mc_memseg :: "nat \<Rightarrow> rte_memseg"
  mc_free_memseg :: "nat \<Rightarrow> rte_memseg"
  mc_memzone :: "nat \<Rightarrow> rte_memzone"
  mc_memzone_idx :: nat
  mc_errno :: int

section \<open>Lookup\<close>

text \<open>\<open>strncmp\<close> over the size of the name field, on names without zero bytes.\<close>

function lookup_from :: "string \<Rightarrow> nat \<Rightarrow> mem_config \<Rightarrow> nat option" where
  "lookup_from name i c =
     (if i < RTE_MAX_MEMZONE \<and> zn_addr (mc_memzone c i) \<noteq> 0
      then if take RTE_MEMZONE_NAMESIZE name = zn_name (mc_memzone c i) then Some i else lookup_from name (Suc i) c
      else None)"
  by pat_completeness auto
termination by (relation "measure (\<lambda>(name, i, c). RTE_MAX_MEMZONE - i)") auto

declare lookup_from.simps [simp del]

definition rte_memzone_lookup :: "string \<Rightarrow> mem_config \<Rightarrow> nat option" where
  "rte_memzone_lookup name c = lookup_from name 0 c"

section \<open>Reservation\<close>

definition rte_is_power_of_2 :: "u32 \<Rightarrow> bool" where
  "rte_is_power_of_2 n \<longleftrightarrow> n \<noteq> 0 \<and> n AND (n - 1) = 0"

partial_function (option) boundary_loop :: "rte_memseg \<Rightarrow> u64 \<Rightarrow> u64 \<Rightarrow> u64 \<Rightarrow> u64 \<Rightarrow> u64 option" where
  "boundary_loop ms len step bmask start =
     (let addr_offset = start - sg_phys_addr ms in
      if addr_offset + len < sg_len ms
      then (let end = start + len - (if len \<noteq> 0 then 1 else 0) in
            if start AND bmask = end AND bmask then Some addr_offset
            else boundary_loop ms len step bmask (RTE_ALIGN_CEIL (start + 1) step))
      else Some addr_offset)"

definition align_phys_boundary :: "rte_memseg \<Rightarrow> u64 \<Rightarrow> u64 \<Rightarrow> u64 \<Rightarrow> u64 option" where
  "align_phys_boundary ms len align bound =
     boundary_loop ms len (max align bound) (NOT (bound - 1)) (RTE_ALIGN_CEIL (sg_phys_addr ms) align)"

definition wrong_page_size :: "u32 \<Rightarrow> u64 \<Rightarrow> bool" where
  "wrong_page_size flags sz \<longleftrightarrow>
     flags AND RTE_MEMZONE_2MB \<noteq> 0 \<and> sz = RTE_PGSIZE_1G \<or> flags AND RTE_MEMZONE_1GB \<noteq> 0 \<and> sz = RTE_PGSIZE_2M \<or>
     flags AND RTE_MEMZONE_16MB \<noteq> 0 \<and> sz = RTE_PGSIZE_16G \<or> flags AND RTE_MEMZONE_16GB \<noteq> 0 \<and> sz = RTE_PGSIZE_16M"

text \<open>The best segment so far: its index, length and offset.\<close>

definition better :: "u64 \<Rightarrow> u64 \<Rightarrow> nat \<Rightarrow> u64 \<Rightarrow> u64 \<Rightarrow> (nat \<times> u64 \<times> u64) option \<Rightarrow> (nat \<times> u64 \<times> u64) option" where
  "better len align i seg_len addr_offset best =
     (case best of
        None \<Rightarrow> Some (i, seg_len, addr_offset)
      | Some (_, memseg_len, seg_offset) \<Rightarrow>
          if len = 0 then (if seg_len > memseg_len then Some (i, seg_len, addr_offset) else best)
          else if seg_len + align < memseg_len \<or> seg_len \<le> memseg_len + align \<and> addr_offset < seg_offset
          then Some (i, seg_len, addr_offset) else best)"

function find_memseg ::
  "mem_config \<Rightarrow> u64 \<Rightarrow> u64 \<Rightarrow> int \<Rightarrow> u32 \<Rightarrow> u64 \<Rightarrow> u64 \<Rightarrow> nat \<Rightarrow> (nat \<times> u64 \<times> u64) option \<Rightarrow> (nat \<times> u64 \<times> u64) option option" where
  "find_memseg c len requested_len socket_id flags align bound i best =
     (if i < RTE_MAX_MEMSEG \<and> sg_addr (mc_free_memseg c i) \<noteq> 0
      then (let sg = mc_free_memseg c i; next = find_memseg c len requested_len socket_id flags align bound (Suc i) in
            if sg_len sg = 0 then next best
            else if socket_id \<noteq> SOCKET_ID_ANY \<and> sg_socket_id sg \<noteq> SOCKET_ID_ANY \<and> socket_id \<noteq> sg_socket_id sg then next best
            else case align_phys_boundary sg requested_len align bound of
                   None \<Rightarrow> None
                 | Some addr_offset \<Rightarrow>
                     if requested_len + addr_offset > sg_len sg then next best
                     else if wrong_page_size flags (sg_hugepage_sz sg) then next best
                     else next (better len align i (sg_len sg) addr_offset best))
      else Some best)"
  by pat_completeness auto
termination by (relation "measure (\<lambda>(c, len, req, soc, fl, al, bd, i, best). RTE_MAX_MEMSEG - i)") auto

declare find_memseg.simps [simp del]

definition take_memseg :: "string \<Rightarrow> u64 \<Rightarrow> u64 \<Rightarrow> u64 \<Rightarrow> nat \<Rightarrow> u64 \<Rightarrow> u64 \<Rightarrow> mem_config \<Rightarrow> nat \<times> mem_config" where
  "take_memseg name len requested_len bound idx memseg_len seg_offset c =
     (let sg = mc_free_memseg c idx;
          physaddr = sg_phys_addr sg + seg_offset;
          addr = sg_addr sg + seg_offset;
          requested_len = (if len = 0
                           then if bound = 0 then memseg_len - seg_offset
                                else RTE_ALIGN_CEIL (physaddr + 1) bound - physaddr
                           else requested_len);
          len = seg_offset + requested_len;
          sg = sg\<lparr>sg_len := sg_len sg - len, sg_phys_addr := sg_phys_addr sg + len, sg_addr := sg_addr sg + len\<rparr>;
          mz = \<lparr>zn_name = take (RTE_MEMZONE_NAMESIZE - 1) name, zn_phys_addr = physaddr, zn_addr = addr, zn_len = requested_len,
                zn_hugepage_sz = sg_hugepage_sz sg, zn_socket_id = sg_socket_id sg, zn_flags = 0, zn_memseg_id = idx\<rparr>
      in (mc_memzone_idx c,
          c\<lparr>mc_free_memseg := (mc_free_memseg c)(idx := sg), mc_memzone := (mc_memzone c)(mc_memzone_idx c := mz),
            mc_memzone_idx := Suc (mc_memzone_idx c)\<rparr>))"

text \<open>The call repeats itself without flags when the size of pages was only a hint. \<open>Inl No_return\<close> is an endless search.\<close>

function memzone_reserve_aligned_thread_unsafe ::
  "string \<Rightarrow> u64 \<Rightarrow> int \<Rightarrow> u32 \<Rightarrow> u32 \<Rightarrow> u32 \<Rightarrow> mem_config \<Rightarrow> c_error + nat option \<times> mem_config" where
  "memzone_reserve_aligned_thread_unsafe name len socket_id flags align bound c =
     (if RTE_MAX_MEMZONE \<le> mc_memzone_idx c then Inr (None, c\<lparr>mc_errno := ENOSPC\<rparr>)
      else if rte_memzone_lookup name c \<noteq> None then Inr (None, c\<lparr>mc_errno := EEXIST\<rparr>)
      else if align \<noteq> 0 \<and> \<not> rte_is_power_of_2 align then Inr (None, c\<lparr>mc_errno := EINVAL\<rparr>)
      else let align = (if align < 64 then 64 else align) in
        if len > - 1 - RTE_CACHE_LINE_MASK then Inr (None, c\<lparr>mc_errno := EINVAL\<rparr>)
        else let len = (len + RTE_CACHE_LINE_MASK) AND NOT RTE_CACHE_LINE_MASK; requested_len = max 64 len in
          if bound \<noteq> 0 \<and> (requested_len > ucast bound \<or> \<not> rte_is_power_of_2 bound) then Inr (None, c\<lparr>mc_errno := EINVAL\<rparr>)
          else case find_memseg c len requested_len socket_id flags (ucast align) (ucast bound) 0 None of
                 None \<Rightarrow> Inl No_return
               | Some None \<Rightarrow>
                   if flags AND RTE_MEMZONE_SIZE_HINT_ONLY \<noteq> 0 \<and>
                      (flags AND RTE_MEMZONE_1GB \<noteq> 0 \<or> flags AND RTE_MEMZONE_2MB \<noteq> 0 \<or>
                       flags AND RTE_MEMZONE_16MB \<noteq> 0 \<or> flags AND RTE_MEMZONE_16GB \<noteq> 0)
                   then memzone_reserve_aligned_thread_unsafe name len socket_id 0 align bound c
                   else Inr (None, c\<lparr>mc_errno := ENOMEM\<rparr>)
               | Some (Some (idx, memseg_len, seg_offset)) \<Rightarrow>
                   (case take_memseg name len requested_len (ucast bound) idx memseg_len seg_offset c of
                      (mz, c) \<Rightarrow> Inr (Some mz, c)))"
  by pat_completeness auto
termination
proof (relation "measure (\<lambda>(name, len, socket_id, flags, align, bound, c). unat flags)", goal_cases)
  case (2 name len socket_id flags align bound c)
  then have "flags \<noteq> 0" by auto
  then show ?case by (simp add: unat_gt_0)
qed simp

declare memzone_reserve_aligned_thread_unsafe.simps [simp del]

definition both_sizes :: "u32 \<Rightarrow> bool" where
  "both_sizes flags \<longleftrightarrow> flags AND RTE_MEMZONE_1GB \<noteq> 0 \<and> flags AND RTE_MEMZONE_2MB \<noteq> 0 \<or>
     flags AND RTE_MEMZONE_16MB \<noteq> 0 \<and> flags AND RTE_MEMZONE_16GB \<noteq> 0"

definition rte_memzone_reserve_bounded ::
  "string \<Rightarrow> u64 \<Rightarrow> int \<Rightarrow> u32 \<Rightarrow> u32 \<Rightarrow> u32 \<Rightarrow> mem_config \<Rightarrow> c_error + nat option \<times> mem_config" where
  "rte_memzone_reserve_bounded name len socket_id flags align bound c =
     (if both_sizes flags then Inr (None, c\<lparr>mc_errno := EINVAL\<rparr>)
      else memzone_reserve_aligned_thread_unsafe name len socket_id flags align bound c)"

definition rte_memzone_reserve_aligned ::
  "string \<Rightarrow> u64 \<Rightarrow> int \<Rightarrow> u32 \<Rightarrow> u32 \<Rightarrow> mem_config \<Rightarrow> c_error + nat option \<times> mem_config" where
  "rte_memzone_reserve_aligned name len socket_id flags align c =
     (if both_sizes flags then Inr (None, c\<lparr>mc_errno := EINVAL\<rparr>)
      else memzone_reserve_aligned_thread_unsafe name len socket_id flags align 0 c)"

definition rte_memzone_reserve :: "string \<Rightarrow> u64 \<Rightarrow> int \<Rightarrow> u32 \<Rightarrow> mem_config \<Rightarrow> c_error + nat option \<times> mem_config" where
  "rte_memzone_reserve name len socket_id flags c = rte_memzone_reserve_aligned name len socket_id flags 64 c"

section \<open>Initialisation\<close>

text \<open>\<open>None\<close> is the result \<open>-1\<close>.\<close>

definition memseg_sanitize :: "rte_memseg \<Rightarrow> rte_memseg option" where
  "memseg_sanitize sg =
     (let phys_align = ucast (sg_phys_addr sg AND RTE_CACHE_LINE_MASK) :: u32;
          virt_align = ucast (sg_addr sg AND RTE_CACHE_LINE_MASK) :: u32
      in if phys_align \<noteq> virt_align then None
         else if sg_len sg < 2 * 64 then Some (sg\<lparr>sg_len := 0\<rparr>)
         else (let off = ucast ((64 - phys_align) AND ucast RTE_CACHE_LINE_MASK) :: u64
               in Some (sg\<lparr>sg_phys_addr := sg_phys_addr sg + off, sg_addr := sg_addr sg + off,
                           sg_len := (sg_len sg - off) AND NOT RTE_CACHE_LINE_MASK\<rparr>)))"

function fill_memsegs :: "nat \<Rightarrow> mem_config \<Rightarrow> mem_config" where
  "fill_memsegs i c =
     (if i < RTE_MAX_MEMSEG \<and> sg_addr (mc_memseg c i) \<noteq> 0
      then fill_memsegs (Suc i)
             (if sg_addr (mc_free_memseg c i) \<noteq> 0 then c
              else c\<lparr>mc_free_memseg := (mc_free_memseg c)(i := mc_memseg c i)\<rparr>)
      else c)"
  by pat_completeness auto
termination by (relation "measure (\<lambda>(i, c). RTE_MAX_MEMSEG - i)") auto

function sanitize_memsegs :: "nat \<Rightarrow> mem_config \<Rightarrow> int \<times> mem_config" where
  "sanitize_memsegs i c =
     (if i < RTE_MAX_MEMSEG \<and> sg_addr (mc_free_memseg c i) \<noteq> 0
      then (case memseg_sanitize (mc_free_memseg c i) of
              None \<Rightarrow> (- 1, c)
            | Some sg \<Rightarrow> sanitize_memsegs (Suc i) (c\<lparr>mc_free_memseg := (mc_free_memseg c)(i := sg)\<rparr>))
      else (0, c))"
  by pat_completeness auto
termination by (relation "measure (\<lambda>(i, c). RTE_MAX_MEMSEG - i)") auto

declare fill_memsegs.simps [simp del] sanitize_memsegs.simps [simp del]

definition zero_memzone :: rte_memzone where
  "zero_memzone = \<lparr>zn_name = '''', zn_phys_addr = 0, zn_addr = 0, zn_len = 0, zn_hugepage_sz = 0, zn_socket_id = 0, zn_flags = 0, zn_memseg_id = 0\<rparr>"

text \<open>The calling process: a secondary one initialises nothing.\<close>

definition rte_eal_memzone_init :: "bool \<Rightarrow> mem_config \<Rightarrow> int \<times> mem_config" where
  "rte_eal_memzone_init secondary c =
     (if secondary then (0, c)
      else case sanitize_memsegs 0 (fill_memsegs 0 c) of
             (r, c) \<Rightarrow> if r < 0 then (- 1, c) else (0, c\<lparr>mc_memzone_idx := 0, mc_memzone := (\<lambda>_. zero_memzone)\<rparr>))"

definition rte_memzone_walk :: "(rte_memzone \<Rightarrow> 'a \<Rightarrow> 'a) \<Rightarrow> mem_config \<Rightarrow> 'a \<Rightarrow> 'a" where
  "rte_memzone_walk func c =
     fold (\<lambda>i x. if zn_addr (mc_memzone c i) \<noteq> 0 then func (mc_memzone c i) x else x) [0..<RTE_MAX_MEMZONE]"

end
