(* ===== verification/Malloc.thy ===== *)
theory Malloc
  imports Memzone
begin

text \<open>
  The heap on huge pages, \<open>dpdk-2.0.0/lib/librte_malloc\<close> (\<open>malloc_elem.c\<close>, \<open>malloc_heap.c\<close>, \<open>rte_malloc.c\<close>): memory zones are divided into elements, each
  with a header in front of its data; free elements are kept in lists by size. A header is found by its
  address, 0 is NULL. The list macros of \<open>sys/queue.h\<close> are lists of addresses; removing an element that is in no list of
  its heap follows null links. Headers and the bytes of the users are two parts of the state. The debug cookies
  are compiled out, so the trailer is empty.
\<close>

section \<open>The structures\<close>

definition RTE_HEAP_NUM_FREELISTS :: nat where "RTE_HEAP_NUM_FREELISTS = 5"
definition RTE_MAX_NUMA_NODES :: int where "RTE_MAX_NUMA_NODES = 8"
definition MALLOC_ELEM_HEADER_LEN :: u32 where "MALLOC_ELEM_HEADER_LEN = 64"
definition MALLOC_ELEM_TRAILER_LEN :: u32 where "MALLOC_ELEM_TRAILER_LEN = 0"
definition MALLOC_ELEM_OVERHEAD :: u32 where "MALLOC_ELEM_OVERHEAD = MALLOC_ELEM_HEADER_LEN + MALLOC_ELEM_TRAILER_LEN"
definition MIN_DATA_SIZE :: u32 where "MIN_DATA_SIZE = 64"

definition RTE_CACHE_LINE_ROUNDUP :: "'a::len word \<Rightarrow> 'a word" where
  "RTE_CACHE_LINE_ROUNDUP sz = 64 * ((sz + 64 - 1) div 64)"

datatype elem_state = ELEM_FREE | ELEM_BUSY | ELEM_PAD

record malloc_elem =
  e_heap :: nat
  e_prev :: u64
  e_mz :: nat
  e_state :: elem_state
  e_pad :: u32
  e_size :: u64

record malloc_heap =
  h_lock :: bool
  h_free_head :: "nat \<Rightarrow> u64 list"
  h_mz_count :: u32
  h_alloc_count :: u32
  h_total_size :: u64

record malloc_world =
  mw_elem :: "u64 \<Rightarrow> malloc_elem"
  mw_heap :: "nat \<Rightarrow> malloc_heap"
  mw_cfg :: mem_config
  mw_byte :: "u64 \<Rightarrow> u8"

definition upd_elem :: "u64 \<Rightarrow> (malloc_elem \<Rightarrow> malloc_elem) \<Rightarrow> malloc_world \<Rightarrow> malloc_world" where
  "upd_elem a f w = w\<lparr>mw_elem := (mw_elem w)(a := f (mw_elem w a))\<rparr>"

definition upd_heap :: "nat \<Rightarrow> (malloc_heap \<Rightarrow> malloc_heap) \<Rightarrow> malloc_world \<Rightarrow> malloc_world" where
  "upd_heap h f w = w\<lparr>mw_heap := (mw_heap w)(h := f (mw_heap w h))\<rparr>"

definition heap_lock :: "nat \<Rightarrow> malloc_world \<Rightarrow> c_error + malloc_world" where
  "heap_lock h w = (if h_lock (mw_heap w h) then Inl No_return else Inr (upd_heap h (h_lock_update (\<lambda>_. True)) w))"

definition heap_unlock :: "nat \<Rightarrow> malloc_world \<Rightarrow> malloc_world" where
  "heap_unlock h = upd_heap h (h_lock_update (\<lambda>_. False))"

section \<open>Elements\<close>

definition malloc_elem_init :: "u64 \<Rightarrow> nat \<Rightarrow> nat \<Rightarrow> u64 \<Rightarrow> malloc_world \<Rightarrow> malloc_world" where
  "malloc_elem_init elem heap mz sz =
     upd_elem elem (\<lambda>_. \<lparr>e_heap = heap, e_prev = 0, e_mz = mz, e_state = ELEM_FREE, e_pad = 0, e_size = sz\<rparr>)"

definition malloc_elem_mkend :: "u64 \<Rightarrow> u64 \<Rightarrow> malloc_world \<Rightarrow> malloc_world" where
  "malloc_elem_mkend elem prev w =
     (let p = mw_elem w prev
      in upd_elem elem (\<lambda>e. e\<lparr>e_prev := prev, e_state := ELEM_BUSY\<rparr>) (malloc_elem_init elem (e_heap p) (e_mz p) 0 w))"

definition elem_start_pt :: "malloc_world \<Rightarrow> u64 \<Rightarrow> u64 \<Rightarrow> u32 \<Rightarrow> u64" where
  "elem_start_pt w elem sz align =
     (let end_pt = elem + e_size (mw_elem w elem) - ucast MALLOC_ELEM_TRAILER_LEN;
          new_data_start = RTE_ALIGN_FLOOR (end_pt - sz) (ucast align);
          new_elem_start = new_data_start - ucast MALLOC_ELEM_HEADER_LEN
      in if new_elem_start < elem then 0 else new_elem_start)"

definition malloc_elem_can_hold :: "malloc_world \<Rightarrow> u64 \<Rightarrow> u64 \<Rightarrow> u32 \<Rightarrow> bool" where
  "malloc_elem_can_hold w elem sz align \<longleftrightarrow> elem_start_pt w elem sz align \<noteq> 0"

definition split_elem :: "u64 \<Rightarrow> u64 \<Rightarrow> malloc_world \<Rightarrow> malloc_world" where
  "split_elem elem split_pt w =
     (let next_elem = elem + e_size (mw_elem w elem);
          old_elem_size = ucast (split_pt - elem) :: u32;
          new_elem_size = ucast (e_size (mw_elem w elem) - ucast old_elem_size) :: u32;
          w = malloc_elem_init split_pt (e_heap (mw_elem w elem)) (e_mz (mw_elem w elem)) (ucast new_elem_size) w;
          w = upd_elem split_pt (e_prev_update (\<lambda>_. elem)) w;
          w = upd_elem next_elem (e_prev_update (\<lambda>_. split_pt)) w
      in upd_elem elem (e_size_update (\<lambda>_. ucast old_elem_size)) w)"

text \<open>The number of bits of a value, 64 less \<open>__builtin_clzl\<close>.\<close>

function bit_width :: "u64 \<Rightarrow> nat" where
  "bit_width v = (if v = 0 then 0 else Suc (bit_width (drop_bit 1 v)))"
  by pat_completeness auto
termination
proof (relation "measure unat", goal_cases)
  case (2 v)
  then have "0 < unat v" by (simp add: unat_gt_0)
  then show ?case by (simp add: unat_drop_bit_eq drop_bit_nat_def)
qed simp

declare bit_width.simps [simp del]

definition malloc_elem_free_list_index :: "u64 \<Rightarrow> nat" where
  "malloc_elem_free_list_index sz =
     (if sz \<le> 256 then 0
      else (let log2 = bit_width (sz - 1); index = (log2 - 8 + 2 - 1) div 2
            in if index \<le> RTE_HEAP_NUM_FREELISTS - 1 then index else RTE_HEAP_NUM_FREELISTS - 1))"

definition malloc_elem_free_list_insert :: "u64 \<Rightarrow> malloc_world \<Rightarrow> malloc_world" where
  "malloc_elem_free_list_insert elem w =
     (let idx = malloc_elem_free_list_index (e_size (mw_elem w elem) - ucast MALLOC_ELEM_HEADER_LEN);
          w = upd_elem elem (e_state_update (\<lambda>_. ELEM_FREE)) w
      in upd_heap (e_heap (mw_elem w elem)) (\<lambda>h. h\<lparr>h_free_head := (h_free_head h)(idx := elem # h_free_head h idx)\<rparr>) w)"

definition elem_free_list_remove :: "u64 \<Rightarrow> malloc_world \<Rightarrow> c_error + malloc_world" where
  "elem_free_list_remove elem w =
     (let h = e_heap (mw_elem w elem) in
      if \<exists>i \<in> set [0..<RTE_HEAP_NUM_FREELISTS]. elem \<in> set (h_free_head (mw_heap w h) i)
      then Inr (upd_heap h (\<lambda>x. x\<lparr>h_free_head := \<lambda>i. filter (\<lambda>a. a \<noteq> elem) (h_free_head x i)\<rparr>) w)
      else Inl Null_pointer)"

definition malloc_elem_alloc :: "u64 \<Rightarrow> u64 \<Rightarrow> u32 \<Rightarrow> malloc_world \<Rightarrow> c_error + u64 \<times> malloc_world" where
  "malloc_elem_alloc elem sz align w =
     (let new_elem = elem_start_pt w elem sz align;
          old_elem_size = ucast (new_elem - elem) :: u32
      in if old_elem_size < MALLOC_ELEM_OVERHEAD + MIN_DATA_SIZE
         then (let w = upd_elem elem (\<lambda>e. e\<lparr>e_state := ELEM_BUSY, e_pad := old_elem_size\<rparr>) w;
                   pad = e_pad (mw_elem w elem);
                   w = (if pad > 0
                        then upd_elem new_elem (\<lambda>e. e\<lparr>e_pad := pad, e_state := ELEM_PAD, e_size := e_size (mw_elem w elem) - ucast pad\<rparr>) w
                        else w)
               in bnd (elem_free_list_remove elem w) (\<lambda>w. Inr (new_elem, w)))
         else bnd (elem_free_list_remove elem w) (\<lambda>w.
                let w = split_elem elem new_elem w;
                    w = upd_elem new_elem (e_state_update (\<lambda>_. ELEM_BUSY)) w
                in Inr (new_elem, malloc_elem_free_list_insert elem w)))"

definition join_elem :: "u64 \<Rightarrow> u64 \<Rightarrow> malloc_world \<Rightarrow> malloc_world" where
  "join_elem elem1 elem2 w =
     (let next = elem2 + e_size (mw_elem w elem2);
          w = upd_elem elem1 (\<lambda>e. e\<lparr>e_size := e_size e + e_size (mw_elem w elem2)\<rparr>) w
      in upd_elem next (e_prev_update (\<lambda>_. elem1)) w)"

definition free_join_next :: "u64 \<Rightarrow> malloc_world \<Rightarrow> c_error + malloc_world" where
  "free_join_next elem w =
     (let next = elem + e_size (mw_elem w elem) in
      if e_state (mw_elem w next) = ELEM_FREE
      then bnd (elem_free_list_remove next w) (\<lambda>w. Inr (join_elem elem next w))
      else Inr w)"

definition free_join_prev :: "u64 \<Rightarrow> malloc_world \<Rightarrow> c_error + malloc_world" where
  "free_join_prev elem w =
     (let prev = e_prev (mw_elem w elem) in
      if prev \<noteq> 0 \<and> e_state (mw_elem w prev) = ELEM_FREE
      then bnd (elem_free_list_remove prev w) (\<lambda>w.
             let w = join_elem (e_prev (mw_elem w elem)) elem w
             in Inr (malloc_elem_free_list_insert (e_prev (mw_elem w elem)) w))
      else Inr (upd_elem elem (e_pad_update (\<lambda>_. 0)) (malloc_elem_free_list_insert elem w)))"

definition malloc_elem_free :: "u64 \<Rightarrow> malloc_world \<Rightarrow> c_error + int \<times> malloc_world" where
  "malloc_elem_free elem w =
     (if elem = 0 \<or> e_state (mw_elem w elem) \<noteq> ELEM_BUSY then Inr (- 1, w)
      else bnd (heap_lock (e_heap (mw_elem w elem)) w) (\<lambda>w.
           bnd (free_join_next elem w) (\<lambda>w.
           bnd (free_join_prev elem w) (\<lambda>w.
             let h = e_heap (mw_elem w elem)
             in Inr (0, heap_unlock h (upd_heap h (\<lambda>x. x\<lparr>h_alloc_count := h_alloc_count x - 1\<rparr>) w))))))"

definition malloc_elem_resize :: "u64 \<Rightarrow> u64 \<Rightarrow> malloc_world \<Rightarrow> c_error + int \<times> malloc_world" where
  "malloc_elem_resize elem sz w =
     (let new_size = sz + ucast MALLOC_ELEM_OVERHEAD;
          current_size = e_size (mw_elem w elem) - ucast (e_pad (mw_elem w elem));
          h = e_heap (mw_elem w elem)
      in if current_size \<ge> new_size then Inr (0, w)
         else (let next = elem + e_size (mw_elem w elem) in
           bnd (heap_lock h w) (\<lambda>w.
             if e_state (mw_elem w next) \<noteq> ELEM_FREE then Inr (- 1, heap_unlock h w)
             else if current_size + e_size (mw_elem w next) < new_size then Inr (- 1, heap_unlock h w)
             else bnd (elem_free_list_remove next w) (\<lambda>w.
                  let w = join_elem elem next w;
                      w = (if e_size (mw_elem w elem) - new_size \<ge> ucast (MIN_DATA_SIZE + MALLOC_ELEM_OVERHEAD)
                           then (let split_pt = RTE_ALIGN_CEIL (elem + new_size) 64
                                 in malloc_elem_free_list_insert split_pt (split_elem elem split_pt w))
                           else w)
                  in Inr (0, heap_unlock h w)))))"

section \<open>Heaps\<close>

text \<open>\<open>CONFIG_RTE_MALLOC_MEMZONE_SIZE\<close> is 11M.\<close>

definition get_malloc_memzone_size :: u64 where "get_malloc_memzone_size = 11 * 1024 * 1024"

text \<open>The requests to the zones, halved while they fail and stay above the minimum.\<close>

function reserve_zone :: "string \<Rightarrow> u64 \<Rightarrow> u64 \<Rightarrow> int \<Rightarrow> mem_config \<Rightarrow> c_error + (nat option \<times> u64) \<times> mem_config" where
  "reserve_zone name mz_size min_size socket c =
     (case rte_memzone_reserve name mz_size socket 0 c of
        Inl e \<Rightarrow> Inl e
      | Inr (Some mz, c) \<Rightarrow> Inr ((Some mz, mz_size), c)
      | Inr (None, c) \<Rightarrow>
          if mz_size div 2 > min_size then reserve_zone name (mz_size div 2) min_size socket c
          else Inr ((None, mz_size div 2), c))"
  by pat_completeness auto
termination
proof (relation "measure (\<lambda>(name, mz_size, min_size, socket, c). unat mz_size)", goal_cases)
  case (2 name mz_size min_size socket c)
  then have "0 < unat (mz_size div 2)" by (metis unat_gt_0 word_not_simps(1))
  then show ?case by (simp add: unat_div)
qed simp

declare reserve_zone.simps [simp del]

definition malloc_heap_add_memzone :: "nat \<Rightarrow> u64 \<Rightarrow> u32 \<Rightarrow> malloc_world \<Rightarrow> c_error + int \<times> malloc_world" where
  "malloc_heap_add_memzone heap sz align w =
     (let block_size = get_malloc_memzone_size;
          min_size = sz + ucast align + ucast (MALLOC_ELEM_OVERHEAD * 2);
          mz_size = (if min_size < block_size then block_size else min_size);
          mz_name = take (RTE_MEMZONE_NAMESIZE - 1)
            (''MALLOC_S'' @ dec heap @ ''_HEAP_'' @ dec (unat (h_mz_count (mw_heap w heap))));
          w = upd_heap heap (\<lambda>h. h\<lparr>h_mz_count := h_mz_count h + 1\<rparr>) w
      in bnd (reserve_zone mz_name mz_size min_size (int heap) (mw_cfg w)) (\<lambda>((mz, mz_size), c).
         let w = w\<lparr>mw_cfg := c\<rparr> in
         case mz of
           None \<Rightarrow> Inr (- 1, w)
         | Some mz \<Rightarrow>
             (let start_elem = zn_addr (mc_memzone c mz);
                  end_elem = RTE_ALIGN_FLOOR (start_elem + (mz_size - ucast MALLOC_ELEM_OVERHEAD)) 64;
                  elem_size = ucast (end_elem - start_elem) :: u32;
                  w = malloc_elem_init start_elem heap mz (ucast elem_size) w;
                  w = malloc_elem_mkend end_elem start_elem w;
                  w = malloc_elem_free_list_insert start_elem w
              in Inr (0, upd_heap heap (\<lambda>h. h\<lparr>h_total_size := h_total_size h + (mz_size - ucast MALLOC_ELEM_OVERHEAD)\<rparr>) w))))"

text \<open>The first element of the lists from the index on that can hold the data, 0 if there is none.\<close>

definition find_suitable_element :: "nat \<Rightarrow> u64 \<Rightarrow> u32 \<Rightarrow> malloc_world \<Rightarrow> u64" where
  "find_suitable_element heap sz align w =
     (case find (\<lambda>elem. malloc_elem_can_hold w elem sz align)
             (concat (map (h_free_head (mw_heap w heap)) [malloc_elem_free_list_index sz..<RTE_HEAP_NUM_FREELISTS])) of
        None \<Rightarrow> 0
      | Some elem \<Rightarrow> elem)"

definition malloc_heap_alloc :: "nat \<Rightarrow> u64 \<Rightarrow> u32 \<Rightarrow> malloc_world \<Rightarrow> c_error + u64 \<times> malloc_world" where
  "malloc_heap_alloc heap sz align w =
     (let sz = RTE_CACHE_LINE_ROUNDUP sz; align = RTE_CACHE_LINE_ROUNDUP align in
      bnd (heap_lock heap w) (\<lambda>w.
      bnd (let elem = find_suitable_element heap sz align w in
           if elem = 0
           then bnd (malloc_heap_add_memzone heap sz align w) (\<lambda>(r, w).
                  Inr (if r = 0 then find_suitable_element heap sz align w else 0, w))
           else Inr (elem, w)) (\<lambda>(elem, w).
      bnd (if elem \<noteq> 0
           then bnd (malloc_elem_alloc elem sz align w) (\<lambda>(elem, w).
                  Inr (elem, upd_heap heap (\<lambda>h. h\<lparr>h_alloc_count := h_alloc_count h + 1\<rparr>) w))
           else Inr (elem, w)) (\<lambda>(elem, w).
      Inr (if elem = 0 then 0 else elem + 64, heap_unlock heap w)))))"

record rte_malloc_socket_stats =
  st_heap_totalsz_bytes :: u64
  st_heap_freesz_bytes :: u64
  st_greatest_free_size :: u64
  st_free_count :: u32
  st_alloc_count :: u32
  st_heap_allocsz_bytes :: u64

definition malloc_heap_get_stats :: "nat \<Rightarrow> malloc_world \<Rightarrow> rte_malloc_socket_stats" where
  "malloc_heap_get_stats heap w =
     (let h = mw_heap w heap;
          (n, bytes, greatest) = foldl (\<lambda>(n, bytes, greatest) elem.
              let s = e_size (mw_elem w elem) in (n + 1, bytes + s, if s > greatest then s else greatest))
            (0, 0, 0) (concat (map (h_free_head h) [0..<RTE_HEAP_NUM_FREELISTS]))
      in \<lparr>st_heap_totalsz_bytes = h_total_size h, st_heap_freesz_bytes = bytes, st_greatest_free_size = greatest,
          st_free_count = n, st_alloc_count = h_alloc_count h, st_heap_allocsz_bytes = h_total_size h - bytes\<rparr>)"

section \<open>The interface\<close>

definition malloc_elem_from_data :: "u64 \<Rightarrow> malloc_world \<Rightarrow> u64" where
  "malloc_elem_from_data data w =
     (if data = 0 then 0
      else let elem = data - ucast MALLOC_ELEM_HEADER_LEN in
        if elem = 0 then 0
        else if e_state (mw_elem w elem) \<noteq> ELEM_PAD then elem else elem - ucast (e_pad (mw_elem w elem)))"

definition rte_free :: "u64 \<Rightarrow> malloc_world \<Rightarrow> c_error + malloc_world" where
  "rte_free addr w =
     (if addr = 0 then Inr w
      else bnd (malloc_elem_free (malloc_elem_from_data addr w) w) (\<lambda>(r, w).
             if r < 0 then Inl (Panic ''Fatal error: Invalid memory'') else Inr w))"

text \<open>\<open>rte_socket_id\<close> is the socket of the calling thread.\<close>

definition malloc_get_numa_socket :: "u32 \<Rightarrow> u32" where
  "malloc_get_numa_socket socket_id = (if socket_id = - 1 then 0 else socket_id)"

fun try_heaps :: "int \<Rightarrow> u64 \<Rightarrow> u32 \<Rightarrow> nat list \<Rightarrow> malloc_world \<Rightarrow> c_error + u64 \<times> malloc_world" where
  "try_heaps socket sz align [] w = Inr (0, w)"
| "try_heaps socket sz align (i # is) w =
     (if int i = socket then try_heaps socket sz align is w
      else bnd (malloc_heap_alloc i sz align w) (\<lambda>(ret, w).
             if ret \<noteq> 0 then Inr (ret, w) else try_heaps socket sz align is w))"

text \<open>A negative socket other than \<open>SOCKET_ID_ANY\<close> selects a heap in front of the table.\<close>

definition rte_malloc_socket :: "u32 \<Rightarrow> u64 \<Rightarrow> u32 \<Rightarrow> int \<Rightarrow> malloc_world \<Rightarrow> c_error + u64 \<times> malloc_world" where
  "rte_malloc_socket here sz align socket_arg w =
     (if sz = 0 \<or> align \<noteq> 0 \<and> \<not> rte_is_power_of_2 align then Inr (0, w)
      else let socket = (if socket_arg = SOCKET_ID_ANY then sint (malloc_get_numa_socket here) else socket_arg);
               align = (if align = 0 then 1 else align)
        in if socket \<ge> RTE_MAX_NUMA_NODES then Inr (0, w)
           else if socket < 0 then Inl (Heap_overflow (nat (- socket)) 8)
           else bnd (malloc_heap_alloc (nat socket) sz align w) (\<lambda>(ret, w).
                  if ret \<noteq> 0 \<or> socket_arg \<noteq> SOCKET_ID_ANY then Inr (ret, w)
                  else try_heaps socket sz align [0..<8] w))"

definition rte_malloc :: "u32 \<Rightarrow> u64 \<Rightarrow> u32 \<Rightarrow> malloc_world \<Rightarrow> c_error + u64 \<times> malloc_world" where
  "rte_malloc here sz align = rte_malloc_socket here sz align SOCKET_ID_ANY"

definition set_bytes :: "u64 \<Rightarrow> nat \<Rightarrow> (nat \<Rightarrow> u8) \<Rightarrow> malloc_world \<Rightarrow> malloc_world" where
  "set_bytes p n f w = w\<lparr>mw_byte := \<lambda>a. if unat (a - p) < n then f (unat (a - p)) else mw_byte w a\<rparr>"

definition rte_zmalloc_socket :: "u32 \<Rightarrow> u64 \<Rightarrow> u32 \<Rightarrow> int \<Rightarrow> malloc_world \<Rightarrow> c_error + u64 \<times> malloc_world" where
  "rte_zmalloc_socket here sz align socket w =
     bnd (rte_malloc_socket here sz align socket w) (\<lambda>(ptr, w).
       Inr (ptr, if ptr \<noteq> 0 then set_bytes ptr (unat sz) (\<lambda>_. 0) w else w))"

definition rte_zmalloc :: "u32 \<Rightarrow> u64 \<Rightarrow> u32 \<Rightarrow> malloc_world \<Rightarrow> c_error + u64 \<times> malloc_world" where
  "rte_zmalloc here sz align = rte_zmalloc_socket here sz align SOCKET_ID_ANY"

definition rte_calloc_socket :: "u32 \<Rightarrow> u64 \<Rightarrow> u64 \<Rightarrow> u32 \<Rightarrow> int \<Rightarrow> malloc_world \<Rightarrow> c_error + u64 \<times> malloc_world" where
  "rte_calloc_socket here num sz align socket = rte_zmalloc_socket here (num * sz) align socket"

definition rte_calloc :: "u32 \<Rightarrow> u64 \<Rightarrow> u64 \<Rightarrow> u32 \<Rightarrow> malloc_world \<Rightarrow> c_error + u64 \<times> malloc_world" where
  "rte_calloc here num sz align = rte_zmalloc here (num * sz) align"

text \<open>\<open>RTE_PTR_ALIGN\<close> with an alignment of 32 bits: \<open>align - 1\<close> is computed at 32 bits.\<close>

definition RTE_PTR_ALIGN :: "u64 \<Rightarrow> u32 \<Rightarrow> u64" where
  "RTE_PTR_ALIGN ptr align = (ptr + ucast (align - 1)) AND NOT (ucast (align - 1))"

definition rte_realloc :: "u32 \<Rightarrow> u64 \<Rightarrow> u64 \<Rightarrow> u32 \<Rightarrow> malloc_world \<Rightarrow> c_error + u64 \<times> malloc_world" where
  "rte_realloc here ptr sz align w =
     (if ptr = 0 then rte_malloc here sz align w
      else let elem = malloc_elem_from_data ptr w in
        if elem = 0 then Inl (Panic ''Fatal error: memory corruption detected'')
        else let sz = RTE_CACHE_LINE_ROUNDUP sz; align = RTE_CACHE_LINE_ROUNDUP align in
          bnd (if RTE_PTR_ALIGN ptr align = ptr then malloc_elem_resize elem sz w else Inr (- 1, w)) (\<lambda>(r, w).
            if r = 0 then Inr (ptr, w)
            else bnd (rte_malloc here sz align w) (\<lambda>(new_ptr, w).
              if new_ptr = 0 then Inr (0, w)
              else let old_size = ucast (e_size (mw_elem w elem) - ucast MALLOC_ELEM_OVERHEAD) :: u32;
                       n = (if (ucast old_size :: u64) < sz then ucast old_size else sz);
                       w = set_bytes new_ptr (unat n) (\<lambda>i. mw_byte w (ptr + of_nat i)) w
                in bnd (rte_free ptr w) (\<lambda>w. Inr (new_ptr, w)))))"

text \<open>\<open>None\<close> is the result \<open>-1\<close>.\<close>

definition rte_malloc_validate :: "u64 \<Rightarrow> malloc_world \<Rightarrow> u64 option" where
  "rte_malloc_validate ptr w =
     (let elem = malloc_elem_from_data ptr w in
      if elem = 0 then None
      else Some (e_size (mw_elem w elem) - ucast (e_pad (mw_elem w elem)) - ucast MALLOC_ELEM_OVERHEAD))"

definition rte_malloc_get_socket_stats :: "int \<Rightarrow> malloc_world \<Rightarrow> rte_malloc_socket_stats option" where
  "rte_malloc_get_socket_stats socket w =
     (if socket \<ge> RTE_MAX_NUMA_NODES \<or> socket < 0 then None else Some (malloc_heap_get_stats (nat socket) w))"

definition rte_malloc_set_limit :: "string \<Rightarrow> u64 \<Rightarrow> int" where
  "rte_malloc_set_limit type max_size = 0"

definition rte_malloc_virt2phy :: "u64 \<Rightarrow> malloc_world \<Rightarrow> u64" where
  "rte_malloc_virt2phy addr w =
     (let elem = malloc_elem_from_data addr w in
      if elem = 0 then 0
      else let mz = mc_memzone (mw_cfg w) (e_mz (mw_elem w elem)) in zn_phys_addr mz + (addr - zn_addr mz))"

end
