(* ===== verification/Memzone_Spec.thy ===== *)
theory Memzone_Spec
  imports Memzone Ring_Queue
begin

text \<open>
  Memory zones are pieces of memory of their own: whatever is reserved is aligned, as long as asked for and overlaps no zone
  reserved before. The locale \<open>zone_supply\<close> states this for the clients, the heap among them.
\<close>

section \<open>Alignment to powers of two\<close>

lemma unat_2p64: "k < 64 \<Longrightarrow> unat ((2 :: u64) ^ k) = 2 ^ k"
proof -
  assume "k < 64"
  then have "(2::nat) ^ k < 2 ^ LENGTH(64)" by (intro power_strict_increasing) simp_all
  then have "unat (word_of_nat (2 ^ k) :: u64) = 2 ^ k" by (simp only: unat_of_nat mod_less)
  then show ?thesis by simp
qed

lemma unat_plus64: "unat a + unat b < 2 ^ 64 \<Longrightarrow> unat (a + b :: u64) = unat a + unat b"
  by (simp add: unat_word_ariths)

lemma unat_less_2p64 [simp]: "unat (x :: u64) < 18446744073709551616"
  using unsigned_less [of x, where ?'a = nat] by simp

lemma unat_align_floor: "k < 64 \<Longrightarrow> unat (RTE_ALIGN_FLOOR v (2 ^ k) :: u64) = unat v - unat v mod 2 ^ k"
proof -
  assume k: "k < 64"
  have "RTE_ALIGN_FLOOR v (2 ^ k) = v - (v AND mask k)"
    using and_not_add_and [of v "mask k"] by (simp add: RTE_ALIGN_FLOOR_def mask_eq_decr_exp algebra_simps)
  moreover have "v AND mask k \<le> v" by (rule word_and_le2)
  moreover have "unat (v AND mask k) = unat v mod 2 ^ k"
    by (simp add: take_bit_eq_mask [symmetric] unsigned_take_bit_eq flip: take_bit_eq_mod)
  ultimately show ?thesis by (simp add: unat_sub_le)
qed

lemma align_floor:
  assumes "k < 64"
  shows "2 ^ k dvd unat (RTE_ALIGN_FLOOR v (2 ^ k) :: u64)" "unat (RTE_ALIGN_FLOOR v (2 ^ k)) \<le> unat v"
    "unat v < unat (RTE_ALIGN_FLOOR v (2 ^ k)) + 2 ^ k"
proof -
  note f = unat_align_floor [OF assms, of v]
  have m: "unat v mod 2 ^ k < 2 ^ k" "unat v mod 2 ^ k \<le> unat v" by simp_all
  show "2 ^ k dvd unat (RTE_ALIGN_FLOOR v (2 ^ k))" unfolding f by (rule dvd_minus_mod)
  show "unat (RTE_ALIGN_FLOOR v (2 ^ k)) \<le> unat v" "unat v < unat (RTE_ALIGN_FLOOR v (2 ^ k)) + 2 ^ k" using f m by linarith+
qed

lemma align_ceil:
  assumes "k < 64" and "unat v + 2 ^ k \<le> 2 ^ 64"
  shows "2 ^ k dvd unat (RTE_ALIGN_CEIL v (2 ^ k) :: u64)" "unat v \<le> unat (RTE_ALIGN_CEIL v (2 ^ k))"
    "unat (RTE_ALIGN_CEIL v (2 ^ k)) < unat v + 2 ^ k"
proof -
  have one: "unat ((2 :: u64) ^ k - 1) = 2 ^ k - 1"
    using unat_2p64 [OF assms(1)] by (metis unat_minus_one unat_0 power_eq_0_iff zero_neq_numeral)
  then have "unat (v + (2 ^ k - 1)) = unat v + (2 ^ k - 1)" using assms by (subst unat_plus64) auto
  with align_floor [OF assms(1), of "v + (2 ^ k - 1)"] have
    "2 ^ k dvd unat (RTE_ALIGN_CEIL v (2 ^ k))" "unat (RTE_ALIGN_CEIL v (2 ^ k)) \<le> unat v + (2 ^ k - 1)"
    "unat v + (2 ^ k - 1) < unat (RTE_ALIGN_CEIL v (2 ^ k)) + 2 ^ k"
    by (simp_all add: RTE_ALIGN_CEIL_def)
  moreover have "(0::nat) < 2 ^ k" by simp
  ultimately show "2 ^ k dvd unat (RTE_ALIGN_CEIL v (2 ^ k) :: u64)" "unat v \<le> unat (RTE_ALIGN_CEIL v (2 ^ k))"
    "unat (RTE_ALIGN_CEIL v (2 ^ k)) < unat v + 2 ^ k" by linarith+
qed

lemma power_of_2_cases:
  assumes "rte_is_power_of_2 n"
  obtains k where "k < 32" and "n = 2 ^ k" and "unat n = 2 ^ k" and "(ucast n :: u64) = 2 ^ k"
proof -
  have "pow2_size n" using assms POWEROF2_iff [of n] by (simp add: rte_is_power_of_2_def POWEROF2_def and.commute)
  then obtain k where k: "k < 32" "n = 2 ^ k" "unat n = 2 ^ k" by (rule pow2_sizeE)
  then have "unat (ucast n :: u64) = unat ((2 :: u64) ^ k)" using unat_2p64 [of k] by simp
  then have "(ucast n :: u64) = 2 ^ k" by (simp only: word_unat_eq_iff)
  with k show thesis by (rule that)
qed

section \<open>The invariant\<close>

definition span :: "u64 \<Rightarrow> u64 \<Rightarrow> nat set" where
  "span a len = {unat a..<unat a + unat len}"

definition zone_area :: "mem_config \<Rightarrow> nat \<Rightarrow> nat set" where
  "zone_area c i = span (zn_addr (mc_memzone c i)) (zn_len (mc_memzone c i))"

definition seg_area :: "mem_config \<Rightarrow> nat \<Rightarrow> nat set" where
  "seg_area c i = span (sg_addr (mc_free_memseg c i)) (sg_len (mc_free_memseg c i))"

text \<open>The segments before the first with a null address.\<close>

definition live_seg :: "mem_config \<Rightarrow> nat \<Rightarrow> bool" where
  "live_seg c i \<longleftrightarrow> i < RTE_MAX_MEMSEG \<and> (\<forall>j\<le>i. sg_addr (mc_free_memseg c j) \<noteq> 0)"

text \<open>Lines are aligned; virtual addresses do not wrap around and lie above the first 8 GB, far below which the kernel maps no
  huge pages; physical addresses leave room for an alignment of 32 bits.\<close>

definition seg_ok :: "rte_memseg \<Rightarrow> bool" where
  "seg_ok sg \<longleftrightarrow> 2 ^ 33 \<le> unat (sg_addr sg) \<and> 64 dvd unat (sg_addr sg) \<and> 64 dvd unat (sg_phys_addr sg) \<and> 64 dvd unat (sg_len sg) \<and>
     unat (sg_addr sg) + unat (sg_len sg) < 2 ^ 64 \<and> unat (sg_phys_addr sg) + unat (sg_len sg) + 2 ^ 32 \<le> 2 ^ 64"

definition zone_ok :: "rte_memzone \<Rightarrow> bool" where
  "zone_ok z \<longleftrightarrow> zn_addr z \<noteq> 0 \<and> 2 ^ 33 \<le> unat (zn_addr z) \<and> 64 dvd unat (zn_addr z) \<and> unat (zn_addr z) + unat (zn_len z) < 2 ^ 64"

definition memzone_ok :: "mem_config \<Rightarrow> bool" where
  "memzone_ok c \<longleftrightarrow> mc_memzone_idx c \<le> RTE_MAX_MEMZONE \<and> (\<forall>i. mc_memzone_idx c \<le> i \<longrightarrow> zn_addr (mc_memzone c i) = 0) \<and>
     (\<forall>i<mc_memzone_idx c. zone_ok (mc_memzone c i)) \<and> (\<forall>i. live_seg c i \<longrightarrow> sg_len (mc_free_memseg c i) \<noteq> 0 \<longrightarrow> seg_ok (mc_free_memseg c i)) \<and>
     (\<forall>i<mc_memzone_idx c. \<forall>j<mc_memzone_idx c. i \<noteq> j \<longrightarrow> zone_area c i \<inter> zone_area c j = {}) \<and>
     (\<forall>i j. live_seg c i \<longrightarrow> live_seg c j \<longrightarrow> i \<noteq> j \<longrightarrow> seg_area c i \<inter> seg_area c j = {}) \<and>
     (\<forall>i<mc_memzone_idx c. \<forall>j. live_seg c j \<longrightarrow> zone_area c i \<inter> seg_area c j = {})"

lemma memzone_okD:
  assumes "memzone_ok c"
  shows "mc_memzone_idx c \<le> RTE_MAX_MEMZONE" "mc_memzone_idx c \<le> i \<Longrightarrow> zn_addr (mc_memzone c i) = 0"
    "i < mc_memzone_idx c \<Longrightarrow> zone_ok (mc_memzone c i)" "live_seg c i \<Longrightarrow> sg_len (mc_free_memseg c i) \<noteq> 0 \<Longrightarrow> seg_ok (mc_free_memseg c i)"
    "i < mc_memzone_idx c \<Longrightarrow> j < mc_memzone_idx c \<Longrightarrow> i \<noteq> j \<Longrightarrow> zone_area c i \<inter> zone_area c j = {}"
    "live_seg c i \<Longrightarrow> live_seg c j \<Longrightarrow> i \<noteq> j \<Longrightarrow> seg_area c i \<inter> seg_area c j = {}"
    "i < mc_memzone_idx c \<Longrightarrow> live_seg c j \<Longrightarrow> zone_area c i \<inter> seg_area c j = {}"
  using assms by (simp_all add: memzone_ok_def)

lemma memzone_ok_errno [simp]: "memzone_ok (c\<lparr>mc_errno := e\<rparr>) = memzone_ok c"
  by (simp add: memzone_ok_def zone_area_def seg_area_def live_seg_def)

section \<open>The search for a segment\<close>

text \<open>Without a boundary the offset is the distance to the alignment.\<close>

lemma align_phys_no_bound:
  "align_phys_boundary sg len align 0 = Some (RTE_ALIGN_CEIL (sg_phys_addr sg) align - sg_phys_addr sg)"
  unfolding align_phys_boundary_def by (subst boundary_loop.simps) (simp add: Let_def)

definition fits :: "mem_config \<Rightarrow> u64 \<Rightarrow> int \<Rightarrow> u64 \<Rightarrow> nat \<times> u64 \<times> u64 \<Rightarrow> bool" where
  "fits c req socket_id align b \<longleftrightarrow> (case b of (i, seg_len, off) \<Rightarrow>
     live_seg c i \<and> seg_len = sg_len (mc_free_memseg c i) \<and> req + off \<le> seg_len \<and> seg_len \<noteq> 0 \<and>
     off = RTE_ALIGN_CEIL (sg_phys_addr (mc_free_memseg c i)) align - sg_phys_addr (mc_free_memseg c i) \<and>
     (socket_id = SOCKET_ID_ANY \<or> sg_socket_id (mc_free_memseg c i) = SOCKET_ID_ANY \<or> sg_socket_id (mc_free_memseg c i) = socket_id))"

lemma find_memseg_fits:
  assumes "\<forall>j<i. sg_addr (mc_free_memseg c j) \<noteq> 0" and "\<forall>b. best = Some b \<longrightarrow> fits c req socket_id align b"
  shows "\<exists>r. find_memseg c len req socket_id flags align 0 i best = Some r \<and> (\<forall>b. r = Some b \<longrightarrow> fits c req socket_id align b)"
  using assms
proof (induction "RTE_MAX_MEMSEG - i" arbitrary: i best rule: less_induct)
  case less
  show ?case
  proof (cases "i < RTE_MAX_MEMSEG \<and> sg_addr (mc_free_memseg c i) \<noteq> 0")
    case True
    let ?sg = "mc_free_memseg c i" and ?next = "find_memseg c len req socket_id flags align 0 (Suc i)"
    let ?off = "RTE_ALIGN_CEIL (sg_phys_addr ?sg) align - sg_phys_addr ?sg"
    have nz: "\<forall>j<Suc i. sg_addr (mc_free_memseg c j) \<noteq> 0" using less.prems(1) True by (auto simp: less_Suc_eq)
    have IH: "\<exists>r. ?next best' = Some r \<and> (\<forall>b. r = Some b \<longrightarrow> fits c req socket_id align b)"
      if "\<forall>b. best' = Some b \<longrightarrow> fits c req socket_id align b" for best'
      by (rule less.hyps [OF _ nz that]) (use True in arith)
    show ?thesis
    proof (cases "sg_len ?sg = 0 \<or> socket_id \<noteq> SOCKET_ID_ANY \<and> sg_socket_id ?sg \<noteq> SOCKET_ID_ANY \<and> socket_id \<noteq> sg_socket_id ?sg \<or>
        req + ?off > sg_len ?sg \<or> wrong_page_size flags (sg_hugepage_sz ?sg)")
      case skip: True
      then have "find_memseg c len req socket_id flags align 0 i best = ?next best"
        using True by (subst find_memseg.simps) (auto simp: Let_def align_phys_no_bound)
      then show ?thesis using IH [OF less.prems(2)] by simp
    next
      case False
      then have "find_memseg c len req socket_id flags align 0 i best = ?next (better len align i (sg_len ?sg) ?off best)"
        using True by (subst find_memseg.simps) (auto simp: Let_def align_phys_no_bound)
      moreover have "live_seg c i" using True less.prems(1) by (auto simp: live_seg_def le_less)
      then have "fits c req socket_id align (i, sg_len ?sg, ?off)" using False by (auto simp: fits_def not_less)
      then have "\<forall>b. better len align i (sg_len ?sg) ?off best = Some b \<longrightarrow> fits c req socket_id align b"
        using less.prems(2) by (auto simp: better_def split: option.splits if_splits)
      ultimately show ?thesis using IH by simp
    qed
  next
    case False
    then have "find_memseg c len req socket_id flags align 0 i best = Some best" by (subst find_memseg.simps) auto
    then show ?thesis using less.prems(2) by simp
  qed
qed

section \<open>Reservation\<close>

text \<open>What is cut off the front of a segment that fits.\<close>

lemma take_memseg_ok:
  assumes ok: "memzone_ok c" and fit: "fits c req socket_id (2 ^ k) (idx, seg_len, off)" and k: "6 \<le> k" "k < 32"
    and len: "len \<noteq> 0" "64 dvd unat req" "unat req \<le> 2 ^ 63" "req \<noteq> 0" and room: "mc_memzone_idx c < RTE_MAX_MEMZONE"
    and t: "take_memseg name len req 0 idx seg_len off c = (mz, c')"
  shows "memzone_ok c'" "mz = mc_memzone_idx c" "mc_memzone_idx c' = Suc mz" "\<And>j. j \<noteq> mz \<Longrightarrow> mc_memzone c' j = mc_memzone c j"
    "zn_len (mc_memzone c' mz) = req" "2 ^ k dvd unat (zn_phys_addr (mc_memzone c' mz))" "zn_name (mc_memzone c' mz) = take 31 name"
    "zone_area c' mz \<subseteq> seg_area c idx" "live_seg c idx"
    "socket_id = SOCKET_ID_ANY \<or> zn_socket_id (mc_memzone c' mz) = SOCKET_ID_ANY \<or> zn_socket_id (mc_memzone c' mz) = socket_id"
proof -
  let ?sg = "mc_free_memseg c idx" and ?n = "mc_memzone_idx c"
  note D = memzone_okD [OF ok]
  have f: "live_seg c idx" "seg_len = sg_len ?sg" "req + off \<le> seg_len"
    "off = RTE_ALIGN_CEIL (sg_phys_addr ?sg) (2 ^ k) - sg_phys_addr ?sg"
    "socket_id = SOCKET_ID_ANY \<or> sg_socket_id ?sg = SOCKET_ID_ANY \<or> sg_socket_id ?sg = socket_id"
    using fit unfolding fits_def prod.case by blast+
  have ne: "sg_len ?sg \<noteq> 0" using fit unfolding fits_def prod.case by blast
  have sg: "64 dvd unat (sg_addr ?sg)" "64 dvd unat (sg_phys_addr ?sg)" "64 dvd unat (sg_len ?sg)"
      "unat (sg_addr ?sg) + unat (sg_len ?sg) < 2 ^ 64" "unat (sg_phys_addr ?sg) + unat (sg_len ?sg) + 2 ^ 32 \<le> 2 ^ 64" "2 ^ 33 \<le> unat (sg_addr ?sg)"
    using D(4) [OF f(1) ne] by (simp_all add: seg_ok_def)
  have k2: "(2::nat) ^ k < 2 ^ 32" using k(2) by (intro power_strict_increasing) simp_all
  have ce: "2 ^ k dvd unat (RTE_ALIGN_CEIL (sg_phys_addr ?sg) (2 ^ k))" "sg_phys_addr ?sg \<le> RTE_ALIGN_CEIL (sg_phys_addr ?sg) (2 ^ k)"
      "unat (RTE_ALIGN_CEIL (sg_phys_addr ?sg) (2 ^ k)) < unat (sg_phys_addr ?sg) + 2 ^ k"
    using align_ceil [of k "sg_phys_addr ?sg"] k k2 sg(5) by (auto simp: word_le_nat_alt)
  have off: "unat off < 2 ^ 32" using ce(2,3) k2 by (simp add: f(4) unat_sub_le)
  have ro: "unat (off + req) = unat off + unat req" using off len(3) by (intro unat_plus64) simp
  have fitn: "unat off + unat req \<le> unat (sg_len ?sg)" using f(2,3) ro by (simp add: word_le_nat_alt add.commute)
  have "(2::nat) ^ 6 dvd 2 ^ k" using k(1) by (rule le_imp_power_dvd)
  then have "64 dvd unat (RTE_ALIGN_CEIL (sg_phys_addr ?sg) (2 ^ k))" using ce(1) dvd_trans by fastforce
  then have o64: "64 dvd unat off" using sg(2) ce(2) by (simp add: f(4) unat_sub_le)
  let ?a = "unat (sg_addr ?sg)" and ?l = "unat (sg_len ?sg)"
  let ?sg' = "?sg\<lparr>sg_len := sg_len ?sg - (off + req), sg_phys_addr := sg_phys_addr ?sg + (off + req), sg_addr := sg_addr ?sg + (off + req)\<rparr>"
  define z where "z = \<lparr>zn_name = take 31 name, zn_phys_addr = sg_phys_addr ?sg + off, zn_addr = sg_addr ?sg + off, zn_len = req,
      zn_hugepage_sz = sg_hugepage_sz ?sg, zn_socket_id = sg_socket_id ?sg, zn_flags = 0, zn_memseg_id = idx\<rparr>"
  have c': "mz = ?n" "c' = c\<lparr>mc_free_memseg := (mc_free_memseg c)(idx := ?sg'), mc_memzone := (mc_memzone c)(?n := z), mc_memzone_idx := Suc ?n\<rparr>"
    using t len(1) by (auto simp: take_memseg_def Let_def z_def RTE_MEMZONE_NAMESIZE_def)
  have un: "unat (sg_addr ?sg + off) = ?a + unat off" "unat (sg_addr ?sg + (off + req)) = ?a + unat off + unat req"
      "unat (sg_len ?sg - (off + req)) = ?l - (unat off + unat req)" "unat (sg_phys_addr ?sg + (off + req)) = unat (sg_phys_addr ?sg) + (unat off + unat req)"
    using fitn sg(4,5) ro by (simp_all add: unat_plus64 unat_sub_le word_le_nat_alt)
  have pos: "0 < ?a" using f(1) by (auto simp: live_seg_def unat_gt_0)
  have zarea: "zone_area c' ?n = {?a + unat off..<?a + unat off + unat req}" by (simp add: c' zone_area_def span_def z_def un)
  have sarea: "seg_area c' idx = {?a + unat off + unat req..<?a + ?l}" "seg_area c idx = {?a..<?a + ?l}"
    using fitn by (simp_all add: c' seg_area_def span_def un)
  have zoth: "zone_area c' j = zone_area c j" if "j \<noteq> ?n" for j using that by (simp add: c' zone_area_def)
  have soth: "seg_area c' j = seg_area c j" if "j \<noteq> idx" for j using that by (simp add: c' seg_area_def)
  have sub: "seg_area c' j \<subseteq> seg_area c j" for j using soth sarea by (cases "j = idx") auto
  have zsub: "zone_area c' ?n \<subseteq> seg_area c idx" using fitn by (auto simp: zarea sarea)
  have live: "live_seg c' j \<longleftrightarrow> live_seg c j" for j
  proof -
    have "sg_addr (mc_free_memseg c' i) = 0 \<longleftrightarrow> sg_addr (mc_free_memseg c i) = 0" for i
      using un(2) pos by (cases "i = idx") (auto simp: c' unat_eq_zero [symmetric])
    then show ?thesis by (simp add: live_seg_def)
  qed
  have zok: "zone_ok z"
    using pos sg(1,4,6) o64 fitn len by (auto simp: zone_ok_def z_def un simp flip: unat_eq_zero)
  have sok: "seg_ok ?sg'" using sg o64 len(2) fitn by (simp add: seg_ok_def un dvd_add)
  have zz: "zone_area c' i \<inter> zone_area c' j = {}" if "i < Suc ?n" "j < Suc ?n" "i \<noteq> j" for i j
  proof -
    have new: "zone_area c' ?n \<inter> zone_area c i = {}" if "i < ?n" for i using D(7) [OF that f(1)] zsub by auto
    show ?thesis using that new [of i] new [of j] D(5) [of i j] by (cases "i = ?n"; cases "j = ?n") (auto simp: zoth)
  qed
  have zs: "zone_area c' i \<inter> seg_area c' j = {}" if "i < Suc ?n" "live_seg c j" for i j
  proof (cases "i = ?n")
    case True
    show ?thesis
    proof (cases "j = idx")
      case True
      then show ?thesis unfolding \<open>i = ?n\<close> zarea by (auto simp: sarea)
    next
      case False
      then show ?thesis unfolding \<open>i = ?n\<close> using zsub sub [of j] D(6) [OF f(1) that(2)] by auto
    qed
  next
    case False
    then show ?thesis using that zoth [of i] sub [of j] D(7) [of i j] by auto
  qed
  have ss: "seg_area c' i \<inter> seg_area c' j = {}" if "live_seg c i" "live_seg c j" "i \<noteq> j" for i j
    using D(6) [OF that] sub [of i] sub [of j] by auto
  have "zone_ok (mc_memzone c' i)" if "i < Suc ?n" for i using that zok D(3) by (auto simp: c' less_Suc_eq)
  moreover have "seg_ok (mc_free_memseg c' i)" if "live_seg c i" "sg_len (mc_free_memseg c' i) \<noteq> 0" for i
    using that sok D(4) by (cases "i = idx") (simp_all add: c')
  moreover have "zn_addr (mc_memzone c' i) = 0" if "Suc ?n \<le> i" for i using that D(2) [of i] by (simp add: c')
  moreover have "mc_memzone_idx c' = Suc ?n" by (simp add: c')
  ultimately show "memzone_ok c'" using room zz zs ss by (auto simp: memzone_ok_def live)
  show "mz = mc_memzone_idx c" "mc_memzone_idx c' = Suc mz" "\<And>j. j \<noteq> mz \<Longrightarrow> mc_memzone c' j = mc_memzone c j"
    "zn_len (mc_memzone c' mz) = req" "zn_name (mc_memzone c' mz) = take 31 name" "live_seg c idx"
    "socket_id = SOCKET_ID_ANY \<or> zn_socket_id (mc_memzone c' mz) = SOCKET_ID_ANY \<or> zn_socket_id (mc_memzone c' mz) = socket_id"
    using f(1,5) by (simp_all add: c' z_def)
  show "zone_area c' mz \<subseteq> seg_area c idx" using zsub c'(1) by simp
  show "2 ^ k dvd unat (zn_phys_addr (mc_memzone c' mz))" using ce(1) by (simp add: c' z_def f(4))
qed

text \<open>The result of a call: an error without effect, or a new zone.\<close>

definition reserved :: "string \<Rightarrow> u64 \<Rightarrow> int \<Rightarrow> u32 \<Rightarrow> mem_config \<Rightarrow> nat option \<Rightarrow> mem_config \<Rightarrow> bool" where
  "reserved name len socket_id align c r c' \<longleftrightarrow> memzone_ok c' \<and> (case r of
     None \<Rightarrow> \<exists>e \<in> {ENOSPC, EEXIST, EINVAL, ENOMEM}. c' = c\<lparr>mc_errno := e\<rparr>
   | Some mz \<Rightarrow> mz = mc_memzone_idx c \<and> mc_memzone_idx c' = Suc mz \<and> (\<forall>j. j \<noteq> mz \<longrightarrow> mc_memzone c' j = mc_memzone c j) \<and>
       unat len \<le> unat (zn_len (mc_memzone c' mz)) \<and> (align \<noteq> 0 \<longrightarrow> unat align dvd unat (zn_phys_addr (mc_memzone c' mz))) \<and>
       zn_name (mc_memzone c' mz) = take 31 name \<and> rte_memzone_lookup name c = None \<and>
       (\<exists>i. live_seg c i \<and> zone_area c' mz \<subseteq> seg_area c i) \<and>
       (socket_id = SOCKET_ID_ANY \<or> zn_socket_id (mc_memzone c' mz) = SOCKET_ID_ANY \<or> zn_socket_id (mc_memzone c' mz) = socket_id))"

lemma round_line:
  assumes "len \<le> - 1 - RTE_CACHE_LINE_MASK"
  shows "64 dvd unat ((len + RTE_CACHE_LINE_MASK) AND NOT RTE_CACHE_LINE_MASK)"
    "unat len \<le> unat ((len + RTE_CACHE_LINE_MASK) AND NOT RTE_CACHE_LINE_MASK)"
    "unat ((len + RTE_CACHE_LINE_MASK) AND NOT RTE_CACHE_LINE_MASK) < unat len + 64"
proof -
  have e: "(len + RTE_CACHE_LINE_MASK) AND NOT RTE_CACHE_LINE_MASK = RTE_ALIGN_CEIL len (2 ^ 6)"
    by (simp add: RTE_ALIGN_CEIL_def RTE_ALIGN_FLOOR_def RTE_CACHE_LINE_MASK_def)
  have "unat len + 2 ^ 6 \<le> 2 ^ 64"
    using assms by (simp add: word_le_nat_alt RTE_CACHE_LINE_MASK_def)
  from align_ceil [OF _ this] show "64 dvd unat ((len + RTE_CACHE_LINE_MASK) AND NOT RTE_CACHE_LINE_MASK)"
    "unat len \<le> unat ((len + RTE_CACHE_LINE_MASK) AND NOT RTE_CACHE_LINE_MASK)"
    "unat ((len + RTE_CACHE_LINE_MASK) AND NOT RTE_CACHE_LINE_MASK) < unat len + 64"
    unfolding e by simp_all
qed

lemma wide_align:
  assumes "align = 0 \<or> rte_is_power_of_2 align"
  obtains k where "6 \<le> k" and "k < 32" and "(ucast (if align < 64 then 64 else align) :: u64) = 2 ^ k" and "align \<noteq> 0 \<Longrightarrow> unat align dvd 2 ^ k"
proof (cases "align < 64")
  case True
  moreover have "unat align dvd 2 ^ 6" if "align \<noteq> 0"
  proof -
    have "rte_is_power_of_2 align" using assms that by simp
    then obtain b where b: "b < 32" "align = 2 ^ b" "unat align = 2 ^ b" "(ucast align :: u64) = 2 ^ b" by (rule power_of_2_cases)
    have "b < 6"
    proof (rule ccontr)
      assume "\<not> b < 6"
      then have "(2::nat) ^ 6 \<le> 2 ^ b" by (intro power_increasing) simp_all
      then show False using b(3) True by (simp add: word_less_nat_alt)
    qed
    then show ?thesis unfolding b(3) by (intro le_imp_power_dvd) simp
  qed
  ultimately show thesis by (intro that [of 6]) simp_all
next
  case False
  then have "rte_is_power_of_2 align" using assms by auto
  then obtain b where b: "b < 32" "align = 2 ^ b" "unat align = 2 ^ b" "(ucast align :: u64) = 2 ^ b" by (rule power_of_2_cases)
  have "6 \<le> b"
  proof (rule ccontr)
    assume "\<not> 6 \<le> b"
    then have "(2::nat) ^ b < 2 ^ 6" by (intro power_strict_increasing) simp_all
    then show False using b(3) False by (simp add: word_less_nat_alt)
  qed
  then show thesis using b(1,3,4) False by (intro that [of b]) simp_all
qed

lemma reserve_step:
  assumes ok: "memzone_ok c" and len: "len \<noteq> 0" "unat len \<le> 2 ^ 62"
  shows "(\<exists>r c'. memzone_reserve_aligned_thread_unsafe name len socket_id flags align 0 c = Inr (r, c') \<and>
      reserved name len socket_id align c r c') \<or>
    (\<exists>len' align'. flags \<noteq> 0 \<and> memzone_reserve_aligned_thread_unsafe name len socket_id flags align 0 c =
         memzone_reserve_aligned_thread_unsafe name len' socket_id 0 align' 0 c \<and>
       unat len \<le> unat len' \<and> unat len' < unat len + 64 \<and> (align \<noteq> 0 \<longrightarrow> align' \<noteq> 0 \<and> unat align dvd unat align'))"
    (is "(\<exists>r c'. ?call = _ \<and> _) \<or> _")
proof -
  have err: "reserved name len socket_id align c None (c\<lparr>mc_errno := e\<rparr>)" if "e \<in> {ENOSPC, EEXIST, EINVAL, ENOMEM}" for e
    using ok that by (auto simp: reserved_def)
  have early: "\<exists>e \<in> {ENOSPC, EEXIST, EINVAL}. ?call = Inr (None, c\<lparr>mc_errno := e\<rparr>)"
    if "RTE_MAX_MEMZONE \<le> mc_memzone_idx c \<or> rte_memzone_lookup name c \<noteq> None \<or> \<not> (align = 0 \<or> rte_is_power_of_2 align) \<or> \<not> len \<le> - 1 - RTE_CACHE_LINE_MASK"
    using that by (subst memzone_reserve_aligned_thread_unsafe.simps) (auto simp: not_le Let_def)
  consider "\<exists>e \<in> {ENOSPC, EEXIST, EINVAL}. ?call = Inr (None, c\<lparr>mc_errno := e\<rparr>)"
    | "\<not> RTE_MAX_MEMZONE \<le> mc_memzone_idx c" "rte_memzone_lookup name c = None" "align = 0 \<or> rte_is_power_of_2 align" "len \<le> - 1 - RTE_CACHE_LINE_MASK"
    using early by blast
  then show ?thesis
  proof cases
    case 1
    then show ?thesis using err by blast
  next
    case 2
    let ?len = "(len + RTE_CACHE_LINE_MASK) AND NOT RTE_CACHE_LINE_MASK" and ?align = "if align < 64 then 64 else align"
    obtain k where k: "6 \<le> k" "k < 32" "(ucast ?align :: u64) = 2 ^ k" "align \<noteq> 0 \<Longrightarrow> unat align dvd 2 ^ k" using wide_align [OF 2(3)] by blast
    note r = round_line [OF 2(4)]
    have nz: "?len \<noteq> 0" using r(2) len(1) by (metis le_zero_eq unat_0 unat_eq_zero)
    have mx: "max 64 ?len = ?len"
    proof -
      have "64 \<le> unat ?len" using nz r(1) by (auto intro!: dvd_imp_le simp: unat_gt_0)
      then show ?thesis by (simp add: max_def word_le_nat_alt)
    qed
    obtain b where b: "find_memseg c ?len ?len socket_id flags (2 ^ k) 0 0 None = Some b"
        "\<And>x. b = Some x \<Longrightarrow> fits c ?len socket_id (2 ^ k) x"
      using find_memseg_fits [where i = 0 and c = c and best = None and req = ?len and socket_id = socket_id and align = "2 ^ k" and len = ?len and flags = flags]
      by blast
    let ?hint = "flags AND RTE_MEMZONE_SIZE_HINT_ONLY \<noteq> 0 \<and> (flags AND RTE_MEMZONE_1GB \<noteq> 0 \<or> flags AND RTE_MEMZONE_2MB \<noteq> 0 \<or>
        flags AND RTE_MEMZONE_16MB \<noteq> 0 \<or> flags AND RTE_MEMZONE_16GB \<noteq> 0)"
    have call: "?call = (case b of
         None \<Rightarrow> if ?hint then memzone_reserve_aligned_thread_unsafe name ?len socket_id 0 ?align 0 c else Inr (None, c\<lparr>mc_errno := ENOMEM\<rparr>)
       | Some (idx, memseg_len, seg_offset) \<Rightarrow>
           (case take_memseg name ?len ?len 0 idx memseg_len seg_offset c of (mz, c) \<Rightarrow> Inr (Some mz, c)))"
    proof -
      have n: "(RTE_MAX_MEMZONE \<le> mc_memzone_idx c) = False" "(rte_memzone_lookup name c \<noteq> None) = False"
          "(align \<noteq> 0 \<and> \<not> rte_is_power_of_2 align) = False" "(- 1 - RTE_CACHE_LINE_MASK < len) = False"
        using 2 by auto
      have z: "(ucast (0 :: u32) :: u64) = 0" "(0 :: u32) \<noteq> 0 \<and> P \<longleftrightarrow> False" for P by simp_all
      show ?thesis
        unfolding memzone_reserve_aligned_thread_unsafe.simps [of name len socket_id flags align 0 c] Let_def
        by (simp only: n z mx k(3) b(1) if_False option.case)
    qed
    show ?thesis
    proof (cases b)
      case None
      show ?thesis
      proof (cases ?hint)
        case True
        have "flags \<noteq> 0" using True by auto
        moreover have "unat ?align = 2 ^ k"
        proof -
          have "unat ?align = unat (ucast ?align :: u64)" by (simp only: unat_ucast_up)
          then show ?thesis unfolding k(3) using unat_2p64 [of k] k(2) by simp
        qed
        moreover have "?align \<noteq> 0" by auto
        ultimately show ?thesis using call None True r k(4) by (intro disjI2 exI [of _ ?len] exI [of _ ?align]) auto
      qed (use call None err in auto)
    next
      case (Some x)
      obtain idx sl off where x: "x = (idx, sl, off)" by (cases x)
      obtain mz c' where t: "take_memseg name ?len ?len 0 idx sl off c = (mz, c')" by (cases "take_memseg name ?len ?len 0 idx sl off c")
      have fit: "fits c ?len socket_id (2 ^ k) (idx, sl, off)" using b(2) Some x by simp
      have small: "unat ?len \<le> 2 ^ 63" using r(3) len(2) by simp
      have room: "mc_memzone_idx c < RTE_MAX_MEMZONE" using 2(1) by simp
      note t' = take_memseg_ok [OF ok fit k(1,2) nz r(1) small nz room t]
      have "unat align dvd unat (zn_phys_addr (mc_memzone c' mz))" if "align \<noteq> 0" using k(4) [OF that] t'(6) by (rule dvd_trans)
      then have "reserved name len socket_id align c (Some mz) c'"
        using t' r(2) 2(2) by (auto simp: reserved_def)
      then show ?thesis using call Some x t by auto
    qed
  qed
qed

lemma reserved_weaken:
  assumes "reserved name len' socket_id align' c r c'" and "unat len \<le> unat len'" and "align \<noteq> 0 \<longrightarrow> align' \<noteq> 0 \<and> unat align dvd unat align'"
  shows "reserved name len socket_id align c r c'"
  using assms by (cases r) (auto simp: reserved_def intro: dvd_trans)

lemma reserve_ok:
  assumes "memzone_ok c" and "len \<noteq> 0" and "unat len \<le> 2 ^ 61"
  shows "\<exists>r c'. rte_memzone_reserve_aligned name len socket_id flags align c = Inr (r, c') \<and> reserved name len socket_id align c r c'"
proof (cases "both_sizes flags")
  case True
  then show ?thesis using assms(1) by (auto simp: rte_memzone_reserve_aligned_def reserved_def)
next
  case False
  have small: "unat len \<le> 2 ^ 62" using assms(3) by simp
  from reserve_step [OF assms(1,2) small, of name socket_id flags align]
  show ?thesis
  proof (elim disjE exE conjE)
    fix len' align'
    assume *: "memzone_reserve_aligned_thread_unsafe name len socket_id flags align 0 c =
        memzone_reserve_aligned_thread_unsafe name len' socket_id 0 align' 0 c"
      "unat len \<le> unat len'" "unat len' < unat len + 64" "align \<noteq> 0 \<longrightarrow> align' \<noteq> 0 \<and> unat align dvd unat align'"
    have "len' \<noteq> 0" using *(2) assms(2) by (metis le_zero_eq unat_0 unat_eq_zero)
    moreover have "unat len' \<le> 2 ^ 62" using *(3) assms(3) by simp
    ultimately obtain r c' where "memzone_reserve_aligned_thread_unsafe name len' socket_id 0 align' 0 c = Inr (r, c')"
        "reserved name len' socket_id align' c r c'"
      using reserve_step [OF assms(1), of len' name socket_id 0 align'] by blast
    then show ?thesis using *(1) reserved_weaken [OF _ *(2,4)] False by (auto simp: rte_memzone_reserve_aligned_def)
  qed (use False in \<open>auto simp: rte_memzone_reserve_aligned_def\<close>)
qed

section \<open>Lookup\<close>

lemma lookup_from_hit:
  assumes "i \<le> m" and "m < RTE_MAX_MEMZONE" and "\<forall>j\<le>m. zn_addr (mc_memzone c j) \<noteq> 0"
    and "\<forall>j. i \<le> j \<and> j < m \<longrightarrow> take RTE_MEMZONE_NAMESIZE name \<noteq> zn_name (mc_memzone c j)"
    and "take RTE_MEMZONE_NAMESIZE name = zn_name (mc_memzone c m)"
  shows "lookup_from name i c = Some m"
  using assms
proof (induction "m - i" arbitrary: i)
  case 0
  then show ?case by (subst lookup_from.simps) auto
next
  case (Suc d)
  then have "take RTE_MEMZONE_NAMESIZE name \<noteq> zn_name (mc_memzone c i)" "i < m" by auto
  moreover have "lookup_from name (Suc i) c = Some m" using Suc by (intro Suc.hyps(1)) auto
  ultimately show ?case using Suc.prems by (subst lookup_from.simps) auto
qed

lemma lookup_from_miss:
  assumes "lookup_from name i c = None" and "i \<le> j" and "j < RTE_MAX_MEMZONE" and "\<forall>k\<le>j. zn_addr (mc_memzone c k) \<noteq> 0"
  shows "take RTE_MEMZONE_NAMESIZE name \<noteq> zn_name (mc_memzone c j)"
  using assms
proof (induction "j - i" arbitrary: i)
  case 0
  then show ?case by (subst (asm) lookup_from.simps) (auto split: if_splits)
next
  case (Suc d)
  then have "lookup_from name (Suc i) c = None" by (subst (asm) lookup_from.simps) (auto split: if_splits)
  moreover have "d = j - Suc i" "Suc i \<le> j" using Suc.hyps(2) by simp_all
  ultimately show ?case using Suc.hyps(1) Suc.prems(3,4) by blast
qed

lemma lookup_new:
  assumes ok: "memzone_ok c" "memzone_ok c'" and r: "reserved name len socket_id align c (Some mz) c'" and short: "length name < 32"
  shows "rte_memzone_lookup name c' = Some mz"
proof -
  have r': "mz = mc_memzone_idx c" "mc_memzone_idx c' = Suc mz" "\<And>j. j \<noteq> mz \<Longrightarrow> mc_memzone c' j = mc_memzone c j"
      "zn_name (mc_memzone c' mz) = take 31 name" "rte_memzone_lookup name c = None"
    using r by (auto simp: reserved_def)
  have nz: "\<forall>j\<le>mz. zn_addr (mc_memzone c' j) \<noteq> 0" using memzone_okD(3) [OF ok(2)] r'(2) by (auto simp: zone_ok_def less_Suc_eq_le)
  have "mz < RTE_MAX_MEMZONE" using memzone_okD(1) [OF ok(2)] r'(2) by simp
  moreover have "take RTE_MEMZONE_NAMESIZE name \<noteq> zn_name (mc_memzone c j)" if "j < mz" for j
    using r'(5) that \<open>mz < RTE_MAX_MEMZONE\<close> memzone_okD(3) [OF ok(1)] r'(1) unfolding rte_memzone_lookup_def
    by (intro lookup_from_miss [of name 0]) (auto simp: zone_ok_def)
  ultimately show ?thesis
    unfolding rte_memzone_lookup_def using nz r'(3,4) short
    by (intro lookup_from_hit) (auto simp: RTE_MEMZONE_NAMESIZE_def)
qed

section \<open>What a supply of zones promises\<close>

locale zone_supply =
  fixes reserve :: "string \<Rightarrow> u64 \<Rightarrow> int \<Rightarrow> 'c \<Rightarrow> c_error + nat option \<times> 'c"
    and invar :: "'c \<Rightarrow> bool" and zones :: "'c \<Rightarrow> nat" and base :: "'c \<Rightarrow> nat \<Rightarrow> u64" and size_of :: "'c \<Rightarrow> nat \<Rightarrow> u64"
  assumes returns: "invar c \<Longrightarrow> len \<noteq> 0 \<Longrightarrow> unat len \<le> 2 ^ 61 \<Longrightarrow> \<exists>r c'. reserve name len socket_id c = Inr (r, c') \<and> invar c' \<and>
      (case r of None \<Rightarrow> zones c' = zones c \<and> base c' = base c \<and> size_of c' = size_of c
       | Some z \<Rightarrow> z = zones c \<and> zones c' = Suc z \<and> unat len \<le> unat (size_of c' z) \<and>
           (\<forall>y. y \<noteq> z \<longrightarrow> base c' y = base c y \<and> size_of c' y = size_of c y))"
    and aligned: "invar c \<Longrightarrow> z < zones c \<Longrightarrow> 64 dvd unat (base c z)"
    and in_memory: "invar c \<Longrightarrow> z < zones c \<Longrightarrow> 2 ^ 33 \<le> unat (base c z) \<and> unat (base c z) + unat (size_of c z) < 2 ^ 64"
    and apart: "invar c \<Longrightarrow> y < zones c \<Longrightarrow> z < zones c \<Longrightarrow> y \<noteq> z \<Longrightarrow> span (base c y) (size_of c y) \<inter> span (base c z) (size_of c z) = {}"
begin

lemma new_zone:
  assumes "invar c" and "len \<noteq> 0" and "unat len \<le> 2 ^ 61" and "reserve name len socket_id c = Inr (Some z, c')"
  shows "invar c'" "z = zones c" "zones c' = Suc z" "unat len \<le> unat (size_of c' z)"
    "y \<noteq> z \<Longrightarrow> base c' y = base c y" "y \<noteq> z \<Longrightarrow> size_of c' y = size_of c y"
  using returns [OF assms(1-3), of name socket_id] assms(4) by auto

lemma new_zone_apart:
  assumes "invar c" and "len \<noteq> 0" and "unat len \<le> 2 ^ 61" and "reserve name len socket_id c = Inr (Some z, c')" and "y < zones c"
  shows "span (base c y) (size_of c y) \<inter> span (base c' z) (size_of c' z) = {}"
proof -
  note n = new_zone [OF assms(1-4)]
  have "y \<noteq> z" using n(2) assms(5) by simp
  then have "span (base c' y) (size_of c' y) \<inter> span (base c' z) (size_of c' z) = {}"
    using apart [OF n(1), of y z] n(2,3) assms(5) by simp
  then show ?thesis using n(5,6) [OF \<open>y \<noteq> z\<close>] by simp
qed

lemma no_zone:
  assumes "invar c" and "len \<noteq> 0" and "unat len \<le> 2 ^ 61" and "reserve name len socket_id c = Inr (None, c')"
  shows "invar c'" "zones c' = zones c" "base c' = base c" "size_of c' = size_of c"
  using returns [OF assms(1-3), of name socket_id] assms(4) by auto

lemma no_error: "invar c \<Longrightarrow> len \<noteq> 0 \<Longrightarrow> unat len \<le> 2 ^ 61 \<Longrightarrow> \<exists>r c'. reserve name len socket_id c = Inr (r, c')"
  using returns by blast

end

definition zone_base :: "mem_config \<Rightarrow> nat \<Rightarrow> u64" where "zone_base c z = zn_addr (mc_memzone c z)"
definition zone_size :: "mem_config \<Rightarrow> nat \<Rightarrow> u64" where "zone_size c z = zn_len (mc_memzone c z)"

lemma zone_area_span: "zone_area c z = span (zone_base c z) (zone_size c z)"
  by (simp add: zone_area_def zone_base_def zone_size_def)

interpretation mz: zone_supply "\<lambda>name len socket_id. rte_memzone_reserve name len socket_id 0" memzone_ok mc_memzone_idx zone_base zone_size
proof unfold_locales
  fix c :: mem_config and len :: u64 and name socket_id
  assume "memzone_ok c" "len \<noteq> 0" "unat len \<le> 2 ^ 61"
  from reserve_ok [OF this, of name socket_id 0 64] obtain r c' where r: "rte_memzone_reserve name len socket_id 0 c = Inr (r, c')"
      "reserved name len socket_id 64 c r c'"
    unfolding rte_memzone_reserve_def by blast
  show "\<exists>r c'. rte_memzone_reserve name len socket_id 0 c = Inr (r, c') \<and> memzone_ok c' \<and>
      (case r of None \<Rightarrow> mc_memzone_idx c' = mc_memzone_idx c \<and> zone_base c' = zone_base c \<and> zone_size c' = zone_size c
       | Some z \<Rightarrow> z = mc_memzone_idx c \<and> mc_memzone_idx c' = Suc z \<and> unat len \<le> unat (zone_size c' z) \<and>
           (\<forall>y. y \<noteq> z \<longrightarrow> zone_base c' y = zone_base c y \<and> zone_size c' y = zone_size c y))"
    using r by (cases r) (auto simp: reserved_def zone_base_def [abs_def] zone_size_def [abs_def])
qed (auto simp: zone_base_def zone_size_def zone_ok_def unat_gt_0 simp flip: zone_area_def dest: memzone_okD(3) memzone_okD(5))
section \<open>Initialisation\<close>

text \<open>What start-up assumes of the layout of the memory: segments that lie apart, and no wrap-around.\<close>

definition raw_ok :: "rte_memseg \<Rightarrow> bool" where
  "raw_ok sg \<longleftrightarrow> 2 ^ 33 \<le> unat (sg_addr sg) \<and> unat (sg_addr sg) + unat (sg_len sg) < 2 ^ 64 \<and> unat (sg_phys_addr sg) + unat (sg_len sg) + 2 ^ 32 \<le> 2 ^ 64"

definition layout_ok :: "mem_config \<Rightarrow> bool" where
  "layout_ok c \<longleftrightarrow> (\<forall>i. live_seg c i \<longrightarrow> raw_ok (mc_free_memseg c i)) \<and>
     (\<forall>i j. live_seg c i \<longrightarrow> live_seg c j \<longrightarrow> i \<noteq> j \<longrightarrow> seg_area c i \<inter> seg_area c j = {})"

lemma and_line: "unat (v AND RTE_CACHE_LINE_MASK) = unat v mod 64"
proof -
  have "v AND RTE_CACHE_LINE_MASK = take_bit 6 v" by (simp add: take_bit_eq_mask mask_eq_decr_exp RTE_CACHE_LINE_MASK_def)
  then have "unat (v AND RTE_CACHE_LINE_MASK) = take_bit 6 (unat v)" by (simp only: unsigned_take_bit_eq)
  then show ?thesis by (simp add: take_bit_eq_mod)
qed

lemma to_line: "64 dvd n + (64 - n mod 64) mod (64::nat)"
proof (cases "n mod 64 = 0")
  case False
  then have "(64 - n mod 64) mod 64 = 64 - n mod 64" by simp
  moreover have "n + (64 - n mod 64) = 64 * Suc (n div 64)"
  proof -
    have "n + (64 - r) = 64 * Suc q" if "64 * q + r = n" "r < 64" for q r using that by simp
    then show ?thesis using mult_div_mod_eq [of 64 n] by simp
  qed
  ultimately show ?thesis by (metis dvd_triv_left)
qed (simp add: mod_eq_0_iff_dvd)

lemma sanitize_ok:
  assumes "memseg_sanitize sg = Some sg'" and "raw_ok sg" and "sg_addr sg \<noteq> 0"
  shows "span (sg_addr sg') (sg_len sg') \<subseteq> span (sg_addr sg) (sg_len sg)" "sg_addr sg' \<noteq> 0" "sg_len sg' \<noteq> 0 \<Longrightarrow> seg_ok sg'"
proof -
  let ?a = "unat (sg_phys_addr sg) mod 64"
  have c: "unat (ucast (x AND RTE_CACHE_LINE_MASK) :: u32) = unat x mod 64" for x :: u64
  proof -
    have "unat x mod 64 < 2 ^ 32" using mod_less_divisor [of 64 "unat x"] by simp
    then show ?thesis by (simp add: unsigned_ucast_eq and_line take_bit_nat_eq_self)
  qed
  have same: "unat (sg_addr sg) mod 64 = ?a"
    using assms(1) c [of "sg_phys_addr sg"] c [of "sg_addr sg"] by (auto simp: memseg_sanitize_def Let_def split: if_splits)
  have pos: "0 < unat (sg_addr sg)" using assms(3) by (simp add: unat_gt_0)
  note raw = assms(2) [unfolded raw_ok_def]
  show "span (sg_addr sg') (sg_len sg') \<subseteq> span (sg_addr sg) (sg_len sg)" "sg_addr sg' \<noteq> 0" "sg_len sg' \<noteq> 0 \<Longrightarrow> seg_ok sg'"
  proof (atomize (full), cases "sg_len sg < 2 * 64")
    case True
    then have "sg' = sg\<lparr>sg_len := 0\<rparr>" using assms(1) by (auto simp: memseg_sanitize_def Let_def split: if_splits)
    then show "span (sg_addr sg') (sg_len sg') \<subseteq> span (sg_addr sg) (sg_len sg) \<and> sg_addr sg' \<noteq> 0 \<and> (sg_len sg' \<noteq> 0 \<longrightarrow> seg_ok sg')"
      using assms(3) by (simp add: span_def)
  next
    case False
    define off where "off = (ucast ((64 - (ucast (sg_phys_addr sg AND RTE_CACHE_LINE_MASK) :: u32)) AND ucast RTE_CACHE_LINE_MASK) :: u64)"
    have sg': "sg' = sg\<lparr>sg_phys_addr := sg_phys_addr sg + off, sg_addr := sg_addr sg + off, sg_len := (sg_len sg - off) AND NOT RTE_CACHE_LINE_MASK\<rparr>"
      using assms(1) False by (auto simp: memseg_sanitize_def Let_def off_def split: if_splits)
    have off: "unat off = (64 - ?a) mod 64"
    proof -
      let ?x = "ucast (sg_phys_addr sg AND RTE_CACHE_LINE_MASK) :: u32"
      have "?x \<le> 64" using c [of "sg_phys_addr sg"] mod_less_divisor [of 64 "unat (sg_phys_addr sg)"] by (simp add: word_le_nat_alt)
      then have "unat (64 - ?x) = 64 - ?a" using c by (simp add: unat_sub_le)
      moreover have "(ucast RTE_CACHE_LINE_MASK :: u32) = mask 6" by (simp add: RTE_CACHE_LINE_MASK_def mask_eq_decr_exp)
      ultimately show ?thesis by (simp add: off_def unat_and_mask)
    qed
    then have small: "unat off < 64" by simp
    have len: "128 \<le> unat (sg_len sg)" using False by (simp add: word_less_nat_alt)
    have l: "unat (sg_len sg - off) = unat (sg_len sg) - unat off" using small len by (intro unat_sub_le) (simp add: word_le_nat_alt)
    have e: "(sg_len sg - off) AND NOT RTE_CACHE_LINE_MASK = RTE_ALIGN_FLOOR (sg_len sg - off) (2 ^ 6)"
      by (simp add: RTE_ALIGN_FLOOR_def RTE_CACHE_LINE_MASK_def)
    have fl: "64 dvd unat (sg_len sg')" "unat (sg_len sg') \<le> unat (sg_len sg) - unat off"
      using align_floor [of 6 "sg_len sg - off"] by (simp_all add: sg' e l)
    have un: "unat (sg_addr sg') = unat (sg_addr sg) + unat off" "unat (sg_phys_addr sg') = unat (sg_phys_addr sg) + unat off"
      using raw small len by (simp_all add: sg' unat_plus64)
    have al: "64 dvd unat (sg_addr sg')" "64 dvd unat (sg_phys_addr sg')"
      unfolding un off using to_line [of "unat (sg_addr sg)"] to_line [of "unat (sg_phys_addr sg)"] same by simp_all
    have "sg_addr sg' \<noteq> 0" using un(1) pos by (auto simp flip: unat_eq_zero)
    moreover have "seg_ok sg'" using al fl un raw small len unfolding seg_ok_def by linarith
    ultimately show "span (sg_addr sg') (sg_len sg') \<subseteq> span (sg_addr sg) (sg_len sg) \<and> sg_addr sg' \<noteq> 0 \<and> (sg_len sg' \<noteq> 0 \<longrightarrow> seg_ok sg')"
      using un fl(2) small len by (auto simp: span_def)
  qed
qed

text \<open>The two loops, on the segments before the first with a null address.\<close>

definition run_to :: "(nat \<Rightarrow> rte_memseg) \<Rightarrow> nat \<Rightarrow> nat \<Rightarrow> bool" where
  "run_to f i j \<longleftrightarrow> i \<le> j \<and> j < RTE_MAX_MEMSEG \<and> (\<forall>k. i \<le> k \<and> k \<le> j \<longrightarrow> sg_addr (f k) \<noteq> 0)"

lemma run_to_step: "run_to f i j \<longleftrightarrow> (i = j \<or> run_to f (Suc i) j) \<and> i < RTE_MAX_MEMSEG \<and> sg_addr (f i) \<noteq> 0"
proof
  assume "run_to f i j"
  then show "(i = j \<or> run_to f (Suc i) j) \<and> i < RTE_MAX_MEMSEG \<and> sg_addr (f i) \<noteq> 0" unfolding run_to_def by auto
next
  assume a: "(i = j \<or> run_to f (Suc i) j) \<and> i < RTE_MAX_MEMSEG \<and> sg_addr (f i) \<noteq> 0"
  show "run_to f i j"
  proof (cases "i = j")
    case False
    have "sg_addr (f k) \<noteq> 0" if "i \<le> k" "k \<le> j" for k
      using a False that by (cases "k = i") (auto simp: run_to_def)
    then show ?thesis using a False by (auto simp: run_to_def)
  qed (use a in \<open>auto simp: run_to_def\<close>)
qed

lemma live_run_to: "live_seg c j \<longleftrightarrow> run_to (mc_free_memseg c) 0 j"
  by (auto simp: live_seg_def run_to_def)

lemma fill_memsegs_eq:
  "mc_free_memseg (fill_memsegs i c) j =
     (if run_to (mc_memseg c) i j \<and> sg_addr (mc_free_memseg c j) = 0 then mc_memseg c j else mc_free_memseg c j)"
proof (induction i c rule: fill_memsegs.induct)
  case (1 i c)
  show ?case
  proof (cases "i < RTE_MAX_MEMSEG \<and> sg_addr (mc_memseg c i) \<noteq> 0")
    case True
    have "run_to (mc_memseg c) i j \<longleftrightarrow> i = j \<or> run_to (mc_memseg c) (Suc i) j" using True run_to_step by blast
    moreover have "\<not> run_to (mc_memseg c) (Suc i) i" by (simp add: run_to_def)
    ultimately show ?thesis using True "1.IH" by (subst fill_memsegs.simps) auto
  next
    case False
    then have "\<not> run_to (mc_memseg c) i j" using run_to_step by blast
    then show ?thesis using False by (subst fill_memsegs.simps) auto
  qed
qed

lemma sanitize_memsegs_eq:
  assumes "sanitize_memsegs i c = (0, c')"
  shows "run_to (mc_free_memseg c) i j \<Longrightarrow> memseg_sanitize (mc_free_memseg c j) = Some (mc_free_memseg c' j)"
    "\<not> run_to (mc_free_memseg c) i j \<Longrightarrow> mc_free_memseg c' j = mc_free_memseg c j"
  using assms
proof (atomize (full), induction i c rule: sanitize_memsegs.induct)
  case (1 i c)
  show ?case
  proof (cases "i < RTE_MAX_MEMSEG \<and> sg_addr (mc_free_memseg c i) \<noteq> 0")
    case True
    show ?thesis
    proof (cases "memseg_sanitize (mc_free_memseg c i)")
      case None
      then have "sanitize_memsegs i c = (- 1, c)" using True by (subst sanitize_memsegs.simps) simp
      then show ?thesis using "1.prems" by simp
    next
      case (Some sg)
      let ?c = "c\<lparr>mc_free_memseg := (mc_free_memseg c)(i := sg)\<rparr>"
      have e: "sanitize_memsegs i c = sanitize_memsegs (Suc i) ?c" using True Some by (subst sanitize_memsegs.simps) simp
      have r: "run_to (mc_free_memseg ?c) (Suc i) j \<longleftrightarrow> run_to (mc_free_memseg c) (Suc i) j" by (auto simp: run_to_def)
      have s: "run_to (mc_free_memseg c) i j \<longleftrightarrow> i = j \<or> run_to (mc_free_memseg c) (Suc i) j" using True run_to_step by blast
      have n: "\<not> run_to (mc_free_memseg c) (Suc i) i" by (simp add: run_to_def)
      show ?thesis using "1.IH" [OF True Some] "1.prems" n Some unfolding e r s by (auto split: if_splits)
    qed
  next
    case False
    then have "\<not> run_to (mc_free_memseg c) i j" using run_to_step by blast
    moreover have "sanitize_memsegs i c = (0, c)" using False by (subst sanitize_memsegs.simps) auto
    ultimately show ?thesis using "1.prems" by simp
  qed
qed

lemma sanitized_live:
  assumes "sanitize_memsegs 0 c = (0, c')" and "layout_ok c"
  shows "live_seg c' j \<longleftrightarrow> live_seg c j"
proof -
  note e = sanitize_memsegs_eq [OF assms(1), folded live_run_to]
  have nz: "sg_addr (mc_free_memseg c' k) \<noteq> 0" if l: "live_seg c k" for k
  proof -
    have "raw_ok (mc_free_memseg c k)" "sg_addr (mc_free_memseg c k) \<noteq> 0" using assms(2) l by (auto simp: layout_ok_def live_seg_def)
    then show ?thesis using sanitize_ok(2) [OF e(1) [OF l]] by simp
  qed
  have down: "live_seg c k" if "live_seg c i" "k \<le> i" for i k using that by (auto simp: live_seg_def)
  show ?thesis
  proof
    assume "live_seg c j"
    then show "live_seg c' j" using nz down unfolding live_seg_def [of c'] by (auto simp: live_seg_def)
  next
    assume l: "live_seg c' j"
    have "live_seg c k" if "k \<le> j" for k
      using that
    proof (induction k rule: less_induct)
      case (less k)
      show ?case
      proof (rule ccontr)
        assume n: "\<not> live_seg c k"
        then have "mc_free_memseg c' k = mc_free_memseg c k" by (rule e(2))
        then have "sg_addr (mc_free_memseg c k) \<noteq> 0" using l less.prems by (auto simp: live_seg_def)
        moreover have "sg_addr (mc_free_memseg c i) \<noteq> 0" if "i < k" for i using less.IH [OF that] less.prems that by (auto simp: live_seg_def)
        ultimately show False using n l less.prems by (auto simp: live_seg_def le_less)
      qed
    qed
    then show "live_seg c j" by simp
  qed
qed

lemma sanitized_ok:
  assumes "sanitize_memsegs 0 c = (0, c')" and "layout_ok c"
  shows "memzone_ok (c'\<lparr>mc_memzone_idx := 0, mc_memzone := \<lambda>_. zero_memzone\<rparr>)"
proof -
  let ?c = "c'\<lparr>mc_memzone_idx := 0, mc_memzone := \<lambda>_. zero_memzone\<rparr>"
  note e = sanitize_memsegs_eq(1) [OF assms(1), folded live_run_to] and live = sanitized_live [OF assms]
  have live': "live_seg ?c j \<longleftrightarrow> live_seg c j" for j using live by (simp add: live_seg_def)
  have s: "seg_area ?c j \<subseteq> seg_area c j" "sg_len (mc_free_memseg c' j) \<noteq> 0 \<Longrightarrow> seg_ok (mc_free_memseg c' j)" if l: "live_seg c j" for j
  proof -
    have "raw_ok (mc_free_memseg c j)" "sg_addr (mc_free_memseg c j) \<noteq> 0" using assms(2) l by (auto simp: layout_ok_def live_seg_def)
    from sanitize_ok [OF e [OF l] this] show "seg_area ?c j \<subseteq> seg_area c j" "sg_len (mc_free_memseg c' j) \<noteq> 0 \<Longrightarrow> seg_ok (mc_free_memseg c' j)"
      by (simp_all add: seg_area_def)
  qed
  have "seg_area ?c i \<inter> seg_area ?c j = {}" if "live_seg c i" "live_seg c j" "i \<noteq> j" for i j
  proof -
    have "seg_area c i \<inter> seg_area c j = {}" using assms(2) that by (simp add: layout_ok_def)
    then show ?thesis using s(1) [OF that(1)] s(1) [OF that(2)] by blast
  qed
  moreover have "zn_addr zero_memzone = 0" by (simp add: zero_memzone_def)
  ultimately show ?thesis using s(2) by (simp add: memzone_ok_def live')
qed

text \<open>Start-up of the memory zones on segments of memory that lie apart either reports a segment whose virtual and physical address
  disagree, or leaves a table without zones in which every segment left is aligned to cache lines and lies inside the
  segment it came from: the invariant of the zones holds.\<close>
theorem memzone_init_ok:
  assumes "\<forall>j. sg_addr (mc_free_memseg c j) = 0" and "\<forall>j. run_to (mc_memseg c) 0 j \<longrightarrow> raw_ok (mc_memseg c j)"
    and "\<forall>i j. run_to (mc_memseg c) 0 i \<longrightarrow> run_to (mc_memseg c) 0 j \<longrightarrow> i \<noteq> j \<longrightarrow>
      span (sg_addr (mc_memseg c i)) (sg_len (mc_memseg c i)) \<inter> span (sg_addr (mc_memseg c j)) (sg_len (mc_memseg c j)) = {}"
  shows "case rte_eal_memzone_init False c of (r, c') \<Rightarrow> r = - 1 \<or> r = 0 \<and> memzone_ok c' \<and> mc_memzone_idx c' = 0"
proof -
  let ?f = "fill_memsegs 0 c"
  have f: "mc_free_memseg ?f j = (if run_to (mc_memseg c) 0 j then mc_memseg c j else mc_free_memseg c j)" for j
    using assms(1) by (simp add: fill_memsegs_eq)
  have live: "live_seg ?f j \<longleftrightarrow> run_to (mc_memseg c) 0 j" for j
  proof
    assume "live_seg ?f j"
    then show "run_to (mc_memseg c) 0 j" using assms(1) f [of j] by (auto simp: live_seg_def split: if_splits)
  next
    assume r: "run_to (mc_memseg c) 0 j"
    then have "run_to (mc_memseg c) 0 k" if "k \<le> j" for k using that by (auto simp: run_to_def)
    then show "live_seg ?f j" using r f by (auto simp: live_seg_def run_to_def)
  qed
  have "layout_ok ?f" using assms(2,3) by (simp add: layout_ok_def live f seg_area_def)
  moreover obtain r c' where s: "sanitize_memsegs 0 ?f = (r, c')" by (cases "sanitize_memsegs 0 ?f")
  moreover have "r = - 1 \<or> r = 0"
  proof -
    have "fst (sanitize_memsegs i x) \<in> {- 1, 0}" for i x
      by (induction i x rule: sanitize_memsegs.induct) (subst sanitize_memsegs.simps, auto split: option.splits)
    from this [of 0 ?f] show ?thesis using s by auto
  qed
  ultimately show ?thesis using sanitized_ok [of ?f c'] by (auto simp: rte_eal_memzone_init_def)
qed

text \<open>Two segments of 2 MB, on the sockets 0 and 1.\<close>

definition sample_memseg :: "nat \<Rightarrow> rte_memseg" where
  "sample_memseg i = \<lparr>sg_phys_addr = 0x40000000 + of_nat i * 0x200000, sg_addr = (if i < 2 then 0x7F0000000000 + of_nat i * 0x200000 else 0),
     sg_len = (if i < 2 then 0x200000 else 0), sg_hugepage_sz = RTE_PGSIZE_2M, sg_socket_id = int i\<rparr>"

definition sample_layout :: mem_config where
  "sample_layout = \<lparr>mc_memseg = sample_memseg, mc_free_memseg = (\<lambda>_. (sample_memseg 2)), mc_memzone = (\<lambda>_. zero_memzone), mc_memzone_idx = 0, mc_errno = 0\<rparr>"

definition sample_zones :: mem_config where
  "sample_zones = sample_layout\<lparr>mc_free_memseg := sample_memseg\<rparr>"

lemma sample_segs: "i < 2 \<Longrightarrow> i = 0 \<or> i = 1" for i :: nat by auto

lemma sample_run: "run_to sample_memseg 0 i \<Longrightarrow> i = 0 \<or> i = 1"
proof -
  assume "run_to sample_memseg 0 i"
  then have "sg_addr (sample_memseg i) \<noteq> 0" by (auto simp: run_to_def)
  then show "i = 0 \<or> i = 1" by (auto simp: sample_memseg_def split: if_splits)
qed

lemma sample_apart:
  assumes "i = 0 \<or> i = 1" and "j = 0 \<or> j = 1" and "i \<noteq> j"
  shows "span (sg_addr (sample_memseg i)) (sg_len (sample_memseg i)) \<inter> span (sg_addr (sample_memseg j)) (sg_len (sample_memseg j)) = {}"
  using assms by (auto simp: span_def sample_memseg_def)

lemma sample_memseg_ok: "i = 0 \<or> i = 1 \<Longrightarrow> seg_ok (sample_memseg i) \<and> raw_ok (sample_memseg i)"
  by (auto simp: seg_ok_def raw_ok_def sample_memseg_def)

lemma sample_zones_ok: "memzone_ok sample_zones"
proof -
  have "live_seg sample_zones i \<Longrightarrow> i = 0 \<or> i = 1" for i using sample_run by (simp add: live_run_to sample_zones_def)
  then show ?thesis
    unfolding memzone_ok_def using sample_apart sample_memseg_ok
    by (auto simp: seg_area_def sample_zones_def sample_layout_def zero_memzone_def)
qed

theorem memzone_init_ok_witness:
  "case rte_eal_memzone_init False sample_layout of (r, c') \<Rightarrow> r = - 1 \<or> r = 0 \<and> memzone_ok c' \<and> mc_memzone_idx c' = 0"
proof (rule memzone_init_ok)
  show "\<forall>j. sg_addr (mc_free_memseg sample_layout j) = 0" by (simp add: sample_layout_def sample_memseg_def)
  have m: "mc_memseg sample_layout = sample_memseg" by (simp add: sample_layout_def)
  show "\<forall>j. run_to (mc_memseg sample_layout) 0 j \<longrightarrow> raw_ok (mc_memseg sample_layout j)"
    unfolding m using sample_run sample_memseg_ok by blast
  show "\<forall>i j. run_to (mc_memseg sample_layout) 0 i \<longrightarrow> run_to (mc_memseg sample_layout) 0 j \<longrightarrow> i \<noteq> j \<longrightarrow>
      span (sg_addr (mc_memseg sample_layout i)) (sg_len (mc_memseg sample_layout i)) \<inter>
      span (sg_addr (mc_memseg sample_layout j)) (sg_len (mc_memseg sample_layout j)) = {}"
    unfolding m using sample_run sample_apart by blast
qed

section \<open>Reserved zones are apart\<close>



text \<open>One segment of two lines around a page boundary.\<close>

definition cross_zones :: mem_config where
  "cross_zones = sample_layout\<lparr>mc_free_memseg := \<lambda>i. \<lparr>sg_phys_addr = 0x40000FC0, sg_addr = (if i = 0 then 0x7F0000000FC0 else 0),
     sg_len = 128, sg_hugepage_sz = RTE_PGSIZE_2M, sg_socket_id = 0\<rparr>\<rparr>"

text \<open>The boundary of \<open>rte_memzone_reserve_bounded\<close> is not kept when a zone takes the rest of a segment exactly: a zone
  of 128 bytes with a boundary of 4096 is returned although it crosses a multiple of 4096.\<close>
theorem memzone_bound_crossed:
  "case rte_memzone_reserve_bounded ''z'' 128 0 0 64 0x1000 cross_zones of
     Inr (Some z, c) \<Rightarrow> zn_len (mc_memzone c z) = 128 \<and>
       zn_phys_addr (mc_memzone c z) AND NOT 0xFFF \<noteq> (zn_phys_addr (mc_memzone c z) + 127) AND NOT 0xFFF
   | _ \<Rightarrow> False"
proof -
  let ?sg = "mc_free_memseg cross_zones 0"
  have sg: "sg_phys_addr ?sg = 0x40000FC0" "sg_addr ?sg = 0x7F0000000FC0" "sg_len ?sg = 128" "sg_socket_id ?sg = 0" "sg_hugepage_sz ?sg = RTE_PGSIZE_2M"
    by (simp_all add: cross_zones_def)
  have l: "rte_memzone_lookup ''z'' cross_zones = None" "mc_memzone_idx cross_zones = 0"
    by (simp_all add: rte_memzone_lookup_def lookup_from.simps [of _ 0] cross_zones_def sample_layout_def zero_memzone_def)
  have b: "align_phys_boundary ?sg 128 64 0x1000 = Some 0"
    unfolding align_phys_boundary_def
    by (subst boundary_loop.simps) (simp add: sg RTE_ALIGN_CEIL_def RTE_ALIGN_FLOOR_def)
  have last: "find_memseg cross_zones 128 128 0 0 64 0x1000 (Suc 0) x = Some x" for x
    by (subst find_memseg.simps) (simp add: cross_zones_def)
  have f: "find_memseg cross_zones 128 128 0 0 64 0x1000 0 None = Some (Some (0, 128, 0))"
    by (subst find_memseg.simps) (simp add: sg b last Let_def better_def wrong_page_size_def RTE_MAX_MEMSEG_def)
  show ?thesis
    unfolding rte_memzone_reserve_bounded_def
    by (subst memzone_reserve_aligned_thread_unsafe.simps)
      (simp add: l f both_sizes_def RTE_MAX_MEMZONE_def rte_is_power_of_2_def RTE_CACHE_LINE_MASK_def Let_def take_memseg_def sg)
qed

end
