(* ===== verification/Malloc_Spec.thy ===== *)
theory Malloc_Spec
  imports Malloc Memzone_Spec
begin

text \<open>
  The heap hands out memory that lies apart. \<open>seg\<close> says that elements follow each other without a gap, each with its predecessor in
  its header; a zone of the heap is such a sequence up to a busy end marker, without two free neighbours; the free
  lists hold exactly the free elements by their size. The operations keep this, and change the blocks in use as they promise.
\<close>

section \<open>Elements that follow each other\<close>

definition fr :: "malloc_world \<Rightarrow> u64 \<Rightarrow> bool" where "fr w a \<longleftrightarrow> e_state (mw_elem w a) = ELEM_FREE"
definition size_at :: "malloc_world \<Rightarrow> u64 \<Rightarrow> u64" where "size_at w a = e_size (mw_elem w a)"
definition pad_at :: "malloc_world \<Rightarrow> u64 \<Rightarrow> u32" where "pad_at w a = e_pad (mw_elem w a)"

text \<open>A header: its size is a number of lines, and the data of a padded element has a header of its own that leads back.\<close>

definition elem_ok :: "malloc_world \<Rightarrow> nat \<Rightarrow> nat \<Rightarrow> u64 \<Rightarrow> bool" where
  "elem_ok w h z a \<longleftrightarrow> e_heap (mw_elem w a) = h \<and> e_mz (mw_elem w a) = z \<and> 64 dvd unat (size_at w a) \<and> 128 \<le> unat (size_at w a) \<and>
     unat (size_at w a) < 2 ^ 32 \<and> unat a + unat (size_at w a) < 2 ^ 64 \<and>
     (e_state (mw_elem w a) = ELEM_FREE \<and> pad_at w a = 0 \<or> e_state (mw_elem w a) = ELEM_BUSY \<and>
       (pad_at w a = 0 \<or> pad_at w a = 64 \<and> 192 \<le> unat (size_at w a) \<and>
          e_state (mw_elem w (a + 64)) = ELEM_PAD \<and> pad_at w (a + 64) = 64))"

text \<open>From \<open>a\<close>, whose predecessor is \<open>p\<close>, to \<open>b\<close>, whose predecessor is \<open>q\<close>.\<close>

fun seg :: "malloc_world \<Rightarrow> nat \<Rightarrow> nat \<Rightarrow> u64 \<Rightarrow> u64 \<Rightarrow> u64 list \<Rightarrow> u64 \<Rightarrow> u64 \<Rightarrow> bool" where
  "seg w h z p a [] q b \<longleftrightarrow> p = q \<and> a = b"
| "seg w h z p a (x # xs) q b \<longleftrightarrow> a = x \<and> elem_ok w h z x \<and> e_prev (mw_elem w x) = p \<and> seg w h z x (x + size_at w x) xs q b"

lemma seg_append: "seg w h z p a (xs @ ys) q b \<longleftrightarrow> (\<exists>r c. seg w h z p a xs r c \<and> seg w h z r c ys q b)"
  by (induction xs arbitrary: p a) auto

lemma elem_end: "elem_ok w h z a \<Longrightarrow> unat (a + size_at w a) = unat a + unat (size_at w a)"
  by (simp add: elem_ok_def unat_plus64)

lemma seg_bounds:
  "seg w h z p a xs q b \<Longrightarrow> unat a \<le> unat b \<and> (\<forall>x \<in> set xs. elem_ok w h z x \<and> unat a \<le> unat x \<and> unat x + unat (size_at w x) \<le> unat b) \<and> distinct xs"
proof (induction xs arbitrary: p a)
  case (Cons y xs)
  then have y: "a = y" "elem_ok w h z y" "seg w h z y (y + size_at w y) xs q b" by simp_all
  have "128 \<le> unat (size_at w y)" using y(2) by (simp add: elem_ok_def)
  then show ?case using Cons.IH [OF y(3)] y(1,2) elem_end [OF y(2)] by auto
qed simp

lemma seg_span:
  assumes "seg w h z p a xs q b"
  shows "unat a \<le> unat b" "distinct xs" "x \<in> set xs \<Longrightarrow> elem_ok w h z x" "x \<in> set xs \<Longrightarrow> unat a \<le> unat x"
    "x \<in> set xs \<Longrightarrow> unat x + unat (size_at w x) \<le> unat b"
  using seg_bounds [OF assms] by auto

text \<open>A sequence depends on the headers in its span only.\<close>

definition same_on :: "malloc_world \<Rightarrow> malloc_world \<Rightarrow> nat \<Rightarrow> nat \<Rightarrow> bool" where
  "same_on w w' i j \<longleftrightarrow> (\<forall>x. i \<le> unat x \<longrightarrow> unat x < j \<longrightarrow> mw_elem w' x = mw_elem w x)"

lemma same_onD: "same_on w w' i j \<Longrightarrow> i \<le> unat x \<Longrightarrow> unat x < j \<Longrightarrow> mw_elem w' x = mw_elem w x"
  by (simp add: same_on_def)

lemma same_on_sub: "same_on w w' i j \<Longrightarrow> i \<le> i' \<Longrightarrow> j' \<le> j \<Longrightarrow> same_on w w' i' j'"
  by (simp add: same_on_def)

lemma unat_plus_line: "unat (a :: u64) + 64 < 2 ^ 64 \<Longrightarrow> unat (a + 64) = unat a + 64"
  by (subst unat_plus64) simp_all

lemma elem_ok_cong:
  assumes "elem_ok w h z a" and "same_on w w' (unat a) (unat a + unat (size_at w a))"
  shows "elem_ok w' h z a" "size_at w' a = size_at w a" "mw_elem w' a = mw_elem w a"
proof -
  have sz: "128 \<le> unat (size_at w a)" "unat a + unat (size_at w a) < 2 ^ 64" using assms(1) by (simp_all add: elem_ok_def)
  have n: "unat (a + 64) = unat a + 64" using sz by (intro unat_plus_line) simp
  have e: "mw_elem w' a = mw_elem w a" "mw_elem w' (a + 64) = mw_elem w (a + 64)"
    using sz n by (auto intro!: same_onD [OF assms(2)])
  then show "elem_ok w' h z a" "size_at w' a = size_at w a" "mw_elem w' a = mw_elem w a"
    using assms(1) by (simp_all add: elem_ok_def size_at_def pad_at_def)
qed

lemma seg_cong:
  "seg w h z p a xs q b \<Longrightarrow> same_on w w' (unat a) (unat b) \<Longrightarrow> seg w' h z p a xs q b"
proof (induction xs arbitrary: p a)
  case (Cons x xs)
  then have x: "a = x" "elem_ok w h z x" "e_prev (mw_elem w x) = p" "seg w h z x (x + size_at w x) xs q b" by simp_all
  have e: "unat (x + size_at w x) = unat x + unat (size_at w x)" by (rule elem_end [OF x(2)])
  have "unat (x + size_at w x) \<le> unat b" using seg_span(1) [OF x(4)] .
  then have "same_on w w' (unat x) (unat x + unat (size_at w x))" "same_on w w' (unat (x + size_at w x)) (unat b)"
    using same_on_sub [OF Cons.prems(2)] x(1) e by simp_all
  then show ?case using elem_ok_cong [OF x(2)] Cons.IH [OF x(4)] x by simp
qed simp

section \<open>Zones\<close>

text \<open>The end marker of a zone, and the rest of a zone from an element on.\<close>

definition end_ok :: "malloc_world \<Rightarrow> u64 \<Rightarrow> u64 \<Rightarrow> bool" where
  "end_ok w q en \<longleftrightarrow> e_prev (mw_elem w en) = q \<and> e_state (mw_elem w en) = ELEM_BUSY"

definition rest :: "malloc_world \<Rightarrow> nat \<Rightarrow> nat \<Rightarrow> u64 \<Rightarrow> u64 \<Rightarrow> u64 list \<Rightarrow> u64 \<Rightarrow> bool" where
  "rest w h z p a xs en \<longleftrightarrow> (\<exists>q. seg w h z p a xs q en \<and> end_ok w q en)"

lemma rest_simps:
  "rest w h z p a [] en \<longleftrightarrow> a = en \<and> end_ok w p en"
  "rest w h z p a (x # xs) en \<longleftrightarrow> a = x \<and> elem_ok w h z x \<and> e_prev (mw_elem w x) = p \<and> rest w h z x (x + size_at w x) xs en"
  by (auto simp: rest_def)

lemma rest_append: "rest w h z p a (xs @ ys) en \<longleftrightarrow> (\<exists>r c. seg w h z p a xs r c \<and> rest w h z r c ys en)"
  by (auto simp: rest_def seg_append)

lemma rest_cong:
  assumes "rest w h z p a xs en" and "same_on w w' (unat a) (Suc (unat en))"
  shows "rest w' h z p a xs en"
proof -
  obtain q where q: "seg w h z p a xs q en" "end_ok w q en" using assms(1) by (auto simp: rest_def)
  have "seg w' h z p a xs q en" using seg_cong [OF q(1)] same_on_sub [OF assms(2)] by simp
  moreover have "mw_elem w' en = mw_elem w en" using seg_span(1) [OF q(1)] by (intro same_onD [OF assms(2)]) simp_all
  ultimately show ?thesis using q(2) by (auto simp: rest_def end_ok_def)
qed

lemma rest_le: "rest w h z p a xs en \<Longrightarrow> unat a \<le> unat en"
  using seg_span(1) by (auto simp: rest_def)

text \<open>A new predecessor.\<close>

lemma rest_prev:
  assumes "rest w h z p a xs en" and "\<And>x. unat a < unat x \<Longrightarrow> unat x \<le> unat en \<Longrightarrow> mw_elem w' x = mw_elem w x"
    and "mw_elem w' a = (mw_elem w a)\<lparr>e_prev := p'\<rparr>"
  shows "rest w' h z p' a xs en"
proof (cases xs)
  case Nil
  then show ?thesis using assms by (simp add: rest_simps end_ok_def)
next
  case (Cons x ys)
  then have x: "a = x" "elem_ok w h z x" "rest w h z x (x + size_at w x) ys en" using assms(1) by (simp_all add: rest_simps)
  have sz: "128 \<le> unat (size_at w x)" "unat x + unat (size_at w x) < 2 ^ 64" using x(2) by (simp_all add: elem_ok_def)
  have e: "unat (x + size_at w x) = unat x + unat (size_at w x)" by (rule elem_end [OF x(2)])
  have s: "size_at w' x = size_at w x" using assms(3) x(1) by (simp add: size_at_def)
  have "unat (x + 64) = unat x + 64" using sz by (intro unat_plus_line) simp
  then have "mw_elem w' (x + 64) = mw_elem w (x + 64)" using rest_le [OF x(3)] e sz x(1) by (intro assms(2)) simp_all
  then have "elem_ok w' h z x" using x(2) assms(3) x(1) by (simp add: elem_ok_def size_at_def pad_at_def)
  moreover have "rest w' h z x (x + size_at w x) ys en"
    by (rule rest_cong [OF x(3)]) (use assms(2) x(1) e sz in \<open>auto simp: same_on_def\<close>)
  ultimately show ?thesis using Cons x(1) s assms(3) by (simp add: rest_simps)
qed

definition zone_inv :: "malloc_world \<Rightarrow> nat \<Rightarrow> nat \<Rightarrow> u64 list \<Rightarrow> u64 \<Rightarrow> bool" where
  "zone_inv w z h as en \<longleftrightarrow> rest w h z 0 (zone_base (mw_cfg w) z) as en \<and>
     unat en + 64 \<le> unat (zone_base (mw_cfg w) z) + unat (zone_size (mw_cfg w) z) \<and> unat en < unat (zone_base (mw_cfg w) z) + 2 ^ 32 \<and>
     successively (\<lambda>x y. \<not> (fr w x \<and> fr w y)) as"

text \<open>The layout: for each zone of the heap its socket, its elements and its end marker.\<close>

type_synonym layout = "nat \<Rightarrow> (nat \<times> u64 list \<times> u64) option"

definition elems :: "layout \<Rightarrow> nat \<Rightarrow> u64 set" where
  "elems lay h = {a. \<exists>z as en. lay z = Some (h, as, en) \<and> a \<in> set as}"

text \<open>Free elements are in the list of their size, and nothing else is.\<close>

definition listed :: "malloc_world \<Rightarrow> nat \<Rightarrow> u64 set \<Rightarrow> bool" where
  "listed w h S \<longleftrightarrow> (\<forall>i. distinct (h_free_head (mw_heap w h) i) \<and>
     set (h_free_head (mw_heap w h) i) = {a \<in> S. malloc_elem_free_list_index (size_at w a - 64) = i})"

definition heap_inv :: "malloc_world \<Rightarrow> layout \<Rightarrow> bool" where
  "heap_inv w lay \<longleftrightarrow> memzone_ok (mw_cfg w) \<and> (\<forall>z h as en. lay z = Some (h, as, en) \<longrightarrow> z < mc_memzone_idx (mw_cfg w) \<and> zone_inv w z h as en) \<and>
     (\<forall>h. listed w h {a \<in> elems lay h. fr w a})"

lemma heap_invD:
  assumes "heap_inv w lay"
  shows "memzone_ok (mw_cfg w)" "lay z = Some (h, as, en) \<Longrightarrow> z < mc_memzone_idx (mw_cfg w)"
    "lay z = Some (h, as, en) \<Longrightarrow> zone_inv w z h as en" "listed w h {a \<in> elems lay h. fr w a}"
  using assms by (simp_all add: heap_inv_def)

text \<open>The blocks in use: start and length of the data of each busy element.\<close>

definition blk :: "malloc_world \<Rightarrow> u64 \<Rightarrow> u64 \<times> u64" where
  "blk w a = (a + ucast (pad_at w a) + 64, size_at w a - ucast (pad_at w a) - 64)"

definition zone_blocks :: "malloc_world \<Rightarrow> u64 list \<Rightarrow> (u64 \<times> u64) set" where
  "zone_blocks w as = blk w ` {a \<in> set as. \<not> fr w a}"

definition blocks :: "malloc_world \<Rightarrow> layout \<Rightarrow> (u64 \<times> u64) set" where
  "blocks w lay = (\<Union>z. case lay z of None \<Rightarrow> {} | Some (h, as, en) \<Rightarrow> zone_blocks w as)"

subsection \<open>Zones lie apart\<close>

lemma zone_inv_bounds:
  assumes ok: "memzone_ok (mw_cfg w)" and z: "z < mc_memzone_idx (mw_cfg w)" and inv: "zone_inv w z h as en"
  shows "a \<in> set as \<Longrightarrow> elem_ok w h z a" "a \<in> set as \<Longrightarrow> unat (zone_base (mw_cfg w) z) \<le> unat a" "a \<in> set as \<Longrightarrow> unat a + unat (size_at w a) \<le> unat en"
    "distinct as" "unat (zone_base (mw_cfg w) z) \<le> unat en" "2 ^ 33 \<le> unat (zone_base (mw_cfg w) z)"
    "unat en + 64 \<le> unat (zone_base (mw_cfg w) z) + unat (zone_size (mw_cfg w) z)" "unat en + 64 < 2 ^ 64" "unat en < unat (zone_base (mw_cfg w) z) + 2 ^ 32"
proof -
  obtain q where q: "seg w h z 0 (zone_base (mw_cfg w) z) as q en" using inv by (auto simp: zone_inv_def rest_def)
  note s = seg_span [OF q]
  show "a \<in> set as \<Longrightarrow> elem_ok w h z a" "a \<in> set as \<Longrightarrow> unat (zone_base (mw_cfg w) z) \<le> unat a" "a \<in> set as \<Longrightarrow> unat a + unat (size_at w a) \<le> unat en"
    "distinct as" "unat (zone_base (mw_cfg w) z) \<le> unat en" using s by simp_all
  show "2 ^ 33 \<le> unat (zone_base (mw_cfg w) z)" "unat en + 64 \<le> unat (zone_base (mw_cfg w) z) + unat (zone_size (mw_cfg w) z)"
      "unat en < unat (zone_base (mw_cfg w) z) + 2 ^ 32" "unat en + 64 < 2 ^ 64"
    using mz.in_memory [OF ok z] inv by (simp_all add: zone_inv_def)
qed

lemma in_zone:
  assumes "memzone_ok (mw_cfg w)" and "z < mc_memzone_idx (mw_cfg w)" and "zone_inv w z h as en"
    and "unat (zone_base (mw_cfg w) z) \<le> unat x" and "unat x \<le> unat en"
  shows "unat x \<in> zone_area (mw_cfg w) z"
  using zone_inv_bounds(7) [OF assms(1-3)] assms(4,5) by (simp add: zone_area_span span_def)

lemma elem_in_zone:
  assumes "memzone_ok (mw_cfg w)" and "z < mc_memzone_idx (mw_cfg w)" and "zone_inv w z h as en" and "a \<in> set as"
  shows "unat a \<in> zone_area (mw_cfg w) z"
  by (rule in_zone [OF assms(1-3)]) (use zone_inv_bounds(2,3) [OF assms] in simp_all)

lemma other_zone:
  assumes inv: "heap_inv w lay" and z: "z < mc_memzone_idx (mw_cfg w)" and y: "lay y = Some (k, bs, e)" "y \<noteq> z"
    and cfg: "mw_cfg w' = mw_cfg w" and out: "\<And>x. unat x \<notin> zone_area (mw_cfg w) z \<Longrightarrow> mw_elem w' x = mw_elem w x"
  shows "zone_inv w' y k bs e" "a \<in> set bs \<Longrightarrow> mw_elem w' a = mw_elem w a" "zone_blocks w' bs = zone_blocks w bs"
proof -
  note D = heap_invD [OF inv]
  note yz = D(1) D(2) [OF y(1)] D(3) [OF y(1)]
  have ap: "zone_area (mw_cfg w) y \<inter> zone_area (mw_cfg w) z = {}" using memzone_okD(5) [OF D(1) yz(2) z y(2)] .
  have same: "mw_elem w' x = mw_elem w x" if "unat (zone_base (mw_cfg w) y) \<le> unat x" "unat x \<le> unat e" for x
    using in_zone [OF yz that] ap by (intro out) auto
  show el: "mw_elem w' a = mw_elem w a" if "a \<in> set bs" for a
    using zone_inv_bounds(2,3) [OF yz that] by (intro same) simp_all
  have r: "rest w' k y 0 (zone_base (mw_cfg w) y) bs e"
    by (rule rest_cong [of w]) (use yz(3) same in \<open>auto simp: zone_inv_def same_on_def\<close>)
  have "successively (\<lambda>x y. \<not> (fr w' x \<and> fr w' y)) bs = successively (\<lambda>x y. \<not> (fr w x \<and> fr w y)) bs"
    using el by (intro successively_cong) (auto simp: fr_def)
  then show "zone_inv w' y k bs e" using yz(3) r by (simp add: zone_inv_def cfg)
  show "zone_blocks w' bs = zone_blocks w bs"
    using el by (auto simp: zone_blocks_def fr_def blk_def size_at_def pad_at_def image_iff)
qed

text \<open>A block lies inside its element.\<close>

lemma elem_busy:
  assumes "elem_ok w h z a" and "\<not> fr w a"
  shows "unat (fst (blk w a)) = unat a + unat (pad_at w a) + 64" "unat (snd (blk w a)) = unat (size_at w a) - unat (pad_at w a) - 64"
    "unat (pad_at w a) + 128 \<le> unat (size_at w a)" "pad_at w a = 0 \<or> pad_at w a = 64"
proof -
  have e: "unat a + unat (size_at w a) < 2 ^ 64" "128 \<le> unat (size_at w a)"
      "pad_at w a = 0 \<or> pad_at w a = 64 \<and> 192 \<le> unat (size_at w a)"
    using assms by (auto simp: elem_ok_def fr_def)
  then have "unat (pad_at w a) + 128 \<le> unat (size_at w a) \<and> unat (fst (blk w a)) = unat a + unat (pad_at w a) + 64 \<and>
      unat (snd (blk w a)) = unat (size_at w a) - unat (pad_at w a) - 64"
    by (elim disjE conjE) (auto simp: blk_def unat_plus64 unat_sub_le word_le_nat_alt)
  then show "unat (fst (blk w a)) = unat a + unat (pad_at w a) + 64" "unat (snd (blk w a)) = unat (size_at w a) - unat (pad_at w a) - 64"
    "unat (pad_at w a) + 128 \<le> unat (size_at w a)" "pad_at w a = 0 \<or> pad_at w a = 64" using e(3) by auto
qed

lemma block_in_zone:
  assumes "memzone_ok (mw_cfg w)" and "z < mc_memzone_idx (mw_cfg w)" and "zone_inv w z h as en" and "b \<in> zone_blocks w as"
  shows "unat (fst b) \<in> zone_area (mw_cfg w) z"
proof -
  obtain a where a: "a \<in> set as" "\<not> fr w a" "b = blk w a" using assms(4) by (auto simp: zone_blocks_def)
  note e = elem_busy [OF zone_inv_bounds(1) [OF assms(1-3) a(1)] a(2)]
  show ?thesis unfolding a(3)
    by (rule in_zone [OF assms(1-3)]) (use e zone_inv_bounds(2,3) [OF assms(1-3) a(1)] in simp_all)
qed

lemma blocks_split:
  "blocks w lay = (case lay z of None \<Rightarrow> {} | Some (h, as, en) \<Rightarrow> zone_blocks w as) \<union>
     (\<Union>y \<in> - {z}. case lay y of None \<Rightarrow> {} | Some (h, as, en) \<Rightarrow> zone_blocks w as)"
proof -
  have "UNIV = insert z (- {z})" by auto
  then show ?thesis unfolding blocks_def by (metis (no_types, lifting) UN_insert)
qed

text \<open>A change of one zone.\<close>

lemma zone_step:
  assumes inv: "heap_inv w lay" and z: "lay z = Some (h, as, en)" and cfg: "mw_cfg w' = mw_cfg w"
    and out: "\<And>x. unat x \<notin> zone_area (mw_cfg w) z \<Longrightarrow> mw_elem w' x = mw_elem w x"
    and zi: "zone_inv w' z h as' en"
    and li: "listed w' h ({a \<in> elems lay h - set as. fr w a} \<union> {a \<in> set as'. fr w' a})"
    and oth: "\<And>k. k \<noteq> h \<Longrightarrow> h_free_head (mw_heap w' k) = h_free_head (mw_heap w k)"
  shows "heap_inv w' (lay(z \<mapsto> (h, as', en)))"
    "blocks w' (lay(z \<mapsto> (h, as', en))) = zone_blocks w' as' \<union> (blocks w lay - zone_blocks w as)"
proof -
  let ?lay = "lay(z \<mapsto> (h, as', en))"
  note D = heap_invD [OF inv]
  have zi': "z < mc_memzone_idx (mw_cfg w)" by (rule D(2) [OF z])
  note other = other_zone [OF inv zi' _ _ cfg out]
  have apart: "zone_area (mw_cfg w) y \<inter> zone_area (mw_cfg w) z = {}" if "lay y = Some (k, bs, e)" "y \<noteq> z" for y k bs e
    using memzone_okD(5) [OF D(1) D(2) [OF that(1)] zi' that(2)] .
  have notin: "a \<notin> set as" if "lay y = Some (k, bs, e)" "y \<noteq> z" "a \<in> set bs" for y k bs e a
    using apart [OF that(1,2)] elem_in_zone [OF D(1) D(2) [OF that(1)] D(3) [OF that(1)] that(3)]
      elem_in_zone [OF D(1) zi' D(3) [OF z], of a] by blast
  have ez: "elems ?lay h = (elems lay h - set as) \<union> set as'"
  proof (rule set_eqI)
    fix x
    have "x \<in> elems ?lay h" if y: "lay y = Some (h, bs, e)" "x \<in> set bs" "x \<notin> set as" for y bs e
    proof -
      have "y \<noteq> z" using y z by auto
      then have "?lay y = Some (h, bs, e)" using y(1) by simp
      then show ?thesis using y(2) unfolding elems_def by blast
    qed
    moreover have "x \<in> elems ?lay h" if "x \<in> set as'" using that unfolding elems_def by (auto intro!: exI [of _ z])
    moreover have "x \<in> set as' \<or> x \<in> elems lay h \<and> x \<notin> set as" if "x \<in> elems ?lay h"
      using that notin by (auto simp: elems_def split: if_splits)
    ultimately show "x \<in> elems ?lay h \<longleftrightarrow> x \<in> (elems lay h - set as) \<union> set as'" by (auto simp: elems_def [of lay])
  qed
  have eo: "elems ?lay k = elems lay k" if "k \<noteq> h" for k
  proof -
    have "?lay y = Some (k, bs, e) \<longleftrightarrow> lay y = Some (k, bs, e)" for y bs e using z that by auto
    then show ?thesis by (simp add: elems_def)
  qed
  have same: "mw_elem w' a = mw_elem w a" if "a \<in> elems lay k" "k \<noteq> h \<or> a \<notin> set as" for a k
    using that other(2) z by (fastforce simp: elems_def)
  have lists: "listed w' k {a \<in> elems ?lay k. fr w' a}" for k
  proof (cases "k = h")
    case True
    have "{a \<in> elems ?lay h. fr w' a} = {a \<in> elems lay h - set as. fr w a} \<union> {a \<in> set as'. fr w' a}"
      unfolding ez using same [of _ h] by (auto simp: fr_def)
    then show ?thesis using li True by simp
  next
    case False
    have "{a \<in> elems ?lay k. fr w' a} = {a \<in> elems lay k. fr w a}" unfolding eo [OF False] using same False by (auto simp: fr_def)
    moreover have "size_at w' a = size_at w a" if "a \<in> elems lay k" for a using same [OF that] False by (simp add: size_at_def)
    ultimately show ?thesis using D(4) [of k] oth [OF False] by (auto simp: listed_def)
  qed
  have zones: "y < mc_memzone_idx (mw_cfg w') \<and> zone_inv w' y k bs e" if "?lay y = Some (k, bs, e)" for y k bs e
    using that zi zi' other(1) [of y k bs e] D(2) [of y k bs e] cfg by (auto split: if_splits)
  show "heap_inv w' ?lay" using D(1) cfg zones lists unfolding heap_inv_def by simp
  let ?U = "\<Union>y \<in> - {z}. case lay y of None \<Rightarrow> {} | Some (k, bs, e) \<Rightarrow> zone_blocks w bs"
  have "blocks w' ?lay = zone_blocks w' as' \<union> ?U"
  proof -
    have "(case ?lay y of None \<Rightarrow> {} | Some (k, bs, e) \<Rightarrow> zone_blocks w' bs) = (case lay y of None \<Rightarrow> {} | Some (k, bs, e) \<Rightarrow> zone_blocks w bs)"
      if "y \<noteq> z" for y using that other(3) by (auto split: option.splits)
    then have "(\<Union>y \<in> - {z}. case ?lay y of None \<Rightarrow> {} | Some (k, bs, e) \<Rightarrow> zone_blocks w' bs) = ?U" by (intro SUP_cong) auto
    then show ?thesis using blocks_split [of w' ?lay z] by simp
  qed
  moreover have "blocks w lay = zone_blocks w as \<union> ?U" using blocks_split [of w lay z] z by simp
  moreover have "?U \<inter> zone_blocks w as = {}"
  proof -
    have "b \<notin> zone_blocks w as" if "lay y = Some (k, bs, e)" "y \<noteq> z" "b \<in> zone_blocks w bs" for y k bs e b
      using apart [OF that(1,2)] block_in_zone [OF D(1) D(2) [OF that(1)] D(3) [OF that(1)] that(3)]
        block_in_zone [OF D(1) zi' D(3) [OF z], of b] by blast
    then show ?thesis by (fastforce split: option.splits)
  qed
  ultimately show "blocks w' ?lay = zone_blocks w' as' \<union> (blocks w lay - zone_blocks w as)" by blast
qed

section \<open>The free lists\<close>

text \<open>What list operations leave alone.\<close>

definition still :: "nat \<Rightarrow> malloc_world \<Rightarrow> malloc_world \<Rightarrow> bool" where
  "still h w w' \<longleftrightarrow> mw_cfg w' = mw_cfg w \<and> mw_byte w' = mw_byte w \<and> (\<forall>k. k \<noteq> h \<longrightarrow> mw_heap w' k = mw_heap w k) \<and>
     h_lock (mw_heap w' h) = h_lock (mw_heap w h)"

lemma still_refl [simp]: "still h w w" by (simp add: still_def)

lemma still_trans: "still h w w' \<Longrightarrow> still h w' w'' \<Longrightarrow> still h w w''" by (simp add: still_def)

lemma still_upd_elem [simp]: "still h w (upd_elem a f w)" by (simp add: still_def upd_elem_def)

lemma stillD: "still h w w' \<Longrightarrow> mw_cfg w' = mw_cfg w" "still h w w' \<Longrightarrow> k \<noteq> h \<Longrightarrow> mw_heap w' k = mw_heap w k"
  "still h w w' \<Longrightarrow> h_lock (mw_heap w' k) = h_lock (mw_heap w k)" "still h w w' \<Longrightarrow> mw_byte w' = mw_byte w"
  by (auto simp: still_def)

lemma mw_elem_upd [simp]:
  "mw_elem (upd_elem a f w) = (mw_elem w)(a := f (mw_elem w a))" "mw_elem (upd_heap h g w) = mw_elem w"
  "mw_heap (upd_elem a f w) = mw_heap w" "mw_cfg (upd_elem a f w) = mw_cfg w"
  "mw_heap (upd_heap h g w) = (mw_heap w)(h := g (mw_heap w h))" "mw_cfg (upd_heap h g w) = mw_cfg w"
  "mw_byte (upd_elem a f w) = mw_byte w" "mw_byte (upd_heap h g w) = mw_byte w"
  by (simp_all add: upd_elem_def upd_heap_def)

lemma free_list_index_less: "malloc_elem_free_list_index n < RTE_HEAP_NUM_FREELISTS"
  by (simp add: malloc_elem_free_list_index_def RTE_HEAP_NUM_FREELISTS_def Let_def)

lemma listed_elem: "listed w h S \<Longrightarrow> a \<notin> S \<Longrightarrow> listed (upd_elem a f w) h S"
  by (auto simp: listed_def size_at_def)

lemma list_remove:
  assumes "listed w h S" and "a \<in> S" and "e_heap (mw_elem w a) = h"
  shows "\<exists>w'. elem_free_list_remove a w = Inr w' \<and> listed w' h (S - {a}) \<and> mw_elem w' = mw_elem w \<and> still h w w'"
proof -
  let ?w = "upd_heap h (\<lambda>x. x\<lparr>h_free_head := \<lambda>i. filter (\<lambda>b. b \<noteq> a) (h_free_head x i)\<rparr>) w"
  have "a \<in> set (h_free_head (mw_heap w h) (malloc_elem_free_list_index (size_at w a - 64)))"
    using assms(1,2) by (simp add: listed_def)
  then have "elem_free_list_remove a w = Inr ?w"
    using assms(3) free_list_index_less by (auto simp: elem_free_list_remove_def Let_def)
  moreover have "listed ?w h (S - {a})" using assms(1) by (auto simp: listed_def size_at_def)
  ultimately show ?thesis by (auto simp: still_def)
qed

lemma list_insert:
  assumes "listed w h S" and "a \<notin> S" and "e_heap (mw_elem w a) = h"
  shows "listed (malloc_elem_free_list_insert a w) h (insert a S)"
    "mw_elem (malloc_elem_free_list_insert a w) = (mw_elem w)(a := (mw_elem w a)\<lparr>e_state := ELEM_FREE\<rparr>)"
    "still h w (malloc_elem_free_list_insert a w)"
proof -
  show e: "mw_elem (malloc_elem_free_list_insert a w) = (mw_elem w)(a := (mw_elem w a)\<lparr>e_state := ELEM_FREE\<rparr>)"
    by (simp add: malloc_elem_free_list_insert_def Let_def)
  show "still h w (malloc_elem_free_list_insert a w)" using assms(3) by (simp add: malloc_elem_free_list_insert_def Let_def still_def)
  have s: "size_at (malloc_elem_free_list_insert a w) x = size_at w x" for x by (simp add: size_at_def e)
  have l: "h_free_head (mw_heap (malloc_elem_free_list_insert a w) h) i =
      (if i = malloc_elem_free_list_index (size_at w a - 64) then a # h_free_head (mw_heap w h) i else h_free_head (mw_heap w h) i)" for i
    using assms(3) by (simp add: malloc_elem_free_list_insert_def Let_def size_at_def MALLOC_ELEM_HEADER_LEN_def)
  show "listed (malloc_elem_free_list_insert a w) h (insert a S)"
    unfolding listed_def l s using assms(1,2) by (auto simp: listed_def)
qed

section \<open>Where data fits\<close>

lemma start_pt:
  assumes ok: "elem_ok w h z a" and low: "2 ^ 33 \<le> unat a" and sz: "unat sz < 2 ^ 32" and k: "6 \<le> k" "k < 32" and al: "(ucast align :: u64) = 2 ^ k"
    and n: "n = elem_start_pt w a sz align" "n \<noteq> 0"
  shows "unat a \<le> unat n" "unat n + 64 + unat sz \<le> unat a + unat (size_at w a)" "2 ^ k dvd unat n + 64" "64 dvd unat n"
proof -
  have e: "unat a + unat (size_at w a) < 2 ^ 64" using ok by (simp add: elem_ok_def)
  let ?top = "a + size_at w a"
  have en: "unat ?top = unat a + unat (size_at w a)" using e by (rule unat_plus64)
  have "sz \<le> ?top" using low sz en by (simp add: word_le_nat_alt)
  then have d: "unat (?top - sz) = unat a + unat (size_at w a) - unat sz" using en by (simp add: unat_sub_le)
  let ?s = "RTE_ALIGN_FLOOR (?top - sz) (2 ^ k)"
  have k2: "(2::nat) ^ k \<le> 2 ^ 31" using k by (intro power_increasing) simp_all
  have k64: "k < 64" using k by simp
  have f: "2 ^ k dvd unat ?s" "unat ?s \<le> unat a + unat (size_at w a) - unat sz" "unat a + unat (size_at w a) - unat sz < unat ?s + 2 ^ k"
    using align_floor [OF k64, of "?top - sz"] unfolding d by simp_all
  have big: "64 \<le> unat ?s" using f(3) k2 low sz by simp
  have ns: "n = ?s - 64" "a \<le> n"
    using n by (auto simp: elem_start_pt_def Let_def size_at_def al MALLOC_ELEM_HEADER_LEN_def MALLOC_ELEM_TRAILER_LEN_def not_less split: if_splits)
  have un: "unat n = unat ?s - 64" using ns(1) big by (simp add: unat_sub_le word_le_nat_alt)
  show "unat a \<le> unat n" using ns(2) by (simp add: word_le_nat_alt)
  show "unat n + 64 + unat sz \<le> unat a + unat (size_at w a)" using un big f(2) low sz by simp
  show dv: "2 ^ k dvd unat n + 64" using un big f(1) by simp
  have "(64::nat) dvd 2 ^ k" using le_imp_power_dvd [OF k(1), of "2 :: nat"] by simp
  then have "64 dvd unat n + 64" by (rule dvd_trans [OF _ dv])
  then show "64 dvd unat n" by (simp add: dvd_add_left_iff)
qed

section \<open>Allocation inside an element\<close>

lemma listed_keep: "listed w h S \<Longrightarrow> (\<And>e. e_size (f e) = e_size e) \<Longrightarrow> listed (upd_elem a f w) h S"
  by (auto simp: listed_def size_at_def)

lemma zone_split:
  assumes "zone_inv w z h (xs @ a # ys) en"
  obtains "seg w h z 0 (zone_base (mw_cfg w) z) xs (e_prev (mw_elem w a)) a" and "elem_ok w h z a" and "rest w h z a (a + size_at w a) ys en"
  using assms by (auto simp: zone_inv_def rest_append rest_simps)

lemma zone_gap:
  assumes "zone_inv w z h (xs @ a # ys) en"
  shows "x \<in> set xs \<Longrightarrow> unat x + unat (size_at w x) \<le> unat a" "x \<in> set ys \<Longrightarrow> unat a + unat (size_at w a) \<le> unat x"
    "unat a + unat (size_at w a) \<le> unat en" "unat (zone_base (mw_cfg w) z) \<le> unat a"
proof -
  obtain r: "seg w h z 0 (zone_base (mw_cfg w) z) xs (e_prev (mw_elem w a)) a" "elem_ok w h z a" "rest w h z a (a + size_at w a) ys en"
    using zone_split [OF assms] .
  then obtain q where q: "seg w h z a (a + size_at w a) ys q en" by (auto simp: rest_def)
  show "x \<in> set xs \<Longrightarrow> unat x + unat (size_at w x) \<le> unat a" "unat (zone_base (mw_cfg w) z) \<le> unat a" using seg_span [OF r(1)] by simp_all
  show "x \<in> set ys \<Longrightarrow> unat a + unat (size_at w a) \<le> unat x" "unat a + unat (size_at w a) \<le> unat en"
    using seg_span [OF q] elem_end [OF r(2)] by simp_all
qed

lemma elemsI: "lay z = Some (h, as, en) \<Longrightarrow> x \<in> set as \<Longrightarrow> x \<in> elems lay h"
  unfolding elems_def by blast

text \<open>No element starts inside another one.\<close>

lemma not_elem:
  assumes inv: "heap_inv w lay" and z: "lay z = Some (h, xs @ a # ys, en)" and x: "unat a < unat x" "unat x < unat a + unat (size_at w a)"
  shows "x \<notin> elems lay k"
proof
  assume "x \<in> elems lay k"
  then obtain y bs e where y: "lay y = Some (k, bs, e)" "x \<in> set bs" by (auto simp: elems_def)
  note D = heap_invD [OF inv]
  note zz = D(1) D(2) [OF z] D(3) [OF z] and yy = D(1) D(2) [OF y(1)] D(3) [OF y(1)]
  note g = zone_gap [OF zz(3)]
  show False
  proof (cases "y = z")
    case True
    then have "x \<in> set (xs @ a # ys)" using y z by simp
    then show False using g(1,2) [of x] x by auto
  next
    case False
    then show False
      using memzone_okD(5) [OF D(1) yy(2) zz(2)] elem_in_zone [OF yy y(2)] in_zone [OF zz, of x] g(3,4) x by auto
  qed
qed

lemma adj_mono:
  "successively (\<lambda>x y. \<not> (fr w x \<and> fr w y)) as \<Longrightarrow> (\<And>x. x \<in> set as \<Longrightarrow> fr w' x \<Longrightarrow> fr w x) \<Longrightarrow>
   successively (\<lambda>x y. \<not> (fr w' x \<and> fr w' y)) as"
  by (erule successively_mono) blast

text \<open>The blocks of a zone differ.\<close>

lemma blk_inj:
  assumes ok: "memzone_ok (mw_cfg w)" and z: "z < mc_memzone_idx (mw_cfg w)" and inv: "zone_inv w z h as en"
  shows "inj_on (blk w) {a \<in> set as. \<not> fr w a}"
proof (rule inj_onI)
  fix a b
  assume a: "a \<in> {a \<in> set as. \<not> fr w a}" and b: "b \<in> {a \<in> set as. \<not> fr w a}" and eq: "blk w a = blk w b"
  then have m: "a \<in> set as" "b \<in> set as" "\<not> fr w a" "\<not> fr w b" by auto
  note ea = elem_busy [OF zone_inv_bounds(1) [OF ok z inv m(1)] m(3)] and eb = elem_busy [OF zone_inv_bounds(1) [OF ok z inv m(2)] m(4)]
  show "a = b"
  proof (rule ccontr)
    assume "a \<noteq> b"
    obtain xs ys where as: "as = xs @ a # ys" using m(1) split_list by metis
    have "b \<in> set xs \<or> b \<in> set ys" using m(2) as \<open>a \<noteq> b\<close> by auto
    then have "unat b + unat (size_at w b) \<le> unat a \<or> unat a + unat (size_at w a) \<le> unat b"
      using zone_gap(1,2) [OF inv [unfolded as]] by blast
    then show False using ea(1,3) eb(1,3) eq by simp
  qed
qed

text \<open>Elements in the middle of a zone replaced by others over the same span; the header behind them may get a new predecessor.\<close>

lemma part_step:
  assumes inv: "heap_inv w lay" and z: "lay z = Some (h, xs @ as @ ys, en)"
    and old: "seg w h z 0 (zone_base (mw_cfg w) z) xs r a" "seg w h z r a as q c" "rest w h z q c ys en"
    and still: "still h w w'" and out: "\<And>x. unat x < unat a \<or> unat c < unat x \<Longrightarrow> mw_elem w' x = mw_elem w x"
    and at_end: "mw_elem w' c = (mw_elem w c)\<lparr>e_prev := q'\<rparr>" and new: "seg w' h z r a bs q' c"
    and adj: "successively (\<lambda>x y. \<not> (fr w' x \<and> fr w' y)) (xs @ bs @ ys)"
    and li: "listed w' h ({x \<in> elems lay h - set as. fr w x} \<union> {x \<in> set bs. fr w' x})"
  shows "heap_inv w' (lay(z \<mapsto> (h, xs @ bs @ ys, en)))"
    "blocks w' (lay(z \<mapsto> (h, xs @ bs @ ys, en))) = blk w' ` {x \<in> set bs. \<not> fr w' x} \<union> (blocks w lay - blk w ` {x \<in> set as. \<not> fr w x})"
proof -
  let ?as = "xs @ as @ ys" and ?bs = "xs @ bs @ ys" and ?base = "zone_base (mw_cfg w) z"
  note D = heap_invD [OF inv]
  note zz = D(1) D(2) [OF z] D(3) [OF z]
  have cfg: "mw_cfg w' = mw_cfg w" by (rule stillD(1) [OF still])
  obtain e where e: "seg w h z q c ys e en" using old(3) by (auto simp: rest_def)
  have le: "unat ?base \<le> unat a" "unat a \<le> unat c" "unat c \<le> unat en" by (rule seg_span(1) [OF old(1)], rule seg_span(1) [OF old(2)], rule seg_span(1) [OF e])
  have xs: "unat x + unat (size_at w x) \<le> unat a" "mw_elem w' x = mw_elem w x" if "x \<in> set xs" for x
  proof -
    have "128 \<le> unat (size_at w x)" using seg_span(3) [OF old(1) that] by (simp add: elem_ok_def)
    then show "unat x + unat (size_at w x) \<le> unat a" "mw_elem w' x = mw_elem w x" using seg_span(5) [OF old(1) that] out [of x] by simp_all
  qed
  have ys: "fr w' x = fr w x" "size_at w' x = size_at w x" "blk w' x = blk w x" if "x \<in> set ys" for x
  proof -
    have "x = c \<or> unat c < unat x" using seg_span(4) [OF e that] by (auto simp: le_less word_unat_eq_iff)
    then have "e_state (mw_elem w' x) = e_state (mw_elem w x) \<and> e_size (mw_elem w' x) = e_size (mw_elem w x) \<and> e_pad (mw_elem w' x) = e_pad (mw_elem w x)"
      using out [of x] at_end by auto
    then show "fr w' x = fr w x" "size_at w' x = size_at w x" "blk w' x = blk w x" by (simp_all add: fr_def size_at_def blk_def pad_at_def)
  qed
  have "seg w' h z 0 ?base xs r a" by (rule seg_cong [OF old(1)]) (use out in \<open>auto simp: same_on_def\<close>)
  moreover have "rest w' h z q' c ys en" by (rule rest_prev [OF old(3) _ at_end]) (simp add: out)
  ultimately have "rest w' h z 0 ?base ?bs en" using new by (auto simp: rest_append)
  then have zi: "zone_inv w' z h ?bs en" using zz(3) adj by (simp add: zone_inv_def cfg)
  have outz: "mw_elem w' x = mw_elem w x" if "unat x \<notin> zone_area (mw_cfg w) z" for x
    by (rule out, rule ccontr) (use that in_zone [OF zz, of x] le in auto)
  have disj: "distinct ?as" by (rule zone_inv_bounds(4) [OF zz])
  have inel: "x \<in> elems lay h" if "x \<in> set ?as" for x by (rule elemsI [where lay = lay, OF z that])
  have "{x \<in> elems lay h - set ?as. fr w x} \<union> {x \<in> set ?bs. fr w' x} = {x \<in> elems lay h - set as. fr w x} \<union> {x \<in> set bs. fr w' x}"
  proof -
    have "fr w' x = fr w x" if "x \<in> set xs \<or> x \<in> set ys" for x using that xs(2) ys(1) by (auto simp: fr_def)
    then show ?thesis using inel disj by auto
  qed
  then have li': "listed w' h ({x \<in> elems lay h - set ?as. fr w x} \<union> {x \<in> set ?bs. fr w' x})" using li by simp
  have oth: "h_free_head (mw_heap w' k) = h_free_head (mw_heap w k)" if "k \<noteq> h" for k using stillD(2) [OF still that] by simp
  note st = zone_step [OF inv z cfg outz zi li' oth]
  show "heap_inv w' (lay(z \<mapsto> (h, ?bs, en)))" by (rule st(1))
  let ?R = "blk w ` {x \<in> set xs \<union> set ys. \<not> fr w x}"
  have R: "blk w' ` {x \<in> set xs \<union> set ys. \<not> fr w' x} = ?R"
  proof -
    have "fr w' x = fr w x" "blk w' x = blk w x" if "x \<in> set xs \<union> set ys" for x
      using that xs(2) ys(1,3) by (auto simp: fr_def blk_def size_at_def pad_at_def)
    then show ?thesis by (intro image_cong) auto
  qed
  have sp: "zone_blocks v (xs @ cs @ ys) = blk v ` {x \<in> set cs. \<not> fr v x} \<union> blk v ` {x \<in> set xs \<union> set ys. \<not> fr v x}" for v cs
    by (auto simp: zone_blocks_def)
  have dj: "?R \<inter> blk w ` {x \<in> set as. \<not> fr w x} = {}"
  proof -
    have "inj_on (blk w) {x \<in> set ?as. \<not> fr w x}" by (rule blk_inj [OF zz])
    then have "blk w x \<noteq> blk w y" if "x \<in> set xs \<union> set ys" "\<not> fr w x" "y \<in> set as" "\<not> fr w y" for x y
      using that disj inj_onD [of "blk w" _ x y] by auto
    then show ?thesis by blast
  qed
  have sub: "blk w ` {x \<in> set as. \<not> fr w x} \<union> ?R \<subseteq> blocks w lay" using blocks_split [of w lay z] z unfolding sp [symmetric] by auto
  have un: "N \<union> R \<union> (B - (A \<union> R)) = N \<union> (B - A)" if "R \<inter> A = {}" "A \<union> R \<subseteq> B" for N R A B :: "(u64 \<times> u64) set" using that by blast
  have "blocks w' (lay(z \<mapsto> (h, ?bs, en))) = zone_blocks w' ?bs \<union> (blocks w lay - zone_blocks w ?as)" by (rule st(2))
  also have "\<dots> = blk w' ` {x \<in> set bs. \<not> fr w' x} \<union> (blocks w lay - blk w ` {x \<in> set as. \<not> fr w x})"
    unfolding sp R by (rule un [OF dj sub])
  finally show "blocks w' (lay(z \<mapsto> (h, ?bs, en))) = blk w' ` {x \<in> set bs. \<not> fr w' x} \<union> (blocks w lay - blk w ` {x \<in> set as. \<not> fr w x})" .
qed
lemma rest_head: "rest w h z p a xs en \<Longrightarrow> e_prev (mw_elem w a) = p"
  by (cases xs) (auto simp: rest_simps end_ok_def)

lemma not_elem_line:
  assumes "heap_inv w lay" and "lay z = Some (h, xs @ a # ys, en)"
  shows "a + 64 \<notin> elems lay k" "unat (a + 64) = unat a + 64"
proof -
  have "elem_ok w h z a" using zone_split [OF heap_invD(3) [OF assms]] .
  then have sz: "128 \<le> unat (size_at w a)" "unat a + unat (size_at w a) < 2 ^ 64" by (simp_all add: elem_ok_def)
  then show n: "unat (a + 64) = unat a + 64" by (intro unat_plus_line) simp
  show "a + 64 \<notin> elems lay k" by (rule not_elem [OF assms]) (use n sz in simp_all)
qed

text \<open>The whole element is given out, perhaps with padding in front.\<close>

lemma alloc_pad_ok:
  assumes inv: "heap_inv w lay" and z: "lay z = Some (h, xs @ a # ys, en)" and free: "fr w a"
    and p: "p = 0 \<or> p = 64 \<and> 192 \<le> unat (size_at w a)"
    and w2: "mw_elem w2 = (if p = 0 then (mw_elem w)(a := (mw_elem w a)\<lparr>e_state := ELEM_BUSY, e_pad := p\<rparr>)
       else (mw_elem w)(a := (mw_elem w a)\<lparr>e_state := ELEM_BUSY, e_pad := p\<rparr>,
                        a + 64 := (mw_elem w (a + 64))\<lparr>e_pad := p, e_state := ELEM_PAD, e_size := s\<rparr>))"
      "still h w w2" "mw_heap w2 = mw_heap w"
  shows "\<exists>w'. elem_free_list_remove a w2 = Inr w' \<and> heap_inv w' lay \<and> still h w w' \<and>
    blocks w' lay = insert (a + ucast p + 64, size_at w a - ucast p - 64) (blocks w lay)"
proof -
  note D = heap_invD [OF inv]
  note zi = D(3) [OF z]
  obtain r: "seg w h z 0 (zone_base (mw_cfg w) z) xs (e_prev (mw_elem w a)) a" "elem_ok w h z a" "rest w h z a (a + size_at w a) ys en"
    using zone_split [OF zi] .
  have sz: "128 \<le> unat (size_at w a)" using r(2) by (simp add: elem_ok_def)
  note pn = not_elem_line [where lay = lay, OF inv z]
  have ne: "a + 64 \<noteq> a" using pn(2) by auto
  have ain: "a \<in> elems lay h" by (rule elemsI [where lay = lay, OF z]) simp
  have "size_at w2 x = size_at w x" if "x \<in> elems lay h" for x using that pn by (auto simp: size_at_def w2)
  then have "listed w2 h {x \<in> elems lay h. fr w x}" using D(4) [of h] w2(3) by (auto simp: listed_def)
  moreover have "e_heap (mw_elem w2 a) = h" using r(2) ne by (auto simp: w2 elem_ok_def)
  ultimately obtain w' where w': "elem_free_list_remove a w2 = Inr w'" "listed w' h ({x \<in> elems lay h. fr w x} - {a})" "mw_elem w' = mw_elem w2" "still h w2 w'"
    using list_remove [of w2 h _ a] ain free by auto
  have st: "still h w w'" by (rule still_trans [OF w2(2) w'(4)])
  have e': "elem_ok w' h z a" "size_at w' a = size_at w a" "e_prev (mw_elem w' a) = e_prev (mw_elem w a)" "pad_at w' a = p" "\<not> fr w' a"
    using r(2) p ne by (auto simp: elem_ok_def size_at_def pad_at_def fr_def w'(3) w2)
  have out: "mw_elem w' x = mw_elem w x" if "unat x < unat a \<or> unat a + unat (size_at w a) \<le> unat x" for x
    using that pn(2) sz by (auto simp: w'(3) w2)
  have fr': "fr w' x \<Longrightarrow> fr w x" if "x \<in> elems lay h" for x using that pn ne by (auto simp: fr_def w'(3) w2 split: if_splits)
  have inel: "x \<in> elems lay h" if "x \<in> set (xs @ a # ys)" for x by (rule elemsI [where lay = lay, OF z that])
  have li: "listed w' h ({x \<in> elems lay h - set [a]. fr w x} \<union> {x \<in> set [a]. fr w' x})"
  proof -
    have "{x \<in> elems lay h. fr w x} - {a} = {x \<in> elems lay h - set [a]. fr w x} \<union> {x \<in> set [a]. fr w' x}" using e'(5) by auto
    then show ?thesis using w'(2) by simp
  qed
  have z1: "lay z = Some (h, xs @ [a] @ ys, en)" using z by simp
  have old: "seg w h z (e_prev (mw_elem w a)) a [a] a (a + size_at w a)" using r(2) by simp
  have new: "seg w' h z (e_prev (mw_elem w a)) a [a] a (a + size_at w a)" using e' by simp
  have at_end: "mw_elem w' (a + size_at w a) = (mw_elem w (a + size_at w a))\<lparr>e_prev := a\<rparr>"
    using out [of "a + size_at w a"] elem_end [OF r(2)] rest_head [OF r(3)] by simp
  have adj: "successively (\<lambda>x y. \<not> (fr w' x \<and> fr w' y)) (xs @ [a] @ ys)"
    by (rule adj_mono [of w]) (use zi fr' inel in \<open>auto simp: zone_inv_def\<close>)
  have out': "mw_elem w' x = mw_elem w x" if "unat x < unat a \<or> unat (a + size_at w a) < unat x" for x
    using out [of x] that elem_end [OF r(2)] by auto
  note P = part_step [where lay = lay, OF inv z1 r(1) old r(3) st out' at_end new adj li]
  have "lay(z \<mapsto> (h, xs @ [a] @ ys, en)) = lay" using z by auto
  moreover have "blk w' a = (a + ucast p + 64, size_at w a - ucast p - 64)" using e' by (simp add: blk_def)
  ultimately show ?thesis using w'(1) P st free e'(5) by auto
qed
text \<open>The element is split, its upper part is given out.\<close>

lemma ucast_down_up: "unat (x :: u64) < 2 ^ 32 \<Longrightarrow> ucast (ucast x :: u32) = x"
  by (simp add: word_unat_eq_iff unsigned_ucast_eq unsigned_take_bit_eq take_bit_nat_eq_self)

lemma split_elem_eq:
  assumes ok: "elem_ok w h z a" and n: "unat a + 128 \<le> unat n" "unat n + 128 \<le> unat a + unat (size_at w a)"
  shows "split_elem a n w = upd_elem a (e_size_update (\<lambda>_. n - a)) (upd_elem (a + size_at w a) (e_prev_update (\<lambda>_. n))
     (upd_elem n (\<lambda>_. \<lparr>e_heap = h, e_prev = a, e_mz = z, e_state = ELEM_FREE, e_pad = 0, e_size = size_at w a - (n - a)\<rparr>) w))"
    "unat (n - a) = unat n - unat a" "unat (size_at w a - (n - a)) = unat (size_at w a) - (unat n - unat a)"
proof -
  have sz: "unat (size_at w a) < 2 ^ 32" "e_heap (mw_elem w a) = h" "e_mz (mw_elem w a) = z" using ok by (simp_all add: elem_ok_def)
  show d: "unat (n - a) = unat n - unat a" using n by (simp add: unat_sub_le word_le_nat_alt)
  have le: "n - a \<le> size_at w a" using d n by (simp add: word_le_nat_alt)
  show e: "unat (size_at w a - (n - a)) = unat (size_at w a) - (unat n - unat a)" using unat_sub_le [OF le] d by simp
  have u: "ucast (ucast (n - a) :: u32) = n - a" "ucast (ucast (size_at w a - (n - a)) :: u32) = size_at w a - (n - a)"
    by (rule ucast_down_up; use d e sz n in simp)+
  show "split_elem a n w = upd_elem a (e_size_update (\<lambda>_. n - a)) (upd_elem (a + size_at w a) (e_prev_update (\<lambda>_. n))
     (upd_elem n (\<lambda>_. \<lparr>e_heap = h, e_prev = a, e_mz = z, e_state = ELEM_FREE, e_pad = 0, e_size = size_at w a - (n - a)\<rparr>) w))"
    using u sz by (simp add: split_elem_def Let_def malloc_elem_init_def upd_elem_def size_at_def)
qed

lemma seg_aligned: "seg w h z p a xs q b \<Longrightarrow> 64 dvd unat a \<Longrightarrow> x \<in> set xs \<Longrightarrow> 64 dvd unat x"
proof (induction xs arbitrary: p a)
  case (Cons y xs)
  then have y: "a = y" "elem_ok w h z y" "seg w h z y (y + size_at w y) xs q b" by simp_all
  have "64 dvd unat (y + size_at w y)" unfolding elem_end [OF y(2)] using y Cons.prems(2) by (simp add: elem_ok_def)
  then show ?case using Cons.IH [OF y(3)] Cons.prems y(1) by auto
qed simp

lemma elem_aligned:
  assumes "heap_inv w lay" and "lay z = Some (h, as, en)" and "a \<in> set as"
  shows "64 dvd unat a"
proof -
  note D = heap_invD [OF assms(1)]
  obtain q where "seg w h z 0 (zone_base (mw_cfg w) z) as q en" using D(3) [OF assms(2)] by (auto simp: zone_inv_def rest_def)
  then show ?thesis using seg_aligned mz.aligned [OF D(1) D(2) [OF assms(2)]] assms(3) by blast
qed

text \<open>The headers after the split.\<close>

lemma split_headers:
  assumes inv: "heap_inv w lay" and z: "lay z = Some (h, xs @ a # ys, en)" and free: "fr w a"
    and n: "unat a + 128 \<le> unat n" "unat n + 128 \<le> unat a + unat (size_at w a)"
  shows "\<exists>w1 w'. elem_free_list_remove a w = Inr w1 \<and>
    malloc_elem_free_list_insert a (upd_elem n (e_state_update (\<lambda>_. ELEM_BUSY)) (split_elem a n w1)) = w' \<and>
    mw_elem w' = (mw_elem w)(n := \<lparr>e_heap = h, e_prev = a, e_mz = z, e_state = ELEM_BUSY, e_pad = 0, e_size = size_at w a - (n - a)\<rparr>,
      a + size_at w a := (mw_elem w (a + size_at w a))\<lparr>e_prev := n\<rparr>, a := (mw_elem w a)\<lparr>e_size := n - a\<rparr>) \<and>
    listed w' h {x \<in> elems lay h. fr w x} \<and> still h w w'"
proof -
  have ok: "elem_ok w h z a" using zone_split [OF heap_invD(3) [OF inv z]] .
  let ?c = "a + size_at w a" and ?F = "{x \<in> elems lay h. fr w x}"
  have ain: "a \<in> elems lay h" by (rule elemsI [where lay = lay, OF z]) simp
  have hp: "e_heap (mw_elem w a) = h" "e_state (mw_elem w a) = ELEM_FREE" using ok free by (simp_all add: elem_ok_def fr_def)
  obtain w1 where w1: "elem_free_list_remove a w = Inr w1" "listed w1 h (?F - {a})" "mw_elem w1 = mw_elem w" "still h w w1"
    using list_remove [OF heap_invD(4) [OF inv, of h], of a] ain free hp by auto
  have ok1: "elem_ok w1 h z a" "size_at w1 a = size_at w a" using ok w1(3) by (simp_all add: elem_ok_def size_at_def pad_at_def)
  note sp = split_elem_eq(1) [OF ok1(1), unfolded ok1(2), OF n]
  let ?w2 = "upd_elem n (e_state_update (\<lambda>_. ELEM_BUSY)) (split_elem a n w1)"
  have ne: "a \<noteq> n" "?c \<noteq> n" "?c \<noteq> a" using n elem_end [OF ok] by auto
  have nn: "n \<notin> elems lay h" by (rule not_elem [where lay = lay, OF inv z]) (use n in simp_all)
  have "listed ?w2 h (?F - {a})" unfolding sp by (intro listed_keep listed_elem) (use w1(2) nn in simp_all)
  moreover have el2: "mw_elem ?w2 = (mw_elem w)(n := \<lparr>e_heap = h, e_prev = a, e_mz = z, e_state = ELEM_BUSY, e_pad = 0, e_size = size_at w a - (n - a)\<rparr>,
      ?c := (mw_elem w ?c)\<lparr>e_prev := n\<rparr>, a := (mw_elem w a)\<lparr>e_size := n - a\<rparr>)"
    unfolding sp using ne w1(3) by (simp add: fun_upd_twist fun_eq_iff)
  ultimately have L: "listed (malloc_elem_free_list_insert a ?w2) h (insert a (?F - {a}))"
      "mw_elem (malloc_elem_free_list_insert a ?w2) = (mw_elem ?w2)(a := (mw_elem ?w2 a)\<lparr>e_state := ELEM_FREE\<rparr>)"
      "still h ?w2 (malloc_elem_free_list_insert a ?w2)"
    using list_insert [of ?w2 h "?F - {a}" a] hp by simp_all
  have "still h w1 ?w2" unfolding sp by (intro still_trans [OF _ still_upd_elem] still_refl)
  then have st: "still h w (malloc_elem_free_list_insert a ?w2)" using still_trans [OF still_trans [OF w1(4)] L(3)] by simp
  have "insert a (?F - {a}) = ?F" using ain free by auto
  then show ?thesis using w1(1) L(1) st L(2) unfolding el2 using hp by auto
qed

lemma alloc_split_ok:
  assumes inv: "heap_inv w lay" and z: "lay z = Some (h, xs @ a # ys, en)" and free: "fr w a"
    and n: "unat a + 128 \<le> unat n" "unat n + 128 \<le> unat a + unat (size_at w a)" "64 dvd unat n"
  shows "\<exists>w1 w'. elem_free_list_remove a w = Inr w1 \<and> malloc_elem_free_list_insert a (upd_elem n (e_state_update (\<lambda>_. ELEM_BUSY)) (split_elem a n w1)) = w' \<and>
    heap_inv w' (lay(z \<mapsto> (h, xs @ [a, n] @ ys, en))) \<and> still h w w' \<and>
    blocks w' (lay(z \<mapsto> (h, xs @ [a, n] @ ys, en))) = insert (n + 64, size_at w a - (n - a) - 64) (blocks w lay)"
proof -
  note zi = heap_invD(3) [OF inv z]
  obtain r: "seg w h z 0 (zone_base (mw_cfg w) z) xs (e_prev (mw_elem w a)) a" "elem_ok w h z a" "rest w h z a (a + size_at w a) ys en"
    using zone_split [OF zi] .
  let ?c = "a + size_at w a"
  note c = elem_end [OF r(2)] and sp = split_elem_eq(2,3) [OF r(2) n(1,2)]
  have ne: "a \<noteq> n" "?c \<noteq> n" "?c \<noteq> a" using n c by auto
  obtain w1 w' where w1: "elem_free_list_remove a w = Inr w1"
      "malloc_elem_free_list_insert a (upd_elem n (e_state_update (\<lambda>_. ELEM_BUSY)) (split_elem a n w1)) = w'"
    and el: "mw_elem w' = (mw_elem w)(n := \<lparr>e_heap = h, e_prev = a, e_mz = z, e_state = ELEM_BUSY, e_pad = 0, e_size = size_at w a - (n - a)\<rparr>,
      ?c := (mw_elem w ?c)\<lparr>e_prev := n\<rparr>, a := (mw_elem w a)\<lparr>e_size := n - a\<rparr>)"
    and L: "listed w' h {x \<in> elems lay h. fr w x}" and st: "still h w w'"
    using split_headers [OF inv z free n(1,2)] by blast
  have fra: "e_state (mw_elem w a) = ELEM_FREE" "pad_at w a = 0" "e_heap (mw_elem w a) = h" using free r(2) by (auto simp: fr_def elem_ok_def)
  have frs: "fr w' a" "\<not> fr w' n" using ne fra by (simp_all add: fr_def el)
  have fr': "fr w' x \<Longrightarrow> fr w x" for x using frs free by (cases "x = n"; cases "x = a") (auto simp: fr_def el split: if_splits)
  have sz': "size_at w' a = n - a" "size_at w' n = size_at w a - (n - a)" "pad_at w' n = 0" using ne by (simp_all add: size_at_def pad_at_def el)
  have al: "64 dvd unat a" by (rule elem_aligned [where lay = lay, OF inv z]) simp
  have new: "seg w' h z (e_prev (mw_elem w a)) a [a, n] n ?c"
  proof -
    have "elem_ok w' h z a" using r(2) sz' sp n al fra ne by (auto simp: elem_ok_def el size_at_def pad_at_def intro!: dvd_diff_nat)
    moreover have "elem_ok w' h z n" using r(2) sz' sp n al ne by (auto simp: elem_ok_def el size_at_def pad_at_def intro!: dvd_diff_nat)
    ultimately show ?thesis using sz' ne by (simp add: el)
  qed
  have li: "listed w' h ({x \<in> elems lay h - set [a]. fr w x} \<union> {x \<in> set [a, n]. fr w' x})"
  proof -
    have "{x \<in> elems lay h. fr w x} = {x \<in> elems lay h - set [a]. fr w x} \<union> {x \<in> set [a, n]. fr w' x}"
      using frs free elemsI [where lay = lay, OF z, of a] by auto
    then show ?thesis using L by simp
  qed
  have z1: "lay z = Some (h, xs @ [a] @ ys, en)" using z by simp
  have old: "seg w h z (e_prev (mw_elem w a)) a [a] a ?c" using r(2) by simp
  have at_end: "mw_elem w' ?c = (mw_elem w ?c)\<lparr>e_prev := n\<rparr>" using ne by (simp add: el)
  have "successively (\<lambda>x y. \<not> (fr w' x \<and> fr w' y)) (xs @ [a] @ ys)" by (rule adj_mono [of w]) (use zi fr' in \<open>auto simp: zone_inv_def\<close>)
  then have adj: "successively (\<lambda>x y. \<not> (fr w' x \<and> fr w' y)) (xs @ [a, n] @ ys)" using frs by (auto simp: successively_append_iff successively_Cons)
  have out: "mw_elem w' x = mw_elem w x" if "unat x < unat a \<or> unat ?c < unat x" for x using that n c by (auto simp: el)
  note P = part_step [where lay = lay, OF inv z1 r(1) old r(3) st out at_end new adj li]
  have "blk w' n = (n + 64, size_at w a - (n - a) - 64)" using sz' by (simp add: blk_def)
  moreover have "{x \<in> set [a, n]. \<not> fr w' x} = {n}" "{x \<in> set [a]. \<not> fr w x} = {}" using frs free by auto
  ultimately have "blocks w' (lay(z \<mapsto> (h, xs @ [a, n] @ ys, en))) = insert (n + 64, size_at w a - (n - a) - 64) (blocks w lay)"
    using P(2) by (simp only: image_insert image_empty Diff_empty insert_is_Un [of _ "blocks w lay"])
  then show ?thesis using w1 P(1) st by blast
qed
text \<open>Elements and blocks lie apart.\<close>

lemma elems_apart:
  assumes inv: "heap_inv w lay" and a: "lay z = Some (h, as, en)" "a \<in> set as" and b: "lay y = Some (k, bs, e)" "b \<in> set bs" and ne: "a \<noteq> b"
  shows "span a (size_at w a) \<inter> span b (size_at w b) = {}"
proof -
  note D = heap_invD [OF inv]
  note zz = D(1) D(2) [OF a(1)] D(3) [OF a(1)] and yy = D(1) D(2) [OF b(1)] D(3) [OF b(1)]
  show ?thesis
  proof (cases "y = z")
    case True
    obtain us vs where as: "as = us @ a # vs" using a(2) split_list by metis
    have "b \<in> set us \<or> b \<in> set vs" using True a b ne as by auto
    then have "unat b + unat (size_at w b) \<le> unat a \<or> unat a + unat (size_at w a) \<le> unat b" using zone_gap(1,2) [OF zz(3) [unfolded as]] by blast
    then show ?thesis by (auto simp: span_def)
  next
    case False
    have "span a (size_at w a) \<subseteq> zone_area (mw_cfg w) z" "span b (size_at w b) \<subseteq> zone_area (mw_cfg w) y"
      using zone_inv_bounds(2,3,7) [OF zz] zone_inv_bounds(2,3,7) [OF yy] a(2) b(2) unfolding zone_area_span span_def by fastforce+
    then show ?thesis using memzone_okD(5) [OF D(1) yy(2) zz(2) False] by blast
  qed
qed

lemma block_elem:
  assumes inv: "heap_inv w lay" and b: "b \<in> blocks w lay"
  obtains z h as en a where "lay z = Some (h, as, en)" and "a \<in> set as" and "\<not> fr w a" and "b = blk w a" and "elem_ok w h z a"
    and "span (fst b) (snd b) \<subseteq> span a (size_at w a)"
proof -
  obtain z h as en a where *: "lay z = Some (h, as, en)" "a \<in> set as" "\<not> fr w a" "b = blk w a"
    using b by (auto simp: blocks_def zone_blocks_def split: option.splits)
  note D = heap_invD [OF inv]
  have ok: "elem_ok w h z a" by (rule zone_inv_bounds(1) [OF D(1) D(2) [OF *(1)] D(3) [OF *(1)] *(2)])
  have "span (fst b) (snd b) \<subseteq> span a (size_at w a)" using elem_busy [OF ok *(3)] by (auto simp: span_def *(4))
  then show ?thesis using that * ok by blast
qed

text \<open>Memory inside a free element belongs to no block.\<close>

lemma free_apart:
  assumes "heap_inv w lay" and "lay z = Some (h, as, en)" and "a \<in> set as" and "fr w a" and "b \<in> blocks w lay"
  shows "span a (size_at w a) \<inter> span (fst b) (snd b) = {}"
proof -
  obtain y k bs e c where c: "lay y = Some (k, bs, e)" "c \<in> set bs" "\<not> fr w c" "span (fst b) (snd b) \<subseteq> span c (size_at w c)"
    using block_elem [OF assms(1,5)] by metis
  have "a \<noteq> c" using assms(4) c(3) by auto
  then show ?thesis using elems_apart [where lay = lay, OF assms(1-3) c(1,2)] c(4) by blast
qed

text \<open>What an allocation adds: a block of at least \<open>sz\<close> bytes at an aligned address, apart from all others.\<close>

definition gives :: "malloc_world \<Rightarrow> layout \<Rightarrow> u64 \<Rightarrow> nat \<Rightarrow> u64 \<Rightarrow> malloc_world \<Rightarrow> layout \<Rightarrow> bool" where
  "gives w lay sz m p w' lay' \<longleftrightarrow> heap_inv w' lay' \<and> p \<noteq> 0 \<and> m dvd unat p \<and>
     (\<exists>cap. unat sz \<le> unat cap \<and> blocks w' lay' = insert (p, cap) (blocks w lay) \<and> (\<forall>b \<in> blocks w lay. span p cap \<inter> span (fst b) (snd b) = {}))"

lemma malloc_elem_alloc_ok:
  assumes inv: "heap_inv w lay" and z: "lay z = Some (h, as, en)" and a: "a \<in> set as" and free: "fr w a"
    and sz: "64 \<le> unat sz" "unat sz < 2 ^ 32" and k: "6 \<le> k" "k < 32" and al: "(ucast align :: u64) = 2 ^ k"
    and hold: "malloc_elem_can_hold w a sz align"
  shows "\<exists>n w' lay'. malloc_elem_alloc a sz align w = Inr (n, w') \<and> n \<noteq> 0 \<and> gives w lay sz (2 ^ k) (n + 64) w' lay' \<and> still h w w'"
proof -
  note D = heap_invD [OF inv]
  note zz = D(1) D(2) [OF z] D(3) [OF z]
  have ok: "elem_ok w h z a" by (rule zone_inv_bounds(1) [OF zz a])
  have low: "2 ^ 33 \<le> unat a" using zone_inv_bounds(2,6) [OF zz] a by fastforce
  define n where n: "n = elem_start_pt w a sz align"
  have n0: "n \<noteq> 0" using hold by (simp add: n malloc_elem_can_hold_def)
  note sp = start_pt [OF ok low sz(2) k al n n0]
  have b: "unat (size_at w a) < 2 ^ 32" "unat a + unat (size_at w a) < 2 ^ 64" using ok by (simp_all add: elem_ok_def)
  have d: "unat (n - a) = unat n - unat a" using sp(1) by (simp add: unat_sub_le word_le_nat_alt)
  have n64: "unat (n + 64) = unat n + 64" using sp(2) b by (intro unat_plus_line) simp
  have u: "ucast (ucast (n - a) :: u32) = n - a" by (rule ucast_down_up) (use d sp(2) b in simp)
  have ua: "unat (ucast (n - a) :: u32) = unat n - unat a"
    using sp(2) b by (simp add: unsigned_ucast_eq unsigned_take_bit_eq take_bit_nat_eq_self d)
  obtain xs ys where as: "as = xs @ a # ys" using a split_list by metis
  note z' = z [unfolded as]
  have G: "gives w lay sz (2 ^ k) (n + 64) w' lay'"
    if "heap_inv w' lay'" "blocks w' lay' = insert (n + 64, cap) (blocks w lay)" "unat sz \<le> unat cap" "unat n + 64 + unat cap \<le> unat a + unat (size_at w a)"
    for w' lay' cap
  proof -
    have "span (n + 64) cap \<subseteq> span a (size_at w a)" using that(4) sp(1) n64 by (auto simp: span_def)
    moreover have "n + 64 \<noteq> 0" using n64 by auto
    ultimately show ?thesis using that free_apart [where lay = lay, OF inv z a free] sp(3) n64 unfolding gives_def by fastforce
  qed
  show ?thesis
  proof (cases "unat n - unat a < 128")
    case True
    have "64 dvd unat n - unat a" using sp(4) elem_aligned [where lay = lay, OF inv z a] by (rule dvd_diff_nat)
    then have "unat n - unat a = 0 \<or> unat n - unat a = 64" using True by (auto elim!: dvdE)
    then have p: "n = a \<and> n - a = 0 \<or> n = a + 64 \<and> n - a = 64 \<and> 192 \<le> unat (size_at w a)"
      using sp(1,2) sz(1) d not_elem_line(2) [where lay = lay, OF inv z'] by (auto simp: word_unat_eq_iff)
    define q where q: "q = (ucast (n - a) :: u32)"
    have q': "q = 0 \<and> n = a \<or> q = 64 \<and> n = a + 64 \<and> 192 \<le> unat (size_at w a)" using p by (auto simp: q)
    define w2 where w2: "w2 = (let v = upd_elem a (\<lambda>e. e\<lparr>e_state := ELEM_BUSY, e_pad := q\<rparr>) w in
      if q > 0 then upd_elem n (\<lambda>e. e\<lparr>e_pad := q, e_state := ELEM_PAD, e_size := e_size (mw_elem v a) - ucast q\<rparr>) v else v)"
    have el2: "mw_elem w2 = (if q = 0 then (mw_elem w)(a := (mw_elem w a)\<lparr>e_state := ELEM_BUSY, e_pad := q\<rparr>)
       else (mw_elem w)(a := (mw_elem w a)\<lparr>e_state := ELEM_BUSY, e_pad := q\<rparr>,
         a + 64 := (mw_elem w (a + 64))\<lparr>e_pad := q, e_state := ELEM_PAD, e_size := size_at w a - ucast q\<rparr>))"
      using q' not_elem_line(2) [where lay = lay, OF inv z'] by (auto simp: w2 Let_def size_at_def)
    have w2s: "still h w w2" "mw_heap w2 = mw_heap w" by (simp_all add: w2 Let_def still_def)
    obtain w' where w': "elem_free_list_remove a w2 = Inr w'" "heap_inv w' lay" "still h w w'"
        "blocks w' lay = insert (a + ucast q + 64, size_at w a - ucast q - 64) (blocks w lay)"
      using alloc_pad_ok [where lay = lay, OF inv z' free _ el2 w2s] q' by blast
    have "malloc_elem_alloc a sz align w = bnd (elem_free_list_remove a w2) (\<lambda>w. Inr (n, w))"
      using True ua unfolding malloc_elem_alloc_def n [symmetric] q [symmetric] w2 Let_def
      by (auto simp: word_less_nat_alt MALLOC_ELEM_OVERHEAD_def MALLOC_ELEM_HEADER_LEN_def MALLOC_ELEM_TRAILER_LEN_def MIN_DATA_SIZE_def)
    then have "malloc_elem_alloc a sz align w = Inr (n, w')" using w'(1) by simp
    moreover have "gives w lay sz (2 ^ k) (n + 64) w' lay"
      by (rule G [OF w'(2), of "size_at w a - ucast q - 64"]) (use w'(4) q' sp(2) sz b not_elem_line(2) [where lay = lay, OF inv z'] in \<open>auto simp: unat_sub_le word_le_nat_alt\<close>)
    ultimately show ?thesis using n0 w'(3) by blast
  next
    case False
    have n': "unat a + 128 \<le> unat n" "unat n + 128 \<le> unat a + unat (size_at w a)" using False sp(2) sz(1) by simp_all
    let ?lay = "lay(z \<mapsto> (h, xs @ [a, n] @ ys, en))"
    obtain w1 w' where w': "elem_free_list_remove a w = Inr w1"
        "malloc_elem_free_list_insert a (upd_elem n (e_state_update (\<lambda>_. ELEM_BUSY)) (split_elem a n w1)) = w'"
        "heap_inv w' ?lay" "still h w w'" "blocks w' ?lay = insert (n + 64, size_at w a - (n - a) - 64) (blocks w lay)"
      using alloc_split_ok [where lay = lay, OF inv z' free n' sp(4)] by blast
    have "malloc_elem_alloc a sz align w = Inr (n, w')"
      using False ua w'(1,2) unfolding malloc_elem_alloc_def n [symmetric] Let_def
      by (simp add: word_less_nat_alt MALLOC_ELEM_OVERHEAD_def MALLOC_ELEM_HEADER_LEN_def MALLOC_ELEM_TRAILER_LEN_def MIN_DATA_SIZE_def)
    moreover have "gives w lay sz (2 ^ k) (n + 64) w' ?lay"
    proof (rule G [OF w'(3,5)])
      have e: "unat (size_at w a - (n - a)) = unat (size_at w a) - (unat n - unat a)" by (rule split_elem_eq(3) [OF ok n'])
      have f: "unat (size_at w a - (n - a) - 64) = unat (size_at w a) - (unat n - unat a) - 64"
        using e n' by (simp add: unat_sub_le word_le_nat_alt)
      show "unat sz \<le> unat (size_at w a - (n - a) - 64)" "unat n + 64 + unat (size_at w a - (n - a) - 64) \<le> unat a + unat (size_at w a)"
        unfolding f using sp(2) n' by simp_all
    qed
    ultimately show ?thesis using n0 w'(4) by blast
  qed
qed

end
