(* ===== verification/Malloc_Heap.thy ===== *)
theory Malloc_Heap
  imports Malloc_Spec
begin

text \<open>
  The heaps of \<open>malloc_heap.c\<close> and the allocation functions of \<open>rte_malloc.c\<close>: an allocation gives a block apart from all others or
  changes no block, whether the memory comes from the free lists or from a new zone.
\<close>

section \<open>Fields that do not matter\<close>

lemma zone_inv_cong:
  assumes "mw_elem w' = mw_elem w" and "zone_base (mw_cfg w') z = zone_base (mw_cfg w) z" and "zone_size (mw_cfg w') z = zone_size (mw_cfg w) z"
  shows "zone_inv w' z h as en = zone_inv w z h as en"
proof -
  have "elem_ok w' = elem_ok w" "fr w' = fr w" "size_at w' = size_at w" using assms(1) by (auto simp: fun_eq_iff elem_ok_def fr_def size_at_def pad_at_def)
  moreover from this have "seg w' h z p a as q b = seg w h z p a as q b" for p a q b using assms(1) by (induction as arbitrary: p a) auto
  ultimately show ?thesis using assms by (simp add: zone_inv_def rest_def end_ok_def)
qed

lemma heap_inv_cong:
  assumes "heap_inv w lay" and "mw_elem w' = mw_elem w" and "\<And>k. h_free_head (mw_heap w' k) = h_free_head (mw_heap w k)"
    and "memzone_ok (mw_cfg w')" and "mc_memzone_idx (mw_cfg w) \<le> mc_memzone_idx (mw_cfg w')"
    and "\<And>y. y < mc_memzone_idx (mw_cfg w) \<Longrightarrow> zone_base (mw_cfg w') y = zone_base (mw_cfg w) y \<and> zone_size (mw_cfg w') y = zone_size (mw_cfg w) y"
  shows "heap_inv w' lay"
proof -
  note D = heap_invD [OF assms(1)]
  have "z < mc_memzone_idx (mw_cfg w') \<and> zone_inv w' z h as en" if "lay z = Some (h, as, en)" for z h as en
    using D(2,3) [OF that] assms(5,6) zone_inv_cong [OF assms(2), of z] by fastforce
  moreover have "listed w' h {a \<in> elems lay h. fr w' a}" for h using D(4) [of h] assms(2,3) by (simp add: listed_def fr_def size_at_def)
  ultimately show ?thesis using assms(4) unfolding heap_inv_def by blast
qed

lemma blocks_cong: "mw_elem w' = mw_elem w \<Longrightarrow> blocks w' lay = blocks w lay"
  unfolding blocks_def zone_blocks_def blk_def [abs_def] fr_def size_at_def pad_at_def by (simp only: refl)

lemma heap_upd [simp]:
  assumes "\<And>x. h_free_head (f x) = h_free_head x"
  shows "heap_inv (upd_heap h f w) lay = heap_inv w lay" "blocks (upd_heap h f w) lay = blocks w lay"
proof -
  let ?w = "upd_heap h f w"
  show "heap_inv ?w lay = heap_inv w lay"
  proof
    assume i: "heap_inv ?w lay"
    show "heap_inv w lay" by (rule heap_inv_cong [OF i]) (use heap_invD(1) [OF i] assms in auto)
  next
    assume i: "heap_inv w lay"
    show "heap_inv ?w lay" by (rule heap_inv_cong [OF i]) (use heap_invD(1) [OF i] assms in auto)
  qed
  show "blocks ?w lay = blocks w lay" by (rule blocks_cong) simp
qed

section \<open>A new zone\<close>

lemma add_zone:
  assumes inv: "heap_inv w lay" and z: "z < mc_memzone_idx (mw_cfg w)" "lay z = None" and cfg: "mw_cfg w' = mw_cfg w"
    and out: "\<And>x. unat x \<notin> zone_area (mw_cfg w) z \<Longrightarrow> mw_elem w' x = mw_elem w x"
    and zi: "zone_inv w' z h [a] en" and free: "fr w' a"
    and li: "listed w' h (insert a {x \<in> elems lay h. fr w x})"
    and oth: "\<And>k. k \<noteq> h \<Longrightarrow> h_free_head (mw_heap w' k) = h_free_head (mw_heap w k)"
  shows "heap_inv w' (lay(z \<mapsto> (h, [a], en)))" "blocks w' (lay(z \<mapsto> (h, [a], en))) = blocks w lay"
proof -
  let ?lay = "lay(z \<mapsto> (h, [a], en))"
  note D = heap_invD [OF inv]
  note other = other_zone [OF inv z(1) _ _ cfg out]
  have ne: "y \<noteq> z" if "lay y = Some v" for y v using that z(2) by auto
  have same: "mw_elem w' x = mw_elem w x" if "x \<in> elems lay k" for x k using that other(2) ne by (fastforce simp: elems_def)
  have ez: "elems ?lay h = insert a (elems lay h)" using z(2) by (auto simp: elems_def; metis option.distinct(1))
  have eo: "elems ?lay k = elems lay k" if "k \<noteq> h" for k using that z(2) by (auto simp: elems_def; metis option.distinct(1))
  have lists: "listed w' k {x \<in> elems ?lay k. fr w' x}" for k
  proof (cases "k = h")
    case True
    have "{x \<in> elems ?lay h. fr w' x} = insert a {x \<in> elems lay h. fr w x}" unfolding ez using same [of _ h] free by (auto simp: fr_def)
    then show ?thesis using li True by simp
  next
    case False
    have "{x \<in> elems ?lay k. fr w' x} = {x \<in> elems lay k. fr w x}" unfolding eo [OF False] using same by (auto simp: fr_def)
    moreover have "size_at w' x = size_at w x" if "x \<in> elems lay k" for x using same [OF that] by (simp add: size_at_def)
    ultimately show ?thesis using D(4) [of k] oth [OF False] by (auto simp: listed_def)
  qed
  have "y < mc_memzone_idx (mw_cfg w') \<and> zone_inv w' y k bs e" if "?lay y = Some (k, bs, e)" for y k bs e
    using that zi z other(1) [of y k bs e] D(2) [of y k bs e] cfg by (auto split: if_splits)
  then show "heap_inv w' ?lay" using D(1) cfg lists unfolding heap_inv_def by simp
  have "(case ?lay y of None \<Rightarrow> {} | Some (k, bs, e) \<Rightarrow> zone_blocks w' bs) = (case lay y of None \<Rightarrow> {} | Some (k, bs, e) \<Rightarrow> zone_blocks w bs)" for y
    using other(3) ne z(2) free by (auto simp: zone_blocks_def split: option.splits)
  then show "blocks w' ?lay = blocks w lay" by (simp add: blocks_def)
qed

section \<open>Finding an element\<close>

lemma find_suitable_ok:
  assumes inv: "heap_inv w lay" and e: "find_suitable_element h sz align w = e" "e \<noteq> 0"
  obtains z as en where "lay z = Some (h, as, en)" and "e \<in> set as" and "fr w e" and "malloc_elem_can_hold w e sz align"
proof -
  have "malloc_elem_can_hold w e sz align \<and> (\<exists>i. e \<in> set (h_free_head (mw_heap w h) i))"
    using e by (auto simp: find_suitable_element_def find_Some_iff nth_append set_conv_nth [symmetric] split: option.splits dest!: nth_mem)
  moreover from this have "e \<in> {a \<in> elems lay h. fr w a}" using heap_invD(4) [OF inv, of h] by (auto simp: listed_def)
  ultimately show ?thesis using that by (auto simp: elems_def)
qed
section \<open>A zone for the heap\<close>

definition zone_added :: "mem_config \<Rightarrow> u64 \<Rightarrow> u64 \<Rightarrow> nat option \<Rightarrow> u64 \<Rightarrow> mem_config \<Rightarrow> bool" where
  "zone_added c lo hi r s c' \<longleftrightarrow> memzone_ok c' \<and>
     (case r of None \<Rightarrow> mc_memzone_idx c' = mc_memzone_idx c \<and> zone_base c' = zone_base c \<and> zone_size c' = zone_size c
      | Some z \<Rightarrow> z = mc_memzone_idx c \<and> mc_memzone_idx c' = Suc z \<and> unat s \<le> unat (zone_size c' z) \<and> lo \<le> s \<and> s \<le> hi \<and>
          (\<forall>y. y \<noteq> z \<longrightarrow> zone_base c' y = zone_base c y \<and> zone_size c' y = zone_size c y))"

text \<open>The halving ends, and a zone it gets is between the minimum and the first request.\<close>

lemma reserve_zone_ok:
  "memzone_ok c \<Longrightarrow> mz_size \<noteq> 0 \<Longrightarrow> unat mz_size \<le> 2 ^ 61 \<Longrightarrow> min_size \<le> mz_size \<Longrightarrow>
   \<exists>r s c'. reserve_zone name mz_size min_size socket c = Inr ((r, s), c') \<and> zone_added c min_size mz_size r s c'"
proof (induction name mz_size min_size socket c rule: reserve_zone.induct)
  case (1 name mz_size min_size socket c)
  obtain r c1 where r: "rte_memzone_reserve name mz_size socket 0 c = Inr (r, c1)" using mz.no_error [OF 1(2-4)] by blast
  show ?case
  proof (cases r)
    case (Some z)
    note n = mz.new_zone [OF 1(2-4) r [unfolded Some]]
    show ?thesis using r Some n 1(5) by (subst reserve_zone.simps) (simp add: zone_added_def)
  next
    case None
    note n = mz.no_zone [OF 1(2-4) r [unfolded None]]
    show ?thesis
    proof (cases "mz_size div 2 > min_size")
      case False
      then show ?thesis using r None n by (subst reserve_zone.simps) (simp add: zone_added_def)
    next
      case True
      have u: "unat (mz_size div 2) \<le> unat mz_size" by (simp add: unat_div)
      have "mz_size div 2 \<noteq> 0" using True by auto
      then have "\<exists>r s c'. reserve_zone name (mz_size div 2) min_size socket c1 = Inr ((r, s), c') \<and> zone_added c1 min_size (mz_size div 2) r s c'"
        using 1(1) [OF r _ None True] n(1) u 1(4) True by simp
      then obtain r' s c' where r': "reserve_zone name (mz_size div 2) min_size socket c1 = Inr ((r', s), c')" "zone_added c1 min_size (mz_size div 2) r' s c'"
        by blast
      have "zone_added c min_size mz_size r' s c'"
        using r'(2) n u by (auto simp: zone_added_def word_le_nat_alt split: option.splits)
      then show ?thesis using r None r'(1) True by (subst reserve_zone.simps) simp
    qed
  qed
qed
text \<open>What calls of the heap leave alone.\<close>

definition calm :: "malloc_world \<Rightarrow> malloc_world \<Rightarrow> bool" where
  "calm w w' \<longleftrightarrow> mw_byte w' = mw_byte w \<and> (\<forall>k. h_lock (mw_heap w' k) = h_lock (mw_heap w k))"

lemma calm_refl [simp]: "calm w w" by (simp add: calm_def)
lemma calm_trans: "calm w w' \<Longrightarrow> calm w' w'' \<Longrightarrow> calm w w''" by (simp add: calm_def)
lemma still_calm: "still h w w' \<Longrightarrow> calm w w'" using stillD(3,4) by (auto simp: calm_def)
lemma calm_upd: "(\<And>x. h_lock (f x) = h_lock x) \<Longrightarrow> calm w (upd_heap h f w)" by (simp add: calm_def)

text \<open>The end marker of a zone of \<open>s\<close> bytes.\<close>

lemma zone_end:
  fixes b s en :: u64
  assumes b: "64 dvd unat b" "unat b + unat s < 2 ^ 64" and s: "256 \<le> unat s" and en: "en = RTE_ALIGN_FLOOR (b + (s - 64)) 64"
  shows "unat b + 128 \<le> unat en" "unat en + 64 \<le> unat b + unat s" "64 dvd unat en - unat b" "unat (en - b) = unat en - unat b"
proof -
  have u: "unat (s - 64) = unat s - 64" using s by (simp add: unat_sub_le word_le_nat_alt)
  have v: "unat (b + (s - 64)) = unat b + unat s - 64" using b s u by (simp add: unat_plus64)
  have f: "64 dvd unat en" "unat en \<le> unat b + unat s - 64" "unat b + unat s - 64 < unat en + 64"
    using align_floor [of 6 "b + (s - 64)"] unfolding v by (simp_all add: en)
  then show *: "unat b + 128 \<le> unat en" "unat en + 64 \<le> unat b + unat s" using s by simp_all
  show "64 dvd unat en - unat b" using f(1) b(1) by (rule dvd_diff_nat)
  show "unat (en - b) = unat en - unat b" using * by (simp add: unat_sub_le word_le_nat_alt)
qed

text \<open>A fresh zone: one free element and the end marker.\<close>

lemma fresh_zone:
  assumes inv: "heap_inv w lay" and z: "z < mc_memzone_idx (mw_cfg w)" "lay z = None" and b: "b = zone_base (mw_cfg w) z"
    and s: "unat s \<le> unat (zone_size (mw_cfg w) z)" "256 \<le> unat s" "unat s < 2 ^ 32" and en: "en = RTE_ALIGN_FLOOR (b + (s - 64)) 64"
    and w': "w' = malloc_elem_free_list_insert b (malloc_elem_mkend en b (malloc_elem_init b h z (en - b) w))"
  shows "heap_inv w' (lay(z \<mapsto> (h, [b], en)))" "blocks w' (lay(z \<mapsto> (h, [b], en))) = blocks w lay" "still h w w'"
proof -
  note D = heap_invD [OF inv]
  have bb: "64 dvd unat b" "2 ^ 33 \<le> unat b" "unat b + unat (zone_size (mw_cfg w) z) < 2 ^ 64"
    using mz.aligned [OF D(1) z(1)] mz.in_memory [OF D(1) z(1)] by (simp_all add: b)
  have sb: "unat b + unat s < 2 ^ 64" using bb(3) s(1) by simp
  note e = zone_end [OF bb(1) sb s(2) en]
  let ?F = "{x \<in> elems lay h. fr w x}" and ?w2 = "malloc_elem_mkend en b (malloc_elem_init b h z (en - b) w)"
  have inz: "unat b \<in> zone_area (mw_cfg w) z" "unat en \<in> zone_area (mw_cfg w) z" using e s by (auto simp: zone_area_span span_def b [symmetric])
  have notin: "x \<notin> elems lay k" if "unat x \<in> zone_area (mw_cfg w) z" for x k
  proof
    assume "x \<in> elems lay k"
    then obtain y bs f where y: "lay y = Some (k, bs, f)" "x \<in> set bs" by (auto simp: elems_def)
    have "y \<noteq> z" using y z(2) by auto
    then show False using memzone_okD(5) [OF D(1) D(2) [OF y(1)] z(1)] elem_in_zone [OF D(1) D(2,3) [OF y(1)] y(2)] that by blast
  qed
  have ne: "en \<noteq> b" using e by auto
  have el2: "mw_elem ?w2 = (mw_elem w)(b := \<lparr>e_heap = h, e_prev = 0, e_mz = z, e_state = ELEM_FREE, e_pad = 0, e_size = en - b\<rparr>,
      en := \<lparr>e_heap = h, e_prev = b, e_mz = z, e_state = ELEM_BUSY, e_pad = 0, e_size = 0\<rparr>)"
    using ne by (simp add: malloc_elem_mkend_def malloc_elem_init_def Let_def)
  have "listed ?w2 h ?F" using D(4) [of h] notin inz unfolding malloc_elem_mkend_def malloc_elem_init_def Let_def
    by (intro listed_elem) auto
  then have L: "listed w' h (insert b ?F)" "mw_elem w' = (mw_elem ?w2)(b := (mw_elem ?w2 b)\<lparr>e_state := ELEM_FREE\<rparr>)" "still h ?w2 w'"
    using list_insert [of ?w2 h ?F b] notin [OF inz(1), of h] el2 ne by (simp_all add: w')
  have el: "mw_elem w' = mw_elem ?w2" unfolding L(2) el2 using ne by auto
  have "still h w ?w2" unfolding malloc_elem_mkend_def malloc_elem_init_def Let_def by (intro still_trans [OF _ still_upd_elem] still_refl)
  then show st: "still h w w'" using still_trans L(3) by blast
  have cfg: "mw_cfg w' = mw_cfg w" by (rule stillD(1) [OF st])
  have ok: "elem_ok w' h z b" "size_at w' b = en - b" "fr w' b" "e_prev (mw_elem w' b) = 0"
    using e s ne by (auto simp: elem_ok_def size_at_def pad_at_def fr_def el el2)
  have zi: "zone_inv w' z h [b] en"
    using ok e s by (simp add: zone_inv_def rest_simps end_ok_def cfg b [symmetric] el el2)
  have out: "mw_elem w' x = mw_elem w x" if "unat x \<notin> zone_area (mw_cfg w) z" for x using that inz by (auto simp: el el2)
  have oth: "h_free_head (mw_heap w' k) = h_free_head (mw_heap w k)" if "k \<noteq> h" for k using stillD(2) [OF st that] by simp
  note A = add_zone [OF inv z cfg out zi ok(3) L(1) oth]
  show "heap_inv w' (lay(z \<mapsto> (h, [b], en)))" by (rule A(1))
  show "blocks w' (lay(z \<mapsto> (h, [b], en))) = blocks w lay" by (rule A(2))
qed

lemma add_memzone_ok:
  assumes inv: "heap_inv w lay" and sz: "64 \<le> unat sz" "64 \<le> unat align" "unat sz + unat align + 128 < 2 ^ 32"
  shows "\<exists>r w' lay'. malloc_heap_add_memzone h sz align w = Inr (r, w') \<and> heap_inv w' lay' \<and> blocks w' lay' = blocks w lay \<and> calm w w'"
proof -
  let ?min = "sz + ucast align + 128 :: u64"
  let ?mz = "if ?min < get_malloc_memzone_size then get_malloc_memzone_size else ?min"
  let ?name = "take (RTE_MEMZONE_NAMESIZE - 1) (''MALLOC_S'' @ dec h @ ''_HEAP_'' @ dec (unat (h_mz_count (mw_heap w h))))"
  let ?v = "upd_heap h (\<lambda>x. x\<lparr>h_mz_count := h_mz_count x + 1\<rparr>) w"
  note D = heap_invD [OF inv]
  have ua: "unat (ucast align :: u64) = unat align" by simp
  have um: "unat ?min = unat sz + unat align + 128" using sz by (simp add: unat_plus64 ua)
  have ms: "?min \<le> ?mz" "256 \<le> unat ?min" "unat ?mz < 2 ^ 32" "?mz \<noteq> 0"
    using um sz by (auto simp: get_malloc_memzone_size_def word_less_nat_alt word_le_nat_alt)
  obtain r s c where r: "reserve_zone ?name ?mz ?min (int h) (mw_cfg w) = Inr ((r, s), c)" "zone_added (mw_cfg w) ?min ?mz r s c"
    using reserve_zone_ok [OF D(1) ms(4) _ ms(1), of ?name "int h"] ms(3) by auto
  define u where "u = ?v\<lparr>mw_cfg := c\<rparr>"
  have "heap_inv u lay"
    by (rule heap_inv_cong [OF inv]) (use r(2) in \<open>auto simp: u_def zone_added_def split: option.splits\<close>)
  moreover have "blocks u lay = blocks w lay" by (rule blocks_cong) (simp add: u_def)
  moreover have "calm w u" by (simp add: u_def calm_def)
  ultimately have U: "heap_inv u lay" "blocks u lay = blocks w lay" "calm w u" .
  have fold: "malloc_heap_add_memzone h sz align w = (case r of None \<Rightarrow> Inr (- 1, u)
      | Some z \<Rightarrow> let b = zone_base c z; en = RTE_ALIGN_FLOOR (b + (s - 64)) 64
          in Inr (0, upd_heap h (\<lambda>x. x\<lparr>h_total_size := h_total_size x + (s - 64)\<rparr>)
               (malloc_elem_free_list_insert b (malloc_elem_mkend en b (malloc_elem_init b h z (ucast (ucast (en - b) :: u32)) u)))))"
    using r(1) by (simp add: malloc_heap_add_memzone_def Let_def u_def zone_base_def MALLOC_ELEM_OVERHEAD_def MALLOC_ELEM_HEADER_LEN_def
        MALLOC_ELEM_TRAILER_LEN_def split: option.splits)
  show ?thesis
  proof (cases r)
    case None
    then show ?thesis using fold U by auto
  next
    case (Some z)
    have ln: "lay z = None"
    proof (rule ccontr)
      assume "lay z \<noteq> None"
      then obtain k as e where "lay z = Some (k, as, e)" by auto
      from D(2) [OF this] show False using r(2) Some by (simp add: zone_added_def)
    qed
    have zs: "z < mc_memzone_idx (mw_cfg u)" "lay z = None" "unat s \<le> unat (zone_size (mw_cfg u) z)" "256 \<le> unat s" "unat s < 2 ^ 32"
      using r(2) ms Some ln by (auto simp: zone_added_def u_def word_le_nat_alt not_le [symmetric])
    let ?b = "zone_base (mw_cfg u) z" and ?en = "RTE_ALIGN_FLOOR (zone_base (mw_cfg u) z + (s - 64)) 64"
    have "unat ?b + unat s < 2 ^ 64" "64 dvd unat ?b" using mz.in_memory [OF heap_invD(1) [OF U(1)] zs(1)] mz.aligned [OF heap_invD(1) [OF U(1)] zs(1)] zs(3) by simp_all
    then have "unat (?en - ?b) < 2 ^ 32" using zone_end [of ?b s ?en] zs by simp
    then have "ucast (ucast (?en - ?b) :: u32) = ?en - ?b" by (rule ucast_down_up)
    moreover note F = fresh_zone [OF U(1) zs(1,2) refl zs(3-5) refl refl, of h]
    ultimately show ?thesis using fold Some U F(1,2) still_calm [OF F(3)]
      by (auto simp: u_def Let_def calm_upd intro!: exI [of _ "lay(z \<mapsto> (h, [?b], ?en))"] calm_trans [OF calm_trans [OF U(3)] calm_upd])
  qed
qed
section \<open>Searching by size\<close>

lemma bit_width_mono: "a \<le> b \<Longrightarrow> bit_width a \<le> bit_width b"
proof (induction a arbitrary: b rule: bit_width.induct)
  case (1 v)
  show ?case
  proof (cases "v = 0")
    case False
    then have "b \<noteq> 0" using 1(2) False by auto
    have "drop_bit 1 v \<le> drop_bit 1 b" using 1(2) by (simp add: word_le_nat_alt unat_drop_bit_eq drop_bit_nat_def div_le_mono)
    then show ?thesis using 1(1) [OF False] False \<open>b \<noteq> 0\<close> by (simp add: bit_width.simps [of v] bit_width.simps [of b])
  qed (simp add: bit_width.simps)
qed

lemma free_list_index_mono:
  assumes "a \<le> b"
  shows "malloc_elem_free_list_index a \<le> malloc_elem_free_list_index b"
proof (cases "a \<le> 256")
  case True
  then show ?thesis by (simp add: malloc_elem_free_list_index_def)
next
  case False
  then have b: "\<not> b \<le> 256" using assms by simp
  have *: "a - 1 \<le> b - 1" using False assms by (simp add: word_le_nat_alt unat_sub_le)
  have "(bit_width (a - 1) - 8 + 2 - 1) div 2 \<le> (bit_width (b - 1) - 8 + 2 - 1) div 2" using bit_width_mono [OF *] by (intro div_le_mono diff_le_mono add_le_mono) simp_all
  then show ?thesis using False b by (simp add: malloc_elem_free_list_index_def Let_def)
qed

text \<open>The search misses no element.\<close>

lemma find_suitable_complete:
  assumes inv: "heap_inv w lay" and none: "find_suitable_element h sz align w = 0" and sz: "64 \<le> unat sz" "unat sz < 2 ^ 32"
    and k: "6 \<le> k" "k < 32" and al: "(ucast align :: u64) = 2 ^ k" and a: "a \<in> elems lay h" "fr w a"
  shows "\<not> malloc_elem_can_hold w a sz align"
proof
  assume hold: "malloc_elem_can_hold w a sz align"
  obtain z as en where z: "lay z = Some (h, as, en)" "a \<in> set as" using a(1) by (auto simp: elems_def)
  note D = heap_invD [OF inv]
  note zz = D(1) D(2) [OF z(1)] D(3) [OF z(1)]
  have ok: "elem_ok w h z a" by (rule zone_inv_bounds(1) [OF zz z(2)])
  have low: "2 ^ 33 \<le> unat b" if b: "b \<in> elems lay h" for b
  proof -
    obtain y bs e where y: "lay y = Some (h, bs, e)" "b \<in> set bs" using b by (auto simp: elems_def)
    show ?thesis using zone_inv_bounds(2,6) [OF D(1) D(2,3) [OF y(1)]] y(2) by fastforce
  qed
  have "elem_start_pt w a sz align \<noteq> 0" using hold by (simp add: malloc_elem_can_hold_def)
  note sp = start_pt [OF ok low [OF a(1)] sz(2) k al refl this]
  have "sz \<le> size_at w a - 64" using sp(1,2) sz by (simp add: word_le_nat_alt unat_sub_le)
  then have "malloc_elem_free_list_index sz \<le> malloc_elem_free_list_index (size_at w a - 64)" by (rule free_list_index_mono)
  moreover have "a \<in> set (h_free_head (mw_heap w h) (malloc_elem_free_list_index (size_at w a - 64)))" using D(4) [of h] a by (simp add: listed_def)
  ultimately have "a \<in> set (concat (map (h_free_head (mw_heap w h)) [malloc_elem_free_list_index sz..<RTE_HEAP_NUM_FREELISTS]))"
    using free_list_index_less by auto
  then obtain b where b: "find (\<lambda>elem. malloc_elem_can_hold w elem sz align)
      (concat (map (h_free_head (mw_heap w h)) [malloc_elem_free_list_index sz..<RTE_HEAP_NUM_FREELISTS])) = Some b"
    using hold by (metis find_None_iff not_None_eq)
  then have "b \<in> elems lay h" using D(4) [of h] by (auto simp: find_Some_iff listed_def dest!: nth_mem)
  then show False using low [of b] none b by (auto simp: find_suitable_element_def)
qed

section \<open>Allocation from a heap\<close>

lemma line_roundup:
  "unat (x :: u64) + 64 \<le> 2 ^ 64 \<Longrightarrow> unat (RTE_CACHE_LINE_ROUNDUP x) = 64 * ((unat x + 63) div 64)"
  "unat (y :: u32) + 64 \<le> 2 ^ 32 \<Longrightarrow> unat (RTE_CACHE_LINE_ROUNDUP y) = 64 * ((unat y + 63) div 64)"
proof -
  assume x: "unat (x :: u64) + 64 \<le> 2 ^ 64"
  have "unat (x + 63) = unat x + 63" using x by (subst unat_plus64) auto
  moreover have "64 * ((unat x + 63) div 64) < 2 ^ 64" using x by simp
  ultimately show "unat (RTE_CACHE_LINE_ROUNDUP x) = 64 * ((unat x + 63) div 64)"
    by (simp add: RTE_CACHE_LINE_ROUNDUP_def unat_word_ariths unat_div)
next
  assume y: "unat (y :: u32) + 64 \<le> 2 ^ 32"
  have "unat (y + 63) = unat y + 63" using y by (simp add: unat_word_ariths)
  moreover have "64 * ((unat y + 63) div 64) < 2 ^ 32" using y by simp
  ultimately show "unat (RTE_CACHE_LINE_ROUNDUP y) = 64 * ((unat y + 63) div 64)"
    by (simp add: RTE_CACHE_LINE_ROUNDUP_def unat_word_ariths unat_div)
qed

lemma align_roundup:
  assumes u: "unat (align :: u32) = 2 ^ j" and "j < 32"
  obtains k where "6 \<le> k" and "k < 32" and "(ucast (RTE_CACHE_LINE_ROUNDUP align) :: u64) = 2 ^ k" and "2 ^ j dvd (2 :: nat) ^ k"
    and "unat (RTE_CACHE_LINE_ROUNDUP align) = 2 ^ k" and "(2 :: nat) ^ k \<le> 2 ^ j + 64"
proof -
  have j: "(2 :: nat) ^ j \<le> 2 ^ 31" using assms(2) by (intro power_increasing) simp_all
  define k where "k = max 6 j"
  have r: "unat (RTE_CACHE_LINE_ROUNDUP align) = 64 * ((2 ^ j + 63) div 64)" using line_roundup(2) [of align] u j by simp
  have "64 * ((2 ^ j + 63) div 64) = (2 :: nat) ^ k"
  proof (cases "j \<le> 6")
    case True
    then have "(2 :: nat) ^ j \<le> 2 ^ 6" "(1::nat) \<le> 2 ^ j" by (intro power_increasing) simp_all
    then have "(2 ^ j + 63) div 64 = (1::nat)" by (intro div_nat_eqI) simp_all
    then show ?thesis using True by (simp add: k_def max_def)
  next
    case False
    then have "(2 :: nat) ^ j = 64 * 2 ^ (j - 6)" using power_add [of "2::nat" 6 "j - 6"] by simp
    then show ?thesis using False by (simp add: k_def)
  qed
  then have k: "unat (RTE_CACHE_LINE_ROUNDUP align) = 2 ^ k" using r by simp
  have k64: "6 \<le> k" "k < 32" using assms(2) by (auto simp: k_def)
  have "unat (ucast (RTE_CACHE_LINE_ROUNDUP align) :: u64) = unat ((2 :: u64) ^ k)" using k k64 unat_2p64 [of k] by simp
  then have "(ucast (RTE_CACHE_LINE_ROUNDUP align) :: u64) = 2 ^ k" by (simp only: word_unat_eq_iff)
  moreover have "2 ^ j dvd (2 :: nat) ^ k" by (rule le_imp_power_dvd) (simp add: k_def)
  moreover have "(2 :: nat) ^ k \<le> 2 ^ j + 64" by (auto simp: k_def max_def)
  ultimately show ?thesis using that k k64 by blast
qed
definition answers :: "malloc_world \<Rightarrow> layout \<Rightarrow> u64 \<Rightarrow> nat \<Rightarrow> u64 \<Rightarrow> malloc_world \<Rightarrow> layout \<Rightarrow> bool" where
  "answers w lay sz m p w' lay' \<longleftrightarrow> calm w w' \<and> (if p = 0 then heap_inv w' lay' \<and> blocks w' lay' = blocks w lay else gives w lay sz m p w' lay')"

lemma gives_mono:
  "gives w lay sz m p w' lay' \<Longrightarrow> blocks v lv = blocks w lay \<Longrightarrow> unat sz' \<le> unat sz \<Longrightarrow> m' dvd m \<Longrightarrow> gives v lv sz' m' p w' lay'"
  unfolding gives_def by (auto intro: dvd_trans order.trans)

lemma up64: "1 \<le> (n :: nat) \<Longrightarrow> 64 \<le> 64 * ((n + 63) div 64) \<and> n \<le> 64 * ((n + 63) div 64) \<and> 64 * ((n + 63) div 64) \<le> n + 63"
  by presburger

lemma gives_upd [simp]:
  "(\<And>x. h_free_head (f x) = h_free_head x) \<Longrightarrow> gives w lay sz m p (upd_heap h f w') lay' = gives w lay sz m p w' lay'"
  by (simp add: gives_def)

text \<open>The element the heap finds, after it has asked for a zone if need be.\<close>

lemma get_element:
  assumes inv: "heap_inv w lay" and sz: "64 \<le> unat sz" "64 \<le> unat align" "unat sz + unat align + 128 < 2 ^ 32"
  shows "\<exists>e w' lay'. (let elem = find_suitable_element h sz align w in
      if elem = 0 then bnd (malloc_heap_add_memzone h sz align w) (\<lambda>(r, w). Inr (if r = 0 then find_suitable_element h sz align w else 0, w))
      else Inr (elem, w)) = Inr (e, w') \<and> heap_inv w' lay' \<and> blocks w' lay' = blocks w lay \<and> calm w w' \<and>
    (e \<noteq> 0 \<longrightarrow> e = find_suitable_element h sz align w') \<and> (e = 0 \<longrightarrow> find_suitable_element h sz align w = 0)"
proof (cases "find_suitable_element h sz align w = 0")
  case True
  obtain r w' lay' where "malloc_heap_add_memzone h sz align w = Inr (r, w')" "heap_inv w' lay'" "blocks w' lay' = blocks w lay" "calm w w'"
    using add_memzone_ok [OF inv sz] by blast
  then show ?thesis using True by auto
next
  case False
  then show ?thesis using inv by auto
qed

lemma malloc_heap_alloc_ok:
  assumes inv: "heap_inv w lay" and lock: "\<not> h_lock (mw_heap w h)" and sz: "sz \<noteq> 0" "unat sz + unat align + 512 \<le> 2 ^ 32"
    and al: "unat align = 2 ^ j" "j < 32"
  shows "\<exists>p w' lay'. malloc_heap_alloc h sz align w = Inr (p, w') \<and> answers w lay sz (unat align) p w' lay' \<and>
    (p = 0 \<longrightarrow> (\<forall>a \<in> elems lay h. fr w a \<longrightarrow> \<not> malloc_elem_can_hold w a (RTE_CACHE_LINE_ROUNDUP sz) (RTE_CACHE_LINE_ROUNDUP align)))"
proof -
  let ?sz = "RTE_CACHE_LINE_ROUNDUP sz" and ?al = "RTE_CACHE_LINE_ROUNDUP align" and ?w = "upd_heap h (h_lock_update (\<lambda>_. True)) w"
  obtain k where k: "6 \<le> k" "k < 32" "(ucast ?al :: u64) = 2 ^ k" "2 ^ j dvd (2 :: nat) ^ k" "unat ?al = 2 ^ k" "(2 :: nat) ^ k \<le> 2 ^ j + 64"
    using align_roundup [OF al] .
  have s: "unat ?sz = 64 * ((unat sz + 63) div 64)" using sz(2) by (intro line_roundup) simp
  have "1 \<le> unat sz" using sz(1) by (simp add: Suc_le_eq unat_gt_0)
  then have s': "64 \<le> unat ?sz" "unat sz \<le> unat ?sz" "unat ?sz \<le> unat sz + 63" unfolding s using up64 by blast+
  have "(2::nat) ^ 6 \<le> 2 ^ k" using k(1) by (intro power_increasing) simp_all
  then have b: "64 \<le> unat ?al" "unat ?sz + unat ?al + 128 < 2 ^ 32" "unat ?sz < 2 ^ 32" using k s' sz(2) al(1) by simp_all
  have inv1: "heap_inv ?w lay" using inv by simp
  obtain e w2 lay2 where e: "(let elem = find_suitable_element h ?sz ?al ?w in
      if elem = 0 then bnd (malloc_heap_add_memzone h ?sz ?al ?w) (\<lambda>(r, w). Inr (if r = 0 then find_suitable_element h ?sz ?al w else 0, w))
      else Inr (elem, ?w)) = Inr (e, w2)" "heap_inv w2 lay2" "blocks w2 lay2 = blocks w lay" "calm ?w w2"
      "e \<noteq> 0 \<longrightarrow> e = find_suitable_element h ?sz ?al w2" "e = 0 \<longrightarrow> find_suitable_element h ?sz ?al ?w = 0"
    using get_element [OF inv1 s'(1) b(1,2), of h] by auto
  have unl: "calm w (heap_unlock h v)" if "calm ?w v" for v using that lock by (auto simp: calm_def heap_unlock_def)
  have go: "malloc_heap_alloc h sz align w =
      bnd (if e \<noteq> 0 then bnd (malloc_elem_alloc e ?sz ?al w2) (\<lambda>(elem, w). Inr (elem, upd_heap h (\<lambda>h. h\<lparr>h_alloc_count := h_alloc_count h + 1\<rparr>) w))
           else Inr (e, w2)) (\<lambda>(elem, w). Inr (if elem = 0 then 0 else elem + 64, heap_unlock h w))"
    using lock e(1) by (simp add: malloc_heap_alloc_def Let_def heap_lock_def)
  show ?thesis
  proof (cases "e = 0")
    case True
    have "\<not> malloc_elem_can_hold w a ?sz ?al" if "a \<in> elems lay h" "fr w a" for a
      using find_suitable_complete [OF inv1 e(6) [rule_format, OF True] s'(1) b(3) k(1-3) that(1)] that(2)
      by (simp add: fr_def malloc_elem_can_hold_def elem_start_pt_def)
    then show ?thesis using go True e(2,3) unl [OF e(4)] by (auto simp: answers_def heap_unlock_def)
  next
    case False
    obtain z as en where z: "lay2 z = Some (h, as, en)" "e \<in> set as" "fr w2 e" "malloc_elem_can_hold w2 e ?sz ?al"
      using find_suitable_ok [OF e(2) e(5) [rule_format, OF False, symmetric] False] .
    obtain n w' lay' where n: "malloc_elem_alloc e ?sz ?al w2 = Inr (n, w')" "n \<noteq> 0" "gives w2 lay2 ?sz (2 ^ k) (n + 64) w' lay'" "still h w2 w'"
      using malloc_elem_alloc_ok [OF e(2) z(1-3) s'(1) b(3) k(1-3) z(4)] by blast
    let ?w' = "upd_heap h (\<lambda>h. h\<lparr>h_alloc_count := h_alloc_count h + 1\<rparr>) w'"
    have "gives w lay sz (unat align) (n + 64) ?w' lay'" using gives_mono [OF n(3)] e(3) s'(2) k(4) al(1) by simp
    moreover have "calm w (heap_unlock h ?w')" by (rule unl) (intro calm_trans [OF calm_trans [OF e(4) still_calm [OF n(4)]] calm_upd], simp)
    moreover have "n + 64 \<noteq> 0" using n(3) by (simp add: gives_def)
    ultimately show ?thesis using go False n by (auto simp: answers_def heap_unlock_def)
  qed
qed
section \<open>The calls of the interface\<close>

text \<open>A heap at rest with the blocks \<open>B\<close> in use.\<close>

definition heap_at :: "malloc_world \<Rightarrow> (u64 \<times> u64) set \<Rightarrow> bool" where
  "heap_at w B \<longleftrightarrow> (\<forall>k. \<not> h_lock (mw_heap w k)) \<and> (\<exists>lay. heap_inv w lay \<and> blocks w lay = B)"

text \<open>The answer to a request over the blocks: none, or a new block.\<close>

definition grants :: "(u64 \<times> u64) set \<Rightarrow> u64 \<Rightarrow> nat \<Rightarrow> u64 \<Rightarrow> (u64 \<times> u64) set \<Rightarrow> bool" where
  "grants B sz m p B' \<longleftrightarrow> (if p = 0 then B' = B
     else m dvd unat p \<and> (\<exists>cap. unat sz \<le> unat cap \<and> B' = insert (p, cap) B \<and> (\<forall>b \<in> B. span p cap \<inter> span (fst b) (snd b) = {})))"

lemma answers_heap_at:
  assumes "answers w lay sz m p w' lay'" and "\<forall>k. \<not> h_lock (mw_heap w k)"
  shows "heap_at w' (blocks w' lay')" "grants (blocks w lay) sz m p (blocks w' lay')" "mw_byte w' = mw_byte w"
  using assms by (auto simp: answers_def heap_at_def grants_def gives_def calm_def split: if_splits)

lemma heap_alloc_at:
  assumes at: "heap_at w B" and sz: "sz \<noteq> 0" "unat sz + unat align + 512 \<le> 2 ^ 32" and al: "align \<noteq> 0" "rte_is_power_of_2 align"
  shows "\<exists>p w' B'. malloc_heap_alloc h sz align w = Inr (p, w') \<and> heap_at w' B' \<and> grants B sz (unat align) p B' \<and> mw_byte w' = mw_byte w"
proof -
  obtain lay where lay: "heap_inv w lay" "blocks w lay = B" and lk: "\<forall>k. \<not> h_lock (mw_heap w k)" using at by (auto simp: heap_at_def)
  obtain j where j: "j < 32" "unat align = 2 ^ j" using power_of_2_cases [OF al(2)] by blast
  obtain p w' lay' where p: "malloc_heap_alloc h sz align w = Inr (p, w')" "answers w lay sz (unat align) p w' lay'"
    using malloc_heap_alloc_ok [OF lay(1) lk [rule_format] sz j(2,1)] by blast
  then show ?thesis using answers_heap_at [OF p(2) lk] lay(2) by blast
qed

lemma try_heaps_at:
  assumes "heap_at w B" and "sz \<noteq> 0" and "unat sz + unat align + 512 \<le> 2 ^ 32" and "align \<noteq> 0" and "rte_is_power_of_2 align"
  shows "\<exists>p w' B'. try_heaps socket sz align is w = Inr (p, w') \<and> heap_at w' B' \<and> grants B sz (unat align) p B' \<and> mw_byte w' = mw_byte w"
  using assms(1)
proof (induction "is" arbitrary: w)
  case Nil
  then show ?case by (simp add: grants_def)
next
  case (Cons i "is")
  obtain p w' B' where p: "malloc_heap_alloc i sz align w = Inr (p, w')" "heap_at w' B'" "grants B sz (unat align) p B'" "mw_byte w' = mw_byte w"
    using heap_alloc_at [OF Cons.prems assms(2-5)] by blast
  show ?case
  proof (cases "p = 0")
    case True
    then have "heap_at w' B" using p(2,3) by (simp add: grants_def)
    then show ?thesis using Cons.IH [of w'] Cons.IH [OF Cons.prems] p(1,4) True by auto
  next
    case False
    then show ?thesis using Cons.IH [OF Cons.prems] p by auto
  qed
qed

lemma malloc_socket_at:
  assumes at: "heap_at w B" and sz: "unat sz + unat align + 512 < 2 ^ 32" and sock: "socket = SOCKET_ID_ANY \<and> 0 \<le> sint (malloc_get_numa_socket here) \<or> 0 \<le> socket"
  shows "\<exists>p w' B'. rte_malloc_socket here sz align socket w = Inr (p, w') \<and> heap_at w' B' \<and> grants B sz (unat (if align = 0 then 1 else align)) p B' \<and> mw_byte w' = mw_byte w"
proof (cases "sz = 0 \<or> align \<noteq> 0 \<and> \<not> rte_is_power_of_2 align \<or> RTE_MAX_NUMA_NODES \<le> (if socket = SOCKET_ID_ANY then sint (malloc_get_numa_socket here) else socket)")
  case True
  then show ?thesis using at by (auto simp: rte_malloc_socket_def Let_def grants_def)
next
  case False
  define t where t: "t = (if socket = SOCKET_ID_ANY then sint (malloc_get_numa_socket here) else socket)"
  define al where al: "al = (if align = 0 then 1 else align)"
  have A: "al \<noteq> 0" "rte_is_power_of_2 al" "unat sz + unat al + 512 \<le> 2 ^ 32" "sz \<noteq> 0" using False sz by (auto simp: al rte_is_power_of_2_def)
  have f: "\<not> (sz = 0 \<or> align \<noteq> 0 \<and> \<not> rte_is_power_of_2 align)" "\<not> RTE_MAX_NUMA_NODES \<le> t" "\<not> t < 0" using False sock by (auto simp: t SOCKET_ID_ANY_def)
  obtain p w' B' where p: "malloc_heap_alloc (nat t) sz al w = Inr (p, w')" "heap_at w' B'" "grants B sz (unat al) p B'" "mw_byte w' = mw_byte w"
    using heap_alloc_at [OF at A(4,3,1,2)] by blast
  have go: "rte_malloc_socket here sz align socket w = (if p \<noteq> 0 \<or> socket \<noteq> SOCKET_ID_ANY then Inr (p, w') else try_heaps t sz al [0..<8] w')"
    unfolding rte_malloc_socket_def Let_def t [symmetric] al [symmetric] if_not_P [OF f(1)] if_not_P [OF f(2)] if_not_P [OF f(3)] p(1) by simp
  show ?thesis
  proof (cases "p \<noteq> 0 \<or> socket \<noteq> SOCKET_ID_ANY")
    case True
    then show ?thesis using go p unfolding al by auto
  next
    case F: False
    then have "heap_at w' B" using p(2,3) by (simp add: grants_def)
    then show ?thesis using go F try_heaps_at [OF _ A(4,3,1,2), of w' B t "[0..<8]"] p(4) unfolding al by auto
  qed
qed

end
