(* ===== verification/Malloc_Free.thy ===== *)
theory Malloc_Free
  imports Malloc_Heap
begin

text \<open>
  Freeing: a block goes back to the heap, merged with the free elements on both sides, and every other block stays as it is.
\<close>

section \<open>Merging two elements\<close>

lemma seg_prev_last: "seg w h z p a (xs @ [x]) q b \<longleftrightarrow> (\<exists>r. seg w h z p a xs r x \<and> elem_ok w h z x \<and> e_prev (mw_elem w x) = r \<and> q = x \<and> b = x + size_at w x)"
  by (auto simp: seg_append)

lemma merge_ok:
  assumes inv: "heap_inv w lay" and z: "lay z = Some (h, xs @ a # b # ys, en)" and nf: "fr w a \<Longrightarrow> ys \<noteq> [] \<Longrightarrow> \<not> fr w (hd ys)"
    and el: "mw_elem w' = (mw_elem w)(a := (mw_elem w a)\<lparr>e_size := size_at w a + size_at w b\<rparr>,
      b + size_at w b := (mw_elem w (b + size_at w b))\<lparr>e_prev := a\<rparr>)"
    and st: "still h w w'" and li: "listed w' h ({x \<in> elems lay h - {a, b}. fr w x} \<union> {x \<in> {a}. fr w x})"
  shows "heap_inv w' (lay(z \<mapsto> (h, xs @ a # ys, en)))"
    "blocks w' (lay(z \<mapsto> (h, xs @ a # ys, en))) = blk w' ` {x \<in> {a}. \<not> fr w x} \<union> (blocks w lay - blk w ` {x \<in> {a, b}. \<not> fr w x})"
proof -
  note D = heap_invD [OF inv]
  note zi = D(3) [OF z]
  let ?c = "b + size_at w b"
  obtain r: "seg w h z 0 (zone_base (mw_cfg w) z) xs (e_prev (mw_elem w a)) a" "elem_ok w h z a" "rest w h z a (a + size_at w a) (b # ys) en"
    using zone_split [OF zi] .
  then have b: "a + size_at w a = b" "elem_ok w h z b" "e_prev (mw_elem w b) = a" "rest w h z b ?c ys en" by (simp_all add: rest_simps)
  note ea = elem_end [OF r(2), unfolded b(1)] and eb = elem_end [OF b(2)]
  have sa: "128 \<le> unat (size_at w a)" "128 \<le> unat (size_at w b)" using r(2) b(2) by (simp_all add: elem_ok_def)
  have le: "unat ?c \<le> unat en" "unat (zone_base (mw_cfg w) z) \<le> unat a" "unat en < unat (zone_base (mw_cfg w) z) + 2 ^ 32" "unat en < 2 ^ 64"
    using rest_le [OF b(4)] seg_span(1) [OF r(1)] zone_inv_bounds(9) [OF D(1) D(2) [OF z] zi] by simp_all
  have ne: "?c \<noteq> a" "?c \<noteq> a + 64" "a + 64 \<noteq> a" using ea eb sa not_elem_line(2) [where lay = lay, OF inv z] by auto
  have us: "unat (size_at w a + size_at w b) = unat (size_at w a) + unat (size_at w b)" using ea eb le by (intro unat_plus64) simp
  have frs: "fr w' = fr w" by (auto simp: fr_def el fun_eq_iff)
  have sz: "size_at w' a = size_at w a + size_at w b" using ne by (simp add: size_at_def el)
  have "elem_ok w' h z a" using r(2) b(2) us ea eb le ne sz by (auto simp: elem_ok_def el size_at_def pad_at_def)
  moreover have "e_prev (mw_elem w' a) = e_prev (mw_elem w a)" using ne by (simp add: el)
  moreover have "a + (size_at w a + size_at w b) = ?c" using b(1) by (simp add: add.assoc [symmetric])
  ultimately have new: "seg w' h z (e_prev (mw_elem w a)) a [a] a ?c" using sz by simp
  have z1: "lay z = Some (h, xs @ [a, b] @ ys, en)" using z by simp
  have old: "seg w h z (e_prev (mw_elem w a)) a [a, b] b ?c" using r(2) b by simp
  have at_end: "mw_elem w' ?c = (mw_elem w ?c)\<lparr>e_prev := a\<rparr>" by (simp add: el)
  have adj: "successively (\<lambda>x y. \<not> (fr w' x \<and> fr w' y)) (xs @ [a] @ ys)"
    unfolding frs using zi nf by (auto simp: zone_inv_def successively_append_iff successively_Cons)
  have out: "mw_elem w' x = mw_elem w x" if "unat x < unat a \<or> unat ?c < unat x" for x using that ea eb by (auto simp: el)
  have li': "listed w' h ({x \<in> elems lay h - set [a, b]. fr w x} \<union> {x \<in> set [a]. fr w' x})" using li by (simp add: frs)
  note P = part_step [where lay = lay, OF inv z1 r(1) old b(4) st out at_end new adj li']
  show "heap_inv w' (lay(z \<mapsto> (h, xs @ a # ys, en)))" using P(1) by simp
  show "blocks w' (lay(z \<mapsto> (h, xs @ a # ys, en))) = blk w' ` {x \<in> {a}. \<not> fr w x} \<union> (blocks w lay - blk w ` {x \<in> {a, b}. \<not> fr w x})"
    using P(2) by (simp add: frs)
qed

section \<open>The two merges of a free\<close>

lemma join_next_ok:
  assumes inv: "heap_inv w lay" and z: "lay z = Some (h, xs @ a # ys, en)" and busy: "\<not> fr w a"
  shows "\<exists>w' ys'. free_join_next a w = Inr w' \<and> heap_inv w' (lay(z \<mapsto> (h, xs @ a # ys', en))) \<and> still h w w' \<and> \<not> fr w' a \<and> pad_at w' a = pad_at w a \<and>
    (ys' \<noteq> [] \<longrightarrow> \<not> fr w' (hd ys')) \<and> blocks w' (lay(z \<mapsto> (h, xs @ a # ys', en))) = insert (blk w' a) (blocks w lay - {blk w a})"
proof -
  obtain r: "elem_ok w h z a" "rest w h z a (a + size_at w a) ys en" using zone_split [OF heap_invD(3) [OF inv z]] .
  have ab: "blk w a \<in> blocks w lay" using blocks_split [of w lay z] z busy by (auto simp: zone_blocks_def)
  show ?thesis
  proof (cases "fr w (a + size_at w a)")
    case False
    then have "free_join_next a w = Inr w" by (simp add: free_join_next_def Let_def fr_def size_at_def)
    moreover have "ys \<noteq> [] \<Longrightarrow> hd ys = a + size_at w a" using r(2) by (cases ys) (simp_all add: rest_simps)
    moreover have "lay(z \<mapsto> (h, xs @ a # ys, en)) = lay" using z by auto
    ultimately show ?thesis using inv busy False ab by (intro exI [of _ w] exI [of _ ys]) (auto simp: insert_absorb)
  next
    case True
    then obtain b ys' where ys: "ys = b # ys'" "b = a + size_at w a" using r(2) by (cases ys) (auto simp: rest_simps end_ok_def fr_def)
    note zb = z [unfolded ys(1)]
    have fb: "fr w b" using True ys(2) by simp
    have b: "elem_ok w h z b" "rest w h z b (b + size_at w b) ys' en" using r(2) ys by (simp_all add: rest_simps)
    let ?F = "{x \<in> elems lay h. fr w x}" and ?c = "b + size_at w b"
    have bin: "b \<in> ?F" using elemsI [where lay = lay, OF zb, of b] fb by simp
    obtain w1 where w1: "elem_free_list_remove b w = Inr w1" "listed w1 h (?F - {b})" "mw_elem w1 = mw_elem w" "still h w w1"
      using list_remove [OF heap_invD(4) [OF inv, of h] bin] b(1) by (auto simp: elem_ok_def)
    let ?w = "join_elem a b w1"
    have "unat a < unat b" "unat b < unat ?c" using elem_end [OF r(1), folded ys(2)] elem_end [OF b(1)] r(1) b(1) by (simp_all add: elem_ok_def)
    then have ne: "?c \<noteq> a" by (metis less_trans less_irrefl)
    have el: "mw_elem ?w = (mw_elem w)(a := (mw_elem w a)\<lparr>e_size := size_at w a + size_at w b\<rparr>, ?c := (mw_elem w ?c)\<lparr>e_prev := a\<rparr>)"
      using ne by (simp add: join_elem_def Let_def w1(3) size_at_def)
    have st: "still h w ?w" unfolding join_elem_def Let_def by (intro still_trans [OF _ still_upd_elem] w1(4))
    have "listed ?w h (?F - {b})" unfolding join_elem_def Let_def using busy by (intro listed_keep listed_elem) (use w1(2) in simp_all)
    moreover have "?F - {b} = {x \<in> elems lay h - {a, b}. fr w x} \<union> {x \<in> {a}. fr w x}" using busy by auto
    ultimately have li: "listed ?w h ({x \<in> elems lay h - {a, b}. fr w x} \<union> {x \<in> {a}. fr w x})" by simp
    have nf: "fr w a \<Longrightarrow> ys' \<noteq> [] \<Longrightarrow> \<not> fr w (hd ys')" using busy by simp
    note M = merge_ok [where lay = lay, OF inv zb nf el st li]
    have frs: "fr ?w = fr w" by (auto simp: fr_def el fun_eq_iff)
    have "free_join_next a w = Inr ?w"
      using w1(1) True by (simp add: free_join_next_def Let_def fr_def size_at_def [symmetric] ys(2) [symmetric])
    moreover have "ys' \<noteq> [] \<Longrightarrow> \<not> fr ?w (hd ys')"
      using heap_invD(3) [OF inv zb] fb unfolding frs by (auto simp: zone_inv_def successively_append_iff successively_Cons)
    moreover have "{x \<in> {a, b}. \<not> fr w x} = {a}" "{x \<in> {a}. \<not> fr w x} = {a}" using busy fb by auto
    moreover have "pad_at ?w a = pad_at w a" using ne by (simp add: pad_at_def el)
    ultimately show ?thesis using M st busy frs by (intro exI [of _ ?w] exI [of _ ys']) simp
  qed
qed
text \<open>Without a free element in front, the element itself becomes free.\<close>

lemma free_alone_ok:
  assumes inv: "heap_inv w lay" and z: "lay z = Some (h, xs @ a # ys, en)" and busy: "\<not> fr w a"
    and nb: "ys \<noteq> [] \<Longrightarrow> \<not> fr w (hd ys)" "xs \<noteq> [] \<Longrightarrow> \<not> fr w (last xs)"
    and w': "w' = upd_elem a (e_pad_update (\<lambda>_. 0)) (malloc_elem_free_list_insert a w)"
  shows "heap_inv w' lay" "blocks w' lay = blocks w lay - {blk w a}" "still h w w'" "e_heap (mw_elem w' a) = h"
proof -
  note zi = heap_invD(3) [OF inv z]
  obtain r: "seg w h z 0 (zone_base (mw_cfg w) z) xs (e_prev (mw_elem w a)) a" "elem_ok w h z a" "rest w h z a (a + size_at w a) ys en"
    using zone_split [OF zi] .
  let ?F = "{x \<in> elems lay h. fr w x}" and ?c = "a + size_at w a"
  have hp: "e_heap (mw_elem w a) = h" "128 \<le> unat (size_at w a)" using r(2) by (simp_all add: elem_ok_def)
  have "a \<notin> ?F" using busy by simp
  note L = list_insert [OF heap_invD(4) [OF inv, of h] this hp(1)]
  have el: "mw_elem w' = (mw_elem w)(a := (mw_elem w a)\<lparr>e_state := ELEM_FREE, e_pad := 0\<rparr>)" by (simp add: w' L(2))
  show st: "still h w w'" unfolding w' by (rule still_trans [OF L(3) still_upd_elem])
  show "e_heap (mw_elem w' a) = h" using hp by (simp add: el)
  have fa: "fr w' a" "fr w' x = (x = a \<or> fr w x)" for x by (simp_all add: fr_def el)
  have "elem_ok w' h z a" using r(2) by (simp add: elem_ok_def el size_at_def pad_at_def)
  then have new: "seg w' h z (e_prev (mw_elem w a)) a [a] a ?c" by (simp add: el size_at_def)
  have z1: "lay z = Some (h, xs @ [a] @ ys, en)" using z by simp
  have old: "seg w h z (e_prev (mw_elem w a)) a [a] a ?c" using r(2) by simp
  have ac: "unat a < unat ?c" using elem_end [OF r(2)] hp by simp
  then have "?c \<noteq> a" by (metis less_irrefl)
  then have at_end: "mw_elem w' ?c = (mw_elem w ?c)\<lparr>e_prev := a\<rparr>" using rest_head [OF r(3)] by (simp add: el)
  have na: "a \<notin> set xs" "a \<notin> set ys" using zone_inv_bounds(4) [OF heap_invD(1) [OF inv] heap_invD(2) [OF inv z] zi] by simp_all
  have part: "successively (\<lambda>x y. \<not> (fr w' x \<and> fr w' y)) as" if "a \<notin> set as" "successively (\<lambda>x y. \<not> (fr w x \<and> fr w y)) as" for as
    by (rule adj_mono [OF that(2)]) (use that(1) fa(2) in auto)
  have "successively (\<lambda>x y. \<not> (fr w x \<and> fr w y)) xs" "successively (\<lambda>x y. \<not> (fr w x \<and> fr w y)) ys"
    using zi by (auto simp: zone_inv_def successively_append_iff successively_Cons)
  then have adj: "successively (\<lambda>x y. \<not> (fr w' x \<and> fr w' y)) (xs @ [a] @ ys)"
    using part na nb fa(2) by (auto simp: successively_append_iff successively_Cons)
  have out: "mw_elem w' x = mw_elem w x" if "unat x < unat a \<or> unat ?c < unat x" for x using that ac by (auto simp: el)
  have "listed w' h (insert a ?F)" unfolding w' by (rule listed_keep [OF L(1)]) simp
  moreover have "insert a ?F = {x \<in> elems lay h - set [a]. fr w x} \<union> {x \<in> set [a]. fr w' x}" using fa(1) busy by auto
  ultimately have li: "listed w' h ({x \<in> elems lay h - set [a]. fr w x} \<union> {x \<in> set [a]. fr w' x})" by simp
  note P = part_step [where lay = lay, OF inv z1 r(1) old r(3) st out at_end new adj li]
  have id: "lay(z \<mapsto> (h, xs @ [a] @ ys, en)) = lay" using z by auto
  show "heap_inv w' lay" using P(1) by (simp only: id)
  have "{x \<in> set [a]. \<not> fr w' x} = {}" "{x \<in> set [a]. \<not> fr w x} = {a}" using fa(1) busy by auto
  then show "blocks w' lay = blocks w lay - {blk w a}" using P(2) by (simp only: id image_insert image_empty Un_empty_left)
qed

lemma join_prev_ok:
  assumes inv: "heap_inv w lay" and z: "lay z = Some (h, xs @ a # ys, en)" and busy: "\<not> fr w a" and nb: "ys \<noteq> [] \<Longrightarrow> \<not> fr w (hd ys)"
  shows "\<exists>w' lay'. free_join_prev a w = Inr w' \<and> heap_inv w' lay' \<and> still h w w' \<and> e_heap (mw_elem w' a) = h \<and> blocks w' lay' = blocks w lay - {blk w a}"
proof -
  note D = heap_invD [OF inv]
  note zi = D(3) [OF z]
  obtain r: "seg w h z 0 (zone_base (mw_cfg w) z) xs (e_prev (mw_elem w a)) a" "elem_ok w h z a" "rest w h z a (a + size_at w a) ys en"
    using zone_split [OF zi] .
  show ?thesis
  proof (cases "xs \<noteq> [] \<and> fr w (last xs)")
    case False
    have "\<not> (e_prev (mw_elem w a) \<noteq> 0 \<and> e_state (mw_elem w (e_prev (mw_elem w a))) = ELEM_FREE)"
    proof (cases xs rule: rev_cases)
      case Nil
      then show ?thesis using r(1) by simp
    next
      case (snoc us p)
      then show ?thesis using r(1) False by (auto simp: seg_prev_last fr_def)
    qed
    then have "free_join_prev a w = Inr (upd_elem a (e_pad_update (\<lambda>_. 0)) (malloc_elem_free_list_insert a w))" by (auto simp: free_join_prev_def Let_def)
    then show ?thesis using free_alone_ok [where lay = lay, OF inv z busy nb _ refl] False by blast
  next
    case True
    obtain us p where xs: "xs = us @ [p]" "fr w p" using True by (cases xs rule: rev_cases) auto
    have zp: "lay z = Some (h, us @ p # a # ys, en)" using z xs(1) by simp
    have p: "elem_ok w h z p" "e_prev (mw_elem w a) = p" "a = p + size_at w p" using r(1) unfolding xs(1) by (auto simp: seg_prev_last)
    have p0: "p \<noteq> 0" using zone_inv_bounds(2) [OF D(1) D(2) [OF zp] D(3) [OF zp], of p] zone_inv_bounds(6) [OF D(1) D(2) [OF zp] D(3) [OF zp]] by auto
    let ?F = "{x \<in> elems lay h. fr w x}" and ?c = "a + size_at w a"
    have pin: "p \<in> ?F" using elemsI [where lay = lay, OF zp, of p] xs(2) by simp
    obtain w1 where w1: "elem_free_list_remove p w = Inr w1" "listed w1 h (?F - {p})" "mw_elem w1 = mw_elem w" "still h w w1"
      using list_remove [OF D(4) pin] p(1) by (auto simp: elem_ok_def)
    let ?w2 = "join_elem p a w1" and ?w = "malloc_elem_free_list_insert p (join_elem p a w1)"
    have less: "unat p < unat a" "unat a < unat ?c" using elem_end [OF p(1), folded p(3)] elem_end [OF r(2)] r(2) p(1) by (simp_all add: elem_ok_def)
    then have ne: "?c \<noteq> p" "?c \<noteq> a" "a \<noteq> p" by (metis less_trans less_irrefl)+
    have el2: "mw_elem ?w2 = (mw_elem w)(p := (mw_elem w p)\<lparr>e_size := size_at w p + size_at w a\<rparr>, ?c := (mw_elem w ?c)\<lparr>e_prev := p\<rparr>)"
      using ne by (simp add: join_elem_def Let_def w1(3) size_at_def)
    have "listed ?w2 h (?F - {p})" unfolding join_elem_def Let_def by (intro listed_keep listed_elem) (use w1(2) in simp_all)
    moreover have "e_heap (mw_elem ?w2 p) = h" using p(1) ne by (simp add: el2 elem_ok_def)
    ultimately have L: "listed ?w h (insert p (?F - {p}))" "mw_elem ?w = (mw_elem ?w2)(p := (mw_elem ?w2 p)\<lparr>e_state := ELEM_FREE\<rparr>)" "still h ?w2 ?w"
      using list_insert [of ?w2 h "?F - {p}" p] by simp_all
    have "e_state (mw_elem w p) = ELEM_FREE" using xs(2) by (simp add: fr_def)
    then have el: "mw_elem ?w = (mw_elem w)(p := (mw_elem w p)\<lparr>e_size := size_at w p + size_at w a\<rparr>, ?c := (mw_elem w ?c)\<lparr>e_prev := p\<rparr>)"
      unfolding L(2) el2 using ne by (auto simp: fun_eq_iff)
    have st: "still h w ?w" by (rule still_trans [OF _ L(3)], unfold join_elem_def Let_def) (intro still_trans [OF _ still_upd_elem] w1(4))
    have "insert p (?F - {p}) = {x \<in> elems lay h - {p, a}. fr w x} \<union> {x \<in> {p}. fr w x}" using busy xs(2) by auto
    then have li: "listed ?w h ({x \<in> elems lay h - {p, a}. fr w x} \<union> {x \<in> {p}. fr w x})" using L(1) by simp
    note M = merge_ok [where lay = lay, OF inv zp nb el st li]
    have "free_join_prev a w = Inr ?w"
      using w1(1) xs(2) p0 p(2) ne(2,3) by (simp add: free_join_prev_def Let_def fr_def w1(3) el2)
    moreover have "e_heap (mw_elem ?w a) = h" using r(2) ne by (simp add: el elem_ok_def)
    moreover have "{x \<in> {p, a}. \<not> fr w x} = {a}" "{x \<in> {p}. \<not> fr w x} = {}" using busy xs(2) by auto
    ultimately show ?thesis using M st by auto
  qed
qed
section \<open>From a block to its element\<close>

lemma block_size:
  assumes "heap_inv w lay" and "b \<in> blocks w lay"
  shows "64 \<le> unat (snd b)" "64 dvd unat (snd b)"
proof -
  obtain z h as en a where "lay z = Some (h, as, en)" and a: "elem_ok w h z a" "\<not> fr w a" "b = blk w a" using block_elem [OF assms] by metis
  have "64 dvd unat (size_at w a)" using a(1) by (simp add: elem_ok_def)
  then show "64 \<le> unat (snd b)" "64 dvd unat (snd b)" unfolding a(3) elem_busy(2) [OF a(1,2)] using elem_busy(3,4) [OF a(1,2)]
    by (auto intro!: dvd_diff_nat)
qed

lemma blocks_apart:
  assumes inv: "heap_inv w lay" and b: "b \<in> blocks w lay" and c: "c \<in> blocks w lay" and ne: "b \<noteq> c"
  shows "span (fst b) (snd b) \<inter> span (fst c) (snd c) = {}"
proof -
  obtain z h as en x where x: "lay z = Some (h, as, en)" "x \<in> set as" "b = blk w x" "span (fst b) (snd b) \<subseteq> span x (size_at w x)" using block_elem [OF inv b] by metis
  obtain y k bs e v where v: "lay y = Some (k, bs, e)" "v \<in> set bs" "c = blk w v" "span (fst c) (snd c) \<subseteq> span v (size_at w v)" using block_elem [OF inv c] by metis
  have "x \<noteq> v" using ne x(3) v(3) by auto
  then show ?thesis using elems_apart [where lay = lay, OF inv x(1,2) v(1,2)] x(4) v(4) by blast
qed

lemma block_start:
  assumes "heap_inv w lay" and "b \<in> blocks w lay" and "c \<in> blocks w lay" and "fst b = fst c"
  shows "b = c"
proof (rule ccontr)
  assume "b \<noteq> c"
  then have "span (fst b) (snd b) \<inter> span (fst c) (snd c) = {}" by (rule blocks_apart [OF assms(1-3)])
  moreover have "unat (fst b) \<in> span (fst b) (snd b) \<inter> span (fst c) (snd c)"
    using block_size(1) [OF assms(1,2)] block_size(1) [OF assms(1,3)] assms(4) by (simp add: span_def)
  ultimately show False by simp
qed

lemma from_data_ok:
  assumes ok: "elem_ok w h z a" "\<not> fr w a" and low: "2 ^ 33 \<le> unat a"
  shows "malloc_elem_from_data (fst (blk w a)) w = a" "fst (blk w a) \<noteq> 0"
proof -
  have "unat (fst (blk w a)) \<noteq> 0" using elem_busy(1) [OF ok] by simp
  then show nz: "fst (blk w a) \<noteq> 0" by auto
  have p: "pad_at w a = 0 \<and> e_state (mw_elem w a) = ELEM_BUSY \<or> pad_at w a = 64 \<and> e_state (mw_elem w (a + 64)) = ELEM_PAD \<and> pad_at w (a + 64) = 64"
    using ok by (auto simp: elem_ok_def fr_def)
  have a0: "a \<noteq> 0" "a + 64 \<noteq> 0"
    using low ok unat_plus_line [of a] by (auto simp: elem_ok_def)
  show "malloc_elem_from_data (fst (blk w a)) w = a"
    using p a0 nz by (elim disjE conjE) (simp_all add: malloc_elem_from_data_def Let_def MALLOC_ELEM_HEADER_LEN_def blk_def pad_at_def add.commute [of a])
qed

section \<open>Freeing a block\<close>

lemma malloc_elem_free_ok:
  assumes inv: "heap_inv w lay" and z: "lay z = Some (h, as, en)" and a: "a \<in> set as" and busy: "\<not> fr w a" and lock: "\<not> h_lock (mw_heap w h)"
  shows "\<exists>w' lay'. malloc_elem_free a w = Inr (0, w') \<and> heap_inv w' lay' \<and> blocks w' lay' = blocks w lay - {blk w a} \<and> calm w w'"
proof -
  note D = heap_invD [OF inv]
  note zz = D(1) D(2) [OF z] D(3) [OF z]
  have ok: "elem_ok w h z a" by (rule zone_inv_bounds(1) [OF zz a])
  have a0: "a \<noteq> 0" using zone_inv_bounds(2) [OF zz a] zone_inv_bounds(6) [OF zz] by auto
  have st: "e_state (mw_elem w a) = ELEM_BUSY" "e_heap (mw_elem w a) = h" using ok busy by (auto simp: elem_ok_def fr_def)
  let ?w = "upd_heap h (h_lock_update (\<lambda>_. True)) w"
  obtain xs ys where as: "as = xs @ a # ys" using a split_list by metis
  have inv1: "heap_inv ?w lay" "blocks ?w lay = blocks w lay" using inv by simp_all
  have busy1: "\<not> fr ?w a" "blk ?w a = blk w a" using busy by (simp_all add: fr_def blk_def size_at_def pad_at_def)
  obtain w2 ys2 where w2: "free_join_next a ?w = Inr w2" "heap_inv w2 (lay(z \<mapsto> (h, xs @ a # ys2, en)))" "still h ?w w2" "\<not> fr w2 a"
      "pad_at w2 a = pad_at ?w a" "ys2 \<noteq> [] \<longrightarrow> \<not> fr w2 (hd ys2)"
      "blocks w2 (lay(z \<mapsto> (h, xs @ a # ys2, en))) = insert (blk w2 a) (blocks w lay - {blk w a})"
    using join_next_ok [where lay = lay, OF inv1(1) z [unfolded as] busy1(1)] inv1(2) busy1(2) by auto
  let ?lay = "lay(z \<mapsto> (h, xs @ a # ys2, en))"
  have zl: "?lay z = Some (h, xs @ a # ys2, en)" by simp
  obtain w3 lay3 where w3: "free_join_prev a w2 = Inr w3" "heap_inv w3 lay3" "still h w2 w3" "e_heap (mw_elem w3 a) = h" "blocks w3 lay3 = blocks w2 ?lay - {blk w2 a}"
    using join_prev_ok [where lay = ?lay, OF w2(2) zl w2(4) w2(6) [rule_format]] by blast
  have "blk w2 a \<notin> blocks w lay - {blk w a}"
  proof
    assume b: "blk w2 a \<in> blocks w lay - {blk w a}"
    have "blk w a \<in> blocks w lay" using blocks_split [of w lay z] z a busy by (auto simp: zone_blocks_def)
    moreover have "fst (blk w2 a) = fst (blk w a)" using w2(5) by (simp add: blk_def pad_at_def)
    ultimately show False using block_start [OF inv] b by blast
  qed
  then have bl: "blocks w3 lay3 = blocks w lay - {blk w a}" unfolding w3(5) w2(7) by (rule Diff_insert_absorb)
  let ?w' = "heap_unlock h (upd_heap h (\<lambda>x. x\<lparr>h_alloc_count := h_alloc_count x - 1\<rparr>) w3)"
  have "malloc_elem_free a w = Inr (0, ?w')"
    using a0 st lock w2(1) w3(1,4) by (simp add: malloc_elem_free_def heap_lock_def Let_def)
  moreover have "heap_inv ?w' lay3" "blocks ?w' lay3 = blocks w lay - {blk w a}" using w3(2) bl by (simp_all add: heap_unlock_def)
  moreover have "calm w ?w'"
    using still_calm [OF w2(3)] still_calm [OF w3(3)] lock by (auto simp: calm_def heap_unlock_def)
  ultimately show ?thesis by blast
qed

lemma free_at:
  assumes at: "heap_at w B" and b: "(p, cap) \<in> B"
  shows "\<exists>w'. rte_free p w = Inr w' \<and> heap_at w' (B - {(p, cap)}) \<and> mw_byte w' = mw_byte w"
proof -
  obtain lay where lay: "heap_inv w lay" "blocks w lay = B" and lk: "\<forall>k. \<not> h_lock (mw_heap w k)" using at by (auto simp: heap_at_def)
  have b': "(p, cap) \<in> blocks w lay" using b lay(2) by simp
  obtain z h as en a where a: "lay z = Some (h, as, en)" "a \<in> set as" "\<not> fr w a" "(p, cap) = blk w a" "elem_ok w h z a"
    using block_elem [OF lay(1) b'] by metis
  note D = heap_invD [OF lay(1)]
  have low: "2 ^ 33 \<le> unat a" using zone_inv_bounds(2,6) [OF D(1) D(2,3) [OF a(1)]] a(2) by fastforce
  have "fst (blk w a) = p" by (simp only: a(4) [symmetric] fst_conv)
  then have fd: "malloc_elem_from_data p w = a" "p \<noteq> 0" using from_data_ok [OF a(5,3) low] by simp_all
  obtain w' lay' where w': "malloc_elem_free a w = Inr (0, w')" "heap_inv w' lay'" "blocks w' lay' = B - {(p, cap)}" "calm w w'"
    using malloc_elem_free_ok [OF lay(1) a(1-3)] lk lay(2) a(4) by auto
  then have "rte_free p w = Inr w'" using fd by (simp add: rte_free_def)
  then show ?thesis using w' lk by (auto simp: heap_at_def calm_def)
qed

end
