(* ===== verification/Malloc_Interface.thy ===== *)
theory Malloc_Interface
  imports Malloc_Free
begin

text \<open>
  What the callers of the heap rely on, as an interface of an allocator: requests are answered with memory apart from all
  blocks in use, and a block that is freed leaves the others alone. From it follows that no sequence of requests and
  frees, whatever their order, makes blocks overlap or fails. The heap of \<open>librte_malloc\<close> provides it.
\<close>

section \<open>The interface\<close>

text \<open>A client asks for memory or gives back the \<open>i\<close>th pointer it holds.\<close>

datatype 'r heap_op = Get 'r | Put nat

fun run_ops :: "('r \<Rightarrow> 's \<Rightarrow> c_error + u64 \<times> 's) \<Rightarrow> (u64 \<Rightarrow> 's \<Rightarrow> c_error + 's) \<Rightarrow> 'r heap_op list \<Rightarrow> u64 list \<Rightarrow> 's \<Rightarrow> c_error + u64 list \<times> 's" where
  "run_ops alloc free [] held s = Inr (held, s)"
| "run_ops alloc free (Get r # ops) held s =
     bnd (alloc r s) (\<lambda>(p, s). run_ops alloc free ops (if p = 0 then held else p # held) s)"
| "run_ops alloc free (Put i # ops) held s =
     (if i < length held then bnd (free (held ! i) s) (\<lambda>s. run_ops alloc free ops (take i held @ drop (Suc i) held) s)
      else run_ops alloc free ops held s)"

definition asked :: "('r \<Rightarrow> bool) \<Rightarrow> 'r heap_op list \<Rightarrow> bool" where
  "asked ok ops \<longleftrightarrow> (\<forall>r. Get r \<in> set ops \<longrightarrow> ok r)"

lemma drop_one:
  assumes "distinct xs" and "i < length xs"
  shows "distinct (take i xs @ drop (Suc i) xs)" "set (take i xs @ drop (Suc i) xs) = set xs - {xs ! i}"
proof -
  obtain ys x zs where s: "xs = ys @ x # zs" "take i xs = ys" "drop (Suc i) xs = zs" "xs ! i = x" using id_take_nth_drop [OF assms(2)] by blast
  show "distinct (take i xs @ drop (Suc i) xs)" "set (take i xs @ drop (Suc i) xs) = set xs - {xs ! i}"
    unfolding s(2-4) using assms(1) unfolding s(1) by auto
qed

locale block_store =
  fixes alloc :: "'r \<Rightarrow> 's \<Rightarrow> c_error + u64 \<times> 's" and free :: "u64 \<Rightarrow> 's \<Rightarrow> c_error + 's" and at :: "'s \<Rightarrow> (u64 \<times> u64) set \<Rightarrow> bool"
    and ok :: "'r \<Rightarrow> bool" and need :: "'r \<Rightarrow> u64" and unit_of :: "'r \<Rightarrow> nat"
  assumes alloc_at: "at s B \<Longrightarrow> ok r \<Longrightarrow> \<exists>p s' B'. alloc r s = Inr (p, s') \<and> at s' B' \<and> grants B (need r) (unit_of r) p B'"
    and free_blk: "at s B \<Longrightarrow> (p, cap) \<in> B \<Longrightarrow> \<exists>s'. free p s = Inr s' \<and> at s' (B - {(p, cap)})"
    and apart: "at s B \<Longrightarrow> b \<in> B \<Longrightarrow> c \<in> B \<Longrightarrow> b \<noteq> c \<Longrightarrow> span (fst b) (snd b) \<inter> span (fst c) (snd c) = {}"
    and nonempty: "at s B \<Longrightarrow> b \<in> B \<Longrightarrow> snd b \<noteq> 0"
begin

lemma start_unique: "at s B \<Longrightarrow> b \<in> B \<Longrightarrow> c \<in> B \<Longrightarrow> fst b = fst c \<Longrightarrow> b = c"
proof (rule ccontr)
  assume a: "at s B" "b \<in> B" "c \<in> B" "fst b = fst c" "b \<noteq> c"
  then have "span (fst b) (snd b) \<inter> span (fst b) (snd c) = {}" using apart by metis
  moreover have "0 < unat (snd b)" "0 < unat (snd c)" using nonempty a by (simp_all add: unat_gt_0)
  then have "unat (fst b) \<in> span (fst b) (snd b) \<inter> span (fst b) (snd c)" by (simp add: span_def)
  ultimately show False by simp
qed

lemma start_remove:
  assumes "at s B" and "(p, cap) \<in> B"
  shows "fst ` (B - {(p, cap)}) = fst ` B - {p}"
proof -
  have "fst b \<noteq> p" if "b \<in> B" "b \<noteq> (p, cap)" for b using start_unique [OF assms(1) that(1) assms(2)] that(2) by auto
  then show ?thesis by auto
qed

text \<open>Allocate and free: the blocks are as before.\<close>

lemma alloc_free:
  assumes "at s B" and "ok r" and "alloc r s = Inr (p, s1)" and "p \<noteq> 0"
  shows "\<exists>s2. free p s1 = Inr s2 \<and> at s2 B"
proof -
  obtain B' where B': "at s1 B'" "grants B (need r) (unit_of r) p B'" using alloc_at [OF assms(1,2)] assms(3) by auto
  then obtain cap where cap: "B' = insert (p, cap) B" "\<forall>b \<in> B. span p cap \<inter> span (fst b) (snd b) = {}" using assms(4) by (auto simp: grants_def)
  have "(p, cap) \<notin> B"
  proof
    assume "(p, cap) \<in> B"
    then have "span p cap = {}" "cap \<noteq> 0" using cap(2) nonempty [OF assms(1)] by fastforce+
    then show False by (simp add: span_def unat_gt_0 [symmetric])
  qed
  then have "B' - {(p, cap)} = B" using cap(1) by simp
  then show ?thesis using free_blk [OF B'(1), of p cap] cap(1) by auto
qed

lemma run_at:
  assumes "at s B" and "fst ` B = set held" and "distinct held" and "asked ok ops"
  shows "\<exists>held' s' B'. run_ops alloc free ops held s = Inr (held', s') \<and> at s' B' \<and> fst ` B' = set held' \<and> distinct held'"
  using assms
proof (induction ops arbitrary: held s B)
  case (Cons op ops)
  have ops: "asked ok ops" using Cons.prems(4) by (simp add: asked_def)
  show ?case
  proof (cases op)
    case (Get r)
    obtain p s' B' where p: "alloc r s = Inr (p, s')" "at s' B'" "grants B (need r) (unit_of r) p B'"
      using alloc_at [OF Cons.prems(1), of r] Cons.prems(4) Get by (auto simp: asked_def)
    let ?held = "if p = 0 then held else p # held"
    have "fst ` B' = set ?held \<and> distinct ?held"
    proof (cases "p = 0")
      case True
      then show ?thesis using p(3) Cons.prems(2,3) by (simp add: grants_def)
    next
      case False
      then obtain cap where cap: "B' = insert (p, cap) B" "\<forall>b \<in> B. span p cap \<inter> span (fst b) (snd b) = {}" using p(3) by (auto simp: grants_def)
      have "p \<notin> fst ` B"
      proof
        assume "p \<in> fst ` B"
        then obtain c where c: "(p, c) \<in> B" by auto
        have "0 < unat c" "0 < unat cap" using nonempty [OF Cons.prems(1) c] nonempty [OF p(2), of "(p, cap)"] cap(1) by (simp_all add: unat_gt_0)
        then have "unat p \<in> span p cap \<inter> span p c" by (simp add: span_def)
        then show False using cap(2) c by fastforce
      qed
      then show ?thesis using cap(1) Cons.prems(2,3) False by simp
    qed
    then show ?thesis using Cons.IH [OF p(2) _ _ ops, of ?held] p(1) Get by simp
  next
    case (Put i)
    show ?thesis
    proof (cases "i < length held")
      case True
      let ?p = "held ! i" and ?held = "take i held @ drop (Suc i) held"
      have "?p \<in> fst ` B" using True Cons.prems(2) by simp
      then obtain cap where cap: "(?p, cap) \<in> B" by auto
      obtain s' where s': "free ?p s = Inr s'" "at s' (B - {(?p, cap)})" using free_blk [OF Cons.prems(1) cap] by blast
      note d = drop_one [OF Cons.prems(3) True]
      have "fst ` (B - {(?p, cap)}) = set ?held"
        unfolding d(2) Cons.prems(2) [symmetric] by (rule start_remove [OF Cons.prems(1) cap])
      then show ?thesis using Cons.IH [OF s'(2) _ d(1) ops] s'(1) Put True by simp
    next
      case False
      then show ?thesis using Cons.IH [OF Cons.prems(1-3) ops] Put by simp
    qed
  qed
qed auto

end

section \<open>The heap provides it\<close>

text \<open>A request: size, alignment and socket. Sizes and alignments together stay below 4 GB less 512 bytes, where the 32-bit sizes of
  \<open>split_elem\<close> and \<open>malloc_heap_add_memzone\<close> do not wrap.\<close>

definition request_ok :: "u32 \<Rightarrow> u64 \<times> u32 \<times> int \<Rightarrow> bool" where
  "request_ok here r \<longleftrightarrow> (case r of (sz, align, socket) \<Rightarrow> unat sz + unat align + 512 < 2 ^ 32 \<and>
     (socket = SOCKET_ID_ANY \<and> 0 \<le> sint (malloc_get_numa_socket here) \<or> 0 \<le> socket))"

definition malloc_request :: "u32 \<Rightarrow> u64 \<times> u32 \<times> int \<Rightarrow> malloc_world \<Rightarrow> c_error + u64 \<times> malloc_world" where
  "malloc_request here r = (case r of (sz, align, socket) \<Rightarrow> rte_malloc_socket here sz align socket)"

definition request_unit :: "u64 \<times> u32 \<times> int \<Rightarrow> nat" where
  "request_unit r = (case r of (sz, align, socket) \<Rightarrow> unat (if align = 0 then 1 else align))"

interpretation heap: block_store "malloc_request here" rte_free heap_at "request_ok here" fst request_unit
proof
  show "\<exists>p s' B'. malloc_request here r s = Inr (p, s') \<and> heap_at s' B' \<and> grants B (fst r) (request_unit r) p B'" if "heap_at s B" "request_ok here r" for s B r
    using that malloc_socket_at [OF that(1)] by (cases r) (fastforce simp: request_ok_def malloc_request_def request_unit_def)
  show "\<exists>s'. rte_free p s = Inr s' \<and> heap_at s' (B - {(p, cap)})" if "heap_at s B" "(p, cap) \<in> B" for s B p cap using free_at [OF that] by blast
  show "span (fst b) (snd b) \<inter> span (fst c) (snd c) = {}" if "heap_at s B" "b \<in> B" "c \<in> B" "b \<noteq> c" for s B b c
  proof -
    obtain lay where "heap_inv s lay" "blocks s lay = B" using \<open>heap_at s B\<close> by (auto simp: heap_at_def)
    then show ?thesis using blocks_apart [of s lay b c] \<open>b \<in> B\<close> \<open>c \<in> B\<close> \<open>b \<noteq> c\<close> by simp
  qed
  show "snd b \<noteq> 0" if "heap_at s B" "b \<in> B" for s B b
  proof -
    obtain lay where "heap_inv s lay" "blocks s lay = B" using \<open>heap_at s B\<close> by (auto simp: heap_at_def)
    then have "64 \<le> unat (snd b)" using block_size(1) [of s lay b] \<open>b \<in> B\<close> by simp
    then show ?thesis by auto
  qed
qed

section \<open>Two heaps to start from\<close>

text \<open>The heap before the first request.\<close>

definition empty_elem :: malloc_elem where "empty_elem = \<lparr>e_heap = 0, e_prev = 0, e_mz = 0, e_state = ELEM_FREE, e_pad = 0, e_size = 0\<rparr>"
definition empty_heap :: malloc_heap where
  "empty_heap = \<lparr>h_lock = False, h_free_head = \<lambda>_. [], h_mz_count = 0, h_alloc_count = 0, h_total_size = 0\<rparr>"

definition sample_heaps :: malloc_world where
  "sample_heaps = \<lparr>mw_elem = \<lambda>_. empty_elem, mw_heap = \<lambda>_. empty_heap, mw_cfg = sample_zones, mw_byte = \<lambda>_. 0\<rparr>"

lemma sample_heaps_at: "heap_at sample_heaps {}"
proof -
  have "heap_inv sample_heaps (\<lambda>_. None)"
    using sample_zones_ok by (simp add: heap_inv_def sample_heaps_def listed_def elems_def empty_heap_def)
  moreover have "blocks sample_heaps (\<lambda>_. None) = {}" by (simp add: blocks_def)
  ultimately show ?thesis unfolding heap_at_def by (auto simp: sample_heaps_def empty_heap_def)
qed

text \<open>A zone of 1 kB with a padded block of 64 bytes and a free element of 704 bytes behind it.\<close>

definition padded_zones :: mem_config where
  "padded_zones = sample_zones\<lparr>mc_memzone := \<lambda>i. if i = 0 then zero_memzone\<lparr>zn_addr := 0x7E0000000000, zn_len := 1024\<rparr> else zero_memzone, mc_memzone_idx := 1\<rparr>"

definition padded_heap :: malloc_world where
  "padded_heap = sample_heaps\<lparr>mw_cfg := padded_zones,
     mw_elem := (\<lambda>_. empty_elem)
       (0x7E0000000000 := empty_elem\<lparr>e_state := ELEM_BUSY, e_pad := 64, e_size := 192\<rparr>,
        0x7E0000000040 := empty_elem\<lparr>e_state := ELEM_PAD, e_pad := 64, e_size := 128\<rparr>,
        0x7E00000000C0 := empty_elem\<lparr>e_prev := 0x7E0000000000, e_size := 704\<rparr>,
        0x7E0000000380 := empty_elem\<lparr>e_prev := 0x7E00000000C0, e_state := ELEM_BUSY\<rparr>),
     mw_heap := (\<lambda>_. empty_heap)(0 := empty_heap\<lparr>h_free_head := (\<lambda>_. [])(1 := [0x7E00000000C0]), h_alloc_count := 1\<rparr>)\<rparr>"

lemma padded_zones_ok: "memzone_ok padded_zones"
proof -
  have l: "live_seg padded_zones i \<Longrightarrow> i = 0 \<or> i = 1" for i using sample_run by (simp add: live_run_to padded_zones_def sample_zones_def)
  have z: "zone_ok (mc_memzone padded_zones 0)" by (simp add: padded_zones_def zone_ok_def zero_memzone_def)
  have ap: "zone_area padded_zones 0 \<inter> seg_area padded_zones j = {}" if "j = 0 \<or> j = 1" for j
    using that by (auto simp: zone_area_def seg_area_def span_def padded_zones_def sample_zones_def sample_memseg_def zero_memzone_def)
  have s: "mc_free_memseg padded_zones = sample_memseg" "mc_memzone_idx padded_zones = 1" "0 < i \<Longrightarrow> zn_addr (mc_memzone padded_zones i) = 0" for i
    by (simp_all add: padded_zones_def sample_zones_def zero_memzone_def)
  show ?thesis
    unfolding memzone_ok_def using sample_apart sample_memseg_ok l z ap s by (auto simp: seg_area_def RTE_MAX_MEMZONE_def)
qed

lemma padded_heap_at: "heap_at padded_heap {(0x7E0000000080, 64)}"
proof -
  let ?lay = "(\<lambda>_. None)(0 \<mapsto> (0, [0x7E0000000000, 0x7E00000000C0], 0x7E0000000380)) :: layout"
  note defs = padded_heap_def sample_heaps_def empty_elem_def empty_heap_def padded_zones_def zero_memzone_def
  have el: "elems ?lay h = (if h = 0 then {0x7E0000000000, 0x7E00000000C0} else {})" for h by (auto simp: elems_def)
  have ok: "elem_ok padded_heap 0 0 0x7E0000000000" "elem_ok padded_heap 0 0 0x7E00000000C0"
    by (simp_all add: elem_ok_def size_at_def pad_at_def defs)
  have fr: "fr padded_heap 0x7E00000000C0" "\<not> fr padded_heap 0x7E0000000000" by (simp_all add: fr_def defs)
  have zi: "zone_inv padded_heap 0 0 [0x7E0000000000, 0x7E00000000C0] 0x7E0000000380"
    using ok fr by (simp add: zone_inv_def rest_simps end_ok_def size_at_def zone_base_def zone_size_def defs)
  have ix: "malloc_elem_free_list_index (size_at padded_heap 0x7E00000000C0 - 64) = 1"
    by (simp add: size_at_def defs malloc_elem_free_list_index_def bit_width.simps RTE_HEAP_NUM_FREELISTS_def)
  have li: "listed padded_heap h {a \<in> elems ?lay h. fr padded_heap a}" for h
    unfolding listed_def el using fr ix by (auto simp: padded_heap_def sample_heaps_def empty_heap_def)
  have "mw_cfg padded_heap = padded_zones" by (simp add: padded_heap_def)
  then have "heap_inv padded_heap ?lay" using padded_zones_ok zi li by (auto simp: heap_inv_def padded_zones_def split: if_splits)
  moreover have "blocks padded_heap ?lay = {(0x7E0000000080, 64)}"
  proof -
    have "{a \<in> set [0x7E0000000000, 0x7E00000000C0]. \<not> fr padded_heap a} = {0x7E0000000000}" using fr by auto
    then have "zone_blocks padded_heap [0x7E0000000000, 0x7E00000000C0] = {(0x7E0000000080, 64)}"
      by (simp only: zone_blocks_def) (simp add: blk_def size_at_def pad_at_def defs)
    then show ?thesis using blocks_split [of padded_heap ?lay 0] by simp
  qed
  ultimately show ?thesis unfolding heap_at_def by (auto simp: padded_heap_def sample_heaps_def empty_heap_def)
qed

section \<open>The properties\<close>

text \<open>C20: \<open>rte_malloc_socket\<close> on a heap at rest with the blocks B returns: NULL with no block changed, or a pointer to a block
  of at least the size asked for, at a multiple of the alignment, apart from every block in use; the blocks are then those of before and the new one, every
  lock is released and no byte is written.\<close>
theorem malloc_exact:
  assumes "heap_at w B" and "unat sz + unat align + 512 < 2 ^ 32"
    and "socket = SOCKET_ID_ANY \<and> 0 \<le> sint (malloc_get_numa_socket here) \<or> 0 \<le> socket"
  shows "\<exists>p w' B'. rte_malloc_socket here sz align socket w = Inr (p, w') \<and> heap_at w' B' \<and> mw_byte w' = mw_byte w \<and>
    (if p = 0 then B' = B
     else unat (if align = 0 then 1 else align) dvd unat p \<and>
       (\<exists>cap. unat sz \<le> unat cap \<and> B' = insert (p, cap) B \<and> (\<forall>b \<in> B. span p cap \<inter> span (fst b) (snd b) = {})))"
  using malloc_socket_at [OF assms] by (auto simp: grants_def split: if_splits)

theorem malloc_exact_witness:
  "\<exists>p w' B'. rte_malloc_socket 0 512 128 SOCKET_ID_ANY padded_heap = Inr (p, w') \<and> heap_at w' B' \<and> mw_byte w' = mw_byte padded_heap \<and>
    (if p = 0 then B' = {(0x7E0000000080, 64)}
     else 128 dvd unat p \<and> (\<exists>cap. 512 \<le> unat cap \<and> B' = insert (p, cap) {(0x7E0000000080, 64)} \<and> (\<forall>b \<in> {(0x7E0000000080, 64)}. span p cap \<inter> span (fst b) (snd b) = {})))"
proof -
  have n: "unat (if (128 :: u32) = 0 then 1 else 128 :: u32) = 128" "unat (512 :: u64) = 512" by simp_all
  have "unat (512 :: u64) + unat (128 :: u32) + 512 < 2 ^ 32"
      "SOCKET_ID_ANY = SOCKET_ID_ANY \<and> 0 \<le> sint (malloc_get_numa_socket 0) \<or> 0 \<le> SOCKET_ID_ANY" by (simp_all add: malloc_get_numa_socket_def)
  then show ?thesis using malloc_exact [OF padded_heap_at, of 512 128 SOCKET_ID_ANY 0] unfolding n by blast
qed

text \<open>C21: \<open>rte_free\<close> of a block in use returns, takes exactly that block out of the blocks in use and writes no byte of any other.\<close>
theorem free_exact:
  assumes "heap_at w B" and "(p, cap) \<in> B"
  shows "\<exists>w'. rte_free p w = Inr w' \<and> heap_at w' (B - {(p, cap)}) \<and> mw_byte w' = mw_byte w"
  by (rule free_at [OF assms])

theorem free_exact_witness:
  "\<exists>w'. rte_free 0x7E0000000080 padded_heap = Inr w' \<and> heap_at w' {} \<and> mw_byte w' = mw_byte padded_heap"
  using free_exact [OF padded_heap_at, of "0x7E0000000080" 64] by simp

text \<open>C22: Any sequence of requests and frees on a heap at rest, each free of a pointer the client holds, runs to its end without an error; the pointers the client
  holds are the starts of the blocks in use, each once, and no two blocks share a byte.\<close>
theorem heap_run_safe:
  assumes "heap_at w {}" and "asked (request_ok here) ops"
  shows "\<exists>held w' B. run_ops (malloc_request here) rte_free ops [] w = Inr (held, w') \<and> heap_at w' B \<and> fst ` B = set held \<and> distinct held \<and>
    (\<forall>b \<in> B. \<forall>c \<in> B. b \<noteq> c \<longrightarrow> span (fst b) (snd b) \<inter> span (fst c) (snd c) = {})"
proof -
  obtain held w' B where r: "run_ops (malloc_request here) rte_free ops [] w = Inr (held, w')" "heap_at w' B" "fst ` B = set held" "distinct held"
    using heap.run_at [OF assms(1), of "[]" here ops] assms(2) by auto
  then show ?thesis using heap.apart [OF r(2)] by blast
qed

theorem heap_run_safe_witness:
  "\<exists>held w' B. run_ops (malloc_request 0) rte_free [Get (100, 0, 0), Get (200, 64, - 1), Put 1, Put 0] [] sample_heaps = Inr (held, w') \<and>
    heap_at w' B \<and> fst ` B = set held \<and> distinct held \<and> (\<forall>b \<in> B. \<forall>c \<in> B. b \<noteq> c \<longrightarrow> span (fst b) (snd b) \<inter> span (fst c) (snd c) = {})"
  by (rule heap_run_safe [OF sample_heaps_at]) (auto simp: asked_def request_ok_def malloc_get_numa_socket_def SOCKET_ID_ANY_def)

text \<open>\<open>malloc_elem_resize\<close> forgets the padding of an element: a block of 64 bytes with padding in front, grown by \<open>rte_realloc\<close> to 128 bytes
  in place, still has 64 bytes, although the free element behind it holds 704.\<close>
theorem realloc_padded_short:
  "heap_at padded_heap {(0x7E0000000080, 64)} \<and>
   (case rte_realloc 0 0x7E0000000080 128 64 padded_heap of
      Inr (p, w') \<Rightarrow> p = 0x7E0000000080 \<and> rte_malloc_validate p w' = Some 64
    | Inl e \<Rightarrow> False)"
proof
  show "case rte_realloc 0 0x7E0000000080 128 64 padded_heap of Inr (p, w') \<Rightarrow> p = 0x7E0000000080 \<and> rte_malloc_validate p w' = Some 64 | Inl e \<Rightarrow> False"
    by code_simp
qed (rule padded_heap_at)

lemma block_end:
  assumes "heap_at w B" and "(p, cap) \<in> B"
  shows "unat p + unat cap < 2 ^ 64"
proof -
  obtain lay where lay: "heap_inv w lay" "(p, cap) \<in> blocks w lay" using assms by (auto simp: heap_at_def)
  obtain z h as en a where a: "lay z = Some (h, as, en)" "\<not> fr w a" "(p, cap) = blk w a" "elem_ok w h z a" using block_elem [OF lay] by metis
  have "unat (fst (blk w a)) + unat (snd (blk w a)) < 2 ^ 64" using elem_busy(1-3) [OF a(4,2)] a(4) by (simp add: elem_ok_def)
  then show ?thesis by (simp only: a(3) [symmetric] fst_conv snd_conv)
qed

lemma set_bytes_in: "i < n \<Longrightarrow> n \<le> 2 ^ 64 \<Longrightarrow> mw_byte (set_bytes p n f w) (p + of_nat i) = f i"
  by (simp add: set_bytes_def unat_of_nat)

lemma set_bytes_out:
  assumes "unat p + n \<le> 2 ^ 64" and "unat x < unat p \<or> unat p + n \<le> unat x"
  shows "mw_byte (set_bytes p n f w) x = mw_byte w x"
proof -
  have "n \<le> unat (x - p)"
  proof (cases "p \<le> x")
    case True
    then show ?thesis using assms by (auto simp: unat_sub_le word_le_nat_alt)
  next
    case False
    then have "unat (x - p) = 2 ^ 64 - (unat p - unat x)"
      using unat_sub_if_size [of x p] by (simp add: word_size word_le_nat_alt not_le)
    then show ?thesis using False assms(1) by (simp add: word_le_nat_alt)
  qed
  then show ?thesis by (simp add: set_bytes_def)
qed

text \<open>\<open>rte_zmalloc_socket\<close> answers as \<open>rte_malloc_socket\<close> does; when it returns a block, its first bytes, as many as asked for, are zero, and
  the bytes of all other blocks are as before.\<close>
theorem zmalloc_exact:
  assumes "heap_at w B" and "unat sz + unat align + 512 < 2 ^ 32"
    and "socket = SOCKET_ID_ANY \<and> 0 \<le> sint (malloc_get_numa_socket here) \<or> 0 \<le> socket"
  shows "\<exists>p w' B'. rte_zmalloc_socket here sz align socket w = Inr (p, w') \<and> heap_at w' B' \<and>
    (if p = 0 then B' = B \<and> mw_byte w' = mw_byte w
     else (\<exists>cap. unat sz \<le> unat cap \<and> B' = insert (p, cap) B) \<and> (\<forall>i<unat sz. mw_byte w' (p + of_nat i) = 0) \<and>
       (\<forall>b \<in> B. \<forall>x. unat x \<in> span (fst b) (snd b) \<longrightarrow> mw_byte w' x = mw_byte w x))"
proof -
  obtain p w1 B' where p: "rte_malloc_socket here sz align socket w = Inr (p, w1)" "heap_at w1 B'" "mw_byte w1 = mw_byte w"
      "grants B sz (unat (if align = 0 then 1 else align)) p B'"
    using malloc_socket_at [OF assms] by blast
  show ?thesis
  proof (cases "p = 0")
    case True
    then show ?thesis using p by (simp add: rte_zmalloc_socket_def grants_def)
  next
    case False
    then obtain cap where cap: "unat sz \<le> unat cap" "B' = insert (p, cap) B" "\<forall>b \<in> B. span p cap \<inter> span (fst b) (snd b) = {}"
      using p(4) by (auto simp: grants_def)
    let ?w = "set_bytes p (unat sz) (\<lambda>_. 0) w1"
    have at: "heap_at ?w B'"
    proof -
      obtain lay where lay: "heap_inv w1 lay" "blocks w1 lay = B'" using p(2) by (auto simp: heap_at_def)
      have "heap_inv ?w lay" by (rule heap_inv_cong [OF lay(1)]) (use heap_invD(1) [OF lay(1)] in \<open>simp_all add: set_bytes_def\<close>)
      moreover have "blocks ?w lay = B'" using blocks_cong [of ?w w1 lay] lay(2) by (simp add: set_bytes_def)
      ultimately show ?thesis using p(2) by (auto simp: heap_at_def set_bytes_def)
    qed
    have le: "unat p + unat cap < 2 ^ 64" by (rule block_end [OF p(2)]) (simp add: cap(2))
    have "mw_byte ?w x = mw_byte w x" if "b \<in> B" "unat x \<in> span (fst b) (snd b)" for b x
    proof -
      have "unat x \<notin> span p cap" using cap(3) that by blast
      then have "unat x < unat p \<or> unat p + unat sz \<le> unat x" using cap(1) by (auto simp: span_def)
      then show ?thesis using set_bytes_out [of p "unat sz" x] le cap(1) p(3) by simp
    qed
    moreover have "mw_byte ?w (p + of_nat i) = 0" if "i < unat sz" for i using set_bytes_in [OF that] by (simp add: less_imp_le)
    ultimately show ?thesis using p(1) False at cap(1,2) by (auto simp: rte_zmalloc_socket_def)
  qed
qed

theorem zmalloc_exact_witness:
  "\<exists>p w' B'. rte_zmalloc_socket 0 512 128 1 sample_heaps = Inr (p, w') \<and> heap_at w' B' \<and>
    (if p = 0 then B' = {} \<and> mw_byte w' = mw_byte sample_heaps
     else (\<exists>cap. unat (512 :: u64) \<le> unat cap \<and> B' = insert (p, cap) {}) \<and> (\<forall>i<unat (512 :: u64). mw_byte w' (p + of_nat i) = 0) \<and>
       (\<forall>b \<in> {}. \<forall>x. unat x \<in> span (fst b) (snd b) \<longrightarrow> mw_byte w' x = mw_byte sample_heaps x))"
  by (rule zmalloc_exact [OF sample_heaps_at]) simp_all

end
