(* ===== verification/Lpm.thy ===== *)
theory Lpm
  imports Ring
begin

text \<open>
  Longest prefix match for IPv4, \<open>dpdk-2.0.0/lib/librte_lpm/rte_lpm.c\<close> and \<open>rte_lpm.h\<close>: a table of rules grouped by depth, and two tables for the
  look-up, \<open>tbl24\<close> indexed by the upper 24 bits of an address and \<open>tbl8\<close>, groups of 256 entries for prefixes longer than 24 bits. The
  bit fields of an entry are booleans and a word of 6 bits; a look-up reads the 16 bits of an entry at once (\<open>bits24\<close>, \<open>bits8\<close>).
  Loops \<open>for (i = a; i < a + n; i++)\<close> run over \<open>a + k\<close> for \<open>k\<close> below \<open>n\<close>.
\<close>

section \<open>The structures\<close>

definition RTE_LPM_NAMESIZE :: nat where "RTE_LPM_NAMESIZE = 32"
definition RTE_LPM_MAX_DEPTH :: u8 where "RTE_LPM_MAX_DEPTH = 32"
definition MAX_DEPTH_TBL24 :: u8 where "MAX_DEPTH_TBL24 = 24"
definition RTE_LPM_TBL8_GROUP_NUM_ENTRIES :: u32 where "RTE_LPM_TBL8_GROUP_NUM_ENTRIES = 256"
definition RTE_LPM_TBL8_NUM_GROUPS :: nat where "RTE_LPM_TBL8_NUM_GROUPS = 256"
definition RTE_LPM_VALID_EXT_ENTRY_BITMASK :: u16 where "RTE_LPM_VALID_EXT_ENTRY_BITMASK = 0x0300"
definition RTE_LPM_LOOKUP_SUCCESS :: u16 where "RTE_LPM_LOOKUP_SUCCESS = 0x0100"

text \<open>\<open>t24_next_hop\<close> is the union of the next hop and the index of a group.\<close>

record rte_lpm_tbl24_entry =
  t24_next_hop :: u8
  t24_valid :: bool
  t24_ext_entry :: bool
  t24_depth :: "6 word"

record rte_lpm_tbl8_entry =
  t8_next_hop :: u8
  t8_valid :: bool
  t8_valid_group :: bool
  t8_depth :: "6 word"

record rte_lpm_rule =
  lr_ip :: u32
  lr_next_hop :: u8

record rte_lpm_rule_info =
  used_rules :: u32
  first_rule :: u32

record rte_lpm =
  l_name :: string
  l_max_rules :: u32
  l_rule_info :: "nat \<Rightarrow> rte_lpm_rule_info"
  l_tbl24 :: "rte_lpm_tbl24_entry carray"
  l_tbl8 :: "rte_lpm_tbl8_entry carray"
  l_rules_tbl :: "rte_lpm_rule carray"

text \<open>The entries as 16 bits in memory.\<close>

definition bits24 :: "rte_lpm_tbl24_entry \<Rightarrow> u16" where
  "bits24 e = ucast (t24_next_hop e) OR (if t24_valid e then 0x100 else 0) OR (if t24_ext_entry e then 0x200 else 0) OR push_bit 10 (ucast (t24_depth e))"

definition bits8 :: "rte_lpm_tbl8_entry \<Rightarrow> u16" where
  "bits8 e = ucast (t8_next_hop e) OR (if t8_valid e then 0x100 else 0) OR (if t8_valid_group e then 0x200 else 0) OR push_bit 10 (ucast (t8_depth e))"

definition upd_info :: "nat \<Rightarrow> (rte_lpm_rule_info \<Rightarrow> rte_lpm_rule_info) \<Rightarrow> rte_lpm \<Rightarrow> rte_lpm" where
  "upd_info g f l = l\<lparr>l_rule_info := (l_rule_info l)(g := f (l_rule_info l g))\<rparr>"

definition set_rule :: "u32 \<Rightarrow> rte_lpm_rule \<Rightarrow> rte_lpm \<Rightarrow> rte_lpm" where
  "set_rule i r l = l\<lparr>l_rules_tbl := (l_rules_tbl l)(i := r)\<rparr>"

definition set24 :: "u32 \<Rightarrow> rte_lpm_tbl24_entry \<Rightarrow> rte_lpm \<Rightarrow> rte_lpm" where
  "set24 i e l = l\<lparr>l_tbl24 := (l_tbl24 l)(i := e)\<rparr>"

definition set8 :: "u32 \<Rightarrow> rte_lpm_tbl8_entry \<Rightarrow> rte_lpm \<Rightarrow> rte_lpm" where
  "set8 i e l = l\<lparr>l_tbl8 := (l_tbl8 l)(i := e)\<rparr>"

text \<open>\<open>(int)0x80000000 >> (depth - 1)\<close> shifts in the sign.\<close>

definition depth_to_mask :: "u8 \<Rightarrow> u32" where
  "depth_to_mask depth = signed_drop_bit (unat (depth - 1)) 0x80000000"

definition depth_to_range :: "u8 \<Rightarrow> u32" where
  "depth_to_range depth =
     (if depth \<le> MAX_DEPTH_TBL24 then push_bit (unat (MAX_DEPTH_TBL24 - depth)) 1 else push_bit (unat (RTE_LPM_MAX_DEPTH - depth)) 1)"

section \<open>The table of rules\<close>

text \<open>The index of the first rule with the address from \<open>i\<close> on, or the end of the group.\<close>

function rule_scan :: "rte_lpm \<Rightarrow> u32 \<Rightarrow> u32 \<Rightarrow> u32 \<Rightarrow> u32" where
  "rule_scan l ip_masked last_rule i =
     (if i < last_rule then if lr_ip (l_rules_tbl l i) = ip_masked then i else rule_scan l ip_masked last_rule (i + 1) else i)"
  by pat_completeness auto
termination
proof (relation "measure (\<lambda>(l, ip, last_rule, i). unat last_rule - unat i)", goal_cases)
  case (2 l ip last_rule i)
  then have "unat (i + 1) = unat i + 1" "unat i < unat last_rule" using unat_Suc_of_less by (auto simp: word_less_nat_alt)
  then show ?case by simp
qed simp

declare rule_scan.simps [simp del]

definition group_end :: "rte_lpm \<Rightarrow> nat \<Rightarrow> u32" where
  "group_end l g = first_rule (l_rule_info l g) + used_rules (l_rule_info l g)"

text \<open>The end of the last group in use below a depth.\<close>

fun prev_end :: "rte_lpm \<Rightarrow> nat \<Rightarrow> u32" where
  "prev_end l 0 = 0"
| "prev_end l (Suc g) = (if used_rules (l_rule_info l g) > 0 then group_end l g else prev_end l g)"

text \<open>The groups above a depth move up by one rule each, from the last one down.\<close>

fun make_room :: "nat \<Rightarrow> nat \<Rightarrow> rte_lpm \<Rightarrow> bool \<times> rte_lpm" where
  "make_room 0 depth l = (True, l)"
| "make_room (Suc g) depth l =
     (if Suc g > depth
      then if group_end l g = l_max_rules l then (False, l)
           else make_room g depth
             (if used_rules (l_rule_info l g) > 0
              then upd_info g (\<lambda>r. r\<lparr>first_rule := first_rule r + 1\<rparr>)
                     (set_rule (group_end l g) (l_rules_tbl l (first_rule (l_rule_info l g))) l)
              else l)
      else (True, l))"

definition rule_add :: "rte_lpm \<Rightarrow> u32 \<Rightarrow> u8 \<Rightarrow> u8 \<Rightarrow> int \<times> rte_lpm" where
  "rule_add l ip_masked depth next_hop =
     (let g = unat depth - 1; r = l_rule_info l g;
          (done, rule_index, l) =
            (if used_rules r > 0
             then (let rule_index = rule_scan l ip_masked (group_end l g) (first_rule r) in
                   if rule_index < group_end l g
                   then (Some (sint rule_index), rule_index, set_rule rule_index ((l_rules_tbl l rule_index)\<lparr>lr_next_hop := next_hop\<rparr>) l)
                   else if rule_index = l_max_rules l then (Some (- ENOSPC), rule_index, l)
                   else (None, rule_index, l))
             else (let rule_index = prev_end l g in
                   if rule_index = l_max_rules l then (Some (- ENOSPC), rule_index, l)
                   else (None, rule_index, upd_info g (\<lambda>r. r\<lparr>first_rule := rule_index\<rparr>) l)))
      in case done of
           Some ret \<Rightarrow> (ret, l)
         | None \<Rightarrow>
             (case make_room (unat RTE_LPM_MAX_DEPTH) (unat depth) l of
                (False, l) \<Rightarrow> (- ENOSPC, l)
              | (True, l) \<Rightarrow> (sint rule_index, upd_info g (\<lambda>r. r\<lparr>used_rules := used_rules r + 1\<rparr>)
                               (set_rule rule_index \<lparr>lr_ip = ip_masked, lr_next_hop = next_hop\<rparr> l))))"

definition close_gap :: "nat \<Rightarrow> rte_lpm \<Rightarrow> rte_lpm" where
  "close_gap g l =
     (if used_rules (l_rule_info l g) > 0
      then upd_info g (\<lambda>r. r\<lparr>first_rule := first_rule r - 1\<rparr>)
             (set_rule (first_rule (l_rule_info l g) - 1) (l_rules_tbl l (group_end l g - 1)) l)
      else l)"

definition rule_delete :: "rte_lpm \<Rightarrow> int \<Rightarrow> u8 \<Rightarrow> rte_lpm" where
  "rule_delete l rule_index depth =
     (let g = unat depth - 1;
          l = set_rule (of_int rule_index) (l_rules_tbl l (group_end l g - 1)) l;
          l = fold close_gap [unat depth..<unat RTE_LPM_MAX_DEPTH] l
      in upd_info g (\<lambda>r. r\<lparr>used_rules := used_rules r - 1\<rparr>) l)"

definition rule_find :: "rte_lpm \<Rightarrow> u32 \<Rightarrow> u8 \<Rightarrow> int" where
  "rule_find l ip_masked depth =
     (let g = unat depth - 1; i = rule_scan l ip_masked (group_end l g) (first_rule (l_rule_info l g))
      in if i < group_end l g then sint i else - EINVAL)"

section \<open>The look-up tables\<close>

definition tbl8_alloc :: "rte_lpm \<Rightarrow> int \<times> rte_lpm" where
  "tbl8_alloc l =
     (case find (\<lambda>g. \<not> t8_valid_group (l_tbl8 l (of_nat g * RTE_LPM_TBL8_GROUP_NUM_ENTRIES))) [0..<RTE_LPM_TBL8_NUM_GROUPS] of
        None \<Rightarrow> (- ENOSPC, l)
      | Some g \<Rightarrow>
          (let start = of_nat g * RTE_LPM_TBL8_GROUP_NUM_ENTRIES;
               zero = \<lparr>t8_next_hop = 0, t8_valid = False, t8_valid_group = False, t8_depth = 0\<rparr>;
               l = for_n RTE_LPM_TBL8_GROUP_NUM_ENTRIES (\<lambda>k. set8 (start + k) zero) l
           in (int g, set8 start ((l_tbl8 l start)\<lparr>t8_valid_group := True\<rparr>) l)))"

definition tbl8_free :: "u32 \<Rightarrow> rte_lpm \<Rightarrow> rte_lpm" where
  "tbl8_free start l = set8 start ((l_tbl8 l start)\<lparr>t8_valid_group := False\<rparr>) l"

text \<open>The first index of the group of an entry.\<close>

definition group_start :: "rte_lpm_tbl24_entry \<Rightarrow> u32" where
  "group_start e = ucast (t24_next_hop e) * RTE_LPM_TBL8_GROUP_NUM_ENTRIES"

definition add_small_entry :: "u8 \<Rightarrow> u8 \<Rightarrow> u32 \<Rightarrow> rte_lpm \<Rightarrow> rte_lpm" where
  "add_small_entry depth next_hop i l =
     (let e = l_tbl24 l i in
      if \<not> t24_valid e \<or> \<not> t24_ext_entry e \<and> ucast (t24_depth e) \<le> depth
      then set24 i \<lparr>t24_next_hop = next_hop, t24_valid = True, t24_ext_entry = False, t24_depth = ucast depth\<rparr> l
      else for_n RTE_LPM_TBL8_GROUP_NUM_ENTRIES
             (\<lambda>k l. let j = group_start e + k in
                if \<not> t8_valid (l_tbl8 l j) \<or> ucast (t8_depth (l_tbl8 l j)) \<le> depth
                then set8 j \<lparr>t8_next_hop = next_hop, t8_valid = True, t8_valid_group = True, t8_depth = ucast depth\<rparr> l
                else l) l)"

definition add_depth_small :: "rte_lpm \<Rightarrow> u32 \<Rightarrow> u8 \<Rightarrow> u8 \<Rightarrow> int \<times> rte_lpm" where
  "add_depth_small l ip depth next_hop =
     (0, for_n (depth_to_range depth) (\<lambda>k. add_small_entry depth next_hop (drop_bit 8 ip + k)) l)"

text \<open>A rule written into part of a group, where no longer prefix has the entry.\<close>

definition put_longer :: "u8 \<Rightarrow> u8 \<Rightarrow> u32 \<Rightarrow> rte_lpm \<Rightarrow> rte_lpm" where
  "put_longer depth next_hop i l =
     (let e = l_tbl8 l i in
      if \<not> t8_valid e \<or> ucast (t8_depth e) \<le> depth
      then set8 i (e\<lparr>t8_valid := True, t8_depth := ucast depth, t8_next_hop := next_hop\<rparr>) l else l)"

definition add_depth_big :: "rte_lpm \<Rightarrow> u32 \<Rightarrow> u8 \<Rightarrow> u8 \<Rightarrow> int \<times> rte_lpm" where
  "add_depth_big l ip_masked depth next_hop =
     (let i24 = drop_bit 8 ip_masked; range = depth_to_range depth; e = l_tbl24 l i24 in
      if \<not> t24_valid e
      then (case tbl8_alloc l of (g, l) \<Rightarrow>
              if g < 0 then (g, l)
              else let i = of_int g * RTE_LPM_TBL8_GROUP_NUM_ENTRIES + (ip_masked AND 0xFF);
                       l = for_n range (\<lambda>k l. set8 (i + k) ((l_tbl8 l (i + k))\<lparr>t8_depth := ucast depth, t8_next_hop := next_hop, t8_valid := True\<rparr>) l) l
                in (0, set24 i24 \<lparr>t24_next_hop = of_int g, t24_valid = True, t24_ext_entry = True, t24_depth = 0\<rparr> l))
      else if \<not> t24_ext_entry e
      then (case tbl8_alloc l of (g, l) \<Rightarrow>
              if g < 0 then (g, l)
              else let start = of_int g * RTE_LPM_TBL8_GROUP_NUM_ENTRIES;
                       l = for_n RTE_LPM_TBL8_GROUP_NUM_ENTRIES
                             (\<lambda>k l. set8 (start + k) ((l_tbl8 l (start + k))\<lparr>t8_valid := True, t8_depth := t24_depth (l_tbl24 l i24), t8_next_hop := t24_next_hop (l_tbl24 l i24)\<rparr>) l) l;
                       i = start + (ip_masked AND 0xFF);
                       l = for_n range (\<lambda>k. put_longer depth next_hop (i + k)) l
                in (0, set24 i24 \<lparr>t24_next_hop = of_int g, t24_valid = True, t24_ext_entry = True, t24_depth = 0\<rparr> l))
      else let i = group_start e + (ip_masked AND 0xFF)
        in (0, for_n range (\<lambda>k. put_longer depth next_hop (i + k)) l))"

definition rte_lpm_add :: "rte_lpm \<Rightarrow> u32 \<Rightarrow> u8 \<Rightarrow> u8 \<Rightarrow> int \<times> rte_lpm" where
  "rte_lpm_add l ip depth next_hop =
     (if depth < 1 \<or> depth > RTE_LPM_MAX_DEPTH then (- EINVAL, l)
      else let ip_masked = ip AND depth_to_mask depth;
               (rule_index, l) = rule_add l ip_masked depth next_hop
        in if rule_index < 0 then (rule_index, l)
           else if depth \<le> MAX_DEPTH_TBL24
           then (case add_depth_small l ip_masked depth next_hop of (_, l) \<Rightarrow> (0, l))
           else (case add_depth_big l ip_masked depth next_hop of (status, l) \<Rightarrow>
                   if status < 0 then (status, rule_delete l rule_index depth) else (0, l)))"

definition rte_lpm_is_rule_present :: "rte_lpm \<Rightarrow> u32 \<Rightarrow> u8 \<Rightarrow> int \<times> u8 option" where
  "rte_lpm_is_rule_present l ip depth =
     (if depth < 1 \<or> depth > RTE_LPM_MAX_DEPTH then (- EINVAL, None)
      else let rule_index = rule_find l (ip AND depth_to_mask depth) depth
        in if rule_index \<ge> 0 then (1, Some (lr_next_hop (l_rules_tbl l (of_int rule_index)))) else (0, None))"

text \<open>The rule of the next shorter prefix and its depth; \<open>-1\<close> and 0 if there is none.\<close>

fun find_prev :: "rte_lpm \<Rightarrow> u32 \<Rightarrow> nat \<Rightarrow> int \<times> u8" where
  "find_prev l ip 0 = (- 1, 0)"
| "find_prev l ip (Suc d) =
     (let prev_depth = of_nat (Suc d); rule_index = rule_find l (ip AND depth_to_mask prev_depth) prev_depth
      in if rule_index \<ge> 0 then (rule_index, prev_depth) else find_prev l ip d)"

definition find_previous_rule :: "rte_lpm \<Rightarrow> u32 \<Rightarrow> u8 \<Rightarrow> int \<times> u8" where
  "find_previous_rule l ip depth = find_prev l ip (unat (depth - 1))"

text \<open>One entry of \<open>tbl24\<close> in the range of a deleted rule.\<close>

definition delete_small_entry :: "u8 \<Rightarrow> int \<Rightarrow> u8 \<Rightarrow> u32 \<Rightarrow> rte_lpm \<Rightarrow> rte_lpm" where
  "delete_small_entry depth sub_rule_index sub_rule_depth i l =
     (let e = l_tbl24 l i; hop = lr_next_hop (l_rules_tbl l (of_int sub_rule_index)) in
      if \<not> t24_ext_entry e \<and> ucast (t24_depth e) \<le> depth
      then if sub_rule_index < 0 then set24 i (e\<lparr>t24_valid := False\<rparr>) l
           else set24 i \<lparr>t24_next_hop = hop, t24_valid = True, t24_ext_entry = False, t24_depth = ucast sub_rule_depth\<rparr> l
      else for_n RTE_LPM_TBL8_GROUP_NUM_ENTRIES
             (\<lambda>k l. let j = group_start e + k; f = l_tbl8 l j in
                if ucast (t8_depth f) \<le> depth
                then if sub_rule_index < 0 then set8 j (f\<lparr>t8_valid := False\<rparr>) l
                     else set8 j \<lparr>t8_next_hop = hop, t8_valid = True, t8_valid_group = False, t8_depth = ucast sub_rule_depth\<rparr> l
                else l) l)"

definition delete_depth_small :: "rte_lpm \<Rightarrow> u32 \<Rightarrow> u8 \<Rightarrow> int \<Rightarrow> u8 \<Rightarrow> int \<times> rte_lpm" where
  "delete_depth_small l ip_masked depth sub_rule_index sub_rule_depth =
     (0, for_n (depth_to_range depth) (\<lambda>k. delete_small_entry depth sub_rule_index sub_rule_depth (drop_bit 8 ip_masked + k)) l)"

definition tbl8_recycle_check :: "rte_lpm \<Rightarrow> u32 \<Rightarrow> int" where
  "tbl8_recycle_check l start =
     (let e = l_tbl8 l start; others = map (\<lambda>k. l_tbl8 l (start + of_nat k)) [1..<256] in
      if t8_valid e
      then if (ucast (t8_depth e) :: u8) < MAX_DEPTH_TBL24
           then if \<exists>f \<in> set others. t8_depth f \<noteq> t8_depth e then - EEXIST else sint start
           else - EEXIST
      else if \<exists>f \<in> set others. t8_valid f then - EEXIST else - EINVAL)"

definition delete_depth_big :: "rte_lpm \<Rightarrow> u32 \<Rightarrow> u8 \<Rightarrow> int \<Rightarrow> u8 \<Rightarrow> int \<times> rte_lpm" where
  "delete_depth_big l ip_masked depth sub_rule_index sub_rule_depth =
     (let i24 = drop_bit 8 ip_masked;
          start = group_start (l_tbl24 l i24);
          i = start + (ip_masked AND 0xFF);
          new_entry = \<lparr>t8_next_hop = lr_next_hop (l_rules_tbl l (of_int sub_rule_index)), t8_valid = True,
                       t8_valid_group = t8_valid_group (l_tbl8 l start), t8_depth = ucast sub_rule_depth\<rparr>;
          l = for_n (depth_to_range depth) (\<lambda>k l. let f = l_tbl8 l (i + k) in
                if ucast (t8_depth f) \<le> depth
                then set8 (i + k) (if sub_rule_index < 0 then f\<lparr>t8_valid := False\<rparr> else new_entry) l else l) l;
          r = tbl8_recycle_check l start
      in (0, if r = - EINVAL then tbl8_free start (set24 i24 ((l_tbl24 l i24)\<lparr>t24_valid := False\<rparr>) l)
             else if r > - 1
             then (let f = l_tbl8 l (of_int r)
                   in tbl8_free start (set24 i24 \<lparr>t24_next_hop = t8_next_hop f, t24_valid = True, t24_ext_entry = False, t24_depth = t8_depth f\<rparr> l))
             else l))"

definition rte_lpm_delete :: "rte_lpm \<Rightarrow> u32 \<Rightarrow> u8 \<Rightarrow> int \<times> rte_lpm" where
  "rte_lpm_delete l ip depth =
     (if depth < 1 \<or> depth > RTE_LPM_MAX_DEPTH then (- EINVAL, l)
      else let ip_masked = ip AND depth_to_mask depth;
               rule_to_delete_index = rule_find l ip_masked depth
        in if rule_to_delete_index < 0 then (- EINVAL, l)
           else let l = rule_delete l rule_to_delete_index depth;
                    (sub_rule_index, sub_rule_depth) = find_previous_rule l ip depth
             in if depth \<le> MAX_DEPTH_TBL24 then delete_depth_small l ip_masked depth sub_rule_index sub_rule_depth
                else delete_depth_big l ip_masked depth sub_rule_index sub_rule_depth)"

definition zero24 :: rte_lpm_tbl24_entry where "zero24 = \<lparr>t24_next_hop = 0, t24_valid = False, t24_ext_entry = False, t24_depth = 0\<rparr>"
definition zero8 :: rte_lpm_tbl8_entry where "zero8 = \<lparr>t8_next_hop = 0, t8_valid = False, t8_valid_group = False, t8_depth = 0\<rparr>"

definition rte_lpm_delete_all :: "rte_lpm \<Rightarrow> rte_lpm" where
  "rte_lpm_delete_all l = l\<lparr>l_rule_info := \<lambda>_. \<lparr>used_rules = 0, first_rule = 0\<rparr>, l_tbl24 := \<lambda>_. zero24, l_tbl8 := \<lambda>_. zero8,
     l_rules_tbl := \<lambda>i. if i < l_max_rules l then \<lparr>lr_ip = 0, lr_next_hop = 0\<rparr> else l_rules_tbl l i\<rparr>"

section \<open>Look-up\<close>

definition lookup_bits :: "rte_lpm \<Rightarrow> u32 \<Rightarrow> u16" where
  "lookup_bits l ip =
     (let tbl_entry = bits24 (l_tbl24 l (drop_bit 8 ip)) in
      if tbl_entry AND RTE_LPM_VALID_EXT_ENTRY_BITMASK = RTE_LPM_VALID_EXT_ENTRY_BITMASK
      then bits8 (l_tbl8 l (ucast (ucast ip :: u8) + ucast (ucast tbl_entry :: u8) * RTE_LPM_TBL8_GROUP_NUM_ENTRIES))
      else tbl_entry)"

text \<open>The result and \<open>*next_hop\<close>.\<close>

definition rte_lpm_lookup :: "rte_lpm \<Rightarrow> u32 \<Rightarrow> int \<times> u8" where
  "rte_lpm_lookup l ip =
     (let tbl_entry = lookup_bits l ip in (if tbl_entry AND RTE_LPM_LOOKUP_SUCCESS \<noteq> 0 then 0 else - ENOENT, ucast tbl_entry))"

definition rte_lpm_lookup_bulk_func :: "rte_lpm \<Rightarrow> u32 list \<Rightarrow> int \<times> u16 list" where
  "rte_lpm_lookup_bulk_func l ips = (0, map (lookup_bits l) ips)"

text \<open>Four addresses at once: \<open>tbl\<close> packed into 64 bits is tested with one mask.\<close>

definition pack4 :: "u16 \<Rightarrow> u16 \<Rightarrow> u16 \<Rightarrow> u16 \<Rightarrow> u64" where
  "pack4 a b c d = ucast a OR push_bit 16 (ucast b) OR push_bit 32 (ucast c) OR push_bit 48 (ucast d)"

definition x4_entry :: "rte_lpm \<Rightarrow> u64 \<Rightarrow> nat \<Rightarrow> u32 \<Rightarrow> u16 \<Rightarrow> u16" where
  "x4_entry l pt k i8 tbl =
     (if drop_bit (16 * k) pt AND ucast RTE_LPM_VALID_EXT_ENTRY_BITMASK = ucast RTE_LPM_VALID_EXT_ENTRY_BITMASK
      then bits8 (l_tbl8 l (i8 + ucast (ucast tbl :: u8) * RTE_LPM_TBL8_GROUP_NUM_ENTRIES)) else tbl)"

definition x4_hop :: "u16 \<Rightarrow> u16 \<Rightarrow> u16" where
  "x4_hop defv tbl = (if tbl AND RTE_LPM_LOOKUP_SUCCESS \<noteq> 0 then ucast (ucast tbl :: u8) else defv)"

definition rte_lpm_lookupx4 :: "rte_lpm \<Rightarrow> u32 \<times> u32 \<times> u32 \<times> u32 \<Rightarrow> u16 \<Rightarrow> u16 \<times> u16 \<times> u16 \<times> u16" where
  "rte_lpm_lookupx4 l ips defv =
     (case ips of (a, b, c, d) \<Rightarrow>
      let mask_xv = pack4 RTE_LPM_VALID_EXT_ENTRY_BITMASK RTE_LPM_VALID_EXT_ENTRY_BITMASK RTE_LPM_VALID_EXT_ENTRY_BITMASK RTE_LPM_VALID_EXT_ENTRY_BITMASK;
          mask_v = pack4 RTE_LPM_LOOKUP_SUCCESS RTE_LPM_LOOKUP_SUCCESS RTE_LPM_LOOKUP_SUCCESS RTE_LPM_LOOKUP_SUCCESS;
          idx = ucast (drop_bit 8 a) OR push_bit 32 (ucast (drop_bit 8 b)) :: u64;
          tbl0 = bits24 (l_tbl24 l (ucast idx)); tbl1 = bits24 (l_tbl24 l (ucast (drop_bit 32 idx)));
          idx = ucast (drop_bit 8 c) OR push_bit 32 (ucast (drop_bit 8 d)) :: u64;
          tbl2 = bits24 (l_tbl24 l (ucast idx)); tbl3 = bits24 (l_tbl24 l (ucast (drop_bit 32 idx)));
          pt = pack4 tbl0 tbl1 tbl2 tbl3
      in if pt AND mask_xv = mask_v
         then (let ph = pt AND 0x00ff00ff00ff00ff in (ucast ph, ucast (drop_bit 16 ph), ucast (drop_bit 32 ph), ucast (drop_bit 48 ph)))
         else (x4_hop defv (x4_entry l pt 0 (a AND 0xFF) tbl0), x4_hop defv (x4_entry l pt 1 (b AND 0xFF) tbl1),
               x4_hop defv (x4_entry l pt 2 (c AND 0xFF) tbl2), x4_hop defv (x4_entry l pt 3 (d AND 0xFF) tbl3)))"

section \<open>Creation\<close>

text \<open>The list of tables (entry and table), the tables by their address, the addresses given to \<open>rte_free\<close>.\<close>

record lpm_world =
  lw_list :: "(u64 \<times> u64) list"
  lw_lpm :: "u64 \<Rightarrow> rte_lpm"
  lw_freed :: "u64 list"
  lw_errno :: int

text \<open>The loop over the list: the entry found, and the table the loop variable is left at.\<close>

fun find_lpm :: "lpm_world \<Rightarrow> string \<Rightarrow> (u64 \<times> u64) list \<Rightarrow> u64 \<Rightarrow> u64 option \<times> u64" where
  "find_lpm w name [] l = (None, l)"
| "find_lpm w name ((te, data) # xs) l =
     (if strncmp_eq name (l_name (lw_lpm w data)) RTE_LPM_NAMESIZE then (Some te, data) else find_lpm w name xs data)"

definition rte_lpm_find_existing :: "string \<Rightarrow> lpm_world \<Rightarrow> u64 \<times> lpm_world" where
  "rte_lpm_find_existing name w =
     (case find_lpm w name (lw_list w) 0 of (None, l) \<Rightarrow> (0, w\<lparr>lw_errno := ENOENT\<rparr>) | (Some te, l) \<Rightarrow> (l, w))"

text \<open>\<open>sizeof\<close> the structure is 33685824, of a rule 8. \<open>te\<close> and \<open>alloc\<close> are the results of the two allocations.\<close>

definition lpm_mem_size :: "int \<Rightarrow> u32" where
  "lpm_mem_size max_rules = 33685824 + 8 * of_int max_rules"

definition rte_lpm_create :: "u64 \<Rightarrow> (u32 \<Rightarrow> u64) \<Rightarrow> string option \<Rightarrow> int \<Rightarrow> int \<Rightarrow> lpm_world \<Rightarrow> u64 \<times> lpm_world" where
  "rte_lpm_create te alloc name_arg socket_id max_rules w =
     (case name_arg of
        None \<Rightarrow> (0, w\<lparr>lw_errno := EINVAL\<rparr>)
      | Some name \<Rightarrow>
          if socket_id < - 1 \<or> max_rules = 0 then (0, w\<lparr>lw_errno := EINVAL\<rparr>)
          else case find_lpm w name (lw_list w) 0 of
            (Some _, lpm) \<Rightarrow> (lpm, w)
          | (None, lpm) \<Rightarrow>
              if te = 0 then (lpm, w)
              else let lpm = alloc (lpm_mem_size max_rules) in
                if lpm = 0 then (0, w\<lparr>lw_freed := te # lw_freed w\<rparr>)
                else (lpm, w\<lparr>lw_lpm := (lw_lpm w)(lpm := \<lparr>l_name = take (RTE_LPM_NAMESIZE - 1) name, l_max_rules = of_int max_rules,
                         l_rule_info = \<lambda>_. \<lparr>used_rules = 0, first_rule = 0\<rparr>, l_tbl24 = \<lambda>_. zero24, l_tbl8 = \<lambda>_. zero8,
                         l_rules_tbl = \<lambda>_. \<lparr>lr_ip = 0, lr_next_hop = 0\<rparr>\<rparr>),
                       lw_list := lw_list w @ [(te, lpm)]\<rparr>))"

definition rte_lpm_free :: "u64 \<Rightarrow> lpm_world \<Rightarrow> lpm_world" where
  "rte_lpm_free lpm w =
     (if lpm = 0 then w
      else case find (\<lambda>(te, data). data = lpm) (lw_list w) of
        None \<Rightarrow> w
      | Some (te, data) \<Rightarrow> w\<lparr>lw_list := remove1 (te, data) (lw_list w), lw_freed := te # lpm # lw_freed w\<rparr>)"

end
