(* ===== verification/Lpm_Rules.thy ===== *)
theory Lpm_Rules
  imports Lpm "HOL-Library.Multiset"
begin

text \<open>
  The rules of a table as a map from prefixes to next hops. The array of rules is packed: the groups in use follow each
  other by depth. Finding, adding and deleting a rule do to the map what their names say.
\<close>

section \<open>Prefixes and the longest match\<close>

definition pref :: "nat \<Rightarrow> u32 \<Rightarrow> u32" where
  "pref d ip = ip AND NOT (mask (32 - d))"

lemma depth_to_mask_eq:
  assumes "1 \<le> unat depth" and "unat depth \<le> 32"
  shows "depth_to_mask depth = NOT (mask (32 - unat depth))"
proof (rule bit_eqI)
  fix n
  assume "possible_bit TYPE(u32) n"
  then have n: "n < 32" by simp
  have d: "unat (depth - 1) = unat depth - 1" using assms(1) by (simp add: unat_sub_le word_le_nat_alt)
  have b: "bit (0x80000000 :: u32) i \<longleftrightarrow> i = 31" for i
    using bit_push_bit_iff [of 31 "1 :: u32" i] by (auto simp: bit_1_iff)
  have c: "bit (0x80000000 :: int) i \<longleftrightarrow> i = 31" for i
    using bit_push_bit_iff [of 31 "1 :: int" i] by (auto simp: bit_1_iff)
  show "bit (depth_to_mask depth) n = bit (NOT (mask (32 - unat depth)) :: u32) n"
    using n assms unfolding depth_to_mask_def d by (auto simp: bit_signed_drop_bit_iff b c bit_not_iff bit_mask_iff)
qed

lemma pref_eq:
  assumes "1 \<le> unat depth" and "unat depth \<le> 32"
  shows "ip AND depth_to_mask depth = pref (unat depth) ip"
  by (simp add: depth_to_mask_eq [OF assms] pref_def)

lemma pref_pref: "d \<le> e \<Longrightarrow> e \<le> 32 \<Longrightarrow> pref d (pref e ip) = pref d ip"
  by (rule bit_eqI) (auto simp: pref_def bit_and_iff bit_not_iff bit_mask_iff)

lemma pref_idem [simp]: "pref d (pref d ip) = pref d ip"
  by (rule bit_eqI) (auto simp: pref_def bit_and_iff bit_not_iff bit_mask_iff)

lemma pref_shorter: "pref e ip = pref e p \<Longrightarrow> d \<le> e \<Longrightarrow> e \<le> 32 \<Longrightarrow> pref d ip = pref d p"
  by (metis pref_pref)

text \<open>A rule of the specification: the next hop of a masked address and a depth.\<close>

type_synonym routes = "u32 \<times> nat \<Rightarrow> u8 option"

fun best_upto :: "routes \<Rightarrow> u32 \<Rightarrow> nat \<Rightarrow> (nat \<times> u8) option" where
  "best_upto R ip 0 = None"
| "best_upto R ip (Suc d) = (case R (pref (Suc d) ip, Suc d) of Some nh \<Rightarrow> Some (Suc d, nh) | None \<Rightarrow> best_upto R ip d)"

definition best :: "routes \<Rightarrow> u32 \<Rightarrow> (nat \<times> u8) option" where "best R ip = best_upto R ip 32"

lemma best_upto_le: "best_upto R ip n = Some (d, nh) \<Longrightarrow> 1 \<le> d \<and> d \<le> n \<and> R (pref d ip, d) = Some nh"
  by (induction n) (auto split: option.splits)

lemma best_upto_ge: "R (pref d ip, d) = Some nh \<Longrightarrow> 1 \<le> d \<Longrightarrow> d \<le> n \<Longrightarrow> \<exists>e nh'. best_upto R ip n = Some (e, nh') \<and> d \<le> e"
  by (induction n) (auto simp: le_Suc_eq split: option.splits)

text \<open>A rule more.\<close>

definition wins :: "nat \<Rightarrow> (nat \<times> u8) option \<Rightarrow> bool" where
  "wins d b \<longleftrightarrow> (case b of None \<Rightarrow> True | Some (e, _) \<Rightarrow> e \<le> d)"

lemma best_upto_add:
  assumes "1 \<le> d"
  shows "best_upto (R((pref d p, d) \<mapsto> nh)) ip n =
    (if d \<le> n \<and> pref d ip = pref d p \<and> wins d (best_upto R ip n) then Some (d, nh) else best_upto R ip n)"
proof (induction n)
  case 0
  then show ?case using assms by simp
next
  case (Suc n)
  show ?case
  proof (cases "Suc n = d")
    case True
    have "wins d (best_upto R ip (Suc n))" using best_upto_le [of R ip "Suc n"] True by (auto simp: wins_def split: option.splits)
    then show ?thesis using Suc True by (auto split: option.splits)
  next
    case False
    then show ?thesis using Suc by (auto simp: wins_def split: option.splits)
  qed
qed

text \<open>A rule less.\<close>

lemma best_upto_del:
  assumes "1 \<le> d"
  shows "best_upto (R((pref d p, d) := None)) ip n =
    (if pref d ip = pref d p \<and> (\<exists>nh. best_upto R ip n = Some (d, nh)) then best_upto R ip (d - 1) else best_upto R ip n)"
proof (induction n)
  case (Suc n)
  have low: "best_upto R ip n \<noteq> Some (Suc n, nh)" for nh using best_upto_le [of R ip n] by auto
  show ?case
  proof (cases "Suc n = d")
    case True
    then show ?thesis using Suc low by (auto split: option.splits)
  next
    case False
    then show ?thesis using Suc by (auto split: option.splits)
  qed
qed simp

lemma best_upto_same: "pref d ip = pref d p \<Longrightarrow> d \<le> 32 \<Longrightarrow> n \<le> d \<Longrightarrow> best_upto R ip n = best_upto R p n"
proof (induction n)
  case (Suc n)
  have p: "pref (Suc n) ip = pref (Suc n) p" by (rule pref_shorter [OF Suc.prems(1,3,2)])
  have "best_upto R ip n = best_upto R p n" using Suc.prems(3) by (intro Suc.IH [OF Suc.prems(1,2)]) simp
  then show ?case by (simp only: best_upto.simps p)
qed simp
section \<open>The packed table\<close>

definition us :: "rte_lpm \<Rightarrow> nat \<Rightarrow> nat" where "us l g = unat (used_rules (l_rule_info l g))"
definition fs :: "rte_lpm \<Rightarrow> nat \<Rightarrow> nat" where "fs l g = unat (first_rule (l_rule_info l g))"
definition cell :: "rte_lpm \<Rightarrow> nat \<Rightarrow> rte_lpm_rule" where "cell l k = l_rules_tbl l (of_nat k)"
definition cells :: "rte_lpm \<Rightarrow> nat \<Rightarrow> nat \<Rightarrow> rte_lpm_rule list" where "cells l a n = map (cell l) [a..<a + n]"
definition start :: "rte_lpm \<Rightarrow> nat \<Rightarrow> nat" where "start l g = (\<Sum>h<g. us l h)"
definition group :: "rte_lpm \<Rightarrow> nat \<Rightarrow> rte_lpm_rule list" where "group l g = cells l (fs l g) (us l g)"

lemma start_simps [simp]: "start l 0 = 0" "start l (Suc g) = start l g + us l g"
  by (simp_all add: start_def)

lemma start_mono: "g \<le> h \<Longrightarrow> start l g \<le> start l h"
  unfolding start_def by (rule sum_mono2) auto

lemma start_less: "g < h \<Longrightarrow> start l g + us l g \<le> start l h"
  using start_mono [of "Suc g" h l] by simp

definition packed :: "rte_lpm \<Rightarrow> bool" where
  "packed l \<longleftrightarrow> unat (l_max_rules l) < 2 ^ 31 \<and> start l 32 \<le> unat (l_max_rules l) \<and>
     (\<forall>g<32. fs l g < unat (l_max_rules l) \<and> (0 < us l g \<longrightarrow> fs l g = start l g))"

lemma packedD:
  assumes "packed l"
  shows "unat (l_max_rules l) < 2 ^ 31" "start l 32 \<le> unat (l_max_rules l)" "g < 32 \<Longrightarrow> fs l g < unat (l_max_rules l)"
    "g < 32 \<Longrightarrow> 0 < us l g \<Longrightarrow> fs l g = start l g"
  using assms by (simp_all add: packed_def)

lemma group_end_eq:
  assumes "packed l" and "g < 32"
  shows "group_end l g = of_nat (fs l g + us l g)" "fs l g + us l g \<le> unat (l_max_rules l)"
proof -
  show le: "fs l g + us l g \<le> unat (l_max_rules l)"
    using packedD [OF assms(1)] assms(2) start_less [OF assms(2), of l] by (cases "us l g = 0") (fastforce+)
  show "group_end l g = of_nat (fs l g + us l g)" by (simp add: group_end_def fs_def us_def)
qed

text \<open>The rules the table holds.\<close>

definition rules_ok :: "rte_lpm \<Rightarrow> routes \<Rightarrow> bool" where
  "rules_ok l R \<longleftrightarrow> packed l \<and> (\<forall>g<32. distinct (map lr_ip (group l g)) \<and> (\<forall>r \<in> set (group l g). pref (Suc g) (lr_ip r) = lr_ip r)) \<and>
     (\<forall>ip d nh. R (ip, d) = Some nh \<longleftrightarrow> 1 \<le> d \<and> d \<le> 32 \<and> \<lparr>lr_ip = ip, lr_next_hop = nh\<rparr> \<in> set (group l (d - 1)))"

lemma rules_okD:
  assumes "rules_ok l R"
  shows "packed l" "g < 32 \<Longrightarrow> distinct (map lr_ip (group l g))" "g < 32 \<Longrightarrow> r \<in> set (group l g) \<Longrightarrow> pref (Suc g) (lr_ip r) = lr_ip r"
    "R (ip, d) = Some nh \<longleftrightarrow> 1 \<le> d \<and> d \<le> 32 \<and> \<lparr>lr_ip = ip, lr_next_hop = nh\<rparr> \<in> set (group l (d - 1))"
  using assms by (simp_all add: rules_ok_def)

lemma rules_ok_None:
  assumes "rules_ok l R" and "1 \<le> d" and "d \<le> 32"
  shows "R (ip, d) = None \<longleftrightarrow> (\<forall>r \<in> set (group l (d - 1)). lr_ip r \<noteq> ip)"
proof -
  have "(\<exists>nh. R (ip, d) = Some nh) \<longleftrightarrow> (\<exists>r \<in> set (group l (d - 1)). lr_ip r = ip)"
    unfolding rules_okD(4) [OF assms(1)] using assms(2,3) by (metis rte_lpm_rule.surjective rte_lpm_rule.select_convs(1) old.unit.exhaust)
  then show ?thesis by auto
qed

lemma set_cells: "set (cells l a n) = cell l ` {a..<a + n}"
  by (auto simp: cells_def)

text \<open>The groups hold as many rules as there are routes.\<close>

lemma rules_count:
  assumes ok: "rules_ok l R"
  shows "start l 32 = card (dom R)"
proof -
  let ?S = "\<lambda>g. (\<lambda>r. (lr_ip r, Suc g)) ` set (group l g)"
  have "dom R = (\<Union>g<32. ?S g)"
  proof (intro set_eqI)
    fix x :: "u32 \<times> nat"
    obtain ip d where x: "x = (ip, d)" by (cases x)
    have "x \<in> dom R \<longleftrightarrow> (\<exists>nh. 1 \<le> d \<and> d \<le> 32 \<and> \<lparr>lr_ip = ip, lr_next_hop = nh\<rparr> \<in> set (group l (d - 1)))" using rules_okD(4) [OF ok] by (auto simp: x dom_def)
    also have "\<dots> \<longleftrightarrow> (\<exists>r. 1 \<le> d \<and> d \<le> 32 \<and> lr_ip r = ip \<and> r \<in> set (group l (d - 1)))" by (metis rte_lpm_rule.cases rte_lpm_rule.select_convs(1))
    also have "\<dots> \<longleftrightarrow> x \<in> (\<Union>g<32. ?S g)" by (cases d) (auto simp: x image_iff)
    finally show "x \<in> dom R \<longleftrightarrow> x \<in> (\<Union>g<32. ?S g)" .
  qed
  also have "card \<dots> = (\<Sum>g<32. card (?S g))" by (rule card_UN_disjoint) auto
  also have "\<dots> = (\<Sum>g<32. us l g)"
  proof (rule sum.cong [OF refl])
    fix g :: nat
    assume "g \<in> {..<32}"
    then have d: "distinct (map (\<lambda>r. (lr_ip r, Suc g)) (group l g))" using rules_okD(2) [OF ok, of g] by (simp add: distinct_map inj_on_def)
    show "card (?S g) = us l g" using distinct_card [OF d] by (simp add: group_def cells_def image_image)
  qed
  finally show ?thesis by (simp add: start_def)
qed

section \<open>Finding a rule\<close>

lemma rule_scan_spec:
  assumes "a \<le> b" and "b < 2 ^ 32"
  shows "\<exists>k. a \<le> k \<and> k \<le> b \<and> rule_scan l ip (of_nat b) (of_nat a) = of_nat k \<and> (k < b \<longrightarrow> lr_ip (cell l k) = ip) \<and>
    (\<forall>j. a \<le> j \<longrightarrow> j < k \<longrightarrow> lr_ip (cell l j) \<noteq> ip)"
  using assms(1)
proof (induction "b - a" arbitrary: a)
  case 0
  then show ?case by (subst rule_scan.simps) (auto intro!: exI [of _ b])
next
  case (Suc n)
  have ab: "(of_nat a :: u32) < of_nat b" using Suc.hyps(2) assms(2) by (simp add: word_less_nat_alt unat_of_nat_less)
  show ?case
  proof (cases "lr_ip (cell l a) = ip")
    case True
    then show ?thesis using ab Suc.hyps(2) by (subst rule_scan.simps) (auto simp: cell_def intro!: exI [of _ a])
  next
    case False
    have h: "n = b - Suc a" "Suc a \<le> b" using Suc.hyps(2) by simp_all
    obtain k where k: "Suc a \<le> k" "k \<le> b" "rule_scan l ip (of_nat b) (of_nat (Suc a)) = of_nat k" "k < b \<longrightarrow> lr_ip (cell l k) = ip"
        "\<forall>j. Suc a \<le> j \<longrightarrow> j < k \<longrightarrow> lr_ip (cell l j) \<noteq> ip"
      using Suc.hyps(1) [OF h] by blast
    have "rule_scan l ip (of_nat b) (of_nat a) = of_nat k"
      using ab False k(3) by (subst rule_scan.simps) (simp add: cell_def add.commute)
    moreover have "lr_ip (cell l j) \<noteq> ip" if "a \<le> j" "j < k" for j using that k(5) False by (cases "j = a") auto
    ultimately show ?thesis using k by (intro exI [of _ k]) auto
  qed
qed

text \<open>The scan over a group: the position of the rule, or the end.\<close>

lemma scan_group:
  assumes ok: "packed l" and g: "g < 32"
  shows "\<exists>k. fs l g \<le> k \<and> k \<le> fs l g + us l g \<and> rule_scan l ip (group_end l g) (first_rule (l_rule_info l g)) = of_nat k \<and>
    ((of_nat k :: u32) < group_end l g \<longleftrightarrow> k < fs l g + us l g) \<and> unat (of_nat k :: u32) = k \<and> sint (of_nat k :: u32) = int k \<and>
    (k < fs l g + us l g \<longrightarrow> lr_ip (cell l k) = ip) \<and> (k = fs l g + us l g \<longrightarrow> (\<forall>r \<in> set (group l g). lr_ip r \<noteq> ip))"
proof -
  have e: "fs l g + us l g < 2 ^ 31" using group_end_eq(2) [OF ok g] packedD(1) [OF ok] by simp
  obtain k where k: "fs l g \<le> k" "k \<le> fs l g + us l g" "rule_scan l ip (of_nat (fs l g + us l g)) (of_nat (fs l g)) = of_nat k"
      "k < fs l g + us l g \<longrightarrow> lr_ip (cell l k) = ip" "\<forall>j. fs l g \<le> j \<longrightarrow> j < k \<longrightarrow> lr_ip (cell l j) \<noteq> ip"
    using rule_scan_spec [of "fs l g" "fs l g + us l g" l ip] e by auto
  have f: "first_rule (l_rule_info l g) = of_nat (fs l g)" by (simp add: fs_def)
  have u: "unat (of_nat k :: u32) = k" "unat (of_nat (fs l g + us l g) :: u32) = fs l g + us l g" using k(2) e by (simp_all add: unat_of_nat_less del: of_nat_add)
  moreover have "sint (of_nat k :: u32) = int k" using sint_small [of "of_nat k"] u(1) k(2) e by simp
  moreover have "(of_nat k :: u32) < of_nat (fs l g + us l g) \<longleftrightarrow> k < fs l g + us l g" using u by (simp add: word_less_nat_alt del: of_nat_add)
  ultimately show ?thesis
    using k unfolding group_end_eq(1) [OF ok g] f by (intro exI [of _ k]) (auto simp: group_def set_cells)
qed

lemma rule_find_ok:
  assumes ok: "rules_ok l R" and d: "1 \<le> unat depth" "unat depth \<le> 32"
  shows "R (ip, unat depth) = None \<Longrightarrow> rule_find l ip depth = - EINVAL"
    "R (ip, unat depth) = Some nh \<Longrightarrow> \<exists>k. rule_find l ip depth = int k \<and> fs l (unat depth - 1) \<le> k \<and> k < fs l (unat depth - 1) + us l (unat depth - 1) \<and>
       cell l k = \<lparr>lr_ip = ip, lr_next_hop = nh\<rparr>"
proof -
  let ?g = "unat depth - 1"
  have g: "?g < 32" using d by simp
  note P = rules_okD(1) [OF ok]
  obtain k where k: "fs l ?g \<le> k" "k \<le> fs l ?g + us l ?g" "rule_scan l ip (group_end l ?g) (first_rule (l_rule_info l ?g)) = of_nat k"
      "(of_nat k :: u32) < group_end l ?g \<longleftrightarrow> k < fs l ?g + us l ?g" "sint (of_nat k :: u32) = int k"
      "k < fs l ?g + us l ?g \<longrightarrow> lr_ip (cell l k) = ip" "k = fs l ?g + us l ?g \<longrightarrow> (\<forall>r \<in> set (group l ?g). lr_ip r \<noteq> ip)"
    using scan_group [OF P g, of ip] by blast
  have f: "rule_find l ip depth = (if k < fs l ?g + us l ?g then int k else - EINVAL)" using k(3-5) by (simp add: rule_find_def Let_def)
  have mem: "cell l k \<in> set (group l ?g)" if "k < fs l ?g + us l ?g" using that k(1) by (auto simp: group_def set_cells)
  show "rule_find l ip depth = - EINVAL" if "R (ip, unat depth) = None"
    using that rules_ok_None [OF ok d] f k(6) mem by auto
  show "\<exists>k. rule_find l ip depth = int k \<and> fs l ?g \<le> k \<and> k < fs l ?g + us l ?g \<and> cell l k = \<lparr>lr_ip = ip, lr_next_hop = nh\<rparr>" if R: "R (ip, unat depth) = Some nh"
  proof -
    let ?r = "\<lparr>lr_ip = ip, lr_next_hop = nh\<rparr>"
    have r: "?r \<in> set (group l ?g)" using R rules_okD(4) [OF ok] by blast
    then have kl: "k < fs l ?g + us l ?g" using k(2,7) by (metis le_neq_implies_less rte_lpm_rule.select_convs(1))
    have "cell l k = ?r"
      using rules_okD(2) [OF ok g] mem [OF kl] r k(6) kl by (simp add: distinct_map inj_on_def)
    then show ?thesis using f k(1) kl by auto
  qed
qed
section \<open>Moving groups\<close>

definition same_tables :: "rte_lpm \<Rightarrow> rte_lpm \<Rightarrow> bool" where
  "same_tables l l' \<longleftrightarrow> l_tbl24 l' = l_tbl24 l \<and> l_tbl8 l' = l_tbl8 l \<and> l_name l' = l_name l \<and> l_max_rules l' = l_max_rules l"

lemma same_tables_refl [simp]: "same_tables l l" by (simp add: same_tables_def)

lemma same_tables_trans: "same_tables l l' \<Longrightarrow> same_tables l' l'' \<Longrightarrow> same_tables l l''" by (simp add: same_tables_def)

lemma same_tables_upd [simp]:
  "same_tables l (set_rule i r l') = same_tables l l'" "same_tables l (upd_info g f l') = same_tables l l'"
  by (simp_all add: same_tables_def set_rule_def upd_info_def)

lemma info_upd [simp]:
  "l_rule_info (set_rule i r l) = l_rule_info l" "l_rules_tbl (upd_info g f l) = l_rules_tbl l"
  "l_rule_info (upd_info g f l) = (l_rule_info l)(g := f (l_rule_info l g))" "l_rules_tbl (set_rule i r l) = (l_rules_tbl l)(i := r)"
  "l_max_rules (set_rule i r l) = l_max_rules l" "l_max_rules (upd_info g f l) = l_max_rules l"
  by (simp_all add: set_rule_def upd_info_def)

lemma cell_upd:
  "cell (upd_info g f l) k = cell l k" "k < 2 ^ 32 \<Longrightarrow> i < 2 ^ 32 \<Longrightarrow> cell (set_rule (of_nat i) r l) k = (if k = i then r else cell l k)"
proof -
  show "cell (upd_info g f l) k = cell l k" by (simp add: cell_def)
  assume "k < 2 ^ 32" "i < 2 ^ 32"
  then have "(of_nat k :: u32) = of_nat i \<longleftrightarrow> k = i" by (metis unat_of_nat_less)
  then show "cell (set_rule (of_nat i) r l) k = (if k = i then r else cell l k)" by (simp add: cell_def)
qed

lemma cells_cong: "(\<And>k. a \<le> k \<Longrightarrow> k < a + n \<Longrightarrow> cell l' k = cell l k) \<Longrightarrow> cells l' a n = cells l a n"
  by (simp add: cells_def)

lemma us_set [simp]: "us (set_rule i r l) = us l" "fs (set_rule i r l) = fs l"
  by (simp_all add: us_def fs_def fun_eq_iff)

lemma cells_Suc: "cells l a (Suc n) = cell l a # cells l (Suc a) n" "cells l a (Suc n) = cells l a n @ [cell l (a + n)]"
  by (simp add: cells_def upt_conv_Cons del: upt_Suc) (simp add: cells_def)

lemma group_end_nat: "group_end l g = of_nat (fs l g + us l g)"
  by (simp add: group_end_def fs_def us_def)

definition moved_up :: "rte_lpm \<Rightarrow> nat \<Rightarrow> rte_lpm \<Rightarrow> bool" where
  "moved_up l0 g l \<longleftrightarrow> same_tables l0 l \<and> us l = us l0 \<and> (\<forall>h<g. fs l h = fs l0 h) \<and>
     (\<forall>h. g \<le> h \<longrightarrow> h < 32 \<longrightarrow> fs l h = (if 0 < us l0 h then fs l0 h + 1 else fs l0 h)) \<and>
     (\<forall>k < start l0 g. cell l k = cell l0 k) \<and> (\<forall>h. g \<le> h \<longrightarrow> h < 32 \<longrightarrow> mset (group l h) = mset (group l0 h))"

lemma moved_up_step:
  assumes P: "packed l0" "start l0 32 < unat (l_max_rules l0)" and g: "g < 32" and m: "moved_up l0 (Suc g) l" and u: "0 < us l0 g"
  shows "moved_up l0 g (upd_info g (\<lambda>r. r\<lparr>first_rule := first_rule r + 1\<rparr>) (set_rule (group_end l g) (l_rules_tbl l (first_rule (l_rule_info l g))) l))"
    (is "moved_up l0 g ?l")
proof -
  have us: "us l = us l0" and fl: "fs l g = start l0 g" using m packedD(4) [OF P(1) g u] by (simp_all add: moved_up_def)
  have fg: "fs l g = start l0 g" "group_end l g = of_nat (start l0 g + us l0 g)" unfolding group_end_nat us fl by simp_all
  have b: "start l0 g + us l0 g \<le> start l0 32" "start l0 32 < 2 ^ 31" using start_less [OF g, of l0] P packedD(1) [OF P(1)] by simp_all
  have old: "l_rules_tbl l (first_rule (l_rule_info l g)) = cell l0 (start l0 g)"
  proof -
    have "first_rule (l_rule_info l g) = of_nat (fs l g)" by (simp add: fs_def)
    then have "l_rules_tbl l (first_rule (l_rule_info l g)) = cell l (start l0 g)" by (simp add: cell_def fg(1))
    then show ?thesis using m u by (simp add: moved_up_def)
  qed
  have c: "cell ?l k = (if k = start l0 g + us l0 g then cell l0 (start l0 g) else cell l k)" if "k < 2 ^ 32" for k
    unfolding fg(2) old using that b by (simp add: cell_upd del: of_nat_add)
  have us': "us ?l = us l0" using us by (auto simp: us_def fun_eq_iff)
  have fs': "fs ?l h = (if h = g then start l0 g + 1 else fs l h)" for h
  proof -
    have "unat (first_rule (l_rule_info l g) + 1) = start l0 g + 1" using fg(1) b by (subst unat_add_less) (simp_all add: fs_def)
    then show ?thesis by (simp add: fs_def)
  qed
  have low: "cell ?l k = cell l0 k" if "k < start l0 g + us l0 g" for k using c [of k] that b m by (simp add: moved_up_def)
  have grp: "mset (group ?l h) = mset (group l0 h)" if h: "g \<le> h" "h < 32" for h
  proof (cases "h = g")
    case True
    obtain n where n: "us l0 g = Suc n" using u by (cases "us l0 g") auto
    have "cells ?l (Suc (start l0 g)) n = cells l0 (Suc (start l0 g)) n" using low n by (intro cells_cong) simp
    moreover have "cell ?l (Suc (start l0 g) + n) = cell l0 (start l0 g)" using c [of "start l0 g + us l0 g"] n b by simp
    ultimately have "group ?l g = cells l0 (Suc (start l0 g)) n @ [cell l0 (start l0 g)]"
      using n by (simp add: group_def fs' us' cells_Suc(2))
    moreover have "group l0 g = cell l0 (start l0 g) # cells l0 (Suc (start l0 g)) n"
      using n packedD(4) [OF P(1) g u] by (simp add: group_def cells_Suc(1))
    ultimately show ?thesis using True by simp
  next
    case False
    then have gh: "Suc g \<le> h" using h by simp
    have "group ?l h = group l h"
    proof (cases "0 < us l0 h")
      case True
      have f: "fs l h = start l0 h + 1" using m gh h(2) True packedD(4) [OF P(1) h(2) True] by (simp add: moved_up_def)
      have "start l0 g + us l0 g \<le> start l0 h" "start l0 h + us l0 h \<le> start l0 32" using gh start_less h(2) by simp_all
      then have "cells ?l (start l0 h + 1) (us l0 h) = cells l (start l0 h + 1) (us l0 h)" using c b by (intro cells_cong) simp
      then show ?thesis using f fs' [of h] False us us' by (simp add: group_def)
    next
      case False
      then show ?thesis using us us' by (simp add: group_def cells_def)
    qed
    then show ?thesis using m gh h(2) by (simp add: moved_up_def)
  qed
  have "same_tables l0 ?l" using m by (simp add: moved_up_def)
  moreover have "fs ?l h = (if 0 < us l0 h then fs l0 h + 1 else fs l0 h)" if "g \<le> h" "h < 32" for h
    using that m fs' u packedD(4) [OF P(1) g u] by (auto simp: moved_up_def Suc_le_eq)
  ultimately show ?thesis using us' low grp fs' m by (auto simp: moved_up_def)
qed

lemma moved_up_empty:
  assumes "moved_up l0 (Suc g) l" and "us l0 g = 0"
  shows "moved_up l0 g l"
proof -
  have "mset (group l h) = mset (group l0 h) \<and> fs l h = (if 0 < us l0 h then fs l0 h + 1 else fs l0 h)" if "g \<le> h" "h < 32" for h
  proof (cases "h = g")
    case True
    then show ?thesis using assms by (simp add: moved_up_def group_def cells_def)
  next
    case False
    then show ?thesis using that assms by (simp add: moved_up_def Suc_le_eq)
  qed
  then show ?thesis using assms by (auto simp: moved_up_def)
qed

lemma make_room_ok:
  assumes P: "packed l0" "start l0 32 < unat (l_max_rules l0)"
  shows "depth \<le> g \<Longrightarrow> g \<le> 32 \<Longrightarrow> moved_up l0 g l \<Longrightarrow> \<exists>l'. make_room g depth l = (True, l') \<and> moved_up l0 depth l'"
proof (induction g arbitrary: l)
  case (Suc g)
  show ?case
  proof (cases "Suc g > depth")
    case False
    then have "depth = Suc g" using Suc.prems(1) by simp
    then show ?thesis using Suc.prems(3) by simp
  next
    case True
    have g: "g < 32" using Suc.prems by simp
    have i: "l_max_rules l = l_max_rules l0" "us l = us l0" "fs l g = fs l0 g" using Suc.prems(3) by (auto simp: moved_up_def same_tables_def)
    have "fs l0 g + us l0 g < unat (l_max_rules l0)"
      using packedD(3,4) [OF P(1) g] start_less [OF g, of l0] P(2) by (cases "us l0 g = 0") auto
    then have "group_end l g \<noteq> l_max_rules l"
      using i packedD(1) [OF P(1)] unat_add_less [of "first_rule (l_rule_info l g)" "used_rules (l_rule_info l g)"]
      by (auto simp: group_end_def fs_def us_def fun_eq_iff)
    moreover have "moved_up l0 g (if used_rules (l_rule_info l g) > 0
        then upd_info g (\<lambda>r. r\<lparr>first_rule := first_rule r + 1\<rparr>) (set_rule (group_end l g) (l_rules_tbl l (first_rule (l_rule_info l g))) l) else l)"
    proof (cases "0 < us l0 g")
      case u: True
      then have "used_rules (l_rule_info l g) > 0" using i(2) by (simp add: us_def fun_eq_iff word_less_nat_alt)
      then show ?thesis using moved_up_step [OF P g Suc.prems(3) u] by simp
    next
      case False
      then have "\<not> used_rules (l_rule_info l g) > 0" using i(2) by (simp add: us_def fun_eq_iff word_less_nat_alt)
      then show ?thesis using moved_up_empty [OF Suc.prems(3)] False by simp
    qed
    ultimately show ?thesis using Suc.IH True g by simp
  qed
qed simp
lemma make_room_full:
  assumes P: "packed l" "start l 32 = unat (l_max_rules l)" and h: "\<exists>h<g. depth \<le> h \<and> 0 < us l h" and e: "\<forall>h<32. g \<le> h \<longrightarrow> us l h = 0" and g: "g \<le> 32"
  shows "make_room g depth l = (False, l)"
  using h e g
proof (induction g)
  case (Suc g)
  have d: "Suc g > depth" using Suc.prems(1) by auto
  have g: "g < 32" using Suc.prems(3) by simp
  have w: "unat (of_nat (fs l g + us l g) :: u32) = fs l g + us l g"
    using group_end_eq(2) [OF P(1) g] packedD(1) [OF P(1)] by (intro unat_of_nat_less) simp
  show ?case
  proof (cases "0 < us l g")
    case True
    have "start l 32 = start l (Suc g)"
    proof -
      have "start l n = start l (Suc g)" if "Suc g \<le> n" "n \<le> 32" for n using that Suc.prems(2) by (induction n rule: dec_induct) auto
      then show ?thesis using g by simp
    qed
    then have "fs l g + us l g = unat (l_max_rules l)" using packedD(4) [OF P(1) g True] P(2) by simp
    then have "group_end l g = l_max_rules l" using w unfolding group_end_nat by (simp add: word_unat_eq_iff)
    then show ?thesis using d by simp
  next
    case False
    have "fs l g < unat (l_max_rules l)" by (rule packedD(3) [OF P(1) g])
    then have "group_end l g \<noteq> l_max_rules l" using w False unfolding group_end_nat by auto
    moreover have "make_room g depth l = (False, l)"
    proof (rule Suc.IH)
      show "\<exists>h<g. depth \<le> h \<and> 0 < us l h" using Suc.prems(1) False by (metis less_Suc_eq)
      show "\<forall>h<32. g \<le> h \<longrightarrow> us l h = 0" using Suc.prems(2) False by (metis Suc_leI le_neq_implies_less not_gr_zero)
    qed (use g in simp)
    moreover have "\<not> used_rules (l_rule_info l g) > 0" using False by (simp add: us_def word_less_nat_alt)
    ultimately show ?thesis using d by simp
  qed
qed simp

section \<open>Adding a rule\<close>

lemma filter_one: "distinct (map f (xs @ x # ys)) \<Longrightarrow> filter (\<lambda>y. f y \<noteq> f x) (xs @ x # ys) = xs @ ys"
proof (induction xs)
  case Nil
  then have "f x \<notin> f ` set ys" by simp
  then have "\<forall>y \<in> set ys. f y \<noteq> f x" by (metis imageI)
  then show ?case by (simp add: filter_id_conv)
qed auto

lemma cells_split: "a \<le> k \<Longrightarrow> k < a + n \<Longrightarrow> cells l a n = cells l a (k - a) @ cell l k # cells l (Suc k) (a + n - Suc k)"
proof -
  assume "a \<le> k" "k < a + n"
  then have "[a..<a + n] = [a..<k] @ k # [Suc k..<a + n]" by (metis le_add_diff_inverse less_imp_le upt_add_eq_append upt_conv_Cons)
  then show ?thesis using \<open>a \<le> k\<close> \<open>k < a + n\<close> by (simp add: cells_def)
qed

text \<open>One rule of one group replaced, added or taken out.\<close>

lemma rules_ok_upd:
  assumes ok: "rules_ok l R" and P: "packed l'" and d: "1 \<le> d" "d \<le> 32" and ip: "pref d ip = ip"
    and oth: "\<And>g. g < 32 \<Longrightarrow> g \<noteq> d - 1 \<Longrightarrow> mset (group l' g) = mset (group l g)"
    and new: "mset (group l' (d - 1)) = mset ((case v of None \<Rightarrow> [] | Some nh \<Rightarrow> [\<lparr>lr_ip = ip, lr_next_hop = nh\<rparr>]) @ filter (\<lambda>r. lr_ip r \<noteq> ip) (group l (d - 1)))"
      (is "_ = mset (?n @ ?f)")
  shows "rules_ok l' (R((ip, d) := v))"
proof -
  have g: "d - 1 < 32" using d by simp
  have s: "set (group l' (d - 1)) = set (?n @ ?f)" by (metis new set_mset_mset)
  have so: "set (group l' h) = set (group l h)" if "h < 32" "h \<noteq> d - 1" for h by (metis oth [OF that] set_mset_mset)
  have "distinct (map lr_ip (?n @ ?f))" using rules_okD(2) [OF ok g] by (auto simp: distinct_map_filter split: option.splits)
  moreover have "mset (map lr_ip (group l' (d - 1))) = mset (map lr_ip (?n @ ?f))" using new by (metis mset_map)
  ultimately have dg: "distinct (map lr_ip (group l' (d - 1)))" by (metis mset_eq_imp_distinct_iff)
  have dist: "distinct (map lr_ip (group l' h))" if "h < 32" for h
  proof (cases "h = d - 1")
    case False
    have "mset (map lr_ip (group l' h)) = mset (map lr_ip (group l h))" using oth [OF that False] by (metis mset_map)
    then show ?thesis using rules_okD(2) [OF ok that] by (metis mset_eq_imp_distinct_iff)
  qed (use dg in simp)
  have masked: "pref (Suc h) (lr_ip r) = lr_ip r" if "h < 32" "r \<in> set (group l' h)" for h r
  proof (cases "h = d - 1")
    case True
    then have "r \<in> set (?n @ ?f)" using that s by simp
    then show ?thesis using rules_okD(3) [OF ok that(1), of r] True ip d by (auto split: option.splits)
  qed (use that so rules_okD(3) [OF ok] in auto)
  have "(R((ip, d) := v)) (a, e) = Some nh \<longleftrightarrow> 1 \<le> e \<and> e \<le> 32 \<and> \<lparr>lr_ip = a, lr_next_hop = nh\<rparr> \<in> set (group l' (e - 1))" for a e nh
  proof (cases "e = d")
    case True
    then show ?thesis using s d rules_okD(4) [OF ok, of a d nh] by (auto split: option.splits)
  next
    case False
    then have "set (group l' (e - 1)) = set (group l (e - 1))" if "1 \<le> e" "e \<le> 32" using that d by (intro so) auto
    then show ?thesis using False rules_okD(4) [OF ok, of a e nh] by auto
  qed
  then show ?thesis using P dist masked unfolding rules_ok_def by blast
qed

definition held_at :: "rte_lpm \<Rightarrow> nat \<Rightarrow> nat \<Rightarrow> rte_lpm_rule \<Rightarrow> bool" where
  "held_at l d k r \<longleftrightarrow> fs l (d - 1) \<le> k \<and> k < fs l (d - 1) + us l (d - 1) \<and> cell l k = r"

lemma prev_end_eq: "packed l \<Longrightarrow> g \<le> 32 \<Longrightarrow> prev_end l g = of_nat (start l g)"
proof (induction g)
  case (Suc g)
  show ?case
  proof (cases "0 < us l g")
    case True
    then have "used_rules (l_rule_info l g) > 0" by (simp add: us_def word_less_nat_alt)
    then show ?thesis using packedD(4) [OF Suc.prems(1) _ True] Suc.prems(2) by (simp add: group_end_nat)
  next
    case False
    then have "\<not> used_rules (l_rule_info l g) > 0" by (simp add: us_def word_less_nat_alt)
    then show ?thesis using Suc False by simp
  qed
qed simp

text \<open>The position of a new rule, behind its group.\<close>

lemma rule_add_new:
  assumes ok: "rules_ok l R" and d: "1 \<le> unat depth" "unat depth \<le> 32" and none: "R (ip, unat depth) = None"
  shows "rule_add l ip depth nh =
    (if of_nat (start l (unat depth)) = l_max_rules l then (- ENOSPC, l)
     else case make_room 32 (unat depth) (upd_info (unat depth - 1) (\<lambda>r. if used_rules r > 0 then r else r\<lparr>first_rule := of_nat (start l (unat depth))\<rparr>) l) of
         (False, l') \<Rightarrow> (- ENOSPC, l')
       | (True, l') \<Rightarrow> (sint (of_nat (start l (unat depth)) :: u32), upd_info (unat depth - 1) (\<lambda>r. r\<lparr>used_rules := used_rules r + 1\<rparr>)
                               (set_rule (of_nat (start l (unat depth))) \<lparr>lr_ip = ip, lr_next_hop = nh\<rparr> l')))"
proof -
  let ?g = "unat depth - 1"
  have g: "?g < 32" "Suc ?g = unat depth" using d by simp_all
  note P = rules_okD(1) [OF ok]
  have n: "\<forall>r \<in> set (group l ?g). lr_ip r \<noteq> ip" using rules_ok_None [OF ok d] none by simp
  have st: "start l (unat depth) = start l ?g + us l ?g" using g(2) start_simps(2) [of l ?g] by simp
  have m: "unat RTE_LPM_MAX_DEPTH = 32" by (simp add: RTE_LPM_MAX_DEPTH_def)
  show ?thesis
  proof (cases "0 < us l ?g")
    case True
    then have u: "used_rules (l_rule_info l ?g) > 0" by (simp add: us_def word_less_nat_alt)
    obtain k where k: "fs l ?g \<le> k" "k \<le> fs l ?g + us l ?g" "rule_scan l ip (group_end l ?g) (first_rule (l_rule_info l ?g)) = of_nat k"
      "(of_nat k :: u32) < group_end l ?g \<longleftrightarrow> k < fs l ?g + us l ?g" "k < fs l ?g + us l ?g \<longrightarrow> lr_ip (cell l k) = ip"
      using scan_group [OF P g(1), of ip] by blast
    have "k = start l (unat depth)"
      using k n packedD(4) [OF P g(1) True] st by (fastforce simp: group_def set_cells)
    moreover have "\<not> (of_nat k :: u32) < group_end l ?g" using k(4) calculation packedD(4) [OF P g(1) True] st by simp
    moreover have "upd_info ?g (\<lambda>r. if used_rules r > 0 then r else r\<lparr>first_rule := of_nat (start l (unat depth))\<rparr>) l = l"
      using u by (simp add: upd_info_def)
    ultimately show ?thesis using u k(3) by (simp add: rule_add_def Let_def m split: prod.split bool.split)
  next
    case False
    then have u: "\<not> used_rules (l_rule_info l ?g) > 0" by (simp add: us_def word_less_nat_alt)
    have pe: "prev_end l ?g = of_nat (start l (unat depth))" using prev_end_eq [OF P, of ?g] g(1) st False by simp
    have "upd_info ?g (\<lambda>r. if used_rules r > 0 then r else r\<lparr>first_rule := of_nat (start l (unat depth))\<rparr>) l = upd_info ?g (\<lambda>r. r\<lparr>first_rule := of_nat (start l (unat depth))\<rparr>) l"
      using u by (simp add: upd_info_def)
    then show ?thesis using u pe by (simp add: rule_add_def Let_def m split: prod.split bool.split)
  qed
qed
lemma start_flat: "a \<le> n \<Longrightarrow> (\<And>h. a \<le> h \<Longrightarrow> h < n \<Longrightarrow> us l h = 0) \<Longrightarrow> start l n = start l a"
  by (induction n rule: dec_induct) auto

text \<open>The first index of an empty group may change.\<close>

lemma empty_first:
  assumes ok: "rules_ok l R" and g: "g < 32" and k: "k < unat (l_max_rules l)" "k = start l (Suc g)"
  defines "l' \<equiv> upd_info g (\<lambda>r. if used_rules r > 0 then r else r\<lparr>first_rule := of_nat k\<rparr>) l"
  shows "rules_ok l' R" "us l' = us l" "fs l' g = start l g" "same_tables l l'" "group l' h = group l h" "start l' = start l"
proof -
  note P = rules_okD(1) [OF ok]
  show us: "us l' = us l" by (auto simp: us_def l'_def fun_eq_iff)
  have u0: "used_rules (l_rule_info l g) > 0 \<longleftrightarrow> 0 < us l g" by (simp add: us_def word_less_nat_alt)
  have "k < 2 ^ 32" using k(1) packedD(1) [OF P] by simp
  then have fs: "fs l' h = (if h = g \<and> us l g = 0 then k else fs l h)" for h using u0 by (simp add: fs_def l'_def unat_of_nat_less)
  show fg: "fs l' g = start l g" using fs k(2) packedD(4) [OF P g] by auto
  show "same_tables l l'" by (simp add: l'_def)
  then have mx: "l_max_rules l' = l_max_rules l" by (simp add: same_tables_def)
  show st: "start l' = start l" by (simp add: start_def [abs_def] us)
  show gr: "group l' h = group l h" for h
  proof -
    have "cell l' = cell l" by (simp add: cell_def l'_def fun_eq_iff)
    then show ?thesis by (cases "us l h = 0") (auto simp: group_def cells_def us fs)
  qed
  have "packed l'" using P k(1) fs by (auto simp: packed_def mx st us)
  then show "rules_ok l' R" using ok gr by (simp add: rules_ok_def)
qed

text \<open>The table after the groups have moved and the rule is stored.\<close>

lemma stored_rule:
  assumes ok: "rules_ok l R" and d: "1 \<le> d" "d \<le> 32" and none: "R (ip, d) = None" and ip: "pref d ip = ip" and room: "start l 32 < unat (l_max_rules l)"
    and fg: "fs l (d - 1) = start l (d - 1)" and m: "moved_up l d l2"
    and l'_def: "l' = upd_info (d - 1) (\<lambda>r. r\<lparr>used_rules := used_rules r + 1\<rparr>) (set_rule (of_nat (start l d)) \<lparr>lr_ip = ip, lr_next_hop = nh\<rparr> l2)"
  shows "rules_ok l' (R((ip, d) \<mapsto> nh))" "same_tables l l'" "held_at l' d (start l d) \<lparr>lr_ip = ip, lr_next_hop = nh\<rparr>"
proof -
  note P = rules_okD(1) [OF ok]
  let ?g = "d - 1" and ?r = "\<lparr>lr_ip = ip, lr_next_hop = nh\<rparr>"
  have g: "?g < 32" "Suc ?g = d" using d by simp_all
  have st: "start l d = start l ?g + us l ?g" using g(2) start_simps(2) [of l ?g] by simp
  have b: "start l d \<le> start l 32" "start l 32 < 2 ^ 31" using start_mono [OF d(2), of l] packedD(1) [OF P] room by simp_all
  have us: "us l' h = us l h + (if h = ?g then 1 else 0)" for h
  proof -
    have "us l ?g \<le> start l d" using st by simp
    then have "unat (used_rules (l_rule_info l2 ?g) + 1) = us l ?g + 1" using m b by (subst unat_add_less) (auto simp: moved_up_def us_def fun_eq_iff)
    then show ?thesis using m by (auto simp: moved_up_def us_def l'_def fun_eq_iff)
  qed
  have fs: "fs l' h = fs l2 h" for h by (simp add: fs_def l'_def)
  have fs2: "fs l' h = fs l h" if "h < d" for h using that m fs by (simp add: moved_up_def)
  have fs3: "fs l' h = (if 0 < us l h then start l h + 1 else fs l h)" if "d \<le> h" "h < 32" for h
    using that m fs packedD(4) [OF P that(2)] by (simp add: moved_up_def)
  have start': "start l' h = start l h + (if d \<le> h then 1 else 0)" for h
    by (induction h) (use us g(2) in \<open>auto simp: start_simps\<close>)
  have c: "cell l' k = (if k = start l d then ?r else cell l2 k)" if "k < 2 ^ 32" for k
    unfolding l'_def using that b by (simp add: cell_upd)
  show sm: "same_tables l l'" using m by (simp add: l'_def moved_up_def)
  then have mx: "l_max_rules l' = l_max_rules l" by (simp add: same_tables_def)
  have "packed l'"
    unfolding packed_def mx
  proof (intro conjI allI impI)
    show "unat (l_max_rules l) < 2 ^ 31" by (rule packedD(1) [OF P])
    show "start l' 32 \<le> unat (l_max_rules l)" using start' [of 32] d room by simp
    fix h :: nat
    assume h: "h < 32"
    show "fs l' h < unat (l_max_rules l)"
      using fs2 [of h] fs3 [of h] h packedD(3) [OF P h] start_less [OF h, of l] room by (cases "d \<le> h") auto
    assume "0 < us l' h"
    then show "fs l' h = start l' h"
      using fs2 [of h] fs3 [of h] h start' [of h] us [of h] fg packedD(4) [OF P h] g(2) by (cases "h = ?g"; cases "d \<le> h") auto
  qed
  moreover have "mset (group l' h) = mset (group l h)" if h: "h < 32" "h \<noteq> ?g" for h
  proof (cases "0 < us l h")
    case u: True
    show ?thesis
    proof (cases "d \<le> h")
      case True
      have f2: "fs l2 h = start l h + 1" using fs3 [OF True h(1)] fs u by simp
      have "cells l' (start l h + 1) (us l h) = cells l2 (start l h + 1) (us l h)"
        using c start_mono [OF True, of l] start_less [OF h(1), of l] b by (intro cells_cong) simp
      then have "group l' h = group l2 h" using f2 fs us [of h] h(2) m by (simp add: group_def moved_up_def)
      then show ?thesis using m True h(1) by (simp add: moved_up_def)
    next
      case False
      have f: "fs l h = start l h" using packedD(4) [OF P h(1) u] .
      have "start l h + us l h \<le> start l d" using start_less [of h d l] False by simp
      then have "cells l' (start l h) (us l h) = cells l (start l h) (us l h)" using c m b by (intro cells_cong) (simp add: moved_up_def)
      then show ?thesis using fs2 [of h] f us [of h] h(2) False by (simp add: group_def)
    qed
  next
    case False
    then show ?thesis using us [of h] h(2) by (simp add: group_def cells_def)
  qed
  moreover have "group l' ?g = group l ?g @ [?r]"
  proof -
    have "cells l' (start l ?g) (us l ?g) = cells l (start l ?g) (us l ?g)" using c m b st by (intro cells_cong) (simp add: moved_up_def)
    moreover have "cell l' (start l ?g + us l ?g) = ?r" using c [of "start l d"] st b by simp
    ultimately show ?thesis using us [of ?g] fs2 [of ?g] fg d(1) by (simp add: group_def cells_Suc(2))
  qed
  moreover have "filter (\<lambda>r. lr_ip r \<noteq> ip) (group l ?g) = group l ?g" using rules_ok_None [OF ok d] none by (simp add: filter_id_conv)
  ultimately show "rules_ok l' (R((ip, d) \<mapsto> nh))" using d ip by (intro rules_ok_upd [OF ok]) auto
  show "held_at l' d (start l d) ?r" using us [of ?g] fs2 [of ?g] fg d(1) st c [of "start l d"] b by (simp add: held_at_def)
qed

lemma rule_add_ok:
  assumes ok: "rules_ok l R" and d: "1 \<le> unat depth" "unat depth \<le> 32" and none: "R (ip, unat depth) = None" and ip: "pref (unat depth) ip = ip"
  shows "start l 32 < unat (l_max_rules l) \<Longrightarrow> \<exists>k l'. rule_add l ip depth nh = (int k, l') \<and> rules_ok l' (R((ip, unat depth) \<mapsto> nh)) \<and> same_tables l l' \<and>
      held_at l' (unat depth) k \<lparr>lr_ip = ip, lr_next_hop = nh\<rparr>"
    "\<not> start l 32 < unat (l_max_rules l) \<Longrightarrow> \<exists>l'. rule_add l ip depth nh = (- ENOSPC, l') \<and> rules_ok l' R \<and> same_tables l l'"
proof -
  note P = rules_okD(1) [OF ok]
  let ?d = "unat depth" and ?g = "unat depth - 1" and ?k = "start l (unat depth)"
  let ?l = "upd_info ?g (\<lambda>r. if used_rules r > 0 then r else r\<lparr>first_rule := of_nat ?k\<rparr>) l"
  have g: "?g < 32" "Suc ?g = ?d" using d by simp_all
  have b: "?k \<le> start l 32" "start l 32 \<le> unat (l_max_rules l)" "unat (l_max_rules l) < 2 ^ 31" using start_mono [OF d(2), of l] packedD(1,2) [OF P] by simp_all
  have u: "unat (of_nat ?k :: u32) = ?k" using b by (intro unat_of_nat_less) simp
  have eq: "of_nat ?k = l_max_rules l \<longleftrightarrow> ?k = unat (l_max_rules l)" using u by (metis word_unat_eq_iff)
  note add = rule_add_new [OF ok d none, of nh]
  note E = empty_first [OF ok g(1), of ?k, unfolded g(2)]
  show "\<exists>k l'. rule_add l ip depth nh = (int k, l') \<and> rules_ok l' (R((ip, ?d) \<mapsto> nh)) \<and> same_tables l l' \<and> held_at l' ?d k \<lparr>lr_ip = ip, lr_next_hop = nh\<rparr>"
    if room: "start l 32 < unat (l_max_rules l)"
  proof -
    have k: "?k < unat (l_max_rules l)" using b room by simp
    note E = E [OF k refl]
    have mx: "l_max_rules ?l = l_max_rules l" by simp
    have "moved_up ?l 32 ?l" by (simp add: moved_up_def)
    then obtain l2 where l2: "make_room 32 ?d ?l = (True, l2)" "moved_up ?l ?d l2"
      using make_room_ok [OF rules_okD(1) [OF E(1)], of ?d 32 ?l] room d(2) E(6) mx by auto
    let ?l' = "upd_info ?g (\<lambda>r. r\<lparr>used_rules := used_rules r + 1\<rparr>) (set_rule (of_nat ?k) \<lparr>lr_ip = ip, lr_next_hop = nh\<rparr> l2)"
    have S: "rules_ok ?l' (R((ip, ?d) \<mapsto> nh))" "same_tables ?l ?l'" "held_at ?l' ?d ?k \<lparr>lr_ip = ip, lr_next_hop = nh\<rparr>"
      using stored_rule [OF E(1) d none ip _ _ l2(2) refl, of nh] room E(3,6) mx by simp_all
    have "sint (of_nat ?k :: u32) = int ?k" using sint_small [of "of_nat ?k"] u b by simp
    then have "rule_add l ip depth nh = (int ?k, ?l')" using add l2(1) k eq by simp
    then show ?thesis using S same_tables_trans [OF E(4) S(2)] by blast
  qed
  show "\<exists>l'. rule_add l ip depth nh = (- ENOSPC, l') \<and> rules_ok l' R \<and> same_tables l l'" if full: "\<not> start l 32 < unat (l_max_rules l)"
  proof (cases "?k = unat (l_max_rules l)")
    case True
    then show ?thesis using add eq ok by simp
  next
    case False
    then have k: "?k < unat (l_max_rules l)" using b full by simp
    note E = E [OF k refl]
    have "\<exists>h<32. ?d \<le> h \<and> 0 < us l h"
    proof (rule ccontr)
      assume "\<not> ?thesis"
      then have z: "us l h = 0" if "?d \<le> h" "h < 32" for h using that by auto
      have "start l 32 = ?k" by (rule start_flat [OF d(2) z])
      then show False using k full by simp
    qed
    then have "make_room 32 ?d ?l = (False, ?l)" using full b E(2,6) by (intro make_room_full [OF rules_okD(1) [OF E(1)]]) auto
    then show ?thesis using add False eq E(1,4) by auto
  qed
qed

text \<open>An existing rule gets a new next hop.\<close>

lemma rule_add_old:
  assumes ok: "rules_ok l R" and d: "1 \<le> unat depth" "unat depth \<le> 32" and some: "R (ip, unat depth) = Some old"
  shows "\<exists>k l'. rule_add l ip depth nh = (int k, l') \<and> rules_ok l' (R((ip, unat depth) \<mapsto> nh)) \<and> same_tables l l'"
proof -
  note P = rules_okD(1) [OF ok]
  let ?d = "unat depth" and ?g = "unat depth - 1" and ?r = "\<lparr>lr_ip = ip, lr_next_hop = nh\<rparr>"
  have g: "?g < 32" "Suc ?g = ?d" using d by simp_all
  obtain k where k: "fs l ?g \<le> k" "k \<le> fs l ?g + us l ?g" "rule_scan l ip (group_end l ?g) (first_rule (l_rule_info l ?g)) = of_nat k"
      "(of_nat k :: u32) < group_end l ?g \<longleftrightarrow> k < fs l ?g + us l ?g" "sint (of_nat k :: u32) = int k" "unat (of_nat k :: u32) = k"
      "k < fs l ?g + us l ?g \<longrightarrow> lr_ip (cell l k) = ip" "k = fs l ?g + us l ?g \<longrightarrow> (\<forall>r \<in> set (group l ?g). lr_ip r \<noteq> ip)"
    using scan_group [OF P g(1), of ip] by blast
  have mem: "\<lparr>lr_ip = ip, lr_next_hop = old\<rparr> \<in> set (group l ?g)" using some rules_okD(4) [OF ok] by blast
  then have kl: "k < fs l ?g + us l ?g" using k(2,8) by (metis le_neq_implies_less rte_lpm_rule.select_convs(1))
  have u: "used_rules (l_rule_info l ?g) > 0" using kl k(1) by (simp add: us_def word_less_nat_alt)
  let ?l = "set_rule (of_nat k) ((cell l k)\<lparr>lr_next_hop := nh\<rparr>) l"
  have r: "(cell l k)\<lparr>lr_next_hop := nh\<rparr> = ?r" using k(7) kl by simp
  have k32: "k < 2 ^ 32" using k(6) unat_less_2p32 [of "of_nat k"] by simp
  have bound: "fs l h + us l h < 2 ^ 32" if "h < 32" for h using group_end_eq(2) [OF P that] packedD(1) [OF P] by simp
  have c: "cell ?l j = (if j = k then ?r else cell l j)" if "j < 2 ^ 32" for j unfolding r using that k32 by (simp add: cell_upd)
  have "rule_add l ip depth nh = (int k, ?l)" using u k(3-5) kl by (simp add: rule_add_def Let_def cell_def)
  moreover have "rules_ok ?l (R((ip, ?d) \<mapsto> nh))"
  proof (rule rules_ok_upd [OF ok])
    show "packed ?l" using P by (simp add: packed_def start_def)
    show "1 \<le> ?d" "?d \<le> 32" by fact+
    show "pref ?d ip = ip" using rules_okD(3) [OF ok g(1) mem] g(2) by simp
    show "mset (group ?l h) = mset (group l h)" if h: "h < 32" "h \<noteq> ?g" for h
    proof (cases "0 < us l h")
      case True
      have f: "fs l h = start l h" "fs l ?g = start l ?g" using packedD(4) [OF P] h(1) True g(1) kl k(1) by simp_all
      have "k \<notin> {fs l h..<fs l h + us l h}" using f kl k(1) start_less [of h ?g l] start_less [of ?g h l] h(2) by (cases "h < ?g") auto
      then have "cells ?l (fs l h) (us l h) = cells l (fs l h) (us l h)" using c bound [OF h(1)] by (intro cells_cong) auto
      then show ?thesis by (simp add: group_def)
    qed (simp add: group_def cells_def)
    let ?a = "cells l (fs l ?g) (k - fs l ?g)" and ?b = "cells l (Suc k) (fs l ?g + us l ?g - Suc k)"
    have old: "group l ?g = ?a @ cell l k # ?b" unfolding group_def by (rule cells_split [OF k(1) kl])
    have "cells ?l (fs l ?g) (k - fs l ?g) = ?a" "cells ?l (Suc k) (fs l ?g + us l ?g - Suc k) = ?b" using c bound [OF g(1)] kl by (auto intro!: cells_cong)
    then have new: "group ?l ?g = ?a @ ?r # ?b" unfolding group_def us_set cells_split [OF k(1) kl] using c [OF k32] by simp
    have "filter (\<lambda>r. lr_ip r \<noteq> ip) (group l ?g) = ?a @ ?b"
      using filter_one [of lr_ip ?a "cell l k" ?b] rules_okD(2) [OF ok g(1)] k(7) kl unfolding old by simp
    then show "mset (group ?l ?g) = mset ((case Some nh of None \<Rightarrow> [] | Some nh \<Rightarrow> [\<lparr>lr_ip = ip, lr_next_hop = nh\<rparr>]) @ filter (\<lambda>r. lr_ip r \<noteq> ip) (group l ?g))"
      unfolding new by simp
  qed
  ultimately show ?thesis by auto
qed
lemma start_set [simp]: "start (set_rule i r l) = start l" "packed (set_rule i r l) = packed l"
  by (simp_all add: start_def packed_def fun_eq_iff)

section \<open>Deleting a rule\<close>

definition moved_down :: "rte_lpm \<Rightarrow> nat \<Rightarrow> nat \<Rightarrow> rte_lpm \<Rightarrow> bool" where
  "moved_down l0 d g l \<longleftrightarrow> same_tables l0 l \<and> us l = us l0 \<and> (\<forall>h. h < d \<or> g \<le> h \<longrightarrow> fs l h = fs l0 h) \<and>
     (\<forall>h. d \<le> h \<longrightarrow> h < g \<longrightarrow> fs l h = (if 0 < us l0 h then fs l0 h - 1 else fs l0 h) \<and> mset (group l h) = mset (group l0 h)) \<and>
     (\<forall>k<2 ^ 32. k < start l0 d - 1 \<or> start l0 g \<le> k \<longrightarrow> cell l k = cell l0 k)"

lemma moved_down_step:
  assumes P: "packed l0" and d: "d \<le> g" "g < 32" "0 < start l0 d" and m: "moved_down l0 d g l" and u: "0 < us l0 g"
  shows "moved_down l0 d (Suc g) (close_gap g l)"
proof -
  let ?s = "start l0 g"
  have us: "us l = us l0" and fl: "fs l g = ?s" using m packedD(4) [OF P d(2) u] by (auto simp: moved_down_def)
  have b: "?s + us l0 g \<le> start l0 32" "start l0 32 < 2 ^ 31" "1 \<le> ?s" "start l0 d \<le> ?s"
    using start_less [OF d(2), of l0] packedD(1,2) [OF P] start_mono [OF d(1), of l0] d(3) by simp_all
  obtain n where n: "us l0 g = Suc n" using u by (cases "us l0 g") auto
  have f: "first_rule (l_rule_info l g) - 1 = of_nat (?s - 1)" "group_end l g - 1 = of_nat (?s + n)"
  proof -
    have "first_rule (l_rule_info l g) = of_nat ?s" using fl by (simp add: fs_def flip: fl)
    then show "first_rule (l_rule_info l g) - 1 = of_nat (?s - 1)" using b(3) by (simp add: of_nat_diff)
    show "group_end l g - 1 = of_nat (?s + n)" unfolding group_end_nat us fl n by simp
  qed
  have used: "used_rules (l_rule_info l g) > 0" using u us by (simp add: us_def fun_eq_iff word_less_nat_alt)
  let ?l = "close_gap g l"
  have eq: "?l = upd_info g (\<lambda>r. r\<lparr>first_rule := first_rule r - 1\<rparr>) (set_rule (of_nat (?s - 1)) (cell l0 (?s + n)) l)"
  proof -
    have "cell l (?s + n) = cell l0 (?s + n)" using m b n by (simp add: moved_down_def)
    then have "l_rules_tbl l (group_end l g - 1) = cell l0 (?s + n)" unfolding f(2) by (simp only: cell_def)
    then show ?thesis using used f(1) by (simp add: close_gap_def)
  qed
  have c: "cell ?l k = (if k = ?s - 1 then cell l0 (?s + n) else cell l k)" if "k < 2 ^ 32" for k
    unfolding eq cell_upd(1) using that b by (intro cell_upd(2)) simp_all
  have us': "us ?l = us l0" using us unfolding eq by (auto simp: us_def fun_eq_iff)
  have fs': "fs ?l h = (if h = g then ?s - 1 else fs l h)" for h
  proof -
    have "unat (first_rule (l_rule_info l g) - 1) = ?s - 1" unfolding f(1) using b by (intro unat_of_nat_less) simp
    then show ?thesis unfolding eq by (simp add: fs_def)
  qed
  have grp: "mset (group ?l h) = mset (group l0 h)" if h: "d \<le> h" "h < Suc g" for h
  proof (cases "h = g")
    case True
    have "cells ?l ?s n = cells l0 ?s n" using c m b n by (intro cells_cong) (simp add: moved_down_def)
    then have "group ?l g = cell l0 (?s + n) # cells l0 ?s n" using n c [of "?s - 1"] b by (simp add: group_def fs' us' cells_Suc(1))
    moreover have "group l0 g = cells l0 ?s n @ [cell l0 (?s + n)]" using n packedD(4) [OF P d(2) u] by (simp add: group_def cells_Suc(2))
    ultimately show ?thesis using True by simp
  next
    case False
    then have hg: "h < g" using h by simp
    have "group ?l h = group l h"
    proof (cases "0 < us l0 h")
      case True
      have f: "fs l h = start l0 h - 1" "1 \<le> start l0 h" using m h hg True packedD(4) [OF P _ True] d start_mono [OF h(1), of l0] by (simp_all add: moved_down_def)
      have "start l0 h + us l0 h \<le> ?s" by (rule start_less [OF hg])
      then have "cells ?l (start l0 h - 1) (us l0 h) = cells l (start l0 h - 1) (us l0 h)" using c b f(2) by (intro cells_cong) auto
      then show ?thesis using f fs' [of h] False us us' by (simp add: group_def)
    qed (use us us' in \<open>simp add: group_def cells_def\<close>)
    then show ?thesis using m h(1) hg by (simp add: moved_down_def)
  qed
  have "same_tables l0 ?l" using m unfolding eq by (simp add: moved_down_def)
  moreover have "fs ?l h = (if 0 < us l0 h then fs l0 h - 1 else fs l0 h)" if "d \<le> h" "h < Suc g" for h
    using that m fs' u packedD(4) [OF P d(2) u] by (auto simp: moved_down_def less_Suc_eq)
  moreover have "cell ?l k = cell l0 k" if "k < 2 ^ 32" "k < start l0 d - 1 \<or> start l0 (Suc g) \<le> k" for k
    using that c [of k] m b d by (auto simp: moved_down_def)
  moreover have "fs ?l h = fs l0 h" if "h < d \<or> Suc g \<le> h" for h using that fs' [of h] m d by (auto simp: moved_down_def)
  ultimately show ?thesis using us' grp unfolding moved_down_def by blast
qed

lemma moved_down_empty:
  assumes "moved_down l0 d g l" and "us l0 g = 0"
  shows "moved_down l0 d (Suc g) (close_gap g l)"
proof -
  have "us l g = 0" using assms by (simp add: moved_down_def)
  then have eq: "close_gap g l = l" by (simp add: close_gap_def us_def word_less_nat_alt)
  have "fs l h = (if 0 < us l0 h then fs l0 h - 1 else fs l0 h) \<and> mset (group l h) = mset (group l0 h)" if "d \<le> h" "h < Suc g" for h
  proof (cases "h = g")
    case True
    then show ?thesis using assms by (simp add: moved_down_def group_def cells_def)
  next
    case False
    then show ?thesis using that assms by (simp add: moved_down_def)
  qed
  then show ?thesis using assms unfolding eq by (auto simp: moved_down_def)
qed

lemma close_gaps:
  assumes "packed l" and "0 < start l d" and "d \<le> g" and "g \<le> 32"
  shows "moved_down l d g (fold close_gap [d..<g] l)"
  using assms(3,4)
proof (induction g rule: dec_induct)
  case base
  then show ?case by (simp add: moved_down_def)
next
  case (step g)
  let ?l = "fold close_gap [d..<g] l"
  have m: "moved_down l d g ?l" using step by simp
  have "moved_down l d (Suc g) (close_gap g ?l)"
    using moved_down_step [OF assms(1) _ _ assms(2) m] moved_down_empty [OF m] step by (cases "us l g = 0") auto
  then show ?case using step by (simp add: upt_Suc_append)
qed

lemma rule_delete_ok:
  assumes ok: "rules_ok l R" and d: "1 \<le> unat depth" "unat depth \<le> 32" and k: "held_at l (unat depth) k r"
  shows "rules_ok (rule_delete l (int k) depth) (R((lr_ip r, unat depth) := None))" "same_tables l (rule_delete l (int k) depth)"
proof -
  note P = rules_okD(1) [OF ok]
  let ?d = "unat depth" and ?g = "unat depth - 1"
  have g: "?g < 32" "Suc ?g = ?d" using d by simp_all
  have k: "fs l ?g \<le> k" "k < fs l ?g + us l ?g" "cell l k = r" using k by (simp_all add: held_at_def)
  have u: "0 < us l ?g" using k by simp
  have f: "fs l ?g = start l ?g" by (rule packedD(4) [OF P g(1) u])
  have st: "start l ?d = start l ?g + us l ?g" using g(2) start_simps(2) [of l ?g] by simp
  obtain n where n: "us l ?g = Suc n" using u by (cases "us l ?g") auto
  have b: "start l ?d \<le> start l 32" "start l 32 < 2 ^ 31" using start_mono [OF d(2), of l] packedD(1,2) [OF P] by simp_all
  have e: "group_end l ?g - 1 = of_nat (start l ?g + n)" unfolding group_end_nat f n by simp
  let ?l1 = "set_rule (of_nat k) (cell l (start l ?g + n)) l"
  have k32: "k < 2 ^ 32" using k(2) f st b by simp
  have c1: "cell ?l1 j = (if j = k then cell l (start l ?g + n) else cell l j)" if "j < 2 ^ 32" for j using that k32 by (intro cell_upd(2))
  have P1: "packed ?l1" using P by simp
  let ?l2 = "fold close_gap [?d..<32] ?l1"
  have m: "moved_down ?l1 ?d 32 ?l2" using st u d by (intro close_gaps [OF P1]) simp_all
  let ?l = "upd_info ?g (\<lambda>r. r\<lparr>used_rules := used_rules r - 1\<rparr>) ?l2"
  have del: "rule_delete l (int k) depth = ?l"
    unfolding rule_delete_def Let_def e by (simp add: RTE_LPM_MAX_DEPTH_def cell_def)
  have us: "us ?l h = us l h - (if h = ?g then 1 else 0)" for h
  proof -
    have "us ?l2 ?g = Suc n" using m n by (simp add: moved_down_def)
    then have "1 \<le> used_rules (l_rule_info ?l2 ?g)" "unat (used_rules (l_rule_info ?l2 ?g)) = Suc n" by (simp_all add: us_def word_le_nat_alt)
    then have "unat (used_rules (l_rule_info ?l2 ?g) - 1) = n" using unat_sub_le [of 1 "used_rules (l_rule_info ?l2 ?g)"] by simp
    then show ?thesis using m n by (auto simp: moved_down_def us_def fun_eq_iff)
  qed
  have fs: "fs ?l h = (if ?d \<le> h \<and> 0 < us l h then fs l h - 1 else fs l h)" if "h < 32" for h
    using m that by (cases "?d \<le> h") (auto simp: moved_down_def fs_def)
  have start': "start ?l h = start l h - (if ?d \<le> h then 1 else 0)" for h
  proof (induction h)
    case (Suc h)
    have a: "start ?l (Suc h) = start ?l h + us ?l h" "start l (Suc h) = start l h + us l h" by (rule start_simps(2))+
    have "?d \<le> h \<Longrightarrow> 1 \<le> start l h" using start_mono [of ?d h l] st n by simp
    moreover have "?d \<le> Suc h \<longleftrightarrow> ?d \<le> h \<or> h = ?g" "\<not> (?d \<le> h \<and> h = ?g)" using g(2) by auto
    ultimately show ?case unfolding a Suc.IH us [of h] using n by auto
  qed (use d in simp)
  have c: "cell ?l j = cell ?l2 j" for j by (rule cell_upd(1))
  have "same_tables l ?l1" "same_tables ?l1 ?l2" using m by (simp_all add: moved_down_def)
  then have "same_tables l ?l2" by (rule same_tables_trans)
  then show sm: "same_tables l (rule_delete l (int k) depth)" unfolding del by simp
  then have mx: "l_max_rules ?l = l_max_rules l" unfolding del by (simp add: same_tables_def)
  have P': "packed ?l"
    unfolding packed_def mx
  proof (intro conjI allI impI)
    show "unat (l_max_rules l) < 2 ^ 31" by (rule packedD(1) [OF P])
    show "start ?l 32 \<le> unat (l_max_rules l)" using start' [of 32] packedD(2) [OF P] by simp
    fix h :: nat
    assume h: "h < 32"
    show "fs ?l h < unat (l_max_rules l)" using fs [OF h] packedD(3) [OF P h] by auto
    assume "0 < us ?l h"
    then show "fs ?l h = start ?l h"
      using fs [OF h] start' [of h] us [of h] packedD(4) [OF P h] g(2) by (cases "h = ?g") auto
  qed
  have oth: "mset (group ?l h) = mset (group l h)" if h: "h < 32" "h \<noteq> ?g" for h
  proof (cases "0 < us l h")
    case uh: True
    have fh: "fs l h = start l h" by (rule packedD(4) [OF P h(1) uh])
    have same: "group ?l1 h = group l h"
      using c1 fh f k st start_less [of h ?g l] start_less [of ?g h l] h start_less [OF h(1), of l] b by (cases "h < ?g") (auto simp: group_def intro!: cells_cong)
    show ?thesis
    proof (cases "?d \<le> h")
      case True
      have "group ?l h = group ?l2 h" using us [of h] h(2) fs [OF h(1)] c m True h(1)
        by (simp add: group_def moved_down_def cells_def)
      then show ?thesis using m True h(1) same by (simp add: moved_down_def)
    next
      case False
      then have hg: "h < ?g" using h(2) by simp
      have "start l h + us l h \<le> start l ?g" by (rule start_less [OF hg])
      then have "cells ?l (start l h) (us l h) = cells ?l1 (start l h) (us l h)" using c m st n b by (intro cells_cong) (simp add: moved_down_def)
      then show ?thesis using same us [of h] h fs [OF h(1)] fh False by (simp add: group_def)
    qed
  next
    case False
    then show ?thesis using us [of h] h(2) by (simp add: group_def cells_def)
  qed
  let ?a = "cells l (start l ?g) (k - start l ?g)"
  have old: "group l ?g = ?a @ r # cells l (Suc k) (start l ?g + Suc n - Suc k)"
    using cells_split [of "start l ?g" k "Suc n" l] k f n by (simp add: group_def)
  have new: "group ?l ?g = cells ?l1 (start l ?g) n"
  proof -
    have "cells ?l (start l ?g) n = cells ?l1 (start l ?g) n"
    proof (rule cells_cong)
      fix j
      assume "start l ?g \<le> j" "j < start l ?g + n"
      then have "j < 2 ^ 32" "j < start ?l1 ?d - 1" using st n b by simp_all
      then have "cell ?l2 j = cell ?l1 j" using m unfolding moved_down_def by blast
      then show "cell ?l j = cell ?l1 j" by (simp only: c)
    qed
    moreover have "us ?l ?g = n" "fs ?l ?g = start l ?g" using us [of ?g] n fs [OF g(1)] f g(2) by auto
    ultimately show ?thesis by (simp only: group_def)
  qed
  have "mset (cells ?l1 (start l ?g) n) = mset (?a @ cells l (Suc k) (start l ?g + Suc n - Suc k))"
  proof (cases "k = start l ?g + n")
    case True
    then have "cells ?l1 (start l ?g) n = ?a" using c1 st b n by (auto intro!: cells_cong)
    moreover have "cells l (Suc k) (start l ?g + Suc n - Suc k) = []" using True by (simp add: cells_def)
    ultimately show ?thesis by simp
  next
    case False
    then have kn: "start l ?g \<le> k" "k < start l ?g + n" using k f n by simp_all
    have "cells ?l1 (start l ?g) (k - start l ?g) = ?a" "cells ?l1 (Suc k) (start l ?g + n - Suc k) = cells l (Suc k) (start l ?g + n - Suc k)"
      using c1 st b n kn by (auto intro!: cells_cong)
    then have "cells ?l1 (start l ?g) n = ?a @ cell l (start l ?g + n) # cells l (Suc k) (start l ?g + n - Suc k)"
      using cells_split [OF kn, of ?l1] c1 [OF k32] by simp
    moreover have "start l ?g + Suc n - Suc k = Suc (start l ?g + n - Suc k)" "Suc k + (start l ?g + n - Suc k) = start l ?g + n" using kn by simp_all
    ultimately show ?thesis by (simp add: cells_Suc(2))
  qed
  moreover have "filter (\<lambda>x. lr_ip x \<noteq> lr_ip r) (group l ?g) = ?a @ cells l (Suc k) (start l ?g + Suc n - Suc k)"
    using filter_one [of lr_ip ?a r] rules_okD(2) [OF ok g(1)] unfolding old by simp
  ultimately have grp: "mset (group ?l ?g) = mset ((case None of None \<Rightarrow> [] | Some nh \<Rightarrow> [\<lparr>lr_ip = lr_ip r, lr_next_hop = nh\<rparr>]) @ filter (\<lambda>x. lr_ip x \<noteq> lr_ip r) (group l ?g))"
    unfolding new by simp
  have "r \<in> set (group l ?g)" unfolding old by simp
  then have "pref ?d (lr_ip r) = lr_ip r" using rules_okD(3) [OF ok g(1)] g(2) by simp
  then show "rules_ok (rule_delete l (int k) depth) (R((lr_ip r, ?d) := None))"
    unfolding del using oth grp by (intro rules_ok_upd [OF ok P' d]) auto
qed

end
