(* ===== verification/Lpm_Tables.thy ===== *)
theory Lpm_Tables
  imports Lpm_Rules
begin

text \<open>
  The look-up tables give the longest match among the rules. \<open>look\<close> is what the tables say of an address; adding and deleting a
  rule change it as they change the longest match, as long as the tables are not in one of the states in which the code
  writes to a group that is not its own.
\<close>

section \<open>Addresses and table indices\<close>

definition i24 :: "u32 \<Rightarrow> u32" where "i24 ip = drop_bit 8 ip"
definition low8 :: "u32 \<Rightarrow> nat" where "low8 ip = unat ip mod 256"

lemma unat_i24: "unat (i24 ip) = unat ip div 256"
  by (simp add: i24_def unat_drop_bit_eq drop_bit_nat_def)

lemma i24_less: "unat (i24 ip) < 2 ^ 24"
  unfolding unat_i24 using unat_less_2p32 [of ip] by (simp add: div_less_iff_less_mult)

lemma unat_and_ff: "unat (ip AND 0xFF :: u32) = low8 ip"
proof -
  have "(0xFF :: u32) = mask 8" by (simp add: mask_eq_decr_exp)
  then show ?thesis unfolding low8_def by (simp only: unat_and_mask) simp
qed

lemma low8_less [simp]: "low8 ip < 256" by (simp add: low8_def)

lemma unat_pref: "d \<le> 32 \<Longrightarrow> unat (pref d ip) = unat ip - unat ip mod 2 ^ (32 - d)"
proof -
  assume d: "d \<le> 32"
  have "ip = (ip AND NOT (mask (32 - d))) OR (ip AND mask (32 - d))" by (rule bit_eqI) (auto simp: bit_and_iff bit_or_iff bit_not_iff)
  moreover have "(ip AND NOT (mask (32 - d))) AND (ip AND mask (32 - d)) = 0" by (rule bit_eqI) (auto simp: bit_and_iff bit_not_iff)
  ultimately have "ip = (ip AND NOT (mask (32 - d))) + (ip AND mask (32 - d))" by (metis disjunctive_add_eq_or)
  then have p: "pref d ip = ip - (ip AND mask (32 - d))" by (simp add: pref_def algebra_simps)
  have "ip AND mask (32 - d) \<le> ip" by (simp add: word_le_nat_alt unat_and_mask)
  then show ?thesis unfolding p using unat_and_mask [of ip "32 - d"] by (simp add: unat_sub_le)
qed

lemma pref_div: "d \<le> 32 \<Longrightarrow> pref d ip = pref d p \<longleftrightarrow> unat ip div 2 ^ (32 - d) = unat p div 2 ^ (32 - d)"
proof -
  assume d: "d \<le> 32"
  have "unat (pref d x) = unat x div 2 ^ (32 - d) * 2 ^ (32 - d)" for x unfolding unat_pref [OF d] by (rule minus_mod_eq_div_mult)
  then show ?thesis by (simp add: word_unat_eq_iff)
qed

lemma div_interval: "m dvd (y :: nat) \<Longrightarrow> 0 < m \<Longrightarrow> x div m = y div m \<longleftrightarrow> y \<le> x \<and> x < y + m"
  by (metis add.commute div_nat_eqI dvd_mult_div_cancel mult.commute mult_Suc_right div_less_iff_less_mult less_eq_div_iff_mult_less_eq dividend_less_times_div times_div_less_eq_dividend)

lemma pref_fixed: "d \<le> 32 \<Longrightarrow> pref d p = p \<Longrightarrow> 2 ^ (32 - d) dvd unat p"
  using unat_pref [of d p] by (metis dvd_minus_mod)

text \<open>The addresses of a prefix as a range of \<open>tbl24\<close>, or as a range of one group of \<open>tbl8\<close>.\<close>

lemma pref_small:
  assumes d: "d \<le> 24" and p: "pref d p = p"
  shows "pref d ip = p \<longleftrightarrow> unat (i24 p) \<le> unat (i24 ip) \<and> unat (i24 ip) < unat (i24 p) + 2 ^ (24 - d)"
proof -
  have e: "(2 :: nat) ^ (32 - d) = 256 * 2 ^ (24 - d)" using d power_add [of "2 :: nat" 8 "24 - d"] by simp
  have "2 ^ (32 - d) dvd unat p" using pref_fixed [OF _ p] d by simp
  then have "2 ^ (24 - d) dvd unat p div 256" unfolding e by (auto simp: dvd_def)
  then have "unat ip div 256 div 2 ^ (24 - d) = unat p div 256 div 2 ^ (24 - d) \<longleftrightarrow> unat p div 256 \<le> unat ip div 256 \<and> unat ip div 256 < unat p div 256 + 2 ^ (24 - d)"
    by (intro div_interval) simp_all
  then show ?thesis using pref_div [of d ip p] d p unfolding e unat_i24 by (simp add: div_mult2_eq)
qed

lemma i24_low8: "unat ip = 256 * unat (i24 ip) + low8 ip"
  by (simp add: unat_i24 low8_def)

lemma same_block: "256 * u + a \<le> 256 * v + b \<Longrightarrow> 256 * v + b < 256 * u + a + m \<Longrightarrow> a + m \<le> 256 \<Longrightarrow> b < 256 \<Longrightarrow> v = u" for u v a b m :: nat
  by (rule antisym) linarith+

lemma pref_big:
  assumes d: "24 \<le> d" "d \<le> 32" and p: "pref d p = p"
  shows "pref d ip = p \<longleftrightarrow> i24 ip = i24 p \<and> low8 p \<le> low8 ip \<and> low8 ip < low8 p + 2 ^ (32 - d)"
    "low8 p + 2 ^ (32 - d) \<le> 256"
proof -
  let ?m = "2 ^ (32 - d) :: nat"
  have m: "?m dvd 256" using le_imp_power_dvd [of "32 - d" 8 "2 :: nat"] d by simp
  have mp: "?m dvd unat p" by (rule pref_fixed [OF d(2) p])
  then have ml: "?m dvd low8 p" unfolding low8_def using m by (simp add: dvd_mod_iff)
  obtain q r where q: "low8 p = ?m * q" "256 = ?m * r" using ml m by (auto elim!: dvdE)
  have "?m * q < ?m * r" using q low8_less [of p] by simp
  then have "q < r" by simp
  then have "?m * (q + 1) \<le> ?m * r" by (intro mult_le_mono2) simp
  then show le: "low8 p + ?m \<le> 256" using q by simp
  have "pref d ip = p \<longleftrightarrow> unat p \<le> unat ip \<and> unat ip < unat p + ?m" using pref_div [OF d(2), of ip p] p div_interval [OF mp, of "unat ip"] by simp
  also have "\<dots> \<longleftrightarrow> i24 ip = i24 p \<and> low8 p \<le> low8 ip \<and> low8 ip < low8 p + ?m"
  proof -
    have "unat (i24 ip) = unat (i24 p)" if "unat p \<le> unat ip" "unat ip < unat p + ?m"
      by (rule same_block [OF _ _ le low8_less]) (use that i24_low8 [of p] i24_low8 [of ip] in simp_all)
    then show ?thesis using i24_low8 [of p] i24_low8 [of ip] by (auto simp: word_unat_eq_iff)
  qed
  finally show "pref d ip = p \<longleftrightarrow> i24 ip = i24 p \<and> low8 p \<le> low8 ip \<and> low8 ip < low8 p + ?m" .
qed

lemma unat_range:
  "1 \<le> unat depth \<Longrightarrow> unat depth \<le> 24 \<Longrightarrow> unat (depth_to_range depth) = 2 ^ (24 - unat depth)"
  "24 < unat depth \<Longrightarrow> unat depth \<le> 32 \<Longrightarrow> unat (depth_to_range depth) = 2 ^ (32 - unat depth)"
  by (simp_all add: depth_to_range_def MAX_DEPTH_TBL24_def RTE_LPM_MAX_DEPTH_def word_le_nat_alt unat_sub_le push_bit_eq_mult unat_2p)

section \<open>What the tables say\<close>

definition ent24 :: "rte_lpm_tbl24_entry \<Rightarrow> (nat \<times> u8) option" where
  "ent24 e = (if t24_valid e then Some (unat (t24_depth e), t24_next_hop e) else None)"

definition ent8 :: "rte_lpm_tbl8_entry \<Rightarrow> (nat \<times> u8) option" where
  "ent8 f = (if t8_valid f then Some (unat (t8_depth f), t8_next_hop f) else None)"

definition ext :: "rte_lpm_tbl24_entry \<Rightarrow> bool" where "ext e \<longleftrightarrow> t24_valid e \<and> t24_ext_entry e"

text \<open>The index in \<open>tbl8\<close> of the entry for an address.\<close>

definition at8 :: "rte_lpm_tbl24_entry \<Rightarrow> u32 \<Rightarrow> u32" where "at8 e ip = group_start e + (ip AND 0xFF)"

definition look :: "rte_lpm \<Rightarrow> u32 \<Rightarrow> (nat \<times> u8) option" where
  "look l ip = (let e = l_tbl24 l (i24 ip) in if ext e then ent8 (l_tbl8 l (at8 e ip)) else ent24 e)"

text \<open>Groups in use are allocated and belong to one entry each.\<close>

definition tabs_ok :: "rte_lpm \<Rightarrow> bool" where
  "tabs_ok l \<longleftrightarrow> (\<forall>i. unat i < 2 ^ 24 \<longrightarrow> ext (l_tbl24 l i) \<longrightarrow> t8_valid_group (l_tbl8 l (group_start (l_tbl24 l i)))) \<and>
     (\<forall>i j. unat i < 2 ^ 24 \<longrightarrow> unat j < 2 ^ 24 \<longrightarrow> ext (l_tbl24 l i) \<longrightarrow> ext (l_tbl24 l j) \<longrightarrow>
        t24_next_hop (l_tbl24 l i) = t24_next_hop (l_tbl24 l j) \<longrightarrow> i = j) \<and>
     (\<forall>i. unat i < 2 ^ 24 \<longrightarrow> t24_valid (l_tbl24 l i) \<longrightarrow> \<not> t24_ext_entry (l_tbl24 l i) \<longrightarrow> unat (t24_depth (l_tbl24 l i)) \<le> 24)"

lemma tabs_okD:
  assumes "tabs_ok l"
  shows "unat i < 2 ^ 24 \<Longrightarrow> ext (l_tbl24 l i) \<Longrightarrow> t8_valid_group (l_tbl8 l (group_start (l_tbl24 l i)))"
    "unat i < 2 ^ 24 \<Longrightarrow> unat j < 2 ^ 24 \<Longrightarrow> ext (l_tbl24 l i) \<Longrightarrow> ext (l_tbl24 l j) \<Longrightarrow> t24_next_hop (l_tbl24 l i) = t24_next_hop (l_tbl24 l j) \<Longrightarrow> i = j"
    "unat i < 2 ^ 24 \<Longrightarrow> t24_valid (l_tbl24 l i) \<Longrightarrow> \<not> ext (l_tbl24 l i) \<Longrightarrow> unat (t24_depth (l_tbl24 l i)) \<le> 24"
  using assms by (auto simp: tabs_ok_def ext_def)

lemma u8_less: "unat (x :: u8) < 256"
  using unsigned_less [of x, where 'a = nat] by simp

lemma unat_group_start: "unat (group_start e) = 256 * unat (t24_next_hop e)"
proof -
  have "unat (t24_next_hop e) < 256" by (rule u8_less)
  then show ?thesis by (simp add: group_start_def RTE_LPM_TBL8_GROUP_NUM_ENTRIES_def unat_word_ariths)
qed

lemma unat_at8: "unat (at8 e ip) = 256 * unat (t24_next_hop e) + low8 ip"
proof -
  have "256 * unat (t24_next_hop e) + low8 ip < 4294967296" using u8_less [of "t24_next_hop e"] low8_less [of ip] by linarith
  then show ?thesis unfolding at8_def by (subst unat_add_less) (simp_all add: unat_group_start unat_and_ff)
qed

lemma at8_group: "unat (at8 e ip) div 256 = unat (t24_next_hop e)"
  by (simp add: unat_at8)

text \<open>Loops over \<open>tbl8\<close>.\<close>

lemma l_set8 [simp]:
  "l_tbl8 (set8 i e l) = (l_tbl8 l)(i := e)" "l_tbl24 (set8 i e l) = l_tbl24 l" "l_tbl24 (set24 i f l) = (l_tbl24 l)(i := f)" "l_tbl8 (set24 i f l) = l_tbl8 l"
  by (simp_all add: set8_def set24_def)

definition upd8 :: "nat \<Rightarrow> nat \<Rightarrow> (rte_lpm_tbl8_entry \<Rightarrow> rte_lpm_tbl8_entry) \<Rightarrow> rte_lpm \<Rightarrow> rte_lpm" where
  "upd8 a b G l = l\<lparr>l_tbl8 := \<lambda>j. if a \<le> unat j \<and> unat j < b then G (l_tbl8 l j) else l_tbl8 l j\<rparr>"

lemma upd8_simps [simp]:
  "l_tbl24 (upd8 a b G l) = l_tbl24 l" "l_tbl8 (upd8 a b G l) = (\<lambda>j. if a \<le> unat j \<and> unat j < b then G (l_tbl8 l j) else l_tbl8 l j)"
  by (simp_all add: upd8_def)

lemma for_n_upd8:
  assumes "unat s + unat n < 2 ^ 32" and body: "\<And>k l'. l_tbl24 l' = l_tbl24 l \<Longrightarrow> body k l' = set8 (s + k) (G (l_tbl8 l' (s + k))) l'"
  shows "for_n n body l = upd8 (unat s) (unat s + unat n) G l"
proof -
  have "for_n n body l = upd8 (unat s) (unat s + unat n) G l \<and> l_tbl24 (for_n n body l) = l_tbl24 l"
  proof (rule for_n_inv [where P = "\<lambda>k l'. l' = upd8 (unat s) (unat s + k) G l \<and> l_tbl24 l' = l_tbl24 l"])
    have "(\<lambda>j. if unat s \<le> unat j \<and> unat j < unat s + 0 then G (l_tbl8 l j) else l_tbl8 l j) = l_tbl8 l" by (rule HOL.ext) auto
    then show "l = upd8 (unat s) (unat s + 0) G l \<and> l_tbl24 l = l_tbl24 l" unfolding upd8_def by simp
  next
    fix k l'
    assume k: "k < unat n" and l': "l' = upd8 (unat s) (unat s + k) G l \<and> l_tbl24 l' = l_tbl24 l"
    have u: "unat (s + of_nat k) = unat s + k" using k assms(1) by (subst unat_add_less) (simp_all add: unat_of_nat_less)
    have j: "j = s + of_nat k \<longleftrightarrow> unat j = unat s + k" for j using u by (metis word_unat_eq_iff)
    have "body (of_nat k) l' = set8 (s + of_nat k) (G (l_tbl8 l' (s + of_nat k))) l'" using body l' by simp
    also have "\<dots> = upd8 (unat s) (unat s + Suc k) G l"
    proof -
      have "(l_tbl8 l')(s + of_nat k := G (l_tbl8 l' (s + of_nat k))) = (\<lambda>j. if unat s \<le> unat j \<and> unat j < unat s + Suc k then G (l_tbl8 l j) else l_tbl8 l j)"
      proof (rule HOL.ext)
        fix x
        show "((l_tbl8 l')(s + of_nat k := G (l_tbl8 l' (s + of_nat k)))) x = (if unat s \<le> unat x \<and> unat x < unat s + Suc k then G (l_tbl8 l x) else l_tbl8 l x)"
          using l' u j [of x] by (cases "x = s + of_nat k") (auto simp: upd8_def less_Suc_eq)
      qed
      then show ?thesis using l' by (simp add: set8_def upd8_def)
    qed
    finally show "body (of_nat k) l' = upd8 (unat s) (unat s + Suc k) G l \<and> l_tbl24 (body (of_nat k) l') = l_tbl24 l" by simp
  qed
  then show ?thesis by simp
qed

definition same_rules :: "rte_lpm \<Rightarrow> rte_lpm \<Rightarrow> bool" where
  "same_rules l l' \<longleftrightarrow> l_rule_info l' = l_rule_info l \<and> l_rules_tbl l' = l_rules_tbl l \<and> l_max_rules l' = l_max_rules l"

lemma same_rules_ok:
  assumes "same_rules l l'"
  shows "rules_ok l' R = rules_ok l R" "held_at l' d k r = held_at l d k r"
proof -
  have e: "us l' = us l" "fs l' = fs l" "cell l' = cell l" using assms by (auto simp: same_rules_def us_def fs_def cell_def fun_eq_iff)
  then have "group l' = group l" "packed l' = packed l" using assms by (auto simp: same_rules_def group_def cells_def packed_def start_def fun_eq_iff)
  then show "rules_ok l' R = rules_ok l R" "held_at l' d k r = held_at l d k r" using e by (simp_all add: rules_ok_def held_at_def)
qed

section \<open>A range of \<open>tbl24\<close>\<close>

text \<open>Entries of the range without a group are changed by \<open>F\<close>, the groups of the others by \<open>G\<close>.\<close>

definition range_upd :: "nat \<Rightarrow> nat \<Rightarrow> (rte_lpm_tbl24_entry \<Rightarrow> rte_lpm_tbl24_entry) \<Rightarrow> (rte_lpm_tbl8_entry \<Rightarrow> rte_lpm_tbl8_entry) \<Rightarrow> rte_lpm \<Rightarrow> rte_lpm" where
  "range_upd a b F G l =
     l\<lparr>l_tbl24 := \<lambda>x. if a \<le> unat x \<and> unat x < b \<and> \<not> ext (l_tbl24 l x) then F (l_tbl24 l x) else l_tbl24 l x,
       l_tbl8 := \<lambda>j. if \<exists>x. a \<le> unat x \<and> unat x < b \<and> ext (l_tbl24 l x) \<and> unat j div 256 = unat (t24_next_hop (l_tbl24 l x)) then G (l_tbl8 l j) else l_tbl8 l j\<rparr>"

lemma range_upd_simps [simp]:
  "l_tbl24 (range_upd a b F G l) = (\<lambda>x. if a \<le> unat x \<and> unat x < b \<and> \<not> ext (l_tbl24 l x) then F (l_tbl24 l x) else l_tbl24 l x)"
  "l_tbl8 (range_upd a b F G l) =
     (\<lambda>j. if \<exists>x. a \<le> unat x \<and> unat x < b \<and> ext (l_tbl24 l x) \<and> unat j div 256 = unat (t24_next_hop (l_tbl24 l x)) then G (l_tbl8 l j) else l_tbl8 l j)"
  by (simp_all add: range_upd_def)

lemma same_rules_upd [simp]:
  "same_rules l (range_upd a b F G l') = same_rules l l'" "same_rules l (upd8 a b G l') = same_rules l l'"
  "same_rules l (set8 i f l') = same_rules l l'" "same_rules l (set24 i e l') = same_rules l l'" "same_rules l l"
  by (simp_all add: same_rules_def range_upd_def upd8_def set8_def set24_def)

lemma in_group: "256 * g \<le> n \<and> n < 256 * g + 256 \<longleftrightarrow> n div 256 = (g :: nat)"
  by (auto simp: div_nat_eqI)

lemma group_unique:
  assumes "tabs_ok l" and "unat x < 2 ^ 24" and "unat y < 2 ^ 24" and "ext (l_tbl24 l x)" and "ext (l_tbl24 l y)"
    and "unat (t24_next_hop (l_tbl24 l x)) = unat (t24_next_hop (l_tbl24 l y))"
  shows "x = y"
  using tabs_okD(2) [OF assms(1-5)] assms(6) by (simp add: word_unat_eq_iff)

lemma range_step:
  assumes ok: "tabs_ok l" and a: "a \<le> unat x" "unat x < 2 ^ 24" and l': "l' = range_upd a (unat x) F G l"
  shows "(if ext (l_tbl24 l x) then upd8 (256 * unat (t24_next_hop (l_tbl24 l x))) (256 * unat (t24_next_hop (l_tbl24 l x)) + 256) G l'
     else set24 x (F (l_tbl24 l x)) l') = range_upd a (Suc (unat x)) F G l"
proof -
  have s: "unat y < Suc (unat x) \<longleftrightarrow> unat y < unat x \<or> y = x" for y :: u32 by (auto simp: less_Suc_eq word_unat_eq_iff)
  show ?thesis
  proof (cases "ext (l_tbl24 l x)")
    case True
    let ?g = "unat (t24_next_hop (l_tbl24 l x))"
    have t24: "l_tbl24 (range_upd a (unat x) F G l) = l_tbl24 (range_upd a (Suc (unat x)) F G l)" using True s by (auto simp: fun_eq_iff)
    have t8: "(\<lambda>j. if unat j div 256 = ?g then G (l_tbl8 (range_upd a (unat x) F G l) j) else l_tbl8 (range_upd a (unat x) F G l) j) =
        l_tbl8 (range_upd a (Suc (unat x)) F G l)"
    proof (rule HOL.ext)
      fix j :: u32
      show "(if unat j div 256 = ?g then G (l_tbl8 (range_upd a (unat x) F G l) j) else l_tbl8 (range_upd a (unat x) F G l) j) = l_tbl8 (range_upd a (Suc (unat x)) F G l) j"
      proof (cases "unat j div 256 = ?g")
        case j: True
        have "\<not> (\<exists>y. a \<le> unat y \<and> unat y < unat x \<and> ext (l_tbl24 l y) \<and> unat j div 256 = unat (t24_next_hop (l_tbl24 l y)))"
        proof (rule notI, elim exE conjE)
          fix y
          assume y: "unat y < unat x" "ext (l_tbl24 l y)" "unat j div 256 = unat (t24_next_hop (l_tbl24 l y))"
          have "y = x" by (rule group_unique [OF ok _ a(2) y(2) True]) (use y j a(2) in simp_all)
          then show False using y(1) by simp
        qed
        moreover have "\<exists>y. a \<le> unat y \<and> unat y < Suc (unat x) \<and> ext (l_tbl24 l y) \<and> unat j div 256 = unat (t24_next_hop (l_tbl24 l y))"
          using True j a(1) by auto
        ultimately show ?thesis using j unfolding range_upd_simps by (simp only: if_True if_False refl)
      next
        case False
        then show ?thesis using s by auto
      qed
    qed
    show ?thesis using True t24 t8 unfolding l' by (simp add: upd8_def in_group) (simp add: range_upd_def)
  next
    case False
    have "(\<exists>y. a \<le> unat y \<and> unat y < Suc (unat x) \<and> ext (l_tbl24 l y) \<and> j = unat (t24_next_hop (l_tbl24 l y))) \<longleftrightarrow>
        (\<exists>y. a \<le> unat y \<and> unat y < unat x \<and> ext (l_tbl24 l y) \<and> j = unat (t24_next_hop (l_tbl24 l y)))" for j using s False by auto
    moreover have "(l_tbl24 l')(x := F (l_tbl24 l x)) = l_tbl24 (range_upd a (Suc (unat x)) F G l)" using False s a unfolding l' by (auto simp: fun_eq_iff)
    ultimately show ?thesis using False unfolding l' by (simp add: set24_def) (simp add: range_upd_def)
  qed
qed

lemma range_loop:
  assumes ok: "tabs_ok l" and s: "unat s + unat n \<le> 2 ^ 24"
    and body: "\<And>x l'. unat s \<le> unat x \<Longrightarrow> unat x < unat s + unat n \<Longrightarrow> l_tbl24 l' x = l_tbl24 l x \<Longrightarrow> same_rules l l' \<Longrightarrow>
      body x l' = (if ext (l_tbl24 l x) then upd8 (256 * unat (t24_next_hop (l_tbl24 l x))) (256 * unat (t24_next_hop (l_tbl24 l x)) + 256) G l' else set24 x (F (l_tbl24 l x)) l')"
  shows "for_n n (\<lambda>k. body (s + k)) l = range_upd (unat s) (unat s + unat n) F G l"
proof (rule for_n_inv [where P = "\<lambda>k l'. l' = range_upd (unat s) (unat s + k) F G l"])
  have "l_tbl24 l = (\<lambda>x. if unat s \<le> unat x \<and> unat x < unat s + 0 \<and> \<not> ext (l_tbl24 l x) then F (l_tbl24 l x) else l_tbl24 l x)" by (rule HOL.ext) auto
  moreover have "l_tbl8 l = (\<lambda>j. if \<exists>x. unat s \<le> unat x \<and> unat x < unat s + 0 \<and> ext (l_tbl24 l x) \<and> unat j div 256 = unat (t24_next_hop (l_tbl24 l x))
      then G (l_tbl8 l j) else l_tbl8 l j)" by (rule HOL.ext) auto
  ultimately show "l = range_upd (unat s) (unat s + 0) F G l" unfolding range_upd_def by (metis rte_lpm.surjective rte_lpm.update_convs(4,5))
next
  fix k l'
  assume k: "k < unat n" and l': "l' = range_upd (unat s) (unat s + k) F G l"
  let ?x = "s + of_nat k"
  have u: "unat ?x = unat s + k" using k s by (subst unat_add_less) (simp_all add: unat_of_nat_less)
  have "l_tbl24 l' ?x = l_tbl24 l ?x" unfolding l' using u by simp
  then have "body ?x l' = (if ext (l_tbl24 l ?x) then upd8 (256 * unat (t24_next_hop (l_tbl24 l ?x))) (256 * unat (t24_next_hop (l_tbl24 l ?x)) + 256) G l'
      else set24 ?x (F (l_tbl24 l ?x)) l')" using u k by (intro body) (simp_all add: l')
  also have "\<dots> = range_upd (unat s) (Suc (unat ?x)) F G l" using u k s l' by (intro range_step [OF ok]) simp_all
  finally show "body ?x l' = range_upd (unat s) (unat s + Suc k) F G l" using u by simp
qed

lemma range_look:
  assumes ok: "tabs_ok l" and b: "b \<le> 2 ^ 24" and F: "\<And>e. \<not> ext (F e)"
  shows "look (range_upd a b F G l) ip =
    (let e = l_tbl24 l (i24 ip) in
     if a \<le> unat (i24 ip) \<and> unat (i24 ip) < b then if ext e then ent8 (G (l_tbl8 l (at8 e ip))) else ent24 (F e) else look l ip)"
proof -
  let ?x = "i24 ip"
  have "(\<exists>y. a \<le> unat y \<and> unat y < b \<and> ext (l_tbl24 l y) \<and> unat (at8 (l_tbl24 l ?x) ip) div 256 = unat (t24_next_hop (l_tbl24 l y))) \<longleftrightarrow> a \<le> unat ?x \<and> unat ?x < b"
    if "ext (l_tbl24 l ?x)"
    using group_unique [OF ok _ i24_less _ that] b that unfolding at8_group by (metis less_le_trans)
  then show ?thesis using F by (auto simp: look_def Let_def)
qed
lemma range_tabs:
  assumes ok: "tabs_ok l" and F: "\<And>e. \<not> ext (F e)" "\<And>e. t24_valid (F e) \<Longrightarrow> unat (t24_depth (F e)) \<le> 24"
    and G: "\<And>f. t8_valid_group f \<Longrightarrow> t8_valid_group (G f)"
  shows "tabs_ok (range_upd a b F G l)"
  unfolding tabs_ok_def
proof (intro conjI allI impI)
  let ?l = "range_upd a b F G l"
  fix i :: u32
  assume i: "unat i < 2 ^ 24"
  have e: "ext (l_tbl24 ?l i) \<Longrightarrow> ext (l_tbl24 l i) \<and> l_tbl24 ?l i = l_tbl24 l i" for i using F(1) by (auto split: if_splits)
  show "t8_valid_group (l_tbl8 ?l (group_start (l_tbl24 ?l i)))" if "ext (l_tbl24 ?l i)"
    using e [OF that] tabs_okD(1) [OF ok i] G by auto
  show "i = j" if "unat j < 2 ^ 24" "ext (l_tbl24 ?l i)" "ext (l_tbl24 ?l j)" "t24_next_hop (l_tbl24 ?l i) = t24_next_hop (l_tbl24 ?l j)" for j
    using e [OF that(2)] e [OF that(3)] that(1,4) tabs_okD(2) [OF ok i] by metis
  show "unat (t24_depth (l_tbl24 ?l i)) \<le> 24" if "t24_valid (l_tbl24 ?l i)" "\<not> t24_ext_entry (l_tbl24 ?l i)"
    using that F(2) tabs_okD(3) [OF ok i] by (auto simp: ext_def split: if_splits)
qed

section \<open>Adding a short prefix\<close>

text \<open>No entry of the range without a group holds a longer prefix.\<close>

definition no_longer :: "rte_lpm \<Rightarrow> u32 \<Rightarrow> nat \<Rightarrow> bool" where
  "no_longer l p d \<longleftrightarrow> (\<forall>x. unat (i24 p) \<le> unat x \<longrightarrow> unat x < unat (i24 p) + 2 ^ (24 - d) \<longrightarrow>
     t24_valid (l_tbl24 l x) \<longrightarrow> \<not> t24_ext_entry (l_tbl24 l x) \<longrightarrow> unat (t24_depth (l_tbl24 l x)) \<le> d)"

lemma depth6: "unat depth \<le> 32 \<Longrightarrow> unat (ucast (depth :: u8) :: 6 word) = unat depth"
  by (simp add: unsigned_ucast_eq unsigned_take_bit_eq take_bit_nat_eq_self)

lemma depth6_le: "(ucast (x :: 6 word) :: u8) \<le> depth \<longleftrightarrow> unat x \<le> unat depth"
proof -
  have "unat x < 64" using unsigned_less [of x, where 'a = nat] by simp
  then have "unat (ucast x :: u8) = unat x" by (simp add: unsigned_ucast_eq take_bit_nat_eq_self)
  then show ?thesis by (simp add: word_le_nat_alt)
qed

lemma range_end:
  assumes "d \<le> 24" and "pref d p = p"
  shows "unat (i24 p) + 2 ^ (24 - d) \<le> 2 ^ 24"
proof -
  have "(2 :: nat) ^ (32 - d) = 256 * 2 ^ (24 - d)" using assms(1) power_add [of "2 :: nat" 8 "24 - d"] by simp
  moreover have "2 ^ (32 - d) dvd unat p" using pref_fixed assms by simp
  ultimately have "2 ^ (24 - d) dvd unat (i24 p)" unfolding unat_i24 by (auto simp: dvd_def)
  moreover have "(2 :: nat) ^ (24 - d) dvd 2 ^ 24" by (rule le_imp_power_dvd) simp
  ultimately obtain q r where q: "unat (i24 p) = 2 ^ (24 - d) * q" "(2 :: nat) ^ 24 = 2 ^ (24 - d) * r" by (auto elim!: dvdE)
  have "2 ^ (24 - d) * q < 2 ^ (24 - d) * r" using i24_less [of p] unfolding q .
  then have "q < r" by simp
  then have "2 ^ (24 - d) * (q + 1) \<le> 2 ^ (24 - d) * r" by (intro mult_le_mono2) simp
  then show ?thesis using q by simp
qed

text \<open>The condition of the code on an entry of \<open>tbl8\<close> and the entry it writes.\<close>

lemma put_entry: "(if C then set8 j f l else l) = set8 j (if C then f else l_tbl8 l j) l"
  by (simp add: set8_def)

lemma add_depth_small_ok:
  assumes ok: "tabs_ok l" and d: "1 \<le> unat depth" "unat depth \<le> 24" and p: "pref (unat depth) p = p" and clean: "no_longer l p (unat depth)"
    and l'_def: "l' = snd (add_depth_small l p depth nh)"
  shows "tabs_ok l'" "same_rules l l'"
    "look l' ip = (if pref (unat depth) ip = p \<and> wins (unat depth) (look l ip) then Some (unat depth, nh) else look l ip)"
proof -
  let ?d = "unat depth" and ?s = "unat (i24 p)"
  let ?E = "\<lparr>t24_next_hop = nh, t24_valid = True, t24_ext_entry = False, t24_depth = ucast depth\<rparr>"
  let ?f = "\<lparr>t8_next_hop = nh, t8_valid = True, t8_valid_group = True, t8_depth = ucast depth\<rparr>"
  let ?G = "\<lambda>f. if \<not> t8_valid f \<or> ucast (t8_depth f) \<le> depth then ?f else f"
  have n: "unat (depth_to_range depth) = 2 ^ (24 - ?d)" by (rule unat_range(1) [OF d])
  have s: "?s + unat (depth_to_range depth) \<le> 2 ^ 24" unfolding n by (rule range_end [OF d(2) p])
  have l': "l' = range_upd ?s (?s + 2 ^ (24 - ?d)) (\<lambda>_. ?E) ?G l"
  proof -
    have "for_n (depth_to_range depth) (\<lambda>k. add_small_entry depth nh (i24 p + k)) l = range_upd ?s (?s + unat (depth_to_range depth)) (\<lambda>_. ?E) ?G l"
    proof (rule range_loop [OF ok s])
      fix x and l1 :: rte_lpm
      assume x: "?s \<le> unat x" "unat x < ?s + unat (depth_to_range depth)" and e: "l_tbl24 l1 x = l_tbl24 l x"
      let ?e = "l_tbl24 l x"
      have c: "\<not> ext ?e \<longleftrightarrow> \<not> t24_valid ?e \<or> \<not> t24_ext_entry ?e \<and> ucast (t24_depth ?e) \<le> depth"
        using clean x unfolding n by (auto simp: no_longer_def ext_def depth6_le)
      have "unat (group_start ?e) + unat RTE_LPM_TBL8_GROUP_NUM_ENTRIES < 2 ^ 32"
        using u8_less [of "t24_next_hop ?e"] by (simp add: unat_group_start RTE_LPM_TBL8_GROUP_NUM_ENTRIES_def)
      then have "for_n RTE_LPM_TBL8_GROUP_NUM_ENTRIES (\<lambda>k l. let j = group_start ?e + k in
          if \<not> t8_valid (l_tbl8 l j) \<or> ucast (t8_depth (l_tbl8 l j)) \<le> depth then set8 j ?f l else l) l1 =
          upd8 (unat (group_start ?e)) (unat (group_start ?e) + unat RTE_LPM_TBL8_GROUP_NUM_ENTRIES) ?G l1"
        by (rule for_n_upd8) (simp only: Let_def put_entry)
      then show "add_small_entry depth nh x l1 = (if ext ?e then upd8 (256 * unat (t24_next_hop ?e)) (256 * unat (t24_next_hop ?e) + 256) ?G l1 else set24 x ?E l1)"
        using c e by (auto simp: add_small_entry_def Let_def unat_group_start RTE_LPM_TBL8_GROUP_NUM_ENTRIES_def)
    qed
    then show ?thesis unfolding n by (simp add: l'_def add_depth_small_def i24_def)
  qed
  have d6: "unat (ucast depth :: 6 word) = ?d" using d by (intro depth6) simp
  show "tabs_ok l'" unfolding l' using d d6 by (intro range_tabs [OF ok]) (auto simp: ext_def)
  show "same_rules l l'" unfolding l' by simp
  have "look l' ip = (let e = l_tbl24 l (i24 ip) in if ?s \<le> unat (i24 ip) \<and> unat (i24 ip) < ?s + 2 ^ (24 - ?d)
      then if ext e then ent8 (?G (l_tbl8 l (at8 e ip))) else ent24 ?E else look l ip)"
    unfolding l' using s unfolding n by (intro range_look [OF ok]) (simp_all add: ext_def)
  moreover have "ent8 (?G f) = (if wins ?d (ent8 f) then Some (?d, nh) else ent8 f)" for f by (simp add: ent8_def wins_def depth6_le d6)
  moreover have "wins ?d (ent24 (l_tbl24 l (i24 ip)))" if "?s \<le> unat (i24 ip)" "unat (i24 ip) < ?s + 2 ^ (24 - ?d)" "\<not> ext (l_tbl24 l (i24 ip))"
    using clean that by (auto simp: no_longer_def ext_def wins_def ent24_def)
  ultimately show "look l' ip = (if pref ?d ip = p \<and> wins ?d (look l ip) then Some (?d, nh) else look l ip)"
    unfolding pref_small [OF d(2) p] by (auto simp: look_def Let_def ent24_def d6)
qed

section \<open>Allocating a group\<close>

text \<open>A group that was free, and the rest of the tables as they were.\<close>

definition new_group :: "rte_lpm \<Rightarrow> nat \<Rightarrow> rte_lpm \<Rightarrow> bool" where
  "new_group l g l1 \<longleftrightarrow> g < 256 \<and> \<not> t8_valid_group (l_tbl8 l (of_nat (256 * g))) \<and> l_tbl24 l1 = l_tbl24 l \<and> same_rules l l1 \<and>
     (\<forall>j. unat j div 256 \<noteq> g \<longrightarrow> l_tbl8 l1 j = l_tbl8 l j) \<and> t8_valid_group (l_tbl8 l1 (of_nat (256 * g)))"

lemma unat_group: "g < 256 \<Longrightarrow> unat (of_nat (256 * g) :: u32) = 256 * g" "of_nat g * RTE_LPM_TBL8_GROUP_NUM_ENTRIES = of_nat (256 * g)"
  by (subst unat_of_nat_less) (simp_all add: RTE_LPM_TBL8_GROUP_NUM_ENTRIES_def)

lemma group_start_nat: "group_start e = of_nat (256 * unat (t24_next_hop e))"
  unfolding unat_group_start [symmetric] by simp

definition free_group :: "rte_lpm \<Rightarrow> bool" where "free_group l \<longleftrightarrow> (\<exists>g<256. \<not> t8_valid_group (l_tbl8 l (of_nat (256 * g))))"

lemma new_group_free: "new_group l g l1 \<Longrightarrow> free_group l"
  by (auto simp: new_group_def free_group_def)

lemma tbl8_alloc_ok:
  "tbl8_alloc l = (- ENOSPC, l) \<and> \<not> free_group l \<or> (\<exists>g l1. tbl8_alloc l = (int g, l1) \<and> new_group l g l1 \<and> (\<forall>j. unat j div 256 = g \<longrightarrow> \<not> t8_valid (l_tbl8 l1 j)))"
proof (cases "find (\<lambda>g. \<not> t8_valid_group (l_tbl8 l (of_nat g * RTE_LPM_TBL8_GROUP_NUM_ENTRIES))) [0..<RTE_LPM_TBL8_NUM_GROUPS]")
  case None
  then have "tbl8_alloc l = (- ENOSPC, l)" by (simp add: tbl8_alloc_def)
  moreover have "\<not> free_group l" using None unfolding find_None_iff unat_group(2) by (auto simp: RTE_LPM_TBL8_NUM_GROUPS_def free_group_def)
  ultimately show ?thesis by blast
next
  case (Some g)
  then have g: "g < 256" "\<not> t8_valid_group (l_tbl8 l (of_nat (256 * g)))"
    unfolding find_Some_iff unat_group(2) by (auto simp: RTE_LPM_TBL8_NUM_GROUPS_def)
  let ?z = "\<lparr>t8_next_hop = 0, t8_valid = False, t8_valid_group = False, t8_depth = 0\<rparr>" and ?s = "of_nat (256 * g) :: u32"
  define l0 where "l0 = upd8 (256 * g) (256 * g + 256) (\<lambda>_. ?z) l"
  define l1 where "l1 = set8 ?s ((l_tbl8 l0 ?s)\<lparr>t8_valid_group := True\<rparr>) l0"
  have "for_n RTE_LPM_TBL8_GROUP_NUM_ENTRIES (\<lambda>k. set8 (?s + k) ?z) l = l0"
    using for_n_upd8 [of ?s RTE_LPM_TBL8_GROUP_NUM_ENTRIES l "\<lambda>k. set8 (?s + k) ?z" "\<lambda>_. ?z"] g(1) unat_group(1) [OF g(1)]
    unfolding l0_def by (simp add: RTE_LPM_TBL8_GROUP_NUM_ENTRIES_def)
  then have a: "tbl8_alloc l = (int g, l1)" using Some unfolding tbl8_alloc_def l1_def unat_group(2) by (simp add: Let_def)
  have "new_group l g l1" using g unat_group(1) [OF g(1)] unfolding new_group_def l1_def l0_def by (auto simp: in_group)
  moreover have "\<forall>j. unat j div 256 = g \<longrightarrow> \<not> t8_valid (l_tbl8 l1 j)" unfolding l1_def l0_def by (simp add: in_group)
  ultimately show ?thesis using a by blast
qed

lemma new_group_upd8:
  assumes n: "new_group l g l1" and ab: "256 * g \<le> a" "b \<le> 256 * g + 256" and G: "\<And>f. t8_valid_group (G f) = t8_valid_group f"
  shows "new_group l g (upd8 a b G l1)"
proof -
  have "\<not> (a \<le> unat j \<and> unat j < b)" if "unat j div 256 \<noteq> g" for j :: u32 using that ab in_group [of g "unat j"] by linarith
  then show ?thesis using n G unfolding new_group_def by auto
qed

text \<open>An entry of \<open>tbl24\<close> that had no group gets a new one.\<close>

lemma install_group:
  assumes ok: "tabs_ok l" and n: "new_group l g l1" and x: "unat x < 2 ^ 24" "\<not> ext (l_tbl24 l x)"
    and l'_def: "l' = set24 x \<lparr>t24_next_hop = of_nat g, t24_valid = True, t24_ext_entry = True, t24_depth = 0\<rparr> l1"
  shows "tabs_ok l'" "same_rules l l'" "look l' ip = (if i24 ip = x then ent8 (l_tbl8 l1 (of_nat (256 * g + low8 ip))) else look l ip)"
proof -
  let ?e = "\<lparr>t24_next_hop = of_nat g, t24_valid = True, t24_ext_entry = True, t24_depth = 0\<rparr> :: rte_lpm_tbl24_entry"
  have g: "g < 256" "unat (of_nat g :: u8) = g" using n by (auto simp: new_group_def unat_of_nat)
  have gs: "group_start ?e = of_nat (256 * g)" using g(2) unfolding group_start_nat by simp
  have fresh: "unat (t24_next_hop (l_tbl24 l i)) \<noteq> g" if "unat i < 2 ^ 24" "ext (l_tbl24 l i)" for i
  proof
    assume h: "unat (t24_next_hop (l_tbl24 l i)) = g"
    then have "group_start (l_tbl24 l i) = of_nat (256 * g)" unfolding group_start_nat by simp
    then show False using tabs_okD(1) [OF ok that] n by (simp add: new_group_def)
  qed
  have other: "l_tbl8 l1 j = l_tbl8 l j" if "unat j div 256 = unat (t24_next_hop (l_tbl24 l i))" "unat i < 2 ^ 24" "ext (l_tbl24 l i)" for i j
    using n fresh [OF that(2,3)] that(1) by (simp add: new_group_def)
  have t: "l_tbl24 l' i = (if i = x then ?e else l_tbl24 l i)" "l_tbl8 l' = l_tbl8 l1" for i using n by (simp_all add: l'_def new_group_def)
  show "tabs_ok l'"
    unfolding tabs_ok_def t
  proof (intro conjI allI impI)
    fix i :: u32
    assume i: "unat i < 2 ^ 24"
    show "t8_valid_group (l_tbl8 l1 (group_start (if i = x then ?e else l_tbl24 l i)))" if "ext (if i = x then ?e else l_tbl24 l i)"
      using that n gs other [of "group_start (l_tbl24 l i)" i] i tabs_okD(1) [OF ok i] by (auto simp: new_group_def unat_group_start)
    show "i = j" if "unat j < 2 ^ 24" "ext (if i = x then ?e else l_tbl24 l i)" "ext (if j = x then ?e else l_tbl24 l j)"
      "t24_next_hop (if i = x then ?e else l_tbl24 l i) = t24_next_hop (if j = x then ?e else l_tbl24 l j)" for j
      using that fresh [of i] fresh [of j] g(2) i tabs_okD(2) [OF ok i that(1)] by (auto split: if_splits)
    show "unat (t24_depth (if i = x then ?e else l_tbl24 l i)) \<le> 24"
      if "t24_valid (if i = x then ?e else l_tbl24 l i)" "\<not> t24_ext_entry (if i = x then ?e else l_tbl24 l i)"
      using that tabs_okD(3) [OF ok i] by (auto simp: ext_def)
  qed
  show "same_rules l l'" using n by (simp add: l'_def new_group_def)
  have "at8 ?e ip = of_nat (256 * g + low8 ip)"
  proof -
    have "256 * g + low8 ip < 4294967296" using g(1) low8_less [of ip] by linarith
    then show ?thesis using g(2) unat_at8 [of ?e ip] by (simp only: word_unat_eq_iff) (subst unat_of_nat_less, simp_all)
  qed
  then show "look l' ip = (if i24 ip = x then ent8 (l_tbl8 l1 (of_nat (256 * g + low8 ip))) else look l ip)"
    using other [of "at8 (l_tbl24 l (i24 ip)) ip" "i24 ip"] at8_group i24_less by (auto simp: look_def Let_def t ext_def [of ?e])
qed

end
