(* ===== verification/Lpm_Add.thy ===== *)
theory Lpm_Add
  imports Lpm_Tables
begin

text \<open>
  The operations of the longest prefix match keep the tables in step with the rules.
\<close>

section \<open>Adding a long prefix\<close>

lemma unat_in_group: "g < 256 \<Longrightarrow> k < 256 \<Longrightarrow> unat (of_nat (256 * g + k) :: u32) = 256 * g + k"
  by (rule unat_of_nat_less) simp

lemma upd8_at:
  assumes "g < 256"
  shows "l_tbl8 (upd8 (256 * g + a) (256 * g + b) G l) (of_nat (256 * g + low8 ip)) =
    (if a \<le> low8 ip \<and> low8 ip < b then G (l_tbl8 l (of_nat (256 * g + low8 ip))) else l_tbl8 l (of_nat (256 * g + low8 ip)))"
  unfolding upd8_simps unat_in_group [OF assms low8_less] by simp

lemma at8_nat: "at8 e ip = of_nat (256 * unat (t24_next_hop e) + low8 ip)"
  unfolding unat_at8 [symmetric] by simp

lemma long_loop:
  assumes d: "24 < unat depth" "unat depth \<le> 32" and p: "pref (unat depth) p = p" and g: "g < 256" and b: "b = 256 * g + (low8 p + 2 ^ (32 - unat depth))"
    and body: "\<And>k l'. l_tbl24 l' = l_tbl24 l \<Longrightarrow> body k l' = set8 (of_nat (256 * g) + (p AND 0xFF) + k) (G (l_tbl8 l' (of_nat (256 * g) + (p AND 0xFF) + k))) l'"
  shows "for_n (depth_to_range depth) body l = upd8 (256 * g + low8 p) b G l"
proof -
  have "of_nat (256 * g) + (p AND 0xFF :: u32) = of_nat (256 * g + low8 p)" by (simp add: unat_and_ff [symmetric])
  then have u: "unat (of_nat (256 * g) + (p AND 0xFF :: u32)) = 256 * g + low8 p" using unat_in_group [OF g low8_less] by simp
  have n: "unat (depth_to_range depth) = 2 ^ (32 - unat depth)" by (rule unat_range(2) [OF d])
  have le: "low8 p + 2 ^ (32 - unat depth) \<le> 256" using pref_big(2) [OF _ d(2) p] d(1) by simp
  have "256 * g + 256 < 4294967296" using g by simp
  then have "unat (of_nat (256 * g) + (p AND 0xFF :: u32)) + unat (depth_to_range depth) < 2 ^ 32" unfolding u n using le by simp
  from for_n_upd8 [OF this body] show ?thesis unfolding u n b by (simp add: add.assoc)
qed

lemma add_big_invalid:
  assumes ok: "tabs_ok l" and d: "24 < unat depth" "unat depth \<le> 32" and p: "pref (unat depth) p = p" and v: "\<not> t24_valid (l_tbl24 l (i24 p))"
    and a: "tbl8_alloc l = (int g, l1)" "new_group l g l1" "\<forall>j. unat j div 256 = g \<longrightarrow> \<not> t8_valid (l_tbl8 l1 j)"
  shows "\<exists>l'. add_depth_big l p depth nh = (0, l') \<and> tabs_ok l' \<and> same_rules l l' \<and>
    (\<forall>ip. look l' ip = (if pref (unat depth) ip = p then Some (unat depth, nh) else look l ip)) \<and>
    l_tbl24 l' = (l_tbl24 l)(i24 p := \<lparr>t24_next_hop = of_nat g, t24_valid = True, t24_ext_entry = True, t24_depth = 0\<rparr>)"
proof -
  let ?d = "unat depth" and ?G = "\<lambda>f. f\<lparr>t8_depth := ucast depth, t8_next_hop := nh, t8_valid := True\<rparr>"
  have g: "g < 256" using a(2) by (simp add: new_group_def)
  have d': "24 \<le> ?d" using d by simp
  have d6: "unat (ucast depth :: 6 word) = ?d" by (rule depth6 [OF d(2)])
  define l2 where "l2 = upd8 (256 * g + low8 p) (256 * g + (low8 p + 2 ^ (32 - ?d))) ?G l1"
  define l' where "l' = set24 (i24 p) \<lparr>t24_next_hop = of_nat g, t24_valid = True, t24_ext_entry = True, t24_depth = 0\<rparr> l2"
  have n: "new_group l g l2" unfolding l2_def using pref_big(2) [OF d' d(2) p] by (intro new_group_upd8 [OF a(2)]) simp_all
  have "add_depth_big l p depth nh = (0, l')"
    using v a(1) unfolding add_depth_big_def l'_def l2_def i24_def
    by (simp add: Let_def unat_group(2) long_loop [OF d p g refl, where G = ?G, of l1])
  moreover have "\<not> ext (l_tbl24 l (i24 p))" using v by (simp add: ext_def)
  note i = install_group [OF ok n i24_less this l'_def]
  moreover have "look l' ip = (if pref ?d ip = p then Some (?d, nh) else look l ip)" for ip
  proof -
    have "\<not> t8_valid (l_tbl8 l1 (of_nat (256 * g + low8 ip)))" using a(3) unat_in_group [OF g low8_less, of ip] by simp
    then show ?thesis unfolding i(3) pref_big(1) [OF d' d(2) p] l2_def upd8_at [OF g] using v by (auto simp: ent8_def d6 look_def Let_def ent24_def ext_def)
  qed
  moreover have "l_tbl24 l' = (l_tbl24 l)(i24 p := \<lparr>t24_next_hop = of_nat g, t24_valid = True, t24_ext_entry = True, t24_depth = 0\<rparr>)"
    using n by (simp add: l'_def new_group_def)
  ultimately show ?thesis by blast
qed

text \<open>What \<open>put_longer\<close> writes.\<close>

definition longer :: "u8 \<Rightarrow> u8 \<Rightarrow> rte_lpm_tbl8_entry \<Rightarrow> rte_lpm_tbl8_entry" where
  "longer depth nh f = (if \<not> t8_valid f \<or> ucast (t8_depth f) \<le> depth then f\<lparr>t8_valid := True, t8_depth := ucast depth, t8_next_hop := nh\<rparr> else f)"

lemma put_longer_eq: "put_longer depth nh i l = set8 i (longer depth nh (l_tbl8 l i)) l"
  by (simp add: put_longer_def longer_def Let_def put_entry)

lemma longer_group [simp]: "t8_valid_group (longer depth nh f) = t8_valid_group f"
  by (simp add: longer_def)

lemma ent8_longer: "unat depth \<le> 32 \<Longrightarrow> ent8 (longer depth nh f) = (if wins (unat depth) (ent8 f) then Some (unat depth, nh) else ent8 f)"
  by (simp add: longer_def ent8_def wins_def depth6 depth6_le)

lemma add_big_extend:
  assumes ok: "tabs_ok l" and d: "24 < unat depth" "unat depth \<le> 32" and p: "pref (unat depth) p = p"
    and v: "t24_valid (l_tbl24 l (i24 p))" "\<not> t24_ext_entry (l_tbl24 l (i24 p))"
    and a: "tbl8_alloc l = (int g, l1)" "new_group l g l1"
  shows "\<exists>l'. add_depth_big l p depth nh = (0, l') \<and> tabs_ok l' \<and> same_rules l l' \<and>
    (\<forall>ip. look l' ip = (if pref (unat depth) ip = p \<and> wins (unat depth) (look l ip) then Some (unat depth, nh) else look l ip))"
proof -
  let ?d = "unat depth" and ?e = "l_tbl24 l (i24 p)"
  let ?C = "\<lambda>f. f\<lparr>t8_valid := True, t8_depth := t24_depth ?e, t8_next_hop := t24_next_hop ?e\<rparr>"
  have g: "g < 256" and t: "l_tbl24 l1 = l_tbl24 l" using a(2) by (simp_all add: new_group_def)
  have d': "24 \<le> ?d" using d by simp
  define l0 where "l0 = upd8 (256 * g + 0) (256 * g + 256) ?C l1"
  define l2 where "l2 = upd8 (256 * g + low8 p) (256 * g + (low8 p + 2 ^ (32 - ?d))) (longer depth nh) l0"
  define l' where "l' = set24 (i24 p) \<lparr>t24_next_hop = of_nat g, t24_valid = True, t24_ext_entry = True, t24_depth = 0\<rparr> l2"
  have "new_group l g l0" unfolding l0_def by (intro new_group_upd8 [OF a(2)]) simp_all
  then have n: "new_group l g l2" unfolding l2_def using pref_big(2) [OF d' d(2) p] by (intro new_group_upd8) simp_all
  have copy: "for_n RTE_LPM_TBL8_GROUP_NUM_ENTRIES (\<lambda>k l. set8 (of_nat (256 * g) + k)
      ((l_tbl8 l (of_nat (256 * g) + k))\<lparr>t8_valid := True, t8_depth := t24_depth (l_tbl24 l (i24 p)), t8_next_hop := t24_next_hop (l_tbl24 l (i24 p))\<rparr>) l) l1 = l0"
  proof -
    have "unat (of_nat (256 * g) :: u32) + unat RTE_LPM_TBL8_GROUP_NUM_ENTRIES < 2 ^ 32" unfolding unat_group(1) [OF g] using g by (simp add: RTE_LPM_TBL8_GROUP_NUM_ENTRIES_def)
    from for_n_upd8 [OF this, of l1 _ ?C] show ?thesis unfolding l0_def unat_group(1) [OF g] by (simp add: t RTE_LPM_TBL8_GROUP_NUM_ENTRIES_def)
  qed
  have "for_n (depth_to_range depth) (\<lambda>k. put_longer depth nh (of_nat (256 * g) + (p AND 0xFF) + k)) l0 = l2"
    unfolding l2_def by (rule long_loop [OF d p g refl]) (simp add: put_longer_eq)
  then have "add_depth_big l p depth nh = (0, l')"
    using v a(1) copy unfolding add_depth_big_def l'_def i24_def by (simp add: Let_def unat_group(2))
  moreover have ne: "\<not> ext ?e" using v by (simp add: ext_def)
  note i = install_group [OF ok n i24_less this l'_def]
  moreover have "look l' ip = (if pref ?d ip = p \<and> wins ?d (look l ip) then Some (?d, nh) else look l ip)" for ip
  proof -
    have "ent8 (l_tbl8 l0 (of_nat (256 * g + low8 ip))) = ent24 ?e" unfolding l0_def upd8_at [OF g] using v by (simp add: ent8_def ent24_def)
    moreover have "look l ip = ent24 ?e" if "i24 ip = i24 p" using that ne by (simp add: look_def)
    ultimately show ?thesis unfolding i(3) pref_big(1) [OF d' d(2) p] l2_def upd8_at [OF g] by (auto simp: ent8_longer [OF d(2)])
  qed
  ultimately show ?thesis by blast
qed

lemma tabs_upd8:
  assumes "tabs_ok l" and "\<And>f. t8_valid_group f \<Longrightarrow> t8_valid_group (G f)"
  shows "tabs_ok (upd8 a b G l)"
  using assms unfolding tabs_ok_def by auto

text \<open>Part of the group of an entry changes.\<close>

lemma look_upd8:
  assumes ok: "tabs_ok l" and e: "e = l_tbl24 l (i24 p)" "ext e" and b: "b \<le> 256"
  shows "look (upd8 (256 * unat (t24_next_hop e) + a) (256 * unat (t24_next_hop e) + b) G l) ip =
    (if i24 ip = i24 p \<and> a \<le> low8 ip \<and> low8 ip < b then ent8 (G (l_tbl8 l (at8 e ip))) else look l ip)"
proof (cases "i24 ip = i24 p")
  case True
  then show ?thesis using e upd8_at [OF u8_less, of "t24_next_hop e" a b G l ip] unfolding look_def Let_def upd8_simps(1) by (simp add: at8_nat)
next
  case False
  let ?e = "l_tbl24 l (i24 ip)" and ?g = "unat (t24_next_hop e)"
  have "\<not> (256 * ?g + a \<le> unat (at8 ?e ip) \<and> unat (at8 ?e ip) < 256 * ?g + b)" if "ext ?e"
  proof
    assume "256 * ?g + a \<le> unat (at8 ?e ip) \<and> unat (at8 ?e ip) < 256 * ?g + b"
    then have "unat (at8 ?e ip) div 256 = ?g" using b in_group [of ?g "unat (at8 ?e ip)"] by linarith
    then have "i24 ip = i24 p" using group_unique [OF ok i24_less i24_less that] e unfolding at8_group by simp
    then show False using False by simp
  qed
  then show ?thesis using False by (auto simp: look_def Let_def)
qed

lemma add_big_ext:
  assumes ok: "tabs_ok l" and d: "24 < unat depth" "unat depth \<le> 32" and p: "pref (unat depth) p = p" and e: "ext (l_tbl24 l (i24 p))"
  shows "\<exists>l'. add_depth_big l p depth nh = (0, l') \<and> tabs_ok l' \<and> same_rules l l' \<and>
    (\<forall>ip. look l' ip = (if pref (unat depth) ip = p \<and> wins (unat depth) (look l ip) then Some (unat depth, nh) else look l ip))"
proof -
  let ?d = "unat depth" and ?e = "l_tbl24 l (i24 p)"
  have d': "24 \<le> ?d" using d by simp
  define l' where "l' = upd8 (256 * unat (t24_next_hop ?e) + low8 p) (256 * unat (t24_next_hop ?e) + (low8 p + 2 ^ (32 - ?d))) (longer depth nh) l"
  have "for_n (depth_to_range depth) (\<lambda>k. put_longer depth nh (of_nat (256 * unat (t24_next_hop ?e)) + (p AND 0xFF) + k)) l = l'"
    unfolding l'_def by (rule long_loop [OF d p u8_less refl]) (simp add: put_longer_eq)
  then have "add_depth_big l p depth nh = (0, l')" using e unfolding add_depth_big_def i24_def ext_def by (simp add: Let_def group_start_nat)
  moreover have "tabs_ok l'" unfolding l'_def by (rule tabs_upd8 [OF ok]) simp
  moreover have "same_rules l l'" unfolding l'_def by simp
  moreover have "look l' ip = (if pref ?d ip = p \<and> wins ?d (look l ip) then Some (?d, nh) else look l ip)" for ip
    unfolding l'_def look_upd8 [OF ok refl e pref_big(2) [OF d' d(2) p]] pref_big(1) [OF d' d(2) p] using e
    by (auto simp: ent8_longer [OF d(2)] look_def Let_def)
  ultimately show ?thesis by blast
qed

lemma add_depth_big_ok:
  assumes ok: "tabs_ok l" and d: "24 < unat depth" "unat depth \<le> 32" and p: "pref (unat depth) p = p"
  shows "add_depth_big l p depth nh = (- ENOSPC, l) \<and> \<not> ext (l_tbl24 l (i24 p)) \<and> \<not> free_group l \<or>
    (ext (l_tbl24 l (i24 p)) \<or> free_group l) \<and> (\<exists>l'. add_depth_big l p depth nh = (0, l') \<and> tabs_ok l' \<and> same_rules l l' \<and>
      (\<forall>ip. look l' ip = (if pref (unat depth) ip = p \<and> wins (unat depth) (look l ip) then Some (unat depth, nh) else look l ip)))"
proof (cases "ext (l_tbl24 l (i24 p))")
  case True
  then show ?thesis using add_big_ext [OF ok d p] by blast
next
  case False
  let ?e = "l_tbl24 l (drop_bit 8 p)"
  consider "tbl8_alloc l = (- ENOSPC, l)" "\<not> free_group l"
    | g l1 where "tbl8_alloc l = (int g, l1)" "new_group l g l1" "\<forall>j. unat j div 256 = g \<longrightarrow> \<not> t8_valid (l_tbl8 l1 j)" using tbl8_alloc_ok by blast
  then show ?thesis
  proof cases
    case 1
    then have "add_depth_big l p depth nh = (- ENOSPC, l)" using False unfolding add_depth_big_def ext_def i24_def by (simp add: Let_def ENOSPC_def)
    then show ?thesis using False 1(2) by simp
  next
    case 2
    note free = new_group_free [OF 2(2)]
    show ?thesis
    proof (cases "t24_valid (l_tbl24 l (i24 p))")
      case True
      then show ?thesis using add_big_extend [OF ok d p _ _ 2(1,2), of nh] False free by (simp add: ext_def)
    next
      case v: False
      have "wins (unat depth) (look l ip)" if "pref (unat depth) ip = p" for ip
        using that v pref_big(1) [OF _ d(2) p, of ip] d(1) by (simp add: look_def Let_def ext_def ent24_def wins_def)
      then show ?thesis using add_big_invalid [OF ok d p v 2, of nh] free by auto
    qed
  qed
qed

section \<open>The table and its rules\<close>

text \<open>The rules are the routes \<open>R\<close>, and the tables give the longest match among them.\<close>

definition lpm_ok :: "rte_lpm \<Rightarrow> routes \<Rightarrow> bool" where
  "lpm_ok l R \<longleftrightarrow> rules_ok l R \<and> tabs_ok l \<and> (\<forall>ip. look l ip = best R ip)"

text \<open>No route inside a prefix is longer, up to the 24 bits of \<open>tbl24\<close>.\<close>

definition no_inner :: "routes \<Rightarrow> u32 \<Rightarrow> nat \<Rightarrow> bool" where
  "no_inner R p d \<longleftrightarrow> (\<forall>q e. d < e \<longrightarrow> e \<le> 24 \<longrightarrow> pref d q = p \<longrightarrow> R (q, e) = None)"

lemma i24_shift: "unat x < 2 ^ 24 \<Longrightarrow> i24 (of_nat (256 * unat x)) = x"
proof -
  assume x: "unat x < 2 ^ 24"
  then have "unat (of_nat (256 * unat x) :: u32) = 256 * unat x" by (intro unat_of_nat_less) simp
  then show ?thesis by (simp add: word_unat_eq_iff unat_i24)
qed

lemma no_longerI:
  assumes ok: "lpm_ok l R" and d: "d \<le> 24" and p: "pref d p = p" and n: "no_inner R p d"
  shows "no_longer l p d"
  unfolding no_longer_def
proof (intro allI impI, rule ccontr)
  fix x
  assume x: "unat (i24 p) \<le> unat x" "unat x < unat (i24 p) + 2 ^ (24 - d)" and v: "t24_valid (l_tbl24 l x)" "\<not> t24_ext_entry (l_tbl24 l x)"
    and e: "\<not> unat (t24_depth (l_tbl24 l x)) \<le> d"
  let ?e = "unat (t24_depth (l_tbl24 l x))" and ?ip = "of_nat (256 * unat x) :: u32"
  have x24: "unat x < 2 ^ 24" using x(2) range_end [OF d p] by simp
  then have i: "i24 ?ip = x" by (rule i24_shift)
  have "best R ?ip = look l ?ip" using ok by (simp add: lpm_ok_def)
  also have "\<dots> = Some (?e, t24_next_hop (l_tbl24 l x))" unfolding look_def i Let_def using v by (simp add: ext_def ent24_def)
  finally have r: "R (pref ?e ?ip, ?e) \<noteq> None" using best_upto_le unfolding best_def by fastforce
  have e24: "?e \<le> 24" using ok v x24 by (auto simp: lpm_ok_def tabs_ok_def)
  have "pref d (pref ?e ?ip) = pref d ?ip" using e e24 by (intro pref_pref) simp_all
  also have "\<dots> = p" unfolding pref_small [OF d p] i using x by simp
  finally show False using r n e e24 by (auto simp: no_inner_def)
qed

lemma same_tables_look: "same_tables l l' \<Longrightarrow> look l' = look l" "same_tables l l' \<Longrightarrow> tabs_ok l' = tabs_ok l"
  "same_tables l l' \<Longrightarrow> no_longer l' p d = no_longer l p d"
  by (simp_all add: same_tables_def look_def Let_def tabs_ok_def no_longer_def fun_eq_iff)

lemma lpm_ok_add:
  assumes ok: "lpm_ok l R" and r: "rules_ok l1 (R((pref d ip, d) \<mapsto> nh))" and d: "1 \<le> d" "d \<le> 32"
    and l': "tabs_ok l'" "same_rules l1 l'" "\<And>a. look l' a = (if pref d a = pref d ip \<and> wins d (look l a) then Some (d, nh) else look l a)"
  shows "lpm_ok l' (R((pref d ip, d) \<mapsto> nh))"
proof -
  have "look l' a = best (R((pref d ip, d) \<mapsto> nh)) a" for a
    unfolding best_def best_upto_add [OF d(1)] l'(3) using ok d by (simp add: lpm_ok_def best_def)
  then show ?thesis using r l' same_rules_ok(1) [OF l'(2)] by (simp add: lpm_ok_def)
qed

lemma rule_add_cases:
  assumes ok: "rules_ok l R" and d: "1 \<le> unat depth" "unat depth \<le> 32" and ip: "pref (unat depth) ip = ip"
  obtains k l1 where "rule_add l ip depth nh = (int k, l1)" "rules_ok l1 (R((ip, unat depth) \<mapsto> nh))" "same_tables l l1"
      "R (ip, unat depth) \<noteq> None \<or> card (dom R) < unat (l_max_rules l)"
      "R (ip, unat depth) = None \<Longrightarrow> held_at l1 (unat depth) k \<lparr>lr_ip = ip, lr_next_hop = nh\<rparr>"
  | l1 where "rule_add l ip depth nh = (- ENOSPC, l1)" "rules_ok l1 R" "same_tables l l1" "R (ip, unat depth) = None" "\<not> card (dom R) < unat (l_max_rules l)"
proof (cases "R (ip, unat depth)")
  case None
  then show ?thesis using rule_add_ok [OF ok d None ip, of nh] that unfolding rules_count [OF ok] by blast
next
  case (Some old)
  then show ?thesis using rule_add_old [OF ok d Some, of nh] that(1) by fastforce
qed

text \<open>A route more, or no room for it.\<close>

definition room :: "rte_lpm \<Rightarrow> routes \<Rightarrow> u32 \<Rightarrow> nat \<Rightarrow> bool" where
  "room l R p d \<longleftrightarrow> card (dom R) < unat (l_max_rules l) \<and> (24 < d \<longrightarrow> ext (l_tbl24 l (i24 p)) \<or> free_group l)"

definition added :: "rte_lpm \<Rightarrow> routes \<Rightarrow> u32 \<Rightarrow> nat \<Rightarrow> u8 \<Rightarrow> int \<times> rte_lpm \<Rightarrow> bool" where
  "added l R p d nh res \<longleftrightarrow> l_max_rules (snd res) = l_max_rules l \<and>
     (if R (p, d) \<noteq> None \<or> room l R p d then fst res = 0 \<and> lpm_ok (snd res) (R((p, d) \<mapsto> nh))
      else fst res = - ENOSPC \<and> lpm_ok (snd res) R \<and> same_tables l (snd res))"

lemma rule_covers_ext:
  assumes ok: "lpm_ok l R" and d: "24 < d" "d \<le> 32" and r: "R (pref d p, d) \<noteq> None"
  shows "ext (l_tbl24 l (i24 p))"
proof (rule ccontr)
  assume n: "\<not> ext (l_tbl24 l (i24 p))"
  obtain e nh where "best R p = Some (e, nh)" "d \<le> e" using r best_upto_ge [of R d p _ 32] d unfolding best_def by force
  moreover have "look l p = best R p" using ok by (simp add: lpm_ok_def)
  ultimately have "ent24 (l_tbl24 l (i24 p)) = Some (e, nh)" using n by (simp add: look_def Let_def)
  then show False using tabs_okD(3) [of l "i24 p"] ok n i24_less [of p] \<open>d \<le> e\<close> d(1) by (auto simp: lpm_ok_def ent24_def split: if_splits)
qed

text \<open>What follows once the rule is stored.\<close>

lemma add_big_route:
  assumes ok: "lpm_ok l R" and d: "24 < unat depth" "unat depth \<le> 32" and p: "p = pref (unat depth) ip"
    and a: "rules_ok l1 (R((p, unat depth) \<mapsto> nh))" "same_tables l l1" "R (p, unat depth) \<noteq> None \<or> card (dom R) < unat (l_max_rules l)"
    and h: "R (p, unat depth) = None \<Longrightarrow> held_at l1 (unat depth) k \<lparr>lr_ip = p, lr_next_hop = nh\<rparr>"
  shows "added l R p (unat depth) nh
    (case add_depth_big l1 p depth nh of (status, l') \<Rightarrow> if status < 0 then (status, rule_delete l' (int k) depth) else (0, l'))"
proof -
  let ?d = "unat depth"
  have d1: "1 \<le> ?d" using d by simp
  note t = same_tables_look [OF a(2)]
  have T: "tabs_ok l1" using t(2) ok by (simp add: lpm_ok_def)
  have r: "room l R p ?d \<longleftrightarrow> card (dom R) < unat (l_max_rules l) \<and> (ext (l_tbl24 l1 (i24 p)) \<or> free_group l1)"
    using a(2) d(1) by (simp add: room_def same_tables_def free_group_def)
  consider "add_depth_big l1 p depth nh = (- ENOSPC, l1)" "\<not> ext (l_tbl24 l1 (i24 p))" "\<not> free_group l1"
    | l' where "ext (l_tbl24 l1 (i24 p)) \<or> free_group l1" "add_depth_big l1 p depth nh = (0, l')" "tabs_ok l'" "same_rules l1 l'"
      "\<forall>a. look l' a = (if pref ?d a = p \<and> wins ?d (look l1 a) then Some (?d, nh) else look l1 a)"
    using add_depth_big_ok [OF T d, of p nh] p by auto
  then show ?thesis
  proof cases
    case 1
    have none: "R (p, ?d) = None" using rule_covers_ext [OF ok d, of p] 1(2) a(2) p by (cases "R (p, ?d)") (simp_all add: same_tables_def)
    then have e: "R((p, ?d) := None) = R" by (simp add: fun_upd_idem)
    note del = rule_delete_ok [OF a(1) d1 d(2) h [OF none], simplified, unfolded e]
    have st: "same_tables l (rule_delete l1 (int k) depth)" using a(2) del(2) by (simp add: same_tables_def)
    then have "lpm_ok (rule_delete l1 (int k) depth) R" using ok del(1) by (simp add: lpm_ok_def same_tables_look)
    then show ?thesis using 1 none st r by (simp add: added_def ENOSPC_def same_tables_def)
  next
    case 2
    have "lpm_ok l' (R((p, ?d) \<mapsto> nh))" using lpm_ok_add [OF ok a(1) [unfolded p] d1 d(2) 2(3,4)] 2(5) t(1) p by simp
    then show ?thesis using 2(1,2,4) a(2,3) r by (auto simp: added_def same_rules_def same_tables_def)
  qed
qed

lemma add_small_route:
  assumes ok: "lpm_ok l R" and d: "1 \<le> unat depth" "unat depth \<le> 24" and p: "p = pref (unat depth) ip" and clean: "no_inner R p (unat depth)"
    and a: "rules_ok l1 (R((p, unat depth) \<mapsto> nh))" "same_tables l l1" "R (p, unat depth) \<noteq> None \<or> card (dom R) < unat (l_max_rules l)"
  shows "added l R p (unat depth) nh (0, snd (add_depth_small l1 p depth nh))"
proof -
  let ?d = "unat depth"
  have d32: "?d \<le> 32" using d by simp
  note t = same_tables_look [OF a(2)]
  have T: "tabs_ok l1" using t(2) ok by (simp add: lpm_ok_def)
  have pp: "pref ?d p = p" using p by simp
  have c: "no_longer l1 p ?d" unfolding t(3) by (rule no_longerI [OF ok d(2) pp clean])
  note b = add_depth_small_ok [OF T d pp c refl, of nh]
  have "lpm_ok (snd (add_depth_small l1 p depth nh)) (R((p, ?d) \<mapsto> nh))" unfolding p
    by (rule lpm_ok_add [OF ok a(1) [unfolded p] d(1) d32]) (use b p t(1) in simp_all)
  then show ?thesis using a(2,3) b(2) d(2) by (auto simp: added_def room_def same_rules_def same_tables_def)
qed

lemma rte_lpm_add_ok:
  assumes ok: "lpm_ok l R" and d: "1 \<le> unat depth" "unat depth \<le> 32" and clean: "unat depth \<le> 24 \<longrightarrow> no_inner R (pref (unat depth) ip) (unat depth)"
  shows "added l R (pref (unat depth) ip) (unat depth) nh (rte_lpm_add l ip depth nh)"
proof -
  let ?d = "unat depth" and ?p = "pref (unat depth) ip"
  have R: "rules_ok l R" using ok by (simp add: lpm_ok_def)
  have g: "\<not> (depth < 1 \<or> depth > RTE_LPM_MAX_DEPTH)" using d by (simp add: RTE_LPM_MAX_DEPTH_def word_less_nat_alt)
  have s: "depth \<le> MAX_DEPTH_TBL24 \<longleftrightarrow> ?d \<le> 24" by (simp add: MAX_DEPTH_TBL24_def word_le_nat_alt)
  show ?thesis
  proof (rule rule_add_cases [OF R d pref_idem, of ip nh])
    fix l1
    assume "rule_add l ?p depth nh = (- ENOSPC, l1)" "rules_ok l1 R" "same_tables l l1" "R (?p, ?d) = None" "\<not> card (dom R) < unat (l_max_rules l)"
    then show ?thesis using g ok by (simp add: added_def room_def rte_lpm_add_def pref_eq [OF d] ENOSPC_def lpm_ok_def same_tables_look) (simp add: same_tables_def)
  next
    fix k l1
    assume a: "rule_add l ?p depth nh = (int k, l1)" "rules_ok l1 (R((?p, ?d) \<mapsto> nh))" "same_tables l l1"
      "R (?p, ?d) \<noteq> None \<or> card (dom R) < unat (l_max_rules l)" "R (?p, ?d) = None \<Longrightarrow> held_at l1 ?d k \<lparr>lr_ip = ?p, lr_next_hop = nh\<rparr>"
    show ?thesis
    proof (cases "?d \<le> 24")
      case True
      then show ?thesis using add_small_route [OF ok d(1) True refl _ a(2-4)] clean g s a(1) by (simp add: rte_lpm_add_def pref_eq [OF d] split_def)
    next
      case False
      then have "24 < ?d" by simp
      from add_big_route [OF ok this d(2) refl a(2-5)] False show ?thesis using g s a(1) by (simp add: rte_lpm_add_def pref_eq [OF d])
    qed
  qed
qed

end
