(* ===== verification/Lpm_Delete.thy ===== *)
theory Lpm_Delete
  imports Lpm_Add
begin

text \<open>
  Deleting a rule: its entries take the next shorter match, and a group whose entries are all of one short rule, or all
  invalid, is given back.
\<close>

section \<open>The next shorter rule\<close>

lemma find_prev_ok:
  assumes ok: "rules_ok l R"
  shows "n \<le> 32 \<Longrightarrow> case best_upto R ip n of
      None \<Rightarrow> find_prev l ip n = (- 1, 0)
    | Some (e, nh) \<Rightarrow> \<exists>k. find_prev l ip n = (int k, of_nat e) \<and> lr_next_hop (cell l k) = nh"
proof (induction n)
  case (Suc n)
  have u: "unat (of_nat (Suc n) :: u8) = Suc n" using Suc.prems by (simp only: unat_of_nat) simp
  have p: "ip AND depth_to_mask (of_nat (Suc n)) = pref (Suc n) ip" using pref_eq [of "of_nat (Suc n)"] Suc.prems u by simp
  show ?case
  proof (cases "R (pref (Suc n) ip, Suc n)")
    case None
    then have "rule_find l (pref (Suc n) ip) (of_nat (Suc n)) = - EINVAL" using rule_find_ok(1) [OF ok, of "of_nat (Suc n)"] Suc.prems u by simp
    then have "find_prev l ip (Suc n) = find_prev l ip n" using p by (simp add: Let_def EINVAL_def)
    moreover have "best_upto R ip (Suc n) = best_upto R ip n" using None by simp
    ultimately show ?thesis using Suc.IH Suc.prems by (simp only: Suc_leD)
  next
    case (Some nh)
    then obtain k where "rule_find l (pref (Suc n) ip) (of_nat (Suc n)) = int k" "cell l k = \<lparr>lr_ip = pref (Suc n) ip, lr_next_hop = nh\<rparr>"
      using rule_find_ok(2) [OF ok, of "of_nat (Suc n)" "pref (Suc n) ip" nh] Suc.prems u by auto
    then have "find_prev l ip (Suc n) = (int k, of_nat (Suc n))" "lr_next_hop (cell l k) = nh" using p by (simp_all add: Let_def)
    then show ?thesis using Some by auto
  qed
qed simp

text \<open>The result of the search stands for a match of the specification.\<close>

definition stands_for :: "rte_lpm \<Rightarrow> int \<Rightarrow> u8 \<Rightarrow> (nat \<times> u8) option \<Rightarrow> bool" where
  "stands_for l k sd v \<longleftrightarrow> (case v of None \<Rightarrow> k < 0 | Some (e, nh) \<Rightarrow> 0 \<le> k \<and> unat sd = e \<and> e \<le> 32 \<and> lr_next_hop (l_rules_tbl l (of_int k)) = nh)"

lemma find_previous_rule_ok:
  assumes ok: "rules_ok l R" and d: "1 \<le> unat depth" "unat depth \<le> 32" and f: "find_previous_rule l ip depth = (k, sd)"
  shows "stands_for l k sd (best_upto R ip (unat depth - 1))"
proof -
  have n: "unat (depth - 1) = unat depth - 1" using d(1) by (simp add: unat_sub_le word_le_nat_alt)
  have f': "find_prev l ip (unat depth - 1) = (k, sd)" using f unfolding find_previous_rule_def n .
  have p: "case best_upto R ip (unat depth - 1) of None \<Rightarrow> find_prev l ip (unat depth - 1) = (- 1, 0)
    | Some (e, nh) \<Rightarrow> \<exists>k. find_prev l ip (unat depth - 1) = (int k, of_nat e) \<and> lr_next_hop (cell l k) = nh"
    using d(2) by (intro find_prev_ok [OF ok]) simp
  show ?thesis
  proof (cases "best_upto R ip (unat depth - 1)")
    case None
    then show ?thesis using p f' by (simp add: stands_for_def)
  next
    case (Some b)
    obtain e nh where b: "b = (e, nh)" by (cases b)
    have e: "e \<le> 32" using best_upto_le [OF Some [unfolded b]] d(2) by linarith
    then have "unat (of_nat e :: u8) = e" by (simp only: unat_of_nat) simp
    then show ?thesis using p f' Some b e by (auto simp: stands_for_def cell_def)
  qed
qed

section \<open>A short prefix\<close>

text \<open>The entry that replaces one of the deleted rule.\<close>

definition sub24 :: "int \<Rightarrow> u8 \<Rightarrow> u8 \<Rightarrow> rte_lpm_tbl24_entry \<Rightarrow> rte_lpm_tbl24_entry" where
  "sub24 k sd hop e = (if k < 0 then e\<lparr>t24_valid := False\<rparr> else \<lparr>t24_next_hop = hop, t24_valid = True, t24_ext_entry = False, t24_depth = ucast sd\<rparr>)"

definition sub8 :: "int \<Rightarrow> u8 \<Rightarrow> u8 \<Rightarrow> bool \<Rightarrow> u8 \<Rightarrow> rte_lpm_tbl8_entry \<Rightarrow> rte_lpm_tbl8_entry" where
  "sub8 k sd hop vg depth f = (if ucast (t8_depth f) \<le> depth then if k < 0 then f\<lparr>t8_valid := False\<rparr>
     else \<lparr>t8_next_hop = hop, t8_valid = True, t8_valid_group = vg, t8_depth = ucast sd\<rparr> else f)"

lemma ent_sub:
  assumes "stands_for l k sd v"
  shows "ent24 (sub24 k sd (lr_next_hop (l_rules_tbl l (of_int k))) e) = v"
    "ent8 (sub8 k sd (lr_next_hop (l_rules_tbl l (of_int k))) vg depth f) = (if unat (t8_depth f) \<le> unat depth then v else ent8 f)"
  using assms by (auto simp: stands_for_def sub24_def sub8_def ent24_def ent8_def depth6 depth6_le split: option.splits)

lemma sub24_ext [simp]: "\<not> ext (sub24 k sd hop e)"
  by (simp add: sub24_def ext_def)

lemma small_condition:
  assumes d: "d \<le> 24" and p: "pref d p = p" and clean: "no_longer l p d" and full: "\<And>a. pref d a = p \<Longrightarrow> look l a \<noteq> None"
    and x: "unat (i24 p) \<le> unat x" "unat x < unat (i24 p) + 2 ^ (24 - d)"
  shows "\<not> ext (l_tbl24 l x) \<longleftrightarrow> \<not> t24_ext_entry (l_tbl24 l x) \<and> unat (t24_depth (l_tbl24 l x)) \<le> d"
proof
  assume n: "\<not> ext (l_tbl24 l x)"
  let ?ip = "of_nat (256 * unat x) :: u32"
  have i: "i24 ?ip = x" using x(2) range_end [OF d p] by (intro i24_shift) simp
  have "pref d ?ip = p" unfolding pref_small [OF d p] i using x by simp
  then have "look l ?ip \<noteq> None" by (rule full)
  then have "t24_valid (l_tbl24 l x)" unfolding look_def i Let_def using n by (simp add: ent24_def split: if_splits)
  then show "\<not> t24_ext_entry (l_tbl24 l x) \<and> unat (t24_depth (l_tbl24 l x)) \<le> d" using n clean x by (simp add: ext_def no_longer_def)
qed (simp add: ext_def)

lemma delete_small_loop:
  assumes ok: "tabs_ok l" and d: "1 \<le> unat depth" "unat depth \<le> 24" and p: "pref (unat depth) p = p" and clean: "no_longer l p (unat depth)"
    and full: "\<And>a. pref (unat depth) a = p \<Longrightarrow> look l a \<noteq> None" and hop: "hop = lr_next_hop (l_rules_tbl l (of_int k))"
  shows "delete_depth_small l p depth k sd =
    (0, range_upd (unat (i24 p)) (unat (i24 p) + 2 ^ (24 - unat depth)) (sub24 k sd hop) (sub8 k sd hop False depth) l)"
proof -
  let ?d = "unat depth" and ?s = "unat (i24 p)"
  have n: "unat (depth_to_range depth) = 2 ^ (24 - ?d)" by (rule unat_range(1) [OF d])
  have s: "?s + unat (depth_to_range depth) \<le> 2 ^ 24" unfolding n by (rule range_end [OF d(2) p])
  have "for_n (depth_to_range depth) (\<lambda>j. delete_small_entry depth k sd (i24 p + j)) l =
      range_upd ?s (?s + unat (depth_to_range depth)) (sub24 k sd hop) (sub8 k sd hop False depth) l"
  proof (rule range_loop [OF ok s])
    fix x and l1 :: rte_lpm
    assume x: "?s \<le> unat x" "unat x < ?s + unat (depth_to_range depth)" and e: "l_tbl24 l1 x = l_tbl24 l x" and r: "same_rules l l1"
    let ?e = "l_tbl24 l x"
    have h: "lr_next_hop (l_rules_tbl l1 (of_int k)) = hop" using r by (simp add: hop same_rules_def)
    have c: "\<not> ext ?e \<longleftrightarrow> \<not> t24_ext_entry ?e \<and> ucast (t24_depth ?e) \<le> depth"
      using small_condition [OF d(2) p clean _ x(1)] full x(2) unfolding n by (simp add: depth6_le)
    have "unat (group_start ?e) + unat RTE_LPM_TBL8_GROUP_NUM_ENTRIES < 2 ^ 32"
      using u8_less [of "t24_next_hop ?e"] by (simp add: unat_group_start RTE_LPM_TBL8_GROUP_NUM_ENTRIES_def)
    then have "for_n RTE_LPM_TBL8_GROUP_NUM_ENTRIES (\<lambda>j l. let i = group_start ?e + j; f = l_tbl8 l i in
        if ucast (t8_depth f) \<le> depth
        then if k < 0 then set8 i (f\<lparr>t8_valid := False\<rparr>) l
             else set8 i \<lparr>t8_next_hop = hop, t8_valid = True, t8_valid_group = False, t8_depth = ucast sd\<rparr> l
        else l) l1 =
        upd8 (unat (group_start ?e)) (unat (group_start ?e) + unat RTE_LPM_TBL8_GROUP_NUM_ENTRIES) (sub8 k sd hop False depth) l1"
      by (rule for_n_upd8) (simp add: Let_def sub8_def set8_def)
    then show "delete_small_entry depth k sd x l1 = (if ext ?e then upd8 (256 * unat (t24_next_hop ?e)) (256 * unat (t24_next_hop ?e) + 256) (sub8 k sd hop False depth) l1
        else set24 x (sub24 k sd hop ?e) l1)"
      using c e h by (auto simp: delete_small_entry_def sub24_def Let_def unat_group_start RTE_LPM_TBL8_GROUP_NUM_ENTRIES_def)
  qed
  then show ?thesis unfolding n by (simp add: delete_depth_small_def i24_def)
qed


lemma delete_depth_small_ok:
  assumes ok: "tabs_ok l" and d: "1 \<le> unat depth" "unat depth \<le> 24" and p: "pref (unat depth) p = p" and clean: "no_longer l p (unat depth)"
    and full: "\<And>a. pref (unat depth) a = p \<Longrightarrow> \<exists>e nh. look l a = Some (e, nh) \<and> unat depth \<le> e" and v: "stands_for l k sd v" "v = None \<or> unat sd \<le> 24"
    and l'_def: "l' = snd (delete_depth_small l p depth k sd)"
  shows "same_rules l l'" "look l' a = (if pref (unat depth) a = p \<and> (\<exists>nh. look l a = Some (unat depth, nh)) then v else look l a)"
    "v = None \<or> (\<forall>x. unat (i24 p) \<le> unat x \<longrightarrow> unat x < unat (i24 p) + 2 ^ (24 - unat depth) \<longrightarrow> \<not> ext (l_tbl24 l x)) \<Longrightarrow> tabs_ok l'"
proof -
  let ?d = "unat depth" and ?s = "unat (i24 p)" and ?hop = "lr_next_hop (l_rules_tbl l (of_int k))"
  let ?F = "sub24 k sd ?hop" and ?G = "sub8 k sd ?hop False depth"
  have full': "look l a \<noteq> None" if "pref ?d a = p" for a using full [OF that] by auto
  have l': "l' = range_upd ?s (?s + 2 ^ (24 - ?d)) ?F ?G l" unfolding l'_def using delete_small_loop [OF ok d p clean _ refl] full' by simp
  have e: "?s + 2 ^ (24 - ?d) \<le> 2 ^ 24" by (rule range_end [OF d(2) p])
  show "same_rules l l'" unfolding l' by simp
  show "look l' a = (if pref ?d a = p \<and> (\<exists>nh. look l a = Some (?d, nh)) then v else look l a)"
  proof (cases "pref ?d a = p")
    case True
    let ?e = "l_tbl24 l (i24 a)"
    have r: "?s \<le> unat (i24 a)" "unat (i24 a) < ?s + 2 ^ (24 - ?d)" using True unfolding pref_small [OF d(2) p] by simp_all
    have "look l' a = (if ext ?e then if unat (t8_depth (l_tbl8 l (at8 ?e a))) \<le> ?d then v else ent8 (l_tbl8 l (at8 ?e a)) else v)"
      unfolding l' using r by (subst range_look [OF ok e]) (simp_all add: ent_sub [OF v(1)] Let_def)
    moreover obtain b nh where b: "look l a = Some (b, nh)" "?d \<le> b" using full [OF True] by blast
    moreover have "unat (t24_depth ?e) \<le> ?d" if "\<not> ext ?e" using small_condition [OF d(2) p clean _ r] full' that by simp
    ultimately show ?thesis using True by (auto simp: look_def Let_def ent8_def ent24_def split: if_splits)
  next
    case False
    then show ?thesis unfolding l' using pref_small [OF d(2) p, of a] by (subst range_look [OF ok e]) (auto simp: Let_def)
  qed
  show "tabs_ok l'" if t: "v = None \<or> (\<forall>x. ?s \<le> unat x \<longrightarrow> unat x < ?s + 2 ^ (24 - ?d) \<longrightarrow> \<not> ext (l_tbl24 l x))"
  proof -
    have F: "unat (t24_depth (?F e)) \<le> 24" if "t24_valid (?F e)" for e
      using that v by (auto simp: sub24_def stands_for_def depth6 split: if_splits option.splits)
    from t show ?thesis
    proof
      assume "v = None"
      then have "t8_valid_group (?G f)" if "t8_valid_group f" for f using v(1) that by (simp add: sub8_def stands_for_def)
      then show ?thesis unfolding l' by (intro range_tabs [OF ok _ F]) simp_all
    next
      assume n: "\<forall>x. ?s \<le> unat x \<longrightarrow> unat x < ?s + 2 ^ (24 - ?d) \<longrightarrow> \<not> ext (l_tbl24 l x)"
      then have "(\<exists>x. ?s \<le> unat x \<and> unat x < ?s + 2 ^ (24 - ?d) \<and> ext (l_tbl24 l x) \<and> Q x) = False" for Q by blast
      then have "l' = range_upd ?s (?s + 2 ^ (24 - ?d)) ?F (\<lambda>f. f) l" unfolding l' range_upd_def by (simp only: if_False)
      then show ?thesis using range_tabs [OF ok _ F] by simp
    qed
  qed
qed


section \<open>A long prefix\<close>

text \<open>An entry of \<open>tbl24\<close> gives its group back.\<close>

lemma release_group:
  assumes ok: "tabs_ok l" and x: "unat x < 2 ^ 24" "ext (l_tbl24 l x)" and e: "\<not> ext e" "t24_valid e \<Longrightarrow> unat (t24_depth e) \<le> 24"
    and l'_def: "l' = tbl8_free (group_start (l_tbl24 l x)) (set24 x e l)"
  shows "tabs_ok l'" "same_rules l l'" "look l' a = (if i24 a = x then ent24 e else look l a)"
proof -
  let ?s = "group_start (l_tbl24 l x)"
  have t: "l_tbl24 l' i = (if i = x then e else l_tbl24 l i)" "l_tbl8 l' j = (if j = ?s then (l_tbl8 l j)\<lparr>t8_valid_group := False\<rparr> else l_tbl8 l j)" for i j
    by (simp_all add: l'_def tbl8_free_def)
  have g: "group_start (l_tbl24 l i) \<noteq> ?s" if "unat i < 2 ^ 24" "ext (l_tbl24 l i)" "i \<noteq> x" for i
    using that group_unique [OF ok that(1) x(1) that(2) x(2)] unat_group_start [of "l_tbl24 l i"] unat_group_start [of "l_tbl24 l x"] by auto
  show "tabs_ok l'"
    unfolding tabs_ok_def
  proof (intro conjI allI impI)
    fix i :: u32
    assume i: "unat i < 2 ^ 24"
    show "t8_valid_group (l_tbl8 l' (group_start (l_tbl24 l' i)))" if "ext (l_tbl24 l' i)"
      using that e(1) g [OF i] tabs_okD(1) [OF ok i] by (auto simp: t split: if_splits)
    show "i = j" if "unat j < 2 ^ 24" "ext (l_tbl24 l' i)" "ext (l_tbl24 l' j)" "t24_next_hop (l_tbl24 l' i) = t24_next_hop (l_tbl24 l' j)" for j
      using that e(1) tabs_okD(2) [OF ok i that(1)] by (auto simp: t split: if_splits)
    show "unat (t24_depth (l_tbl24 l' i)) \<le> 24" if "t24_valid (l_tbl24 l' i)" "\<not> t24_ext_entry (l_tbl24 l' i)"
      using that e(2) tabs_okD(3) [OF ok i] by (auto simp: t ext_def split: if_splits)
  qed
  show "same_rules l l'" by (simp add: l'_def tbl8_free_def)
  have "ent8 (l_tbl8 l' j) = ent8 (l_tbl8 l j)" for j by (simp add: t ent8_def)
  then show "look l' a = (if i24 a = x then ent24 e else look l a)" using e(1) by (auto simp: look_def Let_def t(1))
qed

lemma sub8_group: "vg \<Longrightarrow> t8_valid_group f \<Longrightarrow> t8_valid_group (sub8 k sd hop vg depth f)"
  by (simp add: sub8_def)

text \<open>The tables after the loop over the range of the rule.\<close>

lemma delete_big_loop:
  assumes ok: "tabs_ok l" and d: "24 < unat depth" "unat depth \<le> 32" and p: "pref (unat depth) p = p" and x: "ext (l_tbl24 l (i24 p))"
    and full: "\<And>a. pref (unat depth) a = p \<Longrightarrow> \<exists>e nh. look l a = Some (e, nh) \<and> unat depth \<le> e" and v: "stands_for l k sd v"
    and l1_def: "l1 = upd8 (256 * unat (t24_next_hop (l_tbl24 l (i24 p))) + low8 p) (256 * unat (t24_next_hop (l_tbl24 l (i24 p))) + (low8 p + 2 ^ (32 - unat depth)))
      (sub8 k sd (lr_next_hop (l_rules_tbl l (of_int k))) True depth) l"
  shows "tabs_ok l1" "same_rules l l1" "look l1 a = (if pref (unat depth) a = p \<and> (\<exists>nh. look l a = Some (unat depth, nh)) then v else look l a)"
proof -
  have d': "24 \<le> unat depth" using d by simp
  show "tabs_ok l1" unfolding l1_def by (rule tabs_upd8 [OF ok sub8_group]) simp_all
  show "same_rules l l1" unfolding l1_def by simp
  have "look l1 a = (if pref (unat depth) a = p then
      if unat (t8_depth (l_tbl8 l (at8 (l_tbl24 l (i24 p)) a))) \<le> unat depth then v else ent8 (l_tbl8 l (at8 (l_tbl24 l (i24 p)) a)) else look l a)"
    unfolding l1_def look_upd8 [OF ok refl x pref_big(2) [OF d' d(2) p]] pref_big(1) [OF d' d(2) p] ent_sub(2) [OF v] by simp
  moreover have "ent8 (l_tbl8 l (at8 (l_tbl24 l (i24 p)) a)) = look l a" if "pref (unat depth) a = p"
    using that x unfolding pref_big(1) [OF d' d(2) p] by (simp add: look_def)
  ultimately show "look l1 a = (if pref (unat depth) a = p \<and> (\<exists>nh. look l a = Some (unat depth, nh)) then v else look l a)"
    using full [of a] by (auto simp: ent8_def split: if_splits)
qed

text \<open>The entries of a group and the addresses they are for.\<close>

lemma group_entries:
  assumes "i24 a = x" and others_def: "others = map (\<lambda>k. l_tbl8 l (group_start e + of_nat k)) [1..<256]"
  shows "l_tbl8 l (at8 e a) = l_tbl8 l (group_start e) \<or> l_tbl8 l (at8 e a) \<in> set others"
proof -
  have i: "at8 e a = group_start e + of_nat (low8 a)" unfolding at8_nat group_start_nat by simp
  show ?thesis
  proof (cases "low8 a = 0")
    case False
    then show ?thesis unfolding i others_def by (auto intro!: imageI)
  qed (simp add: i)
qed

lemma group_address: "unat x < 2 ^ 24 \<Longrightarrow> i24 (of_nat (256 * unat x)) = x" "unat x < 2 ^ 24 \<Longrightarrow> at8 e (of_nat (256 * unat x)) = group_start e"
proof -
  assume x: "unat x < 2 ^ 24"
  show "i24 (of_nat (256 * unat x)) = x" by (rule i24_shift [OF x])
  have "unat (of_nat (256 * unat x) :: u32) = 256 * unat x" using x by (intro unat_of_nat_less) simp
  then have "low8 (of_nat (256 * unat x)) = 0" by (simp add: low8_def)
  then show "at8 e (of_nat (256 * unat x)) = group_start e" unfolding at8_nat group_start_nat by simp
qed

lemma same_i24_pref: "i24 a = i24 b \<Longrightarrow> d \<le> 24 \<Longrightarrow> pref d a = pref d b"
proof (rule pref_shorter [of 24])
  assume "i24 a = i24 b"
  then show "pref 24 a = pref 24 b" by (simp add: pref_div unat_i24 [symmetric])
qed simp_all

text \<open>A group to be recycled holds one match, or none.\<close>

lemma recycle_check_ok:
  assumes B: "\<And>a. look l a = best R a" and x: "unat x < 2 ^ 24" "ext (l_tbl24 l x)" and s_def: "s = group_start (l_tbl24 l x)"
  shows "tbl8_recycle_check l s = - EINVAL \<and> (\<forall>a. i24 a = x \<longrightarrow> look l a = None) \<or> tbl8_recycle_check l s = - EEXIST \<or>
    tbl8_recycle_check l s = int (unat s) \<and> t8_valid (l_tbl8 l s) \<and> unat (t8_depth (l_tbl8 l s)) \<le> 24 \<and>
      (\<forall>a. i24 a = x \<longrightarrow> look l a = Some (unat (t8_depth (l_tbl8 l s)), t8_next_hop (l_tbl8 l s)))"
proof -
  define others where "others = map (\<lambda>k. l_tbl8 l (s + of_nat k)) [1..<256]"
  let ?f = "l_tbl8 l s" and ?e = "unat (t8_depth (l_tbl8 l s))"
  have look: "look l a = ent8 (l_tbl8 l (at8 (l_tbl24 l x) a))" "l_tbl8 l (at8 (l_tbl24 l x) a) = ?f \<or> l_tbl8 l (at8 (l_tbl24 l x) a) \<in> set others" if "i24 a = x" for a
    using group_entries [OF that others_def [unfolded s_def]] that x(2) unfolding s_def by (simp_all add: look_def)
  have "unat s < 2 ^ 16" unfolding s_def unat_group_start using u8_less [of "t24_next_hop (l_tbl24 l x)"] by simp
  then have si: "sint s = int (unat s)" by (intro sint_small) simp
  have lt: "(ucast (t8_depth ?f) :: u8) < MAX_DEPTH_TBL24 \<longleftrightarrow> ?e < 24"
    using depth6_le [of "t8_depth ?f" 23] unfolding MAX_DEPTH_TBL24_def by (simp add: word_le_nat_alt word_less_nat_alt less_Suc_eq_le flip: Suc_le_eq)
  have rc: "tbl8_recycle_check l s =
      (if t8_valid ?f then if ?e < 24 then if \<exists>f \<in> set others. t8_depth f \<noteq> t8_depth ?f then - EEXIST else int (unat s) else - EEXIST
       else if \<exists>f \<in> set others. t8_valid f then - EEXIST else - EINVAL)"
    unfolding tbl8_recycle_check_def Let_def others_def [symmetric] lt si by (rule refl)
  show ?thesis
  proof (cases "t8_valid ?f")
    case False
    show ?thesis
    proof (cases "\<exists>f \<in> set others. t8_valid f")
      case n: False
      then have "look l a = None" if "i24 a = x" for a using look [OF that] False by (auto simp: ent8_def)
      then show ?thesis using False n by (simp add: rc)
    qed (use False rc in simp)
  next
    case v: True
    show ?thesis
    proof (cases "?e < 24 \<and> (\<forall>f \<in> set others. t8_depth f = t8_depth ?f)")
      case True
      let ?a = "of_nat (256 * unat x) :: u32"
      have "best R ?a = Some (?e, t8_next_hop ?f)" using look(1) [OF group_address(1) [OF x(1)]] v unfolding group_address(2) [OF x(1)] B by (simp add: ent8_def s_def)
      then have r: "1 \<le> ?e" "R (pref ?e ?a, ?e) = Some (t8_next_hop ?f)" unfolding best_def using best_upto_le by blast+
      have "look l a = Some (?e, t8_next_hop ?f)" if a: "i24 a = x" for a
      proof -
        have p: "pref ?e a = pref ?e ?a" using a group_address(1) [OF x(1)] True by (intro same_i24_pref) simp_all
        then obtain e' nh' where "best R a = Some (e', nh')" "?e \<le> e'" using best_upto_ge [of R ?e a _ 32] r True unfolding best_def by auto
        moreover have "e' = ?e" using look [OF a] True calculation(1) unfolding B by (auto simp: ent8_def split: if_splits)
        ultimately show ?thesis using best_upto_le [of R a 32 ?e nh'] r p unfolding B best_def by simp
      qed
      moreover have "tbl8_recycle_check l s = int (unat s)" using True v lt by (auto simp: rc)
      ultimately show ?thesis using True v by simp
    next
      case False
      then show ?thesis using v lt by (auto simp: rc)
    qed
  qed
qed

lemma delete_depth_big_ok:
  assumes ok: "tabs_ok l" and d: "24 < unat depth" "unat depth \<le> 32" and p: "pref (unat depth) p = p" and x: "ext (l_tbl24 l (i24 p))"
    and full: "\<And>a. pref (unat depth) a = p \<Longrightarrow> \<exists>e nh. look l a = Some (e, nh) \<and> unat depth \<le> e" and v: "stands_for l k sd v"
    and B: "\<And>a. (if pref (unat depth) a = p \<and> (\<exists>nh. look l a = Some (unat depth, nh)) then v else look l a) = best R a"
  shows "\<exists>l'. delete_depth_big l p depth k sd = (0, l') \<and> tabs_ok l' \<and> same_rules l l' \<and> (\<forall>a. look l' a = best R a)"
proof -
  let ?e = "l_tbl24 l (i24 p)" and ?hop = "lr_next_hop (l_rules_tbl l (of_int k))"
  let ?s = "group_start (l_tbl24 l (i24 p))"
  define l1 where "l1 = upd8 (256 * unat (t24_next_hop ?e) + low8 p) (256 * unat (t24_next_hop ?e) + (low8 p + 2 ^ (32 - unat depth))) (sub8 k sd ?hop True depth) l"
  note l1 = delete_big_loop [OF ok d p x _ v l1_def]
  have L: "look l1 a = best R a" for a using l1(3) full B by simp
  have t24: "l_tbl24 l1 = l_tbl24 l" by (simp add: l1_def)
  have x1: "ext (l_tbl24 l1 (i24 p))" "group_start (l_tbl24 l1 (i24 p)) = ?s" using x by (simp_all add: t24)
  have vg: "t8_valid_group (l_tbl8 l ?s) = True" using tabs_okD(1) [OF ok i24_less x] by simp
  have loop: "for_n (depth_to_range depth) (\<lambda>j l. if ucast (t8_depth (l_tbl8 l (?s + (p AND 0xFF) + j))) \<le> depth then set8 (?s + (p AND 0xFF) + j)
        (if k < 0 then (l_tbl8 l (?s + (p AND 0xFF) + j))\<lparr>t8_valid := False\<rparr>
         else \<lparr>t8_next_hop = ?hop, t8_valid = True, t8_valid_group = True, t8_depth = ucast sd\<rparr>) l else l) l = l1"
    unfolding l1_def group_start_nat by (rule long_loop [OF d p u8_less refl]) (simp add: sub8_def set8_def)
  have D: "delete_depth_big l p depth k sd =
     (0, if tbl8_recycle_check l1 ?s = - EINVAL then tbl8_free ?s (set24 (i24 p) (?e\<lparr>t24_valid := False\<rparr>) l1)
         else if tbl8_recycle_check l1 ?s > - 1 then tbl8_free ?s (set24 (i24 p) \<lparr>t24_next_hop = t8_next_hop (l_tbl8 l1 (of_int (tbl8_recycle_check l1 ?s))),
           t24_valid = True, t24_ext_entry = False, t24_depth = t8_depth (l_tbl8 l1 (of_int (tbl8_recycle_check l1 ?s)))\<rparr> l1) else l1)"
    unfolding delete_depth_big_def Let_def i24_def [symmetric] vg loop t24 by (rule refl)
  have T: "tabs_ok l1" "same_rules l l1" by (rule l1(1), rule full, assumption, rule l1(2), rule full)
  have rel: "tabs_ok l' \<and> same_rules l l' \<and> (\<forall>a. look l' a = best R a)"
    if "l' = tbl8_free ?s (set24 (i24 p) e l1)" "\<not> ext e" "t24_valid e \<longrightarrow> unat (t24_depth e) \<le> 24" "\<forall>a. i24 a = i24 p \<longrightarrow> ent24 e = look l1 a" for l' e
  proof -
    note r = release_group [OF T(1) i24_less x1(1) that(2), unfolded x1(2), OF that(3) [rule_format] that(1)]
    have "same_rules l l'" using r(2) T(2) by (simp add: same_rules_def)
    moreover have "look l' a = best R a" for a using r(3) that(4) L by metis
    ultimately show ?thesis using r(1) by blast
  qed
  from recycle_check_ok [OF L i24_less x1(1) refl, unfolded x1(2)] show ?thesis
  proof (elim disjE conjE)
    assume r: "tbl8_recycle_check l1 ?s = - EINVAL" "\<forall>a. i24 a = i24 p \<longrightarrow> look l1 a = None"
    then show ?thesis using rel [OF refl, of "?e\<lparr>t24_valid := False\<rparr>"] unfolding D by (simp add: ext_def ent24_def)
  next
    assume "tbl8_recycle_check l1 ?s = - EEXIST"
    then show ?thesis using T L unfolding D by (simp add: EEXIST_def EINVAL_def)
  next
    assume r: "tbl8_recycle_check l1 ?s = int (unat ?s)" "unat (t8_depth (l_tbl8 l1 ?s)) \<le> 24"
      "\<forall>a. i24 a = i24 p \<longrightarrow> look l1 a = Some (unat (t8_depth (l_tbl8 l1 ?s)), t8_next_hop (l_tbl8 l1 ?s))"
    let ?n = "\<lparr>t24_next_hop = t8_next_hop (l_tbl8 l1 ?s), t24_valid = True, t24_ext_entry = False, t24_depth = t8_depth (l_tbl8 l1 ?s)\<rparr>"
    have "(- 1 :: int) < uint ?s" by (rule less_le_trans [OF _ uint_ge_0]) simp
    then have "delete_depth_big l p depth k sd = (0, tbl8_free ?s (set24 (i24 p) ?n l1))" unfolding D r(1) by (auto simp: EINVAL_def)
    then show ?thesis using rel [OF refl, of ?n] r(2,3) by (simp add: ext_def ent24_def)
  qed
qed


section \<open>Deleting a rule\<close>

lemma best_deleted:
  assumes d: "1 \<le> d" "d \<le> 32"
  shows "best (R((pref d ip, d) := None)) a =
    (if pref d a = pref d ip \<and> (\<exists>nh. best R a = Some (d, nh)) then best_upto (R((pref d ip, d) := None)) ip (d - 1) else best R a)"
proof -
  have "\<not> (\<exists>nh. best_upto R ip (d - 1) = Some (d, nh))" using best_upto_le d(1) by fastforce
  then have "best_upto (R((pref d ip, d) := None)) ip (d - 1) = best_upto R ip (d - 1)" unfolding best_upto_del [OF d(1)] by simp
  moreover have "best_upto R a (d - 1) = best_upto R ip (d - 1)" if "pref d a = pref d ip" by (rule best_upto_same [OF that d(2)]) simp
  ultimately show ?thesis unfolding best_def best_upto_del [OF d(1)] by auto
qed

text \<open>The addresses of a rule have a match at least as long.\<close>

lemma rule_full:
  assumes ok: "lpm_ok l R" and d: "1 \<le> d" "d \<le> 32" and r: "R (p, d) = Some nh" and a: "pref d a = p"
  shows "\<exists>e nh. look l a = Some (e, nh) \<and> d \<le> e"
  using best_upto_ge [of R d a nh 32] assms by (auto simp: lpm_ok_def best_def)

text \<open>No entry of the range of a prefix has a group.\<close>

definition no_group :: "rte_lpm \<Rightarrow> u32 \<Rightarrow> nat \<Rightarrow> bool" where
  "no_group l p d \<longleftrightarrow> (\<forall>x. unat (i24 p) \<le> unat x \<longrightarrow> unat x < unat (i24 p) + 2 ^ (24 - d) \<longrightarrow> \<not> ext (l_tbl24 l x))"

lemma rte_lpm_delete_ok:
  assumes ok: "lpm_ok l R" and d: "1 \<le> unat depth" "unat depth \<le> 32" and some: "R (pref (unat depth) ip, unat depth) = Some nh"
    and clean: "unat depth \<le> 24 \<longrightarrow> no_inner R (pref (unat depth) ip) (unat depth)" and R': "R' = R((pref (unat depth) ip, unat depth) := None)"
  shows "\<exists>l'. rte_lpm_delete l ip depth = (0, l') \<and> rules_ok l' R' \<and> (\<forall>a. look l' a = best R' a) \<and>
    (24 < unat depth \<or> best_upto R' ip (unat depth - 1) = None \<or> no_group l (pref (unat depth) ip) (unat depth) \<longrightarrow> lpm_ok l' R')"
proof -
  let ?d = "unat depth" and ?p = "pref (unat depth) ip"
  have R: "rules_ok l R" "tabs_ok l" and B: "look l a = best R a" for a using ok by (simp_all add: lpm_ok_def)
  obtain k where k: "rule_find l ?p depth = int k" "held_at l ?d k \<lparr>lr_ip = ?p, lr_next_hop = nh\<rparr>"
    using rule_find_ok(2) [OF R(1) d some] by (auto simp: held_at_def)
  define l1 where "l1 = rule_delete l (int k) depth"
  have l1: "rules_ok l1 R'" "same_tables l l1" using rule_delete_ok [OF R(1) d k(2)] by (simp_all add: l1_def R')
  note t = same_tables_look [OF l1(2)]
  obtain j sd where j: "find_previous_rule l1 ip depth = (j, sd)" by (cases "find_previous_rule l1 ip depth")
  define v where "v = best_upto R' ip (?d - 1)"
  have v: "stands_for l1 j sd v" unfolding v_def by (rule find_previous_rule_ok [OF l1(1) d j])
  have B': "(if pref ?d a = ?p \<and> (\<exists>nh. look l1 a = Some (?d, nh)) then v else look l1 a) = best R' a" for a
    unfolding R' best_deleted [OF d] v_def t B by simp
  have full: "\<exists>e nh. look l1 a = Some (e, nh) \<and> ?d \<le> e" if "pref ?d a = ?p" for a unfolding t by (rule rule_full [OF ok d some that])
  have T: "tabs_ok l1" unfolding t(2) by (rule R(2))
  have D: "rte_lpm_delete l ip depth = (if ?d \<le> 24 then delete_depth_small l1 ?p depth j sd else delete_depth_big l1 ?p depth j sd)"
    using d k(1) j by (simp add: rte_lpm_delete_def pref_eq [OF d] l1_def RTE_LPM_MAX_DEPTH_def MAX_DEPTH_TBL24_def word_less_nat_alt word_le_nat_alt)
  show ?thesis
  proof (cases "?d \<le> 24")
    case True
    have c: "no_longer l1 ?p ?d" unfolding t(3) using clean True by (intro no_longerI [OF ok]) simp_all
    have "v = None \<or> unat sd \<le> 24"
      using v best_upto_le [of R' ip "?d - 1"] True unfolding v_def [symmetric] by (cases v) (force simp: stands_for_def)+
    note s = delete_depth_small_ok [OF T d(1) True pref_idem c _ v this refl]
    let ?l = "snd (delete_depth_small l1 ?p depth j sd)"
    have L: "\<forall>a. look ?l a = best R' a" using s(2) full B' by simp
    have S: "rules_ok ?l R'" using l1(1) same_rules_ok(1) [OF s(1)] full by simp
    have "tabs_ok ?l" if "v = None \<or> no_group l ?p ?d" using s(3) full that l1(2) unfolding no_group_def by (simp add: same_tables_def)
    moreover have "rte_lpm_delete l ip depth = (0, ?l)" using D True by (simp add: delete_depth_small_def)
    ultimately show ?thesis using S L True unfolding lpm_ok_def v_def by auto
  next
    case False
    then have d24: "24 < ?d" by simp
    have "ext (l_tbl24 l (i24 ?p))" using some by (intro rule_covers_ext [OF ok d24 d(2)]) simp
    then have "ext (l_tbl24 l1 (i24 ?p))" using l1(2) by (simp add: same_tables_def)
    from delete_depth_big_ok [OF T d24 d(2) pref_idem this _ v B'] full
    obtain l' where "delete_depth_big l1 ?p depth j sd = (0, l')" "tabs_ok l'" "same_rules l1 l'" "\<forall>a. look l' a = best R' a" by blast
    then show ?thesis using D False l1(1) same_rules_ok(1) [of l1 l'] by (simp add: lpm_ok_def)
  qed
qed

end
