(* ===== verification/Lpm_Lookup.thy ===== *)
theory Lpm_Lookup
  imports Lpm_Tables
begin

text \<open>
  The look-ups read 16 bits of an entry at once. They return what the tables say of an address, one at a time, many in one call
  or four with one mask.
\<close>

section \<open>Entries as 16 bits\<close>

lemma bit_imp_less6: "bit (d :: 6 word) n \<Longrightarrow> n < 6" using bit_imp_le_length [of d n] by simp
lemma bit_imp_less8: "bit (h :: u8) n \<Longrightarrow> n < 8" using bit_imp_le_length [of h n] by simp

lemma flag_bits:
  assumes "n < 16"
  shows "bit (0x300 :: u16) n \<longleftrightarrow> n = 8 \<or> n = 9" "bit (0x100 :: u16) n \<longleftrightarrow> n = 8" "bit (0x200 :: u16) n \<longleftrightarrow> n = 9"
  using assms by (auto simp: less_Suc_eq numeral_eq_Suc)

lemma entry_bits:
  fixes h :: u8 and d :: "6 word" and v w :: bool
  defines "x \<equiv> (ucast h OR (if v then 0x100 else 0) OR (if w then 0x200 else 0) OR push_bit 10 (ucast d) :: u16)"
  shows "ucast x = h" "bit x 8 = v" "bit x 9 = w"
proof -
  have b: "bit x n \<longleftrightarrow> bit h n \<or> v \<and> n = 8 \<or> w \<and> n = 9 \<or> 10 \<le> n \<and> bit d (n - 10)" if "n < 16" for n
    using that bit_imp_less6 [of d "n - 10"] flag_bits [OF that] unfolding x_def
    by (cases v; cases w) (auto simp: bit_or_iff bit_push_bit_iff bit_ucast_iff)
  show "bit x 8 = v" "bit x 9 = w" using b [of 8] b [of 9] bit_imp_less8 [of h 8] bit_imp_less8 [of h 9] by auto
  show "ucast x = h" by (rule bit_word_eqI) (use b in \<open>auto simp: bit_ucast_iff\<close>)
qed

lemma and_bits:
  fixes x :: u16
  shows "x AND RTE_LPM_VALID_EXT_ENTRY_BITMASK = RTE_LPM_VALID_EXT_ENTRY_BITMASK \<longleftrightarrow> bit x 8 \<and> bit x 9"
    "x AND RTE_LPM_LOOKUP_SUCCESS \<noteq> 0 \<longleftrightarrow> bit x 8"
proof -
  have e: "x AND RTE_LPM_VALID_EXT_ENTRY_BITMASK = RTE_LPM_VALID_EXT_ENTRY_BITMASK \<longleftrightarrow> (\<forall>n<16. n = 8 \<or> n = 9 \<longrightarrow> bit x n)"
    unfolding RTE_LPM_VALID_EXT_ENTRY_BITMASK_def bit_eq_iff [where 'a = u16] using flag_bits(1) by (simp add: bit_and_iff) blast
  show "x AND RTE_LPM_VALID_EXT_ENTRY_BITMASK = RTE_LPM_VALID_EXT_ENTRY_BITMASK \<longleftrightarrow> bit x 8 \<and> bit x 9" unfolding e by (auto dest: spec [of _ 8] spec [of _ 9])
  have "x AND RTE_LPM_LOOKUP_SUCCESS = 0 \<longleftrightarrow> (\<forall>n<16. bit x n \<longrightarrow> \<not> bit (0x100 :: u16) n)"
    unfolding RTE_LPM_LOOKUP_SUCCESS_def bit_eq_iff [where 'a = u16] by (simp add: bit_and_iff)
  also have "\<dots> \<longleftrightarrow> \<not> bit x 8" using flag_bits(2) by (auto dest: spec [of _ 8])
  finally show "x AND RTE_LPM_LOOKUP_SUCCESS \<noteq> 0 \<longleftrightarrow> bit x 8" by simp
qed

lemma bits24_entry: "ucast (bits24 e) = t24_next_hop e" "bit (bits24 e) 8 = t24_valid e" "bit (bits24 e) 9 = t24_ext_entry e"
  unfolding bits24_def by (rule entry_bits)+

lemma bits8_entry: "ucast (bits8 f) = t8_next_hop f" "bit (bits8 f) 8 = t8_valid f" "bit (bits8 f) 9 = t8_valid_group f"
  unfolding bits8_def by (rule entry_bits)+

lemma low_byte: "ucast (ucast ip :: u8) = (ip AND 0xFF :: u32)"
  unfolding word_unat_eq_iff unat_and_ff low8_def by (simp add: unsigned_ucast_eq unsigned_take_bit_eq take_bit_eq_mod unat_mod)

section \<open>One address\<close>

lemma lookup_bits_eq:
  "lookup_bits l ip = (let e = l_tbl24 l (i24 ip) in if ext e then bits8 (l_tbl8 l (at8 e ip)) else bits24 e)"
  unfolding lookup_bits_def Let_def and_bits bits24_entry low_byte ext_def at8_def group_start_def i24_def by (simp add: add.commute)

lemma lookup_bits_look:
  "bit (lookup_bits l ip) 8 \<longleftrightarrow> look l ip \<noteq> None" "look l ip = Some (d, nh) \<Longrightarrow> ucast (lookup_bits l ip) = nh"
  unfolding lookup_bits_eq look_def Let_def by (auto simp: ent8_def ent24_def bits24_entry bits8_entry split: if_splits)

lemma lookup_look:
  "look l ip = None \<Longrightarrow> fst (rte_lpm_lookup l ip) = - ENOENT" "look l ip = Some (d, nh) \<Longrightarrow> rte_lpm_lookup l ip = (0, nh)"
  using lookup_bits_look [of l ip] by (simp_all add: rte_lpm_lookup_def Let_def and_bits)

section \<open>Four addresses\<close>

lemma pack4_part:
  "k < 4 \<Longrightarrow> n < 16 \<Longrightarrow> bit (pack4 a b c d) (16 * k + n) = bit ([a, b, c, d] ! k) n"
proof -
  assume k: "k < 4" and n: "n < 16"
  have z: "bit (x :: u16) m \<Longrightarrow> m < 16" for x m using bit_imp_le_length [of x m] by simp
  consider "k = 0" | "k = 1" | "k = 2" | "k = 3" using k by linarith
  then show ?thesis
    using n z [of a "16 + n"] z [of a "32 + n"] z [of a "48 + n"] z [of b "16 + n"] z [of b "32 + n"] z [of c "16 + n"]
    by cases (auto simp: pack4_def bit_or_iff bit_push_bit_iff bit_ucast_iff)
qed

definition part :: "nat \<Rightarrow> u64 \<Rightarrow> u16" where "part k pt = ucast (drop_bit (16 * k) pt)"

lemma bit_part: "n < 16 \<Longrightarrow> bit (part k pt) n = bit pt (16 * k + n)"
  by (simp add: part_def bit_ucast_iff bit_drop_bit_eq)

lemma part_pack4: "k < 4 \<Longrightarrow> part k (pack4 a b c d) = [a, b, c, d] ! k"
  by (rule bit_word_eqI) (simp add: bit_part pack4_part)

lemma part_and: "part k (x AND y) = part k x AND part k y"
  by (rule bit_word_eqI) (simp add: bit_part bit_and_iff)

lemma test_part: "drop_bit (16 * k) pt AND ucast m = (ucast m :: u64) \<longleftrightarrow> part k pt AND m = m" for m :: u16
proof -
  have "drop_bit (16 * k) pt AND ucast m = (ucast (part k pt AND m) :: u64)"
    using bit_imp_le_length [of m] by (intro bit_word_eqI) (auto simp: bit_and_iff bit_ucast_iff bit_part bit_drop_bit_eq)
  moreover have "ucast x = (ucast y :: u64) \<longleftrightarrow> x = y" for x y :: u16
  proof -
    have "ucast (ucast z :: u64) = z" for z :: u16 by (rule bit_word_eqI) (simp add: bit_ucast_iff)
    then show ?thesis by metis
  qed
  ultimately show ?thesis by simp
qed

text \<open>The two indices loaded from 64 bits.\<close>

lemma two_indices:
  fixes x y :: u32
  shows "ucast (ucast x OR push_bit 32 (ucast y) :: u64) = x" "ucast (drop_bit 32 (ucast x OR push_bit 32 (ucast y) :: u64)) = y"
proof -
  have z: "\<not> bit x n" if "32 \<le> n" for n using that bit_imp_le_length [of x n] by auto
  show "ucast (ucast x OR push_bit 32 (ucast y) :: u64) = x" "ucast (drop_bit 32 (ucast x OR push_bit 32 (ucast y) :: u64)) = y"
    by (rule bit_word_eqI; use z in \<open>auto simp: bit_ucast_iff bit_or_iff bit_push_bit_iff bit_drop_bit_eq\<close>)+
qed

lemma x4_entry_eq:
  assumes "k < 4" and "part k pt = bits24 (l_tbl24 l (drop_bit 8 ip))"
  shows "x4_entry l pt k (ip AND 0xFF) (bits24 (l_tbl24 l (drop_bit 8 ip))) = lookup_bits l ip"
  unfolding x4_entry_def test_part assms(2) lookup_bits_def Let_def low_byte by simp

text \<open>One look-up with a default.\<close>

definition lookup_or :: "rte_lpm \<Rightarrow> u16 \<Rightarrow> u32 \<Rightarrow> u16" where
  "lookup_or l defv ip = (case rte_lpm_lookup l ip of (r, nh) \<Rightarrow> if r = 0 then ucast nh else defv)"

lemma x4_hop_eq: "x4_hop defv (lookup_bits l ip) = lookup_or l defv ip"
  by (simp add: x4_hop_def lookup_or_def rte_lpm_lookup_def Let_def ENOENT_def)

lemma plain_entry:
  assumes "bits24 (l_tbl24 l (drop_bit 8 ip)) AND RTE_LPM_VALID_EXT_ENTRY_BITMASK = RTE_LPM_LOOKUP_SUCCESS" (is "?t AND _ = _")
  shows "?t AND 0xff = lookup_or l defv ip"
proof -
  have "bit (?t AND RTE_LPM_VALID_EXT_ENTRY_BITMASK) 8" "\<not> bit (?t AND RTE_LPM_VALID_EXT_ENTRY_BITMASK) 9"
    unfolding assms RTE_LPM_LOOKUP_SUCCESS_def by simp_all
  then have b: "bit ?t 8" "\<not> bit ?t 9" by (simp_all add: bit_and_iff RTE_LPM_VALID_EXT_ENTRY_BITMASK_def)
  then have "lookup_bits l ip = ?t" by (simp add: lookup_bits_def and_bits Let_def)
  moreover have "?t AND 0xff = ucast (ucast ?t :: u8)"
  proof -
    have "(0xff :: u16) = mask 8" by (simp add: mask_eq_decr_exp)
    then have "?t AND 0xff = take_bit 8 ?t" by (simp only: take_bit_eq_mask)
    also have "\<dots> = ucast (ucast ?t :: u8)" by (rule bit_word_eqI) (auto simp: bit_take_bit_iff bit_ucast_iff)
    finally show ?thesis .
  qed
  ultimately show ?thesis using b(1) by (simp add: x4_hop_eq [symmetric] x4_hop_def and_bits)
qed

lemma lookupx4_eq:
  "rte_lpm_lookupx4 l (a, b, c, d) defv = (lookup_or l defv a, lookup_or l defv b, lookup_or l defv c, lookup_or l defv d)"
proof -
  let ?t = "\<lambda>ip. bits24 (l_tbl24 l (drop_bit 8 ip))"
  let ?M = RTE_LPM_VALID_EXT_ENTRY_BITMASK and ?S = RTE_LPM_LOOKUP_SUCCESS
  define pt where "pt = pack4 (?t a) (?t b) (?t c) (?t d)"
  have p: "part 0 pt = ?t a" "part 1 pt = ?t b" "part 2 pt = ?t c" "part 3 pt = ?t d" by (simp_all add: pt_def part_pack4)
  show ?thesis
  proof (cases "pt AND pack4 ?M ?M ?M ?M = pack4 ?S ?S ?S ?S")
    case True
    have m: "(0x00ff00ff00ff00ff :: u64) = pack4 0xff 0xff 0xff 0xff" by (simp add: pack4_def)
    have h: "part k (pt AND 0x00ff00ff00ff00ff) = part k pt AND 0xff" if "k < 4" for k
    proof -
      have "[0xff, 0xff, 0xff, 0xff] ! k = (0xff :: u16)" using that by (auto simp: less_Suc_eq numeral_eq_Suc)
      then show ?thesis unfolding part_and m part_pack4 [OF that] by simp
    qed
    have "part k pt AND ?M = ?S" if "k < 4" for k
    proof -
      have "part k (pt AND pack4 ?M ?M ?M ?M) = part k (pack4 ?S ?S ?S ?S)" using True by simp
      moreover have "[?M, ?M, ?M, ?M] ! k = ?M" "[?S, ?S, ?S, ?S] ! k = ?S" using that by (auto simp: less_Suc_eq numeral_eq_Suc)
      ultimately show ?thesis unfolding part_and part_pack4 [OF that] by simp
    qed
    from this [of 0] this [of 1] this [of 2] this [of 3]
    have e: "?t a AND 0xff = lookup_or l defv a" "?t b AND 0xff = lookup_or l defv b" "?t c AND 0xff = lookup_or l defv c" "?t d AND 0xff = lookup_or l defv d"
      by (auto simp: p p(2) [unfolded One_nat_def] intro!: plain_entry)
    show ?thesis
      using True h [of 0] h [of 1] h [of 2] h [of 3] e
      unfolding rte_lpm_lookupx4_def prod.case Let_def two_indices pt_def [symmetric] p by (simp add: part_def)
  next
    case False
    have "x4_entry l pt 0 (a AND 0xFF) (?t a) = lookup_bits l a" "x4_entry l pt 1 (b AND 0xFF) (?t b) = lookup_bits l b"
      "x4_entry l pt 2 (c AND 0xFF) (?t c) = lookup_bits l c" "x4_entry l pt 3 (d AND 0xFF) (?t d) = lookup_bits l d"
      by (rule x4_entry_eq; simp only: p; simp)+
    then show ?thesis using False unfolding rte_lpm_lookupx4_def prod.case Let_def two_indices pt_def [symmetric] by (simp only: if_False x4_hop_eq)
  qed
qed

end
