(* ===== verification/Lpm_Spec.thy ===== *)
theory Lpm_Spec
  imports Lpm_Delete Lpm_Lookup
begin

text \<open>
  What the longest prefix match promises: a created table is empty, a look-up returns the longest match, adding and deleting change
  the rules by one, and a table loaded from the shortest prefix to the longest answers by the routes alone. Adding a prefix
  above a longer one that has no group of its own writes to the group its next hop names.
\<close>

section \<open>A table with no rules\<close>

definition fresh_lpm :: "string \<Rightarrow> u32 \<Rightarrow> rte_lpm" where
  "fresh_lpm name n = \<lparr>l_name = name, l_max_rules = n, l_rule_info = \<lambda>_. \<lparr>used_rules = 0, first_rule = 0\<rparr>, l_tbl24 = \<lambda>_. zero24, l_tbl8 = \<lambda>_. zero8,
     l_rules_tbl = \<lambda>_. \<lparr>lr_ip = 0, lr_next_hop = 0\<rparr>\<rparr>"

lemma best_none: "best (\<lambda>_. None) ip = None"
proof -
  have "best_upto (\<lambda>_. None) ip n = None" for n by (induction n) simp_all
  then show ?thesis by (simp add: best_def)
qed

lemma cleared_ok:
  assumes "l_rule_info l = (\<lambda>_. \<lparr>used_rules = 0, first_rule = 0\<rparr>)" and "l_tbl24 l = (\<lambda>_. zero24)" and "0 < unat (l_max_rules l)" and "unat (l_max_rules l) < 2 ^ 31"
  shows "lpm_ok l (\<lambda>_. None)"
proof -
  have u: "us l g = 0" "fs l g = 0" "group l g = []" for g using assms(1) by (simp_all add: us_def fs_def group_def cells_def)
  then have "rules_ok l (\<lambda>_. None)" using assms(3,4) by (simp add: rules_ok_def packed_def start_def)
  moreover have "tabs_ok l" using assms(2) by (simp add: tabs_ok_def ext_def zero24_def)
  moreover have "look l ip = None" for ip using assms(2) by (simp add: look_def ext_def ent24_def zero24_def)
  ultimately show ?thesis by (simp add: lpm_ok_def best_none)
qed

lemma fresh_ok: "0 < unat n \<Longrightarrow> unat n < 2 ^ 31 \<Longrightarrow> lpm_ok (fresh_lpm name n) (\<lambda>_. None)"
  by (rule cleared_ok) (simp_all add: fresh_lpm_def)

lemma delete_all_ok: "0 < unat (l_max_rules l) \<Longrightarrow> unat (l_max_rules l) < 2 ^ 31 \<Longrightarrow> lpm_ok (rte_lpm_delete_all l) (\<lambda>_. None)"
  by (rule cleared_ok) (simp_all add: rte_lpm_delete_all_def)

lemma create_fresh:
  assumes "find_lpm w name (lw_list w) 0 = (None, last_lpm)" and "- 1 \<le> socket_id" and "max_rules \<noteq> 0" and "te \<noteq> 0" and "alloc (lpm_mem_size max_rules) = lpm" and "lpm \<noteq> 0"
  shows "rte_lpm_create te alloc (Some name) socket_id max_rules w =
    (lpm, w\<lparr>lw_lpm := (lw_lpm w)(lpm := fresh_lpm (take 31 name) (of_int max_rules)), lw_list := lw_list w @ [(te, lpm)]\<rparr>)"
  using assms by (simp add: rte_lpm_create_def fresh_lpm_def RTE_LPM_NAMESIZE_def Let_def)

section \<open>The interface\<close>

text \<open>Routes added one after the other, up to the first that has no room.\<close>

fun load_routes :: "('s \<Rightarrow> u32 \<Rightarrow> u8 \<Rightarrow> u8 \<Rightarrow> int \<times> 's) \<Rightarrow> 's \<Rightarrow> (u32 \<times> u8 \<times> u8) list \<Rightarrow> int \<times> 's" where
  "load_routes add s [] = (0, s)"
| "load_routes add s ((ip, depth, nh) # rs) = (case add s ip depth nh of (r, s') \<Rightarrow> if r < 0 then (r, s') else load_routes add s' rs)"

fun routed :: "routes \<Rightarrow> (u32 \<times> u8 \<times> u8) list \<Rightarrow> routes" where
  "routed R [] = R"
| "routed R ((ip, depth, nh) # rs) = routed (R((pref (unat depth) ip, unat depth) \<mapsto> nh)) rs"

definition depths :: "(u32 \<times> u8 \<times> u8) list \<Rightarrow> nat list" where "depths rs = map (\<lambda>(_, depth, _). unat depth) rs"

text \<open>What a client relies on: a look-up is the longest match, and a route above no longer one of the first table can be added.\<close>

locale route_store =
  fixes ok :: "'s \<Rightarrow> routes \<Rightarrow> bool" and add :: "'s \<Rightarrow> u32 \<Rightarrow> u8 \<Rightarrow> u8 \<Rightarrow> int \<times> 's" and lookup :: "'s \<Rightarrow> u32 \<Rightarrow> int \<times> u8"
  assumes add_law: "ok s R \<Longrightarrow> 1 \<le> unat depth \<Longrightarrow> unat depth \<le> 32 \<Longrightarrow> unat depth \<le> 24 \<longrightarrow> no_inner R (pref (unat depth) ip) (unat depth) \<Longrightarrow>
      add s ip depth nh = (r, s') \<Longrightarrow> r = 0 \<and> ok s' (R((pref (unat depth) ip, unat depth) \<mapsto> nh)) \<or> r = - ENOSPC \<and> ok s' R"
    and lookup_law: "ok s R \<Longrightarrow> case best R ip of None \<Rightarrow> fst (lookup s ip) = - ENOENT | Some (_, nh) \<Rightarrow> lookup s ip = (0, nh)"
begin

lemma load_sorted:
  assumes "ok s R" and "sorted (depths rs)" and "set (depths rs) \<subseteq> {1..32}" and "\<And>q e. R (q, e) \<noteq> None \<Longrightarrow> \<forall>d \<in> set (depths rs). e \<le> d"
  shows "\<exists>xs ys. rs = xs @ ys \<and> ok (snd (load_routes add s rs)) (routed R xs) \<and> (fst (load_routes add s rs) = 0 \<and> ys = [] \<or> fst (load_routes add s rs) = - ENOSPC \<and> ys \<noteq> [])"
  using assms
proof (induction rs arbitrary: s R)
  case Nil
  then show ?case by simp
next
  case (Cons x rs)
  obtain ip depth nh where x: "x = (ip, depth, nh)" by (cases x)
  let ?d = "unat depth" and ?R = "R((pref (unat depth) ip, unat depth) \<mapsto> nh)"
  obtain r s' where a: "add s ip depth nh = (r, s')" by (cases "add s ip depth nh")
  have d: "1 \<le> ?d" "?d \<le> 32" and le: "\<forall>d \<in> set (depths rs). ?d \<le> d" using Cons.prems(2,3) by (simp_all add: x depths_def)
  have old: "e \<le> ?d" "\<forall>d \<in> set (depths rs). e \<le> d" if "R (q, e) \<noteq> None" for q e using Cons.prems(4) [OF that] by (simp_all add: x depths_def)
  have "no_inner R (pref ?d ip) ?d" unfolding no_inner_def using old(1) by (metis not_less)
  then consider "r = 0" "ok s' ?R" | "r = - ENOSPC" "ok s' R" using add_law [OF Cons.prems(1) d _ a] by blast
  then show ?case
  proof cases
    case 1
    have "\<exists>xs ys. rs = xs @ ys \<and> ok (snd (load_routes add s' rs)) (routed ?R xs) \<and> (fst (load_routes add s' rs) = 0 \<and> ys = [] \<or> fst (load_routes add s' rs) = - ENOSPC \<and> ys \<noteq> [])"
      using Cons.prems(2,3) le old(2) by (intro Cons.IH [OF 1(2)]) (auto simp: depths_def split: if_splits)
    then obtain xs ys where "rs = xs @ ys" "ok (snd (load_routes add s' rs)) (routed ?R xs)"
      "fst (load_routes add s' rs) = 0 \<and> ys = [] \<or> fst (load_routes add s' rs) = - ENOSPC \<and> ys \<noteq> []" by blast
    then show ?thesis using a 1(1) by (intro exI [of _ "x # xs"] exI [of _ ys]) (simp add: x)
  next
    case 2
    then show ?thesis using a by (intro exI [of _ "[]"] exI [of _ "x # rs"]) (simp add: x ENOSPC_def)
  qed
qed

text \<open>A loaded table answers by the routes that were taken.\<close>

lemma load_lookup:
  assumes "ok s (\<lambda>_. None)" and "sorted (depths rs)" and "set (depths rs) \<subseteq> {1..32}" and "fst (load_routes add s rs) = 0"
  shows "case best (routed (\<lambda>_. None) rs) ip of
    None \<Rightarrow> fst (lookup (snd (load_routes add s rs)) ip) = - ENOENT | Some (_, nh) \<Rightarrow> lookup (snd (load_routes add s rs)) ip = (0, nh)"
  using load_sorted [OF assms(1-3)] assms(4) lookup_law by (force simp: ENOSPC_def)

end

lemma lookup_ok:
  assumes "lpm_ok l R"
  shows "case best R ip of None \<Rightarrow> fst (rte_lpm_lookup l ip) = - ENOENT | Some (_, nh) \<Rightarrow> rte_lpm_lookup l ip = (0, nh)"
  using assms lookup_look [of l ip] by (auto simp: lpm_ok_def split: option.splits)

interpretation lpm: route_store lpm_ok rte_lpm_add rte_lpm_lookup
proof unfold_locales
  show "r = 0 \<and> lpm_ok s' (R((pref (unat depth) ip, unat depth) \<mapsto> nh)) \<or> r = - ENOSPC \<and> lpm_ok s' R"
    if "lpm_ok s R" "1 \<le> unat depth" "unat depth \<le> 32" "unat depth \<le> 24 \<longrightarrow> no_inner R (pref (unat depth) ip) (unat depth)" "rte_lpm_add s ip depth nh = (r, s')"
    for s R depth ip nh r s'
    using rte_lpm_add_ok [OF that(1-4), of nh] that(5) by (auto simp: added_def split: if_splits)
qed (rule lookup_ok)

section \<open>The operations\<close>

text \<open>A table of eight rules, and the same with one route.\<close>

lemma fresh8: "lpm_ok (fresh_lpm ''t'' 8) (\<lambda>_. None)"
  by (rule fresh_ok) simp_all

lemma fresh8_room: "room (fresh_lpm ''t'' 8) (\<lambda>_. None) p d"
proof -
  have "free_group (fresh_lpm ''t'' 8)" unfolding free_group_def by (rule exI [of _ 0]) (simp add: fresh_lpm_def zero8_def)
  then show ?thesis by (simp add: room_def fresh_lpm_def)
qed

lemma pref_28: "pref 28 0x0A000001 = 0x0A000000"
  by (simp add: pref_def mask_eq_decr_exp)

text \<open>Creating a table under a name that no table has gives a table with no rules, in which every look-up fails, and the name, when it
  has less than 32 characters, finds it again.\<close>
theorem lpm_create_roundtrip:
  assumes "find_lpm w name (lw_list w) 0 = (None, last_lpm)" and "- 1 \<le> socket_id" and "0 < max_rules" and "max_rules < 2 ^ 31" and "te \<noteq> 0"
    and "alloc (lpm_mem_size max_rules) \<noteq> 0" and "alloc (lpm_mem_size max_rules) \<notin> snd ` set (lw_list w)" and "length name < 32"
  shows "case rte_lpm_create te alloc (Some name) socket_id max_rules w of
    (lpm, w') \<Rightarrow> lpm \<noteq> 0 \<and> lpm_ok (lw_lpm w' lpm) (\<lambda>_. None) \<and> rte_lpm_find_existing name w' = (lpm, w')"
proof -
  define lpm where "lpm = alloc (lpm_mem_size max_rules)"
  define w' where "w' = w\<lparr>lw_lpm := (lw_lpm w)(lpm := fresh_lpm (take 31 name) (of_int max_rules)), lw_list := lw_list w @ [(te, lpm)]\<rparr>"
  have c: "rte_lpm_create te alloc (Some name) socket_id max_rules w = (lpm, w')"
    unfolding w'_def using assms by (intro create_fresh) (simp_all add: lpm_def)
  have "find_lpm w' name (xs @ [(te, lpm)]) a = (Some te, lpm)" if "find_lpm w name xs a = (None, b)" "lpm \<notin> snd ` set xs" for xs a b
    using that
  proof (induction xs arbitrary: a)
    case Nil
    have "take 31 name = name" "take 32 name = name" using assms(8) by simp_all
    then show ?case by (simp add: w'_def fresh_lpm_def strncmp_eq_def RTE_LPM_NAMESIZE_def)
  next
    case (Cons x xs)
    then show ?case by (cases x) (auto simp: w'_def split: if_splits)
  qed
  then have "rte_lpm_find_existing name w' = (lpm, w')" using assms(1,7) by (simp add: rte_lpm_find_existing_def w'_def lpm_def)
  moreover have "unat (of_int max_rules :: u32) = nat max_rules"
  proof -
    have "(of_int max_rules :: u32) = of_nat (nat max_rules)" using assms(3) by simp
    then show ?thesis using assms(4) unat_of_nat_less [of "nat max_rules"] by simp
  qed
  then have "lpm_ok (lw_lpm w' lpm) (\<lambda>_. None)" unfolding w'_def using assms(3,4) by (simp add: fresh_ok)
  ultimately show ?thesis using c assms(6) by (simp add: lpm_def)
qed

theorem lpm_create_roundtrip_witness:
  "case rte_lpm_create 8 (\<lambda>_. 4096) (Some ''routes'') 0 1024 \<lparr>lw_list = [], lw_lpm = \<lambda>_. fresh_lpm [] 0, lw_freed = [], lw_errno = 0\<rparr> of
    (lpm, w') \<Rightarrow> lpm \<noteq> 0 \<and> lpm_ok (lw_lpm w' lpm) (\<lambda>_. None) \<and> rte_lpm_find_existing ''routes'' w' = (lpm, w')"
  by (rule lpm_create_roundtrip) simp_all

text \<open>C25: A look-up in a table in step with the routes R returns 0 and the next hop of the longest match, or \<open>-ENOENT\<close>; a bulk look-up says the same of
  each of its addresses.\<close>
theorem lpm_lookup_exact:
  assumes "lpm_ok l R"
  shows "(case best R ip of None \<Rightarrow> fst (rte_lpm_lookup l ip) = - ENOENT | Some (_, nh) \<Rightarrow> rte_lpm_lookup l ip = (0, nh)) \<and>
    list_all2 (\<lambda>a e. case best R a of None \<Rightarrow> e AND RTE_LPM_LOOKUP_SUCCESS = 0 | Some (_, nh) \<Rightarrow> e AND RTE_LPM_LOOKUP_SUCCESS \<noteq> 0 \<and> ucast e = nh)
      ips (snd (rte_lpm_lookup_bulk_func l ips))"
proof (rule conjI [OF lookup_ok [OF assms]])
  have "case best R a of None \<Rightarrow> lookup_bits l a AND RTE_LPM_LOOKUP_SUCCESS = 0
      | Some (_, nh) \<Rightarrow> lookup_bits l a AND RTE_LPM_LOOKUP_SUCCESS \<noteq> 0 \<and> ucast (lookup_bits l a) = nh" for a
    using assms lookup_bits_look [of l a] and_bits(2) [of "lookup_bits l a"] by (auto simp: lpm_ok_def split: option.splits)
  then show "list_all2 (\<lambda>a e. case best R a of None \<Rightarrow> e AND RTE_LPM_LOOKUP_SUCCESS = 0 | Some (_, nh) \<Rightarrow> e AND RTE_LPM_LOOKUP_SUCCESS \<noteq> 0 \<and> ucast e = nh)
      ips (snd (rte_lpm_lookup_bulk_func l ips))"
    by (simp add: rte_lpm_lookup_bulk_func_def list_all2_map2 list.rel_refl)
qed

theorem lpm_lookup_exact_witness:
  "fst (rte_lpm_lookup (fresh_lpm ''t'' 8) 0x0A000001) = - ENOENT \<and> snd (rte_lpm_lookup_bulk_func (fresh_lpm ''t'' 8) [0x0A000001]) ! 0 AND RTE_LPM_LOOKUP_SUCCESS = 0"
  using lpm_lookup_exact [OF fresh8, of "0x0A000001" "[0x0A000001]"] by (auto simp: best_none list_all2_Cons1)

text \<open>C27: The look-up of four addresses with one mask test gives, for each of them, what the single look-up gives, with the default for those that have no match.\<close>
theorem lpm_lookupx4_exact:
  "rte_lpm_lookupx4 l (a, b, c, d) defv = (lookup_or l defv a, lookup_or l defv b, lookup_or l defv c, lookup_or l defv d)"
  by (rule lookupx4_eq)

text \<open>C23: \<open>rte_lpm_add\<close>, where no route of at most 24 bits lies inside the new prefix and is longer: the routes are those of before and the new one, or,
  when the rule is new and the rule table is full or the prefix needs a group and none is free, \<open>-ENOSPC\<close> with the look-up tables unchanged. Either way the tables stay in step with the routes.\<close>
theorem lpm_add_exact:
  assumes "lpm_ok l R" and "1 \<le> unat depth" and "unat depth \<le> 32" and "unat depth \<le> 24 \<longrightarrow> no_inner R (pref (unat depth) ip) (unat depth)"
  shows "case rte_lpm_add l ip depth nh of (r, l') \<Rightarrow> l_max_rules l' = l_max_rules l \<and>
   (if R (pref (unat depth) ip, unat depth) \<noteq> None \<or> room l R (pref (unat depth) ip) (unat depth)
    then r = 0 \<and> lpm_ok l' (R((pref (unat depth) ip, unat depth) \<mapsto> nh))
    else r = - ENOSPC \<and> lpm_ok l' R \<and> same_tables l l')"
  using rte_lpm_add_ok [OF assms, of nh] by (simp add: added_def split_def)

theorem lpm_add_exact_witness:
  "case rte_lpm_add (fresh_lpm ''t'' 8) 0x0A000001 28 5 of (r, l') \<Rightarrow> r = 0 \<and> lpm_ok l' ((\<lambda>_. None)((0x0A000000, 28) \<mapsto> 5))"
  using lpm_add_exact [OF fresh8, of 28 "0x0A000001" 5] by (simp add: fresh8_room pref_28 split_def)

lemma sample_lpm: "lpm_ok (snd (rte_lpm_add (fresh_lpm ''t'' 8) 0x0A000001 28 5)) ((\<lambda>_. None)((0x0A000000, 28) \<mapsto> 5))"
  using rte_lpm_add_ok [OF fresh8, of 28 "0x0A000001" 5] by (simp add: added_def fresh8_room pref_28)

text \<open>C24: \<open>rte_lpm_delete\<close> of a route that is not there returns \<open>-EINVAL\<close> and changes nothing. Of one that is there, with no longer route of at most 24 bits inside
  it, the routes are those of before without it and every look-up returns the longest match among them; the table can be used on when the prefix is longer than 24 bits, no shorter
  route covers it, or no group lies inside it.\<close>
theorem lpm_delete_exact:
  assumes "lpm_ok l R" and "1 \<le> unat depth" and "unat depth \<le> 32" and "unat depth \<le> 24 \<longrightarrow> no_inner R (pref (unat depth) ip) (unat depth)"
    and "R' = R((pref (unat depth) ip, unat depth) := None)"
  shows "case rte_lpm_delete l ip depth of (r, l') \<Rightarrow>
    if R (pref (unat depth) ip, unat depth) = None then r = - EINVAL \<and> l' = l
    else r = 0 \<and> rules_ok l' R' \<and>
      (\<forall>a. case best R' a of None \<Rightarrow> fst (rte_lpm_lookup l' a) = - ENOENT | Some (_, nh) \<Rightarrow> rte_lpm_lookup l' a = (0, nh)) \<and>
      (24 < unat depth \<or> best_upto R' ip (unat depth - 1) = None \<or> no_group l (pref (unat depth) ip) (unat depth) \<longrightarrow> lpm_ok l' R')"
proof (cases "R (pref (unat depth) ip, unat depth)")
  case None
  have r: "rules_ok l R" using assms(1) by (simp add: lpm_ok_def)
  have "rule_find l (pref (unat depth) ip) depth = - EINVAL" by (rule rule_find_ok(1) [OF r assms(2,3) None])
  then show ?thesis using None assms(2,3) by (simp add: rte_lpm_delete_def pref_eq EINVAL_def Let_def word_less_nat_alt)
next
  case (Some nh)
  obtain l' where l': "rte_lpm_delete l ip depth = (0, l')" "rules_ok l' R'" "\<forall>a. look l' a = best R' a"
    "24 < unat depth \<or> best_upto R' ip (unat depth - 1) = None \<or> no_group l (pref (unat depth) ip) (unat depth) \<longrightarrow> lpm_ok l' R'"
    using rte_lpm_delete_ok [OF assms(1-3) Some assms(4,5)] by blast
  have "case best R' a of None \<Rightarrow> fst (rte_lpm_lookup l' a) = - ENOENT | Some (_, nh) \<Rightarrow> rte_lpm_lookup l' a = (0, nh)" for a
    using lookup_look [of l' a] l'(3) by (auto split: option.splits)
  then show ?thesis using l' Some by simp
qed

theorem lpm_delete_exact_witness:
  "case rte_lpm_delete (snd (rte_lpm_add (fresh_lpm ''t'' 8) 0x0A000001 28 5)) 0x0A000001 28 of (r, l') \<Rightarrow> r = 0 \<and> lpm_ok l' (\<lambda>_. None)"
  using lpm_delete_exact [OF sample_lpm, of 28 "0x0A000001"] by (simp add: pref_28 split_def)

text \<open>C26: Routes added to an empty table from the shortest prefix to the longest: when all are taken, every look-up returns the longest match among them.\<close>
theorem lpm_load_exact:
  assumes "0 < unat n" and "unat n < 2 ^ 31" and "sorted (depths rs)" and "set (depths rs) \<subseteq> {1..32}" and "load_routes rte_lpm_add (fresh_lpm name n) rs = (0, l)"
  shows "case best (routed (\<lambda>_. None) rs) ip of None \<Rightarrow> fst (rte_lpm_lookup l ip) = - ENOENT | Some (_, nh) \<Rightarrow> rte_lpm_lookup l ip = (0, nh)"
  using lpm.load_lookup [OF fresh_ok [OF assms(1,2)] assms(3,4), of name ip] unfolding assms(5) snd_conv by simp

theorem lpm_load_exact_witness:
  "\<exists>l. load_routes rte_lpm_add (fresh_lpm ''t'' 8) [(0x0A000001, 28, 5)] = (0, l) \<and> rte_lpm_lookup l 0x0A000001 = (0, 5)"
proof -
  have r: "load_routes rte_lpm_add (fresh_lpm ''t'' 8) [(0x0A000001, 28, 5)] = (0, snd (rte_lpm_add (fresh_lpm ''t'' 8) 0x0A000001 28 5))"
    using rte_lpm_add_ok [OF fresh8, of 28 "0x0A000001" 5] by (simp add: added_def fresh8_room pref_28 split_def)
  have "best (routed (\<lambda>_. None) [(0x0A000001, 28, 5)]) 0x0A000001 = Some (28, 5)"
    using best_upto_add [of 28 "\<lambda>_. None" "0x0A000001" 5 "0x0A000001" 32] best_none [of "0x0A000001"] by (simp add: best_def wins_def)
  then show ?thesis using lpm_load_exact [OF _ _ _ _ r, of "0x0A000001"] r by (simp add: depths_def)
qed

section \<open>Adding a prefix above a longer one\<close>

lemma added_room:
  assumes "added l R p d nh res" and "room l R p d"
  shows "fst res = 0" "lpm_ok (snd res) (R((p, d) \<mapsto> nh))" "l_max_rules (snd res) = l_max_rules l"
  using assms by (simp_all add: added_def)

text \<open>A long prefix changes one entry of the first table, and in an empty table it takes the first group.\<close>

lemma alloc_first: "\<not> t8_valid_group (l_tbl8 l 0) \<Longrightarrow> \<exists>l1. tbl8_alloc l = (0, l1) \<and> new_group l 0 l1 \<and> (\<forall>j. unat j div 256 = 0 \<longrightarrow> \<not> t8_valid (l_tbl8 l1 j))"
proof -
  assume n: "\<not> t8_valid_group (l_tbl8 l 0)"
  have u: "[0..<RTE_LPM_TBL8_NUM_GROUPS] = 0 # [1..<RTE_LPM_TBL8_NUM_GROUPS]" by (simp add: RTE_LPM_TBL8_NUM_GROUPS_def upt_conv_Cons)
  have f: "fst (tbl8_alloc l) = 0" unfolding tbl8_alloc_def u using n by (simp add: Let_def)
  then show ?thesis using tbl8_alloc_ok [of l] by (auto simp: ENOSPC_def)
qed

lemma stored_with_room:
  assumes ok: "lpm_ok l R" and d: "1 \<le> unat depth" "unat depth \<le> 32" and r: "room l R (pref (unat depth) ip) (unat depth)"
  obtains k l1 where "rule_add l (pref (unat depth) ip) depth nh = (int k, l1)" "same_tables l l1"
proof -
  have R: "rules_ok l R" "card (dom R) < unat (l_max_rules l)" using ok r by (simp_all add: lpm_ok_def room_def)
  show thesis by (rule rule_add_cases [OF R(1) d pref_idem, of ip nh]) (use that R(2) in blast)+
qed

lemma add_first_long:
  assumes ok: "lpm_ok l R" and d: "24 < unat depth" "unat depth \<le> 32" and p: "p = pref (unat depth) ip" and r: "room l R p (unat depth)"
    and v: "\<not> t24_valid (l_tbl24 l (i24 p))" "\<not> t8_valid_group (l_tbl8 l 0)"
  shows "l_tbl24 (snd (rte_lpm_add l ip depth nh)) = (l_tbl24 l)(i24 p := \<lparr>t24_next_hop = 0, t24_valid = True, t24_ext_entry = True, t24_depth = 0\<rparr>)"
proof -
  have d1: "1 \<le> unat depth" using d by simp
  obtain k l1 where a: "rule_add l p depth nh = (int k, l1)" "same_tables l l1" using stored_with_room [OF ok d1 d(2), of ip] r p by metis
  then have t: "l_tbl24 l1 = l_tbl24 l" "l_tbl8 l1 = l_tbl8 l" "tabs_ok l1" using ok same_tables_look(2) [OF a(2)] by (simp_all add: same_tables_def lpm_ok_def)
  obtain l2 where "tbl8_alloc l1 = (0, l2)" "new_group l1 0 l2" "\<forall>j. unat j div 256 = 0 \<longrightarrow> \<not> t8_valid (l_tbl8 l2 j)" using alloc_first v(2) t(2) by metis
  then obtain l' where "add_depth_big l1 p depth nh = (0, l')"
    "l_tbl24 l' = (l_tbl24 l1)(i24 p := \<lparr>t24_next_hop = of_nat 0, t24_valid = True, t24_ext_entry = True, t24_depth = 0\<rparr>)"
    using add_big_invalid [OF t(3) d, of p 0 l2 nh] v(1) t(1) p by auto
  then show ?thesis using a(1) d t(1) p
    by (simp add: rte_lpm_add_def pref_eq [OF d1 d(2)] RTE_LPM_MAX_DEPTH_def MAX_DEPTH_TBL24_def word_less_nat_alt word_le_nat_alt)
qed

lemma add_24:
  assumes ok: "lpm_ok l R" and p: "p = pref 24 ip" and r: "room l R p 24" and v: "\<not> t24_valid (l_tbl24 l (i24 p))"
  shows "l_tbl24 (snd (rte_lpm_add l ip 24 nh)) = (l_tbl24 l)(i24 p := \<lparr>t24_next_hop = nh, t24_valid = True, t24_ext_entry = False, t24_depth = 24\<rparr>)"
proof -
  obtain k l1 where a: "rule_add l p 24 nh = (int k, l1)" "same_tables l l1" using stored_with_room [OF ok, of 24 ip] r p by auto
  then show ?thesis using v p
    by (simp add: rte_lpm_add_def pref_eq RTE_LPM_MAX_DEPTH_def MAX_DEPTH_TBL24_def add_depth_small_def depth_to_range_def for_n_def add_small_entry_def Let_def same_tables_def i24_def)
qed

text \<open>The group that the next hop names is written to.\<close>

lemma add_23_clobbers:
  assumes ok: "lpm_ok l R" and p: "p = pref 23 ip" and r: "room l R p 23"
    and e: "l_tbl24 l (i24 p) = \<lparr>t24_next_hop = h, t24_valid = True, t24_ext_entry = False, t24_depth = 24\<rparr>" "\<not> t24_valid (l_tbl24 l (i24 p + 1))"
    and a: "ext (l_tbl24 l (i24 a))" "t24_next_hop (l_tbl24 l (i24 a)) = h" "look l a = None"
  shows "fst (rte_lpm_add l ip 23 nh) = 0" "look (snd (rte_lpm_add l ip 23 nh)) a = Some (23, nh)"
proof -
  let ?f = "\<lparr>t8_next_hop = nh, t8_valid = True, t8_valid_group = True, t8_depth = ucast (23 :: u8)\<rparr>"
  let ?G = "\<lambda>f. if \<not> t8_valid f \<or> ucast (t8_depth f) \<le> (23 :: u8) then ?f else f"
  obtain k l1 where s: "rule_add l p 23 nh = (int k, l1)" "same_tables l l1" using stored_with_room [OF ok, of 23 ip] r p by auto
  have t: "l_tbl24 l1 = l_tbl24 l" "l_tbl8 l1 = l_tbl8 l" using s(2) by (simp_all add: same_tables_def)
  define l2 where "l2 = upd8 (256 * unat h) (256 * unat h + 256) ?G l1"
  let ?E = "\<lparr>t24_next_hop = nh, t24_valid = True, t24_ext_entry = False, t24_depth = 23\<rparr>"
  have gs: "group_start (l_tbl24 l (i24 p)) = of_nat (256 * unat h)" unfolding group_start_nat e(1) by simp
  have "add_small_entry 23 nh (i24 p) l1 = l2"
  proof -
    have "unat (of_nat (256 * unat h) :: u32) + unat RTE_LPM_TBL8_GROUP_NUM_ENTRIES < 2 ^ 32"
      unfolding unat_group(1) [OF u8_less] using u8_less [of h] by (simp add: RTE_LPM_TBL8_GROUP_NUM_ENTRIES_def)
    then have "for_n RTE_LPM_TBL8_GROUP_NUM_ENTRIES (\<lambda>k l. let j = of_nat (256 * unat h) + k in
        if \<not> t8_valid (l_tbl8 l j) \<or> ucast (t8_depth (l_tbl8 l j)) \<le> (23 :: u8) then set8 j ?f l else l) l1 = l2"
      unfolding l2_def using for_n_upd8 [of "of_nat (256 * unat h)" RTE_LPM_TBL8_GROUP_NUM_ENTRIES l1 _ ?G] unat_group(1) [OF u8_less, of h]
      by (simp add: Let_def set8_def RTE_LPM_TBL8_GROUP_NUM_ENTRIES_def)
    then show ?thesis unfolding add_small_entry_def t(1) Let_def gs unfolding e(1) by simp
  qed
  moreover have "add_small_entry 23 nh (i24 p + 1) l2 = set24 (i24 p + 1) ?E l2"
    using e(2) t(1) by (simp add: add_small_entry_def Let_def l2_def)
  moreover have "add_depth_small l1 p 23 nh = (0, add_small_entry 23 nh (i24 p + 1) (add_small_entry 23 nh (i24 p) l1))"
    by (simp add: add_depth_small_def depth_to_range_def MAX_DEPTH_TBL24_def for_n_def i24_def upt_rec)
  ultimately have c: "rte_lpm_add l ip 23 nh = (0, set24 (i24 p + 1) ?E l2)"
    using s(1) p by (simp add: rte_lpm_add_def pref_eq RTE_LPM_MAX_DEPTH_def MAX_DEPTH_TBL24_def)
  have ne: "i24 a \<noteq> i24 p + 1" using a(1) e(2) by (auto simp: ext_def)
  have "\<not> t8_valid (l_tbl8 l (at8 (l_tbl24 l (i24 a)) a))" using a by (simp add: look_def Let_def ent8_def split: if_splits)
  then show "look (snd (rte_lpm_add l ip 23 nh)) a = Some (23, nh)" unfolding c
    using ne a(1,2) t in_group [of "unat h" "unat (at8 (l_tbl24 l (i24 a)) a)"] at8_group [of "l_tbl24 l (i24 a)" a]
    by (simp add: look_def Let_def l2_def ent8_def)
  show "fst (rte_lpm_add l ip 23 nh) = 0" unfolding c by simp
qed

lemma fresh_max: "l_max_rules (fresh_lpm name n) = n" by (simp add: fresh_lpm_def)

lemma sample_prefs:
  "pref 25 0x14000000 = 0x14000000" "pref 24 0x0A000000 = 0x0A000000" "pref 23 0x0A000000 = 0x0A000000"
  "pref 25 0x140000C8 \<noteq> 0x14000000" "pref 24 0x140000C8 \<noteq> 0x0A000000" "pref 23 0x140000C8 \<noteq> 0x0A000000"
  by (simp_all add: pref_def mask_eq_decr_exp)

lemma best_other: "1 \<le> d \<Longrightarrow> pref d p = p \<Longrightarrow> pref d a \<noteq> p \<Longrightarrow> best (R((p, d) \<mapsto> nh)) a = best R a"
  using best_upto_add [of d R p nh a 32] by (simp add: best_def)

text \<open>A prefix added above a longer one of at most 24 bits takes the next hop of the longer route for the number of a group and writes to that group: after the three
  additions every call has returned 0, no route matches the address \<open>20.0.0.200\<close>, and its look-up returns the next hop of \<open>10.0.0.0/23\<close>.\<close>
theorem lpm_add_clobbers:
  "case load_routes rte_lpm_add (fresh_lpm ''t'' 8) [(0x14000000, 25, 3), (0x0A000000, 24, 0), (0x0A000000, 23, 5)] of
    (r, l) \<Rightarrow> r = 0 \<and> best (routed (\<lambda>_. None) [(0x14000000, 25, 3), (0x0A000000, 24, 0), (0x0A000000, 23, 5)]) 0x140000C8 = None \<and>
      rte_lpm_lookup l 0x140000C8 = (0, 5)"
proof -
  let ?l0 = "fresh_lpm ''t'' 8" and ?a = "0x140000C8 :: u32"
  define R1 where "R1 = (\<lambda>_ :: u32 \<times> nat. None :: u8 option)((0x14000000, 25) \<mapsto> 3)"
  define R2 where "R2 = R1((0x0A000000, 24) \<mapsto> 0)"
  define l1 where "l1 = snd (rte_lpm_add ?l0 0x14000000 25 3)"
  define l2 where "l2 = snd (rte_lpm_add l1 0x0A000000 24 0)"
  have l1: "fst (rte_lpm_add ?l0 0x14000000 25 3) = 0" "lpm_ok l1 R1" "l_max_rules l1 = 8"
    using added_room [OF rte_lpm_add_ok [OF fresh8, of 25 "0x14000000" 3]] by (simp_all add: fresh8_room sample_prefs l1_def R1_def fresh_max)
  have t1: "l_tbl24 l1 = (\<lambda>_. zero24)(i24 0x14000000 := \<lparr>t24_next_hop = 0, t24_valid = True, t24_ext_entry = True, t24_depth = 0\<rparr>)"
    unfolding l1_def by (subst add_first_long [OF fresh8, of 25 "0x14000000"]) (simp_all add: sample_prefs fresh8_room, simp_all add: fresh_lpm_def zero24_def zero8_def)
  have r1: "room l1 R1 0x0A000000 24" using l1(3) by (simp add: room_def R1_def)
  have l2: "fst (rte_lpm_add l1 0x0A000000 24 0) = 0" "lpm_ok l2 R2" "l_max_rules l2 = 8"
    using added_room [OF rte_lpm_add_ok [OF l1(2), of 24 "0x0A000000" 0]] r1 l1(3) by (simp_all add: sample_prefs l2_def R2_def no_inner_def)
  have i: "i24 0x14000000 = 0x140000" "i24 0x0A000000 = 0xA0000" "i24 ?a = 0x140000" by (simp_all add: i24_def)
  have t2: "l_tbl24 l2 = (l_tbl24 l1)(0xA0000 := \<lparr>t24_next_hop = 0, t24_valid = True, t24_ext_entry = False, t24_depth = 24\<rparr>)"
    unfolding l2_def by (subst add_24 [OF l1(2), of "0x0A000000" "0x0A000000"]) (simp_all add: sample_prefs r1 t1 i zero24_def)
  have b: "best R2 ?a = None" unfolding R2_def R1_def by (simp add: best_other sample_prefs best_none)
  have "room l2 R2 0x0A000000 23" using l2(3) by (simp add: room_def R2_def R1_def)
  then have c: "fst (rte_lpm_add l2 0x0A000000 23 5) = 0" "look (snd (rte_lpm_add l2 0x0A000000 23 5)) ?a = Some (23, 5)"
    using add_23_clobbers [OF l2(2), of "0x0A000000" "0x0A000000" 0 ?a 5] l2(2) b by (simp_all add: sample_prefs t2 t1 i ext_def zero24_def lpm_ok_def)
  have L: "load_routes rte_lpm_add ?l0 [(0x14000000, 25, 3), (0x0A000000, 24, 0), (0x0A000000, 23, 5)] = (0, snd (rte_lpm_add l2 0x0A000000 23 5))"
    using l1(1) l2(1) c(1) by (simp add: split_def l1_def l2_def)
  have "best (routed (\<lambda>_. None) [(0x14000000, 25, 3), (0x0A000000, 24, 0), (0x0A000000, 23, 5)]) ?a = None"
    by (simp add: sample_prefs best_other best_none)
  then show ?thesis unfolding L using lookup_look(2) [OF c(2)] by simp
qed

end
