(* ===== verification/Reorder.thy ===== *)
theory Reorder
  imports Mbuf Memzone
begin

text \<open>
  Reordering of packets by sequence number, \<open>dpdk-2.0.0/lib/librte_reorder/rte_reorder.c\<close>: a window of the sequence numbers from
  \<open>min_seqn\<close> on in a circular buffer, and a second circular buffer for packets that were pushed out of the window. Packets are
  pointers, 0 is NULL; the two arrays behind the structure are arrays of their own. The packets a drain writes to \<open>mbufs\<close> are a list.
\<close>

definition ERANGE :: int where "ERANGE = 34"
definition RTE_REORDER_NAMESIZE :: nat where "RTE_REORDER_NAMESIZE = 32"

record cir_buffer =
  cb_size :: u32
  cb_mask :: u32
  cb_head :: u32
  cb_tail :: u32
  cb_entries :: "u64 carray"

record rte_reorder_buffer =
  ro_name :: string
  ro_min_seqn :: u32
  ro_memsize :: u32
  ready_buf :: cir_buffer
  order_buf :: cir_buffer

text \<open>The list of buffers (entry and buffer), the buffers by their address, the addresses given to \<open>rte_free\<close>, and \<open>rte_errno\<close>.\<close>

record ro_world =
  rw_list :: "(u64 \<times> u64) list"
  rw_buf :: "u64 \<Rightarrow> rte_reorder_buffer"
  rw_freed :: "u64 list"
  rw_errno :: int

text \<open>\<open>sizeof\<close> the structure is 192; the sum is an \<open>unsigned int\<close>.\<close>

definition reorder_bufsize :: "u32 \<Rightarrow> u32" where
  "reorder_bufsize sz = 192 + 2 * sz * 8"

definition empty_cir :: "u32 \<Rightarrow> cir_buffer" where
  "empty_cir sz = \<lparr>cb_size = sz, cb_mask = sz - 1, cb_head = 0, cb_tail = 0, cb_entries = \<lambda>_. 0\<rparr>"

definition rte_reorder_init :: "u64 \<Rightarrow> u32 \<Rightarrow> string option \<Rightarrow> u32 \<Rightarrow> ro_world \<Rightarrow> u64 \<times> ro_world" where
  "rte_reorder_init b bufsize name sz w =
     (if b = 0 then (0, w\<lparr>rw_errno := EINVAL\<rparr>)
      else if \<not> rte_is_power_of_2 sz then (0, w\<lparr>rw_errno := EINVAL\<rparr>)
      else case name of
        None \<Rightarrow> (0, w\<lparr>rw_errno := EINVAL\<rparr>)
      | Some name \<Rightarrow>
          if bufsize < reorder_bufsize sz then (0, w\<lparr>rw_errno := EINVAL\<rparr>)
          else (b, w\<lparr>rw_buf := (rw_buf w)(b := \<lparr>ro_name = take (RTE_REORDER_NAMESIZE - 1) name, ro_min_seqn = 0, ro_memsize = bufsize,
                  ready_buf = empty_cir sz, order_buf = empty_cir sz\<rparr>)\<rparr>))"

text \<open>The loops over the list leave their variable at the buffer found or at the last one.\<close>

fun find_reorder :: "ro_world \<Rightarrow> string \<Rightarrow> (u64 \<times> u64) list \<Rightarrow> u64 \<Rightarrow> u64 option \<times> u64" where
  "find_reorder w name [] b = (None, b)"
| "find_reorder w name ((te, data) # xs) b =
     (if strncmp_eq name (ro_name (rw_buf w data)) RTE_REORDER_NAMESIZE then (Some te, data) else find_reorder w name xs data)"

text \<open>\<open>te\<close> and \<open>alloc\<close> are the results of the two allocations.\<close>

definition rte_reorder_create :: "u64 \<Rightarrow> (u32 \<Rightarrow> u64) \<Rightarrow> string option \<Rightarrow> u32 \<Rightarrow> ro_world \<Rightarrow> u64 \<times> ro_world" where
  "rte_reorder_create te alloc name_arg sz w =
     (if \<not> rte_is_power_of_2 sz then (0, w\<lparr>rw_errno := EINVAL\<rparr>)
      else case name_arg of
        None \<Rightarrow> (0, w\<lparr>rw_errno := EINVAL\<rparr>)
      | Some name \<Rightarrow>
          (case find_reorder w name (rw_list w) 0 of
             (Some _, b) \<Rightarrow> (b, w)
           | (None, _) \<Rightarrow>
               if te = 0 then (0, w\<lparr>rw_errno := ENOMEM\<rparr>)
               else let b = alloc (reorder_bufsize sz) in
                 if b = 0 then (0, w\<lparr>rw_errno := ENOMEM, rw_freed := te # rw_freed w\<rparr>)
                 else let w = snd (rte_reorder_init b (reorder_bufsize sz) name_arg sz w)
                   in (b, w\<lparr>rw_list := rw_list w @ [(te, b)]\<rparr>)))"

definition rte_reorder_find_existing :: "string \<Rightarrow> ro_world \<Rightarrow> u64 \<times> ro_world" where
  "rte_reorder_find_existing name w =
     (case find_reorder w name (rw_list w) 0 of (None, _) \<Rightarrow> (0, w\<lparr>rw_errno := ENOENT\<rparr>) | (Some _, b) \<Rightarrow> (b, w))"

text \<open>Both arrays are freed entry by entry.\<close>

fun free_entries :: "(u64 \<Rightarrow> 'm \<Rightarrow> 'm option) \<Rightarrow> rte_reorder_buffer \<Rightarrow> nat list \<Rightarrow> 'm \<Rightarrow> 'm option" where
  "free_entries free b [] m = Some m"
| "free_entries free b (i # is) m =
     (let o_ent = cb_entries (order_buf b) (of_nat i); r_ent = cb_entries (ready_buf b) (of_nat i) in
      Option.bind (if o_ent \<noteq> 0 then free o_ent m else Some m) (\<lambda>m.
      Option.bind (if r_ent \<noteq> 0 then free r_ent m else Some m) (free_entries free b is)))"

definition rte_reorder_free_mbufs :: "mem_env \<Rightarrow> u32 \<Rightarrow> rte_reorder_buffer \<Rightarrow> mbuf_world \<Rightarrow> mbuf_world option" where
  "rte_reorder_free_mbufs env lcore b = free_entries (rte_pktmbuf_free env lcore) b [0..<unat (cb_size (order_buf b))]"

definition rte_reorder_reset :: "mem_env \<Rightarrow> u32 \<Rightarrow> u64 \<Rightarrow> ro_world \<Rightarrow> mbuf_world \<Rightarrow> (ro_world \<times> mbuf_world) option" where
  "rte_reorder_reset env lcore b w m =
     Option.bind (rte_reorder_free_mbufs env lcore (rw_buf w b) m)
       (\<lambda>m. Some (snd (rte_reorder_init b (ro_memsize (rw_buf w b)) (Some (ro_name (rw_buf w b))) (cb_size (order_buf (rw_buf w b))) w), m))"

definition rte_reorder_free :: "mem_env \<Rightarrow> u32 \<Rightarrow> u64 \<Rightarrow> ro_world \<Rightarrow> mbuf_world \<Rightarrow> (ro_world \<times> mbuf_world) option" where
  "rte_reorder_free env lcore b w m =
     (if b = 0 then Some (w, m)
      else case find (\<lambda>(te, data). data = b) (rw_list w) of
        None \<Rightarrow> Some (w, m)
      | Some (te, data) \<Rightarrow>
          Option.bind (rte_reorder_free_mbufs env lcore (rw_buf w b) m)
            (\<lambda>m. Some (w\<lparr>rw_list := remove1 (te, data) (rw_list w), rw_freed := te # b # rw_freed w\<rparr>, m)))"

section \<open>Moving packets out of the window\<close>

definition next_pos :: "cir_buffer \<Rightarrow> u32 \<Rightarrow> u32" where
  "next_pos c i = (i + 1) AND cb_mask c"

definition ready_full :: "rte_reorder_buffer \<Rightarrow> bool" where
  "ready_full b \<longleftrightarrow> next_pos (ready_buf b) (cb_head (ready_buf b)) = cb_tail (ready_buf b)"

definition head_entry :: "rte_reorder_buffer \<Rightarrow> u64" where
  "head_entry b = cb_entries (order_buf b) (cb_head (order_buf b))"

definition set_cell :: "u32 \<Rightarrow> u64 \<Rightarrow> cir_buffer \<Rightarrow> cir_buffer" where
  "set_cell i m c = c\<lparr>cb_entries := (cb_entries c)(i := m)\<rparr>"

definition adv_order :: "rte_reorder_buffer \<Rightarrow> rte_reorder_buffer" where
  "adv_order b = b\<lparr>order_buf := (order_buf b)\<lparr>cb_head := next_pos (order_buf b) (cb_head (order_buf b))\<rparr>\<rparr>"

text \<open>The head of the window goes to the head of the ready buffer.\<close>

definition move_head :: "rte_reorder_buffer \<Rightarrow> rte_reorder_buffer" where
  "move_head b =
     (let b' = b\<lparr>ready_buf := set_cell (cb_head (ready_buf b)) (head_entry b) (ready_buf b),
                 order_buf := set_cell (cb_head (order_buf b)) 0 (order_buf b)\<rparr>
      in adv_order b')"

partial_function (option) move_ready :: "rte_reorder_buffer \<Rightarrow> u32 \<Rightarrow> (rte_reorder_buffer \<times> u32) option" where
  "move_ready b adv =
     (if head_entry b \<noteq> 0
      then let b = move_head b; adv = adv + 1 in
           if ready_full b then Some (b, adv)
           else move_ready (b\<lparr>ready_buf := (ready_buf b)\<lparr>cb_head := next_pos (ready_buf b) (cb_head (ready_buf b))\<rparr>\<rparr>) adv
      else Some (b, adv))"

partial_function (option) fill_loop :: "u32 \<Rightarrow> rte_reorder_buffer \<Rightarrow> u32 \<Rightarrow> (rte_reorder_buffer \<times> u32) option" where
  "fill_loop n b adv =
     (if adv < n \<and> \<not> ready_full b
      then let (b, adv) = (if head_entry b = 0 then (adv_order b, adv + 1) else (b, adv))
           in Option.bind (move_ready b adv) (\<lambda>(b, adv). fill_loop n b adv)
      else Some (b, adv))"

declare move_ready.simps [code] fill_loop.simps [code]

definition rte_reorder_fill_overflow :: "rte_reorder_buffer \<Rightarrow> u32 \<Rightarrow> (u32 \<times> rte_reorder_buffer) option" where
  "rte_reorder_fill_overflow b n =
     Option.bind (fill_loop n b 0) (\<lambda>(b, adv). Some (adv, b\<lparr>ro_min_seqn := ro_min_seqn b + adv\<rparr>))"

section \<open>Insertion and drain\<close>

definition put_at :: "u32 \<Rightarrow> u64 \<Rightarrow> rte_reorder_buffer \<Rightarrow> rte_reorder_buffer" where
  "put_at off m b = b\<lparr>order_buf := set_cell ((cb_head (order_buf b) + off) AND cb_mask (order_buf b)) m (order_buf b)\<rparr>"

text \<open>The result, \<open>rte_errno\<close> if it is set, and the buffer; \<open>seqn_of\<close> reads the field of a packet.\<close>

definition rte_reorder_insert :: "(u64 \<Rightarrow> u32) \<Rightarrow> rte_reorder_buffer \<Rightarrow> u64 \<Rightarrow> (int \<times> int option \<times> rte_reorder_buffer) option" where
  "rte_reorder_insert seqn_of b mbuf =
     (let off = seqn_of mbuf - ro_min_seqn b; sz = cb_size (order_buf b) in
      if off < sz then Some (0, None, put_at off mbuf b)
      else if off < 2 * sz
      then Option.bind (rte_reorder_fill_overflow b (off + 1 - sz)) (\<lambda>(adv, b).
             if adv < off + 1 - sz then Some (- 1, Some ENOSPC, b)
             else Some (0, None, put_at (seqn_of mbuf - ro_min_seqn b) mbuf b))
      else Some (- 1, Some ERANGE, b))"

fun drain_ready :: "nat \<Rightarrow> rte_reorder_buffer \<Rightarrow> u64 list \<times> rte_reorder_buffer" where
  "drain_ready 0 b = ([], b)"
| "drain_ready (Suc k) b =
     (let r = ready_buf b in
      if cb_tail r \<noteq> cb_head r
      then (case drain_ready k (b\<lparr>ready_buf := r\<lparr>cb_tail := next_pos r (cb_tail r)\<rparr>\<rparr>) of (ms, b) \<Rightarrow> (cb_entries r (cb_tail r) # ms, b))
      else ([], b))"

fun drain_order :: "nat \<Rightarrow> rte_reorder_buffer \<Rightarrow> u64 list \<times> rte_reorder_buffer" where
  "drain_order 0 b = ([], b)"
| "drain_order (Suc k) b =
     (if head_entry b \<noteq> 0
      then (case drain_order k (adv_order (b\<lparr>order_buf := set_cell (cb_head (order_buf b)) 0 (order_buf b), ro_min_seqn := ro_min_seqn b + 1\<rparr>)) of
              (ms, b') \<Rightarrow> (head_entry b # ms, b'))
      else ([], b))"

definition rte_reorder_drain :: "rte_reorder_buffer \<Rightarrow> u32 \<Rightarrow> u64 list \<times> rte_reorder_buffer" where
  "rte_reorder_drain b max_mbufs =
     (case drain_ready (unat max_mbufs) b of (ms, b) \<Rightarrow>
      case drain_order (unat max_mbufs - length ms) b of (ms', b) \<Rightarrow> (ms @ ms', b))"

end
