(* ===== verification/Reorder_Spec.thy ===== *)
theory Reorder_Spec
  imports Reorder
begin

text \<open>
  The two circular buffers as lists: the window of expected packets (0 where none has come) and the packets ready to be taken.
  Insertion and drain are exact on the lists, and packets come out in the order of their sequence numbers.
\<close>

section \<open>A circular buffer as a list\<close>

definition view :: "cir_buffer \<Rightarrow> u32 \<Rightarrow> nat \<Rightarrow> u64 list" where
  "view c s n = map (\<lambda>i. cb_entries c ((s + of_nat i) AND cb_mask c)) [0..<n]"

definition cir_ok :: "cir_buffer \<Rightarrow> bool" where
  "cir_ok c \<longleftrightarrow> pow2_size (cb_size c) \<and> unat (cb_size c) < 2 ^ 28 \<and> cb_mask c = cb_size c - 1 \<and> cb_head c < cb_size c \<and> cb_tail c < cb_size c"

abbreviation csize :: "cir_buffer \<Rightarrow> nat" where "csize c \<equiv> unat (cb_size c)"

lemma view_length [simp]: "length (view c s n) = n"
  by (simp add: view_def)

lemma cidx:
  assumes "cir_ok c" and "i < 2 ^ 28"
  shows "unat ((s + of_nat i) AND cb_mask c) = (unat s + i) mod csize c"
proof -
  have "unat (of_nat i :: u32) = i" using assms(2) by (intro unat_of_nat_less) simp
  then show ?thesis using assms(1) unat_and_pow2 [of "cb_size c" "s + of_nat i"] unat_add_mod [of "cb_size c" s "of_nat i"] by (simp add: cir_ok_def)
qed

lemma csize_pos: "cir_ok c \<Longrightarrow> 0 < csize c" "cir_ok c \<Longrightarrow> csize c < 2 ^ 28"
  by (simp_all add: cir_ok_def unat_pow2_pos)

lemma cidx_inj:
  assumes "cir_ok c" and "i < csize c" and "j < csize c"
  shows "(s + of_nat i) AND cb_mask c = (s + of_nat j) AND cb_mask c \<longleftrightarrow> i = j"
proof
  assume "(s + of_nat i) AND cb_mask c = (s + of_nat j) AND cb_mask c"
  then have "unat ((s + of_nat i) AND cb_mask c) = unat ((s + of_nat j) AND cb_mask c)" by simp
  then have "(unat s + i) mod csize c = (unat s + j) mod csize c" using assms csize_pos(2) [OF assms(1)] by (simp add: cidx)
  then show "i = j" using assms(2,3) by (rule mod_inj_on_window)
qed simp

lemma view_set:
  assumes ok: "cir_ok c" and i: "i < csize c" and n: "n \<le> csize c"
  shows "view (set_cell ((s + of_nat i) AND cb_mask c) m c) s n = (view c s n)[i := m]"
proof (rule nth_equalityI)
  fix j
  assume "j < length (view (set_cell ((s + of_nat i) AND cb_mask c) m c) s n)"
  then have j: "j < n" "j < csize c" using n by simp_all
  then show "view (set_cell ((s + of_nat i) AND cb_mask c) m c) s n ! j = (view c s n)[i := m] ! j"
    using cidx_inj [OF ok j(2) i, of s] by (auto simp: view_def set_cell_def nth_list_update)
qed simp

lemma next_pos_idx:
  assumes "cir_ok c" and "s < cb_size c"
  shows "(next_pos c s + of_nat i) AND cb_mask c = (s + of_nat (Suc i)) AND cb_mask c" "next_pos c s < cb_size c"
proof -
  have P: "pow2_size (cb_size c)" and m: "cb_mask c = cb_size c - 1" using assms(1) by (simp_all add: cir_ok_def)
  have "unat ((next_pos c s + of_nat i) AND cb_mask c) = (unat (s + 1) + unat (of_nat i :: u32)) mod csize c"
    unfolding next_pos_def m unat_and_pow2 [OF P] unat_add_mod [OF P, of "(s + 1) AND (cb_size c - 1)"] by (simp add: mod_simps)
  also have "\<dots> = unat ((s + of_nat (Suc i)) AND cb_mask c)"
    unfolding m unat_and_pow2 [OF P] by (simp add: unat_add_mod [OF P, symmetric] add_ac)
  finally show "(next_pos c s + of_nat i) AND cb_mask c = (s + of_nat (Suc i)) AND cb_mask c" by (simp only: word_unat_eq_iff)
  show "next_pos c s < cb_size c" using assms(1) and_pow2_less [of "cb_size c" "s + 1"] by (simp add: next_pos_def cir_ok_def)
qed

lemma view_next:
  assumes "cir_ok c" and "s < cb_size c"
  shows "view c (next_pos c s) n = tl (view c s (Suc n))"
  unfolding view_def next_pos_idx(1) [OF assms] by (simp add: upt_conv_Cons map_Suc_upt [symmetric] del: upt_Suc)

lemma idx_self:
  assumes "cir_ok c" and "s < cb_size c"
  shows "(s + of_nat 0) AND cb_mask c = s" "(s + of_nat (csize c)) AND cb_mask c = s"
proof -
  have s: "unat s mod csize c = unat s" using assms(2) by (simp add: word_less_nat_alt)
  show "(s + of_nat 0) AND cb_mask c = s" using cidx [OF assms(1), of 0 s] s by (simp add: word_unat_eq_iff)
  have "unat ((s + of_nat (csize c)) AND cb_mask c) = unat s" using cidx [OF assms(1) csize_pos(2) [OF assms(1)], of s] s by simp
  then show "(s + of_nat (csize c)) AND cb_mask c = s" by (simp only: word_unat_eq_iff)
qed

lemma view_rotate:
  assumes "cir_ok c" and "s < cb_size c"
  shows "view c (next_pos c s) (csize c) = rotate1 (view c s (csize c))"
proof -
  have "view c s (Suc (csize c)) = view c s (csize c) @ [cb_entries c s]" using idx_self(2) [OF assms] by (simp add: view_def)
  moreover have "cb_entries c s = hd (view c s (csize c))" using csize_pos(1) [OF assms(1)] idx_self(1) [OF assms] by (simp add: view_def hd_map)
  moreover have "view c s (csize c) \<noteq> []" using csize_pos(1) [OF assms(1)] by (metis length_0_conv less_numeral_extra(3) view_length)
  ultimately show ?thesis unfolding view_next [OF assms] by (cases "view c s (csize c)") simp_all
qed

section \<open>The reorder buffer\<close>

definition ro_ok :: "rte_reorder_buffer \<Rightarrow> bool" where
  "ro_ok b \<longleftrightarrow> cir_ok (ready_buf b) \<and> cir_ok (order_buf b) \<and> cb_size (ready_buf b) = cb_size (order_buf b)"

abbreviation width :: "rte_reorder_buffer \<Rightarrow> nat" where "width b \<equiv> csize (order_buf b)"

definition win :: "rte_reorder_buffer \<Rightarrow> u64 list" where
  "win b = view (order_buf b) (cb_head (order_buf b)) (width b)"

text \<open>The number of packets between tail and head of a circular buffer.\<close>

definition used :: "cir_buffer \<Rightarrow> nat" where
  "used c = (if cb_tail c \<le> cb_head c then unat (cb_head c) - unat (cb_tail c) else csize c + unat (cb_head c) - unat (cb_tail c))"

definition rdy :: "rte_reorder_buffer \<Rightarrow> u64 list" where
  "rdy b = view (ready_buf b) (cb_tail (ready_buf b)) (used (ready_buf b))"

lemma ro_okD:
  assumes "ro_ok b"
  shows "cir_ok (ready_buf b)" "cir_ok (order_buf b)" "csize (ready_buf b) = width b" "cb_head (order_buf b) < cb_size (order_buf b)"
    "cb_head (ready_buf b) < cb_size (ready_buf b)" "cb_tail (ready_buf b) < cb_size (ready_buf b)"
  using assms by (auto simp: ro_ok_def cir_ok_def)

lemma win_length [simp]: "length (win b) = width b" by (simp add: win_def)
lemma rdy_length [simp]: "length (rdy b) = used (ready_buf b)" by (simp add: rdy_def)

lemma unat_next:
  assumes "cir_ok c" and "s < cb_size c"
  shows "unat (next_pos c s) = (if Suc (unat s) = csize c then 0 else Suc (unat s))"
proof -
  have "unat ((s + of_nat 1) AND cb_mask c) = (unat s + 1) mod csize c" by (rule cidx [OF assms(1)]) simp
  then have "unat (next_pos c s) = Suc (unat s) mod csize c" by (simp add: next_pos_def)
  then show ?thesis using assms(2) by (simp add: word_less_nat_alt mod_Suc)
qed

lemma used_less: "cir_ok c \<Longrightarrow> used c < csize c"
  by (auto simp: used_def cir_ok_def word_less_nat_alt word_le_nat_alt)

lemma head_at:
  assumes ok: "cir_ok c"
  shows "cb_head c = (cb_tail c + of_nat (used c)) AND cb_mask c"
proof -
  have b: "unat (cb_head c) < csize c" "unat (cb_tail c) < csize c" using ok by (simp_all add: cir_ok_def word_less_nat_alt)
  have "unat ((cb_tail c + of_nat (used c)) AND cb_mask c) = (unat (cb_tail c) + used c) mod csize c"
    using used_less [OF ok] csize_pos(2) [OF ok] by (intro cidx [OF ok]) simp
  also have "\<dots> = unat (cb_head c)"
  proof (cases "cb_tail c \<le> cb_head c")
    case True
    then show ?thesis using b by (simp add: used_def word_le_nat_alt)
  next
    case False
    then have "unat (cb_tail c) + used c = unat (cb_head c) + csize c" using b by (simp add: used_def)
    then show ?thesis using b by simp
  qed
  finally show ?thesis by (simp add: word_unat_eq_iff)
qed

lemma used_full:
  assumes "cir_ok c"
  shows "next_pos c (cb_head c) = cb_tail c \<longleftrightarrow> used c = csize c - 1"
proof -
  have b: "unat (cb_head c) < csize c" "unat (cb_tail c) < csize c" "cb_head c < cb_size c" using assms by (simp_all add: cir_ok_def word_less_nat_alt)
  show ?thesis unfolding word_unat_eq_iff unat_next [OF assms b(3)] using b by (auto simp: used_def word_le_nat_alt)
qed

lemma used_empty: "cir_ok c \<Longrightarrow> cb_tail c = cb_head c \<longleftrightarrow> used c = 0"
  by (auto simp: used_def cir_ok_def word_less_nat_alt word_le_nat_alt word_unat_eq_iff)

lemma used_push:
  assumes "cir_ok c" and "used c \<noteq> csize c - 1"
  shows "used (c\<lparr>cb_head := next_pos c (cb_head c)\<rparr>) = Suc (used c)"
proof -
  have b: "unat (cb_head c) < csize c" "unat (cb_tail c) < csize c" "cb_head c < cb_size c" using assms(1) by (simp_all add: cir_ok_def word_less_nat_alt)
  show ?thesis using assms(2) b unat_next [OF assms(1) b(3)] by (auto simp: used_def word_le_nat_alt)
qed

lemma used_pop:
  assumes "cir_ok c" and "used c \<noteq> 0"
  shows "Suc (used (c\<lparr>cb_tail := next_pos c (cb_tail c)\<rparr>)) = used c"
proof -
  have b: "unat (cb_head c) < csize c" "unat (cb_tail c) < csize c" "cb_tail c < cb_size c" using assms(1) by (simp_all add: cir_ok_def word_less_nat_alt)
  show ?thesis using assms(2) b unat_next [OF assms(1) b(3)] by (auto simp: used_def word_le_nat_alt)
qed

lemma cir_upd [simp]:
  "cir_ok (set_cell i m c) = cir_ok c" "used (set_cell i m c) = used c" "cb_size (set_cell i m c) = cb_size c" "cb_mask (set_cell i m c) = cb_mask c"
  "cb_head (set_cell i m c) = cb_head c" "cb_tail (set_cell i m c) = cb_tail c" "next_pos (set_cell i m c) = next_pos c"
  "cb_entries (set_cell i m c) = (cb_entries c)(i := m)"
  by (simp_all add: cir_ok_def used_def set_cell_def next_pos_def fun_eq_iff)

lemma view_head [simp]:
  "view (c\<lparr>cb_head := h\<rparr>) s n = view c s n" "view (c\<lparr>cb_tail := h\<rparr>) s n = view c s n"
  by (simp_all add: view_def)

lemma cir_head: "cir_ok c \<Longrightarrow> h < cb_size c \<Longrightarrow> cir_ok (c\<lparr>cb_head := h\<rparr>)" "cir_ok c \<Longrightarrow> h < cb_size c \<Longrightarrow> cir_ok (c\<lparr>cb_tail := h\<rparr>)"
  by (simp_all add: cir_ok_def)


section \<open>The steps\<close>

lemma entry_first: "cir_ok c \<Longrightarrow> s < cb_size c \<Longrightarrow> 0 < n \<Longrightarrow> hd (view c s n) = cb_entries c s"
  using idx_self(1) by (simp add: view_def hd_map)

lemma head_entry_win: "ro_ok b \<Longrightarrow> head_entry b = hd (win b)"
  unfolding head_entry_def win_def using ro_okD csize_pos(1) by (simp add: entry_first)

lemma adv_order_ok:
  assumes "ro_ok b"
  shows "ro_ok (adv_order b)" "win (adv_order b) = rotate1 (win b)" "rdy (adv_order b) = rdy b" "width (adv_order b) = width b" "ro_min_seqn (adv_order b) = ro_min_seqn b"
proof -
  note o = ro_okD(2,4) [OF assms]
  show "ro_ok (adv_order b)" using assms next_pos_idx(2) [OF o] by (simp add: adv_order_def ro_ok_def cir_head)
  show "win (adv_order b) = rotate1 (win b)" using view_rotate [OF o] by (simp add: adv_order_def win_def)
qed (simp_all add: adv_order_def rdy_def)

lemma clear_head_ok:
  assumes "ro_ok b" and "b' = b\<lparr>order_buf := set_cell (cb_head (order_buf b)) 0 (order_buf b)\<rparr>"
  shows "ro_ok b'" "win b' = (win b)[0 := 0]" "rdy b' = rdy b" "width b' = width b" "ro_min_seqn b' = ro_min_seqn b"
proof -
  note o = ro_okD(2,4) [OF assms(1)]
  show "win b' = (win b)[0 := 0]"
    using view_set [OF o(1) csize_pos(1) [OF o(1)] order_refl, of "cb_head (order_buf b)" 0] idx_self(1) [OF o] by (simp add: assms(2) win_def)
qed (use assms in \<open>simp_all add: ro_ok_def rdy_def\<close>)

text \<open>The cell at the head of the ready buffer is not among the packets that are ready.\<close>

lemma ready_cell_ok:
  assumes "ro_ok b" and "b' = b\<lparr>ready_buf := set_cell (cb_head (ready_buf b)) m (ready_buf b)\<rparr>"
  shows "ro_ok b'" "win b' = win b" "rdy b' = rdy b" "width b' = width b" "ro_min_seqn b' = ro_min_seqn b"
proof -
  note r = ro_okD(1) [OF assms(1)]
  have "view (set_cell (cb_head (ready_buf b)) m (ready_buf b)) (cb_tail (ready_buf b)) (used (ready_buf b)) = (rdy b)[used (ready_buf b) := m]"
    unfolding rdy_def by (subst head_at [OF r]) (rule view_set [OF r used_less [OF r] less_imp_le [OF used_less [OF r]]])
  then show "rdy b' = rdy b" by (simp add: assms(2) rdy_def list_update_beyond)
qed (use assms in \<open>simp_all add: ro_ok_def win_def\<close>)

lemma push_ready_ok:
  assumes ok: "ro_ok b" and n: "\<not> ready_full b" and "b' = b\<lparr>ready_buf := (ready_buf b)\<lparr>cb_head := next_pos (ready_buf b) (cb_head (ready_buf b))\<rparr>\<rparr>"
  shows "ro_ok b'" "win b' = win b" "rdy b' = rdy b @ [cb_entries (ready_buf b) (cb_head (ready_buf b))]" "width b' = width b" "ro_min_seqn b' = ro_min_seqn b"
proof -
  let ?r = "ready_buf b"
  note r = ro_okD(1) [OF ok]
  have h: "cb_head ?r < cb_size ?r" by (rule ro_okD(5) [OF ok])
  have "used ?r \<noteq> csize ?r - 1" using n used_full [OF r] by (simp add: ready_full_def)
  then have u: "used (?r\<lparr>cb_head := next_pos ?r (cb_head ?r)\<rparr>) = Suc (used ?r)" by (rule used_push [OF r])
  show "rdy b' = rdy b @ [cb_entries ?r (cb_head ?r)]"
    unfolding assms(3) rdy_def using u head_at [OF r] by (simp add: view_def)
  show "ro_ok b'" using ok h next_pos_idx(2) [OF r h] by (simp add: assms(3) ro_ok_def cir_head)
qed (simp_all add: assms(3) win_def)

lemma ready_full_iff: "ro_ok b \<Longrightarrow> ready_full b \<longleftrightarrow> length (rdy b) = width b - 1"
  using used_full [of "ready_buf b"] ro_okD(1,3) [of b] by (simp add: ready_full_def)

lemma rotate_cleared: "xs \<noteq> [] \<Longrightarrow> rotate1 (xs[0 := 0]) = tl xs @ [0 :: u64]"
  by (cases xs) simp_all

lemma move_head_ok:
  assumes ok: "ro_ok b"
  shows "ro_ok (move_head b)" "win (move_head b) = tl (win b) @ [0]" "rdy (move_head b) = rdy b" "width (move_head b) = width b"
    "ro_min_seqn (move_head b) = ro_min_seqn b" "cb_entries (ready_buf (move_head b)) (cb_head (ready_buf (move_head b))) = hd (win b)"
proof -
  define b1 where "b1 = b\<lparr>ready_buf := set_cell (cb_head (ready_buf b)) (head_entry b) (ready_buf b)\<rparr>"
  define b2 where "b2 = b1\<lparr>order_buf := set_cell (cb_head (order_buf b1)) 0 (order_buf b1)\<rparr>"
  note c1 = ready_cell_ok [OF ok b1_def]
  note c2 = clear_head_ok [OF c1(1) b2_def]
  have m: "move_head b = adv_order b2" by (simp add: move_head_def b2_def b1_def Let_def)
  have "win b \<noteq> []" using csize_pos(1) [OF ro_okD(2) [OF ok]] by (metis length_0_conv less_numeral_extra(3) win_length)
  then show "win (move_head b) = tl (win b) @ [0]" unfolding m adv_order_ok(2) [OF c2(1)] c2 c1 by (rule rotate_cleared)
  show "cb_entries (ready_buf (move_head b)) (cb_head (ready_buf (move_head b))) = hd (win b)"
    using head_entry_win [OF ok] by (simp add: m adv_order_def b2_def b1_def)
  show "ro_ok (move_head b)" "rdy (move_head b) = rdy b" "width (move_head b) = width b" "ro_min_seqn (move_head b) = ro_min_seqn b"
    unfolding m using adv_order_ok [OF c2(1)] c2 c1 by simp_all
qed

section \<open>The loops\<close>

text \<open>The window moves on by \<open>k\<close> places; the packets it passes go to the ready list, as far as there is room.\<close>

definition slid :: "nat \<Rightarrow> rte_reorder_buffer \<Rightarrow> rte_reorder_buffer \<Rightarrow> bool" where
  "slid k b b' \<longleftrightarrow> ro_ok b' \<and> k \<le> width b \<and> width b' = width b \<and> win b' = drop k (win b) @ replicate k 0 \<and>
     rdy b' = take (width b - 1) (rdy b @ filter (\<lambda>m. m \<noteq> 0) (take k (win b))) \<and> ro_min_seqn b' = ro_min_seqn b"

lemma take_take_append: "take n (take n xs @ ys) = take n (xs @ ys)"
  by (cases "length xs \<le> n") simp_all

lemma slid_trans:
  assumes "slid k b b1" and "slid j b1 b2" and "k + j \<le> width b"
  shows "slid (k + j) b b2"
proof -
  have w: "length (win b) = width b" by simp
  have "win b2 = drop (k + j) (win b) @ replicate (k + j) 0"
    using assms by (simp add: slid_def add.commute [of k j]) (simp flip: replicate_add)
  moreover have "take j (win b1) = take j (drop k (win b))" using assms by (simp add: slid_def)
  then have r2: "rdy b2 = take (width b - 1) (rdy b1 @ filter (\<lambda>m. m \<noteq> 0) (take j (drop k (win b))))" using assms(1,2) by (simp only: slid_def)
  have r1: "rdy b1 = take (width b - 1) (rdy b @ filter (\<lambda>m. m \<noteq> 0) (take k (win b)))" using assms(1) by (simp only: slid_def)
  have "rdy b2 = take (width b - 1) (rdy b @ filter (\<lambda>m. m \<noteq> 0) (take (k + j) (win b)))"
    unfolding r2 r1 take_take_append take_add filter_append append_assoc by (rule refl)
  ultimately show ?thesis using assms by (simp add: slid_def)
qed

lemma win_Cons: "ro_ok b \<Longrightarrow> win b = head_entry b # tl (win b)"
proof -
  assume ok: "ro_ok b"
  have "win b \<noteq> []" using csize_pos(1) [OF ro_okD(2) [OF ok]] by (metis length_0_conv less_numeral_extra(3) win_length)
  then show ?thesis using head_entry_win [OF ok] by simp
qed

lemma width_pos: "ro_ok b \<Longrightarrow> 0 < width b"
  using csize_pos(1) ro_okD(2) by blast

lemma rdy_less: "ro_ok b \<Longrightarrow> length (rdy b) < width b"
  using used_less [of "ready_buf b"] ro_okD(1,3) [of b] by simp

text \<open>One step of the window: a gap, or a packet.\<close>

lemma slid_gap:
  assumes ok: "ro_ok b" and h: "head_entry b = 0"
  shows "slid 1 b (adv_order b)"
proof -
  obtain xs where x: "win b = 0 # xs" using win_Cons [OF ok] h by auto
  then show ?thesis using adv_order_ok [OF ok] rdy_less [OF ok] width_pos [OF ok] by (simp add: slid_def)
qed

lemma slid_packet:
  assumes ok: "ro_ok b" and h: "head_entry b \<noteq> 0" and b1: "b1 = move_head b"
    and b2: "b2 = b1\<lparr>ready_buf := (ready_buf b1)\<lparr>cb_head := next_pos (ready_buf b1) (cb_head (ready_buf b1))\<rparr>\<rparr>"
  shows "ready_full b1 \<Longrightarrow> slid 1 b b1" "\<not> ready_full b1 \<Longrightarrow> slid 1 b b2" "\<not> ready_full b1 \<Longrightarrow> length (rdy b2) = Suc (length (rdy b))"
proof -
  obtain xs where x: "win b = head_entry b # xs" using win_Cons [OF ok] by auto
  note m = move_head_ok [OF ok, folded b1]
  have l: "length (rdy b) < width b" by (rule rdy_less [OF ok])
  show "slid 1 b b1" if "ready_full b1" using that ready_full_iff [OF m(1)] m x h width_pos [OF ok] by (simp add: slid_def)
  assume n: "\<not> ready_full b1"
  note p = push_ready_ok [OF m(1) n b2]
  have "length (rdy b) + 1 \<le> width b - 1" using n l ready_full_iff [OF m(1)] m(3,4) by simp
  then show "slid 1 b b2" using p m x h width_pos [OF ok] by (simp add: slid_def)
  show "length (rdy b2) = Suc (length (rdy b))" using p(3) m(3) by (simp del: rdy_length)
qed

lemma slid_full: "slid k b b' \<Longrightarrow> ro_ok b' \<and> width b' = width b" by (simp add: slid_def)

lemma slid_refl: "ro_ok b \<Longrightarrow> slid 0 b b"
  using rdy_less [of b] by (simp add: slid_def)

lemma move_ready_ok:
  assumes "ro_ok b"
  shows "\<exists>k b'. move_ready b adv = Some (b', adv + of_nat k) \<and> slid k b b' \<and> k + length (rdy b) \<le> width b \<and>
    (\<forall>m \<in> set (take k (win b)). m \<noteq> 0) \<and> (head_entry b \<noteq> 0 \<longrightarrow> 1 \<le> k) \<and> (ready_full b' \<or> head_entry b' = 0)"
  using assms
proof (induction "width b - length (rdy b)" arbitrary: b adv rule: less_induct)
  case less
  note ok = less.prems
  show ?case
  proof (cases "head_entry b = 0")
    case True
    then show ?thesis using slid_refl [OF ok] rdy_less [OF ok] by (subst move_ready.simps) (auto intro!: exI [of _ 0])
  next
    case h: False
    define b1 where "b1 = move_head b"
    obtain xs where x: "win b = head_entry b # xs" using win_Cons [OF ok] by auto
    show ?thesis
    proof (cases "ready_full b1")
      case True
      have "move_ready b adv = Some (b1, adv + of_nat 1)" using h True by (subst move_ready.simps) (simp add: Let_def b1_def)
      moreover have "1 + length (rdy b) \<le> width b" using rdy_less [OF ok] by simp
      ultimately show ?thesis using slid_packet(1) [OF ok h b1_def refl True] True h x by (intro exI [of _ 1] exI [of _ b1]) simp
    next
      case False
      define b2 where "b2 = b1\<lparr>ready_buf := (ready_buf b1)\<lparr>cb_head := next_pos (ready_buf b1) (cb_head (ready_buf b1))\<rparr>\<rparr>"
      note s = slid_packet(2,3) [OF ok h b1_def b2_def False]
      have o2: "ro_ok b2" "width b2 = width b" using slid_full [OF s(1)] by simp_all
      have "width b2 - length (rdy b2) < width b - length (rdy b)" using s(2) o2 rdy_less [OF ok] by simp
      from less.hyps [OF this o2(1), of "adv + 1"] obtain k b' where k: "move_ready b2 (adv + 1) = Some (b', adv + 1 + of_nat k)" "slid k b2 b'"
        "k + length (rdy b2) \<le> width b2" "\<forall>m \<in> set (take k (win b2)). m \<noteq> 0" "ready_full b' \<or> head_entry b' = 0" by blast
      have "move_ready b adv = Some (b', adv + of_nat (1 + k))" using h False k(1) by (subst move_ready.simps) (simp add: Let_def b1_def b2_def add_ac)
      moreover have le: "(1 + k) + length (rdy b) \<le> width b" using k(3) s(2) o2(2) by simp
      moreover have "slid (1 + k) b b'" using le by (intro slid_trans [OF s(1) k(2)]) simp
      moreover have "take k (win b2) = take k xs"
      proof -
        have "Suc (length xs) = width b" using arg_cong [OF x, of length] by simp
        then show ?thesis using s(1) x le by (simp add: slid_def)
      qed
      ultimately show ?thesis using k(4,5) x h by (intro exI [of _ "1 + k"] exI [of _ b']) simp
    qed
  qed
qed

text \<open>The last \<open>a\<close> places of the window are empty.\<close>

definition trail :: "nat \<Rightarrow> rte_reorder_buffer \<Rightarrow> bool" where
  "trail a b \<longleftrightarrow> a \<le> width b \<and> drop (width b - a) (win b) = replicate a 0"

lemma trail_slid:
  assumes "trail a b" and "slid k b b'" and "a + k \<le> width b"
  shows "trail (a + k) b'"
proof -
  have "drop (width b - (a + k)) (drop k (win b)) = drop (width b - a) (win b)" using assms(3) by simp
  then show ?thesis using assms by (simp add: trail_def slid_def replicate_add)
qed

lemma trail_stops:
  assumes "trail a b" and "slid k b b'" and nz: "\<forall>m \<in> set (take k (win b)). m \<noteq> 0"
  shows "a + k \<le> width b"
proof (rule ccontr)
  assume n: "\<not> a + k \<le> width b"
  then have i: "width b - a < k" "0 < a" "k \<le> width b" using assms(1,2) by (auto simp: slid_def trail_def)
  have "win b ! (width b - a) = drop (width b - a) (win b) ! 0" using i by simp
  also have "\<dots> = 0" using assms(1) i by (simp add: trail_def)
  finally have "take k (win b) ! (width b - a) = 0" using i by simp
  then have "0 \<in> set (take k (win b))" using i nth_mem [of "width b - a" "take k (win b)"] by simp
  then show False using nz by blast
qed

lemma slid_ok: "slid k b b' \<Longrightarrow> ro_ok b'" "slid k b b' \<Longrightarrow> width b' = width b"
  by (simp_all add: slid_def)

lemma fill_step:
  assumes ok: "ro_ok b" and t: "trail a b" and a: "a < width b"
  shows "\<exists>k b'. (case (if head_entry b = 0 then (adv_order b, of_nat a + 1) else (b, of_nat a)) of (b, adv) \<Rightarrow> Option.bind (move_ready b adv) f) =
      f (b', of_nat (a + k)) \<and> slid k b b' \<and> 1 \<le> k \<and> a + k \<le> width b"
proof (cases "head_entry b = 0")
  case True
  note g = slid_gap [OF ok True]
  have t1: "trail (a + 1) (adv_order b)" using a by (intro trail_slid [OF t g]) simp
  obtain k b' where k: "move_ready (adv_order b) (of_nat a + 1) = Some (b', of_nat a + 1 + of_nat k)" "slid k (adv_order b) b'"
    "\<forall>m \<in> set (take k (win (adv_order b))). m \<noteq> 0" using move_ready_ok [OF slid_ok(1) [OF g]] by blast
  have le: "a + 1 + k \<le> width b" using trail_stops [OF t1 k(2,3)] slid_ok(2) [OF g] by simp
  then have "slid (1 + k) b b'" by (intro slid_trans [OF g k(2)]) simp
  then show ?thesis using True k(1) le by (intro exI [of _ "1 + k"] exI [of _ b']) (simp add: add_ac)
next
  case False
  obtain k b' where "move_ready b (of_nat a) = Some (b', of_nat a + of_nat k)" "slid k b b'" "\<forall>m \<in> set (take k (win b)). m \<noteq> 0" "1 \<le> k"
    using move_ready_ok [OF ok, of "of_nat a"] False by blast
  then show ?thesis using False trail_stops [OF t, of k b'] by (intro exI [of _ k] exI [of _ b']) simp
qed

lemma fill_loop_ok:
  assumes "ro_ok b" and "trail a b" and "unat n \<le> width b"
  shows "\<exists>k b'. fill_loop n b (of_nat a) = Some (b', of_nat (a + k)) \<and> slid k b b' \<and> a + k \<le> width b \<and> (unat n \<le> a + k \<or> ready_full b')"
  using assms
proof (induction "width b - a" arbitrary: a b rule: less_induct)
  case less
  note ok = less.prems(1) and t = less.prems(2) and n = less.prems(3)
  have aw: "a \<le> width b" using t by (simp add: trail_def)
  have "width b < 2 ^ 28" by (rule csize_pos(2) [OF ro_okD(2) [OF ok]])
  then have lt: "(of_nat a :: u32) < n \<longleftrightarrow> a < unat n" using aw by (simp add: word_less_nat_alt unat_of_nat_less)
  show ?case
  proof (cases "a < unat n \<and> \<not> ready_full b")
    case False
    then have "fill_loop n b (of_nat a) = Some (b, of_nat (a + 0))" using lt by (subst fill_loop.simps) auto
    then show ?thesis using False slid_refl [OF ok] aw by (intro exI [of _ 0] exI [of _ b]) auto
  next
    case True
    obtain k b1 where k: "fill_loop n b (of_nat a) = fill_loop n b1 (of_nat (a + k))" "slid k b b1" "1 \<le> k" "a + k \<le> width b"
    proof -
      have "fill_loop n b (of_nat a) = (case (if head_entry b = 0 then (adv_order b, of_nat a + 1) else (b, of_nat a)) of
          (b, adv) \<Rightarrow> Option.bind (move_ready b adv) (\<lambda>(b, adv). fill_loop n b adv))" using True lt by (subst fill_loop.simps) simp
      moreover have "a < width b" using True n by simp
      ultimately show thesis using fill_step [OF ok t, of "\<lambda>(b, adv). fill_loop n b adv"] that by auto
    qed
    have w: "width b1 = width b" "ro_ok b1" using slid_ok [OF k(2)] by simp_all
    have "width b1 - (a + k) < width b - a" using k(3,4) w(1) by simp
    from less.hyps [OF this w(2) trail_slid [OF t k(2,4)]] n w(1)
    obtain j b' where j: "fill_loop n b1 (of_nat (a + k)) = Some (b', of_nat (a + k + j))" "slid j b1 b'" "a + k + j \<le> width b" "unat n \<le> a + k + j \<or> ready_full b'" by auto
    have "slid (k + j) b b'" using j(3) by (intro slid_trans [OF k(2) j(2)]) simp
    then show ?thesis using k(1) j by (intro exI [of _ "k + j"] exI [of _ b']) (simp add: add.assoc)
  qed
qed

lemma fill_overflow_ok:
  assumes ok: "ro_ok b" and n: "unat n \<le> width b"
  shows "\<exists>k b'. rte_reorder_fill_overflow b n = Some (of_nat k, b'\<lparr>ro_min_seqn := ro_min_seqn b + of_nat k\<rparr>) \<and> slid k b b' \<and> (unat n \<le> k \<or> ready_full b')"
proof -
  have "trail 0 b" by (simp add: trail_def)
  from fill_loop_ok [OF ok this n] obtain k b' where "fill_loop n b 0 = Some (b', of_nat k)" "slid k b b'" "unat n \<le> k \<or> ready_full b'" by auto
  moreover have "ro_min_seqn b' = ro_min_seqn b" using calculation(2) by (simp add: slid_def)
  ultimately show ?thesis by (auto simp: rte_reorder_fill_overflow_def)
qed


section \<open>Insertion\<close>

text \<open>The buffer holds the window \<open>v\<close> and the ready list \<open>r\<close>, and expects the sequence number \<open>q\<close> next.\<close>

definition holds :: "rte_reorder_buffer \<Rightarrow> u64 list \<Rightarrow> u64 list \<Rightarrow> u32 \<Rightarrow> bool" where
  "holds b r v q \<longleftrightarrow> ro_ok b \<and> rdy b = r \<and> win b = v \<and> ro_min_seqn b = q"

lemma min_upd [simp]:
  "win (b\<lparr>ro_min_seqn := q\<rparr>) = win b" "rdy (b\<lparr>ro_min_seqn := q\<rparr>) = rdy b" "ro_ok (b\<lparr>ro_min_seqn := q\<rparr>) = ro_ok b" "ready_full (b\<lparr>ro_min_seqn := q\<rparr>) = ready_full b"
  by (simp_all add: win_def rdy_def ro_ok_def ready_full_def)

lemma put_at_ok:
  assumes ok: "ro_ok b" and i: "unat off < width b"
  shows "holds (put_at off m b) (rdy b) ((win b)[unat off := m]) (ro_min_seqn b)"
proof -
  note o = ro_okD(2) [OF ok]
  have "view (set_cell ((cb_head (order_buf b) + of_nat (unat off)) AND cb_mask (order_buf b)) m (order_buf b)) (cb_head (order_buf b)) (width b) = (win b)[unat off := m]"
    unfolding win_def by (rule view_set [OF o i order_refl])
  then have "win (put_at off m b) = (win b)[unat off := m]" by (simp add: put_at_def win_def)
  moreover have "ro_ok (put_at off m b)" "rdy (put_at off m b) = rdy b" "ro_min_seqn (put_at off m b) = ro_min_seqn b" using ok by (simp_all add: put_at_def ro_ok_def rdy_def)
  ultimately show ?thesis by (simp add: holds_def)
qed

lemma insert_near:
  assumes "holds b r v q" and "unat (seqn_of m - q) < length v"
  shows "\<exists>b'. rte_reorder_insert seqn_of b m = Some (0, None, b') \<and> holds b' r (v[unat (seqn_of m - q) := m]) q"
proof -
  have b: "ro_ok b" "rdy b = r" "win b = v" "ro_min_seqn b = q" using assms(1) by (simp_all add: holds_def)
  have o: "unat (seqn_of m - q) < width b" using assms(2) b(3) win_length [of b] by simp
  then have "rte_reorder_insert seqn_of b m = Some (0, None, put_at (seqn_of m - q) m b)" by (simp add: rte_reorder_insert_def b(4) word_less_nat_alt Let_def)
  then show ?thesis using put_at_ok [OF b(1) o, of m] by (simp add: b)
qed

lemma twice: "cir_ok c \<Longrightarrow> unat (2 * cb_size c) = 2 * csize c"
  using csize_pos(2) [of c] by (simp add: unat_word_ariths)

lemma insert_far:
  assumes "holds b r v q" and "2 * length v \<le> unat (seqn_of m - q)"
  shows "rte_reorder_insert seqn_of b m = Some (- 1, Some ERANGE, b)"
proof -
  have b: "ro_ok b" "win b = v" "ro_min_seqn b = q" using assms(1) by (simp_all add: holds_def)
  have w: "length v = width b" using b(2) win_length [of b] by simp
  show ?thesis using assms(2) twice [OF ro_okD(2) [OF b(1)]] by (simp add: rte_reorder_insert_def b(3) word_less_nat_alt Let_def w)
qed

text \<open>Outside the window but not far: the window slides, by enough places or until the ready list is full.\<close>

lemma insert_slides:
  assumes h: "holds b r v q" and o: "length v \<le> unat (seqn_of m - q)" "unat (seqn_of m - q) < 2 * length v"
  shows "\<exists>k b' ret err v'. rte_reorder_insert seqn_of b m = Some (ret, err, b') \<and> k \<le> length v \<and>
    holds b' (take (length v - 1) (r @ filter (\<lambda>m. m \<noteq> 0) (take k v))) v' (q + of_nat k) \<and>
    (if unat (seqn_of m - q) < length v + k then ret = 0 \<and> err = None \<and> v' = (drop k v @ replicate k 0)[unat (seqn_of m - q) - k := m]
     else ret = - 1 \<and> err = Some ENOSPC \<and> v' = drop k v @ replicate k 0 \<and> length (rdy b') = length v - 1)"
proof -
  have b: "ro_ok b" "rdy b = r" "win b = v" "ro_min_seqn b = q" using h by (simp_all add: holds_def)
  have w: "length v = width b" using b(3) win_length [of b] by simp
  let ?off = "seqn_of m - q" and ?sz = "cb_size (order_buf b)"
  note c = ro_okD(2) [OF b(1)]
  have lt: "width b < 2 ^ 28" by (rule csize_pos(2) [OF c])
  have "unat (?off + 1) = unat ?off + 1" using o(2) lt w by (subst unat_add_less) simp_all
  then have n: "unat (?off + 1 - ?sz) = unat ?off + 1 - width b" using o(1) w by (subst unat_sub_le) (simp_all add: word_le_nat_alt)
  then have "unat (?off + 1 - ?sz) \<le> width b" using o(2) w by simp
  from fill_overflow_ok [OF b(1) this] obtain k b1 where k: "rte_reorder_fill_overflow b (?off + 1 - ?sz) = Some (of_nat k, b1\<lparr>ro_min_seqn := ro_min_seqn b + of_nat k\<rparr>)"
    "slid k b b1" "unat (?off + 1 - ?sz) \<le> k \<or> ready_full b1" by blast
  define b2 where "b2 = b1\<lparr>ro_min_seqn := q + of_nat k\<rparr>"
  have kw: "k \<le> width b" "width b1 = width b" "ro_ok b1" using k(2) by (simp_all add: slid_def)
  have H: "holds b2 (take (length v - 1) (r @ filter (\<lambda>m. m \<noteq> 0) (take k v))) (drop k v @ replicate k 0) (q + of_nat k)"
    using k(2) by (simp add: holds_def slid_def b2_def b w)
  have uk: "unat (of_nat k :: u32) = k" using kw(1) lt by (intro unat_of_nat_less) simp
  have I: "rte_reorder_insert seqn_of b m = (if k < unat ?off + 1 - width b then Some (- 1, Some ENOSPC, b2) else Some (0, None, put_at (seqn_of m - (q + of_nat k)) m b2))"
    using o w k(1) twice [OF c] uk n by (simp add: rte_reorder_insert_def b(4) word_less_nat_alt Let_def b2_def)
  show ?thesis
  proof (cases "unat ?off < length v + k")
    case True
    have u: "unat (seqn_of m - (q + of_nat k)) = unat ?off - k"
      using unat_sub_le [of "of_nat k" ?off] uk o(1) kw(1) w by (simp add: word_le_nat_alt diff_diff_eq)
    have "k \<le> unat ?off" using o(1) kw(1) w by simp
    then have "unat (seqn_of m - (q + of_nat k)) < width b2" using True w u kw(2) by (simp add: b2_def less_diff_conv2)
    from put_at_ok [OF _ this, of m] H
    have "holds (put_at (seqn_of m - (q + of_nat k)) m b2) (take (length v - 1) (r @ filter (\<lambda>m. m \<noteq> 0) (take k v))) ((drop k v @ replicate k 0)[unat ?off - k := m]) (q + of_nat k)"
      unfolding u by (simp add: holds_def)
    moreover have "rte_reorder_insert seqn_of b m = Some (0, None, put_at (seqn_of m - (q + of_nat k)) m b2)" using I True w by simp
    ultimately show ?thesis using True w kw(1)
      by (intro exI [of _ k] exI [of _ "put_at (seqn_of m - (q + of_nat k)) m b2"] exI [of _ 0] exI [of _ None] exI [of _ "(drop k v @ replicate k 0)[unat ?off - k := m]"]) simp
  next
    case False
    then have "ready_full b1" using k(3) n w by linarith
    then have "length (rdy b2) = length v - 1" using w ready_full_iff [OF kw(3)] kw(2) by (simp add: b2_def)
    moreover have "rte_reorder_insert seqn_of b m = Some (- 1, Some ENOSPC, b2)" using I False w by simp
    ultimately show ?thesis using False H w kw(1)
      by (intro exI [of _ k] exI [of _ b2] exI [of _ "- 1"] exI [of _ "Some ENOSPC"] exI [of _ "drop k v @ replicate k 0"]) simp
  qed
qed


section \<open>Drain\<close>

lemma pop_ready_ok:
  assumes ok: "ro_ok b" and n: "cb_tail (ready_buf b) \<noteq> cb_head (ready_buf b)"
    and b': "b' = b\<lparr>ready_buf := (ready_buf b)\<lparr>cb_tail := next_pos (ready_buf b) (cb_tail (ready_buf b))\<rparr>\<rparr>"
  shows "ro_ok b'" "rdy b = cb_entries (ready_buf b) (cb_tail (ready_buf b)) # rdy b'" "win b' = win b" "ro_min_seqn b' = ro_min_seqn b"
proof -
  let ?r = "ready_buf b"
  note r = ro_okD(1,6) [OF ok]
  have "used ?r \<noteq> 0" using n used_empty [OF r(1)] by simp
  then have u: "Suc (used (?r\<lparr>cb_tail := next_pos ?r (cb_tail ?r)\<rparr>)) = used ?r" by (rule used_pop [OF r(1)])
  have "rdy b' = tl (rdy b)" unfolding b' rdy_def using view_next [OF r] u by simp
  moreover have "rdy b \<noteq> []" using u rdy_length [of b] by (metis length_0_conv nat.distinct(1))
  moreover have "hd (rdy b) = cb_entries ?r (cb_tail ?r)" unfolding rdy_def using u by (intro entry_first [OF r]) simp
  ultimately show "rdy b = cb_entries ?r (cb_tail ?r) # rdy b'" by (metis list.collapse)
  show "ro_ok b'" using ok next_pos_idx(2) [OF r] by (simp add: b' ro_ok_def cir_head)
qed (simp_all add: b' win_def)

lemma drain_ready_ok:
  "ro_ok b \<Longrightarrow> drain_ready k b = (ms, b') \<Longrightarrow> ms = take k (rdy b) \<and> holds b' (drop k (rdy b)) (win b) (ro_min_seqn b)"
proof (induction k b arbitrary: ms b' rule: drain_ready.induct)
  case (1 b)
  then show ?case by (simp add: holds_def)
next
  case (2 k b)
  let ?r = "ready_buf b"
  show ?case
  proof (cases "cb_tail ?r = cb_head ?r")
    case True
    then have "rdy b = []" using used_empty [OF ro_okD(1) [OF 2(2)]] rdy_length [of b] by (metis length_0_conv)
    then show ?thesis using 2(2,3) True by (simp add: holds_def Let_def)
  next
    case False
    define b1 where "b1 = b\<lparr>ready_buf := ?r\<lparr>cb_tail := next_pos ?r (cb_tail ?r)\<rparr>\<rparr>"
    note p = pop_ready_ok [OF 2(2) False b1_def]
    obtain ms' b2 where d: "drain_ready k b1 = (ms', b2)" by (cases "drain_ready k b1")
    then have "ms' = take k (rdy b1) \<and> holds b2 (drop k (rdy b1)) (win b1) (ro_min_seqn b1)" using 2(1) [OF refl False _ _] p(1) by (simp add: b1_def)
    moreover have "ms = cb_entries ?r (cb_tail ?r) # ms'" "b' = b2" using 2(3) False d by (auto simp: Let_def b1_def)
    ultimately show ?thesis using p by simp
  qed
qed

lemma drain_order_ok:
  "ro_ok b \<Longrightarrow> drain_order k b = (ms, b') \<Longrightarrow> ms = take k (takeWhile (\<lambda>m. m \<noteq> 0) (win b)) \<and>
    holds b' (rdy b) (drop (length ms) (win b) @ replicate (length ms) 0) (ro_min_seqn b + of_nat (length ms))"
proof (induction k b arbitrary: ms b' rule: drain_order.induct)
  case (1 b)
  then show ?case by (simp add: holds_def)
next
  case (2 k b)
  note x = win_Cons [OF 2(2)]
  show ?case
  proof (cases "head_entry b = 0")
    case True
    obtain xs where "win b = 0 # xs" using x True by auto
    then show ?thesis using 2(2,3) True by (simp add: holds_def)
  next
    case False
    define c where "c = b\<lparr>order_buf := set_cell (cb_head (order_buf b)) 0 (order_buf b)\<rparr>"
    define b1 where "b1 = adv_order (c\<lparr>ro_min_seqn := ro_min_seqn b + 1\<rparr>)"
    have c: "ro_ok c" "win c = (win b)[0 := 0]" "rdy c = rdy b" using clear_head_ok [OF 2(2) c_def] by simp_all
    have a: "ro_ok b1" "win b1 = rotate1 (win c)" "rdy b1 = rdy b" "ro_min_seqn b1 = ro_min_seqn b + 1"
      using adv_order_ok [of "c\<lparr>ro_min_seqn := ro_min_seqn b + 1\<rparr>"] c by (simp_all add: b1_def)
    obtain xs where xs: "win b = head_entry b # xs" using x by auto
    have w: "win b1 = xs @ [0]" using a(2) c(2) xs by simp
    obtain ms' b2 where d: "drain_order k b1 = (ms', b2)" by (cases "drain_order k b1")
    then have i: "ms' = take k (takeWhile (\<lambda>m. m \<noteq> 0) (win b1))" "holds b2 (rdy b1) (drop (length ms') (win b1) @ replicate (length ms') 0) (ro_min_seqn b1 + of_nat (length ms'))"
      using 2(1) [OF False] a(1) by (auto simp: b1_def c_def)
    have ms: "ms = head_entry b # ms'" "b' = b2" using 2(3) False d by (auto simp: b1_def c_def)
    have tw: "takeWhile (\<lambda>m. m \<noteq> 0) (xs @ [0]) = takeWhile (\<lambda>m. m \<noteq> 0) xs" by (induction xs) simp_all
    have "length ms' \<le> length xs" unfolding i(1) w tw using length_takeWhile_le [of "\<lambda>m. m \<noteq> 0" xs] by simp
    then show ?thesis using i(2) a(3,4) False unfolding ms w xs
      by (simp add: i(1) [unfolded w tw] replicate_append_same add_ac)
  qed
qed

end
