(* ===== verification/Reorder_Order.thy ===== *)
theory Reorder_Order
  imports Reorder_Spec
begin

text \<open>
  What a reorder buffer promises: what an insertion and a drain do to the window and to the ready list (locale \<open>sequencer\<close>), and that
  over any sequence of calls the packets come out in the order of their places in the sequence. A packet that meets a full ready
  list is lost, and packets already drained are freed again with the buffer.
\<close>

section \<open>The interface\<close>

lemma drain_ok:
  assumes h: "holds b r v q" and j: "j = length (take (unat k - length r) (takeWhile (\<lambda>m. m \<noteq> 0) v))"
  shows "\<exists>b'. rte_reorder_drain b k = (take (unat k) r @ take j v, b') \<and> holds b' (drop (unat k) r) (drop j v @ replicate j 0) (q + of_nat j)"
proof -
  have b: "ro_ok b" "rdy b = r" "win b = v" "ro_min_seqn b = q" using h by (simp_all add: holds_def)
  obtain ms b1 where d1: "drain_ready (unat k) b = (ms, b1)" by (cases "drain_ready (unat k) b")
  from drain_ready_ok [OF b(1) d1] have 1: "ms = take (unat k) r" "ro_ok b1" "rdy b1 = drop (unat k) r" "win b1 = v" "ro_min_seqn b1 = q" by (simp_all add: holds_def b)
  obtain ms' b2 where d2: "drain_order (unat k - length ms) b1 = (ms', b2)" by (cases "drain_order (unat k - length ms) b1")
  have l: "unat k - length ms = unat k - length r" unfolding 1(1) by simp
  note 2 = conjunct1 [OF drain_order_ok [OF 1(2) d2], unfolded l 1(4)] conjunct2 [OF drain_order_ok [OF 1(2) d2], unfolded 1(3-5)]
  have "take j v = ms'"
  proof -
    let ?t = "takeWhile (\<lambda>m. m \<noteq> 0) v" and ?a = "unat k - length r"
    have "take ?a ?t = take ?a (take (length ?t) v)" by (simp only: takeWhile_eq_take [symmetric])
    also have "\<dots> = take j v" unfolding j length_take take_take by (simp only: min.commute)
    finally show ?thesis unfolding 2(1) by (rule sym)
  qed
  then show ?thesis using d1 d2 2(2) 1(1) unfolding j 2(1) [symmetric] by (simp add: rte_reorder_drain_def)
qed

section \<open>Runs\<close>

datatype reorder_op = Ins u64 | Take u32

text \<open>A run keeps count of the places the window has passed, the packets taken with their places in the sequence, and the packets that came out.\<close>

fun reorder_run :: "((u64 \<Rightarrow> u32) \<Rightarrow> 's \<Rightarrow> u64 \<Rightarrow> (int \<times> int option \<times> 's) option) \<Rightarrow> ('s \<Rightarrow> u32 \<Rightarrow> u64 list \<times> 's) \<Rightarrow> ('s \<Rightarrow> u32) \<Rightarrow> (u64 \<Rightarrow> u32) \<Rightarrow>
    reorder_op list \<Rightarrow> 's \<times> nat \<times> (u64 \<times> nat) list \<times> u64 list \<Rightarrow> ('s \<times> nat \<times> (u64 \<times> nat) list \<times> u64 list) option" where
  "reorder_run ins drain first sq [] x = Some x"
| "reorder_run ins drain first sq (Ins m # ops) (s, base, acc, out) =
     Option.bind (ins sq s m) (\<lambda>(ret, _, s'). reorder_run ins drain first sq ops
       (s', base + unat (first s' - first s), if ret = 0 then acc @ [(m, base + unat (sq m - first s))] else acc, out))"
| "reorder_run ins drain first sq (Take k # ops) (s, base, acc, out) =
     (case drain s k of (ms, s') \<Rightarrow> reorder_run ins drain first sq ops (s', base + unat (first s' - first s), acc, out @ ms))"

text \<open>The packets of a list have ascending places below a bound.\<close>

definition placed :: "(u64 \<times> nat) list \<Rightarrow> u64 list \<Rightarrow> nat list \<Rightarrow> bool" where
  "placed acc xs ps \<longleftrightarrow> list_all2 (\<lambda>m p. (m, p) \<in> set acc) xs ps \<and> sorted_wrt (<) ps"

definition in_window :: "(u64 \<times> nat) list \<Rightarrow> nat \<Rightarrow> u64 list \<Rightarrow> bool" where
  "in_window acc base v \<longleftrightarrow> (\<forall>i<length v. v ! i \<noteq> 0 \<longrightarrow> (v ! i, base + i) \<in> set acc)"

definition run_ok :: "(u64 \<times> nat) list \<Rightarrow> nat \<Rightarrow> u64 list \<Rightarrow> u64 list \<Rightarrow> bool" where
  "run_ok acc base xs v \<longleftrightarrow> in_window acc base v \<and> (\<exists>ps. placed acc xs ps \<and> (\<forall>p \<in> set ps. p < base))"

lemma passed_places:
  assumes "in_window acc base v" and "k \<le> length v"
  shows "\<exists>ps. placed acc (filter (\<lambda>m. m \<noteq> 0) (take k v)) ps \<and> (\<forall>p \<in> set ps. base \<le> p \<and> p < base + k)"
  using assms(2)
proof (induction k)
  case 0
  then show ?case by (intro exI [of _ "[]"]) (simp add: placed_def)
next
  case (Suc k)
  then obtain ps where ps: "placed acc (filter (\<lambda>m. m \<noteq> 0) (take k v)) ps" "\<forall>p \<in> set ps. base \<le> p \<and> p < base + k" by auto
  have t: "take (Suc k) v = take k v @ [v ! k]" using Suc.prems by (simp add: take_Suc_conv_app_nth)
  show ?case
  proof (cases "v ! k = 0")
    case True
    then show ?thesis using ps t by (intro exI [of _ ps]) auto
  next
    case False
    then have "(v ! k, base + k) \<in> set acc" using assms(1) Suc.prems by (simp add: in_window_def)
    then show ?thesis using ps t False by (intro exI [of _ "ps @ [base + k]"]) (auto simp: placed_def sorted_wrt_append intro!: list_all2_appendI)
  qed
qed

lemma placed_append:
  assumes "placed acc xs ps" and "placed acc ys qs" and "\<forall>p \<in> set ps. p < b" and "\<forall>q \<in> set qs. b \<le> q"
  shows "placed acc (xs @ ys) (ps @ qs)"
  using assms by (auto simp: placed_def sorted_wrt_append list_all2_appendI intro: less_le_trans)

lemma placed_take: "placed acc xs ps \<Longrightarrow> placed acc (take n xs) (take n ps)"
  by (simp add: placed_def sorted_wrt_take)

text \<open>The window moves on by \<open>k\<close> places.\<close>

lemma run_ok_slide:
  assumes r: "run_ok acc base xs v" and k: "k \<le> length v"
  shows "run_ok acc (base + k) (take n (xs @ filter (\<lambda>m. m \<noteq> 0) (take k v))) (drop k v @ replicate k 0)"
proof -
  have w: "in_window acc base v" using r by (simp add: run_ok_def)
  obtain ps where ps: "placed acc xs ps" "\<forall>p \<in> set ps. p < base" using r by (auto simp: run_ok_def)
  obtain qs where qs: "placed acc (filter (\<lambda>m. m \<noteq> 0) (take k v)) qs" "\<forall>p \<in> set qs. base \<le> p \<and> p < base + k" using passed_places [OF w k] by blast
  have "placed acc (take n (xs @ filter (\<lambda>m. m \<noteq> 0) (take k v))) (take n (ps @ qs))" using ps qs by (intro placed_take placed_append) auto
  moreover have "\<forall>p \<in> set (take n (ps @ qs)). p < base + k" using ps(2) qs(2) by (auto dest!: in_set_takeD)
  moreover have "in_window acc (base + k) (drop k v @ replicate k 0)" using w by (auto simp: in_window_def nth_append add.assoc)
  ultimately show ?thesis by (auto simp: run_ok_def)
qed

lemma run_ok_more: "run_ok acc base xs v \<Longrightarrow> run_ok (acc @ ys) base xs v"
  unfolding run_ok_def in_window_def placed_def by (auto elim!: list_all2_mono)

lemma run_ok_put: "run_ok acc base xs v \<Longrightarrow> (m, base + i) \<in> set acc \<Longrightarrow> run_ok acc base xs (v[i := m])"
proof -
  assume r: "run_ok acc base xs v" and m: "(m, base + i) \<in> set acc"
  have "(v[i := m] ! j, base + j) \<in> set acc" if "j < length v" "v[i := m] ! j \<noteq> 0" for j
    using r m that by (cases "j = i") (auto simp: run_ok_def in_window_def)
  then show ?thesis using r by (auto simp: run_ok_def in_window_def)
qed

text \<open>The invariant of a run: what has come out and what is ready have ascending places, all of them before the window.\<close>

definition running :: "('s \<Rightarrow> u64 list \<Rightarrow> u64 list \<Rightarrow> u32 \<Rightarrow> bool) \<Rightarrow> (u64 \<Rightarrow> u32) \<Rightarrow> u32 \<Rightarrow> 's \<times> nat \<times> (u64 \<times> nat) list \<times> u64 list \<Rightarrow> bool" where
  "running has sq q0 x = (case x of (s, base, acc, out) \<Rightarrow> \<exists>r v. has s r v (q0 + of_nat base) \<and> run_ok acc base (out @ r) v \<and> (\<forall>(m, p) \<in> set acc. sq m = q0 + of_nat p))"

text \<open>What a client sees: the packets ready, the window, and the sequence number of its first place.\<close>

locale sequencer =
  fixes has :: "'s \<Rightarrow> u64 list \<Rightarrow> u64 list \<Rightarrow> u32 \<Rightarrow> bool"
    and ins :: "(u64 \<Rightarrow> u32) \<Rightarrow> 's \<Rightarrow> u64 \<Rightarrow> (int \<times> int option \<times> 's) option" and drain :: "'s \<Rightarrow> u32 \<Rightarrow> u64 list \<times> 's" and first :: "'s \<Rightarrow> u32"
  assumes first_law: "has s r v q \<Longrightarrow> first s = q" and small: "has s r v q \<Longrightarrow> length v < 2 ^ 28"
    and near: "has s r v q \<Longrightarrow> unat (sq m - q) < length v \<Longrightarrow> \<exists>s'. ins sq s m = Some (0, None, s') \<and> has s' r (v[unat (sq m - q) := m]) q"
    and far: "has s r v q \<Longrightarrow> 2 * length v \<le> unat (sq m - q) \<Longrightarrow> ins sq s m = Some (- 1, Some ERANGE, s)"
    and slides: "has s r v q \<Longrightarrow> length v \<le> unat (sq m - q) \<Longrightarrow> unat (sq m - q) < 2 * length v \<Longrightarrow>
      \<exists>k s' ret err v'. ins sq s m = Some (ret, err, s') \<and> k \<le> length v \<and>
        has s' (take (length v - 1) (r @ filter (\<lambda>m. m \<noteq> 0) (take k v))) v' (q + of_nat k) \<and>
        (if unat (sq m - q) < length v + k then ret = 0 \<and> err = None \<and> v' = (drop k v @ replicate k 0)[unat (sq m - q) - k := m]
         else ret = - 1 \<and> err = Some ENOSPC \<and> v' = drop k v @ replicate k 0)"
    and drains: "has s r v q \<Longrightarrow> j = length (take (unat k - length r) (takeWhile (\<lambda>m. m \<noteq> 0) v)) \<Longrightarrow>
      \<exists>s'. drain s k = (take (unat k) r @ take j v, s') \<and> has s' (drop (unat k) r) (drop j v @ replicate j 0) (q + of_nat j)"
begin

lemma moved: "k \<le> length v \<Longrightarrow> has s r v q \<Longrightarrow> unat (q + of_nat k - q) = k"
  using small [of s r v q] by (simp add: unat_of_nat_less)

lemma run_insert:
  assumes "running has sq q0 (s, base, acc, out)"
  shows "\<exists>ret err s'. ins sq s m = Some (ret, err, s') \<and>
    running has sq q0 (s', base + unat (first s' - first s), if ret = 0 then acc @ [(m, base + unat (sq m - first s))] else acc, out)"
proof -
  let ?q = "q0 + of_nat base"
  obtain r v where h: "has s r v ?q" and R: "run_ok acc base (out @ r) v" and A: "\<forall>(m, p) \<in> set acc. sq m = q0 + of_nat p" using assms by (auto simp: running_def)
  have f: "first s = ?q" by (rule first_law [OF h])
  let ?o = "unat (sq m - ?q)"
  have A': "\<forall>(n, p) \<in> set (acc @ [(m, base + ?o)]). sq n = q0 + of_nat p" using A by (auto simp: algebra_simps)
  have R': "run_ok (acc @ [(m, base + ?o)]) base (out @ r) v" by (rule run_ok_more [OF R])
  consider "?o < length v" | "length v \<le> ?o" "?o < 2 * length v" | "2 * length v \<le> ?o" by linarith
  then show ?thesis
  proof cases
    case 1
    obtain s' where s': "ins sq s m = Some (0, None, s')" "has s' r (v[?o := m]) ?q" using near [OF h, of sq m] 1 by blast
    have "run_ok (acc @ [(m, base + ?o)]) base (out @ r) (v[?o := m])" by (rule run_ok_put [OF R']) simp
    then show ?thesis using s' A' first_law [OF s'(2)] f by (auto simp: running_def)
  next
    case 2
    from slides [OF h, of sq m] 2 obtain k s' ret err v' where k: "ins sq s m = Some (ret, err, s')" "k \<le> length v"
      and h': "has s' (take (length v - 1) (r @ filter (\<lambda>m. m \<noteq> 0) (take k v))) v' (?q + of_nat k)"
      and c: "if ?o < length v + k then ret = 0 \<and> err = None \<and> v' = (drop k v @ replicate k 0)[?o - k := m] else ret = - 1 \<and> err = Some ENOSPC \<and> v' = drop k v @ replicate k 0" by blast
    have b: "unat (first s' - first s) = k" unfolding f first_law [OF h'] by (rule moved [OF k(2) h])
    have q: "?q + of_nat k = q0 + of_nat (base + k)" by simp
    have S: "run_ok a (base + k) (out @ take (length v - 1) (r @ filter (\<lambda>m. m \<noteq> 0) (take k v))) (drop k v @ replicate k 0)" if "run_ok a base (out @ r) v" for a
      using run_ok_slide [OF that k(2), of "length out + (length v - 1)"] by simp
    show ?thesis
    proof (cases "?o < length v + k")
      case True
      have "base + k + (?o - k) = base + ?o" using 2 k(2) by simp
      then have "run_ok (acc @ [(m, base + ?o)]) (base + k) (out @ take (length v - 1) (r @ filter (\<lambda>m. m \<noteq> 0) (take k v))) ((drop k v @ replicate k 0)[?o - k := m])"
        by (intro run_ok_put [OF S [OF R']]) simp
      then show ?thesis using True c k(1) h' A' b f unfolding running_def q by (intro exI [of _ ret] exI [of _ err] exI [of _ s']) (simp, blast)
    next
      case False
      then show ?thesis using c k(1) h' A b S [OF R] unfolding running_def q by (intro exI [of _ ret] exI [of _ err] exI [of _ s']) (simp, blast)
    qed
  next
    case 3
    then show ?thesis using far [OF h, of sq m] assms by simp
  qed
qed

lemma run_drain:
  assumes "running has sq q0 (s, base, acc, out)" and d: "drain s k = (ms, s')"
  shows "running has sq q0 (s', base + unat (first s' - first s), acc, out @ ms)"
proof -
  let ?q = "q0 + of_nat base"
  obtain r v where h: "has s r v ?q" and R: "run_ok acc base (out @ r) v" and A: "\<forall>(m, p) \<in> set acc. sq m = q0 + of_nat p" using assms(1) by (auto simp: running_def)
  define j where "j = length (take (unat k - length r) (takeWhile (\<lambda>m. m \<noteq> 0) v))"
  have jw: "j \<le> length (takeWhile (\<lambda>m. m \<noteq> 0) v)" "j \<le> length v" unfolding j_def using length_takeWhile_le [of "\<lambda>m. m \<noteq> 0" v] by simp_all
  from drains [OF h j_def] d have s': "ms = take (unat k) r @ take j v" "has s' (drop (unat k) r) (drop j v @ replicate j 0) (?q + of_nat j)" by auto
  have b: "unat (first s' - first s) = j" unfolding first_law [OF h] first_law [OF s'(2)] by (rule moved [OF jw(2) h])
  have "take j v = take j (takeWhile (\<lambda>m. m \<noteq> 0) v)" using jw(1) by (metis min.absorb1 take_take takeWhile_eq_take)
  then have "filter (\<lambda>m. m \<noteq> 0) (take j v) = take j v" by (auto simp: filter_id_conv dest!: in_set_takeD set_takeWhileD)
  then have "run_ok acc (base + j) (out @ r @ take j v) (drop j v @ replicate j 0)" using run_ok_slide [OF R jw(2), of "length (out @ r @ take j v)"] jw(2) by (simp add: min_absorb2)
  moreover have "take (unat k) r @ take j v @ drop (unat k) r = r @ take j v"
  proof (cases "unat k < length r")
    case True
    then show ?thesis by (simp add: j_def)
  qed simp
  ultimately have "run_ok acc (base + j) ((out @ ms) @ drop (unat k) r) (drop j v @ replicate j 0)" by (simp add: s'(1))
  moreover have "?q + of_nat j = q0 + of_nat (base + j)" by simp
  ultimately show ?thesis using s'(2) A unfolding running_def b by (simp only: prod.case) blast
qed

lemma run_in_order:
  assumes "running has sq q0 x"
  shows "\<exists>y. reorder_run ins drain first sq ops x = Some y \<and> running has sq q0 y"
  using assms
proof (induction ops arbitrary: x)
  case (Cons op ops)
  obtain s base acc out where x: "x = (s, base, acc, out)" by (cases x)
  show ?case
  proof (cases op)
    case (Ins m)
    then show ?thesis using run_insert [OF Cons.prems [unfolded x], of m] Cons.IH by (auto simp: x)
  next
    case (Take k)
    obtain ms s' where d: "drain s k = (ms, s')" by (cases "drain s k")
    then show ?thesis using run_drain [OF Cons.prems [unfolded x] d] Cons.IH Take by (simp add: x)
  qed
qed simp

end

interpretation rob: sequencer holds rte_reorder_insert rte_reorder_drain ro_min_seqn
proof (unfold_locales, goal_cases)
  case (1 s r v q)
  then show ?case by (simp add: holds_def)
next
  case (2 s r v q)
  then show ?case using csize_pos(2) [OF ro_okD(2), of s] win_length [of s] by (auto simp: holds_def)
next
  case (3 s r v q sq m)
  then show ?case by (rule insert_near)
next
  case (4 s r v q sq m)
  then show ?case by (rule insert_far)
next
  case (5 s r v q sq m)
  then show ?case using insert_slides [of s r v q sq m] by metis
next
  case (6 s r v q j k)
  then show ?case by (rule drain_ok)
qed

section \<open>Properties\<close>

text \<open>A buffer just initialised.\<close>

lemma pow2_of_test: "rte_is_power_of_2 n \<Longrightarrow> pow2_size n"
  using POWEROF2_iff [of n] by (simp add: rte_is_power_of_2_def POWEROF2_def and.commute)

lemma init_holds:
  assumes "b \<noteq> 0" and "rte_is_power_of_2 sz" and "unat sz < 2 ^ 28" and "reorder_bufsize sz \<le> bufsize"
  shows "fst (rte_reorder_init b bufsize (Some name) sz w) = b" "holds (rw_buf (snd (rte_reorder_init b bufsize (Some name) sz w)) b) [] (replicate (unat sz) 0) 0"
proof -
  have i: "rte_reorder_init b bufsize (Some name) sz w = (b, w\<lparr>rw_buf := (rw_buf w)(b := \<lparr>ro_name = take 31 name, ro_min_seqn = 0, ro_memsize = bufsize,
      ready_buf = empty_cir sz, order_buf = empty_cir sz\<rparr>)\<rparr>)" using assms by (simp add: rte_reorder_init_def RTE_REORDER_NAMESIZE_def)
  have P: "pow2_size sz" by (rule pow2_of_test [OF assms(2)])
  then have "0 < unat sz" by (rule unat_pow2_pos)
  then have c: "cir_ok (empty_cir sz)" using P assms(3) by (simp add: cir_ok_def empty_cir_def word_less_nat_alt)
  show "fst (rte_reorder_init b bufsize (Some name) sz w) = b" unfolding i by simp
  have "map (\<lambda>i. 0) [0..<n] = replicate n (0 :: u64)" for n by (simp add: map_replicate_const)
  then show "holds (rw_buf (snd (rte_reorder_init b bufsize (Some name) sz w)) b) [] (replicate (unat sz) 0) 0"
    unfolding i using c by (simp add: holds_def ro_ok_def rdy_def win_def view_def used_def empty_cir_def)
qed


text \<open>C33: Over any sequence of insertions and drains of an empty buffer every call returns, and the packets that come out are packets that were taken, in strictly
  ascending order of their places in the sequence, also across the wrap-around of the sequence numbers; the place of a packet is its distance from the first sequence number.\<close>
theorem reorder_in_order:
  assumes "holds b [] (replicate n 0) q"
  shows "\<exists>b' base acc out ps. reorder_run rte_reorder_insert rte_reorder_drain ro_min_seqn sq ops (b, 0, [], []) = Some (b', base, acc, out) \<and>
    (\<forall>(m, p) \<in> set acc. sq m = q + of_nat p) \<and> list_all2 (\<lambda>m p. (m, p) \<in> set acc) out ps \<and> sorted_wrt (<) ps"
proof -
  have "run_ok [] 0 [] (replicate n 0)" by (simp add: run_ok_def in_window_def placed_def)
  then have "running holds sq q (b, 0, [], [])" using assms by (auto simp: running_def)
  then obtain y where y: "reorder_run rte_reorder_insert rte_reorder_drain ro_min_seqn sq ops (b, 0, [], []) = Some y" "running holds sq q y" using rob.run_in_order by blast
  obtain b' base acc out where e: "y = (b', base, acc, out)" by (cases y)
  obtain r v ps where p: "placed acc (out @ r) ps" "\<forall>(m, p) \<in> set acc. sq m = q + of_nat p" using y(2) unfolding e running_def run_ok_def prod.case by blast
  have "placed acc (take (length out) (out @ r)) (take (length out) ps)" by (rule placed_take [OF p(1)])
  then show ?thesis using y(1) p(2) unfolding e placed_def by auto
qed

definition sample_reorder :: rte_reorder_buffer where
  "sample_reorder = \<lparr>ro_name = ''r'', ro_min_seqn = 0, ro_memsize = 224, ready_buf = empty_cir 2, order_buf = empty_cir 2\<rparr>"

lemma sample_reorder_holds: "holds sample_reorder [] (replicate 2 0) 0"
proof -
  have s: "rte_is_power_of_2 2" "unat (2 :: u32) = 2" "reorder_bufsize 2 = 224" by (simp_all add: rte_is_power_of_2_def reorder_bufsize_def)
  show ?thesis using init_holds(2) [of 1 2 224 "''r''" "\<lparr>rw_list = [], rw_buf = \<lambda>_. sample_reorder, rw_freed = [], rw_errno = 0\<rparr>"] s
    by (simp add: rte_reorder_init_def sample_reorder_def RTE_REORDER_NAMESIZE_def)
qed

theorem reorder_in_order_witness:
  "\<exists>b' base acc out ps. reorder_run rte_reorder_insert rte_reorder_drain ro_min_seqn ucast [Ins 1, Ins 2, Ins 0x100000000, Take 8] (sample_reorder, 0, [], []) = Some (b', base, acc, out) \<and>
    (\<forall>(m, p) \<in> set acc. ucast m = (0 :: u32) + of_nat p) \<and> list_all2 (\<lambda>m p. (m, p) \<in> set acc) out ps \<and> sorted_wrt (<) ps"
  by (rule reorder_in_order [OF sample_reorder_holds])

text \<open>C34: An insertion into a buffer whose packets all fit the ready list, at a place that is free, returns, and loses no packet: with the result 0 the packets are those of
  before and the new one, with \<open>-1\<close> those of before.\<close>
theorem reorder_insert_keeps:
  assumes h: "holds b r v q" and room: "length r + length (filter (\<lambda>m. m \<noteq> 0) v) < length v" and m: "m \<noteq> 0"
    and free: "unat (sq m - q) < length v \<Longrightarrow> v ! unat (sq m - q) = 0"
  shows "\<exists>ret err b' r' v' q'. rte_reorder_insert sq b m = Some (ret, err, b') \<and> holds b' r' v' q' \<and>
    mset (r' @ filter (\<lambda>m. m \<noteq> 0) v') = mset (r @ filter (\<lambda>m. m \<noteq> 0) v) + (if ret = 0 then {#m#} else {#})"
proof -
  let ?o = "unat (sq m - q)" and ?f = "filter (\<lambda>m :: u64. m \<noteq> 0)"
  have put: "mset (?f (w[i := m])) = add_mset m (mset (?f w))" if "i < length w" "w ! i = 0" for i w
  proof -
    have w: "w = take i w @ 0 # drop (Suc i) w" using that by (simp add: id_take_nth_drop [symmetric] flip: that(2))
    have "w[i := m] = take i w @ m # drop (Suc i) w" using that(1) by (simp add: upd_conv_take_nth_drop)
    moreover have "?f w = ?f (take i w) @ ?f (drop (Suc i) w)" by (subst w) simp
    ultimately show ?thesis using m by simp
  qed
  consider "?o < length v" | "length v \<le> ?o" "?o < 2 * length v" | "2 * length v \<le> ?o" by linarith
  then show ?thesis
  proof cases
    case 1
    obtain b' where "rte_reorder_insert sq b m = Some (0, None, b')" "holds b' r (v[?o := m]) q" using insert_near [OF h, of sq m] 1 by blast
    then show ?thesis using put [OF 1 free [OF 1]] by (intro exI conjI) (assumption, assumption, simp)
  next
    case 2
    from insert_slides [OF h, of sq m] 2 obtain k b' ret err v' where i: "rte_reorder_insert sq b m = Some (ret, err, b')" "k \<le> length v"
      "holds b' (take (length v - 1) (r @ ?f (take k v))) v' (q + of_nat k)"
      "if ?o < length v + k then ret = 0 \<and> err = None \<and> v' = (drop k v @ replicate k 0)[?o - k := m]
       else ret = - 1 \<and> err = Some ENOSPC \<and> v' = drop k v @ replicate k 0 \<and> length (rdy b') = length v - 1" by blast
    have v: "mset (?f v) = mset (?f (take k v)) + mset (?f (drop k v))" by (metis append_take_drop_id filter_append mset_append)
    have "length (?f (take k v)) \<le> length (?f v)" by (metis append_take_drop_id filter_append length_append le_add1)
    then have t: "take (length v - 1) (r @ ?f (take k v)) = r @ ?f (take k v)" using room by simp
    have z: "?f (drop k v @ replicate k 0) = ?f (drop k v)" by simp
    have "mset (?f v') = (if ret = 0 then {#m#} else {#}) + mset (?f (drop k v))"
    proof (cases "?o < length v + k")
      case True
      have "\<not> ?o - k < length v - k" "?o - k - (length v - k) < k" "?o - k < length v" using 2 i(2) True by linarith+
      then have "?o - k < length (drop k v @ replicate k 0)" "(drop k v @ replicate k 0) ! (?o - k) = 0" using i(2) by (simp_all add: nth_append)
      then show ?thesis using put i(4) True z by simp
    next
      case False
      then show ?thesis using i(4) z by simp
    qed
    then show ?thesis using i(1,3) v unfolding t by (intro exI conjI) (assumption, assumption, simp)
  next
    case 3
    then show ?thesis using insert_far [OF h, of sq m] h by (intro exI conjI) (simp, assumption, simp)
  qed
qed

theorem reorder_insert_keeps_witness:
  "\<exists>ret err b' r' v' q'. rte_reorder_insert ucast sample_reorder 3 = Some (ret, err, b') \<and> holds b' r' v' q' \<and>
    mset (r' @ filter (\<lambda>m. m \<noteq> 0) v') = (if ret = 0 then {#3#} else {#})"
  using reorder_insert_keeps [OF sample_reorder_holds, of 3 ucast] by simp

text \<open>Three packets in order in a buffer of two: every insertion returns 0, the second packet never comes out, since it was put into the cell that keeps the ready
  list from filling up, and its cell is taken again.\<close>
theorem reorder_loses_packet:
  "(case reorder_run rte_reorder_insert rte_reorder_drain ro_min_seqn (\<lambda>m. ucast m - 1) [Ins 1, Ins 2, Ins 3, Take 8, Take 8] (sample_reorder, 0, [], []) of
     Some (b, base, acc, out) \<Rightarrow> acc = [(1, 0), (2, 1), (3, 2)] \<and> out = [1, 3] | None \<Rightarrow> False)"
  by code_simp

text \<open>Freeing the packets of a buffer frees packets that were drained from its ready list before: the drain moves the tail and leaves the pointer.\<close>
theorem reorder_frees_drained:
  "(case reorder_run rte_reorder_insert rte_reorder_drain ro_min_seqn (\<lambda>m. ucast m - 1) [Ins 1, Ins 3, Take 8] (sample_reorder, 0, [], []) of
     Some (b, base, acc, out) \<Rightarrow> out = [1] \<and> free_entries (\<lambda>m freed. Some (freed @ [m])) b [0..<2] [] = Some [3, 1] | None \<Rightarrow> False)"
  by code_simp

end
