(* ===== verification/Kvargs.thy ===== *)
theory Kvargs
  imports Eth_Types
begin

text \<open>
  Device arguments, \<open>dpdk-2.0.0/lib/librte_kvargs/rte_kvargs.c\<close>: a string of keys and values, \<open>key=value,key=value\<close>, parsed into a list of at most
  32 pairs with \<open>strtok_r\<close>. The copy of the string and the structure are allocated; whether that succeeds is an argument. The
  list has the pairs the structure points to.
\<close>

definition RTE_KVARGS_MAX :: nat where "RTE_KVARGS_MAX = 32"
definition RTE_KVARGS_PAIRS_DELIM :: char where "RTE_KVARGS_PAIRS_DELIM = CHR '',''"
definition RTE_KVARGS_KV_DELIM :: char where "RTE_KVARGS_KV_DELIM = CHR ''=''"

text \<open>\<open>strtok_r\<close> with one delimiter: the token, and the place where the next call goes on.\<close>

definition strtok :: "char \<Rightarrow> string \<Rightarrow> string option \<times> string" where
  "strtok d s =
     (let t = dropWhile (\<lambda>c. c = d) s in
      if t = [] then (None, []) else (Some (takeWhile (\<lambda>c. c \<noteq> d) t), tl (dropWhile (\<lambda>c. c \<noteq> d) t)))"

lemma strtok_less: "strtok d s = (Some tok, rest) \<Longrightarrow> length rest < length s"
proof -
  assume s: "strtok d s = (Some tok, rest)"
  let ?t = "dropWhile (\<lambda>c. c = d) s"
  have t: "?t \<noteq> []" "rest = tl (dropWhile (\<lambda>c. c \<noteq> d) ?t)" using s by (auto simp: strtok_def Let_def split: if_splits)
  have "length rest \<le> length (dropWhile (\<lambda>c. c \<noteq> d) ?t) - 1" unfolding t(2) by simp
  also have "\<dots> < length ?t" using t(1) length_dropWhile_le [of "\<lambda>c. c \<noteq> d" ?t] by (cases ?t) auto
  also have "\<dots> \<le> length s" by (rule length_dropWhile_le)
  finally show ?thesis .
qed

type_synonym kvargs = "(string \<times> string) list"

text \<open>The loop over the pairs; \<open>None\<close> for the result \<open>-1\<close>.\<close>

function kv_pairs :: "string \<Rightarrow> kvargs \<Rightarrow> kvargs option" where
  "kv_pairs s kv =
     (case strtok RTE_KVARGS_PAIRS_DELIM s of
        (None, _) \<Rightarrow> Some kv
      | (Some str, rest) \<Rightarrow>
          if length kv \<ge> RTE_KVARGS_MAX then None
          else (case strtok RTE_KVARGS_KV_DELIM str of
                  (None, _) \<Rightarrow> None
                | (Some key, ctx2) \<Rightarrow>
                    (case strtok RTE_KVARGS_KV_DELIM ctx2 of (None, _) \<Rightarrow> None | (Some val, _) \<Rightarrow> kv_pairs rest (kv @ [(key, val)]))))"
  by pat_completeness auto
termination by (relation "measure (\<lambda>(s, kv). length s)") (auto dest!: sym [THEN strtok_less])

declare kv_pairs.simps [simp del]

definition rte_kvargs_tokenize :: "bool \<Rightarrow> string \<Rightarrow> kvargs option" where
  "rte_kvargs_tokenize dup_ok params = (if dup_ok then kv_pairs params [] else None)"

fun is_valid_key :: "string list \<Rightarrow> string \<Rightarrow> bool" where
  "is_valid_key [] key = False"
| "is_valid_key (v # vs) key = (if key = v then True else is_valid_key vs key)"

fun check_for_valid_keys :: "kvargs \<Rightarrow> string list \<Rightarrow> int" where
  "check_for_valid_keys [] valid = 0"
| "check_for_valid_keys ((key, val) # kv) valid = (if \<not> is_valid_key valid key then - 1 else check_for_valid_keys kv valid)"

fun rte_kvargs_count :: "kvargs \<Rightarrow> string option \<Rightarrow> nat" where
  "rte_kvargs_count [] key_match = 0"
| "rte_kvargs_count ((key, val) # kv) key_match =
     (if key_match = None \<or> Some key = key_match then 1 else 0) + rte_kvargs_count kv key_match"

text \<open>The handler changes what \<open>opaque_arg\<close> points to.\<close>

fun rte_kvargs_process :: "kvargs \<Rightarrow> string option \<Rightarrow> (string \<Rightarrow> string \<Rightarrow> 's \<Rightarrow> int \<times> 's) \<Rightarrow> 's \<Rightarrow> int \<times> 's" where
  "rte_kvargs_process [] key_match handler s = (0, s)"
| "rte_kvargs_process ((key, val) # kv) key_match handler s =
     (if key_match = None \<or> Some key = key_match
      then (case handler key val s of (r, s) \<Rightarrow> if r < 0 then (- 1, s) else rte_kvargs_process kv key_match handler s)
      else rte_kvargs_process kv key_match handler s)"

text \<open>The result is \<open>None\<close> for NULL; \<open>valid_keys\<close> is \<open>None\<close> where the caller passes NULL.\<close>

definition rte_kvargs_parse :: "bool \<Rightarrow> bool \<Rightarrow> string \<Rightarrow> string list option \<Rightarrow> kvargs option" where
  "rte_kvargs_parse malloc_ok dup_ok args valid_keys =
     (if \<not> malloc_ok then None
      else case rte_kvargs_tokenize dup_ok args of
        None \<Rightarrow> None
      | Some kv \<Rightarrow>
          (case valid_keys of
             None \<Rightarrow> Some kv
           | Some valid \<Rightarrow> if check_for_valid_keys kv valid < 0 then None else Some kv))"

end
