(* ===== verification/Eth_Ring_Args.thy ===== *)
theory Eth_Ring_Args
  imports Eth_Ring Kvargs
begin

text \<open>
  How the ring driver is started from device arguments, \<open>dpdk-2.0.0/lib/librte_pmd_ring/rte_eth_ring.c\<close>, and the
  deprecated pairs of ports. \<open>get_ring node\<close> is what \<open>rte_ring_create\<close> or \<open>rte_ring_lookup\<close> returns on a NUMA node, as
  in \<open>Eth_Ring\<close>; \<open>grants i\<close> says which allocations of the \<open>i\<close>-th creation succeed.
\<close>

section \<open>Pairs of ports\<close>

fun evens :: "'a list \<Rightarrow> 'a list" where
  "evens (x # y # xs) = x # evens xs"
| "evens xs = xs"

text \<open>The two ports are called like the last two rings; the rings are made in turn, one to receive and one to send.\<close>

definition eth_dev_ring_pair_create ::
  "eth_env \<Rightarrow> (u8 \<Rightarrow> (pmd_internals, ring_ref) rte_eth_dev_data) \<Rightarrow> (nat \<Rightarrow> nat \<Rightarrow> bool) \<Rightarrow>
   (u32 \<Rightarrow> dev_action \<Rightarrow> string \<Rightarrow> rings \<Rightarrow> u64 option \<times> rings) \<Rightarrow> string \<Rightarrow> u32 \<Rightarrow> dev_action \<Rightarrow> (int, ring_eth) op" where
  "eth_dev_ring_pair_create env slot_data grants get_ring name numa_node action s =
     (let num_rings = min RTE_PMD_RING_MAX_RX_RINGS RTE_PMD_RING_MAX_TX_RINGS;
          rx_name = (\<lambda>i. ''ETH_RX'' @ dec i @ ''_'' @ name);
          tx_name = (\<lambda>i. ''ETH_TX'' @ dec i @ ''_'' @ name) in
      case get_rings (get_ring numa_node) action (concat (map (\<lambda>i. [rx_name i, tx_name i]) [0..<num_rings])) (s_shared s) of
        (None, w) \<Rightarrow> Inr (- 1, s\<lparr>s_shared := w\<rparr>)
      | (Some rs, w) \<Rightarrow>
          (let rx = evens rs; tx = evens (tl rs) in
           bnd (rte_eth_from_rings env slot_data (grants 0) (take (RTE_RING_NAMESIZE - 1) (rx_name (num_rings - 1)))
                  (Some (\<lambda>i. rx ! i)) (of_nat num_rings) (Some (\<lambda>i. tx ! i)) (of_nat num_rings) (s\<lparr>s_shared := w\<rparr>))
             (\<lambda>(r, s). if r \<noteq> 0 then Inr (- 1, s)
                else bnd (rte_eth_from_rings env slot_data (grants 1) (take (RTE_RING_NAMESIZE - 1) (tx_name (num_rings - 1)))
                       (Some (\<lambda>i. tx ! i)) (of_nat num_rings) (Some (\<lambda>i. rx ! i)) (of_nat num_rings) s)
                     (\<lambda>(r, s). Inr (if r \<noteq> 0 then - 1 else 0, s)))))"

definition rte_eth_ring_pair_create ::
  "eth_env \<Rightarrow> (u8 \<Rightarrow> (pmd_internals, ring_ref) rte_eth_dev_data) \<Rightarrow> (nat \<Rightarrow> nat \<Rightarrow> bool) \<Rightarrow>
   (u32 \<Rightarrow> dev_action \<Rightarrow> string \<Rightarrow> rings \<Rightarrow> u64 option \<times> rings) \<Rightarrow> string \<Rightarrow> u32 \<Rightarrow> (int, ring_eth) op" where
  "rte_eth_ring_pair_create env slot_data grants get_ring name numa_node =
     eth_dev_ring_pair_create env slot_data grants get_ring name numa_node DEV_CREATE"

definition rte_eth_ring_pair_attach ::
  "eth_env \<Rightarrow> (u8 \<Rightarrow> (pmd_internals, ring_ref) rte_eth_dev_data) \<Rightarrow> (nat \<Rightarrow> nat \<Rightarrow> bool) \<Rightarrow>
   (u32 \<Rightarrow> dev_action \<Rightarrow> string \<Rightarrow> rings \<Rightarrow> u64 option \<times> rings) \<Rightarrow> string \<Rightarrow> u32 \<Rightarrow> (int, ring_eth) op" where
  "rte_eth_ring_pair_attach env slot_data grants get_ring name numa_node =
     eth_dev_ring_pair_create env slot_data grants get_ring name numa_node DEV_ATTACH"

section \<open>Arguments\<close>

definition ETH_RING_NUMA_NODE_ACTION_ARG :: string where "ETH_RING_NUMA_NODE_ACTION_ARG = ''nodeaction''"
definition ETH_RING_ACTION_CREATE :: string where "ETH_RING_ACTION_CREATE = ''CREATE''"
definition ETH_RING_ACTION_ATTACH :: string where "ETH_RING_ACTION_ATTACH = ''ATTACH''"
definition valid_arguments :: "string list" where "valid_arguments = [ETH_RING_NUMA_NODE_ACTION_ARG]"
definition PATH_MAX :: nat where "PATH_MAX = 4096"

record node_action_pair =
  na_name :: string
  na_node :: u32
  na_action :: dev_action

record node_action_list =
  nl_total :: nat
  nl_count :: nat
  nl_list :: "node_action_pair list"

text \<open>\<open>strchr\<close>: what is before the first such character and what is after it.\<close>

definition strchr :: "char \<Rightarrow> string \<Rightarrow> (string \<times> string) option" where
  "strchr c s = (if c \<in> set s then Some (takeWhile (\<lambda>x. x \<noteq> c) s, tl (dropWhile (\<lambda>x. x \<noteq> c) s)) else None)"

text \<open>
  \<open>strtol (nptr, &end, 10)\<close>: the value, whether \<open>errno\<close> is set, and the rest of the string. Without a digit the value is 0, the
  rest is the whole string and \<open>errno\<close> stays 0.
\<close>

definition is_space :: "char \<Rightarrow> bool" where
  "is_space c \<longleftrightarrow> c = CHR '' '' \<or> 9 \<le> (of_char c :: nat) \<and> (of_char c :: nat) \<le> 13"

definition is_digit :: "char \<Rightarrow> bool" where
  "is_digit c \<longleftrightarrow> 48 \<le> (of_char c :: nat) \<and> (of_char c :: nat) \<le> 57"

definition digits_value :: "string \<Rightarrow> int" where
  "digits_value s = foldl (\<lambda>n c. 10 * n + (of_char c - 48)) 0 s"

definition strtol :: "string \<Rightarrow> int \<times> bool \<times> string" where
  "strtol nptr =
     (let s = dropWhile is_space nptr;
          neg = (s \<noteq> [] \<and> hd s = CHR ''-'');
          s = (if s \<noteq> [] \<and> (hd s = CHR ''-'' \<or> hd s = CHR ''+'') then tl s else s);
          ds = takeWhile is_digit s in
      if ds = [] then (0, False, nptr)
      else (let v = (if neg then - digits_value ds else digits_value ds) in
            if v > 2 ^ 63 - 1 then (2 ^ 63 - 1, True, dropWhile is_digit s)
            else if v < - (2 ^ 63) then (- (2 ^ 63), True, dropWhile is_digit s)
            else (v, False, dropWhile is_digit s)))"

text \<open>
  The handler fills the entry \<open>count\<close> of the array. The array has \<open>total\<close> entries, as many as the list has matching keys, and
  the handler is called once for each.
\<close>

definition put_action :: "dev_action \<Rightarrow> node_action_list \<Rightarrow> node_action_list" where
  "put_action a info = info\<lparr>nl_list := (nl_list info)[nl_count info := (nl_list info ! nl_count info)\<lparr>na_action := a\<rparr>]\<rparr>"

definition put_node :: "u32 \<Rightarrow> node_action_list \<Rightarrow> node_action_list" where
  "put_node n info = info\<lparr>nl_list := (nl_list info)[nl_count info := (nl_list info ! nl_count info)\<lparr>na_node := n\<rparr>]\<rparr>"

definition put_name :: "string \<Rightarrow> node_action_list \<Rightarrow> node_action_list" where
  "put_name n info = info\<lparr>nl_list := (nl_list info)[nl_count info := (nl_list info ! nl_count info)\<lparr>na_name := n\<rparr>]\<rparr>"

definition parse_kvlist :: "bool \<Rightarrow> string \<Rightarrow> string \<Rightarrow> node_action_list \<Rightarrow> int \<times> node_action_list" where
  "parse_kvlist dup_ok key val info =
     (if \<not> dup_ok then (- 22, info)
      else case strchr CHR '':'' val of
        None \<Rightarrow> (- 22, info)
      | Some (name, node) \<Rightarrow>
          (case strchr CHR '':'' node of
             None \<Rightarrow> (- 22, info)
           | Some (node, action) \<Rightarrow>
               if action \<noteq> ETH_RING_ACTION_ATTACH \<and> action \<noteq> ETH_RING_ACTION_CREATE then (- 22, info)
               else (let info = put_action (if action = ETH_RING_ACTION_ATTACH then DEV_ATTACH else DEV_CREATE) info in
                     case strtol node of
                       (v, errno, rest) \<Rightarrow>
                         let info = put_node (word_of_int v) info in
                         if errno \<or> rest \<noteq> [] then (- 22, info)
                         else (let info = put_name (take (PATH_MAX - 1) name) info
                               in (0, info\<lparr>nl_count := nl_count info + 1\<rparr>)))))"

section \<open>Start\<close>

text \<open>The loop that creates a port for each entry; the results of the creations are not looked at.\<close>

fun create_each ::
  "eth_env \<Rightarrow> (u8 \<Rightarrow> (pmd_internals, ring_ref) rte_eth_dev_data) \<Rightarrow> (nat \<Rightarrow> nat \<Rightarrow> bool) \<Rightarrow>
   (u32 \<Rightarrow> dev_action \<Rightarrow> string \<Rightarrow> rings \<Rightarrow> u64 option \<times> rings) \<Rightarrow> string \<Rightarrow> nat \<Rightarrow> node_action_pair list \<Rightarrow> (unit, ring_eth) op" where
  "create_each env slot_data grants get_ring name i [] s = Inr ((), s)"
| "create_each env slot_data grants get_ring name i (a # as) s =
     bnd (eth_dev_ring_create env slot_data (grants i) (get_ring (na_node a)) name (na_action a) s)
       (\<lambda>(_, s). create_each env slot_data grants get_ring name (i + 1) as s)"

text \<open>The four flags are the allocations: the structure and the string of the parser, the array, and the copies of the handler.\<close>

definition rte_pmd_ring_devinit ::
  "bool \<times> bool \<times> bool \<times> bool \<Rightarrow> eth_env \<Rightarrow> (u8 \<Rightarrow> (pmd_internals, ring_ref) rte_eth_dev_data) \<Rightarrow> (nat \<Rightarrow> nat \<Rightarrow> bool) \<Rightarrow>
   (u32 \<Rightarrow> dev_action \<Rightarrow> string \<Rightarrow> rings \<Rightarrow> u64 option \<times> rings) \<Rightarrow> u32 \<Rightarrow> string \<Rightarrow> string option \<Rightarrow> (int, ring_eth) op" where
  "rte_pmd_ring_devinit oks env slot_data grants get_ring socket_id name params s =
     (case oks of (malloc_ok, dup_ok, zmalloc_ok, copy_ok) \<Rightarrow>
      if params = None \<or> params = Some []
      then bnd (eth_dev_ring_create env slot_data (grants 0) (get_ring socket_id) name DEV_CREATE s) (\<lambda>(_, s). Inr (0, s))
      else case rte_kvargs_parse malloc_ok dup_ok (the params) (Some valid_arguments) of
        None \<Rightarrow> bnd (eth_dev_ring_create env slot_data (grants 0) (get_ring socket_id) name DEV_CREATE s) (\<lambda>(_, s). Inr (0, s))
      | Some kvlist \<Rightarrow>
          (let n = rte_kvargs_count kvlist (Some ETH_RING_NUMA_NODE_ACTION_ARG) in
           if \<not> zmalloc_ok then Inr (int n, s)
           else (let info = \<lparr>nl_total = n, nl_count = 0,
                             nl_list = replicate n \<lparr>na_name = [], na_node = 0, na_action = DEV_CREATE\<rparr>\<rparr> in
                 case rte_kvargs_process kvlist (Some ETH_RING_NUMA_NODE_ACTION_ARG) (parse_kvlist copy_ok) info of
                   (ret, info) \<Rightarrow>
                     if ret < 0 then Inr (ret, s)
                     else bnd (create_each env slot_data grants get_ring name 0 (take (nl_total info) (nl_list info)) s)
                            (\<lambda>(_, s). Inr (ret, s)))))"

end
