(* ===== verification/Kvargs_Spec.thy ===== *)
theory Kvargs_Spec
  imports Kvargs
begin

text \<open>
  Printed pairs are parsed back; what the parser returns has tokens without delimiters, at most 32 of them.
\<close>

section \<open>Tokens\<close>

lemma strtok_end: "d \<notin> set t \<Longrightarrow> t \<noteq> [] \<Longrightarrow> strtok d t = (Some t, [])"
proof -
  assume d: "d \<notin> set t" "t \<noteq> []"
  have e: "dropWhile (\<lambda>c. c = d) t = t" using d by (cases t) auto
  have n: "\<And>c. c \<in> set t \<Longrightarrow> c \<noteq> d" using d(1) by blast
  have f: "takeWhile (\<lambda>c. c \<noteq> d) t = t" "dropWhile (\<lambda>c. c \<noteq> d) t = []" using n by (simp_all add: takeWhile_eq_all_conv dropWhile_eq_Nil_conv)
  show ?thesis unfolding strtok_def Let_def e f using d(2) by simp
qed

lemma strtok_first: "d \<notin> set t \<Longrightarrow> t \<noteq> [] \<Longrightarrow> strtok d (t @ d # rest) = (Some t, rest)"
proof -
  assume d: "d \<notin> set t" "t \<noteq> []"
  have "dropWhile (\<lambda>c. c = d) (t @ d # rest) = t @ d # rest" using d by (cases t) auto
  moreover have "takeWhile (\<lambda>c. c \<noteq> d) (t @ d # rest) = t" "dropWhile (\<lambda>c. c \<noteq> d) (t @ d # rest) = d # rest"
    using d by (auto simp: takeWhile_append dropWhile_append takeWhile_eq_all_conv dropWhile_eq_Nil_conv)
  ultimately show ?thesis by (simp add: strtok_def)
qed

lemma set_tl: "set (tl xs) \<subseteq> set xs"
  by (cases xs) auto

lemma strtok_token: "strtok d s = (Some t, rest) \<Longrightarrow> t \<noteq> [] \<and> d \<notin> set t \<and> set t \<subseteq> set s \<and> set rest \<subseteq> set s"
proof -
  assume s: "strtok d s = (Some t, rest)"
  let ?u = "dropWhile (\<lambda>c. c = d) s"
  have u: "?u \<noteq> []" "t = takeWhile (\<lambda>c. c \<noteq> d) ?u" "rest = tl (dropWhile (\<lambda>c. c \<noteq> d) ?u)" using s by (auto simp: strtok_def Let_def split: if_splits)
  have "hd ?u \<noteq> d" using hd_dropWhile [OF u(1)] by simp
  then have "t \<noteq> []" unfolding u(2) using u(1) by (simp add: takeWhile_eq_Nil_iff)
  moreover have "d \<notin> set t" unfolding u(2) using set_takeWhileD [of d "\<lambda>c. c \<noteq> d" ?u] by blast
  moreover have "set t \<subseteq> set ?u" unfolding u(2) by (meson set_takeWhileD subsetI)
  moreover have "set rest \<subseteq> set (dropWhile (\<lambda>c. c \<noteq> d) ?u)" unfolding u(3) by (rule set_tl)
  moreover have "set (dropWhile (\<lambda>c. c \<noteq> d) ?u) \<subseteq> set ?u" by (meson set_dropWhileD subsetI)
  moreover have "set ?u \<subseteq> set s" by (meson set_dropWhileD subsetI)
  ultimately show ?thesis by blast
qed

section \<open>Printing\<close>

definition plain :: "string \<Rightarrow> bool" where
  "plain t \<longleftrightarrow> t \<noteq> [] \<and> RTE_KVARGS_PAIRS_DELIM \<notin> set t \<and> RTE_KVARGS_KV_DELIM \<notin> set t"

definition plain_pair :: "string \<times> string \<Rightarrow> bool" where "plain_pair x \<longleftrightarrow> plain (fst x) \<and> plain (snd x)"

fun kv_print :: "kvargs \<Rightarrow> string" where
  "kv_print [] = []"
| "kv_print [(k, v)] = k @ RTE_KVARGS_KV_DELIM # v"
| "kv_print ((k, v) # x # kv) = (k @ RTE_KVARGS_KV_DELIM # v) @ RTE_KVARGS_PAIRS_DELIM # kv_print (x # kv)"

lemma delims_differ: "RTE_KVARGS_PAIRS_DELIM \<noteq> RTE_KVARGS_KV_DELIM"
  by (simp add: RTE_KVARGS_PAIRS_DELIM_def RTE_KVARGS_KV_DELIM_def)

lemma pair_token:
  assumes "plain k" and "plain v"
  shows "RTE_KVARGS_PAIRS_DELIM \<notin> set (k @ RTE_KVARGS_KV_DELIM # v)" "k @ RTE_KVARGS_KV_DELIM # v \<noteq> []"
    "strtok RTE_KVARGS_KV_DELIM (k @ RTE_KVARGS_KV_DELIM # v) = (Some k, v)" "strtok RTE_KVARGS_KV_DELIM v = (Some v, [])"
  using assms strtok_first [of RTE_KVARGS_KV_DELIM k v] strtok_end [of RTE_KVARGS_KV_DELIM v]
  by (simp_all add: plain_def delims_differ)

lemma kv_pairs_print:
  assumes "list_all plain_pair kv" and "length acc \<le> RTE_KVARGS_MAX"
  shows "kv_pairs (kv_print kv) acc = (if length acc + length kv \<le> RTE_KVARGS_MAX then Some (acc @ kv) else None)"
  using assms
proof (induction kv arbitrary: acc rule: kv_print.induct)
  case 1
  then show ?case by (simp add: kv_pairs.simps strtok_def)
next
  case (2 k v)
  then have p: "plain k" "plain v" by (simp_all add: plain_pair_def)
  have "kv_pairs [] (acc @ [(k, v)]) = Some (acc @ [(k, v)])" by (simp add: kv_pairs.simps strtok_def)
  then show ?case using strtok_end [OF pair_token(1,2) [OF p]] pair_token(3,4) [OF p] by (simp add: kv_pairs.simps [of "k @ RTE_KVARGS_KV_DELIM # v"])
next
  case (3 k v x kv)
  then have p: "plain k" "plain v" by (simp_all add: plain_pair_def)
  have "kv_pairs (kv_print ((k, v) # x # kv)) acc = (if RTE_KVARGS_MAX \<le> length acc then None else kv_pairs (kv_print (x # kv)) (acc @ [(k, v)]))"
    using strtok_first [OF pair_token(1,2) [OF p], of "kv_print (x # kv)"] pair_token(3,4) [OF p] by (simp add: kv_pairs.simps [of "k @ RTE_KVARGS_KV_DELIM # v @ _"])
  then show ?case using 3 by simp
qed

lemma parse_print:
  assumes "list_all plain_pair kv"
  shows "rte_kvargs_tokenize True (kv_print kv) = (if length kv \<le> RTE_KVARGS_MAX then Some kv else None)"
  using kv_pairs_print [OF assms, of "[]"] by (simp add: rte_kvargs_tokenize_def)

section \<open>Keys\<close>

lemma is_valid_key_iff [simp]: "is_valid_key valid key \<longleftrightarrow> key \<in> set valid"
  by (induction valid) auto

lemma check_keys_iff: "check_for_valid_keys kv valid < 0 \<longleftrightarrow> \<not> fst ` set kv \<subseteq> set valid"
  by (induction kv valid rule: check_for_valid_keys.induct) auto

lemma count_filter: "rte_kvargs_count kv (Some k) = length (filter (\<lambda>x. fst x = k) kv)"
  by (induction kv) auto

section \<open>What is parsed\<close>

lemma kv_pairs_sound:
  assumes "kv_pairs s acc = Some kv" and "list_all plain_pair acc" and "length acc \<le> RTE_KVARGS_MAX"
  shows "list_all plain_pair kv \<and> length kv \<le> RTE_KVARGS_MAX"
  using assms
proof (induction s acc rule: kv_pairs.induct)
  case (1 s acc)
  obtain tok rest where t: "strtok RTE_KVARGS_PAIRS_DELIM s = (tok, rest)" by fastforce
  show ?case
  proof (cases tok)
    case None
    then show ?thesis using 1 t by (simp add: kv_pairs.simps [of s])
  next
    case (Some str)
    then have n: "length acc < RTE_KVARGS_MAX" using 1(2) t by (auto simp: kv_pairs.simps [of s] split: if_splits)
    have str: "RTE_KVARGS_PAIRS_DELIM \<notin> set str" using strtok_token [of _ s str rest] t Some by simp
    obtain key ctx val ctx' where k: "strtok RTE_KVARGS_KV_DELIM str = (Some key, ctx)" and v: "strtok RTE_KVARGS_KV_DELIM ctx = (Some val, ctx')"
      and r: "kv_pairs rest (acc @ [(key, val)]) = Some kv"
      using 1(2) t Some n by (auto simp: kv_pairs.simps [of s] split: prod.splits option.splits)
    have "plain_pair (key, val)" using strtok_token [OF k] strtok_token [OF v] str by (auto simp: plain_pair_def plain_def)
    then show ?thesis using 1(1) [OF t [symmetric] Some _ k [symmetric] refl v [symmetric] refl r] 1(3) n by simp
  qed
qed

section \<open>The contract of a printed form\<close>

locale printed =
  fixes prn :: "'a \<Rightarrow> string" and prs :: "string \<Rightarrow> 'a option" and good :: "'a \<Rightarrow> bool"
  assumes prs_prn: "good x \<Longrightarrow> prs (prn x) = Some x"
begin

lemma prn_inj: "good x \<Longrightarrow> good y \<Longrightarrow> prn x = prn y \<Longrightarrow> x = y"
  by (metis prs_prn option.inject)

lemma prs_only: "good x \<Longrightarrow> prs (prn x) = Some y \<Longrightarrow> y = x"
  using prs_prn [of x] by simp

end

definition kv_good :: "string list option \<Rightarrow> kvargs \<Rightarrow> bool" where
  "kv_good valid kv \<longleftrightarrow> list_all plain_pair kv \<and> length kv \<le> RTE_KVARGS_MAX \<and> (\<forall>ks. valid = Some ks \<longrightarrow> fst ` set kv \<subseteq> set ks)"

interpretation kv: printed kv_print "\<lambda>s. rte_kvargs_parse True True s valid" "kv_good valid" for valid
  by unfold_locales (auto simp: kv_good_def rte_kvargs_parse_def parse_print check_keys_iff split: option.splits)

text \<open>C35: Printed pairs of nonempty keys and values without the two delimiters are parsed back to the same pairs, if there are at
  most 32 of them and the keys are among the valid ones where those are given; otherwise the parser returns NULL.
\<close>
theorem kvargs_roundtrip:
  assumes "list_all plain_pair kv"
  shows "rte_kvargs_parse True True (kv_print kv) valid =
           (if length kv \<le> 32 \<and> (\<forall>ks. valid = Some ks \<longrightarrow> fst ` set kv \<subseteq> set ks) then Some kv else None)"
proof (cases "kv_good valid kv")
  case True
  then show ?thesis using kv.prs_prn [OF True] by (simp add: kv_good_def RTE_KVARGS_MAX_def)
next
  case False
  then show ?thesis using assms by (auto simp: kv_good_def rte_kvargs_parse_def parse_print check_keys_iff RTE_KVARGS_MAX_def split: option.splits)
qed

theorem kvargs_roundtrip_witness:
  "rte_kvargs_parse True True ''rx=0,rx=1,tx=2'' (Some [''rx'', ''tx'']) = Some [(''rx'', ''0''), (''rx'', ''1''), (''tx'', ''2'')] \<and>
   rte_kvargs_parse True True ''rx=0,rx=1,tx=2'' (Some [''rx'']) = None"
proof -
  let ?kv = "[(''rx'', ''0''), (''rx'', ''1''), (''tx'', ''2'')]"
  have g: "list_all plain_pair ?kv" by (simp add: plain_pair_def plain_def RTE_KVARGS_PAIRS_DELIM_def RTE_KVARGS_KV_DELIM_def)
  have p: "kv_print ?kv = ''rx=0,rx=1,tx=2''" by (simp add: RTE_KVARGS_PAIRS_DELIM_def RTE_KVARGS_KV_DELIM_def)
  show ?thesis using kvargs_roundtrip [OF g, of "Some [''rx'', ''tx'']"] kvargs_roundtrip [OF g, of "Some [''rx'']"] unfolding p by simp
qed

text \<open>Whatever the string, the pairs the parser returns are at most 32, their keys and values are nonempty and hold no
  delimiter, and the keys are among the valid ones.
\<close>
theorem kvargs_parse_sound:
  assumes "rte_kvargs_parse malloc_ok dup_ok s valid = Some kv"
  shows "length kv \<le> 32 \<and> list_all plain_pair kv \<and> (\<forall>ks. valid = Some ks \<longrightarrow> fst ` set kv \<subseteq> set ks)"
proof -
  have p: "kv_pairs s [] = Some kv" using assms by (auto simp: rte_kvargs_parse_def rte_kvargs_tokenize_def split: if_splits option.splits)
  have "fst ` set kv \<subseteq> set ks" if "valid = Some ks" for ks
    using assms that check_keys_iff [of kv ks] by (auto simp: rte_kvargs_parse_def split: if_splits option.splits)
  then show ?thesis using kv_pairs_sound [OF p] by (simp add: RTE_KVARGS_MAX_def)
qed

theorem kvargs_parse_sound_witness:
  "rte_kvargs_parse True True '',,a=b=c'' None = Some [(''a'', ''b'')] \<and> length [(''a'', ''b'')] \<le> 32 \<and> list_all plain_pair [(''a'', ''b'')]"
proof -
  have p: "rte_kvargs_parse True True '',,a=b=c'' None = Some [(''a'', ''b'')]" by code_simp
  show ?thesis using kvargs_parse_sound [OF p] p by blast
qed

end
