(* ===== verification/Eth_Ring_Start.thy ===== *)
theory Eth_Ring_Start
  imports Eth_Ring_Args Eth_Ring_Spec Kvargs_Spec
begin

text \<open>
  The start of the ring driver from printed arguments: each entry \<open>name:node:action\<close> becomes one call that creates a port, in the
  order of the string, and the ports that result are those of the entries whose rings the ring library gives.
\<close>

section \<open>Numbers\<close>

lemma digit_char [simp]: "d < 10 \<Longrightarrow> of_char (char_of (48 + d) :: char) = 48 + (d :: nat)"
  by simp

lemma digit_is_digit [simp]: "d < 10 \<Longrightarrow> is_digit (char_of (48 + (d :: nat)))"
  by (simp add: is_digit_def)

lemma dec_digits: "list_all is_digit (dec n) \<and> dec n \<noteq> []"
proof (induction n rule: dec.induct)
  case (1 n)
  then show ?case by (subst (1 2) dec.simps) auto
qed

lemma digits_value_snoc: "digits_value (s @ [c]) = 10 * digits_value s + (of_char c - 48)"
  by (simp add: digits_value_def)

lemma digits_value_dec: "digits_value (dec n) = int n"
proof (induction n rule: dec.induct)
  case (1 n)
  have d: "(of_char (char_of (48 + k) :: char) :: int) = 48 + int k" if "k < 10" for k :: nat
    using that by (simp only: of_nat_of_char [where 'a = int, symmetric]) simp
  show ?case
  proof (cases "n < 10")
    case True
    then show ?thesis using d by (subst dec.simps) (simp add: digits_value_def)
  next
    case False
    have "10 * int (n div 10) + int (n mod 10) = int n" by presburger
    then show ?thesis using False 1 d [of "n mod 10"] by (subst dec.simps) (simp add: digits_value_snoc)
  qed
qed

lemma digit_plain: "is_digit c \<Longrightarrow> \<not> is_space c \<and> c \<notin> set ''-+:,=''"
  by (auto simp: is_digit_def is_space_def)

lemma strtol_dec:
  assumes "n < 2 ^ 63"
  shows "strtol (dec n) = (int n, False, [])"
proof -
  obtain c cs where c: "dec n = c # cs" using dec_digits [of n] by (cases "dec n") auto
  then have d: "is_digit c" using dec_digits [of n] by simp
  have t: "takeWhile is_digit (dec n) = dec n" "dropWhile is_digit (dec n) = []"
    using dec_digits [of n] by (simp_all add: list_all_iff takeWhile_eq_all_conv dropWhile_eq_Nil_conv)
  have s: "dropWhile is_space (dec n) = dec n" "hd (dec n) \<noteq> CHR ''-''" "hd (dec n) \<noteq> CHR ''+''" "dec n \<noteq> []"
    using digit_plain [OF d] by (simp_all add: c)
  have "int n < 2 ^ 63" using assms by (metis of_nat_less_numeral_power_cancel_iff)
  then show ?thesis unfolding strtol_def Let_def s(1) using s(2-) by (simp add: t digits_value_dec)
qed

lemma strchr_first: "c \<notin> set a \<Longrightarrow> strchr c (a @ c # b) = Some (a, b)"
  by (induction a) (auto simp: strchr_def)

section \<open>One entry\<close>

definition action_name :: "dev_action \<Rightarrow> string" where
  "action_name a = (case a of DEV_CREATE \<Rightarrow> ETH_RING_ACTION_CREATE | DEV_ATTACH \<Rightarrow> ETH_RING_ACTION_ATTACH)"

definition node_print :: "node_action_pair \<Rightarrow> string" where
  "node_print a = na_name a @ CHR '':'' # dec (unat (na_node a)) @ CHR '':'' # action_name (na_action a)"

definition node_plain :: "node_action_pair \<Rightarrow> bool" where
  "node_plain a \<longleftrightarrow> list_all (\<lambda>c. c \<notin> set '':,='') (na_name a)"

definition node_stored :: "node_action_pair \<Rightarrow> node_action_pair" where
  "node_stored a = a\<lparr>na_name := take (PATH_MAX - 1) (na_name a)\<rparr>"

lemma node_strtol: "strtol (dec (unat (n :: u32))) = (uint n, False, [])"
proof -
  have "unat n < 2 ^ 63" by (rule order.strict_trans2 [OF unsigned_less]) simp
  from strtol_dec [OF this] show ?thesis by simp
qed

lemma parse_printed:
  assumes "node_plain a" and "nl_count info < length (nl_list info)"
  shows "parse_kvlist True key (node_print a) info =
           (0, info\<lparr>nl_list := (nl_list info)[nl_count info := node_stored a], nl_count := nl_count info + 1\<rparr>)"
proof -
  have n: "CHR '':'' \<notin> set (na_name a)" using assms(1) by (auto simp: node_plain_def list_all_iff)
  have d: "CHR '':'' \<notin> set (dec (unat (na_node a)))" using dec_digits [of "unat (na_node a)"] digit_plain by (fastforce simp: list_all_iff)
  have act: "action_name (na_action a) \<noteq> ETH_RING_ACTION_ATTACH \<and> action_name (na_action a) \<noteq> ETH_RING_ACTION_CREATE \<longleftrightarrow> False"
    "(if action_name (na_action a) = ETH_RING_ACTION_ATTACH then DEV_ATTACH else DEV_CREATE) = na_action a"
    by (cases "na_action a"; simp add: action_name_def ETH_RING_ACTION_ATTACH_def ETH_RING_ACTION_CREATE_def)+
  have st: "strchr CHR '':'' (node_print a) = Some (na_name a, dec (unat (na_node a)) @ CHR '':'' # action_name (na_action a))"
    "strchr CHR '':'' (dec (unat (na_node a)) @ CHR '':'' # action_name (na_action a)) = Some (dec (unat (na_node a)), action_name (na_action a))"
    unfolding node_print_def using strchr_first [OF n] strchr_first [OF d] by blast+
  have fill: "x\<lparr>na_action := na_action a, na_node := na_node a, na_name := n\<rparr> = a\<lparr>na_name := n\<rparr>" for x n
    by (cases x; cases a) simp
  show ?thesis
    using assms(2) by (simp add: parse_kvlist_def st act fill node_strtol put_action_def put_node_def put_name_def node_stored_def Let_def)
qed

section \<open>All entries\<close>

definition node_args :: "node_action_pair list \<Rightarrow> kvargs" where
  "node_args acts = map (\<lambda>a. (ETH_RING_NUMA_NODE_ACTION_ARG, node_print a)) acts"

lemma process_printed:
  assumes "list_all node_plain acts" and "nl_list info = pre @ post" and "nl_count info = length pre" and "length post = length acts"
  shows "rte_kvargs_process (node_args acts) (Some ETH_RING_NUMA_NODE_ACTION_ARG) (parse_kvlist True) info =
           (0, info\<lparr>nl_list := pre @ map node_stored acts, nl_count := length pre + length acts\<rparr>)"
  using assms
proof (induction acts arbitrary: info pre post)
  case Nil
  then show ?case by (simp add: node_args_def)
next
  case (Cons a acts)
  then obtain x xs where t: "post = x # xs" by (cases post) auto
  let ?info = "info\<lparr>nl_list := (pre @ [node_stored a]) @ xs, nl_count := length pre + 1\<rparr>"
  have "parse_kvlist True key (node_print a) info = (0, ?info)" for key
    using parse_printed [of a info key] Cons.prems t by (simp add: list_update_append)
  moreover have "rte_kvargs_process (node_args acts) (Some ETH_RING_NUMA_NODE_ACTION_ARG) (parse_kvlist True) ?info =
      (0, ?info\<lparr>nl_list := (pre @ [node_stored a]) @ map node_stored acts, nl_count := length (pre @ [node_stored a]) + length acts\<rparr>)"
    by (rule Cons.IH [of _ _ xs]) (use Cons.prems t in auto)
  ultimately show ?case by (simp add: node_args_def)
qed

lemma node_args_plain:
  assumes "list_all node_plain acts"
  shows "list_all plain_pair (node_args acts)"
proof -
  have "plain (node_print a)" if "node_plain a" for a
  proof -
    have d: "c \<notin> set '',=''" if "c \<in> set (dec (unat (na_node a)))" for c
      using dec_digits [of "unat (na_node a)"] digit_plain that by (fastforce simp: list_all_iff)
    show ?thesis using \<open>node_plain a\<close> d
      by (cases "na_action a") (auto simp: plain_def node_print_def node_plain_def list_all_iff action_name_def RTE_KVARGS_PAIRS_DELIM_def
        RTE_KVARGS_KV_DELIM_def ETH_RING_ACTION_ATTACH_def ETH_RING_ACTION_CREATE_def)
  qed
  moreover have "plain ETH_RING_NUMA_NODE_ACTION_ARG"
    by (simp add: plain_def ETH_RING_NUMA_NODE_ACTION_ARG_def RTE_KVARGS_PAIRS_DELIM_def RTE_KVARGS_KV_DELIM_def)
  ultimately show ?thesis using assms by (auto simp: node_args_def list_all_iff plain_pair_def)
qed

lemma node_args_good:
  assumes "list_all node_plain acts" and "length acts \<le> 32"
  shows "kv_good (Some valid_arguments) (node_args acts)"
  using assms node_args_plain [OF assms(1)] by (auto simp: kv_good_def RTE_KVARGS_MAX_def node_args_def valid_arguments_def)

lemma create_stored: "create_each env slot_data grants get_ring name i (map node_stored acts) s = create_each env slot_data grants get_ring name i acts s"
  by (induction acts arbitrary: i s) (simp_all add: node_stored_def split_def)

lemma node_args_printed: "acts \<noteq> [] \<Longrightarrow> kv_print (node_args acts) \<noteq> []"
  by (cases acts rule: list.exhaust; cases "tl acts") (auto simp: node_args_def)

lemma devinit_creates:
  assumes "acts \<noteq> []" and "length acts \<le> 32" and "list_all node_plain acts"
  shows "rte_pmd_ring_devinit (True, True, True, True) env slot_data grants get_ring socket_id name (Some (kv_print (node_args acts))) s =
           bnd (create_each env slot_data grants get_ring name 0 acts s) (\<lambda>(_, s). Inr (0, s))"
proof -
  let ?n = "length acts"
  let ?info = "\<lparr>nl_total = ?n, nl_count = 0, nl_list = replicate ?n \<lparr>na_name = [], na_node = 0, na_action = DEV_CREATE\<rparr>\<rparr>"
  have c: "rte_kvargs_count (node_args acts) (Some ETH_RING_NUMA_NODE_ACTION_ARG) = ?n" by (simp add: count_filter node_args_def comp_def)
  have "rte_kvargs_process (node_args acts) (Some ETH_RING_NUMA_NODE_ACTION_ARG) (parse_kvlist True) ?info =
      (0, ?info\<lparr>nl_list := map node_stored acts, nl_count := ?n\<rparr>)"
    using process_printed [OF assms(3), of ?info "[]" "nl_list ?info"] by simp
  then show ?thesis
    using kv.prs_prn [OF node_args_good [OF assms(3,2)]] node_args_printed [OF assms(1)]
    by (simp add: rte_pmd_ring_devinit_def c create_stored)
qed

section \<open>The rings the entries ask for\<close>

text \<open>
  What the entries ask of the ring library, without any port: \<open>ask\<close> requests rings by name until a request fails;
  \<open>entry_rings\<close> asks for the 16 rings of every entry, on its node and with its action, and keeps the answers of the entries
  that got all of them.
\<close>

definition entry_ring_names :: "string \<Rightarrow> string list" where
  "entry_ring_names name = map (\<lambda>i. take 31 (''ETH_RXTX'' @ dec i @ ''_'' @ name)) [0..<16]"

fun ask :: "(string \<Rightarrow> 'w \<Rightarrow> u64 option \<times> 'w) \<Rightarrow> string list \<Rightarrow> 'w \<Rightarrow> u64 list option \<times> 'w" where
  "ask f [] w = (Some [], w)"
| "ask f (n # ns) w =
     (case f n w of (r, w) \<Rightarrow> if r = None then (None, w) else map_prod (map_option (\<lambda>rs. the r # rs)) id (ask f ns w))"

fun entry_rings ::
  "(u32 \<Rightarrow> dev_action \<Rightarrow> string \<Rightarrow> 'w \<Rightarrow> u64 option \<times> 'w) \<Rightarrow> string \<Rightarrow> node_action_pair list \<Rightarrow> 'w \<Rightarrow> u64 list list \<times> 'w" where
  "entry_rings get_ring name [] w = ([], w)"
| "entry_rings get_ring name (a # acts) w =
     (case ask (get_ring (na_node a) (na_action a)) (entry_ring_names name) w of
        (got, w) \<Rightarrow> map_prod (\<lambda>rss. (case got of None \<Rightarrow> rss | Some rs \<Rightarrow> rs # rss)) id (entry_rings get_ring name acts w))"

text \<open>
  The ports in use are those below \<open>p\<close>, and none is called \<open>name\<close>; a port of the ring driver that is not started and whose queue
  \<open>i\<close> receives from and sends to ring \<open>rs ! i\<close>.
\<close>

definition ports_below :: "nat \<Rightarrow> string \<Rightarrow> ring_eth \<Rightarrow> bool" where
  "ports_below p name s \<longleftrightarrow> (\<forall>i<32. e_attached (s_devices s (of_nat i)) \<longleftrightarrow> i < p) \<and>
     (\<forall>i<p. d_name (dev_data (of_nat i) s) \<noteq> name)"

definition port_on :: "u8 \<Rightarrow> u64 list \<Rightarrow> ring_eth \<Rightarrow> bool" where
  "port_on port rs s \<longleftrightarrow> ring_port port s \<and> \<not> d_started (dev_data port s) \<and> d_port_id (dev_data port s) = port \<and>
     (case d_private (dev_data port s) of
        None \<Rightarrow> False
      | Some p \<Rightarrow> pi_nb_rx_queues p = 16 \<and> pi_nb_tx_queues p = 16 \<and>
          map (\<lambda>i. rq_rng (pi_rx_ring_queues p i)) [0..<16] = rs \<and> map (\<lambda>i. rq_rng (pi_tx_ring_queues p i)) [0..<16] = rs)"

lemma get_rings_ask: "get_rings get_ring action names w = ask (get_ring action) (map (take 31) names) w"
  by (induction names arbitrary: w) (auto simp: RTE_RING_NAMESIZE_def split: prod.splits option.splits)

lemma ask_length: "ask f ns w = (Some rs, w') \<Longrightarrow> length rs = length ns"
  by (induction ns arbitrary: w rs) (auto simp: map_prod_def split: prod.splits if_splits)

lemma find_upt: "p < n \<Longrightarrow> (\<And>i. i < p \<Longrightarrow> \<not> P i) \<Longrightarrow> P p \<Longrightarrow> find P [0..<n] = Some (p :: nat)"
  by (auto simp: find_Some_iff intro!: exI [of _ p])

lemma find_map: "find P (map f xs) = map_option f (find (\<lambda>x. P (f x)) xs)"
  by (induction xs) auto

lemma ports_below_free:
  assumes "ports_below p name s"
  shows "p < 32 \<Longrightarrow> rte_eth_dev_find_free_port s = of_nat p" "rte_eth_dev_allocated name s = None"
proof -
  assume "p < 32"
  then have "find (\<lambda>i. \<not> e_attached (s_devices s (of_nat i))) [0..<32] = Some p"
    using assms by (intro find_upt) (auto simp: ports_below_def)
  then show "rte_eth_dev_find_free_port s = of_nat p"
    unfolding rte_eth_dev_find_free_port_def all_ports_def find_map by simp
next
  show "rte_eth_dev_allocated name s = None"
    using assms by (auto simp: rte_eth_dev_allocated_def all_ports_def find_None_iff ports_below_def)
qed

lemma unat_port: "i \<le> 32 \<Longrightarrow> unat (of_nat i :: u8) = i"
  by (simp add: unat_of_nat)

lemma port_eq: "i \<le> 32 \<Longrightarrow> p \<le> 32 \<Longrightarrow> (of_nat i :: u8) = of_nat p \<longleftrightarrow> i = p"
  by (metis unat_port)

lemma create_port:
  assumes s: "ports_below p name s" "p < 32" and name: "name \<noteq> []" and env: "env_memzone env" "\<And>k. grant k"
    and got: "ask (get_ring action) (entry_ring_names name) (s_shared s) = (Some rs, w)"
  shows "\<exists>s'. eth_dev_ring_create env slot_data grant get_ring name action s = Inr (0, s') \<and> port_on (of_nat p) rs s' \<and>
    s_shared s' = w \<and> s_nb_ports s' = s_nb_ports s + 1 \<and> (\<forall>i. i \<noteq> of_nat p \<longrightarrow> s_devices s' i = s_devices s i) \<and>
    ports_below (p + 1) name s'"
proof -
  let ?s = "s\<lparr>s_shared := w\<rparr>" and ?in = "from_rings_internals (\<lambda>i. rs ! i) 16 (\<lambda>i. rs ! i) 16"
  have l: "length rs = 16" using ask_length [OF got] by (simp add: entry_ring_names_def)
  have b: "ports_below p name ?s" using s(1) by (simp add: ports_below_def dev_data_def)
  have lt: "(of_nat p :: u8) \<noteq> RTE_MAX_ETHPORTS" using port_eq [of p 32] s(2) by (simp add: RTE_MAX_ETHPORTS_def)
  obtain s' where s': "rte_eth_from_rings env slot_data grant name (Some (\<lambda>i. rs ! i)) 16 (Some (\<lambda>i. rs ! i)) 16 ?s = Inr (0, s')"
      "ring_port (of_nat p) s'" "dev_data (of_nat p) s' = new_data ?in (of_nat p)" "s_shared s' = w" "s_nb_ports s' = s_nb_ports s + 1"
      "\<forall>i. i \<noteq> of_nat p \<longrightarrow> s_devices s' i = s_devices s i"
    using from_rings_new [where grant = grant and slot = slot_data and rxs = "\<lambda>i. rs ! i" and txs = "\<lambda>i. rs ! i" and nrx = 16 and ntx = 16,
        OF ports_below_free(1) [OF b s(2)] lt ports_below_free(2) [OF b] env] by auto
  have "eth_dev_ring_create env slot_data grant get_ring name action s = Inr (0, s')"
    using got s'(1) by (simp add: eth_dev_ring_create_def get_rings_ask entry_ring_names_def comp_def RTE_PMD_RING_MAX_RX_RINGS_def
        RTE_PMD_RING_MAX_TX_RINGS_def Let_def)
  moreover have "port_on (of_nat p) rs s'"
    using s'(2,3) l by (auto simp: port_on_def new_data_def from_rings_internals_def zero_eth_data_def zero_ring_queue_def intro!: nth_equalityI)
  moreover have "ports_below (p + 1) name s'"
  proof -
    have "e_attached (s_devices s' (of_nat p))" using s'(2) by (auto simp: ring_port_def rte_eth_dev_is_valid_port_def split: if_splits)
    moreover have "d_name (dev_data (of_nat p) s') \<noteq> name" using name s'(3) by (simp add: new_data_def zero_eth_data_def)
    moreover have "s_devices s' (of_nat i) = s_devices s (of_nat i)" if "i < 32" "i \<noteq> p" for i
      using s'(6) port_eq [of i p] that s(2) by simp
    ultimately show ?thesis
      using s by (auto simp: ports_below_def dev_data_def less_Suc_eq)
  qed
  ultimately show ?thesis using s' by blast
qed

lemma create_none:
  assumes "ask (get_ring action) (entry_ring_names name) (s_shared s) = (None, w)"
  shows "eth_dev_ring_create env slot_data grant get_ring name action s = Inr (- 1, s\<lparr>s_shared := w\<rparr>)"
  using assms by (simp add: eth_dev_ring_create_def get_rings_ask entry_ring_names_def comp_def RTE_PMD_RING_MAX_RX_RINGS_def
      RTE_PMD_RING_MAX_TX_RINGS_def Let_def)

lemma port_on_cong: "s_devices s port = s_devices t port \<Longrightarrow> port_on port rs s = port_on port rs t"
  by (simp add: port_on_def ring_port_def rte_eth_dev_is_valid_port_def dev_data_def)

lemma create_each_ports:
  assumes "ports_below p name s" and "p + length acts \<le> 32" and "name \<noteq> []" and "env_memzone env" and "\<And>i k. grants i k"
    and "entry_rings get_ring name acts (s_shared s) = (rss, w)"
  shows "\<exists>s'. create_each env slot_data grants get_ring name n acts s = Inr ((), s') \<and> s_shared s' = w \<and>
    s_nb_ports s' = s_nb_ports s + of_nat (length rss) \<and> ports_below (p + length rss) name s' \<and>
    (\<forall>j<length rss. port_on (of_nat (p + j)) (rss ! j) s') \<and> (\<forall>i<p. s_devices s' (of_nat i) = s_devices s (of_nat i))"
  using assms
proof (induction acts arbitrary: n p s rss)
  case Nil
  then show ?case by auto
next
  case (Cons a acts)
  obtain got v where got: "ask (get_ring (na_node a) (na_action a)) (entry_ring_names name) (s_shared s) = (got, v)" by fastforce
  obtain rest where rest: "entry_rings get_ring name acts v = (rest, w)" "rss = (case got of None \<Rightarrow> rest | Some rs \<Rightarrow> rs # rest)"
    using Cons.prems(6) got by (auto simp: map_prod_def split: prod.splits)
  show ?case
  proof (cases got)
    case None
    let ?s = "s\<lparr>s_shared := v\<rparr>"
    have "ports_below p name ?s" using Cons.prems(1) by (simp add: ports_below_def dev_data_def)
    from Cons.IH [OF this _ Cons.prems(3-5), of rest "n + 1"] Cons.prems(2) rest None create_none [where get_ring = "get_ring (na_node a)" and action = "na_action a", OF got [unfolded None]]
    show ?thesis by simp
  next
    case (Some rs)
    have p: "p < 32" using Cons.prems(2) by simp
    obtain s1 where s1: "eth_dev_ring_create env slot_data (grants n) (get_ring (na_node a)) name (na_action a) s = Inr (0, s1)"
      "port_on (of_nat p) rs s1" "s_shared s1 = v" "s_nb_ports s1 = s_nb_ports s + 1"
      "\<forall>i. i \<noteq> of_nat p \<longrightarrow> s_devices s1 i = s_devices s i" "ports_below (p + 1) name s1"
      using create_port [where grant = "grants n" and get_ring = "get_ring (na_node a)" and action = "na_action a", OF Cons.prems(1) p Cons.prems(3-5) got [unfolded Some]] by blast
    obtain s' where s': "create_each env slot_data grants get_ring name (n + 1) acts s1 = Inr ((), s')" "s_shared s' = w"
      "s_nb_ports s' = s_nb_ports s1 + of_nat (length rest)" "ports_below (p + 1 + length rest) name s'"
      "\<forall>j<length rest. port_on (of_nat (p + 1 + j)) (rest ! j) s'" "\<forall>i<p + 1. s_devices s' (of_nat i) = s_devices s1 (of_nat i)"
      using Cons.IH [OF s1(6) _ Cons.prems(3-5), of rest "n + 1"] Cons.prems(2) rest(1) s1(3) by auto
    have "port_on (of_nat (p + j)) ((rs # rest) ! j) s'" if "j < length (rs # rest)" for j
    proof (cases j)
      case 0
      have "s_devices s' (of_nat p) = s_devices s1 (of_nat p)" using s'(6) by simp
      with 0 s1(2) port_on_cong [of s' "of_nat p" s1 rs] show ?thesis by simp
    next
      case (Suc k)
      with s'(5) that show ?thesis by (simp add: ac_simps)
    qed
    moreover have "s_devices s' (of_nat i) = s_devices s (of_nat i)" if "i < p" for i
      using s'(6) s1(5) that p port_eq [of i p] by simp
    ultimately show ?thesis
      using s1 s' rest(2) Some by (simp add: ac_simps)
  qed
qed

text \<open>C36: Started with the printed form of one to 32 entries whose names have no colon, comma or equals sign, with the memory it
  asks for, with ports free for all entries and with no port called like it, the ring driver returns 0 and makes one call for each
  entry, in the order of the string. An entry asks the ring library for 16 rings on its own node and with its own action; the
  names of the rings come from the name the driver is started with, never from the name of the entry. The entries that get all
  their rings, and only they, become ports, in order, from the first free port number; queue \<open>i\<close> of a port receives from and
  sends to ring \<open>i\<close> of its entry. An entry that does not get its rings, such as a second \<open>CREATE\<close>, is passed over without an
  error. The ports in use before are untouched.
\<close>
theorem ring_devinit_exact:
  assumes "acts \<noteq> []" and "p + length acts \<le> 32" and "list_all node_plain acts" and "name \<noteq> []"
    and "ports_below p name s" and "env_memzone env" and "\<And>i k. grants i k"
    and "entry_rings get_ring name acts (s_shared s) = (rss, w)"
  shows "\<exists>s'. rte_pmd_ring_devinit (True, True, True, True) env slot_data grants get_ring socket_id name
      (Some (kv_print (node_args acts))) s = Inr (0, s') \<and> s_shared s' = w \<and>
    s_nb_ports s' = s_nb_ports s + of_nat (length rss) \<and> ports_below (p + length rss) name s' \<and>
    (\<forall>j<length rss. port_on (of_nat (p + j)) (rss ! j) s') \<and> (\<forall>i<p. s_devices s' (of_nat i) = s_devices s (of_nat i))"
proof -
  have "length acts \<le> 32" using assms(2) by simp
  from create_each_ports [where grants = grants and slot_data = slot_data and n = 0, OF assms(5,2,4,6-)] devinit_creates [OF assms(1) this assms(3)]
  show ?thesis by auto
qed

text \<open>
  A ring library that refuses to create a ring that exists and to look up one that does not. Of the three entries the second one
  finds its rings in existence, and two ports result.
\<close>

definition sample_nodes :: "node_action_pair list" where
  "sample_nodes = [\<lparr>na_name = ''R0'', na_node = 0, na_action = DEV_CREATE\<rparr>, \<lparr>na_name = ''R1'', na_node = 1, na_action = DEV_CREATE\<rparr>,
     \<lparr>na_name = ''R2'', na_node = 1, na_action = DEV_ATTACH\<rparr>]"

definition sample_get_ring :: "u32 \<Rightarrow> dev_action \<Rightarrow> string \<Rightarrow> rings \<Rightarrow> u64 option \<times> rings" where
  "sample_get_ring node action name w =
     (let r = foldl (\<lambda>h c. 31 * h + of_nat (of_char c)) 0 name in
      case action of
        DEV_CREATE \<Rightarrow> if r_name (w r) = name then (None, w) else (Some r, w(r := (w r)\<lparr>r_name := name\<rparr>))
      | DEV_ATTACH \<Rightarrow> if r_name (w r) = name then (Some r, w) else (None, w))"

theorem ring_devinit_exact_witness:
  "\<exists>s' rs. rte_pmd_ring_devinit (True, True, True, True) sample_eth_env (\<lambda>_. zero_eth_data) (\<lambda>_ _. True) sample_get_ring 0
      ''eth_ring0'' (Some ''nodeaction=R0:0:CREATE,nodeaction=R1:1:CREATE,nodeaction=R2:1:ATTACH'') (empty_eth sample_rings) = Inr (0, s') \<and>
     s_nb_ports s' = 2 \<and> port_on 0 rs s' \<and> port_on 1 rs s' \<and> ports_below 2 ''eth_ring0'' s'"
proof -
  have p: "kv_print (node_args sample_nodes) = ''nodeaction=R0:0:CREATE,nodeaction=R1:1:CREATE,nodeaction=R2:1:ATTACH''" by code_simp
  have "case fst (entry_rings sample_get_ring ''eth_ring0'' sample_nodes sample_rings) of [a, b] \<Rightarrow> a = b | _ \<Rightarrow> False" by code_simp
  then obtain rs w where r: "entry_rings sample_get_ring ''eth_ring0'' sample_nodes sample_rings = ([rs, rs], w)"
    by (cases "entry_rings sample_get_ring ''eth_ring0'' sample_nodes sample_rings") (auto split: list.splits)
  have g: "sample_nodes \<noteq> []" "0 + length sample_nodes \<le> 32" "list_all node_plain sample_nodes" "''eth_ring0'' \<noteq> []" by code_simp+
  have h: "ports_below 0 ''eth_ring0'' (empty_eth sample_rings)" "env_memzone sample_eth_env" "s_shared (empty_eth sample_rings) = sample_rings"
    "s_nb_ports (empty_eth sample_rings) = 0"
    by (simp_all add: ports_below_def empty_eth_def sample_eth_env_def)
  obtain s' where "rte_pmd_ring_devinit (True, True, True, True) sample_eth_env (\<lambda>_. zero_eth_data) (\<lambda>_ _. True) sample_get_ring 0
      ''eth_ring0'' (Some (kv_print (node_args sample_nodes))) (empty_eth sample_rings) = Inr (0, s')" "s_nb_ports s' = 2"
      "ports_below 2 ''eth_ring0'' s'" "\<forall>j<2. port_on (of_nat j) ([rs, rs] ! j) s'"
    using ring_devinit_exact [where grants = "\<lambda>_ _. True" and slot_data = "\<lambda>_. zero_eth_data" and socket_id = 0,
        OF g h(1,2) TrueI, of sample_get_ring "[rs, rs]" w] r h(3,4) by (auto simp: numeral_2_eq_2)
  then show ?thesis using p by (intro exI [of _ s'] exI [of _ rs]) (auto simp: less_2_cases_iff)
qed

end
