(* ===== verification/Meter.thy ===== *)
theory Meter
  imports Prelude "HOL-Library.Log_Nat"
begin

text \<open>
  Traffic meters, \<open>dpdk-2.0.0/lib/librte_meter\<close>: the single rate and the two rate three colour markers. The clock and its frequency
  are arguments. \<open>None\<close> stands for a division by zero and for a conversion from \<open>double\<close> to \<open>uint64_t\<close> that is out of range.
\<close>

section \<open>Double precision\<close>

text \<open>
  A number \<open>(m, e)\<close> is \<open>m * 2 ^ e\<close>. Results have 53 bits, rounded to the nearest, to even on a tie; \<open>sticky\<close> says that the exact number is
  above the integer given. The exponents here, of integers of 64 bits and their quotients, are far from the limits of the format.
\<close>

type_synonym double = "nat \<times> int"

definition round53 :: "nat \<Rightarrow> bool \<Rightarrow> int \<Rightarrow> double" where
  "round53 n sticky e =
     (let s = floorlog 2 n - 53 in
      if s = 0 then (n, e)
      else let q = n div 2 ^ s; r = n mod 2 ^ s; half = 2 ^ (s - 1)
           in (if r > half \<or> r = half \<and> (sticky \<or> odd q) then q + 1 else q, e + int s))"

definition dbl :: "u64 \<Rightarrow> double" where
  "dbl n = round53 (unat n) False 0"

definition ddiv :: "double \<Rightarrow> double \<Rightarrow> double" where
  "ddiv x y = (case (x, y) of ((m1, e1), (m2, e2)) \<Rightarrow>
     let k = 55 + floorlog 2 m2 in round53 (m1 * 2 ^ k div m2) (m1 * 2 ^ k mod m2 \<noteq> 0) (e1 - e2 - int k))"

definition dge :: "double \<Rightarrow> nat \<Rightarrow> bool" where
  "dge x c = (case x of (m, e) \<Rightarrow> if e \<ge> 0 then m * 2 ^ nat e \<ge> c else m \<ge> c * 2 ^ nat (- e))"

definition dtrunc :: "double \<Rightarrow> nat" where
  "dtrunc x = (case x of (m, e) \<Rightarrow> if e \<ge> 0 then m * 2 ^ nat e else m div 2 ^ nat (- e))"

definition dceil :: "double \<Rightarrow> nat" where
  "dceil x = (case x of (m, e) \<Rightarrow> if e \<ge> 0 then m * 2 ^ nat e else (m + 2 ^ nat (- e) - 1) div 2 ^ nat (- e))"

section \<open>Configuration\<close>

definition RTE_METER_TB_PERIOD_MIN :: nat where "RTE_METER_TB_PERIOD_MIN = 100"

text \<open>With a rate or a frequency of zero the quotient, or its inverse, is infinite and cannot be converted.\<close>

definition rte_meter_get_tb_params :: "u64 \<Rightarrow> u64 \<Rightarrow> (u64 \<times> u64) option" where
  "rte_meter_get_tb_params hz rate =
     (if hz = 0 \<or> rate = 0 then None
      else let period = ddiv (dbl hz) (dbl rate) in
        if dge period RTE_METER_TB_PERIOD_MIN
        then (if dtrunc period \<ge> 2 ^ 64 then None else Some (of_nat (dtrunc period), 1))
        else let c = dceil (ddiv (RTE_METER_TB_PERIOD_MIN, 0) period)
             in if c \<ge> 2 ^ 64 then None else Some ((hz * of_nat c) div rate, of_nat c))"

datatype rte_meter_color = e_RTE_METER_GREEN | e_RTE_METER_YELLOW | e_RTE_METER_RED

record rte_meter_srtcm_params =
  srp_cir :: u64
  srp_cbs :: u64
  srp_ebs :: u64

record rte_meter_trtcm_params =
  trp_cir :: u64
  trp_pir :: u64
  trp_cbs :: u64
  trp_pbs :: u64

record rte_meter_srtcm =
  sr_time :: u64
  sr_tc :: u64
  sr_te :: u64
  sr_cbs :: u64
  sr_ebs :: u64
  sr_cir_period :: u64
  sr_cir_bytes_per_period :: u64

record rte_meter_trtcm =
  tr_time_tc :: u64
  tr_time_tp :: u64
  tr_tc :: u64
  tr_tp :: u64
  tr_cbs :: u64
  tr_pbs :: u64
  tr_cir_period :: u64
  tr_cir_bytes_per_period :: u64
  tr_pir_period :: u64
  tr_pir_bytes_per_period :: u64

definition rte_meter_srtcm_config ::
  "u64 \<Rightarrow> u64 \<Rightarrow> rte_meter_srtcm option \<Rightarrow> rte_meter_srtcm_params option \<Rightarrow> (int \<times> rte_meter_srtcm option) option" where
  "rte_meter_srtcm_config hz now m params =
     (case (m, params) of
        (Some _, Some p) \<Rightarrow>
          if srp_cir p = 0 \<or> srp_cbs p = 0 \<and> srp_ebs p = 0 then Some (- 2, m)
          else Option.bind (rte_meter_get_tb_params hz (srp_cir p)) (\<lambda>(period, bytes).
            Some (0, Some \<lparr>sr_time = now, sr_tc = srp_cbs p, sr_te = srp_ebs p, sr_cbs = srp_cbs p, sr_ebs = srp_ebs p,
                           sr_cir_period = period, sr_cir_bytes_per_period = bytes\<rparr>))
      | _ \<Rightarrow> Some (- 1, m))"

definition rte_meter_trtcm_config ::
  "u64 \<Rightarrow> u64 \<Rightarrow> rte_meter_trtcm option \<Rightarrow> rte_meter_trtcm_params option \<Rightarrow> (int \<times> rte_meter_trtcm option) option" where
  "rte_meter_trtcm_config hz now m params =
     (case (m, params) of
        (Some _, Some p) \<Rightarrow>
          if trp_cir p = 0 \<or> trp_pir p = 0 \<or> trp_pir p < trp_cir p \<or> trp_cbs p = 0 \<or> trp_pbs p = 0 then Some (- 2, m)
          else Option.bind (rte_meter_get_tb_params hz (trp_cir p)) (\<lambda>(cperiod, cbytes).
            Option.bind (rte_meter_get_tb_params hz (trp_pir p)) (\<lambda>(pperiod, pbytes).
            Some (0, Some \<lparr>tr_time_tc = now, tr_time_tp = now, tr_tc = trp_cbs p, tr_tp = trp_pbs p, tr_cbs = trp_cbs p, tr_pbs = trp_pbs p,
                           tr_cir_period = cperiod, tr_cir_bytes_per_period = cbytes,
                           tr_pir_period = pperiod, tr_pir_bytes_per_period = pbytes\<rparr>)))
      | _ \<Rightarrow> Some (- 1, m))"

section \<open>Metering\<close>

text \<open>A bucket after some periods, cut at its limit; the sum and the product may wrap around.\<close>

definition refill :: "u64 \<Rightarrow> u64 \<Rightarrow> u64 \<Rightarrow> u64 \<Rightarrow> u64" where
  "refill tokens n_periods bytes_per_period burst =
     (let t = tokens + n_periods * bytes_per_period in if t > burst then burst else t)"

definition rte_meter_srtcm_color_blind_check :: "rte_meter_srtcm \<Rightarrow> u64 \<Rightarrow> u32 \<Rightarrow> (rte_meter_color \<times> rte_meter_srtcm) option" where
  "rte_meter_srtcm_color_blind_check m time pkt_len =
     (if sr_cir_period m = 0 then None
      else let time_diff = time - sr_time m;
               n_periods = time_diff div sr_cir_period m;
               m = m\<lparr>sr_time := sr_time m + n_periods * sr_cir_period m\<rparr>;
               tc = refill (sr_tc m) n_periods (sr_cir_bytes_per_period m) (sr_cbs m);
               te = refill (sr_te m) n_periods (sr_cir_bytes_per_period m) (sr_ebs m) in
        if tc \<ge> ucast pkt_len then Some (e_RTE_METER_GREEN, m\<lparr>sr_tc := tc - ucast pkt_len, sr_te := te\<rparr>)
        else if te \<ge> ucast pkt_len then Some (e_RTE_METER_YELLOW, m\<lparr>sr_tc := tc, sr_te := te - ucast pkt_len\<rparr>)
        else Some (e_RTE_METER_RED, m\<lparr>sr_tc := tc, sr_te := te\<rparr>))"

definition rte_meter_srtcm_color_aware_check ::
  "rte_meter_srtcm \<Rightarrow> u64 \<Rightarrow> u32 \<Rightarrow> rte_meter_color \<Rightarrow> (rte_meter_color \<times> rte_meter_srtcm) option" where
  "rte_meter_srtcm_color_aware_check m time pkt_len pkt_color =
     (if sr_cir_period m = 0 then None
      else let time_diff = time - sr_time m;
               n_periods = time_diff div sr_cir_period m;
               m = m\<lparr>sr_time := sr_time m + n_periods * sr_cir_period m\<rparr>;
               tc = refill (sr_tc m) n_periods (sr_cir_bytes_per_period m) (sr_cbs m);
               te = refill (sr_te m) n_periods (sr_cir_bytes_per_period m) (sr_ebs m) in
        if pkt_color = e_RTE_METER_GREEN \<and> tc \<ge> ucast pkt_len
        then Some (e_RTE_METER_GREEN, m\<lparr>sr_tc := tc - ucast pkt_len, sr_te := te\<rparr>)
        else if pkt_color \<noteq> e_RTE_METER_RED \<and> te \<ge> ucast pkt_len
        then Some (e_RTE_METER_YELLOW, m\<lparr>sr_tc := tc, sr_te := te - ucast pkt_len\<rparr>)
        else Some (e_RTE_METER_RED, m\<lparr>sr_tc := tc, sr_te := te\<rparr>))"

definition rte_meter_trtcm_color_blind_check :: "rte_meter_trtcm \<Rightarrow> u64 \<Rightarrow> u32 \<Rightarrow> (rte_meter_color \<times> rte_meter_trtcm) option" where
  "rte_meter_trtcm_color_blind_check m time pkt_len =
     (if tr_cir_period m = 0 \<or> tr_pir_period m = 0 then None
      else let time_diff_tc = time - tr_time_tc m;
               time_diff_tp = time - tr_time_tp m;
               n_periods_tc = time_diff_tc div tr_cir_period m;
               n_periods_tp = time_diff_tp div tr_pir_period m;
               m = m\<lparr>tr_time_tc := tr_time_tc m + n_periods_tc * tr_cir_period m,
                     tr_time_tp := tr_time_tp m + n_periods_tp * tr_pir_period m\<rparr>;
               tc = refill (tr_tc m) n_periods_tc (tr_cir_bytes_per_period m) (tr_cbs m);
               tp = refill (tr_tp m) n_periods_tp (tr_pir_bytes_per_period m) (tr_pbs m) in
        if tp < ucast pkt_len then Some (e_RTE_METER_RED, m\<lparr>tr_tc := tc, tr_tp := tp\<rparr>)
        else if tc < ucast pkt_len then Some (e_RTE_METER_YELLOW, m\<lparr>tr_tc := tc, tr_tp := tp - ucast pkt_len\<rparr>)
        else Some (e_RTE_METER_GREEN, m\<lparr>tr_tc := tc - ucast pkt_len, tr_tp := tp - ucast pkt_len\<rparr>))"

definition rte_meter_trtcm_color_aware_check ::
  "rte_meter_trtcm \<Rightarrow> u64 \<Rightarrow> u32 \<Rightarrow> rte_meter_color \<Rightarrow> (rte_meter_color \<times> rte_meter_trtcm) option" where
  "rte_meter_trtcm_color_aware_check m time pkt_len pkt_color =
     (if tr_cir_period m = 0 \<or> tr_pir_period m = 0 then None
      else let time_diff_tc = time - tr_time_tc m;
               time_diff_tp = time - tr_time_tp m;
               n_periods_tc = time_diff_tc div tr_cir_period m;
               n_periods_tp = time_diff_tp div tr_pir_period m;
               m = m\<lparr>tr_time_tc := tr_time_tc m + n_periods_tc * tr_cir_period m,
                     tr_time_tp := tr_time_tp m + n_periods_tp * tr_pir_period m\<rparr>;
               tc = refill (tr_tc m) n_periods_tc (tr_cir_bytes_per_period m) (tr_cbs m);
               tp = refill (tr_tp m) n_periods_tp (tr_pir_bytes_per_period m) (tr_pbs m) in
        if pkt_color = e_RTE_METER_RED \<or> tp < ucast pkt_len then Some (e_RTE_METER_RED, m\<lparr>tr_tc := tc, tr_tp := tp\<rparr>)
        else if pkt_color = e_RTE_METER_YELLOW \<or> tc < ucast pkt_len
        then Some (e_RTE_METER_YELLOW, m\<lparr>tr_tc := tc, tr_tp := tp - ucast pkt_len\<rparr>)
        else Some (e_RTE_METER_GREEN, m\<lparr>tr_tc := tc - ucast pkt_len, tr_tp := tp - ucast pkt_len\<rparr>))"

end
