(* ===== verification/Meter_Spec.thy ===== *)
theory Meter_Spec
  imports Meter
begin

text \<open>
  What a token bucket promises, upwards and downwards (locales \<open>policer\<close> and \<open>fair_policer\<close>), and the buckets of the two markers
  as instances: the bytes of a colour in any stretch of traffic stay within burst and rate, and traffic within burst and rate is
  never marked down.
\<close>

section \<open>Runs\<close>

text \<open>Packets with their time, length and colour, and the sum of the lengths of those whose result pays.\<close>

type_synonym packet = "u64 \<times> u32 \<times> rte_meter_color"

fun meter_run :: "('m \<Rightarrow> u64 \<Rightarrow> u32 \<Rightarrow> rte_meter_color \<Rightarrow> (rte_meter_color \<times> 'm) option) \<Rightarrow> packet list \<Rightarrow> 'm \<Rightarrow>
    (rte_meter_color list \<times> 'm) option" where
  "meter_run check [] m = Some ([], m)"
| "meter_run check ((t, len, pc) # ps) m =
     Option.bind (check m t len pc) (\<lambda>(c, m). Option.bind (meter_run check ps m) (\<lambda>(cs, m). Some (c # cs, m)))"

fun paid :: "(rte_meter_color \<Rightarrow> bool) \<Rightarrow> packet list \<Rightarrow> rte_meter_color list \<Rightarrow> nat" where
  "paid pays ((t, len, pc) # ps) (c # cs) = (if pays c then unat len else 0) + paid pays ps cs"
| "paid pays _ _ = 0"

abbreviation times :: "packet list \<Rightarrow> nat list" where "times ps \<equiv> map (\<lambda>p. unat (fst p)) ps"

abbreviation bytes :: "packet list \<Rightarrow> nat" where "bytes ps \<equiv> sum_list (map (\<lambda>p. unat (fst (snd p))) ps)"

lemma run_append:
  "meter_run check (ps @ qs) m = Option.bind (meter_run check ps m) (\<lambda>(cs, m). Option.bind (meter_run check qs m) (\<lambda>(ds, m). Some (cs @ ds, m)))"
proof (induction ps arbitrary: m)
  case Nil
  then show ?case by (cases "meter_run check qs m") auto
next
  case (Cons p ps)
  obtain t len pc where p: "p = (t, len, pc)" by (cases p)
  show ?case
  proof (cases "check m t len pc")
    case (Some r)
    obtain c m1 where "r = (c, m1)" by (cases r)
    then show ?thesis using Some Cons.IH [of m1] p by (cases "meter_run check ps m1"; cases "meter_run check qs (snd (the (meter_run check ps m1)))") auto
  qed (simp add: p)
qed

lemma run_length: "meter_run check ps m = Some (cs, m') \<Longrightarrow> length cs = length ps"
  by (induction ps arbitrary: m cs m') (auto simp: bind_eq_Some_conv)

lemma paid_append: "length cs = length ps \<Longrightarrow> paid pays (ps @ qs) (cs @ ds) = paid pays ps cs + paid pays qs ds"
  by (induction pays ps cs rule: paid.induct) auto

section \<open>A bucket from above\<close>

text \<open>The number of periods from one time to another.\<close>

definition periods :: "nat \<Rightarrow> nat \<Rightarrow> nat \<Rightarrow> nat" where
  "periods p a b = (b - a) div p"

lemma periods_add:
  assumes "0 < p" and "a' = a + k * p" and "a' \<le> b"
  shows "k + periods p a' b = periods p a b"
proof -
  have "b - a = k * p + (b - a')" using assms by simp
  then show ?thesis using assms(1) by (simp add: periods_def)
qed

lemma periods_reach:
  assumes "0 < p" and "a \<le> t" and "a' = a + periods p a t * p"
  shows "a' \<le> t \<and> t < a' + p"
proof -
  have "t - a = (t - a) div p * p + (t - a) mod p" by simp
  then show ?thesis using assms mod_less_divisor [OF assms(1), of "t - a"] unfolding periods_def by linarith
qed

locale policer =
  fixes check :: "'m \<Rightarrow> u64 \<Rightarrow> u32 \<Rightarrow> rte_meter_color \<Rightarrow> (rte_meter_color \<times> 'm) option" and ok :: "'m \<Rightarrow> bool"
    and clock :: "'m \<Rightarrow> nat" and tokens :: "'m \<Rightarrow> nat" and pays :: "rte_meter_color \<Rightarrow> bool"
    and per :: "'m \<Rightarrow> nat" and gain :: "'m \<Rightarrow> nat" and limit :: "'m \<Rightarrow> nat"
  assumes pos: "ok m \<Longrightarrow> 0 < per m"
    and check_law: "ok m \<Longrightarrow> clock m \<le> unat t \<Longrightarrow> \<exists>c m'. check m t len pc = Some (c, m')"
    and step_law: "ok m \<Longrightarrow> clock m \<le> unat t \<Longrightarrow> check m t len pc = Some (c, m') \<Longrightarrow>
      ok m' \<and> per m' = per m \<and> gain m' = gain m \<and> limit m' = limit m"
    and clock_law: "ok m \<Longrightarrow> clock m \<le> unat t \<Longrightarrow> check m t len pc = Some (c, m') \<Longrightarrow> clock m' = clock m + periods (per m) (clock m) (unat t) * per m"
    and spend_law: "ok m \<Longrightarrow> clock m \<le> unat t \<Longrightarrow> check m t len pc = Some (c, m') \<Longrightarrow>
      tokens m' + (if pays c then unat len else 0) \<le> min (limit m) (tokens m + periods (per m) (clock m) (unat t) * gain m)"
begin

lemma clock_after:
  assumes "ok m" and "clock m \<le> unat t" and "check m t len pc = Some (c, m')"
  shows "clock m' \<le> unat t \<and> unat t < clock m' + per m"
  using periods_reach [OF pos [OF assms(1)] assms(2) clock_law [OF assms]] .

lemma run_returns:
  assumes "ok m" and "sorted (clock m # times ps)"
  shows "\<exists>cs m'. meter_run check ps m = Some (cs, m') \<and> ok m' \<and> per m' = per m \<and> gain m' = gain m \<and> limit m' = limit m \<and>
    (\<forall>t. (\<forall>s \<in> set (clock m # times ps). s \<le> t) \<longrightarrow> clock m' \<le> t)"
  using assms
proof (induction ps arbitrary: m)
  case Nil
  then show ?case by auto
next
  case (Cons p ps)
  obtain t len pc where p: "p = (t, len, pc)" by (cases p)
  have le: "clock m \<le> unat t" using Cons.prems(2) p by simp
  obtain c m1 where c: "check m t len pc = Some (c, m1)" using check_law [OF Cons.prems(1) le] by blast
  note keep = step_law [OF Cons.prems(1) le c] and after = clock_after [OF Cons.prems(1) le c]
  have "sorted (clock m1 # times ps)" using Cons.prems(2) after p by auto
  then obtain cs m' where "meter_run check ps m1 = Some (cs, m')" "ok m'" "per m' = per m1" "gain m' = gain m1" "limit m' = limit m1"
    "\<forall>t. (\<forall>s \<in> set (clock m1 # times ps). s \<le> t) \<longrightarrow> clock m' \<le> t" using Cons.IH [of m1] keep by blast
  then show ?case using c keep after p by (auto intro: order_trans)
qed

lemma run_bound:
  assumes "ok m" and "sorted (clock m # times ps)" and "\<forall>s \<in> set (clock m # times ps). s \<le> T" and "meter_run check ps m = Some (cs, m')"
  shows "paid pays ps cs \<le> tokens m + gain m * periods (per m) (clock m) T"
  using assms
proof (induction ps arbitrary: m cs)
  case Nil
  then show ?case by simp
next
  case (Cons p ps)
  obtain t len pc where p: "p = (t, len, pc)" by (cases p)
  have le: "clock m \<le> unat t" using Cons.prems(2) p by simp
  obtain c m1 ds where c: "check m t len pc = Some (c, m1)" "meter_run check ps m1 = Some (ds, m')" "cs = c # ds"
    using Cons.prems(4) p by (auto simp: bind_eq_Some_conv)
  note keep = step_law [OF Cons.prems(1) le c(1)] and after = clock_after [OF Cons.prems(1) le c(1)]
    and spend = spend_law [OF Cons.prems(1) le c(1)] and clk = clock_law [OF Cons.prems(1) le c(1)]
  have T: "clock m1 \<le> T" using after Cons.prems(3) p by auto
  have s1: "sorted (clock m1 # times ps)" using Cons.prems(2) after p by auto
  have "paid pays ps ds \<le> tokens m1 + gain m * periods (per m) (clock m1) T"
    using Cons.IH [OF _ s1 _ c(2)] keep Cons.prems(3) p T by auto
  moreover have "periods (per m) (clock m) (unat t) + periods (per m) (clock m1) T = periods (per m) (clock m) T"
    using periods_add [OF pos [OF Cons.prems(1)] clk T] .
  then have "gain m * periods (per m) (clock m) T = periods (per m) (clock m) (unat t) * gain m + gain m * periods (per m) (clock m1) T"
    by (metis add_mult_distrib2 mult.commute)
  ultimately show ?case using spend p c(3) by simp
qed

text \<open>Any stretch of traffic, after any traffic before it.\<close>

lemma stretch_bound:
  assumes "ok m" and "sorted (clock m # times (pre @ (t, len, pc) # ps))" and "\<forall>s \<in> set (times ps). s \<le> T" and "unat t \<le> T"
  shows "\<exists>cs ds m'. meter_run check (pre @ (t, len, pc) # ps) m = Some (cs @ ds, m') \<and> length cs = length pre \<and>
    paid pays ((t, len, pc) # ps) ds \<le> limit m + gain m * (periods (per m) (unat t) T + 1)"
proof -
  have pre: "sorted (clock m # times pre)" using assms(2) by (simp add: sorted_append)
  obtain cs m1 where r: "meter_run check pre m = Some (cs, m1)" "ok m1" "per m1 = per m" "gain m1 = gain m" "limit m1 = limit m"
    and cl: "\<forall>t. (\<forall>s \<in> set (clock m # times pre). s \<le> t) \<longrightarrow> clock m1 \<le> t" using run_returns [OF assms(1) pre] by blast
  have le: "clock m1 \<le> unat t" using cl assms(2) by (auto simp: sorted_append)
  obtain c m2 where c: "check m1 t len pc = Some (c, m2)" using check_law [OF r(2) le] by blast
  note keep = step_law [OF r(2) le c] and after = clock_after [OF r(2) le c] and spend = spend_law [OF r(2) le c]
  have s2: "sorted (clock m2 # times ps)" using after assms(2) by (auto simp: sorted_append)
  obtain ds m' where d: "meter_run check ps m2 = Some (ds, m')" using run_returns [OF _ s2] keep by blast
  have T: "clock m2 \<le> T" using after assms(4) by simp
  have b: "paid pays ps ds \<le> tokens m2 + gain m * periods (per m) (clock m2) T"
    using run_bound [OF _ s2 _ d, of T] keep assms(3) T r by auto
  have "T - clock m2 \<le> T - unat t + per m" using after r(3) assms(4) by linarith
  then have "periods (per m) (clock m2) T \<le> periods (per m) (unat t) T + 1"
    using pos [OF assms(1)] unfolding periods_def by (metis div_add_self2 div_le_mono less_numeral_extra(3) add.commute)
  then have "gain m * periods (per m) (clock m2) T \<le> gain m * (periods (per m) (unat t) T + 1)" by (rule mult_le_mono2)
  then have "paid pays ((t, len, pc) # ps) (c # ds) \<le> limit m + gain m * (periods (per m) (unat t) T + 1)" using b spend r by simp
  moreover have "meter_run check (pre @ (t, len, pc) # ps) m = Some (cs @ c # ds, m')" using r(1) c d by (simp add: run_append)
  ultimately show ?thesis using run_length [OF r(1)] by blast
qed

end

section \<open>A bucket from below\<close>

text \<open>Traffic within burst and rate: every stretch has at most the bytes of a full bucket and of the periods from its first to its last packet.\<close>

definition conform :: "nat \<Rightarrow> nat \<Rightarrow> nat \<Rightarrow> packet list \<Rightarrow> bool" where
  "conform L g p ps \<longleftrightarrow>
     list_all (\<lambda>i. list_all (\<lambda>j. bytes (drop i (take (Suc j) ps)) \<le> L + g * periods p (unat (fst (ps ! i))) (unat (fst (ps ! j)))) [i..<length ps])
       [0..<length ps]"

lemma conformD:
  assumes "conform L g p ps" and "ps = pre @ seg @ post" and "seg \<noteq> []"
  shows "bytes seg \<le> L + g * periods p (unat (fst (hd seg))) (unat (fst (last seg)))"
proof -
  let ?i = "length pre" and ?j = "length pre + length seg - 1"
  have l: "0 < length seg" using assms(3) by simp
  have j: "?i \<le> ?j" "?j < length ps" "?i < length ps" "Suc ?j = length pre + length seg" using l unfolding assms(2) length_append by linarith+
  have "bytes (drop ?i (take (Suc ?j) ps)) \<le> L + g * periods p (unat (fst (ps ! ?i))) (unat (fst (ps ! ?j)))"
    using assms(1) j(1-3) unfolding conform_def list_all_iff by simp
  moreover have "drop ?i (take (Suc ?j) ps) = seg" unfolding j(4) by (simp add: assms(2))
  moreover have "ps ! ?i = hd seg" using l by (simp add: assms(2) nth_append hd_conv_nth)
  moreover have "?j = length pre + (length seg - 1)" using l by linarith
  then have "ps ! ?j = last seg" using l unfolding assms(2) by (simp only: nth_append_length_plus) (simp add: nth_append last_conv_nth)
  ultimately show ?thesis by simp
qed

lemma periods_mono: "a' \<le> a \<Longrightarrow> periods p a b \<le> periods p a' b"
  unfolding periods_def by (intro div_le_mono) simp

locale fair_policer = policer check ok clock tokens pays per gain limit
  for check :: "'m \<Rightarrow> u64 \<Rightarrow> u32 \<Rightarrow> rte_meter_color \<Rightarrow> (rte_meter_color \<times> 'm) option" and ok :: "'m \<Rightarrow> bool"
    and clock :: "'m \<Rightarrow> nat" and tokens :: "'m \<Rightarrow> nat" and pays :: "rte_meter_color \<Rightarrow> bool"
    and per :: "'m \<Rightarrow> nat" and gain :: "'m \<Rightarrow> nat" and limit :: "'m \<Rightarrow> nat" +
  fixes wants :: "rte_meter_color \<Rightarrow> bool"
  assumes exact_law: "ok m \<Longrightarrow> clock m \<le> unat t \<Longrightarrow> limit m + periods (per m) (clock m) (unat t) * gain m < 2 ^ 64 \<Longrightarrow> check m t len pc = Some (c, m') \<Longrightarrow>
      tokens m' + (if pays c then unat len else 0) = min (limit m) (tokens m + periods (per m) (clock m) (unat t) * gain m)"
    and grant_law: "ok m \<Longrightarrow> clock m \<le> unat t \<Longrightarrow> limit m + periods (per m) (clock m) (unat t) * gain m < 2 ^ 64 \<Longrightarrow> check m t len pc = Some (c, m') \<Longrightarrow>
      wants pc \<Longrightarrow> unat len \<le> min (limit m) (tokens m + periods (per m) (clock m) (unat t) * gain m) \<Longrightarrow> pays c"
begin

text \<open>Since a packet that found the bucket full, the tokens account for the stretch \<open>seg\<close> of packets.\<close>

definition since_full :: "'m \<Rightarrow> packet list \<Rightarrow> bool" where
  "since_full m hist \<longleftrightarrow> (\<exists>pre seg a k. hist = pre @ seg \<and> clock m = a + k * per m \<and> tokens m + bytes seg = limit m + gain m * k \<and>
     (seg \<noteq> [] \<longrightarrow> a \<le> unat (fst (hd seg))))"

lemma fair_step:
  assumes "ok m" and "clock m \<le> unat t" and "check m t len pc = Some (c, m')" and "wants pc" and "since_full m hist"
    and "conform (limit m) (gain m) (per m) (hist @ (t, len, pc) # ps)" and "limit m + periods (per m) (clock m) (unat t) * gain m < 2 ^ 64"
  shows "pays c \<and> since_full m' (hist @ [(t, len, pc)])"
proof -
  let ?p = "(t, len, pc)" and ?n = "periods (per m) (clock m) (unat t)"
  note keep = step_law [OF assms(1,2,3)] and clk = clock_law [OF assms(1,2,3)] and after = clock_after [OF assms(1,2,3)]
    and exact = exact_law [OF assms(1,2,7,3)] and grant = grant_law [OF assms(1,2,7,3,4)]
  obtain pre seg a k where h: "hist = pre @ seg" "clock m = a + k * per m" "tokens m + bytes seg = limit m + gain m * k"
    "seg \<noteq> [] \<longrightarrow> a \<le> unat (fst (hd seg))" using assms(5) by (auto simp: since_full_def)
  have one: "unat len \<le> limit m" using conformD [OF assms(6), of hist "[?p]" ps] by (simp add: periods_def)
  have "bytes (seg @ [?p]) \<le> limit m + gain m * periods (per m) (unat (fst (hd (seg @ [?p])))) (unat t)"
    using conformD [OF assms(6), of pre "seg @ [?p]" ps] h(1) by simp
  moreover have "a \<le> unat (fst (hd (seg @ [?p])))" using h(2,4) assms(2) by (cases seg) auto
  then have "periods (per m) (unat (fst (hd (seg @ [?p])))) (unat t) \<le> k + ?n"
    using periods_mono periods_add [OF pos [OF assms(1)] h(2) assms(2)] by metis
  then have "gain m * periods (per m) (unat (fst (hd (seg @ [?p])))) (unat t) \<le> gain m * (k + ?n)" by (rule mult_le_mono2)
  ultimately have all: "bytes seg + unat len \<le> limit m + gain m * k + ?n * gain m" by (simp add: algebra_simps)
  have pays: "pays c" using grant one all h(3) by simp
  show ?thesis
  proof (cases "tokens m + ?n * gain m \<le> limit m")
    case True
    have "clock m' = a + (k + ?n) * per m'" using clk h(2) keep by (simp add: algebra_simps)
    moreover have "tokens m' + bytes (seg @ [?p]) = limit m' + gain m' * (k + ?n)" using exact pays True h(3) keep by (simp add: algebra_simps)
    moreover have "a \<le> unat (fst (hd (seg @ [?p])))" using h(2,4) assms(2) by (cases seg) auto
    moreover have "hist @ [?p] = pre @ (seg @ [?p])" using h(1) by simp
    ultimately show ?thesis unfolding since_full_def using pays by blast
  next
    case False
    then have "tokens m' + bytes [?p] = limit m' + gain m' * 0" using exact pays keep by simp
    moreover have "clock m' = clock m' + 0 * per m'" "clock m' \<le> unat (fst (hd [?p]))" using after by simp_all
    ultimately show ?thesis unfolding since_full_def using pays by blast
  qed
qed

lemma run_fair:
  assumes "ok m" and "sorted (clock m # times ps)" and "\<forall>s \<in> set (clock m # times ps). s \<le> T" and "list_all (\<lambda>(t, len, pc). wants pc) ps"
    and "since_full m hist" and "conform (limit m) (gain m) (per m) (hist @ ps)" and "limit m + gain m * periods (per m) (clock m) T < 2 ^ 64"
  shows "\<exists>cs m'. meter_run check ps m = Some (cs, m') \<and> length cs = length ps \<and> list_all pays cs"
  using assms
proof (induction ps arbitrary: m hist)
  case Nil
  then show ?case by simp
next
  case (Cons p ps)
  obtain t len pc where p: "p = (t, len, pc)" by (cases p)
  have le: "clock m \<le> unat t" "unat t \<le> T" using Cons.prems(2,3) p by simp_all
  obtain c m1 where c: "check m t len pc = Some (c, m1)" using check_law [OF Cons.prems(1) le(1)] by blast
  note keep = step_law [OF Cons.prems(1) le(1) c] and after = clock_after [OF Cons.prems(1) le(1) c] and clk = clock_law [OF Cons.prems(1) le(1) c]
  have T: "clock m1 \<le> T" using after le by simp
  have sum: "periods (per m) (clock m) (unat t) + periods (per m) (clock m1) T = periods (per m) (clock m) T"
    using periods_add [OF pos [OF Cons.prems(1)] clk T] .
  have le1: "gain m * periods (per m) (clock m) (unat t) \<le> gain m * periods (per m) (clock m) T" using sum by (metis le_add1 mult_le_mono2)
  have le2: "gain m * periods (per m) (clock m1) T \<le> gain m * periods (per m) (clock m) T" using sum by (metis le_add2 mult_le_mono2)
  have small1: "limit m + periods (per m) (clock m) (unat t) * gain m < 2 ^ 64"
    using Cons.prems(7) le1 by (subst mult.commute) linarith
  have "limit m + gain m * periods (per m) (clock m1) T < 2 ^ 64" using Cons.prems(7) le2 by linarith
  then have small2: "limit m1 + gain m1 * periods (per m1) (clock m1) T < 2 ^ 64" using keep by simp
  have "pays c \<and> since_full m1 (hist @ [p])"
    using fair_step [OF Cons.prems(1) le(1) c _ Cons.prems(5) _ small1, of ps] Cons.prems(4,6) p by simp
  moreover have s1: "sorted (clock m1 # times ps)" using Cons.prems(2) after p by auto
  ultimately show ?case
    using Cons.IH [OF _ s1 _ _ _ _ small2, of "hist @ [p]"] keep Cons.prems(3,4,6) T c p by auto
qed

lemma full_fair:
  assumes "ok m" and "tokens m = limit m" and "sorted (clock m # times ps)" and "\<forall>s \<in> set (clock m # times ps). s \<le> T"
    and "list_all (\<lambda>(t, len, pc). wants pc) ps" and "conform (limit m) (gain m) (per m) ps" and "limit m + gain m * periods (per m) (clock m) T < 2 ^ 64"
  shows "\<exists>cs m'. meter_run check ps m = Some (cs, m') \<and> length cs = length ps \<and> list_all pays cs"
proof -
  have "since_full m []" unfolding since_full_def using assms(2) by (intro exI [of _ "[]"] exI [of _ "clock m"] exI [of _ 0]) simp
  then show ?thesis using run_fair [of m ps T "[]"] assms by simp
qed

end

end
