(* ===== verification/Meter_Markers.thy ===== *)
theory Meter_Markers
  imports Meter_Spec
begin

text \<open>
  The buckets of the two markers are policers: the committed and the excess bucket of the single rate marker, the committed and the
  peak bucket of the two rate marker. Their properties are written out at the end.
\<close>

section \<open>Words\<close>

lemma unat_mult_add_le: "unat (a + n * b :: u64) \<le> unat a + unat n * unat b"
proof -
  have "unat (n * b) \<le> unat n * unat b" by (simp add: unat_word_ariths)
  moreover have "unat (a + n * b) \<le> unat a + unat (n * b)" unfolding unat_word_ariths(1) by (rule mod_less_eq_dividend)
  ultimately show ?thesis by linarith
qed

lemma unat_mult_add_exact: "unat a + unat n * unat b < 2 ^ 64 \<Longrightarrow> unat (a + n * b :: u64) = unat a + unat n * unat b"
  by (simp add: unat_word_ariths)

lemma refill_le: "unat (refill a n b l) \<le> min (unat l) (unat a + unat n * unat b)"
  using unat_mult_add_le [of a n b] by (auto simp: refill_def Let_def word_less_nat_alt)

lemma refill_exact: "unat a + unat n * unat b < 2 ^ 64 \<Longrightarrow> unat (refill a n b l) = min (unat l) (unat a + unat n * unat b)"
  using unat_mult_add_exact [of a n b] by (auto simp: refill_def Let_def word_less_nat_alt)

lemma refill_limit: "refill a n b l \<le> l"
  using refill_le [of a n b l] by (simp add: word_le_nat_alt)

lemma n_periods: "unat a \<le> unat t \<Longrightarrow> unat ((t - a) div p :: u64) = periods (unat p) (unat a) (unat t)"
  by (simp add: periods_def unat_div_distrib unat_sub word_le_nat_alt)

lemma clock_moves:
  assumes "unat a \<le> unat t"
  shows "unat (a + (t - a) div p * p :: u64) = unat a + periods (unat p) (unat a) (unat t) * unat p"
proof -
  have "periods (unat p) (unat a) (unat t) * unat p \<le> unat t - unat a" unfolding periods_def by (rule div_times_less_eq_dividend)
  moreover have "unat t < 2 ^ 64" by (rule order.strict_trans2 [OF unsigned_less]) simp
  ultimately have "unat a + unat ((t - a) div p) * unat p < 2 ^ 64" unfolding n_periods [OF assms] using assms by linarith
  from unat_mult_add_exact [OF this] show ?thesis using n_periods [OF assms, of p] by simp
qed

lemma unat_len [simp]: "unat (ucast (len :: u32) :: u64) = unat len"
proof -
  have "unat len < 2 ^ 64" by (rule order.strict_trans2 [OF unsigned_less]) simp
  then show ?thesis by (simp add: unsigned_ucast_eq take_bit_nat_eq_self)
qed

text \<open>A payment out of a bucket.\<close>

definition less_len :: "bool \<Rightarrow> u64 \<Rightarrow> u32 \<Rightarrow> u64" where
  "less_len b a len = (if b then a - ucast len else a)"

lemma less_len_unat: "(b \<Longrightarrow> ucast len \<le> a) \<Longrightarrow> unat (less_len b a len) + (if b then unat len else 0) = unat a"
  by (auto simp: less_len_def unat_sub word_le_nat_alt)

lemma less_len_le: "(b \<Longrightarrow> ucast len \<le> a) \<Longrightarrow> a \<le> l \<Longrightarrow> less_len b a len \<le> l"
  using less_len_unat [of b len a] by (auto simp: word_le_nat_alt)

lemma len_le_iff: "(ucast (len :: u32) :: u64) \<le> a \<longleftrightarrow> unat len \<le> unat a"
  by (simp add: word_le_nat_alt)

section \<open>The single rate marker\<close>

definition sr_ok :: "rte_meter_srtcm \<Rightarrow> bool" where
  "sr_ok m \<longleftrightarrow> sr_cir_period m \<noteq> 0 \<and> sr_tc m \<le> sr_cbs m \<and> sr_te m \<le> sr_ebs m"

definition sr_n :: "rte_meter_srtcm \<Rightarrow> u64 \<Rightarrow> u64" where
  "sr_n m t = (t - sr_time m) div sr_cir_period m"

definition sr_c :: "rte_meter_srtcm \<Rightarrow> u64 \<Rightarrow> u64" where
  "sr_c m t = refill (sr_tc m) (sr_n m t) (sr_cir_bytes_per_period m) (sr_cbs m)"

definition sr_e :: "rte_meter_srtcm \<Rightarrow> u64 \<Rightarrow> u64" where
  "sr_e m t = refill (sr_te m) (sr_n m t) (sr_cir_bytes_per_period m) (sr_ebs m)"

lemma sr_returns: "sr_ok m \<Longrightarrow> \<exists>c m'. rte_meter_srtcm_color_aware_check m t len pc = Some (c, m')"
  by (simp add: rte_meter_srtcm_color_aware_check_def sr_ok_def Let_def)

lemma sr_step:
  assumes "rte_meter_srtcm_color_aware_check m t len pc = Some (c, m')"
  shows "c = (if pc = e_RTE_METER_GREEN \<and> ucast len \<le> sr_c m t then e_RTE_METER_GREEN
            else if pc \<noteq> e_RTE_METER_RED \<and> ucast len \<le> sr_e m t then e_RTE_METER_YELLOW else e_RTE_METER_RED)"
    and "m' = m\<lparr>sr_time := sr_time m + sr_n m t * sr_cir_period m, sr_tc := less_len (c = e_RTE_METER_GREEN) (sr_c m t) len,
               sr_te := less_len (c = e_RTE_METER_YELLOW) (sr_e m t) len\<rparr>"
  using assms by (auto simp: rte_meter_srtcm_color_aware_check_def Let_def sr_n_def sr_c_def sr_e_def less_len_def split: if_splits)

lemma sr_pays:
  assumes "rte_meter_srtcm_color_aware_check m t len pc = Some (c, m')"
  shows "c = e_RTE_METER_GREEN \<Longrightarrow> ucast len \<le> sr_c m t" "c = e_RTE_METER_YELLOW \<Longrightarrow> ucast len \<le> sr_e m t"
  using sr_step(1) [OF assms] by (auto split: if_splits)

lemma sr_keeps:
  assumes "sr_ok m" and "rte_meter_srtcm_color_aware_check m t len pc = Some (c, m')"
  shows "sr_ok m' \<and> sr_cir_period m' = sr_cir_period m \<and> sr_cir_bytes_per_period m' = sr_cir_bytes_per_period m \<and>
    sr_cbs m' = sr_cbs m \<and> sr_ebs m' = sr_ebs m"
proof -
  have "sr_c m t \<le> sr_cbs m" "sr_e m t \<le> sr_ebs m" by (simp_all add: sr_c_def sr_e_def refill_limit)
  then have "less_len (c = e_RTE_METER_GREEN) (sr_c m t) len \<le> sr_cbs m" "less_len (c = e_RTE_METER_YELLOW) (sr_e m t) len \<le> sr_ebs m"
    using less_len_le [of "c = e_RTE_METER_GREEN" len "sr_c m t" "sr_cbs m"] less_len_le [of "c = e_RTE_METER_YELLOW" len "sr_e m t" "sr_ebs m"]
      sr_pays [OF assms(2)] by simp_all
  then show ?thesis using assms(1) by (simp add: sr_step(2) [OF assms(2)] sr_ok_def)
qed

lemma sr_spend:
  assumes "unat (sr_time m) \<le> unat t" and "rte_meter_srtcm_color_aware_check m t len pc = Some (c, m')"
  shows "unat (sr_tc m') + (if c = e_RTE_METER_GREEN then unat len else 0) = unat (sr_c m t)"
    and "unat (sr_te m') + (if c = e_RTE_METER_YELLOW then unat len else 0) = unat (sr_e m t)"
    and "unat (sr_time m') = unat (sr_time m) + periods (unat (sr_cir_period m)) (unat (sr_time m)) (unat t) * unat (sr_cir_period m)"
  using less_len_unat [OF sr_pays(1) [OF assms(2)]] less_len_unat [OF sr_pays(2) [OF assms(2)]] clock_moves [OF assms(1)]
  by (simp_all add: sr_step(2) [OF assms(2)] sr_n_def)

lemma sr_n_unat: "unat (sr_time m) \<le> unat t \<Longrightarrow> unat (sr_n m t) = periods (unat (sr_cir_period m)) (unat (sr_time m)) (unat t)"
  by (simp add: sr_n_def n_periods)

interpretation srC: fair_policer rte_meter_srtcm_color_aware_check sr_ok "\<lambda>m. unat (sr_time m)" "\<lambda>m. unat (sr_tc m)" "\<lambda>c. c = e_RTE_METER_GREEN"
  "\<lambda>m. unat (sr_cir_period m)" "\<lambda>m. unat (sr_cir_bytes_per_period m)" "\<lambda>m. unat (sr_cbs m)" "\<lambda>c. c = e_RTE_METER_GREEN"
proof unfold_locales
  show "0 < unat (sr_cir_period m)" if "sr_ok m" for m using that by (simp add: sr_ok_def unat_gt_0)
  show "\<exists>c m'. rte_meter_srtcm_color_aware_check m t len pc = Some (c, m')" if "sr_ok m" for m t len pc using that by (rule sr_returns)
  show "sr_ok m' \<and> unat (sr_cir_period m') = unat (sr_cir_period m) \<and> unat (sr_cir_bytes_per_period m') = unat (sr_cir_bytes_per_period m) \<and>
      unat (sr_cbs m') = unat (sr_cbs m)"
    if "sr_ok m" "rte_meter_srtcm_color_aware_check m t len pc = Some (c, m')" for m t len pc c m' using sr_keeps [OF that] by simp
  show "unat (sr_time m') = unat (sr_time m) + periods (unat (sr_cir_period m)) (unat (sr_time m)) (unat t) * unat (sr_cir_period m)"
    if "unat (sr_time m) \<le> unat t" "rte_meter_srtcm_color_aware_check m t len pc = Some (c, m')" for m t len pc c m' using that by (rule sr_spend(3))
next
  fix m m' t len pc c
  assume m: "sr_ok m" "unat (sr_time m) \<le> unat t" "rte_meter_srtcm_color_aware_check m t len pc = Some (c, m')"
  let ?avail = "min (unat (sr_cbs m)) (unat (sr_tc m) + periods (unat (sr_cir_period m)) (unat (sr_time m)) (unat t) * unat (sr_cir_bytes_per_period m))"
  show "unat (sr_tc m') + (if c = e_RTE_METER_GREEN then unat len else 0) \<le> ?avail"
    using sr_spend(1) [OF m(2,3)] refill_le [of "sr_tc m" "sr_n m t" "sr_cir_bytes_per_period m" "sr_cbs m"] by (simp add: sr_c_def sr_n_unat [OF m(2)])
  assume small: "unat (sr_cbs m) + periods (unat (sr_cir_period m)) (unat (sr_time m)) (unat t) * unat (sr_cir_bytes_per_period m) < 2 ^ 64"
  have "unat (sr_tc m) \<le> unat (sr_cbs m)" using m(1) by (simp add: sr_ok_def word_le_nat_alt)
  then have e: "unat (sr_c m t) = ?avail" using small refill_exact [of "sr_tc m" "sr_n m t" "sr_cir_bytes_per_period m" "sr_cbs m"]
    by (simp add: sr_c_def sr_n_unat [OF m(2)])
  show "unat (sr_tc m') + (if c = e_RTE_METER_GREEN then unat len else 0) = ?avail" using sr_spend(1) [OF m(2,3)] e by simp
  show "c = e_RTE_METER_GREEN" if "pc = e_RTE_METER_GREEN" "unat len \<le> ?avail" using sr_step(1) [OF m(3)] that e by (simp add: len_le_iff)
qed

interpretation srE: policer rte_meter_srtcm_color_aware_check sr_ok "\<lambda>m. unat (sr_time m)" "\<lambda>m. unat (sr_te m)" "\<lambda>c. c = e_RTE_METER_YELLOW"
  "\<lambda>m. unat (sr_cir_period m)" "\<lambda>m. unat (sr_cir_bytes_per_period m)" "\<lambda>m. unat (sr_ebs m)"
proof unfold_locales
  show "0 < unat (sr_cir_period m)" if "sr_ok m" for m using that by (simp add: sr_ok_def unat_gt_0)
  show "\<exists>c m'. rte_meter_srtcm_color_aware_check m t len pc = Some (c, m')" if "sr_ok m" for m t len pc using that by (rule sr_returns)
  show "sr_ok m' \<and> unat (sr_cir_period m') = unat (sr_cir_period m) \<and> unat (sr_cir_bytes_per_period m') = unat (sr_cir_bytes_per_period m) \<and>
      unat (sr_ebs m') = unat (sr_ebs m)"
    if "sr_ok m" "rte_meter_srtcm_color_aware_check m t len pc = Some (c, m')" for m t len pc c m' using sr_keeps [OF that] by simp
  show "unat (sr_time m') = unat (sr_time m) + periods (unat (sr_cir_period m)) (unat (sr_time m)) (unat t) * unat (sr_cir_period m)"
    if "unat (sr_time m) \<le> unat t" "rte_meter_srtcm_color_aware_check m t len pc = Some (c, m')" for m t len pc c m' using that by (rule sr_spend(3))
next
  fix m m' t len pc c
  assume m: "sr_ok m" "unat (sr_time m) \<le> unat t" "rte_meter_srtcm_color_aware_check m t len pc = Some (c, m')"
  show "unat (sr_te m') + (if c = e_RTE_METER_YELLOW then unat len else 0) \<le>
      min (unat (sr_ebs m)) (unat (sr_te m) + periods (unat (sr_cir_period m)) (unat (sr_time m)) (unat t) * unat (sr_cir_bytes_per_period m))"
    using sr_spend(2) [OF m(2,3)] refill_le [of "sr_te m" "sr_n m t" "sr_cir_bytes_per_period m" "sr_ebs m"] by (simp add: sr_e_def sr_n_unat [OF m(2)])
qed

section \<open>The two rate marker\<close>

definition tr_ok :: "rte_meter_trtcm \<Rightarrow> bool" where
  "tr_ok m \<longleftrightarrow> tr_cir_period m \<noteq> 0 \<and> tr_pir_period m \<noteq> 0 \<and> tr_tc m \<le> tr_cbs m \<and> tr_tp m \<le> tr_pbs m"

definition tr_nc :: "rte_meter_trtcm \<Rightarrow> u64 \<Rightarrow> u64" where
  "tr_nc m t = (t - tr_time_tc m) div tr_cir_period m"

definition tr_np :: "rte_meter_trtcm \<Rightarrow> u64 \<Rightarrow> u64" where
  "tr_np m t = (t - tr_time_tp m) div tr_pir_period m"

definition tr_c :: "rte_meter_trtcm \<Rightarrow> u64 \<Rightarrow> u64" where
  "tr_c m t = refill (tr_tc m) (tr_nc m t) (tr_cir_bytes_per_period m) (tr_cbs m)"

definition tr_p :: "rte_meter_trtcm \<Rightarrow> u64 \<Rightarrow> u64" where
  "tr_p m t = refill (tr_tp m) (tr_np m t) (tr_pir_bytes_per_period m) (tr_pbs m)"

lemma tr_returns: "tr_ok m \<Longrightarrow> \<exists>c m'. rte_meter_trtcm_color_aware_check m t len pc = Some (c, m')"
  by (simp add: rte_meter_trtcm_color_aware_check_def tr_ok_def Let_def)

lemma tr_step:
  assumes "rte_meter_trtcm_color_aware_check m t len pc = Some (c, m')"
  shows "c = (if pc = e_RTE_METER_RED \<or> \<not> ucast len \<le> tr_p m t then e_RTE_METER_RED
            else if pc = e_RTE_METER_YELLOW \<or> \<not> ucast len \<le> tr_c m t then e_RTE_METER_YELLOW else e_RTE_METER_GREEN)"
    and "m' = m\<lparr>tr_time_tc := tr_time_tc m + tr_nc m t * tr_cir_period m, tr_time_tp := tr_time_tp m + tr_np m t * tr_pir_period m,
               tr_tc := less_len (c = e_RTE_METER_GREEN) (tr_c m t) len, tr_tp := less_len (c \<noteq> e_RTE_METER_RED) (tr_p m t) len\<rparr>"
  using assms
  by (auto simp: rte_meter_trtcm_color_aware_check_def Let_def tr_nc_def tr_np_def tr_c_def tr_p_def less_len_def not_le split: if_splits)

lemma tr_pays:
  assumes "rte_meter_trtcm_color_aware_check m t len pc = Some (c, m')"
  shows "c = e_RTE_METER_GREEN \<Longrightarrow> ucast len \<le> tr_c m t" "c \<noteq> e_RTE_METER_RED \<Longrightarrow> ucast len \<le> tr_p m t"
  using tr_step(1) [OF assms] by (auto split: if_splits)

lemma tr_keeps:
  assumes "tr_ok m" and "rte_meter_trtcm_color_aware_check m t len pc = Some (c, m')"
  shows "tr_ok m' \<and> tr_cir_period m' = tr_cir_period m \<and> tr_cir_bytes_per_period m' = tr_cir_bytes_per_period m \<and>
    tr_pir_period m' = tr_pir_period m \<and> tr_pir_bytes_per_period m' = tr_pir_bytes_per_period m \<and> tr_cbs m' = tr_cbs m \<and> tr_pbs m' = tr_pbs m"
proof -
  have "tr_c m t \<le> tr_cbs m" "tr_p m t \<le> tr_pbs m" by (simp_all add: tr_c_def tr_p_def refill_limit)
  then have "less_len (c = e_RTE_METER_GREEN) (tr_c m t) len \<le> tr_cbs m" "less_len (c \<noteq> e_RTE_METER_RED) (tr_p m t) len \<le> tr_pbs m"
    using less_len_le [of "c = e_RTE_METER_GREEN" len "tr_c m t" "tr_cbs m"] less_len_le [of "c \<noteq> e_RTE_METER_RED" len "tr_p m t" "tr_pbs m"]
      tr_pays [OF assms(2)] by simp_all
  then show ?thesis using assms(1) by (simp add: tr_step(2) [OF assms(2)] tr_ok_def)
qed

lemma tr_spend:
  assumes "rte_meter_trtcm_color_aware_check m t len pc = Some (c, m')"
  shows "unat (tr_tc m') + (if c = e_RTE_METER_GREEN then unat len else 0) = unat (tr_c m t)"
    and "unat (tr_tp m') + (if c \<noteq> e_RTE_METER_RED then unat len else 0) = unat (tr_p m t)"
  using less_len_unat [OF tr_pays(1) [OF assms]] less_len_unat [OF tr_pays(2) [OF assms]]
  by (simp_all add: tr_step(2) [OF assms])

lemma tr_clocks:
  assumes "rte_meter_trtcm_color_aware_check m t len pc = Some (c, m')"
  shows "unat (tr_time_tc m) \<le> unat t \<Longrightarrow>
      unat (tr_time_tc m') = unat (tr_time_tc m) + periods (unat (tr_cir_period m)) (unat (tr_time_tc m)) (unat t) * unat (tr_cir_period m)"
    and "unat (tr_time_tp m) \<le> unat t \<Longrightarrow>
      unat (tr_time_tp m') = unat (tr_time_tp m) + periods (unat (tr_pir_period m)) (unat (tr_time_tp m)) (unat t) * unat (tr_pir_period m)"
  by (simp_all add: tr_step(2) [OF assms] tr_nc_def tr_np_def clock_moves)

lemma tr_n_unat:
  "unat (tr_time_tc m) \<le> unat t \<Longrightarrow> unat (tr_nc m t) = periods (unat (tr_cir_period m)) (unat (tr_time_tc m)) (unat t)"
  "unat (tr_time_tp m) \<le> unat t \<Longrightarrow> unat (tr_np m t) = periods (unat (tr_pir_period m)) (unat (tr_time_tp m)) (unat t)"
  by (simp_all add: tr_nc_def tr_np_def n_periods)

interpretation trC: policer rte_meter_trtcm_color_aware_check tr_ok "\<lambda>m. unat (tr_time_tc m)" "\<lambda>m. unat (tr_tc m)" "\<lambda>c. c = e_RTE_METER_GREEN"
  "\<lambda>m. unat (tr_cir_period m)" "\<lambda>m. unat (tr_cir_bytes_per_period m)" "\<lambda>m. unat (tr_cbs m)"
proof unfold_locales
  show "0 < unat (tr_cir_period m)" if "tr_ok m" for m using that by (simp add: tr_ok_def unat_gt_0)
  show "\<exists>c m'. rte_meter_trtcm_color_aware_check m t len pc = Some (c, m')" if "tr_ok m" for m t len pc using that by (rule tr_returns)
  show "tr_ok m' \<and> unat (tr_cir_period m') = unat (tr_cir_period m) \<and> unat (tr_cir_bytes_per_period m') = unat (tr_cir_bytes_per_period m) \<and>
      unat (tr_cbs m') = unat (tr_cbs m)"
    if "tr_ok m" "rte_meter_trtcm_color_aware_check m t len pc = Some (c, m')" for m t len pc c m' using tr_keeps [OF that] by simp
  show "unat (tr_time_tc m') = unat (tr_time_tc m) + periods (unat (tr_cir_period m)) (unat (tr_time_tc m)) (unat t) * unat (tr_cir_period m)"
    if "unat (tr_time_tc m) \<le> unat t" "rte_meter_trtcm_color_aware_check m t len pc = Some (c, m')" for m t len pc c m' using tr_clocks(1) [OF that(2,1)] .
next
  fix m m' t len pc c
  assume m: "tr_ok m" "unat (tr_time_tc m) \<le> unat t" "rte_meter_trtcm_color_aware_check m t len pc = Some (c, m')"
  show "unat (tr_tc m') + (if c = e_RTE_METER_GREEN then unat len else 0) \<le>
      min (unat (tr_cbs m)) (unat (tr_tc m) + periods (unat (tr_cir_period m)) (unat (tr_time_tc m)) (unat t) * unat (tr_cir_bytes_per_period m))"
    using tr_spend(1) [OF m(3)] refill_le [of "tr_tc m" "tr_nc m t" "tr_cir_bytes_per_period m" "tr_cbs m"] by (simp add: tr_c_def tr_n_unat(1) [OF m(2)])
qed

interpretation trP: fair_policer rte_meter_trtcm_color_aware_check tr_ok "\<lambda>m. unat (tr_time_tp m)" "\<lambda>m. unat (tr_tp m)" "\<lambda>c. c \<noteq> e_RTE_METER_RED"
  "\<lambda>m. unat (tr_pir_period m)" "\<lambda>m. unat (tr_pir_bytes_per_period m)" "\<lambda>m. unat (tr_pbs m)" "\<lambda>c. c \<noteq> e_RTE_METER_RED"
proof unfold_locales
  show "0 < unat (tr_pir_period m)" if "tr_ok m" for m using that by (simp add: tr_ok_def unat_gt_0)
  show "\<exists>c m'. rte_meter_trtcm_color_aware_check m t len pc = Some (c, m')" if "tr_ok m" for m t len pc using that by (rule tr_returns)
  show "tr_ok m' \<and> unat (tr_pir_period m') = unat (tr_pir_period m) \<and> unat (tr_pir_bytes_per_period m') = unat (tr_pir_bytes_per_period m) \<and>
      unat (tr_pbs m') = unat (tr_pbs m)"
    if "tr_ok m" "rte_meter_trtcm_color_aware_check m t len pc = Some (c, m')" for m t len pc c m' using tr_keeps [OF that] by simp
  show "unat (tr_time_tp m') = unat (tr_time_tp m) + periods (unat (tr_pir_period m)) (unat (tr_time_tp m)) (unat t) * unat (tr_pir_period m)"
    if "unat (tr_time_tp m) \<le> unat t" "rte_meter_trtcm_color_aware_check m t len pc = Some (c, m')" for m t len pc c m' using tr_clocks(2) [OF that(2,1)] .
next
  fix m m' t len pc c
  assume m: "tr_ok m" "unat (tr_time_tp m) \<le> unat t" "rte_meter_trtcm_color_aware_check m t len pc = Some (c, m')"
  let ?avail = "min (unat (tr_pbs m)) (unat (tr_tp m) + periods (unat (tr_pir_period m)) (unat (tr_time_tp m)) (unat t) * unat (tr_pir_bytes_per_period m))"
  show "unat (tr_tp m') + (if c \<noteq> e_RTE_METER_RED then unat len else 0) \<le> ?avail"
    using tr_spend(2) [OF m(3)] refill_le [of "tr_tp m" "tr_np m t" "tr_pir_bytes_per_period m" "tr_pbs m"] by (simp add: tr_p_def tr_n_unat(2) [OF m(2)])
  assume small: "unat (tr_pbs m) + periods (unat (tr_pir_period m)) (unat (tr_time_tp m)) (unat t) * unat (tr_pir_bytes_per_period m) < 2 ^ 64"
  have "unat (tr_tp m) \<le> unat (tr_pbs m)" using m(1) by (simp add: tr_ok_def word_le_nat_alt)
  then have e: "unat (tr_p m t) = ?avail" using small refill_exact [of "tr_tp m" "tr_np m t" "tr_pir_bytes_per_period m" "tr_pbs m"]
    by (simp add: tr_p_def tr_n_unat(2) [OF m(2)])
  show "unat (tr_tp m') + (if c \<noteq> e_RTE_METER_RED then unat len else 0) = ?avail" using tr_spend(2) [OF m(3)] e by simp
  show "c \<noteq> e_RTE_METER_RED" if "pc \<noteq> e_RTE_METER_RED" "unat len \<le> ?avail" using tr_step(1) [OF m(3)] that e by (simp add: len_le_iff)
qed

section \<open>Properties\<close>

text \<open>Without colours in the input both markers do what they do for green packets.\<close>

theorem meter_blind_aware:
  "rte_meter_srtcm_color_blind_check m t len = rte_meter_srtcm_color_aware_check m t len e_RTE_METER_GREEN \<and>
   rte_meter_trtcm_color_blind_check m' t len = rte_meter_trtcm_color_aware_check m' t len e_RTE_METER_GREEN"
  by (simp add: rte_meter_srtcm_color_blind_check_def rte_meter_srtcm_color_aware_check_def rte_meter_trtcm_color_blind_check_def
      rte_meter_trtcm_color_aware_check_def Let_def)

text \<open>C37: In any stretch of traffic through the single rate marker, after any traffic before it and with time stamps that do not go back, every packet gets a
  colour, the green bytes are at most the committed burst and the yellow bytes at most the excess burst, each plus what the rate gives in the periods
  from the first to the last packet of the stretch and one more.\<close>
theorem meter_srtcm_conform:
  assumes "sr_ok m" and "sorted (unat (sr_time m) # times (pre @ (t, len, pc) # ps))" and "\<forall>s \<in> set (times ps). s \<le> T" and "unat t \<le> T"
  shows "\<exists>cs ds m'. meter_run rte_meter_srtcm_color_aware_check (pre @ (t, len, pc) # ps) m = Some (cs @ ds, m') \<and> length cs = length pre \<and>
    paid (\<lambda>c. c = e_RTE_METER_GREEN) ((t, len, pc) # ps) ds \<le>
      unat (sr_cbs m) + unat (sr_cir_bytes_per_period m) * (periods (unat (sr_cir_period m)) (unat t) T + 1) \<and>
    paid (\<lambda>c. c = e_RTE_METER_YELLOW) ((t, len, pc) # ps) ds \<le>
      unat (sr_ebs m) + unat (sr_cir_bytes_per_period m) * (periods (unat (sr_cir_period m)) (unat t) T + 1)"
  using srC.stretch_bound [OF assms] srE.stretch_bound [OF assms] by fastforce

text \<open>C38: In any stretch of traffic through the two rate marker the green bytes stay within the committed burst and rate, and the green and yellow bytes
  together within the peak burst and rate.\<close>
theorem meter_trtcm_conform:
  assumes "tr_ok m" and "sorted (unat (tr_time_tc m) # times (pre @ (t, len, pc) # ps))" and "sorted (unat (tr_time_tp m) # times (pre @ (t, len, pc) # ps))"
    and "\<forall>s \<in> set (times ps). s \<le> T" and "unat t \<le> T"
  shows "\<exists>cs ds m'. meter_run rte_meter_trtcm_color_aware_check (pre @ (t, len, pc) # ps) m = Some (cs @ ds, m') \<and> length cs = length pre \<and>
    paid (\<lambda>c. c = e_RTE_METER_GREEN) ((t, len, pc) # ps) ds \<le>
      unat (tr_cbs m) + unat (tr_cir_bytes_per_period m) * (periods (unat (tr_cir_period m)) (unat t) T + 1) \<and>
    paid (\<lambda>c. c \<noteq> e_RTE_METER_RED) ((t, len, pc) # ps) ds \<le>
      unat (tr_pbs m) + unat (tr_pir_bytes_per_period m) * (periods (unat (tr_pir_period m)) (unat t) T + 1)"
  using trC.stretch_bound [OF assms(1,2,4,5)] trP.stretch_bound [OF assms(1,3,4,5)] by fastforce

text \<open>C39: Green traffic that in every stretch stays within the committed burst and the periods between the first and the last packet of the stretch is marked
  green throughout by a single rate marker with a full bucket, if the tokens of the whole time fit 64 bits.\<close>
theorem meter_conforming_green:
  assumes "sr_ok m" and "sr_tc m = sr_cbs m" and "sorted (unat (sr_time m) # times ps)" and "\<forall>s \<in> set (unat (sr_time m) # times ps). s \<le> T"
    and "list_all (\<lambda>(t, len, pc). pc = e_RTE_METER_GREEN) ps"
    and "conform (unat (sr_cbs m)) (unat (sr_cir_bytes_per_period m)) (unat (sr_cir_period m)) ps"
    and "unat (sr_cbs m) + unat (sr_cir_bytes_per_period m) * periods (unat (sr_cir_period m)) (unat (sr_time m)) T < 2 ^ 64"
  shows "\<exists>m'. meter_run rte_meter_srtcm_color_aware_check ps m = Some (replicate (length ps) e_RTE_METER_GREEN, m')"
proof -
  have "unat (sr_tc m) = unat (sr_cbs m)" using assms(2) by simp
  from srC.full_fair [OF assms(1) this assms(3-7)] obtain cs m' where
    "meter_run rte_meter_srtcm_color_aware_check ps m = Some (cs, m')" "length cs = length ps" "list_all (\<lambda>c. c = e_RTE_METER_GREEN) cs" by blast
  moreover from this have "cs = replicate (length ps) e_RTE_METER_GREEN" by (intro replicate_eqI) (auto simp: list_all_iff)
  ultimately show ?thesis by blast
qed

section \<open>Traffic\<close>

definition sample_srtcm :: rte_meter_srtcm where
  "sample_srtcm = \<lparr>sr_time = 1000, sr_tc = 2000, sr_te = 1500, sr_cbs = 2000, sr_ebs = 1500, sr_cir_period = 100, sr_cir_bytes_per_period = 50\<rparr>"

definition sample_trtcm :: rte_meter_trtcm where
  "sample_trtcm = \<lparr>tr_time_tc = 1000, tr_time_tp = 1000, tr_tc = 2000, tr_tp = 3000, tr_cbs = 2000, tr_pbs = 3000,
     tr_cir_period = 100, tr_cir_bytes_per_period = 50, tr_pir_period = 100, tr_pir_bytes_per_period = 80\<rparr>"

definition sample_traffic :: "packet list" where
  "sample_traffic = [(2000, 1200, e_RTE_METER_GREEN), (2100, 1200, e_RTE_METER_GREEN), (2450, 400, e_RTE_METER_YELLOW)]"

theorem meter_srtcm_conform_witness:
  "\<exists>cs ds m'. meter_run rte_meter_srtcm_color_aware_check ((1500, 900, e_RTE_METER_GREEN) # sample_traffic) sample_srtcm = Some (cs @ ds, m') \<and> length cs = 1 \<and>
    paid (\<lambda>c. c = e_RTE_METER_GREEN) sample_traffic ds \<le> 2250 \<and> paid (\<lambda>c. c = e_RTE_METER_YELLOW) sample_traffic ds \<le> 1750"
  using meter_srtcm_conform [of sample_srtcm "[(1500, 900, e_RTE_METER_GREEN)]" 2000 1200 e_RTE_METER_GREEN "tl sample_traffic" 2450]
  by (simp add: sample_srtcm_def sample_traffic_def sr_ok_def periods_def)

theorem meter_trtcm_conform_witness:
  "\<exists>cs ds m'. meter_run rte_meter_trtcm_color_aware_check ((1500, 900, e_RTE_METER_GREEN) # sample_traffic) sample_trtcm = Some (cs @ ds, m') \<and> length cs = 1 \<and>
    paid (\<lambda>c. c = e_RTE_METER_GREEN) sample_traffic ds \<le> 2250 \<and> paid (\<lambda>c. c \<noteq> e_RTE_METER_RED) sample_traffic ds \<le> 3400"
  using meter_trtcm_conform [of sample_trtcm "[(1500, 900, e_RTE_METER_GREEN)]" 2000 1200 e_RTE_METER_GREEN "tl sample_traffic" 2450]
  by (simp add: sample_trtcm_def sample_traffic_def tr_ok_def periods_def)

theorem meter_conforming_green_witness:
  "\<exists>m'. meter_run rte_meter_srtcm_color_aware_check [(1500, 1200, e_RTE_METER_GREEN), (2500, 1200, e_RTE_METER_GREEN)] sample_srtcm =
     Some ([e_RTE_METER_GREEN, e_RTE_METER_GREEN], m')"
proof -
  let ?ps = "[(1500, 1200, e_RTE_METER_GREEN), (2500, 1200, e_RTE_METER_GREEN)] :: packet list"
  have c: "conform 2000 50 100 ?ps" by (simp add: conform_def periods_def upt_rec)
  have "\<exists>m'. meter_run rte_meter_srtcm_color_aware_check ?ps sample_srtcm = Some (replicate (length ?ps) e_RTE_METER_GREEN, m')"
    by (rule meter_conforming_green [of _ _ 2500]) (use c in \<open>simp_all add: sample_srtcm_def sr_ok_def periods_def\<close>)
  then show ?thesis by simp
qed

end
