(* ===== verification/Meter_Rate.thy ===== *)
theory Meter_Rate
  imports Meter_Markers Complex_Main
begin

text \<open>
  The configuration of a meter, computed in double precision: the rounding error of each operation, the rate that the period and the bytes per period
  stand for, and that a configured meter is in a state the properties of \<open>Meter_Markers\<close> start from.
\<close>

section \<open>Values\<close>

definition dval :: "double \<Rightarrow> real" where
  "dval x = real (fst x) * 2 powi snd x"

text \<open>\<open>y\<close> is \<open>x\<close> up to a rounding.\<close>

definition near :: "real \<Rightarrow> real \<Rightarrow> bool" where
  "near y x \<longleftrightarrow> \<bar>y - x\<bar> \<le> x / 2 ^ 52"

lemma near_scale: "near y x \<Longrightarrow> 0 < c \<Longrightarrow> near (y * c) (x * c)"
proof -
  assume n: "near y x" and c: "0 < c"
  have "\<bar>y * c - x * c\<bar> = \<bar>y - x\<bar> * c" using c by (simp add: left_diff_distrib [symmetric] abs_mult)
  also have "\<dots> \<le> x / 2 ^ 52 * c" using n c unfolding near_def by (intro mult_right_mono) auto
  finally show ?thesis by (simp add: near_def)
qed

lemma near_self: "0 \<le> x \<Longrightarrow> near x x"
  by (simp add: near_def)

lemma round53_near:
  assumes "0 < n" and "real n \<le> x" and "x < real n + 1" and "floorlog 2 n \<le> 53 \<Longrightarrow> x = real n"
  shows "near (dval (round53 n sticky e)) (x * 2 powi e)"
proof (cases "floorlog 2 n - 53 = 0")
  case True
  then show ?thesis using assms by (simp add: round53_def dval_def near_def)
next
  case False
  define s where "s = floorlog 2 n - 53"
  define q where "q = n div 2 ^ s"
  have s: "0 < s" "floorlog 2 n - 1 = 52 + s" using False by (auto simp: s_def)
  have "2 ^ (52 + s) \<le> n" using floorlog_bounds [of n 2] assms(1) s(2) by simp
  then have big: "(2 :: real) ^ 52 * 2 ^ s \<le> real n" by (metis of_nat_le_iff of_nat_numeral of_nat_power power_add)
  have "q * 2 ^ s \<le> n" unfolding q_def by (rule div_times_less_eq_dividend)
  moreover have "n < (q + 1) * 2 ^ s" unfolding q_def using dividend_less_div_times [of "2 ^ s" n] by (simp add: algebra_simps)
  ultimately have "real (q * 2 ^ s) \<le> real n" "real n + 1 \<le> real ((q + 1) * 2 ^ s)" by linarith+
  then have lo: "real q * 2 ^ s \<le> x" and hi: "x < (real q + 1) * 2 ^ s" using assms(2,3) by (simp_all add: algebra_simps)
  obtain v where v: "round53 n sticky e = (v, e + int s)" "v = q \<or> v = q + 1"
    using False by (auto simp: round53_def Let_def s_def q_def)
  have d: "dval (round53 n sticky e) = real v * 2 ^ s * 2 powi e" using v(1) by (simp add: dval_def power_int_add)
  have "\<bar>real v * 2 ^ s - x\<bar> \<le> 2 ^ s" using v(2) lo hi by (auto simp: algebra_simps)
  also have "\<dots> \<le> x / 2 ^ 52" using big assms(2) by (simp add: field_simps)
  finally have "near (real v * 2 ^ s) x" by (simp add: near_def)
  then show ?thesis unfolding d by (rule near_scale) simp
qed

lemma dbl_near:
  assumes "n \<noteq> 0"
  shows "near (dval (dbl n)) (real (unat n))"
  using round53_near [of "unat n" "real (unat n)" False 0] assms by (simp add: dbl_def unat_gt_0)

lemma round53_pos: "0 < n \<Longrightarrow> 0 < fst (round53 n sticky e)"
proof -
  assume n: "0 < n"
  have "(2 :: nat) ^ (floorlog 2 n - 53) \<le> 2 ^ (floorlog 2 n - 1)" by (rule power_increasing) simp_all
  also have "\<dots> \<le> n" using floorlog_bounds [of n 2] n by simp
  finally have "2 ^ (floorlog 2 n - 53) \<le> n" .
  then have "0 < n div 2 ^ (floorlog 2 n - 53)" by (simp add: div_greater_zero_iff)
  then show ?thesis using n by (simp add: round53_def Let_def)
qed

lemma ddiv_near:
  assumes "0 < fst x" and "0 < fst y"
  shows "near (dval (ddiv x y)) (dval x / dval y)" and "0 < fst (ddiv x y)"
proof -
  obtain m1 e1 m2 e2 where xy: "x = (m1, e1)" "y = (m2, e2)" by (cases x; cases y)
  define k where "k = 55 + floorlog 2 m2"
  define n where "n = m1 * 2 ^ k div m2"
  have m: "0 < m1" "0 < m2" using assms xy by simp_all
  have "m2 < 2 ^ floorlog 2 m2" using floorlog_bounds [of m2 2] m by simp
  then have "2 ^ 55 * m2 \<le> 2 ^ 55 * 2 ^ floorlog 2 m2" by simp
  also have "\<dots> \<le> m1 * 2 ^ k" using m(1) by (simp add: k_def power_add)
  finally have n55: "2 ^ 55 \<le> n" unfolding n_def using m(2) by (simp add: less_eq_div_iff_mult_less_eq)
  then have n0: "0 < n" by (rule order.strict_trans2 [rotated]) simp
  have fl: "56 \<le> floorlog 2 n" using floorlog_ge_SucI [of 2 55 n] n55 by simp
  have "real n \<le> real (m1 * 2 ^ k) / real m2" unfolding n_def by (rule of_nat_div_le_of_nat)
  moreover have "m1 * 2 ^ k < (n + 1) * m2" unfolding n_def using m(2) by (metis Suc_eq_plus1 dividend_less_div_times mult_Suc)
  then have "real (m1 * 2 ^ k) < (real n + 1) * real m2" by (metis of_nat_1 of_nat_add of_nat_less_iff of_nat_mult)
  then have "real (m1 * 2 ^ k) / real m2 < real n + 1" using m(2) by (simp add: divide_less_eq)
  ultimately have "near (dval (round53 n st (e1 - e2 - int k))) (real (m1 * 2 ^ k) / real m2 * 2 powi (e1 - e2 - int k))" for st
    by (rule round53_near [OF n0]) (use fl in simp)
  moreover have "real (m1 * 2 ^ k) / real m2 * 2 powi (e1 - e2 - int k) = dval x / dval y"
    using m by (simp add: dval_def xy power_int_diff)
  ultimately show "near (dval (ddiv x y)) (dval x / dval y)" by (simp add: ddiv_def xy Let_def k_def n_def)
  show "0 < fst (ddiv x y)" using round53_pos [OF n0] by (simp add: ddiv_def xy Let_def k_def n_def)
qed

text \<open>Comparison and conversion.\<close>

lemma dval_cases:
  "0 \<le> e \<Longrightarrow> dval (m, e) = real (m * 2 ^ nat e)" "e < 0 \<Longrightarrow> dval (m, e) = real m / 2 ^ nat (- e)"
  by (simp_all add: dval_def power_int_def field_simps)

lemma dge_iff: "dge x c \<longleftrightarrow> real c \<le> dval x"
proof (cases x)
  case (Pair m e)
  show ?thesis
  proof (cases "0 \<le> e")
    case True
    then show ?thesis by (simp add: Pair dge_def dval_cases(1) del: of_nat_mult of_nat_power)
  next
    case False
    have "real c \<le> real m / 2 ^ nat (- e) \<longleftrightarrow> real (c * 2 ^ nat (- e)) \<le> real m" by (simp add: le_divide_eq)
    then show ?thesis using False by (simp add: Pair dge_def dval_cases(2) del: of_nat_mult of_nat_power)
  qed
qed

lemma dtrunc_bounds: "real (dtrunc x) \<le> dval x \<and> dval x < real (dtrunc x) + 1"
proof (cases x)
  case (Pair m e)
  show ?thesis
  proof (cases "0 \<le> e")
    case True
    then show ?thesis by (simp add: Pair dtrunc_def dval_cases(1))
  next
    case False
    have "real (m div 2 ^ nat (- e)) = of_int \<lfloor>real m / 2 ^ nat (- e)\<rfloor>"
      using floor_divide_of_nat_eq [of m "2 ^ nat (- e)", where 'a = real] by simp
    then show ?thesis using False by (simp add: Pair dtrunc_def dval_cases(2))
  qed
qed

lemma div_round_up:
  assumes "0 < d"
  shows "real m / real d \<le> real ((m + d - 1) div d) \<and> real ((m + d - 1) div d) < real m / real d + 1"
proof -
  let ?c = "(m + d - 1) div d"
  have "?c * d \<le> m + d - 1" by (rule div_times_less_eq_dividend)
  then have "?c * d < m + d" using assms by linarith
  then have "real ?c * real d < real m + real d" by (metis of_nat_add of_nat_less_iff of_nat_mult)
  moreover have "m \<le> ?c * d" using dividend_less_div_times [OF assms, of "m + d - 1"] assms by linarith
  then have "real m \<le> real ?c * real d" by (metis of_nat_le_iff of_nat_mult)
  ultimately show ?thesis using assms by (simp add: field_simps)
qed

lemma dceil_bounds: "dval x \<le> real (dceil x) \<and> real (dceil x) < dval x + 1"
proof (cases x)
  case (Pair m e)
  show ?thesis
  proof (cases "0 \<le> e")
    case True
    then show ?thesis by (simp add: Pair dceil_def dval_cases(1))
  next
    case False
    then show ?thesis using div_round_up [of "2 ^ nat (- e)" m] by (simp add: Pair dceil_def dval_cases(2))
  qed
qed

section \<open>The rate of a bucket\<close>

lemma near_bounds: "near y x \<Longrightarrow> 0 \<le> x \<Longrightarrow> 9999 / 10000 * x \<le> y \<and> y \<le> 10001 / 10000 * x"
  unfolding near_def abs_le_iff by simp

lemma near_quotient:
  assumes "near a h" and "near b r" and "near p (a / b)" and "0 < h" and "0 < r"
  shows "0 < p \<and> 999 / 1000 * h \<le> p * r \<and> p * r \<le> 1001 / 1000 * h"
proof -
  note a = near_bounds [OF assms(1)] and b = near_bounds [OF assms(2)]
  have a0: "0 < a" and b0: "0 < b" using a b assms(4,5) by linarith+
  have q: "9999 / 10000 * (a / b) \<le> p \<and> p \<le> 10001 / 10000 * (a / b)" using near_bounds [OF assms(3)] a0 b0 by simp
  then have pb: "9999 / 10000 * a \<le> p * b" "p * b \<le> 10001 / 10000 * a" using b0 by (simp_all add: field_simps)
  have p0: "0 < p" using q a0 b0 by (meson divide_pos_pos less_le_trans mult_pos_pos zero_less_numeral)
  have "p * b \<le> p * (10001 / 10000 * r)" "p * (9999 / 10000 * r) \<le> p * b" using b assms(5) p0 by (intro mult_left_mono; simp)+
  then have "p * b \<le> 10001 / 10000 * (p * r)" "9999 / 10000 * (p * r) \<le> p * b" by (simp_all add: field_simps)
  moreover have "9999 / 10000 * h \<le> a" "a \<le> 10001 / 10000 * h" using a assms(4) by simp_all
  ultimately show ?thesis using pb assms(4) p0 by (intro conjI; linarith)
qed

text \<open>One byte per period.\<close>

lemma slow_rate:
  fixes N R H P :: real
  assumes "999 / 1000 * H \<le> P * R" and "P * R \<le> 1001 / 1000 * H" and "100 \<le> P" and "N \<le> P" and "P < N + 1" and "0 < R"
  shows "99 * (R * N) \<le> 100 * H \<and> 50 * H \<le> 51 * (R * N)"
proof -
  have "R * N \<le> R * P" "R * P \<le> R * (N + 1)" "R * 99 \<le> R * N" using assms by (intro mult_left_mono; simp)+
  then have "R * N \<le> P * R" "P * R \<le> R * N + R" "99 * R \<le> R * N" by (simp_all add: algebra_simps)
  moreover have "0 \<le> R * N" using assms by simp
  ultimately show ?thesis using assms(1,2) by (intro conjI; linarith)
qed

text \<open>Several bytes per period.\<close>

lemma fast_rate:
  fixes R H P X c :: real
  assumes "999 / 1000 * H \<le> P * R" and "P * R \<le> 1001 / 1000 * H" and "0 < P" and "P < 100" and "near X (100 / P)" and "X \<le> c" and "c < X + 1"
    and "0 < R" and "0 < H" and "R \<le> 2 ^ 56" and "H \<le> 2 ^ 56"
  shows "99 * R \<le> H * c \<and> H * c < 2 ^ 64 \<and> 0 < c"
proof -
  have X: "9999 / 10000 * (100 / P) \<le> X \<and> X \<le> 10001 / 10000 * (100 / P)" using near_bounds [OF assms(5)] assms(3) by simp
  then have XP: "9999 / 100 \<le> X * P" "X * P \<le> 10001 / 100" using assms(3) by (simp_all add: field_simps)
  have X0: "0 < X" using X assms(3) by (meson divide_pos_pos less_le_trans mult_pos_pos zero_less_numeral)
  have "X * (P * R) \<le> X * (1001 / 1000 * H)" "X * (999 / 1000 * H) \<le> X * (P * R)" using assms(1,2) X0 by (intro mult_left_mono; simp)+
  then have XH: "X * P * R \<le> 1001 / 1000 * (H * X)" "999 / 1000 * (H * X) \<le> X * P * R" by (simp_all add: algebra_simps)
  have R: "9999 / 100 * R \<le> X * P * R" "X * P * R \<le> 10001 / 100 * R" using XP assms(8) by (intro mult_right_mono; simp)+
  have "H * X \<le> H * c" "H * c \<le> H * (X + 1)" using assms by (intro mult_left_mono; simp)+
  then have Hc: "H * X \<le> H * c" "H * c \<le> H * X + H" by (simp_all add: algebra_simps)
  have "99 * R \<le> H * c" using XH(1) R(1) Hc(1) assms(8) by linarith
  moreover have "H * c \<le> 10112 / 100 * 2 ^ 56" using XH(2) R(2) Hc(2) assms(8,10,11) by linarith
  ultimately show ?thesis using X0 assms(6) by simp
qed

lemma whole_periods:
  fixes R W :: nat
  assumes "99 * R \<le> W" and "0 < R"
  shows "99 \<le> W div R \<and> 99 * (R * (W div R)) \<le> 100 * W \<and> 50 * W \<le> 51 * (R * (W div R))"
proof -
  have n: "99 \<le> W div R" using assms by (simp add: less_eq_div_iff_mult_less_eq)
  have "R * (W div R) \<le> W" by (metis div_times_less_eq_dividend mult.commute)
  moreover have "W < R * (W div R) + R" using dividend_less_div_times [OF assms(2), of W] by (simp add: algebra_simps)
  moreover have "R * 99 \<le> R * (W div R)" using n by (rule mult_le_mono2)
  ultimately show ?thesis using n by linarith
qed

lemma tb_params_close:
  assumes "hz \<noteq> 0" and "rate \<noteq> 0" and "unat hz \<le> 2 ^ 56" and "unat rate \<le> 2 ^ 56"
  shows "\<exists>period bytes. rte_meter_get_tb_params hz rate = Some (period, bytes) \<and> 99 \<le> unat period \<and> 1 \<le> unat bytes \<and>
    99 * (unat rate * unat period) \<le> 100 * (unat hz * unat bytes) \<and> 50 * (unat hz * unat bytes) \<le> 51 * (unat rate * unat period)"
proof -
  let ?p = "ddiv (dbl hz) (dbl rate)"
  define H R where "H = unat hz" and "R = unat rate"
  have pos: "0 < fst (dbl hz)" "0 < fst (dbl rate)" using assms(1,2) by (simp_all add: dbl_def round53_pos unat_gt_0)
  have HR: "0 < H" "0 < R" using assms(1,2) by (simp_all add: unat_gt_0 H_def R_def)
  have HR': "0 < real H" "0 < real R" "real H \<le> 2 ^ 56" "real R \<le> 2 ^ 56"
    using HR assms(3,4) by (simp_all add: H_def [symmetric] R_def [symmetric])
  have P: "0 < dval ?p" "999 / 1000 * real H \<le> dval ?p * real R" "dval ?p * real R \<le> 1001 / 1000 * real H"
    using near_quotient [OF dbl_near [OF assms(1), folded H_def] dbl_near [OF assms(2), folded R_def] ddiv_near(1) [OF pos] HR'(1,2)] by blast+
  show ?thesis
  proof (cases "dge ?p RTE_METER_TB_PERIOD_MIN")
    case True
    let ?N = "dtrunc ?p"
    have ge: "100 \<le> dval ?p" using True by (simp add: dge_iff RTE_METER_TB_PERIOD_MIN_def)
    have N: "real ?N \<le> dval ?p" "dval ?p < real ?N + 1" using dtrunc_bounds [of ?p] by blast+
    have "99 * (real R * real ?N) \<le> 100 * real H \<and> 50 * real H \<le> 51 * (real R * real ?N)"
      using slow_rate [OF P(2,3) ge N HR'(2)] .
    then have rate: "99 * (R * ?N) \<le> 100 * H" "50 * H \<le> 51 * (R * ?N)" by (simp_all del: of_nat_mult add: of_nat_mult [symmetric])
    have big: "99 \<le> ?N" using N(2) ge by linarith
    define M where "M = R * ?N"
    have "1 * ?N \<le> R * ?N" using HR(2) by (intro mult_le_mono1) simp
    then have "?N \<le> M" "99 * M \<le> 100 * H" "H \<le> 2 ^ 56" using rate(1) assms(3) unfolding M_def H_def by simp_all
    then have small: "?N < 2 ^ 64" by simp
    then have "rte_meter_get_tb_params hz rate = Some (of_nat ?N, 1)" using True assms(1,2) by (simp add: rte_meter_get_tb_params_def)
    moreover have u: "unat (of_nat ?N :: u64) = ?N" "H * unat (1 :: u64) = H" using small by (simp_all add: unat_of_nat)
    have "99 * (R * unat (of_nat ?N :: u64)) \<le> 100 * (H * unat (1 :: u64))" "50 * (H * unat (1 :: u64)) \<le> 51 * (R * unat (of_nat ?N :: u64))"
      unfolding u by (rule rate)+
    ultimately show ?thesis using big u(1) unfolding H_def R_def by (intro exI [of _ "of_nat ?N"] exI [of _ 1] conjI) simp_all
  next
    case False
    let ?x = "ddiv (RTE_METER_TB_PERIOD_MIN, 0) ?p"
    let ?c = "dceil ?x"
    have lt: "dval ?p < 100" using False by (simp add: dge_iff RTE_METER_TB_PERIOD_MIN_def)
    have x: "near (dval ?x) (100 / dval ?p)"
      using ddiv_near(1) [of "(RTE_METER_TB_PERIOD_MIN, 0)" ?p] ddiv_near(2) [OF pos] by (simp add: RTE_METER_TB_PERIOD_MIN_def dval_def)
    have c: "dval ?x \<le> real ?c" "real ?c < dval ?x + 1" using dceil_bounds [of ?x] by blast+
    have "99 * real R \<le> real H * real ?c \<and> real H * real ?c < 2 ^ 64 \<and> 0 < real ?c"
      using fast_rate [OF P(2,3,1) lt x c HR'(2,1,4,3)] .
    then have W: "99 * R \<le> H * ?c" "H * ?c < 2 ^ 64" "0 < ?c"
      by (metis of_nat_le_iff of_nat_mult of_nat_numeral, metis of_nat_less_iff of_nat_mult of_nat_numeral of_nat_power, simp)
    have "1 * ?c \<le> H * ?c" using HR(1) by (intro mult_le_mono1) simp
    then have small: "?c < 2 ^ 64" using W(2) by linarith
    then have u: "unat (of_nat ?c :: u64) = ?c" by (simp add: unat_of_nat)
    have "unat (hz * of_nat ?c) = H * ?c" using W(2) by (simp add: unat_word_ariths u H_def)
    then have q: "unat ((hz * of_nat ?c) div rate) = H * ?c div R" by (simp add: unat_div_distrib R_def)
    let ?per = "(hz * of_nat ?c) div rate" and ?b = "of_nat ?c :: u64"
    have "99 \<le> unat ?per \<and> 99 * (R * unat ?per) \<le> 100 * (H * unat ?b) \<and> 50 * (H * unat ?b) \<le> 51 * (R * unat ?per)"
      unfolding q u by (rule whole_periods [OF W(1) HR(2)])
    moreover have "1 \<le> unat ?b" unfolding u using W(3) by simp
    moreover have "rte_meter_get_tb_params hz rate = Some ((hz * of_nat ?c) div rate, of_nat ?c)"
      using False assms(1,2) small by (simp add: rte_meter_get_tb_params_def Let_def)
    ultimately show ?thesis unfolding H_def R_def by blast
  qed
qed

section \<open>Configured meters\<close>

text \<open>C40: With a clock and a committed rate of at most 2^56 a single rate marker with valid parameters is configured with full buckets, at least one byte and
  99 cycles per period, and the rate that these stand for is within 1 percent below and 2 percent above the committed rate.\<close>
theorem meter_srtcm_config_close:
  assumes "hz \<noteq> 0" and "unat hz \<le> 2 ^ 56" and "srp_cir p \<noteq> 0" and "unat (srp_cir p) \<le> 2 ^ 56" and "srp_cbs p \<noteq> 0 \<or> srp_ebs p \<noteq> 0"
  shows "\<exists>m'. rte_meter_srtcm_config hz now (Some m) (Some p) = Some (0, Some m') \<and> sr_ok m' \<and> sr_time m' = now \<and>
    sr_tc m' = srp_cbs p \<and> sr_cbs m' = srp_cbs p \<and> sr_te m' = srp_ebs p \<and> sr_ebs m' = srp_ebs p \<and>
    99 \<le> unat (sr_cir_period m') \<and> 1 \<le> unat (sr_cir_bytes_per_period m') \<and>
    99 * (unat (srp_cir p) * unat (sr_cir_period m')) \<le> 100 * (unat hz * unat (sr_cir_bytes_per_period m')) \<and>
    50 * (unat hz * unat (sr_cir_bytes_per_period m')) \<le> 51 * (unat (srp_cir p) * unat (sr_cir_period m'))"
proof -
  obtain period bytes where t: "rte_meter_get_tb_params hz (srp_cir p) = Some (period, bytes)" "99 \<le> unat period" "1 \<le> unat bytes"
    "99 * (unat (srp_cir p) * unat period) \<le> 100 * (unat hz * unat bytes)" "50 * (unat hz * unat bytes) \<le> 51 * (unat (srp_cir p) * unat period)"
    using tb_params_close [OF assms(1,3,2,4)] by blast
  have "period \<noteq> 0" using t(2) by auto
  then show ?thesis using assms(3,5) t by (simp add: rte_meter_srtcm_config_def sr_ok_def)
qed

text \<open>A clock of 2.5 GHz and a rate of 10 Gbit per second.\<close>

theorem meter_srtcm_config_close_witness:
  "\<exists>m'. rte_meter_srtcm_config 2500000000 7 (Some sample_srtcm) (Some \<lparr>srp_cir = 1250000000, srp_cbs = 2048, srp_ebs = 0\<rparr>) = Some (0, Some m') \<and> sr_ok m' \<and>
     99 * (1250000000 * unat (sr_cir_period m')) \<le> 100 * (2500000000 * unat (sr_cir_bytes_per_period m')) \<and>
     50 * (2500000000 * unat (sr_cir_bytes_per_period m')) \<le> 51 * (1250000000 * unat (sr_cir_period m'))"
  using meter_srtcm_config_close [of 2500000000 "\<lparr>srp_cir = 1250000000, srp_cbs = 2048, srp_ebs = 0\<rparr>" 7 sample_srtcm] by auto

lemma trtcm_config_ok:
  assumes "hz \<noteq> 0" and "unat hz \<le> 2 ^ 56" and "trp_cir p \<noteq> 0" and "trp_cir p \<le> trp_pir p" and "unat (trp_pir p) \<le> 2 ^ 56" and "trp_cbs p \<noteq> 0" and "trp_pbs p \<noteq> 0"
  shows "\<exists>m'. rte_meter_trtcm_config hz now (Some m) (Some p) = Some (0, Some m') \<and> tr_ok m' \<and> tr_time_tc m' = now \<and> tr_time_tp m' = now \<and>
    tr_tc m' = tr_cbs m' \<and> tr_tp m' = tr_pbs m'"
proof -
  have "trp_pir p \<noteq> 0" using assms(3,4) by auto
  moreover have "unat (trp_cir p) \<le> 2 ^ 56" using assms(4,5) by (simp add: word_le_nat_alt)
  moreover have "\<not> trp_pir p < trp_cir p" using assms(4) by simp
  ultimately have pir: "trp_pir p \<noteq> 0" "unat (trp_cir p) \<le> 2 ^ 56" "\<not> trp_pir p < trp_cir p" by blast+
  obtain cp cb where c: "rte_meter_get_tb_params hz (trp_cir p) = Some (cp, cb)" "99 \<le> unat cp" using tb_params_close [OF assms(1,3,2) pir(2)] by blast
  obtain pp pb where q: "rte_meter_get_tb_params hz (trp_pir p) = Some (pp, pb)" "99 \<le> unat pp" using tb_params_close [OF assms(1) pir(1) assms(2,5)] by blast
  have "cp \<noteq> 0" "pp \<noteq> 0" using c(2) q(2) by auto
  then show ?thesis using assms(3,6,7) pir c(1) q(1) by (simp add: rte_meter_trtcm_config_def tr_ok_def)
qed

end
