(* ===== verification/Spec2Isabelle.thy ===== *)
theory Spec2Isabelle
  imports Ring_Concurrent_Spec Dpdk_Access_R Pktcapture Firewall_Port Mbuf_Data Eth_Ring_Spec Timer_Manage Malloc_Interface Lpm_Spec Reorder_Order Eth_Ring_Start Meter_Rate
begin

text \<open>
  Verification of the packet processing framework in this repository: a Java framework that reads packets
  from network ports through DPDK 2.0.0, two C applications that do the same work without Java, and the
  DPDK libraries both rest on. Paths below are relative to \<open>src/\<close>; \<open>lib/\<close> stands for \<open>dpdk-2.0.0/lib/\<close>.

  \<^bold>\<open>The program\<close>. A packet arrives at a port of the Ethernet layer (\<open>lib/librte_ether\<close>), whose driver takes
  a packet buffer (\<open>lib/librte_mbuf\<close>) from a pool of equal objects (\<open>lib/librte_mempool\<close>). The pool keeps its free
  objects in a lockless ring (\<open>lib/librte_ring\<close>) with a cache per lcore in front. An application receives bursts of
  packets, decides about each, sends or frees them. The C applications (\<open>apps/c_apps\<close>) do this in
  one loop; the Java framework calls the native methods of \<open>apps/DpdkJava/src/DpdkAccess.c\<close>, which hand
  bursts over in shared memory that both sides read and write by \<open>apps/DpdkJava/src/Utils.c\<close>. The ring driver
  (\<open>lib/librte_pmd_ring\<close>) makes ports out of rings; timers (\<open>lib/librte_timer\<close>) run periodic work.

  \<^bold>\<open>Theories\<close>, in the order of the code's layers. A theory named \<open>_Spec\<close>, \<open>_Props\<close>, \<open>_Queue\<close>, \<open>_Create\<close>, \<open>_Manage\<close>, \<open>_Heap\<close>, \<open>_Free\<close>, \<open>_Interface\<close>, \<open>_Rules\<close>,
  \<open>_Tables\<close>, \<open>_Add\<close>, \<open>_Delete\<close>, \<open>_Lookup\<close>, \<open>_Order\<close>, \<open>_Start\<close>, \<open>_Data\<close>, \<open>_Port\<close>, \<open>_Markers\<close> or \<open>_Rate\<close> holds
  lemmas and properties; the others hold the model.

  \<^item> \<open>Prelude\<close>: C integer types as words, arrays as total functions (a write past the end is visible), counting
    loops, the lemmas on masks and modular indices.
  \<^item> \<open>Ring\<close> models \<open>rte_ring.c\<close> and \<open>rte_ring.h\<close>: the record \<open>rte_ring\<close> with its producer and consumer indices,
    the unrolled copy macros, the single and multi enqueue and dequeue, the bulk and burst wrappers, creation.
    \<open>Queue_Spec\<close> states what a bulk queue promises (locale \<open>bulk_queue\<close>); \<open>Ring_Spec\<close> and \<open>Ring_Queue\<close> prove it for
    the three variants by interpretation, and the exact results, occupancy, initialisation and the water mark.
  \<^item> \<open>Ring_Concurrent\<close>: the multi-producer enqueue and multi-consumer dequeue cut into their accesses to the shared ring,
    interleaved by any number of lcores (\<open>reachable\<close>). \<open>Ring_Concurrent_Spec\<close>: the invariant of all interleavings, the
    refinement of one atomic bounded queue, absence of races, progress, and the stuck call of zero objects.
  \<^item> \<open>Mempool\<close> models \<open>rte_mempool.c\<close> and \<open>rte_mempool.h\<close>. \<open>Mempool_Spec\<close> states a pool's contract (locale \<open>object_pool\<close>, free
    objects as a multiset) and interprets it; \<open>Mempool_Props\<close>: conservation, exact put and get, counts;
    \<open>Mempool_Create\<close>: object sizes, placement and creation of a full pool.
  \<^item> \<open>Mbuf\<close>, \<open>Mbuf_Spec\<close>: \<open>rte_mbuf.h\<close> and \<open>rte_mbuf.c\<close>: the data area operations and their round trips, allocation,
    reference counts, attach and free. \<open>Mbuf_Data\<close>: the addresses of the bytes of a packet of any number of segments, and what prepend, append, adj and trim
    do to them.
  \<^item> \<open>Mem_Utils\<close>, \<open>Eth_Types\<close>, \<open>Dpdk_Access\<close>, \<open>Dpdk_Access_Spec\<close>, \<open>Dpdk_Access_R\<close>: the native methods of the Java framework, in both
    versions in the repository; the device functions they call are a record of functions.
  \<^item> \<open>Firewall\<close>, \<open>Firewall_Spec\<close>, \<open>Pktcapture\<close>: the two C applications, \<open>main.c\<close> each. \<open>Firewall_Port\<close>: what the receive loop relies on
    from a device (locale \<open>packet_device\<close>), the accounting of packet buffers over any number of rounds, and the interpretation of the locale on a port of the ring
    driver.
  \<^item> \<open>Ethdev\<close>, \<open>Ethdev_Spec\<close>: \<open>rte_ethdev.c\<close>, with drivers as records of optional operations. The contract of a driver is the
    locale \<open>eth_driver\<close>. \<open>Eth_Ring\<close> models \<open>rte_eth_ring.c\<close>; \<open>Eth_Ring_Spec\<close> interprets the locale on its operations and
    composes the layers: start-up of a port, bursts in order through port, driver and ring, safe configuration.
  \<^item> \<open>Timer\<close> models \<open>rte_timer.c\<close>, \<open>Timer_Spec\<close> relates its skip lists to sorted lists and proves start and stop,
    \<open>Timer_Manage\<close> the expiry loop.
  \<^item> \<open>Memzone\<close> models \<open>eal_common_memzone.c\<close>, the reservation of zones out of the segments of huge pages. \<open>Memzone_Spec\<close> states what a client
    relies on (locale \<open>zone_supply\<close>), interprets it, and proves reservation and start-up.
  \<^item> \<open>Malloc\<close> models \<open>lib/librte_malloc\<close>: elements with headers, free lists by size, heaps that ask for zones, the
    interface. \<open>Malloc_Spec\<close>: the shape of a heap (\<open>heap_inv\<close>), its blocks in use, and allocation inside an element; \<open>Malloc_Heap\<close>: new
    zones, the search by size, allocation; \<open>Malloc_Free\<close>: merging and freeing; \<open>Malloc_Interface\<close>: the contract of an allocator (locale
    \<open>block_store\<close>), its interpretation, and any sequence of calls.
  \<^item> \<open>Lpm\<close> models \<open>rte_lpm.c\<close> and \<open>rte_lpm.h\<close>, longest prefix match for IPv4. \<open>Lpm_Rules\<close>: the routes as a map from prefixes to next hops,
    the longest match, and the table of rules; \<open>Lpm_Tables\<close>: what the two look-up tables say of an address; \<open>Lpm_Add\<close>, \<open>Lpm_Delete\<close>, \<open>Lpm_Lookup\<close>: each
    operation keeps the tables in step with the routes (\<open>lpm_ok\<close>); \<open>Lpm_Spec\<close>: the interface (locale \<open>route_store\<close>), its interpretation, the
    properties, and the group that an addition overwrites by mistake.
  \<^item> \<open>Reorder\<close> models \<open>rte_reorder.c\<close>, a window of sequence numbers with a list of packets ready to come out. \<open>Reorder_Spec\<close> reads the two circular
    buffers as lists (\<open>holds\<close>) and proves what the loops do to them; \<open>Reorder_Order\<close>: the interface (locale \<open>sequencer\<close>), its interpretation, the
    order of the packets over any run, and the packet that is lost when the ready list fills up.
  \<^item> \<open>Kvargs\<close> models \<open>rte_kvargs.c\<close>; \<open>Kvargs_Spec\<close>: printed pairs are parsed back (locale \<open>printed\<close>), and what the parser may return.
    \<open>Eth_Ring_Args\<close> models the part of \<open>rte_eth_ring.c\<close> that uses it, the start of the driver from device arguments, and the pairs of ports;
    \<open>Eth_Ring_Start\<close>: from printed arguments exactly those entries become ports that get their rings.
  \<^item> \<open>Meter\<close> models \<open>rte_meter.c\<close> and \<open>rte_meter.h\<close>, the two three colour markers, with the rounding of double precision written out.
    \<open>Meter_Spec\<close>: what a token bucket promises, from above and from below (locales \<open>policer\<close> and \<open>fair_policer\<close>); \<open>Meter_Markers\<close>: the four buckets
    of the markers as instances, with the bounds on the traffic of each colour; \<open>Meter_Rate\<close>: the configured rate is close to the one asked for.

  \<^bold>\<open>State, errors, loops\<close>. A structure is a record with the C fields, and an operation takes and returns
  it. Integers keep their width. Behaviour the C standard leaves open (a NULL dereference, a write past an
  allocated buffer, an uninitialised read) and endless loops are values of \<open>c_error\<close>, or \<open>None\<close> where a loop is a
  \<open>partial_function\<close>; the theorems about a call state that it returns. There is no fuel. Loops with a
  bound are functions with a termination proof.

  \<^bold>\<open>Assumptions\<close>. x86-64 with 64-byte cache lines and the configuration of \<open>dpdk-2.0.0/config/common_linuxapp\<close>: 128 lcores, 32 ports,
  \<open>RTE_LIBRTE_ETHDEV_DEBUG\<close> and \<open>RTE_LIBRTE_RING_DEBUG\<close> on (the burst functions of \<open>rte_ethdev.c\<close> with their checks and the statistics of a ring are
  modelled), the debug options of mempool, mbuf, timer, malloc and lpm off. The receive loop of the firewall is run by one
  lcore: \<open>main.c\<close> starts it on every lcore, with \<open>send_list\<close> and \<open>rx_mbufs\<close> shared without a lock, and the theorems about its rounds do not cover
  that. Memory is sequentially consistent at the granularity of one access, which the barriers of the ring
  need on x86 only against the compiler. In the interleaving model a call is not delayed for so long that
  the 32-bit indices wrap around past the value it has read (\<open>timely\<close> restricts \<open>reachable\<close> to such runs, as part of what may
  be run), and calls of zero objects are excluded, since they can wait for ever. A ring has a non-zero
  number of cells that is a power of two. Huge pages are mapped above the first 8 GB of the address
  space; zones of a heap and the requests to it are smaller than 4 GB. Callbacks of timers do not change timers. A
  route of at most 24 bits is added or deleted only where no longer route of at most 24 bits lies inside it (\<open>no_inner\<close>), since the code
  otherwise writes to a group of other addresses (\<open>lpm_add_clobbers\<close>). Time stamps given to a meter do not go
  back, and its clock and rates are at most 2^56. Randomness, time,
  allocation results, the page table and devices are arguments.

  \<^bold>\<open>Not modelled\<close>. Printing (dump functions, logs); cookies, statistics and checks that this configuration compiles out; the
  EAL's start-up against the kernel; hardware drivers; the Java code; the libraries of DPDK that neither the
  applications nor the modelled libraries call (access control, hash, fragmentation, scheduler, packet
  framework and others); tests, examples and the traffic generator. Of \<open>rte_ethdev.c\<close> the functions that
  only pass their arguments to a driver operation, beyond those in \<open>Ethdev\<close>.

  \<^bold>\<open>Plan\<close>. Next the null driver (\<open>lib/librte_pmd_null\<close>) and longest prefix match for IPv6 (\<open>rte_lpm6.c\<close>).
\<close>

end
